(* ===== verification/Flexps_Prelude.thy ===== *)
theory Flexps_Prelude
  imports Main "HOL-Library.Word" "HOL-Library.Multiset"
begin

text \<open>
  Shared material of the development: how a C++ computation that may abort is modelled
  (\<open>'a res\<close>), the machine integers the sources use, the loops that stop at the first
  failure, and \<open>std::map\<close> as a sorted association list (the only ordered container the
  sources iterate over).  Nothing here is specific to one component.
\<close>

section \<open>Results: aborts and undefined behaviour as values\<close>

text \<open>
  A failed \<open>CHECK\<close> (or \<open>LOG(FATAL)\<close>) of glog ends the process; it is the value
  \<open>Check_failed\<close> with the name of the function it stands in.  The other failures are
  behaviours the C++ standard leaves undefined, or a trap of the processor.
\<close>

datatype failure =
    Check_failed string
  | Signed_overflow
  | Out_of_bounds
  | Div_by_zero
  | Bad_function_call
  | Iterator_invalidated
  | Invalid_argument
  | Out_of_range_exception

type_synonym 'a res = "failure + 'a"

named_theorems res_simps "unfolding rules for computations that may fail"
named_theorems msg_simps "field selection on the messages the code builds"
named_theorems inv_intros "preservation of component invariants"

definition bind_res :: "'a res \<Rightarrow> ('a \<Rightarrow> 'b res) \<Rightarrow> 'b res" where
  "bind_res m f = (case m of Inl e \<Rightarrow> Inl e | Inr x \<Rightarrow> f x)"

definition check_that :: "bool \<Rightarrow> failure \<Rightarrow> 'a res \<Rightarrow> 'a res" where
  "check_that b e k = (if b then k else Inl e)"

definition of_opt :: "failure \<Rightarrow> 'a option \<Rightarrow> 'a res" where
  "of_opt e x = (case x of None \<Rightarrow> Inl e | Some y \<Rightarrow> Inr y)"

definition is_ok :: "'a res \<Rightarrow> bool" where
  "is_ok m = (case m of Inl _ \<Rightarrow> False | Inr _ \<Rightarrow> True)"

lemma bind_res_simps [simp]:
  "bind_res (Inl e) f = Inl e"
  "bind_res (Inr x) f = f x"
  by (simp_all add: bind_res_def)

lemma bind_res_Inr_iff [res_simps]:
  "bind_res m f = Inr y \<longleftrightarrow> (\<exists>x. m = Inr x \<and> f x = Inr y)"
  by (cases m) simp_all

lemma bind_res_Inl_iff:
  "bind_res m f = Inl e \<longleftrightarrow> m = Inl e \<or> (\<exists>x. m = Inr x \<and> f x = Inl e)"
  by (cases m) simp_all

lemma check_that_simps [simp]:
  "check_that True e k = k"
  "check_that False e k = Inl e"
  by (simp_all add: check_that_def)

lemma check_that_Inr_iff [res_simps]: "check_that b e k = Inr y \<longleftrightarrow> b \<and> k = Inr y"
  by (cases b) simp_all

lemma of_opt_simps [simp]:
  "of_opt e None = Inl e"
  "of_opt e (Some x) = Inr x"
  by (simp_all add: of_opt_def)

lemma of_opt_Inr_iff [res_simps]: "of_opt e x = Inr y \<longleftrightarrow> x = Some y"
  by (cases x) simp_all

lemma is_ok_simps [simp]:
  "is_ok (Inl e) = False"
  "is_ok (Inr x) = True"
  by (simp_all add: is_ok_def)

lemma is_ok_iff: "is_ok m \<longleftrightarrow> (\<exists>x. m = Inr x)"
  by (cases m) simp_all

lemma bind_res_assoc: "bind_res (bind_res m f) g = bind_res m (\<lambda>x. bind_res (f x) g)"
  by (cases m) simp_all

text \<open>A loop over a sequence whose body may fail: it stops at the first failure.\<close>

fun fold_res :: "('a \<Rightarrow> 's \<Rightarrow> 's res) \<Rightarrow> 'a list \<Rightarrow> 's \<Rightarrow> 's res" where
  "fold_res f [] s = Inr s"
| "fold_res f (x # xs) s = bind_res (f x s) (fold_res f xs)"

lemma fold_res_append:
  "fold_res f (xs @ ys) s = bind_res (fold_res f xs s) (fold_res f ys)"
proof (induction xs arbitrary: s)
  case Nil
  then show ?case by simp
next
  case (Cons x xs)
  then show ?case by (cases "f x s") simp_all
qed

lemma fold_res_invariant:
  assumes "fold_res f xs s = Inr t" and "P s"
    and "\<And>x s t. x \<in> set xs \<Longrightarrow> P s \<Longrightarrow> f x s = Inr t \<Longrightarrow> P t"
  shows "P t"
  using assms
proof (induction xs arbitrary: s)
  case Nil
  then show ?case by simp
next
  case (Cons x xs)
  then obtain s' where st: "f x s = Inr s'" "fold_res f xs s' = Inr t"
    by (auto simp: res_simps)
  have "P s'"
    by (rule Cons.prems(3)[OF _ Cons.prems(2) st(1)]) simp
  then show ?case
    by (rule Cons.IH[OF st(2)]) (rule Cons.prems(3), auto)
qed

text \<open>A loop that maps a fallible function over a sequence.\<close>

fun map_res :: "('a \<Rightarrow> 'b res) \<Rightarrow> 'a list \<Rightarrow> 'b list res" where
  "map_res f [] = Inr []"
| "map_res f (x # xs) = bind_res (f x) (\<lambda>y. bind_res (map_res f xs) (\<lambda>ys. Inr (y # ys)))"

lemma map_res_Inr_iff: "map_res f xs = Inr ys \<longleftrightarrow> list_all2 (\<lambda>x y. f x = Inr y) xs ys"
  by (induction xs arbitrary: ys)
    (auto simp: res_simps list_all2_Cons1)

lemma map_res_total:
  "(\<And>x. x \<in> set xs \<Longrightarrow> f x = Inr (g x)) \<Longrightarrow> map_res f xs = Inr (map g xs)"
  by (induction xs) simp_all

section \<open>Machine integers\<close>

text \<open>
  \<open>uint32_t\<close>, \<open>uint64_t\<close> and \<open>size_t\<close> are words, whose arithmetic wraps.  A C++
  \<open>int\<close> is an \<open>int\<close> whose increments are checked: leaving the 32-bit range is the
  failure \<open>Signed_overflow\<close>.  The conversions between the two are the ones of a
  two's-complement machine.
\<close>

type_synonym u8 = "8 word"
type_synonym u32 = "32 word"
type_synonym u64 = "64 word"

definition to_u32 :: "int \<Rightarrow> u32" where
  "to_u32 x = word_of_int x"

definition to_i32 :: "u32 \<Rightarrow> int" where
  "to_i32 w = sint w"

definition in_i32 :: "int \<Rightarrow> bool" where
  "in_i32 x \<longleftrightarrow> - 2147483648 \<le> x \<and> x \<le> 2147483647"

definition as_i32 :: "int \<Rightarrow> int res" where
  "as_i32 x = (if in_i32 x then Inr x else Inl Signed_overflow)"

lemma as_i32_Inr_iff [res_simps]: "as_i32 x = Inr y \<longleftrightarrow> in_i32 x \<and> y = x"
  by (auto simp: as_i32_def)

lemma as_i32_ok [simp]: "in_i32 x \<Longrightarrow> as_i32 x = Inr x"
  by (simp add: as_i32_def)

lemma to_i32_range: "in_i32 (to_i32 w)"
proof -
  have "sint w \<ge> - (2 ^ (LENGTH(32) - 1))" "sint w < 2 ^ (LENGTH(32) - 1)"
    by (rule sint_ge, rule sint_lt)
  then show ?thesis by (simp add: in_i32_def to_i32_def)
qed

lemma uint_to_u32: "0 \<le> x \<Longrightarrow> x < 4294967296 \<Longrightarrow> uint (to_u32 x) = x"
  by (simp add: to_u32_def uint_word_of_int take_bit_eq_mod)

lemma to_i32_to_u32: "in_i32 x \<Longrightarrow> to_i32 (to_u32 x) = x"
  by (simp add: to_i32_def to_u32_def in_i32_def sint_sbintrunc' signed_take_bit_int_eq_self)

lemma to_u32_to_i32 [simp]: "to_u32 (to_i32 w) = w"
  by (simp add: to_i32_def to_u32_def)

lemma to_i32_eq_uint: "uint w < 2147483648 \<Longrightarrow> to_i32 w = uint w"
proof -
  assume "uint w < 2147483648"
  moreover have "- 2147483648 \<le> uint w"
    by (rule order_trans[OF _ uint_ge_0]) simp
  ultimately show ?thesis
    unfolding to_i32_def sint_uint by (subst signed_take_bit_int_eq_self) simp_all
qed

lemma to_i32_high: "2147483648 \<le> uint w \<Longrightarrow> to_i32 w = uint w - 4294967296"
proof -
  assume high: "2147483648 \<le> uint w"
  have "uint w < 2 ^ LENGTH(32)" by (rule uint_bounded)
  then have "in_i32 (uint w - 4294967296)" using high by (simp add: in_i32_def)
  moreover have "to_u32 (uint w - 4294967296) = w"
    by (simp add: to_u32_def flip: word_of_int_minus)
  ultimately show ?thesis using to_i32_to_u32 by fastforce
qed

lemma to_i32_inj: "to_i32 v = to_i32 w \<longleftrightarrow> v = w"
  by (metis to_u32_to_i32)

lemma unat_ucast_u64 [simp]: "unat (ucast (k::u32) :: u64) = unat k"
proof -
  have "unat k < 2 ^ LENGTH(32)" by (rule unsigned_less)
  then have "unat k < 2 ^ LENGTH(64)" by simp
  then show ?thesis
    by (simp only: unsigned_ucast_eq take_bit_nat_eq_self)
qed

lemma unat_of_nat_small: "n < 2 ^ LENGTH('a) \<Longrightarrow> unat (of_nat n :: 'a::len word) = n"
  by (simp add: unat_of_nat take_bit_nat_eq_self)

lemma unat_Suc_below:
  assumes "unat (k :: u32) < unat (n :: u32)"
  shows "unat (k + 1) = Suc (unat k)"
proof -
  have "1 + k \<noteq> 0"
  proof
    assume "1 + k = 0"
    then have "k = -1" by (metis add.commute add_eq_0_iff)
    then have "n \<le> k" by simp
    with assms show False by (simp add: word_less_nat_alt[symmetric])
  qed
  then show ?thesis by (metis add.commute unatSuc)
qed

lemma ucast_u64_inject [simp]: "(ucast (k::u32) :: u64) = ucast (l::u32) \<longleftrightarrow> k = l"
  by (metis unat_ucast_u64 word_unat_eq_iff)

section \<open>\<open>std::map\<close>: a sorted association list\<close>

type_synonym ('k, 'v) omap = "('k \<times> 'v) list"

abbreviation om_get :: "('k, 'v) omap \<Rightarrow> 'k \<Rightarrow> 'v option" where
  "om_get m \<equiv> map_of m"

fun om_set :: "'k::linorder \<Rightarrow> 'v \<Rightarrow> ('k, 'v) omap \<Rightarrow> ('k, 'v) omap" where
  "om_set k v [] = [(k, v)]"
| "om_set k v ((k', v') # m) =
     (if k = k' then (k, v) # m
      else if k < k' then (k, v) # (k', v') # m
      else (k', v') # om_set k v m)"

definition om_del :: "'k \<Rightarrow> ('k, 'v) omap \<Rightarrow> ('k, 'v) omap" where
  "om_del k m = filter (\<lambda>p. fst p \<noteq> k) m"

text \<open>\<open>insert\<close> of \<open>std::map\<close> keeps an entry that is already there.\<close>

definition om_insert :: "'k::linorder \<Rightarrow> 'v \<Rightarrow> ('k, 'v) omap \<Rightarrow> ('k, 'v) omap" where
  "om_insert k v m = (case om_get m k of None \<Rightarrow> om_set k v m | Some _ \<Rightarrow> m)"

text \<open>\<open>m[k]\<close> of \<open>std::map\<close> reads the entry, and a default where there is none.\<close>

definition get_or :: "'v \<Rightarrow> 'v option \<Rightarrow> 'v" where
  "get_or d x = (case x of None \<Rightarrow> d | Some v \<Rightarrow> v)"

definition om_wf :: "('k::linorder, 'v) omap \<Rightarrow> bool" where
  "om_wf m \<longleftrightarrow> sorted_wrt (<) (map fst m)"

lemma get_or_simps [simp]: "get_or d None = d" "get_or d (Some v) = v"
  by (simp_all add: get_or_def)

lemma om_get_set [simp]: "om_get (om_set k v m) = (om_get m)(k \<mapsto> v)"
  by (induction k v m rule: om_set.induct) auto

lemma om_get_del [simp]: "om_get (om_del k m) = (om_get m)(k := None)"
  by (induction m) (auto simp: om_del_def)

lemma om_get_insert [simp]:
  "om_get (om_insert k v m) = (if om_get m k = None then (om_get m)(k \<mapsto> v) else om_get m)"
  by (auto simp: om_insert_def split: option.split)

lemma set_keys_om_set [simp]: "set (map fst (om_set k v m)) = insert k (set (map fst m))"
  by (induction k v m rule: om_set.induct) auto

lemma om_set_keys_mem: "(x, y) \<in> set (om_set k v m) \<Longrightarrow> x = k \<or> x \<in> fst ` set m"
  using set_keys_om_set[of k v m] by (force simp del: set_keys_om_set)

lemma om_wf_Nil [simp, intro]: "om_wf []"
  by (simp add: om_wf_def)

lemma om_wf_Cons: "om_wf ((k, v) # m) \<longleftrightarrow> (\<forall>x \<in> fst ` set m. k < x) \<and> om_wf m"
  by (auto simp: om_wf_def)

lemma om_wf_set [simp, intro]: "om_wf m \<Longrightarrow> om_wf (om_set k v m)"
  by (induction k v m rule: om_set.induct)
    (auto simp: om_wf_Cons dest!: om_set_keys_mem)

lemma om_wf_del [simp, intro]: "om_wf m \<Longrightarrow> om_wf (om_del k m)"
  by (auto simp: om_wf_def om_del_def intro: sorted_wrt_filter simp: sorted_wrt_map)

lemma om_wf_insert [simp, intro]: "om_wf m \<Longrightarrow> om_wf (om_insert k v m)"
  by (simp add: om_insert_def split: option.split)

lemma om_wf_distinct: "om_wf m \<Longrightarrow> distinct (map fst m)"
  by (simp add: om_wf_def strict_sorted_iff)

lemma om_mem_iff: "om_wf m \<Longrightarrow> (k, v) \<in> set m \<longleftrightarrow> om_get m k = Some v"
  using om_wf_distinct map_of_eq_Some_iff by metis

lemma om_get_Some_mem: "om_get m k = Some v \<Longrightarrow> (k, v) \<in> set m"
  by (rule map_of_SomeD)

lemma om_wf_eqI:
  assumes "om_wf m" "om_wf n" "om_get m = om_get n"
  shows "m = n"
proof -
  have "map_of m = map_of n" by (rule assms(3))
  moreover have "sorted (map fst m)" "distinct (map fst m)"
    "sorted (map fst n)" "distinct (map fst n)"
    using assms by (simp_all add: om_wf_def strict_sorted_iff)
  ultimately have "map fst m = map fst n"
    by (metis dom_map_of_conv_image_fst list.set_map sorted_distinct_set_unique)
  moreover have "map snd m = map snd n"
  proof -
    have "map snd m = map (the \<circ> map_of m) (map fst m)"
      using \<open>distinct (map fst m)\<close> by (auto simp: map_of_is_SomeI)
    moreover have "map snd n = map (the \<circ> map_of n) (map fst n)"
      using \<open>distinct (map fst n)\<close> by (auto simp: map_of_is_SomeI)
    ultimately show ?thesis
      using \<open>map fst m = map fst n\<close> assms(3) by simp
  qed
  ultimately show ?thesis
    by (metis zip_map_fst_snd)
qed

text \<open>Adding up a weight over the entries of a map.\<close>

definition om_weight :: "('v \<Rightarrow> 'a::comm_monoid_add) \<Rightarrow> ('k, 'v) omap \<Rightarrow> 'a" where
  "om_weight w m = sum_list (map (\<lambda>p. w (snd p)) m)"

lemma om_weight_simps [simp]:
  "om_weight w [] = 0"
  "om_weight w ((k, v) # m) = w v + om_weight w m"
  by (simp_all add: om_weight_def)

lemma om_get_below: "\<forall>x \<in> fst ` set m. k < x \<Longrightarrow> om_get m (k::'k::linorder) = None"
  by (auto simp: map_of_eq_None_iff)

lemma om_weight_set:
  assumes "om_wf m" "w d = 0"
  shows "om_weight w (om_set k v m) + w (get_or d (om_get m k)) = om_weight w m + w v"
  using assms(1)
proof (induction m)
  case Nil
  then show ?case using assms(2) by simp
next
  case (Cons p m)
  obtain k' v' where p: "p = (k', v')" by force
  have wf: "om_wf m" "\<forall>x \<in> fst ` set m. k' < x"
    using Cons.prems by (auto simp: p om_wf_Cons)
  consider "k = k'" | "k < k'" | "k \<noteq> k'" "\<not> k < k'" by blast
  then show ?case
  proof cases
    case 2
    with wf(2) have "om_get m k = None" by (intro om_get_below) auto
    with 2 show ?thesis by (simp add: p assms(2) ac_simps)
  qed (use Cons.IH[OF wf(1)] in \<open>simp_all add: p ac_simps\<close>)
qed

lemma om_weight_del:
  assumes "om_wf m" "w d = 0"
  shows "om_weight w (om_del k m) + w (get_or d (om_get m k)) = om_weight w m"
  using assms(1)
proof (induction m)
  case Nil
  then show ?case using assms(2) by (simp add: om_del_def)
next
  case (Cons p m)
  obtain k' v' where p: "p = (k', v')" by force
  have wf: "om_wf m" "\<forall>x \<in> fst ` set m. k' < x"
    using Cons.prems by (auto simp: p om_wf_Cons)
  show ?case
  proof (cases "k = k'")
    case True
    with wf(2) have "om_get m k = None" by (intro om_get_below) simp
    with True Cons.IH[OF wf(1)] show ?thesis by (simp add: p om_del_def assms(2) ac_simps)
  qed (use Cons.IH[OF wf(1)] in \<open>simp add: p om_del_def ac_simps\<close>)
qed

section \<open>Lists\<close>

lemma sorted_wrt_le_take_drop:
  "sorted xs \<Longrightarrow> a \<in> set (take n xs) \<Longrightarrow> b \<in> set (drop n xs) \<Longrightarrow> a \<le> (b::'a::linorder)"
  by (metis append_take_drop_id sorted_append)

lemma sum_list_update_gen:
  "i < length xs \<Longrightarrow>
     sum_list (map f (xs[i := x])) + f (xs ! i) = sum_list (map f xs) + (f x :: 'a::comm_monoid_add)"
proof (induction xs arbitrary: i)
  case Nil
  then show ?case by simp
next
  case (Cons y ys)
  then show ?case
  proof (cases i)
    case 0
    then show ?thesis by (simp add: ac_simps)
  next
    case (Suc j)
    with Cons.prems Cons.IH[of j] show ?thesis by (simp add: ac_simps)
  qed
qed

lemma list_all2_set2: "list_all2 P xs ys \<Longrightarrow> y \<in> set ys \<Longrightarrow> \<exists>x \<in> set xs. P x y"
  by (induction rule: list_all2_induct) auto

lemma length_concat_const:
  "(\<And>x. x \<in> set xs \<Longrightarrow> length (f x) = n) \<Longrightarrow> length (concat (map f xs)) = n * length xs"
  by (induction xs) simp_all

end
