(* ===== verification/Byte_Codec.thy ===== *)
theory Byte_Codec
  imports Flexps_Prelude
begin

text \<open>
  The bytes of the fixed-size values the system ships around: a value of a trivially
  copyable type is its \<open>sizeof\<close> bytes in memory, least significant byte first (the
  machines the code runs on).  A type is described by a record \<open>pod\<close>; the locale
  \<open>pod_type\<close> states what such a description promises, and is interpreted for the types
  the code copies: bytes, \<open>uint32_t\<close>, \<open>int\<close>, \<open>size_t\<close> and \<open>bool\<close>.
\<close>

section \<open>Little-endian numbers\<close>

fun le_bytes :: "nat \<Rightarrow> nat \<Rightarrow> u8 list" where
  "le_bytes 0 x = []"
| "le_bytes (Suc n) x = of_nat (x mod 256) # le_bytes n (x div 256)"

fun le_nat :: "u8 list \<Rightarrow> nat" where
  "le_nat [] = 0"
| "le_nat (b # bs) = unat b + 256 * le_nat bs"

lemma length_le_bytes [simp]: "length (le_bytes n x) = n"
  by (induction n arbitrary: x) simp_all

lemma unat_of_nat_byte: "unat (of_nat (x mod 256) :: u8) = x mod 256"
  by (simp add: unat_of_nat take_bit_eq_mod)

lemma le_nat_le_bytes: "le_nat (le_bytes n x) = x mod 256 ^ n"
proof (induction n arbitrary: x)
  case 0
  then show ?case by simp
next
  case (Suc n)
  have "le_nat (le_bytes (Suc n) x) = x mod 256 + 256 * ((x div 256) mod 256 ^ n)"
    by (simp add: Suc.IH unat_of_nat_byte)
  also have "\<dots> = x mod (256 * 256 ^ n)"
    by (simp add: mod_mult2_eq)
  finally show ?case by simp
qed

section \<open>Descriptions of trivially copyable types\<close>

record 'a pod =
  pod_size :: nat
  pod_enc :: "'a \<Rightarrow> u8 list"
  pod_dec :: "u8 list \<Rightarrow> 'a"

locale pod_type =
  fixes P :: "'a pod"
    and ok :: "'a \<Rightarrow> bool"
  assumes size_pos: "0 < pod_size P"
    and length_enc: "length (pod_enc P x) = pod_size P"
    and dec_enc: "ok x \<Longrightarrow> pod_dec P (pod_enc P x) = x"

definition byte_pod :: "u8 pod" where
  "byte_pod = \<lparr>pod_size = 1, pod_enc = (\<lambda>b. [b]), pod_dec = hd\<rparr>"

definition u32_pod :: "u32 pod" where
  "u32_pod = \<lparr>pod_size = 4, pod_enc = (\<lambda>w. le_bytes 4 (unat w)), pod_dec = (\<lambda>bs. of_nat (le_nat bs))\<rparr>"

definition u64_pod :: "nat pod" where
  "u64_pod = \<lparr>pod_size = 8, pod_enc = le_bytes 8, pod_dec = le_nat\<rparr>"

definition i32_pod :: "int pod" where
  "i32_pod = \<lparr>pod_size = 4, pod_enc = (\<lambda>x. le_bytes 4 (unat (to_u32 x))),
              pod_dec = (\<lambda>bs. to_i32 (of_nat (le_nat bs)))\<rparr>"

definition bool_pod :: "bool pod" where
  "bool_pod = \<lparr>pod_size = 1, pod_enc = (\<lambda>b. [if b then 1 else 0]), pod_dec = (\<lambda>bs. hd bs \<noteq> 0)\<rparr>"

definition u64_ok :: "nat \<Rightarrow> bool" where
  "u64_ok n \<longleftrightarrow> n < 2 ^ 64"

lemma u32_dec_enc: "of_nat (le_nat (le_bytes 4 (unat w))) = (w::u32)"
proof -
  have "unat w < 2 ^ LENGTH(32)" by (rule unsigned_less)
  then show ?thesis by (simp add: le_nat_le_bytes)
qed

interpretation byte_pod: pod_type byte_pod "\<lambda>_. True"
  by unfold_locales (simp_all add: byte_pod_def)

interpretation u32_pod: pod_type u32_pod "\<lambda>_. True"
  by unfold_locales (simp_all add: u32_pod_def u32_dec_enc)

interpretation u64_pod: pod_type u64_pod u64_ok
  by unfold_locales (simp_all add: u64_pod_def u64_ok_def le_nat_le_bytes)

interpretation i32_pod: pod_type i32_pod in_i32
  by unfold_locales (simp_all add: i32_pod_def u32_dec_enc to_i32_to_u32)

interpretation bool_pod: pod_type bool_pod "\<lambda>_. True"
  by unfold_locales (simp_all add: bool_pod_def)

section \<open>Arrays of such values as bytes\<close>

text \<open>
  \<open>SArray<char>(arr)\<close> reads the memory of an array as bytes, \<open>SArray<V>(chars)\<close> reads
  bytes as values of \<open>V\<close>; a last, incomplete value is dropped, since the number of
  elements is the number of bytes divided by \<open>sizeof(V)\<close>.
\<close>

definition enc_array :: "'a pod \<Rightarrow> 'a list \<Rightarrow> u8 list" where
  "enc_array P xs = concat (map (pod_enc P) xs)"

fun dec_n :: "'a pod \<Rightarrow> nat \<Rightarrow> u8 list \<Rightarrow> 'a list" where
  "dec_n P 0 bs = []"
| "dec_n P (Suc n) bs = pod_dec P (take (pod_size P) bs) # dec_n P n (drop (pod_size P) bs)"

definition dec_array :: "'a pod \<Rightarrow> u8 list \<Rightarrow> 'a list" where
  "dec_array P bs = dec_n P (length bs div pod_size P) bs"

lemma enc_array_simps [simp]:
  "enc_array P [] = []"
  "enc_array P (x # xs) = pod_enc P x @ enc_array P xs"
  by (simp_all add: enc_array_def)

lemma enc_array_append [simp]: "enc_array P (xs @ ys) = enc_array P xs @ enc_array P ys"
  by (simp add: enc_array_def)

lemma length_dec_n [simp]: "length (dec_n P n bs) = n"
  by (induction n arbitrary: bs) simp_all

lemma length_dec_array [simp]: "length (dec_array P bs) = length bs div pod_size P"
  by (simp add: dec_array_def)

lemma dec_array_Nil [simp]: "dec_array P [] = []"
  by (simp add: dec_array_def)

context pod_type
begin

lemma length_enc_array: "length (enc_array P xs) = pod_size P * length xs"
  unfolding enc_array_def by (rule length_concat_const) (rule length_enc)

lemma dec_n_enc_array:
  "list_all ok xs \<Longrightarrow> dec_n P (length xs) (enc_array P xs @ rest) = xs"
  by (induction xs) (simp_all add: length_enc dec_enc)

lemma dec_enc_array: "list_all ok xs \<Longrightarrow> dec_array P (enc_array P xs) = xs"
  using dec_n_enc_array[of xs "[]"] size_pos
  by (simp add: dec_array_def length_enc_array)

lemma enc_array_eq_Nil: "enc_array P xs = [] \<longleftrightarrow> xs = []"
  using size_pos length_enc_array[of xs] by (cases xs) auto

lemma drop_enc_array: "drop (pod_size P * n) (enc_array P xs) = enc_array P (drop n xs)"
proof (induction n arbitrary: xs)
  case 0
  then show ?case by simp
next
  case (Suc n)
  then show ?case
    by (cases xs) (simp_all add: length_enc)
qed

lemma take_enc_array: "take (pod_size P * n) (enc_array P xs) = enc_array P (take n xs)"
proof (induction n arbitrary: xs)
  case 0
  then show ?case by simp
next
  case (Suc n)
  then show ?case
    by (cases xs) (simp_all add: length_enc)
qed

end

text \<open>Keys are \<open>uint32_t\<close>; these are the two casts every message with keys goes through.\<close>

definition keys_of :: "u8 list \<Rightarrow> u32 list" where
  "keys_of bs = dec_array u32_pod bs"

definition bytes_of_keys :: "u32 list \<Rightarrow> u8 list" where
  "bytes_of_keys ks = enc_array u32_pod ks"

lemma keys_of_bytes_of_keys [simp]: "keys_of (bytes_of_keys ks) = ks"
  unfolding keys_of_def bytes_of_keys_def
  by (rule u32_pod.dec_enc_array) (simp add: list_all_iff)

lemma bytes_of_keys_eq_Nil [simp]: "bytes_of_keys ks = [] \<longleftrightarrow> ks = []"
  by (simp add: bytes_of_keys_def u32_pod.enc_array_eq_Nil)

lemma length_keys_of [simp]: "length (keys_of bs) = length bs div 4"
  by (simp add: keys_of_def u32_pod_def)

lemma length_bytes_of_keys [simp]: "length (bytes_of_keys ks) = 4 * length ks"
  unfolding bytes_of_keys_def using u32_pod.length_enc_array[of ks] by (simp add: u32_pod_def)

lemma keys_of_Nil [simp]: "keys_of [] = []"
  by (simp add: keys_of_def)

end
