(* ===== verification/Shared_Array.thy ===== *)
theory Shared_Array
  imports Byte_Codec
begin

text \<open>
  \<open>base/third_party/range.h\<close> and \<open>base/third_party/sarray.h\<close>: ranges of keys and the
  array type every message is made of.  An array is its memory cells and the number of
  cells in use; the capacity is the number of cells.  Copies of an array share the cells
  in C++; no component writes through a copy, so the model passes arrays by value.  The
  rest of the development works on the list of elements in use (\<open>elems\<close>); the
  interpretation of \<open>dyn_array\<close> at the end is the justification.
\<close>

section \<open>Ranges\<close>

record range =
  rbegin :: u64
  rend :: u64

definition range_size :: "range \<Rightarrow> u64" where
  "range_size r = rend r - rbegin r"

definition in_range :: "range \<Rightarrow> u32 \<Rightarrow> bool" where
  "in_range r k \<longleftrightarrow> rbegin r \<le> ucast k \<and> (ucast k :: u64) < rend r"

lemma unat_range_size: "rbegin r \<le> rend r \<Longrightarrow> unat (range_size r) = unat (rend r) - unat (rbegin r)"
  by (simp add: range_size_def unat_sub)

section \<open>Binary search: \<open>std::lower_bound\<close>\<close>

text \<open>
  The search of the C++ library: it halves the part of the array that may hold the first
  element for which \<open>below\<close> (the comparison with the searched value) is false.
\<close>

function lower_bound_loop :: "('a \<Rightarrow> bool) \<Rightarrow> 'a list \<Rightarrow> nat \<Rightarrow> nat \<Rightarrow> nat" where
  "lower_bound_loop below xs first len =
     (if len = 0 then first
      else let half = len div 2; middle = first + half
           in if below (xs ! middle)
              then lower_bound_loop below xs (middle + 1) (len - half - 1)
              else lower_bound_loop below xs first half)"
  by pat_completeness auto
termination
  by (relation "measure (\<lambda>(below, xs, first, len). len)") auto

declare lower_bound_loop.simps [simp del]

definition lower_bound :: "('a \<Rightarrow> bool) \<Rightarrow> 'a list \<Rightarrow> nat \<Rightarrow> nat" where
  "lower_bound below xs first = lower_bound_loop below xs first (length xs - first)"

text \<open>On a partitioned array the search finds the partition point.\<close>

definition split_at :: "('a \<Rightarrow> bool) \<Rightarrow> 'a list \<Rightarrow> nat \<Rightarrow> bool" where
  "split_at below xs p \<longleftrightarrow> p \<le> length xs \<and> (\<forall>i < p. below (xs ! i)) \<and> (\<forall>i. p \<le> i \<and> i < length xs \<longrightarrow> \<not> below (xs ! i))"

lemma lower_bound_loop_eq:
  assumes "split_at below xs p" "first \<le> p" "p \<le> first + len" "first + len \<le> length xs"
  shows "lower_bound_loop below xs first len = p"
  using assms
proof (induction below xs first len rule: lower_bound_loop.induct)
  case (1 below xs first len)
  show ?case
  proof (cases "len = 0")
    case True
    with 1 show ?thesis by (simp add: lower_bound_loop.simps)
  next
    case False
    let ?m = "first + len div 2"
    have m: "?m < length xs" using False "1.prems"(4) by linarith
    show ?thesis
    proof (cases "below (xs ! ?m)")
      case True
      then have "?m < p"
        using "1.prems"(1) m by (auto simp: split_at_def not_less[symmetric])
      with True False "1.IH"(1)[OF False refl refl True] "1.prems" show ?thesis
        by (subst lower_bound_loop.simps) (auto simp: Let_def)
    next
      case nless: False
      then have "p \<le> ?m"
        using "1.prems"(1) by (auto simp: split_at_def not_less[symmetric])
      with nless False "1.IH"(2)[OF False refl refl nless] "1.prems" show ?thesis
        by (subst lower_bound_loop.simps) (auto simp: Let_def)
    qed
  qed
qed

lemma lower_bound_eq:
  "split_at below xs p \<Longrightarrow> first \<le> p \<Longrightarrow> lower_bound below xs first = p"
  unfolding lower_bound_def
  by (rule lower_bound_loop_eq) (auto simp: split_at_def)

lemma split_at_takeWhile:
  assumes "sorted_wrt (\<lambda>x y. below y \<longrightarrow> below x) xs"
  shows "split_at below xs (length (takeWhile below xs))"
proof -
  let ?p = "length (takeWhile below xs)"
  have "below (xs ! i)" if "i < ?p" for i
    using that by (metis nth_mem set_takeWhileD takeWhile_nth)
  moreover have "\<not> below (xs ! i)" if "?p \<le> i" "i < length xs" for i
  proof
    assume "below (xs ! i)"
    then have "below (xs ! ?p)"
      using assms that sorted_wrt_nth_less[OF assms, of ?p i] by (cases "?p = i") auto
    moreover have "\<not> below (xs ! ?p)"
      using that nth_length_takeWhile[of below xs] by simp
    ultimately show False by simp
  qed
  ultimately show ?thesis
    by (auto simp: split_at_def length_takeWhile_le)
qed

text \<open>\<open>FindRange\<close>: the positions of the elements in \<open>[lower, upper)\<close>.\<close>

definition find_range :: "u32 list \<Rightarrow> u32 \<Rightarrow> u32 \<Rightarrow> range" where
  "find_range xs lower upper =
     (if upper \<le> lower then \<lparr>rbegin = 0, rend = 0\<rparr>
      else \<lparr>rbegin = of_nat (lower_bound (\<lambda>x. x < lower) xs 0),
            rend = of_nat (lower_bound (\<lambda>x. x < upper) xs 0)\<rparr>)"

lemma sorted_split_at:
  "sorted xs \<Longrightarrow> split_at (\<lambda>x. x < (v::'a::linorder)) xs (length (filter (\<lambda>x. x < v) xs))"
proof -
  assume s: "sorted xs"
  have "takeWhile (\<lambda>x. x < v) xs = filter (\<lambda>x. x < v) xs"
    using s
  proof (induction xs)
    case (Cons x xs)
    then have "\<not> x < v \<Longrightarrow> filter (\<lambda>x. x < v) xs = []"
      by (auto simp: filter_empty_conv not_less dest: order_trans)
    with Cons show ?case by auto
  qed simp
  moreover have "sorted_wrt (\<lambda>x y. y < v \<longrightarrow> x < v) xs"
    using s by (rule sorted_wrt_mono_rel[rotated]) auto
  ultimately show ?thesis
    using split_at_takeWhile[of "\<lambda>x. x < v" xs] by simp
qed

lemma lower_bound_sorted:
  "sorted xs \<Longrightarrow> lower_bound (\<lambda>x. x < (v::'a::linorder)) xs 0 = length (filter (\<lambda>x. x < v) xs)"
  by (rule lower_bound_eq[OF sorted_split_at]) simp_all

lemma find_range_size:
  assumes "sorted xs" "lower < upper" "length xs < 2 ^ 64"
  shows "unat (range_size (find_range xs lower upper))
           = length (filter (\<lambda>x. lower \<le> x \<and> x < upper) xs)"
proof -
  let ?l = "length (filter (\<lambda>x. x < lower) xs)" and ?u = "length (filter (\<lambda>x. x < upper) xs)"
  have len: "?u = ?l + length (filter (\<lambda>x. lower \<le> x \<and> x < upper) xs)"
  proof -
    have "length (filter (\<lambda>x. x < upper) xs)
        = length (filter (\<lambda>x. x < lower) (filter (\<lambda>x. x < upper) xs))
          + length (filter (\<lambda>x. \<not> x < lower) (filter (\<lambda>x. x < upper) xs))"
      by (rule sum_length_filter_compl[symmetric])
    moreover have "filter (\<lambda>x. x < lower) (filter (\<lambda>x. x < upper) xs) = filter (\<lambda>x. x < lower) xs"
      using assms(2) by (auto intro: filter_cong)
    moreover have "filter (\<lambda>x. \<not> x < lower) (filter (\<lambda>x. x < upper) xs)
        = filter (\<lambda>x. lower \<le> x \<and> x < upper) xs"
      by (auto intro: filter_cong)
    ultimately show ?thesis by simp
  qed
  have "?u < 2 ^ 64" "?l < 2 ^ 64"
    using length_filter_le[of "\<lambda>x. x < upper" xs] length_filter_le[of "\<lambda>x. x < lower" xs] assms(3)
    by linarith+
  then have "unat (of_nat ?u :: u64) = ?u" "unat (of_nat ?l :: u64) = ?l"
    by (simp_all add: unat_of_nat take_bit_nat_eq_self)
  then have "unat (of_nat ?u - of_nat ?l :: u64) = ?u - ?l"
    using len by (subst unat_sub) (simp_all add: word_le_nat_alt)
  moreover have "\<not> upper \<le> lower"
    using assms(2) by (simp add: not_le)
  ultimately show ?thesis
    using len by (simp add: find_range_def range_size_def lower_bound_sorted[OF assms(1)])
qed

section \<open>The shared array\<close>

record 'a sarray =
  sa_size :: nat
  sa_cells :: "'a list"

definition sa_capacity :: "'a sarray \<Rightarrow> nat" where
  "sa_capacity a = length (sa_cells a)"

definition sa_empty :: "'a sarray" where
  "sa_empty = \<lparr>sa_size = 0, sa_cells = []\<rparr>"

definition sa_reset :: "'a list \<Rightarrow> 'a sarray" where
  "sa_reset cells = \<lparr>sa_size = length cells, sa_cells = cells\<rparr>"

definition sa_resize :: "nat \<Rightarrow> 'a \<Rightarrow> 'a sarray \<Rightarrow> 'a sarray" where
  "sa_resize n v a =
     (let cur_n = sa_size a;
          cells = (if n \<le> sa_capacity a then sa_cells a
                   else take cur_n (sa_cells a) @ replicate (n - cur_n) v)
      in if n \<le> cur_n then \<lparr>sa_size = n, sa_cells = cells\<rparr>
         else \<lparr>sa_size = n, sa_cells = take cur_n cells @ replicate (n - cur_n) v @ drop n cells\<rparr>)"

definition sa_reserve :: "nat \<Rightarrow> 'a \<Rightarrow> 'a sarray \<Rightarrow> 'a sarray" where
  "sa_reserve n zero a =
     (if n \<le> sa_capacity a then a
      else (sa_resize n zero a)\<lparr>sa_size := sa_size a\<rparr>)"

definition sa_push_back :: "'a \<Rightarrow> 'a \<Rightarrow> 'a sarray \<Rightarrow> 'a sarray" where
  "sa_push_back zero x a =
     (let a' = (if sa_size a = sa_capacity a then sa_reserve (sa_size a * 2 + 5) zero a else a)
      in \<lparr>sa_size = sa_size a' + 1, sa_cells = (sa_cells a')[sa_size a' := x]\<rparr>)"

definition sa_pop_back :: "'a sarray \<Rightarrow> 'a sarray" where
  "sa_pop_back a = (if sa_size a \<noteq> 0 then a\<lparr>sa_size := sa_size a - 1\<rparr> else a)"

definition sa_elems :: "'a sarray \<Rightarrow> 'a list" where
  "sa_elems a = take (sa_size a) (sa_cells a)"

definition sa_copy_from :: "'a list \<Rightarrow> 'a \<Rightarrow> 'a sarray \<Rightarrow> 'a sarray" where
  "sa_copy_from src zero a =
     (let a' = sa_resize (length src) zero a
      in a'\<lparr>sa_cells := src @ drop (length src) (sa_cells a')\<rparr>)"

definition sa_append :: "'a sarray \<Rightarrow> 'a \<Rightarrow> 'a sarray \<Rightarrow> 'a sarray" where
  "sa_append arr zero a =
     (if sa_size arr = 0 then a
      else let orig = sa_size a; a' = sa_resize (sa_size a + sa_size arr) zero a
           in a'\<lparr>sa_cells := take orig (sa_cells a') @ sa_elems arr
                              @ drop (orig + sa_size arr) (sa_cells a')\<rparr>)"

definition sa_segment :: "nat \<Rightarrow> nat \<Rightarrow> 'a sarray \<Rightarrow> 'a sarray" where
  "sa_segment b e a = \<lparr>sa_size = e - b, sa_cells = take (e - b) (drop b (sa_cells a))\<rparr>"

definition sa_cast :: "'a pod \<Rightarrow> 'b pod \<Rightarrow> 'a sarray \<Rightarrow> 'b sarray" where
  "sa_cast PW PV a =
     \<lparr>sa_size = sa_size a * pod_size PW div pod_size PV,
      sa_cells = dec_n PV (sa_capacity a * pod_size PW div pod_size PV) (enc_array PW (sa_cells a))\<rparr>"

definition sa_wf :: "'a sarray \<Rightarrow> bool" where
  "sa_wf a \<longleftrightarrow> sa_size a \<le> length (sa_cells a)"

text \<open>The contract clients rely on: a growable sequence, and every operation keeps it so.\<close>

locale dyn_array =
  fixes wf :: "'r \<Rightarrow> bool"
    and elems :: "'r \<Rightarrow> 'a list"
    and new :: 'r
    and resize :: "nat \<Rightarrow> 'a \<Rightarrow> 'r \<Rightarrow> 'r"
    and push :: "'a \<Rightarrow> 'r \<Rightarrow> 'r"
    and pop :: "'r \<Rightarrow> 'r"
  assumes wf_new: "wf new" and elems_new: "elems new = []"
    and wf_resize: "wf a \<Longrightarrow> wf (resize n v a)"
    and elems_resize: "wf a \<Longrightarrow>
          elems (resize n v a) = take n (elems a) @ replicate (n - length (elems a)) v"
    and wf_push: "wf a \<Longrightarrow> wf (push x a)"
    and elems_push: "wf a \<Longrightarrow> elems (push x a) = elems a @ [x]"
    and wf_pop: "wf a \<Longrightarrow> wf (pop a)"
    and elems_pop: "wf a \<Longrightarrow> elems (pop a) = butlast (elems a)"
begin

lemma push_all:
  "wf a \<Longrightarrow> wf (fold push xs a) \<and> elems (fold push xs a) = elems a @ xs"
  by (induction xs arbitrary: a) (simp_all add: wf_push elems_push)

lemma pop_push: "wf a \<Longrightarrow> elems (pop (push x a)) = elems a"
  by (simp add: elems_pop elems_push wf_push)

end

lemma length_sa_elems: "sa_wf a \<Longrightarrow> length (sa_elems a) = sa_size a"
  by (simp add: sa_wf_def sa_elems_def)

lemma sa_resize_wf: "sa_wf a \<Longrightarrow> sa_wf (sa_resize n v a)"
  by (auto simp: sa_wf_def sa_resize_def sa_capacity_def Let_def)

lemma sa_resize_elems:
  "sa_wf a \<Longrightarrow> sa_elems (sa_resize n v a) = take n (sa_elems a) @ replicate (n - length (sa_elems a)) v"
  by (auto simp: sa_wf_def sa_resize_def sa_capacity_def sa_elems_def Let_def min_def)

lemma sa_reserve_props:
  assumes "sa_wf a"
  shows "sa_wf (sa_reserve n z a)" "sa_size (sa_reserve n z a) = sa_size a"
    "sa_elems (sa_reserve n z a) = sa_elems a"
    "n \<le> length (sa_cells (sa_reserve n z a))"
  using assms by (auto simp: sa_wf_def sa_reserve_def sa_resize_def sa_capacity_def sa_elems_def Let_def)

lemma sa_push_back_wf_elems:
  assumes wf: "sa_wf a"
  shows "sa_wf (sa_push_back z x a)" "sa_elems (sa_push_back z x a) = sa_elems a @ [x]"
proof -
  define a' where
    "a' = (if sa_size a = sa_capacity a then sa_reserve (sa_size a * 2 + 5) z a else a)"
  have a': "sa_size a' = sa_size a" "sa_elems a' = sa_elems a" "sa_size a' < length (sa_cells a')"
    using wf sa_reserve_props[OF wf, of "sa_size a * 2 + 5" z]
    by (auto simp: a'_def sa_wf_def sa_capacity_def)
  have push: "sa_push_back z x a = \<lparr>sa_size = sa_size a' + 1, sa_cells = (sa_cells a')[sa_size a' := x]\<rparr>"
    by (simp add: sa_push_back_def a'_def Let_def)
  show "sa_wf (sa_push_back z x a)"
    using a' by (simp add: push sa_wf_def)
  show "sa_elems (sa_push_back z x a) = sa_elems a @ [x]"
    using a' by (simp add: push sa_elems_def take_Suc_conv_app_nth)
qed

interpretation sarray: dyn_array sa_wf sa_elems sa_empty sa_resize "sa_push_back z" sa_pop_back
proof unfold_locales
  show "sa_wf sa_empty" "sa_elems sa_empty = []"
    by (simp_all add: sa_wf_def sa_elems_def sa_empty_def)
  fix a :: "'a sarray" and n v x
  assume wf: "sa_wf a"
  show "sa_wf (sa_resize n v a)"
    "sa_elems (sa_resize n v a) = take n (sa_elems a) @ replicate (n - length (sa_elems a)) v"
    using wf by (rule sa_resize_wf, rule sa_resize_elems)
  show "sa_wf (sa_push_back z x a)" "sa_elems (sa_push_back z x a) = sa_elems a @ [x]"
    using wf by (rule sa_push_back_wf_elems)+
  show "sa_wf (sa_pop_back a)" "sa_elems (sa_pop_back a) = butlast (sa_elems a)"
    using wf by (auto simp: sa_wf_def sa_pop_back_def sa_elems_def butlast_take)
qed

lemma sa_copy_from_elems: "sa_wf a \<Longrightarrow> sa_elems (sa_copy_from src z a) = src"
  by (auto simp: sa_copy_from_def sa_elems_def sa_resize_def Let_def)

lemma sa_append_elems:
  assumes "sa_wf a" "sa_wf arr"
  shows "sa_elems (sa_append arr z a) = sa_elems a @ sa_elems arr"
proof (cases "sa_size arr = 0")
  case True
  then show ?thesis by (simp add: sa_append_def sa_elems_def)
next
  case False
  let ?a' = "sa_resize (sa_size a + sa_size arr) z a"
  have "sa_size ?a' = sa_size a + sa_size arr"
    by (auto simp: sa_resize_def Let_def)
  moreover have "take (sa_size a) (sa_cells ?a') = sa_elems a"
    using assms(1) by (auto simp: sa_resize_def sa_elems_def sa_wf_def sa_capacity_def Let_def min_def)
  moreover have "length (sa_elems a) = sa_size a" "length (sa_elems arr) = sa_size arr"
    using assms by (simp_all add: length_sa_elems)
  ultimately show ?thesis
    using False by (simp add: sa_append_def Let_def sa_elems_def)
qed

lemma sa_segment_elems:
  "b \<le> e \<Longrightarrow> e \<le> sa_size a \<Longrightarrow> sa_elems (sa_segment b e a) = take (e - b) (drop b (sa_elems a))"
  by (simp add: sa_segment_def sa_elems_def take_drop min_def)

end
