(* ===== verification/Bin_Stream.thy ===== *)
theory Bin_Stream
  imports Shared_Array
begin

text \<open>
  \<open>base/serialization.hpp\<close> and \<open>base/serialization.cpp\<close>: the byte stream the master and
  the loaders talk over.  A stream is its buffer and the read position \<open>front\<close>.  Reading
  past the buffer is undefined in C++ and the failure \<open>Out_of_bounds\<close> here.  The
  \<open>operator<<\<close> and \<open>operator>>\<close> of a type form a serializer; the locale \<open>serializer\<close>
  states the contract (what is written is what is read, and the rest of the stream is left
  alone), and is interpreted for every overload modelled.
\<close>

section \<open>The stream\<close>

record bin_stream =
  bs_buffer :: "u8 list"
  bs_front :: nat

definition bs_new :: bin_stream where
  "bs_new = \<lparr>bs_buffer = [], bs_front = 0\<rparr>"

definition bs_of_size :: "nat \<Rightarrow> bin_stream" where
  "bs_of_size n = \<lparr>bs_buffer = replicate n 0, bs_front = 0\<rparr>"

definition push_back_bytes :: "u8 list \<Rightarrow> bin_stream \<Rightarrow> bin_stream" where
  "push_back_bytes src s = s\<lparr>bs_buffer := bs_buffer s @ src\<rparr>"

definition bs_of_bytes :: "u8 list \<Rightarrow> bin_stream" where
  "bs_of_bytes src = push_back_bytes src bs_new"

definition pop_front_bytes :: "nat \<Rightarrow> bin_stream \<Rightarrow> (u8 list \<times> bin_stream) res" where
  "pop_front_bytes n s =
     (if bs_front s + n \<le> length (bs_buffer s)
      then Inr (take n (drop (bs_front s) (bs_buffer s)), s\<lparr>bs_front := bs_front s + n\<rparr>)
      else Inl Out_of_bounds)"

definition bs_size :: "bin_stream \<Rightarrow> nat" where
  "bs_size s = nat ((int (length (bs_buffer s)) - int (bs_front s)) mod 2 ^ 64)"

definition bs_hash :: "bin_stream \<Rightarrow> u64" where
  "bs_hash s = fold (\<lambda>b ret. ret + scast b) (bs_buffer s) 0"

definition bs_clear :: "bin_stream \<Rightarrow> bin_stream" where
  "bs_clear s = s\<lparr>bs_buffer := [], bs_front := 0\<rparr>"

definition bs_purge :: "bin_stream \<Rightarrow> bin_stream" where
  "bs_purge s = s\<lparr>bs_buffer := [], bs_front := 0\<rparr>"

definition bs_resize :: "nat \<Rightarrow> bin_stream \<Rightarrow> bin_stream" where
  "bs_resize n s = s\<lparr>bs_buffer := take n (bs_buffer s) @ replicate (n - length (bs_buffer s)) 0,
                     bs_front := 0\<rparr>"

definition bs_seek :: "nat \<Rightarrow> bin_stream \<Rightarrow> bin_stream" where
  "bs_seek pos s = s\<lparr>bs_front := pos\<rparr>"

definition bs_remained :: "bin_stream \<Rightarrow> u8 list" where
  "bs_remained s = drop (bs_front s) (bs_buffer s)"

definition bs_append :: "bin_stream \<Rightarrow> bin_stream \<Rightarrow> bin_stream" where
  "bs_append m s = push_back_bytes (bs_remained m) s"

definition bs_wf :: "bin_stream \<Rightarrow> bool" where
  "bs_wf s \<longleftrightarrow> bs_front s \<le> length (bs_buffer s) \<and> length (bs_buffer s) < 2 ^ 64"

lemma bs_remained_bound: "bs_wf s \<Longrightarrow> length (bs_remained s) < 2 ^ 64"
  unfolding bs_wf_def bs_remained_def length_drop by linarith

lemma bs_size_remained: "bs_wf s \<Longrightarrow> bs_size s = length (bs_remained s)"
proof -
  assume wf: "bs_wf s"
  then have eq: "int (length (bs_buffer s)) - int (bs_front s) = int (length (bs_remained s))"
    by (simp add: bs_wf_def bs_remained_def of_nat_diff)
  have "int (length (bs_remained s)) < int (2 ^ 64)"
    using bs_remained_bound[OF wf] by (simp only: of_nat_less_iff)
  then have "int (length (bs_remained s)) mod 2 ^ 64 = int (length (bs_remained s))"
    by (intro mod_pos_pos_trivial) simp_all
  then show ?thesis
    unfolding bs_size_def eq by (simp only: nat_int)
qed

section \<open>Serializers\<close>

type_synonym 'a putter = "'a \<Rightarrow> bin_stream \<Rightarrow> bin_stream res"
type_synonym 'a getter = "bin_stream \<Rightarrow> ('a \<times> bin_stream) res"

text \<open>An \<open>operator<<\<close> that cannot fail; and the increment of the counter of a loop, an \<open>int\<close>.\<close>

definition always :: "('a \<Rightarrow> bin_stream \<Rightarrow> bin_stream) \<Rightarrow> 'a putter" where
  "always p x s = Inr (p x s)"

definition incr_int :: "int \<Rightarrow> int getter" where
  "incr_int i s = bind_res (as_i32 (i + 1)) (\<lambda>i. Inr (i, s))"

text \<open>
  \<open>reads get x enc\<close>: reading from a stream whose unread part starts with \<open>enc\<close> gives
  \<open>x\<close> and consumes exactly \<open>enc\<close>.
\<close>

definition reads :: "'a getter \<Rightarrow> 'a \<Rightarrow> u8 list \<Rightarrow> bool" where
  "reads get x enc \<longleftrightarrow>
     (\<forall>s rest. bs_front s \<le> length (bs_buffer s) \<longrightarrow> bs_remained s = enc @ rest \<longrightarrow>
        get s = Inr (x, s\<lparr>bs_front := bs_front s + length enc\<rparr>))"

locale serializer =
  fixes put :: "'a putter"
    and get :: "'a getter"
    and enc :: "'a \<Rightarrow> u8 list"
    and valid :: "'a \<Rightarrow> bool"
  assumes put_enc: "valid x \<Longrightarrow> put x s = Inr (push_back_bytes (enc x) s)"
    and get_enc: "valid x \<Longrightarrow> reads get x (enc x)"
begin

lemma put_then_get:
  assumes "valid x" "bs_front s = length (bs_buffer s)"
  shows "bind_res (put x s) get = Inr (x, (push_back_bytes (enc x) s)\<lparr>bs_front := length (bs_buffer s) + length (enc x)\<rparr>)"
  using get_enc[OF assms(1)] assms
  by (auto simp: reads_def put_enc push_back_bytes_def bs_remained_def)

end

lemma readsD:
  "reads get x enc \<Longrightarrow> bs_front s \<le> length (bs_buffer s) \<Longrightarrow> bs_remained s = enc @ rest \<Longrightarrow>
     get s = Inr (x, s\<lparr>bs_front := bs_front s + length enc\<rparr>)"
  by (simp add: reads_def)

lemma bs_remained_advance:
  assumes "bs_front s \<le> length (bs_buffer s)" "bs_remained s = enc @ rest"
  shows "bs_remained (s\<lparr>bs_front := bs_front s + length enc\<rparr>) = rest"
    "bs_front s + length enc \<le> length (bs_buffer s)"
proof -
  show "bs_remained (s\<lparr>bs_front := bs_front s + length enc\<rparr>) = rest"
    using arg_cong[OF assms(2), of "drop (length enc)"] by (simp add: bs_remained_def add.commute)
  have "length (bs_remained s) = length enc + length rest"
    by (simp add: assms(2))
  then show "bs_front s + length enc \<le> length (bs_buffer s)"
    using assms(1) by (simp add: bs_remained_def)
qed

text \<open>Reading one value after another.\<close>

definition get_then :: "'a getter \<Rightarrow> ('a \<Rightarrow> 'b getter) \<Rightarrow> 'b getter" where
  "get_then g f s = bind_res (g s) (\<lambda>(x, s'). f x s')"

definition get_return :: "'a \<Rightarrow> 'a getter" where
  "get_return x s = Inr (x, s)"

lemma reads_return: "reads (get_return x) x []"
  by (simp add: reads_def get_return_def)

lemma reads_then:
  assumes "reads g x e1" "reads (f x) y e2"
  shows "reads (get_then g f) y (e1 @ e2)"
  unfolding reads_def
proof (intro allI impI)
  fix s rest
  assume s: "bs_front s \<le> length (bs_buffer s)" "bs_remained s = (e1 @ e2) @ rest"
  let ?s' = "s\<lparr>bs_front := bs_front s + length e1\<rparr>"
  have g: "g s = Inr (x, ?s')"
    using readsD[OF assms(1) s(1)] s(2) by simp
  have adv: "bs_remained ?s' = e2 @ rest" "bs_front s + length e1 \<le> length (bs_buffer s)"
    using bs_remained_advance[OF s(1), of e1 "e2 @ rest"] s(2) by simp_all
  have "f x ?s' = Inr (y, ?s'\<lparr>bs_front := bs_front ?s' + length e2\<rparr>)"
    by (rule readsD[OF assms(2) _ adv(1)]) (simp add: adv(2))
  then show "get_then g f s = Inr (y, s\<lparr>bs_front := bs_front s + length (e1 @ e2)\<rparr>)"
    by (simp add: get_then_def g add.assoc)
qed

section \<open>Trivially copyable types\<close>

definition put_pod :: "'a pod \<Rightarrow> 'a \<Rightarrow> bin_stream \<Rightarrow> bin_stream" where
  "put_pod P x s = push_back_bytes (pod_enc P x) s"

definition get_pod :: "'a pod \<Rightarrow> 'a getter" where
  "get_pod P s = bind_res (pop_front_bytes (pod_size P) s) (\<lambda>(bs, s'). Inr (pod_dec P bs, s'))"

lemma reads_pop_front:
  "reads (pop_front_bytes (length enc)) enc enc"
  unfolding reads_def
proof (intro allI impI)
  fix s rest
  assume s: "bs_front s \<le> length (bs_buffer s)" "bs_remained s = enc @ rest"
  then show "pop_front_bytes (length enc) s = Inr (enc, s\<lparr>bs_front := bs_front s + length enc\<rparr>)"
    using bs_remained_advance[OF s] by (simp add: pop_front_bytes_def flip: bs_remained_def)
qed

context pod_type
begin

lemma reads_pod: "ok x \<Longrightarrow> reads (get_pod P) x (pod_enc P x)"
  using reads_pop_front[of "pod_enc P x"]
  by (auto simp: reads_def get_pod_def length_enc dec_enc)

end

sublocale pod_type \<subseteq> pod_ser: serializer "always (put_pod P)" "get_pod P" "pod_enc P" ok
  by unfold_locales (simp_all add: always_def put_pod_def reads_pod)

section \<open>Pairs, vectors, strings, maps\<close>

definition put_pair :: "'a putter \<Rightarrow> 'b putter \<Rightarrow> ('a \<times> 'b) putter" where
  "put_pair pa pb p s = bind_res (pa (fst p) s) (pb (snd p))"

definition get_pair :: "'a getter \<Rightarrow> 'b getter \<Rightarrow> ('a \<times> 'b) getter" where
  "get_pair ga gb = get_then ga (\<lambda>x. get_then gb (\<lambda>y. get_return (x, y)))"

text \<open>
  The loops over a vector, and the loop that reads a map, count in an \<open>int i\<close>: after \<open>2 ^ 31 - 1\<close> turns the
  increment overflows.  The loop that writes a map has no counter.
\<close>

fun put_from :: "'a putter \<Rightarrow> int \<Rightarrow> 'a list putter" where
  "put_from p i [] s = Inr s"
| "put_from p i (x # xs) s = bind_res (p x s) (\<lambda>s. bind_res (as_i32 (i + 1)) (\<lambda>i. put_from p i xs s))"

definition put_vector :: "'a putter \<Rightarrow> 'a list putter" where
  "put_vector p xs s = put_from p 0 xs (put_pod u64_pod (length xs) s)"

fun get_n :: "'a getter \<Rightarrow> int \<Rightarrow> nat \<Rightarrow> 'a list getter" where
  "get_n g i 0 = get_return []"
| "get_n g i (Suc n) = get_then g (\<lambda>x. get_then (incr_int i) (\<lambda>i. get_then (get_n g i n) (\<lambda>xs. get_return (x # xs))))"

definition get_vector :: "'a getter \<Rightarrow> 'a list getter" where
  "get_vector g = get_then (get_pod u64_pod) (\<lambda>len. get_n g 0 len)"

definition put_map :: "'k putter \<Rightarrow> 'v putter \<Rightarrow> ('k, 'v) omap putter" where
  "put_map pk pv m s = fold_res (put_pair pk pv) m (put_pod u64_pod (length m) s)"

definition get_map :: "'k::linorder getter \<Rightarrow> 'v getter \<Rightarrow> ('k, 'v) omap getter" where
  "get_map gk gv =
     get_then (get_pod u64_pod) (\<lambda>len.
     get_then (get_n (get_pair gk gv) 0 len) (\<lambda>es.
       get_return (fold (\<lambda>(k, v) m. om_insert k v m) es [])))"

definition put_string :: "u8 list \<Rightarrow> bin_stream \<Rightarrow> bin_stream" where
  "put_string x s = push_back_bytes x (put_pod u64_pod (length x) s)"

definition get_string :: "u8 list getter" where
  "get_string = get_then (get_pod u64_pod) pop_front_bytes"

definition put_bools :: "bool list putter" where
  "put_bools = put_vector (always (put_pod bool_pod))"

definition get_bools :: "bool list getter" where
  "get_bools = get_vector (get_pod bool_pod)"

definition put_bin :: "bin_stream \<Rightarrow> bin_stream \<Rightarrow> bin_stream" where
  "put_bin b s = push_back_bytes (bs_remained b) (put_pod u64_pod (bs_size b) s)"

fun get_chars :: "nat \<Rightarrow> u8 list getter" where
  "get_chars 0 = get_return []"
| "get_chars (Suc n) = get_then (get_pod byte_pod) (\<lambda>x. get_then (get_chars n) (\<lambda>xs. get_return (x # xs)))"

definition get_bin :: "bin_stream getter" where
  "get_bin = get_then (get_pod u64_pod) (\<lambda>len.
     get_then (get_chars len) (\<lambda>bs. get_return \<lparr>bs_buffer = bs, bs_front = 0\<rparr>))"

definition enc_vector :: "('a \<Rightarrow> u8 list) \<Rightarrow> 'a list \<Rightarrow> u8 list" where
  "enc_vector enc xs = le_bytes 8 (length xs) @ concat (map enc xs)"

lemma push_back_bytes_append:
  "push_back_bytes ys (push_back_bytes xs s) = push_back_bytes (xs @ ys) s"
  by (simp add: push_back_bytes_def)

lemma push_back_bytes_Nil [simp]: "push_back_bytes [] s = s"
  by (simp add: push_back_bytes_def)

lemma reads_u64: "n < 2 ^ 64 \<Longrightarrow> reads (get_pod u64_pod) n (le_bytes 8 n)"
  using u64_pod.reads_pod[of n] by (simp add: u64_ok_def u64_pod_def)

lemma put_u64: "put_pod u64_pod n s = push_back_bytes (le_bytes 8 n) s"
  by (simp add: put_pod_def u64_pod_def)

locale two_serializers =
  a: serializer puta geta enca valida + b: serializer putb getb encb validb
  for puta :: "'a putter" and geta enca valida
    and putb :: "'b putter" and getb encb validb
begin

lemma pair_serializer:
  "serializer (put_pair puta putb) (get_pair geta getb) (\<lambda>p. enca (fst p) @ encb (snd p))
     (\<lambda>p. valida (fst p) \<and> validb (snd p))"
proof unfold_locales
  fix p s
  assume "valida (fst p) \<and> validb (snd p)"
  then show "put_pair puta putb p s = Inr (push_back_bytes (enca (fst p) @ encb (snd p)) s)"
    by (simp add: put_pair_def a.put_enc b.put_enc push_back_bytes_append)
next
  fix p
  assume "valida (fst p) \<and> validb (snd p)"
  then have "reads (get_pair geta getb) (fst p, snd p) (enca (fst p) @ (encb (snd p) @ []))"
    unfolding get_pair_def
    by (intro reads_then[OF a.get_enc] reads_then[OF b.get_enc] reads_return) simp_all
  then show "reads (get_pair geta getb) p (enca (fst p) @ encb (snd p))"
    by simp
qed

end

context serializer
begin

lemma put_from_enc:
  "list_all valid xs \<Longrightarrow> 0 \<le> i \<Longrightarrow> i + int (length xs) < 2 ^ 31 \<Longrightarrow>
     put_from put i xs s = Inr (push_back_bytes (concat (map enc xs)) s)"
  by (induction xs arbitrary: i s) (simp_all add: put_enc push_back_bytes_append in_i32_def)

lemma put_all_enc:
  "list_all valid xs \<Longrightarrow> fold_res put xs s = Inr (push_back_bytes (concat (map enc xs)) s)"
  by (induction xs arbitrary: s) (simp_all add: put_enc push_back_bytes_append)

lemma reads_get_n:
  "list_all valid xs \<Longrightarrow> 0 \<le> i \<Longrightarrow> i + int (length xs) < 2 ^ 31 \<Longrightarrow>
     reads (get_n get i (length xs)) xs (concat (map enc xs))"
proof (induction xs arbitrary: i)
  case Nil
  then show ?case by (simp add: reads_return)
next
  case (Cons x xs)
  have "reads (incr_int i) (i + 1) []"
    using Cons.prems by (simp add: reads_def incr_int_def in_i32_def)
  with Cons have "reads (get_n get i (length (x # xs))) (x # xs) (enc x @ ([] @ (concat (map enc xs) @ [])))"
    unfolding list.size(4) add_0_right add_Suc_right One_nat_def get_n.simps
    by (intro reads_then[OF get_enc] reads_then[of "incr_int i" "i + 1"] reads_then[OF Cons.IH] reads_return) simp_all
  then show ?case by simp
qed

lemma vector_serializer:
  "serializer (put_vector put) (get_vector get) (enc_vector enc)
     (\<lambda>xs. list_all valid xs \<and> length xs < 2 ^ 31)"
proof unfold_locales
  fix xs s
  assume "list_all valid xs \<and> length xs < 2 ^ 31"
  then show "put_vector put xs s = Inr (push_back_bytes (enc_vector enc xs) s)"
    by (simp add: put_vector_def put_from_enc put_u64 push_back_bytes_append enc_vector_def)
next
  fix xs
  assume "list_all valid xs \<and> length xs < 2 ^ 31"
  then show "reads (get_vector get) xs (enc_vector enc xs)"
    unfolding get_vector_def enc_vector_def
    by (intro reads_then[OF reads_u64] reads_get_n) simp_all
qed

text \<open>A vector of \<open>2 ^ 31\<close> elements or more cannot be written.\<close>

lemma put_from_overflows:
  "list_all valid xs \<Longrightarrow> 0 \<le> i \<Longrightarrow> i < 2 ^ 31 \<Longrightarrow> 2 ^ 31 \<le> i + int (length xs) \<Longrightarrow> put_from put i xs s = Inl Signed_overflow"
proof (induction xs arbitrary: i s)
  case Nil
  then show ?case by simp
next
  case (Cons x xs)
  show ?case
  proof (cases "i + 1 < 2 ^ 31")
    case True
    then have "as_i32 (i + 1) = Inr (i + 1)" using Cons.prems(2) by (simp add: in_i32_def)
    with Cons True show ?thesis by (simp add: put_enc)
  next
    case False
    then have "as_i32 (i + 1) = Inl Signed_overflow" by (simp add: as_i32_def in_i32_def)
    with Cons.prems show ?thesis by (simp add: put_enc)
  qed
qed

lemma long_vector_overflows:
  "list_all valid xs \<Longrightarrow> 2 ^ 31 \<le> length xs \<Longrightarrow> put_vector put xs s = Inl Signed_overflow"
  unfolding put_vector_def by (rule put_from_overflows) simp_all

end

definition enc_string :: "u8 list \<Rightarrow> u8 list" where
  "enc_string x = le_bytes 8 (length x) @ x"

lemma put_string_enc: "put_string x s = push_back_bytes (enc_string x) s"
  by (simp add: put_string_def put_u64 push_back_bytes_append enc_string_def)

lemma put_i32_enc: "put_pod i32_pod x s = push_back_bytes (pod_enc i32_pod x) s"
  by (simp add: put_pod_def)

interpretation string_ser: serializer "always put_string" get_string enc_string "\<lambda>x. length x < 2 ^ 64"
proof unfold_locales
  fix x s
  show "always put_string x s = Inr (push_back_bytes (enc_string x) s)"
    by (simp add: always_def put_string_enc)
next
  fix x :: "u8 list"
  assume "length x < 2 ^ 64"
  then show "reads get_string x (enc_string x)"
    unfolding get_string_def enc_string_def
    by (intro reads_then[OF reads_u64] reads_pop_front)
qed

interpretation bools_ser: serializer put_bools get_bools
  "enc_vector (pod_enc bool_pod)" "\<lambda>xs. list_all (\<lambda>_. True) xs \<and> length xs < 2 ^ 31"
  unfolding put_bools_def get_bools_def by (rule bool_pod.pod_ser.vector_serializer)

interpretation string_int: two_serializers "always put_string" get_string enc_string "\<lambda>x. length x < 2 ^ 64"
  "always (put_pod i32_pod)" "get_pod i32_pod" "pod_enc i32_pod" in_i32
  by unfold_locales

text \<open>A map is written in key order and read back entry by entry.\<close>

lemma fold_om_insert_wf:
  assumes "om_wf (n @ m)"
  shows "fold (\<lambda>(k, v) m. om_insert k v m) m n = n @ m"
  using assms
proof (induction m arbitrary: n)
  case Nil
  then show ?case by simp
next
  case (Cons p m)
  obtain k v where p: "p = (k, v)" by force
  have fresh: "\<forall>x \<in> fst ` set n. x < k"
    using Cons.prems by (auto simp: p om_wf_def sorted_wrt_append)
  then have "om_get n k = None"
    by (auto simp: map_of_eq_None_iff)
  moreover have "om_set k v n = n @ [(k, v)]"
    using fresh by (induction n) (auto simp: not_less_iff_gr_or_eq)
  ultimately have "om_insert k v n = n @ [p]"
    by (simp add: om_insert_def p)
  with Cons.IH[of "n @ [p]"] Cons.prems show ?case
    by (simp add: p)
qed

locale map_serializer =
  a: serializer puta geta enca valida + b: serializer putb getb encb validb
  for puta :: "'a::linorder putter" and geta enca valida
    and putb :: "'b putter" and getb encb validb
begin

lemma map_serializer:
  "serializer (put_map puta putb) (get_map geta getb)
     (enc_vector (\<lambda>p. enca (fst p) @ encb (snd p)))
     (\<lambda>m. om_wf m \<and> list_all (\<lambda>p. valida (fst p) \<and> validb (snd p)) m \<and> length m < 2 ^ 31)"
proof -
  have "two_serializers puta geta enca valida putb getb encb validb"
    by unfold_locales
  then have "serializer (put_pair puta putb) (get_pair geta getb) (\<lambda>p. enca (fst p) @ encb (snd p))
     (\<lambda>p. valida (fst p) \<and> validb (snd p))"
    by (rule two_serializers.pair_serializer)
  note elems = serializer.put_all_enc[OF this] and read_n = serializer.reads_get_n[OF this]
  show ?thesis
  proof unfold_locales
    fix m s
    assume "om_wf m \<and> list_all (\<lambda>p. valida (fst p) \<and> validb (snd p)) m \<and> length m < 2 ^ 31"
    then show "put_map puta putb m s = Inr (push_back_bytes (enc_vector (\<lambda>p. enca (fst p) @ encb (snd p)) m) s)"
      by (simp add: put_map_def elems put_u64 push_back_bytes_append enc_vector_def)
  next
    fix m
    assume m: "om_wf m \<and> list_all (\<lambda>p. valida (fst p) \<and> validb (snd p)) m \<and> length m < 2 ^ 31"
    then have "fold (\<lambda>(k, v) m. om_insert k v m) m [] = m"
      using fold_om_insert_wf[of "[]" m] by simp
    then have "reads (\<lambda>s. get_return (fold (\<lambda>(k, v) m. om_insert k v m) m []) s) m []"
      using reads_return[of m] by simp
    then have "reads (get_map geta getb) m
        (le_bytes 8 (length m) @ (concat (map (\<lambda>p. enca (fst p) @ encb (snd p)) m) @ []))"
      unfolding get_map_def using m
      by (intro reads_then[OF reads_u64] reads_then[OF read_n]) simp_all
    then show "reads (get_map geta getb) m (enc_vector (\<lambda>p. enca (fst p) @ encb (snd p)) m)"
      by (simp add: enc_vector_def)
  qed
qed

end

interpretation u32_i32_map: map_serializer "always (put_pod u32_pod)" "get_pod u32_pod" "pod_enc u32_pod" "\<lambda>_. True"
  "always (put_pod i32_pod)" "get_pod i32_pod" "pod_enc i32_pod" in_i32
  by unfold_locales

lemma reads_get_chars: "reads (get_chars (length bs)) bs bs"
proof (induction bs)
  case Nil
  then show ?case by (simp add: reads_return)
next
  case (Cons b bs)
  have one: "reads (get_pod byte_pod) b [b]" using byte_pod.reads_pod[of b] by (simp add: byte_pod_def)
  have "reads (get_then (get_chars (length bs)) (\<lambda>xs. get_return (b # xs))) (b # bs) (bs @ [])"
    by (rule reads_then[OF Cons.IH]) (rule reads_return)
  from reads_then[OF one, of "\<lambda>x. get_then (get_chars (length bs)) (\<lambda>xs. get_return (x # xs))", OF this]
  show ?case by simp
qed

text \<open>A stream written into a stream is read back as a stream of its unread bytes, however
  much of either was read before, and nothing else is left to read.\<close>

theorem bin_roundtrip:
  assumes "bs_wf b" "bs_front s = length (bs_buffer s)"
  shows "get_bin (put_bin b s)
    = Inr (\<lparr>bs_buffer = bs_remained b, bs_front = 0\<rparr>,
           (put_bin b s)\<lparr>bs_front := length (bs_buffer (put_bin b s))\<rparr>)"
proof -
  let ?bs = "bs_remained b"
  have len: "length ?bs < 2 ^ 64"
    by (rule bs_remained_bound[OF assms(1)])
  have "reads (get_chars (length ?bs)) ?bs ?bs" by (rule reads_get_chars)
  then have "reads get_bin \<lparr>bs_buffer = ?bs, bs_front = 0\<rparr> (le_bytes 8 (length ?bs) @ (?bs @ []))"
    unfolding get_bin_def using len
    by (intro reads_then[OF reads_u64] reads_then[OF _ reads_return])
  moreover have "put_bin b s = push_back_bytes (le_bytes 8 (length ?bs) @ ?bs) s"
    by (simp add: put_bin_def put_u64 bs_size_remained[OF assms(1)] push_back_bytes_append)
  ultimately show ?thesis
    using assms(2) by (auto simp: reads_def push_back_bytes_def bs_remained_def)
qed

lemma bin_roundtrip_witness:
  "get_bin (put_bin \<lparr>bs_buffer = [1, 2, 3], bs_front = 1\<rparr> bs_new)
    = Inr (\<lparr>bs_buffer = [2, 3], bs_front = 0\<rparr>,
           \<lparr>bs_buffer = [2, 0, 0, 0, 0, 0, 0, 0, 2, 3], bs_front = 10\<rparr>)"
proof -
  have put: "put_bin \<lparr>bs_buffer = [1, 2, 3], bs_front = 1\<rparr> bs_new
      = \<lparr>bs_buffer = [2, 0, 0, 0, 0, 0, 0, 0, 2, 3], bs_front = 0\<rparr>"
    by code_simp
  show ?thesis
    using bin_roundtrip[of "\<lparr>bs_buffer = [1, 2, 3], bs_front = 1\<rparr>" bs_new] unfolding put
    by (simp add: bs_wf_def bs_new_def bs_remained_def)
qed

text \<open>C11. What is written to a stream, here a map, a string and a vector of flags, comes back
  in the same order, and reading it consumes exactly the bytes that were written; neither can fail
  while the map and the vector have fewer than \<open>2 ^ 31\<close> elements, the most an \<open>int\<close> can count.\<close>

theorem stream_roundtrip:
  assumes "om_wf m" "list_all (\<lambda>p. in_i32 (snd p)) m" "length m < 2 ^ 31" "length x < 2 ^ 64" "length fs < 2 ^ 31"
    "bs_front s = length (bs_buffer s)"
  shows "\<exists>t. bind_res (put_map (always (put_pod u32_pod)) (always (put_pod i32_pod)) m s) (\<lambda>s. put_bools fs (put_string x s)) = Inr t
    \<and> get_then (get_map (get_pod u32_pod) (get_pod i32_pod)) (\<lambda>m'. get_then get_string (\<lambda>x'.
        get_then get_bools (\<lambda>fs'. get_return (m', x', fs')))) t
      = Inr ((m, x, fs), t\<lparr>bs_front := length (bs_buffer t)\<rparr>)"
proof -
  note M = u32_i32_map.map_serializer
  let ?em = "enc_vector (\<lambda>p. pod_enc u32_pod (fst p) @ pod_enc i32_pod (snd p)) m"
  let ?ef = "enc_vector (pod_enc bool_pod) fs"
  let ?t = "push_back_bytes (?em @ enc_string x @ ?ef) s"
  have put: "bind_res (put_map (always (put_pod u32_pod)) (always (put_pod i32_pod)) m s) (\<lambda>s. put_bools fs (put_string x s)) = Inr ?t"
    using assms serializer.put_enc[OF M, of m s] bools_ser.put_enc[of fs]
    by (simp add: put_string_enc push_back_bytes_append list_all_iff)
  have "reads (get_then (get_map (get_pod u32_pod) (get_pod i32_pod)) (\<lambda>m'. get_then get_string (\<lambda>x'.
      get_then get_bools (\<lambda>fs'. get_return (m', x', fs'))))) (m, x, fs) (?em @ (enc_string x @ (?ef @ [])))"
    using assms
    by (intro reads_then[OF serializer.get_enc[OF M]] reads_then[OF string_ser.get_enc]
        reads_then[OF bools_ser.get_enc] reads_return) (simp_all add: list_all_iff)
  then show ?thesis
    using put assms(6) by (auto simp: reads_def push_back_bytes_def bs_remained_def)
qed

lemma stream_roundtrip_witness:
  "\<exists>t u. bind_res (put_map (always (put_pod u32_pod)) (always (put_pod i32_pod)) [(3, -1), (9, 4)] bs_new)
        (\<lambda>s. put_bools [True] (put_string [65] s)) = Inr t
    \<and> get_then (get_map (get_pod u32_pod) (get_pod i32_pod)) (\<lambda>m'. get_then get_string (\<lambda>x'.
      get_then get_bools (\<lambda>fs'. get_return (m', x', fs')))) t
    = Inr (([(3, -1), (9, 4)], [65], [True]), u)"
  using stream_roundtrip[of "[(3, -1), (9, 4)]" "[65]" "[True]" bs_new]
  by (auto simp: om_wf_def in_i32_def bs_new_def)

end
