(* ===== verification/Text_Format.thy ===== *)
theory Text_Format
  imports Flexps_Prelude "HOL-Library.Char_ord"
begin

text \<open>
  Decimal numbers as text: what \<open>std::to_string\<close> and \<open>operator<<\<close> print and what
  \<open>std::stoi\<close> reads (leading white space and a sign are skipped, the digits that follow
  are the number, no digit is \<open>invalid_argument\<close>, a number outside \<open>int\<close> is
  \<open>out_of_range\<close>).  Also \<open>std::getline\<close> and \<open>std::string::find\<close>.
\<close>

definition digit_char :: "nat \<Rightarrow> char" where
  "digit_char d = char_of (48 + d)"

definition is_digit :: "char \<Rightarrow> bool" where
  "is_digit c \<longleftrightarrow> 48 \<le> (of_char c :: nat) \<and> (of_char c :: nat) \<le> 57"

definition digit_val :: "char \<Rightarrow> nat" where
  "digit_val c = of_char c - 48"

definition is_space :: "char \<Rightarrow> bool" where
  "is_space c \<longleftrightarrow> (of_char c :: nat) = 32 \<or> (9 \<le> (of_char c :: nat) \<and> (of_char c :: nat) \<le> 13)"

fun dec_nat :: "nat \<Rightarrow> string" where
  "dec_nat n = (if n < 10 then [digit_char n] else dec_nat (n div 10) @ [digit_char (n mod 10)])"

declare dec_nat.simps [simp del]

definition dec_int :: "int \<Rightarrow> string" where
  "dec_int x = (if x < 0 then CHR ''-'' # dec_nat (nat (- x)) else dec_nat (nat x))"

definition digits_val :: "string \<Rightarrow> nat" where
  "digits_val ds = foldl (\<lambda>a c. 10 * a + digit_val c) 0 ds"

definition stoi :: "string \<Rightarrow> int res" where
  "stoi s =
     (let s1 = dropWhile is_space s;
          neg = (s1 \<noteq> [] \<and> hd s1 = CHR ''-'');
          s2 = (if s1 \<noteq> [] \<and> (hd s1 = CHR ''-'' \<or> hd s1 = CHR ''+'') then tl s1 else s1);
          ds = takeWhile is_digit s2;
          v = (if neg then - int (digits_val ds) else int (digits_val ds))
      in if ds = [] then Inl Invalid_argument
         else if in_i32 v then Inr v
         else Inl Out_of_range_exception)"

lemma of_char_digit: "d < 10 \<Longrightarrow> of_char (digit_char d) = 48 + d"
  by (simp add: digit_char_def)

lemma digit_char_props:
  assumes "d < 10"
  shows "is_digit (digit_char d)" "digit_val (digit_char d) = d" "\<not> is_space (digit_char d)"
    "digit_char d \<noteq> CHR ''-''" "digit_char d \<noteq> CHR ''+''" "digit_char d \<noteq> CHR '':''"
    "digit_char d \<noteq> CHR ''\<newline>''"
proof -
  have c: "of_char (digit_char d) = (48 + d :: nat)"
    using assms by (rule of_char_digit)
  show "is_digit (digit_char d)" "digit_val (digit_char d) = d" "\<not> is_space (digit_char d)"
    using assms by (simp_all add: is_digit_def digit_val_def is_space_def c)
  have "digit_char d \<noteq> x" if "(of_char x :: nat) \<notin> {48..57}" for x
    using that c assms by auto
  then show "digit_char d \<noteq> CHR ''-''" "digit_char d \<noteq> CHR ''+''" "digit_char d \<noteq> CHR '':''"
    "digit_char d \<noteq> CHR ''\<newline>''"
    by simp_all
qed

lemma dec_nat_digits: "c \<in> set (dec_nat n) \<Longrightarrow> \<exists>d < 10. c = digit_char d"
proof (induction n rule: dec_nat.induct)
  case (1 n)
  show ?case
  proof (cases "n < 10")
    case True
    with 1 show ?thesis by (auto simp: dec_nat.simps[of n])
  next
    case False
    with 1 have "c \<in> set (dec_nat (n div 10)) \<or> c = digit_char (n mod 10)"
      by (auto simp: dec_nat.simps[of n])
    with "1.IH"[OF False] show ?thesis
      by (metis mod_less_divisor zero_less_numeral)
  qed
qed

lemma dec_nat_not_Nil [simp]: "dec_nat n \<noteq> []"
  by (subst dec_nat.simps) simp

lemma digits_val_dec_nat [simp]: "digits_val (dec_nat n) = n"
proof (induction n rule: dec_nat.induct)
  case (1 n)
  show ?case
  proof (cases "n < 10")
    case True
    then show ?thesis
      by (simp add: dec_nat.simps[of n] digits_val_def digit_char_props)
  next
    case False
    with 1 show ?thesis
      by (simp add: dec_nat.simps[of n] digits_val_def digit_char_props)
  qed
qed

lemma takeWhile_dec_nat:
  assumes "rest = [] \<or> \<not> is_digit (hd rest)"
  shows "takeWhile is_digit (dec_nat n @ rest) = dec_nat n"
proof -
  have "\<forall>c \<in> set (dec_nat n). is_digit c"
    using dec_nat_digits digit_char_props(1) by blast
  then have "takeWhile is_digit (dec_nat n @ rest) = dec_nat n @ takeWhile is_digit rest"
    by simp
  also have "takeWhile is_digit rest = []"
    using assms by (cases rest) auto
  finally show ?thesis by simp
qed

lemma hd_dec_nat: "\<exists>d < 10. hd (dec_nat n) = digit_char d"
  using dec_nat_digits[of "hd (dec_nat n)" n] by simp

lemma stoi_dec_nat: "n \<le> 2147483647 \<Longrightarrow> stoi (dec_nat n) = Inr (int n)"
proof -
  assume n: "n \<le> 2147483647"
  obtain d where d: "d < 10" "hd (dec_nat n) = digit_char d"
    using hd_dec_nat by blast
  have "\<not> is_space (hd (dec_nat n))" "hd (dec_nat n) \<noteq> CHR ''-''" "hd (dec_nat n) \<noteq> CHR ''+''"
    using digit_char_props(3-5)[OF d(1)] by (simp_all only: d(2) not_False_eq_True)
  moreover from this(1) have dw: "dropWhile is_space (dec_nat n) = dec_nat n"
    by (metis dec_nat_not_Nil dropWhile_eq_self_iff)
  moreover have tw: "takeWhile is_digit (dec_nat n) = dec_nat n"
    using takeWhile_dec_nat[of "[]" n] by simp
  ultimately show ?thesis
    using n by (simp add: stoi_def Let_def in_i32_def tw dw del: takeWhile_eq_all_conv)
qed

section \<open>Lines and fields\<close>

text \<open>The lines \<open>getline\<close> delivers: a last newline does not start another line.\<close>

fun getlines_from :: "string \<Rightarrow> string \<Rightarrow> string list" where
  "getlines_from acc [] = (if acc = [] then [] else [rev acc])"
| "getlines_from acc (c # s) =
     (if c = CHR ''\<newline>'' then rev acc # getlines_from [] s else getlines_from (c # acc) s)"

definition getlines :: "string \<Rightarrow> string list" where
  "getlines s = getlines_from [] s"

definition find_from :: "char \<Rightarrow> string \<Rightarrow> nat \<Rightarrow> nat option" where
  "find_from c s i =
     (let k = length (takeWhile (\<lambda>x. x \<noteq> c) (drop i s))
      in if i + k < length s then Some (i + k) else None)"

lemma getlines_from_line:
  "CHR ''\<newline>'' \<notin> set l \<Longrightarrow>
     getlines_from acc (l @ CHR ''\<newline>'' # s) = (rev acc @ l) # getlines_from [] s"
  by (induction l arbitrary: acc) auto

lemma getlines_concat:
  "(\<And>l. l \<in> set ls \<Longrightarrow> CHR ''\<newline>'' \<notin> set l) \<Longrightarrow>
     getlines (concat (map (\<lambda>l. l @ ''\<newline>'') ls)) = ls"
  unfolding getlines_def
  by (induction ls) (simp_all add: getlines_from_line)

lemma find_from_append:
  "c \<notin> set b \<Longrightarrow> find_from c (a @ b @ c # r) (length a) = Some (length a + length b)"
proof -
  assume "c \<notin> set b"
  then have "takeWhile (\<lambda>x. x \<noteq> c) (b @ c # r) = b"
    by (subst takeWhile_append2) auto
  then show ?thesis by (simp add: find_from_def Let_def)
qed

end
