(* ===== verification/Messages.thy ===== *)
theory Messages
  imports Byte_Codec Text_Format "HOL-Library.List_Lexorder"
begin

text \<open>
  \<open>base/message.hpp\<close>, \<open>base/node.hpp\<close> and \<open>base/threadsafe_queue.hpp\<close>: what the
  threads send each other and the queue they send it through.  A \<open>Message\<close> that the code
  declares without initialising its \<open>Meta\<close> has indeterminate contents; the operations
  that do so take these contents as the argument \<open>junk\<close>, and every theorem holds for
  all of them.
\<close>

section \<open>Messages\<close>

datatype flag = kExit | kBarrier | kResetWorkerInModel | kClock | kAdd | kGet

fun flag_code :: "flag \<Rightarrow> nat" where
  "flag_code kExit = 0"
| "flag_code kBarrier = 1"
| "flag_code kResetWorkerInModel = 2"
| "flag_code kClock = 3"
| "flag_code kAdd = 4"
| "flag_code kGet = 5"

lemma flag_code_inj: "flag_code f = flag_code g \<longleftrightarrow> f = g"
  by (cases f; cases g) simp_all

instantiation flag :: linorder
begin

definition less_eq_flag :: "flag \<Rightarrow> flag \<Rightarrow> bool" where
  "f \<le> g \<longleftrightarrow> flag_code f \<le> flag_code g"

definition less_flag :: "flag \<Rightarrow> flag \<Rightarrow> bool" where
  "f < g \<longleftrightarrow> flag_code f < flag_code g"

instance
  by standard (auto simp: less_eq_flag_def less_flag_def flag_code_inj)

end

fun flag_name :: "flag \<Rightarrow> string" where
  "flag_name kExit = ''kExit''"
| "flag_name kBarrier = ''kBarrier''"
| "flag_name kResetWorkerInModel = ''kResetWorkerInModel''"
| "flag_name kClock = ''kClock''"
| "flag_name kAdd = ''kAdd''"
| "flag_name kGet = ''kGet''"

record meta =
  sender :: int
  recver :: int
  model_id :: int
  mflag :: flag
  version :: u32

record message =
  meta_of :: meta
  data_of :: "u8 list list"

abbreviation msg_sender :: "message \<Rightarrow> int" where "msg_sender m \<equiv> sender (meta_of m)"
abbreviation msg_recver :: "message \<Rightarrow> int" where "msg_recver m \<equiv> recver (meta_of m)"
abbreviation msg_model :: "message \<Rightarrow> int" where "msg_model m \<equiv> model_id (meta_of m)"
abbreviation msg_flag :: "message \<Rightarrow> flag" where "msg_flag m \<equiv> mflag (meta_of m)"
abbreviation msg_version :: "message \<Rightarrow> u32" where "msg_version m \<equiv> version (meta_of m)"

definition new_message :: "meta \<Rightarrow> message" where
  "new_message junk = \<lparr>meta_of = junk, data_of = []\<rparr>"

definition add_data :: "u8 list \<Rightarrow> message \<Rightarrow> message" where
  "add_data val m = m\<lparr>data_of := data_of m @ [val]\<rparr>"

definition meta_debug_string :: "meta \<Rightarrow> string" where
  "meta_debug_string m =
     ''Meta: { '' @ ''sender: '' @ dec_int (sender m)
       @ '', recver: '' @ dec_int (recver m)
       @ '', model_id: '' @ dec_int (model_id m)
       @ '', flag: '' @ flag_name (mflag m)
       @ '', version: '' @ dec_nat (unat (version m)) @ ''}''"

definition message_debug_string :: "message \<Rightarrow> string" where
  "message_debug_string m =
     meta_debug_string (meta_of m)
       @ (if data_of m \<noteq> []
          then '' Body:'' @ concat (map (\<lambda>d. '' data_size='' @ dec_nat (length d)) (data_of m))
          else [])"

definition create_message ::
  "flag \<Rightarrow> int \<Rightarrow> int \<Rightarrow> int \<Rightarrow> int \<Rightarrow> int list \<Rightarrow> int list \<Rightarrow> message"
where
  "create_message fl mid from to vers keys values =
     (let m = \<lparr>meta_of = \<lparr>sender = from, recver = to, model_id = mid, mflag = fl, version = to_u32 vers\<rparr>,
               data_of = []\<rparr>;
          m = (if length keys \<noteq> 0 then add_data (enc_array i32_pod keys) m else m)
      in if length values \<noteq> 0 then add_data (enc_array i32_pod values) m else m)"

lemma new_message_sel [simp, msg_simps]:
  "meta_of (new_message junk) = junk" "data_of (new_message junk) = []"
  by (simp_all add: new_message_def)

lemma add_data_sel [simp, msg_simps]:
  "meta_of (add_data d m) = meta_of m" "data_of (add_data d m) = data_of m @ [d]"
  by (simp_all add: add_data_def)

section \<open>Nodes\<close>

record node =
  node_id :: u32
  hostname :: string
  port :: int

definition node_debug_string :: "node \<Rightarrow> string" where
  "node_debug_string n =
     ''Node: { id='' @ dec_nat (unat (node_id n)) @ '' hostname='' @ hostname n
       @ '' port='' @ dec_int (port n) @ '' }''"

definition node_eq :: "node \<Rightarrow> node \<Rightarrow> bool" where
  "node_eq a b \<longleftrightarrow> node_id a = node_id b \<and> hostname a = hostname b \<and> port a = port b"

lemma node_eq_iff [simp]: "node_eq a b \<longleftrightarrow> a = b"
  by (cases a; cases b) (simp add: node_eq_def)

section \<open>The thread-safe queue\<close>

text \<open>
  Every operation holds the queue's mutex, so an execution is a sequence of the operations
  below.  \<open>WaitAndPop\<close> on an empty queue waits: it takes no step, the value \<open>None\<close>.
\<close>

type_synonym 'a tsq = "'a list"

definition tsq_push :: "'a \<Rightarrow> 'a tsq \<Rightarrow> 'a tsq" where
  "tsq_push x q = q @ [x]"

definition tsq_wait_and_pop :: "'a tsq \<Rightarrow> ('a \<times> 'a tsq) option" where
  "tsq_wait_and_pop q = (case q of [] \<Rightarrow> None | x # q' \<Rightarrow> Some (x, q'))"

definition tsq_size :: "'a tsq \<Rightarrow> int" where
  "tsq_size q = to_i32 (of_nat (length q))"

locale fifo =
  fixes push :: "'a \<Rightarrow> 'q \<Rightarrow> 'q"
    and pop :: "'q \<Rightarrow> ('a \<times> 'q) option"
    and contents :: "'q \<Rightarrow> 'a list"
  assumes contents_push: "contents (push x q) = contents q @ [x]"
    and pop_None: "pop q = None \<longleftrightarrow> contents q = []"
    and pop_Some: "pop q = Some (x, q') \<Longrightarrow> contents q = x # contents q'"
begin

fun pop_n :: "nat \<Rightarrow> 'q \<Rightarrow> ('a list \<times> 'q) option" where
  "pop_n 0 q = Some ([], q)"
| "pop_n (Suc n) q =
     (case pop q of None \<Rightarrow> None
      | Some (x, q') \<Rightarrow> (case pop_n n q' of None \<Rightarrow> None | Some (xs, q'') \<Rightarrow> Some (x # xs, q'')))"

lemma contents_push_all: "contents (fold push xs q) = contents q @ xs"
  by (induction xs arbitrary: q) (simp_all add: contents_push)

lemma pop_n_contents:
  "n \<le> length (contents q) \<Longrightarrow>
     \<exists>q'. pop_n n q = Some (take n (contents q), q') \<and> contents q' = drop n (contents q)"
proof (induction n arbitrary: q)
  case 0
  then show ?case by simp
next
  case (Suc n)
  then obtain x q' where p: "pop q = Some (x, q')"
    by (cases "pop q") (auto simp: pop_None)
  then have c: "contents q = x # contents q'"
    by (rule pop_Some)
  with Suc.prems Suc.IH[of q'] p show ?case by auto
qed

text \<open>What was pushed, in the order it was pushed, is what is popped.\<close>

lemma push_pop_order:
  assumes "contents q = []"
  shows "\<exists>q'. pop_n (length xs) (fold push xs q) = Some (xs, q') \<and> contents q' = []"
  using pop_n_contents[of "length xs" "fold push xs q"] assms by (simp add: contents_push_all)

end

interpretation tsq: fifo tsq_push tsq_wait_and_pop "\<lambda>q. q"
  by unfold_locales (auto simp: tsq_push_def tsq_wait_and_pop_def split: list.splits)

end
