(* ===== verification/Node_Util.thy ===== *)
theory Node_Util
  imports Messages
begin

text \<open>
  \<open>base/node_util.cpp\<close>: the node list of a deployment, read from a machine file with one
  \<open>id:hostname:port\<close> line per node, and the checks on it.  The file is its contents, or
  \<open>None\<close> when it cannot be opened.
\<close>

definition parse_line :: "string \<Rightarrow> node res" where
  "parse_line line =
     bind_res (of_opt (Check_failed ''ParseFile'') (find_from CHR '':'' line 0)) (\<lambda>id_pos.
     bind_res (of_opt (Check_failed ''ParseFile'') (find_from CHR '':'' line (id_pos + 1))) (\<lambda>host_pos.
       let id = take id_pos line;
           hostname = take (host_pos - id_pos - 1) (drop (id_pos + 1) line);
           port = take (length line - host_pos - 1) (drop (host_pos + 1) line)
       in case stoi id of
            Inl Invalid_argument \<Rightarrow> Inl (Check_failed ''Invalid argument'')
          | Inl e \<Rightarrow> Inl e
          | Inr i \<Rightarrow>
             (case stoi port of
                Inl Invalid_argument \<Rightarrow> Inl (Check_failed ''Invalid argument'')
              | Inl e \<Rightarrow> Inl e
              | Inr p \<Rightarrow> Inr \<lparr>node_id = to_u32 i, hostname = hostname, port = p\<rparr>)))"

definition parse_file :: "string option \<Rightarrow> node list res" where
  "parse_file contents =
     (case contents of
        None \<Rightarrow> Inl (Check_failed ''Error opening file'')
      | Some s \<Rightarrow> map_res parse_line (getlines s))"

fun check_valid_node_ids_loop :: "u32 set \<Rightarrow> node list \<Rightarrow> bool" where
  "check_valid_node_ids_loop ids [] = True"
| "check_valid_node_ids_loop ids (n # ns) =
     (if node_id n \<in> ids then False
      else check_valid_node_ids_loop (insert (node_id n) ids) ns)"

definition check_valid_node_ids :: "node list \<Rightarrow> bool" where
  "check_valid_node_ids ns = check_valid_node_ids_loop {} ns"

fun check_unique_port_loop :: "(string \<Rightarrow> u32 set) \<Rightarrow> node list \<Rightarrow> bool" where
  "check_unique_port_loop host_ports [] = True"
| "check_unique_port_loop host_ports (n # ns) =
     (let ports = host_ports (hostname n)
      in if to_u32 (port n) \<in> ports then False
         else check_unique_port_loop
                (host_ports(hostname n := insert (to_u32 (port n)) ports)) ns)"

definition check_unique_port :: "node list \<Rightarrow> bool" where
  "check_unique_port ns = check_unique_port_loop (\<lambda>_. {}) ns"

fun get_node_by_id :: "node list \<Rightarrow> int \<Rightarrow> node res" where
  "get_node_by_id [] i = Inl (Check_failed ''GetNodeById'')"
| "get_node_by_id (n # ns) i = (if to_u32 i = node_id n then Inr n else get_node_by_id ns i)"

fun check_consecutive_ids_loop :: "int \<Rightarrow> node list \<Rightarrow> bool" where
  "check_consecutive_ids_loop i [] = True"
| "check_consecutive_ids_loop i (n # ns) =
     (if node_id n \<noteq> to_u32 i then False else check_consecutive_ids_loop (i + 1) ns)"

definition check_consecutive_ids :: "node list \<Rightarrow> bool" where
  "check_consecutive_ids ns = check_consecutive_ids_loop 0 ns"

fun has_node :: "node list \<Rightarrow> u32 \<Rightarrow> bool" where
  "has_node [] i = False"
| "has_node (n # ns) i = (if node_id n = i then True else has_node ns i)"

section \<open>What the checks decide\<close>

lemma check_valid_node_ids_loop_iff:
  "check_valid_node_ids_loop ids ns \<longleftrightarrow> distinct (map node_id ns) \<and> ids \<inter> node_id ` set ns = {}"
  by (induction ids ns rule: check_valid_node_ids_loop.induct) auto

lemma check_unique_port_loop_iff:
  "check_unique_port_loop hp ns \<longleftrightarrow>
     distinct (map (\<lambda>n. (hostname n, to_u32 (port n))) ns)
       \<and> (\<forall>n \<in> set ns. to_u32 (port n) \<notin> hp (hostname n))"
proof (induction hp ns rule: check_unique_port_loop.induct)
  case (1 hp)
  then show ?case by simp
next
  case (2 hp n ns)
  show ?case
  proof (cases "to_u32 (port n) \<in> hp (hostname n)")
    case True
    then show ?thesis by (simp add: Let_def)
  next
    case False
    have eq: "(\<forall>m \<in> set ns. to_u32 (port m)
            \<notin> (hp(hostname n := insert (to_u32 (port n)) (hp (hostname n)))) (hostname m))
      \<longleftrightarrow> (hostname n, to_u32 (port n)) \<notin> (\<lambda>m. (hostname m, to_u32 (port m))) ` set ns
          \<and> (\<forall>m \<in> set ns. to_u32 (port m) \<notin> hp (hostname m))"
      by (simp add: image_iff fun_upd_apply) metis
    have "check_unique_port_loop hp (n # ns) \<longleftrightarrow> check_unique_port_loop
        (hp(hostname n := insert (to_u32 (port n)) (hp (hostname n)))) ns"
      unfolding check_unique_port_loop.simps Let_def using False by (simp only: if_False)
    also have "\<dots> \<longleftrightarrow> distinct (map (\<lambda>n. (hostname n, to_u32 (port n))) ns)
        \<and> (hostname n, to_u32 (port n)) \<notin> (\<lambda>m. (hostname m, to_u32 (port m))) ` set ns
        \<and> (\<forall>m \<in> set ns. to_u32 (port m) \<notin> hp (hostname m))"
      unfolding "2.IH"[OF refl False] eq ..
    finally show ?thesis
      using False by auto
  qed
qed

lemma check_consecutive_ids_loop_iff:
  "check_consecutive_ids_loop (int k) ns \<longleftrightarrow> map node_id ns = map of_nat [k..<k + length ns]"
proof (induction ns arbitrary: k)
  case Nil
  then show ?case by simp
next
  case (Cons n ns)
  have "int k + 1 = int (Suc k)" by simp
  moreover have "[k..<k + length (n # ns)] = k # [Suc k..<Suc k + length ns]"
    using upt_conv_Cons[of k "k + length (n # ns)"] by (simp del: upt_Suc)
  moreover have "to_u32 (int k) = of_nat k"
    by (simp add: to_u32_def)
  ultimately show ?case
    using Cons.IH[of "Suc k"] by (simp only: check_consecutive_ids_loop.simps list.map list.inject if_bool_eq_conj) blast
qed

text \<open> Each node check decides the property it is named after.\<close>

lemma node_checks_decide:
  "(check_valid_node_ids ns \<longleftrightarrow> distinct (map node_id ns))
   \<and> (check_unique_port ns \<longleftrightarrow> distinct (map (\<lambda>n. (hostname n, to_u32 (port n))) ns))
   \<and> (check_consecutive_ids ns \<longleftrightarrow> map node_id ns = map of_nat [0..<length ns])
   \<and> (has_node ns i \<longleftrightarrow> i \<in> node_id ` set ns)"
proof (intro conjI)
  show "check_valid_node_ids ns \<longleftrightarrow> distinct (map node_id ns)"
    by (simp add: check_valid_node_ids_def check_valid_node_ids_loop_iff)
  show "check_unique_port ns \<longleftrightarrow> distinct (map (\<lambda>n. (hostname n, to_u32 (port n))) ns)"
    by (simp add: check_unique_port_def check_unique_port_loop_iff)
  show "check_consecutive_ids ns \<longleftrightarrow> map node_id ns = map of_nat [0..<length ns]"
    using check_consecutive_ids_loop_iff[of 0 ns] by (simp add: check_consecutive_ids_def)
  show "has_node ns i \<longleftrightarrow> i \<in> node_id ` set ns"
    by (induction ns i rule: has_node.induct) auto
qed

lemma get_node_by_id_cases:
  "get_node_by_id ns i = (case find (\<lambda>n. node_id n = to_u32 i) ns of
      None \<Rightarrow> Inl (Check_failed ''GetNodeById'') | Some n \<Rightarrow> Inr n)"
  by (induction ns i rule: get_node_by_id.induct) auto

section \<open>Writing a machine file and reading it back\<close>

definition show_node :: "node \<Rightarrow> string" where
  "show_node n = dec_nat (unat (node_id n)) @ '':'' @ hostname n @ '':'' @ dec_nat (nat (port n))"

definition show_nodes :: "node list \<Rightarrow> string" where
  "show_nodes ns = concat (map (\<lambda>n. show_node n @ ''\<newline>'') ns)"

definition node_printable :: "node \<Rightarrow> bool" where
  "node_printable n \<longleftrightarrow> CHR '':'' \<notin> set (hostname n) \<and> CHR ''\<newline>'' \<notin> set (hostname n)
     \<and> unat (node_id n) \<le> 2147483647 \<and> 0 \<le> port n \<and> port n \<le> 2147483647"

lemma dec_nat_no_sep: "CHR '':'' \<notin> set (dec_nat n)" "CHR ''\<newline>'' \<notin> set (dec_nat n)"
  using dec_nat_digits[of _ n] digit_char_props(6,7) by metis+

lemma parse_show_node:
  assumes "node_printable n"
  shows "parse_line (show_node n) = Inr n"
proof -
  let ?i = "dec_nat (unat (node_id n))" and ?p = "dec_nat (nat (port n))" and ?h = "hostname n"
  have line: "show_node n = ?i @ CHR '':'' # (?h @ CHR '':'' # ?p)"
    by (simp add: show_node_def)
  have f1: "find_from CHR '':'' (show_node n) 0 = Some (length ?i)"
    using find_from_append[of "CHR '':''" ?i "[]" "?h @ CHR '':'' # ?p"]
    by (simp add: line dec_nat_no_sep)
  have f2: "find_from CHR '':'' (show_node n) (length ?i + 1) = Some (length ?i + 1 + length ?h)"
    using find_from_append[of "CHR '':''" ?h "?i @ '':''" ?p] assms
    by (simp add: line node_printable_def)
  have "stoi ?i = Inr (int (unat (node_id n)))" "stoi ?p = Inr (int (nat (port n)))"
    using assms by (simp_all only: node_printable_def stoi_dec_nat nat_le_iff zle_int[symmetric] nat_0_le of_nat_numeral)
  moreover have "to_u32 (int (unat (node_id n))) = node_id n"
    by (simp add: to_u32_def)
  ultimately show ?thesis
    using assms unfolding parse_line_def f1
    by (simp add: f2[simplified] Let_def) (simp add: line node_printable_def)
qed

lemma show_node_no_newline: "node_printable n \<Longrightarrow> CHR ''\<newline>'' \<notin> set (show_node n)"
  by (auto simp: show_node_def node_printable_def dec_nat_no_sep)

text \<open> A machine file written from a node list is parsed back to that list.\<close>

theorem parse_file_show_nodes:
  assumes "\<And>n. n \<in> set ns \<Longrightarrow> node_printable n"
  shows "parse_file (Some (show_nodes ns)) = Inr ns"
proof -
  have "getlines (show_nodes ns) = map show_node ns"
    using getlines_concat[of "map show_node ns"] show_node_no_newline[OF assms]
    by (simp add: show_nodes_def comp_def image_iff) blast
  moreover have "map_res parse_line (map show_node ns) = Inr ns"
    using assms by (auto simp: map_res_Inr_iff list_all2_conv_all_nth parse_show_node)
  ultimately show ?thesis by (simp add: parse_file_def)
qed

lemma parse_file_show_nodes_witness:
  "parse_file (Some (show_nodes [\<lparr>node_id = 0, hostname = ''worker1'', port = 33421\<rparr>]))
     = Inr [\<lparr>node_id = 0, hostname = ''worker1'', port = 33421\<rparr>]"
  by (rule parse_file_show_nodes) (simp add: node_printable_def)

end
