(* ===== verification/Id_Mapper.thy ===== *)
theory Id_Mapper
  imports Messages
begin

text \<open>
  \<open>driver/simple_id_mapper.cpp\<close>: which thread ids a node has.  The ids of node \<open>n\<close> are
  \<open>1000 n .. 1000 n + 999\<close>: first its servers, at 50 its helper, from 100 on its workers.
  \<open>std::set\<close> is a sorted list without repetitions.  The locale \<open>id_mapping\<close> is what the mailbox
  relies on: the node of a thread can be read off its id.
\<close>

record id_mapper =
  im_server :: "(u32, u32 list) omap"
  im_helper :: "(u32, u32 list) omap"
  im_worker :: "(u32, u32 list) omap"
  im_nodes :: "node list"

definition max_node_id :: u32 where "max_node_id = 1000"
definition max_threads :: u32 where "max_threads = 1000"
definition max_bg_threads :: u32 where "max_bg_threads = 100"
definition helper_thread_id :: u32 where "helper_thread_id = 50"

lemmas id_constants = max_node_id_def max_threads_def max_bg_threads_def helper_thread_id_def

definition im_new :: "node list \<Rightarrow> id_mapper" where
  "im_new nodes = \<lparr>im_server = [], im_helper = [], im_worker = [], im_nodes = nodes\<rparr>"

definition servers_for :: "u32 \<Rightarrow> id_mapper \<Rightarrow> u32 list" where
  "servers_for n m = get_or [] (om_get (im_server m) n)"

definition helpers_for :: "u32 \<Rightarrow> id_mapper \<Rightarrow> u32 list" where
  "helpers_for n m = get_or [] (om_get (im_helper m) n)"

definition workers_for :: "u32 \<Rightarrow> id_mapper \<Rightarrow> u32 list" where
  "workers_for n m = get_or [] (om_get (im_worker m) n)"

definition im_init_node :: "int \<Rightarrow> node \<Rightarrow> id_mapper \<Rightarrow> id_mapper res" where
  "im_init_node per_node nd m =
     check_that (node_id nd < max_node_id) (Check_failed ''SimpleIdMapper::Init'')
       (let n = node_id nd;
            m = m\<lparr>im_server := om_set n (servers_for n m @ map (\<lambda>i. n * max_threads + of_nat i) [0..<nat per_node]) (im_server m)\<rparr>
        in Inr (m\<lparr>im_helper := om_set n (helpers_for n m @ [n * max_threads + helper_thread_id]) (im_helper m)\<rparr>))"

definition im_init :: "int \<Rightarrow> id_mapper \<Rightarrow> id_mapper res" where
  "im_init per_node m =
     check_that (0 < per_node) (Check_failed ''SimpleIdMapper::Init'')
     (check_that (to_u32 per_node \<le> helper_thread_id) (Check_failed ''SimpleIdMapper::Init'')
       (fold_res (im_init_node per_node) (im_nodes m) m))"

fun first_free :: "u32 \<Rightarrow> u32 list \<Rightarrow> nat list \<Rightarrow> u32 option" where
  "first_free n used [] = None"
| "first_free n used (i # is) =
     (let tid = of_nat i + n * max_threads
      in if tid \<notin> set used then Some tid else first_free n used is)"

definition worker_slots :: "nat list" where
  "worker_slots = [unat max_bg_threads..<unat max_threads]"

definition allocate_worker :: "u32 \<Rightarrow> id_mapper \<Rightarrow> (u32 \<times> id_mapper) res" where
  "allocate_worker n m =
     check_that (om_get (im_helper m) n \<noteq> None) (Check_failed ''AllocateWorkerThread'')
     (check_that (length (workers_for n m) \<le> unat (max_threads - max_bg_threads)) (Check_failed ''AllocateWorkerThread'')
       (case first_free n (workers_for n m) worker_slots of
          None \<Rightarrow> Inl (Check_failed ''AllocateWorkerThread: false'')
        | Some tid \<Rightarrow> Inr (tid, m\<lparr>im_worker := om_set n (insort_insert tid (workers_for n m)) (im_worker m)\<rparr>)))"

definition deallocate_worker :: "u32 \<Rightarrow> u32 \<Rightarrow> id_mapper \<Rightarrow> id_mapper res" where
  "deallocate_worker n tid m =
     check_that (om_get (im_helper m) n \<noteq> None) (Check_failed ''DeallocateWorkerThread'')
     (check_that (tid \<in> set (workers_for n m)) (Check_failed ''DeallocateWorkerThread'')
       (Inr (m\<lparr>im_worker := om_set n (remove1 tid (workers_for n m)) (im_worker m)\<rparr>)))"

definition node_for_thread :: "u32 \<Rightarrow> u32" where
  "node_for_thread tid = tid div max_threads"

definition all_servers :: "id_mapper \<Rightarrow> u32 list" where
  "all_servers m = concat (map snd (im_server m))"

section \<open>Thread ids\<close>

definition thread_of :: "u32 \<Rightarrow> nat \<Rightarrow> u32" where
  "thread_of n i = n * max_threads + of_nat i"

lemma unat_thread_of:
  assumes "n < max_node_id" "i < 1000"
  shows "unat (thread_of n i) = unat n * 1000 + i"
proof -
  have n: "unat n < 1000" using assms(1) by (simp add: word_less_nat_alt max_node_id_def)
  have "unat (n * 1000) = unat n * 1000"
    using n by (simp add: unat_word_ariths)
  moreover have "unat (of_nat i :: u32) = i" using assms(2) by (intro unat_of_nat_small) simp
  ultimately show ?thesis
    using n assms(2) by (simp add: thread_of_def max_threads_def unat_word_ariths)
qed

lemma node_for_thread_of:
  assumes "n < max_node_id" "i < 1000"
  shows "node_for_thread (thread_of n i) = n"
proof -
  have "unat (node_for_thread (thread_of n i)) = unat n"
    using assms(2) by (simp add: node_for_thread_def max_threads_def unat_div unat_thread_of[OF assms])
  then show ?thesis by (simp add: word_unat_eq_iff)
qed

lemma thread_of_inj:
  assumes "n < max_node_id" "i < 1000" "m < max_node_id" "j < 1000"
  shows "thread_of n i = thread_of m j \<longleftrightarrow> n = m \<and> i = j"
proof
  assume eq: "thread_of n i = thread_of m j"
  then have "n = m" using node_for_thread_of[OF assms(1,2)] node_for_thread_of[OF assms(3,4)] by simp
  moreover have "unat n * 1000 + i = unat m * 1000 + j"
    using eq unat_thread_of[OF assms(1,2)] unat_thread_of[OF assms(3,4)] by simp
  ultimately show "n = m \<and> i = j" by simp
qed simp

section \<open>The invariant\<close>

definition im_inv :: "id_mapper \<Rightarrow> bool" where
  "im_inv m \<longleftrightarrow> om_wf (im_server m) \<and> om_wf (im_helper m) \<and> om_wf (im_worker m)
     \<and> (\<forall>n. om_get (im_helper m) n \<noteq> None \<longrightarrow> n < max_node_id)
     \<and> (\<forall>n. om_get (im_server m) n \<noteq> None \<longrightarrow> n < max_node_id)
     \<and> (\<forall>n. workers_for n m \<noteq> [] \<longrightarrow> n < max_node_id)
     \<and> (\<forall>n. set (servers_for n m) \<subseteq> thread_of n ` {0..<50})
     \<and> (\<forall>n. set (helpers_for n m) \<subseteq> {thread_of n 50})
     \<and> (\<forall>n. set (workers_for n m) \<subseteq> thread_of n ` {100..<1000} \<and> sorted (workers_for n m) \<and> distinct (workers_for n m))"

definition threads_on :: "id_mapper \<Rightarrow> u32 \<Rightarrow> u32 set" where
  "threads_on m n = set (servers_for n m) \<union> set (helpers_for n m) \<union> set (workers_for n m)"

lemma threads_on_node:
  assumes "im_inv m" "t \<in> threads_on m k"
  shows "k < max_node_id \<and> node_for_thread t = k \<and> (t \<in> set (workers_for k m) \<or> (\<exists>j \<le> 50. t = thread_of k j))"
proof -
  have slots: "k < max_node_id \<and> (\<exists>j < 1000. t = thread_of k j \<and> (j \<le> 50 \<or> t \<in> set (workers_for k m)))"
    using assms(2) unfolding threads_on_def
  proof (elim UnE)
    assume t: "t \<in> set (servers_for k m)"
    then have "om_get (im_server m) k \<noteq> None" by (cases "om_get (im_server m) k") (simp_all add: servers_for_def)
    moreover have "t \<in> thread_of k ` {0..<50}" using assms(1) t by (auto simp: im_inv_def)
    ultimately show ?thesis using assms(1) by (fastforce simp: im_inv_def)
  next
    assume t: "t \<in> set (helpers_for k m)"
    then have "om_get (im_helper m) k \<noteq> None" by (cases "om_get (im_helper m) k") (simp_all add: helpers_for_def)
    moreover have "t = thread_of k 50" using assms(1) t by (auto simp: im_inv_def)
    ultimately show ?thesis using assms(1) by (auto simp: im_inv_def intro!: exI[of _ 50])
  next
    assume t: "t \<in> set (workers_for k m)"
    then have "workers_for k m \<noteq> []" by auto
    moreover have "t \<in> thread_of k ` {100..<1000}" using assms(1) t by (auto simp: im_inv_def)
    ultimately show ?thesis using assms(1) t by (auto simp: im_inv_def)
  qed
  then show ?thesis using node_for_thread_of by auto
qed

lemma im_new_inv: "im_inv (im_new nodes)"
  by (simp add: im_inv_def im_new_def servers_for_def helpers_for_def workers_for_def)

lemma im_init_node_inv:
  assumes "im_inv m" "0 < k" "k \<le> 50" "im_init_node k nd m = Inr m'"
  shows "im_inv m'"
proof -
  let ?n = "node_id nd"
  have n: "?n < max_node_id" and m': "m' = m\<lparr>im_server := om_set ?n (servers_for ?n m @ map (thread_of ?n) [0..<nat k]) (im_server m),
      im_helper := om_set ?n (helpers_for ?n m @ [thread_of ?n 50]) (im_helper m)\<rparr>"
    using assms(4) by (auto simp: im_init_node_def Let_def res_simps thread_of_def[abs_def] helpers_for_def helper_thread_id_def)
  have "thread_of ?n ` {0..<nat k} \<subseteq> thread_of ?n ` {0..<50}" using assms(3) by (intro image_mono) auto
  then show ?thesis
    using assms(1) n unfolding im_inv_def m'
    by (auto simp: servers_for_def helpers_for_def workers_for_def)
qed

lemma im_init_inv:
  assumes "im_inv m" "im_init k m = Inr m'" "in_i32 k"
  shows "im_inv m'"
proof -
  have k: "0 < k" and le: "to_u32 k \<le> 50" and run: "fold_res (im_init_node k) (im_nodes m) m = Inr m'"
    using assms(2) by (auto simp: im_init_def res_simps helper_thread_id_def)
  have "uint (to_u32 k) = k" using k assms(3) by (intro uint_to_u32) (auto simp: in_i32_def)
  moreover have "uint (to_u32 k) \<le> 50" using le by (simp add: word_le_def)
  ultimately have "k \<le> 50" by simp
  from fold_res_invariant[OF run, of im_inv, OF assms(1)] im_init_node_inv[OF _ k this] show ?thesis by blast
qed

section \<open>Worker threads\<close>

lemma first_free_thread:
  "first_free n used (i # is) = (if thread_of n i \<notin> set used then Some (thread_of n i) else first_free n used is)"
  by (simp add: thread_of_def add.commute)

lemma first_free_Some:
  "first_free n used is = Some tid \<Longrightarrow> tid \<notin> set used \<and> (\<exists>i \<in> set is. tid = thread_of n i)"
  by (induction "is") (auto simp: first_free_thread simp del: first_free.simps(2) split: if_splits)

lemma first_free_None: "first_free n used is = None \<Longrightarrow> thread_of n ` set is \<subseteq> set used"
  by (induction "is") (auto simp: first_free_thread simp del: first_free.simps(2) split: if_splits)

lemma set_worker_slots [simp]: "set worker_slots = {100..<1000}"
proof -
  have "unat max_bg_threads = 100" "unat max_threads = 1000" by (simp_all add: id_constants)
  then show ?thesis by (simp only: worker_slots_def set_upt)
qed

lemma worker_room [simp]: "unat (max_threads - max_bg_threads) = 900"
  by (simp add: id_constants)

lemma first_free_total:
  assumes "n < max_node_id" "length used < 900"
  shows "first_free n used worker_slots \<noteq> None"
proof
  assume "first_free n used worker_slots = None"
  then have "thread_of n ` {100..<1000} \<subseteq> set used" using first_free_None[of n used worker_slots] by simp
  then have "card (thread_of n ` {100..<1000}) \<le> card (set used)" by (intro card_mono) auto
  moreover have "inj_on (thread_of n) {100..<1000}" using thread_of_inj assms(1) by (auto simp: inj_on_def)
  ultimately show False using card_length[of used] assms(2) by (simp add: card_image)
qed

lemma allocate_worker_cases:
  assumes "im_inv m" "om_get (im_helper m) n \<noteq> None"
  shows "length (workers_for n m) < 900 \<Longrightarrow> \<exists>tid m'. allocate_worker n m = Inr (tid, m')"
    "900 \<le> length (workers_for n m) \<Longrightarrow> \<not> is_ok (allocate_worker n m)"
proof -
  have n: "n < max_node_id" using assms by (auto simp: im_inv_def)
  { assume "length (workers_for n m) < 900"
    with first_free_total[OF n this] show "\<exists>tid m'. allocate_worker n m = Inr (tid, m')"
      using assms(2) by (auto simp: allocate_worker_def) }
  assume full: "900 \<le> length (workers_for n m)"
  show "\<not> is_ok (allocate_worker n m)"
  proof
    assume "is_ok (allocate_worker n m)"
    then obtain tid where tid: "first_free n (workers_for n m) worker_slots = Some tid"
      by (auto simp: is_ok_iff allocate_worker_def res_simps split: option.splits)
    then have free: "tid \<notin> set (workers_for n m)" "tid \<in> thread_of n ` {100..<1000}"
      using first_free_Some by fastforce+
    have w: "set (workers_for n m) \<subseteq> thread_of n ` {100..<1000}" "distinct (workers_for n m)"
      using assms(1) by (auto simp: im_inv_def)
    then have "set (workers_for n m) \<subset> thread_of n ` {100..<1000}" using free by auto
    then have "card (set (workers_for n m)) < card (thread_of n ` {100..<1000})"
      by (intro psubset_card_mono) auto
    also have "\<dots> \<le> 900" using card_image_le[of "{100..<1000}" "thread_of n"] by simp
    finally show False using full w(2) by (simp add: distinct_card)
  qed
qed

lemma allocate_worker_fresh:
  assumes inv: "im_inv m" and run: "allocate_worker n m = Inr (tid, m')"
  shows "im_inv m'" "node_for_thread tid = n" "tid \<notin> threads_on m k" "n < max_node_id"
    "workers_for n' m' = (if n' = n then insort_insert tid (workers_for n m) else workers_for n' m)"
    "servers_for n' m' = servers_for n' m" "helpers_for n' m' = helpers_for n' m" "im_helper m' = im_helper m"
proof -
  let ?w = "workers_for n m"
  have n: "n < max_node_id" using inv run by (auto simp: im_inv_def allocate_worker_def res_simps)
  have m': "m' = m\<lparr>im_worker := om_set n (insort_insert tid ?w) (im_worker m)\<rparr>"
    and ff: "first_free n ?w worker_slots = Some tid"
    using run by (auto simp: allocate_worker_def res_simps split: option.splits)
  obtain i where i: "100 \<le> i" "i < 1000" "tid = thread_of n i" "tid \<notin> set ?w"
    using first_free_Some[OF ff] by auto
  show "n < max_node_id" by (fact n)
  show node: "node_for_thread tid = n" using node_for_thread_of[OF n i(2)] i(3) by simp
  show "workers_for n' m' = (if n' = n then insort_insert tid (workers_for n m) else workers_for n' m)"
    "servers_for n' m' = servers_for n' m" "helpers_for n' m' = helpers_for n' m" "im_helper m' = im_helper m" for n'
    by (simp_all add: m' workers_for_def servers_for_def helpers_for_def)
  note w' = this
  have "set (insort_insert tid ?w) \<subseteq> thread_of n ` {100..<1000}"
    using inv i by (auto simp: im_inv_def set_insort_insert)
  then show "im_inv m'"
    using inv n w'(1) unfolding im_inv_def
    by (auto simp: m' servers_for_def helpers_for_def workers_for_def sorted_insort_insert distinct_insort_insert)
  show "tid \<notin> threads_on m k"
  proof
    assume "tid \<in> threads_on m k"
    note k = threads_on_node[OF inv this]
    then have "k = n" using node by simp
    with k i consider j where "j \<le> 50" "thread_of n i = thread_of n j" by auto
    then show False using thread_of_inj[OF n i(2) n] i(1) by fastforce
  qed
qed

lemma deallocate_after_allocate:
  assumes inv: "im_inv m" and run: "allocate_worker n m = Inr (tid, m')"
  shows "\<exists>m''. deallocate_worker n tid m' = Inr m'' \<and> im_inv m'' \<and> im_helper m'' = im_helper m
    \<and> im_server m'' = im_server m \<and> (\<forall>k. workers_for k m'' = workers_for k m)"
proof -
  note A = allocate_worker_fresh[OF inv run]
  have m': "m' = m\<lparr>im_worker := om_set n (insort_insert tid (workers_for n m)) (im_worker m)\<rparr>"
    and reg: "om_get (im_helper m) n \<noteq> None"
    using run by (auto simp: allocate_worker_def res_simps split: option.splits)
  have "tid \<notin> set (workers_for n m)" using A(3)[of n] by (simp add: threads_on_def)
  then have w: "workers_for n m' = insort tid (workers_for n m)"
    using A(5)[of n] by (simp add: insort_insert_insort)
  let ?m = "m'\<lparr>im_worker := om_set n (workers_for n m) (im_worker m')\<rparr>"
  have "deallocate_worker n tid m' = Inr ?m"
    using reg w A(8) by (simp add: deallocate_worker_def remove1_insort_key set_insort_key)
  moreover have same: "workers_for k ?m = workers_for k m" for k
    by (simp add: workers_for_def m')
  moreover have "im_inv ?m"
    using A(1) inv unfolding im_inv_def same by (simp add: m' servers_for_def helpers_for_def)
  moreover have "im_helper ?m = im_helper m" "im_server ?m = im_server m" by (simp_all add: m')
  ultimately show ?thesis by blast
qed

text \<open>C15. \<open>AllocateWorkerThread\<close> succeeds exactly while the node has fewer than 900 workers; the thread
  it hands out belongs to that node and is no server, helper or worker of any node.\<close>

theorem allocate_worker_correct:
  assumes "im_inv m" "om_get (im_helper m) n \<noteq> None"
  shows "case allocate_worker n m of
      Inr (tid, m') \<Rightarrow> length (workers_for n m) < 900 \<and> im_inv m' \<and> node_for_thread tid = n
        \<and> (\<forall>k. tid \<notin> threads_on m k) \<and> workers_for n m' = insort_insert tid (workers_for n m)
    | Inl _ \<Rightarrow> 900 \<le> length (workers_for n m)"
proof (cases "allocate_worker n m")
  case (Inl e)
  then show ?thesis using allocate_worker_cases(1)[OF assms] by fastforce
next
  case (Inr r)
  obtain tid m' where r: "r = (tid, m')" by force
  have "length (workers_for n m) < 900"
    using allocate_worker_cases(2)[OF assms] Inr by (fastforce simp: not_less)
  then show ?thesis
    using allocate_worker_fresh[OF assms(1) Inr[unfolded r]] Inr r by simp
qed

definition demo_mapper :: id_mapper where
  "demo_mapper = \<lparr>im_server = [(0, [0]), (1, [1000])], im_helper = [(0, [50]), (1, [1050])],
     im_worker = [(1, [1100])], im_nodes = []\<rparr>"

lemma demo_mapper_inv: "im_inv demo_mapper"
proof -
  have "thread_of 0 0 = 0" "thread_of 1 0 = 1000" "thread_of 0 50 = 50" "thread_of 1 50 = 1050" "thread_of 1 100 = 1100"
    by (simp_all add: thread_of_def max_threads_def)
  then have "0 \<in> thread_of 0 ` {0..<50}" "1000 \<in> thread_of 1 ` {0..<50}" "1100 \<in> thread_of 1 ` {100..<1000}"
    "thread_of 0 50 = 50" "thread_of 1 50 = 1050"
    by (auto intro!: image_eqI[where x = 0] image_eqI[where x = 100])
  then show ?thesis
    by (auto simp: im_inv_def demo_mapper_def servers_for_def helpers_for_def workers_for_def om_wf_def max_node_id_def)
qed

lemma allocate_worker_correct_witness:
  "\<exists>m'. allocate_worker 1 demo_mapper = Inr (1101, m') \<and> (\<forall>k. 1101 \<notin> threads_on demo_mapper k)"
proof -
  have "first_free 1 [1100] worker_slots = Some 1101"
  proof -
    have slots: "worker_slots = 100 # 101 # [102..<1000]"
      by (simp add: worker_slots_def id_constants upt_conv_Cons)
    show ?thesis
      unfolding slots first_free.simps by (simp add: max_threads_def)
  qed
  then obtain m' where "allocate_worker 1 demo_mapper = Inr (1101, m')"
    by (simp add: allocate_worker_def demo_mapper_def workers_for_def)
  with allocate_worker_correct[OF demo_mapper_inv, of 1] show ?thesis
    by (simp add: demo_mapper_def)
qed

section \<open>What the mailbox relies on\<close>

locale id_mapping =
  fixes node_of :: "u32 \<Rightarrow> u32"
    and threads :: "'m \<Rightarrow> u32 \<Rightarrow> u32 set"
    and wf :: "'m \<Rightarrow> bool"
  assumes node_of_thread: "wf m \<Longrightarrow> t \<in> threads m n \<Longrightarrow> node_of t = n"
begin

lemma threads_disjoint: "wf m \<Longrightarrow> n \<noteq> k \<Longrightarrow> threads m n \<inter> threads m k = {}"
  by (auto dest: node_of_thread)

lemma thread_on_one_node: "wf m \<Longrightarrow> t \<in> threads m n \<Longrightarrow> t \<in> threads m k \<Longrightarrow> n = k"
  by (auto dest: node_of_thread)

end

interpretation simple_ids: id_mapping node_for_thread threads_on im_inv
  using threads_on_node by unfold_locales blast

end
