(* ===== verification/Mailbox.thy ===== *)
theory Mailbox
  imports Id_Mapper
begin

text \<open>
  \<open>comm/mailbox.cpp\<close>, \<open>comm/sender.cpp\<close>: a message on the wire, the table of the local queues and
  the loops of the sending and the receiving thread.  ZeroMQ is not part of the sources: what a call
  of \<open>zmq_msg_send\<close> or \<open>zmq_msg_recv\<close> gives is an argument, one entry for each call.  The barrier is
  in \<open>Barrier\<close>.
\<close>

section \<open>The memory of a \<open>Meta\<close>\<close>

text \<open>Three fields of four bytes, the flag and three bytes of padding, and the version.\<close>

definition meta_size :: nat where "meta_size = 20"

definition enc_meta :: "u8 list \<Rightarrow> meta \<Rightarrow> u8 list" where
  "enc_meta pad m =
     pod_enc i32_pod (sender m) @ pod_enc i32_pod (recver m) @ pod_enc i32_pod (model_id m)
       @ [of_nat (flag_code (mflag m))] @ pad @ pod_enc u32_pod (version m)"

definition flag_of_code :: "nat \<Rightarrow> flag res" where
  "flag_of_code c =
     of_opt Invalid_argument (find (\<lambda>f. flag_code f = c) [kExit, kBarrier, kResetWorkerInModel, kClock, kAdd, kGet])"

definition dec_meta :: "u8 list \<Rightarrow> meta res" where
  "dec_meta bs =
     (if length bs < meta_size then Inl Out_of_bounds
      else bind_res (flag_of_code (unat (bs ! 12))) (\<lambda>f.
        Inr \<lparr>sender = pod_dec i32_pod (take 4 bs), recver = pod_dec i32_pod (take 4 (drop 4 bs)),
             model_id = pod_dec i32_pod (take 4 (drop 8 bs)), mflag = f,
             version = pod_dec u32_pod (take 4 (drop 16 bs))\<rparr>))"

definition meta_ok :: "meta \<Rightarrow> bool" where
  "meta_ok m \<longleftrightarrow> in_i32 (sender m) \<and> in_i32 (recver m) \<and> in_i32 (model_id m)"

lemma flag_of_code [simp]: "flag_of_code (flag_code f) = Inr f"
  by (cases f) (simp_all add: flag_of_code_def)

lemma unat_flag_code [simp]: "unat (of_nat (flag_code f) :: u8) = flag_code f"
  by (cases f) simp_all

lemma length_enc_meta: "length pad = 3 \<Longrightarrow> length (enc_meta pad m) = meta_size"
  by (simp add: enc_meta_def meta_size_def i32_pod.length_enc u32_pod.length_enc) (simp add: i32_pod_def u32_pod_def)

lemma dec_enc_meta:
  assumes "length pad = 3" "meta_ok m"
  shows "dec_meta (enc_meta pad m) = Inr m"
proof -
  have len: "length (pod_enc i32_pod x) = 4" "length (pod_enc u32_pod w) = 4" for x w
    by (simp_all add: i32_pod_def u32_pod_def)
  have dec: "pod_dec i32_pod (pod_enc i32_pod x) = x" if "in_i32 x" for x
    using that by (rule i32_pod.dec_enc)
  have u: "pod_dec u32_pod (pod_enc u32_pod w) = w" for w by (rule u32_pod.dec_enc) simp
  have "enc_meta pad m ! 12 = of_nat (flag_code (mflag m))"
    by (simp add: enc_meta_def nth_append len)
  moreover have "take 4 (enc_meta pad m) = pod_enc i32_pod (sender m)"
    "take 4 (drop 4 (enc_meta pad m)) = pod_enc i32_pod (recver m)"
    "take 4 (drop 8 (enc_meta pad m)) = pod_enc i32_pod (model_id m)"
    "take 4 (drop 16 (enc_meta pad m)) = pod_enc u32_pod (version m)"
    using assms(1) by (simp_all add: enc_meta_def len)
  ultimately show ?thesis
    using assms(2) length_enc_meta[OF assms(1), of m] by (simp add: dec_meta_def dec u meta_ok_def)
qed

section \<open>Sending\<close>

record mailbox =
  mb_node :: node
  mb_nodes :: "node list"
  mb_queue_map :: "(u32, nat) omap"
  mb_senders :: "u32 list"
  mb_barrier_count :: int

definition mb_new :: "node \<Rightarrow> node list \<Rightarrow> mailbox res" where
  "mb_new nd nodes =
     check_that (nodes \<noteq> []) (Check_failed ''Mailbox'')
     (check_that (nd \<in> set nodes) (Check_failed ''Mailbox'')
     (check_that (distinct (map node_id nodes)) (Check_failed ''Mailbox'')
       (Inr \<lparr>mb_node = nd, mb_nodes = nodes, mb_queue_map = [], mb_senders = [], mb_barrier_count = 0\<rparr>)))"

definition mb_queue_map_size :: "mailbox \<Rightarrow> nat" where
  "mb_queue_map_size mb = length (mb_queue_map mb)"

text \<open>\<open>ConnectAndBind\<close>, as far as later calls see it: a socket for every node.\<close>

definition mb_connect :: "node \<Rightarrow> mailbox \<Rightarrow> mailbox" where
  "mb_connect nd mb = mb\<lparr>mb_senders := insort_insert (node_id nd) (mb_senders mb)\<rparr>"

definition mb_connect_all :: "mailbox \<Rightarrow> mailbox" where
  "mb_connect_all mb = fold mb_connect (mb_nodes mb) mb"

text \<open>The result of a \<open>zmq_msg_send\<close>: what it returns, and whether \<open>errno\<close> is \<open>EINTR\<close>.\<close>

type_synonym zmq_send = "int \<times> bool"
type_synonym frame = "u8 list \<times> bool"

text \<open>\<open>Some True\<close>: sent; \<open>Some False\<close>: given up; \<open>None\<close>: still trying.\<close>

fun send_frame :: "nat \<Rightarrow> zmq_send list \<Rightarrow> (bool \<times> zmq_send list) option" where
  "send_frame n [] = None"
| "send_frame n ((r, eintr) # outs) =
     (if r = to_i32 (of_nat n) then Some (True, outs)
      else if eintr then send_frame n outs
      else Some (False, outs))"

fun send_data :: "u8 list list \<Rightarrow> zmq_send list \<Rightarrow> (bool \<times> frame list \<times> int \<times> zmq_send list) option" where
  "send_data [] outs = Some (True, [], 0, outs)"
| "send_data (d # ds) outs =
     (case send_frame (length d) outs of
        None \<Rightarrow> None
      | Some (False, outs) \<Rightarrow> Some (False, [], 0, outs)
      | Some (True, outs) \<Rightarrow>
          (case send_data ds outs of
             None \<Rightarrow> None
           | Some (ok, fs, n, outs) \<Rightarrow> Some (ok, (d, ds \<noteq> []) # fs, to_i32 (of_nat (length d)) + n, outs)))"

definition dest_node :: "(u32 \<Rightarrow> u32) \<Rightarrow> message \<Rightarrow> u32" where
  "dest_node node_of msg =
     (if msg_flag msg = kBarrier \<or> msg_flag msg = kExit then to_u32 (msg_recver msg)
      else node_of (to_u32 (msg_recver msg)))"

text \<open>The frames that reach the socket, and the number that is returned.\<close>

definition mb_send ::
  "(u32 \<Rightarrow> u32) \<Rightarrow> u8 list \<Rightarrow> message \<Rightarrow> zmq_send list \<Rightarrow> mailbox \<Rightarrow> (int \<times> (u32 \<times> frame list) option \<times> zmq_send list) option"
where
  "mb_send node_of pad msg outs mb =
     (let dest = dest_node node_of msg in
      if dest \<notin> set (mb_senders mb) then Some (-1, None, outs)
      else case send_frame meta_size outs of
          None \<Rightarrow> None
        | Some (False, outs) \<Rightarrow> Some (-1, Some (dest, []), outs)
        | Some (True, outs) \<Rightarrow>
            (case send_data (data_of msg) outs of
               None \<Rightarrow> None
             | Some (ok, fs, n, outs) \<Rightarrow>
                 Some (if ok then int meta_size + n else -1,
                       Some (dest, (enc_meta pad (meta_of msg), data_of msg \<noteq> []) # fs), outs)))"

section \<open>Receiving\<close>

text \<open>The result of a \<open>zmq_msg_recv\<close>: a frame, or a failure and whether \<open>errno\<close> is \<open>EINTR\<close>.\<close>

datatype zmq_recv = Got "u8 list" bool | Recv_failed bool

text \<open>The loop of \<open>Recv\<close>: \<open>i\<close> counts the frames, \<open>n\<close> their bytes.  \<open>None\<close>: it waits for a frame.\<close>

fun recv_loop :: "zmq_recv list \<Rightarrow> nat \<Rightarrow> nat \<Rightarrow> message \<Rightarrow> (int \<times> message \<times> zmq_recv list) res option" where
  "recv_loop [] i n msg = None"
| "recv_loop (Recv_failed eintr # evs) i n msg = (if eintr then recv_loop evs i n msg else Some (Inr (-1, msg, evs)))"
| "recv_loop (Got bs further # evs) i n msg =
     (let n = n + length bs in
      if i = 0 then
        (if further then recv_loop evs 1 n msg else Some (Inl (Check_failed ''Recv'')))
      else if i = 1 then
        (case dec_meta bs of
           Inl e \<Rightarrow> Some (Inl e)
         | Inr m \<Rightarrow> (let msg = msg\<lparr>meta_of := m\<rparr>
                     in if further then recv_loop evs 2 n msg else Some (Inr (to_i32 (of_nat n), msg, evs))))
      else (let msg = msg\<lparr>data_of := data_of msg @ [bs]\<rparr>
            in if further then recv_loop evs (Suc i) n msg else Some (Inr (to_i32 (of_nat n), msg, evs))))"

definition mb_recv :: "zmq_recv list \<Rightarrow> message \<Rightarrow> (int \<times> message \<times> zmq_recv list) res option" where
  "mb_recv evs msg = recv_loop evs 0 0 (msg\<lparr>data_of := []\<rparr>)"

section \<open>The local queues\<close>

definition mb_register :: "u32 \<Rightarrow> nat \<Rightarrow> mailbox \<Rightarrow> mailbox res" where
  "mb_register qid q mb =
     check_that (om_get (mb_queue_map mb) qid = None) (Check_failed ''RegisterQueue'')
       (Inr (mb\<lparr>mb_queue_map := om_insert qid q (mb_queue_map mb)\<rparr>))"

definition mb_deregister :: "u32 \<Rightarrow> mailbox \<Rightarrow> mailbox res" where
  "mb_deregister qid mb =
     check_that (om_get (mb_queue_map mb) qid \<noteq> None) (Check_failed ''DeregisterQueue'')
       (Inr (mb\<lparr>mb_queue_map := om_del qid (mb_queue_map mb)\<rparr>))"

type_synonym queues = "nat \<Rightarrow> message tsq"

text \<open>One turn of the loop of \<open>Receiving\<close>, for a message other than \<open>kExit\<close>, and the loop.\<close>

definition mb_dispatch :: "message \<Rightarrow> mailbox \<times> queues \<Rightarrow> (mailbox \<times> queues) res" where
  "mb_dispatch msg = (\<lambda>(mb, qs).
     if msg_flag msg = kBarrier then
       bind_res (as_i32 (mb_barrier_count mb + 1)) (\<lambda>n. Inr (mb\<lparr>mb_barrier_count := n\<rparr>, qs))
     else
       bind_res (of_opt (Check_failed ''Receiving'') (om_get (mb_queue_map mb) (to_u32 (msg_recver msg)))) (\<lambda>q.
         Inr (mb, qs(q := tsq_push msg (qs q)))))"

fun mb_receiving :: "message list \<Rightarrow> mailbox \<times> queues \<Rightarrow> ((mailbox \<times> queues) \<times> message list \<times> bool) res" where
  "mb_receiving [] s = Inr (s, [], False)"
| "mb_receiving (msg # msgs) s =
     (if msg_flag msg = kExit then Inr (s, msgs, True)
      else bind_res (mb_dispatch msg s) (mb_receiving msgs))"

text \<open>\<open>CloseSockets\<close> tells every registered queue to stop.\<close>

definition mb_exit_message :: "meta \<Rightarrow> mailbox \<Rightarrow> message" where
  "mb_exit_message junk mb =
     \<lparr>meta_of = junk\<lparr>recver := to_i32 (node_id (mb_node mb)), mflag := kExit\<rparr>, data_of = []\<rparr>"

definition mb_close :: "meta \<Rightarrow> mailbox \<Rightarrow> queues \<Rightarrow> queues" where
  "mb_close junk mb qs = fold (\<lambda>(qid, q) qs. qs(q := tsq_push (mb_exit_message junk mb) (qs q))) (mb_queue_map mb) qs"

text \<open>\<open>Sender::Send\<close>: what is handed to the mailbox before the message that ends the loop.\<close>

fun sender_main :: "message tsq \<Rightarrow> message list \<times> message tsq \<times> bool" where
  "sender_main [] = ([], [], False)"
| "sender_main (msg # q) =
     (if msg_flag msg = kExit then ([], q, True)
      else (let (sent, q, stopped) = sender_main q in (msg # sent, q, stopped)))"

definition sender_stop :: "meta \<Rightarrow> message tsq \<Rightarrow> message tsq" where
  "sender_stop junk q = tsq_push \<lparr>meta_of = junk\<lparr>mflag := kExit\<rparr>, data_of = []\<rparr> q"

section \<open>A small run\<close>

definition demo_mailbox :: mailbox where
  "demo_mailbox = \<lparr>mb_node = \<lparr>node_id = 1, hostname = ''b'', port = 80\<rparr>, mb_nodes = [\<lparr>node_id = 1, hostname = ''b'', port = 80\<rparr>],
     mb_queue_map = [(1000, 0), (1100, 1)], mb_senders = [1], mb_barrier_count = 0\<rparr>"

definition mail :: "flag \<Rightarrow> int \<Rightarrow> message" where
  "mail fl to = \<lparr>meta_of = \<lparr>sender = 100, recver = to, model_id = 0, mflag = fl, version = 7\<rparr>, data_of = [[1, 2], [3]]\<rparr>"

section \<open>What is sent is what is received\<close>

definition on_wire :: "u8 list \<Rightarrow> frame list \<Rightarrow> zmq_recv list" where
  "on_wire ident fs = Got ident True # map (\<lambda>(bs, further). Got bs further) fs"

lemma recv_data:
  assumes "send_data ds outs = Some (True, fs, k, outs')" "ds \<noteq> []"
  shows "recv_loop (map (\<lambda>(bs, further). Got bs further) fs @ evs) (Suc (Suc i)) n msg
    = Some (Inr (to_i32 (of_nat (n + sum_list (map length ds))), msg\<lparr>data_of := data_of msg @ ds\<rparr>, evs))"
  using assms
proof (induction ds arbitrary: outs fs k i n msg)
  case Nil
  then show ?case by simp
next
  case (Cons d ds)
  from Cons.prems(1) obtain outs1 fs1 k1 where rest: "send_data ds outs1 = Some (True, fs1, k1, outs')"
    and fs: "fs = (d, ds \<noteq> []) # fs1"
    by (auto split: option.splits bool.splits prod.splits)
  show ?case
  proof (cases "ds = []")
    case True
    with rest fs show ?thesis by (simp add: Let_def)
  next
    case False
    from Cons.IH[OF rest this, of "Suc i"] False fs show ?thesis by (simp add: Let_def ac_simps)
  qed
qed

lemma send_recv:
  assumes "mb_send node_of pad msg outs mb = Some (k, Some (dest, fs), outs')" "k \<noteq> -1"
    "meta_ok (meta_of msg)" "length pad = 3"
  shows "dest = dest_node node_of msg"
    "mb_recv (on_wire ident fs @ evs) m0
      = Some (Inr (to_i32 (of_nat (length ident + meta_size + sum_list (map length (data_of msg)))), msg, evs))"
proof -
  obtain outs1 fs1 n where d: "dest = dest_node node_of msg" and data: "send_data (data_of msg) outs1 = Some (True, fs1, n, outs')"
    and fs: "fs = (enc_meta pad (meta_of msg), data_of msg \<noteq> []) # fs1"
    using assms(1,2) by (auto simp: mb_send_def Let_def split: if_splits option.splits bool.splits prod.splits)
  note dec = dec_enc_meta[OF assms(4,3)] and len = length_enc_meta[OF assms(4), of "meta_of msg"]
  have msg: "\<lparr>meta_of = meta_of msg, data_of = data_of msg\<rparr> = msg" by (cases msg) simp
  show "dest = dest_node node_of msg" by (fact d)
  show "mb_recv (on_wire ident fs @ evs) m0
      = Some (Inr (to_i32 (of_nat (length ident + meta_size + sum_list (map length (data_of msg)))), msg, evs))"
  proof (cases "data_of msg = []")
    case True
    then have "fs1 = []" using data by simp
    with True msg show ?thesis by (simp add: mb_recv_def on_wire_def fs dec len Let_def)
  next
    case False
    from recv_data[OF data False, of evs 0] False msg show ?thesis
      by (simp add: mb_recv_def on_wire_def fs dec len Let_def numeral_2_eq_2 ac_simps)
  qed
qed

section \<open>Delivery\<close>

lemma mb_receiving_delivers:
  "mb_receiving msgs (mb, qs) = Inr ((mb', qs'), rest, stopped) \<Longrightarrow>
     mb_queue_map mb' = mb_queue_map mb
     \<and> qs' q = qs q @ filter (\<lambda>m. msg_flag m \<noteq> kBarrier \<and> om_get (mb_queue_map mb) (to_u32 (msg_recver m)) = Some q)
         (takeWhile (\<lambda>m. msg_flag m \<noteq> kExit) msgs)"
proof (induction msgs arbitrary: mb qs)
  case Nil
  then show ?case by simp
next
  case (Cons msg msgs)
  show ?case
  proof (cases "msg_flag msg = kExit")
    case True
    with Cons.prems show ?thesis by simp
  next
    case False
    then obtain mb1 qs1 where one: "mb_dispatch msg (mb, qs) = Inr (mb1, qs1)"
      and rest: "mb_receiving msgs (mb1, qs1) = Inr ((mb', qs'), rest, stopped)"
      using Cons.prems by (auto simp: res_simps)
    have "mb_queue_map mb1 = mb_queue_map mb"
      "qs1 q = qs q @ (if msg_flag msg \<noteq> kBarrier \<and> om_get (mb_queue_map mb) (to_u32 (msg_recver msg)) = Some q then [msg] else [])"
      using one by (auto simp: mb_dispatch_def res_simps tsq_push_def split: if_splits)
    with Cons.IH[OF rest] False show ?thesis by simp
  qed
qed

text \<open>The receiving thread loses, reorders and misdelivers nothing: every queue gets, in the order
  of arrival, exactly the messages whose receiver is registered with it, up to the exit message.\<close>

theorem mailbox_delivers:
  assumes "mb_receiving msgs (mb, qs) = Inr ((mb', qs'), rest, stopped)"
  shows "qs' q = qs q @ filter (\<lambda>m. msg_flag m \<noteq> kBarrier \<and> om_get (mb_queue_map mb) (to_u32 (msg_recver m)) = Some q)
      (takeWhile (\<lambda>m. msg_flag m \<noteq> kExit) msgs)"
  using mb_receiving_delivers[OF assms] by simp

lemma mailbox_delivers_witness:
  "\<exists>s. mb_receiving [mail kGet 1100, mail kBarrier 1, mail kAdd 1000, mail kClock 1100, mail kExit 1, mail kGet 1000]
       (demo_mailbox, \<lambda>_. []) = Inr (s, [mail kGet 1000], True)
     \<and> snd s 1 = [mail kGet 1100, mail kClock 1100]"
proof -
  let ?msgs = "[mail kGet 1100, mail kBarrier 1, mail kAdd 1000, mail kClock 1100, mail kExit 1, mail kGet 1000]"
  have f: "msg_flag (mail fl to) = fl" "msg_recver (mail fl to) = to" for fl to by (simp_all add: mail_def)
  obtain mb' qs' where run: "mb_receiving ?msgs (demo_mailbox, \<lambda>_. []) = Inr ((mb', qs'), [mail kGet 1000], True)"
    by (simp add: mb_dispatch_def f demo_mailbox_def as_i32_def in_i32_def to_u32_def)
  from mailbox_delivers[OF run, of 1] have "qs' 1 = [mail kGet 1100, mail kClock 1100]"
    by (simp add: f demo_mailbox_def to_u32_def)
  with run show ?thesis by auto
qed

text \<open>From one node to another: a message for a thread of node \<open>n\<close> that \<open>Send\<close> reports as sent goes
  to the socket of node \<open>n\<close>; there \<open>Recv\<close> rebuilds it field by field and byte by byte, and it is
  appended to the queue the thread is registered with.\<close>

lemma thread_message_arrives:
  assumes ids: "im_inv m" "to_u32 (msg_recver msg) \<in> threads_on m n" "msg_flag msg \<notin> {kBarrier, kExit}"
    and sent: "mb_send node_for_thread pad msg outs mb = Some (k, Some (dest, fs), outs')" "k \<noteq> -1"
      "meta_ok (meta_of msg)" "length pad = 3"
    and reg: "om_get (mb_queue_map mb2) (to_u32 (msg_recver msg)) = Some q"
  shows "dest = n \<and> (\<exists>size. mb_recv (on_wire ident fs @ evs) m0 = Some (Inr (size, msg, evs)))
    \<and> mb_dispatch msg (mb2, qs) = Inr (mb2, qs(q := qs q @ [msg]))"
proof -
  note S = send_recv[OF sent]
  have "dest = n"
    using S(1) ids(3) simple_ids.node_of_thread[OF ids(1,2)] by (simp add: dest_node_def)
  with S(2) ids(3) reg show ?thesis by (simp add: mb_dispatch_def tsq_push_def)
qed

lemma thread_message_arrives_witness:
  "\<exists>fs. mb_send node_for_thread [0, 0, 0] (mail kGet 1100) [(-1, True), (20, False), (2, False), (1, False)] demo_mailbox
       = Some (23, Some (1, fs), [])
     \<and> (\<exists>size. mb_recv (on_wire [9] fs @ []) (mail kExit 0) = Some (Inr (size, mail kGet 1100, [])))"
proof -
  let ?fs = "[(enc_meta [0, 0, 0] (meta_of (mail kGet 1100)), True), ([1, 2], True), ([3], False)]"
  have sent: "mb_send node_for_thread [0, 0, 0] (mail kGet 1100) [(-1, True), (20, False), (2, False), (1, False)] demo_mailbox
       = Some (23, Some (1, ?fs), [])"
    by code_simp
  have ids: "to_u32 (msg_recver (mail kGet 1100)) \<in> threads_on demo_mapper 1" "msg_flag (mail kGet 1100) \<notin> {kBarrier, kExit}"
    "meta_ok (meta_of (mail kGet 1100))" "om_get (mb_queue_map demo_mailbox) (to_u32 (msg_recver (mail kGet 1100))) = Some 1"
    by (simp_all add: threads_on_def demo_mapper_def workers_for_def mail_def to_u32_def meta_ok_def in_i32_def demo_mailbox_def)
  from thread_message_arrives[OF demo_mapper_inv ids(1,2) sent _ ids(3) _ ids(4), of "[9]" "[]" "mail kExit 0"] sent
  show ?thesis by auto
qed

lemma mb_close_pushes:
  "fold (\<lambda>(qid, q) qs. qs(q := tsq_push e (qs q))) l qs q0
    = qs q0 @ replicate (length (filter (\<lambda>p. snd p = q0) l)) e"
  by (induction l arbitrary: qs) (auto simp: tsq_push_def replicate_append_same)

text \<open>Closing the mailbox ends every local thread: each registered queue gets an exit message after
  everything that was delivered to it, once for every id it is registered under.\<close>

theorem close_stops_every_queue:
  assumes "om_get (mb_queue_map mb) qid = Some q"
  shows "\<exists>n. mb_close junk mb qs q = qs q @ replicate (Suc n) (mb_exit_message junk mb)
    \<and> msg_flag (mb_exit_message junk mb) = kExit"
proof -
  have "(qid, q) \<in> set (filter (\<lambda>p. snd p = q) (mb_queue_map mb))"
    using om_get_Some_mem[OF assms] by simp
  then have "length (filter (\<lambda>p. snd p = q) (mb_queue_map mb)) \<noteq> 0" by fastforce
  then obtain n where "length (filter (\<lambda>p. snd p = q) (mb_queue_map mb)) = Suc n" by (cases "length (filter (\<lambda>p. snd p = q) (mb_queue_map mb))") auto
  then show ?thesis by (auto simp: mb_close_def mb_close_pushes mb_exit_message_def)
qed

lemma close_stops_every_queue_witness:
  "\<exists>n e. mb_close (meta_of (mail kGet 0)) demo_mailbox (\<lambda>_. [mail kGet 1000]) 0 = mail kGet 1000 # replicate (Suc n) e
     \<and> msg_flag e = kExit"
  using close_stops_every_queue[of demo_mailbox 1000 0 "meta_of (mail kGet 0)" "\<lambda>_. [mail kGet 1000]"]
  by (auto simp: demo_mailbox_def)

end
