(* ===== verification/Barrier.thy ===== *)
theory Barrier
  imports Mailbox
begin

text \<open>
  The barrier of the mailboxes.  To enter, a node sends a message to every node, itself included; it
  leaves when it has counted a message of every node.  \<open>comm/mailbox.cpp\<close> counts messages,
  \<open>comm2/mailbox.cpp\<close> numbers the barriers and counts this one and the next one apart.  Messages may
  overtake each other in any way.  A configuration has, for each node, its counters, how many barriers
  it has left and whether it is in one, and the messages that are under way with the number of the
  barrier they were sent for.
\<close>

section \<open>The two counters\<close>

definition old_recv :: "u32 \<Rightarrow> int \<Rightarrow> int res" where
  "old_recv v c = as_i32 (c + 1)"

definition old_ready :: "nat \<Rightarrow> int \<Rightarrow> bool" where
  "old_ready n c \<longleftrightarrow> int n \<le> c"

definition old_leave :: "nat \<Rightarrow> int \<Rightarrow> int" where
  "old_leave n c = c - int n"

record barrier_counts =
  this_count :: u32
  next_count :: u32
  barrier_progress :: u32

definition bc_new :: barrier_counts where
  "bc_new = \<lparr>this_count = 0, next_count = 0, barrier_progress = 0\<rparr>"

definition bc_recv :: "nat \<Rightarrow> u32 \<Rightarrow> barrier_counts \<Rightarrow> barrier_counts res" where
  "bc_recv n v s =
     (if v = barrier_progress s then Inr (s\<lparr>this_count := this_count s + 1\<rparr>)
      else if v = barrier_progress s + 1 then
        (let s = s\<lparr>next_count := next_count s + 1\<rparr>
         in check_that (unat (next_count s) < n) (Check_failed ''next_count_ < nodes_.size()'') (Inr s))
      else Inl (Check_failed ''Barrier error.''))"

definition bc_ready :: "nat \<Rightarrow> barrier_counts \<Rightarrow> bool" where
  "bc_ready n s \<longleftrightarrow> unat (this_count s) = n"

definition bc_leave :: "barrier_counts \<Rightarrow> barrier_counts" where
  "bc_leave s = \<lparr>this_count = next_count s, next_count = 0, barrier_progress = barrier_progress s + 1\<rparr>"

section \<open>Nodes and messages\<close>

record 's bnode =
  bn_counts :: 's
  bn_left :: nat
  bn_waiting :: bool

definition bn_entered :: "'s bnode \<Rightarrow> nat" where
  "bn_entered b = bn_left b + (if bn_waiting b then 1 else 0)"

type_synonym 's bconfig = "(nat \<Rightarrow> 's bnode) \<times> (nat \<times> nat \<times> u32) multiset"

inductive bar_step ::
  "(u32 \<Rightarrow> 's \<Rightarrow> 's res) \<Rightarrow> ('s \<Rightarrow> bool) \<Rightarrow> ('s \<Rightarrow> 's) \<Rightarrow> ('s \<Rightarrow> u32) \<Rightarrow> nat \<Rightarrow> 's bconfig \<Rightarrow> 's bconfig \<Rightarrow> bool"
  for recv ready leave stamp n
where
  bar_enter: "i < n \<Longrightarrow> \<not> bn_waiting (ns i) \<Longrightarrow>
    bar_step recv ready leave stamp n (ns, fl)
      (ns(i := (ns i)\<lparr>bn_waiting := True\<rparr>),
       fl + mset (map (\<lambda>j. (j, bn_left (ns i), stamp (bn_counts (ns i)))) [0..<n]))"
| bar_arrive: "(i, k, v) \<in># fl \<Longrightarrow> recv v (bn_counts (ns i)) = Inr s \<Longrightarrow>
    bar_step recv ready leave stamp n (ns, fl) (ns(i := (ns i)\<lparr>bn_counts := s\<rparr>), fl - {#(i, k, v)#})"
| bar_leave: "i < n \<Longrightarrow> bn_waiting (ns i) \<Longrightarrow> ready (bn_counts (ns i)) \<Longrightarrow>
    bar_step recv ready leave stamp n (ns, fl)
      (ns(i := \<lparr>bn_counts = leave (bn_counts (ns i)), bn_left = Suc (bn_left (ns i)), bn_waiting = False\<rparr>), fl)"

definition bar_start :: "'s \<Rightarrow> 's bconfig" where
  "bar_start s = ((\<lambda>_. \<lparr>bn_counts = s, bn_left = 0, bn_waiting = False\<rparr>), {#})"

inductive bar_run ::
  "(u32 \<Rightarrow> 's \<Rightarrow> 's res) \<Rightarrow> ('s \<Rightarrow> bool) \<Rightarrow> ('s \<Rightarrow> 's) \<Rightarrow> ('s \<Rightarrow> u32) \<Rightarrow> nat \<Rightarrow> 's \<Rightarrow> 's bconfig \<Rightarrow> bool"
  for recv ready leave stamp n s0
where
  bar_begin: "bar_run recv ready leave stamp n s0 (bar_start s0)"
| bar_more: "bar_run recv ready leave stamp n s0 c \<Longrightarrow> bar_step recv ready leave stamp n c c' \<Longrightarrow>
    bar_run recv ready leave stamp n s0 c'"

section \<open>What a counter has to do\<close>

text \<open>
  \<open>tracks s p R\<close>: the counter \<open>s\<close> stands for \<open>p\<close> barriers left and the messages \<open>R\<close> received, each
  given by the number of its barrier.  A message can be received unless a node would have sent two for
  the same barrier, or the node itself one for a barrier it has not entered.
\<close>

locale barrier_counter =
  fixes recv :: "u32 \<Rightarrow> 's \<Rightarrow> 's res"
    and ready :: "'s \<Rightarrow> bool"
    and leave :: "'s \<Rightarrow> 's"
    and stamp :: "'s \<Rightarrow> u32"
    and n :: nat
    and s0 :: 's
    and tracks :: "'s \<Rightarrow> nat \<Rightarrow> nat multiset \<Rightarrow> bool"
    and number :: "nat \<Rightarrow> u32 \<Rightarrow> bool"
  assumes start_law: "tracks s0 0 {#}"
    and stamp_law: "tracks s p R \<Longrightarrow> number p (stamp s)"
    and recv_law: "n < 2 ^ 30 \<Longrightarrow> tracks s p R \<Longrightarrow> number k v \<Longrightarrow> k \<le> Suc p \<Longrightarrow> (\<And>j. count R j \<le> n) \<Longrightarrow> count R k < n \<Longrightarrow>
      (k = Suc p \<Longrightarrow> Suc (count R k) < n) \<Longrightarrow> (\<And>j. Suc p < j \<Longrightarrow> count R j = 0) \<Longrightarrow>
      \<exists>s'. recv v s = Inr s' \<and> tracks s' p (add_mset k R)"
    and ready_law: "tracks s p R \<Longrightarrow> ready s \<Longrightarrow> Suc p * n \<le> size R"
    and full_law: "tracks s p R \<Longrightarrow> (\<And>k. k \<le> p \<Longrightarrow> count R k = n) \<Longrightarrow> ready s"
    and leave_law: "tracks s p R \<Longrightarrow> ready s \<Longrightarrow> tracks (leave s) (Suc p) R"
begin

abbreviation step :: "'s bconfig \<Rightarrow> 's bconfig \<Rightarrow> bool" where
  "step \<equiv> bar_step recv ready leave stamp n"

definition to_node :: "nat \<Rightarrow> nat \<Rightarrow> (nat \<times> nat \<times> u32) multiset \<Rightarrow> nat" where
  "to_node i k fl = size {#m \<in># fl. fst m = i \<and> fst (snd m) = k#}"

definition sent_for :: "(nat \<Rightarrow> 's bnode) \<Rightarrow> nat \<Rightarrow> nat" where
  "sent_for ns k = card {j. j < n \<and> k < bn_entered (ns j)}"

definition binv :: "'s bconfig \<Rightarrow> (nat \<Rightarrow> nat multiset) \<Rightarrow> bool" where
  "binv c R \<longleftrightarrow> (case c of (ns, fl) \<Rightarrow>
     (\<forall>i < n. tracks (bn_counts (ns i)) (bn_left (ns i)) (R i))
     \<and> (\<forall>i < n. \<forall>k. count (R i) k + to_node i k fl = sent_for ns k)
     \<and> (\<forall>i k v. (i, k, v) \<in># fl \<longrightarrow> i < n \<and> number k v)
     \<and> (\<forall>i < n. \<forall>j < n. bn_left (ns i) \<le> bn_entered (ns j)))"

lemma sent_for_le: "sent_for ns k \<le> n"
proof -
  have "card {j. j < n \<and> k < bn_entered (ns j)} \<le> card {..<n}" by (intro card_mono) auto
  then show ?thesis by (simp add: sent_for_def)
qed

lemma entered_bound:
  assumes "binv (ns, fl) R" "i < n" "j < n"
  shows "bn_entered (ns j) \<le> Suc (Suc (bn_left (ns i)))" "bn_entered (ns j) \<le> Suc (bn_entered (ns i))"
proof -
  have "bn_left (ns j) \<le> bn_entered (ns i)" using assms by (simp add: binv_def)
  then show "bn_entered (ns j) \<le> Suc (Suc (bn_left (ns i)))" "bn_entered (ns j) \<le> Suc (bn_entered (ns i))"
    by (auto simp: bn_entered_def split: if_splits)
qed

lemma sent_for_less: "j < n \<Longrightarrow> bn_entered (ns j) \<le> k \<Longrightarrow> sent_for ns k < n"
proof -
  assume j: "j < n" "bn_entered (ns j) \<le> k"
  have "{j. j < n \<and> k < bn_entered (ns j)} \<subseteq> {..<n}" by (rule subsetI) simp
  moreover have "j \<notin> {j. j < n \<and> k < bn_entered (ns j)}" "j \<in> {..<n}" using j by simp_all
  ultimately have "{j. j < n \<and> k < bn_entered (ns j)} \<subset> {..<n}" by blast
  then have "card {j. j < n \<and> k < bn_entered (ns j)} < card {..<n}" by (intro psubset_card_mono) auto
  then show ?thesis by (simp add: sent_for_def)
qed

lemma sent_for_zero: "(\<And>j. j < n \<Longrightarrow> bn_entered (ns j) \<le> k) \<Longrightarrow> sent_for ns k = 0"
proof -
  assume le: "\<And>j. j < n \<Longrightarrow> bn_entered (ns j) \<le> k"
  have "{j. j < n \<and> k < bn_entered (ns j)} = {}"
  proof (intro equals0I, clarify)
    fix j assume "j < n" "k < bn_entered (ns j)"
    then show False using le[of j] by simp
  qed
  then show ?thesis by (simp add: sent_for_def)
qed

lemma size_small:
  assumes "\<And>k. p < k \<Longrightarrow> count R k = 0" "\<And>k. count R k \<le> n" "count R p < n"
  shows "size R < Suc p * n"
proof -
  have "set_mset R \<subseteq> {..p}"
  proof
    fix k assume "k \<in># R"
    then have "count R k \<noteq> 0" by simp
    then show "k \<in> {..p}" using assms(1)[of k] by (cases "k \<le> p") auto
  qed
  then have "(\<Sum>k \<in> set_mset R. count R k) \<le> (\<Sum>k \<le> p. count R k)"
    by (intro sum_mono2) auto
  then have "size R \<le> (\<Sum>k \<le> p. count R k)"
    by (simp add: size_multiset_overloaded_eq)
  also have "\<dots> = (\<Sum>k < p. count R k) + count R p" by (simp add: lessThan_Suc_atMost[symmetric])
  also have "\<dots> \<le> p * n + count R p"
    using sum_bounded_above[of "{..<p}" "count R" n] assms(2) by simp
  finally show ?thesis using assms(3) by simp
qed

lemma to_node_sent:
  assumes "j < n"
  shows "to_node j k (fl + mset (map (\<lambda>j. (j, l, v)) [0..<n])) = to_node j k fl + (if k = l then 1 else 0)"
proof -
  have "length (filter (\<lambda>x. x = j) [0..<n]) = 1"
  proof -
    have "{i. i < n \<and> [0..<n] ! i = j} = {j}" using assms by auto
    then show ?thesis by (simp add: length_filter_conv_card)
  qed
  then have "length (filter (\<lambda>m. fst m = j \<and> fst (snd m) = k) (map (\<lambda>j. (j, l, v)) [0..<n])) = (if k = l then 1 else 0)"
    by (auto simp: filter_map o_def)
  then show ?thesis
    by (simp only: to_node_def filter_union_mset size_union mset_filter[symmetric] size_mset)
qed

lemma to_node_removed:
  "(i, k, v) \<in># fl \<Longrightarrow> to_node j l (fl - {#(i, k, v)#}) + (if j = i \<and> l = k then 1 else 0) = to_node j l fl"
proof -
  assume "(i, k, v) \<in># fl"
  then obtain fl' where "fl = add_mset (i, k, v) fl'" by (metis insert_DiffM)
  then show ?thesis by (simp add: to_node_def)
qed

lemma arrival_received:
  assumes few: "n < 2 ^ 30" and inv: "binv (ns, fl) R" and m: "(i, k, v) \<in># fl"
  shows "\<exists>s. recv v (bn_counts (ns i)) = Inr s \<and> tracks s (bn_left (ns i)) (add_mset k (R i))"
proof -
  note I = inv[unfolded binv_def prod.case]
  have i: "i < n" "number k v" using I m by blast+
  have total: "count (R i) l + to_node i l fl = sent_for ns l" for l using I i(1) by blast
  have one: "Suc 0 \<le> to_node i k fl" using to_node_removed[OF m, of i k] by simp
  let ?p = "bn_left (ns i)"
  have own: "bn_entered (ns i) \<le> Suc ?p" by (simp add: bn_entered_def)
  have none: "sent_for ns l = 0" if "Suc ?p < l" for l
    using sent_for_zero[of ns l] entered_bound(1)[OF inv i(1)] that by fastforce
  show ?thesis
  proof (rule recv_law)
    show "n < 2 ^ 30" by (fact few)
    show "tracks (bn_counts (ns i)) ?p (R i)" using I i(1) by blast
    show "number k v" by (fact i(2))
    show "k \<le> Suc ?p"
    proof (rule ccontr)
      assume "\<not> k \<le> Suc ?p"
      then show False using none[of k] total[of k] one by simp
    qed
    show "count (R i) l \<le> n" for l using total[of l] sent_for_le[of ns l] by simp
    show "count (R i) k < n" using total[of k] sent_for_le[of ns k] one by simp
    show "Suc (count (R i) k) < n" if "k = Suc ?p"
      using total[of k] sent_for_less[OF i(1), of ns k] own one that by simp
    show "count (R i) l = 0" if "Suc ?p < l" for l using none[OF that] total[of l] by simp
  qed
qed

lemma binv_enter:
  assumes inv: "binv (ns, fl) R" and i: "i < n" "\<not> bn_waiting (ns i)"
  shows "binv (ns(i := (ns i)\<lparr>bn_waiting := True\<rparr>),
    fl + mset (map (\<lambda>j. (j, bn_left (ns i), stamp (bn_counts (ns i)))) [0..<n])) R"
proof -
  note I = inv[unfolded binv_def prod.case]
  let ?ns = "ns(i := (ns i)\<lparr>bn_waiting := True\<rparr>)" and ?l = "bn_left (ns i)"
  have e: "bn_entered (?ns j) = bn_entered (ns j) + (if j = i then 1 else 0)" for j
    using i(2) by (simp add: bn_entered_def)
  have e': "bn_entered ((ns i)\<lparr>bn_waiting := True\<rparr>) = Suc ?l" by (simp add: bn_entered_def)
  have ei: "bn_entered (ns i) = ?l" using i(2) by (simp add: bn_entered_def)
  have s: "sent_for ?ns k = sent_for ns k + (if k = ?l then 1 else 0)" for k
  proof (cases "k = ?l")
    case True
    have "{j. j < n \<and> k < bn_entered (?ns j)} = insert i {j. j < n \<and> k < bn_entered (ns j)}"
      using i(1) by (auto simp: e' ei True)
    then show ?thesis by (simp add: sent_for_def True ei)
  next
    case False
    have "{j. j < n \<and> k < bn_entered (?ns j)} = {j. j < n \<and> k < bn_entered (ns j)}"
      using False ei by (auto simp: e' less_Suc_eq)
    then show ?thesis by (simp add: sent_for_def False)
  qed
  have num: "number ?l (stamp (bn_counts (ns i)))" using I i(1) stamp_law by blast
  show ?thesis
    unfolding binv_def prod.case
  proof (intro conjI allI impI)
    show "tracks (bn_counts (?ns j)) (bn_left (?ns j)) (R j)" if "j < n" for j using I that by simp
    show "count (R j) k + to_node j k (fl + mset (map (\<lambda>j. (j, ?l, stamp (bn_counts (ns i)))) [0..<n]))
        = sent_for ?ns k" if "j < n" for j k
    proof -
      have "count (R j) k + to_node j k fl = sent_for ns k" using I that by blast
      then show ?thesis unfolding to_node_sent[OF that] s by simp
    qed
    fix j k v assume m: "(j, k, v) \<in># fl + mset (map (\<lambda>j. (j, ?l, stamp (bn_counts (ns i)))) [0..<n])"
    then have "(j, k, v) \<in># fl \<or> j < n \<and> k = ?l \<and> v = stamp (bn_counts (ns i))" by auto
    then show "j < n" "number k v" using I num by blast+
  next
    fix j k assume "j < n" "k < n"
    then have "bn_left (ns j) \<le> bn_entered (ns k)" using I by blast
    then show "bn_left (?ns j) \<le> bn_entered (?ns k)" by (auto simp: e' ei)
  qed
qed

lemma binv_arrive:
  assumes few: "n < 2 ^ 30" and inv: "binv (ns, fl) R" and m: "(i, k, v) \<in># fl" and r: "recv v (bn_counts (ns i)) = Inr s"
  shows "binv (ns(i := (ns i)\<lparr>bn_counts := s\<rparr>), fl - {#(i, k, v)#}) (R(i := add_mset k (R i)))"
proof -
  note I = inv[unfolded binv_def prod.case]
  let ?ns = "ns(i := (ns i)\<lparr>bn_counts := s\<rparr>)"
  have t: "tracks s (bn_left (ns i)) (add_mset k (R i))" using arrival_received[OF few inv m] r by auto
  have e: "bn_entered (?ns j) = bn_entered (ns j)" for j by (simp add: bn_entered_def)
  have s: "sent_for ?ns l = sent_for ns l" for l by (simp only: sent_for_def e)
  show ?thesis
    unfolding binv_def prod.case
  proof (intro conjI allI impI)
    show "tracks (bn_counts (?ns j)) (bn_left (?ns j)) ((R(i := add_mset k (R i))) j)" if "j < n" for j
      using I t that by simp
    show "count ((R(i := add_mset k (R i))) j) l + to_node j l (fl - {#(i, k, v)#}) = sent_for ?ns l"
      if "j < n" for j l
    proof -
      have "count (R j) l + to_node j l fl = sent_for ns l" using I that by blast
      then show ?thesis using to_node_removed[OF m, of j l] unfolding s by auto
    qed
    fix j l w assume "(j, l, w) \<in># fl - {#(i, k, v)#}"
    then have "(j, l, w) \<in># fl" by (rule in_diffD)
    then show "j < n" "number l w" using I by blast+
  next
    fix j l assume "j < n" "l < n"
    then show "bn_left (?ns j) \<le> bn_entered (?ns l)" using I unfolding e by auto
  qed
qed

lemma binv_leave:
  assumes inv: "binv (ns, fl) R" and i: "i < n" "bn_waiting (ns i)" "ready (bn_counts (ns i))"
  shows "binv (ns(i := \<lparr>bn_counts = leave (bn_counts (ns i)), bn_left = Suc (bn_left (ns i)), bn_waiting = False\<rparr>), fl) R"
    "j < n \<Longrightarrow> Suc (bn_left (ns i)) \<le> bn_entered (ns j)"
proof -
  note I = inv[unfolded binv_def prod.case]
  let ?p = "bn_left (ns i)"
  let ?ns = "ns(i := \<lparr>bn_counts = leave (bn_counts (ns i)), bn_left = Suc ?p, bn_waiting = False\<rparr>)"
  have t: "tracks (bn_counts (ns i)) ?p (R i)" using I i(1) by blast
  have total: "count (R i) l + to_node i l fl = sent_for ns l" for l using I i(1) by blast
  show all: "Suc ?p \<le> bn_entered (ns j)" if j: "j < n" for j
  proof (rule ccontr)
    assume "\<not> Suc ?p \<le> bn_entered (ns j)"
    then have late: "bn_entered (ns j) \<le> ?p" by simp
    have "size (R i) < Suc ?p * n"
    proof (rule size_small)
      show "count (R i) k = 0" if "?p < k" for k
      proof -
        have "bn_entered (ns l) \<le> k" if "l < n" for l
          using entered_bound(2)[OF inv j that] late \<open>?p < k\<close> by simp
        then show ?thesis using total[of k] sent_for_zero[of ns k] by simp
      qed
      show "count (R i) k \<le> n" for k using total[of k] sent_for_le[of ns k] by simp
      show "count (R i) ?p < n" using total[of ?p] sent_for_less[of j ns ?p, OF j late] by simp
    qed
    then show False using ready_law[OF t i(3)] by simp
  qed
  have e: "bn_entered (?ns j) = bn_entered (ns j)" for j using i(2) by (simp add: bn_entered_def)
  have s: "sent_for ?ns l = sent_for ns l" for l by (simp only: sent_for_def e)
  show "binv (?ns, fl) R"
    unfolding binv_def prod.case
  proof (intro conjI allI impI)
    show "tracks (bn_counts (?ns j)) (bn_left (?ns j)) (R j)" if "j < n" for j
      using I leave_law[OF t i(3)] that by simp
    show "count (R j) l + to_node j l fl = sent_for ?ns l" if "j < n" for j l using I that unfolding s by blast
    show "j < n" "number l w" if "(j, l, w) \<in># fl" for j l w using I that by blast+
    show "bn_left (?ns j) \<le> bn_entered (?ns l)" if "j < n" "l < n" for j l
      using I all that unfolding e by simp
  qed
qed

lemma step_binv: "step c c' \<Longrightarrow> n < 2 ^ 30 \<Longrightarrow> binv c R \<Longrightarrow> \<exists>R'. binv c' R'"
  by (induction rule: bar_step.induct) (use binv_enter binv_arrive binv_leave(1) in blast)+

lemma run_binv: "bar_run recv ready leave stamp n s0 c \<Longrightarrow> n < 2 ^ 30 \<Longrightarrow> \<exists>R. binv c R"
proof (induction rule: bar_run.induct)
  case bar_begin
  have "binv (bar_start s0) (\<lambda>_. {#})"
    using start_law by (auto simp: binv_def bar_start_def to_node_def sent_for_def bn_entered_def)
  then show ?case by blast
next
  case (bar_more c c')
  then show ?case using step_binv by blast
qed

text \<open>A node that has left its \<open>k\<close>-th barrier knows that every node has entered its \<open>k\<close>-th.\<close>

lemma run_safe:
  assumes "bar_run recv ready leave stamp n s0 (ns, fl)" "n < 2 ^ 30" "i < n" "j < n"
  shows "bn_left (ns i) \<le> bn_entered (ns j)"
  using run_binv[OF assms(1,2)] assms(3,4) by (auto simp: binv_def)

text \<open>Every message can be received.\<close>

lemma run_receives:
  assumes "bar_run recv ready leave stamp n s0 (ns, fl)" "n < 2 ^ 30" "(i, k, v) \<in># fl"
  shows "\<exists>s. recv v (bn_counts (ns i)) = Inr s"
  using run_binv[OF assms(1,2)] arrival_received[OF assms(2)] assms(3) by blast

text \<open>When all nodes wait, one of them can leave or a message can arrive.\<close>

lemma run_live:
  assumes run: "bar_run recv ready leave stamp n s0 (ns, fl)" and few: "n < 2 ^ 30" and nodes: "0 < n"
    and all: "\<And>i. i < n \<Longrightarrow> bn_waiting (ns i)"
  shows "\<exists>c'. step (ns, fl) c'"
proof (cases "fl = {#}")
  case False
  then obtain i k v where m: "(i, k, v) \<in># fl" by (metis multiset_nonemptyE prod_cases3)
  obtain s where s: "recv v (bn_counts (ns i)) = Inr s" using run_receives[OF run few m] by blast
  show ?thesis using bar_arrive[where recv = recv and ns = ns and s = s, OF m s] by blast
next
  case True
  obtain R where inv: "binv (ns, fl) R" using run_binv[OF run few] by blast
  note I = inv[unfolded binv_def prod.case]
  let ?left = "(\<lambda>i. bn_left (ns i)) ` {..<n}"
  have fin: "finite ?left" "?left \<noteq> {}" using nodes by auto
  obtain i where i: "i < n" "bn_left (ns i) = Min ?left" using Min_in[OF fin] by auto
  have least: "bn_left (ns i) \<le> bn_left (ns j)" if "j < n" for j
    unfolding i(2) by (rule Min_le[OF fin(1)]) (use that in simp)
  let ?p = "bn_left (ns i)"
  have total: "count (R i) l = sent_for ns l" for l using I i(1) by (simp add: True to_node_def)
  have rdy: "ready (bn_counts (ns i))"
  proof (rule full_law)
    show "tracks (bn_counts (ns i)) ?p (R i)" using I i(1) by blast
    show "count (R i) k = n" if "k \<le> ?p" for k
    proof -
      have "k < bn_entered (ns j)" if "j < n" for j
        using least[OF that] all[OF that] \<open>k \<le> ?p\<close> by (simp add: bn_entered_def)
      then have "{j. j < n \<and> k < bn_entered (ns j)} = {..<n}" by auto
      then show ?thesis by (simp add: total sent_for_def)
    qed
  qed
  show ?thesis using bar_leave[where ready = ready and ns = ns and i = i, OF i(1) all[OF i(1)] rdy] by blast
qed

end

section \<open>Both mailboxes\<close>

lemma size_as_sum:
  fixes R :: "nat multiset" and p :: nat
  assumes none: "\<And>k. p < k \<Longrightarrow> count R k = 0"
  shows "size R = (\<Sum>k \<le> p. count R k)"
proof -
  have "set_mset R \<subseteq> {..p}"
  proof
    fix k assume "k \<in># R"
    then have "count R k \<noteq> 0" by simp
    then show "k \<in> {..p}" using none[of k] by (cases "p < k") simp_all
  qed
  then have "(\<Sum>k \<in> set_mset R. count R k) = (\<Sum>k \<le> p. count R k)"
    by (intro sum.mono_neutral_left) (auto simp: not_in_iff)
  then show ?thesis by (simp add: size_multiset_overloaded_eq)
qed

lemma size_full: "(\<And>k. k \<le> p \<Longrightarrow> count R k = n) \<Longrightarrow> Suc p * n \<le> size (R :: nat multiset)"
proof -
  assume full: "\<And>k. k \<le> p \<Longrightarrow> count R k = n"
  have "size {#k \<in># R. k \<le> p#} = (\<Sum>k \<le> p. count {#k \<in># R. k \<le> p#} k)" by (rule size_as_sum) simp
  also have "\<dots> = (\<Sum>k \<le> p. n)" by (rule sum.cong) (simp_all add: full)
  finally show ?thesis using size_filter_mset_lesseq[of "\<lambda>k. k \<le> p" R] by simp
qed

definition old_tracks :: "nat \<Rightarrow> int \<Rightarrow> nat \<Rightarrow> nat multiset \<Rightarrow> bool" where
  "old_tracks n c p R \<longleftrightarrow> c = int (size R) - int (p * n) \<and> p * n \<le> size R"

definition bc_tracks :: "nat \<Rightarrow> barrier_counts \<Rightarrow> nat \<Rightarrow> nat multiset \<Rightarrow> bool" where
  "bc_tracks n s p R \<longleftrightarrow> barrier_progress s = of_nat p \<and> (\<forall>k < p. count R k = n)
     \<and> unat (this_count s) = count R p \<and> unat (next_count s) = count R (Suc p) \<and> (\<forall>k > Suc p. count R k = 0)"

interpretation old_barrier: barrier_counter old_recv "old_ready n" "old_leave n" stamp n 0 "old_tracks n" "\<lambda>_ _. True"
proof
  show "old_tracks n 0 0 {#}" by (simp add: old_tracks_def)
next
  fix s p R k v
  assume few: "n < 2 ^ 30" and t: "old_tracks n s p R" and c: "\<And>j. count R j \<le> n" "\<And>j. Suc p < j \<Longrightarrow> count R j = 0"
  have "size R = (\<Sum>k \<le> Suc p. count R k)" using c(2) by (rule size_as_sum)
  also have "\<dots> \<le> Suc (Suc p) * n" using sum_bounded_above[of "{..Suc p}" "count R" n] c(1) by simp
  finally have "s \<le> 2 * int n" using t by (simp add: old_tracks_def algebra_simps flip: of_nat_mult of_nat_add)
  moreover have "0 \<le> s" using t by (simp add: old_tracks_def flip: of_nat_mult)
  ultimately have "in_i32 (s + 1)" using few by (simp add: in_i32_def)
  then show "\<exists>s'. old_recv v s = Inr s' \<and> old_tracks n s' p (add_mset k R)"
    using t by (simp add: old_recv_def as_i32_def old_tracks_def)
next
  fix s p R
  assume "old_tracks n s p R" "old_ready n s"
  then have "int (Suc p * n) \<le> int (size R)" by (simp add: old_tracks_def old_ready_def algebra_simps)
  then show "Suc p * n \<le> size R" by (simp only: of_nat_le_iff)
next
  fix s p R
  assume t: "old_tracks n s p R" and "\<And>k. k \<le> p \<Longrightarrow> count R k = n"
  then have "int (Suc p * n) \<le> int (size R)" using size_full by (simp only: of_nat_le_iff)
  then show "old_ready n s" using t by (simp add: old_tracks_def old_ready_def algebra_simps)
next
  fix s p R
  assume t: "old_tracks n s p R" "old_ready n s"
  then have "int (Suc p * n) \<le> int (size R)" by (simp add: old_tracks_def old_ready_def algebra_simps)
  then have "Suc p * n \<le> size R" by (simp only: of_nat_le_iff)
  then show "old_tracks n (old_leave n s) (Suc p) R"
    using t by (simp add: old_tracks_def old_leave_def algebra_simps)
qed simp

interpretation numbered_barrier: barrier_counter "bc_recv n" "bc_ready n" bc_leave barrier_progress n bc_new
  "bc_tracks n" "\<lambda>k v. v = of_nat k"
proof
  show "bc_tracks n bc_new 0 {#}" by (simp add: bc_tracks_def bc_new_def)
  show "barrier_progress s = of_nat p" if "bc_tracks n s p R" for s p R using that by (simp add: bc_tracks_def)
next
  fix s p R k v
  assume few: "n < 2 ^ 30" and t: "bc_tracks n s p R" and v: "v = (of_nat k :: u32)" and k: "k \<le> Suc p"
    and c: "count R k < n" and last: "k = Suc p \<Longrightarrow> Suc (count R k) < n"
  note T = t[unfolded bc_tracks_def]
  have "\<not> k < p" using T c by auto
  then consider "k = p" | "k = Suc p" using k by linarith
  then show "\<exists>s'. bc_recv n v s = Inr s' \<and> bc_tracks n s' p (add_mset k R)"
  proof cases
    case 1
    have "unat (this_count s) < unat (of_nat n :: u32)"
      using T c 1 few by (simp add: unat_of_nat_small)
    then have "unat (this_count s + 1) = Suc (unat (this_count s))" by (rule unat_Suc_below)
    then show ?thesis using T 1 by (simp add: bc_recv_def v bc_tracks_def)
  next
    case 2
    have "unat (next_count s) < unat (of_nat n :: u32)"
      using T c 2 few by (simp add: unat_of_nat_small)
    then have "unat (next_count s + 1) = Suc (unat (next_count s))" by (rule unat_Suc_below)
    then show ?thesis using T 2 last[OF 2] by (simp add: bc_recv_def v bc_tracks_def Let_def add.commute)
  qed
next
  fix s p R
  assume t: "bc_tracks n s p R" "bc_ready n s"
  then have "count R k = n" if "k \<le> p" for k using that by (cases "k = p") (auto simp: bc_tracks_def bc_ready_def)
  then show "Suc p * n \<le> size R" by (rule size_full)
next
  show "bc_ready n s" if "bc_tracks n s p R" "\<And>k. k \<le> p \<Longrightarrow> count R k = n" for s p R
    using that by (simp add: bc_tracks_def bc_ready_def)
next
  show "bc_tracks n (bc_leave s) (Suc p) R" if "bc_tracks n s p R" "bc_ready n s" for s p R
    using that by (auto simp: bc_tracks_def bc_leave_def bc_ready_def less_Suc_eq)
qed

definition demo_nodes :: "'s \<Rightarrow> nat \<Rightarrow> 's bnode" where
  "demo_nodes s = (\<lambda>_. \<lparr>bn_counts = s, bn_left = 0, bn_waiting = False\<rparr>)
     (0 := \<lparr>bn_counts = s, bn_left = 0, bn_waiting = True\<rparr>, 1 := \<lparr>bn_counts = s, bn_left = 0, bn_waiting = True\<rparr>)"

definition demo_mail :: "(nat \<times> nat \<times> u32) multiset" where
  "demo_mail = {#(0, 0, 0), (1, 0, 0), (0, 0, 0), (1, 0, 0)#}"

lemma demo_run:
  assumes "stamp s = 0"
  shows "bar_run recv ready leave stamp 2 s (demo_nodes s, demo_mail)"
proof -
  let ?ns = "fst (bar_start s)"
  let ?ns1 = "?ns(0 := (?ns 0)\<lparr>bn_waiting := True\<rparr>)"
  let ?fl1 = "{#} + mset (map (\<lambda>j. (j, bn_left (?ns 0), stamp (bn_counts (?ns 0)))) [0..<2])"
  have "bar_step recv ready leave stamp 2 (?ns, {#}) (?ns1, ?fl1)"
    by (rule bar_enter) (simp_all add: bar_start_def)
  then have "bar_run recv ready leave stamp 2 s (?ns1, ?fl1)"
    using bar_more[OF bar_begin] by (simp add: bar_start_def)
  moreover have "bar_step recv ready leave stamp 2 (?ns1, ?fl1) (?ns1(1 := (?ns1 1)\<lparr>bn_waiting := True\<rparr>),
      ?fl1 + mset (map (\<lambda>j. (j, bn_left (?ns1 1), stamp (bn_counts (?ns1 1)))) [0..<2]))"
    by (rule bar_enter) (simp_all add: bar_start_def)
  ultimately have "bar_run recv ready leave stamp 2 s (?ns1(1 := (?ns1 1)\<lparr>bn_waiting := True\<rparr>),
      ?fl1 + mset (map (\<lambda>j. (j, bn_left (?ns1 1), stamp (bn_counts (?ns1 1)))) [0..<2]))" by (rule bar_more)
  moreover have "?ns1(1 := (?ns1 1)\<lparr>bn_waiting := True\<rparr>) = demo_nodes s"
    by (simp add: demo_nodes_def bar_start_def)
  moreover have "?fl1 + mset (map (\<lambda>j. (j, bn_left (?ns1 1), stamp (bn_counts (?ns1 1)))) [0..<2]) = demo_mail"
    using assms by (simp add: demo_mail_def bar_start_def upt_rec[of _ "2"] upt_rec[of _ "Suc 1"] numeral_2_eq_2)
  ultimately show ?thesis by simp
qed

text \<open>C13. The numbered barrier: whatever the order in which messages arrive, no node leaves its \<open>k\<close>-th
  barrier before every node has entered its \<open>k\<close>-th, and no arriving message fails a check.\<close>

theorem numbered_barrier_safe:
  assumes "n < 2 ^ 30" "bar_run (bc_recv n) (bc_ready n) bc_leave barrier_progress n bc_new (ns, fl)"
  shows "(\<forall>i < n. \<forall>j < n. bn_left (ns i) \<le> bn_entered (ns j))
    \<and> (\<forall>i k v. (i, k, v) \<in># fl \<longrightarrow> is_ok (bc_recv n v (bn_counts (ns i))))"
  using numbered_barrier.run_safe[OF assms(2,1)] numbered_barrier.run_receives[OF assms(2,1)]
  by (auto simp: is_ok_iff)

theorem numbered_barrier_safe_witness:
  "bn_left (demo_nodes bc_new 0) \<le> bn_entered (demo_nodes bc_new 1)
    \<and> is_ok (bc_recv 2 0 (bn_counts (demo_nodes bc_new 1)))"
proof -
  have "bar_run (bc_recv 2) (bc_ready 2) bc_leave barrier_progress 2 bc_new (demo_nodes bc_new, demo_mail)"
    by (rule demo_run) (simp add: bc_new_def)
  from numbered_barrier_safe[OF _ this] show ?thesis by (auto simp: demo_mail_def)
qed

text \<open>The counting barrier of the older mailbox, whose messages carry no number, is safe as well: a
  message of the next barrier that overtakes one of this barrier is counted for it, but a node that
  could send it knows that everybody has entered.\<close>

theorem counting_barrier_safe:
  assumes "n < 2 ^ 30" "bar_run old_recv (old_ready n) (old_leave n) stamp n 0 (ns, fl)"
  shows "\<forall>i < n. \<forall>j < n. bn_left (ns i) \<le> bn_entered (ns j)"
  using old_barrier.run_safe[OF assms(2,1)] by blast

theorem counting_barrier_safe_witness:
  "bn_left (demo_nodes (0 :: int) 0) \<le> bn_entered (demo_nodes (0 :: int) 1)"
proof -
  have "bar_run old_recv (old_ready 2) (old_leave 2) (\<lambda>_. 0) 2 0 (demo_nodes 0, demo_mail)" by (rule demo_run) simp
  from counting_barrier_safe[OF _ this] show ?thesis by simp
qed

text \<open>The numbered barrier cannot deadlock: when every node waits in its barrier, a message is under
  way or some node may leave.\<close>

lemma numbered_barrier_live:
  assumes "n < 2 ^ 30" "0 < n" "bar_run (bc_recv n) (bc_ready n) bc_leave barrier_progress n bc_new (ns, fl)"
    "\<forall>i < n. bn_waiting (ns i)"
  shows "\<exists>c. bar_step (bc_recv n) (bc_ready n) bc_leave barrier_progress n (ns, fl) c"
  using numbered_barrier.run_live[OF assms(3,1,2)] assms(4) by blast

lemma numbered_barrier_live_witness:
  "\<exists>c. bar_step (bc_recv 2) (bc_ready 2) bc_leave barrier_progress 2 (demo_nodes bc_new, demo_mail) c"
proof (rule numbered_barrier_live)
  show "bar_run (bc_recv 2) (bc_ready 2) bc_leave barrier_progress 2 bc_new (demo_nodes bc_new, demo_mail)"
    by (rule demo_run) (simp add: bc_new_def)
  show "\<forall>i < 2. bn_waiting (demo_nodes bc_new i)" by (simp add: demo_nodes_def less_2_cases_iff)
qed simp_all

end
