(* ===== verification/Numbered_Mailbox.thy ===== *)
theory Numbered_Mailbox
  imports Barrier
begin

text \<open>
  \<open>comm2/mailbox.cpp\<close>: the mailbox whose barriers are numbered.  Sockets, queues and frames are as in
  \<open>Mailbox\<close>, whose operations it repeats; its own are the counters of \<open>Barrier\<close>, what it does with an
  arriving barrier message, and the messages of a barrier, which here go over the wire.
\<close>

record nmailbox =
  nb_base :: mailbox
  nb_counts :: barrier_counts

definition nb_new :: "node \<Rightarrow> node list \<Rightarrow> nmailbox res" where
  "nb_new nd nodes = bind_res (mb_new nd nodes) (\<lambda>mb. Inr \<lparr>nb_base = mb, nb_counts = bc_new\<rparr>)"

definition nb_queue_map_size :: "nmailbox \<Rightarrow> nat" where
  "nb_queue_map_size nb = mb_queue_map_size (nb_base nb)"

definition nb_connect :: "node \<Rightarrow> nmailbox \<Rightarrow> nmailbox" where
  "nb_connect nd nb = nb\<lparr>nb_base := mb_connect nd (nb_base nb)\<rparr>"

definition nb_connect_all :: "nmailbox \<Rightarrow> nmailbox" where
  "nb_connect_all nb = fold nb_connect (mb_nodes (nb_base nb)) nb"

definition nb_register :: "u32 \<Rightarrow> nat \<Rightarrow> nmailbox \<Rightarrow> nmailbox res" where
  "nb_register qid q nb = bind_res (mb_register qid q (nb_base nb)) (\<lambda>mb. Inr (nb\<lparr>nb_base := mb\<rparr>))"

definition nb_deregister :: "u32 \<Rightarrow> nmailbox \<Rightarrow> nmailbox res" where
  "nb_deregister qid nb = bind_res (mb_deregister qid (nb_base nb)) (\<lambda>mb. Inr (nb\<lparr>nb_base := mb\<rparr>))"

definition nb_node_count :: "nmailbox \<Rightarrow> nat" where
  "nb_node_count nb = length (mb_nodes (nb_base nb))"

text \<open>One turn of \<open>Receiving\<close>, for a message other than \<open>kExit\<close>, and the loop.\<close>

definition nb_dispatch :: "message \<Rightarrow> nmailbox \<times> queues \<Rightarrow> (nmailbox \<times> queues) res" where
  "nb_dispatch msg = (\<lambda>(nb, qs).
     if msg_flag msg = kBarrier then
       bind_res (bc_recv (nb_node_count nb) (msg_version msg) (nb_counts nb)) (\<lambda>s. Inr (nb\<lparr>nb_counts := s\<rparr>, qs))
     else
       bind_res (of_opt (Check_failed ''Receiving'') (om_get (mb_queue_map (nb_base nb)) (to_u32 (msg_recver msg)))) (\<lambda>q.
         Inr (nb, qs(q := tsq_push msg (qs q)))))"

fun nb_receiving :: "message list \<Rightarrow> nmailbox \<times> queues \<Rightarrow> ((nmailbox \<times> queues) \<times> message list \<times> bool) res" where
  "nb_receiving [] s = Inr (s, [], False)"
| "nb_receiving (msg # msgs) s =
     (if msg_flag msg = kExit then Inr (s, msgs, True)
      else bind_res (nb_dispatch msg s) (nb_receiving msgs))"

definition nb_send ::
  "(u32 \<Rightarrow> u32) \<Rightarrow> u8 list \<Rightarrow> message \<Rightarrow> zmq_send list \<Rightarrow> nmailbox \<Rightarrow> (int \<times> (u32 \<times> frame list) option \<times> zmq_send list) option"
where
  "nb_send node_of pad msg outs nb = mb_send node_of pad msg outs (nb_base nb)"

definition nb_recv :: "zmq_recv list \<Rightarrow> message \<Rightarrow> (int \<times> message \<times> zmq_recv list) res option" where
  "nb_recv = mb_recv"

text \<open>\<open>Barrier\<close>: the messages it sends, when its wait is over, and what it does then.\<close>

definition nb_barrier_message :: "nmailbox \<Rightarrow> node \<Rightarrow> message" where
  "nb_barrier_message nb nd =
     \<lparr>meta_of = \<lparr>sender = to_i32 (node_id (mb_node (nb_base nb))), recver = to_i32 (node_id nd), model_id = -1,
        mflag = kBarrier, version = barrier_progress (nb_counts nb)\<rparr>, data_of = []\<rparr>"

definition nb_barrier_messages :: "nmailbox \<Rightarrow> message list" where
  "nb_barrier_messages nb = map (nb_barrier_message nb) (mb_nodes (nb_base nb))"

definition nb_barrier_over :: "nmailbox \<Rightarrow> bool" where
  "nb_barrier_over nb \<longleftrightarrow> bc_ready (nb_node_count nb) (nb_counts nb)"

definition nb_barrier_leave :: "nmailbox \<Rightarrow> nmailbox" where
  "nb_barrier_leave nb = nb\<lparr>nb_counts := bc_leave (nb_counts nb)\<rparr>"

text \<open>\<open>StopReceiving\<close> sends, behind a barrier, the message that ends the own loop; then \<open>CloseSockets\<close>.\<close>

definition nb_stop_message :: "nmailbox \<Rightarrow> message" where
  "nb_stop_message nb =
     (let i = to_i32 (node_id (mb_node (nb_base nb)))
      in \<lparr>meta_of = \<lparr>sender = i, recver = i, model_id = -1, mflag = kExit, version = 0\<rparr>, data_of = []\<rparr>)"

definition nb_stop_receiving :: "nmailbox \<Rightarrow> message list" where
  "nb_stop_receiving nb = nb_barrier_messages nb @ [nb_stop_message nb]"

definition nb_close :: "meta \<Rightarrow> nmailbox \<Rightarrow> queues \<Rightarrow> queues" where
  "nb_close junk nb qs = mb_close junk (nb_base nb) qs"

section \<open>The barrier over the wire\<close>

lemma barrier_meta_ok: "meta_ok (meta_of (nb_barrier_message nb nd))"
  by (simp add: nb_barrier_message_def meta_ok_def to_i32_range in_i32_def[of "-1"])

lemma nb_base_connected: "mb_senders (nb_base (fold nb_connect l nb)) = fold (\<lambda>nd. insort_insert (node_id nd)) l (mb_senders (nb_base nb))"
  by (induction l arbitrary: nb) (simp_all add: nb_connect_def mb_connect_def)

lemma fold_insort: "set (fold (\<lambda>nd. insort_insert (node_id nd)) l s) = set s \<union> node_id ` set l"
  by (induction l arbitrary: s) (simp_all add: set_insort_insert)

text \<open>C14. The mailbox implements the steps of the abstract barrier.  After \<open>Start\<close>, \<open>Barrier\<close> has one
  message for each node, with the number of the barrier; what \<open>Send\<close> reports as sent goes to the socket
  of that node, whose \<open>Recv\<close> rebuilds it, and there it does to the counters what the abstract node does
  on arrival, and to nothing else.\<close>

theorem barrier_crosses_the_wire:
  assumes "nb_new nd nodes = Inr nb0" "nb = (nb_connect_all nb0)\<lparr>nb_counts := c\<rparr>" "dst \<in> set nodes"
    and "nb_send node_of pad (nb_barrier_message nb dst) outs nb = Some (k, Some (dest, fs), outs')" "k \<noteq> -1" "length pad = 3"
  shows "length (nb_barrier_messages nb) = length nodes \<and> nb_barrier_message nb dst \<in> set (nb_barrier_messages nb)
    \<and> dest = node_id dst
    \<and> (\<exists>size. nb_recv (on_wire ident fs @ evs) m0 = Some (Inr (size, nb_barrier_message nb dst, evs)))
    \<and> nb_dispatch (nb_barrier_message nb dst) (nb2, qs)
        = bind_res (bc_recv (nb_node_count nb2) (barrier_progress c) (nb_counts nb2)) (\<lambda>s. Inr (nb2\<lparr>nb_counts := s\<rparr>, qs))"
proof -
  have "nb_base nb0 = \<lparr>mb_node = nd, mb_nodes = nodes, mb_queue_map = [], mb_senders = [], mb_barrier_count = 0\<rparr>"
    using assms(1) by (auto simp: nb_new_def mb_new_def res_simps)
  moreover have "mb_nodes (nb_base (fold nb_connect l nb0)) = mb_nodes (nb_base nb0)" for l
    by (induction l arbitrary: nb0) (simp_all add: nb_connect_def mb_connect_def)
  ultimately have nodes: "mb_nodes (nb_base nb) = nodes" by (simp add: assms(2) nb_connect_all_def)
  note S = send_recv[OF assms(4)[unfolded nb_send_def] assms(5) barrier_meta_ok assms(6)]
  show ?thesis
    using S assms(3) nodes
    by (auto simp: nb_barrier_messages_def nb_recv_def nb_dispatch_def dest_node_def nb_barrier_message_def assms(2))
qed

text \<open>Every node can be reached after \<open>Start\<close>: a barrier message finds its socket.\<close>

lemma connected_everywhere:
  assumes "nb_new nd nodes = Inr nb0" "dst \<in> set nodes"
  shows "dest_node node_of (nb_barrier_message nb dst) \<in> set (mb_senders (nb_base (nb_connect_all nb0)))"
proof -
  have "nb_base nb0 = \<lparr>mb_node = nd, mb_nodes = nodes, mb_queue_map = [], mb_senders = [], mb_barrier_count = 0\<rparr>"
    using assms(1) by (auto simp: nb_new_def mb_new_def res_simps)
  then have "set (mb_senders (nb_base (nb_connect_all nb0))) = node_id ` set nodes"
    by (simp add: nb_connect_all_def nb_base_connected fold_insort)
  then show ?thesis using assms(2) by (simp add: dest_node_def nb_barrier_message_def)
qed

definition two_nodes :: "node list" where
  "two_nodes = [\<lparr>node_id = 1, hostname = ''b'', port = 80\<rparr>, \<lparr>node_id = 4, hostname = ''c'', port = 80\<rparr>]"

definition demo_nb :: nmailbox where
  "demo_nb = \<lparr>nb_base = \<lparr>mb_node = hd two_nodes, mb_nodes = two_nodes, mb_queue_map = [], mb_senders = [1, 4], mb_barrier_count = 0\<rparr>,
     nb_counts = \<lparr>this_count = 0, next_count = 0, barrier_progress = 6\<rparr>\<rparr>"

theorem barrier_crosses_the_wire_witness:
  "\<exists>fs size. nb_send node_for_thread [0, 0, 0] (nb_barrier_message demo_nb (two_nodes ! 1)) [(-1, True), (20, False)] demo_nb
       = Some (20, Some (4, fs), [])
     \<and> nb_recv (on_wire [9] fs @ []) (mail kExit 0) = Some (Inr (size, nb_barrier_message demo_nb (two_nodes ! 1), []))"
proof -
  let ?nb0 = "\<lparr>nb_base = \<lparr>mb_node = hd two_nodes, mb_nodes = two_nodes, mb_queue_map = [], mb_senders = [], mb_barrier_count = 0\<rparr>, nb_counts = bc_new\<rparr>"
  have new: "nb_new (hd two_nodes) two_nodes = Inr ?nb0" by (simp add: nb_new_def mb_new_def two_nodes_def check_that_def)
  have nb: "demo_nb = (nb_connect_all ?nb0)\<lparr>nb_counts := \<lparr>this_count = 0, next_count = 0, barrier_progress = 6\<rparr>\<rparr>"
    by (simp add: nb_connect_all_def nb_connect_def mb_connect_def two_nodes_def demo_nb_def insort_insert_key_def word_le_nat_alt)
  have "\<exists>fs. nb_send node_for_thread [0, 0, 0] (nb_barrier_message demo_nb (two_nodes ! 1)) [(-1, True), (20, False)] demo_nb
       = Some (20, Some (4, fs), [])"
    by (simp add: nb_send_def mb_send_def dest_node_def nb_barrier_message_def demo_nb_def two_nodes_def meta_size_def to_i32_def to_u32_def Let_def)
  then obtain fs where sent: "nb_send node_for_thread [0, 0, 0] (nb_barrier_message demo_nb (two_nodes ! 1)) [(-1, True), (20, False)] demo_nb
       = Some (20, Some (4, fs), [])" by blast
  have "two_nodes ! 1 \<in> set two_nodes" by (simp add: two_nodes_def)
  from barrier_crosses_the_wire[OF new nb this sent, of "[9]" "[]" "mail kExit 0"] sent show ?thesis by auto
qed

end
