(* ===== verification/Storage.thy ===== *)
theory Storage
  imports Messages Shared_Array
begin

text \<open>
  \<open>server/abstract_storage.hpp\<close>, \<open>server/map_storage.hpp\<close>, \<open>server/vector_storage.hpp\<close>:
  the parameters a server thread holds for one table.  The template argument \<open>Val\<close> is a
  record \<open>val_type\<close>: its memory layout, its zero and its \<open>+=\<close>.  The locale
  \<open>storage_class\<close> is the contract of \<open>AbstractStorage\<close>: seen as a function from keys to
  values, adding adds and getting reads.
\<close>

section \<open>The template argument\<close>

record 'v val_type =
  val_pod :: "'v pod"
  val_zero :: 'v
  val_add :: "'v \<Rightarrow> 'v \<Rightarrow> 'v"

locale val_type =
  fixes V :: "'v val_type"
  assumes layout: "pod_type (val_pod V) (\<lambda>_. True)"

sublocale val_type \<subseteq> pod: pod_type "val_pod V" "\<lambda>_. True"
  by (rule layout)

definition u32_val :: "u32 val_type" where
  "u32_val = \<lparr>val_pod = u32_pod, val_zero = 0, val_add = (+)\<rparr>"

text \<open>Four-byte floats are their bits; their addition is the processor's, a parameter.\<close>

definition float_val :: "(u32 \<Rightarrow> u32 \<Rightarrow> u32) \<Rightarrow> u32 val_type" where
  "float_val fadd = \<lparr>val_pod = u32_pod, val_zero = 0, val_add = fadd\<rparr>"

interpretation u32_val: val_type u32_val
  unfolding val_type_def u32_val_def by (simp add: u32_pod.pod_type_axioms)

interpretation float_val: val_type "float_val fadd"
  unfolding val_type_def float_val_def by (simp add: u32_pod.pod_type_axioms)

definition vals_of :: "'v val_type \<Rightarrow> u8 list \<Rightarrow> 'v list" where
  "vals_of V bs = dec_array (val_pod V) bs"

definition bytes_of_vals :: "'v val_type \<Rightarrow> 'v list \<Rightarrow> u8 list" where
  "bytes_of_vals V xs = enc_array (val_pod V) xs"

context val_type
begin

lemma vals_of_bytes_of_vals [simp]: "vals_of V (bytes_of_vals V xs) = xs"
  unfolding vals_of_def bytes_of_vals_def by (rule pod.dec_enc_array) (simp add: list_all_iff)

lemma length_bytes_of_vals: "length (bytes_of_vals V xs) = pod_size (val_pod V) * length xs"
  unfolding bytes_of_vals_def by (rule pod.length_enc_array)

end

section \<open>\<open>MapStorage\<close>\<close>

type_synonym 'v map_storage = "u32 \<Rightarrow> 'v option"

definition map_sub_add :: "'v val_type \<Rightarrow> u32 list \<Rightarrow> u8 list \<Rightarrow> 'v map_storage \<Rightarrow> 'v map_storage res" where
  "map_sub_add V typed_keys vals st =
     (let typed_vals = vals_of V vals
      in check_that (length typed_keys = length typed_vals) (Check_failed ''MapStorage::SubAdd'')
           (Inr (fold (\<lambda>(k, x) m. m(k \<mapsto> val_add V (get_or (val_zero V) (m k)) x))
                      (zip typed_keys typed_vals) st)))"

fun map_get_loop :: "'v val_type \<Rightarrow> u32 list \<Rightarrow> 'v map_storage \<Rightarrow> 'v list \<times> 'v map_storage" where
  "map_get_loop V [] m = ([], m)"
| "map_get_loop V (k # ks) m =
     (let x = get_or (val_zero V) (m k); (xs, m') = map_get_loop V ks (m(k \<mapsto> x))
      in (x # xs, m'))"

definition map_sub_get :: "'v val_type \<Rightarrow> u32 list \<Rightarrow> 'v map_storage \<Rightarrow> (u8 list \<times> 'v map_storage) res" where
  "map_sub_get V typed_keys st =
     (let (xs, st') = map_get_loop V typed_keys st in Inr (bytes_of_vals V xs, st'))"

definition map_finish_iter :: "'v map_storage \<Rightarrow> 'v map_storage" where
  "map_finish_iter st = st"

section \<open>\<open>VectorStorage\<close>\<close>

record 'v vector_storage =
  vs_range :: range
  vs_cells :: "'v list"

definition vector_storage_new :: "'v val_type \<Rightarrow> range \<Rightarrow> 'v vector_storage res" where
  "vector_storage_new V r =
     check_that (rbegin r \<le> rend r) (Check_failed ''VectorStorage'')
       (Inr \<lparr>vs_range = r, vs_cells = replicate (unat (range_size r)) (val_zero V)\<rparr>)"

definition vec_at :: "'a list \<Rightarrow> nat \<Rightarrow> 'a res" where
  "vec_at xs i = (if i < length xs then Inr (xs ! i) else Inl Out_of_bounds)"

definition vec_put :: "'a list \<Rightarrow> nat \<Rightarrow> 'a \<Rightarrow> 'a list res" where
  "vec_put xs i x = (if i < length xs then Inr (xs[i := x]) else Inl Out_of_bounds)"

definition vs_index :: "range \<Rightarrow> u32 \<Rightarrow> nat" where
  "vs_index r k = unat ((ucast k :: u64) - rbegin r)"

definition vector_add_one ::
  "'v val_type \<Rightarrow> (u32 \<times> 'v) \<Rightarrow> 'v vector_storage \<Rightarrow> 'v vector_storage res"
where
  "vector_add_one V kx st =
     (let r = vs_range st; k = fst kx in
      check_that (rbegin r \<le> ucast k) (Check_failed ''VectorStorage::SubAdd'')
      (check_that ((ucast k :: u64) < rend r) (Check_failed ''VectorStorage::SubAdd'')
      (bind_res (vec_at (vs_cells st) (vs_index r k)) (\<lambda>x.
       bind_res (vec_put (vs_cells st) (vs_index r k) (val_add V x (snd kx))) (\<lambda>cells.
         Inr (st\<lparr>vs_cells := cells\<rparr>))))))"

definition vector_sub_add ::
  "'v val_type \<Rightarrow> u32 list \<Rightarrow> u8 list \<Rightarrow> 'v vector_storage \<Rightarrow> 'v vector_storage res"
where
  "vector_sub_add V typed_keys vals st =
     (let typed_vals = vals_of V vals
      in check_that (length typed_keys = length typed_vals) (Check_failed ''VectorStorage::SubAdd'')
           (fold_res (vector_add_one V) (zip typed_keys typed_vals) st))"

definition vector_get_one :: "'v vector_storage \<Rightarrow> u32 \<Rightarrow> 'v res" where
  "vector_get_one st k =
     (let r = vs_range st in
      check_that (rbegin r \<le> ucast k) (Check_failed ''VectorStorage::SubGet'')
      (check_that ((ucast k :: u64) < rend r) (Check_failed ''VectorStorage::SubGet'')
      (vec_at (vs_cells st) (vs_index r k))))"

definition vector_sub_get ::
  "'v val_type \<Rightarrow> u32 list \<Rightarrow> 'v vector_storage \<Rightarrow> (u8 list \<times> 'v vector_storage) res"
where
  "vector_sub_get V typed_keys st =
     bind_res (map_res (vector_get_one st) typed_keys) (\<lambda>xs. Inr (bytes_of_vals V xs, st))"

definition vector_finish_iter :: "'v vector_storage \<Rightarrow> 'v vector_storage" where
  "vector_finish_iter st = st"

definition vector_get_begin :: "'v vector_storage \<Rightarrow> int" where
  "vector_get_begin st = to_i32 (ucast (rbegin (vs_range st)))"

definition vector_get_end :: "'v vector_storage \<Rightarrow> int" where
  "vector_get_end st = to_i32 (ucast (rend (vs_range st)))"

definition vector_size :: "'v vector_storage \<Rightarrow> nat res" where
  "vector_size st =
     check_that (unat (range_size (vs_range st)) = length (vs_cells st)) (Check_failed ''VectorStorage::Size'')
       (Inr (length (vs_cells st)))"

definition vector_wf :: "'v vector_storage \<Rightarrow> bool" where
  "vector_wf st \<longleftrightarrow> rbegin (vs_range st) \<le> rend (vs_range st)
     \<and> length (vs_cells st) = unat (range_size (vs_range st))"

section \<open>\<open>AbstractStorage\<close>: dispatch and the template methods\<close>

datatype 'v storage = MapStorage "'v map_storage" | VectorStorage "'v vector_storage"

fun sub_add :: "'v val_type \<Rightarrow> u32 list \<Rightarrow> u8 list \<Rightarrow> 'v storage \<Rightarrow> 'v storage res" where
  "sub_add V ks vals (MapStorage m) = bind_res (map_sub_add V ks vals m) (\<lambda>m'. Inr (MapStorage m'))"
| "sub_add V ks vals (VectorStorage v) = bind_res (vector_sub_add V ks vals v) (\<lambda>v'. Inr (VectorStorage v'))"

fun sub_get :: "'v val_type \<Rightarrow> u32 list \<Rightarrow> 'v storage \<Rightarrow> (u8 list \<times> 'v storage) res" where
  "sub_get V ks (MapStorage m) = bind_res (map_sub_get V ks m) (\<lambda>(b, m'). Inr (b, MapStorage m'))"
| "sub_get V ks (VectorStorage v) = bind_res (vector_sub_get V ks v) (\<lambda>(b, v'). Inr (b, VectorStorage v'))"

fun finish_iter :: "'v storage \<Rightarrow> 'v storage" where
  "finish_iter (MapStorage m) = MapStorage (map_finish_iter m)"
| "finish_iter (VectorStorage v) = VectorStorage (vector_finish_iter v)"

definition storage_add :: "'v val_type \<Rightarrow> message \<Rightarrow> 'v storage \<Rightarrow> 'v storage res" where
  "storage_add V msg st =
     check_that (length (data_of msg) = 2) (Check_failed ''AbstractStorage::Add'')
       (sub_add V (keys_of (data_of msg ! 0)) (data_of msg ! 1) st)"

definition storage_get :: "'v val_type \<Rightarrow> message \<Rightarrow> 'v storage \<Rightarrow> (message \<times> 'v storage) res" where
  "storage_get V msg st =
     check_that (length (data_of msg) = 1) (Check_failed ''AbstractStorage::Get'')
       (let typed_keys = keys_of (data_of msg ! 0);
            reply = \<lparr>meta_of = \<lparr>sender = msg_recver msg, recver = msg_sender msg,
                                model_id = msg_model msg, mflag = msg_flag msg,
                                version = msg_version msg\<rparr>,
                     data_of = []\<rparr>
        in bind_res (sub_get V typed_keys st) (\<lambda>(reply_vals, st').
             Inr (add_data reply_vals (add_data (bytes_of_keys typed_keys) reply), st')))"

section \<open>The contract\<close>

definition add_all :: "'v val_type \<Rightarrow> u32 list \<Rightarrow> 'v list \<Rightarrow> (u32 \<Rightarrow> 'v) \<Rightarrow> u32 \<Rightarrow> 'v" where
  "add_all V ks xs f = fold (\<lambda>(k, x) f. f(k := val_add V (f k) x)) (zip ks xs) f"

locale storage_class = val_type V for V :: "'v val_type" +
  fixes add :: "u32 list \<Rightarrow> u8 list \<Rightarrow> 's \<Rightarrow> 's res"
    and get :: "u32 list \<Rightarrow> 's \<Rightarrow> (u8 list \<times> 's) res"
    and finish :: "'s \<Rightarrow> 's"
    and view :: "'s \<Rightarrow> u32 \<Rightarrow> 'v"
    and serves :: "'s \<Rightarrow> u32 \<Rightarrow> bool"
    and inv :: "'s \<Rightarrow> bool"
  assumes add_ok: "inv s \<Longrightarrow> length (vals_of V vals) = length ks \<Longrightarrow> list_all (serves s) ks \<Longrightarrow>
      \<exists>s'. add ks vals s = Inr s' \<and> inv s' \<and> serves s' = serves s
           \<and> view s' = add_all V ks (vals_of V vals) (view s)"
    and add_bad: "inv s \<Longrightarrow> length (vals_of V vals) \<noteq> length ks \<or> \<not> list_all (serves s) ks \<Longrightarrow>
      \<exists>w. add ks vals s = Inl (Check_failed w)"
    and get_ok: "inv s \<Longrightarrow> list_all (serves s) ks \<Longrightarrow>
      \<exists>s'. get ks s = Inr (bytes_of_vals V (map (view s) ks), s') \<and> inv s' \<and> serves s' = serves s
           \<and> view s' = view s"
    and get_bad: "inv s \<Longrightarrow> \<not> list_all (serves s) ks \<Longrightarrow> \<exists>w. get ks s = Inl (Check_failed w)"
    and finish_ok: "inv s \<Longrightarrow> inv (finish s) \<and> serves (finish s) = serves s \<and> view (finish s) = view s"
begin

lemma add_inv: "inv s \<Longrightarrow> add ks vals s = Inr s' \<Longrightarrow> inv s' \<and> serves s' = serves s"
  using add_ok[of s vals ks] add_bad[of s vals ks] by fastforce

lemma get_inv: "inv s \<Longrightarrow> get ks s = Inr (b, s') \<Longrightarrow>
    inv s' \<and> serves s' = serves s \<and> view s' = view s \<and> b = bytes_of_vals V (map (view s) ks)"
  using get_ok[of s ks] get_bad[of s ks] by (cases "list_all (serves s) ks") auto

lemma get_after_add:
  assumes "inv s" "length xs = length ks" "list_all (serves s) ks" "list_all (serves s) qs"
  shows "\<exists>s' s''. add ks (bytes_of_vals V xs) s = Inr s' \<and> inv s'
      \<and> get qs s' = Inr (bytes_of_vals V (map (add_all V ks xs (view s)) qs), s'')"
proof -
  obtain s' where s': "add ks (bytes_of_vals V xs) s = Inr s'" "inv s'" "serves s' = serves s"
    "view s' = add_all V ks xs (view s)"
    using add_ok[OF assms(1), of "bytes_of_vals V xs" ks] assms(2,3) by auto
  then show ?thesis
    using get_ok[OF s'(2), of qs] assms(4) by auto
qed

end

section \<open>The storages meet the contract\<close>

lemma map_add_fold:
  "get_or (val_zero V) \<circ> fold (\<lambda>(k, x) m. m(k \<mapsto> val_add V (get_or (val_zero V) (m k)) x)) kxs m
     = fold (\<lambda>(k, x) f. f(k := val_add V (f k) x)) kxs (get_or (val_zero V) \<circ> m)"
proof (induction kxs arbitrary: m)
  case Nil
  then show ?case by simp
next
  case (Cons p kxs)
  obtain k x where p: "p = (k, x)" by force
  have step: "get_or (val_zero V) \<circ> m(k \<mapsto> val_add V (get_or (val_zero V) (m k)) x)
      = (get_or (val_zero V) \<circ> m)(k := val_add V ((get_or (val_zero V) \<circ> m) k) x)"
    by (auto simp: fun_eq_iff)
  show ?case
    unfolding p fold_Cons o_apply prod.case Cons.IH step by simp
qed

lemma map_get_loop_eq:
  "map_get_loop V ks m = (xs, m') \<Longrightarrow>
     xs = map (get_or (val_zero V) \<circ> m) ks \<and> get_or (val_zero V) \<circ> m' = get_or (val_zero V) \<circ> m"
proof (induction V ks m arbitrary: xs m' rule: map_get_loop.induct)
  case (1 V m)
  then show ?case by simp
next
  case (2 V k ks m)
  let ?x = "get_or (val_zero V) (m k)"
  have same: "get_or (val_zero V) \<circ> m(k \<mapsto> ?x) = get_or (val_zero V) \<circ> m"
    by (auto simp: fun_eq_iff)
  obtain ys n where loop: "map_get_loop V ks (m(k \<mapsto> ?x)) = (ys, n)" by force
  have IH: "ys = map (get_or (val_zero V) \<circ> m) ks" "get_or (val_zero V) \<circ> n = get_or (val_zero V) \<circ> m"
    using "2.IH"[OF refl loop] unfolding same by blast+
  from "2.prems" loop have "xs = ?x # ys" "m' = n"
    by (simp_all add: Let_def)
  with IH show ?case by simp
qed

lemma vs_index_less:
  assumes "vector_wf st" "in_range (vs_range st) k"
  shows "vs_index (vs_range st) k < length (vs_cells st)"
proof -
  have "unat ((ucast k :: u64) - rbegin (vs_range st)) = unat (ucast k :: u64) - unat (rbegin (vs_range st))"
    using assms(2) by (intro unat_sub) (simp add: in_range_def)
  then show ?thesis
    using assms by (auto simp: vector_wf_def in_range_def vs_index_def unat_range_size word_less_nat_alt
        word_le_nat_alt)
qed

lemma vs_index_inj:
  "in_range r k \<Longrightarrow> in_range r l \<Longrightarrow> vs_index r k = vs_index r l \<longleftrightarrow> k = l"
  by (auto simp: vs_index_def simp flip: word_unat_eq_iff)

definition vector_view :: "'v val_type \<Rightarrow> 'v vector_storage \<Rightarrow> u32 \<Rightarrow> 'v" where
  "vector_view V st k =
     (if in_range (vs_range st) k then vs_cells st ! vs_index (vs_range st) k else val_zero V)"

lemma vector_add_one_ok:
  assumes "vector_wf st" "in_range (vs_range st) k"
  shows "\<exists>st'. vector_add_one V (k, x) st = Inr st' \<and> vector_wf st' \<and> vs_range st' = vs_range st
    \<and> vector_view V st' = (vector_view V st)(k := val_add V (vector_view V st k) x)"
proof -
  let ?i = "vs_index (vs_range st) k"
  have i: "?i < length (vs_cells st)"
    using assms by (rule vs_index_less)
  let ?st' = "st\<lparr>vs_cells := (vs_cells st)[?i := val_add V (vs_cells st ! ?i) x]\<rparr>"
  have "vector_add_one V (k, x) st = Inr ?st'"
    using assms(2) i by (simp add: vector_add_one_def Let_def vec_at_def vec_put_def in_range_def)
  moreover have "vector_wf ?st'"
    using assms(1) by (simp add: vector_wf_def)
  moreover have "vector_view V ?st' = (vector_view V st)(k := val_add V (vector_view V st k) x)"
    using assms(2) i vs_index_inj[of "vs_range st"]
    by (auto simp: fun_eq_iff vector_view_def nth_list_update)
  ultimately show ?thesis by auto
qed

lemma vector_add_loop_ok:
  "vector_wf st \<Longrightarrow> list_all (\<lambda>kx. in_range (vs_range st) (fst kx)) kxs \<Longrightarrow>
   \<exists>st'. fold_res (vector_add_one V) kxs st = Inr st' \<and> vector_wf st' \<and> vs_range st' = vs_range st
      \<and> vector_view V st' = fold (\<lambda>(k, x) f. f(k := val_add V (f k) x)) kxs (vector_view V st)"
proof (induction kxs arbitrary: st)
  case Nil
  then show ?case by simp
next
  case (Cons p kxs)
  obtain k x where p: "p = (k, x)" by force
  obtain st1 where st1: "vector_add_one V (k, x) st = Inr st1" "vector_wf st1" "vs_range st1 = vs_range st"
    and view: "vector_view V st1 = (vector_view V st)(k := val_add V (vector_view V st k) x)"
    using vector_add_one_ok[of st k V x] Cons.prems by (auto simp: p)
  have "list_all (\<lambda>kx. in_range (vs_range st1) (fst kx)) kxs"
    using Cons.prems(2) st1(3) by simp
  from Cons.IH[OF st1(2) this] show ?case
    unfolding p fold_res.simps st1(1) bind_res_simps fold_Cons o_apply prod.case view st1(3) .
qed

lemma vector_add_loop_bad:
  "vector_wf st \<Longrightarrow> \<not> list_all (\<lambda>kx. in_range (vs_range st) (fst kx)) kxs \<Longrightarrow>
   \<exists>w. fold_res (vector_add_one V) kxs st = Inl (Check_failed w)"
proof (induction kxs arbitrary: st)
  case Nil
  then show ?case by simp
next
  case (Cons p kxs)
  obtain k x where p: "p = (k, x)" by force
  show ?case
  proof (cases "in_range (vs_range st) k")
    case False
    then show ?thesis
      by (auto simp: p vector_add_one_def Let_def check_that_def in_range_def)
  next
    case True
    obtain st1 where st1: "vector_add_one V (k, x) st = Inr st1" "vector_wf st1" "vs_range st1 = vs_range st"
      using vector_add_one_ok[OF Cons.prems(1) True] by blast
    with Cons.prems(2) True have "\<not> list_all (\<lambda>kx. in_range (vs_range st1) (fst kx)) kxs"
      by (simp add: p)
    with Cons.IH[OF st1(2)] show ?thesis by (simp add: p st1(1))
  qed
qed

lemma vector_get_one_eq:
  assumes "vector_wf st"
  shows "vector_get_one st k =
    (if in_range (vs_range st) k then Inr (vector_view V st k) else Inl (Check_failed ''VectorStorage::SubGet''))"
  using vs_index_less[OF assms, of k]
  by (auto simp: vector_get_one_def Let_def check_that_def in_range_def vec_at_def vector_view_def)

lemma vector_get_loop:
  assumes "vector_wf st"
  shows "map_res (vector_get_one st) ks =
    (if list_all (in_range (vs_range st)) ks then Inr (map (vector_view V st) ks)
     else Inl (Check_failed ''VectorStorage::SubGet''))"
  by (induction ks) (simp_all add: vector_get_one_eq[OF assms, of _ V])

context val_type
begin

lemma map_storage_class:
  "storage_class V (map_sub_add V) (map_sub_get V) map_finish_iter
     (\<lambda>m. get_or (val_zero V) \<circ> m) (\<lambda>_ _. True) (\<lambda>_. True)"
proof unfold_locales
  fix s :: "'v map_storage" and vals and ks :: "u32 list"
  assume "length (vals_of V vals) = length ks"
  then show "\<exists>s'. map_sub_add V ks vals s = Inr s' \<and> True \<and> (\<lambda>_. True) = (\<lambda>_. True)
      \<and> get_or (val_zero V) \<circ> s' = add_all V ks (vals_of V vals) (get_or (val_zero V) \<circ> s)"
    unfolding map_sub_add_def Let_def add_all_def map_add_fold[symmetric] by simp
next
  fix s :: "'v map_storage" and vals and ks :: "u32 list"
  assume "length (vals_of V vals) \<noteq> length ks \<or> \<not> list_all (\<lambda>_. True) ks"
  then show "\<exists>w. map_sub_add V ks vals s = Inl (Check_failed w)"
    by (auto simp: map_sub_add_def Let_def list_all_iff check_that_def)
next
  fix s :: "'v map_storage" and ks :: "u32 list"
  obtain xs s' where loop: "map_get_loop V ks s = (xs, s')" by force
  then show "\<exists>s'. map_sub_get V ks s = Inr (bytes_of_vals V (map (get_or (val_zero V) \<circ> s) ks), s')
      \<and> True \<and> (\<lambda>_. True) = (\<lambda>_. True) \<and> get_or (val_zero V) \<circ> s' = get_or (val_zero V) \<circ> s"
    using map_get_loop_eq[OF loop] unfolding map_sub_get_def by (simp only: Let_def prod.case) blast
qed (simp_all add: map_finish_iter_def list_all_iff)

lemma vector_storage_class:
  "storage_class V (vector_sub_add V) (vector_sub_get V) vector_finish_iter
     (vector_view V) (\<lambda>st. in_range (vs_range st)) vector_wf"
proof unfold_locales
  fix s :: "'v vector_storage" and vals and ks :: "u32 list"
  assume s: "vector_wf s" and len: "length (vals_of V vals) = length ks" and "list_all (in_range (vs_range s)) ks"
  then have "list_all (\<lambda>kx. in_range (vs_range s) (fst kx)) (zip ks (vals_of V vals))"
    by (auto simp: list_all_iff dest: set_zip_leftD)
  from vector_add_loop_ok[OF s this, of V]
  show "\<exists>s'. vector_sub_add V ks vals s = Inr s' \<and> vector_wf s' \<and> in_range (vs_range s') = in_range (vs_range s)
      \<and> vector_view V s' = add_all V ks (vals_of V vals) (vector_view V s)"
    unfolding vector_sub_add_def Let_def len add_all_def by auto
next
  fix s :: "'v vector_storage" and vals and ks :: "u32 list"
  assume s: "vector_wf s" and bad: "length (vals_of V vals) \<noteq> length ks \<or> \<not> list_all (in_range (vs_range s)) ks"
  show "\<exists>w. vector_sub_add V ks vals s = Inl (Check_failed w)"
  proof (cases "length (vals_of V vals) = length ks")
    case False
    then show ?thesis by (simp add: vector_sub_add_def Let_def check_that_def)
  next
    case True
    with bad obtain k where k: "k \<in> set ks" "\<not> in_range (vs_range s) k"
      by (auto simp: list_all_iff)
    from k(1) True obtain x where "(k, x) \<in> set (zip ks (vals_of V vals))"
      by (metis in_set_impl_in_set_zip1)
    with k(2) have "\<not> list_all (\<lambda>kx. in_range (vs_range s) (fst kx)) (zip ks (vals_of V vals))"
      by (force simp: list_all_iff)
    from vector_add_loop_bad[OF s this, of V] True show ?thesis
      by (simp add: vector_sub_add_def Let_def)
  qed
qed (auto simp: vector_sub_get_def vector_get_loop[of _ _ V] vector_finish_iter_def)

end

text \<open>The dispatch on the kind of storage, as the models use it.\<close>

fun storage_view :: "'v val_type \<Rightarrow> 'v storage \<Rightarrow> u32 \<Rightarrow> 'v" where
  "storage_view V (MapStorage m) = get_or (val_zero V) \<circ> m"
| "storage_view V (VectorStorage v) = vector_view V v"

fun storage_serves :: "'v storage \<Rightarrow> u32 \<Rightarrow> bool" where
  "storage_serves (MapStorage m) = (\<lambda>_. True)"
| "storage_serves (VectorStorage v) = in_range (vs_range v)"

fun storage_inv :: "'v storage \<Rightarrow> bool" where
  "storage_inv (MapStorage m) = True"
| "storage_inv (VectorStorage v) = vector_wf v"

lemma sub_add_ok:
  assumes V: "val_type V" and pre: "storage_inv s" "length (vals_of V vals) = length ks" "list_all (storage_serves s) ks"
  shows "\<exists>s'. sub_add V ks vals s = Inr s' \<and> storage_inv s' \<and> storage_serves s' = storage_serves s
    \<and> storage_view V s' = add_all V ks (vals_of V vals) (storage_view V s)"
proof (cases s)
  case (MapStorage st)
  obtain st' where "map_sub_add V ks vals st = Inr st'"
    "get_or (val_zero V) \<circ> st' = add_all V ks (vals_of V vals) (get_or (val_zero V) \<circ> st)"
    using storage_class.add_ok[OF val_type.map_storage_class[OF V], of vals ks st] pre(2) by (auto simp: list_all_iff)
  then show ?thesis
    by (intro exI[of _ "MapStorage st'"]) (simp only: MapStorage sub_add.simps bind_res_simps
        storage_inv.simps storage_serves.simps storage_view.simps)
next
  case (VectorStorage st)
  obtain st' where "vector_sub_add V ks vals st = Inr st'" "vector_wf st'"
    "in_range (vs_range st') = in_range (vs_range st)"
    "vector_view V st' = add_all V ks (vals_of V vals) (vector_view V st)"
    using storage_class.add_ok[OF val_type.vector_storage_class[OF V], of st vals ks] pre by (auto simp: VectorStorage)
  then show ?thesis
    by (intro exI[of _ "VectorStorage st'"]) (simp only: VectorStorage sub_add.simps bind_res_simps
        storage_inv.simps storage_serves.simps storage_view.simps)
qed

lemma sub_get_ok:
  assumes V: "val_type V" and pre: "storage_inv s" "list_all (storage_serves s) ks"
  shows "\<exists>s'. sub_get V ks s = Inr (bytes_of_vals V (map (storage_view V s) ks), s')
    \<and> storage_inv s' \<and> storage_serves s' = storage_serves s \<and> storage_view V s' = storage_view V s"
proof (cases s)
  case (MapStorage st)
  obtain st' where "map_sub_get V ks st = Inr (bytes_of_vals V (map (get_or (val_zero V) \<circ> st) ks), st')"
    "get_or (val_zero V) \<circ> st' = get_or (val_zero V) \<circ> st"
    using storage_class.get_ok[OF val_type.map_storage_class[OF V], of ks st] by (auto simp: list_all_iff)
  then show ?thesis
    by (intro exI[of _ "MapStorage st'"]) (simp only: MapStorage sub_get.simps bind_res_simps prod.case
        storage_inv.simps storage_serves.simps storage_view.simps)
next
  case (VectorStorage st)
  obtain st' where "vector_sub_get V ks st = Inr (bytes_of_vals V (map (vector_view V st) ks), st')"
    "vector_wf st'" "in_range (vs_range st') = in_range (vs_range st)" "vector_view V st' = vector_view V st"
    using storage_class.get_ok[OF val_type.vector_storage_class[OF V], of st ks] pre by (auto simp: VectorStorage)
  then show ?thesis
    by (intro exI[of _ "VectorStorage st'"]) (simp only: VectorStorage sub_get.simps bind_res_simps prod.case
        storage_inv.simps storage_serves.simps storage_view.simps)
qed

lemma storage_class_dispatch:
  assumes V: "val_type V"
  shows "storage_class V (sub_add V) (sub_get V) finish_iter (storage_view V) storage_serves storage_inv"
proof -
  note m = val_type.map_storage_class[OF V] and v = val_type.vector_storage_class[OF V]
  show ?thesis
  proof (intro storage_class.intro V storage_class_axioms.intro)
    fix s :: "'a storage" and vals and ks :: "u32 list"
    assume pre: "storage_inv s" "length (vals_of V vals) \<noteq> length ks \<or> \<not> list_all (storage_serves s) ks"
    show "\<exists>w. sub_add V ks vals s = Inl (Check_failed w)"
    proof (cases s)
      case (MapStorage st)
      then show ?thesis using storage_class.add_bad[OF m, of vals ks st] pre by (auto simp: list_all_iff)
    next
      case (VectorStorage st)
      then show ?thesis using storage_class.add_bad[OF v, of st vals ks] pre by auto
    qed
  next
    fix s :: "'a storage" and ks :: "u32 list"
    assume pre: "storage_inv s" "\<not> list_all (storage_serves s) ks"
    show "\<exists>w. sub_get V ks s = Inl (Check_failed w)"
    proof (cases s)
      case (MapStorage st)
      then show ?thesis using pre by (simp add: list_all_iff)
    next
      case (VectorStorage st)
      then show ?thesis using storage_class.get_bad[OF v, of st ks] pre by auto
    qed
  next
    fix s :: "'a storage"
    assume "storage_inv s"
    then show "storage_inv (finish_iter s) \<and> storage_serves (finish_iter s) = storage_serves s
        \<and> storage_view V (finish_iter s) = storage_view V s"
      by (cases s) (simp_all add: map_finish_iter_def vector_finish_iter_def)
  qed (rule sub_add_ok[OF V] sub_get_ok[OF V]; assumption)+
qed

interpretation u32_store: storage_class u32_val "sub_add u32_val" "sub_get u32_val" finish_iter
  "storage_view u32_val" storage_serves storage_inv
  by (rule storage_class_dispatch) (rule u32_val.val_type_axioms)

interpretation float_store: storage_class "float_val fadd" "sub_add (float_val fadd)"
  "sub_get (float_val fadd)" finish_iter "storage_view (float_val fadd)" storage_serves storage_inv
  by (rule storage_class_dispatch) (rule float_val.val_type_axioms)

section \<open>Messages to a storage\<close>

text \<open>A request is known by who sent it, to whom, for which table, when and for which keys.\<close>

type_synonym request_id = "int \<times> int \<times> int \<times> u32 \<times> u32 list"

definition request_id :: "message \<Rightarrow> request_id" where
  "request_id m = (msg_sender m, msg_recver m, msg_model m, msg_version m, keys_of (data_of m ! 0))"

definition reply_id :: "message \<Rightarrow> request_id" where
  "reply_id m = (msg_recver m, msg_sender m, msg_model m, msg_version m, keys_of (data_of m ! 0))"

lemma storage_get_reply:
  assumes "storage_get V msg st = Inr (reply, st')"
  shows "reply_id reply = request_id msg" "msg_flag reply = msg_flag msg" "length (data_of reply) = 2"
    "keys_of (data_of reply ! 0) = keys_of (data_of msg ! 0)"
  using assms by (auto simp: storage_get_def reply_id_def request_id_def res_simps Let_def)

lemma storage_get_sub_get:
  "storage_get V msg st = Inr (reply, st') \<Longrightarrow>
     length (data_of msg) = 1 \<and> (\<exists>b. sub_get V (keys_of (data_of msg ! 0)) st = Inr (b, st') \<and> data_of reply ! 1 = b)"
  by (auto simp: storage_get_def res_simps Let_def)

lemma storage_add_inv [inv_intros]:
  assumes "val_type V" "storage_inv st" "storage_add V msg st = Inr st'"
  shows "storage_inv st'" "storage_serves st' = storage_serves st"
  using storage_class.add_inv[OF storage_class_dispatch[OF assms(1)] assms(2)] assms(3)
  by (auto simp: storage_add_def res_simps)

lemma storage_get_inv [inv_intros]:
  assumes "val_type V" "storage_inv st" "storage_get V msg st = Inr (reply, st')"
  shows "storage_inv st'" "storage_serves st' = storage_serves st" "storage_view V st' = storage_view V st"
    "vals_of V (data_of reply ! 1) = map (storage_view V st) (keys_of (data_of msg ! 0))"
proof -
  obtain b where b: "sub_get V (keys_of (data_of msg ! 0)) st = Inr (b, st')" "data_of reply ! 1 = b"
    using storage_get_sub_get[OF assms(3)] by blast
  note I = storage_class.get_inv[OF storage_class_dispatch[OF assms(1)] assms(2) b(1)]
  show "storage_inv st'" "storage_serves st' = storage_serves st" "storage_view V st' = storage_view V st"
    using I by simp_all
  have "b = bytes_of_vals V (map (storage_view V st) (keys_of (data_of msg ! 0)))"
    using I by simp
  then show "vals_of V (data_of reply ! 1) = map (storage_view V st) (keys_of (data_of msg ! 0))"
    unfolding b(2) by (simp only: val_type.vals_of_bytes_of_vals[OF assms(1)])
qed

text \<open>After an Add of values \<open>xs\<close> to keys \<open>ks\<close>, a Get of any served keys answers with the
  sums, addressed back to the client that asked.\<close>

lemma storage_add_then_get:
  assumes V: "val_type V" and st: "storage_inv st"
    and add: "data_of add = [bytes_of_keys ks, bytes_of_vals V xs]" "length xs = length ks"
      "list_all (storage_serves st) ks"
    and get: "data_of get = [bytes_of_keys qs]" "list_all (storage_serves st) qs"
  shows "\<exists>st' reply st''. storage_add V add st = Inr st' \<and> storage_get V get st' = Inr (reply, st'')
      \<and> reply_id reply = request_id get
      \<and> vals_of V (data_of reply ! 1) = map (add_all V ks xs (storage_view V st)) qs"
proof -
  note C = storage_class_dispatch[OF V]
  obtain st' st'' where "sub_add V ks (bytes_of_vals V xs) st = Inr st'" "storage_inv st'"
    and g: "sub_get V qs st' = Inr (bytes_of_vals V (map (add_all V ks xs (storage_view V st)) qs), st'')"
    using storage_class.get_after_add[OF C st add(2,3) get(2)] by blast
  moreover from this have a: "storage_add V add st = Inr st'"
    by (simp add: storage_add_def add(1))
  moreover obtain reply where r: "storage_get V get st' = Inr (reply, st'')"
    using g by (simp add: storage_get_def get(1) Let_def)
  moreover have "vals_of V (data_of reply ! 1) = map (add_all V ks xs (storage_view V st)) qs"
    using storage_get_sub_get[OF r] g val_type.vals_of_bytes_of_vals[OF V] by (simp add: get(1))
  ultimately show ?thesis
    using storage_get_reply(1) by blast
qed

lemma storage_add_then_get_witness:
  "\<exists>st' reply st''.
     storage_add u32_val \<lparr>meta_of = \<lparr>sender = 100, recver = 0, model_id = 0, mflag = kAdd, version = 0\<rparr>,
        data_of = [bytes_of_keys [3, 5], bytes_of_vals u32_val [10, 20]]\<rparr> (MapStorage Map.empty) = Inr st'
     \<and> storage_get u32_val \<lparr>meta_of = \<lparr>sender = 100, recver = 0, model_id = 0, mflag = kGet, version = 1\<rparr>,
        data_of = [bytes_of_keys [5, 3]]\<rparr> st' = Inr (reply, st'')
     \<and> vals_of u32_val (data_of reply ! 1) = [20, 10]"
  using storage_add_then_get[OF u32_val.val_type_axioms, of "MapStorage Map.empty"
      "\<lparr>meta_of = \<lparr>sender = 100, recver = 0, model_id = 0, mflag = kAdd, version = 0\<rparr>,
        data_of = [bytes_of_keys [3, 5], bytes_of_vals u32_val [10, 20]]\<rparr>" "[3, 5]" "[10, 20]"
      "\<lparr>meta_of = \<lparr>sender = 100, recver = 0, model_id = 0, mflag = kGet, version = 1\<rparr>,
        data_of = [bytes_of_keys [5, 3]]\<rparr>" "[5, 3]"]
  by (auto simp: add_all_def u32_val_def)

end
