(* ===== verification/Progress_Tracker.thy ===== *)
theory Progress_Tracker
  imports Flexps_Prelude
begin

text \<open>
  \<open>server/progress_tracker.cpp\<close>: the clocks of the workers of one table and the smallest
  of them.  The C++ keeps the smallest clock incrementally; \<open>pt_inv\<close> says that it is the
  minimum of the clocks, and every operation keeps it so.  Before the first \<open>Init\<close> the
  field \<open>min_clock_\<close> is uninitialised; it is whatever the record holds.
\<close>

record progress_tracker =
  progresses :: "(int, int) omap"
  min_clock :: int

definition pt_init :: "u32 list \<Rightarrow> progress_tracker \<Rightarrow> progress_tracker" where
  "pt_init tids pt = pt\<lparr>progresses := fold (\<lambda>tid m. om_insert (to_i32 tid) 0 m) tids [], min_clock := 0\<rparr>"

definition check_thread_valid :: "progress_tracker \<Rightarrow> int \<Rightarrow> bool" where
  "check_thread_valid pt tid \<longleftrightarrow> om_get (progresses pt) tid \<noteq> None"

definition get_num_threads :: "progress_tracker \<Rightarrow> int" where
  "get_num_threads pt = int (length (progresses pt))"

definition get_progress :: "progress_tracker \<Rightarrow> int \<Rightarrow> int res" where
  "get_progress pt tid = of_opt (Check_failed ''ProgressTracker::GetProgress'') (om_get (progresses pt) tid)"

definition get_min_clock :: "progress_tracker \<Rightarrow> int" where
  "get_min_clock pt = min_clock pt"

fun unique_min_loop :: "int \<Rightarrow> int \<Rightarrow> (int \<times> int) list \<Rightarrow> bool" where
  "unique_min_loop mc min_count [] = True"
| "unique_min_loop mc min_count (it # rest) =
     (let min_count = (if snd it = mc then min_count + 1 else min_count)
      in if 1 < min_count then False else unique_min_loop mc min_count rest)"

definition is_unique_min :: "progress_tracker \<Rightarrow> int \<Rightarrow> bool res" where
  "is_unique_min pt tid =
     bind_res (of_opt (Check_failed ''ProgressTracker::IsUniqueMin'') (om_get (progresses pt) tid)) (\<lambda>p.
       if p \<noteq> min_clock pt then Inr False
       else Inr (unique_min_loop (min_clock pt) 0 (progresses pt)))"

definition advance :: "progress_tracker \<Rightarrow> int \<Rightarrow> (progress_tracker \<times> int) res" where
  "advance pt tid =
     check_that (check_thread_valid pt tid) (Check_failed ''ProgressTracker::AdvanceAndGetChangedMinClock'')
     (bind_res (is_unique_min pt tid) (\<lambda>unique.
       if unique then
         bind_res (as_i32 (min_clock pt + 1)) (\<lambda>mc.
         bind_res (as_i32 (get_or 0 (om_get (progresses pt) tid) + 1)) (\<lambda>p.
           Inr (pt\<lparr>min_clock := mc, progresses := om_set tid p (progresses pt)\<rparr>, mc)))
       else
         bind_res (as_i32 (get_or 0 (om_get (progresses pt) tid) + 1)) (\<lambda>p.
           Inr (pt\<lparr>progresses := om_set tid p (progresses pt)\<rparr>, -1))))"

lemma get_progress_Inr [res_simps]: "get_progress pt t = Inr p \<longleftrightarrow> om_get (progresses pt) t = Some p"
  by (auto simp: get_progress_def res_simps)

section \<open>The invariant\<close>

definition clocks :: "progress_tracker \<Rightarrow> int set" where
  "clocks pt = ran (om_get (progresses pt))"

definition pt_inv :: "progress_tracker \<Rightarrow> bool" where
  "pt_inv pt \<longleftrightarrow> om_wf (progresses pt)
     \<and> (\<forall>t p. om_get (progresses pt) t = Some p \<longrightarrow> 0 \<le> p \<and> min_clock pt \<le> p \<and> in_i32 p)
     \<and> (progresses pt \<noteq> [] \<longrightarrow> (\<exists>t. om_get (progresses pt) t = Some (min_clock pt)))"

lemma pt_invD:
  "pt_inv pt \<Longrightarrow> om_get (progresses pt) t = Some p \<Longrightarrow> 0 \<le> p \<and> min_clock pt \<le> p \<and> in_i32 p"
  unfolding pt_inv_def by blast

lemma clocks_finite: "finite (clocks pt)"
  by (simp add: clocks_def finite_ran finite_dom_map_of)

lemma pt_inv_Min:
  assumes "pt_inv pt" "progresses pt \<noteq> []"
  shows "min_clock pt = Min (clocks pt)"
proof (rule sym, rule Min_eqI[OF clocks_finite])
  show "min_clock pt \<in> clocks pt"
    using assms by (auto simp: pt_inv_def clocks_def ran_def)
  fix y assume "y \<in> clocks pt"
  then show "min_clock pt \<le> y"
    using assms(1) by (auto simp: pt_inv_def clocks_def ran_def)
qed

lemma fold_om_insert_props:
  "om_wf m \<Longrightarrow> om_wf (fold (\<lambda>tid m. om_insert (f tid) z m) tids m)
     \<and> dom (om_get (fold (\<lambda>tid m. om_insert (f tid) z m) tids m)) = dom (om_get m) \<union> f ` set tids
     \<and> ran (om_get (fold (\<lambda>tid m. om_insert (f tid) z m) tids m)) \<subseteq> insert z (ran (om_get m))"
proof (induction tids arbitrary: m)
  case Nil
  then show ?case by auto
next
  case (Cons t tids)
  have "om_wf (om_insert (f t) z m)" using Cons.prems by simp
  note IH = Cons.IH[OF this]
  have "dom (om_get (om_insert (f t) z m)) = insert (f t) (dom (om_get m))"
    by auto
  moreover have "ran (om_get (om_insert (f t) z m)) \<subseteq> insert z (ran (om_get m))"
    by (auto simp: ran_def)
  ultimately show ?case
    using IH by (simp add: insert_commute) blast
qed

lemma pt_init_inv: "pt_inv (pt_init tids pt)"
proof -
  let ?m = "fold (\<lambda>tid m. om_insert (to_i32 tid) 0 m) tids ([] :: (int, int) omap)"
  have m: "om_wf ?m" "ran (om_get ?m) \<subseteq> {0}"
    using fold_om_insert_props[of "[]" to_i32 "0::int" tids] by simp_all
  have "om_get ?m t = Some p \<Longrightarrow> p = 0" for t p
    using m(2) by (auto simp: ran_def)
  moreover have "?m \<noteq> [] \<Longrightarrow> \<exists>t p. om_get ?m t = Some p"
    by (cases ?m) auto
  ultimately show ?thesis
    using m(1) by (fastforce simp: pt_inv_def pt_init_def in_i32_def)
qed

lemma pt_init_threads:
  "check_thread_valid (pt_init tids pt) t \<longleftrightarrow> t \<in> to_i32 ` set tids"
  using fold_om_insert_props[of "[]" to_i32 "0::int" tids]
  by (simp add: check_thread_valid_def pt_init_def flip: domIff) blast

section \<open>The unique minimum\<close>

lemma unique_min_loop_iff:
  "n = 0 \<or> n = 1 \<Longrightarrow>
     unique_min_loop mc n m \<longleftrightarrow> n + int (length (filter (\<lambda>it. snd it = mc) m)) \<le> 1"
  by (induction mc n m rule: unique_min_loop.induct) (auto simp: Let_def)

lemma unique_min_iff:
  assumes wf: "om_wf m" and t: "om_get m tid = Some mc"
  shows "unique_min_loop mc 0 m \<longleftrightarrow> (\<forall>u. om_get m u = Some mc \<longrightarrow> u = tid)"
proof -
  let ?F = "filter (\<lambda>it. snd it = mc) m"
  have mem: "(u, mc) \<in> set ?F \<longleftrightarrow> om_get m u = Some mc" for u
    using om_mem_iff[OF wf] by auto
  have all: "p \<in> set ?F \<Longrightarrow> snd p = mc" for p by simp
  have dist: "distinct ?F"
    using om_wf_distinct[OF wf] by (simp add: distinct_map)
  have "unique_min_loop mc 0 m \<longleftrightarrow> length ?F \<le> 1"
    by (simp add: unique_min_loop_iff)
  also have "\<dots> \<longleftrightarrow> (\<forall>u. om_get m u = Some mc \<longrightarrow> u = tid)"
  proof
    assume len: "length ?F \<le> 1"
    have "(tid, mc) \<in> set ?F" using t mem by simp
    with len have "?F = [(tid, mc)]"
      by (cases ?F) auto
    then show "\<forall>u. om_get m u = Some mc \<longrightarrow> u = tid"
      using mem by (metis empty_iff insert_iff list.set(1) list.set(2) prod.inject)
  next
    assume "\<forall>u. om_get m u = Some mc \<longrightarrow> u = tid"
    then have "a = tid \<and> b = mc" if "(a, b) \<in> set ?F" for a b
      using that mem[of a] all[of "(a, b)"] by auto
    then have "set ?F \<subseteq> {(tid, mc)}" by auto
    then have "card (set ?F) \<le> 1"
      using card_mono[of "{(tid, mc)}" "set ?F"] by simp
    then show "length ?F \<le> 1"
      using distinct_card[OF dist] by simp
  qed
  finally show ?thesis .
qed

text \<open>One step of the tracker, said without the loop.\<close>

lemma advance_spec:
  assumes inv: "pt_inv pt" and adv: "advance pt tid = Inr (pt', r)"
  shows "\<exists>p. om_get (progresses pt) tid = Some p
      \<and> progresses pt' = om_set tid (p + 1) (progresses pt)
      \<and> (if p = min_clock pt \<and> (\<forall>u. om_get (progresses pt) u = Some p \<longrightarrow> u = tid)
         then min_clock pt' = min_clock pt + 1 \<and> r = min_clock pt + 1
         else min_clock pt' = min_clock pt \<and> r = -1)
      \<and> in_i32 (p + 1)"
proof -
  obtain p where p: "om_get (progresses pt) tid = Some p"
    using adv by (auto simp: advance_def res_simps check_thread_valid_def)
  have wf: "om_wf (progresses pt)" using inv by (simp add: pt_inv_def)
  define unique where
    "unique \<longleftrightarrow> p = min_clock pt \<and> (\<forall>u. om_get (progresses pt) u = Some p \<longrightarrow> u = tid)"
  have "is_unique_min pt tid = Inr unique"
    using unique_min_iff[OF wf p] p unfolding is_unique_min_def unique_def
    by (cases "p = min_clock pt") simp_all
  then have "progresses pt' = om_set tid (p + 1) (progresses pt) \<and> in_i32 (p + 1)
      \<and> (if unique then min_clock pt' = min_clock pt + 1 \<and> r = min_clock pt + 1
         else min_clock pt' = min_clock pt \<and> r = -1)"
    using adv p by (cases unique) (auto simp: advance_def res_simps)
  with p show ?thesis unfolding unique_def by blast
qed

lemma advance_inv [inv_intros]:
  assumes inv: "pt_inv pt" and adv: "advance pt tid = Inr (pt', r)"
  shows "pt_inv pt'"
proof -
  obtain p where p: "om_get (progresses pt) tid = Some p"
    and prog: "progresses pt' = om_set tid (p + 1) (progresses pt)"
    and mc: "if p = min_clock pt \<and> (\<forall>u. om_get (progresses pt) u = Some p \<longrightarrow> u = tid)
         then min_clock pt' = min_clock pt + 1 \<and> r = min_clock pt + 1
         else min_clock pt' = min_clock pt \<and> r = -1"
    and rng: "in_i32 (p + 1)"
    using advance_spec[OF assms] by blast
  have wf: "om_wf (progresses pt')"
    using inv prog by (simp add: pt_inv_def)
  have low: "0 \<le> q \<and> min_clock pt \<le> q \<and> in_i32 q" if "om_get (progresses pt) u = Some q" for u q
    using inv that by (auto simp: pt_inv_def)
  show ?thesis
  proof (cases "p = min_clock pt \<and> (\<forall>u. om_get (progresses pt) u = Some p \<longrightarrow> u = tid)")
    case True
    then have "min_clock pt < q" if "om_get (progresses pt) u = Some q" "u \<noteq> tid" for u q
      using low[OF that(1)] that by (cases "q = p") auto
    then have up: "min_clock pt + 1 \<le> q" if "om_get (progresses pt) u = Some q" "u \<noteq> tid" for u q
      using that by fastforce
    have mc': "min_clock pt' = p + 1" using mc True by auto
    have "0 \<le> q \<and> min_clock pt' \<le> q \<and> in_i32 q" if "om_get (progresses pt') u = Some q" for u q
      using that low[of u q] up[of u q] low[OF p] rng mc' True
      by (cases "u = tid") (auto simp: prog)
    moreover have "om_get (progresses pt') tid = Some (min_clock pt')"
      by (simp add: prog mc')
    ultimately show ?thesis
      using wf unfolding pt_inv_def by blast
  next
    case False
    then have same: "min_clock pt' = min_clock pt" using mc by auto
    have "\<exists>u. om_get (progresses pt') u = Some (min_clock pt)"
    proof (cases "p = min_clock pt")
      case True
      with False obtain u where "om_get (progresses pt) u = Some p" "u \<noteq> tid" by blast
      with True show ?thesis by (auto simp: prog)
    next
      case pne: False
      have "progresses pt \<noteq> []" using p by auto
      then obtain u where "om_get (progresses pt) u = Some (min_clock pt)"
        using inv by (auto simp: pt_inv_def)
      with pne p show ?thesis by (auto simp: prog intro!: exI[of _ u])
    qed
    with wf low low[OF p] rng show ?thesis
      unfolding pt_inv_def same by (auto simp: prog)
  qed
qed

lemma advance_total:
  assumes "pt_inv pt" "om_get (progresses pt) tid = Some p" "in_i32 (p + 1)"
  shows "\<exists>pt' r. advance pt tid = Inr (pt', r)"
proof -
  have "is_unique_min pt tid = Inr True \<or> is_unique_min pt tid = Inr False"
    using assms(2) by (auto simp: is_unique_min_def)
  moreover have "is_unique_min pt tid = Inr True \<Longrightarrow> p = min_clock pt"
    using assms(2) by (auto simp: is_unique_min_def split: if_splits)
  ultimately show ?thesis
    using assms(2,3) by (auto simp: advance_def check_thread_valid_def)
qed

lemma advance_nonempty: "advance pt tid = Inr (pt', r) \<Longrightarrow> progresses pt \<noteq> [] \<and> progresses pt' \<noteq> []"
proof -
  assume adv: "advance pt tid = Inr (pt', r)"
  then obtain p q where pq: "om_get (progresses pt) tid = Some p" "progresses pt' = om_set tid q (progresses pt)"
    by (auto simp: advance_def res_simps check_thread_valid_def split: if_splits)
  have "om_get (progresses pt') tid = Some q" by (simp add: pq(2))
  with pq(1) show ?thesis by (cases "progresses pt"; cases "progresses pt'") simp_all
qed

lemma min_clock_moves:
  assumes "pt_inv pt" "advance pt tid = Inr (pt', r)"
  shows "(r = -1 \<and> min_clock pt' = min_clock pt) \<or> (r = min_clock pt + 1 \<and> min_clock pt' = r)"
  using advance_spec[OF assms] by (auto split: if_splits)

lemma min_clock_nonneg: "pt_inv pt \<Longrightarrow> progresses pt \<noteq> [] \<Longrightarrow> 0 \<le> min_clock pt"
  by (auto simp: pt_inv_def)

lemma advance_unmoved: "pt_inv pt \<Longrightarrow> advance pt tid = Inr (pt', -1) \<Longrightarrow> min_clock pt' = min_clock pt"
  using min_clock_moves[of pt tid pt' "-1"] min_clock_nonneg[of pt] advance_nonempty[of pt tid pt' "-1"] by auto

lemma advance_moved:
  "pt_inv pt \<Longrightarrow> advance pt tid = Inr (pt', r) \<Longrightarrow> r \<noteq> -1 \<Longrightarrow> min_clock pt' = min_clock pt + 1 \<and> r = min_clock pt'"
  using min_clock_moves[of pt tid pt' r] by auto

text \<open>\<open>AdvanceAndGetChangedMinClock\<close> adds one to the clock of the worker and to no other, keeps
  \<open>min_clock_\<close> equal to the minimum of all clocks, and returns that minimum when it moved, -1 when
  it did not.\<close>

lemma advance_correct:
  assumes "pt_inv pt" "advance pt tid = Inr (pt', r)"
  shows "pt_inv pt' \<and> min_clock pt' = Min (clocks pt')
    \<and> om_get (progresses pt') = (om_get (progresses pt))(tid \<mapsto> the (om_get (progresses pt) tid) + 1)
    \<and> r = (if Min (clocks pt') = Min (clocks pt) then -1 else Min (clocks pt'))"
proof -
  have ne: "progresses pt \<noteq> []" "progresses pt' \<noteq> []"
    using advance_nonempty[OF assms(2)] by simp_all
  have inv': "pt_inv pt'" by (rule advance_inv[OF assms])
  have m': "min_clock pt' = Min (clocks pt')" by (rule pt_inv_Min[OF inv' ne(2)])
  have m: "min_clock pt = Min (clocks pt)" by (rule pt_inv_Min[OF assms(1) ne(1)])
  have "r = (if Min (clocks pt') = Min (clocks pt) then -1 else Min (clocks pt'))"
    using min_clock_moves[OF assms] m m' by auto
  moreover have "om_get (progresses pt') = (om_get (progresses pt))(tid \<mapsto> the (om_get (progresses pt) tid) + 1)"
    using advance_spec[OF assms] by auto
  ultimately show ?thesis using inv' m' by blast
qed

definition two_workers :: progress_tracker where
  "two_workers = pt_init [100, 101] \<lparr>progresses = [], min_clock = 0\<rparr>"

lemma advance_correct_witness:
  "\<exists>pt' r. advance two_workers 100 = Inr (pt', r) \<and> pt_inv pt' \<and> r = -1 \<and> min_clock pt' = 0"
proof -
  have inv: "pt_inv two_workers" by (simp add: two_workers_def pt_init_inv)
  have "advance two_workers 100 = Inr (\<lparr>progresses = [(100, 1), (101, 0)], min_clock = 0\<rparr>, -1)"
    by code_simp
  with advance_correct[OF inv this] show ?thesis by simp
qed

end
