(* ===== verification/Abstract_Model.thy ===== *)
theory Abstract_Model
  imports Storage Progress_Tracker
begin

text \<open>
  \<open>server/abstract_model.hpp\<close>: what the consistency models of a table have in common.  A
  handler takes a message and the state and returns the new state with the replies it pushed
  on the reply queue, in order.  The locale \<open>consistency_model\<close> is the contract of
  \<open>AbstractModel\<close>: no handler loses, invents or duplicates a request.
\<close>

section \<open>Pieces the models share\<close>

text \<open>The loop \<open>for (auto req : reqs) reply_queue_->Push(storage_->Get(req))\<close>.\<close>

fun answer_all :: "'v val_type \<Rightarrow> message list \<Rightarrow> 'v storage \<Rightarrow> ('v storage \<times> message list) res" where
  "answer_all V [] st = Inr (st, [])"
| "answer_all V (req # reqs) st =
     bind_res (storage_get V req st) (\<lambda>(reply, st').
     bind_res (answer_all V reqs st') (\<lambda>(st'', replies). Inr (st'', reply # replies)))"

text \<open>
  \<open>ResetWorker\<close> leaves \<open>sender\<close> and \<open>version\<close> of its reply uninitialised; they are
  whatever \<open>junk\<close> the memory holds.
\<close>

definition reset_reply :: "meta \<Rightarrow> u32 \<Rightarrow> message \<Rightarrow> message" where
  "reset_reply junk mid msg =
     (let m = new_message junk
      in m\<lparr>meta_of := (meta_of m)\<lparr>model_id := to_i32 mid, recver := msg_sender msg,
                                 mflag := kResetWorkerInModel\<rparr>\<rparr>)"

definition reset_tracker :: "string \<Rightarrow> message \<Rightarrow> progress_tracker \<Rightarrow> progress_tracker res" where
  "reset_tracker who msg pt =
     check_that (length (data_of msg) = 1) (Check_failed who)
       (let tids = keys_of (data_of msg ! 0);
            tids_vec = fold (\<lambda>tid v. v @ [tid]) tids []
        in Inr (pt_init tids_vec pt))"

lemma reset_reply_sel [simp, msg_simps]:
  "msg_flag (reset_reply junk mid msg) = kResetWorkerInModel"
  "msg_recver (reset_reply junk mid msg) = msg_sender msg"
  "msg_model (reset_reply junk mid msg) = to_i32 mid"
  "data_of (reset_reply junk mid msg) = []"
  by (simp_all add: reset_reply_def Let_def)

lemma reset_tracker_Inr [res_simps]:
  "reset_tracker who msg pt = Inr pt' \<longleftrightarrow>
     length (data_of msg) = 1 \<and> pt' = pt_init (keys_of (data_of msg ! 0)) pt"
proof -
  have "fold (\<lambda>tid v. v @ [tid]) tids vs = vs @ tids" for tids vs :: "u32 list"
    by (induction tids arbitrary: vs) simp_all
  from this[of _ "[]"] show ?thesis
    by (auto simp: reset_tracker_def Let_def res_simps)
qed

text \<open>A reply answers a request when it goes back to its sender with the values of its keys.\<close>

definition answers :: "'v val_type \<Rightarrow> (u32 \<Rightarrow> 'v) \<Rightarrow> message \<Rightarrow> message \<Rightarrow> bool" where
  "answers V f req reply \<longleftrightarrow> reply_id reply = request_id req \<and> msg_flag reply = msg_flag req
     \<and> length (data_of reply) = 2
     \<and> vals_of V (data_of reply ! 1) = map f (keys_of (data_of req ! 0))"

definition good_get :: "'v storage \<Rightarrow> message \<Rightarrow> bool" where
  "good_get st req \<longleftrightarrow> length (data_of req) = 1 \<and> list_all (storage_serves st) (keys_of (data_of req ! 0))"

lemma storage_get_answers:
  assumes "val_type V" "storage_inv st" "storage_get V req st = Inr (reply, st')"
  shows "answers V (storage_view V st) req reply"
  using storage_get_reply[OF assms(3)] storage_get_inv(4)[OF assms] by (simp add: answers_def)

lemma storage_get_total:
  assumes "val_type V" "storage_inv st" "good_get st req"
  shows "\<exists>reply st'. storage_get V req st = Inr (reply, st')"
  using storage_class.get_ok[OF storage_class_dispatch[OF assms(1)] assms(2)] assms(3)
  by (fastforce simp: good_get_def storage_get_def Let_def)

lemma answer_all_answers:
  assumes "val_type V"
  shows "storage_inv st \<Longrightarrow> answer_all V reqs st = Inr (st', replies) \<Longrightarrow>
     storage_inv st' \<and> storage_serves st' = storage_serves st \<and> storage_view V st' = storage_view V st
     \<and> list_all2 (answers V (storage_view V st)) reqs replies"
proof (induction reqs arbitrary: st replies)
  case Nil
  then show ?case by simp
next
  case (Cons req reqs)
  then obtain reply st1 rs where g: "storage_get V req st = Inr (reply, st1)"
    and a: "answer_all V reqs st1 = Inr (st', rs)" "replies = reply # rs"
    by (auto simp: res_simps)
  note gi = storage_get_inv[OF assms Cons.prems(1) g]
  from Cons.IH[OF gi(1) a(1)] gi(2,3) storage_get_answers[OF assms Cons.prems(1) g] a(2)
  show ?case by simp
qed

lemma answer_all_ids:
  "answer_all V reqs st = Inr (st', replies) \<Longrightarrow>
     map reply_id replies = map request_id reqs \<and> map msg_flag replies = map msg_flag reqs"
proof (induction reqs arbitrary: st replies)
  case Nil
  then show ?case by simp
next
  case (Cons req reqs)
  then obtain reply st1 rs where g: "storage_get V req st = Inr (reply, st1)"
    and a: "answer_all V reqs st1 = Inr (st', rs)" "replies = reply # rs"
    by (auto simp: res_simps)
  from Cons.IH[OF a(1)] storage_get_reply(1,2)[OF g] a(2) show ?case by simp
qed

lemma answer_all_recvers:
  assumes "answer_all V reqs st = Inr (st', replies)"
  shows "map msg_recver replies = map msg_sender reqs"
proof -
  have "map fst (map reply_id replies) = map fst (map request_id reqs)"
    using answer_all_ids[OF assms] by simp
  then show ?thesis by (simp add: reply_id_def request_id_def o_def)
qed

lemma answer_all_total:
  assumes "val_type V"
  shows "storage_inv st \<Longrightarrow> list_all (good_get st) reqs \<Longrightarrow> \<exists>st' replies. answer_all V reqs st = Inr (st', replies)"
proof (induction reqs arbitrary: st)
  case Nil
  then show ?case by simp
next
  case (Cons req reqs)
  then obtain reply st1 where g: "storage_get V req st = Inr (reply, st1)"
    using storage_get_total[OF assms Cons.prems(1), of req] Cons.prems(2) by auto
  note gi = storage_get_inv[OF assms Cons.prems(1) g]
  have "list_all (good_get st1) reqs"
    using Cons.prems(2) gi(2) by (simp add: good_get_def list_all_iff)
  from Cons.IH[OF gi(1) this] g show ?case by auto
qed

lemma finish_iter_inv [simp, inv_intros]:
  "storage_inv st \<Longrightarrow> storage_inv (finish_iter st)"
  "storage_serves (finish_iter st) = storage_serves st"
  "storage_view V (finish_iter st) = storage_view V st"
  by (cases st; simp add: map_finish_iter_def vector_finish_iter_def)+

text \<open>The effect of an Add message on the values of the table.\<close>

definition msg_add :: "'v val_type \<Rightarrow> message \<Rightarrow> (u32 \<Rightarrow> 'v) \<Rightarrow> u32 \<Rightarrow> 'v" where
  "msg_add V m f = add_all V (keys_of (data_of m ! 0)) (vals_of V (data_of m ! 1)) f"

type_synonym add_log = "(int \<times> message) list"

lemma storage_add_view:
  assumes "val_type V" "storage_inv st" "storage_add V m st = Inr st'"
  shows "storage_view V st' = msg_add V m (storage_view V st)"
proof -
  let ?ks = "keys_of (data_of m ! 0)" and ?b = "data_of m ! 1"
  note C = storage_class_dispatch[OF assms(1)]
  have a: "sub_add V ?ks ?b st = Inr st'"
    using assms(3) by (simp add: storage_add_def res_simps)
  have "length (vals_of V ?b) = length ?ks \<and> list_all (storage_serves st) ?ks"
    using storage_class.add_bad[OF C assms(2), of ?b ?ks] a by auto
  then show ?thesis
    using storage_class.add_ok[OF C assms(2), of ?b ?ks] a by (auto simp: msg_add_def)
qed

lemma fold_storage_add_view:
  assumes V: "val_type V"
  shows "storage_inv st \<Longrightarrow> fold_res (storage_add V) ms st = Inr st' \<Longrightarrow>
     storage_view V st' = fold (msg_add V) ms (storage_view V st)"
proof (induction ms arbitrary: st)
  case Nil
  then show ?case by simp
next
  case (Cons m ms)
  then obtain st1 where st1: "storage_add V m st = Inr st1" "fold_res (storage_add V) ms st1 = Inr st'"
    by (auto simp: res_simps)
  from Cons.IH[OF storage_add_inv(1)[OF V Cons.prems(1) st1(1)] st1(2)]
  show ?case by (simp add: storage_add_view[OF V Cons.prems(1) st1(1)])
qed

section \<open>The contract of a consistency model\<close>

definition get_ids :: "message list \<Rightarrow> request_id multiset" where
  "get_ids replies = mset (map reply_id (filter (\<lambda>m. msg_flag m = kGet) replies))"

definition ask_ids :: "message list \<Rightarrow> request_id multiset" where
  "ask_ids reqs = mset (map request_id (filter (\<lambda>m. msg_flag m = kGet) reqs))"

lemma get_ids_simps [simp]:
  "get_ids [] = {#}" "get_ids (xs @ ys) = get_ids xs + get_ids ys"
  "get_ids (m # ms) = (if msg_flag m = kGet then add_mset (reply_id m) (get_ids ms) else get_ids ms)"
  by (simp_all add: get_ids_def)

lemma ask_ids_simps [simp]:
  "ask_ids [] = {#}" "ask_ids (xs @ ys) = ask_ids xs + ask_ids ys"
  "ask_ids (m # ms) = (if msg_flag m = kGet then add_mset (request_id m) (ask_ids ms) else ask_ids ms)"
  by (simp_all add: ask_ids_def)

lemma ask_ids_mset: "mset xs = mset ys \<Longrightarrow> ask_ids xs = ask_ids ys"
  unfolding ask_ids_def by (metis mset_filter mset_map)

lemma answer_all_get_ids: "answer_all V reqs st = Inr (st', replies) \<Longrightarrow> get_ids replies = ask_ids reqs"
proof (induction reqs arbitrary: st replies)
  case Nil
  then show ?case by simp
next
  case (Cons req reqs)
  then obtain reply st1 rs where g: "storage_get V req st = Inr (reply, st1)"
    and a: "answer_all V reqs st1 = Inr (st', rs)" "replies = reply # rs"
    by (auto simp: res_simps)
  from Cons.IH[OF a(1)] storage_get_reply(1,2)[OF g] a(2) show ?case by simp
qed

type_synonym 's handler = "message \<Rightarrow> 's \<Rightarrow> ('s \<times> message list) res"

locale consistency_model =
  fixes clock add get reset :: "'s handler"
    and tracker :: "'s \<Rightarrow> progress_tracker"
    and pending :: "'s \<Rightarrow> message list"
    and inv :: "'s \<Rightarrow> bool"
  assumes clock_law: "inv s \<Longrightarrow> clock m s = Inr (s', rs) \<Longrightarrow>
      inv s' \<and> get_ids rs + ask_ids (pending s') = ask_ids (pending s)
      \<and> (\<exists>r. advance (tracker s) (msg_sender m) = Inr (tracker s', r))"
    and add_law: "inv s \<Longrightarrow> add m s = Inr (s', rs) \<Longrightarrow>
      inv s' \<and> rs = [] \<and> pending s' = pending s \<and> tracker s' = tracker s"
    and get_law: "inv s \<Longrightarrow> msg_flag m = kGet \<Longrightarrow> get m s = Inr (s', rs) \<Longrightarrow>
      inv s' \<and> get_ids rs + ask_ids (pending s') = add_mset (request_id m) (ask_ids (pending s))
      \<and> tracker s' = tracker s"
    and reset_law: "inv s \<Longrightarrow> reset m s = Inr (s', rs) \<Longrightarrow>
      inv s' \<and> get_ids rs = {#} \<and> pending s' = pending s
      \<and> tracker s' = pt_init (keys_of (data_of m ! 0)) (tracker s)"
    and tracker_inv: "inv s \<Longrightarrow> pt_inv (tracker s)"
begin

text \<open>The switch of \<open>ServerThread::Main\<close> over one model, and a run of it.\<close>

definition handle :: "'s handler" where
  "handle m s = (case msg_flag m of
       kClock \<Rightarrow> clock m s
     | kAdd \<Rightarrow> add m s
     | kGet \<Rightarrow> get m s
     | kResetWorkerInModel \<Rightarrow> reset m s
     | _ \<Rightarrow> Inl (Check_failed ''ServerThread::Main: Unknown flag in msg''))"

fun handle_all :: "message list \<Rightarrow> 's \<Rightarrow> ('s \<times> message list) res" where
  "handle_all [] s = Inr (s, [])"
| "handle_all (m # ms) s =
     bind_res (handle m s) (\<lambda>(s', rs). bind_res (handle_all ms s') (\<lambda>(s'', rs'). Inr (s'', rs @ rs')))"

lemma handle_step:
  assumes "inv s" "handle m s = Inr (s', rs)"
  shows "inv s'" "get_ids rs + ask_ids (pending s') = ask_ids [m] + ask_ids (pending s)"
  using assms clock_law[of s m s' rs] add_law[of s m s' rs] get_law[of s m s' rs] reset_law[of s m s' rs]
  by (auto simp: handle_def split: flag.splits)

text \<open>
  Whatever the order of the messages: every Get that was received has been answered once,
  or is one of the requests still waiting.
\<close>

lemma handle_all_conserves:
  "inv s \<Longrightarrow> handle_all ms s = Inr (s', rs) \<Longrightarrow>
     inv s' \<and> get_ids rs + ask_ids (pending s') = ask_ids ms + ask_ids (pending s)"
proof (induction ms arbitrary: s rs)
  case Nil
  then show ?case by simp
next
  case (Cons m ms)
  then obtain s1 rs1 rs2 where h: "handle m s = Inr (s1, rs1)" and a: "handle_all ms s1 = Inr (s', rs2)"
    and rs: "rs = rs1 @ rs2"
    by (auto simp: res_simps)
  note st = handle_step[OF Cons.prems(1) h]
  from Cons.IH[OF st(1) a] st(2) show ?case
    unfolding rs by (simp add: ac_simps)
qed

text \<open>The smallest clock never goes back while no table is reset.\<close>

lemma handle_min_clock:
  assumes "inv s" "handle m s = Inr (s', rs)" "msg_flag m \<noteq> kResetWorkerInModel"
  shows "min_clock (tracker s) \<le> min_clock (tracker s')"
proof -
  have "\<exists>r. advance (tracker s) (msg_sender m) = Inr (tracker s', r) \<or> tracker s' = tracker s"
    using assms clock_law[of s m s' rs] add_law[of s m s' rs] get_law[of s m s' rs]
    by (auto simp: handle_def split: flag.splits)
  then show ?thesis
    using min_clock_moves[OF tracker_inv[OF assms(1)]] by fastforce
qed

end

section \<open>A small table\<close>

text \<open>Two parameters, two workers: what the concrete runs of the models start from.\<close>

definition demo_storage :: "u32 list \<Rightarrow> u32 storage" where
  "demo_storage cells = VectorStorage \<lparr>vs_range = \<lparr>rbegin = 0, rend = 2\<rparr>, vs_cells = cells\<rparr>"

definition demo_msg :: "flag \<Rightarrow> int \<Rightarrow> u8 list list \<Rightarrow> message" where
  "demo_msg fl from ds =
     \<lparr>meta_of = \<lparr>sender = from, recver = 0, model_id = 0, mflag = fl, version = 0\<rparr>, data_of = ds\<rparr>"

abbreviation demo_add :: message where
  "demo_add \<equiv> demo_msg kAdd 101 [bytes_of_keys [1], bytes_of_vals u32_val [7]]"

abbreviation demo_get :: message where
  "demo_get \<equiv> demo_msg kGet 100 [bytes_of_keys [1]]"

lemma demo_storage_inv: "storage_inv (demo_storage [x, y])"
  by (simp add: demo_storage_def vector_wf_def range_size_def)

lemma demo_storage_zero: "storage_view u32_val (demo_storage [0, 0]) = (\<lambda>_. 0)"
proof
  fix k
  have "in_range \<lparr>rbegin = 0, rend = 2\<rparr> k \<Longrightarrow> vs_index \<lparr>rbegin = 0, rend = 2\<rparr> k < 2"
    using unat_mono[of "ucast k" "2 :: u64"] by (simp add: in_range_def vs_index_def)
  then show "storage_view u32_val (demo_storage [0, 0]) k = 0"
    by (auto simp: demo_storage_def vector_view_def u32_val_def less_Suc_eq numeral_2_eq_2)
qed

lemma demo_tracker_inv: "pt_inv \<lparr>progresses = [(100, 0), (101, 0)], min_clock = 0\<rparr>"
  by (auto simp: pt_inv_def om_wf_def in_i32_def)

lemma demo_good_get: "good_get (demo_storage cells) demo_get"
  by (simp add: good_get_def demo_msg_def demo_storage_def in_range_def)

end
