(* ===== verification/Asp_Model.thy ===== *)
theory Asp_Model
  imports Abstract_Model
begin

text \<open>
  \<open>server/asp_model.cpp\<close>: the asynchronous model.  Every request is served at once, clocks
  are only counted.
\<close>

record 'v asp_model =
  asp_id :: u32
  asp_storage :: "'v storage"
  asp_tracker :: progress_tracker

definition asp_new :: "u32 \<Rightarrow> 'v storage \<Rightarrow> progress_tracker \<Rightarrow> 'v asp_model" where
  "asp_new mid st pt = \<lparr>asp_id = mid, asp_storage = st, asp_tracker = pt\<rparr>"

definition asp_clock :: "'v asp_model handler" where
  "asp_clock msg s =
     bind_res (advance (asp_tracker s) (msg_sender msg)) (\<lambda>(pt, _). Inr (s\<lparr>asp_tracker := pt\<rparr>, []))"

definition asp_add :: "'v val_type \<Rightarrow> 'v asp_model handler" where
  "asp_add V msg s =
     check_that (check_thread_valid (asp_tracker s) (msg_sender msg)) (Check_failed ''ASPModel::Add'')
     (bind_res (storage_add V msg (asp_storage s)) (\<lambda>st. Inr (s\<lparr>asp_storage := st\<rparr>, [])))"

definition asp_get :: "'v val_type \<Rightarrow> 'v asp_model handler" where
  "asp_get V msg s =
     check_that (check_thread_valid (asp_tracker s) (msg_sender msg)) (Check_failed ''ASPModel::Get'')
     (bind_res (storage_get V msg (asp_storage s)) (\<lambda>(reply, st). Inr (s\<lparr>asp_storage := st\<rparr>, [reply])))"

definition asp_get_progress :: "int \<Rightarrow> 'v asp_model \<Rightarrow> int res" where
  "asp_get_progress tid s = get_progress (asp_tracker s) tid"

definition asp_reset_worker :: "meta \<Rightarrow> 'v asp_model handler" where
  "asp_reset_worker junk msg s =
     bind_res (reset_tracker ''ASPModel::ResetWorker'' msg (asp_tracker s)) (\<lambda>pt.
       Inr (s\<lparr>asp_tracker := pt\<rparr>, [reset_reply junk (asp_id s) msg]))"

definition asp_inv :: "'v asp_model \<Rightarrow> bool" where
  "asp_inv s \<longleftrightarrow> pt_inv (asp_tracker s) \<and> storage_inv (asp_storage s)"

context val_type
begin

lemma asp_consistency_model:
  "consistency_model asp_clock (asp_add V) (asp_get V) (asp_reset_worker junk) asp_tracker (\<lambda>_. []) asp_inv"
proof unfold_locales
  fix s :: "'v asp_model" and m s' rs
  assume "asp_inv s" "asp_clock m s = Inr (s', rs)"
  then show "asp_inv s' \<and> get_ids rs + ask_ids [] = ask_ids []
      \<and> (\<exists>r. advance (asp_tracker s) (msg_sender m) = Inr (asp_tracker s', r))"
    by (auto simp: asp_clock_def asp_inv_def res_simps intro: advance_inv)
next
  fix s :: "'v asp_model" and m s' rs
  assume "asp_inv s" "asp_add V m s = Inr (s', rs)"
  then show "asp_inv s' \<and> rs = [] \<and> [] = [] \<and> asp_tracker s' = asp_tracker s"
    by (auto simp: asp_add_def asp_inv_def res_simps intro: storage_add_inv[OF val_type_axioms])
next
  fix s :: "'v asp_model" and m s' rs
  assume s: "asp_inv s" and "msg_flag m = kGet" and g: "asp_get V m s = Inr (s', rs)"
  then obtain reply st where "storage_get V m (asp_storage s) = Inr (reply, st)"
    "s' = s\<lparr>asp_storage := st\<rparr>" "rs = [reply]"
    by (auto simp: asp_get_def res_simps)
  moreover from this s have "storage_inv st"
    using storage_get_inv(1)[OF val_type_axioms] by (auto simp: asp_inv_def)
  ultimately show "asp_inv s' \<and> get_ids rs + ask_ids [] = add_mset (request_id m) (ask_ids [])
      \<and> asp_tracker s' = asp_tracker s"
    using s \<open>msg_flag m = kGet\<close> storage_get_reply(1,2)[of V m "asp_storage s" reply st]
    by (simp add: asp_inv_def)
next
  fix s :: "'v asp_model" and m s' rs
  assume "asp_inv s" "asp_reset_worker junk m s = Inr (s', rs)"
  then show "asp_inv s' \<and> get_ids rs = {#} \<and> [] = []
      \<and> asp_tracker s' = pt_init (keys_of (data_of m ! 0)) (asp_tracker s)"
    by (auto simp: asp_reset_worker_def asp_inv_def res_simps pt_init_inv)
qed (simp add: asp_inv_def)

end

interpretation asp_u32: consistency_model asp_clock "asp_add u32_val" "asp_get u32_val"
  "asp_reset_worker junk" asp_tracker "\<lambda>_. []" asp_inv
  by (rule u32_val.asp_consistency_model)

interpretation asp_float: consistency_model asp_clock "asp_add (float_val fadd)" "asp_get (float_val fadd)"
  "asp_reset_worker junk" asp_tracker "\<lambda>_. []" asp_inv
  by (rule float_val.asp_consistency_model)

text \<open>A well-formed Get of a registered worker is answered at once, with the values of the moment.\<close>

lemma asp_get_answers:
  assumes "val_type V" "asp_inv s" "check_thread_valid (asp_tracker s) (msg_sender req)"
    "good_get (asp_storage s) req"
  shows "\<exists>s' reply. asp_get V req s = Inr (s', [reply])
      \<and> answers V (storage_view V (asp_storage s)) req reply
      \<and> storage_view V (asp_storage s') = storage_view V (asp_storage s)"
proof -
  have st: "storage_inv (asp_storage s)" using assms(2) by (simp add: asp_inv_def)
  obtain reply st' where g: "storage_get V req (asp_storage s) = Inr (reply, st')"
    using storage_get_total[OF assms(1) st assms(4)] by blast
  show ?thesis
    using storage_get_answers[OF assms(1) st g] storage_get_inv(3)[OF assms(1) st g] g assms(3)
    by (simp add: asp_get_def)
qed

end
