(* ===== verification/Bsp_Model.thy ===== *)
theory Bsp_Model
  imports Abstract_Model
begin

text \<open>
  \<open>server/bsp_model.cpp\<close>: the bulk-synchronous model.  Adds wait in a buffer until every
  worker has finished the iteration, Gets of a worker that is one iteration ahead wait with
  them.  \<open>bsp_reach\<close> is a run of the table that remembers in which iteration every Add was
  made; it shows what a Get of iteration \<open>p\<close> reads.
\<close>

record 'v bsp_model =
  bsp_id :: u32
  bsp_storage :: "'v storage"
  bsp_tracker :: progress_tracker
  get_buffer :: "message list"
  add_buffer :: "message list"

definition bsp_new :: "u32 \<Rightarrow> 'v storage \<Rightarrow> progress_tracker \<Rightarrow> 'v bsp_model" where
  "bsp_new mid st pt =
     \<lparr>bsp_id = mid, bsp_storage = st, bsp_tracker = pt, get_buffer = [], add_buffer = []\<rparr>"

definition bsp_release :: "'v val_type \<Rightarrow> 'v bsp_model \<Rightarrow> ('v bsp_model \<times> message list) res" where
  "bsp_release V s =
     bind_res (fold_res (storage_add V) (add_buffer s) (bsp_storage s)) (\<lambda>st.
     bind_res (answer_all V (get_buffer s) st) (\<lambda>(st', replies).
       Inr (s\<lparr>bsp_storage := finish_iter st', get_buffer := [], add_buffer := []\<rparr>, replies)))"

definition bsp_clock :: "'v val_type \<Rightarrow> 'v bsp_model handler" where
  "bsp_clock V msg s =
     bind_res (advance (bsp_tracker s) (msg_sender msg)) (\<lambda>(pt, updated_min_clock).
     bind_res (get_progress pt (msg_sender msg)) (\<lambda>progress.
     bind_res (as_i32 (get_min_clock pt + 1)) (\<lambda>limit.
     check_that (progress \<le> limit) (Check_failed ''BSPModel::Clock'')
       (let s = s\<lparr>bsp_tracker := pt\<rparr>
        in if updated_min_clock \<noteq> -1 then bsp_release V s else Inr (s, [])))))"

definition bsp_add :: "'v bsp_model handler" where
  "bsp_add msg s =
     check_that (check_thread_valid (bsp_tracker s) (msg_sender msg)) (Check_failed ''BSPModel::Add'')
     (bind_res (get_progress (bsp_tracker s) (msg_sender msg)) (\<lambda>progress.
       if progress = get_min_clock (bsp_tracker s)
       then Inr (s\<lparr>add_buffer := add_buffer s @ [msg]\<rparr>, [])
       else Inl (Check_failed ''progress error in BSPModel::Add'')))"

definition bsp_get :: "'v val_type \<Rightarrow> 'v bsp_model handler" where
  "bsp_get V msg s =
     check_that (check_thread_valid (bsp_tracker s) (msg_sender msg)) (Check_failed ''BSPModel::Get'')
     (bind_res (get_progress (bsp_tracker s) (msg_sender msg)) (\<lambda>progress.
      bind_res (as_i32 (get_min_clock (bsp_tracker s) + 1)) (\<lambda>next.
       if progress = next then Inr (s\<lparr>get_buffer := get_buffer s @ [msg]\<rparr>, [])
       else if progress = get_min_clock (bsp_tracker s) then
         bind_res (storage_get V msg (bsp_storage s)) (\<lambda>(reply, st). Inr (s\<lparr>bsp_storage := st\<rparr>, [reply]))
       else Inl (Check_failed ''progress error in BSPModel::Get''))))"

definition bsp_get_progress :: "int \<Rightarrow> 'v bsp_model \<Rightarrow> int res" where
  "bsp_get_progress tid s = get_progress (bsp_tracker s) tid"

definition get_get_pending_size :: "'v bsp_model \<Rightarrow> int" where
  "get_get_pending_size s = to_i32 (of_nat (length (get_buffer s)))"

definition get_add_pending_size :: "'v bsp_model \<Rightarrow> int" where
  "get_add_pending_size s = to_i32 (of_nat (length (add_buffer s)))"

definition bsp_reset_worker :: "meta \<Rightarrow> 'v bsp_model handler" where
  "bsp_reset_worker junk msg s =
     bind_res (reset_tracker ''BSPModel::ResetWorker'' msg (bsp_tracker s)) (\<lambda>pt.
       Inr (s\<lparr>bsp_tracker := pt\<rparr>, [reset_reply junk (bsp_id s) msg]))"

section \<open>The invariant and the contract\<close>

text \<open>No worker is more than one iteration ahead of the slowest.\<close>

definition lockstep :: "progress_tracker \<Rightarrow> bool" where
  "lockstep pt \<longleftrightarrow> (\<forall>t p. om_get (progresses pt) t = Some p \<longrightarrow> p \<le> min_clock pt + 1)"

definition bsp_inv :: "'v bsp_model \<Rightarrow> bool" where
  "bsp_inv s \<longleftrightarrow> pt_inv (bsp_tracker s) \<and> storage_inv (bsp_storage s)
     \<and> (\<forall>m \<in> set (get_buffer s). msg_flag m = kGet)"

lemma fold_storage_add_inv:
  assumes "val_type V" "storage_inv st" "fold_res (storage_add V) ms st = Inr st'"
  shows "storage_inv st' \<and> storage_serves st' = storage_serves st"
proof (rule fold_res_invariant[OF assms(3)])
  fix m s t
  assume "storage_inv s \<and> storage_serves s = storage_serves st" "storage_add V m s = Inr t"
  then show "storage_inv t \<and> storage_serves t = storage_serves st"
    using storage_add_inv[OF assms(1), of s m t] by simp
qed (simp add: assms(2))

lemma bsp_release_spec:
  assumes V: "val_type V" and s: "storage_inv (bsp_storage s)" and r: "bsp_release V s = Inr (s', rs)"
  obtains st st' where "fold_res (storage_add V) (add_buffer s) (bsp_storage s) = Inr st" "storage_inv st"
    "list_all2 (answers V (storage_view V st)) (get_buffer s) rs" "get_ids rs = ask_ids (get_buffer s)"
    "s' = s\<lparr>bsp_storage := finish_iter st', get_buffer := [], add_buffer := []\<rparr>"
    "storage_inv st'" "storage_view V st' = storage_view V st"
proof -
  obtain st st' where f: "fold_res (storage_add V) (add_buffer s) (bsp_storage s) = Inr st"
    and a: "answer_all V (get_buffer s) st = Inr (st', rs)"
    and s': "s' = s\<lparr>bsp_storage := finish_iter st', get_buffer := [], add_buffer := []\<rparr>"
    using r by (auto simp: bsp_release_def res_simps)
  have st: "storage_inv st" using fold_storage_add_inv[OF V s f] by simp
  show ?thesis
    using that[OF f st _ answer_all_get_ids[OF a] s'] answer_all_answers[OF V st a] by blast
qed

lemma bsp_clock_cases:
  assumes "bsp_clock V m s = Inr (s', rs)"
  obtains pt where "advance (bsp_tracker s) (msg_sender m) = Inr (pt, -1)" "s' = s\<lparr>bsp_tracker := pt\<rparr>" "rs = []"
      "\<exists>p. om_get (progresses pt) (msg_sender m) = Some p \<and> p \<le> min_clock pt + 1"
  | pt mc where "advance (bsp_tracker s) (msg_sender m) = Inr (pt, mc)" "mc \<noteq> -1"
      "bsp_release V (s\<lparr>bsp_tracker := pt\<rparr>) = Inr (s', rs)"
      "\<exists>p. om_get (progresses pt) (msg_sender m) = Some p \<and> p \<le> min_clock pt + 1"
  using assms by (auto simp: bsp_clock_def res_simps Let_def get_min_clock_def split: if_splits)

lemma bsp_get_cases:
  assumes "bsp_get V m s = Inr (s', rs)"
  obtains "om_get (progresses (bsp_tracker s)) (msg_sender m) = Some (min_clock (bsp_tracker s) + 1)"
      "s' = s\<lparr>get_buffer := get_buffer s @ [m]\<rparr>" "rs = []"
  | reply st where "om_get (progresses (bsp_tracker s)) (msg_sender m) = Some (min_clock (bsp_tracker s))"
      "storage_get V m (bsp_storage s) = Inr (reply, st)" "s' = s\<lparr>bsp_storage := st\<rparr>" "rs = [reply]"
  using assms by (auto simp: bsp_get_def res_simps get_min_clock_def split: if_splits)

lemma bsp_add_iff:
  "bsp_add m s = Inr (s', rs) \<longleftrightarrow>
     om_get (progresses (bsp_tracker s)) (msg_sender m) = Some (min_clock (bsp_tracker s))
     \<and> s' = s\<lparr>add_buffer := add_buffer s @ [m]\<rparr> \<and> rs = []"
  by (auto simp: bsp_add_def res_simps get_min_clock_def check_thread_valid_def)

context val_type
begin

lemma bsp_consistency_model:
  "consistency_model (bsp_clock V) bsp_add (bsp_get V) (bsp_reset_worker junk) bsp_tracker get_buffer bsp_inv"
proof unfold_locales
  fix s :: "'v bsp_model" and m s' rs
  assume s: "bsp_inv s" and c: "bsp_clock V m s = Inr (s', rs)"
  from c show "bsp_inv s' \<and> get_ids rs + ask_ids (get_buffer s') = ask_ids (get_buffer s)
      \<and> (\<exists>r. advance (bsp_tracker s) (msg_sender m) = Inr (bsp_tracker s', r))"
  proof (cases rule: bsp_clock_cases)
    case (1 pt)
    then show ?thesis using s by (auto simp: bsp_inv_def intro: advance_inv)
  next
    case (2 pt mc)
    let ?s = "s\<lparr>bsp_tracker := pt\<rparr>"
    have "storage_inv (bsp_storage ?s)" "pt_inv pt"
      using s 2(1) by (auto simp: bsp_inv_def intro: advance_inv)
    then show ?thesis
      by (rule_tac bsp_release_spec[OF val_type_axioms _ 2(3)]) (use 2(1) in \<open>auto simp: bsp_inv_def\<close>)
  qed
next
  fix s :: "'v bsp_model" and m s' rs
  assume "bsp_inv s" "bsp_add m s = Inr (s', rs)"
  then show "bsp_inv s' \<and> rs = [] \<and> get_buffer s' = get_buffer s \<and> bsp_tracker s' = bsp_tracker s"
    by (auto simp: bsp_add_iff bsp_inv_def)
next
  fix s :: "'v bsp_model" and m s' rs
  assume s: "bsp_inv s" "msg_flag m = kGet" and g: "bsp_get V m s = Inr (s', rs)"
  from g show "bsp_inv s' \<and> get_ids rs + ask_ids (get_buffer s') = add_mset (request_id m) (ask_ids (get_buffer s))
      \<and> bsp_tracker s' = bsp_tracker s"
  proof (cases rule: bsp_get_cases)
    case 1
    then show ?thesis using s by (auto simp: bsp_inv_def)
  next
    case (2 reply st)
    then have "storage_inv st"
      using s storage_get_inv(1)[OF val_type_axioms] by (auto simp: bsp_inv_def)
    with 2 s storage_get_reply(1,2)[OF 2(2)] show ?thesis by (simp add: bsp_inv_def)
  qed
next
  fix s :: "'v bsp_model" and m s' rs
  assume "bsp_inv s" "bsp_reset_worker junk m s = Inr (s', rs)"
  then show "bsp_inv s' \<and> get_ids rs = {#} \<and> get_buffer s' = get_buffer s
      \<and> bsp_tracker s' = pt_init (keys_of (data_of m ! 0)) (bsp_tracker s)"
    by (auto simp: bsp_reset_worker_def bsp_inv_def res_simps pt_init_inv)
qed (simp add: bsp_inv_def)

end

interpretation bsp_u32: consistency_model "bsp_clock u32_val" bsp_add "bsp_get u32_val"
  "bsp_reset_worker junk" bsp_tracker get_buffer bsp_inv
  by (rule u32_val.bsp_consistency_model)

interpretation bsp_float: consistency_model "bsp_clock (float_val fadd)" bsp_add "bsp_get (float_val fadd)"
  "bsp_reset_worker junk" bsp_tracker get_buffer bsp_inv
  by (rule float_val.bsp_consistency_model)

section \<open>Runs, with the iteration of every Add\<close>

definition adds_before :: "'v val_type \<Rightarrow> int \<Rightarrow> add_log \<Rightarrow> (u32 \<Rightarrow> 'v) \<Rightarrow> u32 \<Rightarrow> 'v" where
  "adds_before V p log f = fold (\<lambda>im. msg_add V (snd im)) (filter (\<lambda>im. fst im < p) log) f"

inductive bsp_reach :: "'v val_type \<Rightarrow> (u32 \<Rightarrow> 'v) \<Rightarrow> 'v bsp_model \<Rightarrow> add_log \<Rightarrow> bool"
  for V :: "'v val_type" and f0 :: "u32 \<Rightarrow> 'v"
where
  start: "bsp_inv s \<Longrightarrow> lockstep (bsp_tracker s) \<Longrightarrow> get_buffer s = [] \<Longrightarrow> add_buffer s = [] \<Longrightarrow>
     storage_view V (bsp_storage s) = f0 \<Longrightarrow> bsp_reach V f0 s []"
| clock: "bsp_reach V f0 s log \<Longrightarrow> bsp_clock V m s = Inr (s', rs) \<Longrightarrow> bsp_reach V f0 s' log"
| add: "bsp_reach V f0 s log \<Longrightarrow> bsp_add m s = Inr (s', rs) \<Longrightarrow>
     get_progress (bsp_tracker s) (msg_sender m) = Inr p \<Longrightarrow> bsp_reach V f0 s' (log @ [(p, m)])"
| get: "bsp_reach V f0 s log \<Longrightarrow> msg_flag m = kGet \<Longrightarrow> bsp_get V m s = Inr (s', rs) \<Longrightarrow> bsp_reach V f0 s' log"

text \<open>
  The storage holds exactly the Adds of the finished iterations; the Adds of the current one
  are in the buffer, and there is none of a later one.
\<close>

definition bsp_run_inv :: "'v val_type \<Rightarrow> (u32 \<Rightarrow> 'v) \<Rightarrow> 'v bsp_model \<Rightarrow> add_log \<Rightarrow> bool" where
  "bsp_run_inv V f0 s log \<longleftrightarrow> bsp_inv s \<and> lockstep (bsp_tracker s)
     \<and> storage_view V (bsp_storage s) = adds_before V (min_clock (bsp_tracker s)) log f0
     \<and> add_buffer s = map snd (filter (\<lambda>im. fst im = min_clock (bsp_tracker s)) log)
     \<and> (\<forall>im \<in> set log. fst im \<le> min_clock (bsp_tracker s))
     \<and> sorted (map fst log)"

lemma sorted_filter_le_split:
  "sorted (map fst xs) \<Longrightarrow>
     filter (\<lambda>x. fst x < c + 1) xs = filter (\<lambda>x. fst x < c) xs @ filter (\<lambda>x. fst x = c) (xs :: (int \<times> 'a) list)"
proof (induction xs)
  case Nil
  then show ?case by simp
next
  case (Cons x xs)
  have "filter (\<lambda>y. fst y < c) xs = []" if "\<not> fst x < c"
    using Cons.prems that by (fastforce simp: filter_empty_conv)
  with Cons show ?case by auto
qed

lemma adds_before_next:
  assumes "sorted (map fst log)"
  shows "adds_before V (c + 1) log f =
    fold (msg_add V) (map snd (filter (\<lambda>im. fst im = c) log)) (adds_before V c log f)"
proof -
  have "fold (\<lambda>im. msg_add V (snd im)) xs f = fold (msg_add V) (map snd xs) f" for xs :: add_log and f
    by (induction xs arbitrary: f) simp_all
  then show ?thesis
    unfolding adds_before_def sorted_filter_le_split[OF assms] by simp
qed

lemma advance_lockstep:
  assumes "pt_inv pt" "lockstep pt" "advance pt t = Inr (pt', r)"
    "\<exists>p. om_get (progresses pt') t = Some p \<and> p \<le> min_clock pt' + 1"
  shows "lockstep pt'"
proof -
  have "min_clock pt \<le> min_clock pt'"
    using min_clock_moves[OF assms(1,3)] by auto
  moreover obtain p where "progresses pt' = om_set t p (progresses pt)"
    using advance_spec[OF assms(1,3)] by blast
  ultimately show ?thesis
    using assms(2,4) unfolding lockstep_def by (fastforce split: if_splits)
qed

lemma bsp_run_clock:
  assumes V: "val_type V" and I: "bsp_run_inv V f0 s log" and c: "bsp_clock V m s = Inr (s', rs)"
  shows "bsp_run_inv V f0 s' log
    \<and> list_all2 (answers V (adds_before V (min_clock (bsp_tracker s')) log f0))
        (if min_clock (bsp_tracker s') = min_clock (bsp_tracker s) then [] else get_buffer s) rs"
proof -
  have s: "bsp_inv s" "lockstep (bsp_tracker s)" "pt_inv (bsp_tracker s)" "storage_inv (bsp_storage s)"
    using I by (simp_all add: bsp_run_inv_def bsp_inv_def)
  have inv': "bsp_inv s'"
    using consistency_model.clock_law[OF val_type.bsp_consistency_model[OF V] s(1) c] by blast
  from c show ?thesis
  proof (cases rule: bsp_clock_cases)
    case (1 pt)
    have "min_clock pt = min_clock (bsp_tracker s)"
      by (rule advance_unmoved[OF s(3) 1(1)])
    with I inv' advance_lockstep[OF s(3,2) 1(1,4)] 1 show ?thesis by (simp add: bsp_run_inv_def)
  next
    case (2 pt mc)
    have pt: "min_clock pt = min_clock (bsp_tracker s) + 1"
      using advance_moved[OF s(3) 2(1,2)] by simp
    obtain st st' where f: "fold_res (storage_add V) (add_buffer s) (bsp_storage s) = Inr st"
      and a: "list_all2 (answers V (storage_view V st)) (get_buffer s) rs"
      and s': "s' = s\<lparr>bsp_tracker := pt, bsp_storage := finish_iter st', get_buffer := [], add_buffer := []\<rparr>"
      and v: "storage_view V st' = storage_view V st"
      by (rule bsp_release_spec[OF V _ 2(3)]) (use s(4) in auto)
    have "storage_view V st = fold (msg_add V) (add_buffer s) (storage_view V (bsp_storage s))"
      by (rule fold_storage_add_view[OF V s(4) f])
    also have "\<dots> = adds_before V (min_clock pt) log f0"
      using I by (simp add: bsp_run_inv_def pt adds_before_next)
    finally have view: "storage_view V st = adds_before V (min_clock pt) log f0" .
    have "filter (\<lambda>im. fst im = min_clock pt) log = []"
      using I by (fastforce simp: bsp_run_inv_def pt filter_empty_conv)
    with I inv' advance_lockstep[OF s(3,2) 2(1,4)] a view v show ?thesis
      by (fastforce simp: bsp_run_inv_def s' pt)
  qed
qed

lemma bsp_run_add:
  assumes I: "bsp_run_inv V f0 s log" and a: "bsp_add m s = Inr (s', rs)"
    and p: "get_progress (bsp_tracker s) (msg_sender m) = Inr p"
  shows "bsp_run_inv V f0 s' (log @ [(p, m)])"
proof -
  have "p = min_clock (bsp_tracker s)" "s' = s\<lparr>add_buffer := add_buffer s @ [m]\<rparr>"
    using a p by (simp_all add: bsp_add_iff res_simps)
  with I show ?thesis
    by (auto simp: bsp_run_inv_def bsp_inv_def adds_before_def sorted_append)
qed

lemma bsp_run_get:
  assumes V: "val_type V" and I: "bsp_run_inv V f0 s log" and m: "msg_flag m = kGet"
    and g: "bsp_get V m s = Inr (s', rs)"
  shows "bsp_run_inv V f0 s' log"
proof -
  have s: "bsp_inv s" using I by (simp add: bsp_run_inv_def)
  have inv': "bsp_inv s'"
    using consistency_model.get_law[OF val_type.bsp_consistency_model[OF V] s m g] by blast
  from g show ?thesis
  proof (cases rule: bsp_get_cases)
    case 1
    with I inv' show ?thesis by (simp add: bsp_run_inv_def)
  next
    case (2 reply st)
    have "storage_view V st = storage_view V (bsp_storage s)"
      using storage_get_inv(3)[OF V _ 2(2)] s by (simp add: bsp_inv_def)
    with 2 I inv' show ?thesis by (simp add: bsp_run_inv_def)
  qed
qed

lemma bsp_reach_inv:
  assumes "val_type V"
  shows "bsp_reach V f0 s log \<Longrightarrow> bsp_run_inv V f0 s log"
proof (induction rule: bsp_reach.induct)
  case (start s)
  then show ?case by (simp add: bsp_run_inv_def adds_before_def)
next
  case (clock s log m s' rs)
  then show ?case using bsp_run_clock[OF assms] by blast
next
  case (add s log m s' rs p)
  then show ?case using bsp_run_add by blast
next
  case (get s log m s' rs)
  then show ?case using bsp_run_get[OF assms] by blast
qed

text \<open>C3. In a run of the bulk-synchronous model, a Get that is answered at once, of a worker in
  iteration \<open>p\<close>, reads the initial values plus exactly the Adds all workers made in the
  iterations before \<open>p\<close>, whatever Adds of iteration \<open>p\<close> have already arrived.\<close>

theorem bsp_get_reads_past_iterations:
  assumes "val_type V" "bsp_reach V f0 s log" "bsp_get V m s = Inr (s', [reply])"
    "get_progress (bsp_tracker s) (msg_sender m) = Inr p"
  shows "answers V (adds_before V p log f0) m reply"
proof -
  have I: "bsp_run_inv V f0 s log" by (rule bsp_reach_inv[OF assms(1,2)])
  then have st: "storage_inv (bsp_storage s)" by (simp add: bsp_run_inv_def bsp_inv_def)
  from assms(3) show ?thesis
  proof (cases rule: bsp_get_cases)
    case (2 r st')
    moreover have "p = min_clock (bsp_tracker s)"
      using 2(1) assms(4) by (simp add: res_simps)
    ultimately show ?thesis
      using storage_get_answers[OF assms(1) st 2(2)] I by (simp add: bsp_run_inv_def)
  qed simp
qed

text \<open>When the Clock of the slowest worker moves the smallest clock to \<open>c\<close>, every buffered Add
  is applied first, then every waiting Get is answered, in order of arrival, with the values
  after all Adds of the iterations before \<open>c\<close>; both buffers are then empty.  A Clock that does
  not move it answers nothing.\<close>

lemma bsp_barrier_release:
  assumes "val_type V" "bsp_reach V f0 s log" "bsp_clock V m s = Inr (s', rs)"
  shows "list_all2 (answers V (adds_before V (min_clock (bsp_tracker s')) log f0))
      (if min_clock (bsp_tracker s') = min_clock (bsp_tracker s) then [] else get_buffer s) rs
    \<and> (min_clock (bsp_tracker s') \<noteq> min_clock (bsp_tracker s) \<longrightarrow> get_buffer s' = [] \<and> add_buffer s' = [])"
proof (intro conjI impI)
  have I: "bsp_run_inv V f0 s log" by (rule bsp_reach_inv[OF assms(1,2)])
  then show "list_all2 (answers V (adds_before V (min_clock (bsp_tracker s')) log f0))
      (if min_clock (bsp_tracker s') = min_clock (bsp_tracker s) then [] else get_buffer s) rs"
    using bsp_run_clock[OF assms(1) _ assms(3)] by blast
  assume moved: "min_clock (bsp_tracker s') \<noteq> min_clock (bsp_tracker s)"
  have s: "pt_inv (bsp_tracker s)" "storage_inv (bsp_storage s)"
    using I by (simp_all add: bsp_run_inv_def bsp_inv_def)
  from assms(3) have "get_buffer s' = [] \<and> add_buffer s' = []"
  proof (cases rule: bsp_clock_cases)
    case (1 pt)
    then show ?thesis using moved advance_unmoved[OF s(1) 1(1)] by simp
  next
    case (2 pt mc)
    show ?thesis
      by (rule bsp_release_spec[OF assms(1) _ 2(3)]) (use s in auto)
  qed
  then show "get_buffer s' = []" "add_buffer s' = []" by simp_all
qed

section \<open>A run of two workers\<close>

definition bsp_demo :: "int \<Rightarrow> int \<Rightarrow> int \<Rightarrow> u32 list \<Rightarrow> message list \<Rightarrow> message list \<Rightarrow> u32 bsp_model" where
  "bsp_demo p q mc cells adds gets =
     \<lparr>bsp_id = 0, bsp_storage = demo_storage cells,
      bsp_tracker = \<lparr>progresses = [(100, p), (101, q)], min_clock = mc\<rparr>,
      get_buffer = gets, add_buffer = adds\<rparr>"

text \<open>Worker 101 adds 7 in iteration 0, worker 100 goes on to iteration 1 and asks for the value.\<close>

lemma bsp_demo_start: "bsp_reach u32_val (\<lambda>_. 0) (bsp_demo 0 0 0 [0, 0] [] []) []"
  by (rule bsp_reach.start)
    (simp_all add: bsp_inv_def bsp_demo_def demo_storage_inv demo_storage_zero demo_tracker_inv lockstep_def)

lemma bsp_demo_added: "bsp_reach u32_val (\<lambda>_. 0) (bsp_demo 1 0 0 [0, 0] [demo_add] [demo_get]) [(0, demo_add)]"
proof -
  have 1: "bsp_add demo_add (bsp_demo 0 0 0 [0, 0] [] []) = Inr (bsp_demo 0 0 0 [0, 0] [demo_add] [], [])"
    by code_simp
  have p: "get_progress (bsp_tracker (bsp_demo 0 0 0 [0, 0] [] [])) (msg_sender demo_add) = Inr 0"
    by code_simp
  have 2: "bsp_clock u32_val (demo_msg kClock 100 []) (bsp_demo 0 0 0 [0, 0] [demo_add] [])
      = Inr (bsp_demo 1 0 0 [0, 0] [demo_add] [], [])"
    by code_simp
  have 3: "bsp_get u32_val demo_get (bsp_demo 1 0 0 [0, 0] [demo_add] [])
      = Inr (bsp_demo 1 0 0 [0, 0] [demo_add] [demo_get], [])"
    by code_simp
  have "msg_flag demo_get = kGet" by (simp add: demo_msg_def)
  from bsp_reach.get[OF bsp_reach.clock[OF bsp_reach.add[OF bsp_demo_start 1 p] 2] this 3]
  show ?thesis by simp
qed

lemma bsp_barrier_release_witness:
  "\<exists>s' r. bsp_clock u32_val (demo_msg kClock 101 []) (bsp_demo 1 0 0 [0, 0] [demo_add] [demo_get]) = Inr (s', [r])
     \<and> answers u32_val (adds_before u32_val 1 [(0, demo_add)] (\<lambda>_. 0)) demo_get r"
proof -
  let ?r = "\<lparr>meta_of = meta_of demo_get\<lparr>sender := 0, recver := 100\<rparr>,
      data_of = [bytes_of_keys [1], bytes_of_vals u32_val [7]]\<rparr>"
  have c: "bsp_clock u32_val (demo_msg kClock 101 []) (bsp_demo 1 0 0 [0, 0] [demo_add] [demo_get])
      = Inr (bsp_demo 1 1 1 [0, 7] [] [], [?r])"
    by code_simp
  from bsp_barrier_release[OF u32_val.val_type_axioms bsp_demo_added c] c show ?thesis
    by (simp add: bsp_demo_def)
qed

lemma bsp_get_reads_past_iterations_witness:
  "\<exists>r. answers u32_val (adds_before u32_val 1 [(0, demo_add)] (\<lambda>_. 0)) demo_get r \<and> vals_of u32_val (data_of r ! 1) = [7]"
proof -
  let ?r = "\<lparr>meta_of = meta_of demo_get\<lparr>sender := 0, recver := 100\<rparr>,
      data_of = [bytes_of_keys [1], bytes_of_vals u32_val [7]]\<rparr>"
  have c: "bsp_clock u32_val (demo_msg kClock 101 []) (bsp_demo 1 0 0 [0, 0] [demo_add] [demo_get])
      = Inr (bsp_demo 1 1 1 [0, 7] [] [], [?r])"
    by code_simp
  note R = bsp_reach.clock[OF bsp_demo_added c]
  have g: "bsp_get u32_val demo_get (bsp_demo 1 1 1 [0, 7] [] []) = Inr (bsp_demo 1 1 1 [0, 7] [] [], [?r])"
    by code_simp
  have "get_progress (bsp_tracker (bsp_demo 1 1 1 [0, 7] [] [])) (msg_sender demo_get) = Inr 1"
    by code_simp
  from bsp_get_reads_past_iterations[OF u32_val.val_type_axioms R g this]
  show ?thesis by auto
qed

end
