(* ===== verification/Pending_Buffer.thy ===== *)
theory Pending_Buffer
  imports Messages
begin

text \<open>
  \<open>server/pending_buffer.cpp\<close> and its interface: requests parked under the clock that
  releases them.  The C++ keeps them in an \<open>unordered_map\<close> it never iterates over, so the
  order of its buckets cannot be seen; here it is an association list kept sorted.
\<close>

type_synonym pending_buffer = "(int, message list) omap"

definition pb_pop :: "int \<Rightarrow> pending_buffer \<Rightarrow> message list \<times> pending_buffer" where
  "pb_pop clock buf =
     (if om_get buf clock \<noteq> None then (get_or [] (om_get buf clock), om_del clock buf) else ([], buf))"

definition pb_push :: "int \<Rightarrow> message \<Rightarrow> pending_buffer \<Rightarrow> pending_buffer" where
  "pb_push clock msg buf = om_set clock (get_or [] (om_get buf clock) @ [msg]) buf"

text \<open>\<open>buffer_[progress].size()\<close> creates the entry it measures.\<close>

definition pb_size :: "int \<Rightarrow> pending_buffer \<Rightarrow> int \<times> pending_buffer" where
  "pb_size progress buf =
     (let reqs = get_or [] (om_get buf progress)
      in (to_i32 (of_nat (length reqs)), om_set progress reqs buf))"

definition pb_all :: "pending_buffer \<Rightarrow> message list" where
  "pb_all buf = concat (map snd buf)"

section \<open>The contract of \<open>AbstractPendingBuffer\<close>\<close>

locale pending_store =
  fixes pop :: "int \<Rightarrow> 'b \<Rightarrow> message list \<times> 'b"
    and push :: "int \<Rightarrow> message \<Rightarrow> 'b \<Rightarrow> 'b"
    and parked :: "'b \<Rightarrow> int \<Rightarrow> message list"
    and everything :: "'b \<Rightarrow> message list"
    and inv :: "'b \<Rightarrow> bool"
  assumes pop_law: "inv b \<Longrightarrow> pop c b = (ms, b') \<Longrightarrow>
      inv b' \<and> ms = parked b c \<and> parked b' = (parked b)(c := [])
      \<and> mset (everything b) = mset ms + mset (everything b')"
    and push_law: "inv b \<Longrightarrow> inv (push c m b) \<and> parked (push c m b) = (parked b)(c := parked b c @ [m])
      \<and> mset (everything (push c m b)) = add_mset m (mset (everything b))"
    and everything_law: "inv b \<Longrightarrow> m \<in> set (everything b) \<longleftrightarrow> (\<exists>c. m \<in> set (parked b c))"
begin

lemma push_all_parked:
  "inv b \<Longrightarrow> inv (fold (push c) ms b) \<and> parked (fold (push c) ms b) = (parked b)(c := parked b c @ ms)"
  by (induction ms arbitrary: b) (auto simp: push_law)

text \<open>What is parked under one clock comes back once, in the order it was parked.\<close>

lemma push_all_pop:
  assumes "inv b" "parked b c = []"
  shows "\<exists>b'. pop c (fold (push c) ms b) = (ms, b') \<and> inv b' \<and> parked b' = parked b"
proof -
  obtain ms' b' where p: "pop c (fold (push c) ms b) = (ms', b')" by force
  with push_all_parked[OF assms(1), of c ms] assms(2) pop_law[of "fold (push c) ms b" c ms' b']
  show ?thesis by (auto simp: fun_upd_idem_iff)
qed

end

definition pb_parked :: "pending_buffer \<Rightarrow> int \<Rightarrow> message list" where
  "pb_parked buf c = get_or [] (om_get buf c)"

lemma concat_om_set:
  "om_wf m \<Longrightarrow> mset (concat (map snd (om_set k (get_or [] (om_get m k) @ xs) m)))
     = mset xs + mset (concat (map snd m))"
proof (induction m)
  case Nil
  then show ?case by simp
next
  case (Cons p m)
  obtain k' v where p: "p = (k', v)" by force
  have wf: "om_wf m" "\<forall>x \<in> fst ` set m. k' < x"
    using Cons.prems by (auto simp: p om_wf_Cons)
  show ?case
  proof (cases "k < k'")
    case True
    then have "k \<notin> fst ` set m" using wf(2) by fastforce
    then have "om_get m k = None" by (simp add: map_of_eq_None_iff)
    with True show ?thesis by (simp add: p)
  qed (use Cons.IH[OF wf(1)] in \<open>auto simp: p\<close>)
qed

lemma concat_om_del:
  "om_wf m \<Longrightarrow> mset (concat (map snd m)) = mset (get_or [] (om_get m k)) + mset (concat (map snd (om_del k m)))"
proof (induction m)
  case Nil
  then show ?case by (simp add: om_del_def)
next
  case (Cons p m)
  obtain k' v where p: "p = (k', v)" by force
  have wf: "om_wf m" "\<forall>x \<in> fst ` set m. k' < x"
    using Cons.prems by (auto simp: p om_wf_Cons)
  show ?case
  proof (cases "k = k'")
    case True
    then have "k \<notin> fst ` set m" using wf(2) by fastforce
    then have "om_get m k = None" by (simp add: map_of_eq_None_iff)
    with True Cons.IH[OF wf(1)] show ?thesis by (simp add: p om_del_def)
  qed (use Cons.IH[OF wf(1)] in \<open>simp add: p om_del_def\<close>)
qed

interpretation pb: pending_store pb_pop pb_push pb_parked pb_all om_wf
proof unfold_locales
  fix b :: pending_buffer and c ms b'
  assume b: "om_wf b" and pop: "pb_pop c b = (ms, b')"
  show "om_wf b' \<and> ms = pb_parked b c \<and> pb_parked b' = (pb_parked b)(c := [])
      \<and> mset (pb_all b) = mset ms + mset (pb_all b')"
  proof (cases "om_get b c = None")
    case True
    with pop have "ms = []" "b' = b" by (simp_all add: pb_pop_def)
    with True b show ?thesis by (simp add: pb_parked_def fun_eq_iff)
  next
    case False
    with pop have "ms = pb_parked b c" "b' = om_del c b" by (simp_all add: pb_pop_def pb_parked_def)
    with b concat_om_del[OF b, of c] show ?thesis by (simp add: pb_parked_def pb_all_def fun_eq_iff)
  qed
next
  fix b :: pending_buffer and c m
  assume b: "om_wf b"
  from concat_om_set[OF b, of c "[m]"] b
  show "om_wf (pb_push c m b) \<and> pb_parked (pb_push c m b) = (pb_parked b)(c := pb_parked b c @ [m])
      \<and> mset (pb_all (pb_push c m b)) = add_mset m (mset (pb_all b))"
    by (auto simp: pb_push_def pb_parked_def pb_all_def fun_eq_iff)
next
  fix b :: pending_buffer and m
  assume b: "om_wf b"
  have parked: "m \<in> set (pb_parked b c) \<longleftrightarrow> (\<exists>ms. om_get b c = Some ms \<and> m \<in> set ms)" for c
    by (cases "om_get b c") (simp_all add: pb_parked_def)
  have "m \<in> set (pb_all b) \<longleftrightarrow> (\<exists>k ms. om_get b k = Some ms \<and> m \<in> set ms)"
    unfolding om_mem_iff[OF b, symmetric] pb_all_def by force
  also have "\<dots> \<longleftrightarrow> (\<exists>c. m \<in> set (pb_parked b c))"
    using parked by blast
  finally show "m \<in> set (pb_all b) \<longleftrightarrow> (\<exists>c. m \<in> set (pb_parked b c))" .
qed

end
