(* ===== verification/Ssp_Model.thy ===== *)
theory Ssp_Model
  imports Abstract_Model Pending_Buffer
begin

text \<open>
  \<open>server/ssp_model.cpp\<close>: the stale-synchronous model.  A Get of a worker more than
  \<open>staleness_\<close> iterations ahead of the slowest is parked until the slowest has come near
  enough.  \<open>ssp_step\<close> is the table together with workers that wait for the answer of a Get
  before they go on, as the client tables do; bounded staleness, progress and the absence of
  deadlock are proved for it.
\<close>

record 'v ssp_model =
  ssp_id :: u32
  staleness :: u32
  ssp_storage :: "'v storage"
  ssp_tracker :: progress_tracker
  ssp_buffer :: pending_buffer

definition ssp_new :: "u32 \<Rightarrow> 'v storage \<Rightarrow> int \<Rightarrow> progress_tracker \<Rightarrow> 'v ssp_model" where
  "ssp_new mid st stale pt =
     \<lparr>ssp_id = mid, staleness = to_u32 stale, ssp_storage = st, ssp_tracker = pt, ssp_buffer = []\<rparr>"

definition ssp_clock :: "'v val_type \<Rightarrow> 'v ssp_model handler" where
  "ssp_clock V msg s =
     bind_res (advance (ssp_tracker s) (msg_sender msg)) (\<lambda>(pt, updated_min_clock).
       let s = s\<lparr>ssp_tracker := pt\<rparr>
       in if updated_min_clock \<noteq> -1 then
            (let (reqs, buf) = pb_pop updated_min_clock (ssp_buffer s)
             in bind_res (answer_all V reqs (ssp_storage s)) (\<lambda>(st, replies).
                  Inr (s\<lparr>ssp_buffer := buf, ssp_storage := finish_iter st\<rparr>, replies)))
          else Inr (s, []))"

definition ssp_add :: "'v val_type \<Rightarrow> 'v ssp_model handler" where
  "ssp_add V msg s =
     bind_res (storage_add V msg (ssp_storage s)) (\<lambda>st. Inr (s\<lparr>ssp_storage := st\<rparr>, []))"

text \<open>
  \<open>progress\<close> and \<open>min_clock\<close> are \<open>int\<close>, \<open>staleness_\<close> is \<open>uint32_t\<close>: both the comparison
  and the subtraction are done in unsigned arithmetic.
\<close>

definition too_far :: "int \<Rightarrow> int \<Rightarrow> u32 \<Rightarrow> bool" where
  "too_far progress mc stale \<longleftrightarrow> to_u32 mc + stale < to_u32 progress"

definition release_clock :: "int \<Rightarrow> u32 \<Rightarrow> int" where
  "release_clock progress stale = to_i32 (to_u32 progress - stale)"

definition ssp_get :: "'v val_type \<Rightarrow> 'v ssp_model handler" where
  "ssp_get V msg s =
     check_that (check_thread_valid (ssp_tracker s) (msg_sender msg)) (Check_failed ''SSPModel::Get'')
     (bind_res (get_progress (ssp_tracker s) (msg_sender msg)) (\<lambda>progress.
       if too_far progress (get_min_clock (ssp_tracker s)) (staleness s)
       then Inr (s\<lparr>ssp_buffer := pb_push (release_clock progress (staleness s)) msg (ssp_buffer s)\<rparr>, [])
       else bind_res (storage_get V msg (ssp_storage s)) (\<lambda>(reply, st).
              Inr (s\<lparr>ssp_storage := st\<rparr>, [reply]))))"

definition ssp_get_progress :: "int \<Rightarrow> 'v ssp_model \<Rightarrow> int res" where
  "ssp_get_progress tid s = get_progress (ssp_tracker s) tid"

definition ssp_get_pending_size :: "int \<Rightarrow> 'v ssp_model \<Rightarrow> int \<times> 'v ssp_model" where
  "ssp_get_pending_size progress s =
     (let (n, buf) = pb_size progress (ssp_buffer s) in (n, s\<lparr>ssp_buffer := buf\<rparr>))"

definition ssp_reset_worker :: "meta \<Rightarrow> 'v ssp_model handler" where
  "ssp_reset_worker junk msg s =
     bind_res (reset_tracker ''SSPModel::ResetWorker'' msg (ssp_tracker s)) (\<lambda>pt.
       Inr (s\<lparr>ssp_tracker := pt\<rparr>, [reset_reply junk (ssp_id s) msg]))"

section \<open>The unsigned arithmetic is exact\<close>

text \<open>The constructor takes \<open>int staleness\<close>; a staleness that was not negative is below 2^31.\<close>

definition sane_staleness :: "u32 \<Rightarrow> bool" where
  "sane_staleness stale \<longleftrightarrow> uint stale < 2147483648"

lemma uint_add_stale:
  assumes "sane_staleness stale" "0 \<le> mc" "mc < 2147483648"
  shows "uint (to_u32 mc + stale) = mc + uint stale"
  using assms by (simp add: uint_plus_if' uint_to_u32 sane_staleness_def)

lemma too_far_iff:
  assumes "sane_staleness stale" "0 \<le> mc" "mc < 2147483648" "0 \<le> p" "p < 2147483648"
  shows "too_far p mc stale \<longleftrightarrow> mc + uint stale < p"
  using assms by (simp add: too_far_def word_less_def uint_add_stale uint_to_u32)

lemma release_clock_eq:
  assumes "0 \<le> p" "p < 2147483648" "uint stale \<le> p"
  shows "release_clock p stale = p - uint stale"
proof -
  have "uint (to_u32 p - stale) = p - uint stale"
    using assms by (simp add: uint_sub_if' uint_to_u32)
  moreover have "p - uint stale < 2147483648"
    using assms(2) uint_ge_0[of stale] by linarith
  ultimately show ?thesis
    using assms unfolding release_clock_def by (subst to_i32_eq_uint) simp_all
qed

section \<open>The contract\<close>

definition ssp_inv :: "'v ssp_model \<Rightarrow> bool" where
  "ssp_inv s \<longleftrightarrow> pt_inv (ssp_tracker s) \<and> storage_inv (ssp_storage s) \<and> om_wf (ssp_buffer s)"

abbreviation ssp_pending :: "'v ssp_model \<Rightarrow> message list" where
  "ssp_pending s \<equiv> pb_all (ssp_buffer s)"

lemma ssp_clock_cases:
  assumes "ssp_clock V m s = Inr (s', rs)"
  obtains pt where "advance (ssp_tracker s) (msg_sender m) = Inr (pt, -1)" "s' = s\<lparr>ssp_tracker := pt\<rparr>" "rs = []"
  | pt mc reqs buf st where "advance (ssp_tracker s) (msg_sender m) = Inr (pt, mc)" "mc \<noteq> -1"
      "pb_pop mc (ssp_buffer s) = (reqs, buf)" "answer_all V reqs (ssp_storage s) = Inr (st, rs)"
      "s' = s\<lparr>ssp_tracker := pt, ssp_buffer := buf, ssp_storage := finish_iter st\<rparr>"
proof -
  obtain pt mc where a: "advance (ssp_tracker s) (msg_sender m) = Inr (pt, mc)"
    using assms by (auto simp: ssp_clock_def res_simps)
  show thesis
  proof (cases "mc = -1")
    case True
    with a assms that(1) show thesis by (simp add: ssp_clock_def Let_def)
  next
    case False
    obtain reqs buf where p: "pb_pop mc (ssp_buffer s) = (reqs, buf)" by force
    with a False assms obtain st where "answer_all V reqs (ssp_storage s) = Inr (st, rs)"
      "s' = s\<lparr>ssp_tracker := pt, ssp_buffer := buf, ssp_storage := finish_iter st\<rparr>"
      by (auto simp: ssp_clock_def Let_def res_simps)
    with a False p that(2) show thesis by blast
  qed
qed

lemma ssp_get_cases:
  assumes "ssp_get V m s = Inr (s', rs)"
  obtains p where "om_get (progresses (ssp_tracker s)) (msg_sender m) = Some p"
      "too_far p (min_clock (ssp_tracker s)) (staleness s)"
      "s' = s\<lparr>ssp_buffer := pb_push (release_clock p (staleness s)) m (ssp_buffer s)\<rparr>" "rs = []"
  | p reply st where "om_get (progresses (ssp_tracker s)) (msg_sender m) = Some p"
      "\<not> too_far p (min_clock (ssp_tracker s)) (staleness s)"
      "storage_get V m (ssp_storage s) = Inr (reply, st)" "s' = s\<lparr>ssp_storage := st\<rparr>" "rs = [reply]"
  using assms by (auto simp: ssp_get_def res_simps get_min_clock_def split: if_splits)

lemma ssp_add_iff:
  "ssp_add V m s = Inr (s', rs) \<longleftrightarrow>
     (\<exists>st. storage_add V m (ssp_storage s) = Inr st \<and> s' = s\<lparr>ssp_storage := st\<rparr> \<and> rs = [])"
  by (auto simp: ssp_add_def res_simps)

context val_type
begin

lemma ssp_consistency_model:
  "consistency_model (ssp_clock V) (ssp_add V) (ssp_get V) (ssp_reset_worker junk) ssp_tracker ssp_pending ssp_inv"
proof unfold_locales
  fix s :: "'v ssp_model" and m s' rs
  assume s: "ssp_inv s" and c: "ssp_clock V m s = Inr (s', rs)"
  from c show "ssp_inv s' \<and> get_ids rs + ask_ids (ssp_pending s') = ask_ids (ssp_pending s)
      \<and> (\<exists>r. advance (ssp_tracker s) (msg_sender m) = Inr (ssp_tracker s', r))"
  proof (cases rule: ssp_clock_cases)
    case (1 pt)
    then show ?thesis using s by (auto simp: ssp_inv_def intro: advance_inv)
  next
    case (2 pt mc reqs buf st)
    have b: "om_wf buf" "mset (ssp_pending s) = mset reqs + mset (pb_all buf)"
      using pb.pop_law[OF _ 2(3)] s by (simp_all add: ssp_inv_def)
    have "ask_ids (ssp_pending s) = ask_ids (reqs @ pb_all buf)"
      by (rule ask_ids_mset) (simp add: b(2))
    moreover have "storage_inv st" "pt_inv pt"
      using s answer_all_answers[OF val_type_axioms _ 2(4)] advance_inv[OF _ 2(1)] by (auto simp: ssp_inv_def)
    ultimately show ?thesis
      using 2(1,5) b(1) answer_all_get_ids[OF 2(4)] by (simp add: ssp_inv_def)
  qed
next
  fix s :: "'v ssp_model" and m s' rs
  assume "ssp_inv s" "ssp_add V m s = Inr (s', rs)"
  then show "ssp_inv s' \<and> rs = [] \<and> ssp_pending s' = ssp_pending s \<and> ssp_tracker s' = ssp_tracker s"
    using storage_add_inv[OF val_type_axioms] by (auto simp: ssp_add_iff ssp_inv_def)
next
  fix s :: "'v ssp_model" and m s' rs
  assume s: "ssp_inv s" "msg_flag m = kGet" and g: "ssp_get V m s = Inr (s', rs)"
  from g show "ssp_inv s' \<and> get_ids rs + ask_ids (ssp_pending s') = add_mset (request_id m) (ask_ids (ssp_pending s))
      \<and> ssp_tracker s' = ssp_tracker s"
  proof (cases rule: ssp_get_cases)
    case (1 p)
    let ?b = "pb_push (release_clock p (staleness s)) m (ssp_buffer s)"
    have b: "om_wf ?b" "mset (pb_all ?b) = add_mset m (mset (ssp_pending s))"
      using pb.push_law s by (auto simp: ssp_inv_def)
    have "ask_ids (pb_all ?b) = ask_ids (m # ssp_pending s)"
      by (rule ask_ids_mset) (simp add: b(2))
    with 1 s b(1) show ?thesis by (simp add: ssp_inv_def)
  next
    case (2 p reply st)
    then have "storage_inv st"
      using s storage_get_inv(1)[OF val_type_axioms] by (auto simp: ssp_inv_def)
    with 2 s storage_get_reply(1,2)[OF 2(3)] show ?thesis by (simp add: ssp_inv_def)
  qed
next
  fix s :: "'v ssp_model" and m s' rs
  assume "ssp_inv s" "ssp_reset_worker junk m s = Inr (s', rs)"
  then show "ssp_inv s' \<and> get_ids rs = {#} \<and> ssp_pending s' = ssp_pending s
      \<and> ssp_tracker s' = pt_init (keys_of (data_of m ! 0)) (ssp_tracker s)"
    by (auto simp: ssp_reset_worker_def ssp_inv_def res_simps pt_init_inv)
qed (simp add: ssp_inv_def)

end

interpretation ssp_u32: consistency_model "ssp_clock u32_val" "ssp_add u32_val" "ssp_get u32_val"
  "ssp_reset_worker junk" ssp_tracker ssp_pending ssp_inv
  by (rule u32_val.ssp_consistency_model)

interpretation ssp_float: consistency_model "ssp_clock (float_val fadd)" "ssp_add (float_val fadd)"
  "ssp_get (float_val fadd)" "ssp_reset_worker junk" ssp_tracker ssp_pending ssp_inv
  by (rule float_val.ssp_consistency_model)

section \<open>The table with its workers\<close>

text \<open>
  A configuration is the model, the workers that wait for an answer, and the Adds received
  so far with the iteration of their sender.  A waiting worker sends nothing; it stops waiting
  when a reply is addressed to it.
\<close>

type_synonym 'v ssp_config = "'v ssp_model \<times> int set \<times> add_log"

inductive ssp_step :: "'v val_type \<Rightarrow> 'v ssp_config \<Rightarrow> message list \<Rightarrow> 'v ssp_config \<Rightarrow> bool"
  for V :: "'v val_type"
where
  clock: "msg_sender m \<notin> B \<Longrightarrow> ssp_clock V m s = Inr (s', rs) \<Longrightarrow>
     ssp_step V (s, B, log) rs (s', B - set (map msg_recver rs), log)"
| add: "msg_sender m \<notin> B \<Longrightarrow> get_progress (ssp_tracker s) (msg_sender m) = Inr p \<Longrightarrow>
     ssp_add V m s = Inr (s', rs) \<Longrightarrow> ssp_step V (s, B, log) rs (s', B, log @ [(p, m)])"
| get: "msg_sender m \<notin> B \<Longrightarrow> msg_flag m = kGet \<Longrightarrow> good_get (ssp_storage s) m \<Longrightarrow>
     ssp_get V m s = Inr (s', rs) \<Longrightarrow>
     ssp_step V (s, B, log) rs (s', insert (msg_sender m) B - set (map msg_recver rs), log)"

inductive ssp_run :: "'v val_type \<Rightarrow> 'v ssp_config \<Rightarrow> 'v ssp_config \<Rightarrow> bool"
  for V :: "'v val_type"
where
  stay: "ssp_run V c c"
| step: "ssp_run V c c' \<Longrightarrow> ssp_step V c' rs c'' \<Longrightarrow> ssp_run V c c''"

inductive_cases ssp_stepE [elim]: "ssp_step V (s, B, log) rs (s', B', log')"

text \<open>A table that has just been set up: nobody waits and nothing is parked.\<close>

definition ssp_fresh :: "'v ssp_model \<Rightarrow> bool" where
  "ssp_fresh s \<longleftrightarrow> ssp_inv s \<and> ssp_buffer s = [] \<and> sane_staleness (staleness s)"

text \<open>
  The invariant of a run: every parked request was made \<open>staleness_\<close> iterations after the
  clock it waits for, its sender waits, and that clock is still to come.
\<close>

definition parked_ok :: "'v ssp_model \<Rightarrow> int set \<Rightarrow> int \<Rightarrow> message \<Rightarrow> bool" where
  "parked_ok s B k m \<longleftrightarrow> min_clock (ssp_tracker s) < k \<and> msg_sender m \<in> B \<and> msg_flag m = kGet
     \<and> good_get (ssp_storage s) m
     \<and> om_get (progresses (ssp_tracker s)) (msg_sender m) = Some (k + uint (staleness s))"

definition ssp_run_inv :: "'v val_type \<Rightarrow> (u32 \<Rightarrow> 'v) \<Rightarrow> 'v ssp_config \<Rightarrow> bool" where
  "ssp_run_inv V f0 c \<longleftrightarrow> (case c of (s, B, log) \<Rightarrow>
     ssp_inv s \<and> sane_staleness (staleness s)
     \<and> storage_view V (ssp_storage s) = fold (msg_add V) (map snd log) f0
     \<and> (\<forall>k. \<forall>m \<in> set (pb_parked (ssp_buffer s) k). parked_ok s B k m)
     \<and> (\<forall>t \<in> B. \<exists>k. \<exists>m \<in> set (pb_parked (ssp_buffer s) k). msg_sender m = t))"

lemma ssp_run_invE:
  assumes "ssp_run_inv V f0 (s, B, log)"
  shows "ssp_inv s" "sane_staleness (staleness s)" "pt_inv (ssp_tracker s)" "storage_inv (ssp_storage s)"
    "om_wf (ssp_buffer s)" "storage_view V (ssp_storage s) = fold (msg_add V) (map snd log) f0"
    "m \<in> set (pb_parked (ssp_buffer s) k) \<Longrightarrow> parked_ok s B k m"
    "t \<in> B \<Longrightarrow> \<exists>k. \<exists>m \<in> set (pb_parked (ssp_buffer s) k). msg_sender m = t"
  using assms by (auto simp: ssp_run_inv_def ssp_inv_def)

lemma ssp_fresh_inv:
  "ssp_fresh s \<Longrightarrow> storage_view V (ssp_storage s) = f0 \<Longrightarrow> ssp_run_inv V f0 (s, {}, [])"
  by (simp add: ssp_fresh_def ssp_run_inv_def pb_parked_def)

lemma clock_bounds:
  assumes "pt_inv pt" "om_get (progresses pt) t = Some p"
  shows "0 \<le> p" "min_clock pt \<le> p" "p < 2147483648" "0 \<le> min_clock pt" "min_clock pt < 2147483648"
proof -
  show p: "0 \<le> p" "min_clock pt \<le> p" "p < 2147483648"
    using pt_invD[OF assms] by (simp_all add: in_i32_def)
  have "progresses pt \<noteq> []" using assms(2) by auto
  then show "0 \<le> min_clock pt" by (rule min_clock_nonneg[OF assms(1)])
  show "min_clock pt < 2147483648" using p by simp
qed

text \<open>A parked request survives the Clock of another worker, unless its clock has come.\<close>

lemma parked_ok_clock:
  assumes "pt_inv (ssp_tracker s)" "advance (ssp_tracker s) t = Inr (pt, r)" "t \<notin> B" "parked_ok s B k m"
    "min_clock pt \<noteq> k" "storage_serves st = storage_serves (ssp_storage s)" "msg_sender m \<in> B'"
  shows "parked_ok (s\<lparr>ssp_tracker := pt, ssp_buffer := buf, ssp_storage := st\<rparr>) B' k m"
proof -
  have "msg_sender m \<noteq> t" using assms(3,4) by (auto simp: parked_ok_def)
  moreover obtain p where "progresses pt = om_set t p (progresses (ssp_tracker s))"
    using advance_spec[OF assms(1,2)] by blast
  moreover have "min_clock pt < k"
    using min_clock_moves[OF assms(1,2)] assms(4,5) by (auto simp: parked_ok_def)
  ultimately show ?thesis
    using assms(4,6,7) by (simp add: parked_ok_def good_get_def)
qed

text \<open>What a released request looks like: it was asked exactly \<open>staleness_\<close> iterations ahead.\<close>

lemma ssp_run_clock:
  assumes V: "val_type V" and I: "ssp_run_inv V f0 (s, B, log)" and m: "msg_sender m \<notin> B"
    and c: "ssp_clock V m s = Inr (s', rs)"
  shows "ssp_run_inv V f0 (s', B - set (map msg_recver rs), log)
    \<and> list_all2 (answers V (storage_view V (ssp_storage s)))
        (if min_clock (ssp_tracker s') = min_clock (ssp_tracker s) then []
         else pb_parked (ssp_buffer s) (min_clock (ssp_tracker s'))) rs"
proof -
  note I' = ssp_run_invE[OF I]
  note keep = parked_ok_clock[OF I'(3) _ m]
  have inv': "ssp_inv s'"
    using consistency_model.clock_law[OF val_type.ssp_consistency_model[OF V] I'(1) c] by blast
  from c show ?thesis
  proof (cases rule: ssp_clock_cases)
    case (1 pt)
    have same: "min_clock pt = min_clock (ssp_tracker s)" by (rule advance_unmoved[OF I'(3) 1(1)])
    have s': "s\<lparr>ssp_tracker := pt, ssp_buffer := ssp_buffer s, ssp_storage := ssp_storage s\<rparr> = s'"
      using 1(2) by simp
    have "parked_ok s' B k q" if "q \<in> set (pb_parked (ssp_buffer s) k)" for k q
      using keep[OF 1(1) I'(7)[OF that], of "ssp_storage s" B "ssp_buffer s"] I'(7)[OF that] same
      unfolding s' by (auto simp: parked_ok_def)
    with I inv' 1 same show ?thesis by (simp add: ssp_run_inv_def)
  next
    case (2 pt mc reqs buf st)
    have mc: "mc = min_clock pt" "min_clock pt = min_clock (ssp_tracker s) + 1"
      using advance_moved[OF I'(3) 2(1,2)] by simp_all
    have p: "reqs = pb_parked (ssp_buffer s) mc" "pb_parked buf = (pb_parked (ssp_buffer s))(mc := [])"
      using pb.pop_law[OF I'(5) 2(3)] by simp_all
    note A = answer_all_answers[OF V I'(4) 2(4)]
    have rec: "set (map msg_recver rs) = msg_sender ` set reqs"
      using answer_all_recvers[OF 2(4)] by (metis list.set_map)
    have kept: "parked_ok s' (B - set (map msg_recver rs)) k q" if q: "q \<in> set (pb_parked buf k)" for k q
    proof -
      have k: "k \<noteq> mc" "q \<in> set (pb_parked (ssp_buffer s) k)" using q p(2) by (auto split: if_splits)
      note ok = I'(7)[OF k(2)]
      have "msg_sender q \<noteq> msg_sender r" if "r \<in> set reqs" for r
        using I'(7)[of r mc] that k(1) ok p(1) by (auto simp: parked_ok_def)
      then have "msg_sender q \<in> B - set (map msg_recver rs)"
        unfolding rec using ok by (auto simp: parked_ok_def)
      then show ?thesis
        using keep[OF 2(1) ok, of "finish_iter st"] k(1) A mc(1) 2(5) by simp
    qed
    have "\<exists>k. \<exists>q \<in> set (pb_parked buf k). msg_sender q = t" if t: "t \<in> B - set (map msg_recver rs)" for t
    proof -
      obtain k q where q: "q \<in> set (pb_parked (ssp_buffer s) k)" "msg_sender q = t"
        using I'(8) t by blast
      with t rec p(1) have "k \<noteq> mc" by auto
      with q p(2) show ?thesis by (intro exI[of _ k]) auto
    qed
    with kept inv' I A 2(5) mc p show ?thesis
      by (simp add: ssp_run_inv_def)
  qed
qed

lemma ssp_run_add:
  assumes V: "val_type V" and I: "ssp_run_inv V f0 (s, B, log)" and a: "ssp_add V m s = Inr (s', rs)"
  shows "ssp_run_inv V f0 (s', B, log @ [(p, m)])"
proof -
  note I' = ssp_run_invE[OF I]
  obtain st where st: "storage_add V m (ssp_storage s) = Inr st" "s' = s\<lparr>ssp_storage := st\<rparr>"
    using a by (auto simp: ssp_add_iff)
  note S = storage_add_inv[OF V I'(4) st(1)]
  have "parked_ok s' B k q" if "parked_ok s B k q" for k q
    using that S(2) st(2) by (simp add: parked_ok_def good_get_def)
  with I S(1) storage_add_view[OF V I'(4) st(1)] show ?thesis
    by (simp add: ssp_run_inv_def st(2) ssp_inv_def)
qed

lemma ssp_run_get:
  assumes V: "val_type V" and I: "ssp_run_inv V f0 (s, B, log)" and m: "msg_sender m \<notin> B" "msg_flag m = kGet"
    and good: "good_get (ssp_storage s) m" and g: "ssp_get V m s = Inr (s', rs)"
  shows "ssp_run_inv V f0 (s', insert (msg_sender m) B - set (map msg_recver rs), log)"
proof -
  note I' = ssp_run_invE[OF I]
  have inv': "ssp_inv s'"
    using consistency_model.get_law[OF val_type.ssp_consistency_model[OF V] I'(1) m(2) g] by blast
  from g show ?thesis
  proof (cases rule: ssp_get_cases)
    case (1 p)
    note b = clock_bounds[OF I'(3) 1(1)]
    let ?k = "release_clock p (staleness s)"
    have far: "min_clock (ssp_tracker s) + uint (staleness s) < p"
      using 1(2) too_far_iff[OF I'(2) b(4,5,1,3)] by simp
    then have k: "?k = p - uint (staleness s)"
      using release_clock_eq[OF b(1,3)] b(4) by simp
    have P: "pb_parked (ssp_buffer s') = (pb_parked (ssp_buffer s))(?k := pb_parked (ssp_buffer s) ?k @ [m])"
      using pb.push_law[OF I'(5)] 1(3) by simp
    have new: "parked_ok s' (insert (msg_sender m) B) ?k m"
      using 1 far k m(2) good by (simp add: parked_ok_def)
    have old: "parked_ok s' (insert (msg_sender m) B) k q" if "q \<in> set (pb_parked (ssp_buffer s) k)" for k q
      using I'(7)[OF that] 1(3) by (simp add: parked_ok_def)
    have "parked_ok s' (insert (msg_sender m) B) k q" if "q \<in> set (pb_parked (ssp_buffer s') k)" for k q
      using that new old unfolding P by (auto split: if_splits)
    moreover have "\<exists>k. \<exists>q \<in> set (pb_parked (ssp_buffer s') k). msg_sender q = t"
      if "t \<in> insert (msg_sender m) B" for t
    proof (cases "t = msg_sender m")
      case True
      then show ?thesis unfolding P by (intro exI[of _ ?k]) simp
    next
      case False
      with that obtain k q where "q \<in> set (pb_parked (ssp_buffer s) k)" "msg_sender q = t"
        using I'(8) by blast
      then show ?thesis unfolding P by (intro exI[of _ k]) auto
    qed
    ultimately show ?thesis
      using inv' I 1(3,4) by (simp add: ssp_run_inv_def)
  next
    case (2 p reply st)
    note S = storage_get_inv[OF V I'(4) 2(3)]
    have "msg_recver reply = msg_sender m"
      using storage_get_reply(1)[OF 2(3)] by (simp add: reply_id_def request_id_def)
    then have B: "insert (msg_sender m) B - set (map msg_recver rs) = B"
      using m(1) 2(5) by auto
    have "parked_ok s' B k q" if "parked_ok s B k q" for k q
      using that S(2) 2(4) by (simp add: parked_ok_def good_get_def)
    with inv' I S(3) show ?thesis
      unfolding B by (simp add: ssp_run_inv_def 2(4))
  qed
qed

lemma ssp_step_inv:
  assumes "val_type V" "ssp_step V c rs c'" "ssp_run_inv V f0 c"
  shows "ssp_run_inv V f0 c'"
  using assms(2,3)
proof (cases rule: ssp_step.cases)
  case (clock m B s s' log)
  then show ?thesis using ssp_run_clock[OF assms(1), of f0 s B log m s' rs] assms(3) by simp
next
  case (add m B s p s' log)
  then show ?thesis using ssp_run_add[OF assms(1), of f0 s B log m s' rs p] assms(3) by simp
next
  case (get m B s s' log)
  then show ?thesis using ssp_run_get[OF assms(1), of f0 s B log m s' rs] assms(3) by simp
qed

lemma ssp_run_inv_run:
  "ssp_run V c c' \<Longrightarrow> val_type V \<Longrightarrow> ssp_run_inv V f0 c \<Longrightarrow> ssp_run_inv V f0 c'"
  by (induction rule: ssp_run.induct) (auto intro: ssp_step_inv)

section \<open>Staleness, progress, deadlock\<close>

text \<open>Clocks and the log only grow, and an Add is never older than the smallest clock.\<close>

lemma ssp_step_grows:
  assumes "val_type V" "ssp_run_inv V f0 (s, B, log)" "ssp_step V (s, B, log) rs (s', B', log')"
  shows "min_clock (ssp_tracker s) \<le> min_clock (ssp_tracker s')" "staleness s' = staleness s"
    "\<exists>ext. log' = log @ ext \<and> (\<forall>im \<in> set ext. min_clock (ssp_tracker s) \<le> fst im)"
proof -
  note I = ssp_run_invE[OF assms(2)]
  have "min_clock (ssp_tracker s) \<le> min_clock (ssp_tracker s') \<and> staleness s' = staleness s
      \<and> (\<exists>ext. log' = log @ ext \<and> (\<forall>im \<in> set ext. min_clock (ssp_tracker s) \<le> fst im))"
    using assms(3)
  proof cases
    case (clock m)
    note L = consistency_model.clock_law[OF val_type.ssp_consistency_model[OF assms(1)] I(1) clock(4)]
    have "min_clock (ssp_tracker s) \<le> min_clock (ssp_tracker s')"
      using L min_clock_moves[OF I(3)] by fastforce
    moreover from clock(4) have "staleness s' = staleness s"
      by (cases rule: ssp_clock_cases) simp_all
    ultimately show ?thesis using clock(2) by simp
  next
    case (add m p)
    then show ?thesis
      using clock_bounds(2)[OF I(3)] by (auto simp: ssp_add_iff res_simps)
  next
    case (get m)
    from get(6) show ?thesis
      by (cases rule: ssp_get_cases) (simp_all add: get(2))
  qed
  then show "min_clock (ssp_tracker s) \<le> min_clock (ssp_tracker s')" "staleness s' = staleness s"
    "\<exists>ext. log' = log @ ext \<and> (\<forall>im \<in> set ext. min_clock (ssp_tracker s) \<le> fst im)"
    by blast+
qed

lemma ssp_run_grows:
  assumes "ssp_run V c c'" and V: "val_type V" and I: "ssp_run_inv V f0 c"
  shows "min_clock (ssp_tracker (fst c)) \<le> min_clock (ssp_tracker (fst c'))
    \<and> staleness (fst c') = staleness (fst c)
    \<and> (\<exists>ext. snd (snd c') = snd (snd c) @ ext \<and> (\<forall>im \<in> set ext. min_clock (ssp_tracker (fst c)) \<le> fst im))"
  using assms(1,3)
proof (induction rule: ssp_run.induct)
  case (stay c)
  then show ?case by simp
next
  case (step c c' rs c'')
  obtain s' B' log' s'' B'' log'' where c: "c' = (s', B', log')" "c'' = (s'', B'', log'')"
    by (metis prod_cases3)
  have I': "ssp_run_inv V f0 c'" by (rule ssp_run_inv_run[OF step.hyps(1) V step.prems])
  note G = ssp_step_grows[OF V I'[unfolded c] step.hyps(2)[unfolded c]]
  obtain ext where "log'' = log' @ ext" "\<forall>im \<in> set ext. min_clock (ssp_tracker s') \<le> fst im"
    using G(3) by blast
  moreover obtain ext' where "log' = snd (snd c) @ ext'"
    "\<forall>im \<in> set ext'. min_clock (ssp_tracker (fst c)) \<le> fst im"
    "min_clock (ssp_tracker (fst c)) \<le> min_clock (ssp_tracker s')" "staleness s' = staleness (fst c)"
    using step.IH[OF step.prems] c by auto
  ultimately show ?case
    using G(1,2) c by (auto intro!: exI[of _ "ext' @ ext"])
qed

text \<open>Every reply, at the moment it is sent.\<close>

lemma ssp_step_reply:
  assumes V: "val_type V" and I: "ssp_run_inv V f0 (s, B, log)"
    and st: "ssp_step V (s, B, log) rs (s', B', log')" and r: "r \<in> set rs"
  shows "\<exists>req p. answers V (fold (msg_add V) (map snd log') f0) req r
    \<and> get_progress (ssp_tracker s') (msg_recver r) = Inr p
    \<and> p \<le> min_clock (ssp_tracker s') + uint (staleness s')"
proof -
  note I' = ssp_run_invE[OF I]
  from st show ?thesis
  proof cases
    case (clock m)
    let ?mc = "min_clock (ssp_tracker s')"
    have L: "list_all2 (answers V (storage_view V (ssp_storage s)))
        (if ?mc = min_clock (ssp_tracker s) then [] else pb_parked (ssp_buffer s) ?mc) rs"
      using ssp_run_clock[OF V I clock(3,4)] by blast
    with r obtain q where q: "q \<in> set (pb_parked (ssp_buffer s) ?mc)"
      and a: "answers V (storage_view V (ssp_storage s)) q r"
      by (auto split: if_splits dest: list_all2_set2)
    note ok = I'(7)[OF q]
    obtain u where adv: "advance (ssp_tracker s) (msg_sender m) = Inr (ssp_tracker s', u)"
      using consistency_model.clock_law[OF val_type.ssp_consistency_model[OF V] I'(1) clock(4)] by blast
    obtain p where "progresses (ssp_tracker s') = om_set (msg_sender m) p (progresses (ssp_tracker s))"
      using advance_spec[OF I'(3) adv] by blast
    moreover have "msg_sender q \<noteq> msg_sender m" using clock(3) ok by (auto simp: parked_ok_def)
    moreover have "msg_recver r = msg_sender q"
      using a by (simp add: answers_def reply_id_def request_id_def)
    moreover have "staleness s' = staleness s" using ssp_step_grows(2)[OF V I st] .
    ultimately show ?thesis
      using ok a clock(2) I'(6)
      by (intro exI[of _ q] exI[of _ "?mc + uint (staleness s')"]) (simp add: parked_ok_def res_simps)
  next
    case (add m p)
    then show ?thesis using r by (auto simp: ssp_add_iff)
  next
    case (get m)
    from get(6) show ?thesis
    proof (cases rule: ssp_get_cases)
      case (1 p)
      then show ?thesis using r by simp
    next
      case (2 p reply st)
      note b = clock_bounds[OF I'(3) 2(1)]
      have near: "p \<le> min_clock (ssp_tracker s) + uint (staleness s)"
        using 2(2) too_far_iff[OF I'(2) b(4,5,1,3)] by simp
      have a: "answers V (storage_view V (ssp_storage s)) m r"
        using storage_get_answers[OF V I'(4) 2(3)] r 2(5) by simp
      then have "msg_recver r = msg_sender m"
        by (simp add: answers_def reply_id_def request_id_def)
      with near a 2(1,4) get(2) I'(6) show ?thesis
        by (intro exI[of _ m] exI[of _ p]) (simp add: res_simps)
    qed
  qed
qed

text \<open>C1. Bounded staleness.  Whenever the stale-synchronous table answers a worker that is in
  iteration \<open>p\<close>, the answer holds the initial values plus all Adds received so far, the slowest
  worker is at least in iteration \<open>p - staleness_\<close>, and no Add of an iteration before that can
  arrive later: the worker misses no update older than \<open>staleness_\<close> iterations.\<close>

theorem ssp_bounded_staleness:
  assumes "val_type V" "ssp_fresh s0" "storage_view V (ssp_storage s0) = f0"
    "ssp_run V (s0, {}, []) (s, B, log)" "ssp_step V (s, B, log) rs (s', B', log')" "r \<in> set rs"
  shows "\<exists>req p. answers V (fold (msg_add V) (map snd log') f0) req r
    \<and> get_progress (ssp_tracker s') (msg_recver r) = Inr p
    \<and> p \<le> min_clock (ssp_tracker s') + uint (staleness s')
    \<and> (\<forall>s'' B'' log''. ssp_run V (s', B', log') (s'', B'', log'') \<longrightarrow>
         (\<forall>im \<in> set (drop (length log') log''). p - uint (staleness s') \<le> fst im))"
proof -
  have I: "ssp_run_inv V f0 (s, B, log)"
    by (rule ssp_run_inv_run[OF assms(4,1) ssp_fresh_inv[OF assms(2,3)]])
  note I2 = ssp_step_inv[OF assms(1,5) I]
  obtain req p where a: "answers V (fold (msg_add V) (map snd log') f0) req r"
    "get_progress (ssp_tracker s') (msg_recver r) = Inr p"
    and p: "p \<le> min_clock (ssp_tracker s') + uint (staleness s')"
    using ssp_step_reply[OF assms(1) I assms(5,6)] by blast
  have "p - uint (staleness s') \<le> fst im"
    if "ssp_run V (s', B', log') (s'', B'', log'')" "im \<in> set (drop (length log') log'')" for s'' B'' log'' im
    using ssp_run_grows[OF that(1) assms(1) I2] that(2) p by fastforce
  with a p show ?thesis by blast
qed

text \<open>C2. No deadlock.  In every run some worker in the smallest iteration is not waiting, its
  Clock is accepted (unless its clock is the largest \<open>int\<close>), and a worker that waits is more than
  \<open>staleness_\<close> iterations ahead of it.\<close>

theorem ssp_no_deadlock:
  assumes "val_type V" "ssp_fresh s0" "ssp_run V (s0, {}, []) (s, B, log)" "progresses (ssp_tracker s) \<noteq> []"
  shows "(\<exists>t. t \<notin> B \<and> get_progress (ssp_tracker s) t = Inr (min_clock (ssp_tracker s))
      \<and> (in_i32 (min_clock (ssp_tracker s) + 1) \<longrightarrow> (\<forall>m. msg_sender m = t \<longrightarrow> is_ok (ssp_clock V m s))))
    \<and> (\<forall>u \<in> B. \<exists>p. get_progress (ssp_tracker s) u = Inr p \<and> min_clock (ssp_tracker s) + uint (staleness s) < p)"
proof -
  have I: "ssp_run_inv V (storage_view V (ssp_storage s0)) (s, B, log)"
    by (rule ssp_run_inv_run[OF assms(3,1) ssp_fresh_inv[OF assms(2) refl]])
  note I' = ssp_run_invE[OF I]
  have waits: "\<exists>p. get_progress (ssp_tracker s) u = Inr p \<and> min_clock (ssp_tracker s) + uint (staleness s) < p"
    if "u \<in> B" for u
    using I'(8)[OF that] I'(7) by (fastforce simp: parked_ok_def res_simps)
  obtain t where t: "om_get (progresses (ssp_tracker s)) t = Some (min_clock (ssp_tracker s))"
    using I'(3) assms(4) by (auto simp: pt_inv_def)
  have "0 \<le> uint (staleness s)" by simp
  with waits[of t] t have free: "t \<notin> B" by (fastforce simp: res_simps)
  have "is_ok (ssp_clock V m s)" if m: "msg_sender m = t" and fits: "in_i32 (min_clock (ssp_tracker s) + 1)" for m
  proof -
    obtain pt r where adv: "advance (ssp_tracker s) t = Inr (pt, r)"
      using advance_total[OF I'(3) t fits] by blast
    obtain reqs buf where pop: "pb_pop r (ssp_buffer s) = (reqs, buf)" by force
    have "list_all (good_get (ssp_storage s)) reqs"
      using pb.pop_law[OF I'(5) pop] I'(7) by (auto simp: list_all_iff parked_ok_def)
    from answer_all_total[OF assms(1) I'(4) this] show ?thesis
      using adv pop m by (auto simp: ssp_clock_def is_ok_iff Let_def)
  qed
  moreover have "get_progress (ssp_tracker s) t = Inr (min_clock (ssp_tracker s))"
    using t by (simp add: res_simps)
  ultimately show ?thesis
    using free waits by blast
qed

section \<open>A run of two workers\<close>

definition ssp_demo :: "int \<Rightarrow> int \<Rightarrow> int \<Rightarrow> pending_buffer \<Rightarrow> u32 ssp_model" where
  "ssp_demo p q mc buf =
     \<lparr>ssp_id = 0, staleness = 0, ssp_storage = demo_storage [0, 0],
      ssp_tracker = \<lparr>progresses = [(100, p), (101, q)], min_clock = mc\<rparr>, ssp_buffer = buf\<rparr>"

definition ssp_demo_reply :: message where
  "ssp_demo_reply = \<lparr>meta_of = meta_of demo_get\<lparr>sender := 0, recver := 100\<rparr>,
      data_of = [bytes_of_keys [1], bytes_of_vals u32_val [0]]\<rparr>"

lemma ssp_demo_fresh: "ssp_fresh (ssp_demo 0 0 0 [])"
  by (simp add: ssp_fresh_def ssp_inv_def ssp_demo_def demo_storage_inv demo_tracker_inv sane_staleness_def)

lemma ssp_demo_view: "storage_view u32_val (ssp_storage (ssp_demo p q mc buf)) = (\<lambda>_. 0)"
  by (simp add: ssp_demo_def demo_storage_zero)

lemma ssp_demo_run: "ssp_run u32_val (ssp_demo 0 0 0 [], {}, []) (ssp_demo 1 0 0 [(1, [demo_get])], {100}, [])"
proof -
  have 1: "ssp_clock u32_val (demo_msg kClock 100 []) (ssp_demo 0 0 0 []) = Inr (ssp_demo 1 0 0 [], [])"
    by code_simp
  have 2: "ssp_get u32_val demo_get (ssp_demo 1 0 0 []) = Inr (ssp_demo 1 0 0 [(1, [demo_get])], [])"
    by code_simp
  have "good_get (ssp_storage (ssp_demo 1 0 0 [])) demo_get"
    by (simp add: ssp_demo_def demo_good_get)
  then have "ssp_step u32_val (ssp_demo 1 0 0 [], {}, []) [] (ssp_demo 1 0 0 [(1, [demo_get])], {100}, [])"
    using ssp_step.get[OF _ _ _ 2, of "{}" "[]"] by (simp add: demo_msg_def)
  moreover have "ssp_step u32_val (ssp_demo 0 0 0 [], {}, []) [] (ssp_demo 1 0 0 [], {}, [])"
    using ssp_step.clock[OF _ 1, of "{}" "[]"] by simp
  ultimately show ?thesis
    by (blast intro: ssp_run.intros)
qed

lemma ssp_demo_release:
  "ssp_step u32_val (ssp_demo 1 0 0 [(1, [demo_get])], {100}, []) [ssp_demo_reply] (ssp_demo 1 1 1 [], {}, [])"
proof -
  have 3: "ssp_clock u32_val (demo_msg kClock 101 []) (ssp_demo 1 0 0 [(1, [demo_get])])
      = Inr (ssp_demo 1 1 1 [], [ssp_demo_reply])"
    by code_simp
  show ?thesis
    using ssp_step.clock[OF _ 3, of "{100}" "[]"] by (simp add: demo_msg_def ssp_demo_reply_def)
qed

lemma ssp_bounded_staleness_witness:
  "\<exists>req p. answers u32_val (\<lambda>_. 0) req ssp_demo_reply \<and> msg_recver ssp_demo_reply = 100
     \<and> get_progress (ssp_tracker (ssp_demo 1 1 1 [])) 100 = Inr p \<and> p \<le> 1"
  using ssp_bounded_staleness[OF u32_val.val_type_axioms ssp_demo_fresh ssp_demo_view ssp_demo_run
      ssp_demo_release, of ssp_demo_reply]
  by (auto simp: ssp_demo_reply_def ssp_demo_def)

lemma ssp_no_deadlock_witness:
  "\<exists>t. t \<notin> {100} \<and> get_progress (ssp_tracker (ssp_demo 1 0 0 [(1, [demo_get])])) t = Inr 0"
  using ssp_no_deadlock[OF u32_val.val_type_axioms ssp_demo_fresh ssp_demo_run]
  by (auto simp: ssp_demo_def)

end
