(* ===== verification/Sparse_Recorder.thy ===== *)
theory Sparse_Recorder
  imports Messages Shared_Array
begin

text \<open>
  \<open>server/sparsessp\<close>: the recorders of the sparse stale-synchronous model.  A worker announces
  the keys of its next Gets; a recorder counts, per iteration and key, the workers that still
  have to finish that iteration with that key, and holds back a Get that runs ahead while one of
  its keys is so counted.  Both recorders are modelled, the one over hash maps and the one over
  preallocated vectors.  The hash maps are never iterated over; they are association lists here.
  A \<open>DCHECK\<close> is compiled only in debug builds: \<open>debug\<close> is a parameter.
\<close>

section \<open>What the recorders share\<close>

definition dcheck :: "bool \<Rightarrow> bool \<Rightarrow> failure \<Rightarrow> 'a res \<Rightarrow> 'a res" where
  "dcheck debug b e k = (if debug \<and> \<not> b then Inl e else k)"

text \<open>\<open>SArray<Key>(msg.data[0])\<close>\<close>

definition msg_keys :: "message \<Rightarrow> u32 list res" where
  "msg_keys msg = (case data_of msg of [] \<Rightarrow> Inl Out_of_bounds | d # _ \<Rightarrow> Inr (keys_of d))"

text \<open>How a worker's own Get of iteration \<open>v\<close> is treated; all of it is unsigned arithmetic.\<close>

datatype own_get = By_staleness | By_speculation | Too_fast | Bad_version

definition own_get_case :: "u32 \<Rightarrow> int \<Rightarrow> u32 \<Rightarrow> u32 \<Rightarrow> own_get" where
  "own_get_case v mc stale spec =
     (if \<not> (to_u32 mc \<le> v \<and> v < to_u32 mc + stale + spec + 2) then Bad_version
      else if v \<le> stale + to_u32 mc then By_staleness
      else if v \<le> to_u32 mc + stale + spec then By_speculation
      else if v = to_u32 mc + stale + spec + 1 then Too_fast
      else Bad_version)"

definition last_checked :: "message \<Rightarrow> u32 \<Rightarrow> int" where
  "last_checked msg stale = to_i32 (msg_version msg - stale - 1)"

type_synonym key_queues = "(int, (int \<times> u32 list) list) omap"
type_synonym msg_queues = "(int, (int \<times> message) list) omap"

definition queue_push :: "int \<Rightarrow> 'a \<Rightarrow> (int, 'a list) omap \<Rightarrow> (int, 'a list) omap" where
  "queue_push t x qs = om_set t (get_or [] (om_get qs t) @ [x]) qs"

definition queue_front :: "int \<Rightarrow> (int, 'a list) omap \<Rightarrow> 'a option" where
  "queue_front t qs = (case get_or [] (om_get qs t) of [] \<Rightarrow> None | x # _ \<Rightarrow> Some x)"

definition queue_pop :: "int \<Rightarrow> (int, 'a list) omap \<Rightarrow> (int, 'a list) omap" where
  "queue_pop t qs = om_set t (tl (get_or [] (om_get qs t))) qs"

section \<open>\<open>UnorderedMapSparseSSPRecorder\<close>\<close>

type_synonym key_records = "(u32, u32 \<times> message list) omap"
type_synonym map_records = "(int, key_records) omap"

record map_recorder =
  mr_staleness :: u32
  mr_speculation :: u32
  mr_main :: map_records
  mr_future_keys :: key_queues
  mr_future_msgs :: msg_queues
  mr_too_fast :: "message list"

definition map_recorder_new :: "u32 \<Rightarrow> u32 \<Rightarrow> map_recorder" where
  "map_recorder_new stale spec =
     \<lparr>mr_staleness = stale, mr_speculation = spec, mr_main = [], mr_future_keys = [],
      mr_future_msgs = [], mr_too_fast = []\<rparr>"

fun first_recorded :: "key_records \<Rightarrow> u32 list \<Rightarrow> u32 option" where
  "first_recorded recs [] = None"
| "first_recorded recs (key # keys) =
     (if om_get recs key \<noteq> None then Some key else first_recorded recs keys)"

fun map_conflict_loop :: "u32 list \<Rightarrow> int list \<Rightarrow> map_records \<Rightarrow> (int \<times> int) option \<times> map_records" where
  "map_conflict_loop keys [] main = (None, main)"
| "map_conflict_loop keys (v # vs) main =
     (let main = (if keys = [] then main else om_insert v [] main)
      in case first_recorded (get_or [] (om_get main v)) keys of
           Some key \<Rightarrow> (Some (to_i32 key, v), main)
         | None \<Rightarrow> map_conflict_loop keys vs main)"

definition map_has_conflict ::
  "u32 list \<Rightarrow> int \<Rightarrow> int \<Rightarrow> map_records \<Rightarrow> (int \<times> int) option \<times> map_records"
where
  "map_has_conflict keys begin_version end_version main =
     map_conflict_loop keys (rev [begin_version..end_version]) main"

definition map_append :: "int \<Rightarrow> u32 \<Rightarrow> message \<Rightarrow> map_records \<Rightarrow> map_records" where
  "map_append fv fk msg main =
     (let recs = get_or [] (om_get main fv); (n, ms) = get_or (0, []) (om_get recs fk)
      in om_set fv (om_set fk (n, ms @ [msg]) recs) main)"

text \<open>Held back at the conflicting key, or handed out: the code writes this out three times.\<close>

definition map_route ::
  "u32 \<Rightarrow> int \<Rightarrow> message \<Rightarrow> map_records \<times> message list \<Rightarrow> (map_records \<times> message list) res"
where
  "map_route stale min_clock msg = (\<lambda>(main, msgs).
     bind_res (msg_keys msg) (\<lambda>keys.
       case map_has_conflict keys min_clock (last_checked msg stale) main of
         (Some (fk, fv), main) \<Rightarrow> Inr (map_append fv (to_u32 fk) msg main, msgs)
       | (None, main) \<Rightarrow> Inr (main, msgs @ [msg])))"

definition map_remove_key ::
  "bool \<Rightarrow> int \<Rightarrow> u32 \<Rightarrow> map_records \<times> message list \<Rightarrow> (map_records \<times> message list) res"
where
  "map_remove_key debug v key = (\<lambda>(main, handled).
     (let recs = get_or [] (om_get main v)
      in dcheck debug (om_get recs key \<noteq> None) (Check_failed ''RemoveRecordAndGetNonConflictMsgs'')
           (let (n, ms) = get_or (0, []) (om_get recs key); n = n - 1
            in if n = 0 then Inr (om_set v (om_del key recs) main, handled @ ms)
               else Inr (om_set v (om_set key (n, ms) recs) main, handled))))"

definition map_remove_and_get ::
  "bool \<Rightarrow> int \<Rightarrow> int \<Rightarrow> u32 list \<Rightarrow> map_recorder \<Rightarrow> message list \<Rightarrow> (map_recorder \<times> message list) res"
where
  "map_remove_and_get debug v min_clock keys r msgs =
     dcheck debug (om_get (mr_main r) v \<noteq> None) (Check_failed ''RemoveRecordAndGetNonConflictMsgs'')
     (bind_res (fold_res (map_remove_key debug v) keys (mr_main r, [])) (\<lambda>(main, handled).
      bind_res (fold_res (map_route (mr_staleness r) min_clock) handled (main, msgs)) (\<lambda>(main, msgs).
        Inr (r\<lparr>mr_main := main\<rparr>, msgs))))"

definition map_blocked_here ::
  "bool \<Rightarrow> int \<Rightarrow> int \<Rightarrow> int \<Rightarrow> map_recorder \<Rightarrow> (map_recorder \<times> message list) res"
where
  "map_blocked_here debug progress t min_clock r =
     (case queue_front t (mr_future_keys r) of
        None \<Rightarrow> Inr (r, [])
      | Some (v, keys) \<Rightarrow>
          bind_res (as_i32 (progress - 1)) (\<lambda>previous.
            if v = previous then
              bind_res (map_remove_and_get debug previous min_clock keys r []) (\<lambda>(r, msgs).
                Inr (r\<lparr>mr_future_keys := queue_pop t (mr_future_keys r)\<rparr>, msgs))
            else Inr (r, [])))"

definition map_own_get ::
  "int \<Rightarrow> int \<Rightarrow> int \<Rightarrow> map_recorder \<times> message list \<Rightarrow> (map_recorder \<times> message list) res"
where
  "map_own_get progress t min_clock = (\<lambda>(r, msgs).
     (case queue_front t (mr_future_msgs r) of
        None \<Rightarrow> Inr (r, msgs)
      | Some (v, msg) \<Rightarrow>
          if v = progress then
            (let popped = r\<lparr>mr_future_msgs := queue_pop t (mr_future_msgs r)\<rparr>
             in case own_get_case (msg_version msg) min_clock (mr_staleness r) (mr_speculation r) of
                  By_staleness \<Rightarrow> Inr (popped, msgs @ [msg])
                | By_speculation \<Rightarrow>
                    bind_res (map_route (mr_staleness r) min_clock msg (mr_main r, msgs)) (\<lambda>(main, msgs).
                      Inr (popped\<lparr>mr_main := main\<rparr>, msgs))
                | Too_fast \<Rightarrow> Inr (popped\<lparr>mr_too_fast := mr_too_fast r @ [msg]\<rparr>, msgs)
                | Bad_version \<Rightarrow> Inl (Check_failed ''GetNonConflictMsgs''))
          else Inr (r, msgs)))"

definition map_get_non_conflict_msgs ::
  "bool \<Rightarrow> int \<Rightarrow> int \<Rightarrow> int \<Rightarrow> map_recorder \<Rightarrow> (map_recorder \<times> message list) res"
where
  "map_get_non_conflict_msgs debug progress t min_clock r =
     bind_res (map_blocked_here debug progress t min_clock r) (map_own_get progress t min_clock)"

definition map_handle_too_fast_buffer :: "int \<Rightarrow> map_recorder \<Rightarrow> (map_recorder \<times> message list) res" where
  "map_handle_too_fast_buffer min_clock r =
     bind_res (fold_res (map_route (mr_staleness r) min_clock) (mr_too_fast r) (mr_main r, [])) (\<lambda>(main, msgs).
       Inr (r\<lparr>mr_main := main, mr_too_fast := []\<rparr>, msgs))"

definition map_count_key :: "int \<Rightarrow> u32 \<Rightarrow> map_records \<Rightarrow> map_records" where
  "map_count_key v key main =
     (let recs = get_or [] (om_get main v); (n, ms) = get_or (0, []) (om_get recs key)
      in om_set v (om_set key (n + 1, ms) recs) main)"

definition map_add_record :: "bool \<Rightarrow> message \<Rightarrow> map_recorder \<Rightarrow> map_recorder res" where
  "map_add_record debug msg r =
     (let t = msg_sender msg; v = to_i32 (msg_version msg) in
      dcheck debug (of_nat (length (get_or [] (om_get (mr_future_keys r) t))) < mr_speculation r + 1)
        (Check_failed ''AddRecord'')
      (bind_res (msg_keys msg) (\<lambda>keys.
        (let r = r\<lparr>mr_future_keys := queue_push t (v, keys) (mr_future_keys r),
                   mr_main := fold (map_count_key v) keys (mr_main r)\<rparr>
         in Inr (if v \<noteq> 0 then r\<lparr>mr_future_msgs := queue_push t (v, msg) (mr_future_msgs r)\<rparr> else r)))))"

definition map_remove_record :: "int \<Rightarrow> map_recorder \<Rightarrow> map_recorder" where
  "map_remove_record v r = r\<lparr>mr_main := om_del v (mr_main r)\<rparr>"

section \<open>\<open>VectorSparseSSPRecorder\<close>\<close>

type_synonym vec_records = "(u32 \<times> message list) list list"

record vector_recorder =
  vr_staleness :: u32
  vr_speculation :: u32
  vr_main :: vec_records
  vr_levels :: u32
  vr_range :: range
  vr_future_keys :: key_queues
  vr_future_msgs :: msg_queues
  vr_too_fast :: "message list"

definition vector_recorder_new :: "bool \<Rightarrow> u32 \<Rightarrow> u32 \<Rightarrow> range \<Rightarrow> vector_recorder res" where
  "vector_recorder_new debug stale spec rng =
     (let levels = stale + 2 * spec + 3 in
      dcheck debug (levels = 0 \<or> rbegin rng < rend rng) (Check_failed ''VectorSparseSSPRecorder'')
        (Inr \<lparr>vr_staleness = stale, vr_speculation = spec,
              vr_main = replicate (unat levels) (replicate (unat (rend rng - rbegin rng)) (0, [])),
              vr_levels = levels, vr_range = rng, vr_future_keys = [], vr_future_msgs = [], vr_too_fast = []\<rparr>))"

text \<open>
  A cell is addressed by the iteration modulo the number of levels, and by a \<open>size_t\<close>.  The
  index of a \<open>uint32_t\<close> key is \<open>key - range_.begin()\<close>; \<open>HasConflict\<close> hands the key back as an
  \<open>int\<close>, which is sign-extended before the subtraction.
\<close>

definition level_of :: "vector_recorder \<Rightarrow> u32 \<Rightarrow> nat res" where
  "level_of r v = (if vr_levels r = 0 then Inl Div_by_zero else Inr (unat (v mod vr_levels r)))"

definition key_index :: "vector_recorder \<Rightarrow> u32 \<Rightarrow> u64" where
  "key_index r key = ucast key - rbegin (vr_range r)"

definition int_index :: "int \<Rightarrow> u64" where
  "int_index i = word_of_int i"

definition forwarded_index :: "vector_recorder \<Rightarrow> int \<Rightarrow> u64" where
  "forwarded_index r fk = int_index fk - rbegin (vr_range r)"

definition cell_at :: "nat \<Rightarrow> u64 \<Rightarrow> vec_records \<Rightarrow> (u32 \<times> message list) res" where
  "cell_at l i main =
     (if l < length main \<and> unat i < length (main ! l) then Inr (main ! l ! unat i) else Inl Out_of_bounds)"

definition put_cell :: "nat \<Rightarrow> u64 \<Rightarrow> u32 \<times> message list \<Rightarrow> vec_records \<Rightarrow> vec_records" where
  "put_cell l i c main = main[l := (main ! l)[unat i := c]]"

text \<open>A cell is changed in place.\<close>

definition edit_cell ::
  "nat \<Rightarrow> u64 \<Rightarrow> (u32 \<times> message list \<Rightarrow> u32 \<times> message list) \<Rightarrow> vec_records \<Rightarrow> vec_records res"
where
  "edit_cell l i f main = bind_res (cell_at l i main) (\<lambda>c. Inr (put_cell l i (f c) main))"

fun vec_first_recorded :: "vector_recorder \<Rightarrow> nat \<Rightarrow> vec_records \<Rightarrow> u32 list \<Rightarrow> u32 option res" where
  "vec_first_recorded r l main [] = Inr None"
| "vec_first_recorded r l main (key # keys) =
     bind_res (cell_at l (key_index r key) main) (\<lambda>(n, _).
       if 0 < n then Inr (Some key) else vec_first_recorded r l main keys)"

fun vec_conflict_loop ::
  "vector_recorder \<Rightarrow> u32 list \<Rightarrow> int list \<Rightarrow> vec_records \<Rightarrow> (int \<times> int) option res"
where
  "vec_conflict_loop r keys [] main = Inr None"
| "vec_conflict_loop r keys (v # vs) main =
     (if keys = [] then vec_conflict_loop r keys vs main
      else bind_res (level_of r (to_u32 v)) (\<lambda>l.
           bind_res (vec_first_recorded r l main keys) (\<lambda>k.
             case k of Some key \<Rightarrow> Inr (Some (to_i32 key, v))
             | None \<Rightarrow> vec_conflict_loop r keys vs main)))"

definition vec_has_conflict ::
  "vector_recorder \<Rightarrow> u32 list \<Rightarrow> int \<Rightarrow> int \<Rightarrow> vec_records \<Rightarrow> (int \<times> int) option res"
where
  "vec_has_conflict r keys begin_version end_version main =
     vec_conflict_loop r keys (rev [begin_version..end_version]) main"

definition vec_route ::
  "vector_recorder \<Rightarrow> int \<Rightarrow> message \<Rightarrow> vec_records \<times> message list \<Rightarrow> (vec_records \<times> message list) res"
where
  "vec_route r min_clock msg = (\<lambda>(main, msgs).
     bind_res (msg_keys msg) (\<lambda>keys.
     bind_res (vec_has_conflict r keys min_clock (last_checked msg (vr_staleness r)) main) (\<lambda>c.
       case c of
         Some (fk, fv) \<Rightarrow>
           bind_res (level_of r (to_u32 fv)) (\<lambda>l.
           bind_res (edit_cell l (forwarded_index r fk) (\<lambda>(n, ms). (n, ms @ [msg])) main) (\<lambda>main.
             Inr (main, msgs)))
       | None \<Rightarrow> Inr (main, msgs @ [msg]))))"

definition vec_remove_key ::
  "vector_recorder \<Rightarrow> nat \<Rightarrow> u32 \<Rightarrow> vec_records \<times> message list \<Rightarrow> (vec_records \<times> message list) res"
where
  "vec_remove_key r l key = (\<lambda>(main, handled).
     (let key_after_minus = to_i32 (ucast (key_index r key)); i = int_index key_after_minus
      in bind_res (cell_at l i main) (\<lambda>(n, ms).
           (let n = n - 1
            in if n = 0 then Inr (put_cell l i (n, []) main, handled @ ms)
               else Inr (put_cell l i (n, ms) main, handled)))))"

definition vec_remove_and_get ::
  "int \<Rightarrow> int \<Rightarrow> u32 list \<Rightarrow> vector_recorder \<Rightarrow> message list \<Rightarrow> (vector_recorder \<times> message list) res"
where
  "vec_remove_and_get v min_clock keys r msgs =
     bind_res (level_of r (to_u32 v)) (\<lambda>l.
     let version_after_mod = unat (int_index (to_i32 (of_nat l))) in
     bind_res (fold_res (vec_remove_key r version_after_mod) keys (vr_main r, [])) (\<lambda>(main, handled).
     bind_res (fold_res (vec_route r min_clock) handled (main, msgs)) (\<lambda>(main, msgs).
       Inr (r\<lparr>vr_main := main\<rparr>, msgs))))"

definition vec_blocked_here :: "int \<Rightarrow> int \<Rightarrow> int \<Rightarrow> vector_recorder \<Rightarrow> (vector_recorder \<times> message list) res" where
  "vec_blocked_here progress t min_clock r =
     (case queue_front t (vr_future_keys r) of
        None \<Rightarrow> Inr (r, [])
      | Some (v, keys) \<Rightarrow>
          bind_res (as_i32 (progress - 1)) (\<lambda>previous.
            if v = previous then
              bind_res (vec_remove_and_get previous min_clock keys r []) (\<lambda>(r, msgs).
                Inr (r\<lparr>vr_future_keys := queue_pop t (vr_future_keys r)\<rparr>, msgs))
            else Inr (r, [])))"

definition vec_own_get ::
  "int \<Rightarrow> int \<Rightarrow> int \<Rightarrow> vector_recorder \<times> message list \<Rightarrow> (vector_recorder \<times> message list) res"
where
  "vec_own_get progress t min_clock = (\<lambda>(r, msgs).
     (case queue_front t (vr_future_msgs r) of
        None \<Rightarrow> Inr (r, msgs)
      | Some (v, msg) \<Rightarrow>
          if v = progress then
            (let popped = r\<lparr>vr_future_msgs := queue_pop t (vr_future_msgs r)\<rparr>
             in case own_get_case (msg_version msg) min_clock (vr_staleness r) (vr_speculation r) of
                  By_staleness \<Rightarrow> Inr (popped, msgs @ [msg])
                | By_speculation \<Rightarrow>
                    bind_res (vec_route r min_clock msg (vr_main r, msgs)) (\<lambda>(main, msgs).
                      Inr (popped\<lparr>vr_main := main\<rparr>, msgs))
                | Too_fast \<Rightarrow> Inr (popped\<lparr>vr_too_fast := vr_too_fast r @ [msg]\<rparr>, msgs)
                | Bad_version \<Rightarrow> Inl (Check_failed ''GetNonConflictMsgs''))
          else Inr (r, msgs)))"

definition vec_get_non_conflict_msgs ::
  "int \<Rightarrow> int \<Rightarrow> int \<Rightarrow> vector_recorder \<Rightarrow> (vector_recorder \<times> message list) res"
where
  "vec_get_non_conflict_msgs progress t min_clock r =
     bind_res (vec_blocked_here progress t min_clock r) (vec_own_get progress t min_clock)"

definition vec_handle_too_fast_buffer :: "int \<Rightarrow> vector_recorder \<Rightarrow> (vector_recorder \<times> message list) res" where
  "vec_handle_too_fast_buffer min_clock r =
     bind_res (fold_res (vec_route r min_clock) (vr_too_fast r) (vr_main r, [])) (\<lambda>(main, msgs).
       Inr (r\<lparr>vr_main := main, vr_too_fast := []\<rparr>, msgs))"

definition vec_add_record :: "bool \<Rightarrow> message \<Rightarrow> vector_recorder \<Rightarrow> vector_recorder res" where
  "vec_add_record debug msg r =
     (let t = msg_sender msg; v = to_i32 (msg_version msg) in
      dcheck debug (of_nat (length (get_or [] (om_get (vr_future_keys r) t))) < vr_speculation r + 1)
        (Check_failed ''AddRecord'')
      (bind_res (msg_keys msg) (\<lambda>keys.
       bind_res (fold_res (\<lambda>key main. bind_res (level_of r (msg_version msg)) (\<lambda>l.
                   edit_cell l (key_index r key) (\<lambda>(n, ms). (n + 1, ms)) main)) keys (vr_main r)) (\<lambda>main.
        (let r = r\<lparr>vr_future_keys := queue_push t (v, keys) (vr_future_keys r), vr_main := main\<rparr>
         in Inr (if v \<noteq> 0 then r\<lparr>vr_future_msgs := queue_push t (v, msg) (vr_future_msgs r)\<rparr> else r))))))"

text \<open>\<open>VectorSparseSSPRecorder::RemoveRecord\<close> does nothing: its cells are used again.\<close>

definition vec_remove_record :: "int \<Rightarrow> vector_recorder \<Rightarrow> vector_recorder" where
  "vec_remove_record v r = r"

section \<open>The contract of \<open>AbstractSparseSSPRecorder\<close>\<close>

text \<open>A recorder holds requests back; it never loses, invents or doubles one.\<close>

locale sparse_recorder =
  fixes add :: "message \<Rightarrow> 's \<Rightarrow> 's res"
    and non_conflict :: "int \<Rightarrow> int \<Rightarrow> int \<Rightarrow> 's \<Rightarrow> ('s \<times> message list) res"
    and too_fast :: "int \<Rightarrow> 's \<Rightarrow> ('s \<times> message list) res"
    and remove :: "int \<Rightarrow> 's \<Rightarrow> 's"
    and held :: "'s \<Rightarrow> message multiset"
    and inv :: "'s \<Rightarrow> bool"
  assumes add_law: "inv s \<Longrightarrow> add m s = Inr s' \<Longrightarrow>
      inv s' \<and> held s' = held s + (if to_i32 (msg_version m) \<noteq> 0 then {#m#} else {#})"
    and non_conflict_law: "inv s \<Longrightarrow> non_conflict p t mc s = Inr (s', ms) \<Longrightarrow> inv s' \<and> held s' + mset ms = held s"
    and too_fast_law: "inv s \<Longrightarrow> too_fast mc s = Inr (s', ms) \<Longrightarrow> inv s' \<and> held s' + mset ms = held s"
    and remove_law: "inv s \<Longrightarrow> inv (remove v s) \<and> held (remove v s) \<subseteq># held s"
begin

text \<open>What one Clock of the model makes of the recorder.\<close>

definition clock_round :: "int \<Rightarrow> int \<Rightarrow> int \<Rightarrow> bool \<Rightarrow> 's \<Rightarrow> ('s \<times> message list) res" where
  "clock_round p t mc moved s =
     bind_res (non_conflict p t mc s) (\<lambda>(s, ms).
       if moved then bind_res (too_fast mc (remove (mc - 1) s)) (\<lambda>(s, ms'). Inr (s, ms @ ms'))
       else Inr (s, ms))"

lemma clock_round_held:
  assumes "inv s" "clock_round p t mc moved s = Inr (s', ms)"
  shows "inv s' \<and> held s' + mset ms \<subseteq># held s"
proof -
  obtain s1 ms1 where n: "non_conflict p t mc s = Inr (s1, ms1)"
    using assms(2) by (auto simp: clock_round_def res_simps)
  note N = non_conflict_law[OF assms(1) n]
  show ?thesis
  proof (cases moved)
    case False
    then have "s' = s1" "ms = ms1" using assms(2) n by (simp_all add: clock_round_def)
    with N show ?thesis by simp
  next
    case True
    then obtain ms2 where t: "too_fast mc (remove (mc - 1) s1) = Inr (s', ms2)" "ms = ms1 @ ms2"
      using assms(2) n by (auto simp: clock_round_def res_simps)
    note R = remove_law[of s1 "mc - 1"]
    note T = too_fast_law[OF _ t(1)]
    have less_s1: "held (remove (mc - 1) s1) \<subseteq># held s1" using N R by simp
    have held_s: "held s = held s1 + mset ms1" and held_rm: "held s' + mset ms2 = held (remove (mc - 1) s1)"
      using N R T by simp_all
    have "(held s' + mset ms2) + mset ms1 \<subseteq># held s"
      unfolding held_s held_rm using less_s1 by simp
    then show ?thesis using N R T t(2) by (simp add: ac_simps)
  qed
qed

end

section \<open>The map recorder meets it\<close>

definition records_held :: "key_records \<Rightarrow> message multiset" where
  "records_held recs = om_weight (\<lambda>c. mset (snd c)) recs"

definition main_held :: "map_records \<Rightarrow> message multiset" where
  "main_held main = om_weight records_held main"

definition queues_held :: "msg_queues \<Rightarrow> message multiset" where
  "queues_held qs = om_weight (\<lambda>q. mset (map snd q)) qs"

definition map_held :: "map_recorder \<Rightarrow> message multiset" where
  "map_held r = main_held (mr_main r) + queues_held (mr_future_msgs r) + mset (mr_too_fast r)"

definition records_wf :: "map_records \<Rightarrow> bool" where
  "records_wf main \<longleftrightarrow> om_wf main \<and> (\<forall>v recs. om_get main v = Some recs \<longrightarrow> om_wf recs)"

definition map_recorder_inv :: "map_recorder \<Rightarrow> bool" where
  "map_recorder_inv r \<longleftrightarrow> records_wf (mr_main r) \<and> om_wf (mr_future_msgs r)"

abbreviation records_at :: "map_records \<Rightarrow> int \<Rightarrow> key_records" where
  "records_at main v \<equiv> get_or [] (om_get main v)"

lemma records_held_Nil [simp]: "records_held [] = {#}"
  by (simp add: records_held_def)

lemma records_wf_at: "records_wf main \<Longrightarrow> om_wf (records_at main v)"
  by (cases "om_get main v") (auto simp: records_wf_def)

lemma records_wf_set [intro]: "records_wf main \<Longrightarrow> om_wf recs \<Longrightarrow> records_wf (om_set v recs main)"
  by (auto simp: records_wf_def)

lemma main_held_set:
  "records_wf main \<Longrightarrow> main_held (om_set v recs main) + records_held (records_at main v) = main_held main + records_held recs"
  unfolding main_held_def records_wf_def by (intro om_weight_set) auto

lemma records_held_set:
  "om_wf recs \<Longrightarrow> records_held (om_set k c recs) + mset (snd (get_or (0, []) (om_get recs k))) = records_held recs + mset (snd c)"
  unfolding records_held_def by (rule om_weight_set) auto

lemma records_held_del:
  "om_wf recs \<Longrightarrow> records_held (om_del k recs) + mset (snd (get_or (0::u32, []) (om_get recs k))) = records_held recs"
  unfolding records_held_def by (rule om_weight_del) auto

lemma main_held_edit:
  assumes "records_wf main" "records_held recs + A = records_held (records_at main v) + B"
  shows "main_held (om_set v recs main) + A = main_held main + B"
proof -
  have "main_held (om_set v recs main) + A + records_held (records_at main v)
      = main_held main + (records_held recs + A)"
    using main_held_set[OF assms(1), of v recs] by (simp add: ac_simps)
  also have "\<dots> = main_held main + B + records_held (records_at main v)"
    unfolding assms(2) by (simp add: ac_simps)
  finally show ?thesis by simp
qed

lemma map_append_held:
  assumes "records_wf main"
  shows "records_wf (map_append fv fk msg main)" "main_held (map_append fv fk msg main) = main_held main + {#msg#}"
proof -
  note wf = records_wf_at[OF assms, of fv]
  obtain n ms where c: "get_or (0, []) (om_get (records_at main fv) fk) = (n, ms)" by force
  show "records_wf (map_append fv fk msg main)"
    using assms wf by (auto simp: map_append_def Let_def c)
  have "records_held (om_set fk (n, ms @ [msg]) (records_at main fv)) + {#} = records_held (records_at main fv) + {#msg#}"
    using records_held_set[OF wf, of fk "(n, ms @ [msg])"] by (simp add: c)
  from main_held_edit[OF assms this]
  show "main_held (map_append fv fk msg main) = main_held main + {#msg#}"
    by (simp add: map_append_def Let_def c)
qed

lemma om_insert_empty:
  assumes "records_wf main"
  shows "records_wf (om_insert v [] main)" "main_held (om_insert v [] main) = main_held main"
    "records_at (om_insert v [] main) u = records_at main u"
proof -
  show "records_wf (om_insert v [] main)" using assms by (auto simp: records_wf_def split: if_splits)
  show "main_held (om_insert v [] main) = main_held main"
    using main_held_set[OF assms, of v "[]"] by (cases "om_get main v") (simp_all add: om_insert_def)
  show "records_at (om_insert v [] main) u = records_at main u" by simp
qed

text \<open>A key is recorded for an iteration while its count has not gone back to zero.\<close>

definition recorded :: "map_records \<Rightarrow> int \<Rightarrow> u32 \<Rightarrow> bool" where
  "recorded main v k \<longleftrightarrow> om_get (records_at main v) k \<noteq> None"

lemma first_recorded_None: "first_recorded recs keys = None \<longleftrightarrow> (\<forall>k \<in> set keys. om_get recs k = None)"
  by (induction keys) (simp_all del: not_None_eq)

lemma first_recorded_Some: "first_recorded recs keys = Some k \<Longrightarrow> k \<in> set keys \<and> om_get recs k \<noteq> None"
  by (induction keys) (auto split: if_splits)

lemma map_conflict_loop_spec:
  "records_wf main \<Longrightarrow> map_conflict_loop keys vs main = (c, main') \<Longrightarrow>
     records_wf main' \<and> main_held main' = main_held main \<and> recorded main' = recorded main
     \<and> (case c of None \<Rightarrow> \<forall>v \<in> set vs. \<forall>k \<in> set keys. \<not> recorded main v k
        | Some (fk, fv) \<Rightarrow> fv \<in> set vs \<and> (\<exists>k \<in> set keys. fk = to_i32 k \<and> recorded main fv k))"
proof (induction keys vs main arbitrary: c main' rule: map_conflict_loop.induct)
  case (1 keys main)
  then show ?case by auto
next
  case (2 keys v vs main)
  let ?m = "if keys = [] then main else om_insert v [] main"
  have m: "records_wf ?m" "main_held ?m = main_held main" "\<And>u. records_at ?m u = records_at main u"
    using om_insert_empty[OF "2.prems"(1)] "2.prems"(1) by auto
  have rec: "recorded ?m = recorded main"
    unfolding fun_eq_iff recorded_def m(3) by simp
  show ?case
  proof (cases "first_recorded (records_at ?m v) keys")
    case (Some k)
    then have "c = Some (to_i32 k, v)" "main' = ?m"
      using "2.prems"(2) by (simp_all only: map_conflict_loop.simps Let_def option.case prod.inject)
    with m rec first_recorded_Some[OF Some] show ?thesis
      unfolding m(3) by (auto simp only: option.case prod.case recorded_def) auto
  next
    case None
    then have "map_conflict_loop keys vs ?m = (c, main')"
      using "2.prems"(2) by (simp only: map_conflict_loop.simps Let_def option.case)
    from "2.IH"[OF refl None m(1) this] m rec None show ?thesis
      unfolding first_recorded_None m(3)
      by (cases c) (auto simp: recorded_def)
  qed
qed

lemma map_has_conflict_spec:
  assumes "records_wf main" "map_has_conflict keys b e main = (c, main')"
  shows "records_wf main'" "main_held main' = main_held main" "recorded main' = recorded main"
    "c = None \<Longrightarrow> v \<in> {b..e} \<Longrightarrow> k \<in> set keys \<Longrightarrow> \<not> recorded main v k"
    "c = Some (fk, fv) \<Longrightarrow> fv \<in> {b..e} \<and> (\<exists>k \<in> set keys. fk = to_i32 k \<and> recorded main fv k)"
  using map_conflict_loop_spec[OF assms(1), of keys "rev [b..e]" c main'] assms(2)
  by (auto simp: map_has_conflict_def)

lemma map_append_recorded:
  assumes "recorded main fv fk"
  shows "recorded (map_append fv fk msg main) = recorded main"
proof -
  obtain n ms where c: "get_or (0, []) (om_get (records_at main fv) fk) = (n, ms)" by force
  have "map_append fv fk msg main = om_set fv (om_set fk (n, ms @ [msg]) (records_at main fv)) main"
    by (simp add: map_append_def Let_def c)
  then show ?thesis
    using assms by (auto simp: fun_eq_iff recorded_def)
qed

text \<open>A message is either held back at one of its recorded keys, or free of conflict and released.\<close>

lemma map_route_cases:
  assumes "records_wf main" "map_route stale mc msg (main, msgs) = Inr (main', msgs')"
  obtains keys where "msg_keys msg = Inr keys" "records_wf main'" "recorded main' = recorded main"
      "main_held main' = main_held main" "msgs' = msgs @ [msg]"
      "\<forall>v \<in> {mc..last_checked msg stale}. \<forall>k \<in> set keys. \<not> recorded main v k"
  | keys where "msg_keys msg = Inr keys" "records_wf main'" "recorded main' = recorded main"
      "main_held main' = main_held main + {#msg#}" "msgs' = msgs"
      "\<exists>v \<in> {mc..last_checked msg stale}. \<exists>k \<in> set keys. recorded main v k"
proof -
  obtain keys where keys: "msg_keys msg = Inr keys"
    using assms(2) by (auto simp: map_route_def res_simps)
  obtain c m1 where h: "map_has_conflict keys mc (last_checked msg stale) main = (c, m1)" by force
  note S = map_has_conflict_spec[OF assms(1) h]
  show thesis
  proof (cases c)
    case None
    then have "main' = m1" "msgs' = msgs @ [msg]"
      using assms(2) keys h by (simp_all add: map_route_def)
    with S None show thesis by (intro that(1)[OF keys]) auto
  next
    case (Some f)
    obtain fk fv where f: "f = (fk, fv)" by force
    then have m': "main' = map_append fv (to_u32 fk) msg m1" "msgs' = msgs"
      using assms(2) keys h Some by (simp_all add: map_route_def)
    obtain k where k: "fv \<in> {mc..last_checked msg stale}" "k \<in> set keys" "fk = to_i32 k" "recorded main fv k"
      using S(5) Some f by blast
    then have "recorded m1 fv (to_u32 fk)" using S(3) by simp
    from map_append_recorded[OF this] map_append_held[OF S(1), of fv "to_u32 fk" msg] S(2,3) k m'
    show thesis by (intro that(2)[OF keys]) auto
  qed
qed

lemma map_route_held:
  assumes "records_wf main" "map_route stale mc msg (main, msgs) = Inr (main', msgs')"
  shows "records_wf main' \<and> recorded main' = recorded main
    \<and> main_held main' + mset msgs' = main_held main + mset msgs + {#msg#}"
  by (rule map_route_cases[OF assms]) simp_all

lemma map_route_all_held:
  "records_wf main \<Longrightarrow> fold_res (map_route stale mc) ms (main, msgs) = Inr (main', msgs') \<Longrightarrow>
     records_wf main' \<and> recorded main' = recorded main
     \<and> main_held main' + mset msgs' = main_held main + mset msgs + mset ms"
proof (induction ms arbitrary: main msgs)
  case Nil
  then show ?case by simp
next
  case (Cons m ms)
  then obtain main1 msgs1 where r: "map_route stale mc m (main, msgs) = Inr (main1, msgs1)"
    and f: "fold_res (map_route stale mc) ms (main1, msgs1) = Inr (main', msgs')"
    by (auto simp: res_simps)
  note R = map_route_held[OF Cons.prems(1) r]
  with Cons.IH[OF _ f] show ?case by simp
qed

lemma map_remove_key_held:
  assumes wf: "records_wf main" and r: "map_remove_key debug v key (main, handled) = Inr (main', handled')"
  shows "records_wf main' \<and> main_held main' + mset handled' = main_held main + mset handled"
proof -
  let ?recs = "records_at main v"
  obtain n ms where c: "get_or (0, []) (om_get ?recs key) = (n, ms)" by force
  note wfr = records_wf_at[OF wf, of v]
  have cases: "(n - 1 = 0 \<and> main' = om_set v (om_del key ?recs) main \<and> handled' = handled @ ms)
      \<or> (n - 1 \<noteq> 0 \<and> main' = om_set v (om_set key (n - 1, ms) ?recs) main \<and> handled' = handled)"
    using r by (auto simp: map_remove_key_def dcheck_def Let_def c split: if_splits)
  then show ?thesis
  proof (elim disjE conjE)
    assume m: "main' = om_set v (om_del key ?recs) main" "handled' = handled @ ms"
    have "records_held (om_del key ?recs) + mset ms = records_held ?recs + {#}"
      using records_held_del[OF wfr, of key] by (simp add: c)
    from main_held_edit[OF wf this] m wf wfr show ?thesis by (auto simp: ac_simps)
  next
    assume m: "main' = om_set v (om_set key (n - 1, ms) ?recs) main" "handled' = handled"
    have "records_held (om_set key (n - 1, ms) ?recs) + {#} = records_held ?recs + {#}"
      using records_held_set[OF wfr, of key "(n - 1, ms)"] by (simp add: c)
    from main_held_edit[OF wf this] m wf wfr show ?thesis by auto
  qed
qed

lemma map_remove_all_held:
  "records_wf main \<Longrightarrow> fold_res (map_remove_key debug v) keys (main, handled) = Inr (main', handled') \<Longrightarrow>
     records_wf main' \<and> main_held main' + mset handled' = main_held main + mset handled"
proof (induction keys arbitrary: main handled)
  case Nil
  then show ?case by simp
next
  case (Cons k keys)
  then obtain main1 handled1 where r: "map_remove_key debug v k (main, handled) = Inr (main1, handled1)"
    and f: "fold_res (map_remove_key debug v) keys (main1, handled1) = Inr (main', handled')"
    by (auto simp: res_simps)
  with Cons.IH[OF _ f] map_remove_key_held[OF Cons.prems(1) r] show ?case by simp
qed

lemma map_count_key_held:
  assumes "records_wf main"
  shows "records_wf (map_count_key v key main) \<and> main_held (map_count_key v key main) = main_held main"
proof -
  let ?recs = "records_at main v"
  obtain n ms where c: "get_or (0, []) (om_get ?recs key) = (n, ms)" by force
  note wfr = records_wf_at[OF assms, of v]
  have "records_held (om_set key (n + 1, ms) ?recs) + {#} = records_held ?recs + {#}"
    using records_held_set[OF wfr, of key "(n + 1, ms)"] by (simp add: c)
  from main_held_edit[OF assms this] assms wfr show ?thesis
    by (auto simp: map_count_key_def Let_def c)
qed

lemma map_count_keys_held:
  "records_wf main \<Longrightarrow>
     records_wf (fold (map_count_key v) keys main) \<and> main_held (fold (map_count_key v) keys main) = main_held main"
  by (induction keys arbitrary: main) (simp_all add: map_count_key_held)

lemma queue_push_held:
  "om_wf qs \<Longrightarrow> om_wf (queue_push t (v, m) qs) \<and> queues_held (queue_push t (v, m) qs) = queues_held qs + {#m#}"
  using om_weight_set[of qs "\<lambda>q. mset (map snd q)" "[]" t "get_or [] (om_get qs t) @ [(v, m)]"]
  by (simp add: queue_push_def queues_held_def)

lemma queue_pop_held:
  assumes "om_wf qs" "queue_front t qs = Some (v, m)"
  shows "om_wf (queue_pop t qs) \<and> queues_held (queue_pop t qs) + {#m#} = queues_held qs"
proof -
  obtain q where "get_or [] (om_get qs t) = (v, m) # q"
    using assms(2) by (auto simp: queue_front_def split: list.splits)
  with om_weight_set[OF assms(1), of "\<lambda>q. mset (map snd q)" "[]" t q] assms(1)
  show ?thesis by (simp add: queue_pop_def queues_held_def)
qed

lemma map_blocked_held:
  assumes "map_recorder_inv r" "map_blocked_here debug p t mc r = Inr (r', ms)"
  shows "map_recorder_inv r' \<and> map_held r' + mset ms = map_held r"
proof (cases "r' = r \<and> ms = []")
  case True
  with assms(1) show ?thesis by simp
next
  case False
  then obtain v keys r1 where rg: "map_remove_and_get debug (p - 1) mc keys r [] = Inr (r1, ms)"
    and r': "r' = r1\<lparr>mr_future_keys := queue_pop t (mr_future_keys r1)\<rparr>"
    using assms(2) by (auto simp: map_blocked_here_def res_simps split: option.splits if_splits)
  obtain main handled main' where rm: "fold_res (map_remove_key debug (p - 1)) keys (mr_main r, []) = Inr (main, handled)"
    and rt: "fold_res (map_route (mr_staleness r) mc) handled (main, []) = Inr (main', ms)"
    and r1: "r1 = r\<lparr>mr_main := main'\<rparr>"
    using rg by (auto simp: map_remove_and_get_def dcheck_def res_simps split: if_splits)
  have wf: "records_wf (mr_main r)" using assms(1) by (simp add: map_recorder_inv_def)
  note A = map_remove_all_held[OF wf rm]
  with map_route_all_held[OF _ rt] have "records_wf main'" "main_held main' + mset ms = main_held (mr_main r)"
    by auto
  then show ?thesis
    using assms(1) unfolding r' r1 map_held_def map_recorder_inv_def
    by (simp flip: \<open>main_held main' + mset ms = main_held (mr_main r)\<close>)
qed

lemma map_own_get_held:
  assumes I: "map_recorder_inv r" and g: "map_own_get p t mc (r, ms) = Inr (r', ms')"
  shows "map_recorder_inv r' \<and> map_held r' + mset ms' = map_held r + mset ms"
proof (cases "r' = r \<and> ms' = ms")
  case True
  with I show ?thesis by simp
next
  case False
  obtain v m where f: "queue_front t (mr_future_msgs r) = Some (v, m)" "v = p"
    using g False by (auto simp: map_own_get_def split: option.splits if_splits)
  have wf: "records_wf (mr_main r)" "om_wf (mr_future_msgs r)" using I by (simp_all add: map_recorder_inv_def)
  note Q = queue_pop_held[OF wf(2) f(1)]
  let ?q = "queue_pop t (mr_future_msgs r)"
  show ?thesis
  proof (cases "own_get_case (msg_version m) mc (mr_staleness r) (mr_speculation r)")
    case By_speculation
    then obtain main' where rt: "map_route (mr_staleness r) mc m (mr_main r, ms) = Inr (main', ms')"
      and r': "r' = r\<lparr>mr_future_msgs := ?q, mr_main := main'\<rparr>"
      using g f by (auto simp: map_own_get_def res_simps)
    note R = map_route_held[OF wf(1) rt]
    have "map_held r' + mset ms' = (main_held main' + mset ms') + queues_held ?q + mset (mr_too_fast r)"
      by (simp add: r' map_held_def)
    also have "\<dots> = main_held (mr_main r) + mset ms + (queues_held ?q + {#m#}) + mset (mr_too_fast r)"
      using R by simp
    also have "\<dots> = map_held r + mset ms"
      using Q by (simp add: map_held_def)
    finally have "map_held r' + mset ms' = map_held r + mset ms" .
    moreover have "map_recorder_inv r'" using Q R by (simp add: r' map_recorder_inv_def)
    ultimately show ?thesis by simp
  qed (use g f Q wf in \<open>auto simp: map_own_get_def map_held_def map_recorder_inv_def simp flip: conjunct2[OF Q]\<close>)
qed

lemma map_recorder_conserves:
  "sparse_recorder (map_add_record debug) (map_get_non_conflict_msgs debug) map_handle_too_fast_buffer
     map_remove_record map_held map_recorder_inv"
proof unfold_locales
  fix s m s'
  assume I: "map_recorder_inv s" and a: "map_add_record debug m s = Inr s'"
  have wf: "records_wf (mr_main s)" "om_wf (mr_future_msgs s)" using I by (simp_all add: map_recorder_inv_def)
  let ?t = "msg_sender m" and ?v = "to_i32 (msg_version m)"
  obtain keys where keys: "msg_keys m = Inr keys"
    using a by (cases "msg_keys m") (simp_all add: map_add_record_def dcheck_def Let_def split: if_splits)
  let ?main = "fold (map_count_key ?v) keys (mr_main s)" and ?fk = "queue_push ?t (?v, keys) (mr_future_keys s)"
  have "s' = (if ?v \<noteq> 0 then s\<lparr>mr_future_keys := ?fk, mr_main := ?main,
        mr_future_msgs := queue_push ?t (?v, m) (mr_future_msgs s)\<rparr> else s\<lparr>mr_future_keys := ?fk, mr_main := ?main\<rparr>)"
    using a keys by (simp add: map_add_record_def dcheck_def Let_def split: if_splits)
  then show "map_recorder_inv s' \<and> map_held s' = map_held s + (if to_i32 (msg_version m) \<noteq> 0 then {#m#} else {#})"
    using map_count_keys_held[OF wf(1)]
      queue_push_held[OF wf(2), of "msg_sender m" "to_i32 (msg_version m)" m] wf(2)
    by (simp add: Let_def map_recorder_inv_def map_held_def)
next
  fix s p t mc s' ms
  assume I: "map_recorder_inv s" and g: "map_get_non_conflict_msgs debug p t mc s = Inr (s', ms)"
  obtain s1 ms1 where b: "map_blocked_here debug p t mc s = Inr (s1, ms1)"
    and o: "map_own_get p t mc (s1, ms1) = Inr (s', ms)"
    using g by (auto simp: map_get_non_conflict_msgs_def res_simps)
  note B = map_blocked_held[OF I b]
  with map_own_get_held[OF _ o] show "map_recorder_inv s' \<and> map_held s' + mset ms = map_held s" by simp
next
  fix s mc s' ms
  assume I: "map_recorder_inv s" and h: "map_handle_too_fast_buffer mc s = Inr (s', ms)"
  obtain main where rt: "fold_res (map_route (mr_staleness s) mc) (mr_too_fast s) (mr_main s, []) = Inr (main, ms)"
    and s': "s' = s\<lparr>mr_main := main, mr_too_fast := []\<rparr>"
    using h by (auto simp: map_handle_too_fast_buffer_def res_simps)
  have wf: "records_wf (mr_main s)" using I by (simp add: map_recorder_inv_def)
  note R = map_route_all_held[OF wf rt]
  have "map_held s' + mset ms = (main_held main + mset ms) + queues_held (mr_future_msgs s)"
    by (simp add: s' map_held_def)
  with R I show "map_recorder_inv s' \<and> map_held s' + mset ms = map_held s"
    by (simp add: s' map_held_def map_recorder_inv_def)
next
  fix s v
  assume I: "map_recorder_inv s"
  have "om_wf (mr_main s)" using I by (simp add: map_recorder_inv_def records_wf_def)
  from om_weight_del[OF this, of records_held "[]" v]
  have "main_held (om_del v (mr_main s)) \<subseteq># main_held (mr_main s)"
    unfolding main_held_def by (metis mset_subset_eq_add_left records_held_Nil)
  with I show "map_recorder_inv (map_remove_record v s) \<and> map_held (map_remove_record v s) \<subseteq># map_held s"
    by (auto simp: map_recorder_inv_def map_remove_record_def map_held_def records_wf_def)
qed

interpretation map_rec: sparse_recorder "map_add_record debug" "map_get_non_conflict_msgs debug"
  map_handle_too_fast_buffer map_remove_record map_held map_recorder_inv
  by (rule map_recorder_conserves)

section \<open>The vector recorder meets it\<close>

definition cells_held :: "vec_records \<Rightarrow> message multiset" where
  "cells_held main = sum_list (map (\<lambda>level. sum_list (map (\<lambda>c. mset (snd c)) level)) main)"

definition vec_held :: "vector_recorder \<Rightarrow> message multiset" where
  "vec_held r = cells_held (vr_main r) + queues_held (vr_future_msgs r) + mset (vr_too_fast r)"

definition vec_recorder_inv :: "vector_recorder \<Rightarrow> bool" where
  "vec_recorder_inv r \<longleftrightarrow> om_wf (vr_future_msgs r)"

lemma put_cell_held:
  assumes "cell_at l i main = Inr c"
  shows "cells_held (put_cell l i c' main) + mset (snd c) = cells_held main + mset (snd c')"
proof -
  let ?f = "\<lambda>c :: u32 \<times> message list. mset (snd c)" and ?g = "\<lambda>level. sum_list (map (\<lambda>c. mset (snd c)) level)"
  have l: "l < length main" "unat i < length (main ! l)" and c: "main ! l ! unat i = c"
    using assms by (auto simp: cell_at_def split: if_splits)
  let ?level = "(main ! l)[unat i := c']"
  have lev: "?g ?level + ?f c = ?g (main ! l) + ?f c'"
    using sum_list_update_gen[OF l(2), of ?f c'] c by simp
  have "cells_held (put_cell l i c' main) + ?f c + ?g (main ! l) = (cells_held main + ?g ?level) + ?f c"
    using sum_list_update_gen[OF l(1), of ?g ?level] by (simp add: cells_held_def put_cell_def ac_simps)
  also have "\<dots> = cells_held main + (?g (main ! l) + ?f c')"
    by (simp only: lev add.assoc)
  finally show ?thesis by (simp add: ac_simps)
qed

lemma edit_cell_held:
  assumes "edit_cell l i f main = Inr main'" "\<And>c. mset (snd (f c)) = mset (snd c) + A"
  shows "cells_held main' = cells_held main + A"
proof -
  obtain c where c: "cell_at l i main = Inr c" "main' = put_cell l i (f c) main"
    using assms(1) by (auto simp: edit_cell_def res_simps)
  from put_cell_held[OF c(1), of "f c"] show ?thesis
    by (simp add: c(2) assms(2))
qed

lemma vec_route_held:
  assumes "vec_route r mc msg (main, msgs) = Inr (main', msgs')"
  shows "cells_held main' + mset msgs' = cells_held main + mset msgs + {#msg#}"
proof -
  obtain keys c where "msg_keys msg = Inr keys"
    and c: "vec_has_conflict r keys mc (last_checked msg (vr_staleness r)) main = Inr c"
    and k: "(case c of Some (fk, fv) \<Rightarrow>
           bind_res (level_of r (to_u32 fv)) (\<lambda>l.
           bind_res (edit_cell l (forwarded_index r fk) (\<lambda>(n, ms). (n, ms @ [msg])) main) (\<lambda>main.
             Inr (main, msgs)))
       | None \<Rightarrow> Inr (main, msgs @ [msg])) = Inr (main', msgs')"
    using assms by (auto simp: vec_route_def res_simps)
  show ?thesis
  proof (cases c)
    case None
    with k show ?thesis by auto
  next
    case (Some f)
    with k obtain l fk where e: "edit_cell l (forwarded_index r fk) (\<lambda>(n, ms). (n, ms @ [msg])) main = Inr main'"
      and "msgs' = msgs"
      by (auto simp: res_simps split: prod.splits)
    with edit_cell_held[OF e, of "{#msg#}"] show ?thesis by auto
  qed
qed

lemma vec_route_all_held:
  "fold_res (vec_route r mc) ms (main, msgs) = Inr (main', msgs') \<Longrightarrow>
     cells_held main' + mset msgs' = cells_held main + mset msgs + mset ms"
proof (induction ms arbitrary: main msgs)
  case Nil
  then show ?case by simp
next
  case (Cons m ms)
  then obtain main1 msgs1 where a: "vec_route r mc m (main, msgs) = Inr (main1, msgs1)"
    and f: "fold_res (vec_route r mc) ms (main1, msgs1) = Inr (main', msgs')"
    by (auto simp: res_simps)
  from vec_route_held[OF a] Cons.IH[OF f] show ?case by simp
qed

lemma vec_remove_key_held:
  assumes "vec_remove_key r l key (main, handled) = Inr (main', handled')"
  shows "cells_held main' + mset handled' = cells_held main + mset handled"
proof -
  let ?i = "int_index (to_i32 (ucast (key_index r key)))"
  obtain n ms where c: "cell_at l ?i main = Inr (n, ms)"
    using assms by (auto simp: vec_remove_key_def Let_def res_simps)
  have "(main' = put_cell l ?i (0, []) main \<and> handled' = handled @ ms)
      \<or> (main' = put_cell l ?i (n - 1, ms) main \<and> handled' = handled)"
    using assms by (auto simp: vec_remove_key_def Let_def c split: if_splits)
  then show ?thesis
  proof (elim disjE conjE)
    assume m: "main' = put_cell l ?i (0, []) main" "handled' = handled @ ms"
    have "cells_held main' + mset ms = cells_held main"
      using put_cell_held[OF c, of "(0, [])"] m(1) by simp
    with m(2) show ?thesis by (simp flip: \<open>cells_held main' + mset ms = cells_held main\<close>)
  next
    assume "main' = put_cell l ?i (n - 1, ms) main" "handled' = handled"
    with put_cell_held[OF c, of "(n - 1, ms)"] show ?thesis by simp
  qed
qed

lemma vec_remove_all_held:
  "fold_res (vec_remove_key r l) keys (main, handled) = Inr (main', handled') \<Longrightarrow>
     cells_held main' + mset handled' = cells_held main + mset handled"
proof (induction keys arbitrary: main handled)
  case Nil
  then show ?case by simp
next
  case (Cons k keys)
  then obtain main1 handled1 where a: "vec_remove_key r l k (main, handled) = Inr (main1, handled1)"
    and f: "fold_res (vec_remove_key r l) keys (main1, handled1) = Inr (main', handled')"
    by (auto simp: res_simps)
  from vec_remove_key_held[OF a] Cons.IH[OF f] show ?case by simp
qed

lemma vec_blocked_held:
  assumes "vec_recorder_inv r" "vec_blocked_here p t mc r = Inr (r', ms)"
  shows "vec_recorder_inv r' \<and> vec_held r' + mset ms = vec_held r"
proof (cases "r' = r \<and> ms = []")
  case True
  with assms(1) show ?thesis by simp
next
  case False
  then obtain v keys r1 where rg: "vec_remove_and_get (p - 1) mc keys r [] = Inr (r1, ms)"
    and r': "r' = r1\<lparr>vr_future_keys := queue_pop t (vr_future_keys r1)\<rparr>"
    using assms(2) by (auto simp: vec_blocked_here_def res_simps split: option.splits if_splits)
  obtain l main handled main' where rm: "fold_res (vec_remove_key r l) keys (vr_main r, []) = Inr (main, handled)"
    and rt: "fold_res (vec_route r mc) handled (main, []) = Inr (main', ms)"
    and r1: "r1 = r\<lparr>vr_main := main'\<rparr>"
    using rg by (auto simp: vec_remove_and_get_def Let_def res_simps)
  have eq: "cells_held (vr_main r) = cells_held main' + mset ms"
    using vec_remove_all_held[OF rm] vec_route_all_held[OF rt] by simp
  show ?thesis
    using assms(1) by (simp add: r' r1 vec_held_def vec_recorder_inv_def eq)
qed

lemma vec_own_get_held:
  assumes I: "vec_recorder_inv r" and g: "vec_own_get p t mc (r, ms) = Inr (r', ms')"
  shows "vec_recorder_inv r' \<and> vec_held r' + mset ms' = vec_held r + mset ms"
proof (cases "r' = r \<and> ms' = ms")
  case True
  with I show ?thesis by simp
next
  case False
  obtain v m where f: "queue_front t (vr_future_msgs r) = Some (v, m)" "v = p"
    using g False by (auto simp: vec_own_get_def split: option.splits if_splits)
  have wf: "om_wf (vr_future_msgs r)" using I by (simp add: vec_recorder_inv_def)
  note Q = queue_pop_held[OF wf f(1)]
  let ?q = "queue_pop t (vr_future_msgs r)"
  show ?thesis
  proof (cases "own_get_case (msg_version m) mc (vr_staleness r) (vr_speculation r)")
    case By_speculation
    then obtain main' where rt: "vec_route r mc m (vr_main r, ms) = Inr (main', ms')"
      and r': "r' = r\<lparr>vr_future_msgs := ?q, vr_main := main'\<rparr>"
      using g f by (auto simp: vec_own_get_def res_simps)
    have "vec_held r' + mset ms' = (cells_held main' + mset ms') + queues_held ?q + mset (vr_too_fast r)"
      by (simp add: r' vec_held_def)
    also have "\<dots> = cells_held (vr_main r) + mset ms + (queues_held ?q + {#m#}) + mset (vr_too_fast r)"
      using vec_route_held[OF rt] by simp
    also have "\<dots> = vec_held r + mset ms"
      using Q by (simp add: vec_held_def)
    finally have "vec_held r' + mset ms' = vec_held r + mset ms" .
    moreover have "vec_recorder_inv r'" using Q by (simp add: r' vec_recorder_inv_def)
    ultimately show ?thesis by simp
  qed (use g f Q wf in \<open>auto simp: vec_own_get_def vec_held_def vec_recorder_inv_def simp flip: conjunct2[OF Q]\<close>)
qed

lemma vec_count_keys_held:
  "fold_res (\<lambda>key main. bind_res (level_of r v) (\<lambda>l. edit_cell l (key_index r key) (\<lambda>(n, ms). (n + 1, ms)) main))
     keys main = Inr main' \<Longrightarrow> cells_held main' = cells_held main"
proof (induction keys arbitrary: main)
  case Nil
  then show ?case by simp
next
  case (Cons k keys)
  then obtain l main1 where e: "edit_cell l (key_index r k) (\<lambda>(n, ms). (n + 1, ms)) main = Inr main1"
    and f: "fold_res (\<lambda>key main. bind_res (level_of r v) (\<lambda>l. edit_cell l (key_index r key) (\<lambda>(n, ms). (n + 1, ms)) main))
     keys main1 = Inr main'"
    by (auto simp: res_simps)
  from Cons.IH[OF f] edit_cell_held[OF e, of "{#}"] show ?case by auto
qed

lemma vector_recorder_conserves:
  "sparse_recorder (vec_add_record debug) vec_get_non_conflict_msgs vec_handle_too_fast_buffer
     vec_remove_record vec_held vec_recorder_inv"
proof unfold_locales
  fix s m s'
  assume I: "vec_recorder_inv s" and a: "vec_add_record debug m s = Inr s'"
  have wf: "om_wf (vr_future_msgs s)" using I by (simp add: vec_recorder_inv_def)
  let ?t = "msg_sender m" and ?v = "to_i32 (msg_version m)"
  obtain keys where keys: "msg_keys m = Inr keys"
    using a by (cases "msg_keys m") (simp_all add: vec_add_record_def dcheck_def Let_def split: if_splits)
  let ?fk = "queue_push ?t (?v, keys) (vr_future_keys s)"
  let ?count = "fold_res (\<lambda>key main. bind_res (level_of s (msg_version m)) (\<lambda>l.
      edit_cell l (key_index s key) (\<lambda>(n, ms). (n + 1, ms)) main)) keys (vr_main s)"
  obtain main where main: "?count = Inr main"
    using a keys by (cases "?count") (simp_all add: vec_add_record_def dcheck_def Let_def split: if_splits)
  have same: "cells_held main = cells_held (vr_main s)" by (rule vec_count_keys_held[OF main])
  have "s' = (if ?v \<noteq> 0 then s\<lparr>vr_future_keys := ?fk, vr_main := main,
        vr_future_msgs := queue_push ?t (?v, m) (vr_future_msgs s)\<rparr> else s\<lparr>vr_future_keys := ?fk, vr_main := main\<rparr>)"
    using a keys main by (simp add: vec_add_record_def dcheck_def Let_def split: if_splits)
  then show "vec_recorder_inv s' \<and> vec_held s' = vec_held s + (if to_i32 (msg_version m) \<noteq> 0 then {#m#} else {#})"
    using queue_push_held[OF wf] wf same by (simp add: vec_recorder_inv_def vec_held_def)
next
  fix s p t mc s' ms
  assume I: "vec_recorder_inv s" and g: "vec_get_non_conflict_msgs p t mc s = Inr (s', ms)"
  obtain s1 ms1 where b: "vec_blocked_here p t mc s = Inr (s1, ms1)"
    and o: "vec_own_get p t mc (s1, ms1) = Inr (s', ms)"
    using g by (auto simp: vec_get_non_conflict_msgs_def res_simps)
  note B = vec_blocked_held[OF I b]
  with vec_own_get_held[OF _ o] show "vec_recorder_inv s' \<and> vec_held s' + mset ms = vec_held s" by simp
next
  fix s mc s' ms
  assume I: "vec_recorder_inv s" and h: "vec_handle_too_fast_buffer mc s = Inr (s', ms)"
  obtain main where rt: "fold_res (vec_route s mc) (vr_too_fast s) (vr_main s, []) = Inr (main, ms)"
    and s': "s' = s\<lparr>vr_main := main, vr_too_fast := []\<rparr>"
    using h by (auto simp: vec_handle_too_fast_buffer_def res_simps)
  have "vec_held s' + mset ms = (cells_held main + mset ms) + queues_held (vr_future_msgs s)"
    by (simp add: s' vec_held_def)
  with vec_route_all_held[OF rt] I show "vec_recorder_inv s' \<and> vec_held s' + mset ms = vec_held s"
    by (simp add: s' vec_held_def vec_recorder_inv_def)
next
  fix s v
  assume "vec_recorder_inv s"
  then show "vec_recorder_inv (vec_remove_record v s) \<and> vec_held (vec_remove_record v s) \<subseteq># vec_held s"
    by (simp add: vec_remove_record_def)
qed

interpretation vec_rec: sparse_recorder "vec_add_record debug" vec_get_non_conflict_msgs
  vec_handle_too_fast_buffer vec_remove_record vec_held vec_recorder_inv
  by (rule vector_recorder_conserves)

section \<open>What is released, and what the index of a key is\<close>

lemma map_route_all_free:
  "records_wf main \<Longrightarrow> fold_res (map_route stale mc) ms (main, msgs) = Inr (main', msgs') \<Longrightarrow>
     \<exists>new. msgs' = msgs @ new \<and> (\<forall>m \<in> set new. \<forall>keys. msg_keys m = Inr keys \<longrightarrow>
       (\<forall>v \<in> {mc..last_checked m stale}. \<forall>k \<in> set keys. \<not> recorded main' v k))"
proof (induction ms arbitrary: main msgs)
  case Nil
  then show ?case by simp
next
  case (Cons m ms)
  then obtain main1 msgs1 where r: "map_route stale mc m (main, msgs) = Inr (main1, msgs1)"
    and f: "fold_res (map_route stale mc) ms (main1, msgs1) = Inr (main', msgs')"
    by (auto simp: res_simps)
  have wf1: "records_wf main1" and same: "recorded main' = recorded main"
    using map_route_held[OF Cons.prems(1) r] map_route_all_held[OF _ f] by auto
  obtain new where new: "msgs' = msgs1 @ new" "\<forall>m \<in> set new. \<forall>keys. msg_keys m = Inr keys \<longrightarrow>
       (\<forall>v \<in> {mc..last_checked m stale}. \<forall>k \<in> set keys. \<not> recorded main' v k)"
    using Cons.IH[OF wf1 f] by blast
  from Cons.prems(1) r show ?case
  proof (cases rule: map_route_cases)
    case (1 keys)
    with new same show ?thesis by (intro exI[of _ "m # new"]) auto
  next
    case (2 keys)
    with new show ?thesis by auto
  qed
qed

text \<open>C7. Conflict freedom.  When the smallest clock moves to \<open>mc\<close>, the recorder takes every Get
  out of its too-fast buffer; it releases exactly those none of whose keys is still recorded for an
  iteration from \<open>mc\<close> up to the last one the Get must not miss (\<open>version - staleness_ - 1\<close>), and
  keeps holding the others.\<close>

theorem too_fast_release_is_conflict_free:
  assumes "map_recorder_inv r" "map_handle_too_fast_buffer mc r = Inr (r', ms)"
  shows "(\<forall>m \<in> set ms. \<forall>keys. msg_keys m = Inr keys \<longrightarrow>
       (\<forall>v \<in> {mc..last_checked m (mr_staleness r)}. \<forall>k \<in> set keys. \<not> recorded (mr_main r') v k))
    \<and> mr_too_fast r' = [] \<and> map_held r' + mset ms = map_held r"
proof -
  obtain main where rt: "fold_res (map_route (mr_staleness r) mc) (mr_too_fast r) (mr_main r, []) = Inr (main, ms)"
    and r': "r' = r\<lparr>mr_main := main, mr_too_fast := []\<rparr>"
    using assms(2) by (auto simp: map_handle_too_fast_buffer_def res_simps)
  have "records_wf (mr_main r)" using assms(1) by (simp add: map_recorder_inv_def)
  from map_route_all_free[OF this rt] map_rec.too_fast_law[OF assms] show ?thesis
    by (auto simp: r')
qed

text \<open>A Get of iteration 2 for key 5 in the buffer; key 5 is still recorded for iteration 1.\<close>

definition held_get :: message where
  "held_get = \<lparr>meta_of = \<lparr>sender = 7, recver = 0, model_id = 0, mflag = kGet, version = 2\<rparr>,
               data_of = [bytes_of_keys [5]]\<rparr>"

definition recorder_demo :: "map_records \<Rightarrow> message list \<Rightarrow> map_recorder" where
  "recorder_demo main fast = (map_recorder_new 0 1)\<lparr>mr_main := main, mr_too_fast := fast\<rparr>"

lemma too_fast_release_is_conflict_free_witness:
  "map_handle_too_fast_buffer 1 (recorder_demo [(1, [(5, (1, []))])] [held_get])
     = Inr (recorder_demo [(1, [(5, (1, [held_get]))])] [], [])
   \<and> map_held (recorder_demo [(1, [(5, (1, [held_get]))])] []) = {#held_get#}"
proof -
  have "map_recorder_inv (recorder_demo [(1, [(5, (1, []))])] [held_get])"
    by (auto simp: map_recorder_inv_def recorder_demo_def map_recorder_new_def records_wf_def om_wf_def)
  moreover have h: "map_handle_too_fast_buffer 1 (recorder_demo [(1, [(5, (1, []))])] [held_get])
     = Inr (recorder_demo [(1, [(5, (1, [held_get]))])] [], [])"
    by code_simp
  ultimately have "map_held (recorder_demo [(1, [(5, (1, [held_get]))])] []) + mset []
      = map_held (recorder_demo [(1, [(5, (1, []))])] [held_get])"
    using too_fast_release_is_conflict_free by blast
  with h show ?thesis
    by (simp add: map_held_def recorder_demo_def map_recorder_new_def main_held_def queues_held_def records_held_def)
qed

text \<open>\<open>HasConflict\<close> of the vector recorder hands a key back as an \<open>int\<close>: the cell the
  request is then parked in is the cell of the key exactly for keys below 2^31.  For every other
  key the index is 2^64 - 2^32 too large.\<close>

lemma forwarded_index_iff:
  "forwarded_index r (to_i32 k) = key_index r k \<longleftrightarrow> uint k < 2147483648"
proof -
  have u: "(word_of_int (uint k) :: u64) = ucast k"
    by simp
  show ?thesis
  proof (cases "uint k < 2147483648")
    case True
    then show ?thesis using u by (simp add: forwarded_index_def key_index_def int_index_def to_i32_eq_uint)
  next
    case False
    then have "int_index (to_i32 k) = ucast k - (4294967296 :: u64)"
      using u by (simp add: int_index_def to_i32_high word_of_int_minus)
    moreover have "ucast k - (4294967296 :: u64) \<noteq> ucast k" by simp
    ultimately show ?thesis
      using False by (simp add: forwarded_index_def key_index_def)
  qed
qed

text \<open>With the range \<open>[2^31, 2^31 + 2)\<close>, a Get that conflicts on key \<open>2^31\<close> leaves the vector.\<close>

definition high_recorder :: vector_recorder where
  "high_recorder =
     \<lparr>vr_staleness = 0, vr_speculation = 1, vr_main = replicate 5 [(1, []), (0, [])], vr_levels = 5,
      vr_range = \<lparr>rbegin = 2147483648, rend = 2147483650\<rparr>, vr_future_keys = [], vr_future_msgs = [],
      vr_too_fast = []\<rparr>"

definition high_get :: message where
  "high_get = held_get\<lparr>data_of := [bytes_of_keys [2147483648]]\<rparr>"

lemma high_key_leaves_the_vector:
  "vec_route high_recorder 1 high_get (vr_main high_recorder, []) = Inl Out_of_bounds"
proof -
  have keys: "msg_keys high_get = Inr [2147483648]"
    by (simp add: msg_keys_def high_get_def)
  have version: "last_checked high_get 0 = 1"
    by (simp add: last_checked_def high_get_def held_get_def to_i32_def)
  have i: "key_index high_recorder 2147483648 = 0"
    by (simp add: key_index_def high_recorder_def)
  have fields: "vr_staleness high_recorder = 0" "vr_levels high_recorder = 5"
    by (simp_all add: high_recorder_def)
  have "cell_at 1 0 (vr_main high_recorder) = Inr (1, [])"
    by (simp add: cell_at_def high_recorder_def numeral_eq_Suc)
  then have "vec_has_conflict high_recorder [2147483648] 1 1 (vr_main high_recorder) = Inr (Some (-2147483648, 1))"
    by (simp add: vec_has_conflict_def i level_of_def to_u32_def to_i32_def) (simp add: high_recorder_def)
  moreover have "edit_cell l (forwarded_index high_recorder (-2147483648)) f (vr_main high_recorder) = Inl Out_of_bounds" for l f
    by (cases "l < 5") (auto simp: edit_cell_def cell_at_def forwarded_index_def int_index_def high_recorder_def
        nth_Cons split: nat.splits)
  ultimately show ?thesis
    by (simp add: vec_route_def keys version fields level_of_def)
qed

end
