(* ===== verification/Sparse_Ssp_Model.thy ===== *)
theory Sparse_Ssp_Model
  imports Abstract_Model Sparse_Recorder
begin

text \<open>
  \<open>server/sparsessp/sparse_ssp_model.cpp\<close>: the stale-synchronous model that answers a Get
  ahead of time when no slower worker still uses its keys.  A Clock that comes too early is
  kept in \<open>buffer_\<close> and handled, by a recursive call, when the smallest clock moves.  The
  recursive call runs inside a loop over \<open>buffer_\<close>: if it changed that vector, the loop would
  go on with invalid iterators, which is the failure \<open>Iterator_invalidated\<close> here.  It is
  proved that well-behaved workers never cause it.
\<close>

section \<open>The recorders behind their interface\<close>

datatype recorder = MapRecorder map_recorder | VectorRecorder vector_recorder

fun rec_add_record :: "bool \<Rightarrow> message \<Rightarrow> recorder \<Rightarrow> recorder res" where
  "rec_add_record debug m (MapRecorder r) = bind_res (map_add_record debug m r) (\<lambda>r. Inr (MapRecorder r))"
| "rec_add_record debug m (VectorRecorder r) = bind_res (vec_add_record debug m r) (\<lambda>r. Inr (VectorRecorder r))"

fun rec_get_non_conflict_msgs ::
  "bool \<Rightarrow> int \<Rightarrow> int \<Rightarrow> int \<Rightarrow> recorder \<Rightarrow> (recorder \<times> message list) res"
where
  "rec_get_non_conflict_msgs debug p t mc (MapRecorder r) =
     bind_res (map_get_non_conflict_msgs debug p t mc r) (\<lambda>(r, ms). Inr (MapRecorder r, ms))"
| "rec_get_non_conflict_msgs debug p t mc (VectorRecorder r) =
     bind_res (vec_get_non_conflict_msgs p t mc r) (\<lambda>(r, ms). Inr (VectorRecorder r, ms))"

fun rec_handle_too_fast_buffer :: "int \<Rightarrow> recorder \<Rightarrow> (recorder \<times> message list) res" where
  "rec_handle_too_fast_buffer mc (MapRecorder r) =
     bind_res (map_handle_too_fast_buffer mc r) (\<lambda>(r, ms). Inr (MapRecorder r, ms))"
| "rec_handle_too_fast_buffer mc (VectorRecorder r) =
     bind_res (vec_handle_too_fast_buffer mc r) (\<lambda>(r, ms). Inr (VectorRecorder r, ms))"

fun rec_remove_record :: "int \<Rightarrow> recorder \<Rightarrow> recorder" where
  "rec_remove_record v (MapRecorder r) = MapRecorder (map_remove_record v r)"
| "rec_remove_record v (VectorRecorder r) = VectorRecorder (vec_remove_record v r)"

fun rec_held :: "recorder \<Rightarrow> message multiset" where
  "rec_held (MapRecorder r) = map_held r"
| "rec_held (VectorRecorder r) = vec_held r"

fun rec_inv :: "recorder \<Rightarrow> bool" where
  "rec_inv (MapRecorder r) = map_recorder_inv r"
| "rec_inv (VectorRecorder r) = vec_recorder_inv r"

lemma recorder_dispatch:
  "sparse_recorder (rec_add_record debug) (rec_get_non_conflict_msgs debug) rec_handle_too_fast_buffer
     rec_remove_record rec_held rec_inv"
proof unfold_locales
  fix s m s'
  assume "rec_inv s" "rec_add_record debug m s = Inr s'"
  then show "rec_inv s' \<and> rec_held s' = rec_held s + (if to_i32 (msg_version m) \<noteq> 0 then {#m#} else {#})"
    using map_rec.add_law vec_rec.add_law by (cases s) (auto simp: bind_res_Inr_iff)
next
  fix s p t mc s' ms
  assume "rec_inv s" "rec_get_non_conflict_msgs debug p t mc s = Inr (s', ms)"
  then show "rec_inv s' \<and> rec_held s' + mset ms = rec_held s"
    using map_rec.non_conflict_law vec_rec.non_conflict_law by (cases s) (auto simp: bind_res_Inr_iff)
next
  fix s mc s' ms
  assume "rec_inv s" "rec_handle_too_fast_buffer mc s = Inr (s', ms)"
  then show "rec_inv s' \<and> rec_held s' + mset ms = rec_held s"
    using map_rec.too_fast_law vec_rec.too_fast_law by (cases s) (auto simp: bind_res_Inr_iff)
next
  fix s v
  assume "rec_inv s"
  then show "rec_inv (rec_remove_record v s) \<and> rec_held (rec_remove_record v s) \<subseteq># rec_held s"
    using map_rec.remove_law vec_rec.remove_law by (cases s) auto
qed

interpretation recs: sparse_recorder "rec_add_record debug" "rec_get_non_conflict_msgs debug"
  rec_handle_too_fast_buffer rec_remove_record rec_held rec_inv
  by (rule recorder_dispatch)

section \<open>The model\<close>

record 'v sparse_model =
  sp_id :: u32
  sp_storage :: "'v storage"
  sp_tracker :: progress_tracker
  sp_recorder :: recorder
  sp_buffer :: "message list"
  sp_staleness :: int
  sp_speculation :: int

definition sparse_new ::
  "u32 \<Rightarrow> 'v storage \<Rightarrow> recorder \<Rightarrow> int \<Rightarrow> int \<Rightarrow> progress_tracker \<Rightarrow> 'v sparse_model"
where
  "sparse_new mid st rec stale spec pt =
     \<lparr>sp_id = mid, sp_storage = st, sp_tracker = pt, sp_recorder = rec, sp_buffer = [],
      sp_staleness = stale, sp_speculation = spec\<rparr>"

datatype clock_outcome = Buffered | Kept | Moved

text \<open>\<open>staleness_ + speculation_ + min_clock + 1\<close>, in \<open>int\<close>\<close>

definition too_early :: "'v sparse_model \<Rightarrow> int res" where
  "too_early s =
     bind_res (as_i32 (sp_staleness s + sp_speculation s)) (\<lambda>x.
     bind_res (as_i32 (x + get_min_clock (sp_tracker s))) (\<lambda>x. as_i32 (x + 1)))"

text \<open>
  \<open>Clock\<close> up to its last loop.  Its \<open>CHECK(msg.data.size() == 1)\<close> is the check
  \<open>AbstractStorage::Get\<close> starts with.
\<close>

definition sparse_clock_body ::
  "bool \<Rightarrow> 'v val_type \<Rightarrow> message \<Rightarrow> 'v sparse_model \<Rightarrow> ('v sparse_model \<times> message list \<times> clock_outcome) res"
where
  "sparse_clock_body debug V message s =
     bind_res (too_early s) (\<lambda>limit.
     if to_u32 limit \<le> msg_version message then
       check_that (msg_version message = to_u32 limit) (Check_failed ''SparseSSPModel::Clock'')
         (Inr (s\<lparr>sp_buffer := sp_buffer s @ [message]\<rparr>, [], Buffered))
     else
       let t = msg_sender message in
       bind_res (advance (sp_tracker s) t) (\<lambda>(pt, updated_min_clock).
       bind_res (get_progress pt t) (\<lambda>progress.
       bind_res (rec_get_non_conflict_msgs debug progress t (get_min_clock pt) (sp_recorder s)) (\<lambda>(rec, msgs).
       bind_res (answer_all V msgs (sp_storage s)) (\<lambda>(st, replies).
       if updated_min_clock \<noteq> -1 then
         bind_res (rec_handle_too_fast_buffer updated_min_clock (rec_remove_record (updated_min_clock - 1) rec))
           (\<lambda>(rec, msgs).
         bind_res (answer_all V msgs st) (\<lambda>(st, replies').
           Inr (s\<lparr>sp_tracker := pt, sp_recorder := rec, sp_storage := finish_iter st\<rparr>, replies @ replies', Moved)))
       else Inr (s\<lparr>sp_tracker := pt, sp_recorder := rec, sp_storage := st\<rparr>, replies, Kept))))))"

definition drain_one ::
  "bool \<Rightarrow> 'v val_type \<Rightarrow> message \<Rightarrow> 'v sparse_model \<times> message list \<Rightarrow> ('v sparse_model \<times> message list) res"
where
  "drain_one debug V m = (\<lambda>(s, replies).
     bind_res (sparse_clock_body debug V m s) (\<lambda>(s', replies', out).
       if out = Kept then Inr (s', replies @ replies') else Inl Iterator_invalidated))"

definition sparse_clock :: "bool \<Rightarrow> 'v val_type \<Rightarrow> 'v sparse_model handler" where
  "sparse_clock debug V message s =
     bind_res (sparse_clock_body debug V message s) (\<lambda>(s, replies, out).
       if out = Moved then
         bind_res (fold_res (drain_one debug V) (sp_buffer s) (s, replies)) (\<lambda>(s, replies).
           Inr (s\<lparr>sp_buffer := []\<rparr>, replies))
       else Inr (s, replies))"

definition sparse_get :: "bool \<Rightarrow> 'v val_type \<Rightarrow> 'v sparse_model handler" where
  "sparse_get debug V message s =
     check_that (check_thread_valid (sp_tracker s) (msg_sender message)) (Check_failed ''SparseSSPModel::Get'')
     (check_that (length (data_of message) = 1) (Check_failed ''SparseSSPModel::Get'')
     (bind_res (if msg_version message = 0
                then bind_res (storage_get V message (sp_storage s)) (\<lambda>(reply, st). Inr (st, [reply]))
                else Inr (sp_storage s, [])) (\<lambda>(st, replies).
      bind_res (rec_add_record debug message (sp_recorder s)) (\<lambda>rec.
        Inr (s\<lparr>sp_storage := st, sp_recorder := rec\<rparr>, replies)))))"

definition sparse_add :: "'v val_type \<Rightarrow> 'v sparse_model handler" where
  "sparse_add V message s =
     bind_res (get_progress (sp_tracker s) (msg_sender message)) (\<lambda>progress.
     check_that (msg_version message = to_u32 progress)
       (Check_failed ''[Error]SparseSSPModel: Add version invalid'')
     (bind_res (storage_add V message (sp_storage s)) (\<lambda>st. Inr (s\<lparr>sp_storage := st\<rparr>, []))))"

definition sparse_reset_worker :: "meta \<Rightarrow> 'v sparse_model handler" where
  "sparse_reset_worker junk msg s =
     bind_res (reset_tracker ''SparseSSPModel::ResetWorker'' msg (sp_tracker s)) (\<lambda>pt.
       Inr (s\<lparr>sp_tracker := pt\<rparr>, [reset_reply junk (sp_id s) msg]))"

definition sparse_get_progress :: "int \<Rightarrow> 'v sparse_model \<Rightarrow> int res" where
  "sparse_get_progress tid s = get_progress (sp_tracker s) tid"

section \<open>The recursion is harmless\<close>

text \<open>
  Workers number their Clocks by their iteration.  Then every buffered Clock is of a worker that
  is exactly \<open>staleness_ + speculation_ + 1\<close> iterations ahead of the slowest.
\<close>

definition lead :: "'v sparse_model \<Rightarrow> int" where
  "lead s = sp_staleness s + sp_speculation s"

definition early_clock :: "'v sparse_model \<Rightarrow> message \<Rightarrow> bool" where
  "early_clock s m \<longleftrightarrow> uint (msg_version m) = lead s + min_clock (sp_tracker s) + 1
     \<and> om_get (progresses (sp_tracker s)) (msg_sender m) = Some (uint (msg_version m))"

definition sparse_ok :: "'v sparse_model \<Rightarrow> bool" where
  "sparse_ok s \<longleftrightarrow> pt_inv (sp_tracker s) \<and> 0 \<le> sp_staleness s \<and> 0 \<le> sp_speculation s
     \<and> (\<forall>m \<in> set (sp_buffer s). early_clock s m)"

lemma too_early_Inr:
  "too_early s = Inr limit \<longleftrightarrow> in_i32 (lead s) \<and> in_i32 (lead s + min_clock (sp_tracker s))
     \<and> in_i32 limit \<and> limit = lead s + min_clock (sp_tracker s) + 1"
  by (auto simp: too_early_def lead_def res_simps get_min_clock_def)

lemma limit_le_iff:
  "too_early s = Inr limit \<Longrightarrow> 0 \<le> lead s + min_clock (sp_tracker s) \<Longrightarrow>
     (to_u32 limit \<le> v \<longleftrightarrow> limit \<le> uint v) \<and> (v = to_u32 limit \<longleftrightarrow> uint v = limit)"
  using uint_to_u32[of limit] by (auto simp: too_early_Inr word_le_def in_i32_def word_uint_eq_iff)

lemma sparse_clock_body_cases:
  assumes "sparse_clock_body debug V m s = Inr (s', rs, out)"
  obtains limit where "out = Buffered" "too_early s = Inr limit" "msg_version m = to_u32 limit"
      "s' = s\<lparr>sp_buffer := sp_buffer s @ [m]\<rparr>" "rs = []"
  | limit pt umc where "out = (if umc = -1 then Kept else Moved)" "too_early s = Inr limit"
      "\<not> to_u32 limit \<le> msg_version m" "advance (sp_tracker s) (msg_sender m) = Inr (pt, umc)"
      "sp_tracker s' = pt" "sp_buffer s' = sp_buffer s" "sp_staleness s' = sp_staleness s"
      "sp_speculation s' = sp_speculation s"
proof -
  obtain limit where l: "too_early s = Inr limit"
    using assms by (auto simp: sparse_clock_body_def res_simps)
  show thesis
  proof (cases "to_u32 limit \<le> msg_version m")
    case True
    with assms l that(1)[of limit] show thesis by (auto simp: sparse_clock_body_def res_simps)
  next
    case False
    then obtain pt umc where a: "advance (sp_tracker s) (msg_sender m) = Inr (pt, umc)"
      using assms l by (auto simp: sparse_clock_body_def Let_def bind_res_Inr_iff)
    have "out = (if umc = -1 then Kept else Moved) \<and> sp_tracker s' = pt \<and> sp_buffer s' = sp_buffer s
        \<and> sp_staleness s' = sp_staleness s \<and> sp_speculation s' = sp_speculation s"
      using assms l False a by (auto simp: sparse_clock_body_def Let_def bind_res_Inr_iff split: if_splits)
    with that(2)[OF _ l False a] show thesis by blast
  qed
qed

text \<open>While the buffer is drained, the worker that moved the smallest clock holds it in place.\<close>

definition draining :: "int \<Rightarrow> 'v sparse_model \<Rightarrow> bool" where
  "draining t s \<longleftrightarrow> pt_inv (sp_tracker s) \<and> 0 \<le> lead s
     \<and> om_get (progresses (sp_tracker s)) t = Some (min_clock (sp_tracker s))"

lemma drain_body:
  assumes D: "draining t s" and m: "msg_sender m \<noteq> t" "uint (msg_version m) \<le> lead s + min_clock (sp_tracker s)"
    and b: "sparse_clock_body debug V m s = Inr (s', rs, out)"
  shows "out = Kept" "draining t s'" "lead s' = lead s" "min_clock (sp_tracker s') = min_clock (sp_tracker s)"
    "sp_staleness s' = sp_staleness s" "sp_speculation s' = sp_speculation s"
proof -
  have inv: "pt_inv (sp_tracker s)" and t: "om_get (progresses (sp_tracker s)) t = Some (min_clock (sp_tracker s))"
    and lead: "0 \<le> lead s"
    using D by (simp_all add: draining_def)
  have nonneg: "0 \<le> lead s + min_clock (sp_tracker s)"
    using lead pt_invD[OF inv t] by simp
  have "out = Kept \<and> draining t s' \<and> lead s' = lead s \<and> min_clock (sp_tracker s') = min_clock (sp_tracker s)
      \<and> sp_staleness s' = sp_staleness s \<and> sp_speculation s' = sp_speculation s"
    using b
  proof (cases rule: sparse_clock_body_cases)
    case (1 limit)
    then have "uint (msg_version m) = lead s + min_clock (sp_tracker s) + 1"
      using limit_le_iff[OF 1(2) nonneg] by (simp add: too_early_Inr)
    with m(2) show ?thesis by simp
  next
    case (2 limit pt umc)
    obtain p where p: "om_get (progresses (sp_tracker s)) (msg_sender m) = Some p"
      "progresses pt = om_set (msg_sender m) (p + 1) (progresses (sp_tracker s))"
      "if p = min_clock (sp_tracker s) \<and> (\<forall>u. om_get (progresses (sp_tracker s)) u = Some p \<longrightarrow> u = msg_sender m)
         then min_clock pt = min_clock (sp_tracker s) + 1 \<and> umc = min_clock (sp_tracker s) + 1
         else min_clock pt = min_clock (sp_tracker s) \<and> umc = -1"
      using advance_spec[OF inv 2(4)] by blast
    have "\<not> (p = min_clock (sp_tracker s) \<and> (\<forall>u. om_get (progresses (sp_tracker s)) u = Some p \<longrightarrow> u = msg_sender m))"
      using t m(1) by auto
    with p(3) have mc: "min_clock pt = min_clock (sp_tracker s)" "umc = -1" by (simp_all only: if_False)
    with 2 p(2) t m(1) lead advance_inv[OF inv 2(4)] show ?thesis
      by (simp add: draining_def lead_def)
  qed
  then show "out = Kept" "draining t s'" "lead s' = lead s" "min_clock (sp_tracker s') = min_clock (sp_tracker s)"
    "sp_staleness s' = sp_staleness s" "sp_speculation s' = sp_speculation s" by blast+
qed

text \<open>No part of a Clock fails with \<open>Iterator_invalidated\<close> by itself.\<close>

definition iter_safe :: "'a res \<Rightarrow> bool" where
  "iter_safe m \<longleftrightarrow> m \<noteq> Inl Iterator_invalidated"

named_theorems safe_intros "computations that leave no iterator dangling"

lemma iter_safe_simps [simp]:
  "iter_safe (Inr x)"
  "iter_safe (Inl e) \<longleftrightarrow> e \<noteq> Iterator_invalidated"
  "iter_safe (as_i32 n)"
  "e' \<noteq> Iterator_invalidated \<Longrightarrow> iter_safe (of_opt e' opt)"
  by (auto simp: iter_safe_def as_i32_def of_opt_def split: option.split)

lemma iter_safe_bind [safe_intros]:
  "iter_safe m \<Longrightarrow> (\<And>x. m = Inr x \<Longrightarrow> iter_safe (f x)) \<Longrightarrow> iter_safe (bind_res m f)"
  by (cases m) (auto simp: iter_safe_def)

lemma iter_safe_check [safe_intros]:
  "e \<noteq> Iterator_invalidated \<Longrightarrow> iter_safe m \<Longrightarrow> iter_safe (check_that b e m)"
  "e \<noteq> Iterator_invalidated \<Longrightarrow> iter_safe m \<Longrightarrow> iter_safe (dcheck debug b e m)"
  by (auto simp: check_that_def dcheck_def)

lemma iter_safe_fold [safe_intros]: "(\<And>x s. iter_safe (f x s)) \<Longrightarrow> iter_safe (fold_res f xs s)"
  by (induction xs arbitrary: s) (auto intro: safe_intros)

lemma iter_safe_map [safe_intros]: "(\<And>x. iter_safe (f x)) \<Longrightarrow> iter_safe (map_res f xs)"
  by (induction xs) (auto intro!: safe_intros)

lemma iter_safe_sub_get [safe_intros]: "iter_safe (sub_get V ks st)"
  by (cases st)
    (auto intro!: safe_intros simp: map_sub_get_def vector_sub_get_def vector_get_one_def vec_at_def Let_def
      split: prod.splits)

lemma iter_safe_answer_all [safe_intros]: "iter_safe (answer_all V ms st)"
  by (induction ms arbitrary: st) (auto intro!: safe_intros simp: storage_get_def Let_def split: prod.splits)

lemma iter_safe_map_route [safe_intros]: "iter_safe (map_route stale mc msg x)"
  by (cases x) (auto intro!: safe_intros simp: map_route_def msg_keys_def split: list.splits option.splits prod.splits)

lemma iter_safe_map_rest [safe_intros]:
  "iter_safe (map_remove_key debug v key x)"
  "iter_safe (map_remove_and_get debug v mc keys r msgs)"
  "iter_safe (map_blocked_here debug p t mc r)"
  "iter_safe (map_own_get p t mc y)"
  "iter_safe (map_handle_too_fast_buffer mc r)"
proof -
  show k: "iter_safe (map_remove_key debug v key x)" for v key x
    by (cases x) (auto intro!: safe_intros simp: map_remove_key_def Let_def split: prod.splits)
  show r: "iter_safe (map_remove_and_get debug v mc keys r msgs)" for v keys r msgs
    by (auto intro!: safe_intros k simp: map_remove_and_get_def split: prod.splits)
  show "iter_safe (map_blocked_here debug p t mc r)"
    by (auto intro!: safe_intros r simp: map_blocked_here_def split: option.splits prod.splits)
  show "iter_safe (map_own_get p t mc y)"
    by (cases y) (auto intro!: safe_intros simp: map_own_get_def Let_def split: option.splits prod.splits own_get.splits)
  show "iter_safe (map_handle_too_fast_buffer mc r)"
    by (auto intro!: safe_intros simp: map_handle_too_fast_buffer_def split: prod.splits)
qed

lemma iter_safe_cells [safe_intros]:
  "iter_safe (level_of r v)"
  "iter_safe (cell_at l i main)"
  "iter_safe (edit_cell l i f main)"
  by (auto intro!: safe_intros simp: level_of_def cell_at_def edit_cell_def)

lemma iter_safe_vec_conflict [safe_intros]: "iter_safe (vec_has_conflict r keys b e main)"
proof -
  have f: "iter_safe (vec_first_recorded r l main keys)" for l
    by (induction keys) (auto intro!: safe_intros split: prod.splits)
  have "iter_safe (vec_conflict_loop r keys vs main)" for vs
    by (induction vs) (auto intro!: safe_intros f split: option.splits)
  then show ?thesis by (simp add: vec_has_conflict_def)
qed

lemma iter_safe_vec_route [safe_intros]: "iter_safe (vec_route r mc msg x)"
  by (cases x) (auto intro!: safe_intros simp: vec_route_def msg_keys_def split: list.splits option.splits prod.splits)

lemma iter_safe_vec_rest [safe_intros]:
  "iter_safe (vec_remove_key r l key x)"
  "iter_safe (vec_remove_and_get v mc keys r msgs)"
  "iter_safe (vec_blocked_here p t mc r)"
  "iter_safe (vec_own_get p t mc y)"
  "iter_safe (vec_handle_too_fast_buffer mc r)"
proof -
  show k: "iter_safe (vec_remove_key r l key x)" for r l key x
    by (cases x) (auto intro!: safe_intros simp: vec_remove_key_def Let_def split: prod.splits)
  show r: "iter_safe (vec_remove_and_get v mc keys r msgs)" for v keys r msgs
    by (auto intro!: safe_intros k simp: vec_remove_and_get_def Let_def split: prod.splits)
  show "iter_safe (vec_blocked_here p t mc r)"
    by (auto intro!: safe_intros r simp: vec_blocked_here_def split: option.splits prod.splits)
  show "iter_safe (vec_own_get p t mc y)"
    by (cases y) (auto intro!: safe_intros simp: vec_own_get_def Let_def split: option.splits prod.splits own_get.splits)
  show "iter_safe (vec_handle_too_fast_buffer mc r)"
    by (auto intro!: safe_intros simp: vec_handle_too_fast_buffer_def split: prod.splits)
qed

lemma iter_safe_recorder [safe_intros]:
  "iter_safe (rec_get_non_conflict_msgs debug p t mc rc)"
  "iter_safe (rec_handle_too_fast_buffer mc rc)"
  by (cases rc; auto intro!: safe_intros simp: map_get_non_conflict_msgs_def vec_get_non_conflict_msgs_def
      split: prod.splits)+

lemma iter_safe_advance [safe_intros]: "iter_safe (advance pt t)" "iter_safe (get_progress pt t)"
  by (auto intro!: safe_intros simp: advance_def is_unique_min_def get_progress_def)

lemma iter_safe_body: "iter_safe (sparse_clock_body debug V m s)"
  by (auto intro!: safe_intros simp: sparse_clock_body_def too_early_def Let_def split: prod.splits)

lemma drain_safe:
  "draining t s \<Longrightarrow> (\<forall>m \<in> set ms. msg_sender m \<noteq> t \<and> uint (msg_version m) \<le> lead s + min_clock (sp_tracker s)) \<Longrightarrow>
     iter_safe (fold_res (drain_one debug V) ms (s, rs))
     \<and> (\<forall>s' rs'. fold_res (drain_one debug V) ms (s, rs) = Inr (s', rs') \<longrightarrow> pt_inv (sp_tracker s')
          \<and> sp_staleness s' = sp_staleness s \<and> sp_speculation s' = sp_speculation s)"
proof (induction ms arbitrary: s rs)
  case Nil
  then show ?case by (simp add: draining_def)
next
  case (Cons m ms)
  show ?case
  proof (cases "sparse_clock_body debug V m s")
    case (Inl e)
    then show ?thesis
      using iter_safe_body[of debug V m s] by (simp add: drain_one_def)
  next
    case (Inr x)
    obtain s1 rs1 out where x: "x = (s1, rs1, out)" by (cases x)
    note B = drain_body[OF Cons.prems(1) _ _ Inr[unfolded x]]
    have m: "msg_sender m \<noteq> t" "uint (msg_version m) \<le> lead s + min_clock (sp_tracker s)"
      using Cons.prems(2) by auto
    have step: "fold_res (drain_one debug V) (m # ms) (s, rs) = fold_res (drain_one debug V) ms (s1, rs @ rs1)"
      using Inr B(1)[OF m] by (simp add: drain_one_def x)
    have "\<forall>m \<in> set ms. msg_sender m \<noteq> t \<and> uint (msg_version m) \<le> lead s1 + min_clock (sp_tracker s1)"
      using Cons.prems(2) by (simp add: B(3)[OF m] B(4)[OF m])
    from Cons.IH[OF B(2)[OF m] this, of "rs @ rs1"] show ?thesis
      unfolding step by (simp add: B(5)[OF m] B(6)[OF m])
  qed
qed

text \<open>A Clock that is not parked: either the buffer stays as it is and is still early, or the smallest clock has moved
  and no buffered Clock is early any more.\<close>

lemma sparse_body_parked:
  assumes "sparse_ok s" "om_get (progresses (sp_tracker s)) (msg_sender m) = Some (uint (msg_version m))"
    and "sparse_clock_body debug V m s = Inr (s1, rs, Buffered)"
  shows "sparse_ok s1"
  using assms(3)
proof (cases rule: sparse_clock_body_cases)
  case (1 limit)
  have "pt_inv (sp_tracker s)" "progresses (sp_tracker s) \<noteq> []" "0 \<le> lead s" using assms(1,2) by (auto simp: sparse_ok_def lead_def)
  then have "0 \<le> lead s + min_clock (sp_tracker s)" using min_clock_nonneg by force
  then have "uint (msg_version m) = lead s + min_clock (sp_tracker s) + 1"
    using limit_le_iff[OF 1(2)] 1(2,3) by (simp add: too_early_Inr)
  then show ?thesis using assms(1,2) 1(4) by (auto simp: sparse_ok_def early_clock_def lead_def)
qed (simp split: if_splits)

lemma sparse_body_counted:
  assumes ok: "sparse_ok s" and p: "om_get (progresses (sp_tracker s)) (msg_sender m) = Some (uint (msg_version m))"
    and body: "sparse_clock_body debug V m s = Inr (s1, rs, out)" "out \<noteq> Buffered"
  shows "pt_inv (sp_tracker s1) \<and> sp_staleness s1 = sp_staleness s \<and> sp_speculation s1 = sp_speculation s
    \<and> (if out = Kept then sparse_ok s1
       else draining (msg_sender m) s1
         \<and> (\<forall>q \<in> set (sp_buffer s1). msg_sender q \<noteq> msg_sender m \<and> uint (msg_version q) \<le> lead s1 + min_clock (sp_tracker s1)))"
  using body(1)
proof (cases rule: sparse_clock_body_cases)
  case (2 limit pt umc)
  let ?t = "msg_sender m" and ?p = "uint (msg_version m)"
  have inv: "pt_inv (sp_tracker s)" "0 \<le> lead s" "\<And>q. q \<in> set (sp_buffer s) \<Longrightarrow> early_clock s q"
    using ok by (simp_all add: sparse_ok_def lead_def)
  have "progresses (sp_tracker s) \<noteq> []" using p by auto
  then have nonneg: "0 \<le> lead s + min_clock (sp_tracker s)" using inv(2) min_clock_nonneg[OF inv(1)] by simp
  have "?p < lead s + min_clock (sp_tracker s) + 1"
    using limit_le_iff[OF 2(2) nonneg] 2(2,3) by (auto simp: too_early_Inr)
  then have other: "msg_sender q \<noteq> ?t" if "q \<in> set (sp_buffer s)" for q using inv(3)[OF that] p by (auto simp: early_clock_def)
  have prog: "progresses pt = om_set ?t (?p + 1) (progresses (sp_tracker s))"
    and mc: "if ?p = min_clock (sp_tracker s) \<and> (\<forall>u. om_get (progresses (sp_tracker s)) u = Some ?p \<longrightarrow> u = ?t)
       then min_clock pt = min_clock (sp_tracker s) + 1 \<and> umc = min_clock (sp_tracker s) + 1
       else min_clock pt = min_clock (sp_tracker s) \<and> umc = -1"
    using advance_spec[OF inv(1) 2(4)] p by auto
  have inv1: "pt_inv (sp_tracker s1)" using advance_inv[OF inv(1) 2(4)] 2(5) by simp
  have lead1: "lead s1 = lead s" using 2(7,8) by (simp add: lead_def)
  show ?thesis
  proof (cases "umc = -1")
    case True
    then have "min_clock pt = min_clock (sp_tracker s)" using advance_unmoved[OF inv(1)] 2(4) by simp
    then have "early_clock s1 q" if "q \<in> set (sp_buffer s)" for q
      using inv(3)[OF that] other[OF that] prog 2(5) lead1 by (simp add: early_clock_def)
    then show ?thesis using ok inv1 2 True by (simp add: sparse_ok_def)
  next
    case False
    then have moved: "?p = min_clock (sp_tracker s)" "min_clock pt = min_clock (sp_tracker s) + 1" using mc by (auto split: if_splits)
    then have "draining ?t s1" using inv1 inv(2) prog 2(5) lead1 by (simp add: draining_def)
    then show ?thesis using other inv(3) moved(2) 2 lead1 inv1 False by (simp add: early_clock_def)
  qed
qed (use body(2) in simp)

text \<open>C8. Workers that number their Clocks by their iteration never make the recursive Clock change
  the vector it is looping over: \<open>Clock\<close> does not run into invalid iterators, and afterwards the
  buffer again holds only Clocks exactly \<open>staleness_ + speculation_ + 1\<close> iterations ahead.\<close>

theorem sparse_clock_recursion_safe:
  assumes "sparse_ok s" "get_progress (sp_tracker s) (msg_sender m) = Inr p" "uint (msg_version m) = p"
  shows "sparse_clock debug V m s \<noteq> Inl Iterator_invalidated
    \<and> (\<forall>s' rs. sparse_clock debug V m s = Inr (s', rs) \<longrightarrow> sparse_ok s')"
proof (cases "sparse_clock_body debug V m s")
  case (Inl e)
  then show ?thesis using iter_safe_body[of debug V m s] by (simp add: sparse_clock_def)
next
  case (Inr x)
  obtain s1 rs out where x: "x = (s1, rs, out)" by (cases x)
  note body = Inr[unfolded x]
  have p: "om_get (progresses (sp_tracker s)) (msg_sender m) = Some (uint (msg_version m))" using assms(2,3) by (simp add: res_simps)
  consider "out = Buffered" | "out = Kept" | "out = Moved" by (cases out) auto
  then show ?thesis
  proof cases
    case 1
    then show ?thesis using sparse_body_parked[OF assms(1) p] body by (simp add: sparse_clock_def)
  next
    case 2
    then show ?thesis using sparse_body_counted[OF assms(1) p body] body by (simp add: sparse_clock_def)
  next
    case 3
    then have c: "pt_inv (sp_tracker s1)" "sp_staleness s1 = sp_staleness s" "sp_speculation s1 = sp_speculation s" "draining (msg_sender m) s1"
      "\<forall>q \<in> set (sp_buffer s1). msg_sender q \<noteq> msg_sender m \<and> uint (msg_version q) \<le> lead s1 + min_clock (sp_tracker s1)"
      using sparse_body_counted[OF assms(1) p body] by simp_all
    note S = drain_safe[OF c(4,5), of debug V rs]
    let ?d = "fold_res (drain_one debug V) (sp_buffer s1) (s1, rs)"
    have eq: "sparse_clock debug V m s = bind_res ?d (\<lambda>(s, replies). Inr (s\<lparr>sp_buffer := []\<rparr>, replies))"
      using body 3 by (simp add: sparse_clock_def)
    show ?thesis
    proof (cases ?d)
      case (Inl e)
      then show ?thesis using S eq by simp
    next
      case (Inr y)
      then show ?thesis using S eq c(2,3) assms(1) by (cases y) (simp add: sparse_ok_def)
    qed
  qed
qed

definition sparse_demo :: "int \<Rightarrow> int \<Rightarrow> int \<Rightarrow> message list \<Rightarrow> u32 sparse_model" where
  "sparse_demo p q mc early =
     (sparse_new 0 (demo_storage [0, 0]) (MapRecorder (map_recorder_new 0 0)) 0 0
        \<lparr>progresses = [(100, p), (101, q)], min_clock = mc\<rparr>)\<lparr>sp_buffer := early\<rparr>"

text \<open>Worker 100 has sent its Clock of iteration 1 before worker 101 sent the one of iteration 0.\<close>

lemma sparse_clock_recursion_safe_witness:
  "\<exists>early s'. sparse_clock True u32_val (demo_msg kClock 101 []) (sparse_demo 1 0 0 [early]) = Inr (s', [])
     \<and> sparse_ok s' \<and> progresses (sp_tracker s') = [(100, 2), (101, 1)] \<and> sp_buffer s' = []"
proof -
  let ?early = "(demo_msg kClock 100 [])\<lparr>meta_of := (meta_of (demo_msg kClock 100 []))\<lparr>version := 1\<rparr>\<rparr>"
  let ?s = "sparse_demo 1 0 0 [?early]"
  have "sparse_ok ?s"
    by (auto simp: sparse_ok_def sparse_demo_def sparse_new_def early_clock_def lead_def demo_msg_def pt_inv_def
        om_wf_def in_i32_def)
  moreover have "get_progress (sp_tracker ?s) (msg_sender (demo_msg kClock 101 [])) = Inr 0"
    by code_simp
  moreover have "uint (msg_version (demo_msg kClock 101 [])) = 0"
    by (simp add: demo_msg_def)
  moreover have run: "sparse_clock True u32_val (demo_msg kClock 101 []) ?s = Inr (sparse_demo 2 1 1 [], [])"
    by code_simp
  ultimately have "sparse_ok (sparse_demo 2 1 1 [])"
    using sparse_clock_recursion_safe by blast
  moreover have "progresses (sp_tracker (sparse_demo 2 1 1 [])) = [(100, 2), (101, 1)]"
    "sp_buffer (sparse_demo 2 1 1 []) = []"
    by (simp_all add: sparse_demo_def sparse_new_def)
  ultimately show ?thesis using run by blast
qed

end
