(* ===== verification/Server_Thread.thy ===== *)
theory Server_Thread
  imports Asp_Model Bsp_Model Ssp_Model Sparse_Ssp_Model
begin

text \<open>
  \<open>server/server_thread.cpp\<close>, \<open>server/server_thread_group.hpp\<close>: a server thread owns one
  consistency model per table and handles the messages of its work queue one after the other
  until it is told to exit.  The virtual calls of \<open>AbstractModel\<close> are the dispatch functions
  below.  The tables of a server may differ in the addition of their values; they share the
  representation \<open>'v\<close> (32-bit integers and floats are both 32-bit words).
\<close>

datatype 'v model =
    AspModel "'v asp_model"
  | BspModel "'v bsp_model"
  | SspModel "'v ssp_model"
  | SparseSspModel "'v sparse_model"

definition lift_model :: "('s \<Rightarrow> 'v model) \<Rightarrow> ('s \<times> message list) res \<Rightarrow> ('v model \<times> message list) res" where
  "lift_model c m = bind_res m (\<lambda>(s, rs). Inr (c s, rs))"

fun model_clock :: "bool \<Rightarrow> 'v val_type \<Rightarrow> 'v model handler" where
  "model_clock debug V m (AspModel s) = lift_model AspModel (asp_clock m s)"
| "model_clock debug V m (BspModel s) = lift_model BspModel (bsp_clock V m s)"
| "model_clock debug V m (SspModel s) = lift_model SspModel (ssp_clock V m s)"
| "model_clock debug V m (SparseSspModel s) = lift_model SparseSspModel (sparse_clock debug V m s)"

fun model_add :: "'v val_type \<Rightarrow> 'v model handler" where
  "model_add V m (AspModel s) = lift_model AspModel (asp_add V m s)"
| "model_add V m (BspModel s) = lift_model BspModel (bsp_add m s)"
| "model_add V m (SspModel s) = lift_model SspModel (ssp_add V m s)"
| "model_add V m (SparseSspModel s) = lift_model SparseSspModel (sparse_add V m s)"

fun model_get :: "bool \<Rightarrow> 'v val_type \<Rightarrow> 'v model handler" where
  "model_get debug V m (AspModel s) = lift_model AspModel (asp_get V m s)"
| "model_get debug V m (BspModel s) = lift_model BspModel (bsp_get V m s)"
| "model_get debug V m (SspModel s) = lift_model SspModel (ssp_get V m s)"
| "model_get debug V m (SparseSspModel s) = lift_model SparseSspModel (sparse_get debug V m s)"

fun model_reset_worker :: "meta \<Rightarrow> 'v model handler" where
  "model_reset_worker junk m (AspModel s) = lift_model AspModel (asp_reset_worker junk m s)"
| "model_reset_worker junk m (BspModel s) = lift_model BspModel (bsp_reset_worker junk m s)"
| "model_reset_worker junk m (SspModel s) = lift_model SspModel (ssp_reset_worker junk m s)"
| "model_reset_worker junk m (SparseSspModel s) = lift_model SparseSspModel (sparse_reset_worker junk m s)"

fun model_get_progress :: "int \<Rightarrow> 'v model \<Rightarrow> int res" where
  "model_get_progress tid (AspModel s) = asp_get_progress tid s"
| "model_get_progress tid (BspModel s) = bsp_get_progress tid s"
| "model_get_progress tid (SspModel s) = ssp_get_progress tid s"
| "model_get_progress tid (SparseSspModel s) = sparse_get_progress tid s"

record 'v server_thread =
  server_id :: u32
  models :: "(u32, 'v val_type \<times> 'v model) omap"

definition server_new :: "u32 \<Rightarrow> 'v server_thread" where
  "server_new sid = \<lparr>server_id = sid, models = []\<rparr>"

definition register_model :: "u32 \<Rightarrow> 'v val_type \<Rightarrow> 'v model \<Rightarrow> 'v server_thread \<Rightarrow> 'v server_thread res" where
  "register_model mid V m srv =
     check_that (om_get (models srv) mid = None) (Check_failed ''ServerThread::RegisterModel'')
       (Inr (srv\<lparr>models := om_insert mid (V, m) (models srv)\<rparr>))"

definition get_model :: "u32 \<Rightarrow> 'v server_thread \<Rightarrow> ('v val_type \<times> 'v model) res" where
  "get_model mid srv = of_opt (Check_failed ''ServerThread::GetModel'') (om_get (models srv) mid)"

text \<open>One turn of the loop of \<open>Main\<close>, for a message other than \<open>kExit\<close>.\<close>

definition model_handle :: "bool \<Rightarrow> meta \<Rightarrow> 'v val_type \<Rightarrow> 'v model handler" where
  "model_handle debug junk V msg m =
     (case msg_flag msg of
        kClock \<Rightarrow> model_clock debug V msg m
      | kAdd \<Rightarrow> model_add V msg m
      | kGet \<Rightarrow> model_get debug V msg m
      | kResetWorkerInModel \<Rightarrow> model_reset_worker junk msg m
      | _ \<Rightarrow> Inl (Check_failed ''ServerThread::Main: Unknown flag in msg''))"

definition server_handle ::
  "bool \<Rightarrow> meta \<Rightarrow> message \<Rightarrow> 'v server_thread \<Rightarrow> ('v server_thread \<times> message list) res"
where
  "server_handle debug junk msg srv =
     (let mid = to_u32 (msg_model msg) in
      bind_res (of_opt (Check_failed ''ServerThread::Main: Unknown model_id'') (om_get (models srv) mid)) (\<lambda>(V, m).
      bind_res (model_handle debug junk V msg m) (\<lambda>(m', rs).
        Inr (srv\<lparr>models := om_set mid (V, m') (models srv)\<rparr>, rs))))"

text \<open>
  \<open>Main\<close> on the messages its queue will hold.  It stops after \<open>kExit\<close> with the rest of the
  queue unread; \<open>False\<close> says that it waits on the empty queue.
\<close>

fun server_main ::
  "bool \<Rightarrow> meta \<Rightarrow> message tsq \<Rightarrow> 'v server_thread \<Rightarrow> ('v server_thread \<times> message list \<times> message tsq \<times> bool) res"
where
  "server_main debug junk [] srv = Inr (srv, [], [], False)"
| "server_main debug junk (msg # q) srv =
     (if msg_flag msg = kExit then Inr (srv, [], q, True)
      else bind_res (server_handle debug junk msg srv) (\<lambda>(srv, rs).
           bind_res (server_main debug junk q srv) (\<lambda>(srv, rs', q', stopped). Inr (srv, rs @ rs', q', stopped))))"

text \<open>A group is the servers of one process, in the order of their ids.\<close>

definition server_thread_group :: "u32 list \<Rightarrow> 'v server_thread list" where
  "server_thread_group server_id_vec = fold (\<lambda>sid ts. ts @ [server_new sid]) server_id_vec []"

section \<open>The contract of the table, whatever its model\<close>

fun model_tracker :: "'v model \<Rightarrow> progress_tracker" where
  "model_tracker (AspModel s) = asp_tracker s"
| "model_tracker (BspModel s) = bsp_tracker s"
| "model_tracker (SspModel s) = ssp_tracker s"
| "model_tracker (SparseSspModel s) = sp_tracker s"

fun model_pending :: "'v model \<Rightarrow> message list" where
  "model_pending (AspModel s) = []"
| "model_pending (BspModel s) = get_buffer s"
| "model_pending (SspModel s) = ssp_pending s"
| "model_pending (SparseSspModel s) = []"

text \<open>The sparse model keeps a Get on record after answering it; its law is the one of its recorder.\<close>

fun model_inv :: "'v model \<Rightarrow> bool" where
  "model_inv (AspModel s) = asp_inv s"
| "model_inv (BspModel s) = bsp_inv s"
| "model_inv (SspModel s) = ssp_inv s"
| "model_inv (SparseSspModel s) = False"

lemma lift_model_Inr: "lift_model c m = Inr (s', rs) \<longleftrightarrow> (\<exists>s. m = Inr (s, rs) \<and> s' = c s)"
  by (auto simp: lift_model_def res_simps)

lemma model_dispatch:
  assumes "val_type V"
  shows "consistency_model (model_clock debug V) (model_add V) (model_get debug V) (model_reset_worker junk)
     model_tracker model_pending model_inv"
proof -
  note laws = val_type.asp_consistency_model[OF assms, of junk] val_type.bsp_consistency_model[OF assms, of junk]
    val_type.ssp_consistency_model[OF assms, of junk]
  show ?thesis
  proof unfold_locales
    fix s m s' rs
    assume "model_inv s" "model_clock debug V m s = Inr (s', rs)"
    then show "model_inv s' \<and> get_ids rs + ask_ids (model_pending s') = ask_ids (model_pending s)
      \<and> (\<exists>r. advance (model_tracker s) (msg_sender m) = Inr (model_tracker s', r))"
      by (cases s) (auto simp: lift_model_Inr dest: laws[THEN consistency_model.clock_law])
  next
    fix s m s' rs
    assume "model_inv s" "model_add V m s = Inr (s', rs)"
    then show "model_inv s' \<and> rs = [] \<and> model_pending s' = model_pending s \<and> model_tracker s' = model_tracker s"
      by (cases s) (auto simp: lift_model_Inr dest: laws[THEN consistency_model.add_law])
  next
    fix s m s' rs
    assume "model_inv s" "msg_flag m = kGet" "model_get debug V m s = Inr (s', rs)"
    then show "model_inv s' \<and> get_ids rs + ask_ids (model_pending s') = add_mset (request_id m) (ask_ids (model_pending s))
      \<and> model_tracker s' = model_tracker s"
      by (cases s) (auto simp: lift_model_Inr dest: laws[THEN consistency_model.get_law])
  next
    fix s :: "'a model" and m s' rs
    assume "model_inv s" "model_reset_worker junk m s = Inr (s', rs)"
    then show "model_inv s' \<and> get_ids rs = {#} \<and> model_pending s' = model_pending s
      \<and> model_tracker s' = pt_init (keys_of (data_of m ! 0)) (model_tracker s)"
      by (cases s) (auto simp: lift_model_Inr dest: laws[THEN consistency_model.reset_law])
  next
    fix s :: "'a model"
    assume "model_inv s"
    then show "pt_inv (model_tracker s)"
      by (cases s) (auto simp: asp_inv_def bsp_inv_def ssp_inv_def)
  qed
qed

interpretation model_u32: consistency_model "model_clock debug u32_val" "model_add u32_val"
  "model_get debug u32_val" "model_reset_worker junk" model_tracker model_pending model_inv
  by (rule model_dispatch) (rule u32_val.val_type_axioms)

interpretation model_float: consistency_model "model_clock debug (float_val fadd)" "model_add (float_val fadd)"
  "model_get debug (float_val fadd)" "model_reset_worker junk" model_tracker model_pending model_inv
  by (rule model_dispatch) (rule float_val.val_type_axioms)

text \<open>A run of one table over its messages.\<close>

fun model_run :: "bool \<Rightarrow> meta \<Rightarrow> 'v val_type \<Rightarrow> message list \<Rightarrow> 'v model \<Rightarrow> ('v model \<times> message list) res" where
  "model_run debug junk V [] m = Inr (m, [])"
| "model_run debug junk V (msg # msgs) m =
     bind_res (model_handle debug junk V msg m) (\<lambda>(m, rs).
     bind_res (model_run debug junk V msgs m) (\<lambda>(m, rs'). Inr (m, rs @ rs')))"

lemma model_run_handle_all:
  assumes "val_type V"
  shows "model_run debug junk V msgs m
    = consistency_model.handle_all (model_clock debug V) (model_add V) (model_get debug V) (model_reset_worker junk) msgs m"
proof -
  note M = model_dispatch[OF assms, of debug junk]
  have "model_handle debug junk V msg m
      = consistency_model.handle (model_clock debug V) (model_add V) (model_get debug V) (model_reset_worker junk) msg m"
    for msg m
    by (simp add: model_handle_def consistency_model.handle_def[OF M])
  then show ?thesis
    by (induction msgs arbitrary: m) (simp_all add: consistency_model.handle_all.simps[OF M])
qed

section \<open>Properties of the loop\<close>

text \<open>The messages \<open>Main\<close> handles for one table.\<close>

definition for_table :: "u32 \<Rightarrow> message list \<Rightarrow> message list" where
  "for_table mid q = filter (\<lambda>m. to_u32 (msg_model m) = mid) (takeWhile (\<lambda>m. msg_flag m \<noteq> kExit) q)"

lemma for_table_simps [simp]:
  "for_table mid [] = []"
  "for_table mid (m # q) =
     (if msg_flag m = kExit then []
      else if to_u32 (msg_model m) = mid then m # for_table mid q else for_table mid q)"
  by (simp_all add: for_table_def)

text \<open>The messages \<open>Main\<close> handles, and what is sent for the messages of one table when \<open>outs\<close> has
  the replies message by message.\<close>

definition handled :: "message list \<Rightarrow> message list" where
  "handled q = takeWhile (\<lambda>m. msg_flag m \<noteq> kExit) q"

definition sent_for :: "u32 \<Rightarrow> message list \<Rightarrow> message list list \<Rightarrow> message list" where
  "sent_for mid msgs outs = concat (map snd (filter (\<lambda>p. to_u32 (msg_model (fst p)) = mid) (zip msgs outs)))"

lemma handled_simps [simp]:
  "handled [] = []"
  "handled (m # q) = (if msg_flag m = kExit then [] else m # handled q)"
  by (simp_all add: handled_def)

lemma sent_for_simps [simp]:
  "sent_for mid [] outs = []"
  "sent_for mid (m # msgs) (rs # outs) =
     (if to_u32 (msg_model m) = mid then rs @ sent_for mid msgs outs else sent_for mid msgs outs)"
  by (simp_all add: sent_for_def)

lemma server_handleE:
  assumes "server_handle debug junk msg srv = Inr (srv', rs)"
  obtains V m m' where "om_get (models srv) (to_u32 (msg_model msg)) = Some (V, m)"
    "model_handle debug junk V msg m = Inr (m', rs)"
    "srv' = srv\<lparr>models := om_set (to_u32 (msg_model msg)) (V, m') (models srv)\<rparr>"
  using assms by (auto simp: server_handle_def Let_def res_simps)

lemma server_main_ConsE:
  assumes "server_main debug junk (msg # q) srv = Inr (srv', rs, rest, stopped)" "msg_flag msg \<noteq> kExit"
  obtains srv1 rs1 rs2 where "server_handle debug junk msg srv = Inr (srv1, rs1)"
    "server_main debug junk q srv1 = Inr (srv', rs2, rest, stopped)" "rs = rs1 @ rs2"
  using assms by (auto simp: res_simps)

text \<open>C6. The tables of a server thread do not interfere: after \<open>Main\<close> has gone through its
  queue, every table is in the state it would be in had it received only its own messages, in
  their order and up to the exit message.  The replies the thread sends are exactly the replies of
  its tables: they fall into one piece for each message handled, and the pieces of the messages of
  a table are, in this order, all that the table sends on its own.  No table appears or vanishes, and
  the queue keeps what comes behind the exit message.\<close>

theorem server_tables_independent:
  assumes "server_main debug junk q srv = Inr (srv', rs, rest, stopped)"
  shows "\<exists>outs. length outs = length (handled q) \<and> rs = concat outs
    \<and> (\<forall>mid. case om_get (models srv) mid of
          None \<Rightarrow> for_table mid q = [] \<and> om_get (models srv') mid = None
        | Some (V, m) \<Rightarrow> (\<exists>m'. model_run debug junk V (for_table mid q) m = Inr (m', sent_for mid (handled q) outs)
            \<and> om_get (models srv') mid = Some (V, m')))
    \<and> server_id srv' = server_id srv
    \<and> stopped = (\<exists>m \<in> set q. msg_flag m = kExit) \<and> q = handled q @ take (if stopped then 1 else 0) (drop (length (handled q)) q) @ rest"
  using assms
proof (induction q arbitrary: srv rs)
  case Nil
  then show ?case by (auto split: option.split)
next
  case (Cons msg q)
  show ?case
  proof (cases "msg_flag msg = kExit")
    case True
    with Cons.prems show ?thesis by (auto split: option.split)
  next
    case False
    obtain srv1 rs1 rs2 where h: "server_handle debug junk msg srv = Inr (srv1, rs1)"
      and run: "server_main debug junk q srv1 = Inr (srv', rs2, rest, stopped)" and rs: "rs = rs1 @ rs2"
      using Cons.prems False by (rule server_main_ConsE)
    obtain V m m' where t: "om_get (models srv) (to_u32 (msg_model msg)) = Some (V, m)"
      "model_handle debug junk V msg m = Inr (m', rs1)"
      "srv1 = srv\<lparr>models := om_set (to_u32 (msg_model msg)) (V, m') (models srv)\<rparr>"
      using h by (rule server_handleE)
    obtain outs where o: "length outs = length (handled q)" "rs2 = concat outs"
      "\<forall>mid. case om_get (models srv1) mid of
          None \<Rightarrow> for_table mid q = [] \<and> om_get (models srv') mid = None
        | Some (V, m) \<Rightarrow> (\<exists>m'. model_run debug junk V (for_table mid q) m = Inr (m', sent_for mid (handled q) outs)
            \<and> om_get (models srv') mid = Some (V, m'))"
      "server_id srv' = server_id srv1" "stopped = (\<exists>m \<in> set q. msg_flag m = kExit)"
      "q = handled q @ take (if stopped then 1 else 0) (drop (length (handled q)) q) @ rest"
      using Cons.IH[OF run] by blast
    have "case om_get (models srv) mid of
          None \<Rightarrow> for_table mid (msg # q) = [] \<and> om_get (models srv') mid = None
        | Some (V, m) \<Rightarrow> (\<exists>m'. model_run debug junk V (for_table mid (msg # q)) m
              = Inr (m', sent_for mid (handled (msg # q)) (rs1 # outs))
            \<and> om_get (models srv') mid = Some (V, m'))" for mid
      using o(3)[rule_format, of mid] t False by (auto split: option.splits if_splits)
    then show ?thesis
      using o(1,2,4,5,6) rs t(3) False by (intro exI[of _ "rs1 # outs"]) simp
  qed
qed

text \<open>The Gets that wait in the tables of a server, and the tables whose model answers or parks a Get:
  all but the sparse ones.\<close>

definition waiting_gets :: "'v server_thread \<Rightarrow> request_id multiset" where
  "waiting_gets srv = om_weight (\<lambda>t. ask_ids (model_pending (snd t))) (models srv)"

definition dense_tables :: "'v server_thread \<Rightarrow> bool" where
  "dense_tables srv \<longleftrightarrow> om_wf (models srv)
     \<and> (\<forall>mid V m. om_get (models srv) mid = Some (V, m) \<longrightarrow> val_type V \<and> model_inv m)"

lemma server_handle_gets:
  assumes "dense_tables srv" "server_handle debug junk msg srv = Inr (srv', rs)"
  shows "dense_tables srv'" "get_ids rs + waiting_gets srv' = ask_ids [msg] + waiting_gets srv"
proof -
  let ?mid = "to_u32 (msg_model msg)"
  obtain V m m' where t: "om_get (models srv) ?mid = Some (V, m)" "model_handle debug junk V msg m = Inr (m', rs)"
    "srv' = srv\<lparr>models := om_set ?mid (V, m') (models srv)\<rparr>"
    using assms(2) by (rule server_handleE)
  have V: "val_type V" "model_inv m" using assms(1) t(1) by (auto simp: dense_tables_def)
  note M = model_dispatch[OF V(1), of debug junk]
  have "model_inv m' \<and> get_ids rs + ask_ids (model_pending m') = ask_ids [msg] + ask_ids (model_pending m)"
    using consistency_model.handle_step[OF M V(2), of msg m' rs] t(2)
    by (simp add: model_handle_def consistency_model.handle_def[OF M])
  note step = conjunct1[OF this] conjunct2[OF this]
  show "dense_tables srv'" using assms(1) step(1) t(3) V(1) by (auto simp: dense_tables_def)
  have "waiting_gets srv' + ask_ids (model_pending m) = waiting_gets srv + ask_ids (model_pending m')"
    using om_weight_set[of "models srv" "\<lambda>t. ask_ids (model_pending (snd t))" "(V, AspModel undefined)" ?mid "(V, m')"]
      assms(1) t(1,3) by (simp add: waiting_gets_def dense_tables_def)
  then have "get_ids rs + waiting_gets srv' + ask_ids (model_pending m)
      = get_ids rs + ask_ids (model_pending m') + waiting_gets srv" by (simp add: ac_simps)
  then show "get_ids rs + waiting_gets srv' = ask_ids [msg] + waiting_gets srv"
    unfolding step(2) by (simp add: ac_simps)
qed

text \<open>C5. A server thread whose tables are under the asynchronous, the bulk-synchronous and the
  stale-synchronous model, in any mixture, loses no Get and answers none twice: the answers in all
  that it sends, together with the Gets its tables still hold, are, as a multiset, the Gets it handled and those
  that were held before.\<close>

theorem server_answers_every_get_once:
  assumes "server_main debug junk q srv = Inr (srv', rs, rest, stopped)" "dense_tables srv"
  shows "dense_tables srv' \<and> get_ids rs + waiting_gets srv' = ask_ids (handled q) + waiting_gets srv"
  using assms
proof (induction q arbitrary: srv rs)
  case Nil
  then show ?case by simp
next
  case (Cons msg q)
  show ?case
  proof (cases "msg_flag msg = kExit")
    case True
    with Cons.prems show ?thesis by simp
  next
    case False
    obtain srv1 rs1 rs2 where h: "server_handle debug junk msg srv = Inr (srv1, rs1)"
      and run: "server_main debug junk q srv1 = Inr (srv', rs2, rest, stopped)" and rs: "rs = rs1 @ rs2"
      using Cons.prems(1) False by (rule server_main_ConsE)
    note step = server_handle_gets[OF Cons.prems(2) h]
    have "get_ids rs + waiting_gets srv' = get_ids rs1 + (ask_ids (handled q) + waiting_gets srv1)"
      using Cons.IH[OF run step(1)] by (simp add: rs ac_simps)
    also have "\<dots> = ask_ids (handled q) + (get_ids rs1 + waiting_gets srv1)" by (simp only: ac_simps)
    also have "\<dots> = ask_ids (handled (msg # q)) + waiting_gets srv" using step(2) False by (simp add: ac_simps)
    finally show ?thesis using Cons.IH[OF run step(1)] by simp
  qed
qed

text \<open>A server with an asynchronous and a stale-synchronous table, and a queue for both.\<close>

definition server_demo :: "int \<Rightarrow> pending_buffer \<Rightarrow> u32 server_thread" where
  "server_demo p buf =
     \<lparr>server_id = 0, models =
        [(0, u32_val, SspModel (ssp_demo p 0 0 buf)),
         (1, u32_val, AspModel (asp_new 1 (demo_storage [0, 0]) \<lparr>progresses = [(100, 0)], min_clock = 0\<rparr>))]\<rparr>"

abbreviation other_get :: message where
  "other_get \<equiv> demo_get\<lparr>meta_of := (meta_of demo_get)\<lparr>model_id := 1\<rparr>\<rparr>"

abbreviation server_queue :: "message list" where
  "server_queue \<equiv> [demo_msg kClock 100 [], other_get, demo_get, demo_msg kExit 0 [], demo_get]"

definition other_reply :: message where
  "other_reply = ssp_demo_reply\<lparr>meta_of := (meta_of ssp_demo_reply)\<lparr>model_id := 1\<rparr>\<rparr>"

lemma server_demo_run:
  "server_main True junk server_queue (server_demo 0 [])
     = Inr (server_demo 1 [(1, [demo_get])], [other_reply], [demo_get], True)"
proof -
  let ?asp = "asp_new 1 (demo_storage [0, 0]) \<lparr>progresses = [(100, 0)], min_clock = 0\<rparr>"
  have 1: "ssp_clock u32_val (demo_msg kClock 100 []) (ssp_demo 0 0 0 []) = Inr (ssp_demo 1 0 0 [], [])"
    by code_simp
  have 2: "asp_get u32_val other_get ?asp = Inr (?asp, [other_reply])"
    by code_simp
  have 3: "ssp_get u32_val demo_get (ssp_demo 1 0 0 []) = Inr (ssp_demo 1 0 0 [(1, [demo_get])], [])"
    by code_simp
  have f: "msg_flag (demo_msg fl t ds) = fl" "msg_model (demo_msg fl t ds) = 0" for fl t ds
    by (simp_all add: demo_msg_def)
  show ?thesis
    using 1 2 3 by (simp add: server_handle_def model_handle_def lift_model_def server_demo_def to_u32_def f)
qed

lemma server_tables_independent_witness:
  "\<exists>outs. length outs = 3 \<and> [other_reply] = concat outs
     \<and> (\<exists>m'. model_run True (meta_of demo_get) u32_val [demo_msg kClock 100 [], demo_get] (SspModel (ssp_demo 0 0 0 []))
           = Inr (m', sent_for 0 [demo_msg kClock 100 [], other_get, demo_get] outs)
         \<and> m' = SspModel (ssp_demo 1 0 0 [(1, [demo_get])]))"
proof -
  have q: "handled server_queue = [demo_msg kClock 100 [], other_get, demo_get]"
    by (simp add: demo_msg_def)
  have t: "for_table 0 server_queue = [demo_msg kClock 100 [], demo_get]"
    by (simp add: demo_msg_def to_u32_def)
  obtain outs where o: "length outs = length (handled server_queue)" "[other_reply] = concat outs"
    "case om_get (models (server_demo 0 [])) 0 of
          None \<Rightarrow> for_table 0 server_queue = [] \<and> om_get (models (server_demo 1 [(1, [demo_get])])) 0 = None
        | Some (V, m) \<Rightarrow> (\<exists>m'. model_run True (meta_of demo_get) V (for_table 0 server_queue) m
              = Inr (m', sent_for 0 (handled server_queue) outs)
            \<and> om_get (models (server_demo 1 [(1, [demo_get])])) 0 = Some (V, m'))"
    using server_tables_independent[OF server_demo_run, of "meta_of demo_get"] by blast
  have "length outs = 3" using o(1) q by simp
  with o(2,3) show ?thesis
    unfolding q t by (intro exI[of _ outs]) (auto simp: server_demo_def)
qed

lemma server_answers_every_get_once_witness:
  "dense_tables (server_demo 1 [(1, [demo_get])])
   \<and> get_ids [other_reply] + waiting_gets (server_demo 1 [(1, [demo_get])]) = {#request_id other_get, request_id demo_get#}"
proof -
  have "model_inv (SspModel (ssp_demo 0 0 0 []))"
    "model_inv (AspModel (asp_new 1 (demo_storage [0, 0]) \<lparr>progresses = [(100, 0)], min_clock = 0\<rparr>))"
    using ssp_demo_fresh
    by (auto simp: ssp_fresh_def asp_inv_def asp_new_def demo_storage_inv pt_inv_def om_wf_def in_i32_def)
  then have dense: "dense_tables (server_demo 0 [])"
    by (auto simp: dense_tables_def server_demo_def om_wf_def u32_val.val_type_axioms split: if_splits)
  have "handled server_queue = [demo_msg kClock 100 [], other_get, demo_get]"
    by (simp add: demo_msg_def)
  moreover have "ask_ids [demo_msg kClock 100 [], other_get, demo_get] = {#request_id other_get, request_id demo_get#}"
    by (simp add: demo_msg_def)
  moreover have "waiting_gets (server_demo 0 []) = {#}"
    by (simp add: waiting_gets_def server_demo_def ssp_demo_def pb_all_def)
  ultimately show ?thesis
    using server_answers_every_get_once[OF server_demo_run dense] by (simp only: add_0_right)
qed

end
