(* ===== verification/Partition.thy ===== *)
theory Partition
  imports Storage
begin

text \<open>
  \<open>worker/kvpairs.hpp\<close>, \<open>worker/abstract_partition_manager.hpp\<close>, \<open>worker/simple_range_manager.hpp\<close>:
  how a client cuts the keys of a request into the pieces of the servers.  The locale
  \<open>partitioner\<close> is what a client table relies on.
\<close>

record 'v kvpairs =
  kv_keys :: "u32 list"
  kv_vals :: "'v list"

type_synonym sliced_kvs = "(u32 \<times> u8 kvpairs) list"

record partition_manager =
  pm_ranges :: "range list"
  pm_server_ids :: "u32 list"

definition pm_new :: "range list \<Rightarrow> u32 list \<Rightarrow> partition_manager res" where
  "pm_new ranges ids =
     check_that (length ranges = length ids) (Check_failed ''SimpleRangePartitionManager'')
       (Inr \<lparr>pm_ranges = ranges, pm_server_ids = ids\<rparr>)"

definition pm_num_servers :: "partition_manager \<Rightarrow> nat" where
  "pm_num_servers pm = length (pm_ranges pm)"

definition segment :: "nat \<Rightarrow> nat \<Rightarrow> 'a list \<Rightarrow> 'a list" where
  "segment b e xs = take (e - b) (drop b xs)"

fun slice_loop :: "u8 kvpairs \<Rightarrow> nat \<Rightarrow> (range \<times> u32) list \<Rightarrow> nat \<Rightarrow> sliced_kvs" where
  "slice_loop send ratio [] begin_idx = []"
| "slice_loop send ratio ((r, sid) # rest) begin_idx =
     (let split = lower_bound (\<lambda>k. (ucast k :: u64) < rend r) (kv_keys send) begin_idx;
          kv = \<lparr>kv_keys = segment begin_idx split (kv_keys send),
                kv_vals = segment (begin_idx * ratio) (split * ratio) (kv_vals send)\<rparr>
      in (if begin_idx < split then [(sid, kv)] else []) @ slice_loop send ratio rest split)"

definition slice :: "partition_manager \<Rightarrow> u8 kvpairs \<Rightarrow> sliced_kvs res" where
  "slice pm send =
     (if pm_ranges pm = [] then Inl Out_of_bounds
      else let begin_idx = lower_bound (\<lambda>k. (ucast k :: u64) < rbegin (hd (pm_ranges pm))) (kv_keys send) 0
           in if kv_keys send = [] then Inl Div_by_zero
              else let ratio = length (kv_vals send) div length (kv_keys send)
                   in Inr (slice_loop send ratio (zip (pm_ranges pm) (pm_server_ids pm)) begin_idx))"

section \<open>The contract\<close>

text \<open>
  \<open>owns i k\<close>: the \<open>i\<close>-th server holds key \<open>k\<close>.  For sorted keys that some server holds, the
  pieces are, in order, the non-empty sets of keys of the servers, and the values follow the keys.
\<close>

locale partitioner =
  fixes cut :: "'p \<Rightarrow> u8 kvpairs \<Rightarrow> sliced_kvs res"
    and servers :: "'p \<Rightarrow> u32 list"
    and owns :: "'p \<Rightarrow> nat \<Rightarrow> u32 \<Rightarrow> bool"
    and wf :: "'p \<Rightarrow> bool"
  assumes cut_law: "wf p \<Longrightarrow> kv_keys send \<noteq> [] \<Longrightarrow> sorted (kv_keys send) \<Longrightarrow>
      (\<forall>k \<in> set (kv_keys send). \<exists>i < length (servers p). owns p i k) \<Longrightarrow>
      length (kv_vals send) = n * length (kv_keys send) \<Longrightarrow>
      \<exists>pieces. cut p send = Inr (map (\<lambda>(i, b, e). (servers p ! i,
            \<lparr>kv_keys = segment b e (kv_keys send), kv_vals = segment (b * n) (e * n) (kv_vals send)\<rparr>)) pieces)
        \<and> sorted_wrt (<) (map fst pieces)
        \<and> (\<forall>(i, b, e) \<in> set pieces. i < length (servers p) \<and> b < e \<and> e \<le> length (kv_keys send)
             \<and> segment b e (kv_keys send) = filter (owns p i) (kv_keys send))
        \<and> (\<forall>i < length (servers p). filter (owns p i) (kv_keys send) \<noteq> [] \<longrightarrow> i \<in> fst ` set pieces)
        \<and> concat (map (\<lambda>(i, b, e). segment b e (kv_keys send)) pieces) = kv_keys send"
    and owner_unique: "wf p \<Longrightarrow> i < length (servers p) \<Longrightarrow> j < length (servers p) \<Longrightarrow>
      owns p i k \<Longrightarrow> owns p j k \<Longrightarrow> i = j"

section \<open>Contiguous ranges meet it\<close>

fun contiguous :: "u64 \<Rightarrow> range list \<Rightarrow> bool" where
  "contiguous b [] = True"
| "contiguous b (r # rs) = (rbegin r = b \<and> b \<le> rend r \<and> contiguous (rend r) rs)"

definition pm_wf :: "partition_manager \<Rightarrow> bool" where
  "pm_wf pm \<longleftrightarrow> pm_ranges pm \<noteq> [] \<and> length (pm_server_ids pm) = length (pm_ranges pm)
     \<and> contiguous (rbegin (hd (pm_ranges pm))) (pm_ranges pm)"

definition pm_owns :: "partition_manager \<Rightarrow> nat \<Rightarrow> u32 \<Rightarrow> bool" where
  "pm_owns pm i k \<longleftrightarrow> in_range (pm_ranges pm ! i) k"

definition key_pos :: "u32 list \<Rightarrow> u64 \<Rightarrow> nat" where
  "key_pos keys v = length (filter (\<lambda>k. (ucast k :: u64) < v) keys)"

lemma ucast_le_u64: "(ucast (a::u32) :: u64) \<le> ucast b \<longleftrightarrow> a \<le> b"
  by (simp add: word_le_nat_alt)

lemma key_split:
  assumes "sorted keys"
  shows "split_at (\<lambda>k. (ucast k :: u64) < v) keys (key_pos keys v)"
proof -
  have s: "sorted_wrt (\<lambda>x y. (ucast y :: u64) < v \<longrightarrow> (ucast x :: u64) < v) keys"
    using assms by (rule sorted_wrt_mono_rel[rotated]) (meson ucast_le_u64 le_less_trans)
  have "takeWhile (\<lambda>k. (ucast k :: u64) < v) keys = filter (\<lambda>k. ucast k < v) keys"
    using s
  proof (induction keys)
    case (Cons x xs)
    then have "\<not> (ucast x :: u64) < v \<Longrightarrow> filter (\<lambda>k. (ucast k :: u64) < v) xs = []"
      by (auto simp: filter_empty_conv)
    with Cons show ?case by auto
  qed simp
  then show ?thesis
    using split_at_takeWhile[OF s] by (simp add: key_pos_def)
qed

lemma key_lower_bound:
  "sorted keys \<Longrightarrow> b \<le> v \<Longrightarrow> lower_bound (\<lambda>k. (ucast k :: u64) < v) keys (key_pos keys b) = key_pos keys v"
  "sorted keys \<Longrightarrow> lower_bound (\<lambda>k. (ucast k :: u64) < v) keys 0 = key_pos keys v"
proof -
  assume s: "sorted keys"
  show "lower_bound (\<lambda>k. (ucast k :: u64) < v) keys 0 = key_pos keys v"
    by (rule lower_bound_eq[OF key_split[OF s]]) simp
  assume "b \<le> v"
  then have "filter (\<lambda>k. (ucast k :: u64) < b) keys = filter (\<lambda>k. ucast k < b) (filter (\<lambda>k. ucast k < v) keys)"
    by (auto intro: filter_cong)
  then have "key_pos keys b \<le> key_pos keys v"
    unfolding key_pos_def by (metis length_filter_le)
  then show "lower_bound (\<lambda>k. (ucast k :: u64) < v) keys (key_pos keys b) = key_pos keys v"
    by (rule lower_bound_eq[OF key_split[OF s]])
qed

lemma key_pos_mono: "b \<le> v \<Longrightarrow> key_pos keys b \<le> key_pos keys v"
  unfolding key_pos_def by (induction keys) auto

lemma key_pos_le: "key_pos keys v \<le> length keys"
  by (simp add: key_pos_def)

text \<open>Between the positions of its bounds lie exactly the keys of a range.\<close>

lemma segment_is_filter:
  assumes "sorted keys" "rbegin r \<le> rend r"
  shows "segment (key_pos keys (rbegin r)) (key_pos keys (rend r)) keys = filter (in_range r) keys"
  using assms(1)
proof (induction keys)
  case Nil
  then show ?case by (simp add: segment_def)
next
  case (Cons k keys)
  have rest: "(ucast k :: u64) \<le> ucast l" if "l \<in> set keys" for l
    using Cons.prems that by (simp add: ucast_le_u64)
  note IH = Cons.IH
  consider "(ucast k :: u64) < rbegin r" | "rbegin r \<le> ucast k" "(ucast k :: u64) < rend r" | "rend r \<le> ucast k"
    by fastforce
  then show ?case
  proof cases
    case 1
    then have "(ucast k :: u64) < rend r" using assms(2) by simp
    with 1 Cons show ?thesis by (simp add: segment_def key_pos_def in_range_def)
  next
    case 2
    have "key_pos keys (rbegin r) = 0"
      using 2(1) rest by (fastforce simp: key_pos_def filter_empty_conv)
    with 2 Cons show ?thesis by (simp add: segment_def key_pos_def in_range_def not_less)
  next
    case 3
    have "key_pos (k # keys) (rbegin r) = 0" "key_pos (k # keys) (rend r) = 0"
      using 3 rest assms(2) by (fastforce simp: key_pos_def filter_empty_conv not_less)+
    moreover have "filter (in_range r) (k # keys) = []"
      using 3 rest by (fastforce simp: in_range_def filter_empty_conv not_less)
    ultimately show ?thesis by (simp add: segment_def)
  qed
qed

fun chain_end :: "u64 \<Rightarrow> range list \<Rightarrow> u64" where
  "chain_end b [] = b"
| "chain_end b (r # rs) = chain_end (rend r) rs"

lemma chain_end_ge: "contiguous b rs \<Longrightarrow> b \<le> chain_end b rs"
  by (induction rs arbitrary: b) (auto intro: order_trans)

lemma contiguous_nth:
  "contiguous b rs \<Longrightarrow> i < length rs \<Longrightarrow>
     b \<le> rbegin (rs ! i) \<and> rbegin (rs ! i) \<le> rend (rs ! i) \<and> rend (rs ! i) \<le> chain_end b rs"
proof (induction rs arbitrary: b i)
  case Nil
  then show ?case by simp
next
  case (Cons r rs)
  show ?case
  proof (cases i)
    case 0
    with Cons.prems show ?thesis by (simp add: chain_end_ge)
  next
    case (Suc j)
    with Cons.prems Cons.IH[of "rend r" j] show ?thesis by (auto intro: order_trans)
  qed
qed

lemma contiguous_ordered:
  "contiguous b rs \<Longrightarrow> i < j \<Longrightarrow> j < length rs \<Longrightarrow> rend (rs ! i) \<le> rbegin (rs ! j)"
proof (induction rs arbitrary: b i j)
  case Nil
  then show ?case by simp
next
  case (Cons r rs)
  obtain k where k: "j = Suc k" using Cons.prems(2) by (cases j) auto
  show ?case
  proof (cases i)
    case 0
    with Cons.prems k contiguous_nth[of "rend r" rs k] show ?thesis by simp
  next
    case (Suc l)
    with Cons.prems k Cons.IH[of "rend r" l k] show ?thesis by simp
  qed
qed

definition piece_of :: "u32 list \<Rightarrow> u8 kvpairs \<Rightarrow> nat \<Rightarrow> nat \<times> nat \<times> nat \<Rightarrow> u32 \<times> u8 kvpairs" where
  "piece_of ids send n = (\<lambda>(i, b, e). (ids ! i,
      \<lparr>kv_keys = segment b e (kv_keys send), kv_vals = segment (b * n) (e * n) (kv_vals send)\<rparr>))"

lemma segment_join: "a \<le> b \<Longrightarrow> b \<le> c \<Longrightarrow> segment a b xs @ segment b c xs = segment a c xs"
proof -
  assume "a \<le> b" "b \<le> c"
  then obtain d e where "b = a + d" "c = a + d + e" by (metis le_Suc_ex)
  then show ?thesis by (simp add: segment_def take_add add.commute)
qed

text \<open>The pieces, each with the number of its range: in order, not empty, exactly the keys of the range, none missing, and together
  the keys from \<open>b\<close> to the end of the ranges.\<close>

definition good_pieces :: "u32 list \<Rightarrow> range list \<Rightarrow> u64 \<Rightarrow> (nat \<times> nat \<times> nat) list \<Rightarrow> bool" where
  "good_pieces K rs b pieces \<longleftrightarrow> sorted_wrt (<) (map fst pieces)
     \<and> (\<forall>(i, b, e) \<in> set pieces. i < length rs \<and> b < e \<and> e \<le> length K \<and> segment b e K = filter (in_range (rs ! i)) K)
     \<and> (\<forall>i < length rs. filter (in_range (rs ! i)) K \<noteq> [] \<longrightarrow> i \<in> fst ` set pieces)
     \<and> concat (map (\<lambda>(i, b, e). segment b e K) pieces) = segment (key_pos K b) (key_pos K (chain_end b rs)) K"

definition next_piece :: "nat \<Rightarrow> nat \<Rightarrow> (nat \<times> nat \<times> nat) list \<Rightarrow> (nat \<times> nat \<times> nat) list" where
  "next_piece b e pieces = (if b < e then [(0, b, e)] else []) @ map (\<lambda>(i, b, e). (Suc i, b, e)) pieces"

lemma good_pieces_Cons:
  assumes K: "sorted K" and c: "rbegin r = b" "b \<le> rend r" "contiguous (rend r) rs" and ps: "good_pieces K rs (rend r) ps"
  shows "good_pieces K (r # rs) b (next_piece (key_pos K b) (key_pos K (rend r)) ps)"
proof -
  let ?b = "key_pos K b" and ?e = "key_pos K (rend r)"
  let ?ps = "next_piece ?b ?e ps" and ?shift = "map (\<lambda>(i, b, e). (Suc i, b, e)) ps :: (nat \<times> nat \<times> nat) list"
  note P = ps[unfolded good_pieces_def]
  have seg: "segment ?b ?e K = filter (in_range r) K" using segment_is_filter[OF K, of r] c by simp
  have "sorted_wrt (<) (map fst ?ps)"
    using P by (auto simp: next_piece_def sorted_wrt_append sorted_wrt_map case_prod_beta)
  moreover have "\<forall>(i, b, e) \<in> set ?ps. i < length (r # rs) \<and> b < e \<and> e \<le> length K \<and> segment b e K = filter (in_range ((r # rs) ! i)) K"
    using P seg key_pos_le[of K "rend r"] by (auto simp: next_piece_def)
  moreover have "i \<in> fst ` set ?ps" if i: "i < length (r # rs)" "filter (in_range ((r # rs) ! i)) K \<noteq> []" for i
  proof (cases i)
    case 0
    with i(2) seg have "segment ?b ?e K \<noteq> []" by simp
    then have "?b < ?e" by (cases "?b < ?e") (simp_all add: segment_def)
    with 0 show ?thesis by (simp add: next_piece_def)
  next
    case (Suc j)
    with i P have "j \<in> fst ` set ps" by simp
    with Suc show ?thesis unfolding next_piece_def by force
  qed
  moreover have "concat (map (\<lambda>(i, b, e). segment b e K) ?ps) = segment ?b (key_pos K (chain_end b (r # rs))) K"
  proof -
    have "map (\<lambda>(i, b, e). segment b e K) ?shift = map (\<lambda>(i, b, e). segment b e K) ps" by auto
    moreover have "concat (map (\<lambda>(i, b, e). segment b e K) (if ?b < ?e then [(0 :: nat, ?b, ?e)] else [])) = segment ?b ?e K"
      by (simp add: segment_def)
    moreover have "?b \<le> ?e" "?e \<le> key_pos K (chain_end (rend r) rs)"
      using key_pos_mono[OF c(2)] key_pos_mono[OF chain_end_ge[OF c(3)]] by blast+
    ultimately show ?thesis
      using P unfolding next_piece_def map_append concat_append by (simp only: segment_join chain_end.simps)
  qed
  ultimately show ?thesis unfolding good_pieces_def by blast
qed

lemma slice_loop_spec:
  assumes "sorted (kv_keys send)"
  shows "contiguous b rs \<Longrightarrow> length ids = length rs \<Longrightarrow>
    \<exists>pieces. slice_loop send n (zip rs ids) (key_pos (kv_keys send) b) = map (piece_of ids send n) pieces \<and> good_pieces (kv_keys send) rs b pieces"
proof (induction rs arbitrary: b ids)
  case Nil
  then show ?case by (intro exI[of _ "[]"]) (simp add: good_pieces_def segment_def)
next
  case (Cons r rs)
  let ?K = "kv_keys send"
  obtain sid ids' where ids: "ids = sid # ids'" "length ids' = length rs" using Cons.prems(2) by (cases ids) auto
  have c: "rbegin r = b" "b \<le> rend r" "contiguous (rend r) rs" using Cons.prems(1) by auto
  obtain ps where ps: "slice_loop send n (zip rs ids') (key_pos ?K (rend r)) = map (piece_of ids' send n) ps" "good_pieces ?K rs (rend r) ps"
    using Cons.IH[OF c(3) ids(2)] by blast
  have lb: "lower_bound (\<lambda>k. (ucast k :: u64) < rend r) ?K (key_pos ?K b) = key_pos ?K (rend r)" by (rule key_lower_bound(1)[OF assms c(2)])
  have shifted: "map (piece_of ids send n) (map (\<lambda>(i, b, e). (Suc i, b, e)) ps) = map (piece_of ids' send n) ps"
    by (auto simp: ids(1) piece_of_def)
  have "slice_loop send n (zip (r # rs) ids) (key_pos ?K b) = map (piece_of ids send n) (next_piece (key_pos ?K b) (key_pos ?K (rend r)) ps)"
    unfolding next_piece_def map_append shifted ps(1)[symmetric] by (simp add: ids(1) lb Let_def piece_of_def)
  then show ?case using good_pieces_Cons[OF assms c ps(2)] by blast
qed

interpretation pm: partitioner slice pm_server_ids pm_owns pm_wf
proof
  fix pm :: partition_manager
  assume pm: "pm_wf pm"
  let ?rs = "pm_ranges pm" and ?ids = "pm_server_ids pm"
  let ?b = "rbegin (hd ?rs)"
  have wf: "?rs \<noteq> []" "length ?ids = length ?rs" "contiguous ?b ?rs"
    using pm by (simp_all add: pm_wf_def)
  fix send :: "u8 kvpairs" and n
  let ?K = "kv_keys send"
  assume ne: "?K \<noteq> []" and s: "sorted ?K" and cover: "\<forall>k \<in> set ?K. \<exists>i < length ?ids. pm_owns pm i k"
    and vals: "length (kv_vals send) = n * length ?K"
  have ratio: "length (kv_vals send) div length ?K = n" using ne by (simp add: vals)
  have start: "lower_bound (\<lambda>k. (ucast k :: u64) < ?b) ?K 0 = key_pos ?K ?b"
    by (rule key_lower_bound(2)[OF s])
  have sl: "slice pm send = Inr (slice_loop send n (zip ?rs ?ids) (key_pos ?K ?b))"
    using ne wf(1) by (simp add: slice_def Let_def ratio start)
  have inside: "?b \<le> ucast k \<and> (ucast k :: u64) < chain_end ?b ?rs" if k: "k \<in> set ?K" for k
  proof -
    obtain i where "i < length ?rs" "in_range (?rs ! i) k"
      using cover k wf(2) by (auto simp: pm_owns_def)
    with contiguous_nth[OF wf(3), of i] show ?thesis by (auto simp: in_range_def)
  qed
  have "key_pos ?K ?b = 0" using inside by (auto simp: key_pos_def filter_empty_conv not_less)
  moreover have "key_pos ?K (chain_end ?b ?rs) = length ?K"
    using inside by (auto simp: key_pos_def filter_id_conv)
  ultimately have all: "segment (key_pos ?K ?b) (key_pos ?K (chain_end ?b ?rs)) ?K = ?K"
    by (simp add: segment_def)
  show "\<exists>pieces. slice pm send = Inr (map (\<lambda>(i, b, e). (?ids ! i,
            \<lparr>kv_keys = segment b e ?K, kv_vals = segment (b * n) (e * n) (kv_vals send)\<rparr>)) pieces)
        \<and> sorted_wrt (<) (map fst pieces)
        \<and> (\<forall>(i, b, e) \<in> set pieces. i < length ?ids \<and> b < e \<and> e \<le> length ?K
             \<and> segment b e ?K = filter (pm_owns pm i) ?K)
        \<and> (\<forall>i < length ?ids. filter (pm_owns pm i) ?K \<noteq> [] \<longrightarrow> i \<in> fst ` set pieces)
        \<and> concat (map (\<lambda>(i, b, e). segment b e ?K) pieces) = ?K"
    using slice_loop_spec[OF s wf(3,2), of n] unfolding good_pieces_def all sl wf(2) piece_of_def pm_owns_def by auto
next
  fix pm :: partition_manager and i j k
  assume pm: "pm_wf pm" and ij: "i < length (pm_server_ids pm)" "j < length (pm_server_ids pm)" "pm_owns pm i k" "pm_owns pm j k"
  have wf: "length (pm_server_ids pm) = length (pm_ranges pm)" "contiguous (rbegin (hd (pm_ranges pm))) (pm_ranges pm)"
    using pm by (simp_all add: pm_wf_def)
  have "\<not> a < c" if "a < length (pm_ranges pm)" "c < length (pm_ranges pm)" "pm_owns pm a k" "pm_owns pm c k" for a c
    using contiguous_ordered[OF wf(2), of a c] that by (auto simp: pm_owns_def in_range_def)
  from this[of i j] this[of j i] ij wf(1) show "i = j" by (simp add: not_less)
qed

text \<open>C10. \<open>SimpleRangePartitionManager::Slice\<close> cuts a sorted request whose keys are all held by some
  server into one non-empty piece per server concerned: the piece of a server has exactly the keys
  of its range, the values go with their keys, and the pieces in order are the request again.\<close>

theorem slice_partitions_request:
  assumes "pm_wf pm" "keys \<noteq> []" "sorted keys" "\<forall>k \<in> set keys. \<exists>i < length (pm_server_ids pm). pm_owns pm i k"
    "length vals = n * length keys"
  shows "\<exists>pieces. slice pm \<lparr>kv_keys = keys, kv_vals = vals\<rparr> = Inr (map (\<lambda>(i, b, e). (pm_server_ids pm ! i,
            \<lparr>kv_keys = segment b e keys, kv_vals = segment (b * n) (e * n) vals\<rparr>)) pieces)
        \<and> sorted_wrt (<) (map fst pieces)
        \<and> (\<forall>(i, b, e) \<in> set pieces. i < length (pm_server_ids pm) \<and> b < e \<and> segment b e keys = filter (pm_owns pm i) keys)
        \<and> concat (map (\<lambda>(i, b, e). segment b e keys) pieces) = keys"
proof -
  let ?send = "\<lparr>kv_keys = keys, kv_vals = vals\<rparr>"
  have "kv_keys ?send = keys" "kv_vals ?send = vals" by simp_all
  note L = pm.cut_law[of pm ?send n, unfolded this, OF assms]
  then obtain pieces where P: "slice pm ?send = Inr (map (\<lambda>(i, b, e). (pm_server_ids pm ! i,
            \<lparr>kv_keys = segment b e keys, kv_vals = segment (b * n) (e * n) vals\<rparr>)) pieces)"
    "sorted_wrt (<) (map fst pieces)"
    "\<forall>(i, b, e) \<in> set pieces. i < length (pm_server_ids pm) \<and> b < e \<and> e \<le> length keys
       \<and> segment b e keys = filter (pm_owns pm i) keys"
    "concat (map (\<lambda>(i, b, e). segment b e keys) pieces) = keys"
    by (elim exE conjE) (rule that)
  have "\<forall>(i, b, e) \<in> set pieces. i < length (pm_server_ids pm) \<and> b < e \<and> segment b e keys = filter (pm_owns pm i) keys"
    using P(3) by (simp add: case_prod_beta)
  with P(1,2,4) show ?thesis by (intro exI[of _ pieces] conjI)
qed

definition two_ranges :: partition_manager where
  "two_ranges = \<lparr>pm_ranges = [\<lparr>rbegin = 0, rend = 5\<rparr>, \<lparr>rbegin = 5, rend = 10\<rparr>], pm_server_ids = [0, 1000]\<rparr>"

lemma two_ranges_wf: "pm_wf two_ranges"
  by (simp add: pm_wf_def two_ranges_def)

lemma slice_partitions_request_witness:
  "\<exists>pieces. slice two_ranges \<lparr>kv_keys = [2, 4, 7], kv_vals = [20, 40, 70]\<rparr>
      = Inr (map (\<lambda>(i, b, e). (pm_server_ids two_ranges ! i,
            \<lparr>kv_keys = segment b e [2, 4, 7], kv_vals = segment b e [20, 40, 70]\<rparr>)) pieces)
    \<and> concat (map (\<lambda>(i, b, e). segment b e [2, 4, 7]) pieces) = ([2, 4, 7] :: u32 list)"
proof -
  have "pm_owns two_ranges 0 2" "pm_owns two_ranges 0 4" "pm_owns two_ranges 1 7" "length (pm_server_ids two_ranges) = 2"
    by (simp_all add: two_ranges_def pm_owns_def in_range_def)
  then have "\<forall>k \<in> set [2, 4, 7]. \<exists>i < length (pm_server_ids two_ranges). pm_owns two_ranges i k"
    by (simp only: set_simps ball_simps) force
  from slice_partitions_request[OF two_ranges_wf _ _ this, of "[20, 40, 70]" 1] show ?thesis by auto
qed

text \<open>A request without keys is not cut into no pieces: \<open>Slice\<close> divides by the number of keys
  first, and traps.\<close>

theorem slice_of_no_keys_traps:
  "pm_ranges pm \<noteq> [] \<Longrightarrow> slice pm \<lparr>kv_keys = [], kv_vals = vals\<rparr> = Inl Div_by_zero"
  by (simp add: slice_def Let_def)

lemma slice_of_no_keys_traps_witness:
  "slice two_ranges \<lparr>kv_keys = [], kv_vals = []\<rparr> = Inl Div_by_zero"
  by (rule slice_of_no_keys_traps) (simp add: two_ranges_def)

end
