(* ===== verification/Table_Box.thy ===== *)
theory Table_Box
  imports Partition Abstract_Model
begin

text \<open>
  \<open>worker/kv_table_box.hpp\<close>: what the client tables share.  A request is cut by the partition
  manager and sent piece by piece; the answers, in whatever order they come, are put together
  again.  What a method pushes on the send queue is returned as a list.
\<close>

record 'v table_box =
  tb_thread :: u32
  tb_model :: u32
  tb_pm :: "partition_manager option"
  tb_recv :: "'v kvpairs list"

definition tb_new :: "u32 \<Rightarrow> u32 \<Rightarrow> partition_manager option \<Rightarrow> 'v table_box" where
  "tb_new t mid pm = \<lparr>tb_thread = t, tb_model = mid, tb_pm = pm, tb_recv = []\<rparr>"

text \<open>\<open>junk i\<close> is what the memory of the \<open>i\<close>-th message holds: \<open>version\<close> is left as it is.\<close>

definition addressed :: "meta \<Rightarrow> flag \<Rightarrow> u32 \<Rightarrow> u32 \<Rightarrow> u32 \<Rightarrow> message" where
  "addressed junk fl t mid server =
     (let m = new_message junk
      in m\<lparr>meta_of := (meta_of m)\<lparr>sender := to_i32 t, recver := to_i32 server,
                                 model_id := to_i32 mid, mflag := fl\<rparr>\<rparr>)"

definition with_body :: "bool \<Rightarrow> u8 kvpairs \<Rightarrow> message \<Rightarrow> message" where
  "with_body is_add kvs m =
     (if length (kv_keys kvs) \<noteq> 0 then
        (let m = add_data (bytes_of_keys (kv_keys kvs)) m
         in if is_add then add_data (kv_vals kvs) m else m)
      else m)"

definition tb_send :: "(nat \<Rightarrow> meta) \<Rightarrow> sliced_kvs \<Rightarrow> bool \<Rightarrow> 'v table_box \<Rightarrow> message list res" where
  "tb_send junk sliced is_add tb =
     check_that (tb_pm tb \<noteq> None) (Check_failed ''KVTableBox::Send'')
       (Inr (map (\<lambda>(i, server, kvs).
               with_body is_add kvs (addressed (junk i) (if is_add then kAdd else kGet) (tb_thread tb) (tb_model tb) server))
             (enumerate 0 sliced)))"

definition tb_slice :: "u8 kvpairs \<Rightarrow> 'v table_box \<Rightarrow> sliced_kvs res" where
  "tb_slice send tb =
     bind_res (of_opt (Check_failed ''KVTableBox::Slice'') (tb_pm tb)) (\<lambda>pm. slice pm send)"

definition tb_add ::
  "(nat \<Rightarrow> meta) \<Rightarrow> 'v val_type \<Rightarrow> u32 list \<Rightarrow> 'v list \<Rightarrow> 'v table_box \<Rightarrow> message list res"
where
  "tb_add junk V keys vals tb =
     (let kvs = \<lparr>kv_keys = keys, kv_vals = bytes_of_vals V vals\<rparr> in
      bind_res (of_opt (Check_failed ''KVTableBox::Add'') (tb_pm tb)) (\<lambda>pm.
      bind_res (slice pm kvs) (\<lambda>sliced. tb_send junk sliced True tb)))"

definition tb_clock :: "(nat \<Rightarrow> meta) \<Rightarrow> 'v table_box \<Rightarrow> message list res" where
  "tb_clock junk tb =
     bind_res (of_opt (Check_failed ''KVTableBox::Clock'') (tb_pm tb)) (\<lambda>pm.
       Inr (map (\<lambda>(i, server). addressed (junk i) kClock (tb_thread tb) (tb_model tb) server)
             (enumerate 0 (pm_server_ids pm))))"

definition received :: "'v val_type \<Rightarrow> message \<Rightarrow> 'v kvpairs res" where
  "received V msg =
     check_that (length (data_of msg) = 2) (Check_failed ''HandleMsg'')
       (Inr \<lparr>kv_keys = keys_of (data_of msg ! 0), kv_vals = vals_of V (data_of msg ! 1)\<rparr>)"

definition tb_handle_msg :: "'v val_type \<Rightarrow> message \<Rightarrow> 'v table_box \<Rightarrow> 'v table_box res" where
  "tb_handle_msg V msg tb = bind_res (received V msg) (\<lambda>kvs. Inr (tb\<lparr>tb_recv := tb_recv tb @ [kvs]\<rparr>))"

text \<open>
  \<open>front()\<close> and \<open>back()\<close> of an empty array are undefined; \<open>back() + 1\<close> wraps.  \<open>std::sort\<close> does
  not fix the order of answers with the same first key; the model keeps the order of arrival.
\<close>

definition check_piece :: "u32 list \<Rightarrow> 'v kvpairs \<Rightarrow> nat \<times> nat \<Rightarrow> (nat \<times> nat) res" where
  "check_piece keys s = (\<lambda>(total_key, total_val).
     (if kv_keys s = [] then Inl Out_of_bounds
      else let r = find_range keys (hd (kv_keys s)) (last (kv_keys s) + 1)
           in check_that (unat (range_size r) = length (kv_keys s))
                (Check_failed ''unmatched keys size from one server'')
                (Inr (total_key + length (kv_keys s), total_val + length (kv_vals s)))))"

definition put_together :: "'v kvpairs list \<Rightarrow> 'v list" where
  "put_together recv = concat (map kv_vals (sort_key (\<lambda>s. hd (kv_keys s)) recv))"

definition tb_handle_finish :: "u32 list \<Rightarrow> 'v table_box \<Rightarrow> ('v list \<times> 'v table_box) res" where
  "tb_handle_finish keys tb =
     bind_res (fold_res (check_piece keys) (tb_recv tb) (0, 0)) (\<lambda>(total_key, total_val).
     check_that (total_key = length keys) (Check_failed ''lost some servers?'')
       (Inr (put_together (tb_recv tb), tb\<lparr>tb_recv := []\<rparr>)))"

section \<open>Putting a sorted request together again\<close>

lemma addressed_sel [simp, msg_simps]:
  "msg_sender (addressed junk fl t mid server) = to_i32 t"
  "msg_recver (addressed junk fl t mid server) = to_i32 server"
  "msg_model (addressed junk fl t mid server) = to_i32 mid"
  "msg_flag (addressed junk fl t mid server) = fl"
  "data_of (addressed junk fl t mid server) = []"
  by (simp_all add: addressed_def Let_def)

lemma with_body_sel [simp, msg_simps]:
  "meta_of (with_body is_add kvs m) = meta_of m"
  "kv_keys kvs \<noteq> [] \<Longrightarrow> data_of (with_body is_add kvs m)
     = data_of m @ bytes_of_keys (kv_keys kvs) # (if is_add then [kv_vals kvs] else [])"
  by (simp_all add: with_body_def Let_def)

lemma find_range_of_segment:
  assumes "sorted_wrt (<) (as @ p @ bs)" "p \<noteq> []" "last p \<noteq> -1" "length (as @ p @ bs) < 2 ^ 64"
  shows "unat (range_size (find_range (as @ p @ bs) (hd p) (last p + 1))) = length p"
proof -
  have "sorted (as @ p @ bs)"
    using assms(1) by (rule sorted_wrt_mono_rel[rotated]) auto
  have last: "x < last p + 1 \<longleftrightarrow> x \<le> last p" for x
  proof -
    have "1 + last p \<noteq> 0"
      using assms(3) by (metis add.commute add_eq_0_iff)
    then have "unat (last p + 1) = Suc (unat (last p))"
      by (metis add.commute unatSuc)
    then show ?thesis by (simp add: word_less_nat_alt word_le_nat_alt less_Suc_eq_le)
  qed
  have le: "hd p \<le> x \<and> x \<le> last p" if "x \<in> set p" for x
  proof
    have p: "sorted p" using \<open>sorted (as @ p @ bs)\<close> by (simp add: sorted_append)
    then show "hd p \<le> x" using that by (cases p) auto
    have "sorted (butlast p @ [last p])" using p assms(2) by simp
    moreover have "x \<in> set (butlast p @ [last p])" using that assms(2) by simp
    ultimately show "x \<le> last p" by (auto simp: sorted_append)
  qed
  have "hd p \<le> last p" using le[of "last p"] assms(2) by simp
  then have "hd p < last p + 1" by (simp add: last)
  moreover have "filter (\<lambda>x. hd p \<le> x \<and> x < last p + 1) (as @ p @ bs) = p"
  proof -
    have "filter (\<lambda>x. hd p \<le> x \<and> x < last p + 1) as = []"
      using assms(1,2) by (fastforce simp: filter_empty_conv sorted_wrt_append not_le)
    moreover have "filter (\<lambda>x. hd p \<le> x \<and> x < last p + 1) bs = []"
      using assms(1,2) last_in_set[OF assms(2)] by (fastforce simp: filter_empty_conv sorted_wrt_append last not_le)
    moreover have "filter (\<lambda>x. hd p \<le> x \<and> x < last p + 1) p = p"
      using le by (simp add: filter_id_conv last)
    ultimately show ?thesis by simp
  qed
  ultimately show ?thesis
    using find_range_size[OF \<open>sorted (as @ p @ bs)\<close>, of "hd p" "last p + 1"] assms(4) by simp
qed

lemma check_pieces:
  assumes "sorted_wrt (<) keys" "\<forall>k \<in> set keys. k \<noteq> -1" "length keys < 2 ^ 64"
  shows "\<forall>s \<in> set recv. kv_keys s \<noteq> [] \<and> (\<exists>as bs. keys = as @ kv_keys s @ bs) \<Longrightarrow>
    fold_res (check_piece keys) recv (a, b)
      = Inr (a + sum_list (map (\<lambda>s. length (kv_keys s)) recv), b + sum_list (map (\<lambda>s. length (kv_vals s)) recv))"
proof (induction recv arbitrary: a b)
  case Nil
  then show ?case by simp
next
  case (Cons s recv)
  obtain as bs where ks: "keys = as @ kv_keys s @ bs" and ne: "kv_keys s \<noteq> []"
    using Cons.prems by auto
  have "last (kv_keys s) \<noteq> -1" using assms(2) ks ne by (auto dest: last_in_set)
  then have "unat (range_size (find_range keys (hd (kv_keys s)) (last (kv_keys s) + 1))) = length (kv_keys s)"
    using find_range_of_segment[of as "kv_keys s" bs] assms(1,3) ne unfolding ks by blast
  with Cons ne show ?case by (simp add: check_piece_def Let_def)
qed

text \<open>The answers are the pieces of the request with their values, in any order.\<close>

lemma put_together_any_order:
  assumes "sorted_wrt (<) (concat parts)" "[] \<notin> set parts" "mset (map kv_keys recv) = mset parts"
    "\<forall>s \<in> set recv. kv_vals s = map f (kv_keys s)"
  shows "put_together recv = map f (concat parts)"
proof -
  let ?R = "sort_key (\<lambda>s. hd (kv_keys s)) recv"
  have hd_less: "sorted_wrt (\<lambda>p q. hd p < hd q) parts"
    using assms(1,2)
  proof (induction parts)
    case (Cons p parts)
    then have "\<forall>q \<in> set parts. hd p < hd q"
      by (auto simp: sorted_wrt_append) (metis hd_in_set)
    with Cons show ?case by (auto simp: sorted_wrt_append)
  qed simp
  then have parts: "sorted (map hd parts)" "distinct (map hd parts)"
    using strict_sorted_iff[of "map hd parts"] by (auto simp: sorted_wrt_map)
  have ms: "mset (map kv_keys ?R) = mset parts" using assms(3) by (simp add: mset_map)
  then have set: "set (map kv_keys ?R) = set parts" by (metis set_mset_mset)
  have "map hd (map kv_keys ?R) = map (\<lambda>s. hd (kv_keys s)) ?R" by simp
  then have sortedR: "sorted (map hd (map kv_keys ?R))"
    by (metis sorted_sort_key)
  have "mset (map hd (map kv_keys ?R)) = mset (map hd parts)" using ms by (metis mset_map)
  then have distinctR: "distinct (map hd (map kv_keys ?R))"
    using parts(2) by (metis mset_eq_imp_distinct_iff)
  have "inj_on hd (set (map kv_keys ?R) \<union> set parts)"
    unfolding set using parts(2) by (simp add: distinct_map)
  then have R: "map kv_keys ?R = parts"
    by (rule map_sorted_distinct_set_unique[OF _ sortedR distinctR parts set])
  have "map kv_vals ?R = map (map f) (map kv_keys ?R)"
    using assms(4) by simp
  then show ?thesis
    unfolding put_together_def R by (simp add: map_concat)
qed

lemma handle_finish_any_order:
  assumes "sorted_wrt (<) keys" "\<forall>k \<in> set keys. k \<noteq> -1" "length keys < 2 ^ 64"
    "concat parts = keys" "[] \<notin> set parts" "mset (map kv_keys (tb_recv tb)) = mset parts"
    "\<forall>s \<in> set (tb_recv tb). kv_vals s = map f (kv_keys s)"
  shows "tb_handle_finish keys tb = Inr (map f keys, tb\<lparr>tb_recv := []\<rparr>)"
proof -
  have set: "kv_keys ` set (tb_recv tb) = set parts"
    using assms(6) by (metis list.set_map set_mset_mset)
  have "\<exists>as bs. keys = as @ p @ bs" if "p \<in> set parts" for p
    using split_list[OF that] assms(4) by force
  with set assms(5) have ok: "\<forall>s \<in> set (tb_recv tb). kv_keys s \<noteq> [] \<and> (\<exists>as bs. keys = as @ kv_keys s @ bs)"
    by (metis imageI)
  have "sum_list (map length (map kv_keys (tb_recv tb))) = sum_mset (mset (map length (map kv_keys (tb_recv tb))))"
    by (simp only: sum_mset_sum_list)
  also have "\<dots> = sum_mset (mset (map length parts))"
    by (simp only: mset_map[of length] assms(6))
  also have "\<dots> = length keys"
    unfolding sum_mset_sum_list assms(4)[symmetric] by (simp add: length_concat)
  finally have "sum_list (map (\<lambda>s. length (kv_keys s)) (tb_recv tb)) = length keys" by (simp add: o_def)
  with check_pieces[OF assms(1,2,3) ok, of 0 0] put_together_any_order[of parts "tb_recv tb" f] assms
  show ?thesis by (simp add: tb_handle_finish_def)
qed

section \<open>A Get from end to end\<close>

text \<open>What a client may ask for: strictly sorted keys, held by some server, without the largest key.\<close>

definition good_keys :: "partition_manager \<Rightarrow> u32 list \<Rightarrow> bool" where
  "good_keys pm keys \<longleftrightarrow> keys \<noteq> [] \<and> sorted_wrt (<) keys \<and> length keys < 2 ^ 64
     \<and> (\<forall>k \<in> set keys. k \<noteq> -1 \<and> (\<exists>i < length (pm_server_ids pm). pm_owns pm i k))"

lemma answers_received:
  assumes "answers V f m r"
  shows "received V r = Inr \<lparr>kv_keys = keys_of (data_of m ! 0), kv_vals = map f (keys_of (data_of m ! 0))\<rparr>"
  using assms by (simp add: answers_def received_def reply_id_def request_id_def)

lemma handle_answers:
  "list_all2 (answers V f) msgs replies \<Longrightarrow>
     fold_res (tb_handle_msg V) replies tb = Inr (tb\<lparr>tb_recv := tb_recv tb @
       map (\<lambda>m. \<lparr>kv_keys = keys_of (data_of m ! 0), kv_vals = map f (keys_of (data_of m ! 0))\<rparr>) msgs\<rparr>)"
proof (induction msgs replies arbitrary: tb rule: list_all2_induct)
  case Nil
  then show ?case by simp
next
  case (Cons m msgs r replies)
  then show ?case by (simp add: tb_handle_msg_def answers_received)
qed

lemma tb_send_keys:
  assumes "tb_send junk sliced False tb = Inr msgs" "\<forall>p \<in> set sliced. kv_keys (snd p) \<noteq> []"
  shows "map (\<lambda>m. keys_of (data_of m ! 0)) msgs = map (\<lambda>p. kv_keys (snd p)) sliced"
    "map msg_recver msgs = map (\<lambda>p. to_i32 (fst p)) sliced"
    "m \<in> set msgs \<Longrightarrow> length (data_of m) = 1 \<and> msg_flag m = kGet \<and> msg_sender m = to_i32 (tb_thread tb)
       \<and> msg_model m = to_i32 (tb_model tb)"
proof -
  have msgs: "msgs = map (\<lambda>(i, server, kvs). with_body False kvs
      (addressed (junk i) kGet (tb_thread tb) (tb_model tb) server)) (enumerate 0 sliced)"
    using assms(1) by (simp add: tb_send_def res_simps)
  have ne: "kv_keys (snd (snd q)) \<noteq> []" if "q \<in> set (enumerate 0 sliced)" for q
  proof -
    have "snd q \<in> set (map snd (enumerate 0 sliced))" using that by (simp only: list.set_map imageI)
    then show ?thesis using assms(2) by simp
  qed
  have "map (\<lambda>m. keys_of (data_of m ! 0)) msgs = map (\<lambda>q. kv_keys (snd (snd q))) (enumerate 0 sliced)"
    unfolding msgs map_map by (rule map_cong[OF refl]) (use ne in \<open>force simp: case_prod_beta\<close>)
  also have "\<dots> = map (\<lambda>p. kv_keys (snd p)) (map snd (enumerate 0 sliced))"
    by (simp only: map_map o_def)
  finally show "map (\<lambda>m. keys_of (data_of m ! 0)) msgs = map (\<lambda>p. kv_keys (snd p)) sliced"
    by simp
  have "map msg_recver msgs = map (\<lambda>q. to_i32 (fst (snd q))) (enumerate 0 sliced)"
    unfolding msgs map_map by (rule map_cong[OF refl]) (auto simp: case_prod_beta)
  also have "\<dots> = map (\<lambda>p. to_i32 (fst p)) (map snd (enumerate 0 sliced))"
    by (simp only: map_map o_def)
  finally show "map msg_recver msgs = map (\<lambda>p. to_i32 (fst p)) sliced" by simp
  assume "m \<in> set msgs"
  then obtain q where "q \<in> set (enumerate 0 sliced)" "m = with_body False (snd (snd q))
      (addressed (junk (fst q)) kGet (tb_thread tb) (tb_model tb) (fst (snd q)))"
    unfolding msgs by (auto simp: case_prod_beta)
  with ne show "length (data_of m) = 1 \<and> msg_flag m = kGet \<and> msg_sender m = to_i32 (tb_thread tb)
       \<and> msg_model m = to_i32 (tb_model tb)"
    by simp
qed

lemma good_keys_slice:
  assumes "pm_wf pm" "good_keys pm keys" "slice pm \<lparr>kv_keys = keys, kv_vals = vals\<rparr> = Inr sliced"
    "length vals = n * length keys"
  shows "concat (map (\<lambda>p. kv_keys (snd p)) sliced) = keys" "\<forall>p \<in> set sliced. kv_keys (snd p) \<noteq> []"
proof -
  let ?send = "\<lparr>kv_keys = keys, kv_vals = vals\<rparr>"
  have send: "kv_keys ?send = keys" "kv_vals ?send = vals" by simp_all
  have s: "sorted keys" "keys \<noteq> []" "\<forall>k \<in> set keys. \<exists>i < length (pm_server_ids pm). pm_owns pm i k"
    using assms(2) by (auto simp: good_keys_def intro: sorted_wrt_mono_rel[rotated])
  obtain pieces where P: "slice pm ?send = Inr (map (\<lambda>(i, b, e). (pm_server_ids pm ! i,
            \<lparr>kv_keys = segment b e keys, kv_vals = segment (b * n) (e * n) vals\<rparr>)) pieces)"
    and B: "\<forall>(i, b, e) \<in> set pieces. i < length (pm_server_ids pm) \<and> b < e \<and> e \<le> length keys
             \<and> segment b e keys = filter (pm_owns pm i) keys"
    and C: "concat (map (\<lambda>(i, b, e). segment b e keys) pieces) = keys"
    using pm.cut_law[of pm ?send n, unfolded send, OF assms(1) s(2,1,3) assms(4)]
    by (elim exE conjE) (rule that)
  have sl: "sliced = map (\<lambda>(i, b, e). (pm_server_ids pm ! i,
            \<lparr>kv_keys = segment b e keys, kv_vals = segment (b * n) (e * n) vals\<rparr>)) pieces"
    using P assms(3) by simp
  show "concat (map (\<lambda>p. kv_keys (snd p)) sliced) = keys"
    unfolding sl using C by (simp add: split_def o_def)
  show "\<forall>p \<in> set sliced. kv_keys (snd p) \<noteq> []"
    unfolding sl using B by (fastforce simp: segment_def)
qed

lemma good_keys_slice_total:
  assumes "pm_wf pm" "good_keys pm keys"
  shows "\<exists>sliced. slice pm \<lparr>kv_keys = keys, kv_vals = vals\<rparr> = Inr sliced"
  using assms by (simp add: slice_def Let_def pm_wf_def good_keys_def)

lemma get_any_order:
  assumes pm: "pm_wf pm" "tb_pm tb = Some pm" "good_keys pm keys" and empty: "tb_recv tb = []"
    and sent: "slice pm \<lparr>kv_keys = keys, kv_vals = []\<rparr> = Inr sliced" "tb_send junk sliced False tb = Inr msgs"
    and replies: "mset asked = mset msgs" "list_all2 (answers V f) asked replies"
  shows "length replies = length sliced"
    "\<exists>tb'. fold_res (tb_handle_msg V) replies tb = Inr tb' \<and> tb_handle_finish keys tb' = Inr (map f keys, tb)"
proof -
  note S = good_keys_slice[OF pm(1,3) sent(1), of 0, simplified]
  note K = tb_send_keys(1)[OF sent(2) S(2)]
  have "length msgs = length sliced" using K by (metis length_map)
  moreover have "length asked = length msgs" using replies(1) by (metis size_mset)
  ultimately show "length replies = length sliced" using replies(2) by (simp add: list_all2_lengthD)
  let ?kvs = "\<lambda>m. \<lparr>kv_keys = keys_of (data_of m ! 0), kv_vals = map f (keys_of (data_of m ! 0))\<rparr>"
  let ?tb = "tb\<lparr>tb_recv := map ?kvs asked\<rparr>"
  have h: "fold_res (tb_handle_msg V) replies tb = Inr ?tb"
    using handle_answers[OF replies(2), of tb] by (simp add: empty)
  have "mset (map kv_keys (tb_recv ?tb)) = image_mset (\<lambda>m. keys_of (data_of m ! 0)) (mset asked)"
    by (simp add: o_def flip: mset_map)
  also have "\<dots> = mset (map (\<lambda>p. kv_keys (snd p)) sliced)"
    unfolding replies(1) K[symmetric] by simp
  finally have "mset (map kv_keys (tb_recv ?tb)) = mset (map (\<lambda>p. kv_keys (snd p)) sliced)" .
  then have "tb_handle_finish keys ?tb = Inr (map f keys, ?tb\<lparr>tb_recv := []\<rparr>)"
    using pm(3) S by (intro handle_finish_any_order[of _ "map (\<lambda>p. kv_keys (snd p)) sliced"])
      (auto simp: good_keys_def)
  moreover have "?tb\<lparr>tb_recv := []\<rparr> = tb" using empty by simp
  ultimately show "\<exists>tb'. fold_res (tb_handle_msg V) replies tb = Inr tb' \<and> tb_handle_finish keys tb' = Inr (map f keys, tb)"
    using h by auto
qed

text \<open>The largest key cannot be fetched: \<open>HandleFinish\<close> looks for the keys up to \<open>back() + 1\<close>,
  which wraps to 0, finds none, and aborts on every answer that ends with key 2^32 - 1.\<close>

theorem largest_key_is_rejected:
  assumes "kv_keys s \<noteq> []" "last (kv_keys s) = -1"
  shows "check_piece keys s t = Inl (Check_failed ''unmatched keys size from one server'')"
proof -
  have "range_size (find_range keys (hd (kv_keys s)) (last (kv_keys s) + 1)) = 0"
    using assms(2) by (simp add: find_range_def range_size_def)
  with assms(1) show ?thesis by (cases t) (simp add: check_piece_def Let_def)
qed

lemma largest_key_is_rejected_witness:
  "tb_handle_finish [-1] \<lparr>tb_thread = 100, tb_model = 0, tb_pm = Some two_ranges,
       tb_recv = [\<lparr>kv_keys = [-1], kv_vals = [7 :: u32]\<rparr>]\<rparr>
     = Inl (Check_failed ''unmatched keys size from one server'')"
  using largest_key_is_rejected[of "\<lparr>kv_keys = [-1], kv_vals = [7 :: u32]\<rparr>" "[-1]"]
  by (simp add: tb_handle_finish_def)

end
