(* ===== verification/App_Blocker.thy ===== *)
theory App_Blocker
  imports Messages
begin

text \<open>
  \<open>worker/app_blocker.cpp\<close>, \<open>worker/worker_helper_thread.cpp\<close>: an application thread announces
  how many answers it expects and waits; the helper thread runs its callbacks for every answer.
  Callbacks are functions on whatever they capture, the type \<open>'c\<close>.  \<open>ab_step\<close> interleaves the
  helper with a waiting thread at the granularity of the lock; \<open>callback_runner\<close> is the contract
  the client tables rely on.
\<close>

type_synonym ('k, 'l, 'v) omap2 = "('k, ('l, 'v) omap) omap"

definition get2 :: "('k, 'l, 'v) omap2 \<Rightarrow> 'k \<Rightarrow> 'l \<Rightarrow> 'v option" where
  "get2 m k l = om_get (get_or [] (om_get m k)) l"

definition set2 :: "'k::linorder \<Rightarrow> 'l::linorder \<Rightarrow> 'v \<Rightarrow> ('k, 'l, 'v) omap2 \<Rightarrow> ('k, 'l, 'v) omap2" where
  "set2 k l v m = om_set k (om_set l v (get_or [] (om_get m k))) m"

lemma get2_set2 [simp]: "get2 (set2 k l v m) k' l' = (if k' = k \<and> l' = l then Some v else get2 m k' l')"
  by (simp add: get2_def set2_def)

type_synonym 'c recv_handle = "message \<Rightarrow> 'c \<Rightarrow> 'c res"
type_synonym 'c finish_handle = "'c \<Rightarrow> 'c res"

record 'c app_blocker =
  ab_tracker :: "(u32, u32, u32 \<times> u32) omap2"
  ab_recv_handle :: "(u32, u32, 'c recv_handle) omap2"
  ab_finish_handle :: "(u32, u32, 'c finish_handle) omap2"

definition ab_new :: "'c app_blocker" where
  "ab_new = \<lparr>ab_tracker = [], ab_recv_handle = [], ab_finish_handle = []\<rparr>"

definition sanity_check :: "u32 \<Rightarrow> u32 \<Rightarrow> 'c app_blocker \<Rightarrow> 'a res \<Rightarrow> 'a res" where
  "sanity_check t m ab k =
     check_that (om_get (ab_recv_handle ab) t \<noteq> None) (Check_failed ''recv_handle_ for app_thread_id is not registered'')
     (check_that (get2 (ab_recv_handle ab) t m \<noteq> None) (Check_failed ''recv_handle_ for model is not registered'')
     (check_that (om_get (ab_finish_handle ab) t \<noteq> None) (Check_failed ''recv_finish_handle_ is not registered'')
     (check_that (get2 (ab_finish_handle ab) t m \<noteq> None) (Check_failed ''recv_finish_handle_ for model is not registered'')
       k)))"

definition register_recv_handle :: "u32 \<Rightarrow> u32 \<Rightarrow> 'c recv_handle \<Rightarrow> 'c app_blocker \<Rightarrow> 'c app_blocker" where
  "register_recv_handle t m h ab = ab\<lparr>ab_recv_handle := set2 t m h (ab_recv_handle ab)\<rparr>"

definition register_recv_finish_handle :: "u32 \<Rightarrow> u32 \<Rightarrow> 'c finish_handle \<Rightarrow> 'c app_blocker \<Rightarrow> 'c app_blocker" where
  "register_recv_finish_handle t m g ab = ab\<lparr>ab_finish_handle := set2 t m g (ab_finish_handle ab)\<rparr>"

definition new_request :: "u32 \<Rightarrow> u32 \<Rightarrow> u32 \<Rightarrow> 'c app_blocker \<Rightarrow> 'c app_blocker res" where
  "new_request t m expected ab =
     sanity_check t m ab (Inr (ab\<lparr>ab_tracker := set2 t m (expected, 0) (ab_tracker ab)\<rparr>))"

text \<open>\<open>tracker_[t][m]\<close>, which is \<open>(0, 0)\<close> before the first request.\<close>

definition counts :: "u32 \<Rightarrow> u32 \<Rightarrow> 'c app_blocker \<Rightarrow> u32 \<times> u32" where
  "counts t m ab = get_or (0, 0) (get2 (ab_tracker ab) t m)"

text \<open>The condition \<open>WaitRequest\<close> waits for.\<close>

definition wait_request :: "u32 \<Rightarrow> u32 \<Rightarrow> 'c app_blocker \<Rightarrow> bool res" where
  "wait_request t m ab = sanity_check t m ab (Inr (fst (counts t m ab) = snd (counts t m ab)))"

section \<open>\<open>AddResponse\<close>, lock section by lock section\<close>

definition ab_peek :: "u32 \<Rightarrow> u32 \<Rightarrow> 'c app_blocker \<Rightarrow> bool" where
  "ab_peek t m ab \<longleftrightarrow> fst (counts t m ab) = snd (counts t m ab) + 1"

definition ab_receive :: "u32 \<Rightarrow> u32 \<Rightarrow> message \<Rightarrow> 'c app_blocker \<Rightarrow> 'c \<Rightarrow> 'c res" where
  "ab_receive t m msg ab c = bind_res (of_opt Bad_function_call (get2 (ab_recv_handle ab) t m)) (\<lambda>h. h msg c)"

definition ab_finish :: "u32 \<Rightarrow> u32 \<Rightarrow> 'c app_blocker \<Rightarrow> 'c \<Rightarrow> 'c res" where
  "ab_finish t m ab c = bind_res (of_opt Bad_function_call (get2 (ab_finish_handle ab) t m)) (\<lambda>g. g c)"

definition ab_bump :: "u32 \<Rightarrow> u32 \<Rightarrow> 'c app_blocker \<Rightarrow> 'c app_blocker" where
  "ab_bump t m ab =
     ab\<lparr>ab_tracker := set2 t m (fst (counts t m ab), snd (counts t m ab) + 1) (ab_tracker ab)\<rparr>"

definition add_response :: "u32 \<Rightarrow> u32 \<Rightarrow> message \<Rightarrow> 'c app_blocker \<times> 'c \<Rightarrow> ('c app_blocker \<times> 'c) res" where
  "add_response t m msg = (\<lambda>(ab, c).
     (let recv_finish = ab_peek t m ab in
      bind_res (ab_receive t m msg ab c) (\<lambda>c.
      bind_res (if recv_finish then ab_finish t m ab c else Inr c) (\<lambda>c.
        Inr (ab_bump t m ab, c)))))"

text \<open>\<open>WorkerHelperThread::Main\<close> on the messages its queue will hold.\<close>

fun helper_main :: "message tsq \<Rightarrow> 'c app_blocker \<times> 'c \<Rightarrow> (('c app_blocker \<times> 'c) \<times> message tsq \<times> bool) res" where
  "helper_main [] s = Inr (s, [], False)"
| "helper_main (msg # q) s =
     (if msg_flag msg = kExit then Inr (s, q, True)
      else bind_res (add_response (to_u32 (msg_recver msg)) (to_u32 (msg_model msg)) msg s) (helper_main q))"

section \<open>The contract of \<open>AbstractCallbackRunner\<close>\<close>

locale callback_runner =
  fixes register_recv :: "u32 \<Rightarrow> u32 \<Rightarrow> 'c recv_handle \<Rightarrow> 'a \<Rightarrow> 'a"
    and register_finish :: "u32 \<Rightarrow> u32 \<Rightarrow> 'c finish_handle \<Rightarrow> 'a \<Rightarrow> 'a"
    and start :: "u32 \<Rightarrow> u32 \<Rightarrow> u32 \<Rightarrow> 'a \<Rightarrow> 'a res"
    and ready :: "u32 \<Rightarrow> u32 \<Rightarrow> 'a \<Rightarrow> bool res"
    and respond :: "u32 \<Rightarrow> u32 \<Rightarrow> message \<Rightarrow> 'a \<times> 'c \<Rightarrow> ('a \<times> 'c) res"
    and handlers :: "u32 \<Rightarrow> u32 \<Rightarrow> 'a \<Rightarrow> 'c recv_handle option \<times> 'c finish_handle option"
    and progress :: "u32 \<Rightarrow> u32 \<Rightarrow> 'a \<Rightarrow> u32 \<times> u32"
  assumes recv_law: "handlers t m (register_recv t m h a) = (Some h, snd (handlers t m a))"
    and finish_law: "handlers t m (register_finish t m g a) = (fst (handlers t m a), Some g)"
    and start_law: "handlers t m a = (Some h, Some g) \<Longrightarrow>
      \<exists>a'. start t m n a = Inr a' \<and> handlers t m a' = (Some h, Some g) \<and> progress t m a' = (n, 0)"
    and ready_law: "handlers t m a = (Some h, Some g) \<Longrightarrow>
      ready t m a = Inr (fst (progress t m a) = snd (progress t m a))"
    and respond_law: "handlers t m a = (Some h, Some g) \<Longrightarrow> progress t m a = (n, k) \<Longrightarrow>
      \<exists>a'. respond t m msg (a, c) = bind_res (h msg c) (\<lambda>c.
             bind_res (if n = k + 1 then g c else Inr c) (\<lambda>c. Inr (a', c)))
        \<and> handlers t m a' = (Some h, Some g) \<and> progress t m a' = (n, k + 1)"
begin

text \<open>
  The answers run their handler one after the other; the last one runs the finish handler, and
  only then is the request ready.
\<close>

lemma respond_all:
  "handlers t m a = (Some h, Some g) \<Longrightarrow> progress t m a = (n, k) \<Longrightarrow> msgs \<noteq> [] \<Longrightarrow>
   unat n = unat k + length msgs \<Longrightarrow>
   \<exists>a'. fold_res (respond t m) msgs (a, c) = bind_res (fold_res h msgs c) (\<lambda>c. bind_res (g c) (\<lambda>c. Inr (a', c)))
     \<and> handlers t m a' = (Some h, Some g) \<and> ready t m a' = Inr True"
proof (induction msgs arbitrary: a k c)
  case Nil
  then show ?case by simp
next
  case (Cons msg msgs)
  obtain a1 where r: "respond t m msg (a, c) = bind_res (h msg c) (\<lambda>c.
             bind_res (if n = k + 1 then g c else Inr c) (\<lambda>c. Inr (a1, c)))"
    and a1: "handlers t m a1 = (Some h, Some g)" "progress t m a1 = (n, k + 1)"
    using respond_law[OF Cons.prems(1,2)] by blast
  have k: "unat (k + 1) = Suc (unat k)"
    by (rule unat_Suc_below[of _ n]) (use Cons.prems(4) in simp)
  show ?case
  proof (cases msgs)
    case Nil
    with Cons.prems(4) k have "n = k + 1" by (simp add: word_unat_eq_iff)
    with r Nil a1 ready_law[OF a1(1)] show ?thesis
      by (intro exI[of _ a1]) (cases "h msg c"; simp; cases "g (projr (h msg c))"; simp)
  next
    case (Cons msg' rest)
    with Cons.prems(4) k have "n \<noteq> k + 1" by auto
    then have r': "respond t m msg (a, c) = bind_res (h msg c) (\<lambda>c. Inr (a1, c))"
      using r by simp
    have len: "unat n = unat (k + 1) + length msgs" using Cons.prems(4) k by simp
    show ?thesis
    proof (cases "h msg c")
      case (Inl e)
      obtain a' where "handlers t m a' = (Some h, Some g)" "ready t m a' = Inr True"
        using Cons.IH[OF a1 _ len, of undefined] Cons by auto
      with Inl r' show ?thesis by auto
    next
      case (Inr c1)
      from Cons.IH[OF a1 _ len, of c1] Cons r' Inr show ?thesis by auto
    qed
  qed
qed

end

lemma sanity_check_ok:
  "get2 (ab_recv_handle ab) t m \<noteq> None \<Longrightarrow> get2 (ab_finish_handle ab) t m \<noteq> None \<Longrightarrow> sanity_check t m ab k = k"
  by (cases "om_get (ab_recv_handle ab) t"; cases "om_get (ab_finish_handle ab) t")
    (auto simp: sanity_check_def get2_def)

definition ab_handlers :: "u32 \<Rightarrow> u32 \<Rightarrow> 'c app_blocker \<Rightarrow> 'c recv_handle option \<times> 'c finish_handle option" where
  "ab_handlers t m ab = (get2 (ab_recv_handle ab) t m, get2 (ab_finish_handle ab) t m)"

interpretation blocker: callback_runner register_recv_handle register_recv_finish_handle new_request wait_request
  add_response ab_handlers counts
proof unfold_locales
  fix t m h and a :: "'c app_blocker"
  show "ab_handlers t m (register_recv_handle t m h a) = (Some h, snd (ab_handlers t m a))"
    by (simp add: ab_handlers_def register_recv_handle_def)
next
  fix t m g and a :: "'c app_blocker"
  show "ab_handlers t m (register_recv_finish_handle t m g a) = (fst (ab_handlers t m a), Some g)"
    by (simp add: ab_handlers_def register_recv_finish_handle_def)
next
  fix t m h g n and a :: "'c app_blocker"
  assume "ab_handlers t m a = (Some h, Some g)"
  then show "\<exists>a'. new_request t m n a = Inr a' \<and> ab_handlers t m a' = (Some h, Some g) \<and> counts t m a' = (n, 0)"
    by (simp add: ab_handlers_def new_request_def sanity_check_ok counts_def)
next
  fix t m h g and a :: "'c app_blocker"
  assume "ab_handlers t m a = (Some h, Some g)"
  then show "wait_request t m a = Inr (fst (counts t m a) = snd (counts t m a))"
    by (simp add: ab_handlers_def wait_request_def sanity_check_ok)
next
  fix t m h g n k msg c and a :: "'c app_blocker"
  assume h: "ab_handlers t m a = (Some h, Some g)" and k: "counts t m a = (n, k)"
  then have g: "ab_finish t m a = g" "ab_receive t m msg a = h msg"
    by (simp_all add: fun_eq_iff ab_handlers_def ab_finish_def ab_receive_def)
  show "\<exists>a'. add_response t m msg (a, c) = bind_res (h msg c) (\<lambda>c.
             bind_res (if n = k + 1 then g c else Inr c) (\<lambda>c. Inr (a', c)))
        \<and> ab_handlers t m a' = (Some h, Some g) \<and> counts t m a' = (n, k + 1)"
    by (intro exI[of _ "ab_bump t m a"])
      (use h k in \<open>simp add: ab_handlers_def add_response_def Let_def g ab_peek_def ab_bump_def counts_def cong: if_cong\<close>)
qed

section \<open>The helper and the waiting thread, interleaved\<close>

text \<open>
  \<open>AddResponse\<close> takes the lock twice and runs the callbacks in between; the waiting thread may look
  at the counters between any two steps.  \<open>log\<close> holds the answers whose handler has run and
  \<open>done\<close> the number of times the finish handler has run.
\<close>

datatype phase = Idle | Peeked message bool | Received bool | Called

record helper_state =
  hs_blocker :: "(message list \<times> nat) app_blocker"
  hs_phase :: phase
  hs_world :: "message list \<times> nat"

definition logging_recv :: "(message list \<times> nat) recv_handle" where
  "logging_recv msg = (\<lambda>(log, k). Inr (log @ [msg], k))"

definition counting_finish :: "(message list \<times> nat) finish_handle" where
  "counting_finish = (\<lambda>(log, k). Inr (log, k + 1))"

inductive ab_step :: "u32 \<Rightarrow> u32 \<Rightarrow> nat \<Rightarrow> helper_state \<Rightarrow> helper_state \<Rightarrow> bool"
  for t m :: u32 and limit :: nat
where
  peek: "hs_phase s = Idle \<Longrightarrow> length (fst (hs_world s)) < limit \<Longrightarrow>
     ab_step t m limit s (s\<lparr>hs_phase := Peeked msg (ab_peek t m (hs_blocker s))\<rparr>)"
| receive: "hs_phase s = Peeked msg fin \<Longrightarrow> ab_receive t m msg (hs_blocker s) (hs_world s) = Inr c \<Longrightarrow>
     ab_step t m limit s (s\<lparr>hs_phase := Received fin, hs_world := c\<rparr>)"
| finish: "hs_phase s = Received True \<Longrightarrow> ab_finish t m (hs_blocker s) (hs_world s) = Inr c \<Longrightarrow>
     ab_step t m limit s (s\<lparr>hs_phase := Called, hs_world := c\<rparr>)"
| no_finish: "hs_phase s = Received False \<Longrightarrow> ab_step t m limit s (s\<lparr>hs_phase := Called\<rparr>)"
| bump: "hs_phase s = Called \<Longrightarrow>
     ab_step t m limit s (s\<lparr>hs_phase := Idle, hs_blocker := ab_bump t m (hs_blocker s)\<rparr>)"

inductive ab_run :: "u32 \<Rightarrow> u32 \<Rightarrow> nat \<Rightarrow> helper_state \<Rightarrow> helper_state \<Rightarrow> bool"
  for t m :: u32 and limit :: nat
where
  ab_stay: "ab_run t m limit s s"
| ab_more: "ab_run t m limit s s' \<Longrightarrow> ab_step t m limit s' s'' \<Longrightarrow> ab_run t m limit s s''"

text \<open>How far the current answer has come, and what that says of the finish handler.\<close>

definition ab_run_inv :: "u32 \<Rightarrow> u32 \<Rightarrow> u32 \<Rightarrow> helper_state \<Rightarrow> bool" where
  "ab_run_inv t m n s \<longleftrightarrow> ab_handlers t m (hs_blocker s) = (Some logging_recv, Some counting_finish)
     \<and> (\<exists>k. counts t m (hs_blocker s) = (n, of_nat k) \<and> k \<le> unat n \<and>
         (case hs_phase s of
            Idle \<Rightarrow> length (fst (hs_world s)) = k \<and> snd (hs_world s) = (if k = unat n then 1 else 0)
          | Peeked msg fin \<Rightarrow> k < unat n \<and> fin = (k + 1 = unat n) \<and> length (fst (hs_world s)) = k \<and> snd (hs_world s) = 0
          | Received fin \<Rightarrow> k < unat n \<and> fin = (k + 1 = unat n) \<and> length (fst (hs_world s)) = k + 1 \<and> snd (hs_world s) = 0
          | Called \<Rightarrow> k < unat n \<and> length (fst (hs_world s)) = k + 1
              \<and> snd (hs_world s) = (if k + 1 = unat n then 1 else 0)))"

lemma of_nat_u32_eq_iff: "k < unat n \<Longrightarrow> (n = of_nat k + 1) \<longleftrightarrow> k + 1 = unat (n::u32)"
proof -
  assume "k < unat n"
  moreover have "unat n < 2 ^ LENGTH(32)" by (rule unsigned_less)
  ultimately have "unat (of_nat (k + 1) :: u32) = k + 1"
    by (subst unat_of_nat_small) simp_all
  then show ?thesis by (auto simp: word_unat_eq_iff add.commute)
qed

lemma ab_step_inv:
  assumes "ab_run_inv t m n s" "ab_step t m (unat n) s s'"
  shows "ab_run_inv t m n s'"
proof -
  obtain k where H: "ab_handlers t m (hs_blocker s) = (Some logging_recv, Some counting_finish)"
    and k: "counts t m (hs_blocker s) = (n, of_nat k)" "k \<le> unat n"
    using assms(1) by (auto simp: ab_run_inv_def)
  have recv: "ab_receive t m msg (hs_blocker s) = logging_recv msg" for msg
    using H by (simp add: fun_eq_iff ab_handlers_def ab_receive_def)
  have fin: "ab_finish t m (hs_blocker s) = counting_finish"
    using H by (simp_all add: fun_eq_iff ab_handlers_def ab_finish_def ab_receive_def)
  have uniq: "k' = k" if "counts t m (hs_blocker s) = (n, of_nat k')" "k' \<le> unat n" for k'
  proof -
    have "unat n < 2 ^ LENGTH(32)" by (rule unsigned_less)
    then have "unat (of_nat k :: u32) = k" "unat (of_nat k' :: u32) = k'"
      using k(2) that(2) by (simp_all add: unat_of_nat_small)
    with k(1) that(1) show ?thesis by (metis prod.inject)
  qed
  have ph: "case hs_phase s of
            Idle \<Rightarrow> length (fst (hs_world s)) = k \<and> snd (hs_world s) = (if k = unat n then 1 else 0)
          | Peeked msg fin \<Rightarrow> k < unat n \<and> fin = (k + 1 = unat n) \<and> length (fst (hs_world s)) = k \<and> snd (hs_world s) = 0
          | Received fin \<Rightarrow> k < unat n \<and> fin = (k + 1 = unat n) \<and> length (fst (hs_world s)) = k + 1 \<and> snd (hs_world s) = 0
          | Called \<Rightarrow> k < unat n \<and> length (fst (hs_world s)) = k + 1
              \<and> snd (hs_world s) = (if k + 1 = unat n then 1 else 0)"
    using assms(1) uniq unfolding ab_run_inv_def by blast
  from assms(2) show ?thesis
  proof cases
    case (peek msg)
    with ph H k show ?thesis
      by (auto simp: ab_run_inv_def ab_peek_def of_nat_u32_eq_iff intro!: exI[of _ k])
  next
    case (receive msg fin c)
    obtain l d where w: "hs_world s = (l, d)" by force
    with receive ph H k recv show ?thesis
      by (auto simp: ab_run_inv_def logging_recv_def intro!: exI[of _ k])
  next
    case (finish c)
    obtain l d where w: "hs_world s = (l, d)" by force
    with finish ph H k fin show ?thesis
      by (auto simp: ab_run_inv_def counting_finish_def intro!: exI[of _ k])
  next
    case no_finish
    with ph H k show ?thesis by (auto simp: ab_run_inv_def intro!: exI[of _ k])
  next
    case bump
    with ph H k show ?thesis
      by (auto simp: ab_run_inv_def ab_bump_def ab_handlers_def counts_def intro!: exI[of _ "k + 1"])
  qed
qed

text \<open>C9. While at most the announced number of answers comes in, \<open>WaitRequest\<close> cannot return before
  the receive handler has run for every one of them and the finish handler has run, once, to its
  end: whatever the interleaving, the condition it waits for is false until then, and true when the
  last \<open>AddResponse\<close> has returned.\<close>

theorem wait_returns_after_finish:
  assumes "ab_handlers t m ab = (Some logging_recv, Some counting_finish)" "counts t m ab = (n, 0)" "0 < n"
    "ab_run t m (unat n) \<lparr>hs_blocker = ab, hs_phase = Idle, hs_world = ([], 0)\<rparr> s"
  shows "wait_request t m (hs_blocker s)
    = Inr (hs_phase s = Idle \<and> length (fst (hs_world s)) = unat n \<and> snd (hs_world s) = 1)"
proof -
  have pos: "0 < unat n" using assms(3) by (simp add: word_less_nat_alt)
  have start: "ab_run_inv t m n \<lparr>hs_blocker = ab, hs_phase = Idle, hs_world = ([], 0)\<rparr>"
    using assms(1,2) pos by (auto simp: ab_run_inv_def intro!: exI[of _ 0])
  have "ab_run_inv t m n s"
    using assms(4) start by (induction rule: ab_run.induct) (auto intro: ab_step_inv)
  then obtain k where k: "counts t m (hs_blocker s) = (n, of_nat k)" "k \<le> unat n"
    and H: "ab_handlers t m (hs_blocker s) = (Some logging_recv, Some counting_finish)"
    and ph: "case hs_phase s of
            Idle \<Rightarrow> length (fst (hs_world s)) = k \<and> snd (hs_world s) = (if k = unat n then 1 else 0)
          | Peeked msg fin \<Rightarrow> k < unat n \<and> fin = (k + 1 = unat n) \<and> length (fst (hs_world s)) = k \<and> snd (hs_world s) = 0
          | Received fin \<Rightarrow> k < unat n \<and> fin = (k + 1 = unat n) \<and> length (fst (hs_world s)) = k + 1 \<and> snd (hs_world s) = 0
          | Called \<Rightarrow> k < unat n \<and> length (fst (hs_world s)) = k + 1
              \<and> snd (hs_world s) = (if k + 1 = unat n then 1 else 0)"
    by (auto simp: ab_run_inv_def)
  have "unat n < 2 ^ LENGTH(32)" by (rule unsigned_less)
  then have "unat (of_nat k :: u32) = k" using k(2) by (simp add: unat_of_nat_small)
  then have "n = of_nat k \<longleftrightarrow> k = unat n" by (auto simp: word_unat_eq_iff)
  with blocker.ready_law[OF H] k ph show ?thesis
    by (cases "hs_phase s") auto
qed

definition blocker_demo :: "u32 \<Rightarrow> (message list \<times> nat) app_blocker" where
  "blocker_demo k =
     \<lparr>ab_tracker = [(5, [(0, (1, k))])], ab_recv_handle = [(5, [(0, logging_recv)])],
      ab_finish_handle = [(5, [(0, counting_finish)])]\<rparr>"

text \<open>One answer is expected and comes in.\<close>

lemma wait_returns_after_finish_witness:
  "wait_request 5 0 (blocker_demo 0) = Inr False \<and> wait_request 5 0 (blocker_demo 1) = Inr True"
proof
  let ?s = "\<lambda>k ph w. \<lparr>hs_blocker = blocker_demo k, hs_phase = ph, hs_world = w\<rparr>"
  fix msg :: message
  have h: "ab_handlers 5 0 (blocker_demo 0) = (Some logging_recv, Some counting_finish)"
    "counts 5 0 (blocker_demo 0) = (1, 0)" "(0::u32) < 1"
    by (simp_all add: ab_handlers_def blocker_demo_def get2_def counts_def)
  note W = wait_returns_after_finish[OF h]
  have 0: "ab_run 5 0 1 (?s 0 Idle ([], 0)) (?s 0 Idle ([], 0))" by (rule ab_run.ab_stay)
  show "wait_request 5 0 (blocker_demo 0) = Inr False"
    using W[of "?s 0 Idle ([], 0)"] 0 by simp
  have 1: "ab_run 5 0 1 (?s 0 Idle ([], 0)) (?s 0 (Peeked msg True) ([], 0))"
    using ab_run.ab_more[OF 0 ab_step.peek[of _ 1 5 0 msg]]
    by (simp add: ab_peek_def counts_def blocker_demo_def get2_def)
  have 2: "ab_run 5 0 1 (?s 0 Idle ([], 0)) (?s 0 (Received True) ([msg], 0))"
    using ab_run.ab_more[OF 1 ab_step.receive[of _ msg True 5 0 "([msg], 0)"]]
    by (simp add: ab_receive_def blocker_demo_def get2_def logging_recv_def)
  have 3: "ab_run 5 0 1 (?s 0 Idle ([], 0)) (?s 0 Called ([msg], 1))"
    using ab_run.ab_more[OF 2 ab_step.finish[of _ 5 0 "([msg], 1)"]]
    by (simp add: ab_finish_def blocker_demo_def get2_def counting_finish_def)
  have 4: "ab_run 5 0 1 (?s 0 Idle ([], 0)) (?s 1 Idle ([msg], 1))"
    using ab_run.ab_more[OF 3 ab_step.bump[of _ 5 0]]
    by (simp add: ab_bump_def blocker_demo_def get2_def counts_def set2_def)
  show "wait_request 5 0 (blocker_demo 1) = Inr True"
    using W[of "?s 1 Idle ([msg], 1)"] 4 by simp
qed

text \<open>
  A request that expects no answers.  \<open>answers_done\<close> counts the answers whose \<open>AddResponse\<close> has
  returned: all whose handler has run, but for the one that is still being handled.
\<close>

definition answers_done :: "helper_state \<Rightarrow> nat" where
  "answers_done s = length (fst (hs_world s))
     - (case hs_phase s of Received fin \<Rightarrow> 1 | Called \<Rightarrow> 1 | _ \<Rightarrow> 0)"

definition ab_empty_inv :: "u32 \<Rightarrow> u32 \<Rightarrow> nat \<Rightarrow> helper_state \<Rightarrow> bool" where
  "ab_empty_inv t m limit s \<longleftrightarrow> ab_handlers t m (hs_blocker s) = (Some logging_recv, Some counting_finish)
     \<and> snd (hs_world s) = 0
     \<and> (\<exists>k \<le> limit. counts t m (hs_blocker s) = (0, of_nat k) \<and>
         (case hs_phase s of
            Idle \<Rightarrow> length (fst (hs_world s)) = k
          | Peeked msg fin \<Rightarrow> k < limit \<and> \<not> fin \<and> length (fst (hs_world s)) = k
          | Received fin \<Rightarrow> k < limit \<and> \<not> fin \<and> length (fst (hs_world s)) = k + 1
          | Called \<Rightarrow> k < limit \<and> length (fst (hs_world s)) = k + 1))"

lemma zero_not_next: "k + 1 < 2 ^ 32 \<Longrightarrow> (0 :: u32) \<noteq> of_nat k + 1"
proof -
  assume "k + 1 < 2 ^ 32"
  then have "unat (of_nat (k + 1) :: u32) = k + 1" by (subst unat_of_nat_small) simp_all
  then show ?thesis by (metis Suc_eq_plus1 of_nat_Suc add.commute nat.distinct(1) unat_0)
qed

lemma ab_empty_step:
  assumes "ab_empty_inv t m limit s" "ab_step t m limit s s'" "limit < 2 ^ 32"
  shows "ab_empty_inv t m limit s'"
proof -
  obtain k where H: "ab_handlers t m (hs_blocker s) = (Some logging_recv, Some counting_finish)"
    and k: "counts t m (hs_blocker s) = (0, of_nat k)" "k \<le> limit" and w: "snd (hs_world s) = 0"
    and ph: "case hs_phase s of
            Idle \<Rightarrow> length (fst (hs_world s)) = k
          | Peeked msg fin \<Rightarrow> k < limit \<and> \<not> fin \<and> length (fst (hs_world s)) = k
          | Received fin \<Rightarrow> k < limit \<and> \<not> fin \<and> length (fst (hs_world s)) = k + 1
          | Called \<Rightarrow> k < limit \<and> length (fst (hs_world s)) = k + 1"
    using assms(1) unfolding ab_empty_inv_def by blast
  have recv: "ab_receive t m msg (hs_blocker s) = logging_recv msg" for msg
    using H by (simp add: fun_eq_iff ab_handlers_def ab_receive_def)
  obtain l d where world: "hs_world s = (l, d)" by force
  from assms(2) show ?thesis
  proof cases
    case (peek msg)
    then show ?thesis
      using ph H k w zero_not_next[of k] assms(3) by (auto simp: ab_empty_inv_def ab_peek_def intro!: exI[of _ k])
  next
    case (receive msg fin c)
    then show ?thesis
      using ph H k w recv world by (auto simp: ab_empty_inv_def logging_recv_def intro!: exI[of _ k])
  next
    case bump
    then show ?thesis
      using ph H k w by (auto simp: ab_empty_inv_def ab_bump_def ab_handlers_def counts_def intro!: exI[of _ "k + 1"])
  qed (use ph H k w in \<open>auto simp: ab_empty_inv_def intro!: exI[of _ k]\<close>)
qed

text \<open>C12. A request that expects no answers never runs its finish handler: not when it is made and
  not on any answer that comes in afterwards (up to \<open>2 ^ 32 - 1\<close> of them, when the counter wraps), however the
  steps of the helper interleave.  \<open>WaitRequest\<close> may return at once, but a single answer that has been handled
  makes its condition false for good.\<close>

theorem empty_request_never_finishes:
  assumes "ab_handlers t m ab = (Some logging_recv, Some counting_finish)" "new_request t m 0 ab = Inr ab'"
    "ab_run t m limit \<lparr>hs_blocker = ab', hs_phase = Idle, hs_world = ([], 0)\<rparr> s" "limit < 2 ^ 32"
  shows "snd (hs_world s) = 0 \<and> wait_request t m (hs_blocker s) = Inr (answers_done s = 0)"
proof -
  have "ab_handlers t m ab' = (Some logging_recv, Some counting_finish) \<and> counts t m ab' = (0, 0)"
    using blocker.start_law[OF assms(1), of 0] assms(2) by auto
  then have start: "ab_empty_inv t m limit \<lparr>hs_blocker = ab', hs_phase = Idle, hs_world = ([], 0)\<rparr>"
    by (auto simp: ab_empty_inv_def intro!: exI[of _ 0])
  have "ab_empty_inv t m limit s"
    using assms(3) start by (induction rule: ab_run.induct) (auto intro: ab_empty_step assms(4))
  then obtain k where k: "counts t m (hs_blocker s) = (0, of_nat k)" "k \<le> limit" "snd (hs_world s) = 0" "answers_done s = k"
    and H: "ab_handlers t m (hs_blocker s) = (Some logging_recv, Some counting_finish)"
    unfolding ab_empty_inv_def by (cases "hs_phase s") (auto simp: answers_done_def)
  have u: "unat (of_nat k :: u32) = k" using k(2) assms(4) by (subst unat_of_nat_small) simp_all
  have z: "((0 :: u32) = of_nat k) = (k = 0)" unfolding word_unat_eq_iff u unat_0 by (rule eq_commute)
  have "wait_request t m (hs_blocker s) = Inr ((0 :: u32) = of_nat k)"
    using blocker.ready_law[OF H] unfolding k(1) fst_conv snd_conv .
  then show ?thesis unfolding z k(4) using k(3) by blast
qed

text \<open>An answer comes in although none was announced: the finish handler does not run and the request waits.\<close>

lemma empty_request_never_finishes_witness:
  "\<exists>ab'. new_request 5 0 0 (blocker_demo 0) = Inr ab' \<and> wait_request 5 0 ab' = Inr True
     \<and> wait_request 5 0 (ab_bump 5 0 ab') = Inr False"
proof -
  have h: "ab_handlers 5 0 (blocker_demo 0) = (Some logging_recv, Some counting_finish)"
    by (simp add: ab_handlers_def blocker_demo_def get2_def)
  obtain ab' where ab': "new_request 5 0 0 (blocker_demo 0) = Inr ab'"
    "ab_handlers 5 0 ab' = (Some logging_recv, Some counting_finish)" "counts 5 0 ab' = (0, 0)"
    using blocker.start_law[OF h, of 0] by blast
  have recv: "ab_receive 5 0 msg ab' = logging_recv msg" for msg
    using ab'(2) by (simp add: fun_eq_iff ab_handlers_def ab_receive_def)
  let ?s = "\<lambda>ab ph w. \<lparr>hs_blocker = ab, hs_phase = ph, hs_world = w\<rparr>"
  fix msg :: message
  note E = empty_request_never_finishes[OF h ab'(1), of 1]
  have 0: "ab_run 5 0 1 (?s ab' Idle ([], 0)) (?s ab' Idle ([], 0))" by (rule ab_run.ab_stay)
  have 1: "ab_run 5 0 1 (?s ab' Idle ([], 0)) (?s ab' (Peeked msg False) ([], 0))"
    using ab_run.ab_more[OF 0 ab_step.peek[of _ 1 5 0 msg]] ab'(3) by (simp add: ab_peek_def)
  have 2: "ab_run 5 0 1 (?s ab' Idle ([], 0)) (?s ab' (Received False) ([msg], 0))"
    using ab_run.ab_more[OF 1 ab_step.receive[of _ msg False 5 0 "([msg], 0)"]] by (simp add: recv logging_recv_def)
  have 3: "ab_run 5 0 1 (?s ab' Idle ([], 0)) (?s ab' Called ([msg], 0))"
    using ab_run.ab_more[OF 2 ab_step.no_finish[of _ 5 0]] by simp
  have 4: "ab_run 5 0 1 (?s ab' Idle ([], 0)) (?s (ab_bump 5 0 ab') Idle ([msg], 0))"
    using ab_run.ab_more[OF 3 ab_step.bump[of _ 5 0]] by simp
  show ?thesis
    using E[OF 0] E[OF 4] ab'(1) by (simp add: answers_done_def)
qed

end
