(* ===== verification/Client_Tables.thy ===== *)
theory Client_Tables
  imports Table_Box App_Blocker
begin

text \<open>
  \<open>worker/kv_client_table.hpp\<close> and \<open>worker/simple_kv_table.hpp\<close>: the tables an application
  works with.  \<open>KVClientTable\<close> waits on the blocker while the helper thread collects the answers;
  \<open>SimpleKVTable\<close> collects them itself.  The world of the callbacks is the client: its table box
  and the vector the caller passed for the values.
\<close>

section \<open>\<open>KVClientTable\<close>\<close>

record 'v client =
  cl_box :: "'v table_box"
  cl_vals :: "'v list option"

definition box_recv :: "'v val_type \<Rightarrow> 'v client recv_handle" where
  "box_recv V msg c = bind_res (tb_handle_msg V msg (cl_box c)) (\<lambda>tb. Inr (c\<lparr>cl_box := tb\<rparr>))"

definition box_finish :: "u32 list \<Rightarrow> 'v client finish_handle" where
  "box_finish keys c =
     bind_res (tb_handle_finish keys (cl_box c)) (\<lambda>(vals, tb). Inr (c\<lparr>cl_box := tb, cl_vals := Some vals\<rparr>))"

definition kct_new ::
  "'v val_type \<Rightarrow> u32 \<Rightarrow> u32 \<Rightarrow> partition_manager option \<Rightarrow> 'v client app_blocker \<Rightarrow> 'v client app_blocker \<times> 'v client"
where
  "kct_new V t mid pm ab =
     (register_recv_handle t mid (box_recv V) ab, \<lparr>cl_box = tb_new t mid pm, cl_vals = None\<rparr>)"

definition kct_add ::
  "(nat \<Rightarrow> meta) \<Rightarrow> 'v val_type \<Rightarrow> u32 list \<Rightarrow> 'v list \<Rightarrow> 'v client \<Rightarrow> message list res"
where
  "kct_add junk V keys vals c = tb_add junk V keys vals (cl_box c)"

definition kct_clock :: "(nat \<Rightarrow> meta) \<Rightarrow> 'v client \<Rightarrow> message list res" where
  "kct_clock junk c = tb_clock junk (cl_box c)"

text \<open>\<open>Get_\<close> up to the sending of the requests, and then with the messages the helper finds.\<close>

definition kct_get_send ::
  "(nat \<Rightarrow> meta) \<Rightarrow> u32 list \<Rightarrow> 'v client app_blocker \<times> 'v client \<Rightarrow> (message list \<times> 'v client app_blocker) res"
where
  "kct_get_send junk keys = (\<lambda>(ab, c).
     (let tb = cl_box c in
      bind_res (tb_slice \<lparr>kv_keys = keys, kv_vals = []\<rparr> tb) (\<lambda>sliced.
      let ab = register_recv_finish_handle (tb_thread tb) (tb_model tb) (box_finish keys) ab;
          num_reqs = of_nat (length sliced) in
      bind_res (new_request (tb_thread tb) (tb_model tb) num_reqs ab) (\<lambda>ab.
      bind_res (tb_send junk sliced False tb) (\<lambda>msgs. Inr (msgs, ab))))))"

definition kct_get ::
  "(nat \<Rightarrow> meta) \<Rightarrow> u32 list \<Rightarrow> message tsq \<Rightarrow> 'v client app_blocker \<times> 'v client
     \<Rightarrow> (message list \<times> ('v client app_blocker \<times> 'v client) \<times> bool) res"
where
  "kct_get junk keys responses = (\<lambda>(ab, c).
     bind_res (kct_get_send junk keys (ab, c)) (\<lambda>(msgs, ab).
     bind_res (helper_main responses (ab, c)) (\<lambda>((ab, c), _, _).
     bind_res (wait_request (tb_thread (cl_box c)) (tb_model (cl_box c)) ab) (\<lambda>returns.
       Inr (msgs, (ab, c), returns)))))"

section \<open>\<open>SimpleKVTable\<close>\<close>

record 'v simple_table =
  st_box :: "'v table_box"
  st_current :: u32
  st_expected :: u32
  st_vals :: "'v list option"

definition skt_new :: "u32 \<Rightarrow> u32 \<Rightarrow> partition_manager option \<Rightarrow> 'v simple_table" where
  "skt_new t mid pm = \<lparr>st_box = tb_new t mid pm, st_current = 0, st_expected = 0, st_vals = None\<rparr>"

definition skt_add ::
  "(nat \<Rightarrow> meta) \<Rightarrow> 'v val_type \<Rightarrow> u32 list \<Rightarrow> 'v list \<Rightarrow> 'v simple_table \<Rightarrow> message list res"
where
  "skt_add junk V keys vals s = tb_add junk V keys vals (st_box s)"

definition skt_clock :: "(nat \<Rightarrow> meta) \<Rightarrow> 'v simple_table \<Rightarrow> message list res" where
  "skt_clock junk s = tb_clock junk (st_box s)"

text \<open>
  The loop \<open>while (current_responses < expected_responses)\<close> on the messages the queue will hold;
  \<open>False\<close> says that it waits for another one.
\<close>

fun skt_wait ::
  "'v val_type \<Rightarrow> u32 list \<Rightarrow> message tsq \<Rightarrow> 'v simple_table \<Rightarrow> ('v simple_table \<times> message tsq \<times> bool) res"
where
  "skt_wait V keys [] s = Inr (s, [], \<not> st_current s < st_expected s)"
| "skt_wait V keys (msg # q) s =
     (if st_current s < st_expected s then
        (let s = s\<lparr>st_current := st_current s + 1\<rparr> in
         bind_res (tb_handle_msg V msg (st_box s)) (\<lambda>tb.
         let s = s\<lparr>st_box := tb\<rparr> in
         bind_res (if st_current s = st_expected s then
                     bind_res (tb_handle_finish keys (st_box s)) (\<lambda>(vals, tb).
                       Inr (s\<lparr>st_box := tb, st_vals := Some vals, st_current := 0, st_expected := 0\<rparr>))
                   else Inr s) (skt_wait V keys q)))
      else Inr (s, msg # q, True))"

definition skt_get ::
  "(nat \<Rightarrow> meta) \<Rightarrow> 'v val_type \<Rightarrow> u32 list \<Rightarrow> message tsq \<Rightarrow> 'v simple_table
     \<Rightarrow> (message list \<times> 'v simple_table \<times> message tsq \<times> bool) res"
where
  "skt_get junk V keys q s =
     bind_res (tb_slice \<lparr>kv_keys = keys, kv_vals = []\<rparr> (st_box s)) (\<lambda>sliced.
     let s = s\<lparr>st_expected := of_nat (length sliced), st_current := 0\<rparr> in
     bind_res (tb_send junk sliced False (st_box s)) (\<lambda>msgs.
     bind_res (skt_wait V keys q s) (\<lambda>(s, q, returns). Inr (msgs, s, q, returns))))"

section \<open>Both read what the servers hold\<close>

lemma length_le_concat: "[] \<notin> set xss \<Longrightarrow> length xss \<le> length (concat xss)"
proof (induction xss)
  case (Cons x xss)
  then show ?case by (cases x) auto
qed simp

lemma good_keys_few:
  assumes "good_keys pm keys"
  shows "length keys < 2 ^ 32"
proof -
  have "distinct keys" and no: "-1 \<notin> set keys"
    using assms by (auto simp: good_keys_def strict_sorted_iff)
  then have "length keys = card (set keys)" by (simp add: distinct_card)
  also have "\<dots> < card (UNIV :: u32 set)"
    using no by (intro psubset_card_mono) auto
  finally show ?thesis by (simp add: card_word)
qed

lemma sliced_count:
  assumes "pm_wf pm" "good_keys pm keys" "slice pm \<lparr>kv_keys = keys, kv_vals = []\<rparr> = Inr sliced"
  shows "unat (of_nat (length sliced) :: u32) = length sliced" "0 < length sliced"
proof -
  note S = good_keys_slice[OF assms, of 0, simplified]
  have "length sliced \<le> length keys"
  proof -
    have "[] \<notin> set (map (\<lambda>p. kv_keys (snd p)) sliced)" using S(2) by force
    from length_le_concat[OF this] show ?thesis by (simp add: S(1))
  qed
  then have "length sliced < 2 ^ 32" using good_keys_few[OF assms(2)] by linarith
  then show "unat (of_nat (length sliced) :: u32) = length sliced"
    by (intro unat_of_nat_small) simp
  show "0 < length sliced" using S(1) assms(2) by (auto simp: good_keys_def)
qed

lemma fold_box_recv:
  "fold_res (box_recv V) msgs c = bind_res (fold_res (tb_handle_msg V) msgs (cl_box c)) (\<lambda>tb. Inr (c\<lparr>cl_box := tb\<rparr>))"
proof (induction msgs arbitrary: c)
  case Nil
  then show ?case by simp
next
  case (Cons m msgs)
  then show ?case by (cases "tb_handle_msg V m (cl_box c)") (simp_all add: box_recv_def)
qed

lemma helper_main_responses:
  "\<forall>r \<in> set rs. msg_flag r \<noteq> kExit \<and> to_u32 (msg_recver r) = t \<and> to_u32 (msg_model r) = m \<Longrightarrow>
     helper_main rs s = bind_res (fold_res (add_response t m) rs s) (\<lambda>s. Inr (s, [], False))"
proof (induction rs arbitrary: s)
  case Nil
  then show ?case by simp
next
  case (Cons r rs)
  then show ?case by (cases "add_response t m r s") simp_all
qed

lemma replies_addressed:
  assumes "tb_send junk sliced False tb = Inr msgs" "\<forall>p \<in> set sliced. kv_keys (snd p) \<noteq> []"
    "mset asked = mset msgs" "list_all2 (answers V f) asked replies" "r \<in> set replies"
  shows "msg_flag r = kGet \<and> to_u32 (msg_recver r) = tb_thread tb \<and> to_u32 (msg_model r) = tb_model tb"
proof -
  obtain m where m: "m \<in> set asked" "answers V f m r"
    using list_all2_set2[OF assms(4,5)] by blast
  then have "m \<in> set msgs" using assms(3) by (metis set_mset_mset)
  from tb_send_keys(3)[OF assms(1,2) this] m(2) show ?thesis
    by (simp add: answers_def reply_id_def request_id_def)
qed

text \<open>
  What a Get works on: a well-formed partition, an empty box, and answers that the servers gave to
  the requests that were sent, in whatever order they come back.
\<close>

definition served ::
  "'v val_type \<Rightarrow> (u32 \<Rightarrow> 'v) \<Rightarrow> message list \<Rightarrow> message list \<Rightarrow> bool"
where
  "served V f msgs replies \<longleftrightarrow> (\<exists>asked. mset asked = mset msgs \<and> list_all2 (answers V f) asked replies)"

section \<open>A small run\<close>

text \<open>Three keys on two servers, which answer in the other order.\<close>

definition demo_keys :: "u32 list" where
  "demo_keys = [2, 4, 7]"

definition demo_meta :: meta where
  "demo_meta = \<lparr>sender = 0, recver = 0, model_id = 0, mflag = kGet, version = 0\<rparr>"

definition demo_request :: "int \<Rightarrow> u32 list \<Rightarrow> message" where
  "demo_request server keys =
     \<lparr>meta_of = demo_meta\<lparr>sender := 100, recver := server\<rparr>, data_of = [bytes_of_keys keys]\<rparr>"

definition demo_answer :: "int \<Rightarrow> u32 list \<Rightarrow> message" where
  "demo_answer server keys =
     \<lparr>meta_of = demo_meta\<lparr>sender := server, recver := 100\<rparr>,
      data_of = [bytes_of_keys keys, bytes_of_vals u32_val (map (\<lambda>k. 10 * k) keys)]\<rparr>"

definition demo_box :: "u32 table_box" where
  "demo_box = tb_new 100 0 (Some two_ranges)"

abbreviation demo_sliced :: sliced_kvs where
  "demo_sliced \<equiv> [(0, \<lparr>kv_keys = [2, 4], kv_vals = []\<rparr>), (1000, \<lparr>kv_keys = [7], kv_vals = []\<rparr>)]"

lemma demo_good_keys: "good_keys two_ranges demo_keys"
  by (simp add: good_keys_def demo_keys_def two_ranges_def pm_owns_def in_range_def less_Suc_eq ex_disj_distrib conj_disj_distribR)

lemma demo_slice: "slice two_ranges \<lparr>kv_keys = demo_keys, kv_vals = []\<rparr> = Inr demo_sliced"
  by code_simp

lemma demo_send:
  "tb_send (\<lambda>_. demo_meta) demo_sliced False demo_box = Inr [demo_request 0 [2, 4], demo_request 1000 [7]]"
  by code_simp

lemma demo_served:
  "served u32_val (\<lambda>k. 10 * k) [demo_request 0 [2, 4], demo_request 1000 [7]] [demo_answer 1000 [7], demo_answer 0 [2, 4]]"
  unfolding served_def
proof (intro exI conjI)
  show "list_all2 (answers u32_val (\<lambda>k. 10 * k)) [demo_request 1000 [7], demo_request 0 [2, 4]]
      [demo_answer 1000 [7], demo_answer 0 [2, 4]]"
    by code_simp
qed simp

section \<open>The claims\<close>

text \<open>C4. \<open>KVClientTable::Get\<close>, from end to end: for strictly sorted keys that the servers hold, once
  every server has answered its part, in any order, \<open>Get\<close> returns; the vector then holds the value
  of every key, in the order of the keys, and the table is ready for the next request.\<close>

theorem kv_client_get_correct:
  assumes pm: "pm_wf pm" "tb_pm (cl_box c) = Some pm" "good_keys pm keys" and empty: "tb_recv (cl_box c) = []"
    and reg: "fst (ab_handlers (tb_thread (cl_box c)) (tb_model (cl_box c)) ab) = Some (box_recv V)"
    and sent: "kct_get_send junk keys (ab, c) = Inr (msgs, ab')"
    and served: "served V f msgs replies"
  shows "\<exists>ab''. kct_get junk keys replies (ab, c) = Inr (msgs, (ab'', c\<lparr>cl_vals := Some (map f keys)\<rparr>), True)"
proof -
  let ?tb = "cl_box c" and ?t = "tb_thread (cl_box c)" and ?m = "tb_model (cl_box c)"
  obtain asked where asked: "mset asked = mset msgs" "list_all2 (answers V f) asked replies"
    using served by (auto simp: served_def)
  define ab1 where "ab1 = register_recv_finish_handle ?t ?m (box_finish keys) ab"
  obtain sliced where sl: "slice pm \<lparr>kv_keys = keys, kv_vals = []\<rparr> = Inr sliced"
    and nr: "new_request ?t ?m (of_nat (length sliced)) ab1 = Inr ab'"
    and ts: "tb_send junk sliced False ?tb = Inr msgs"
    using sent pm(2) by (auto simp: kct_get_send_def Let_def tb_slice_def bind_res_Inr_iff ab1_def)
  have h1: "ab_handlers ?t ?m ab1 = (Some (box_recv V), Some (box_finish keys))"
    using blocker.finish_law[of ?t ?m "box_finish keys" ab] reg by (simp add: ab1_def)
  have h: "ab_handlers ?t ?m ab' = (Some (box_recv V), Some (box_finish keys))"
    "counts ?t ?m ab' = (of_nat (length sliced), 0)"
    using blocker.start_law[OF h1, of "of_nat (length sliced)"] nr by auto
  note G = get_any_order[OF pm empty sl ts asked] and N = sliced_count[OF pm(1,3) sl]
  obtain tb' where tb': "fold_res (tb_handle_msg V) replies ?tb = Inr tb'"
    "tb_handle_finish keys tb' = Inr (map f keys, ?tb)"
    using G(2) by blast
  have ne: "replies \<noteq> []" "unat (of_nat (length sliced) :: u32) = unat (0::u32) + length replies"
    using G(1) N by auto
  obtain ab'' where run: "fold_res (add_response ?t ?m) replies (ab', c)
      = bind_res (fold_res (box_recv V) replies c) (\<lambda>c. bind_res (box_finish keys c) (\<lambda>c. Inr (ab'', c)))"
    and ready: "wait_request ?t ?m ab'' = Inr True"
    using blocker.respond_all[OF h ne, of c] by blast
  have "fold_res (box_recv V) replies c = Inr (c\<lparr>cl_box := tb'\<rparr>)"
    by (simp add: fold_box_recv tb'(1))
  then have run': "fold_res (add_response ?t ?m) replies (ab', c) = Inr (ab'', c\<lparr>cl_vals := Some (map f keys)\<rparr>)"
    unfolding run by (simp add: box_finish_def tb'(2))
  have addr: "\<forall>r \<in> set replies. msg_flag r \<noteq> kExit \<and> to_u32 (msg_recver r) = ?t \<and> to_u32 (msg_model r) = ?m"
    using replies_addressed[OF ts good_keys_slice(2)[OF pm(1,3) sl, of 0, simplified] asked] by auto
  have "helper_main replies (ab', c) = Inr ((ab'', c\<lparr>cl_vals := Some (map f keys)\<rparr>), [], False)"
    unfolding helper_main_responses[OF addr] run' by simp
  then show ?thesis
    using sent ready by (simp add: kct_get_def)
qed

lemma kv_client_get_correct_witness:
  "\<exists>ab'. kct_get (\<lambda>_. demo_meta) demo_keys [demo_answer 1000 [7], demo_answer 0 [2, 4]]
        (kct_new u32_val 100 0 (Some two_ranges) ab_new)
    = Inr ([demo_request 0 [2, 4], demo_request 1000 [7]], (ab', \<lparr>cl_box = demo_box, cl_vals = Some [20, 40, 70]\<rparr>), True)"
proof -
  let ?c = "\<lparr>cl_box = demo_box, cl_vals = None\<rparr>" and ?ab = "register_recv_handle 100 0 (box_recv u32_val) ab_new"
  have start: "kct_new u32_val 100 0 (Some two_ranges) ab_new = (?ab, ?c)" by (simp add: kct_new_def demo_box_def)
  have box: "tb_thread demo_box = 100" "tb_model demo_box = 0" "tb_pm demo_box = Some two_ranges" "tb_recv demo_box = []"
    by (simp_all add: demo_box_def tb_new_def)
  have reg: "fst (ab_handlers 100 0 ?ab) = Some (box_recv u32_val)" by (simp add: blocker.recv_law)
  obtain ab' where sent: "kct_get_send (\<lambda>_. demo_meta) demo_keys (?ab, ?c)
      = Inr ([demo_request 0 [2, 4], demo_request 1000 [7]], ab')"
  proof -
    let ?ab1 = "register_recv_finish_handle 100 0 (box_finish demo_keys) ?ab"
    have "ab_handlers 100 0 ?ab1 = (Some (box_recv u32_val), Some (box_finish demo_keys))"
      by (simp add: blocker.finish_law blocker.recv_law)
    then obtain ab' where "new_request 100 0 2 ?ab1 = Inr ab'"
      using blocker.start_law by blast
    then show ?thesis
      by (intro that[of ab']) (simp add: kct_get_send_def tb_slice_def box demo_slice demo_send Let_def)
  qed
  from kv_client_get_correct[of two_ranges ?c demo_keys ?ab u32_val, OF two_ranges_wf _ demo_good_keys _ _ sent demo_served]
  show ?thesis by (simp add: start box reg) (simp add: demo_keys_def)
qed

lemma skt_wait_all:
  assumes "\<And>tb'. fold_res (tb_handle_msg V) msgs (st_box s) = Inr tb' \<Longrightarrow> tb_handle_finish keys tb' = Inr (vals, tb)"
  shows "fold_res (tb_handle_msg V) msgs (st_box s) = Inr tb' \<Longrightarrow> msgs \<noteq> [] \<Longrightarrow>
    unat (st_expected s) = unat (st_current s) + length msgs \<Longrightarrow>
    skt_wait V keys msgs s = Inr (s\<lparr>st_box := tb, st_vals := Some vals, st_current := 0, st_expected := 0\<rparr>, [], True)"
  using assms
proof (induction msgs arbitrary: s)
  case Nil
  then show ?case by simp
next
  case (Cons m msgs)
  obtain tb1 where m: "tb_handle_msg V m (st_box s) = Inr tb1" "fold_res (tb_handle_msg V) msgs tb1 = Inr tb'"
    using Cons.prems(1) by (auto simp: res_simps)
  have less_n: "unat (st_current s) < unat (st_expected s)" using Cons.prems(3) by simp
  then have lt: "st_current s < st_expected s" by (simp add: word_less_nat_alt)
  have suc: "unat (st_current s + 1) = Suc (unat (st_current s))" by (rule unat_Suc_below[OF less_n])
  have fin: "tb_handle_finish keys tb' = Inr (vals, tb)" by (rule Cons.prems(4)[OF Cons.prems(1)])
  show ?case
  proof (cases "msgs = []")
    case True
    then have "st_current s + 1 = st_expected s"
      using Cons.prems(3) suc by (simp add: word_unat_eq_iff)
    with True m lt fin show ?thesis by (simp add: Let_def)
  next
    case False
    then have ne: "st_current s + 1 \<noteq> st_expected s" using Cons.prems(3) suc by auto
    let ?s = "s\<lparr>st_current := st_current s + 1, st_box := tb1\<rparr>"
    have "skt_wait V keys msgs ?s = Inr (?s\<lparr>st_box := tb, st_vals := Some vals, st_current := 0, st_expected := 0\<rparr>, [], True)"
      by (rule Cons.IH) (use m False Cons.prems(3) suc fin in auto)
    with m lt ne show ?thesis by (simp add: Let_def)
  qed
qed

text \<open>\<open>SimpleKVTable::Get\<close> returns the same: it takes exactly as many messages from its queue
  as it sent requests, and the vector holds the value of every key in the order of the keys.\<close>

lemma simple_table_get_correct:
  assumes pm: "pm_wf pm" "tb_pm (st_box s) = Some pm" "good_keys pm keys" and empty: "tb_recv (st_box s) = []"
    and sent: "slice pm \<lparr>kv_keys = keys, kv_vals = []\<rparr> = Inr sliced" "tb_send junk sliced False (st_box s) = Inr msgs"
    and served: "served V f msgs replies"
  shows "skt_get junk V keys replies s
    = Inr (msgs, s\<lparr>st_vals := Some (map f keys), st_current := 0, st_expected := 0\<rparr>, [], True)"
proof -
  obtain asked where asked: "mset asked = mset msgs" "list_all2 (answers V f) asked replies"
    using served by (auto simp: served_def)
  note G = get_any_order[OF pm empty sent asked] and N = sliced_count[OF pm(1,3) sent(1)]
  obtain tb' where tb': "fold_res (tb_handle_msg V) replies (st_box s) = Inr tb'"
    "tb_handle_finish keys tb' = Inr (map f keys, st_box s)"
    using G(2) by blast
  let ?s = "s\<lparr>st_expected := of_nat (length sliced), st_current := 0\<rparr>"
  have "skt_wait V keys replies ?s
      = Inr (?s\<lparr>st_box := st_box s, st_vals := Some (map f keys), st_current := 0, st_expected := 0\<rparr>, [], True)"
    by (rule skt_wait_all) (use tb' G(1) N in auto)
  then show ?thesis
    using sent pm(2) by (simp add: skt_get_def tb_slice_def Let_def)
qed

lemma simple_table_get_correct_witness:
  "skt_get (\<lambda>_. demo_meta) u32_val demo_keys [demo_answer 1000 [7], demo_answer 0 [2, 4]] (skt_new 100 0 (Some two_ranges))
    = Inr ([demo_request 0 [2, 4], demo_request 1000 [7]],
        \<lparr>st_box = demo_box, st_current = 0, st_expected = 0, st_vals = Some [20, 40, 70]\<rparr>, [], True)"
proof -
  let ?s = "skt_new 100 0 (Some two_ranges) :: u32 simple_table"
  have box: "st_box ?s = demo_box" by (simp add: skt_new_def demo_box_def)
  have sel: "tb_pm demo_box = Some two_ranges" "tb_recv demo_box = []"
    by (simp_all add: demo_box_def tb_new_def)
  have "skt_get (\<lambda>_. demo_meta) u32_val demo_keys [demo_answer 1000 [7], demo_answer 0 [2, 4]] ?s
    = Inr ([demo_request 0 [2, 4], demo_request 1000 [7]],
        ?s\<lparr>st_vals := Some (map (\<lambda>k. 10 * k) demo_keys), st_current := 0, st_expected := 0\<rparr>, [], True)"
    by (rule simple_table_get_correct[of two_ranges ?s, unfolded box,
          OF two_ranges_wf sel(1) demo_good_keys sel(2) demo_slice demo_send demo_served])
  then show ?thesis by (simp add: skt_new_def demo_box_def demo_keys_def)
qed

end
