(* ===== verification/Sparse_Client.thy ===== *)
theory Sparse_Client
  imports Client_Tables
begin

text \<open>
  \<open>worker/sparse_kv_client_table.hpp\<close>: the table that knows the keys of all its iterations in
  advance.  It asks for an iteration \<open>speculation_\<close> iterations early and numbers every request, and
  it sends the Clock of an iteration with the next Get.  As in \<open>Client_Tables\<close> the world of the
  callbacks is the table itself, with the vector the caller passed for the values.
\<close>

record 'v sparse_client =
  sc_thread :: u32
  sc_model :: u32
  sc_recv :: "'v kvpairs list"
  sc_pm :: "partition_manager option"
  sc_speculation :: int
  sc_keys :: "u32 list list"
  sc_num_reqs :: "u32 list"
  sc_get_count :: u32
  sc_add_count :: u32
  sc_vals :: "'v list option"

type_synonym 'v sparse_state = "'v sparse_client app_blocker \<times> 'v sparse_client"

definition sc_handle :: "'v val_type \<Rightarrow> 'v sparse_client recv_handle" where
  "sc_handle V msg c = bind_res (received V msg) (\<lambda>kvs. Inr (c\<lparr>sc_recv := sc_recv c @ [kvs]\<rparr>))"

definition sc_setup :: "'v val_type \<Rightarrow> 'v sparse_state \<Rightarrow> 'v sparse_state res" where
  "sc_setup V = (\<lambda>(ab, c).
     check_that (0 \<le> sc_speculation c) (Check_failed ''Setup_'')
     (check_that (sc_speculation c \<le> 50) (Check_failed ''Setup_'')
       (Inr (register_recv_handle (sc_thread c) (sc_model c) (sc_handle V) ab, c))))"

definition sc_new ::
  "'v val_type \<Rightarrow> u32 \<Rightarrow> u32 \<Rightarrow> partition_manager option \<Rightarrow> u32 \<Rightarrow> u32 list list \<Rightarrow> 'v sparse_client app_blocker
     \<Rightarrow> 'v sparse_state res"
where
  "sc_new V t mid pm spec keys ab =
     sc_setup V (ab, \<lparr>sc_thread = t, sc_model = mid, sc_recv = [], sc_pm = pm, sc_speculation = to_i32 spec,
       sc_keys = keys, sc_num_reqs = [], sc_get_count = 0, sc_add_count = 0, sc_vals = None\<rparr>)"

definition stamped :: "u32 \<Rightarrow> message \<Rightarrow> message" where
  "stamped v m = m\<lparr>meta_of := (meta_of m)\<lparr>version := v\<rparr>\<rparr>"

definition sc_send ::
  "(nat \<Rightarrow> meta) \<Rightarrow> sliced_kvs \<Rightarrow> bool \<Rightarrow> u32 \<Rightarrow> 'v sparse_client \<Rightarrow> message list res"
where
  "sc_send junk sliced is_add v c =
     check_that (sc_pm c \<noteq> None) (Check_failed ''Send_'')
       (Inr (map (\<lambda>(i, server, kvs). with_body is_add kvs
               (stamped v (addressed (junk i) (if is_add then kAdd else kGet) (sc_thread c) (sc_model c) server)))
             (enumerate 0 sliced)))"

text \<open>\<open>version\<close> is \<open>get_count_ - 2\<close>: the iteration before the one the Get begins.\<close>

definition sc_clock :: "(nat \<Rightarrow> meta) \<Rightarrow> 'v sparse_client \<Rightarrow> message list res" where
  "sc_clock junk c =
     bind_res (of_opt (Check_failed ''Clock_'') (sc_pm c)) (\<lambda>pm.
       Inr (map (\<lambda>(i, server). stamped (sc_get_count c - 2)
               (addressed (junk i) kClock (sc_thread c) (sc_model c) server))
             (enumerate 0 (pm_server_ids pm))))"

definition sc_add ::
  "(nat \<Rightarrow> meta) \<Rightarrow> 'v val_type \<Rightarrow> u32 list \<Rightarrow> 'v list \<Rightarrow> 'v sparse_client \<Rightarrow> (message list \<times> 'v sparse_client) res"
where
  "sc_add junk V keys vals c =
     (let c = c\<lparr>sc_add_count := sc_add_count c + 1\<rparr> in
      check_that (sc_get_count c = sc_add_count c) (Check_failed ''Add'')
      (bind_res (of_opt (Check_failed ''Add'') (sc_pm c)) (\<lambda>pm.
       bind_res (slice pm \<lparr>kv_keys = keys, kv_vals = bytes_of_vals V vals\<rparr>) (\<lambda>sliced.
       bind_res (sc_send junk sliced True (sc_get_count c - 1) c) (\<lambda>msgs. Inr (msgs, c))))))"

text \<open>
  The finish handler.  \<open>front()\<close> of an empty array is undefined; the sort only looks when there is
  more than one answer.
\<close>

definition sc_finish :: "'v sparse_client finish_handle" where
  "sc_finish c =
     (let i = unat (sc_get_count c - 1) in
      if length (sc_keys c) \<le> i then Inl Out_of_bounds
      else check_that (sum_list (map (\<lambda>s. length (kv_keys s)) (sc_recv c)) = length (sc_keys c ! i))
        (Check_failed ''lost some servers?'')
        (if 1 < length (sc_recv c) \<and> (\<exists>s \<in> set (sc_recv c). kv_keys s = []) then Inl Out_of_bounds
         else Inr (c\<lparr>sc_vals := Some (put_together (sc_recv c)), sc_recv := []\<rparr>)))"

text \<open>The requests of the first Get; \<open>junk i\<close> is the memory of the messages for iteration \<open>i\<close>.\<close>

fun sc_first_gets ::
  "(nat \<Rightarrow> nat \<Rightarrow> meta) \<Rightarrow> nat list \<Rightarrow> 'v sparse_state \<Rightarrow> (message list \<times> 'v sparse_state) res"
where
  "sc_first_gets junk [] s = Inr ([], s)"
| "sc_first_gets junk (i # is) (ab, c) =
     check_that (i < length (sc_keys c)) (Check_failed ''Get_'')
     (bind_res (of_opt (Check_failed ''Get_'') (sc_pm c)) (\<lambda>pm.
      bind_res (slice pm \<lparr>kv_keys = sc_keys c ! i, kv_vals = []\<rparr>) (\<lambda>sliced.
      let num_reqs = of_nat (length sliced) in
      bind_res (if i = 0 then new_request (sc_thread c) (sc_model c) num_reqs ab else Inr ab) (\<lambda>ab.
      let c = c\<lparr>sc_num_reqs := sc_num_reqs c @ [num_reqs]\<rparr> in
      bind_res (sc_send (junk i) sliced False (of_nat i) c) (\<lambda>msgs.
      bind_res (sc_first_gets junk is (ab, c)) (\<lambda>(msgs', s). Inr (msgs @ msgs', s)))))))"

definition sc_later_get ::
  "(nat \<Rightarrow> nat \<Rightarrow> meta) \<Rightarrow> 'v sparse_state \<Rightarrow> (message list \<times> 'v sparse_state) res"
where
  "sc_later_get junk = (\<lambda>(ab, c).
     (let k = unat (sc_get_count c - 1); v = sc_get_count c - 1 + to_u32 (sc_speculation c) in
      if length (sc_num_reqs c) \<le> k then Inl Out_of_bounds
      else
      bind_res (new_request (sc_thread c) (sc_model c) (sc_num_reqs c ! k) ab) (\<lambda>ab.
      bind_res (sc_clock (junk 0) c) (\<lambda>clocks.
      check_that (unat v < length (sc_keys c)) (Check_failed ''Get_'')
      (bind_res (of_opt (Check_failed ''Get_'') (sc_pm c)) (\<lambda>pm.
       bind_res (slice pm \<lparr>kv_keys = sc_keys c ! unat v, kv_vals = []\<rparr>) (\<lambda>sliced.
       let c = c\<lparr>sc_num_reqs := sc_num_reqs c @ [of_nat (length sliced)]\<rparr> in
       bind_res (sc_send (junk 1) sliced False v c) (\<lambda>msgs. Inr (clocks @ msgs, (ab, c))))))))))"

text \<open>\<open>Get_\<close> up to the wait, and then with the messages the helper finds.\<close>

definition sc_get_send ::
  "(nat \<Rightarrow> nat \<Rightarrow> meta) \<Rightarrow> 'v sparse_state \<Rightarrow> (message list \<times> 'v sparse_state) res"
where
  "sc_get_send junk = (\<lambda>(ab, c).
     check_that (sc_get_count c = sc_add_count c) (Check_failed ''Get_'')
     (let c = c\<lparr>sc_get_count := sc_get_count c + 1\<rparr>;
          ab = register_recv_finish_handle (sc_thread c) (sc_model c) sc_finish ab
      in if sc_get_count c = 1 then sc_first_gets junk [0..<nat (sc_speculation c + 1)] (ab, c)
         else sc_later_get junk (ab, c)))"

definition sc_get ::
  "(nat \<Rightarrow> nat \<Rightarrow> meta) \<Rightarrow> message tsq \<Rightarrow> 'v sparse_state \<Rightarrow> (message list \<times> 'v sparse_state \<times> bool) res"
where
  "sc_get junk responses s =
     bind_res (sc_get_send junk s) (\<lambda>(msgs, s).
     bind_res (helper_main responses s) (\<lambda>((ab, c), _, _).
     bind_res (wait_request (sc_thread c) (sc_model c) ab) (\<lambda>returns. Inr (msgs, (ab, c), returns))))"

definition sc_add_request :: "sliced_kvs \<Rightarrow> 'v sparse_state \<Rightarrow> 'v sparse_state res" where
  "sc_add_request sliced = (\<lambda>(ab, c).
     bind_res (new_request (sc_thread c) (sc_model c) (of_nat (length sliced)) ab) (\<lambda>ab. Inr (ab, c)))"

section \<open>What is sent, and in which order\<close>

text \<open>What a server sees of a message: its flag, its iteration, its receiver and its keys.\<close>

definition entry :: "message \<Rightarrow> flag \<times> u32 \<times> int \<times> u32 list" where
  "entry m = (msg_flag m, msg_version m, msg_recver m, if data_of m = [] then [] else keys_of (data_of m ! 0))"

definition sliced_of :: "partition_manager \<Rightarrow> u32 list \<Rightarrow> sliced_kvs" where
  "sliced_of pm ks = (case slice pm \<lparr>kv_keys = ks, kv_vals = []\<rparr> of Inl _ \<Rightarrow> [] | Inr sl \<Rightarrow> sl)"

definition asks :: "partition_manager \<Rightarrow> u32 list list \<Rightarrow> nat \<Rightarrow> (flag \<times> u32 \<times> int \<times> u32 list) list" where
  "asks pm keys v = map (\<lambda>(server, kvs). (kGet, of_nat v, to_i32 server, kv_keys kvs)) (sliced_of pm (keys ! v))"

definition clocks_of :: "partition_manager \<Rightarrow> nat \<Rightarrow> (flag \<times> u32 \<times> int \<times> u32 list) list" where
  "clocks_of pm v = map (\<lambda>server. (kClock, of_nat v, to_i32 server, [])) (pm_server_ids pm)"

fun schedule :: "partition_manager \<Rightarrow> nat \<Rightarrow> u32 list list \<Rightarrow> nat \<Rightarrow> (flag \<times> u32 \<times> int \<times> u32 list) list" where
  "schedule pm spec keys 0 = []"
| "schedule pm spec keys (Suc 0) = concat (map (asks pm keys) [0..<spec + 1])"
| "schedule pm spec keys (Suc (Suc k)) =
     schedule pm spec keys (Suc k) @ clocks_of pm k @ asks pm keys (Suc k + spec)"

lemma map_enumerate_snd: "(\<And>i x. f (i, x) = g x) \<Longrightarrow> map f (enumerate n xs) = map g xs"
proof -
  assume f: "\<And>i x. f (i, x) = g x"
  have "map f (enumerate n xs) = map g (map snd (enumerate n xs))"
    unfolding map_map by (rule map_cong[OF refl]) (auto simp: f)
  then show ?thesis by simp
qed

lemma entry_with_body:
  "entry (with_body is_add kvs (stamped v (addressed junk fl t mid server))) = (fl, v, to_i32 server, kv_keys kvs)"
  by (simp add: entry_def with_body_def stamped_def addressed_def Let_def)

lemma sc_send_entries:
  assumes "sc_send junk sliced is_add v c = Inr msgs"
  shows "map entry msgs = map (\<lambda>(server, kvs). (if is_add then kAdd else kGet, v, to_i32 server, kv_keys kvs)) sliced"
proof -
  have "msgs = map (\<lambda>(i, server, kvs). with_body is_add kvs
               (stamped v (addressed (junk i) (if is_add then kAdd else kGet) (sc_thread c) (sc_model c) server)))
             (enumerate 0 sliced)"
    using assms by (simp add: sc_send_def res_simps)
  then show ?thesis
    by (simp only: map_map, intro map_enumerate_snd) (auto simp: entry_with_body)
qed

lemma sc_clock_entries:
  assumes "sc_clock junk c = Inr msgs" "sc_pm c = Some pm" "sc_get_count c - 2 = of_nat v"
  shows "map entry msgs = clocks_of pm v"
proof -
  have "msgs = map (\<lambda>(i, server). stamped (of_nat v) (addressed (junk i) kClock (sc_thread c) (sc_model c) server))
      (enumerate 0 (pm_server_ids pm))"
    using assms by (simp add: sc_clock_def)
  then show ?thesis
    unfolding clocks_of_def
    by (simp only: map_map, intro map_enumerate_snd)
      (simp add: entry_def stamped_def addressed_def Let_def)
qed

definition requested :: "'v sparse_client \<Rightarrow> nat" where
  "requested c = (if sc_get_count c = 0 then 0 else unat (sc_get_count c) + nat (sc_speculation c))"

definition sc_inv :: "partition_manager \<Rightarrow> 'v sparse_client \<Rightarrow> bool" where
  "sc_inv pm c \<longleftrightarrow> sc_pm c = Some pm \<and> 0 \<le> sc_speculation c \<and> sc_speculation c \<le> 50
     \<and> length (sc_keys c) < 2 ^ 32 - 1 \<and> requested c \<le> length (sc_keys c)
     \<and> sc_num_reqs c = map (\<lambda>i. of_nat (length (sliced_of pm (sc_keys c ! i)))) [0..<requested c]"

lemma sc_inv_updates [simp]:
  "sc_inv pm (c\<lparr>sc_recv := recv\<rparr>) = sc_inv pm c"
  "sc_inv pm (c\<lparr>sc_vals := vals\<rparr>) = sc_inv pm c"
  "sc_inv pm (c\<lparr>sc_add_count := n\<rparr>) = sc_inv pm c"
  by (simp_all add: sc_inv_def requested_def)

lemma sc_first_gets_entries:
  assumes "sc_first_gets junk is (ab, c) = Inr (msgs, (ab', c'))" "sc_pm c = Some pm"
  shows "map entry msgs = concat (map (asks pm (sc_keys c)) is) \<and> list_all (\<lambda>i. i < length (sc_keys c)) is
    \<and> c' = c\<lparr>sc_num_reqs := sc_num_reqs c @ map (\<lambda>i. of_nat (length (sliced_of pm (sc_keys c ! i)))) is\<rparr>"
  using assms
proof (induction "is" arbitrary: ab c msgs)
  case Nil
  then show ?case by simp
next
  case (Cons i "is")
  obtain sl ab1 ms1 ms2 where i: "i < length (sc_keys c)"
    and sl: "slice pm \<lparr>kv_keys = sc_keys c ! i, kv_vals = []\<rparr> = Inr sl"
    and send: "sc_send (junk i) sl False (of_nat i) (c\<lparr>sc_num_reqs := sc_num_reqs c @ [of_nat (length sl)]\<rparr>) = Inr ms1"
    and rest: "sc_first_gets junk is (ab1, c\<lparr>sc_num_reqs := sc_num_reqs c @ [of_nat (length sl)]\<rparr>) = Inr (ms2, (ab', c'))"
    and msgs: "msgs = ms1 @ ms2"
    using Cons.prems by (auto simp: res_simps Let_def)
  have sl_of: "sliced_of pm (sc_keys c ! i) = sl" by (simp add: sliced_of_def sl)
  from Cons.IH[OF rest] Cons.prems(2) sc_send_entries[OF send] i show ?case
    by (simp add: msgs sl_of asks_def)
qed

text \<open>What the sending part of a Get does to the table, and the messages it adds to the schedule.\<close>

definition sc_asked :: "partition_manager \<Rightarrow> 'v sparse_client \<Rightarrow> message list \<Rightarrow> 'v sparse_client \<Rightarrow> bool" where
  "sc_asked pm c msgs c' \<longleftrightarrow> sc_inv pm c' \<and> sc_get_count c' = sc_get_count c + 1 \<and> sc_keys c' = sc_keys c
     \<and> sc_speculation c' = sc_speculation c \<and> sc_recv c' = sc_recv c \<and> sc_thread c' = sc_thread c \<and> sc_model c' = sc_model c
     \<and> schedule pm (nat (sc_speculation c)) (sc_keys c) (Suc (unat (sc_get_count c)))
       = schedule pm (nat (sc_speculation c)) (sc_keys c) (unat (sc_get_count c)) @ map entry msgs"

lemma sc_next_count:
  assumes "sc_inv pm c"
  shows "unat (sc_get_count c + 1) = Suc (unat (sc_get_count c))" "sc_get_count c + 1 \<noteq> 0"
proof -
  have "unat (sc_get_count c) < 2 ^ 32 - 1" using assms by (auto simp: sc_inv_def requested_def split: if_splits)
  then have "unat (sc_get_count c) < unat (-1 :: u32)" by (simp add: unsigned_minus_1_eq_mask mask_eq_exp_minus_1)
  then show suc: "unat (sc_get_count c + 1) = Suc (unat (sc_get_count c))" by (rule unat_Suc_below)
  then show "sc_get_count c + 1 \<noteq> 0" by (metis nat.distinct(1) unat_0)
qed

lemma sc_first_asked:
  assumes "sc_inv pm c" "sc_get_send junk (ab, c) = Inr (msgs, (ab', c'))" "sc_get_count c = 0"
  shows "sc_asked pm c msgs c'"
proof -
  note I = assms(1)[unfolded sc_inv_def]
  have upto: "nat (sc_speculation c + 1) = nat (sc_speculation c) + 1" using I by linarith
  have "sc_first_gets junk [0..<nat (sc_speculation c) + 1] (register_recv_finish_handle (sc_thread c) (sc_model c) sc_finish ab,
      c\<lparr>sc_get_count := sc_get_count c + 1\<rparr>) = Inr (msgs, (ab', c'))"
    using assms(2,3) by (simp add: sc_get_send_def Let_def res_simps upto del: upt_Suc)
  from sc_first_gets_entries[OF this] I assms(3) sc_next_count[OF assms(1)] show ?thesis
    by (auto simp: sc_asked_def sc_inv_def requested_def list_all_iff)
qed

lemma sc_later_asked:
  assumes "sc_inv pm c" "sc_get_send junk (ab, c) = Inr (msgs, (ab', c'))" "sc_get_count c \<noteq> 0"
  shows "sc_asked pm c msgs c'"
proof -
  let ?n = "unat (sc_get_count c)" and ?s = "nat (sc_speculation c)" and ?v = "sc_get_count c + to_u32 (sc_speculation c)"
  let ?c = "c\<lparr>sc_get_count := sc_get_count c + 1\<rparr>"
  note I = assms(1)[unfolded sc_inv_def] and count = sc_next_count[OF assms(1)]
  obtain k where k: "?n = Suc k" using assms(3) unat_gt_0[of "sc_get_count c"] by (cases ?n) auto
  have req: "requested c = ?n + ?s" using assms(3) by (simp add: requested_def)
  have "unat (to_u32 (sc_speculation c)) = ?s" using I by (simp add: unat_eq_nat_uint uint_to_u32)
  then have v: "unat ?v = ?n + ?s" using I req by (simp add: unat_word_ariths)
  have "of_nat (Suc k) = sc_get_count c" by (simp flip: k)
  then have clk: "sc_get_count ?c - 2 = of_nat k" by (simp add: algebra_simps)
  have "sc_get_count c + 1 \<noteq> 1" using assms(3) by simp
  then obtain sl ms1 ms2 where ms1: "sc_clock (junk 0) ?c = Inr ms1"
    and vlt: "?n + ?s < length (sc_keys c)" and sl: "slice pm \<lparr>kv_keys = sc_keys c ! (?n + ?s), kv_vals = []\<rparr> = Inr sl"
    and c': "c' = ?c\<lparr>sc_num_reqs := sc_num_reqs c @ [of_nat (length sl)]\<rparr>"
    and ms2: "sc_send (junk 1) sl False ?v c' = Inr ms2" and msgs: "msgs = ms1 @ ms2"
    using assms(2) I v by (auto simp: sc_get_send_def sc_later_get_def Let_def res_simps split: if_splits)
  have sl_of: "sliced_of pm (sc_keys c ! (?n + ?s)) = sl" by (simp add: sliced_of_def sl)
  have vn: "?v = of_nat (?n + ?s)" unfolding v[symmetric] by simp
  have "map entry msgs = clocks_of pm k @ asks pm (sc_keys c) (?n + ?s)"
    using sc_clock_entries[OF ms1 _ clk] sc_send_entries[OF ms2] I
    by (simp add: msgs asks_def sl_of vn del: of_nat_add)
  moreover have "requested c' = Suc (requested c)" using count req by (simp add: requested_def c')
  ultimately show ?thesis using I vlt req sl_of by (auto simp: sc_asked_def sc_inv_def c' k)
qed

lemma sc_get_send_correct:
  assumes inv: "sc_inv pm c" and run: "sc_get_send junk (ab, c) = Inr (msgs, (ab', c'))"
  shows "sc_inv pm c'" "unat (sc_get_count c') = Suc (unat (sc_get_count c))"
    "sc_keys c' = sc_keys c" "sc_speculation c' = sc_speculation c" "sc_recv c' = sc_recv c"
    "sc_thread c' = sc_thread c" "sc_model c' = sc_model c"
    "schedule pm (nat (sc_speculation c)) (sc_keys c) (Suc (unat (sc_get_count c)))
      = schedule pm (nat (sc_speculation c)) (sc_keys c) (unat (sc_get_count c)) @ map entry msgs"
proof -
  have "sc_asked pm c msgs c'" using sc_first_asked[OF assms] sc_later_asked[OF assms] by blast
  then show "sc_inv pm c'" "unat (sc_get_count c') = Suc (unat (sc_get_count c))"
    "sc_keys c' = sc_keys c" "sc_speculation c' = sc_speculation c" "sc_recv c' = sc_recv c"
    "sc_thread c' = sc_thread c" "sc_model c' = sc_model c"
    "schedule pm (nat (sc_speculation c)) (sc_keys c) (Suc (unat (sc_get_count c)))
      = schedule pm (nat (sc_speculation c)) (sc_keys c) (unat (sc_get_count c)) @ map entry msgs"
    by (simp_all add: sc_asked_def sc_next_count[OF inv])
qed

text \<open>
  The life of a table: Gets, answers (which change nothing but what was received, the caller's
  vector and the blocker) and Adds.  \<open>sent\<close> is everything it pushed on the send queue.
\<close>

inductive sc_run :: "(nat \<Rightarrow> nat \<Rightarrow> meta) \<Rightarrow> 'v val_type \<Rightarrow> 'v sparse_client \<Rightarrow> 'v sparse_client \<Rightarrow> message list \<Rightarrow> bool"
  for junk V c0
where
  sc_begin: "sc_run junk V c0 c0 []"
| sc_gets: "sc_run junk V c0 c sent \<Longrightarrow> sc_get_send junk (ab, c) = Inr (msgs, (ab', c')) \<Longrightarrow> sc_run junk V c0 c' (sent @ msgs)"
| sc_receives: "sc_run junk V c0 c sent \<Longrightarrow> sc_run junk V c0 (c\<lparr>sc_recv := recv, sc_vals := vals\<rparr>) sent"
| sc_adds: "sc_run junk V c0 c sent \<Longrightarrow> sc_add (junk 0) V ks xs c = Inr (msgs, c') \<Longrightarrow> sc_run junk V c0 c' (sent @ msgs)"

definition sc_fresh :: "partition_manager \<Rightarrow> 'v sparse_client \<Rightarrow> bool" where
  "sc_fresh pm c \<longleftrightarrow> sc_inv pm c \<and> sc_get_count c = 0"

lemma sc_add_props:
  assumes "sc_add junk V ks xs c = Inr (msgs, c')"
  shows "c' = c\<lparr>sc_add_count := sc_add_count c + 1\<rparr>" "sc_get_count c = sc_add_count c + 1"
    "filter (\<lambda>m. msg_flag m \<noteq> kAdd) msgs = []"
    "list_all (\<lambda>m. msg_version m = sc_get_count c - 1) msgs"
proof -
  obtain sl where send: "sc_send junk sl True (sc_get_count c - 1) (c\<lparr>sc_add_count := sc_add_count c + 1\<rparr>) = Inr msgs"
    and r: "c' = c\<lparr>sc_add_count := sc_add_count c + 1\<rparr>" "sc_get_count c = sc_add_count c + 1"
    using assms by (auto simp: sc_add_def Let_def res_simps)
  show "c' = c\<lparr>sc_add_count := sc_add_count c + 1\<rparr>" "sc_get_count c = sc_add_count c + 1" by (fact r)+
  have "list_all (\<lambda>e. fst e = kAdd \<and> fst (snd e) = sc_get_count c - 1) (map entry msgs)"
    unfolding sc_send_entries[OF send] by (auto simp: list_all_iff)
  then show "filter (\<lambda>m. msg_flag m \<noteq> kAdd) msgs = []" "list_all (\<lambda>m. msg_version m = sc_get_count c - 1) msgs"
    by (auto simp: list_all_iff entry_def filter_empty_conv)
qed

lemma schedule_no_adds: "e \<in> set (schedule pm s keys n) \<Longrightarrow> fst e \<noteq> kAdd"
  by (induction pm s keys n rule: schedule.induct) (auto simp: asks_def clocks_of_def)

lemma sc_run_schedule:
  assumes "sc_run junk V c0 c sent" "sc_fresh pm c0"
  shows "sc_inv pm c \<and> sc_keys c = sc_keys c0 \<and> sc_speculation c = sc_speculation c0
    \<and> map entry (filter (\<lambda>m. msg_flag m \<noteq> kAdd) sent)
        = schedule pm (nat (sc_speculation c0)) (sc_keys c0) (unat (sc_get_count c))"
  using assms
proof (induction rule: sc_run.induct)
  case sc_begin
  then show ?case by (simp add: sc_fresh_def)
next
  case (sc_gets c sent ab msgs ab' c')
  note G = sc_get_send_correct[OF _ sc_gets.hyps(2), of pm]
  have "set (map entry msgs) \<subseteq> set (schedule pm (nat (sc_speculation c0)) (sc_keys c0) (Suc (unat (sc_get_count c))))"
    using G(8) sc_gets by auto
  then have "\<forall>m \<in> set msgs. msg_flag m \<noteq> kAdd"
    using schedule_no_adds by (fastforce simp: entry_def)
  then have "filter (\<lambda>m. msg_flag m \<noteq> kAdd) msgs = msgs" by simp
  then show ?case using G sc_gets by simp
next
  case (sc_receives c sent recv vals)
  then show ?case by simp
next
  case (sc_adds c sent ks xs msgs c')
  then show ?case using sc_add_props[OF sc_adds.hyps(2)] by simp
qed

text \<open>C16. The protocol the sparse model needs.  Whatever values it adds and whenever answers come in, a
  table that has begun \<open>n\<close> iterations has sent, Adds aside, exactly this: the requests of the
  iterations \<open>0 .. speculation\<close>, then for each later iteration the Clock of the previous one to every
  server followed by the requests of the iteration \<open>speculation\<close> ahead; each request names exactly
  the keys of its server, and each message carries its iteration as its version.\<close>

theorem sparse_client_protocol:
  assumes "sc_fresh pm c0" "sc_run junk V c0 c sent"
  shows "map entry (filter (\<lambda>m. msg_flag m \<noteq> kAdd) sent)
    = schedule pm (nat (sc_speculation c0)) (sc_keys c0) (unat (sc_get_count c))"
  using sc_run_schedule[OF assms(2,1)] by simp

section \<open>What a Get returns\<close>

lemma fold_sc_handle:
  "list_all2 (answers V f) asked replies \<Longrightarrow>
     fold_res (sc_handle V) replies c = Inr (c\<lparr>sc_recv := sc_recv c @
       map (\<lambda>m. \<lparr>kv_keys = keys_of (data_of m ! 0), kv_vals = map f (keys_of (data_of m ! 0))\<rparr>) asked\<rparr>)"
proof (induction asked replies arbitrary: c rule: list_all2_induct)
  case Nil
  then show ?case by simp
next
  case (Cons m msgs r replies)
  then show ?case by (simp add: sc_handle_def answers_received)
qed

lemma sc_finish_any_order:
  assumes "length (sc_keys c) > unat (sc_get_count c - 1)" "keys = sc_keys c ! unat (sc_get_count c - 1)"
    "sorted_wrt (<) keys" "concat parts = keys" "[] \<notin> set parts" "mset (map kv_keys (sc_recv c)) = mset parts"
    "\<forall>s \<in> set (sc_recv c). kv_vals s = map f (kv_keys s)"
  shows "sc_finish c = Inr (c\<lparr>sc_vals := Some (map f keys), sc_recv := []\<rparr>)"
proof -
  have "sum_list (map length (map kv_keys (sc_recv c))) = sum_mset (mset (map length (map kv_keys (sc_recv c))))"
    by (simp only: sum_mset_sum_list)
  also have "\<dots> = sum_mset (mset (map length parts))"
    by (simp only: mset_map[of length] assms(6))
  also have "\<dots> = length keys"
    unfolding sum_mset_sum_list assms(4)[symmetric] by (simp add: length_concat)
  finally have total: "sum_list (map (\<lambda>s. length (kv_keys s)) (sc_recv c)) = length keys" by (simp add: o_def)
  have "kv_keys ` set (sc_recv c) = set parts"
    using assms(6) by (metis list.set_map set_mset_mset)
  then have ne: "kv_keys s \<noteq> []" if "s \<in> set (sc_recv c)" for s
    using that assms(5) by (metis imageI)
  have "put_together (sc_recv c) = map f keys"
    using put_together_any_order[of parts "sc_recv c" f] assms by simp
  with total ne assms(1,2) show ?thesis by (auto simp: sc_finish_def Let_def)
qed

lemma sc_first_gets_blocker:
  "0 \<notin> set is \<Longrightarrow> sc_first_gets junk is (ab, c) = Inr (msgs, (ab', c')) \<Longrightarrow> ab' = ab"
proof (induction "is" arbitrary: c msgs)
  case Nil
  then show ?case by simp
next
  case (Cons i "is")
  then show ?case by (auto simp: res_simps Let_def)
qed

lemma sc_get_send_blocker:
  assumes inv: "sc_inv pm c" and reg: "fst (ab_handlers (sc_thread c) (sc_model c) ab) = Some h"
    and run: "sc_get_send junk (ab, c) = Inr (msgs, (ab', c'))"
  shows "ab_handlers (sc_thread c) (sc_model c) ab' = (Some h, Some sc_finish)"
    "counts (sc_thread c) (sc_model c) ab' = (of_nat (length (sliced_of pm (sc_keys c ! unat (sc_get_count c)))), 0)"
proof -
  let ?t = "sc_thread c" and ?m = "sc_model c" and ?n = "unat (sc_get_count c)"
  let ?c = "c\<lparr>sc_get_count := sc_get_count c + 1\<rparr>"
  let ?ab = "register_recv_finish_handle ?t ?m sc_finish ab"
  let ?r = "of_nat (length (sliced_of pm (sc_keys c ! ?n))) :: u32"
  note I = inv[unfolded sc_inv_def]
  have h: "ab_handlers ?t ?m ?ab = (Some h, Some sc_finish)"
    using blocker.finish_law[of ?t ?m sc_finish ab] reg by simp
  have "new_request ?t ?m ?r ?ab = Inr ab'"
  proof (cases "sc_get_count c = 0")
    case True
    have upto: "[0..<nat (sc_speculation c + 1)] = 0 # [1..<nat (sc_speculation c + 1)]"
      using I by (simp add: upt_conv_Cons)
    have "sc_first_gets junk [0..<nat (sc_speculation c + 1)] (?ab, ?c) = Inr (msgs, (ab', c'))"
      using run True by (simp add: sc_get_send_def Let_def res_simps)
    from this[unfolded upto] obtain sl ab1 c1 ms2 where sl: "slice pm \<lparr>kv_keys = sc_keys c ! 0, kv_vals = []\<rparr> = Inr sl"
      and nr: "new_request ?t ?m (of_nat (length sl)) ?ab = Inr ab1"
      and rest: "sc_first_gets junk [1..<nat (sc_speculation c + 1)] (ab1, c1) = Inr (ms2, (ab', c'))"
      using I by (auto simp: res_simps Let_def)
    have "ab' = ab1" by (rule sc_first_gets_blocker[OF _ rest]) simp
    with nr sl True show ?thesis by (simp add: sliced_of_def)
  next
    case False
    then have "sc_get_count c + 1 \<noteq> 1" by simp
    then have lt: "?n < length (sc_num_reqs c)" and nr: "new_request ?t ?m (sc_num_reqs c ! ?n) ?ab = Inr ab'"
      using run by (auto simp: sc_get_send_def sc_later_get_def Let_def res_simps split: if_splits)
    then show ?thesis using I by (simp add: requested_def False)
  qed
  with blocker.start_law[OF h, of ?r] show "ab_handlers ?t ?m ab' = (Some h, Some sc_finish)"
    "counts ?t ?m ab' = (?r, 0)" by auto
qed

text \<open>The requests of an iteration, read off their entries, and the answers to them.\<close>

lemma asked_requests:
  assumes "map entry asked = map (\<lambda>p. (kGet, v, to_i32 (fst p), kv_keys (snd p))) sl" "\<forall>p \<in> set sl. kv_keys (snd p) \<noteq> []"
  shows "\<forall>q \<in> set asked. data_of q \<noteq> [] \<and> msg_flag q = kGet"
    "map (\<lambda>q. keys_of (data_of q ! 0)) asked = map (\<lambda>p. kv_keys (snd p)) sl"
proof -
  show q: "\<forall>q \<in> set asked. data_of q \<noteq> [] \<and> msg_flag q = kGet"
  proof
    fix q assume "q \<in> set asked"
    then have "entry q \<in> set (map entry asked)" by simp
    then show "data_of q \<noteq> [] \<and> msg_flag q = kGet" using assms(2) unfolding assms(1) by (auto simp: entry_def split: if_splits)
  qed
  have "map (\<lambda>q. keys_of (data_of q ! 0)) asked = map (\<lambda>e. snd (snd (snd e))) (map entry asked)"
    unfolding map_map by (rule map_cong[OF refl]) (use q in \<open>auto simp: entry_def\<close>)
  then show "map (\<lambda>q. keys_of (data_of q ! 0)) asked = map (\<lambda>p. kv_keys (snd p)) sl" unfolding assms(1) by simp
qed

lemma answers_addressed:
  assumes "list_all2 (answers V f) order replies"
    and "\<forall>q \<in> set order. msg_flag q = kGet \<and> to_u32 (msg_sender q) = t \<and> to_u32 (msg_model q) = m"
  shows "\<forall>r \<in> set replies. msg_flag r \<noteq> kExit \<and> to_u32 (msg_recver r) = t \<and> to_u32 (msg_model r) = m"
proof
  fix r assume "r \<in> set replies"
  then obtain q where q: "q \<in> set order" "answers V f q r" using list_all2_set2[OF assms(1)] by blast
  then show "msg_flag r \<noteq> kExit \<and> to_u32 (msg_recver r) = t \<and> to_u32 (msg_model r) = m"
    using assms(2) by (auto simp: answers_def reply_id_def request_id_def)
qed

text \<open>The answers to the pieces of a request, in any order, put together.\<close>

lemma sc_collects:
  assumes pm: "pm_wf pm" "good_keys pm keys" "slice pm \<lparr>kv_keys = keys, kv_vals = []\<rparr> = Inr sl"
    and entries: "map entry asked = map (\<lambda>p. (kGet, v, to_i32 (fst p), kv_keys (snd p))) sl"
    and order: "mset order = mset asked" "list_all2 (answers V f) order replies"
    and c: "sc_recv c = []" "unat (sc_get_count c - 1) < length (sc_keys c)" "sc_keys c ! unat (sc_get_count c - 1) = keys"
  shows "length replies = length sl"
    "bind_res (fold_res (sc_handle V) replies c) sc_finish = Inr (c\<lparr>sc_vals := Some (map f keys)\<rparr>)"
proof -
  note S = good_keys_slice[OF pm, of 0, simplified]
  let ?parts = "map (\<lambda>p. kv_keys (snd p)) sl"
  have "\<forall>p \<in> set sl. kv_keys (snd p) \<noteq> []" using S(2) by auto
  note parts = asked_requests(2)[OF entries this]
  show "length replies = length sl"
    using order list_all2_lengthD[OF order(2)] parts by (metis length_map size_mset)
  let ?kvs = "\<lambda>m. \<lparr>kv_keys = keys_of (data_of m ! 0), kv_vals = map f (keys_of (data_of m ! 0))\<rparr>"
  let ?c = "c\<lparr>sc_recv := map ?kvs order\<rparr>"
  have recv: "fold_res (sc_handle V) replies c = Inr ?c" using fold_sc_handle[OF order(2), of c] c(1) by simp
  have "mset (map kv_keys (sc_recv ?c)) = mset ?parts"
    unfolding parts[symmetric] mset_map order(1)[symmetric] by (simp add: o_def flip: mset_map)
  then have "sc_finish ?c = Inr (?c\<lparr>sc_vals := Some (map f keys), sc_recv := []\<rparr>)"
    using S pm(2) c by (intro sc_finish_any_order[where parts = ?parts]) (auto simp: good_keys_def)
  moreover have "?c\<lparr>sc_vals := Some (map f keys), sc_recv := []\<rparr> = c\<lparr>sc_vals := Some (map f keys)\<rparr>" using c(1) by (cases c) simp
  ultimately show "bind_res (fold_res (sc_handle V) replies c) sc_finish = Inr (c\<lparr>sc_vals := Some (map f keys)\<rparr>)"
    by (simp only: recv bind_res_simps)
qed

text \<open>C17. \<open>SparseKVClientTable::Get\<close>: whatever was sent ahead, once the servers have answered the
  requests of this iteration, in any order, \<open>Get\<close> returns and the vector holds the value of each
  of the iteration's keys, in their order.\<close>

theorem sparse_client_get_correct:
  assumes inv: "sc_inv pm c" "pm_wf pm" "good_keys pm (sc_keys c ! unat (sc_get_count c))" "sc_recv c = []"
    and reg: "fst (ab_handlers (sc_thread c) (sc_model c) ab) = Some (sc_handle V)"
    and sent: "sc_get_send junk (ab, c) = Inr (msgs, (ab', c'))"
    and asked: "map entry asked = asks pm (sc_keys c) (unat (sc_get_count c))"
      "\<forall>q \<in> set asked. to_u32 (msg_sender q) = sc_thread c \<and> to_u32 (msg_model q) = sc_model c"
    and served: "served V f asked replies"
  shows "\<exists>ab''. sc_get junk replies (ab, c)
    = Inr (msgs, (ab'', c'\<lparr>sc_vals := Some (map f (sc_keys c ! unat (sc_get_count c)))\<rparr>), True)"
proof -
  let ?t = "sc_thread c" and ?m = "sc_model c" and ?keys = "sc_keys c ! unat (sc_get_count c)"
  note G = sc_get_send_correct[OF inv(1) sent] and B = sc_get_send_blocker[OF inv(1) reg sent]
  obtain sl where sl: "slice pm \<lparr>kv_keys = ?keys, kv_vals = []\<rparr> = Inr sl"
    using good_keys_slice_total[OF inv(2,3)] by blast
  then have sl_of: "sliced_of pm ?keys = sl" by (simp add: sliced_of_def)
  obtain order where order: "mset order = mset asked" "list_all2 (answers V f) order replies"
    using served by (auto simp: served_def)
  have entries: "map entry asked = map (\<lambda>p. (kGet, of_nat (unat (sc_get_count c)), to_i32 (fst p), kv_keys (snd p))) sl"
    unfolding asked(1) asks_def sl_of by (simp add: case_prod_beta)
  have "sc_get_count c' \<noteq> 0" using G(2) by auto
  then have pos: "unat (sc_get_count c' - 1) = unat (sc_get_count c)" using G(2) by (simp add: unat_minus_one)
  have "unat (sc_get_count c) < length (sc_keys c)"
    using G(1,2,3) inv(1) by (auto simp: sc_inv_def requested_def split: if_splits)
  then have at: "sc_recv c' = []" "unat (sc_get_count c' - 1) < length (sc_keys c')" "sc_keys c' ! unat (sc_get_count c' - 1) = ?keys"
    using inv(4) G(3,5) pos by simp_all
  note C = sc_collects[OF inv(2,3) sl entries order at]
  have "replies \<noteq> []" "unat (of_nat (length sl) :: u32) = unat (0::u32) + length replies"
    using sliced_count[OF inv(2,3) sl] C(1) by auto
  then obtain ab'' where run: "fold_res (add_response ?t ?m) replies (ab', c')
      = bind_res (fold_res (sc_handle V) replies c') (\<lambda>c. bind_res (sc_finish c) (\<lambda>c. Inr (ab'', c)))"
    and ready: "wait_request ?t ?m ab'' = Inr True"
    using blocker.respond_all[OF B(1) B(2)[unfolded sl_of]] by blast
  have "\<forall>p \<in> set sl. kv_keys (snd p) \<noteq> []" using good_keys_slice[OF inv(2,3) sl, of 0] by auto
  then have "\<forall>q \<in> set order. msg_flag q = kGet \<and> to_u32 (msg_sender q) = ?t \<and> to_u32 (msg_model q) = ?m"
    using asked_requests(1)[OF entries] asked(2) mset_eq_setD[OF order(1)] by simp
  note replied = answers_addressed[OF order(2) this]
  have "fold_res (add_response ?t ?m) replies (ab', c') = Inr (ab'', c'\<lparr>sc_vals := Some (map f ?keys)\<rparr>)"
    unfolding run using C(2) by (auto simp: res_simps)
  then have "helper_main replies (ab', c') = Inr ((ab'', c'\<lparr>sc_vals := Some (map f ?keys)\<rparr>), [], False)"
    using helper_main_responses[OF replied, of "(ab', c')"] by simp
  then show ?thesis using sent ready G(6,7) by (simp add: sc_get_def)
qed

section \<open>A small run\<close>

definition demo_sparse :: "u32 sparse_client" where
  "demo_sparse = \<lparr>sc_thread = 100, sc_model = 0, sc_recv = [], sc_pm = Some two_ranges, sc_speculation = 1,
     sc_keys = [demo_keys, [1]], sc_num_reqs = [], sc_get_count = 0, sc_add_count = 0, sc_vals = None\<rparr>"

definition demo_ahead :: message where
  "demo_ahead = stamped 1 (demo_request 0 [1])"

lemma demo_sparse_new:
  "sc_new u32_val 100 0 (Some two_ranges) 1 [demo_keys, [1]] ab_new
    = Inr (register_recv_handle 100 0 (sc_handle u32_val) ab_new, demo_sparse)"
  by (simp add: sc_new_def sc_setup_def demo_sparse_def to_i32_eq_uint)

lemma demo_slice_ahead:
  "slice two_ranges \<lparr>kv_keys = [1], kv_vals = []\<rparr> = Inr [(0, \<lparr>kv_keys = [1], kv_vals = []\<rparr>)]"
  by code_simp

lemma demo_sparse_inv: "sc_inv two_ranges demo_sparse"
  by (simp add: sc_inv_def demo_sparse_def requested_def)

lemma demo_sparse_get:
  assumes "fst (ab_handlers 100 0 ab) = Some h"
  shows "\<exists>ab'. sc_get_send (\<lambda>_ _. demo_meta) (ab, demo_sparse)
    = Inr ([demo_request 0 [2, 4], demo_request 1000 [7], demo_ahead],
           (ab', demo_sparse\<lparr>sc_get_count := 1, sc_num_reqs := [2, 1]\<rparr>))"
proof -
  let ?ab = "register_recv_finish_handle 100 0 sc_finish ab"
  have "ab_handlers 100 0 ?ab = (Some h, Some sc_finish)"
    using assms by (simp add: blocker.finish_law)
  then obtain ab' where nr: "new_request 100 0 2 ?ab = Inr ab'"
    using blocker.start_law by blast
  let ?c = "\<lambda>n. demo_sparse\<lparr>sc_get_count := 1, sc_num_reqs := n\<rparr>"
  have "sc_send (\<lambda>_. demo_meta) demo_sliced False 0 (?c [2])
      = Inr [demo_request 0 [2, 4], demo_request 1000 [7]]"
    "sc_send (\<lambda>_. demo_meta) [(0, \<lparr>kv_keys = [1], kv_vals = []\<rparr>)] False 1 (?c [2, 1]) = Inr [demo_ahead]"
    by code_simp+
  then have "sc_first_gets (\<lambda>_ _. demo_meta) [0, 1] (?ab, ?c [])
      = Inr ([demo_request 0 [2, 4], demo_request 1000 [7], demo_ahead], (ab', ?c [2, 1]))"
    by (simp add: demo_sparse_def demo_slice demo_slice_ahead nr Let_def)
  moreover have "[0..<nat (sc_speculation demo_sparse + 1)] = [0, 1]"
    by (simp add: demo_sparse_def upt_rec)
  ultimately show ?thesis
    by (simp add: sc_get_send_def demo_sparse_def Let_def)
qed

lemma sparse_client_protocol_witness:
  "\<exists>ab'. sc_get_send (\<lambda>_ _. demo_meta) (register_recv_handle 100 0 (sc_handle u32_val) ab_new, demo_sparse)
     = Inr ([demo_request 0 [2, 4], demo_request 1000 [7], demo_ahead],
            (ab', demo_sparse\<lparr>sc_get_count := 1, sc_num_reqs := [2, 1]\<rparr>))
   \<and> schedule two_ranges 1 [demo_keys, [1]] 1 = [(kGet, 0, 0, [2, 4]), (kGet, 0, 1000, [7]), (kGet, 1, 0, [1])]"
proof -
  let ?ab = "register_recv_handle 100 0 (sc_handle u32_val) ab_new"
  let ?msgs = "[demo_request 0 [2, 4], demo_request 1000 [7], demo_ahead]"
  let ?c = "demo_sparse\<lparr>sc_get_count := 1, sc_num_reqs := [2, 1]\<rparr>"
  have "fst (ab_handlers 100 0 ?ab) = Some (sc_handle u32_val)" by (simp add: blocker.recv_law)
  then obtain ab' where sent: "sc_get_send (\<lambda>_ _. demo_meta) (?ab, demo_sparse) = Inr (?msgs, (ab', ?c))"
    using demo_sparse_get by blast
  have "sc_run (\<lambda>_ _. demo_meta) u32_val demo_sparse ?c ([] @ ?msgs)"
    by (rule sc_gets[OF sc_begin sent])
  moreover have "sc_fresh two_ranges demo_sparse"
    using demo_sparse_inv by (simp add: sc_fresh_def demo_sparse_def)
  ultimately have "map entry (filter (\<lambda>m. msg_flag m \<noteq> kAdd) ([] @ ?msgs))
      = schedule two_ranges (nat (sc_speculation demo_sparse)) (sc_keys demo_sparse) (unat (sc_get_count ?c))"
    by (intro sparse_client_protocol)
  moreover have "map entry (filter (\<lambda>m. msg_flag m \<noteq> kAdd) ([] @ ?msgs))
      = [(kGet, 0, 0, [2, 4]), (kGet, 0, 1000, [7]), (kGet, 1, 0, [1])]"
    by code_simp
  ultimately show ?thesis using sent by (auto simp: demo_sparse_def)
qed

lemma sparse_client_get_correct_witness:
  "\<exists>ab'' c. sc_get (\<lambda>_ _. demo_meta) [demo_answer 1000 [7], demo_answer 0 [2, 4]]
        (register_recv_handle 100 0 (sc_handle u32_val) ab_new, demo_sparse)
     = Inr ([demo_request 0 [2, 4], demo_request 1000 [7], demo_ahead], (ab'', c), True)
   \<and> sc_vals c = Some [20, 40, 70]"
proof -
  let ?ab = "register_recv_handle 100 0 (sc_handle u32_val) ab_new"
  have reg: "fst (ab_handlers 100 0 ?ab) = Some (sc_handle u32_val)" by (simp add: blocker.recv_law)
  then obtain ab' where sent: "sc_get_send (\<lambda>_ _. demo_meta) (?ab, demo_sparse)
      = Inr ([demo_request 0 [2, 4], demo_request 1000 [7], demo_ahead],
             (ab', demo_sparse\<lparr>sc_get_count := 1, sc_num_reqs := [2, 1]\<rparr>))"
    using demo_sparse_get by blast
  have sel: "sc_thread demo_sparse = 100" "sc_model demo_sparse = 0" "sc_recv demo_sparse = []"
    "unat (sc_get_count demo_sparse) = 0" "sc_keys demo_sparse ! 0 = demo_keys"
    by (simp_all add: demo_sparse_def)
  have asked: "map entry [demo_request 0 [2, 4], demo_request 1000 [7]] = asks two_ranges (sc_keys demo_sparse) 0"
    by code_simp
  have ids: "\<forall>q \<in> set [demo_request 0 [2, 4], demo_request 1000 [7]].
      to_u32 (msg_sender q) = 100 \<and> to_u32 (msg_model q) = 0"
    by (simp add: demo_request_def demo_meta_def to_u32_def)
  from sparse_client_get_correct[OF demo_sparse_inv two_ranges_wf, unfolded sel,
      OF demo_good_keys refl reg sent asked ids demo_served]
  show ?thesis by (auto simp: demo_keys_def)
qed

end
