(* ===== verification/Worker_Alloc.thy ===== *)
theory Worker_Alloc
  imports Id_Mapper
begin

text \<open>
  \<open>driver/worker_spec.cpp\<close> and \<open>Engine::AllocateWorkers\<close>: the workers of a task, numbered from 0,
  the node each of them runs on and the thread it gets there.
\<close>

record worker_alloc =
  wa_node :: u32
  wa_workers :: u32

record worker_spec =
  ws_worker_node :: "(u32, u32) omap"
  ws_node_workers :: "(u32, u32 list) omap"
  ws_worker_thread :: "(u32, u32) omap"
  ws_thread_worker :: "(u32, u32) omap"
  ws_node_threads :: "(u32, u32 list) omap"
  ws_thread_ids :: "u32 list"
  ws_num_workers :: u32

definition ws_empty :: worker_spec where
  "ws_empty = \<lparr>ws_worker_node = [], ws_node_workers = [], ws_worker_thread = [], ws_thread_worker = [],
     ws_node_threads = [], ws_thread_ids = [], ws_num_workers = 0\<rparr>"

definition ws_add_worker :: "u32 \<Rightarrow> worker_spec \<Rightarrow> worker_spec" where
  "ws_add_worker n ws =
     (let w = ws_num_workers ws
      in ws\<lparr>ws_worker_node := om_set w n (ws_worker_node ws),
            ws_node_workers := om_set n (get_or [] (om_get (ws_node_workers ws) n) @ [w]) (ws_node_workers ws),
            ws_num_workers := w + 1\<rparr>)"

definition ws_init_node :: "worker_alloc \<Rightarrow> worker_spec \<Rightarrow> worker_spec res" where
  "ws_init_node a ws =
     check_that (wa_node a < max_node_id) (Check_failed ''WorkerSpec::Init'')
     (check_that (wa_workers a < max_threads - max_bg_threads) (Check_failed ''WorkerSpec::Init'')
       (Inr ((ws_add_worker (wa_node a) ^^ unat (wa_workers a)) ws)))"

definition ws_new :: "worker_alloc list \<Rightarrow> worker_spec res" where
  "ws_new allocs = fold_res ws_init_node allocs ws_empty"

definition has_local_workers :: "u32 \<Rightarrow> worker_spec \<Rightarrow> bool" where
  "has_local_workers n ws \<longleftrightarrow> om_get (ws_node_workers ws) n \<noteq> None"

definition local_workers :: "u32 \<Rightarrow> worker_spec \<Rightarrow> u32 list res" where
  "local_workers n ws = of_opt (Check_failed ''GetLocalWorkers'') (om_get (ws_node_workers ws) n)"

definition local_threads :: "u32 \<Rightarrow> worker_spec \<Rightarrow> u32 list res" where
  "local_threads n ws = of_opt (Check_failed ''GetLocalThreads'') (om_get (ws_node_threads ws) n)"

definition insert_worker_thread :: "u32 \<Rightarrow> u32 \<Rightarrow> worker_spec \<Rightarrow> worker_spec res" where
  "insert_worker_thread w t ws =
     check_that (om_get (ws_worker_thread ws) w = None) (Check_failed ''InsertWorkerIdThreadId: worker'')
     (check_that (om_get (ws_thread_worker ws) t = None) (Check_failed ''InsertWorkerIdThreadId: thread'')
     (check_that (t \<notin> set (ws_thread_ids ws)) (Check_failed ''InsertWorkerIdThreadId: thread_ids'')
     (bind_res (of_opt (Check_failed ''InsertWorkerIdThreadId: node'') (om_get (ws_worker_node ws) w)) (\<lambda>n.
       Inr (ws\<lparr>ws_worker_thread := om_set w t (ws_worker_thread ws),
               ws_thread_worker := om_set t w (ws_thread_worker ws),
               ws_thread_ids := insort_insert t (ws_thread_ids ws),
               ws_node_threads := om_set n (get_or [] (om_get (ws_node_threads ws) n) @ [t]) (ws_node_threads ws)\<rparr>)))))"

definition allocate_one :: "u32 \<times> u32 \<Rightarrow> worker_spec \<times> id_mapper \<Rightarrow> (worker_spec \<times> id_mapper) res" where
  "allocate_one = (\<lambda>(n, w) (ws, m).
     bind_res (allocate_worker n m) (\<lambda>(t, m).
     bind_res (insert_worker_thread w t ws) (\<lambda>ws. Inr (ws, m))))"

definition allocate_node :: "u32 \<times> u32 list \<Rightarrow> worker_spec \<times> id_mapper \<Rightarrow> (worker_spec \<times> id_mapper) res" where
  "allocate_node = (\<lambda>(n, ws). fold_res allocate_one (map (Pair n) ws))"

definition allocate_workers :: "worker_alloc list \<Rightarrow> id_mapper \<Rightarrow> (worker_spec \<times> id_mapper) res" where
  "allocate_workers allocs m =
     bind_res (ws_new allocs) (\<lambda>ws. fold_res allocate_node (ws_node_workers ws) (ws, m))"

section \<open>The workers of a task\<close>

abbreviation node_workers :: "worker_spec \<Rightarrow> u32 \<Rightarrow> u32 list" where
  "node_workers ws n \<equiv> get_or [] (om_get (ws_node_workers ws) n)"

abbreviation node_threads :: "worker_spec \<Rightarrow> u32 \<Rightarrow> u32 list" where
  "node_threads ws n \<equiv> get_or [] (om_get (ws_node_threads ws) n)"

text \<open>\<open>k\<close> workers are numbered, each is on the list of its node, and no thread is assigned yet.\<close>

definition numbered :: "nat \<Rightarrow> worker_spec \<Rightarrow> bool" where
  "numbered k ws \<longleftrightarrow> ws_num_workers ws = of_nat k \<and> om_wf (ws_node_workers ws)
     \<and> dom (om_get (ws_worker_node ws)) = of_nat ` {..<k}
     \<and> (\<forall>n. distinct (node_workers ws n) \<and> om_get (ws_node_workers ws) n \<noteq> Some [])
     \<and> (\<forall>n w. w \<in> set (node_workers ws n) \<longleftrightarrow> om_get (ws_worker_node ws) w = Some n)
     \<and> ws_worker_thread ws = [] \<and> ws_thread_worker ws = [] \<and> ws_node_threads ws = [] \<and> ws_thread_ids ws = []"

lemma ws_empty_numbered: "numbered 0 ws_empty"
  by (simp add: numbered_def ws_empty_def)

lemma ws_add_worker_numbered:
  assumes "numbered k ws" "k < 2 ^ 32"
  shows "numbered (Suc k) (ws_add_worker n ws)"
proof -
  have fresh: "of_nat k \<notin> (of_nat :: nat \<Rightarrow> u32) ` {..<k}"
  proof
    assume "of_nat k \<in> (of_nat :: nat \<Rightarrow> u32) ` {..<k}"
    then obtain j where "j < k" "(of_nat k :: u32) = of_nat j" by auto
    then show False using assms(2) unat_of_nat_small[of k, where 'a = 32] unat_of_nat_small[of j, where 'a = 32] by simp
  qed
  then have new: "om_get (ws_worker_node ws) (of_nat k) = None" using assms(1) by (auto simp: numbered_def)
  show ?thesis
    using assms(1) new unfolding numbered_def
    by (auto simp: ws_add_worker_def Let_def lessThan_Suc)
qed

lemma ws_add_workers_numbered:
  "numbered k ws \<Longrightarrow> k + j \<le> 2 ^ 32 \<Longrightarrow> numbered (k + j) ((ws_add_worker n ^^ j) ws)"
proof (induction j)
  case 0
  then show ?case by simp
next
  case (Suc j)
  then have "numbered (k + j) ((ws_add_worker n ^^ j) ws)" by simp
  from ws_add_worker_numbered[OF this] Suc.prems(2) show ?case by simp
qed

lemma ws_init_numbered:
  "fold_res ws_init_node allocs ws = Inr ws' \<Longrightarrow> numbered k ws \<Longrightarrow>
     k + sum_list (map (\<lambda>a. unat (wa_workers a)) allocs) \<le> 2 ^ 32 \<Longrightarrow>
     numbered (k + sum_list (map (\<lambda>a. unat (wa_workers a)) allocs)) ws'"
proof (induction allocs arbitrary: ws k)
  case Nil
  then show ?case by simp
next
  case (Cons a allocs)
  obtain ws1 where one: "ws_init_node a ws = Inr ws1" and run1: "fold_res ws_init_node allocs ws1 = Inr ws'"
    using Cons.prems(1) by (auto simp: res_simps)
  then have run: "fold_res ws_init_node allocs ((ws_add_worker (wa_node a) ^^ unat (wa_workers a)) ws) = Inr ws'"
    by (auto simp: res_simps ws_init_node_def[of a ws])
  have "numbered (k + unat (wa_workers a)) ((ws_add_worker (wa_node a) ^^ unat (wa_workers a)) ws)"
    by (rule ws_add_workers_numbered[OF Cons.prems(2)]) (use Cons.prems(3) in simp)
  from Cons.IH[OF run this] Cons.prems(3) show ?case by (simp add: ac_simps)
qed

section \<open>Their threads\<close>

text \<open>What holds when the workers \<open>done\<close>, with their nodes, have got a thread; \<open>m0\<close> is the mapper before.\<close>

definition assigned :: "id_mapper \<Rightarrow> worker_spec \<Rightarrow> (u32 \<times> u32) list \<Rightarrow> worker_spec \<Rightarrow> id_mapper \<Rightarrow> bool" where
  "assigned m0 ws0 done ws m \<longleftrightarrow> im_inv m \<and> (\<forall>k. threads_on m0 k \<subseteq> threads_on m k)
     \<and> im_helper m = im_helper m0 \<and> (\<forall>k. servers_for k m = servers_for k m0)
     \<and> (\<forall>w t. om_get (ws_worker_thread ws) w = Some t \<longrightarrow> (\<exists>k. t \<in> threads_on m k))
     \<and> ws_worker_node ws = ws_worker_node ws0 \<and> ws_node_workers ws = ws_node_workers ws0
     \<and> ws_num_workers ws = ws_num_workers ws0
     \<and> dom (om_get (ws_worker_thread ws)) = snd ` set done
     \<and> (\<forall>t w. om_get (ws_thread_worker ws) t = Some w \<longleftrightarrow> om_get (ws_worker_thread ws) w = Some t)
     \<and> (\<forall>n w. (n, w) \<in> set done \<longrightarrow> (\<exists>t. om_get (ws_worker_thread ws) w = Some t
           \<and> node_for_thread t = n \<and> (\<forall>k. t \<notin> threads_on m0 k)))
     \<and> (\<forall>n. node_threads ws n = map (\<lambda>p. the (om_get (ws_worker_thread ws) (snd p))) (filter (\<lambda>p. fst p = n) done))"

text \<open>What one more worker adds to the maps of the specification.\<close>

lemma inserted_worker:
  assumes ins: "insert_worker_thread w t ws = Inr ws'" and node: "om_get (ws_worker_node ws) w = Some n"
  shows "om_get (ws_worker_thread ws) w = None" "om_get (ws_thread_worker ws) t = None"
    and "om_get (ws_worker_thread ws') = (om_get (ws_worker_thread ws))(w \<mapsto> t)"
    and "om_get (ws_thread_worker ws') = (om_get (ws_thread_worker ws))(t \<mapsto> w)"
    and "node_threads ws' k = (if k = n then node_threads ws n @ [t] else node_threads ws k)"
    and "ws_worker_node ws' = ws_worker_node ws" "ws_node_workers ws' = ws_node_workers ws" "ws_num_workers ws' = ws_num_workers ws"
  using ins node by (auto simp: insert_worker_thread_def res_simps)

lemma maps_stay_inverse:
  assumes "\<And>w t. f w = Some t \<longleftrightarrow> g t = Some w" "f w = None" "g t = None"
  shows "(g(t \<mapsto> w)) t1 = Some w1 \<longleftrightarrow> (f(w \<mapsto> t)) w1 = Some t1"
proof -
  have "g t1 \<noteq> Some w" "f w1 \<noteq> Some t" using assms by (metis option.distinct(1))+
  then show ?thesis using assms(1) by (cases "t1 = t"; cases "w1 = w") auto
qed

lemma one_more_thread:
  assumes a: "assigned m0 ws0 done ws m" and ins: "insert_worker_thread w t ws = Inr ws'" and node: "om_get (ws_worker_node ws) w = Some n"
  shows "node_threads ws' k = map (\<lambda>p. the (om_get (ws_worker_thread ws') (snd p))) (filter (\<lambda>p. fst p = k) (done @ [(n, w)]))"
proof -
  note W = inserted_worker[OF ins node] and inv = a[unfolded assigned_def]
  have "w \<notin> snd ` set done" using W(1) inv by (metis domIff)
  then have "map (\<lambda>p. the (om_get (ws_worker_thread ws') (snd p))) (filter (\<lambda>p. fst p = k) done)
      = map (\<lambda>p. the (om_get (ws_worker_thread ws) (snd p))) (filter (\<lambda>p. fst p = k) done)"
    unfolding W(3) by (intro map_cong) auto
  moreover have "node_threads ws k = map (\<lambda>p. the (om_get (ws_worker_thread ws) (snd p))) (filter (\<lambda>p. fst p = k) done)" for k
    using inv by blast
  ultimately show ?thesis by (auto simp: W(3,5))
qed

lemma assigned_step:
  assumes a: "assigned m0 ws0 done ws m" and w: "om_get (ws_worker_node ws0) w = Some n"
    and run: "allocate_one (n, w) (ws, m) = Inr (ws', m')"
  shows "assigned m0 ws0 (done @ [(n, w)]) ws' m'"
proof -
  obtain t where al: "allocate_worker n m = Inr (t, m')" and ins: "insert_worker_thread w t ws = Inr ws'"
    using run by (auto simp: allocate_one_def res_simps)
  note inv = a[unfolded assigned_def]
  have node: "om_get (ws_worker_node ws) w = Some n" using inv w by simp
  note W = inserted_worker[OF ins node]
  have im: "im_inv m" using inv by blast
  note F = allocate_worker_fresh[OF im al]
  have notdone: "w \<notin> snd ` set done" using W(1) inv by (metis domIff)
  have grows: "threads_on m k \<subseteq> threads_on m' k" for k
    using F(5-7) by (auto simp: threads_on_def set_insort_insert)
  have free: "t \<notin> threads_on m0 k" for k using F(3) inv by blast
  have iff: "\<And>w t. om_get (ws_worker_thread ws) w = Some t \<longleftrightarrow> om_get (ws_thread_worker ws) t = Some w" using inv by blast
  show ?thesis
    unfolding assigned_def
  proof (intro conjI allI impI)
    show "im_inv m'" by (rule F(1))
    show "threads_on m0 k \<subseteq> threads_on m' k" for k using inv grows by (meson order_trans)
    show "im_helper m' = im_helper m0" "servers_for k m' = servers_for k m0" for k using inv by (simp_all add: F(6,8))
    show "\<exists>k. t1 \<in> threads_on m' k" if "om_get (ws_worker_thread ws') w1 = Some t1" for w1 t1
    proof (cases "w1 = w")
      case True
      then have "t1 \<in> threads_on m' n" using that F(5)[of n] by (simp add: W(3) threads_on_def set_insort_insert)
      then show ?thesis by blast
    next
      case False
      moreover have "\<forall>w t. om_get (ws_worker_thread ws) w = Some t \<longrightarrow> (\<exists>k. t \<in> threads_on m k)" using inv by (elim conjE)
      ultimately show ?thesis using grows that by (fastforce simp: W(3))
    qed
    show "ws_worker_node ws' = ws_worker_node ws0" "ws_node_workers ws' = ws_node_workers ws0"
      "ws_num_workers ws' = ws_num_workers ws0" using inv by (simp_all add: W(6-8))
    show "dom (om_get (ws_worker_thread ws')) = snd ` set (done @ [(n, w)])" using inv unfolding W(3) by simp
    show "om_get (ws_thread_worker ws') t1 = Some w1 \<longleftrightarrow> om_get (ws_worker_thread ws') w1 = Some t1" for t1 w1
      unfolding W(3,4) by (rule maps_stay_inverse[OF iff W(1,2)])
    show "node_threads ws' k = map (\<lambda>p. the (om_get (ws_worker_thread ws') (snd p)))
      (filter (\<lambda>p. fst p = k) (done @ [(n, w)]))" for k by (rule one_more_thread[OF a ins node])
    fix k v assume kv: "(k, v) \<in> set (done @ [(n, w)])"
    show "\<exists>t. om_get (ws_worker_thread ws') v = Some t \<and> node_for_thread t = k \<and> (\<forall>k. t \<notin> threads_on m0 k)"
    proof (cases "v = w")
      case True
      with kv notdone have "k = n" by force
      with True show ?thesis using F(2) free by (simp add: W(3))
    next
      case False
      with kv inv show ?thesis unfolding W(3) by simp
    qed
  qed
qed

lemma assigned_all:
  assumes "\<forall>(n, w) \<in> set pairs. om_get (ws_worker_node ws0) w = Some n"
  shows "fold_res allocate_one pairs (ws, m) = Inr (ws', m') \<Longrightarrow> assigned m0 ws0 done ws m \<Longrightarrow>
    assigned m0 ws0 (done @ pairs) ws' m'"
  using assms
proof (induction pairs arbitrary: ws m "done")
  case Nil
  then show ?case by simp
next
  case (Cons p pairs)
  obtain n w where p: "p = (n, w)" by force
  obtain ws1 m1 where one: "allocate_one (n, w) (ws, m) = Inr (ws1, m1)"
    and rest: "fold_res allocate_one pairs (ws1, m1) = Inr (ws', m')"
    using Cons.prems(1) by (auto simp: res_simps p)
  have "assigned m0 ws0 (done @ [(n, w)]) ws1 m1"
    by (rule assigned_step[OF Cons.prems(2) _ one]) (use Cons.prems(3) in \<open>simp add: p\<close>)
  from Cons.IH[OF rest this] Cons.prems(3) show ?case by (simp add: p)
qed

lemma fold_allocate_node:
  "fold_res allocate_node nws s = fold_res allocate_one (concat (map (\<lambda>(n, ws). map (Pair n) ws) nws)) s"
proof (induction nws arbitrary: s)
  case Nil
  then show ?case by simp
next
  case (Cons p nws)
  have "fold_res allocate_node nws = fold_res allocate_one (concat (map (\<lambda>(n, ws). map (Pair n) ws) nws))"
    by (rule ext) (rule Cons.IH)
  then show ?case by (cases p) (simp add: allocate_node_def fold_res_append)
qed

text \<open>The order in which \<open>AllocateWorkers\<close> visits the workers: node by node.\<close>

definition visits :: "worker_spec \<Rightarrow> (u32 \<times> u32) list" where
  "visits ws = concat (map (\<lambda>(n, ws). map (Pair n) ws) (ws_node_workers ws))"

lemma visits_props:
  assumes "om_wf (ws_node_workers ws)"
  shows "(n, w) \<in> set (visits ws) \<longleftrightarrow> w \<in> set (node_workers ws n)"
    "map snd (filter (\<lambda>p. fst p = n) (visits ws)) = node_workers ws n"
proof -
  have "(\<exists>l. (n, l) \<in> set (ws_node_workers ws) \<and> w \<in> set l) \<longleftrightarrow> w \<in> set (node_workers ws n)"
    using om_mem_iff[OF assms] by (cases "om_get (ws_node_workers ws) n") auto
  then show "(n, w) \<in> set (visits ws) \<longleftrightarrow> w \<in> set (node_workers ws n)" by (auto simp: visits_def)
  have "om_wf l \<Longrightarrow> map snd (filter (\<lambda>p. fst p = n) (concat (map (\<lambda>(n, ws). map (Pair n) ws) l)))
      = get_or [] (om_get l n)" for l :: "(u32, u32 list) omap"
  proof (induction l)
    case Nil
    then show ?case by simp
  next
    case (Cons q l)
    obtain k vs where q: "q = (k, vs)" by force
    have this_k: "filter (\<lambda>p. fst p = n) (map (Pair k) vs) = (if k = n then map (Pair k) vs else [])"
      by (induction vs) auto
    have "om_wf l" "k = n \<Longrightarrow> om_get l n = None"
      using Cons.prems by (auto simp: q om_wf_Cons intro: om_get_below)
    with Cons.IH show ?case by (auto simp: q this_k o_def)
  qed
  then show "map snd (filter (\<lambda>p. fst p = n) (visits ws)) = node_workers ws n"
    using assms by (simp add: visits_def)
qed

lemma allocate_workers_assigned:
  assumes "im_inv m" "allocate_workers allocs m = Inr (ws, m')"
    "sum_list (map (\<lambda>a. unat (wa_workers a)) allocs) \<le> 2 ^ 32"
  obtains ws0 where "numbered (sum_list (map (\<lambda>a. unat (wa_workers a)) allocs)) ws0"
    "assigned m ws0 (visits ws0) ws m'"
proof -
  obtain ws0 where new: "fold_res ws_init_node allocs ws_empty = Inr ws0"
    and run: "fold_res allocate_node (ws_node_workers ws0) (ws0, m) = Inr (ws, m')"
    using assms(2) by (auto simp: allocate_workers_def ws_new_def res_simps)
  have num: "numbered (sum_list (map (\<lambda>a. unat (wa_workers a)) allocs)) ws0"
    using ws_init_numbered[OF new ws_empty_numbered] assms(3) by simp
  note N = num[unfolded numbered_def]
  have wf: "om_wf (ws_node_workers ws0)" using N by blast
  have owner: "\<forall>(n, w) \<in> set (visits ws0). om_get (ws_worker_node ws0) w = Some n"
  proof (intro ballI, clarify)
    fix n w assume "(n, w) \<in> set (visits ws0)"
    then show "om_get (ws_worker_node ws0) w = Some n" using N visits_props(1)[OF wf] by blast
  qed
  have start: "assigned m ws0 [] ws0 m" using assms(1) N by (simp add: assigned_def)
  have "assigned m ws0 ([] @ visits ws0) ws m'"
    by (rule assigned_all[OF owner _ start]) (use run in \<open>simp add: fold_allocate_node visits_def\<close>)
  then show thesis using that num by simp
qed

lemma assigned_threads:
  assumes A: "assigned m ws0 (visits ws0) ws m'" and wf: "om_wf (ws_node_workers ws0)"
  shows "map Some (node_threads ws n) = map (om_get (ws_worker_thread ws)) (node_workers ws n)"
proof -
  note A = A[unfolded assigned_def]
  have "map Some (node_threads ws n)
      = map (\<lambda>p. Some (the (om_get (ws_worker_thread ws) (snd p)))) (filter (\<lambda>p. fst p = n) (visits ws0))"
    using A by (simp add: o_def)
  also have "\<dots> = map (\<lambda>p. om_get (ws_worker_thread ws) (snd p)) (filter (\<lambda>p. fst p = n) (visits ws0))"
  proof (rule map_cong[OF refl])
    fix p assume "p \<in> set (filter (\<lambda>p. fst p = n) (visits ws0))"
    then have "(fst p, snd p) \<in> set (visits ws0)" unfolding prod.collapse by simp
    moreover have "\<forall>n w. (n, w) \<in> set (visits ws0) \<longrightarrow> (\<exists>t. om_get (ws_worker_thread ws) w = Some t
        \<and> node_for_thread t = n \<and> (\<forall>k. t \<notin> threads_on m k))"
      using A by (elim conjE)
    ultimately obtain t where "om_get (ws_worker_thread ws) (snd p) = Some t" by blast
    then show "Some (the (om_get (ws_worker_thread ws) (snd p))) = om_get (ws_worker_thread ws) (snd p)"
      by simp
  qed
  also have "\<dots> = map (om_get (ws_worker_thread ws)) (map snd (filter (\<lambda>p. fst p = n) (visits ws0)))"
    by simp
  finally show ?thesis using A by (simp add: visits_props(2)[OF wf])
qed

text \<open>\<open>Engine::AllocateWorkers\<close>: every worker of the task gets a thread of its own, on the node the
  task asked for, that was in use nowhere; the two maps of the spec are inverse to each other; and
  the \<open>i\<close>-th local thread of a node is the thread of its \<open>i\<close>-th local worker, which is how \<open>Run\<close>
  pairs them.\<close>

lemma allocate_workers_correct:
  assumes "im_inv m" "allocate_workers allocs m = Inr (ws, m')"
    "sum_list (map (\<lambda>a. unat (wa_workers a)) allocs) \<le> 2 ^ 32"
  shows "im_inv m'
    \<and> (\<forall>n w. w \<in> set (node_workers ws n) \<longrightarrow> (\<exists>t. om_get (ws_worker_thread ws) w = Some t
          \<and> om_get (ws_thread_worker ws) t = Some w \<and> node_for_thread t = n \<and> (\<forall>k. t \<notin> threads_on m k)))
    \<and> (\<Union>n. set (node_workers ws n)) = of_nat ` {..<sum_list (map (\<lambda>a. unat (wa_workers a)) allocs)}
    \<and> (\<forall>n. map Some (node_threads ws n) = map (om_get (ws_worker_thread ws)) (node_workers ws n))"
proof -
  obtain ws0 where num: "numbered (sum_list (map (\<lambda>a. unat (wa_workers a)) allocs)) ws0"
    and as: "assigned m ws0 (visits ws0) ws m'"
    by (rule allocate_workers_assigned[OF assms])
  note N = num[unfolded numbered_def] and A = as[unfolded assigned_def]
  have wf: "om_wf (ws_node_workers ws0)" and same: "ws_node_workers ws = ws_node_workers ws0" using N A by blast+
  show ?thesis
  proof (intro conjI allI impI)
    show "im_inv m'" using A by blast
    fix n w assume "w \<in> set (node_workers ws n)"
    then have "(n, w) \<in> set (visits ws0)" by (simp add: same visits_props(1)[OF wf])
    then show "\<exists>t. om_get (ws_worker_thread ws) w = Some t
          \<and> om_get (ws_thread_worker ws) t = Some w \<and> node_for_thread t = n \<and> (\<forall>k. t \<notin> threads_on m k)"
      using A by (metis (no_types, lifting))
  next
    have "\<forall>n w. w \<in> set (node_workers ws0 n) \<longleftrightarrow> om_get (ws_worker_node ws0) w = Some n" using N by blast
    then have "(\<Union>n. set (node_workers ws n)) = dom (om_get (ws_worker_node ws0))"
      by (simp add: same dom_def set_eq_iff)
    then show "(\<Union>n. set (node_workers ws n))
        = of_nat ` {..<sum_list (map (\<lambda>a. unat (wa_workers a)) allocs)}" using N by simp
  next
    show "map Some (node_threads ws n) = map (om_get (ws_worker_thread ws)) (node_workers ws n)" for n
      by (rule assigned_threads[OF as wf])
  qed
qed

lemma demo_allocate:
  "\<exists>ws m'. allocate_workers [\<lparr>wa_node = 1, wa_workers = 1\<rparr>] demo_mapper = Inr (ws, m')
     \<and> om_get (ws_worker_thread ws) 0 = Some 1101 \<and> node_workers ws 1 = [0] \<and> workers_for 1 m' = [1100, 1101]"
proof -
  let ?allocs = "[\<lparr>wa_node = 1, wa_workers = 1\<rparr>]"
  have slots: "worker_slots = 100 # 101 # [102..<1000]"
    by (simp add: worker_slots_def id_constants upt_conv_Cons)
  have "first_free 1 [1100] worker_slots = Some 1101"
    unfolding slots first_free.simps by (simp add: max_threads_def)
  then have al: "allocate_worker 1 demo_mapper
      = Inr (1101, demo_mapper\<lparr>im_worker := om_set 1 [1100, 1101] [(1, [1100])]\<rparr>)"
    by (simp add: allocate_worker_def demo_mapper_def workers_for_def insort_insert_key_def)
  have new: "ws_new ?allocs = Inr (ws_add_worker 1 ws_empty)"
    by (simp add: ws_new_def ws_init_node_def id_constants)
  show ?thesis
    by (simp add: allocate_workers_def new ws_add_worker_def ws_empty_def allocate_node_def allocate_one_def al
        insert_worker_thread_def workers_for_def)
qed

lemma allocate_workers_correct_witness:
  "\<exists>ws m' t. allocate_workers [\<lparr>wa_node = 1, wa_workers = 1\<rparr>] demo_mapper = Inr (ws, m')
     \<and> om_get (ws_worker_thread ws) 0 = Some t \<and> node_for_thread t = 1"
proof -
  obtain ws m' where run: "allocate_workers [\<lparr>wa_node = 1, wa_workers = 1\<rparr>] demo_mapper = Inr (ws, m')" "node_workers ws 1 = [0]"
    using demo_allocate by blast
  from allocate_workers_correct[OF demo_mapper_inv run(1)]
  have "\<forall>n w. w \<in> set (node_workers ws n) \<longrightarrow> (\<exists>t. om_get (ws_worker_thread ws) w = Some t
          \<and> om_get (ws_thread_worker ws) t = Some w \<and> node_for_thread t = n \<and> (\<forall>k. t \<notin> threads_on demo_mapper k))"
    by simp
  then have "\<exists>t. om_get (ws_worker_thread ws) 0 = Some t \<and> node_for_thread t = 1" using run(2) by (metis list.set_intros(1))
  with run show ?thesis by blast
qed

end
