(* ===== verification/Mailbox_Stop.thy ===== *)
theory Mailbox_Stop
  imports Barrier
begin

text \<open>
  \<open>Barrier\<close> and \<open>Stop\<close> of \<open>comm/mailbox.cpp\<close>.  While the calling thread waits, the receiving
  thread goes on: what it gets from the network until the wait is over is the argument \<open>arrived\<close>, and what it
  gets from then until it ends is \<open>later\<close>.  What the calls send is part of their results; \<open>False\<close>
  says that a wait or a join does not end on what came in.
\<close>

section \<open>The operations\<close>

definition mb_barrier_message :: "meta \<Rightarrow> mailbox \<Rightarrow> node \<Rightarrow> message" where
  "mb_barrier_message junk mb nd =
     \<lparr>meta_of = junk\<lparr>sender := to_i32 (node_id (mb_node mb)), recver := to_i32 (node_id nd), mflag := kBarrier\<rparr>, data_of = []\<rparr>"

definition mb_barrier_messages :: "meta \<Rightarrow> mailbox \<Rightarrow> message list" where
  "mb_barrier_messages junk mb = map (mb_barrier_message junk mb) (mb_nodes mb)"

text \<open>The wait, and what follows it; the last result says whether the receiving thread has ended.\<close>

definition mb_barrier_wait :: "message list \<Rightarrow> mailbox \<times> queues \<Rightarrow> ((mailbox \<times> queues) \<times> bool \<times> bool) res" where
  "mb_barrier_wait arrived s =
     bind_res (mb_receiving arrived s) (\<lambda>((mb, qs), rest, gone).
       let n = length (mb_nodes mb) in
       if old_ready n (mb_barrier_count mb)
       then Inr ((mb\<lparr>mb_barrier_count := old_leave n (mb_barrier_count mb)\<rparr>, qs), True, gone)
       else Inr ((mb, qs), False, gone))"

definition mb_barrier ::
  "meta \<Rightarrow> message list \<Rightarrow> mailbox \<times> queues \<Rightarrow> (message list \<times> (mailbox \<times> queues) \<times> bool \<times> bool) res"
where
  "mb_barrier junk arrived s =
     bind_res (mb_barrier_wait arrived s) (\<lambda>(s', over, gone).
       Inr (mb_barrier_messages junk (fst s), s', over, gone))"

text \<open>\<open>StopReceiving\<close>: a barrier, the exit message to the own node, and the join of the receiving thread.\<close>

definition mb_stop_receiving ::
  "meta \<Rightarrow> message list \<Rightarrow> message list \<Rightarrow> mailbox \<times> queues \<Rightarrow> (message list \<times> (mailbox \<times> queues) \<times> bool) res"
where
  "mb_stop_receiving junk arrived later s =
     bind_res (mb_barrier junk arrived s) (\<lambda>(sent, s, over, gone).
       if \<not> over then Inr (sent, s, False)
       else
         (let sent = sent @ [mb_exit_message junk (fst s)] in
          if gone then Inr (sent, s, True)
          else bind_res (mb_receiving later s) (\<lambda>(s, rest, gone). Inr (sent, s, gone))))"

definition mb_stop ::
  "meta \<Rightarrow> message list \<Rightarrow> message list \<Rightarrow> mailbox \<times> queues \<Rightarrow> (message list \<times> (mailbox \<times> queues) \<times> bool) res"
where
  "mb_stop junk arrived later s =
     bind_res (mb_stop_receiving junk arrived later s) (\<lambda>(sent, (mb, qs), over).
       Inr (sent, (mb, if over then mb_close junk mb qs else qs), over))"

section \<open>What has to come in\<close>

text \<open>A mailbox after \<open>Start\<close>: its own node is one of the nodes, and it has a socket to each.\<close>

definition mailbox_up :: "mailbox \<Rightarrow> bool" where
  "mailbox_up mb \<longleftrightarrow> mb_node mb \<in> set (mb_nodes mb) \<and> node_id ` set (mb_nodes mb) \<subseteq> set (mb_senders mb)
     \<and> 0 \<le> mb_barrier_count mb"

definition barriers :: "message list \<Rightarrow> int" where
  "barriers msgs = int (length (filter (\<lambda>m. msg_flag m = kBarrier) msgs))"

text \<open>Messages for registered receivers, or of a barrier, that the counter has room for.\<close>

definition deliverable :: "mailbox \<Rightarrow> message list \<Rightarrow> bool" where
  "deliverable mb msgs \<longleftrightarrow>
     (\<forall>m \<in> set msgs. msg_flag m \<noteq> kExit
        \<and> (msg_flag m \<noteq> kBarrier \<longrightarrow> om_get (mb_queue_map mb) (to_u32 (msg_recver m)) \<noteq> None))
     \<and> mb_barrier_count mb + barriers msgs < 2147483648"

text \<open>Enough for the barrier to end: with those counted already, a message for each node.\<close>

definition barrier_traffic :: "mailbox \<Rightarrow> message list \<Rightarrow> bool" where
  "barrier_traffic mb arrived \<longleftrightarrow> deliverable mb arrived
     \<and> int (length (mb_nodes mb)) \<le> mb_barrier_count mb + barriers arrived"

text \<open>Enough to stop: after the barrier, the exit message the node sends to itself, with whatever else in front of it.\<close>

definition stop_traffic :: "mailbox \<Rightarrow> message list \<Rightarrow> message list \<Rightarrow> bool" where
  "stop_traffic mb arrived later \<longleftrightarrow> barrier_traffic mb arrived
     \<and> deliverable mb (arrived @ takeWhile (\<lambda>m. msg_flag m \<noteq> kExit) later)
     \<and> (\<exists>m \<in> set later. msg_flag m = kExit)"

lemma barriers_simps [simp]:
  "barriers [] = 0" "barriers (m # ms) = (if msg_flag m = kBarrier then 1 else 0) + barriers ms"
  "barriers (ms @ ns) = barriers ms + barriers ns"
  by (simp_all add: barriers_def)

lemma barriers_pos: "0 \<le> barriers ms"
  by (simp add: barriers_def)

lemma receiving_deliverable:
  "deliverable mb msgs \<Longrightarrow> 0 \<le> mb_barrier_count mb \<Longrightarrow>
     \<exists>qs'. \<forall>rest. mb_receiving (msgs @ rest) (mb, qs)
       = mb_receiving rest (mb\<lparr>mb_barrier_count := mb_barrier_count mb + barriers msgs\<rparr>, qs')"
proof (induction msgs arbitrary: mb qs)
  case Nil
  then show ?case by auto
next
  case (Cons msg msgs)
  have not_exit: "msg_flag msg \<noteq> kExit" using Cons.prems(1) by (simp add: deliverable_def)
  show ?case
  proof (cases "msg_flag msg = kBarrier")
    case True
    let ?mb = "mb\<lparr>mb_barrier_count := mb_barrier_count mb + 1\<rparr>"
    have "in_i32 (mb_barrier_count mb + 1)"
      using Cons.prems barriers_pos[of msgs] True by (simp add: deliverable_def in_i32_def)
    then have one: "mb_dispatch msg (mb, qs) = Inr (?mb, qs)" using True by (simp add: mb_dispatch_def)
    have "deliverable ?mb msgs" using Cons.prems(1) True by (simp add: deliverable_def)
    from Cons.IH[OF this, of qs] Cons.prems(2) one not_exit True show ?thesis by (simp add: add.assoc)
  next
    case False
    then obtain q where q: "om_get (mb_queue_map mb) (to_u32 (msg_recver msg)) = Some q"
      using Cons.prems(1) not_exit by (auto simp: deliverable_def)
    then have one: "mb_dispatch msg (mb, qs) = Inr (mb, qs(q := tsq_push msg (qs q)))" using False by (simp add: mb_dispatch_def)
    have "deliverable mb msgs" using Cons.prems(1) False by (simp add: deliverable_def)
    from Cons.IH[OF this Cons.prems(2), of "qs(q := tsq_push msg (qs q))"] one not_exit False show ?thesis by (simp add: fun_upd_def)
  qed
qed

lemma receiving_ends:
  assumes "\<exists>m \<in> set msgs. msg_flag m = kExit" "deliverable mb (takeWhile (\<lambda>m. msg_flag m \<noteq> kExit) msgs)" "0 \<le> mb_barrier_count mb"
  shows "\<exists>qs' rest. mb_receiving msgs (mb, qs)
    = Inr ((mb\<lparr>mb_barrier_count := mb_barrier_count mb + barriers (takeWhile (\<lambda>m. msg_flag m \<noteq> kExit) msgs)\<rparr>, qs'), rest, True)"
proof -
  let ?pre = "takeWhile (\<lambda>m. msg_flag m \<noteq> kExit) msgs"
  have ne: "dropWhile (\<lambda>m. msg_flag m \<noteq> kExit) msgs \<noteq> []" using assms(1) by (auto simp: dropWhile_eq_Nil_conv)
  then obtain msg post where split: "dropWhile (\<lambda>m. msg_flag m \<noteq> kExit) msgs = msg # post" unfolding neq_Nil_conv by blast
  have ex: "msg_flag msg = kExit" using hd_dropWhile[OF ne] by (simp add: split)
  have msgs: "msgs = ?pre @ msg # post" unfolding split[symmetric] by simp
  obtain qs' where "\<forall>rest. mb_receiving (?pre @ rest) (mb, qs)
      = mb_receiving rest (mb\<lparr>mb_barrier_count := mb_barrier_count mb + barriers ?pre\<rparr>, qs')"
    using receiving_deliverable[OF assms(2,3)] by blast
  then have "mb_receiving (?pre @ msg # post) (mb, qs)
      = mb_receiving (msg # post) (mb\<lparr>mb_barrier_count := mb_barrier_count mb + barriers ?pre\<rparr>, qs')" by blast
  then have "mb_receiving msgs (mb, qs)
      = mb_receiving (msg # post) (mb\<lparr>mb_barrier_count := mb_barrier_count mb + barriers ?pre\<rparr>, qs')"
    unfolding msgs[symmetric] .
  then show ?thesis using ex by simp
qed

section \<open>The barrier and the stop end\<close>

lemma mb_barrier_ends:
  assumes "barrier_traffic mb arrived" "0 \<le> mb_barrier_count mb"
  shows "\<exists>qs'. mb_barrier junk arrived (mb, qs) = Inr (mb_barrier_messages junk mb,
      (mb\<lparr>mb_barrier_count := mb_barrier_count mb + barriers arrived - int (length (mb_nodes mb))\<rparr>, qs'), True, False)"
proof -
  have "deliverable mb arrived" using assms(1) by (simp add: barrier_traffic_def)
  then obtain qs' where "\<forall>rest. mb_receiving (arrived @ rest) (mb, qs)
      = mb_receiving rest (mb\<lparr>mb_barrier_count := mb_barrier_count mb + barriers arrived\<rparr>, qs')"
    using receiving_deliverable[OF _ assms(2)] by blast
  from this[rule_format, of "[]"] show ?thesis
    using assms(1) by (auto simp: mb_barrier_def mb_barrier_wait_def old_ready_def old_leave_def barrier_traffic_def Let_def)
qed

lemma mb_stop_ends:
  assumes "stop_traffic mb arrived later" "mailbox_up mb"
  shows "\<exists>k qs'. mb_stop junk arrived later (mb, qs)
      = Inr (mb_barrier_messages junk mb @ [mb_exit_message junk mb],
             (mb\<lparr>mb_barrier_count := k\<rparr>, mb_close junk mb qs'), True) \<and> 0 \<le> k"
proof -
  have up: "0 \<le> mb_barrier_count mb" using assms(2) by (simp add: mailbox_up_def)
  let ?n = "int (length (mb_nodes mb))" and ?pre = "takeWhile (\<lambda>m. msg_flag m \<noteq> kExit) later"
  let ?mb = "mb\<lparr>mb_barrier_count := mb_barrier_count mb + barriers arrived - ?n\<rparr>"
  obtain qs1 where bar: "mb_barrier junk arrived (mb, qs) = Inr (mb_barrier_messages junk mb, (?mb, qs1), True, False)"
    using mb_barrier_ends[OF conjunct1[OF assms(1)[unfolded stop_traffic_def]] up] by blast
  have pos: "0 \<le> mb_barrier_count ?mb" using assms(1) by (simp add: stop_traffic_def barrier_traffic_def)
  have "deliverable ?mb ?pre" using assms(1) by (auto simp: stop_traffic_def deliverable_def)
  moreover have "\<exists>m \<in> set later. msg_flag m = kExit" using assms(1) by (simp add: stop_traffic_def)
  ultimately obtain qs2 rest where "mb_receiving later (?mb, qs1)
      = Inr ((?mb\<lparr>mb_barrier_count := mb_barrier_count ?mb + barriers ?pre\<rparr>, qs2), rest, True)"
    using receiving_ends[of later ?mb qs1] pos by blast
  moreover have "mb_close junk (mb\<lparr>mb_barrier_count := c\<rparr>) q = mb_close junk mb q"
    "mb_exit_message junk (mb\<lparr>mb_barrier_count := c\<rparr>) = mb_exit_message junk mb" for c q
    by (simp_all add: mb_close_def mb_exit_message_def)
  moreover have "0 \<le> mb_barrier_count ?mb + barriers ?pre" using pos barriers_pos[of ?pre] by linarith
  ultimately show ?thesis
    using bar by (intro exI[of _ "mb_barrier_count ?mb + barriers ?pre"] exI[of _ qs2])
      (simp add: mb_stop_def mb_stop_receiving_def)
qed

text \<open>Everything it sends finds a socket, and every barrier message is counted where it arrives.\<close>

lemma stop_messages_routed:
  assumes "mailbox_up mb" "m \<in> set (mb_barrier_messages junk mb @ [mb_exit_message junk mb])"
  shows "dest_node node_of m \<in> set (mb_senders mb)"
  using assms
  by (auto simp: mailbox_up_def mb_barrier_messages_def mb_barrier_message_def mb_exit_message_def dest_node_def)

end
