(* ===== verification/Engine.thy ===== *)
theory Engine
  imports Server_Thread Sparse_Client Worker_Alloc Mailbox_Stop
begin

text \<open>
  \<open>driver/engine.cpp\<close>, \<open>driver/engine.hpp\<close>, \<open>driver/info.hpp\<close>, \<open>driver/ml_task.hpp\<close>: the engine
  of a process starts and stops the threads, creates the tables, resets them for the workers of a
  task and starts those workers.  A pointer that is not set yet is \<open>None\<close>; the queue of a server or
  helper thread is known by the number of the thread.
\<close>

section \<open>State\<close>

datatype model_type = SSP | BSP | ASP | SparseSSP
datatype storage_type = Store_map | Store_vector
datatype recorder_type = Rec_none | Rec_map | Rec_vector

record ('v, 'c) engine =
  en_partitions :: "(u32, partition_manager) omap"
  en_node :: node
  en_nodes :: "node list"
  en_mapper :: "id_mapper option"
  en_mailbox :: "mailbox option"
  en_sender :: "message tsq option"
  en_blocker :: "'c app_blocker option"
  en_helper :: "u32 option"
  en_servers :: "'v server_thread list option"

definition engine_new :: "node \<Rightarrow> node list \<Rightarrow> ('v, 'c) engine" where
  "engine_new nd nodes = \<lparr>en_partitions = [], en_node = nd, en_nodes = nodes, en_mapper = None, en_mailbox = None,
     en_sender = None, en_blocker = None, en_helper = None, en_servers = None\<rparr>"

text \<open>A null pointer that is used without a check.\<close>

abbreviation null_pointer :: failure where "null_pointer \<equiv> Invalid_argument"

abbreviation here :: "('v, 'c) engine \<Rightarrow> u32" where "here e \<equiv> node_id (en_node e)"

section \<open>Starting\<close>

definition create_id_mapper :: "int \<Rightarrow> ('v, 'c) engine \<Rightarrow> ('v, 'c) engine res" where
  "create_id_mapper per_node e =
     bind_res (im_init per_node (im_new (en_nodes e))) (\<lambda>m. Inr (e\<lparr>en_mapper := Some m\<rparr>))"

definition create_mailbox :: "('v, 'c) engine \<Rightarrow> ('v, 'c) engine res" where
  "create_mailbox e =
     bind_res (mb_new (en_node e) (en_nodes e)) (\<lambda>mb.
     check_that (en_mapper e \<noteq> None) (Check_failed ''Mailbox'') (Inr (e\<lparr>en_mailbox := Some mb\<rparr>)))"

definition start_sender :: "('v, 'c) engine \<Rightarrow> ('v, 'c) engine" where
  "start_sender e = e\<lparr>en_sender := Some []\<rparr>"

definition start_server_threads :: "('v, 'c) engine \<Rightarrow> ('v, 'c) engine res" where
  "start_server_threads e =
     check_that (en_sender e \<noteq> None) (Check_failed ''StartServerThreads'')
     (bind_res (of_opt (Check_failed ''StartServerThreads'') (en_mailbox e)) (\<lambda>mb.
      bind_res (of_opt null_pointer (en_mapper e)) (\<lambda>m.
      let ids = servers_for (here e) m; servers = server_thread_group ids in
      check_that (ids \<noteq> []) (Check_failed ''StartServerThreads'')
      (bind_res (fold_res (\<lambda>srv. mb_register (server_id srv) (unat (server_id srv))) servers mb) (\<lambda>mb.
       Inr (e\<lparr>en_servers := Some servers, en_mailbox := Some mb\<rparr>))))))"

definition start_worker_helper_threads :: "('v, 'c) engine \<Rightarrow> ('v, 'c) engine res" where
  "start_worker_helper_threads e =
     bind_res (of_opt (Check_failed ''StartWorkerHelperThreads'') (en_mapper e)) (\<lambda>m.
     bind_res (of_opt (Check_failed ''StartWorkerHelperThreads'') (en_mailbox e)) (\<lambda>mb.
     let ids = helpers_for (here e) m in
     check_that (length ids = 1) (Check_failed ''StartWorkerHelperThreads'')
     (bind_res (mb_register (ids ! 0) (unat (ids ! 0)) mb) (\<lambda>mb.
      Inr (e\<lparr>en_blocker := Some ab_new, en_helper := Some (ids ! 0), en_mailbox := Some mb\<rparr>)))))"

definition start_mailbox :: "('v, 'c) engine \<Rightarrow> ('v, 'c) engine res" where
  "start_mailbox e =
     bind_res (of_opt (Check_failed ''StartMailbox'') (en_mailbox e)) (\<lambda>mb.
       Inr (e\<lparr>en_mailbox := Some (mb_connect_all mb)\<rparr>))"

definition start_everything :: "int \<Rightarrow> ('v, 'c) engine \<Rightarrow> ('v, 'c) engine res" where
  "start_everything per_node e =
     bind_res (create_id_mapper per_node e) (\<lambda>e.
     bind_res (create_mailbox e) (\<lambda>e.
     bind_res (start_server_threads (start_sender e)) (\<lambda>e.
     bind_res (start_worker_helper_threads e) start_mailbox)))"

section \<open>Stopping\<close>

text \<open>
  The mailbox sends itself; its receiving thread gets \<open>arrived\<close> and \<open>later\<close> from the network, as in
  \<open>Mailbox_Stop\<close>, and the first results say whether the waits end and what was sent.  Each other step gives the
  queue it pushes its last message to; the join that follows is the end of the loop that reads it.
\<close>

definition stop_mailbox ::
  "meta \<Rightarrow> message list \<Rightarrow> message list \<Rightarrow> ('v, 'c) engine \<Rightarrow> queues \<Rightarrow> (bool \<times> message list \<times> ('v, 'c) engine \<times> queues) res"
where
  "stop_mailbox junk arrived later e qs =
     bind_res (of_opt (Check_failed ''StopMailbox'') (en_mailbox e)) (\<lambda>mb.
     bind_res (mb_stop junk arrived later (mb, qs)) (\<lambda>(sent, (mb, qs), over).
       Inr (over, sent, e\<lparr>en_mailbox := Some mb\<rparr>, qs)))"

definition stop_sender :: "meta \<Rightarrow> ('v, 'c) engine \<Rightarrow> ('v, 'c) engine res" where
  "stop_sender junk e =
     bind_res (of_opt (Check_failed ''StopSender'') (en_sender e)) (\<lambda>q.
       Inr (e\<lparr>en_sender := Some (sender_stop junk q)\<rparr>))"

definition stop_everything ::
  "meta \<Rightarrow> message list \<Rightarrow> message list \<Rightarrow> ('v, 'c) engine \<Rightarrow> queues \<Rightarrow> (bool \<times> message list \<times> ('v, 'c) engine \<times> queues) res"
where
  "stop_everything junk arrived later e qs =
     bind_res (stop_mailbox junk arrived later e qs) (\<lambda>(over, sent, e, qs).
     if \<not> over then Inr (False, sent, e, qs)
     else
       bind_res (stop_sender junk e) (\<lambda>e.
       check_that (en_servers e \<noteq> None) (Check_failed ''StopServerThreads'')
       (check_that (en_helper e \<noteq> None) (Check_failed ''StopWorkerHelperThreads'') (Inr (True, sent, e, qs)))))"

definition engine_barrier ::
  "meta \<Rightarrow> message list \<Rightarrow> ('v, 'c) engine \<Rightarrow> queues \<Rightarrow> (bool \<times> message list \<times> ('v, 'c) engine \<times> queues) res"
where
  "engine_barrier junk arrived e qs =
     bind_res (of_opt (Check_failed ''Barrier'') (en_mailbox e)) (\<lambda>mb.
     bind_res (mb_barrier junk arrived (mb, qs)) (\<lambda>(sent, (mb, qs), over, gone).
       Inr (over, sent, e\<lparr>en_mailbox := Some mb\<rparr>, qs)))"

section \<open>Tables\<close>

definition register_range_partition ::
  "u32 \<Rightarrow> range list \<Rightarrow> ('v, 'c) engine \<Rightarrow> ('v, 'c) engine res"
where
  "register_range_partition tid ranges e =
     bind_res (of_opt (Check_failed ''RegisterRangePartitionManager'') (en_mapper e)) (\<lambda>m.
     check_that (length ranges = length (all_servers m)) (Check_failed ''RegisterRangePartitionManager'')
     (bind_res (pm_new ranges (all_servers m)) (\<lambda>pm.
      check_that (om_get (en_partitions e) tid = None) (Check_failed ''RegisterRangePartitionManager'')
       (Inr (e\<lparr>en_partitions := om_set tid pm (en_partitions e)\<rparr>)))))"

text \<open>\<open>ranges[std::find(ids, id) - ids.begin()]\<close>\<close>

definition range_of :: "u32 list \<Rightarrow> range list \<Rightarrow> u32 \<Rightarrow> range res" where
  "range_of ids ranges sid = vec_at ranges (length (takeWhile (\<lambda>i. i \<noteq> sid) ids))"

definition make_storage ::
  "'v val_type \<Rightarrow> storage_type \<Rightarrow> u32 list \<Rightarrow> range list \<Rightarrow> u32 \<Rightarrow> 'v storage res"
where
  "make_storage V st ids ranges sid =
     (case st of
        Store_map \<Rightarrow> Inr (MapStorage Map.empty)
      | Store_vector \<Rightarrow>
          bind_res (range_of ids ranges sid) (\<lambda>r.
          bind_res (vector_storage_new V r) (\<lambda>s. Inr (VectorStorage s))))"

definition make_recorder ::
  "bool \<Rightarrow> recorder_type \<Rightarrow> int \<Rightarrow> int \<Rightarrow> u32 list \<Rightarrow> range list \<Rightarrow> u32 \<Rightarrow> recorder res"
where
  "make_recorder debug rt stale spec ids ranges sid =
     (case rt of
        Rec_none \<Rightarrow> Inl (Check_failed ''CreateTable'')
      | Rec_map \<Rightarrow> Inr (MapRecorder (map_recorder_new (to_u32 stale) (to_u32 spec)))
      | Rec_vector \<Rightarrow>
          bind_res (range_of ids ranges sid) (\<lambda>r.
          bind_res (vector_recorder_new debug (to_u32 stale) (to_u32 spec) r) (\<lambda>v. Inr (VectorRecorder v))))"

text \<open>\<open>junk\<close> is the \<open>min_clock_\<close> that the constructor of the tracker leaves uninitialised.\<close>

definition make_model ::
  "bool \<Rightarrow> int \<Rightarrow> u32 \<Rightarrow> model_type \<Rightarrow> int \<Rightarrow> int \<Rightarrow> recorder_type \<Rightarrow> u32 list \<Rightarrow> range list \<Rightarrow> u32 \<Rightarrow> 'v storage \<Rightarrow> 'v model res"
where
  "make_model debug junk tid mt stale spec rt ids ranges sid st =
     (let pt = \<lparr>progresses = [], min_clock = junk\<rparr> in
      case mt of
        SSP \<Rightarrow> Inr (SspModel (ssp_new tid st stale pt))
      | BSP \<Rightarrow> Inr (BspModel (bsp_new tid st pt))
      | ASP \<Rightarrow> Inr (AspModel (asp_new tid st pt))
      | SparseSSP \<Rightarrow>
          bind_res (make_recorder debug rt stale spec ids ranges sid) (\<lambda>r.
            Inr (SparseSspModel (sparse_new tid st r stale spec pt))))"

definition create_on_server ::
  "bool \<Rightarrow> int \<Rightarrow> 'v val_type \<Rightarrow> u32 \<Rightarrow> range list \<Rightarrow> model_type \<Rightarrow> storage_type \<Rightarrow> int \<Rightarrow> int \<Rightarrow> recorder_type
     \<Rightarrow> u32 list \<Rightarrow> 'v server_thread \<Rightarrow> 'v server_thread res"
where
  "create_on_server debug junk V tid ranges mt st stale spec rt ids srv =
     bind_res (make_storage V st ids ranges (server_id srv)) (\<lambda>storage.
     bind_res (make_model debug junk tid mt stale spec rt ids ranges (server_id srv) storage) (\<lambda>m.
       register_model tid V m srv))"

definition create_table ::
  "bool \<Rightarrow> int \<Rightarrow> 'v val_type \<Rightarrow> u32 \<Rightarrow> range list \<Rightarrow> model_type \<Rightarrow> storage_type \<Rightarrow> int \<Rightarrow> int \<Rightarrow> recorder_type
     \<Rightarrow> ('v, 'c) engine \<Rightarrow> ('v, 'c) engine res"
where
  "create_table debug junk V tid ranges mt st stale spec rt e =
     bind_res (register_range_partition tid ranges e) (\<lambda>e.
     bind_res (of_opt (Check_failed ''CreateTable'') (en_servers e)) (\<lambda>servers.
     bind_res (of_opt (Check_failed ''CreateTable'') (en_mapper e)) (\<lambda>m.
     check_that (length ranges = length (all_servers m)) (Check_failed ''CreateTable'')
     (bind_res (map_res (create_on_server debug junk V tid ranges mt st stale spec rt (all_servers m)) servers)
        (\<lambda>servers. Inr (e\<lparr>en_servers := Some servers\<rparr>))))))"

text \<open>
  \<open>InitTable\<close>: the queue at \<open>q\<close> is the local variable that receives the replies; \<open>replies\<close> is
  what arrives on it.  The result says whether the wait for the replies ends.
\<close>

definition reset_message :: "meta \<Rightarrow> u32 \<Rightarrow> u32 \<Rightarrow> u32 list \<Rightarrow> u32 \<Rightarrow> message" where
  "reset_message junk tid ident workers srv =
     add_data (bytes_of_keys workers)
       \<lparr>meta_of = junk\<lparr>mflag := kResetWorkerInModel, model_id := to_i32 tid, sender := to_i32 ident, recver := to_i32 srv\<rparr>,
        data_of = []\<rparr>"

fun await_resets :: "u32 \<Rightarrow> nat \<Rightarrow> message tsq \<Rightarrow> bool res" where
  "await_resets tid 0 q = Inr True"
| "await_resets tid (Suc n) [] = Inr False"
| "await_resets tid (Suc n) (reply # q) =
     check_that (msg_flag reply = kResetWorkerInModel) (Check_failed ''InitTable'')
     (check_that (to_u32 (msg_model reply) = tid) (Check_failed ''InitTable'') (await_resets tid n q))"

definition init_table_send ::
  "meta \<Rightarrow> nat \<Rightarrow> u32 \<Rightarrow> u32 list \<Rightarrow> u32 list \<Rightarrow> ('v, 'c) engine \<Rightarrow> (u32 \<times> ('v, 'c) engine) res"
where
  "init_table_send junk q tid workers servers e =
     bind_res (of_opt (Check_failed ''InitTable'') (en_mapper e)) (\<lambda>m.
     bind_res (of_opt (Check_failed ''InitTable'') (en_mailbox e)) (\<lambda>mb.
     bind_res (allocate_worker (here e) m) (\<lambda>(ident, m).
     bind_res (mb_register ident q mb) (\<lambda>mb.
     bind_res (of_opt null_pointer (en_sender e)) (\<lambda>sq.
       Inr (ident, e\<lparr>en_mapper := Some m, en_mailbox := Some mb,
                  en_sender := Some (fold (\<lambda>srv. tsq_push (reset_message junk tid ident workers srv)) servers sq)\<rparr>))))))"

definition init_table_end :: "u32 \<Rightarrow> ('v, 'c) engine \<Rightarrow> ('v, 'c) engine res" where
  "init_table_end ident e =
     bind_res (of_opt null_pointer (en_mailbox e)) (\<lambda>mb.
     bind_res (mb_deregister ident mb) (\<lambda>mb.
     bind_res (of_opt null_pointer (en_mapper e)) (\<lambda>m.
     bind_res (deallocate_worker (here e) ident m) (\<lambda>m.
       Inr (e\<lparr>en_mapper := Some m, en_mailbox := Some mb\<rparr>)))))"

definition init_table ::
  "meta \<Rightarrow> nat \<Rightarrow> message tsq \<Rightarrow> u32 \<Rightarrow> u32 list \<Rightarrow> ('v, 'c) engine \<Rightarrow> (bool \<times> ('v, 'c) engine) res"
where
  "init_table junk q replies tid workers e =
     bind_res (of_opt (Check_failed ''InitTable'') (en_mapper e)) (\<lambda>m.
     check_that (en_mailbox e \<noteq> None) (Check_failed ''InitTable'')
     (let servers = servers_for (here e) m in
      if servers = [] then Inr (True, e)
      else bind_res (init_table_send junk q tid workers servers e) (\<lambda>(ident, e).
           bind_res (await_resets tid (length servers) replies) (\<lambda>over.
             if over then bind_res (init_table_end ident e) (\<lambda>e. Inr (True, e)) else Inr (False, e)))))"

section \<open>Tasks\<close>

record info =
  local_id :: u32
  worker_id :: u32
  thread_id :: u32
  info_partitions :: "(u32, partition_manager) omap"

definition info_debug_string :: "info \<Rightarrow> string" where
  "info_debug_string i = ''Info: {'' @ ''local_id:'' @ dec_nat (unat (local_id i)) @ '', thread_id:'' @ dec_nat (unat (thread_id i))
     @ '', worker_id:'' @ dec_nat (unat (worker_id i)) @ ''}''"

definition info_kv_client_table ::
  "'v val_type \<Rightarrow> u32 \<Rightarrow> info \<Rightarrow> 'v client app_blocker \<Rightarrow> ('v client app_blocker \<times> 'v client) res"
where
  "info_kv_client_table V tid i ab =
     bind_res (of_opt (Check_failed ''CreateKVClientTable'') (om_get (info_partitions i) tid)) (\<lambda>pm.
       Inr (kct_new V (thread_id i) tid (Some pm) ab))"

definition info_simple_table :: "u32 \<Rightarrow> info \<Rightarrow> 'v simple_table res" where
  "info_simple_table tid i =
     bind_res (of_opt (Check_failed ''CreateSimpleKVTable'') (om_get (info_partitions i) tid)) (\<lambda>pm.
       Inr (skt_new (thread_id i) tid (Some pm)))"

definition info_sparse_table ::
  "'v val_type \<Rightarrow> u32 \<Rightarrow> u32 \<Rightarrow> u32 list list \<Rightarrow> info \<Rightarrow> 'v sparse_client app_blocker \<Rightarrow> 'v sparse_state res"
where
  "info_sparse_table V tid speculation keys i ab =
     bind_res (of_opt (Check_failed ''CreateSparseKVClientTable'') (om_get (info_partitions i) tid)) (\<lambda>pm.
       sc_new V (thread_id i) tid (Some pm) speculation keys ab)"

record 'r ml_task =
  ml_func :: "(info \<Rightarrow> 'r) option"
  ml_workers :: "worker_alloc list"
  ml_tables :: "u32 list"

definition run_lambda :: "'r ml_task \<Rightarrow> info \<Rightarrow> 'r res" where
  "run_lambda task i = bind_res (of_opt Bad_function_call (ml_func task)) (\<lambda>f. Inr (f i))"

definition is_setup :: "'r ml_task \<Rightarrow> bool" where
  "is_setup task \<longleftrightarrow> ml_func task \<noteq> None \<and> ml_workers task \<noteq> [] \<and> ml_tables task \<noteq> []"

fun init_tables ::
  "meta \<Rightarrow> nat \<Rightarrow> (nat \<Rightarrow> message tsq) \<Rightarrow> nat \<Rightarrow> u32 list \<Rightarrow> u32 list \<Rightarrow> ('v, 'c) engine \<Rightarrow> (bool \<times> ('v, 'c) engine) res"
where
  "init_tables junk q replies k [] workers e = Inr (True, e)"
| "init_tables junk q replies k (t # ts) workers e =
     bind_res (init_table junk q (replies k) t workers e) (\<lambda>(over, e).
       if over then init_tables junk q replies (Suc k) ts workers e else Inr (False, e))"

text \<open>The partition managers of the tables of the task, and the worker that gets local number \<open>i\<close>.\<close>

definition task_partitions :: "u32 list \<Rightarrow> ('v, 'c) engine \<Rightarrow> (u32, partition_manager) omap res" where
  "task_partitions tables e =
     fold_res (\<lambda>t acc. bind_res (of_opt (Check_failed ''Run'') (om_get (en_partitions e) t)) (\<lambda>pm.
       Inr (om_set t pm acc))) tables []"

definition spawn_worker ::
  "(u32, partition_manager) omap \<Rightarrow> nat \<times> u32 \<times> u32 \<Rightarrow> info list \<times> ('v, 'c) engine \<Rightarrow> (info list \<times> ('v, 'c) engine) res"
where
  "spawn_worker pms = (\<lambda>(i, t, w) (infos, e).
     bind_res (of_opt null_pointer (en_mailbox e)) (\<lambda>mb.
     bind_res (of_opt null_pointer (en_helper e)) (\<lambda>h.
     bind_res (mb_register t (unat h) mb) (\<lambda>mb.
       Inr (infos @ [\<lparr>local_id = of_nat i, worker_id = w, thread_id = t, info_partitions = pms\<rparr>],
            e\<lparr>en_mailbox := Some mb\<rparr>)))))"

definition spawn_workers ::
  "u32 list \<Rightarrow> worker_spec \<Rightarrow> ('v, 'c) engine \<Rightarrow> (info list \<times> ('v, 'c) engine) res"
where
  "spawn_workers tables ws e =
     (if has_local_workers (here e) ws then
        bind_res (local_threads (here e) ws) (\<lambda>threads.
        bind_res (local_workers (here e) ws) (\<lambda>workers.
        check_that (length threads = length workers) (Check_failed ''Run'')
        (bind_res (task_partitions tables e) (\<lambda>pms.
           fold_res (spawn_worker pms) (zip [0..<length threads] (zip threads workers)) ([], e)))))
      else Inr ([], e))"

text \<open>
  \<open>Run\<close>: the results of the lambda for the local workers, \<open>None\<close> when a wait does not end, and what the barrier
  sends; \<open>arrived\<close> is what the receiving thread gets while \<open>Run\<close> is in the barrier.
\<close>

definition engine_run ::
  "meta \<Rightarrow> nat \<Rightarrow> (nat \<Rightarrow> message tsq) \<Rightarrow> message list \<Rightarrow> 'r ml_task \<Rightarrow> ('v, 'c) engine \<Rightarrow> queues
    \<Rightarrow> ('r list option \<times> message list \<times> ('v, 'c) engine \<times> queues) res"
where
  "engine_run junk q replies arrived task e qs =
     check_that (is_setup task) (Check_failed ''Run'')
     (bind_res (of_opt (Check_failed ''AllocateWorkers'') (en_mapper e)) (\<lambda>m.
      bind_res (allocate_workers (ml_workers task) m) (\<lambda>(ws, m).
      bind_res (init_tables junk q replies 0 (ml_tables task) (ws_thread_ids ws) (e\<lparr>en_mapper := Some m\<rparr>)) (\<lambda>(over, e).
        if \<not> over then Inr (None, [], e, qs)
        else
          bind_res (engine_barrier junk arrived e qs) (\<lambda>(over, sent, e, qs).
          if \<not> over then Inr (None, sent, e, qs)
          else
            bind_res (spawn_workers (ml_tables task) ws e) (\<lambda>(infos, e).
            bind_res (map_res (run_lambda task) infos) (\<lambda>rs. Inr (Some rs, sent, e, qs))))))))"

section \<open>The engine after the start\<close>

lemma server_thread_group_eq: "server_thread_group ids = map server_new ids"
proof -
  have "fold (\<lambda>sid ts. ts @ [server_new sid]) ids acc = acc @ map server_new ids" for acc :: "'a server_thread list"
    by (induction ids arbitrary: acc) simp_all
  then show ?thesis by (simp add: server_thread_group_def)
qed

lemma server_id_new [simp]: "server_id (server_new sid) = sid" "models (server_new sid) = []"
  by (simp_all add: server_new_def)

lemma fold_im_init_node:
  assumes "distinct (map node_id nds)"
    "\<forall>nd \<in> set nds. node_id nd < max_node_id \<and> servers_for (node_id nd) m = [] \<and> helpers_for (node_id nd) m = []"
  shows "\<exists>m'. fold_res (im_init_node k) nds m = Inr m'
    \<and> (\<forall>n. servers_for n m' = (if n \<in> node_id ` set nds then map (thread_of n) [0..<nat k] else servers_for n m))
    \<and> (\<forall>n. helpers_for n m' = (if n \<in> node_id ` set nds then [thread_of n 50] else helpers_for n m))"
  using assms
proof (induction nds arbitrary: m)
  case Nil
  then show ?case by simp
next
  case (Cons nd nds)
  let ?n = "node_id nd"
  define m1 where "m1 = m\<lparr>im_server := om_set ?n (map (thread_of ?n) [0..<nat k]) (im_server m),
    im_helper := om_set ?n [thread_of ?n 50] (im_helper m)\<rparr>"
  have one: "im_init_node k nd m = Inr m1"
    using Cons.prems(2) by (simp add: im_init_node_def Let_def m1_def thread_of_def[abs_def] helper_thread_id_def helpers_for_def)
  have s: "servers_for n m1 = (if n = ?n then map (thread_of n) [0..<nat k] else servers_for n m)"
    and h: "helpers_for n m1 = (if n = ?n then [thread_of n 50] else helpers_for n m)" for n
    by (simp_all add: m1_def servers_for_def helpers_for_def)
  have "distinct (map node_id nds)" using Cons.prems(1) by simp
  moreover have "\<forall>nd \<in> set nds. node_id nd < max_node_id \<and> servers_for (node_id nd) m1 = [] \<and> helpers_for (node_id nd) m1 = []"
    using Cons.prems by (auto simp: s h image_iff)
  ultimately obtain m' where m': "fold_res (im_init_node k) nds m1 = Inr m'"
    "\<forall>n. servers_for n m' = (if n \<in> node_id ` set nds then map (thread_of n) [0..<nat k] else servers_for n m1)"
    "\<forall>n. helpers_for n m' = (if n \<in> node_id ` set nds then [thread_of n 50] else helpers_for n m1)"
    using Cons.IH by blast
  then show ?case by (simp add: one s h)
qed

lemma register_servers:
  assumes "distinct ids" "\<forall>i \<in> set ids. om_get (mb_queue_map mb) i = None"
  shows "\<exists>mb'. fold_res (\<lambda>srv. mb_register (server_id srv) (unat (server_id srv))) (map server_new ids) mb = Inr mb'
    \<and> (\<forall>q. om_get (mb_queue_map mb') q = (if q \<in> set ids then Some (unat q) else om_get (mb_queue_map mb) q))
    \<and> mb_nodes mb' = mb_nodes mb \<and> mb_senders mb' = mb_senders mb \<and> mb_node mb' = mb_node mb
    \<and> mb_barrier_count mb' = mb_barrier_count mb"
  using assms
proof (induction ids arbitrary: mb)
  case Nil
  then show ?case by simp
next
  case (Cons i ids)
  let ?mb = "mb\<lparr>mb_queue_map := om_insert i (unat i) (mb_queue_map mb)\<rparr>"
  have "mb_register i (unat i) mb = Inr ?mb" using Cons.prems(2) by (simp add: mb_register_def)
  moreover have "\<forall>j \<in> set ids. om_get (mb_queue_map ?mb) j = None" using Cons.prems by auto
  note Cons.IH[OF _ this]
  ultimately show ?case using Cons.prems by auto
qed

definition engine_inv :: "('v, 'c) engine \<Rightarrow> bool" where
  "engine_inv e \<longleftrightarrow> (\<exists>m mb h srvs sq. en_mapper e = Some m \<and> en_mailbox e = Some mb \<and> en_helper e = Some h
     \<and> en_servers e = Some srvs \<and> en_sender e = Some sq
     \<and> im_inv m \<and> (\<forall>n. distinct (servers_for n m)) \<and> om_get (im_helper m) (here e) \<noteq> None
     \<and> srvs \<noteq> [] \<and> map server_id srvs = servers_for (here e) m \<and> h \<in> set (helpers_for (here e) m)
     \<and> (\<forall>qid. om_get (mb_queue_map mb) qid \<noteq> None \<longrightarrow> (\<exists>k. qid \<in> threads_on m k))
     \<and> (\<forall>sid \<in> set (servers_for (here e) m). om_get (mb_queue_map mb) sid = Some (unat sid))
     \<and> om_get (mb_queue_map mb) h = Some (unat h) \<and> mailbox_up mb)"

lemma set_fold_connect: "set (mb_senders (fold mb_connect nds mb)) = set (mb_senders mb) \<union> node_id ` set nds
    \<and> mb_queue_map (fold mb_connect nds mb) = mb_queue_map mb \<and> mb_nodes (fold mb_connect nds mb) = mb_nodes mb
    \<and> mb_node (fold mb_connect nds mb) = mb_node mb \<and> mb_barrier_count (fold mb_connect nds mb) = mb_barrier_count mb"
  by (induction nds arbitrary: mb) (auto simp: mb_connect_def set_insort_insert)

text \<open>\<open>StartEverything\<close>: given nodes with different ids below 1000, one of them its own, and 1 to 50
  server threads, the engine starts; its mailbox is connected to every node and has the queues of all
  local servers and of the helper, and the servers have no tables yet.\<close>

lemma engine_starts:
  assumes "distinct (map node_id nodes)" "nd \<in> set nodes" "list_all (\<lambda>n. node_id n < max_node_id) nodes" "0 < k" "k \<le> 50"
  shows "\<exists>e mb. start_everything k (engine_new nd nodes :: ('v, 'c) engine) = Inr e \<and> engine_inv e
    \<and> en_servers e = Some (map (server_new \<circ> thread_of (node_id nd)) [0..<nat k])
    \<and> en_mailbox e = Some mb \<and> set (mb_senders mb) = node_id ` set nodes"
proof -
  let ?n = "node_id nd" and ?h = "thread_of (node_id nd) 50"
  define ids where "ids = map (thread_of ?n) [0..<nat k]"
  have n: "?n \<in> node_id ` set nodes" "?n < max_node_id" using assms(2,3) by (auto simp: list_all_iff)
  have le: "to_u32 k \<le> helper_thread_id"
    using uint_to_u32[of k] assms(4,5) by (simp add: word_le_def helper_thread_id_def)
  have fresh: "\<forall>nd \<in> set nodes. node_id nd < max_node_id \<and> servers_for (node_id nd) (im_new nodes) = []
      \<and> helpers_for (node_id nd) (im_new nodes) = []"
    using assms(3) by (auto simp: list_all_iff im_new_def servers_for_def helpers_for_def)
  obtain m where m: "im_init k (im_new nodes) = Inr m"
    and sv: "\<forall>n. servers_for n m = (if n \<in> node_id ` set nodes then map (thread_of n) [0..<nat k] else [])"
    and h: "helpers_for ?n m = [?h]"
    using fold_im_init_node[OF assms(1) fresh, of k] assms(4) le n(1) by (auto simp: im_init_def im_new_def servers_for_def)
  have s: "servers_for ?n m = ids" using sv n(1) by (simp add: ids_def)
  have dist: "distinct (servers_for l m)" for l
  proof (cases "l \<in> node_id ` set nodes")
    case True
    then have "l < max_node_id" using assms(3) by (auto simp: list_all_iff)
    then show ?thesis using assms(5) thread_of_inj[of l _ l] sv True by (auto simp: distinct_map inj_on_def)
  qed (simp add: sv)
  have im: "im_inv m" by (rule im_init_inv[OF im_new_inv m]) (use assms(4,5) in \<open>simp add: in_i32_def\<close>)
  have hid: "?h \<notin> set ids"
    using assms(5) thread_of_inj[OF n(2) _ n(2)] by (auto simp: ids_def)
  let ?mb = "\<lparr>mb_node = nd, mb_nodes = nodes, mb_queue_map = [], mb_senders = [], mb_barrier_count = 0\<rparr>"
  have mb: "mb_new nd nodes = Inr ?mb" using assms(1,2) by (cases nodes) (auto simp: mb_new_def)
  obtain mb' where mb': "fold_res (\<lambda>srv. mb_register (server_id srv) (unat (server_id srv))) (map server_new ids :: 'v server_thread list) ?mb = Inr mb'"
    "\<forall>q. om_get (mb_queue_map mb') q = (if q \<in> set ids then Some (unat q) else None)" "mb_nodes mb' = nodes" "mb_senders mb' = []"
    "mb_node mb' = nd" "mb_barrier_count mb' = 0"
    using register_servers[OF dist[of ?n, unfolded s], of ?mb, where 'a = 'v] by auto
  let ?mb2 = "mb'\<lparr>mb_queue_map := om_insert ?h (unat ?h) (mb_queue_map mb')\<rparr>"
  have reg: "mb_register ?h (unat ?h) mb' = Inr ?mb2" using mb'(2) hid by (simp add: mb_register_def)
  let ?e = "\<lparr>en_partitions = [], en_node = nd, en_nodes = nodes, en_mapper = Some m, en_mailbox = Some (mb_connect_all ?mb2),
     en_sender = Some [], en_blocker = Some ab_new, en_helper = Some ?h, en_servers = Some (map server_new ids)\<rparr>"
  have ne: "ids \<noteq> []" using assms(4) by (simp add: ids_def)
  have run: "start_everything k (engine_new nd nodes :: ('v, 'c) engine) = Inr ?e"
    using ne by (simp add: start_everything_def create_id_mapper_def create_mailbox_def start_sender_def start_server_threads_def
      start_worker_helper_threads_def start_mailbox_def engine_new_def m mb Let_def s h server_thread_group_eq mb'(1) reg)
  have con: "set (mb_senders (mb_connect_all ?mb2)) = node_id ` set nodes"
    and qm: "mb_queue_map (mb_connect_all ?mb2) = om_insert ?h (unat ?h) (mb_queue_map mb')"
    using set_fold_connect[of nodes ?mb2] mb'(3,4) by (simp_all add: mb_connect_all_def)
  have up: "mailbox_up (mb_connect_all ?mb2)"
    using set_fold_connect[of nodes ?mb2] mb'(3-6) assms(2) by (auto simp: mailbox_up_def mb_connect_all_def)
  have hm: "om_get (im_helper m) ?n \<noteq> None" using h by (cases "om_get (im_helper m) ?n") (simp_all add: helpers_for_def)
  have "engine_inv ?e"
    unfolding engine_inv_def using im dist hm ne mb'(2) hid up
    by (auto simp: s h qm threads_on_def o_def intro!: exI[of _ ?n])
  then show ?thesis using run con by (auto simp: ids_def)
qed

lemma engine_starts_witness:
  "\<exists>e mb. start_everything 2 (engine_new \<lparr>node_id = 1, hostname = ''b'', port = 80\<rparr>
      [\<lparr>node_id = 0, hostname = ''a'', port = 80\<rparr>, \<lparr>node_id = 1, hostname = ''b'', port = 80\<rparr>] :: (u32, unit) engine) = Inr e
    \<and> engine_inv e \<and> en_mailbox e = Some mb \<and> set (mb_senders mb) = {0, 1}"
  using engine_starts[of "[\<lparr>node_id = 0, hostname = ''a'', port = 80\<rparr>, \<lparr>node_id = 1, hostname = ''b'', port = 80\<rparr>]"
    "\<lparr>node_id = 1, hostname = ''b'', port = 80\<rparr>" 2, where 'v = u32 and 'c = unit]
  by (auto simp: max_node_id_def)

text \<open>Two nodes with a server each; this is node 1.\<close>

definition demo_nodes :: "node list" where
  "demo_nodes = [\<lparr>node_id = 0, hostname = ''a'', port = 80\<rparr>, \<lparr>node_id = 1, hostname = ''b'', port = 80\<rparr>]"

definition demo_box :: mailbox where
  "demo_box = \<lparr>mb_node = \<lparr>node_id = 1, hostname = ''b'', port = 80\<rparr>, mb_nodes = demo_nodes,
       mb_queue_map = [(1000, 1000), (1050, 1050)], mb_senders = [0, 1], mb_barrier_count = 0\<rparr>"

definition demo_engine :: "(u32, unit) engine" where
  "demo_engine = \<lparr>en_partitions = [], en_node = \<lparr>node_id = 1, hostname = ''b'', port = 80\<rparr>, en_nodes = demo_nodes,
     en_mapper = Some demo_mapper, en_mailbox = Some demo_box,
     en_sender = Some [], en_blocker = Some ab_new, en_helper = Some 1050, en_servers = Some [server_new 1000]\<rparr>"

lemma demo_engine_inv: "engine_inv demo_engine"
  using demo_mapper_inv
  by (auto simp: engine_inv_def demo_engine_def demo_box_def demo_nodes_def mailbox_up_def threads_on_def demo_mapper_def servers_for_def helpers_for_def
    intro!: exI[of _ 1])

section \<open>Tables\<close>

fun model_storage :: "'v model \<Rightarrow> 'v storage" where
  "model_storage (AspModel s) = asp_storage s"
| "model_storage (BspModel s) = bsp_storage s"
| "model_storage (SspModel s) = ssp_storage s"
| "model_storage (SparseSspModel s) = sp_storage s"

fun model_ident :: "'v model \<Rightarrow> u32" where
  "model_ident (AspModel s) = asp_id s"
| "model_ident (BspModel s) = bsp_id s"
| "model_ident (SspModel s) = ssp_id s"
| "model_ident (SparseSspModel s) = sp_id s"

lemma distinct_all_servers:
  assumes inv: "im_inv m" and d: "\<forall>n. distinct (servers_for n m)"
  shows "distinct (all_servers m)"
proof -
  have wf: "om_wf (im_server m)" using inv by (simp add: im_inv_def)
  have "distinct l \<and> (\<forall>t \<in> set l. node_for_thread t = n)" if "(n, l) \<in> set (im_server m)" for n l
  proof -
    have l: "servers_for n m = l" using that om_mem_iff[OF wf] by (auto simp: servers_for_def)
    then have "set l \<subseteq> threads_on m n" by (auto simp: threads_on_def)
    then show ?thesis using threads_on_node[OF inv] d l by blast
  qed
  moreover have "distinct (map fst (im_server m))" by (rule om_wf_distinct[OF wf])
  moreover have "\<forall>(n, l) \<in> set L. distinct l \<and> (\<forall>t \<in> set l. node_for_thread t = n) \<Longrightarrow> distinct (map fst L) \<Longrightarrow>
      distinct (concat (map snd L))" for L :: "(u32, u32 list) omap"
    by (induction L) fastforce+
  ultimately show ?thesis unfolding all_servers_def by blast
qed

lemma length_takeWhile_nth: "distinct xs \<Longrightarrow> i < length xs \<Longrightarrow> length (takeWhile (\<lambda>x. x \<noteq> xs ! i) xs) = i"
proof (induction xs arbitrary: i)
  case Nil
  then show ?case by simp
next
  case (Cons x xs)
  then show ?case by (cases i) auto
qed

lemma make_storage_serves:
  assumes "distinct ids" "length ranges = length ids" "i < length ids" "make_storage V st ids ranges (ids ! i) = Inr s"
  shows "storage_inv s" "in_range (ranges ! i) k \<Longrightarrow> storage_serves s k"
proof -
  have "range_of ids ranges (ids ! i) = Inr (ranges ! i)"
    using assms(1-3) by (simp add: range_of_def length_takeWhile_nth vec_at_def)
  then show "storage_inv s" "in_range (ranges ! i) k \<Longrightarrow> storage_serves s k"
    using assms(4) by (auto simp: make_storage_def vector_storage_new_def vector_wf_def res_simps split: storage_type.splits)
qed

text \<open>What the invariant of a model says beside its tracker, which is set up by the reset.\<close>

fun model_wf :: "'v model \<Rightarrow> bool" where
  "model_wf (AspModel s) = storage_inv (asp_storage s)"
| "model_wf (BspModel s) = (storage_inv (bsp_storage s) \<and> (\<forall>m \<in> set (get_buffer s). msg_flag m = kGet))"
| "model_wf (SspModel s) = (storage_inv (ssp_storage s) \<and> om_wf (ssp_buffer s))"
| "model_wf (SparseSspModel s) = storage_inv (sp_storage s)"

lemma make_model_props:
  "make_model debug junk tid mt stale spec rt ids ranges sid st = Inr m \<Longrightarrow>
    model_storage m = st \<and> model_ident m = tid \<and> (storage_inv st \<longrightarrow> model_wf m)"
  by (auto simp: make_model_def Let_def res_simps asp_new_def bsp_new_def ssp_new_def sparse_new_def pb_all_def split: model_type.splits)

text \<open>A table that has just been created at a server, or that is in use.\<close>

definition has_table :: "u32 \<Rightarrow> 'v val_type \<Rightarrow> (u32 \<Rightarrow> bool) \<Rightarrow> 'v server_thread \<Rightarrow> bool" where
  "has_table tid V keys srv \<longleftrightarrow> (\<exists>m. get_model tid srv = Inr (V, m) \<and> model_ident m = tid
     \<and> model_wf m \<and> (\<forall>k. keys k \<longrightarrow> storage_serves (model_storage m) k))"

lemma create_on_server_has:
  assumes "distinct ids" "length ranges = length ids" "i < length ids" "ids ! i = server_id srv"
    "create_on_server debug junk V tid ranges mt st stale spec rt ids srv = Inr srv'"
  shows "server_id srv' = server_id srv \<and> has_table tid V (in_range (ranges ! i)) srv'"
proof -
  obtain s m where s: "make_storage V st ids ranges (ids ! i) = Inr s"
    and m: "make_model debug junk tid mt stale spec rt ids ranges (server_id srv) s = Inr m"
    and r: "om_get (models srv) tid = None" "srv' = srv\<lparr>models := om_insert tid (V, m) (models srv)\<rparr>"
    using assms(5) by (auto simp: create_on_server_def register_model_def assms(4) res_simps)
  show ?thesis
    using make_storage_serves[OF assms(1-3) s] make_model_props[OF m] r(1)
    by (simp add: r(2) has_table_def get_model_def)
qed

lemma create_table_cases:
  assumes "engine_inv e" "create_table debug junk V tid ranges mt st stale spec rt e = Inr e'"
  obtains m srvs srvs' where "en_mapper e = Some m" "en_servers e = Some srvs"
    "length ranges = length (all_servers m)" "distinct (all_servers m)" "om_get (en_partitions e) tid = None"
    "map_res (create_on_server debug junk V tid ranges mt st stale spec rt (all_servers m)) srvs = Inr srvs'"
    "e' = e\<lparr>en_partitions := om_set tid \<lparr>pm_ranges = ranges, pm_server_ids = all_servers m\<rparr> (en_partitions e),
            en_servers := Some srvs'\<rparr>"
proof -
  obtain m where m: "en_mapper e = Some m" "distinct (all_servers m)"
    using assms(1) distinct_all_servers by (auto simp: engine_inv_def)
  show thesis
    using that m assms(2)
    by (auto simp: create_table_def register_range_partition_def pm_new_def res_simps)
qed

lemma create_table_tables:
  assumes "engine_inv e" "create_table debug junk V tid ranges mt st stale spec rt e = Inr e'"
  shows "\<exists>m srvs'. en_mapper e = Some m \<and> en_servers e' = Some srvs'
    \<and> om_get (en_partitions e') tid = Some \<lparr>pm_ranges = ranges, pm_server_ids = all_servers m\<rparr>
    \<and> length ranges = length (all_servers m) \<and> distinct (all_servers m)
    \<and> (\<forall>srv \<in> set srvs'. \<exists>i < length ranges. all_servers m ! i = server_id srv \<and> has_table tid V (in_range (ranges ! i)) srv)
    \<and> engine_inv e'"
proof (rule create_table_cases[OF assms])
  fix m srvs srvs'
  assume m: "en_mapper e = Some m" "en_servers e = Some srvs"
    and l: "length ranges = length (all_servers m)" "distinct (all_servers m)"
    and r: "map_res (create_on_server debug junk V tid ranges mt st stale spec rt (all_servers m)) srvs = Inr srvs'"
    and e': "e' = e\<lparr>en_partitions := om_set tid \<lparr>pm_ranges = ranges, pm_server_ids = all_servers m\<rparr> (en_partitions e),
            en_servers := Some srvs'\<rparr>"
  have ids: "map server_id srvs = servers_for (here e) m" "om_wf (im_server m)"
    using assms(1) m by (auto simp: engine_inv_def im_inv_def)
  have all2: "list_all2 (\<lambda>srv srv'. server_id srv' = server_id srv
      \<and> (\<exists>i < length ranges. all_servers m ! i = server_id srv' \<and> has_table tid V (in_range (ranges ! i)) srv')) srvs srvs'"
    using r[unfolded map_res_Inr_iff]
  proof (rule list.rel_mono_strong)
    fix srv srv' assume srv: "srv \<in> set srvs" "create_on_server debug junk V tid ranges mt st stale spec rt (all_servers m) srv = Inr srv'"
    have "server_id srv \<in> set (servers_for (here e) m)" using srv(1) ids(1) by (metis image_eqI set_map)
    then have "server_id srv \<in> set (all_servers m)"
      using om_get_Some_mem[of "im_server m" "here e"]
      by (cases "om_get (im_server m) (here e)") (force simp: all_servers_def servers_for_def)+
    then obtain i where "i < length (all_servers m)" "all_servers m ! i = server_id srv" by (auto simp: in_set_conv_nth)
    then show "server_id srv' = server_id srv
      \<and> (\<exists>i < length ranges. all_servers m ! i = server_id srv' \<and> has_table tid V (in_range (ranges ! i)) srv')"
      using create_on_server_has[OF l(2,1) _ _ srv(2)] l(1) by metis
  qed
  then have same: "map server_id srvs' = map server_id srvs"
    by (induction rule: list_all2_induct) simp_all
  have "engine_inv e'" using assms(1) m same unfolding engine_inv_def e' by (cases srvs') auto
  moreover have "\<forall>srv \<in> set srvs'. \<exists>i < length ranges. all_servers m ! i = server_id srv \<and> has_table tid V (in_range (ranges ! i)) srv"
    using all2 by (auto simp: list_all2_conv_all_nth in_set_conv_nth)
  ultimately show ?thesis using m l by (auto simp: e')
qed

lemma ranges_cover:
  assumes "length ranges = length ids" "list_all (\<lambda>k. list_ex (\<lambda>r. in_range r k) ranges) keys"
  shows "\<forall>k \<in> set keys. \<exists>i < length ids. pm_owns \<lparr>pm_ranges = ranges, pm_server_ids = ids\<rparr> i k"
proof
  fix k assume "k \<in> set keys"
  then obtain r where "r \<in> set ranges" "in_range r k" using assms(2) by (auto simp: list_all_iff list_ex_iff)
  then show "\<exists>i < length ids. pm_owns \<lparr>pm_ranges = ranges, pm_server_ids = ids\<rparr> i k"
    using assms(1) by (auto simp: pm_owns_def in_set_conv_nth)
qed

text \<open>The piece for the server of a range has only keys of that range.\<close>

lemma piece_in_range:
  assumes "\<forall>(i, b, e) \<in> set pieces. i < length ids \<and> segment b e keys = filter (pm_owns \<lparr>pm_ranges = ranges, pm_server_ids = ids\<rparr> i) keys"
    and "distinct ids" "length ranges = length ids" "i < length ranges" "ids ! i = sid"
    and "(sid, kv) \<in> set (map (\<lambda>(i, b, e). (ids ! i, \<lparr>kv_keys = segment b e keys, kv_vals = vals b e\<rparr>)) pieces)" "k \<in> set (kv_keys kv)"
  shows "in_range (ranges ! i) k"
proof -
  obtain j b e where p: "(j, b, e) \<in> set pieces" "ids ! j = sid" "kv_keys kv = segment b e keys" using assms(6) by auto
  then have j: "j < length ranges" "kv_keys kv = filter (pm_owns \<lparr>pm_ranges = ranges, pm_server_ids = ids\<rparr> j) keys" using assms(1,3) by auto
  then have "j = i" using assms(2-5) p(2) by (auto simp: distinct_conv_nth)
  then show ?thesis using assms(7) j(2) by (simp add: pm_owns_def)
qed

text \<open>C18. \<open>CreateTable\<close> and the partition manager agree: whatever sorted request on keys of the ranges a
  client slices, the piece that goes to a local server has only keys the storage of the new table at
  that server holds, for every kind of model, storage and recorder.\<close>

theorem create_table_routes:
  assumes "engine_inv e" "create_table debug junk V tid ranges mt st stale spec rt e = Inr e'"
    "en_servers e' = Some srvs" "om_get (en_partitions e') tid = Some pm"
    "ranges \<noteq> []" "contiguous (rbegin (hd ranges)) ranges"
    "kv_keys send \<noteq> []" "sorted (kv_keys send)" "list_all (\<lambda>k. list_ex (\<lambda>r. in_range r k) ranges) (kv_keys send)"
    "length (kv_vals send) = n * length (kv_keys send)"
  shows "\<exists>sliced. slice pm send = Inr sliced \<and> concat (map (kv_keys \<circ> snd) sliced) = kv_keys send
    \<and> (\<forall>srv \<in> set srvs. \<exists>m. get_model tid srv = Inr (V, m)
         \<and> (\<forall>kv. (server_id srv, kv) \<in> set sliced \<longrightarrow> list_all (storage_serves (model_storage m)) (kv_keys kv)))"
proof -
  obtain m where pm: "pm = \<lparr>pm_ranges = ranges, pm_server_ids = all_servers m\<rparr>"
    and l: "length ranges = length (all_servers m)" and d: "distinct (all_servers m)"
    and t: "\<forall>srv \<in> set srvs. \<exists>i < length ranges. all_servers m ! i = server_id srv \<and> has_table tid V (in_range (ranges ! i)) srv"
    using create_table_tables[OF assms(1,2)] assms(3,4) by auto
  have wf: "pm_wf pm" using assms(5,6) l by (simp add: pm_wf_def pm)
  have cover: "\<forall>k \<in> set (kv_keys send). \<exists>i < length (pm_server_ids pm). pm_owns pm i k"
    using ranges_cover[OF l assms(9)] by (simp add: pm)
  obtain pieces where sl: "slice pm send = Inr (map (\<lambda>(i, b, e). (pm_server_ids pm ! i,
            \<lparr>kv_keys = segment b e (kv_keys send), kv_vals = segment (b * n) (e * n) (kv_vals send)\<rparr>)) pieces)"
    and each: "\<forall>(i, b, e) \<in> set pieces. i < length (pm_server_ids pm)
             \<and> segment b e (kv_keys send) = filter (pm_owns pm i) (kv_keys send)"
    and all: "concat (map (\<lambda>(i, b, e). segment b e (kv_keys send)) pieces) = kv_keys send"
    using pm.cut_law[OF wf assms(7,8) cover assms(10)] by (auto simp: case_prod_beta)
  let ?sliced = "map (\<lambda>(i, b, e). (pm_server_ids pm ! i,
            \<lparr>kv_keys = segment b e (kv_keys send), kv_vals = segment (b * n) (e * n) (kv_vals send)\<rparr>)) pieces"
  have owned: "in_range (ranges ! i) k" if "i < length ranges" "all_servers m ! i = sid" "(sid, kv) \<in> set ?sliced" "k \<in> set (kv_keys kv)" for i sid kv k
    using piece_in_range[OF _ d l that(1,2) _ that(4)] each that(3) by (simp add: pm)
  show ?thesis
  proof (intro exI[of _ ?sliced] conjI ballI)
    show "slice pm send = Inr ?sliced" by (rule sl)
    have "map (kv_keys \<circ> snd) ?sliced = map (\<lambda>(i, b, e). segment b e (kv_keys send)) pieces" by auto
    then show "concat (map (kv_keys \<circ> snd) ?sliced) = kv_keys send" using all by (simp only:)
    fix srv assume "srv \<in> set srvs"
    then obtain i mdl where i: "i < length ranges" "all_servers m ! i = server_id srv"
      and mdl: "get_model tid srv = Inr (V, mdl)" "\<forall>k. in_range (ranges ! i) k \<longrightarrow> storage_serves (model_storage mdl) k"
      using t by (auto simp: has_table_def)
    show "\<exists>m. get_model tid srv = Inr (V, m)
         \<and> (\<forall>kv. (server_id srv, kv) \<in> set ?sliced \<longrightarrow> list_all (storage_serves (model_storage m)) (kv_keys kv))"
      using mdl owned[OF i] by (auto simp: list_all_iff)
  qed
qed

lemma demo_create:
  "\<exists>e'. create_table False 0 u32_val 7 (pm_ranges two_ranges) SSP Store_vector 2 0 Rec_none demo_engine = Inr e'
     \<and> om_get (en_partitions e') 7 = Some two_ranges \<and> en_servers e' \<noteq> None"
  by (simp add: create_table_def register_range_partition_def demo_engine_def all_servers_def demo_mapper_def
    two_ranges_def pm_new_def create_on_server_def make_storage_def range_of_def vec_at_def vector_storage_new_def
    make_model_def register_model_def Let_def)

theorem create_table_routes_witness:
  "\<exists>e' sliced. create_table False 0 u32_val 7 (pm_ranges two_ranges) SSP Store_vector 2 0 Rec_none demo_engine = Inr e'
     \<and> slice two_ranges \<lparr>kv_keys = [2, 4, 7], kv_vals = [20, 40, 70]\<rparr> = Inr sliced
     \<and> concat (map (kv_keys \<circ> snd) sliced) = [2, 4, 7]"
proof -
  obtain e' srvs where e': "create_table False 0 u32_val 7 (pm_ranges two_ranges) SSP Store_vector 2 0 Rec_none demo_engine = Inr e'"
    "om_get (en_partitions e') 7 = Some two_ranges" "en_servers e' = Some srvs"
    using demo_create by blast
  have "kv_keys (send :: u8 kvpairs) \<noteq> []" if "send = \<lparr>kv_keys = [2, 4, 7], kv_vals = [20, 40, 70]\<rparr>" for send
    using that by simp
  from create_table_routes[OF demo_engine_inv e'(1,3,2), of "\<lparr>kv_keys = [2, 4, 7], kv_vals = [20, 40, 70]\<rparr>" 1] e'(1)
  show ?thesis by (auto simp: two_ranges_def in_range_def)
qed

section \<open>Resetting a table\<close>

text \<open>A table whose tracker counts the given workers from zero: the invariant of the dense models then holds; for
  a sparse one this says that its storage is well formed, and nothing of its recorder.\<close>

definition table_ready :: "u32 \<Rightarrow> 'v val_type \<Rightarrow> u32 list \<Rightarrow> (u32 \<Rightarrow> bool) \<Rightarrow> 'v server_thread \<Rightarrow> bool" where
  "table_ready tid V workers keys srv \<longleftrightarrow> (\<exists>m pt. get_model tid srv = Inr (V, m) \<and> model_tracker m = pt_init workers pt
     \<and> model_wf m \<and> ((\<forall>s. m \<noteq> SparseSspModel s) \<longrightarrow> model_inv m)
     \<and> (\<forall>k. keys k \<longrightarrow> storage_serves (model_storage m) k))"

lemma model_inv_wf: "(\<And>s. m \<noteq> SparseSspModel s) \<Longrightarrow> pt_inv (model_tracker m) \<Longrightarrow> model_wf m \<Longrightarrow> model_inv m"
  by (cases m) (auto simp: asp_inv_def bsp_inv_def ssp_inv_def)

lemma model_reset_ok:
  assumes "length (data_of msg) = 1" "model_wf m"
  shows "\<exists>m'. model_reset_worker junk msg m = Inr (m', [reset_reply junk (model_ident m) msg])
    \<and> model_tracker m' = pt_init (keys_of (data_of msg ! 0)) (model_tracker m)
    \<and> model_wf m' \<and> model_storage m' = model_storage m \<and> (\<forall>s'. m' = SparseSspModel s' \<longrightarrow> (\<exists>s. m = SparseSspModel s))"
proof -
  have "reset_tracker who msg pt = Inr (pt_init (keys_of (data_of msg ! 0)) pt)" for who pt
    using assms(1) by (simp add: reset_tracker_Inr)
  then show ?thesis
    using assms(2)
    by (cases m) (simp_all add: lift_model_def asp_reset_worker_def bsp_reset_worker_def ssp_reset_worker_def sparse_reset_worker_def)
qed

lemma reset_message_sel [simp, msg_simps]:
  "msg_flag (reset_message junk tid ident workers srv) = kResetWorkerInModel"
  "msg_sender (reset_message junk tid ident workers srv) = to_i32 ident"
  "msg_recver (reset_message junk tid ident workers srv) = to_i32 srv"
  "msg_model (reset_message junk tid ident workers srv) = to_i32 tid"
  "data_of (reset_message junk tid ident workers srv) = [bytes_of_keys workers]"
  by (simp_all add: reset_message_def add_data_def)

lemma server_reset:
  assumes "has_table tid V keys srv"
  shows "\<exists>srv'. server_handle debug jk (reset_message junk tid ident workers sid) srv
      = Inr (srv', [reset_reply jk tid (reset_message junk tid ident workers sid)])
    \<and> server_id srv' = server_id srv \<and> table_ready tid V workers keys srv'"
proof -
  let ?msg = "reset_message junk tid ident workers sid"
  obtain m where m: "om_get (models srv) tid = Some (V, m)" "model_ident m = tid" "model_wf m"
    "\<forall>k. keys k \<longrightarrow> storage_serves (model_storage m) k"
    using assms by (auto simp: has_table_def get_model_def res_simps)
  obtain m' where m': "model_reset_worker jk ?msg m = Inr (m', [reset_reply jk tid ?msg])"
    "model_tracker m' = pt_init workers (model_tracker m)" "model_wf m'" "model_storage m' = model_storage m"
    using model_reset_ok[of ?msg m jk] m(2,3) by auto
  have "pt_inv (model_tracker m')" by (simp add: m'(2) pt_init_inv)
  then have "(\<forall>s. m' \<noteq> SparseSspModel s) \<longrightarrow> model_inv m'" using model_inv_wf[OF _ _ m'(3)] by blast
  then show ?thesis
    using m m' by (auto simp: server_handle_def Let_def model_handle_def table_ready_def get_model_def)
qed

lemma await_resets_all:
  "length replies = n \<Longrightarrow> \<forall>r \<in> set replies. msg_flag r = kResetWorkerInModel \<and> to_u32 (msg_model r) = tid \<Longrightarrow>
    await_resets tid n replies = Inr True"
  by (induction tid n replies rule: await_resets.induct) auto

text \<open>What a table reset leaves as it was.\<close>

definition same_engine :: "('v, 'c) engine \<Rightarrow> ('v, 'c) engine \<Rightarrow> bool" where
  "same_engine e e' \<longleftrightarrow> en_node e' = en_node e \<and> en_servers e' = en_servers e \<and> en_partitions e' = en_partitions e
     \<and> en_helper e' = en_helper e
     \<and> (\<forall>mb. en_mailbox e = Some mb \<longrightarrow> (\<exists>mb'. en_mailbox e' = Some mb'
          \<and> om_get (mb_queue_map mb') = om_get (mb_queue_map mb) \<and> mb_senders mb' = mb_senders mb
          \<and> mb_node mb' = mb_node mb \<and> mb_nodes mb' = mb_nodes mb \<and> mb_barrier_count mb' = mb_barrier_count mb))
     \<and> (\<forall>m. en_mapper e = Some m \<longrightarrow> (\<exists>m'. en_mapper e' = Some m' \<and> im_inv m' \<and> im_helper m' = im_helper m
          \<and> im_server m' = im_server m \<and> (\<forall>k. workers_for k m' = workers_for k m)))"

lemma same_engine_inv: "engine_inv e \<Longrightarrow> same_engine e e' \<Longrightarrow> en_sender e' \<noteq> None \<Longrightarrow> engine_inv e'"
proof -
  assume inv: "engine_inv e" and same: "same_engine e e'" and sq: "en_sender e' \<noteq> None"
  obtain m mb h srvs where e: "en_mapper e = Some m" "en_mailbox e = Some mb" "en_helper e = Some h" "en_servers e = Some srvs"
    and i: "\<forall>n. distinct (servers_for n m)" "om_get (im_helper m) (here e) \<noteq> None" "srvs \<noteq> []"
    "map server_id srvs = servers_for (here e) m" "h \<in> set (helpers_for (here e) m)"
    "\<forall>qid. om_get (mb_queue_map mb) qid \<noteq> None \<longrightarrow> (\<exists>k. qid \<in> threads_on m k)"
    "\<forall>sid \<in> set (servers_for (here e) m). om_get (mb_queue_map mb) sid = Some (unat sid)"
    "om_get (mb_queue_map mb) h = Some (unat h)" "mailbox_up mb"
    using inv unfolding engine_inv_def by blast
  obtain m' mb' where e': "en_mapper e' = Some m'" "en_mailbox e' = Some mb'" "im_inv m'" "im_helper m' = im_helper m"
    "im_server m' = im_server m" "\<And>k. workers_for k m' = workers_for k m"
    "om_get (mb_queue_map mb') = om_get (mb_queue_map mb)" "en_node e' = en_node e" "en_servers e' = en_servers e"
    "en_helper e' = en_helper e" "mb_node mb' = mb_node mb" "mb_nodes mb' = mb_nodes mb" "mb_senders mb' = mb_senders mb"
    "mb_barrier_count mb' = mb_barrier_count mb"
    using same e unfolding same_engine_def by blast
  have s: "servers_for k m' = servers_for k m" "helpers_for k m' = helpers_for k m" "threads_on m' k = threads_on m k" for k
    using e' by (simp_all add: servers_for_def helpers_for_def threads_on_def)
  have "mailbox_up mb'" using i(9) by (simp add: mailbox_up_def e')
  then show ?thesis
    using sq i(2) unfolding engine_inv_def by (auto simp: e e' s i(1,3-))
qed

lemma init_table_send_cases:
  assumes inv: "engine_inv e" and run: "init_table_send junk q tid workers servers e = Inr (ident, e1)"
  shows "\<exists>mb1 e2. en_sender e1 = map_option (\<lambda>sq. sq @ map (reset_message junk tid ident workers) servers) (en_sender e)
    \<and> en_mailbox e1 = Some mb1 \<and> om_get (mb_queue_map mb1) ident = Some q
    \<and> init_table_end ident e1 = Inr e2 \<and> same_engine e e2 \<and> en_sender e2 = en_sender e1 \<and> engine_inv e2"
proof -
  obtain m mb sq where e: "en_mapper e = Some m" "en_mailbox e = Some mb" "en_sender e = Some sq" and im: "im_inv m"
    using inv unfolding engine_inv_def by blast
  obtain m1 mb1 where a: "allocate_worker (here e) m = Inr (ident, m1)" and r: "mb_register ident q mb = Inr mb1"
    and e1: "e1 = e\<lparr>en_mapper := Some m1, en_mailbox := Some mb1,
       en_sender := Some (fold (\<lambda>srv. tsq_push (reset_message junk tid ident workers srv)) servers sq)\<rparr>"
    using run by (auto simp: init_table_send_def e res_simps)
  have push: "fold (\<lambda>srv. tsq_push (reset_message junk tid ident workers srv)) servers sq
      = sq @ map (reset_message junk tid ident workers) servers" for sq
    by (induction servers arbitrary: sq) (simp_all add: tsq_push_def)
  obtain m2 where d: "deallocate_worker (here e) ident m1 = Inr m2" "im_inv m2" "im_helper m2 = im_helper m"
    "im_server m2 = im_server m" "\<forall>k. workers_for k m2 = workers_for k m"
    using deallocate_after_allocate[OF im a] by blast
  have new: "om_get (mb_queue_map mb) ident = None" and mb1: "mb1 = mb\<lparr>mb_queue_map := om_insert ident q (mb_queue_map mb)\<rparr>"
    using r by (auto simp: mb_register_def res_simps)
  let ?mb2 = "mb1\<lparr>mb_queue_map := om_del ident (mb_queue_map mb1)\<rparr>"
  have "mb_deregister ident mb1 = Inr ?mb2" by (simp add: mb_deregister_def mb1 new)
  then have en: "init_table_end ident e1 = Inr (e1\<lparr>en_mapper := Some m2, en_mailbox := Some ?mb2\<rparr>)"
    using d(1) by (simp add: init_table_end_def e1)
  have same: "same_engine e (e1\<lparr>en_mapper := Some m2, en_mailbox := Some ?mb2\<rparr>)"
    using new d(2-5) by (auto simp: same_engine_def e1 e mb1)
  have "engine_inv (e1\<lparr>en_mapper := Some m2, en_mailbox := Some ?mb2\<rparr>)"
    by (rule same_engine_inv[OF inv same]) (simp add: e1)
  then show ?thesis using en same new by (auto simp: e1 e mb1 push)
qed

lemma init_table_send_ok:
  assumes inv: "engine_inv e" and m: "en_mapper e = Some m" and room: "length (workers_for (here e) m) < 900"
  shows "is_ok (init_table_send junk q tid workers servers e)"
proof -
  obtain mb sq where e: "en_mailbox e = Some mb" "en_sender e = Some sq" and im: "im_inv m" "om_get (im_helper m) (here e) \<noteq> None"
    and reg: "\<forall>qid. om_get (mb_queue_map mb) qid \<noteq> None \<longrightarrow> (\<exists>k. qid \<in> threads_on m k)"
    using inv m unfolding engine_inv_def by auto
  obtain ident m1 where a: "allocate_worker (here e) m = Inr (ident, m1)"
    using allocate_worker_cases(1)[OF im] room by (auto simp: is_ok_iff)
  have "om_get (mb_queue_map mb) ident = None" using reg allocate_worker_fresh(3)[OF im(1) a] by blast
  then show ?thesis by (simp add: init_table_send_def m e a mb_register_def)
qed

lemma init_table_returns:
  assumes inv: "engine_inv e" and m: "en_mapper e = Some m" and room: "length (workers_for (here e) m) < 900"
    and all: "length rs = length (servers_for (here e) m)"
      "\<forall>r \<in> set rs. msg_flag r = kResetWorkerInModel \<and> to_u32 (msg_model r) = tid"
  shows "\<exists>e2. init_table junk q rs tid workers e = Inr (True, e2) \<and> engine_inv e2 \<and> same_engine e e2"
proof -
  have ne: "servers_for (here e) m \<noteq> []" and mb: "en_mailbox e \<noteq> None"
    using inv m by (auto simp: engine_inv_def)
  obtain ident e1 where send: "init_table_send junk q tid workers (servers_for (here e) m) e = Inr (ident, e1)"
    using init_table_send_ok[OF inv m room] by (force simp: is_ok_iff)
  obtain e2 where en: "init_table_end ident e1 = Inr e2" "same_engine e e2" "engine_inv e2"
    using init_table_send_cases[OF inv send] by blast
  have "init_table junk q rs tid workers e = Inr (True, e2)"
    using ne mb send en(1) await_resets_all[OF all] by (auto simp: init_table_def m Let_def)
  then show ?thesis using en(2,3) by blast
qed

text \<open>C19. \<open>InitTable\<close> from end to end.  While the node has room for one more thread, the request goes to
  every local server with the queue of the replies registered under a fresh thread; each server
  answers it, and its table then counts exactly the workers of the task from zero and still serves its keys; an
  asynchronous, bulk-synchronous or stale-synchronous table meets the invariant of its model, of a sparse one
  only the storage is said to be well formed; the answers go to that queue, and once they have arrived, in any order,
  \<open>InitTable\<close> returns and has given the thread and the queue back.\<close>

theorem init_table_resets:
  assumes "engine_inv e" "en_servers e = Some srvs" "en_mapper e = Some m" "length (workers_for (here e) m) < 900"
    "list_all (\<lambda>srv. has_table tid V (K (server_id srv)) srv) srvs"
  shows "\<exists>ident e1 mb srvs' replies. init_table_send junk q tid workers (map server_id srvs) e = Inr (ident, e1)
    \<and> en_mailbox e1 = Some mb \<and> om_get (mb_queue_map mb) ident = Some q
    \<and> en_sender e1 = map_option (\<lambda>sq. sq @ map (reset_message junk tid ident workers \<circ> server_id) srvs) (en_sender e)
    \<and> list_all2 (\<lambda>srv (srv', r). server_handle debug jk (reset_message junk tid ident workers (server_id srv)) srv = Inr (srv', [r])
         \<and> to_u32 (msg_recver r) = ident \<and> table_ready tid V workers (K (server_id srv)) srv') srvs (zip srvs' replies)
    \<and> (\<forall>rs. mset rs = mset replies \<longrightarrow>
         (\<exists>e2. init_table junk q rs tid workers e = Inr (True, e2) \<and> engine_inv e2 \<and> same_engine e e2))"
proof -
  have ids: "servers_for (here e) m = map server_id srvs"
    using assms(1-3) by (auto simp: engine_inv_def)
  obtain ident e1 where send: "init_table_send junk q tid workers (map server_id srvs) e = Inr (ident, e1)"
    using init_table_send_ok[OF assms(1,3,4)] by (force simp: is_ok_iff)
  obtain mb e2 where sq: "en_sender e1 = map_option (\<lambda>sq. sq @ map (reset_message junk tid ident workers) (map server_id srvs)) (en_sender e)"
    and reg: "en_mailbox e1 = Some mb" "om_get (mb_queue_map mb) ident = Some q"
    using init_table_send_cases[OF assms(1) send] by blast
  let ?msg = "\<lambda>srv. reset_message junk tid ident workers (server_id srv)"
  let ?reply = "\<lambda>srv. reset_reply jk tid (?msg srv)"
  have "\<forall>srv \<in> set srvs. \<exists>srv'. server_handle debug jk (?msg srv) srv = Inr (srv', [?reply srv])
      \<and> table_ready tid V workers (K (server_id srv)) srv'"
    using assms(5) server_reset by (fastforce simp: list_all_iff)
  then obtain after where nxt: "\<forall>srv \<in> set srvs. server_handle debug jk (?msg srv) srv = Inr (after srv, [?reply srv])
      \<and> table_ready tid V workers (K (server_id srv)) (after srv)" by metis
  have served: "list_all2 (\<lambda>srv (srv', r). server_handle debug jk (?msg srv) srv = Inr (srv', [r])
         \<and> to_u32 (msg_recver r) = ident \<and> table_ready tid V workers (K (server_id srv)) srv')
      srvs (zip (map after srvs) (map ?reply srvs))"
    using nxt by (auto simp: list_all2_conv_all_nth)
  have over: "\<exists>e2. init_table junk q rs tid workers e = Inr (True, e2) \<and> engine_inv e2 \<and> same_engine e e2"
    if "mset rs = mset (map ?reply srvs)" for rs
  proof (rule init_table_returns[OF assms(1,3,4)])
    have "set rs = set (map ?reply srvs)" using mset_eq_setD[OF that] by simp
    then show "\<forall>r \<in> set rs. msg_flag r = kResetWorkerInModel \<and> to_u32 (msg_model r) = tid" by auto
    show "length rs = length (servers_for (here e) m)" using mset_eq_length[OF that] by (simp add: ids)
  qed
  show ?thesis
    using send reg sq[unfolded map_map] served over by blast
qed

lemma demo_table:
  "\<exists>e. create_table False 0 u32_val 7 (pm_ranges two_ranges) SSP Store_vector 2 0 Rec_none demo_engine = Inr e
    \<and> engine_inv e \<and> en_mapper e = Some demo_mapper \<and> here e = 1 \<and> om_get (en_partitions e) 7 \<noteq> None
    \<and> en_mailbox e = Some demo_box
    \<and> (\<exists>srvs. en_servers e = Some srvs \<and> map server_id srvs = [1000]
         \<and> list_all (has_table 7 u32_val (\<lambda>_. False)) srvs)"
proof -
  obtain e where e: "create_table False 0 u32_val 7 (pm_ranges two_ranges) SSP Store_vector 2 0 Rec_none demo_engine = Inr e"
    "om_get (en_partitions e) 7 \<noteq> None"
    using demo_create by force
  have inv: "engine_inv e" and tab: "\<forall>srvs. en_servers e = Some srvs \<longrightarrow> list_all (has_table 7 u32_val (\<lambda>_. False)) srvs"
    using create_table_tables[OF demo_engine_inv e(1)] by (auto simp: list_all_iff has_table_def)
  have m: "en_mapper e = Some demo_mapper" "here e = 1" "en_mailbox e = Some demo_box"
    by (rule create_table_cases[OF demo_engine_inv e(1)], simp add: demo_engine_def)+
  have "servers_for 1 demo_mapper = [1000]" by (simp add: demo_mapper_def servers_for_def)
  then obtain srvs where "en_servers e = Some srvs" "map server_id srvs = [1000]"
    using inv m by (auto simp: engine_inv_def)
  then show ?thesis using e inv m tab by auto
qed

theorem init_table_resets_witness:
  "\<exists>e ident e1 rs e2. create_table False 0 u32_val 7 (pm_ranges two_ranges) SSP Store_vector 2 0 Rec_none demo_engine = Inr e
    \<and> init_table_send demo_meta 5 7 [1100] [1000] e = Inr (ident, e1)
    \<and> init_table demo_meta 5 rs 7 [1100] e = Inr (True, e2) \<and> engine_inv e2"
proof -
  obtain e srvs where e: "create_table False 0 u32_val 7 (pm_ranges two_ranges) SSP Store_vector 2 0 Rec_none demo_engine = Inr e"
    "engine_inv e" "en_mapper e = Some demo_mapper" "here e = 1" "en_servers e = Some srvs" "map server_id srvs = [1000]"
    "list_all (has_table 7 u32_val (\<lambda>_. False)) srvs"
    using demo_table by (elim exE conjE) (rule that)
  have tab: "list_all (\<lambda>srv. has_table 7 u32_val ((\<lambda>_ _. False) (server_id srv)) srv) srvs" using e(7) by simp
  have room: "length (workers_for (here e) demo_mapper) < 900" by (simp add: e(4) demo_mapper_def workers_for_def)
  from init_table_resets[OF e(2,5,3) room tab, of demo_meta 5 "[1100]"] e(1)
  show ?thesis unfolding e(6) by blast
qed

lemma server_main_stops:
  "\<exists>m \<in> set q. msg_flag m = kExit \<Longrightarrow> server_main debug jk q srv = Inr (srv', rs, q', stopped) \<Longrightarrow> stopped"
proof (induction q arbitrary: srv rs)
  case Nil
  then show ?case by simp
next
  case (Cons m q)
  then show ?case by (cases "msg_flag m = kExit") (auto simp: res_simps)
qed

lemma helper_main_stops:
  "\<exists>m \<in> set q. msg_flag m = kExit \<Longrightarrow> helper_main q s = Inr (s', q', stopped) \<Longrightarrow> stopped"
proof (induction q arbitrary: s)
  case Nil
  then show ?case by simp
next
  case (Cons m q)
  then show ?case by (cases "msg_flag m = kExit") (auto simp: res_simps)
qed

lemma sender_main_stops: "\<exists>m \<in> set q. msg_flag m = kExit \<Longrightarrow> snd (snd (sender_main q))"
proof (induction q)
  case Nil
  then show ?case by simp
next
  case (Cons m q)
  then show ?case by (cases "msg_flag m = kExit") (auto simp: case_prod_beta Let_def)
qed

lemma mb_close_exit:
  assumes "om_get (mb_queue_map mb) qid = Some q"
  shows "\<exists>m \<in> set (mb_close junk mb qs q). msg_flag m = kExit"
proof -
  have "(qid, q) \<in> set (filter (\<lambda>p. snd p = q) (mb_queue_map mb))" using om_get_Some_mem[OF assms] by simp
  then have "length (filter (\<lambda>p. snd p = q) (mb_queue_map mb)) \<noteq> 0" by fastforce
  then show ?thesis by (auto simp: mb_close_def mb_close_pushes mb_exit_message_def)
qed

text \<open>C21. \<open>StopEverything\<close> of a started engine.  When every node enters the barrier, and the exit message that the
  mailbox sends to its own node comes back, every check passes and every loop that a join waits for ends: the mailbox
  sends one message of the barrier to each node and then the exit message, each of which has a socket; its wait
  is over, its receiving thread ends; and the loops of each local server, of the helper and of the sender find an
  exit message in their queues.\<close>

theorem engine_stops:
  assumes "engine_inv e" "en_mailbox e = Some mb" "stop_traffic mb arrived later"
  shows "\<exists>e' qs' sent sq srvs h. stop_everything junk arrived later e qs = Inr (True, sent, e', qs')
    \<and> sent = mb_barrier_messages junk mb @ [mb_exit_message junk mb]
    \<and> (\<forall>m \<in> set sent. dest_node node_for_thread m \<in> set (mb_senders mb))
    \<and> en_sender e' = Some sq \<and> snd (snd (sender_main sq))
    \<and> en_servers e = Some srvs \<and> en_helper e = Some h
    \<and> (\<forall>srv \<in> set srvs. \<forall>debug jk srv' rs rest stopped.
         server_main debug jk (qs' (unat (server_id srv))) srv = Inr (srv', rs, rest, stopped) \<longrightarrow> stopped)
    \<and> (\<forall>s s' rest stopped. helper_main (qs' (unat h)) s = Inr (s', rest, stopped) \<longrightarrow> stopped)"
proof -
  obtain m h srvs sq where e: "en_mapper e = Some m" "en_helper e = Some h"
    "en_servers e = Some srvs" "en_sender e = Some sq" "map server_id srvs = servers_for (here e) m"
    and reg: "\<forall>sid \<in> set (servers_for (here e) m). om_get (mb_queue_map mb) sid = Some (unat sid)"
    "om_get (mb_queue_map mb) h = Some (unat h)" and up: "mailbox_up mb"
    using assms(1,2) unfolding engine_inv_def by auto
  obtain k qs1 where stop: "mb_stop junk arrived later (mb, qs)
      = Inr (mb_barrier_messages junk mb @ [mb_exit_message junk mb], (mb\<lparr>mb_barrier_count := k\<rparr>, mb_close junk mb qs1), True)"
    using mb_stop_ends[OF assms(3) up] by blast
  let ?qs = "mb_close junk mb qs1"
  let ?e = "e\<lparr>en_mailbox := Some (mb\<lparr>mb_barrier_count := k\<rparr>), en_sender := Some (sender_stop junk sq)\<rparr>"
  have run: "stop_everything junk arrived later e qs = Inr (True, mb_barrier_messages junk mb @ [mb_exit_message junk mb], ?e, ?qs)"
    using stop by (simp add: stop_everything_def stop_mailbox_def stop_sender_def e assms(2))
  have snd: "snd (snd (sender_main (sender_stop junk sq)))"
    by (rule sender_main_stops) (simp add: sender_stop_def tsq_push_def)
  have srv: "stopped" if "srv \<in> set srvs" "server_main debug jk (?qs (unat (server_id srv))) srv = Inr (srv', rs, rest, stopped)"
    for srv debug jk srv' rs rest stopped
    using mb_close_exit[of mb "server_id srv"] reg(1) that(1) server_main_stops[OF _ that(2)] by (simp flip: e(5))
  have hlp: "stopped" if "helper_main (?qs (unat h)) s = Inr (s', rest, stopped)" for s :: "'c app_blocker \<times> 'c" and s' rest stopped
    by (rule helper_main_stops[OF mb_close_exit[OF reg(2)] that])
  show ?thesis
    by (intro exI[of _ ?e] exI[of _ ?qs] exI[of _ "mb_barrier_messages junk mb @ [mb_exit_message junk mb]"]
        exI[of _ "sender_stop junk sq"] exI[of _ srvs] exI[of _ h] conjI ballI allI impI)
      (use run snd e srv hlp stop_messages_routed[OF up] in \<open>simp_all del: set_append\<close>)
qed

text \<open>A late message for the server, the barrier messages of both nodes, and the own exit message.\<close>

abbreviation demo_arrivals :: "message list" where
  "demo_arrivals \<equiv> [mail kBarrier 1, mail kClock 1000, mail kBarrier 1]"

lemma demo_barrier_traffic: "barrier_traffic demo_box demo_arrivals"
  by (simp add: barrier_traffic_def deliverable_def demo_box_def demo_nodes_def mail_def to_u32_def)

lemma engine_stops_witness:
  "\<exists>e' qs' sent sq. stop_everything demo_meta demo_arrivals [mail kAdd 1000, mail kExit 1] demo_engine (\<lambda>_. []) = Inr (True, sent, e', qs')
    \<and> length sent = 3 \<and> en_sender e' = Some sq \<and> snd (snd (sender_main sq))"
proof -
  have t: "stop_traffic demo_box demo_arrivals [mail kAdd 1000, mail kExit 1]"
    using demo_barrier_traffic
    by (simp add: stop_traffic_def deliverable_def demo_box_def mail_def to_u32_def)
  have mb: "en_mailbox demo_engine = Some demo_box" by (simp add: demo_engine_def)
  have len: "length (mb_barrier_messages demo_meta demo_box @ [mb_exit_message demo_meta demo_box]) = 3"
    by (simp add: mb_barrier_messages_def demo_box_def demo_nodes_def)
  from engine_stops[OF demo_engine_inv mb t, of demo_meta "\<lambda>_. []"] len show ?thesis by auto
qed

section \<open>Running a task\<close>

lemma init_table_same:
  assumes inv: "engine_inv e" and run: "init_table junk q rs tid workers e = Inr (True, e')"
  shows "same_engine e e' \<and> engine_inv e'"
proof -
  obtain m srvs where m: "en_mapper e = Some m" "servers_for (here e) m \<noteq> []" using inv by (force simp: engine_inv_def)
  obtain ident e1 where send: "init_table_send junk q tid workers (servers_for (here e) m) e = Inr (ident, e1)"
    and en: "init_table_end ident e1 = Inr e'"
    using run m by (auto simp: init_table_def Let_def res_simps split: if_splits)
  then show ?thesis using init_table_send_cases[OF inv send] by auto
qed

lemma same_engine_refl: "engine_inv e \<Longrightarrow> same_engine e e"
  by (auto simp: same_engine_def engine_inv_def)

lemma same_engine_trans: "same_engine e1 e2 \<Longrightarrow> same_engine e2 e3 \<Longrightarrow> engine_inv e1 \<Longrightarrow> same_engine e1 e3"
proof -
  assume s: "same_engine e1 e2" "same_engine e2 e3" and inv: "engine_inv e1"
  obtain m mb where e1: "en_mapper e1 = Some m" "en_mailbox e1 = Some mb" using inv by (auto simp: engine_inv_def)
  obtain m2 mb2 where e2: "en_mapper e2 = Some m2" "en_mailbox e2 = Some mb2" "im_helper m2 = im_helper m" "im_server m2 = im_server m"
    "\<forall>k. workers_for k m2 = workers_for k m" "om_get (mb_queue_map mb2) = om_get (mb_queue_map mb)" "mb_senders mb2 = mb_senders mb"
    using s(1) e1 by (auto simp: same_engine_def)
  obtain m3 mb3 where e3: "en_mapper e3 = Some m3" "en_mailbox e3 = Some mb3" "im_helper m3 = im_helper m2" "im_server m3 = im_server m2"
    "\<forall>k. workers_for k m3 = workers_for k m2" "om_get (mb_queue_map mb3) = om_get (mb_queue_map mb2)" "mb_senders mb3 = mb_senders mb2" "im_inv m3"
    using s(2) e2(1,2) by (auto simp: same_engine_def)
  show ?thesis using s e1 e2 e3 by (auto simp: same_engine_def)
qed

lemma init_tables_same:
  "engine_inv e \<Longrightarrow> init_tables junk q replies k ts workers e = Inr (True, e') \<Longrightarrow> same_engine e e' \<and> engine_inv e'"
proof (induction ts arbitrary: k e)
  case Nil
  then show ?case by (simp add: same_engine_refl)
next
  case (Cons t ts)
  then obtain e1 where one: "init_table junk q (replies k) t workers e = Inr (True, e1)"
    and rest: "init_tables junk q replies (Suc k) ts workers e1 = Inr (True, e')"
    by (auto simp: res_simps split: if_splits prod.splits)
  have s: "same_engine e e1" "engine_inv e1" using init_table_same[OF Cons.prems(1) one] by simp_all
  from Cons.IH[OF s(2) rest] same_engine_trans[OF s(1) _ Cons.prems(1)] show ?case by blast
qed

lemma task_partitions_ok:
  assumes "\<forall>t \<in> set tables. om_get (en_partitions e) t \<noteq> None"
  shows "\<exists>pms. task_partitions tables e = Inr pms \<and> (\<forall>t \<in> set tables. om_get pms t = om_get (en_partitions e) t)"
proof -
  let ?body = "\<lambda>t acc. bind_res (of_opt (Check_failed ''Run'') (om_get (en_partitions e) t)) (\<lambda>pm. Inr (om_set t pm acc))"
  have "\<exists>pms. fold_res ?body tables acc = Inr pms
      \<and> (\<forall>t. om_get pms t = (if t \<in> set tables then om_get (en_partitions e) t else om_get acc t))" for acc
    using assms
  proof (induction tables arbitrary: acc)
    case Nil
    then show ?case by simp
  next
    case (Cons t tables)
    then obtain pm where "om_get (en_partitions e) t = Some pm" by auto
    with Cons show ?case by (auto dest!: meta_spec[of _ "om_set t pm acc"])
  qed
  from this[of "[]"] show ?thesis by (auto simp: task_partitions_def)
qed

definition info_of :: "(u32, partition_manager) omap \<Rightarrow> nat \<times> u32 \<times> u32 \<Rightarrow> info" where
  "info_of pms = (\<lambda>(i, t, w). \<lparr>local_id = of_nat i, worker_id = w, thread_id = t, info_partitions = pms\<rparr>)"

lemma spawn_all:
  assumes "en_mailbox e = Some mb" "en_helper e = Some h" "distinct (map (fst \<circ> snd) zs)"
    "\<forall>t \<in> set (map (fst \<circ> snd) zs). om_get (mb_queue_map mb) t = None"
  shows "\<exists>mb'. fold_res (spawn_worker pms) zs (infos, e) = Inr (infos @ map (info_of pms) zs, e\<lparr>en_mailbox := Some mb'\<rparr>)
    \<and> (\<forall>t. om_get (mb_queue_map mb') t = (if t \<in> set (map (fst \<circ> snd) zs) then Some (unat h) else om_get (mb_queue_map mb) t))"
  using assms
proof (induction zs arbitrary: infos e mb)
  case Nil
  then show ?case by (auto intro!: exI[of _ mb])
next
  case (Cons z zs)
  obtain i t w where z: "z = (i, t, w)" by (cases z)
  let ?mb = "mb\<lparr>mb_queue_map := om_insert t (unat h) (mb_queue_map mb)\<rparr>" and ?e = "\<lambda>mb. e\<lparr>en_mailbox := Some mb\<rparr>"
  have one: "spawn_worker pms z (infos, e) = Inr (infos @ [info_of pms z], ?e ?mb)"
    using Cons.prems by (simp add: spawn_worker_def mb_register_def z info_of_def)
  have "\<forall>t \<in> set (map (fst \<circ> snd) zs). om_get (mb_queue_map ?mb) t = None" using Cons.prems(3,4) by (auto simp: z)
  from Cons.IH[of "?e ?mb" ?mb "infos @ [info_of pms z]", OF _ _ _ this] Cons.prems(1-3)
  obtain mb' where rest: "fold_res (spawn_worker pms) zs (infos @ [info_of pms z], ?e ?mb)
      = Inr (infos @ [info_of pms z] @ map (info_of pms) zs, ?e mb')"
    and reg: "\<forall>t. om_get (mb_queue_map mb') t = (if t \<in> set (map (fst \<circ> snd) zs) then Some (unat h) else om_get (mb_queue_map ?mb) t)"
    by auto
  have "fold_res (spawn_worker pms) (z # zs) (infos, e) = Inr (infos @ map (info_of pms) (z # zs), ?e mb')"
    using rest by (simp add: one)
  moreover have "om_get (mb_queue_map mb) t = None" using Cons.prems(4) by (simp add: z)
  then have "\<forall>u. om_get (mb_queue_map mb') u
      = (if u \<in> set (map (fst \<circ> snd) (z # zs)) then Some (unat h) else om_get (mb_queue_map mb) u)"
    by (simp add: reg z)
  ultimately show ?case by blast
qed

lemma local_threads_props:
  assumes inv: "im_inv m" and al: "allocate_workers allocs m = Inr (ws, m')"
    and few: "sum_list (map (\<lambda>a. unat (wa_workers a)) allocs) \<le> 2 ^ 32"
  shows "map Some (node_threads ws n) = map (om_get (ws_worker_thread ws)) (node_workers ws n)"
    "distinct (node_threads ws n)"
    "t \<in> set (node_threads ws n) \<Longrightarrow> node_for_thread t = n \<and> (\<forall>k. t \<notin> threads_on m k) \<and> (\<exists>k. t \<in> threads_on m' k)"
    "has_local_workers n ws \<longleftrightarrow> node_threads ws n \<noteq> []"
    "im_inv m'" "im_helper m' = im_helper m" "servers_for k m' = servers_for k m" "threads_on m k \<subseteq> threads_on m' k"
proof -
  obtain ws0 where num: "numbered (sum_list (map (\<lambda>a. unat (wa_workers a)) allocs)) ws0"
    and as: "assigned m ws0 (visits ws0) ws m'"
    by (rule allocate_workers_assigned[OF inv al few])
  note N = num[unfolded numbered_def] and A = as[unfolded assigned_def]
  have wf: "om_wf (ws_node_workers ws0)" and d: "distinct (node_workers ws0 n)" and ne: "om_get (ws_node_workers ws0) n \<noteq> Some []"
    using N by simp_all
  have same: "ws_node_workers ws = ws_node_workers ws0" using A by simp
  show thr: "map Some (node_threads ws n) = map (om_get (ws_worker_thread ws)) (node_workers ws n)"
    by (rule assigned_threads[OF as wf])
  have inverse: "om_get (ws_thread_worker ws) t = Some w \<longleftrightarrow> om_get (ws_worker_thread ws) w = Some t" for t w
    using A by simp
  have some: "om_get (ws_worker_thread ws) w \<noteq> None" if "w \<in> set (node_workers ws n)" for w
  proof -
    have "om_get (ws_worker_thread ws) w \<in> set (map Some (node_threads ws n))" using that by (simp only: thr set_map image_eqI)
    then show ?thesis by auto
  qed
  have "inj_on (om_get (ws_worker_thread ws)) (set (node_workers ws n))"
  proof (rule inj_onI)
    fix v w assume vw: "v \<in> set (node_workers ws n)" "w \<in> set (node_workers ws n)"
      "om_get (ws_worker_thread ws) v = om_get (ws_worker_thread ws) w"
    obtain t where "om_get (ws_worker_thread ws) v = Some t" using some[OF vw(1)] by blast
    then show "v = w" using vw(3) inverse[of t v] inverse[of t w] by simp
  qed
  then have "distinct (map Some (node_threads ws n))" unfolding thr using d by (simp add: distinct_map same)
  then show "distinct (node_threads ws n)" by (simp add: distinct_map)
  show "node_for_thread t = n \<and> (\<forall>k. t \<notin> threads_on m k) \<and> (\<exists>k. t \<in> threads_on m' k)" if "t \<in> set (node_threads ws n)"
  proof -
    have "Some t \<in> set (map (om_get (ws_worker_thread ws)) (node_workers ws n))" using that by (simp only: thr[symmetric] set_map image_eqI)
    then obtain w where w: "w \<in> set (node_workers ws n)" "om_get (ws_worker_thread ws) w = Some t" by auto
    then have v: "(n, w) \<in> set (visits ws0)" by (simp add: same visits_props(1)[OF wf])
    have 1: "\<forall>w t. om_get (ws_worker_thread ws) w = Some t \<longrightarrow> (\<exists>k. t \<in> threads_on m' k)" using A by (elim conjE)
    have 2: "\<forall>n w. (n, w) \<in> set (visits ws0) \<longrightarrow> (\<exists>t. om_get (ws_worker_thread ws) w = Some t
           \<and> node_for_thread t = n \<and> (\<forall>k. t \<notin> threads_on m k))" using A by (elim conjE)
    show ?thesis using 1 2 v w(2) by fastforce
  qed
  have "has_local_workers n ws \<longleftrightarrow> node_workers ws n \<noteq> []"
    using ne by (cases "om_get (ws_node_workers ws0) n") (auto simp: has_local_workers_def same)
  also have "\<dots> \<longleftrightarrow> node_threads ws n \<noteq> []" using thr by (metis map_is_Nil_conv)
  finally show "has_local_workers n ws \<longleftrightarrow> node_threads ws n \<noteq> []" .
  show "im_inv m'" "im_helper m' = im_helper m" "servers_for k m' = servers_for k m" "threads_on m k \<subseteq> threads_on m' k"
    using A by simp_all
qed

lemma engine_inv_allocated:
  assumes inv: "engine_inv e" and m: "en_mapper e = Some m" and al: "allocate_workers allocs m = Inr (ws, m')"
    and few: "sum_list (map (\<lambda>a. unat (wa_workers a)) allocs) \<le> 2 ^ 32"
  shows "engine_inv (e\<lparr>en_mapper := Some m'\<rparr>)"
proof -
  obtain mb h srvs sq where e: "en_mailbox e = Some mb" "en_helper e = Some h" "en_servers e = Some srvs" "en_sender e = Some sq"
    and i: "im_inv m" "\<forall>n. distinct (servers_for n m)" "om_get (im_helper m) (here e) \<noteq> None" "srvs \<noteq> []"
    "map server_id srvs = servers_for (here e) m" "h \<in> set (helpers_for (here e) m)"
    "\<forall>qid. om_get (mb_queue_map mb) qid \<noteq> None \<longrightarrow> (\<exists>k. qid \<in> threads_on m k)"
    "\<forall>sid \<in> set (servers_for (here e) m). om_get (mb_queue_map mb) sid = Some (unat sid)"
    "om_get (mb_queue_map mb) h = Some (unat h)" "mailbox_up mb"
    using inv m unfolding engine_inv_def by auto
  note L = local_threads_props[OF i(1) al few]
  have "\<forall>qid. om_get (mb_queue_map mb) qid \<noteq> None \<longrightarrow> (\<exists>k. qid \<in> threads_on m' k)" using i(7) L(8) by blast
  moreover have "helpers_for k m' = helpers_for k m" for k by (simp add: helpers_for_def L(6))
  ultimately show ?thesis
    using i(3) unfolding engine_inv_def by (auto simp: e i(2,4,5,6,8-10) L(5-7))
qed

text \<open>The local workers, numbered from 0, are spawned with their threads, whose queue is the one of the helper.\<close>

lemma spawn_workers_ok:
  assumes e: "en_mailbox e = Some mb" "en_helper e = Some h" and pms: "task_partitions tables e = Inr pms"
    and local: "length (node_threads ws (here e)) = length (node_workers ws (here e))" "distinct (node_threads ws (here e))"
      "has_local_workers (here e) ws \<longleftrightarrow> node_threads ws (here e) \<noteq> []"
    and free: "\<forall>t \<in> set (node_threads ws (here e)). om_get (mb_queue_map mb) t = None"
  shows "\<exists>infos e' mb'. spawn_workers tables ws e = Inr (infos, e') \<and> en_mailbox e' = Some mb'
    \<and> map thread_id infos = node_threads ws (here e) \<and> map worker_id infos = node_workers ws (here e)
    \<and> map local_id infos = map of_nat [0..<length infos] \<and> (\<forall>i \<in> set infos. info_partitions i = pms)
    \<and> (\<forall>t \<in> set (node_threads ws (here e)). om_get (mb_queue_map mb') t = Some (unat h))"
proof -
  define ts us where "ts = node_threads ws (here e)" and "us = node_workers ws (here e)"
  have len: "length ts = length us" using local(1) by (simp add: ts_def us_def)
  define zs where "zs = zip [0..<length ts] (zip ts us)"
  have z: "map (fst \<circ> snd) zs = ts" "map (snd \<circ> snd) zs = us" "map fst zs = [0..<length ts]" "length zs = length ts"
    using len by (simp_all add: zs_def flip: map_map)
  have sel: "worker_id (info_of pms z) = snd (snd z)" "thread_id (info_of pms z) = fst (snd z)"
    "local_id (info_of pms z) = of_nat (fst z)" "info_partitions (info_of pms z) = pms" for z
    by (simp_all add: info_of_def split: prod.splits)
  have "map local_id (map (info_of pms) zs) = map of_nat (map fst zs)" by (simp add: o_def sel)
  then have infos: "map thread_id (map (info_of pms) zs) = ts" "map worker_id (map (info_of pms) zs) = us"
    "map local_id (map (info_of pms) zs) = map of_nat [0..<length (map (info_of pms) zs)]" "\<forall>i \<in> set (map (info_of pms) zs). info_partitions i = pms"
    using z by (auto simp: o_def sel)
  obtain mb2 where mb2: "fold_res (spawn_worker pms) zs ([], e) = Inr (map (info_of pms) zs, e\<lparr>en_mailbox := Some mb2\<rparr>)"
    "\<forall>t \<in> set ts. om_get (mb_queue_map mb2) t = Some (unat h)"
    using spawn_all[OF e, of zs pms "[]"] local(2) free unfolding z(1) ts_def by auto
  show ?thesis
  proof (cases "ts = []")
    case True
    then show ?thesis using local(3) e(1) len by (simp add: spawn_workers_def ts_def us_def)
  next
    case False
    then have "om_get (ws_node_threads ws) (here e) = Some ts" "om_get (ws_node_workers ws) (here e) = Some us"
      using len by (auto simp: ts_def us_def get_or_def split: option.splits)
    then have "spawn_workers tables ws e = Inr (map (info_of pms) zs, e\<lparr>en_mailbox := Some mb2\<rparr>)"
      using False local(3) len pms mb2(1)
      by (simp add: spawn_workers_def local_threads_def local_workers_def ts_def[symmetric] zs_def)
    then show ?thesis using infos mb2(2) unfolding ts_def[symmetric] us_def[symmetric] by (intro exI conjI) (assumption | simp)+
  qed
qed

text \<open>C20. \<open>Run\<close>: once the tables of the task are reset and every node has entered the barrier, the engine starts one worker for each worker of
  the task on its node, and nothing can fail.  The \<open>i\<close>-th gets local number \<open>i\<close>, the thread that
  was allocated to it and the partition managers of all tables; answers to its thread go to the queue
  of the helper; and each is given to the lambda of the task.\<close>

theorem run_pairs_workers:
  assumes "engine_inv e" "en_mapper e = Some m" "is_setup task" "allocate_workers (ml_workers task) m = Inr (ws, m')"
    "sum_list (map (\<lambda>a. unat (wa_workers a)) (ml_workers task)) \<le> 2 ^ 32"
    "init_tables junk q replies 0 (ml_tables task) (ws_thread_ids ws) (e\<lparr>en_mapper := Some m'\<rparr>) = Inr (True, e1)"
    "list_all (\<lambda>t. om_get (en_partitions e) t \<noteq> None) (ml_tables task)"
    "en_mailbox e = Some mb0" "barrier_traffic mb0 arrived"
  shows "\<exists>f infos mb e' qs'. ml_func task = Some f
    \<and> engine_run junk q replies arrived task e qs = Inr (Some (map f infos), mb_barrier_messages junk mb0, e', qs')
    \<and> map worker_id infos = node_workers ws (here e)
    \<and> map (Some \<circ> thread_id) infos = map (om_get (ws_worker_thread ws)) (node_workers ws (here e))
    \<and> distinct (map thread_id infos) \<and> map local_id infos = map of_nat [0..<length infos]
    \<and> en_mailbox e' = Some mb
    \<and> (\<forall>i \<in> set infos. node_for_thread (thread_id i) = here e
         \<and> om_get (mb_queue_map mb) (thread_id i) = map_option unat (en_helper e)
         \<and> (\<forall>t \<in> set (ml_tables task). om_get (info_partitions i) t = om_get (en_partitions e) t))"
proof -
  obtain h where e: "en_mailbox e = Some mb0" "en_helper e = Some h" and im: "im_inv m" "mailbox_up mb0"
    and reg: "\<forall>qid. om_get (mb_queue_map mb0) qid \<noteq> None \<longrightarrow> (\<exists>k. qid \<in> threads_on m k)"
    using assms(1,2,8) unfolding engine_inv_def by auto
  note L = local_threads_props[OF im(1) assms(4,5)]
  have "engine_inv (e\<lparr>en_mapper := Some m'\<rparr>)" by (rule engine_inv_allocated[OF assms(1,2,4,5)])
  then have same: "same_engine (e\<lparr>en_mapper := Some m'\<rparr>) e1" using init_tables_same assms(6) by blast
  then obtain mb1 where e1: "en_mailbox e1 = Some mb1" "om_get (mb_queue_map mb1) = om_get (mb_queue_map mb0)"
    "en_node e1 = en_node e" "en_partitions e1 = en_partitions e" "en_helper e1 = Some h"
    and mb1: "mb_node mb1 = mb_node mb0" "mb_nodes mb1 = mb_nodes mb0" "mb_barrier_count mb1 = mb_barrier_count mb0"
    by (auto simp: same_engine_def e)
  have "barrier_traffic mb1 arrived" using assms(9) by (simp add: barrier_traffic_def deliverable_def e1(2) mb1)
  then obtain k qs1 where bar: "mb_barrier junk arrived (mb1, qs)
      = Inr (mb_barrier_messages junk mb1, (mb1\<lparr>mb_barrier_count := k\<rparr>, qs1), True, False)"
    using mb_barrier_ends im(2) mb1(3) unfolding mailbox_up_def by metis
  let ?e1 = "e1\<lparr>en_mailbox := Some (mb1\<lparr>mb_barrier_count := k\<rparr>)\<rparr>"
  have bar1: "engine_barrier junk arrived e1 qs = Inr (True, mb_barrier_messages junk mb0, ?e1, qs1)"
    using bar by (simp add: engine_barrier_def e1(1) mb_barrier_messages_def mb_barrier_message_def[abs_def] mb1)
  obtain f where f: "ml_func task = Some f" using assms(3) by (auto simp: is_setup_def)
  obtain pms where pms: "task_partitions (ml_tables task) ?e1 = Inr pms"
    "\<forall>t \<in> set (ml_tables task). om_get pms t = om_get (en_partitions e) t"
    using task_partitions_ok[of "ml_tables task" ?e1] assms(7) by (auto simp: e1(4) list_all_iff)
  have len: "length (node_threads ws (here e)) = length (node_workers ws (here e))"
    using arg_cong[OF L(1), of length "here e"] by simp
  have free: "\<forall>t \<in> set (node_threads ws (here e)). om_get (mb_queue_map mb1) t = None" using L(3) reg unfolding e1(2) by blast
  obtain infos e' mb3 where spawn: "spawn_workers (ml_tables task) ws ?e1 = Inr (infos, e')" "en_mailbox e' = Some mb3"
    "map thread_id infos = node_threads ws (here e)" "map worker_id infos = node_workers ws (here e)"
    "map local_id infos = map of_nat [0..<length infos]" "\<forall>i \<in> set infos. info_partitions i = pms"
    "\<forall>t \<in> set (node_threads ws (here e)). om_get (mb_queue_map mb3) t = Some (unat h)"
    using spawn_workers_ok[of ?e1 _ h, OF _ _ pms(1), of "mb1\<lparr>mb_barrier_count := k\<rparr>" ws] len L(2,4) free e1(3,5) by auto
  have "map_res (run_lambda task) is = Inr (map f is)" for "is"
    by (rule map_res_total) (simp add: run_lambda_def f)
  then have run: "engine_run junk q replies arrived task e qs = Inr (Some (map f infos), mb_barrier_messages junk mb0, e', qs1)"
    using spawn(1) bar1 by (simp add: engine_run_def assms(2-4,6))
  show ?thesis
  proof (intro exI[of _ f] exI[of _ infos] exI[of _ mb3] exI[of _ e'] exI[of _ qs1] conjI ballI)
    show "map (Some \<circ> thread_id) infos = map (om_get (ws_worker_thread ws)) (node_workers ws (here e))"
      using L(1)[of "here e"] spawn(3) by (simp flip: map_map)
    fix i assume i: "i \<in> set infos"
    then have t: "thread_id i \<in> set (node_threads ws (here e))" unfolding spawn(3)[symmetric] by simp
    then show "node_for_thread (thread_id i) = here e" using L(3) by simp
    show "om_get (mb_queue_map mb3) (thread_id i) = map_option unat (en_helper e)" using t spawn(7) e(2) by simp
    show "om_get (info_partitions i) t = om_get (en_partitions e) t" if "t \<in> set (ml_tables task)" for t
      using i that pms(2) spawn(6) by simp
  qed (use f run spawn L(2) in simp_all)
qed

definition demo_task :: "u32 ml_task" where
  "demo_task = \<lparr>ml_func = Some worker_id, ml_workers = [\<lparr>wa_node = 1, wa_workers = 1\<rparr>], ml_tables = [7]\<rparr>"

theorem run_pairs_workers_witness:
  "\<exists>e rs sent e' qs'. create_table False 0 u32_val 7 (pm_ranges two_ranges) SSP Store_vector 2 0 Rec_none demo_engine = Inr e
    \<and> engine_run demo_meta 5 rs demo_arrivals demo_task e (\<lambda>_. []) = Inr (Some [0], sent, e', qs')"
proof -
  obtain e srvs where e: "create_table False 0 u32_val 7 (pm_ranges two_ranges) SSP Store_vector 2 0 Rec_none demo_engine = Inr e"
    "engine_inv e" "en_mapper e = Some demo_mapper" "here e = 1" "om_get (en_partitions e) 7 \<noteq> None"
    "en_mailbox e = Some demo_box"
    using demo_table by blast
  obtain ws m' where ws: "allocate_workers (ml_workers demo_task) demo_mapper = Inr (ws, m')" "node_workers ws 1 = [0]"
    "workers_for 1 m' = [1100, 1101]"
    using demo_allocate by (auto simp: demo_task_def)
  have few: "sum_list (map (\<lambda>a. unat (wa_workers a)) (ml_workers demo_task)) \<le> 2 ^ 32" by (simp add: demo_task_def)
  let ?r = "reset_reply demo_meta 7 (new_message demo_meta)"
  have inv: "engine_inv (e\<lparr>en_mapper := Some m'\<rparr>)" by (rule engine_inv_allocated[OF e(2,3) ws(1) few])
  have "servers_for 1 m' = [1000]"
    using local_threads_props(7)[OF demo_mapper_inv ws(1) few, of 1] by (simp add: demo_mapper_def servers_for_def)
  then obtain e1 where "init_table demo_meta 5 [?r] 7 (ws_thread_ids ws) (e\<lparr>en_mapper := Some m'\<rparr>) = Inr (True, e1)"
    using init_table_returns[OF inv, of m' "[?r]" 7 demo_meta 5 "ws_thread_ids ws"] e(4) ws(3) by auto
  then have tabs: "init_tables demo_meta 5 (\<lambda>_. [?r]) 0 (ml_tables demo_task) (ws_thread_ids ws) (e\<lparr>en_mapper := Some m'\<rparr>) = Inr (True, e1)"
    by (simp add: demo_task_def)
  have set: "is_setup demo_task" "list_all (\<lambda>t. om_get (en_partitions e) t \<noteq> None) (ml_tables demo_task)"
    using e(5) by (simp_all add: is_setup_def demo_task_def)
  obtain f infos e2 sent qs2 where run: "ml_func demo_task = Some f"
    "engine_run demo_meta 5 (\<lambda>_. [?r]) demo_arrivals demo_task e (\<lambda>_. []) = Inr (Some (map f infos), sent, e2, qs2)"
    "map worker_id infos = node_workers ws (here e)"
    using run_pairs_workers[OF e(2,3) set(1) ws(1) few tabs set(2) e(6) demo_barrier_traffic] by blast
  have "f = worker_id" using run(1) by (simp add: demo_task_def)
  then have "map f infos = [0]" using run(3) e(4) ws(2) by simp
  then show ?thesis using run(2) e(1) by auto
qed

end
