(* ===== verification/Block_Assigner.thy ===== *)
theory Block_Assigner
  imports Bin_Stream "HOL-Library.List_Lexorder"
begin

text \<open>
  \<open>io/coordinator.cpp\<close>, \<open>io/hdfs_assigner.cpp\<close>: the master hands out the blocks of the files under a
  url to the loading threads, each block once and near its replicas where it can, and ends when all
  threads have said goodbye.  HDFS and ZeroMQ are not part of the sources: the listing of a directory,
  the hosts of a block and the frames of a message are arguments.  Which element an \<open>unordered_set\<close>
  has first is unspecified; \<open>pick\<close> chooses it.
\<close>

section \<open>The coordinator\<close>

type_synonym bytes = "u8 list"

definition block_request :: nat where "block_request = 301"
definition exit_request :: nat where "exit_request = 300"

text \<open>The frames of a question, as they are sent: four bytes of the \<open>size_t\<close> type.\<close>

definition question_frames :: "bin_stream \<Rightarrow> nat \<Rightarrow> bytes list" where
  "question_frames question ty = [[], take 4 (le_bytes 8 ty), bs_remained question]"

definition ask_master ::
  "('m \<Rightarrow> bytes list \<Rightarrow> (bytes list \<times> 'm) res) \<Rightarrow> bin_stream \<Rightarrow> nat \<Rightarrow> 'm \<Rightarrow> (bin_stream \<times> 'm) res"
where
  "ask_master master question ty m =
     bind_res (master m (question_frames question ty)) (\<lambda>(reply, m).
       if length reply < 2 then Inl Out_of_bounds else Inr (push_back_bytes (reply ! 1) bs_new, m))"

definition notify_master :: "bin_stream \<Rightarrow> nat \<Rightarrow> bytes list" where
  "notify_master = question_frames"

section \<open>State\<close>

record hdfs_file =
  hf_name :: bytes
  hf_is_file :: bool
  hf_size :: nat
  hf_block_size :: nat

record blk_desc =
  bd_file :: bytes
  bd_offset :: nat
  bd_location :: bytes

definition blk_eq :: "blk_desc \<Rightarrow> blk_desc \<Rightarrow> bool" where
  "blk_eq b c \<longleftrightarrow> bd_file b = bd_file c \<and> bd_offset b = bd_offset c \<and> bd_location b = bd_location b"

type_synonym locality = "(bytes, blk_desc list) omap"
type_synonym finish_counts = "(bytes, nat) omap \<times> nat"

record assigner =
  as_running :: bool
  as_fs :: bool
  as_finished :: "int list"
  as_alive :: int
  as_locality :: "(nat, (bytes, locality) omap) omap"
  as_finish :: "(nat, (bytes, finish_counts) omap) omap"

text \<open>\<open>junk\<close> is the uninitialised \<open>num_workers_alive_\<close>; \<open>connected\<close> says for each attempt whether HDFS answers.\<close>

definition as_new :: "int \<Rightarrow> bool list \<Rightarrow> assigner" where
  "as_new junk connected = \<lparr>as_running = True, as_fs = list_ex (\<lambda>b. b) (take 3 connected), as_finished = [],
     as_alive = junk, as_locality = [], as_finish = []\<rparr>"

definition as_halt :: "assigner \<Rightarrow> assigner" where
  "as_halt a = a\<lparr>as_running := False\<rparr>"

text \<open>An \<open>int\<close> used as a \<open>size_t\<close>.\<close>

definition to_size :: "int \<Rightarrow> nat" where
  "to_size x = nat (x mod 2 ^ 64)"

section \<open>Browsing\<close>

text \<open>The offsets of the blocks; with a block size of 0 the loop would not end, and HDFS has none.\<close>

function block_offsets :: "nat \<Rightarrow> nat \<Rightarrow> nat \<Rightarrow> nat list" where
  "block_offsets k sz bs = (if k < sz \<and> 0 < bs then k # block_offsets (k + bs) sz bs else [])"
  by pat_completeness auto
termination by (relation "measure (\<lambda>(k, sz, bs). sz - k)") auto

declare block_offsets.simps [simp del]

definition blk_insert :: "blk_desc \<Rightarrow> blk_desc list \<Rightarrow> blk_desc list" where
  "blk_insert b bs = (if list_ex (blk_eq b) bs then bs else bs @ [b])"

definition add_replica :: "bytes \<Rightarrow> nat \<Rightarrow> bytes \<Rightarrow> locality \<times> (bytes, nat) omap \<Rightarrow> locality \<times> (bytes, nat) omap" where
  "add_replica name k host = (\<lambda>(loc, fin).
     (om_set host (blk_insert \<lparr>bd_file = name @ [0], bd_offset = k, bd_location = host\<rparr> (get_or [] (om_get loc host))) loc,
      om_set host 0 fin))"

text \<open>The replicas of the files of a directory, in the order of the loops.\<close>

definition replicas :: "hdfs_file list \<Rightarrow> (bytes \<Rightarrow> nat \<Rightarrow> bytes list) \<Rightarrow> (bytes \<times> nat \<times> bytes) list" where
  "replicas infos locations =
     concat (map (\<lambda>f. concat (map (\<lambda>k. map (\<lambda>h. (hf_name f, k, h)) (locations (hf_name f) k))
       (block_offsets 0 (hf_size f) (hf_block_size f)))) (filter hf_is_file infos))"

definition get_locality :: "nat \<Rightarrow> bytes \<Rightarrow> assigner \<Rightarrow> locality" where
  "get_locality i url a = get_or [] (om_get (get_or [] (om_get (as_locality a) i)) url)"

definition put_locality :: "nat \<Rightarrow> bytes \<Rightarrow> locality \<Rightarrow> assigner \<Rightarrow> assigner" where
  "put_locality i url loc a = a\<lparr>as_locality := om_set i (om_set url loc (get_or [] (om_get (as_locality a) i))) (as_locality a)\<rparr>"

definition get_finish :: "nat \<Rightarrow> bytes \<Rightarrow> assigner \<Rightarrow> finish_counts" where
  "get_finish i url a = get_or ([], 0) (om_get (get_or [] (om_get (as_finish a) i)) url)"

definition put_finish :: "nat \<Rightarrow> bytes \<Rightarrow> finish_counts \<Rightarrow> assigner \<Rightarrow> assigner" where
  "put_finish i url f a = a\<lparr>as_finish := om_set i (om_set url f (get_or [] (om_get (as_finish a) i))) (as_finish a)\<rparr>"

definition browse_hdfs ::
  "(bytes \<Rightarrow> hdfs_file list) \<Rightarrow> (bytes \<Rightarrow> nat \<Rightarrow> bytes list) \<Rightarrow> nat \<Rightarrow> bytes \<Rightarrow> assigner \<Rightarrow> assigner"
where
  "browse_hdfs listing locations i url a =
     (if \<not> as_fs a then a
      else let (loc, fin) = fold (\<lambda>(name, k, host). add_replica name k host) (replicas (listing url) locations)
                              (get_locality i url a, fst (get_finish i url a))
           in put_finish i url (fin, snd (get_finish i url a)) (put_locality i url loc a))"

section \<open>Answering\<close>

fun remove_blk :: "bytes \<Rightarrow> nat \<Rightarrow> blk_desc list \<Rightarrow> blk_desc list" where
  "remove_blk f k [] = []"
| "remove_blk f k (b # bs) = (if bd_file b = f \<and> bd_offset b = k then bs else b # remove_blk f k bs)"

definition open_url ::
  "(bytes \<Rightarrow> hdfs_file list) \<Rightarrow> (bytes \<Rightarrow> nat \<Rightarrow> bytes list) \<Rightarrow> nat \<Rightarrow> bytes \<Rightarrow> assigner \<Rightarrow> assigner"
where
  "open_url listing locations i url a =
     (let reset = (\<lambda>a. put_finish i url (fst (get_finish i url a), 0) a);
          a = (if om_get (as_locality a) i = None then reset (browse_hdfs listing locations i url a) else a)
      in if om_get (get_or [] (om_get (as_locality a) i)) url = None then reset (browse_hdfs listing locations i url a) else a)"

definition select_host :: "bytes \<Rightarrow> locality \<Rightarrow> bytes option" where
  "select_host host loc =
     (if get_or [] (om_get loc host) \<noteq> [] then Some host else map_option fst (find (\<lambda>(h, bs). bs \<noteq> []) loc))"

definition refuse :: "nat \<Rightarrow> bytes \<Rightarrow> assigner \<Rightarrow> assigner" where
  "refuse i url a =
     (let n = snd (get_finish i url a) + 1;
          a = put_finish i url (fst (get_finish i url a), n) a
      in if n = to_size (as_alive a)
         then a\<lparr>as_locality := om_set i (om_del url (get_or [] (om_get (as_locality a) i))) (as_locality a)\<rparr>
         else a)"

definition take_block :: "(blk_desc list \<Rightarrow> nat) \<Rightarrow> bytes \<Rightarrow> locality \<Rightarrow> (bytes \<times> nat) \<times> locality" where
  "take_block pick h loc =
     (let bs = get_or [] (om_get loc h); b = bs ! (pick bs mod length bs)
      in ((bd_file b, bd_offset b), map (\<lambda>(h, bs). (h, remove_blk (bd_file b) (bd_offset b) bs)) loc))"

definition as_answer ::
  "(blk_desc list \<Rightarrow> nat) \<Rightarrow> (bytes \<Rightarrow> hdfs_file list) \<Rightarrow> (bytes \<Rightarrow> nat \<Rightarrow> bytes list) \<Rightarrow> bytes \<Rightarrow> bytes \<Rightarrow> int
     \<Rightarrow> assigner \<Rightarrow> (bytes \<times> nat) \<times> assigner"
where
  "as_answer pick listing locations host url ident a =
     (if \<not> as_fs a then (([], 0), a)
      else
        let i = to_size ident;
            a = open_url listing locations i url a;
            loc = om_set host (get_or [] (om_get (get_locality i url a) host)) (get_locality i url a)
        in case select_host host loc of
             None \<Rightarrow> (([], 0), refuse i url (put_locality i url loc a))
           | Some h \<Rightarrow> (let (r, loc) = take_block pick h loc in (r, put_locality i url loc a)))"

section \<open>Serving\<close>

definition get_request :: "(bytes \<times> bytes \<times> int \<times> int) getter" where
  "get_request = get_then get_string (\<lambda>url. get_then get_string (\<lambda>host. get_then (get_pod i32_pod) (\<lambda>n.
     get_then (get_pod i32_pod) (\<lambda>ident. get_return (url, host, n, ident)))))"

definition handle_block_request ::
  "(blk_desc list \<Rightarrow> nat) \<Rightarrow> (bytes \<Rightarrow> hdfs_file list) \<Rightarrow> (bytes \<Rightarrow> nat \<Rightarrow> bytes list) \<Rightarrow> bytes \<Rightarrow> bytes
     \<Rightarrow> assigner \<Rightarrow> (bytes list \<times> assigner) res"
where
  "handle_block_request pick listing locations client body a =
     bind_res (get_request (push_back_bytes body bs_new)) (\<lambda>((url, host, n, ident), _).
       let (ret, a) = as_answer pick listing locations host url ident (a\<lparr>as_alive := n\<rparr>)
       in Inr ([client, [], bs_remained (put_pod u64_pod (snd ret) (put_string (fst ret) bs_new))], a))"

definition handle_exit :: "bytes \<Rightarrow> assigner \<Rightarrow> assigner res" where
  "handle_exit body a =
     bind_res (get_then get_string (\<lambda>_. get_pod i32_pod) (push_back_bytes body bs_new)) (\<lambda>(worker, _).
       let a = a\<lparr>as_finished := insort_insert worker (as_finished a)\<rparr>
       in Inr (if length (as_finished a) = to_size (as_alive a) then as_halt a else a))"

text \<open>A message is the name of the client, the type and the body; the empty frame between is dropped.\<close>

definition serve_message ::
  "(blk_desc list \<Rightarrow> nat) \<Rightarrow> (bytes \<Rightarrow> hdfs_file list) \<Rightarrow> (bytes \<Rightarrow> nat \<Rightarrow> bytes list) \<Rightarrow> bytes \<times> bytes \<times> bytes
     \<Rightarrow> assigner \<Rightarrow> (bytes list list \<times> assigner) res"
where
  "serve_message pick listing locations = (\<lambda>(client, ty, body) a.
     if length ty < 4 then Inl Out_of_bounds
     else if pod_dec i32_pod (take 4 ty) = int block_request then
       bind_res (handle_block_request pick listing locations client body a) (\<lambda>(reply, a). Inr ([reply], a))
     else if pod_dec i32_pod (take 4 ty) = int exit_request then
       bind_res (handle_exit body a) (\<lambda>a. Inr ([], a))
     else Inl (Check_failed ''Serve: Unknown message''))"

fun as_serve ::
  "(blk_desc list \<Rightarrow> nat) \<Rightarrow> (bytes \<Rightarrow> hdfs_file list) \<Rightarrow> (bytes \<Rightarrow> nat \<Rightarrow> bytes list) \<Rightarrow> (bytes \<times> bytes \<times> bytes) list
     \<Rightarrow> assigner \<Rightarrow> (bytes list list \<times> (bytes \<times> bytes \<times> bytes) list \<times> assigner) res"
where
  "as_serve pick listing locations [] a = Inr ([], [], a)"
| "as_serve pick listing locations (msg # msgs) a =
     (if \<not> as_running a then Inr ([], msg # msgs, a)
      else bind_res (serve_message pick listing locations msg a) (\<lambda>(rs, a).
           bind_res (as_serve pick listing locations msgs a) (\<lambda>(rs', rest, a). Inr (rs @ rs', rest, a))))"

section \<open>What is still to be handed out\<close>

text \<open>A block is a file and an offset; the localities of a url hold a replica of each block on some hosts.\<close>

definition blk_key :: "blk_desc \<Rightarrow> bytes \<times> nat" where
  "blk_key b = (bd_file b, bd_offset b)"

definition pending :: "locality \<Rightarrow> (bytes \<times> nat) set" where
  "pending loc = (\<Union>p \<in> set loc. blk_key ` set (snd p))"

definition loc_wf :: "locality \<Rightarrow> bool" where
  "loc_wf loc \<longleftrightarrow> om_wf loc \<and> (\<forall>p \<in> set loc. distinct (map blk_key (snd p)))"

definition all_blocks :: "hdfs_file list \<Rightarrow> (bytes \<Rightarrow> nat \<Rightarrow> bytes list) \<Rightarrow> (bytes \<times> nat) set" where
  "all_blocks infos locations = (\<lambda>(name, k, host). (name @ [0], k)) ` set (replicas infos locations)"

lemma pending_get: "om_wf loc \<Longrightarrow> x \<in> pending loc \<longleftrightarrow> (\<exists>h. x \<in> blk_key ` set (get_or [] (om_get loc h)))"
proof
  assume wf: "om_wf loc" and "x \<in> pending loc"
  then obtain h bs where "(h, bs) \<in> set loc" "x \<in> blk_key ` set bs" by (force simp: pending_def)
  then show "\<exists>h. x \<in> blk_key ` set (get_or [] (om_get loc h))" by (intro exI[of _ h]) (simp add: om_mem_iff[OF wf])
next
  assume wf: "om_wf loc" and "\<exists>h. x \<in> blk_key ` set (get_or [] (om_get loc h))"
  then obtain h where h: "x \<in> blk_key ` set (get_or [] (om_get loc h))" by blast
  then obtain bs where "om_get loc h = Some bs" by (cases "om_get loc h") auto
  then show "x \<in> pending loc" using h om_get_Some_mem[of loc h bs] by (force simp: pending_def)
qed

lemma loc_wf_get: "loc_wf loc \<longleftrightarrow> om_wf loc \<and> (\<forall>h. distinct (map blk_key (get_or [] (om_get loc h))))"
proof (cases "om_wf loc")
  case True
  have "(\<forall>p \<in> set loc. distinct (map blk_key (snd p))) \<longleftrightarrow> (\<forall>h bs. om_get loc h = Some bs \<longrightarrow> distinct (map blk_key bs))"
    by (auto simp: om_mem_iff[OF True, symmetric])
  also have "\<dots> \<longleftrightarrow> (\<forall>h. distinct (map blk_key (get_or [] (om_get loc h))))"
    by (auto simp: get_or_def split: option.splits)
  finally show ?thesis using True by (simp add: loc_wf_def)
qed (simp add: loc_wf_def)

lemma finite_pending [simp]: "finite (pending loc)"
  by (simp add: pending_def)

lemma set_blk_insert: "blk_key ` set (blk_insert b bs) = insert (blk_key b) (blk_key ` set bs)"
  and distinct_blk_insert: "distinct (map blk_key bs) \<Longrightarrow> distinct (map blk_key (blk_insert b bs))"
proof -
  have "list_ex (blk_eq b) bs \<longleftrightarrow> blk_key b \<in> blk_key ` set bs"
    by (auto simp: list_ex_iff blk_eq_def blk_key_def)
  then show "blk_key ` set (blk_insert b bs) = insert (blk_key b) (blk_key ` set bs)"
    "distinct (map blk_key bs) \<Longrightarrow> distinct (map blk_key (blk_insert b bs))"
    by (auto simp: blk_insert_def)
qed

lemma add_replica_props:
  assumes "loc_wf loc" "add_replica name k host (loc, fin) = (loc', fin')"
  shows "loc_wf loc' \<and> pending loc' = insert (name @ [0], k) (pending loc)"
proof -
  let ?bs = "get_or [] (om_get loc host)"
  let ?b = "\<lparr>bd_file = name @ [0], bd_offset = k, bd_location = host\<rparr>"
  have key: "blk_key ?b = (name @ [0], k)" by (simp add: blk_key_def)
  have wf: "om_wf loc" "\<And>h. distinct (map blk_key (get_or [] (om_get loc h)))" using assms(1) by (simp_all add: loc_wf_get)
  have l: "loc' = om_set host (blk_insert ?b ?bs) loc" using assms(2) by (simp add: add_replica_def)
  have wf': "om_wf loc'" using wf(1) by (simp add: l)
  have get: "get_or [] (om_get loc' h) = (if h = host then blk_insert ?b ?bs else get_or [] (om_get loc h))" for h
    by (simp add: l)
  have "loc_wf loc'" using wf' wf(2) by (simp add: loc_wf_get get distinct_blk_insert)
  moreover have "x \<in> pending loc' \<longleftrightarrow> x \<in> insert (name @ [0], k) (pending loc)" for x
  proof -
    have "x \<in> blk_key ` set (get_or [] (om_get loc' h))
        \<longleftrightarrow> h = host \<and> x = (name @ [0], k) \<or> x \<in> blk_key ` set (get_or [] (om_get loc h))" for h
      by (auto simp: get set_blk_insert key)
    then show ?thesis using wf(1) wf' by (simp add: pending_get) blast
  qed
  ultimately show ?thesis by blast
qed

lemma fold_add_replica:
  assumes "loc_wf loc" "fold (\<lambda>(name, k, host). add_replica name k host) rs (loc, fin) = (loc', fin')"
  shows "loc_wf loc' \<and> pending loc' = (\<lambda>(name, k, host). (name @ [0], k)) ` set rs \<union> pending loc"
  using assms
proof (induction rs arbitrary: loc fin)
  case Nil
  then show ?case by simp
next
  case (Cons r rs)
  obtain name k host where r: "r = (name, k, host)" by (cases r)
  obtain loc1 fin1 where one: "add_replica name k host (loc, fin) = (loc1, fin1)" by force
  have "loc_wf loc1 \<and> pending loc1 = insert (name @ [0], k) (pending loc)"
    by (rule add_replica_props[OF Cons.prems(1) one])
  then show ?case using Cons.IH[of loc1 fin1] Cons.prems(2) by (auto simp: r one)
qed

lemma remove_blk_eq: "distinct (map blk_key bs) \<Longrightarrow> remove_blk f k bs = filter (\<lambda>b. blk_key b \<noteq> (f, k)) bs"
proof (induction bs)
  case Nil
  then show ?case by simp
next
  case (Cons b bs)
  show ?case
  proof (cases "blk_key b = (f, k)")
    case True
    then have "(f, k) \<notin> blk_key ` set bs" using Cons.prems by simp
    then have "filter (\<lambda>b. blk_key b \<noteq> (f, k)) bs = bs" by (force simp: filter_id_conv)
    with True show ?thesis by (simp add: blk_key_def)
  next
    case False
    with Cons show ?thesis by (auto simp: blk_key_def)
  qed
qed

lemma remove_everywhere:
  assumes "loc_wf loc"
  shows "loc_wf (map (\<lambda>(h, bs). (h, remove_blk f k bs)) loc)"
    "pending (map (\<lambda>(h, bs). (h, remove_blk f k bs)) loc) = pending loc - {(f, k)}"
proof -
  have eq: "map (\<lambda>(h, bs). (h, remove_blk f k bs)) loc = map (\<lambda>(h, bs). (h, filter (\<lambda>b. blk_key b \<noteq> (f, k)) bs)) loc"
  proof (rule map_cong[OF refl])
    fix p assume "p \<in> set loc"
    then have "distinct (map blk_key (snd p))" using assms by (simp add: loc_wf_def)
    then show "(case p of (h, bs) \<Rightarrow> (h, remove_blk f k bs)) = (case p of (h, bs) \<Rightarrow> (h, filter (\<lambda>b. blk_key b \<noteq> (f, k)) bs))"
      by (cases p) (simp add: remove_blk_eq)
  qed
  have hosts: "map fst (map (\<lambda>(h, bs). (h, remove_blk f k bs)) loc) = map fst loc" by (induction loc) auto
  have "om_wf (map (\<lambda>(h, bs). (h, remove_blk f k bs)) loc)"
    using assms unfolding om_wf_def hosts by (simp add: loc_wf_def om_wf_def)
  then show "loc_wf (map (\<lambda>(h, bs). (h, remove_blk f k bs)) loc)"
    using assms unfolding loc_wf_def eq by (auto simp: distinct_map_filter)
  show "pending (map (\<lambda>(h, bs). (h, remove_blk f k bs)) loc) = pending loc - {(f, k)}"
  proof -
    have "blk_key ` set (filter (\<lambda>b. blk_key b \<noteq> (f, k)) bs) = blk_key ` set bs - {(f, k)}" for bs by auto
    then show ?thesis unfolding eq pending_def by (auto simp: case_prod_beta simp del: set_filter)
  qed
qed

section \<open>The url of a request\<close>

text \<open>\<open>serving i url p n a\<close>: the blocks \<open>p\<close> are left, and \<open>n\<close> requests have been refused.\<close>

definition opened :: "nat \<Rightarrow> bytes \<Rightarrow> assigner \<Rightarrow> bool" where
  "opened i url a \<longleftrightarrow> om_get (get_or [] (om_get (as_locality a) i)) url \<noteq> None"

definition serving :: "nat \<Rightarrow> bytes \<Rightarrow> (bytes \<times> nat) set \<Rightarrow> nat \<Rightarrow> assigner \<Rightarrow> bool" where
  "serving i url p n a \<longleftrightarrow> as_fs a \<and> opened i url a \<and> loc_wf (get_locality i url a)
     \<and> pending (get_locality i url a) = p \<and> snd (get_finish i url a) = n"

lemma locality_simps [simp]:
  "get_locality i url (put_locality i url loc a) = loc" "get_locality i url (put_finish i url f a) = get_locality i url a"
  "get_finish i url (put_finish i url f a) = f" "get_finish i url (put_locality i url loc a) = get_finish i url a"
  "opened i url (put_locality i url loc a)" "opened i url (put_finish i url f a) = opened i url a"
  "as_fs (put_locality i url loc a) = as_fs a" "as_fs (put_finish i url f a) = as_fs a"
  "as_alive (put_locality i url loc a) = as_alive a" "as_alive (put_finish i url f a) = as_alive a"
  "as_running (put_locality i url loc a) = as_running a" "as_running (put_finish i url f a) = as_running a"
  "as_finished (put_locality i url loc a) = as_finished a" "as_finished (put_finish i url f a) = as_finished a"
  by (simp_all add: get_locality_def put_locality_def get_finish_def put_finish_def opened_def)

lemma unopened_empty: "\<not> opened i url a \<Longrightarrow> get_locality i url a = []"
  by (simp add: opened_def get_locality_def)

lemma open_url_serving:
  assumes "as_fs a" "\<not> opened i url a"
  shows "serving i url (all_blocks (listing url) locations) 0 (open_url listing locations i url a)
    \<and> as_alive (open_url listing locations i url a) = as_alive a
    \<and> as_running (open_url listing locations i url a) = as_running a
    \<and> as_finished (open_url listing locations i url a) = as_finished a"
proof -
  obtain loc fin where f: "fold (\<lambda>(name, k, host). add_replica name k host) (replicas (listing url) locations)
      ([], fst (get_finish i url a)) = (loc, fin)" by force
  have loc: "loc_wf loc \<and> pending loc = all_blocks (listing url) locations"
    using fold_add_replica[OF _ f] by (simp add: loc_wf_def pending_def all_blocks_def)
  have b: "browse_hdfs listing locations i url a = put_finish i url (fin, snd (get_finish i url a)) (put_locality i url loc a)"
    using assms f by (simp add: browse_hdfs_def unopened_empty)
  let ?b = "put_finish i url (fin, 0) (put_finish i url (fin, snd (get_finish i url a)) (put_locality i url loc a))"
  have "om_get (get_or [] (om_get (as_locality ?b) i)) url \<noteq> None"
    using locality_simps(5)[of i url loc a] by (simp add: opened_def put_finish_def)
  then have "open_url listing locations i url a = ?b"
    using assms(2) by (auto simp: open_url_def b Let_def opened_def)
  then show ?thesis using loc assms(1) by (simp add: serving_def)
qed

lemma open_url_opened: "opened i url a \<Longrightarrow> open_url listing locations i url a = a"
  by (auto simp: open_url_def opened_def Let_def)

lemma select_host_props:
  assumes "om_wf loc"
  shows "select_host host loc = None \<longleftrightarrow> pending loc = {}"
    "select_host host loc = Some h \<Longrightarrow> get_or [] (om_get loc h) \<noteq> []"
proof -
  have "find (\<lambda>(h, bs). bs \<noteq> []) loc = None \<longleftrightarrow> pending loc = {}" by (auto simp: find_None_iff pending_def)
  moreover have "pending loc \<noteq> {}" if "get_or [] (om_get loc host) \<noteq> []"
  proof -
    have "blk_key (hd (get_or [] (om_get loc host))) \<in> pending loc"
      using that assms by (auto simp: pending_get intro!: exI[of _ host])
    then show ?thesis by blast
  qed
  ultimately show "select_host host loc = None \<longleftrightarrow> pending loc = {}" by (auto simp: select_host_def)
  assume sel: "select_host host loc = Some h"
  show "get_or [] (om_get loc h) \<noteq> []"
  proof (cases "get_or [] (om_get loc host) \<noteq> []")
    case True
    then show ?thesis using sel by (simp add: select_host_def)
  next
    case False
    then obtain bs where "find (\<lambda>(h, bs). bs \<noteq> []) loc = Some (h, bs)" using sel by (auto simp: select_host_def)
    then have "(h, bs) \<in> set loc \<and> bs \<noteq> []" unfolding find_Some_iff by (metis (mono_tags, lifting) case_prod_conv nth_mem)
    then show ?thesis using assms by (auto simp: om_mem_iff)
  qed
qed

lemma take_block_props:
  assumes "loc_wf loc" "get_or [] (om_get loc h) \<noteq> []" "take_block pick h loc = (r, loc')"
  shows "r \<in> pending loc \<and> loc_wf loc' \<and> pending loc' = pending loc - {r}"
proof -
  let ?bs = "get_or [] (om_get loc h)"
  let ?b = "?bs ! (pick ?bs mod length ?bs)"
  have r: "r = blk_key ?b" and l: "loc' = map (\<lambda>(h, bs). (h, remove_blk (bd_file ?b) (bd_offset ?b) bs)) loc"
    using assms(3) by (auto simp: take_block_def Let_def blk_key_def)
  have "?b \<in> set ?bs" using assms(2) by simp
  then have "r \<in> pending loc" using assms(1) by (auto simp: r loc_wf_def pending_get)
  then show ?thesis using remove_everywhere[OF assms(1)] by (simp add: r l blk_key_def)
qed

lemma refuse_props:
  "snd (get_finish i url a) + 1 = to_size (as_alive a) \<Longrightarrow> \<not> opened i url (refuse i url a) \<and> as_fs (refuse i url a) = as_fs a"
  "snd (get_finish i url a) + 1 \<noteq> to_size (as_alive a) \<Longrightarrow> serving i url p n a \<Longrightarrow> serving i url p (n + 1) (refuse i url a)"
  by (simp_all add: refuse_def Let_def opened_def, simp add: serving_def)

lemma as_answer_serving:
  assumes s: "serving (to_size ident) url p n (open_url listing locations (to_size ident) url a)" and fs: "as_fs a"
    and res: "as_answer pick listing locations host url ident a = (r, a')"
    and alive: "as_alive (open_url listing locations (to_size ident) url a) = as_alive a"
  shows "p \<noteq> {} \<Longrightarrow> r \<in> p \<and> serving (to_size ident) url (p - {r}) n a'"
    "p = {} \<Longrightarrow> r = ([], 0) \<and> (if n + 1 = to_size (as_alive a) then as_fs a' \<and> \<not> opened (to_size ident) url a'
       else serving (to_size ident) url {} (n + 1) a')"
proof -
  let ?i = "to_size ident"
  let ?a = "open_url listing locations ?i url a"
  let ?loc0 = "get_locality ?i url ?a"
  define loc where "loc = om_set host (get_or [] (om_get ?loc0 host)) ?loc0"
  have get: "get_or [] (om_get loc h) = get_or [] (om_get ?loc0 h)" for h by (simp add: loc_def)
  have w: "om_wf ?loc0" "om_wf loc" using s by (simp_all add: serving_def loc_wf_get loc_def)
  have wf: "loc_wf loc" using s w unfolding serving_def loc_wf_get get by blast
  have "x \<in> pending loc \<longleftrightarrow> x \<in> pending ?loc0" for x using w by (simp add: pending_get get)
  then have p: "pending loc = p" using s by (auto simp: serving_def)
  have ans: "(r, a') = (case select_host host loc of
             None \<Rightarrow> (([], 0), refuse ?i url (put_locality ?i url loc ?a))
           | Some h \<Rightarrow> (let (r, loc) = take_block pick h loc in (r, put_locality ?i url loc ?a)))"
    using fs unfolding res[symmetric] by (simp only: as_answer_def Let_def loc_def not_True_eq_False if_False)
  have fin: "snd (get_finish ?i url ?a) = n" using s by (simp add: serving_def)
  { assume "p \<noteq> {}"
    then obtain h where h: "select_host host loc = Some h"
      using select_host_props(1)[OF w(2), of host] p by (cases "select_host host loc") auto
    obtain r1 loc1 where t: "take_block pick h loc = (r1, loc1)" by (cases "take_block pick h loc")
    have "r = r1" "a' = put_locality ?i url loc1 ?a" using ans by (simp_all add: h t)
    then show "r \<in> p \<and> serving ?i url (p - {r}) n a'"
      using take_block_props[OF wf select_host_props(2)[OF w(2) h] t] s by (simp add: serving_def p) }
  assume "p = {}"
  then have "select_host host loc = None" using select_host_props(1)[OF w(2)] p by simp
  then have "r = ([], 0)" "a' = refuse ?i url (put_locality ?i url loc ?a)" using ans by simp_all
  then show "r = ([], 0) \<and> (if n + 1 = to_size (as_alive a) then as_fs a' \<and> \<not> opened ?i url a' else serving ?i url {} (n + 1) a')"
  proof (cases "n + 1 = to_size (as_alive a)")
    case True
    then show ?thesis
      using refuse_props(1)[of ?i url "put_locality ?i url loc ?a"] s \<open>r = ([], 0)\<close> \<open>a' = _\<close>
      by (simp add: fin alive serving_def)
  next
    case False
    have "serving ?i url {} n (put_locality ?i url loc ?a)" using s wf \<open>p = {}\<close> by (simp add: serving_def p)
    then show ?thesis
      using refuse_props(2)[of ?i url "put_locality ?i url loc ?a" "{}" n] False \<open>r = ([], 0)\<close> \<open>a' = _\<close>
      by (simp add: fin alive)
  qed
qed

section \<open>The protocol\<close>

text \<open>What a loading thread asks, as bytes and as a message, and what the reply holds.\<close>

definition block_question :: "bytes \<Rightarrow> bytes \<Rightarrow> int \<Rightarrow> int \<Rightarrow> bin_stream" where
  "block_question url host n ident =
     put_pod i32_pod ident (put_pod i32_pod n (put_string host (put_string url bs_new)))"

definition request_message :: "bytes \<Rightarrow> bytes \<Rightarrow> bytes \<Rightarrow> int \<Rightarrow> int \<Rightarrow> bytes \<times> bytes \<times> bytes" where
  "request_message client url host n ident =
     (let fs = question_frames (block_question url host n ident) block_request in (client, fs ! 1, fs ! 2))"

definition reply_bytes :: "bytes \<times> nat \<Rightarrow> bytes" where
  "reply_bytes r = bs_remained (put_pod u64_pod (snd r) (put_string (fst r) bs_new))"

lemma question_body: "bs_remained (block_question url host n ident)
    = enc_string url @ enc_string host @ pod_enc i32_pod n @ pod_enc i32_pod ident"
  by (simp add: block_question_def put_string_enc put_i32_enc push_back_bytes_append bs_new_def
      push_back_bytes_def bs_remained_def)

lemma take_le_bytes: "k \<le> n \<Longrightarrow> take k (le_bytes n x) = le_bytes k x"
proof (induction n arbitrary: k x)
  case 0
  then show ?case by simp
next
  case (Suc n)
  then show ?case by (cases k) simp_all
qed

lemma type_code: "x < 2 ^ 31 \<Longrightarrow> pod_dec i32_pod (take 4 (take 4 (le_bytes 8 x))) = int x"
proof -
  assume x: "x < 2 ^ 31"
  have "take 4 (le_bytes 8 x) = le_bytes 4 x" by (rule take_le_bytes) simp
  moreover have "le_bytes 4 x = pod_enc i32_pod (int x)"
    using x by (simp add: i32_pod_def to_u32_def unat_of_nat_small)
  moreover have "length (le_bytes 4 x) = 4" by simp
  ultimately show ?thesis using i32_pod.dec_enc[of "int x"] x by (simp add: in_i32_def)
qed

lemma read_request:
  assumes "length url < 2 ^ 64" "length host < 2 ^ 64" "in_i32 n" "in_i32 ident"
  shows "\<exists>s. get_request (push_back_bytes (bs_remained (block_question url host n ident)) bs_new) = Inr ((url, host, n, ident), s)"
proof -
  have "reads get_request (url, host, n, ident) (enc_string url @ enc_string host @ pod_enc i32_pod n @ pod_enc i32_pod ident @ [])"
    unfolding get_request_def
    by (intro reads_then[OF string_ser.get_enc[OF assms(1)]] reads_then[OF string_ser.get_enc[OF assms(2)]]
      reads_then[OF i32_pod.reads_pod[OF assms(3)]] reads_then[OF i32_pod.reads_pod[OF assms(4)]] reads_return)
  from readsD[OF this, of "push_back_bytes (enc_string url @ enc_string host @ pod_enc i32_pod n @ pod_enc i32_pod ident) bs_new" "[]"]
  show ?thesis unfolding question_body by (auto simp: push_back_bytes_def bs_new_def bs_remained_def)
qed

lemma serve_request:
  assumes "length url < 2 ^ 64" "length host < 2 ^ 64" "in_i32 n" "in_i32 ident"
    "as_answer pick listing locations host url ident (a\<lparr>as_alive := n\<rparr>) = (r, a')"
  shows "serve_message pick listing locations (request_message client url host n ident) a
    = Inr ([[client, [], reply_bytes r]], a')"
  using read_request[OF assms(1-4)] assms(5) type_code[of block_request]
  by (auto simp: serve_message_def request_message_def question_frames_def Let_def handle_block_request_def
      reply_bytes_def block_request_def)

lemma as_answer_frame:
  assumes "as_answer pick listing locations host url ident a = (r, a')"
  shows "as_running a' = as_running a \<and> as_fs a' = as_fs a"
proof -
  have "as_running (browse_hdfs listing locations i url a) = as_running a \<and> as_fs (browse_hdfs listing locations i url a) = as_fs a" for i a
    by (simp add: browse_hdfs_def Let_def case_prod_beta)
  then have "as_running (open_url listing locations i url a) = as_running a \<and> as_fs (open_url listing locations i url a) = as_fs a" for i a
    by (simp add: open_url_def Let_def)
  then show ?thesis
    using assms by (auto simp: as_answer_def Let_def refuse_def case_prod_beta split: if_splits option.splits)
qed

lemma to_size_pos: "0 \<le> n \<Longrightarrow> in_i32 n \<Longrightarrow> to_size n = nat n"
  by (simp add: to_size_def in_i32_def)

text \<open>The state in which the next request for the url, of \<open>n\<close> threads, is answered: the blocks \<open>p\<close> are left, and \<open>k\<close> threads
  have heard that none is.\<close>

definition ready_to_serve ::
  "(bytes \<Rightarrow> hdfs_file list) \<Rightarrow> (bytes \<Rightarrow> nat \<Rightarrow> bytes list) \<Rightarrow> int \<Rightarrow> bytes \<Rightarrow> int \<Rightarrow> (bytes \<times> nat) set \<Rightarrow> nat \<Rightarrow> assigner \<Rightarrow> bool"
where
  "ready_to_serve listing locations ident url n p k a \<longleftrightarrow> as_fs a \<and> as_running a
     \<and> serving (to_size ident) url p k (open_url listing locations (to_size ident) url (a\<lparr>as_alive := n\<rparr>))
     \<and> as_alive (open_url listing locations (to_size ident) url (a\<lparr>as_alive := n\<rparr>)) = n"

lemma serving_ready:
  assumes "serving (to_size ident) url p k a" "as_fs a" "as_running a"
  shows "ready_to_serve listing locations ident url n p k a"
proof -
  have s: "serving (to_size ident) url p k (a\<lparr>as_alive := n\<rparr>)"
    using assms(1) by (simp add: serving_def opened_def get_locality_def get_finish_def)
  then have "open_url listing locations (to_size ident) url (a\<lparr>as_alive := n\<rparr>) = a\<lparr>as_alive := n\<rparr>"
    by (intro open_url_opened) (simp add: serving_def)
  then show ?thesis using s assms(2,3) by (simp add: ready_to_serve_def)
qed

text \<open>One request.\<close>

lemma serve_one:
  assumes "0 < n" "in_i32 n" "in_i32 ident" "length url < 2 ^ 64" "length h < 2 ^ 64"
    and ready: "ready_to_serve listing locations ident url n p k a"
  obtains r a1 where "serve_message pick listing locations (request_message c url h n ident) a = Inr ([[c, [], reply_bytes r]], a1)"
    "p \<noteq> {} \<Longrightarrow> r \<in> p \<and> ready_to_serve listing locations ident url n (p - {r}) k a1"
    "p = {} \<Longrightarrow> r = ([], 0) \<and> (if k + 1 = nat n then \<not> opened (to_size ident) url a1 else ready_to_serve listing locations ident url n {} (k + 1) a1)"
proof -
  let ?a = "a\<lparr>as_alive := n\<rparr>"
  obtain r a1 where ans: "as_answer pick listing locations h url ident ?a = (r, a1)"
    by (cases "as_answer pick listing locations h url ident ?a")
  have st: "serving (to_size ident) url p k (open_url listing locations (to_size ident) url ?a)" "as_fs ?a"
    "as_alive (open_url listing locations (to_size ident) url ?a) = as_alive ?a" using ready by (simp_all add: ready_to_serve_def)
  note step = as_answer_serving[OF st(1,2) ans st(3)]
  have fr: "as_fs a1" "as_running a1" using as_answer_frame[OF ans] ready by (simp_all add: ready_to_serve_def)
  have size: "to_size n = nat n" using to_size_pos[of n] assms(1,2) by simp
  show ?thesis
  proof (rule that[OF serve_request[OF assms(4,5,2,3) ans]])
    show "r \<in> p \<and> ready_to_serve listing locations ident url n (p - {r}) k a1" if "p \<noteq> {}"
      using step(1)[OF that] serving_ready[OF _ fr] by blast
    show "r = ([], 0) \<and> (if k + 1 = nat n then \<not> opened (to_size ident) url a1 else ready_to_serve listing locations ident url n {} (k + 1) a1)" if "p = {}"
      using step(2)[OF that] serving_ready[OF _ fr] size by auto
  qed
qed

lemma ready_running: "ready_to_serve listing locations ident url n p k a \<Longrightarrow> as_running a"
  by (simp add: ready_to_serve_def)

text \<open>When no block is left, every thread hears it once, and the last one closes the url.\<close>

lemma serve_finished:
  assumes n: "0 < n" "in_i32 n" "in_i32 ident" "length url < 2 ^ 64"
  shows "ready_to_serve listing locations ident url n {} k a \<Longrightarrow> list_all (\<lambda>(c, h). length h < 2 ^ 64) reqs \<Longrightarrow> k < nat n
    \<Longrightarrow> length reqs \<le> nat n - k \<Longrightarrow> reqs \<noteq> [] \<Longrightarrow>
    \<exists>rs a'. as_serve pick listing locations (map (\<lambda>(c, h). request_message c url h n ident) reqs) a
          = Inr (map2 (\<lambda>(c, h) r. [c, [], reply_bytes r]) reqs rs, [], a')
      \<and> length rs = length reqs \<and> list_all (\<lambda>r. r = ([], 0)) rs \<and> (length reqs = nat n - k \<longrightarrow> \<not> opened (to_size ident) url a')"
proof (induction reqs arbitrary: a k)
  case (Cons q reqs)
  obtain c h where q: "q = (c, h)" "length h < 2 ^ 64" using Cons.prems(2) by (cases q) auto
  obtain a1 where one: "serve_message pick listing locations (request_message c url h n ident) a = Inr ([[c, [], reply_bytes ([], 0)]], a1)"
    "if k + 1 = nat n then \<not> opened (to_size ident) url a1 else ready_to_serve listing locations ident url n {} (k + 1) a1"
    using serve_one[where pick = pick and c = c, OF n q(2) Cons.prems(1)] by metis
  note run = one(1) ready_running[OF Cons.prems(1)]
  show ?case
  proof (cases "reqs = []")
    case True
    then show ?thesis using run one(2) Cons.prems(3) by (auto simp: q(1) intro!: exI[of _ "[([], 0)]"] exI[of _ a1])
  next
    case False
    then have more: "k + 1 < nat n" "length reqs \<le> nat n - (k + 1)" using Cons.prems(3,4) by (cases reqs; simp)+
    then obtain rs a' where "as_serve pick listing locations (map (\<lambda>(c, h). request_message c url h n ident) reqs) a1
          = Inr (map2 (\<lambda>(c, h) r. [c, [], reply_bytes r]) reqs rs, [], a')"
      "length rs = length reqs" "list_all (\<lambda>r. r = ([], 0)) rs" "length reqs = nat n - (k + 1) \<longrightarrow> \<not> opened (to_size ident) url a'"
      using Cons.IH[of "k + 1" a1] one(2) Cons.prems(2) False by auto
    then show ?thesis using run more by (auto simp: q(1) intro!: exI[of _ "([], 0) # rs"] exI[of _ a'])
  qed
qed simp

lemma serve_requests:
  assumes n: "0 < n" "in_i32 n" "in_i32 ident" "length url < 2 ^ 64"
  shows "ready_to_serve listing locations ident url n p k a \<Longrightarrow> list_all (\<lambda>(c, h). length h < 2 ^ 64) reqs
    \<Longrightarrow> finite p \<Longrightarrow> k < nat n \<Longrightarrow> length reqs \<le> card p + (nat n - k) \<Longrightarrow> reqs \<noteq> [] \<Longrightarrow>
    \<exists>rs a'. as_serve pick listing locations (map (\<lambda>(c, h). request_message c url h n ident) reqs) a
          = Inr (map2 (\<lambda>(c, h) r. [c, [], reply_bytes r]) reqs rs, [], a')
      \<and> length rs = length reqs \<and> distinct (take (card p) rs) \<and> set (take (card p) rs) \<subseteq> p
      \<and> list_all (\<lambda>r. r = ([], 0)) (drop (card p) rs)
      \<and> (length reqs = card p + (nat n - k) \<longrightarrow> \<not> opened (to_size ident) url a')"
proof (induction reqs arbitrary: a p)
  case (Cons q reqs)
  show ?case
  proof (cases "p = {}")
    case True
    then show ?thesis using serve_finished[OF n, of listing locations k a "q # reqs" pick] Cons.prems by simp
  next
    case False
    obtain c h where q: "q = (c, h)" "length h < 2 ^ 64" using Cons.prems(2) by (cases q) auto
    obtain r a1 where one: "serve_message pick listing locations (request_message c url h n ident) a = Inr ([[c, [], reply_bytes r]], a1)"
      "r \<in> p" "ready_to_serve listing locations ident url n (p - {r}) k a1"
      using serve_one[where pick = pick and c = c, OF n q(2) Cons.prems(1)] False by metis
    note run = one(1) ready_running[OF Cons.prems(1)]
    define m where "m = card (p - {r})"
    have card: "card p = Suc m" unfolding m_def using one(2) Cons.prems(3) card.remove[of p r] by blast
    show ?thesis
    proof (cases "reqs = []")
      case True
      then show ?thesis using run one(2) Cons.prems(4) card by (auto simp: q(1) intro!: exI[of _ "[r]"] exI[of _ a1])
    next
      case ne: False
      obtain rs a' where "as_serve pick listing locations (map (\<lambda>(c, h). request_message c url h n ident) reqs) a1
          = Inr (map2 (\<lambda>(c, h) r. [c, [], reply_bytes r]) reqs rs, [], a')"
        "length rs = length reqs" "distinct (take m rs)" "set (take m rs) \<subseteq> p - {r}"
        "list_all (\<lambda>r. r = ([], 0)) (drop m rs)" "length reqs = m + (nat n - k) \<longrightarrow> \<not> opened (to_size ident) url a'"
        using Cons.IH[OF one(3)] Cons.prems(2-5) ne card by (auto simp flip: m_def)
      then show ?thesis using run one(2) card by (auto simp: q(1) intro!: exI[of _ "r # rs"] exI[of _ a'])
    qed
  qed
qed simp

text \<open>C22. The block assigner hands out every block of a url exactly once.  Whatever the order of the
  requests of the \<open>n\<close> loading threads and the hosts they come from, as bytes of the serialized
  questions, the first answers are the blocks of the url, each once; from then on a request gets the
  empty answer; and after \<open>n\<close> of those the url is forgotten.\<close>

theorem assigner_hands_out_once:
  assumes "as_fs a" "as_running a" "\<not> opened (to_size ident) url a" "0 < n" "in_i32 n" "in_i32 ident" "length url < 2 ^ 64"
    "list_all (\<lambda>(c, h). length h < 2 ^ 64) reqs" "reqs \<noteq> []"
    "length reqs \<le> card (all_blocks (listing url) locations) + nat n"
  shows "\<exists>rs a'. as_serve pick listing locations (map (\<lambda>(c, h). request_message c url h n ident) reqs) a
        = Inr (map2 (\<lambda>(c, h) r. [c, [], reply_bytes r]) reqs rs, [], a')
    \<and> (let blocks = all_blocks (listing url) locations; k = card blocks in
        length rs = length reqs \<and> distinct (take k rs) \<and> set (take k rs) \<subseteq> blocks
        \<and> (k \<le> length reqs \<longrightarrow> set (take k rs) = blocks)
        \<and> list_all (\<lambda>r. r = ([], 0)) (drop k rs)
        \<and> (length reqs = k + nat n \<longrightarrow> \<not> opened (to_size ident) url a'))"
proof -
  let ?p = "all_blocks (listing url) locations"
  have fin: "finite ?p" by (simp add: all_blocks_def)
  have closed: "\<not> opened (to_size ident) url (a\<lparr>as_alive := n\<rparr>)" using assms(3) by (simp add: opened_def)
  have ready: "ready_to_serve listing locations ident url n ?p 0 a"
    using open_url_serving[OF _ closed, of listing locations] assms(1,2) by (simp add: ready_to_serve_def)
  obtain rs a' where r: "as_serve pick listing locations (map (\<lambda>(c, h). request_message c url h n ident) reqs) a
        = Inr (map2 (\<lambda>(c, h) r. [c, [], reply_bytes r]) reqs rs, [], a')"
    "length rs = length reqs" "distinct (take (card ?p) rs)" "set (take (card ?p) rs) \<subseteq> ?p"
    "list_all (\<lambda>r. r = ([], 0)) (drop (card ?p) rs)"
    "length reqs = card ?p + nat n \<longrightarrow> \<not> opened (to_size ident) url a'"
    using serve_requests[OF assms(4-7) ready assms(8) fin, of pick] assms(4,9,10) by auto
  have "set (take (card ?p) rs) = ?p" if "card ?p \<le> length reqs"
    using r(2-4) that fin distinct_card[OF r(3)] by (intro card_subset_eq) simp_all
  then show ?thesis using r by (auto simp: Let_def)
qed

text \<open>A file of two blocks with replicas on two hosts, and a second file.\<close>

definition demo_listing :: "bytes \<Rightarrow> hdfs_file list" where
  "demo_listing url = [\<lparr>hf_name = [97], hf_is_file = True, hf_size = 6, hf_block_size = 4\<rparr>,
     \<lparr>hf_name = [98], hf_is_file = True, hf_size = 3, hf_block_size = 4\<rparr>]"

definition demo_locations :: "bytes \<Rightarrow> nat \<Rightarrow> bytes list" where
  "demo_locations name k = (if k = 0 then [[1], [2]] else [[2]])"

lemma demo_blocks: "all_blocks (demo_listing url) demo_locations = {([97, 0], 0), ([97, 0], 4), ([98, 0], 0)}"
  by (simp add: all_blocks_def replicas_def demo_listing_def demo_locations_def block_offsets.simps insert_commute)

definition demo_requests :: "(bytes \<times> bytes) list" where
  "demo_requests = [([5], [1]), ([6], [2]), ([5], [9]), ([6], [1])]"

theorem assigner_hands_out_once_witness:
  "\<exists>rs a'. as_serve (\<lambda>_. 0) demo_listing demo_locations (map (\<lambda>(c, h). request_message c [104] h 1 0) demo_requests) (as_new 0 [True])
      = Inr (map2 (\<lambda>(c, h) r. [c, [], reply_bytes r]) demo_requests rs, [], a')
    \<and> set (take 3 rs) = {([97, 0], 0), ([97, 0], 4), ([98, 0], 0)}"
proof -
  have a: "as_fs (as_new 0 [True])" "as_running (as_new 0 [True])" "\<not> opened (to_size 0) [104] (as_new 0 [True])"
    by (simp_all add: as_new_def opened_def)
  have card: "card (all_blocks (demo_listing url) demo_locations) = 3" for url by (simp add: demo_blocks)
  have "\<exists>rs a'. as_serve (\<lambda>_. 0) demo_listing demo_locations (map (\<lambda>(c, h). request_message c [104] h 1 0) demo_requests) (as_new 0 [True])
        = Inr (map2 (\<lambda>(c, h) r. [c, [], reply_bytes r]) demo_requests rs, [], a')
    \<and> (let blocks = all_blocks (demo_listing [104]) demo_locations; k = card blocks in
        length rs = length demo_requests \<and> distinct (take k rs) \<and> set (take k rs) \<subseteq> blocks
        \<and> (k \<le> length demo_requests \<longrightarrow> set (take k rs) = blocks)
        \<and> list_all (\<lambda>r. r = ([], 0)) (drop k rs)
        \<and> (length demo_requests = k + nat 1 \<longrightarrow> \<not> opened (to_size 0) [104] a'))"
    by (rule assigner_hands_out_once[OF a]) (simp_all add: in_i32_def card demo_requests_def)
  then obtain rs a' where "as_serve (\<lambda>_. 0) demo_listing demo_locations (map (\<lambda>(c, h). request_message c [104] h 1 0) demo_requests) (as_new 0 [True])
        = Inr (map2 (\<lambda>(c, h) r. [c, [], reply_bytes r]) demo_requests rs, [], a')"
    "3 \<le> length demo_requests \<longrightarrow> set (take 3 rs) = all_blocks (demo_listing [104]) demo_locations"
    unfolding Let_def card by blast
  moreover have "3 \<le> length demo_requests" by (simp add: demo_requests_def)
  ultimately show ?thesis unfolding demo_blocks by blast
qed

section \<open>The end\<close>

definition finish_signal :: "bytes \<Rightarrow> int \<Rightarrow> bin_stream" where
  "finish_signal host worker = put_pod i32_pod worker (put_string host bs_new)"

definition exit_message :: "bytes \<Rightarrow> bytes \<Rightarrow> int \<Rightarrow> bytes \<times> bytes \<times> bytes" where
  "exit_message client host worker =
     (let fs = notify_master (finish_signal host worker) exit_request in (client, fs ! 1, fs ! 2))"

lemma serve_exit:
  assumes "length host < 2 ^ 64" "in_i32 w"
  shows "serve_message pick listing locations (exit_message client host w) a
    = Inr ([], let a = a\<lparr>as_finished := insort_insert w (as_finished a)\<rparr> in
        if length (as_finished a) = to_size (as_alive a) then as_halt a else a)"
proof -
  have "reads (get_then get_string (\<lambda>_. get_pod i32_pod)) w (enc_string host @ pod_enc i32_pod w)"
    by (intro reads_then[OF string_ser.get_enc[OF assms(1)]] i32_pod.reads_pod[OF assms(2)])
  moreover have "bs_remained (finish_signal host w) = enc_string host @ pod_enc i32_pod w"
    by (simp add: finish_signal_def put_string_enc put_i32_enc push_back_bytes_append bs_new_def
      push_back_bytes_def bs_remained_def)
  ultimately obtain s where "get_then get_string (\<lambda>_. get_pod i32_pod)
      (push_back_bytes (bs_remained (finish_signal host w)) bs_new) = Inr (w, s)"
    by (auto dest: readsD[of _ _ _ "push_back_bytes (enc_string host @ pod_enc i32_pod w) bs_new" "[]"]
      simp: push_back_bytes_def bs_new_def bs_remained_def)
  then show ?thesis
    using type_code[of exit_request]
    by (simp add: serve_message_def exit_message_def notify_master_def question_frames_def Let_def handle_exit_def
      block_request_def exit_request_def)
qed

text \<open>The master serves on while fewer than \<open>n\<close> different workers have finished.\<close>

lemma exits_served:
  assumes "as_running a" "as_finished a = []" "as_alive a = n" "0 < n" "in_i32 n"
    "list_all (\<lambda>(c, h, w). length h < 2 ^ 64 \<and> in_i32 w) ws"
  shows "\<exists>rest a'. as_serve pick listing locations (map (\<lambda>(c, h, w). exit_message c h w) ws) a = Inr ([], rest, a')
    \<and> (as_running a' \<longleftrightarrow> card ((\<lambda>(c, h, w). w) ` set ws) < nat n)"
proof -
  have size: "to_size n = nat n" using assms(4,5) by (simp add: to_size_pos)
  have "\<exists>rest a'. as_serve pick listing locations (map (\<lambda>(c, h, w). exit_message c h w) ws) a = Inr ([], rest, a')
      \<and> (as_running a' \<longleftrightarrow> card (set (as_finished a) \<union> (\<lambda>(c, h, w). w) ` set ws) < nat n)"
    if "as_running a" "sorted (as_finished a)" "distinct (as_finished a)" "card (set (as_finished a)) < nat n" "as_alive a = n" for a
    using that assms(6)
  proof (induction ws arbitrary: a)
    case Nil
    then show ?case by simp
  next
    case (Cons x ws)
    obtain c h w where x: "x = (c, h, w)" by (cases x)
    let ?a = "a\<lparr>as_finished := insort_insert w (as_finished a)\<rparr>"
    have ok: "length h < 2 ^ 64" "in_i32 w" using Cons.prems(6) by (simp_all add: x)
    have d: "sorted (as_finished ?a)" "distinct (as_finished ?a)" "set (as_finished ?a) = insert w (set (as_finished a))"
      using Cons.prems(2,3) by (simp_all add: sorted_insort_insert distinct_insort_insert set_insort_insert)
    then have len: "length (as_finished ?a) = card (insert w (set (as_finished a)))" by (metis distinct_card)
    have le: "card (insert w (set (as_finished a))) \<le> nat n" using Cons.prems(4) card_insert_le_m1[of "nat n" "set (as_finished a)" w] by (cases "nat n") auto
    show ?case
    proof (cases "length (as_finished ?a) = nat n")
      case True
      have "card (insert w (set (as_finished a))) \<le> card (set (as_finished a) \<union> insert w ((\<lambda>(c, h, w). w) ` set ws))"
        by (intro card_mono) auto
      then have "\<not> card (set (as_finished a) \<union> (\<lambda>(c, h, w). w) ` set (x # ws)) < nat n"
        using True len by (simp add: x)
      moreover have "serve_message pick listing locations (exit_message c h w) a = Inr ([], as_halt ?a)"
        using serve_exit[OF ok] True Cons.prems(5) by (simp add: Let_def size)
      moreover have "as_serve pick listing locations msgs (as_halt ?a) = Inr ([], msgs, as_halt ?a)" for msgs
        by (cases msgs) (simp_all add: as_halt_def)
      ultimately show ?thesis using Cons.prems(1) by (simp add: x as_halt_def)
    next
      case False
      then have "card (set (as_finished ?a)) < nat n" using le len d(3) by simp
      moreover have "serve_message pick listing locations (exit_message c h w) a = Inr ([], ?a)"
        using serve_exit[OF ok] False Cons.prems(5) by (simp add: Let_def size)
      moreover have "set (as_finished ?a) \<union> (\<lambda>(c, h, w). w) ` set ws = set (as_finished a) \<union> (\<lambda>(c, h, w). w) ` set (x # ws)"
        by (simp add: x set_insort_insert)
      ultimately show ?thesis using Cons.IH[of ?a] Cons.prems(1,5,6) d(1,2) by (auto simp: x)
    qed
  qed
  from this[of a] assms(1-4) show ?thesis by simp
qed

end
