(* ===== verification/Line_Input.thy ===== *)
theory Line_Input
  imports Block_Assigner Node_Util
begin

text \<open>
  \<open>io/file_splitter.cpp\<close>, \<open>io/lineinput.hpp\<close>, \<open>io/hdfs_manager.cpp\<close>: a loading thread asks the master
  for blocks and reads from them the lines that begin in them, the last one into the blocks behind it.
  The files of HDFS are the argument \<open>files\<close>; a read of \<open>n\<close> bytes delivers \<open>rd n\<close> of them, or what
  is left of the file.  A failing read or seek is not modelled.

  The code keeps positions in the buffer, and the numbers of bytes it has read, in an \<open>int\<close>, and compares
  them with numbers of type \<open>size_t\<close>: \<open>size_int\<close> and \<open>int_size\<close> are the two conversions.  \<open>npos\<close>, the largest number of
  type \<open>size_t\<close>, is \<open>-1\<close> as an \<open>int\<close>.
\<close>

definition newline :: u8 where "newline = 10"

definition size_int :: "nat \<Rightarrow> int" where
  "size_int n = to_i32 (of_nat n)"

definition int_size :: "int \<Rightarrow> nat" where
  "int_size x = nat (x mod 2 ^ 64)"

definition npos :: nat where
  "npos = 2 ^ 64 - 1"

lemma size_int_small: "n < 2147483648 \<Longrightarrow> size_int n = int n"
  using to_i32_to_u32[of "int n"] by (simp add: size_int_def in_i32_def to_u32_def)

lemma int_size_int: "n < 2 ^ 64 \<Longrightarrow> int_size (int n) = n"
  by (simp add: int_size_def nat_mod_as_int flip: of_nat_power)

lemma npos_int: "size_int npos = -1" "size_int (Suc npos) = 0" "int_size (-1) = npos"
  by (simp_all add: npos_def size_int_def int_size_def to_i32_def)

section \<open>The splitter\<close>

text \<open>\<open>sp_open\<close>: what the open file has from the position on.\<close>

record splitter =
  sp_url :: bytes
  sp_host :: bytes
  sp_threads :: int
  sp_id :: int
  sp_offset :: nat
  sp_block :: nat
  sp_open :: "bytes option"

definition sp_new :: "nat \<Rightarrow> int \<Rightarrow> int \<Rightarrow> bytes \<Rightarrow> splitter" where
  "sp_new junk threads ident host = \<lparr>sp_url = [], sp_host = host, sp_threads = threads, sp_id = ident,
     sp_offset = 0, sp_block = junk, sp_open = None\<rparr>"

definition init_blocksize :: "hdfs_file list \<Rightarrow> splitter \<Rightarrow> splitter" where
  "init_blocksize infos sp = (case find hf_is_file infos of None \<Rightarrow> sp | Some f \<Rightarrow> sp\<lparr>sp_block := hf_block_size f\<rparr>)"

definition sp_load :: "(bytes \<Rightarrow> hdfs_file list) \<Rightarrow> bytes \<Rightarrow> splitter \<Rightarrow> splitter" where
  "sp_load listing url sp = init_blocksize (listing url) (sp\<lparr>sp_url := url\<rparr>)"

text \<open>The length argument of \<open>hdfsRead\<close> has 32 bits; a negative one is an error.\<close>

definition hdfs_read :: "(nat \<Rightarrow> nat) \<Rightarrow> nat \<Rightarrow> bytes \<Rightarrow> (bytes \<times> bytes) res" where
  "hdfs_read rd len rest =
     check_that (0 \<le> size_int len) Invalid_argument
       (let n = min (nat (size_int len)) (rd (nat (size_int len))) in Inr (take n rest, drop n rest))"

text \<open>
  The loop of \<open>read_block\<close> asks for a whole block at each turn, whatever is in the buffer already:
  bytes beyond the buffer are an access out of bounds.
\<close>

function read_loop :: "(nat \<Rightarrow> nat) \<Rightarrow> nat \<Rightarrow> bytes \<Rightarrow> bytes \<Rightarrow> (bytes \<times> bytes) res" where
  "read_loop rd block data rest =
     (if length data < block then
        (case hdfs_read rd block rest of
           Inl e \<Rightarrow> Inl e
         | Inr (bs, rest) \<Rightarrow>
             if bs = [] then Inr (data, rest)
             else if block < length data + length bs then Inl Out_of_bounds
             else read_loop rd block (data @ bs) rest)
      else Inr (data, rest))"
  by pat_completeness auto
termination by (relation "measure (\<lambda>(rd, block, data, rest). block - length data)")
    (auto simp flip: length_greater_0_conv)

declare read_loop.simps [simp del]

definition c_str :: "bytes \<Rightarrow> bytes" where
  "c_str fn = takeWhile (\<lambda>c. c \<noteq> 0) fn"

text \<open>The buffer with a number of bytes that is an \<open>int\<close>: a negative one makes a huge buffer.\<close>

definition buffer_ref :: "bytes \<Rightarrow> bytes res" where
  "buffer_ref data =
     (let nbytes = size_int (length data)
      in if nbytes < 0 then Inl Out_of_bounds else Inr (take (int_size nbytes) data))"

definition read_block :: "(bytes \<Rightarrow> bytes option) \<Rightarrow> (nat \<Rightarrow> nat) \<Rightarrow> bytes \<Rightarrow> splitter \<Rightarrow> (bytes \<times> splitter) res" where
  "read_block files rd fn sp =
     bind_res (of_opt (Check_failed ''read_block'') (files (c_str fn))) (\<lambda>text.
     bind_res (read_loop rd (sp_block sp) [] (drop (sp_offset sp) text)) (\<lambda>(data, rest).
     bind_res (buffer_ref data) (\<lambda>buf.
       Inr (buf, sp\<lparr>sp_open := Some rest\<rparr>))))"

text \<open>\<open>fetch_block(true)\<close> and \<open>fetch_block(false)\<close>; \<open>ask\<close> is \<open>Coordinator::ask_master\<close>.\<close>

definition fetch_next :: "(nat \<Rightarrow> nat) \<Rightarrow> splitter \<Rightarrow> (bytes \<times> splitter) res" where
  "fetch_next rd sp =
     bind_res (of_opt Invalid_argument (sp_open sp)) (\<lambda>rest.
     bind_res (hdfs_read rd (sp_block sp) rest) (\<lambda>(bs, rest). Inr (bs, sp\<lparr>sp_open := Some rest\<rparr>)))"

definition get_answer :: "(bytes \<times> nat) getter" where
  "get_answer = get_then get_string (\<lambda>fn. get_then (get_pod u64_pod) (\<lambda>off. get_return (fn, off)))"

definition fetch_first ::
  "(bin_stream \<Rightarrow> 'm \<Rightarrow> (bin_stream \<times> 'm) res) \<Rightarrow> (bytes \<Rightarrow> bytes option) \<Rightarrow> (nat \<Rightarrow> nat) \<Rightarrow> 'm \<times> splitter
     \<Rightarrow> (bytes \<times> 'm \<times> splitter) res"
where
  "fetch_first ask files rd = (\<lambda>(m, sp).
     bind_res (ask (block_question (sp_url sp) (sp_host sp) (sp_threads sp) (sp_id sp)) m) (\<lambda>(answer, m).
     bind_res (get_answer answer) (\<lambda>((fn, off), _).
       let sp = sp\<lparr>sp_offset := off\<rparr> in
       if fn = [] then Inr ([], m, sp)
       else bind_res (read_block files rd fn (sp\<lparr>sp_open := None\<rparr>)) (\<lambda>(data, sp). Inr (data, m, sp)))))"

section \<open>Lines\<close>

record line_input =
  li_splitter :: splitter
  li_l :: int
  li_r :: int
  li_url :: bytes
  li_last :: bytes
  li_buffer :: bytes

definition li_new :: "splitter \<Rightarrow> line_input" where
  "li_new sp = \<lparr>li_splitter = sp, li_l = 0, li_r = 0, li_url = [], li_last = [], li_buffer = []\<rparr>"

text \<open>\<open>set_splitter\<close> with the position of the first \<open>://\<close>.\<close>

fun find_scheme :: "bytes \<Rightarrow> nat option" where
  "find_scheme [] = None"
| "find_scheme (c # cs) = (if take 3 (c # cs) = [58, 47, 47] then Some 0 else map_option Suc (find_scheme cs))"

definition set_splitter :: "(bytes \<Rightarrow> hdfs_file list) \<Rightarrow> bytes \<Rightarrow> line_input \<Rightarrow> line_input res" where
  "set_splitter listing url li =
     (if li_url li \<noteq> [] \<and> li_url li = url then Inr li
      else
        let prefix = size_int (case find_scheme url of None \<Rightarrow> npos | Some p \<Rightarrow> p) in
        check_that (int_size prefix \<noteq> npos) (Check_failed ''Cannot analyze protocol'')
       (bind_res (as_i32 (prefix + 3)) (\<lambda>start.
        check_that (int_size start \<le> length url) Out_of_range_exception
          (Inr (li\<lparr>li_url := url, li_splitter := sp_load listing (drop (int_size start) url) (li_splitter li)\<rparr>)))))"

text \<open>The search from a position of the buffer on, its end included; \<open>find_from\<close> has the position as the
  callers have it, and beyond the end it reads out of bounds.  The result is \<open>npos\<close> when there is none.\<close>

function find_next :: "bytes \<Rightarrow> nat \<Rightarrow> u8 \<Rightarrow> nat option" where
  "find_next s l c = (if length s \<le> l then None else if s ! l = c then Some l else find_next s (l + 1) c)"
  by pat_completeness auto
termination by (relation "measure (\<lambda>(s, l, c). length s - l)") auto

declare find_next.simps [simp del]

definition find_from :: "bytes \<Rightarrow> int \<Rightarrow> nat res" where
  "find_from buf l =
     check_that (int_size l \<le> length buf) Out_of_bounds
       (Inr (case find_next buf (int_size l) newline of None \<Rightarrow> npos | Some r \<Rightarrow> r))"

lemma hdfs_read_split: "hdfs_read rd n rest = Inr (bs, rest') \<Longrightarrow> rest = bs @ rest'"
  by (auto simp: hdfs_read_def res_simps Let_def)

lemma fetch_next_split:
  "fetch_next rd sp = Inr (bs, sp') \<Longrightarrow> \<exists>rest. sp_open sp = Some (bs @ rest) \<and> sp' = sp\<lparr>sp_open := Some rest\<rparr>"
  by (auto simp: fetch_next_def res_simps dest!: hdfs_read_split)

function handle_next_block :: "(nat \<Rightarrow> nat) \<Rightarrow> line_input \<Rightarrow> line_input res" where
  "handle_next_block rd li =
     (if li_buffer li = [] then Inr li
      else case find_from (li_buffer li) 0 of
          Inl e \<Rightarrow> Inl e
        | Inr p \<Rightarrow>
            if int_size (size_int p) = npos then
              (case fetch_next rd (li_splitter li) of
                 Inl e \<Rightarrow> Inl e
               | Inr (bs, sp) \<Rightarrow>
                   handle_next_block rd
                     (li\<lparr>li_r := size_int p, li_last := li_last li @ li_buffer li, li_buffer := bs, li_splitter := sp\<rparr>))
            else if length (li_buffer li) < int_size (size_int p) then Inl Out_of_bounds
            else Inr (li\<lparr>li_last := li_last li @ take (int_size (size_int p)) (li_buffer li),
                        li_buffer := [], li_l := 0, li_r := 0\<rparr>))"
  by pat_completeness auto
termination
  by (relation "measure (\<lambda>(rd, li). length (li_buffer li) + length (get_or [] (sp_open (li_splitter li))))")
    (auto dest!: fetch_next_split)

declare handle_next_block.simps [simp del]

definition fetch_new_block ::
  "(bin_stream \<Rightarrow> 'm \<Rightarrow> (bin_stream \<times> 'm) res) \<Rightarrow> (bytes \<Rightarrow> bytes option) \<Rightarrow> (nat \<Rightarrow> nat) \<Rightarrow> 'm \<times> line_input
     \<Rightarrow> (bool \<times> 'm \<times> line_input) res"
where
  "fetch_new_block ask files rd = (\<lambda>(m, li).
     bind_res (fetch_first ask files rd (m, li_splitter li)) (\<lambda>(bs, m, sp).
       let li = li\<lparr>li_buffer := bs, li_splitter := sp\<rparr>
       in if bs = [] then Inr (False, m, li) else Inr (True, m, li\<lparr>li_l := 0, li_r := 0\<rparr>)))"

text \<open>The rest of a record that goes on behind the buffer, and the record from the position on.\<close>

definition finish_record :: "(nat \<Rightarrow> nat) \<Rightarrow> bytes \<Rightarrow> line_input \<Rightarrow> (bytes \<times> line_input) res" where
  "finish_record rd part li =
     bind_res (fetch_next rd (li_splitter li)) (\<lambda>(bs, sp).
     bind_res (handle_next_block rd (li\<lparr>li_last := part, li_buffer := bs, li_splitter := sp\<rparr>)) (\<lambda>li.
       Inr (li_last li, li)))"

definition next_line :: "(nat \<Rightarrow> nat) \<Rightarrow> line_input \<Rightarrow> (bytes \<times> line_input) res" where
  "next_line rd li =
     (let buf = li_buffer li in
      bind_res
        (if sp_offset (li_splitter li) = 0 \<and> li_r li = 0 then Inr (if buf ! 0 = newline then 1 else 0)
         else bind_res (find_from buf (li_r li)) (\<lambda>p. Inr (size_int (p + 1)))) (\<lambda>l.
      bind_res (find_from buf l) (\<lambda>p.
        let r = size_int p; li = li\<lparr>li_l := l, li_r := r\<rparr>
        in if int_size r = npos then finish_record rd (drop (int_size l) buf) li
           else bind_res (as_i32 (r - l)) (\<lambda>n. Inr (take (int_size n) (drop (int_size l) buf), li)))))"

definition li_next ::
  "(bin_stream \<Rightarrow> 'm \<Rightarrow> (bin_stream \<times> 'm) res) \<Rightarrow> (bytes \<Rightarrow> bytes option) \<Rightarrow> (nat \<Rightarrow> nat) \<Rightarrow> 'm \<times> line_input
     \<Rightarrow> (bytes option \<times> 'm \<times> line_input) res"
where
  "li_next ask files rd = (\<lambda>(m, li).
     let line = (\<lambda>(m, li). bind_res (next_line rd li) (\<lambda>(x, li). Inr (Some x, m, li)));
         new_block = (\<lambda>k (m, li). bind_res (fetch_new_block ask files rd (m, li)) (\<lambda>(ok, m, li).
           if ok then k (m, li) else Inr (None, m, li)));
         inside = (\<lambda>(m, li).
           if int_size (li_r li) = int_size (int (length (li_buffer li)) - 1) then
             bind_res (fetch_next rd (li_splitter li)) (\<lambda>(bs, sp).
               let li = li\<lparr>li_buffer := bs, li_splitter := sp\<rparr> in
               if bs = [] then new_block line (m, li)
               else bind_res (handle_next_block rd (li\<lparr>li_last := []\<rparr>)) (\<lambda>li. Inr (Some (li_last li), m, li)))
           else line (m, li))
     in if li_buffer li = [] then new_block inside (m, li) else inside (m, li))"

text \<open>The loop of a loading thread, with a bound on its turns: the records, and whether the input ended.\<close>

fun li_all ::
  "(bin_stream \<Rightarrow> 'm \<Rightarrow> (bin_stream \<times> 'm) res) \<Rightarrow> (bytes \<Rightarrow> bytes option) \<Rightarrow> (nat \<Rightarrow> nat) \<Rightarrow> nat \<Rightarrow> 'm \<times> line_input
     \<Rightarrow> (bytes list \<times> bool \<times> 'm \<times> line_input) res"
where
  "li_all ask files rd 0 s = Inr ([], False, s)"
| "li_all ask files rd (Suc n) s =
     bind_res (li_next ask files rd s) (\<lambda>(x, s).
       case x of
         None \<Rightarrow> Inr ([], True, s)
       | Some line \<Rightarrow> bind_res (li_all ask files rd n s) (\<lambda>(lines, ended, s). Inr (line # lines, ended, s)))"

section \<open>What a text and a block hold\<close>

abbreviation upto_newline :: "bytes \<Rightarrow> bytes" where
  "upto_newline t \<equiv> takeWhile (\<lambda>c. c \<noteq> newline) t"

definition after_newline :: "bytes \<Rightarrow> bytes" where
  "after_newline t = tl (dropWhile (\<lambda>c. c \<noteq> newline) t)"

lemma length_after_newline: "length (after_newline t) \<le> length t - 1"
  unfolding after_newline_def length_tl using length_dropWhile_le[of "\<lambda>c. c \<noteq> newline" t] by simp

text \<open>The lines of a text; a newline at its end ends the last line and begins none.\<close>

function text_lines :: "bytes \<Rightarrow> bytes list" where
  "text_lines t = (if t = [] then [] else upto_newline t # text_lines (after_newline t))"
  by pat_completeness auto
termination
proof (relation "measure length")
  fix t :: bytes assume "t \<noteq> []"
  then have "length (after_newline t) < length t" using length_after_newline[of t] by (cases t) auto
  then show "(after_newline t, t) \<in> measure length" by simp
qed simp

declare text_lines.simps [simp del]

text \<open>The lines that begin in the rest \<open>b\<close> of a block, at its start or behind a newline of it, when
  \<open>rest\<close> follows in the file.\<close>

function block_lines :: "bytes \<Rightarrow> bytes \<Rightarrow> bytes list" where
  "block_lines b rest =
     (if b = [] then (if rest = [] then [] else [upto_newline rest])
      else if newline \<notin> set b then [b @ upto_newline rest]
      else upto_newline b # block_lines (after_newline b) rest)"
  by pat_completeness auto
termination
proof (relation "measure (\<lambda>(b, rest). length b)")
  fix b rest :: bytes assume "b \<noteq> []"
  then have "length (after_newline b) < length b" using length_after_newline[of b] by (cases b) auto
  then show "((after_newline b, rest), b, rest) \<in> measure (\<lambda>(b, rest). length b)" by simp
qed simp

declare block_lines.simps [simp del]

lemma newline_append:
  "newline \<in> set b \<Longrightarrow> upto_newline (b @ t) = upto_newline b \<and> after_newline (b @ t) = after_newline b @ t"
  "newline \<notin> set b \<Longrightarrow> upto_newline (b @ t) = b @ upto_newline t \<and> after_newline (b @ t) = after_newline t"
proof -
  assume nl: "newline \<in> set b"
  then have "dropWhile (\<lambda>c. c \<noteq> newline) b \<noteq> []" by (auto simp: dropWhile_eq_Nil_conv)
  then show "upto_newline (b @ t) = upto_newline b \<and> after_newline (b @ t) = after_newline b @ t"
    using nl by (auto simp: after_newline_def dropWhile_append takeWhile_append1[of newline])
next
  assume "newline \<notin> set b"
  then have "\<forall>c \<in> set b. c \<noteq> newline" by auto
  then show "upto_newline (b @ t) = b @ upto_newline t \<and> after_newline (b @ t) = after_newline t"
    by (simp add: after_newline_def takeWhile_append2 dropWhile_append2)
qed

lemma text_lines_block: "text_lines (b @ rest) = block_lines b rest @ text_lines (after_newline rest)"
proof (induction b rest rule: block_lines.induct)
  case (1 b rest)
  show ?case
  proof (cases "b = []")
    case True
    then show ?thesis by (simp add: block_lines.simps[of "[]" rest] text_lines.simps[of rest] text_lines.simps[of "[]"] after_newline_def)
  next
    case False
    then show ?thesis
      using 1 newline_append[of b rest]
      by (simp add: block_lines.simps[of b] text_lines.simps[of "b @ rest"])
  qed
qed

text \<open>The records a block gives, by where it lies, and the blocks the reader can handle.\<close>

definition block_records :: "nat \<Rightarrow> bytes \<Rightarrow> bytes \<Rightarrow> bytes list" where
  "block_records off b rest =
     (if off \<noteq> 0 then block_lines (after_newline b) rest
      else if hd b = newline then block_lines (tl b) rest else block_lines b rest)"

definition good_block :: "nat \<Rightarrow> bytes \<Rightarrow> bytes \<Rightarrow> bool" where
  "good_block off b rest \<longleftrightarrow> 2 \<le> length b
     \<and> (off \<noteq> 0 \<longrightarrow> newline \<in> set b \<and> (rest = [] \<longrightarrow> newline \<in> set (butlast b)))"

section \<open>The parts of the reader\<close>

lemma find_next_eq:
  "find_next s l newline = (if newline \<in> set (drop l s) then Some (l + length (upto_newline (drop l s))) else None)"
proof (induction s l newline rule: find_next.induct)
  case (1 s l)
  show ?case
  proof (cases "length s \<le> l")
    case True
    then show ?thesis by (simp add: find_next.simps)
  next
    case False
    then have "drop l s = s ! l # drop (Suc l) s" by (simp add: Cons_nth_drop_Suc)
    with 1 False show ?thesis by (auto simp: find_next.simps[of s l])
  qed
qed

lemma find_next_Some:
  assumes "find_next s l newline = Some r"
  shows "l \<le> r" "r < length s" "s ! r = newline" "take (r - l) (drop l s) = upto_newline (drop l s)"
    "drop (r + 1) s = after_newline (drop l s)"
proof -
  let ?d = "drop l s"
  have nl: "newline \<in> set ?d" and r: "r = l + length (upto_newline ?d)"
    using assms by (auto simp: find_next_eq split: if_splits)
  show "l \<le> r" by (simp add: r)
  have len: "length (upto_newline ?d) < length ?d"
  proof -
    have "dropWhile (\<lambda>c. c \<noteq> newline) ?d \<noteq> []" using nl by (auto simp: dropWhile_eq_Nil_conv)
    moreover have "length ?d = length (upto_newline ?d) + length (dropWhile (\<lambda>c. c \<noteq> newline) ?d)"
      by (metis length_append takeWhile_dropWhile_id)
    ultimately show ?thesis by simp
  qed
  then show "r < length s" by (simp add: r)
  have "?d ! length (upto_newline ?d) = newline" using nth_length_takeWhile[OF len] by simp
  then show "s ! r = newline" using len by (simp add: r)
  show "take (r - l) ?d = upto_newline ?d" by (simp add: r takeWhile_eq_take[symmetric])
  have "dropWhile (\<lambda>c. c \<noteq> newline) ?d = drop (length (upto_newline ?d)) ?d" by (rule dropWhile_eq_drop)
  then show "drop (r + 1) s = after_newline ?d" by (simp add: after_newline_def r tl_drop drop_Suc add.commute)
qed

definition rd_ok :: "(nat \<Rightarrow> nat) \<Rightarrow> nat \<Rightarrow> bool" where
  "rd_ok rd block \<longleftrightarrow> 0 < block \<and> block < 2147483648 \<and> 0 < rd block \<and> rd block dvd block"

lemma hdfs_read_ok: "rd_ok rd block \<Longrightarrow> hdfs_read rd block rest = Inr (take (rd block) rest, drop (rd block) rest)"
  by (auto simp: hdfs_read_def rd_ok_def size_int_small min_def Let_def dvd_imp_le dest: dvd_imp_le)

text \<open>In a buffer that is not longer than a block the conversions change nothing.\<close>

definition short :: "bytes \<Rightarrow> bool" where
  "short buf \<longleftrightarrow> length buf < 2147483648"

lemma buffer_ref_short: "short buf \<Longrightarrow> buffer_ref buf = Inr buf"
  using size_int_small[of "length buf"] int_size_int[of "length buf"] by (simp add: buffer_ref_def short_def Let_def)

lemma find_from_short:
  "short buf \<Longrightarrow> l \<le> length buf \<Longrightarrow>
    find_from buf (int l) = Inr (case find_next buf l newline of None \<Rightarrow> npos | Some r \<Rightarrow> r)"
  by (simp add: find_from_def short_def int_size_int)

lemma position_short:
  assumes "short buf" "find_next buf l newline = Some r"
  shows "size_int r = int r" "size_int (r + 1) = int (r + 1)" "int_size (int r) = r" "r \<noteq> npos"
    "int_size (int r - int l) = r - l" "in_i32 (int r - int l)"
proof -
  note r = find_next_Some[OF assms(2)]
  have "r + 1 < 2147483648" using r(2) assms(1) by (simp add: short_def)
  then show "size_int r = int r" "size_int (r + 1) = int (r + 1)" "int_size (int r) = r" "r \<noteq> npos"
    using size_int_small[of r] size_int_small[of "r + 1"] by (simp_all add: int_size_int npos_def)
  have "r - l < 2 ^ 64" using \<open>r + 1 < 2147483648\<close> by simp
  then show "int_size (int r - int l) = r - l" using int_size_int[of "r - l"] of_nat_diff[OF r(1), where 'a = int] by metis
  show "in_i32 (int r - int l)" using r(1) \<open>r + 1 < 2147483648\<close> by (simp add: in_i32_def)
qed

lemma read_loop_ok:
  assumes ok: "rd_ok rd block"
  shows "length data \<le> block \<Longrightarrow> rd block dvd length data \<or> rest = [] \<Longrightarrow>
    read_loop rd block data rest = Inr (data @ take (block - length data) rest, drop (block - length data) rest)"
proof (induction "block - length data" arbitrary: data rest rule: less_induct)
  case less
  let ?c = "rd block"
  have c: "0 < ?c" "?c dvd block" "?c \<le> block" using ok by (auto simp: rd_ok_def dvd_imp_le)
  show ?case
  proof (cases "length data < block \<and> rest \<noteq> []")
    case False
    then show ?thesis using less.prems(1) hdfs_read_ok[OF ok] by (auto simp: read_loop.simps[of rd block data rest])
  next
    case True
    let ?bs = "take ?c rest" and ?rest = "drop ?c rest"
    have "?c dvd length data" using less.prems(2) True by blast
    then have room: "length data + ?c \<le> block"
      using True c(2) by (metis dvd_diff_nat dvd_imp_le le_diff_conv2 less_imp_le zero_less_diff add.commute)
    have ne: "?bs \<noteq> []" using True c(1) by simp
    have "read_loop rd block data rest = read_loop rd block (data @ ?bs) ?rest"
    proof -
      have "\<not> block < length data + length ?bs" using room by simp
      then show ?thesis
        using True ne by (simp only: read_loop.simps[of rd block data rest] hdfs_read_ok[OF ok] sum.case prod.case if_True if_False)
    qed
    also have "\<dots> = Inr ((data @ ?bs) @ take (block - length (data @ ?bs)) ?rest, drop (block - length (data @ ?bs)) ?rest)"
    proof (rule less.hyps)
      have "0 < length ?bs" using ne by simp
      then show "block - length (data @ ?bs) < block - length data" using True unfolding length_append by linarith
      show "length (data @ ?bs) \<le> block" using room by simp
      show "?c dvd length (data @ ?bs) \<or> ?rest = []" using \<open>?c dvd length data\<close> by (cases "?c \<le> length rest") (simp_all add: min_def)
    qed
    also have "\<dots> = Inr (data @ take (block - length data) rest, drop (block - length data) rest)"
    proof (cases "?c \<le> length rest")
      case True
      then have "block - length data = ?c + (block - length (data @ ?bs))" using room by simp
      then show ?thesis by (simp add: take_add drop_drop[symmetric] add.commute del: drop_drop) (simp add: drop_drop add.commute)
    next
      case False
      then show ?thesis using room by simp
    qed
    finally show ?thesis .
  qed
qed

text \<open>What a splitter keeps from block to block.\<close>

definition same_source :: "splitter \<Rightarrow> splitter \<Rightarrow> bool" where
  "same_source sp sp' \<longleftrightarrow> sp_url sp' = sp_url sp \<and> sp_host sp' = sp_host sp \<and> sp_threads sp' = sp_threads sp
     \<and> sp_id sp' = sp_id sp \<and> sp_block sp' = sp_block sp"

lemma fetch_next_ok:
  assumes "rd_ok rd (sp_block sp)" "sp_open sp = Some rest"
  obtains bs rest' where "fetch_next rd sp = Inr (bs, sp\<lparr>sp_open := Some rest'\<rparr>)" "rest = bs @ rest'" "bs = [] \<longrightarrow> rest' = []"
    "short bs"
proof -
  let ?c = "rd (sp_block sp)"
  have "0 < ?c" using assms(1) by (simp add: rd_ok_def)
  then have "take ?c rest = [] \<longleftrightarrow> rest = []" by (cases rest) auto
  moreover have "fetch_next rd sp = Inr (take ?c rest, sp\<lparr>sp_open := Some (drop ?c rest)\<rparr>)"
    by (simp add: fetch_next_def hdfs_read_ok[OF assms(1)] assms(2))
  moreover have "short (take ?c rest)" using assms(1) by (auto simp: rd_ok_def short_def dest: dvd_imp_le)
  ultimately show thesis by (intro that[of "take ?c rest" "drop ?c rest"]) auto
qed

text \<open>What \<open>handle_next_block\<close> leaves: the record is whole, the buffer empty.\<close>

definition handled :: "(nat \<Rightarrow> nat) \<Rightarrow> line_input \<Rightarrow> bytes \<Rightarrow> bool" where
  "handled rd li record \<longleftrightarrow> (\<exists>li'. handle_next_block rd li = Inr li' \<and> li_last li' = record
     \<and> li_buffer li' = [] \<and> same_source (li_splitter li) (li_splitter li'))"

lemma handle_next_ok:
  "rd_ok rd (sp_block (li_splitter li)) \<Longrightarrow> sp_open (li_splitter li) = Some rest \<Longrightarrow> (li_buffer li = [] \<Longrightarrow> rest = []) \<Longrightarrow>
    short (li_buffer li) \<Longrightarrow> handled rd li (li_last li @ upto_newline (li_buffer li @ rest))"
proof (induction "length (li_buffer li) + length rest" arbitrary: li rest rule: less_induct)
  case less
  let ?b = "li_buffer li"
  have s0: "find_from ?b 0 = Inr (case find_next ?b 0 newline of None \<Rightarrow> npos | Some r \<Rightarrow> r)"
    using find_from_short[OF less.prems(4), of 0] by simp
  show ?case
  proof (cases "find_next ?b 0 newline")
    case (Some r)
    then have "?b \<noteq> []" by (auto simp: find_next_eq)
    moreover have "take r ?b = upto_newline ?b" using find_next_Some(4)[OF Some] by simp
    moreover have "newline \<in> set ?b" using Some by (auto simp: find_next_eq split: if_splits)
    moreover note position_short[OF less.prems(4) Some] find_next_Some(2)[OF Some]
    ultimately show ?thesis
      using Some s0 newline_append(1)[of ?b rest] by (simp add: handled_def handle_next_block.simps[of rd li] same_source_def)
  next
    case None
    then have no: "newline \<notin> set ?b" by (auto simp: find_next_eq split: if_splits)
    show ?thesis
    proof (cases "?b = []")
      case True
      then show ?thesis using less.prems(3) by (simp add: handled_def handle_next_block.simps[of rd li] same_source_def)
    next
      case False
      obtain bs rest' where f: "fetch_next rd (li_splitter li) = Inr (bs, (li_splitter li)\<lparr>sp_open := Some rest'\<rparr>)"
        "rest = bs @ rest'" "bs = [] \<longrightarrow> rest' = []" "short bs" by (rule fetch_next_ok[OF less.prems(1,2)])
      let ?li = "li\<lparr>li_r := -1, li_last := li_last li @ ?b, li_buffer := bs, li_splitter := (li_splitter li)\<lparr>sp_open := Some rest'\<rparr>\<rparr>"
      have step: "handle_next_block rd li = handle_next_block rd ?li"
        using False None s0 f(1) by (simp add: handle_next_block.simps[of rd li] npos_int)
      have "length (li_buffer ?li) + length rest' < length ?b + length rest"
        using False arg_cong[OF f(2), of length] by simp
      then have "handled rd ?li (li_last ?li @ upto_newline (li_buffer ?li @ rest'))"
      proof (rule less.hyps)
        show "rd_ok rd (sp_block (li_splitter ?li))" using less.prems(1) by simp
        show "sp_open (li_splitter ?li) = Some rest'" by simp
        show "rest' = []" if "li_buffer ?li = []" using that f(3) by simp
        show "short (li_buffer ?li)" using f(4) by simp
      qed
      moreover have "li_last ?li @ upto_newline (li_buffer ?li @ rest') = li_last li @ upto_newline (?b @ rest)"
        using newline_append(2)[OF no, of rest] f(2) by simp
      ultimately have "handled rd ?li (li_last li @ upto_newline (?b @ rest))" by (simp only:)
      then show ?thesis unfolding handled_def step by (simp add: same_source_def)
    qed
  qed
qed

lemma finish_ok:
  assumes "rd_ok rd (sp_block (li_splitter li))" "sp_open (li_splitter li) = Some rest"
  shows "\<exists>li'. finish_record rd part li = Inr (part @ upto_newline rest, li')
    \<and> li_buffer li' = [] \<and> same_source (li_splitter li) (li_splitter li')"
proof -
  obtain bs rest' where f: "fetch_next rd (li_splitter li) = Inr (bs, (li_splitter li)\<lparr>sp_open := Some rest'\<rparr>)"
    "rest = bs @ rest'" "bs = [] \<longrightarrow> rest' = []" "short bs" by (rule fetch_next_ok[OF assms])
  let ?li = "li\<lparr>li_last := part, li_buffer := bs, li_splitter := (li_splitter li)\<lparr>sp_open := Some rest'\<rparr>\<rparr>"
  have "handled rd ?li (li_last ?li @ upto_newline (li_buffer ?li @ rest'))"
  proof (rule handle_next_ok)
    show "rd_ok rd (sp_block (li_splitter ?li))" using assms(1) by simp
    show "sp_open (li_splitter ?li) = Some rest'" by simp
    show "rest' = []" if "li_buffer ?li = []" using that f(3) by simp
    show "short (li_buffer ?li)" using f(4) by simp
  qed
  then have "handled rd ?li (part @ upto_newline rest)" by (simp add: f(2)[symmetric])
  then obtain li' where "handle_next_block rd ?li = Inr li'" "li_last li' = part @ upto_newline rest" "li_buffer li' = []"
    "same_source (li_splitter ?li) (li_splitter li')" unfolding handled_def by (elim exE conjE)
  then show ?thesis by (simp add: finish_record_def f(1) same_source_def)
qed

text \<open>A master that follows a script.\<close>

definition scripted :: "bin_stream \<Rightarrow> (bytes \<times> nat) list \<Rightarrow> (bin_stream \<times> (bytes \<times> nat) list) res" where
  "scripted question script =
     (case script of
        [] \<Rightarrow> Inr (push_back_bytes (reply_bytes ([], 0)) bs_new, [])
      | r # rs \<Rightarrow> Inr (push_back_bytes (reply_bytes r) bs_new, rs))"

lemma get_answer_reply:
  assumes "length fn < 2 ^ 64" "off < 2 ^ 64"
  shows "\<exists>s. get_answer (push_back_bytes (reply_bytes (fn, off)) bs_new) = Inr ((fn, off), s)"
proof -
  have r: "reads get_answer (fn, off) (enc_string fn @ pod_enc u64_pod off @ [])"
    unfolding get_answer_def
    by (intro reads_then[OF string_ser.get_enc[OF assms(1)]] reads_then[OF u64_pod.reads_pod] reads_return)
      (use assms(2) in \<open>simp add: u64_ok_def\<close>)
  have b: "reply_bytes (fn, off) = enc_string fn @ pod_enc u64_pod off"
    by (simp add: reply_bytes_def put_string_enc put_pod_def push_back_bytes_append bs_new_def
      push_back_bytes_def bs_remained_def)
  from readsD[OF r, of "push_back_bytes (reply_bytes (fn, off)) bs_new" "[]"]
  show ?thesis by (auto simp: b push_back_bytes_def bs_new_def bs_remained_def)
qed

lemma fetch_first_end: "\<exists>sp'. fetch_first scripted files rd ([], sp) = Inr ([], [], sp') \<and> same_source sp sp'"
  using get_answer_reply[of "[]" 0] by (auto simp: fetch_first_def scripted_def same_source_def)

lemma fetch_first_block:
  assumes "rd_ok rd (sp_block sp)" "files (c_str fn) = Some text" "fn \<noteq> []" "length fn < 2 ^ 64" "off < 2 ^ 64"
  shows "fetch_first scripted files rd ((fn, off) # script, sp)
    = Inr (take (sp_block sp) (drop off text), script,
        sp\<lparr>sp_offset := off, sp_open := Some (drop (off + sp_block sp) text)\<rparr>)"
proof -
  have "short (take (sp_block sp) (drop off text))" using assms(1) by (simp add: short_def rd_ok_def min_def)
  then have "buffer_ref (take (sp_block sp) (drop off text)) = Inr (take (sp_block sp) (drop off text))"
    by (rule buffer_ref_short)
  then show ?thesis
    using get_answer_reply[OF assms(4,5)] read_loop_ok[OF assms(1), of "[]" "drop off text"] assms(2,3)
    by (auto simp: fetch_first_def scripted_def read_block_def add.commute)
qed

section \<open>The records of a reader\<close>

definition yields :: "(bytes \<Rightarrow> bytes option) \<Rightarrow> (nat \<Rightarrow> nat) \<Rightarrow> (bytes \<times> nat) list \<times> line_input \<Rightarrow> bytes list \<Rightarrow> bool" where
  "yields files rd s xs \<longleftrightarrow> (\<exists>n s'. li_all scripted files rd n s = Inr (xs, True, s'))"

lemma yields_record:
  assumes "li_next scripted files rd s = Inr (Some x, s')" "yields files rd s' xs"
  shows "yields files rd s (x # xs)"
proof -
  obtain n s'' where "li_all scripted files rd n s' = Inr (xs, True, s'')" using assms(2) by (auto simp: yields_def)
  then have "li_all scripted files rd (Suc n) s = Inr (x # xs, True, s'')" using assms(1) by simp
  then show ?thesis unfolding yields_def by blast
qed

lemma yields_end:
  assumes "li_next scripted files rd s = Inr (None, s')"
  shows "yields files rd s []"
proof -
  have "li_all scripted files rd (Suc 0) s = Inr ([], True, s')" using assms by simp
  then show ?thesis unfolding yields_def by blast
qed

lemma yields_same:
  assumes "li_next scripted files rd s = li_next scripted files rd s'" "yields files rd s' xs"
  shows "yields files rd s xs"
proof -
  obtain n s'' where n: "li_all scripted files rd n s' = Inr (xs, True, s'')" using assms(2) by (auto simp: yields_def)
  then have "li_all scripted files rd n s = Inr (xs, True, s'')" using assms(1) by (cases n) auto
  then show ?thesis unfolding yields_def by blast
qed

text \<open>\<open>next_line\<close> from the start \<open>l\<close> of the record on.\<close>

definition line_from :: "(nat \<Rightarrow> nat) \<Rightarrow> nat \<Rightarrow> line_input \<Rightarrow> (bytes \<times> line_input) res" where
  "line_from rd l li = (case find_next (li_buffer li) l newline of
       None \<Rightarrow> finish_record rd (drop l (li_buffer li)) (li\<lparr>li_l := int l, li_r := -1\<rparr>)
     | Some r \<Rightarrow> Inr (take (r - l) (drop l (li_buffer li)), li\<lparr>li_l := int l, li_r := int r\<rparr>))"

lemma next_line_eq:
  assumes s: "short (li_buffer li)" and p: "li_r li = int p" "p \<le> length (li_buffer li)" and ne: "li_buffer li \<noteq> []"
  shows "next_line rd li = line_from rd
     (if sp_offset (li_splitter li) = 0 \<and> p = 0 then (if li_buffer li ! 0 = newline then 1 else 0)
      else (case find_next (li_buffer li) p newline of None \<Rightarrow> 0 | Some p \<Rightarrow> p + 1)) li" (is "_ = line_from rd ?l li")
proof -
  let ?buf = "li_buffer li"
  have len: "1 \<le> length ?buf" using ne by (cases ?buf) simp_all
  have l: "?l \<le> length ?buf" using find_next_Some(2)[of ?buf p] len by (auto split: option.splits)
  have "size_int (case find_next ?buf p newline of None \<Rightarrow> npos + 1 | Some p \<Rightarrow> p + 1)
      = int (case find_next ?buf p newline of None \<Rightarrow> 0 | Some p \<Rightarrow> p + 1)"
    using position_short(2)[OF s] by (auto split: option.splits simp: npos_int)
  then have start: "(if sp_offset (li_splitter li) = 0 \<and> li_r li = 0 then Inr (if ?buf ! 0 = newline then 1 else 0)
      else bind_res (find_from ?buf (li_r li)) (\<lambda>p. Inr (size_int (p + 1)))) = Inr (int ?l)"
    using find_from_short[OF s p(2)] p(1) by (auto split: option.splits)
  have size: "int_size (int ?l) = ?l" using l s by (intro int_size_int) (simp add: short_def)
  show ?thesis
    unfolding next_line_def Let_def start bind_res_simps find_from_short[OF s l] line_from_def size
    using position_short[OF s, of ?l] by (cases "find_next ?buf ?l newline") (simp_all add: npos_int)
qed

definition gives_line where
  "gives_line script r = bind_res r (\<lambda>(x :: bytes, li :: line_input). Inr (Some x, script :: (bytes \<times> nat) list, li) :: _ res)"

text \<open>A block of a script, and a script the reader can follow.\<close>

definition block_of :: "(bytes \<Rightarrow> bytes option) \<Rightarrow> nat \<Rightarrow> bytes \<times> nat \<Rightarrow> nat \<times> bytes \<times> bytes" where
  "block_of files sz = (\<lambda>(fn, off). (off, take sz (drop off (get_or [] (files (c_str fn)))),
     drop (off + sz) (get_or [] (files (c_str fn)))))"

definition records_of :: "(bytes \<Rightarrow> bytes option) \<Rightarrow> nat \<Rightarrow> bytes \<times> nat \<Rightarrow> bytes list" where
  "records_of files sz b = (case block_of files sz b of (off, t, rest) \<Rightarrow> block_records off t rest)"

definition readable :: "(bytes \<Rightarrow> bytes option) \<Rightarrow> nat \<Rightarrow> bytes \<times> nat \<Rightarrow> bool" where
  "readable files sz b \<longleftrightarrow> fst b \<noteq> [] \<and> length (fst b) < 2 ^ 64 \<and> snd b < 2 ^ 64 \<and> files (c_str (fst b)) \<noteq> None
     \<and> (case block_of files sz b of (off, t, rest) \<Rightarrow> good_block off t rest)"

definition fresh :: "line_input \<Rightarrow> nat \<Rightarrow> bool" where
  "fresh li sz \<longleftrightarrow> li_buffer li = [] \<and> sp_block (li_splitter li) = sz"

text \<open>A new block is long enough that its first record starts in it.\<close>

definition start_block :: "line_input \<Rightarrow> splitter \<Rightarrow> bytes \<Rightarrow> line_input" where
  "start_block li sp b = li\<lparr>li_buffer := b, li_splitter := sp, li_l := 0, li_r := 0\<rparr>"

lemma new_block_next:
  assumes "rd_ok rd (sp_block (li_splitter li))" "\<forall>b \<in> set script. readable files (sp_block (li_splitter li)) b"
  shows "\<exists>r. fetch_new_block scripted files rd (script, li) = Inr r \<and>
    (case script of
       [] \<Rightarrow> (\<exists>li'. r = (False, [], li'))
     | b # bs \<Rightarrow> (case block_of files (sp_block (li_splitter li)) b of (off, t, rest) \<Rightarrow>
         r = (True, bs, start_block li ((li_splitter li)\<lparr>sp_offset := off, sp_open := Some rest\<rparr>) t)))"
proof (cases script)
  case Nil
  then show ?thesis
    using fetch_first_end[of files rd "li_splitter li"] by (auto simp: fetch_new_block_def)
next
  case (Cons b bs)
  obtain fn off where b: "b = (fn, off)" by (cases b)
  from assms(2) have r: "readable files (sp_block (li_splitter li)) b" by (simp add: Cons)
  then obtain full where t: "files (c_str fn) = Some full" by (auto simp: readable_def b)
  have "take (sp_block (li_splitter li)) (drop off full) \<noteq> []"
    using r t by (auto simp: readable_def good_block_def block_of_def b)
  then show ?thesis
    using fetch_first_block[OF assms(1), of files fn full off bs] t r
    by (simp add: Cons b fetch_new_block_def block_of_def start_block_def readable_def add.commute)
qed

lemma li_next_fresh:
  assumes "rd_ok rd (sp_block (li_splitter li))" "\<forall>b \<in> set script. readable files (sp_block (li_splitter li)) b"
  shows "li_buffer li = [] \<Longrightarrow> li_next scripted files rd (script, li)
    = bind_res (fetch_new_block scripted files rd (script, li)) (\<lambda>(ok, m, li).
        if ok then gives_line m (next_line rd li) else Inr (None, m, li))"
proof -
  assume e: "li_buffer li = []"
  note n = new_block_next[OF assms]
  show "li_next scripted files rd (script, li)
    = bind_res (fetch_new_block scripted files rd (script, li)) (\<lambda>(ok, m, li).
        if ok then gives_line m (next_line rd li) else Inr (None, m, li))"
  proof (cases script)
    case Nil
    then show ?thesis using n e by (auto simp: li_next_def)
  next
    case (Cons b bs)
    obtain off t rest where b: "block_of files (sp_block (li_splitter li)) b = (off, t, rest)"
      by (cases "block_of files (sp_block (li_splitter li)) b")
    have "2 \<le> length t" using assms(2) b by (auto simp: Cons readable_def good_block_def)
    moreover have "short t"
      using assms(1) b by (cases b; auto simp: block_of_def rd_ok_def short_def min_def)
    ultimately have "int_size 0 \<noteq> int_size (int (length t) - 1)"
      using int_size_int[of "length t - 1"] int_size_int[of 0] by (simp add: short_def of_nat_diff)
    then show ?thesis using n e by (auto simp: Cons b li_next_def start_block_def gives_line_def)
  qed
qed

text \<open>\<open>li_next\<close> by the position in the buffer: inside it, and on its last character.\<close>

lemma li_next_inside:
  assumes "li_buffer li \<noteq> []" "li_r li = int p" "p + 1 < length (li_buffer li)" "short (li_buffer li)"
  shows "li_next scripted files rd (script, li) = gives_line script (next_line rd li)"
proof -
  have "int_size (li_r li) = p" "int_size (int (length (li_buffer li)) - 1) = length (li_buffer li) - 1"
    using assms int_size_int[of p] int_size_int[of "length (li_buffer li) - 1"] by (simp_all add: short_def of_nat_diff)
  moreover have "p \<noteq> length (li_buffer li) - 1" using assms(3) by linarith
  ultimately show ?thesis using assms(1) by (simp only: li_next_def gives_line_def Let_def prod.case if_False)
qed

lemma next_line_from:
  assumes "li_r li = int p" "0 < p" "p < length (li_buffer li)" "li_buffer li ! p = newline" "short (li_buffer li)"
  shows "next_line rd li = line_from rd (p + 1) li"
proof -
  have "li_buffer li \<noteq> []" using assms(3) by auto
  then show ?thesis using assms next_line_eq[of li p rd] by (simp add: find_next.simps[of _ p])
qed

text \<open>The context of a block whose following blocks yield \<open>ys\<close>.\<close>

definition after_block ::
  "(bytes \<Rightarrow> bytes option) \<Rightarrow> (nat \<Rightarrow> nat) \<Rightarrow> nat \<Rightarrow> (bytes \<times> nat) list \<Rightarrow> bytes list \<Rightarrow> bool"
where
  "after_block files rd sz script ys \<longleftrightarrow> rd_ok rd sz \<and> (\<forall>b \<in> set script. readable files sz b)
     \<and> (\<forall>li. fresh li sz \<longrightarrow> yields files rd (script, li) ys)"

lemma at_block_end:
  assumes after: "after_block files rd sz script ys" and sz: "sp_block (li_splitter li) = sz"
    and b: "li_buffer li \<noteq> []" "li_r li = int (length (li_buffer li)) - 1" "sp_open (li_splitter li) = Some rest"
  shows "yields files rd (script, li) (block_lines [] rest @ ys)"
proof -
  have ok: "rd_ok rd (sp_block (li_splitter li))" "rd_ok rd sz" using after sz by (auto simp: after_block_def)
  obtain bs rest' where f: "fetch_next rd (li_splitter li) = Inr (bs, (li_splitter li)\<lparr>sp_open := Some rest'\<rparr>)"
    "rest = bs @ rest'" "bs = [] \<longrightarrow> rest' = []" "short bs" by (rule fetch_next_ok[OF ok(1) b(3)])
  let ?li = "li\<lparr>li_buffer := bs, li_splitter := (li_splitter li)\<lparr>sp_open := Some rest'\<rparr>\<rparr>"
  show ?thesis
  proof (cases "bs = []")
    case True
    have "fresh ?li sz" using True sz by (simp add: fresh_def)
    then have y: "yields files rd (script, ?li) ys" using after by (simp add: after_block_def)
    have "li_next scripted files rd (script, ?li)
      = bind_res (fetch_new_block scripted files rd (script, ?li)) (\<lambda>(ok, m, li).
          if ok then gives_line m (next_line rd li) else Inr (None, m, li))"
      by (rule li_next_fresh) (use after sz True in \<open>simp_all add: after_block_def\<close>)
    moreover have "li_next scripted files rd (script, li)
      = bind_res (fetch_new_block scripted files rd (script, ?li)) (\<lambda>(ok, m, li).
          if ok then gives_line m (next_line rd li) else Inr (None, m, li))"
      using b f(1) True by (simp add: li_next_def gives_line_def Let_def cong: if_cong)
    ultimately have "yields files rd (script, li) ys" by (intro yields_same[OF _ y]) simp
    moreover have "rest = []" using True f(2,3) by simp
    ultimately show ?thesis by (simp add: block_lines.simps[of "[]" "[]"])
  next
    case False
    have "handled rd (?li\<lparr>li_last := []\<rparr>) (li_last (?li\<lparr>li_last := []\<rparr>) @ upto_newline (li_buffer (?li\<lparr>li_last := []\<rparr>) @ rest'))"
      by (rule handle_next_ok) (use ok False f(4) in simp_all)
    then obtain li' where h: "handle_next_block rd (?li\<lparr>li_last := []\<rparr>) = Inr li'" "li_last li' = upto_newline rest"
      "li_buffer li' = []" "same_source (li_splitter (?li\<lparr>li_last := []\<rparr>)) (li_splitter li')"
      unfolding handled_def by (elim exE conjE) (simp add: f(2))
    have "li_next scripted files rd (script, li) = Inr (Some (upto_newline rest), script, li')"
      using b f(1) False h(1,2) by (simp add: li_next_def Let_def)
    moreover have "yields files rd (script, li') ys"
      using after h(3,4) sz by (simp add: after_block_def fresh_def same_source_def)
    ultimately have "yields files rd (script, li) (upto_newline rest # ys)" by (rule yields_record)
    moreover have "rest \<noteq> []" using False f(2) by simp
    ultimately show ?thesis by (simp add: block_lines.simps[of "[]" rest])
  qed
qed

lemma from_line:
  assumes after: "after_block files rd sz script ys"
  shows "sp_block (li_splitter li) = sz \<Longrightarrow> sp_open (li_splitter li) = Some rest \<Longrightarrow> l \<le> length (li_buffer li) \<Longrightarrow>
    (drop l (li_buffer li) = [] \<Longrightarrow> rest \<noteq> []) \<Longrightarrow> (l = 0 \<Longrightarrow> li_buffer li ! 0 \<noteq> newline) \<Longrightarrow>
    li_next scripted files rd s = gives_line script (line_from rd l li) \<Longrightarrow>
    short (li_buffer li) \<Longrightarrow> yields files rd s (block_lines (drop l (li_buffer li)) rest @ ys)"
proof (induction "length (li_buffer li) - l" arbitrary: l li s rule: less_induct)
  case less
  let ?b = "li_buffer li"
  have ok: "rd_ok rd (sp_block (li_splitter li))" using after less.prems(1) by (simp add: after_block_def)
  show ?case
  proof (cases "find_next ?b l newline")
    case None
    then have no: "newline \<notin> set (drop l ?b)" by (simp add: find_next_eq split: if_splits)
    let ?li = "li\<lparr>li_l := int l, li_r := -1\<rparr>"
    have "\<exists>li'. finish_record rd (drop l ?b) ?li = Inr (drop l ?b @ upto_newline rest, li')
        \<and> li_buffer li' = [] \<and> same_source (li_splitter ?li) (li_splitter li')"
      by (rule finish_ok) (use ok less.prems(2) in simp_all)
    then obtain li' where f: "finish_record rd (drop l ?b) ?li = Inr (drop l ?b @ upto_newline rest, li')"
      "li_buffer li' = []" "same_source (li_splitter ?li) (li_splitter li')" by blast
    have "yields files rd (script, li') ys"
      using after f(2,3) less.prems(1) by (simp add: after_block_def fresh_def same_source_def)
    then have "yields files rd s ((drop l ?b @ upto_newline rest) # ys)"
      by (rule yields_record[rotated]) (simp add: less.prems(6) gives_line_def line_from_def None f(1))
    then show ?thesis using no less.prems(4) by (cases "drop l ?b = []") (simp_all add: block_lines.simps[of "drop l ?b" rest] block_lines.simps[of "[]" rest])
  next
    case (Some r)
    note r = find_next_Some[OF Some]
    let ?li = "li\<lparr>li_l := int l, li_r := int r\<rparr>"
    have pos: "0 < r" using r(1,3) less.prems(5) by (cases r) auto
    have ne: "drop l ?b \<noteq> []" using r(1,2) by simp
    have nl: "newline \<in> set (drop l ?b)" using Some by (simp add: find_next_eq split: if_splits)
    have "yields files rd (script, ?li) (block_lines (drop (r + 1) ?b) rest @ ys)"
    proof (cases "r + 1 = length ?b")
      case True
      then show ?thesis
        using at_block_end[OF after, of ?li rest] less.prems(1,2) ne by (cases ?b) simp_all
    next
      case False
      have "yields files rd (script, ?li) (block_lines (drop (r + 1) (li_buffer ?li)) rest @ ys)"
      proof (rule less.hyps)
        show "length (li_buffer ?li) - (r + 1) < length ?b - l" using r(1,2) by simp
        show "li_next scripted files rd (script, ?li) = gives_line script (line_from rd (r + 1) ?li)"
          using li_next_inside[of ?li r files rd script] next_line_from[of ?li r rd] pos r(2,3) False ne less.prems(7)
          by (cases "li_buffer li = []") simp_all
      qed (use less.prems(1,2,7) r(2) False in simp_all)
      then show ?thesis by simp
    qed
    then have "yields files rd s (take (r - l) (drop l ?b) # block_lines (drop (r + 1) ?b) rest @ ys)"
      by (rule yields_record[rotated]) (simp add: less.prems(6) gives_line_def line_from_def Some)
    then show ?thesis
      using ne nl by (simp only: r(4,5) block_lines.simps[of "drop l ?b" rest] if_False append_Cons not_True_eq_False simp_thms)
  qed
qed

lemma from_block:
  assumes after: "after_block files rd sz script ys" and good: "good_block off t rest"
    and sp: "sp_block sp = sz" "sp_open sp = Some rest" "sp_offset sp = off"
    and n: "li_next scripted files rd s = gives_line script (next_line rd (start_block li sp t))" and short: "short t"
  shows "yields files rd s (block_records off t rest @ ys)"
proof -
  let ?li = "start_block li sp t"
  have len: "2 \<le> length t" using good by (simp add: good_block_def)
  then have hd: "hd t = t ! 0" "drop 1 t = tl t" by (simp_all add: hd_conv_nth[symmetric] drop_Suc flip: length_0_conv)
  define l where "l = (if off = 0 then (if t ! 0 = newline then 1 else 0)
      else (case find_next t 0 newline of None \<Rightarrow> 0 | Some p \<Rightarrow> p + 1))"
  have line: "next_line rd ?li = line_from rd l ?li"
    using next_line_eq[of ?li 0 rd] short len by (cases t) (simp_all add: start_block_def sp l_def)
  have "block_records off t rest = block_lines (drop l t) rest \<and> l \<le> length t \<and> (drop l t = [] \<longrightarrow> rest \<noteq> [])
      \<and> (l = 0 \<longrightarrow> t ! 0 \<noteq> newline)"
  proof (cases "off = 0")
    case True
    then show ?thesis using len hd by (auto simp: l_def block_records_def)
  next
    case False
    then obtain p where p: "find_next t 0 newline = Some p"
      using good by (auto simp: good_block_def find_next_eq)
    note q = find_next_Some[OF p]
    have "p + 1 < length t" if "rest = []"
    proof -
      have "newline \<in> set (butlast t)" using good False that by (simp add: good_block_def)
      then obtain k where "k < length t - 1" "t ! k = newline" by (auto simp: in_set_conv_nth nth_butlast)
      moreover have "p \<le> k"
      proof (rule ccontr)
        assume "\<not> p \<le> k"
        then have "take p t ! k = newline" "k < length (take p t)" using \<open>t ! k = newline\<close> q(2) by simp_all
        then have "newline \<in> set (take p t)" by (metis nth_mem)
        then show False using q(4) by (auto dest: set_takeWhileD)
      qed
      ultimately show ?thesis by linarith
    qed
    then show ?thesis using q False by (auto simp: l_def p block_records_def)
  qed
  then show ?thesis
    using from_line[OF after, of ?li rest l s] n sp line short by (simp add: start_block_def)
qed

theorem reader_yields:
  "rd_ok rd sz \<Longrightarrow> \<forall>b \<in> set script. readable files sz b \<Longrightarrow> fresh li sz \<Longrightarrow>
    yields files rd (script, li) (concat (map (records_of files sz) script))"
proof (induction script arbitrary: li)
  case Nil
  then have "\<exists>s. li_next scripted files rd ([], li) = Inr (None, s)"
    using new_block_next[of rd li "[]" files] li_next_fresh[of rd li "[]" files] by (auto simp: fresh_def)
  then show ?case by (auto intro: yields_end)
next
  case (Cons b bs)
  obtain off t rest where b: "block_of files sz b = (off, t, rest)" by (cases "block_of files sz b")
  let ?sp = "(li_splitter li)\<lparr>sp_offset := off, sp_open := Some rest\<rparr>"
  have after: "after_block files rd sz bs (concat (map (records_of files sz) bs))"
    using Cons by (simp add: after_block_def)
  have "li_next scripted files rd (b # bs, li) = gives_line bs (next_line rd (start_block li ?sp t))"
    using new_block_next[of rd li "b # bs" files] li_next_fresh[of rd li "b # bs" files] Cons.prems b by (auto simp: fresh_def)
  moreover have "good_block off t rest" using Cons.prems(2) b by (simp add: readable_def)
  moreover have "short t" using Cons.prems(1) b by (cases b; auto simp: block_of_def rd_ok_def short_def min_def)
  ultimately have "yields files rd (b # bs, li) (block_records off t rest @ concat (map (records_of files sz) bs))"
    by (intro from_block[OF after, where sp = ?sp]) (use Cons.prems(3) in \<open>simp_all add: fresh_def\<close>)
  moreover have "records_of files sz b = block_records off t rest" by (simp add: records_of_def b)
  ultimately show ?case by simp
qed

section \<open>Every line of the files\<close>

definition file_blocks :: "(bytes \<Rightarrow> bytes option) \<Rightarrow> nat \<Rightarrow> bytes \<Rightarrow> (bytes \<times> nat) list" where
  "file_blocks files sz fn = map (Pair fn) (block_offsets 0 (length (get_or [] (files (c_str fn)))) sz)"

lemma later_blocks:
  assumes "0 < sz" "files (c_str fn) = Some t"
  shows "0 < k \<Longrightarrow> \<forall>off \<in> set (block_offsets k (length t) sz). readable files sz (fn, off) \<Longrightarrow>
    concat (map (\<lambda>off. records_of files sz (fn, off)) (block_offsets k (length t) sz)) = text_lines (after_newline (drop k t))"
proof (induction "length t - k" arbitrary: k rule: less_induct)
  case less
  show ?case
  proof (cases "k < length t")
    case False
    then show ?thesis by (simp add: block_offsets.simps[of k] after_newline_def text_lines.simps[of "[]"])
  next
    case True
    then have offs: "block_offsets k (length t) sz = k # block_offsets (k + sz) (length t) sz"
      using assms(1) by (simp add: block_offsets.simps[of k])
    let ?b = "take sz (drop k t)" and ?rest = "drop (k + sz) t"
    have "newline \<in> set ?b" using less.prems by (simp add: offs readable_def block_of_def assms(2) good_block_def)
    then have "after_newline (?b @ ?rest) = after_newline ?b @ ?rest" by (rule conjunct2[OF newline_append(1)])
    moreover have "?b @ ?rest = drop k t" using append_take_drop_id[of sz "drop k t"] by (simp add: add.commute)
    ultimately have "text_lines (after_newline (drop k t)) = block_lines (after_newline ?b) ?rest @ text_lines (after_newline ?rest)"
      using text_lines_block[of "after_newline ?b" ?rest] by simp
    moreover have "records_of files sz (fn, k) = block_lines (after_newline ?b) ?rest"
      using less.prems(1) by (simp add: records_of_def block_of_def assms(2) block_records_def)
    moreover have "concat (map (\<lambda>off. records_of files sz (fn, off)) (block_offsets (k + sz) (length t) sz))
        = text_lines (after_newline ?rest)"
      using less.hyps[of "k + sz"] less.prems True assms(1) by (simp add: offs)
    ultimately show ?thesis by (simp add: offs)
  qed
qed

lemma file_records:
  assumes "0 < sz" "files (c_str fn) = Some t" "\<forall>b \<in> set (file_blocks files sz fn). readable files sz b"
  shows "(if take 1 t = [newline] then [[]] else []) @ concat (map (records_of files sz) (file_blocks files sz fn)) = text_lines t"
proof (cases "t = []")
  case True
  then show ?thesis using assms by (simp add: file_blocks_def block_offsets.simps[of 0] text_lines.simps[of "[]"])
next
  case False
  then have offs: "block_offsets 0 (length t) sz = 0 # block_offsets sz (length t) sz"
    using assms(1) by (simp add: block_offsets.simps[of 0])
  let ?rest = "drop sz t" and ?b = "take sz t"
  have b: "?b \<noteq> []" "take 1 ?b = take 1 t" "tl t = tl ?b @ ?rest" "t = ?b @ ?rest"
    using assms(1) False by (cases sz; cases t; simp)+
  have "records_of files sz (fn, 0) = (if take 1 t = [newline] then block_lines (tl ?b) ?rest else block_lines ?b ?rest)"
    using b(1,2) by (cases t) (auto simp: records_of_def block_of_def assms(2) block_records_def)
  moreover have "text_lines t = (if take 1 t = [newline] then [[]] @ block_lines (tl ?b) ?rest else block_lines ?b ?rest)
      @ text_lines (after_newline ?rest)"
  proof (cases "take 1 t = [newline]")
    case True
    then have "text_lines t = [] # text_lines (tl t)" by (cases t) (simp_all add: text_lines.simps[of "_ # _"] after_newline_def)
    then show ?thesis using text_lines_block[of "tl ?b" ?rest] b(3) True by simp
  next
    case False
    then show ?thesis using text_lines_block[of ?b ?rest] b(4) by simp
  qed
  moreover have "concat (map (\<lambda>off. records_of files sz (fn, off)) (block_offsets sz (length t) sz)) = text_lines (after_newline ?rest)"
    by (rule later_blocks) (use assms offs in \<open>auto simp: file_blocks_def\<close>)
  ultimately show ?thesis by (simp add: file_blocks_def assms(2) offs comp_def)
qed

text \<open>The blocks of a directory, and the records of all the readers of its blocks.\<close>

lemma mset_concat: "mset (concat xss) = sum_list (map mset xss)"
  by (induction xss) auto

lemma concat_map_mset: "mset xs = mset ys \<Longrightarrow> mset (concat (map f xs)) = mset (concat (map f ys))"
  by (simp add: mset_concat comp_def flip: sum_mset_sum_list)

lemma with_first_lines:
  "(\<And>fn. fn \<in> set fns \<Longrightarrow> (if P fn then [[]] else []) @ f fn = g fn) \<Longrightarrow>
    mset (concat (map f fns)) + mset (map (\<lambda>_. []) (filter P fns)) = mset (concat (map g fns))"
proof (induction fns)
  case (Cons fn fns)
  then have "g fn = (if P fn then [[]] else []) @ f fn" by (metis list.set_intros(1))
  moreover have "mset (concat (map f fns)) + mset (map (\<lambda>_. []) (filter P fns)) = mset (concat (map g fns))"
    using Cons by simp
  ultimately show ?case by (simp flip: \<open>mset (concat (map f fns)) + mset (map (\<lambda>_. []) (filter P fns)) = mset (concat (map g fns))\<close>)
qed simp

text \<open>C23. However the master deals the blocks of the files out to the loading threads, their readers
  end, and together they give every line of every file exactly once, but for the empty line that a file
  begins with when its first character is a newline: that one is lost.  A line goes to the reader of the
  block it begins in, however many blocks it crosses.  The conditions: blocks of less than \<open>2^31\<close> bytes that
  are read in pieces of a size that divides the block; every block that there is has two characters at least, those behind the first one
  of a file hold a newline, and the last block of a file holds one that is not the last character of the file.\<close>

theorem every_line_once:
  assumes "rd_ok rd sz" "\<forall>fn \<in> set fns. \<forall>b \<in> set (file_blocks files sz fn). readable files sz b"
    "\<forall>fn \<in> set fns. files (c_str fn) \<noteq> None"
    "mset (concat scripts) = mset (concat (map (file_blocks files sz) fns))"
    "\<forall>li \<in> set readers. fresh li sz" "length readers = length scripts"
  shows "\<exists>records. list_all2 (\<lambda>(script, li) xs. \<exists>n s. li_all scripted files rd n (script, li) = Inr (xs, True, s))
        (zip scripts readers) records
    \<and> mset (concat records) + mset (map (\<lambda>_. []) (filter (\<lambda>fn. take 1 (get_or [] (files (c_str fn))) = [newline]) fns))
      = mset (concat (map (\<lambda>fn. text_lines (get_or [] (files (c_str fn)))) fns))"
proof (intro exI conjI)
  let ?records = "map (\<lambda>script. concat (map (records_of files sz) script)) scripts"
  have "set (concat scripts) = set (concat (map (file_blocks files sz) fns))" using assms(4) by (rule mset_eq_setD)
  then have r: "\<forall>script \<in> set scripts. \<forall>b \<in> set script. readable files sz b" using assms(2) by auto
  show "list_all2 (\<lambda>(script, li) xs. \<exists>n s. li_all scripted files rd n (script, li) = Inr (xs, True, s)) (zip scripts readers) ?records"
    unfolding list_all2_conv_all_nth
  proof (intro conjI allI impI)
    show "length (zip scripts readers) = length ?records" using assms(6) by simp
    fix i assume "i < length (zip scripts readers)"
    then have i: "i < length scripts" "i < length readers" by simp_all
    have "\<forall>b \<in> set (scripts ! i). readable files sz b" using r nth_mem[OF i(1)] by blast
    moreover have "fresh (readers ! i) sz" using assms(5) nth_mem[OF i(2)] by blast
    ultimately have "yields files rd (scripts ! i, readers ! i) (?records ! i)"
      using reader_yields[OF assms(1), of "scripts ! i" files "readers ! i"] i by simp
    then show "(\<lambda>(script, li) xs. \<exists>n s. li_all scripted files rd n (script, li) = Inr (xs, True, s)) (zip scripts readers ! i) (?records ! i)"
      using i by (auto simp: yields_def)
  qed
  have sz: "0 < sz" using assms(1) by (simp add: rd_ok_def)
  have lines: "(if take 1 (get_or [] (files (c_str fn))) = [newline] then [[]] else [])
      @ concat (map (records_of files sz) (file_blocks files sz fn)) = text_lines (get_or [] (files (c_str fn)))"
    if "fn \<in> set fns" for fn
  proof -
    have "files (c_str fn) \<noteq> None" using that assms(3) by simp
    then obtain t where "files (c_str fn) = Some t" by (cases "files (c_str fn)") simp_all
    then show ?thesis using file_records[OF sz, of files fn t] assms(2) that by simp
  qed
  have "concat ?records = concat (map (records_of files sz) (concat scripts))" by (induction scripts) auto
  then have "mset (concat ?records) = mset (concat (map (records_of files sz) (concat (map (file_blocks files sz) fns))))"
    using concat_map_mset[OF assms(4)] by simp
  also have "concat (map (records_of files sz) (concat (map (file_blocks files sz) fns)))
      = concat (map (\<lambda>fn. concat (map (records_of files sz) (file_blocks files sz fn))) fns)" by (induction fns) auto
  finally show "mset (concat ?records) + mset (map (\<lambda>_. []) (filter (\<lambda>fn. take 1 (get_or [] (files (c_str fn))) = [newline]) fns))
      = mset (concat (map (\<lambda>fn. text_lines (get_or [] (files (c_str fn)))) fns))" using with_first_lines[OF lines] by simp
qed

text \<open>Two files: the second begins with an empty line, and has a line that crosses a block.\<close>

definition demo_text :: bytes where
  "demo_text = [97, 98, 10, 99, 100, 101, 102, 10, 103, 10, 104]"

definition demo_files :: "bytes \<Rightarrow> bytes option" where
  "demo_files fn = (if fn = [97] then Some demo_text else if fn = [98] then Some [10, 97, 98] else None)"

definition demo_reader :: line_input where
  "demo_reader = li_new (sp_load (\<lambda>_. [\<lparr>hf_name = [97], hf_is_file = True, hf_size = 11, hf_block_size = 4\<rparr>]) [104] (sp_new 0 2 0 [1]))"

lemma demo_file_blocks:
  "file_blocks demo_files 4 [97, 0] = [([97, 0], 0), ([97, 0], 4), ([97, 0], 8)]" "file_blocks demo_files 4 [98, 0] = [([98, 0], 0)]"
  by (simp_all add: file_blocks_def demo_files_def demo_text_def c_str_def block_offsets.simps)

theorem every_line_once_witness:
  "\<exists>records. list_all2 (\<lambda>(script, li) xs. \<exists>n s. li_all scripted demo_files (\<lambda>_. 2) n (script, li) = Inr (xs, True, s))
        (zip [[([97, 0], 0), ([97, 0], 8)], [([98, 0], 0), ([97, 0], 4)]] [demo_reader, demo_reader]) records
    \<and> mset (concat records) = {#[97, 98], [99, 100, 101, 102], [103], [104], [97, 98]#}"
proof -
  have lines: "concat (map (\<lambda>fn. text_lines (get_or [] (demo_files (c_str fn)))) [[97, 0], [98, 0]])
      = [[97, 98], [99, 100, 101, 102], [103], [104], [], [97, 98]]"
    "filter (\<lambda>fn. take 1 (get_or [] (demo_files (c_str fn))) = [newline]) [[97, 0], [98, 0]] = [[98, 0]]"
    by (simp_all add: demo_files_def demo_text_def c_str_def text_lines.simps after_newline_def newline_def)
  have ok: "rd_ok (\<lambda>_. 2) 4" "\<forall>fn \<in> set [[97, 0], [98, 0]]. \<forall>b \<in> set (file_blocks demo_files 4 fn). readable demo_files 4 b"
    "\<forall>fn \<in> set [[97, 0], [98, 0]]. demo_files (c_str fn) \<noteq> None"
    "mset (concat [[([97, 0], 0), ([97, 0], 8)], [([98, 0], 0), ([97, 0], 4)]])
      = mset (concat (map (file_blocks demo_files 4) [[97, 0], [98, 0]]))"
    by (simp add: rd_ok_def)
      (simp add: demo_file_blocks readable_def block_of_def demo_files_def demo_text_def c_str_def good_block_def newline_def,
       simp add: demo_files_def c_str_def, simp add: demo_file_blocks)
  have readers: "\<forall>li \<in> set [demo_reader, demo_reader]. fresh li 4"
    "length [demo_reader, demo_reader] = length [[([97, 0 :: u8], 0 :: nat), ([97, 0], 8)], [([98, 0], 0), ([97, 0], 4)]]"
    by (simp_all add: demo_reader_def fresh_def li_new_def sp_load_def init_blocksize_def sp_new_def)
  from every_line_once[OF ok readers] obtain records
    where r: "list_all2 (\<lambda>(script, li) xs. \<exists>n s. li_all scripted demo_files (\<lambda>_. 2) n (script, li) = Inr (xs, True, s))
        (zip [[([97, 0], 0), ([97, 0], 8)], [([98, 0], 0), ([97, 0], 4)]] [demo_reader, demo_reader]) records"
    "mset (concat records) + mset (map (\<lambda>_. []) [[98, 0 :: u8]]) = mset [[97, 98], [99, 100, 101, 102], [103], [104], [], [97, 98]]"
    unfolding lines by (elim exE conjE)
  from r(2) have "mset (concat records) + {#[]#} = {#[97, 98], [99, 100, 101, 102], [103], [104], [97, 98]#} + {#[]#}" by simp
  then have "mset (concat records) = {#[97, 98], [99, 100, 101, 102], [103], [104], [97, 98]#}" by (rule add_right_imp_eq)
  then show ?thesis using r(1) by blast
qed

end
