(* ===== verification/Hdfs_Manager.thy ===== *)
theory Hdfs_Manager
  imports Line_Input
begin

text \<open>
  \<open>io/hdfs_manager.cpp\<close>: on every node some loading threads read the lines of a directory through
  the master, which runs in a thread of node 0, and tell it when they are done.
\<close>

record hdfs_config =
  hc_master_host :: bytes
  hc_master_port :: int
  hc_worker_host :: bytes
  hc_worker_port :: int
  hc_hdfs_namenode :: bytes
  hc_hdfs_namenode_port :: int
  hc_input :: bytes
  hc_num_local_load_thread :: int

record hdfs_manager =
  hm_node :: node
  hm_nodes :: "node list"
  hm_config :: hdfs_config

definition hm_new :: "node \<Rightarrow> node list \<Rightarrow> hdfs_config \<Rightarrow> hdfs_manager res" where
  "hm_new nd nds config =
     check_that (nds \<noteq> []) (Check_failed ''nodes'')
    (check_that (check_valid_node_ids nds) (Check_failed ''CheckValidNodeIds'')
    (check_that (has_node nds 0) (Check_failed ''HasNode'')
    (check_that (hc_num_local_load_thread config \<noteq> 0) (Check_failed ''num_local_load_thread'')
      (Inr \<lparr>hm_node = nd, hm_nodes = nds, hm_config = config\<rparr>))))"

text \<open>Node 0 alone starts the thread of the master, and joins it.\<close>

definition hm_start :: "bool list \<Rightarrow> hdfs_manager \<Rightarrow> assigner option" where
  "hm_start connects hm = (if node_id (hm_node hm) = 0 then Some (as_new 0 connects) else None)"

definition hm_num_threads :: "hdfs_manager \<Rightarrow> int" where
  "hm_num_threads hm = to_i32 (of_nat (length (hm_nodes hm)) * to_u32 (hc_num_local_load_thread (hm_config hm)))"

record input_format =
  if_infmt :: line_input
  if_record :: "bytes option"

definition input_format_new :: "(bytes \<Rightarrow> hdfs_file list) \<Rightarrow> nat \<Rightarrow> int \<Rightarrow> hdfs_config \<Rightarrow> input_format res" where
  "input_format_new listing junk threads config =
     bind_res (set_splitter listing (hc_input config) (li_new (sp_new junk threads 0 (hc_worker_host config)))) (\<lambda>li.
       Inr \<lparr>if_infmt = li, if_record = None\<rparr>)"

text \<open>Without a next record \<open>record\<close> keeps what it was.\<close>

definition has_record ::
  "(bin_stream \<Rightarrow> 'm \<Rightarrow> (bin_stream \<times> 'm) res) \<Rightarrow> (bytes \<Rightarrow> bytes option) \<Rightarrow> (nat \<Rightarrow> nat) \<Rightarrow> 'm \<times> input_format
     \<Rightarrow> (bool \<times> 'm \<times> input_format) res"
where
  "has_record ask files rd = (\<lambda>(m, fmt).
     bind_res (li_next ask files rd (m, if_infmt fmt)) (\<lambda>(x, m, li).
       Inr (x \<noteq> None, m, fmt\<lparr>if_infmt := li, if_record := (case x of None \<Rightarrow> if_record fmt | Some r \<Rightarrow> Some r)\<rparr>)))"

definition get_next_record :: "input_format \<Rightarrow> bytes res" where
  "get_next_record fmt = of_opt Invalid_argument (if_record fmt)"

text \<open>
  A loading thread: the client's function \<open>func\<close> on the state \<open>'m\<close> of the master and its own \<open>'s\<close>, then
  the finish signal, as the frames it sends.  The worker id is computed in 32 bits.
\<close>

definition load_worker :: "hdfs_manager \<Rightarrow> nat \<Rightarrow> int" where
  "load_worker hm i = to_i32 (node_id (hm_node hm) * to_u32 (hc_num_local_load_thread (hm_config hm)) + of_nat i)"

definition load_thread ::
  "(bytes \<Rightarrow> hdfs_file list) \<Rightarrow> nat \<Rightarrow> (input_format \<Rightarrow> nat \<Rightarrow> 's \<Rightarrow> 's res) \<Rightarrow> hdfs_manager \<Rightarrow> nat
     \<Rightarrow> bytes list list \<times> 's \<Rightarrow> (bytes list list \<times> 's) res"
where
  "load_thread listing junk func hm i = (\<lambda>(sent, s).
     bind_res (input_format_new listing junk (hm_num_threads hm) (hm_config hm)) (\<lambda>fmt.
     bind_res (func fmt i s) (\<lambda>s.
       Inr (sent @ [notify_master (finish_signal (hc_worker_host (hm_config hm)) (load_worker hm i)) exit_request], s))))"

text \<open>\<open>Run\<close>, the threads one after the other in the order they finish in.\<close>

definition hm_run ::
  "(bytes \<Rightarrow> hdfs_file list) \<Rightarrow> nat \<Rightarrow> (input_format \<Rightarrow> nat \<Rightarrow> 's \<Rightarrow> 's res) \<Rightarrow> hdfs_manager \<Rightarrow> nat list \<Rightarrow> 's
     \<Rightarrow> (bytes list list \<times> 's) res"
where
  "hm_run listing junk func hm order s = fold_res (load_thread listing junk func hm) order ([], s)"

section \<open>The ids of the loading threads\<close>

text \<open>The exit messages of all the threads of all the nodes, with the name the coordinator of a node has.\<close>

definition exits_of :: "(node \<Rightarrow> hdfs_manager) \<Rightarrow> (node \<Rightarrow> bytes) \<Rightarrow> node \<times> nat \<Rightarrow> bytes \<times> bytes \<times> bytes" where
  "exits_of managers client = (\<lambda>(nd, i).
     exit_message (client nd) (hc_worker_host (hm_config (managers nd))) (load_worker (managers nd) i))"

lemma check_that_Inr: "check_that b e r = Inr x \<longleftrightarrow> b \<and> r = Inr x"
  by (simp add: check_that_def)

lemma hm_new_ok:
  "hm_new nd nds config = Inr hm \<Longrightarrow> nds \<noteq> [] \<and> check_valid_node_ids nds \<and> has_node nds 0
    \<and> hc_num_local_load_thread config \<noteq> 0 \<and> hm = \<lparr>hm_node = nd, hm_nodes = nds, hm_config = config\<rparr>"
  by (auto simp: hm_new_def check_that_Inr)

lemma load_worker_eq:
  assumes "0 < t" "i < nat t" "uint (node_id nd) * t + t \<le> 2147483648" "hm_node hm = nd" "hc_num_local_load_thread (hm_config hm) = t"
  shows "load_worker hm i = uint (node_id nd) * t + int i"
proof -
  have "0 \<le> uint (node_id nd) * t" using assms(1) by simp
  moreover have "int i < t" using assms(1,2) by linarith
  ultimately have r: "in_i32 (uint (node_id nd) * t + int i)" unfolding in_i32_def using assms(3) by linarith
  have "node_id nd * to_u32 t + of_nat i = to_u32 (uint (node_id nd) * t + int i)"
    by (simp add: to_u32_def)
  then show ?thesis unfolding load_worker_def assms(4,5) using to_i32_to_u32[OF r] by simp
qed

lemma mixed_radix:
  fixes a b t :: int
  assumes "a * t + int i = b * t + int j" "int i < t" "int j < t"
  shows "a = b \<and> i = j"
proof -
  have "(a * t + int i) div t = a" "(b * t + int j) div t = b" using assms(2,3) by auto
  then show ?thesis using assms(1) by auto
qed

lemma valid_ids_distinct: "check_valid_node_ids nds \<Longrightarrow> distinct (map node_id nds)"
  by (simp add: check_valid_node_ids_def check_valid_node_ids_loop_iff)

text \<open>The threads of the nodes, and their ids, all different.\<close>

definition load_threads :: "node list \<Rightarrow> int \<Rightarrow> (node \<times> nat) set" where
  "load_threads nds t = set nds \<times> {..<nat t}"

lemma load_workers_inj:
  assumes "check_valid_node_ids nds" "0 < t" "\<forall>nd \<in> set nds. uint (node_id nd) * t + t \<le> 2147483648"
    "\<forall>nd \<in> set nds. hm_node (managers nd) = nd \<and> hc_num_local_load_thread (hm_config (managers nd)) = t"
  shows "inj_on (\<lambda>(nd, i). load_worker (managers nd) i) (load_threads nds t)"
proof (rule inj_onI)
  fix x y assume x: "x \<in> load_threads nds t" and y: "y \<in> load_threads nds t"
    and eq: "(case x of (nd, i) \<Rightarrow> load_worker (managers nd) i) = (case y of (nd, i) \<Rightarrow> load_worker (managers nd) i)"
  obtain n i m j where p: "x = (n, i)" "y = (m, j)" by (cases x, cases y)
  have b: "n \<in> set nds" "m \<in> set nds" "i < nat t" "j < nat t" using x y by (simp_all add: p load_threads_def)
  have "uint (node_id n) * t + int i = uint (node_id m) * t + int j"
    using eq load_worker_eq[OF assms(2) b(3), of n "managers n"] load_worker_eq[OF assms(2) b(4), of m "managers m"] assms(3,4) b(1,2)
    by (simp add: p)
  then have "uint (node_id n) = uint (node_id m) \<and> i = j" by (rule mixed_radix) (use b(3,4) assms(2) in simp_all)
  moreover have "inj_on node_id (set nds)" using valid_ids_distinct[OF assms(1)] by (simp add: distinct_map)
  ultimately show "x = y" using b(1,2) unfolding p inj_on_def by (simp add: word_uint_eq_iff)
qed

text \<open>C24. The ids of the loading threads of all the nodes are different, so the master of an input of
  \<open>num_threads\<close> threads serves on until the exit message of the last thread of the last node, in
  whatever order the threads end, and then stops.\<close>

theorem master_stops_with_last_thread:
  assumes "\<forall>nd \<in> set nds. \<exists>config. hm_new nd nds config = Inr (managers nd) \<and> hc_num_local_load_thread config = t
      \<and> length (hc_worker_host config) < 2 ^ 64"
    "0 < t" "\<forall>nd \<in> set nds. uint (node_id nd) * t + t \<le> 2147483648" "nds \<noteq> []" "int (length nds) * t \<le> 2147483647"
    "as_running a" "as_finished a = []" "as_alive a = hm_num_threads (managers (hd nds))"
    "set order \<subseteq> load_threads nds t" "distinct order"
  shows "\<exists>rest a'. as_serve pick listing locations (map (\<lambda>th. exits_of managers client th) order) a = Inr ([], rest, a')
    \<and> (as_running a' \<longleftrightarrow> set order \<noteq> load_threads nds t)"
proof -
  let ?f = "\<lambda>(nd, i). (client nd, hc_worker_host (hm_config (managers nd)), load_worker (managers nd) i)"
  have hm: "hm_node (managers nd) = nd" "hm_nodes (managers nd) = nds" "hc_num_local_load_thread (hm_config (managers nd)) = t"
    "length (hc_worker_host (hm_config (managers nd))) < 2 ^ 64" "check_valid_node_ids nds" if "nd \<in> set nds" for nd
    using assms(1) that by (auto dest!: hm_new_ok)
  have hd: "hd nds \<in> set nds" using assms(4) by simp
  have valid: "check_valid_node_ids nds" using hm(5)[OF hd] .
  have nodes: "card (set nds) = length nds" using valid_ids_distinct[OF valid] by (simp add: distinct_map distinct_card)
  have alive: "as_alive a = int (length nds) * t"
  proof -
    have "in_i32 (int (length nds) * t)" using assms(2,5) by (simp add: in_i32_def) (smt (verit) mult_nonneg_nonneg of_nat_0_le_iff)
    then show ?thesis using to_i32_to_u32[of "int (length nds) * t"] by (simp add: assms(8) hm_num_threads_def hm(2,3)[OF hd] to_u32_def)
  qed
  have card: "card (load_threads nds t) = nat (int (length nds) * t)"
    using assms(2) by (simp add: load_threads_def card_cartesian_product nodes nat_mult_distrib)
  have "\<exists>rest a'. as_serve pick listing locations (map (\<lambda>(c, h, w). exit_message c h w) (map ?f order)) a = Inr ([], rest, a')
      \<and> (as_running a' \<longleftrightarrow> card ((\<lambda>(c, h, w). w) ` set (map ?f order)) < nat (int (length nds) * t))"
  proof (rule exits_served)
    show "0 < int (length nds) * t" using assms(2,4) by simp
    then show "in_i32 (int (length nds) * t)" using assms(5) by (simp add: in_i32_def)
    show "list_all (\<lambda>(c, h, w). length h < 2 ^ 64 \<and> in_i32 w) (map ?f order)"
      using assms(9) hm(4) by (auto simp: list_all_iff load_threads_def load_worker_def to_i32_range)
  qed (use assms(6,7) alive in simp_all)
  moreover have "(\<lambda>(c, h, w). w) ` set (map ?f order) = (\<lambda>(nd, i). load_worker (managers nd) i) ` set order" by force
  moreover have "card ((\<lambda>(nd, i). load_worker (managers nd) i) ` set order) = card (set order)"
    by (rule card_image, rule inj_on_subset[OF load_workers_inj[OF valid assms(2,3)] assms(9)]) (use hm(1,3) in blast)
  moreover have "card (set order) < card (load_threads nds t) \<longleftrightarrow> set order \<noteq> load_threads nds t"
    using assms(9) by (metis card_subset_eq finite_cartesian_product finite_lessThan List.finite_set load_threads_def
      less_irrefl psubsetI psubset_card_mono)
  ultimately show ?thesis by (simp add: card exits_of_def comp_def case_prod_unfold)
qed

definition demo_config :: hdfs_config where
  "demo_config = \<lparr>hc_master_host = [1], hc_master_port = 10, hc_worker_host = [2], hc_worker_port = 11,
     hc_hdfs_namenode = [3], hc_hdfs_namenode_port = 12, hc_input = [104, 58, 47, 47, 97], hc_num_local_load_thread = 2\<rparr>"

definition demo_nodes :: "node list" where
  "demo_nodes = [\<lparr>node_id = 0, hostname = ''a'', port = 1\<rparr>, \<lparr>node_id = 3, hostname = ''b'', port = 1\<rparr>]"

definition demo_manager :: "node \<Rightarrow> hdfs_manager" where
  "demo_manager nd = \<lparr>hm_node = nd, hm_nodes = demo_nodes, hm_config = demo_config\<rparr>"

definition demo_order :: "(node \<times> nat) list" where
  "demo_order = [(demo_nodes ! 1, 0), (demo_nodes ! 0, 1), (demo_nodes ! 1, 1), (demo_nodes ! 0, 0)]"

lemma demo_order_all: "set demo_order = load_threads demo_nodes 2"
  by (auto simp: demo_order_def demo_nodes_def load_threads_def lessThan_Suc numeral_2_eq_2)

theorem master_stops_with_last_thread_witness:
  "\<exists>rest a'. as_serve (\<lambda>_. 0) demo_listing demo_locations (map (\<lambda>th. exits_of demo_manager (\<lambda>_. [7]) th) demo_order)
      (as_new 4 [True]) = Inr ([], rest, a') \<and> (as_running a' \<longleftrightarrow> set demo_order \<noteq> load_threads demo_nodes 2)"
proof (rule master_stops_with_last_thread)
  show "\<forall>nd \<in> set demo_nodes. \<exists>config. hm_new nd demo_nodes config = Inr (demo_manager nd) \<and> hc_num_local_load_thread config = 2
      \<and> length (hc_worker_host config) < 2 ^ 64"
    by (intro ballI exI[of _ demo_config]) (simp add: hm_new_def check_that_def demo_manager_def demo_config_def
      demo_nodes_def check_valid_node_ids_def)
  show "distinct demo_order" by (simp add: demo_order_def demo_nodes_def)
  show "as_alive (as_new 4 [True]) = hm_num_threads (demo_manager (hd demo_nodes))"
    by (simp add: as_new_def hm_num_threads_def demo_manager_def demo_config_def demo_nodes_def to_u32_def to_i32_def)
qed (simp_all add: demo_order_all, simp_all add: demo_nodes_def as_new_def)

end
