(* ===== verification/Channel.thy ===== *)
theory Channel
  imports Mailbox
begin

text \<open>
  \<open>comm2/channel.cpp\<close>, \<open>comm2/local_channel.cpp\<close>: threads of all the processes that send each other
  streams of bytes in rounds.  \<open>SArrayBinStream\<close> and the flag \<open>kOther\<close> are not part of the sources: the
  streams are a type \<open>'b\<close> with the functions \<open>to_msg\<close> and \<open>from_msg\<close>, and the flag is an argument.  A queue
  is an address in the store of queues of \<open>Mailbox\<close>.
\<close>

section \<open>The channel\<close>

record local_channel =
  lc_tid :: u32
  lc_queue :: nat

record channel =
  ch_num_local :: u32
  ch_num_global :: u32
  ch_local_ids :: "u32 list"
  ch_id_map :: "(u32, u32) omap"
  ch_channels :: "local_channel list"
  ch_generation :: u32
  ch_count :: u32
  ch_threshold :: u32

text \<open>\<open>RegisterQueues\<close>, with the addresses of the queues of the new local channels.\<close>

fun register_queues :: "(u32 \<times> nat) list \<Rightarrow> channel \<times> mailbox \<Rightarrow> (channel \<times> mailbox) res" where
  "register_queues [] s = Inr s"
| "register_queues ((tid, q) # rest) (ch, mb) =
     (let ch = ch\<lparr>ch_channels := ch_channels ch @ [\<lparr>lc_tid = tid, lc_queue = q\<rparr>]\<rparr>
      in bind_res (of_opt (Check_failed ''id_map_'') (om_get (ch_id_map ch) tid)) (\<lambda>qid.
         bind_res (mb_register qid q mb) (\<lambda>mb. register_queues rest (ch, mb))))"

definition channel_new ::
  "u32 \<Rightarrow> u32 \<Rightarrow> u32 list \<Rightarrow> (u32, u32) omap \<Rightarrow> nat list \<Rightarrow> mailbox \<Rightarrow> (channel \<times> mailbox) res"
where
  "channel_new num_local num_global tids id_map qs mb =
     register_queues (zip tids qs)
       (\<lparr>ch_num_local = num_local, ch_num_global = num_global, ch_local_ids = tids, ch_id_map = id_map,
         ch_channels = [], ch_generation = 0, ch_count = num_local, ch_threshold = num_local\<rparr>, mb)"

text \<open>\<open>operator[]\<close> of the map puts a zero where it finds nothing.\<close>

definition id_at :: "u32 \<Rightarrow> channel \<Rightarrow> u32 \<times> channel" where
  "id_at i ch = (get_or 0 (om_get (ch_id_map ch) i), ch\<lparr>ch_id_map := om_insert i 0 (ch_id_map ch)\<rparr>)"

fun deregister_queues :: "u32 list \<Rightarrow> channel \<times> mailbox \<Rightarrow> (channel \<times> mailbox) res" where
  "deregister_queues [] s = Inr s"
| "deregister_queues (tid # tids) (ch, mb) =
     (let (qid, ch) = id_at tid ch in bind_res (mb_deregister qid mb) (\<lambda>mb. deregister_queues tids (ch, mb)))"

definition channel_close :: "channel \<Rightarrow> mailbox \<Rightarrow> mailbox res" where
  "channel_close ch mb = bind_res (deregister_queues (ch_local_ids ch) (ch, mb)) (\<lambda>(_, mb). Inr mb)"

definition get_local_channels :: "channel \<Rightarrow> local_channel list res" where
  "get_local_channels ch = check_that (ch_channels ch \<noteq> []) (Check_failed ''local_channels_'') (Inr (ch_channels ch))"

text \<open>\<open>PushTo\<close>: the message handed to the mailbox.\<close>

definition push_to :: "flag \<Rightarrow> ('b \<Rightarrow> message) \<Rightarrow> u32 \<Rightarrow> 'b \<Rightarrow> channel \<Rightarrow> (message \<times> channel) res" where
  "push_to other to_msg i bin ch =
     check_that (i < ch_num_global ch) (Check_failed ''num_global_threads_'')
       (let (tid, ch) = id_at i ch; msg = to_msg bin
        in Inr (msg\<lparr>meta_of := (meta_of msg)\<lparr>sender := -1, recver := to_i32 tid, model_id := -1, mflag := other\<rparr>\<rparr>, ch))"

text \<open>
  \<open>Wait\<close> up to the wait of the condition variable: \<open>None\<close>, the last thread, which resets the counter,
  runs the barrier of the mailbox and wakes the others, all under the lock; or the generation to wait for.
\<close>

definition wait_enter :: "channel \<Rightarrow> u32 option \<times> channel" where
  "wait_enter ch =
     (let gen = ch_generation ch; ch = ch\<lparr>ch_count := ch_count ch - 1\<rparr>
      in if ch_count ch = 0 then (None, ch\<lparr>ch_generation := ch_generation ch + 1, ch_count := ch_threshold ch\<rparr>)
         else (Some gen, ch))"

definition wait_over :: "u32 \<Rightarrow> channel \<Rightarrow> bool" where
  "wait_over gen ch \<longleftrightarrow> gen \<noteq> ch_generation ch"

text \<open>\<open>SyncAndGet\<close> between its two waits: it takes what is in the queue.\<close>

function drain :: "(message \<Rightarrow> 'b) \<Rightarrow> message tsq \<Rightarrow> 'b list \<times> message tsq" where
  "drain from_msg q =
     (if tsq_size q = 0 then ([], q)
      else case tsq_wait_and_pop q of
          None \<Rightarrow> ([], q)
        | Some (msg, q) \<Rightarrow> (let (rets, q) = drain from_msg q in (from_msg msg # rets, q)))"
  by pat_completeness auto
termination by (relation "measure (\<lambda>(_, q). length q)") (auto simp: tsq_wait_and_pop_def split: list.splits)

declare drain.simps [simp del]

lemma drain_all: "length q < 2147483648 \<Longrightarrow> drain from_msg q = (map from_msg q, [])"
proof (induction q)
  case Nil
  show ?case by (simp add: drain.simps[of _ "[]"] tsq_size_def to_i32_def)
next
  case (Cons m q)
  have "tsq_size (m # q) = int (length (m # q))"
    using Cons.prems to_i32_to_u32[of "int (length (m # q))"] by (simp add: tsq_size_def in_i32_def to_u32_def)
  then show ?case using Cons by (simp add: drain.simps[of _ "m # q"] tsq_wait_and_pop_def)
qed

section \<open>The barrier of the threads\<close>

text \<open>A thread has left \<open>wt_left\<close> waits and may be in one, with the generation it waits for.\<close>

record wthread =
  wt_left :: nat
  wt_gen :: "u32 option"

definition wt_entered :: "wthread \<Rightarrow> nat" where
  "wt_entered t = wt_left t + (if wt_gen t = None then 0 else 1)"

inductive wait_step :: "nat \<Rightarrow> channel \<times> (nat \<Rightarrow> wthread) \<Rightarrow> channel \<times> (nat \<Rightarrow> wthread) \<Rightarrow> bool" for n where
  ws_last: "t < n \<Longrightarrow> wt_gen (ts t) = None \<Longrightarrow> wait_enter ch = (None, ch') \<Longrightarrow>
    wait_step n (ch, ts) (ch', ts(t := \<lparr>wt_left = Suc (wt_left (ts t)), wt_gen = None\<rparr>))"
| ws_enter: "t < n \<Longrightarrow> wt_gen (ts t) = None \<Longrightarrow> wait_enter ch = (Some g, ch') \<Longrightarrow>
    wait_step n (ch, ts) (ch', ts(t := (ts t)\<lparr>wt_gen := Some g\<rparr>))"
| ws_leave: "t < n \<Longrightarrow> wt_gen (ts t) = Some g \<Longrightarrow> wait_over g ch \<Longrightarrow>
    wait_step n (ch, ts) (ch, ts(t := \<lparr>wt_left = Suc (wt_left (ts t)), wt_gen = None\<rparr>))"

inductive wait_run :: "nat \<Rightarrow> channel \<Rightarrow> channel \<times> (nat \<Rightarrow> wthread) \<Rightarrow> bool" for n ch where
  wr_start: "ch_count ch = of_nat n \<Longrightarrow> ch_threshold ch = of_nat n \<Longrightarrow> ch_generation ch = 0 \<Longrightarrow>
    wait_run n ch (ch, \<lambda>_. \<lparr>wt_left = 0, wt_gen = None\<rparr>)"
| wr_step: "wait_run n ch s \<Longrightarrow> wait_step n s s' \<Longrightarrow> wait_run n ch s'"

inductive_cases wait_stepE: "wait_step n s s'"

definition wait_inv :: "nat \<Rightarrow> channel \<times> (nat \<Rightarrow> wthread) \<Rightarrow> nat \<Rightarrow> bool" where
  "wait_inv n s g \<longleftrightarrow> (case s of (ch, ts) \<Rightarrow>
     ch_generation ch = of_nat g \<and> ch_threshold ch = of_nat n
     \<and> card {t. t < n \<and> wt_gen (ts t) \<noteq> None \<and> wt_left (ts t) = g} < n
     \<and> ch_count ch = of_nat (n - card {t. t < n \<and> wt_gen (ts t) \<noteq> None \<and> wt_left (ts t) = g})
     \<and> (\<forall>t < n. (wt_left (ts t) = g \<or> Suc (wt_left (ts t)) = g \<and> wt_gen (ts t) \<noteq> None)
         \<and> (wt_gen (ts t) = None \<or> wt_gen (ts t) = Some (of_nat (wt_left (ts t))))))"

lemma wait_inv_last:
  assumes n: "n < 4294967296" and inv: "wait_inv n (ch, ts) g" and t: "t < n" and now: "wt_gen (ts t) = None" and move: "wait_enter ch = (None, ch')"
  shows "wait_inv n (ch', ts(t := \<lparr>wt_left = Suc (wt_left (ts t)), wt_gen = None\<rparr>)) (Suc g)"
proof -
  let ?W = "\<lambda>ts g. {t. t < n \<and> wt_gen (ts t) \<noteq> None \<and> wt_left (ts t) = g}"
  let ?ts = "ts(t := \<lparr>wt_left = Suc (wt_left (ts t)), wt_gen = None\<rparr>)"
  from inv have i: "ch_generation ch = of_nat g" "ch_threshold ch = of_nat n" "card (?W ts g) < n" "ch_count ch = of_nat (n - card (?W ts g))"
    and each: "\<And>t. t < n \<Longrightarrow> (wt_left (ts t) = g \<or> Suc (wt_left (ts t)) = g \<and> wt_gen (ts t) \<noteq> None)
        \<and> (wt_gen (ts t) = None \<or> wt_gen (ts t) = Some (of_nat (wt_left (ts t))))"
    by (simp_all add: wait_inv_def)
  have "of_nat (n - card (?W ts g)) = (1 :: u32)"
    using move i(4) by (auto simp: wait_enter_def Let_def split: if_splits)
  then have "unat (of_nat (n - card (?W ts g)) :: u32) = 1" by simp
  then have one: "n - card (?W ts g) = 1" using n by (simp add: unat_of_nat_small)
  have "?W ts g = {..<n} - {t}"
  proof (rule card_subset_eq)
    show "?W ts g \<subseteq> {..<n} - {t}" using now by auto
    show "card (?W ts g) = card ({..<n} - {t})" using one t by simp
  qed simp
  then have all: "wt_gen (ts u) \<noteq> None \<and> wt_left (ts u) = g" if "u < n" "u \<noteq> t" for u using that by blast
  have others: "wt_left (ts u) = g \<and> wt_gen (ts u) = Some (of_nat g)" if "u < n" "u \<noteq> t" for u
    using all[OF that] each[OF that(1)] by auto
  have lt: "wt_left (ts t) = g" using each[OF t] now by simp
  have no: "?W ?ts (Suc g) = {}" using all by auto
  show ?thesis
    unfolding wait_inv_def prod.case no
    using t move i(1,2) others lt by (auto simp: wait_enter_def Let_def split: if_splits)
qed

lemma wait_inv_enter:
  assumes inv: "wait_inv n (ch, ts) g" and t: "t < n" and now: "wt_gen (ts t) = None" and move: "wait_enter ch = (Some g0, ch')"
  shows "wait_inv n (ch', ts(t := (ts t)\<lparr>wt_gen := Some g0\<rparr>)) g"
proof -
  let ?W = "\<lambda>ts g. {t. t < n \<and> wt_gen (ts t) \<noteq> None \<and> wt_left (ts t) = g}"
  let ?ts = "ts(t := (ts t)\<lparr>wt_gen := Some g0\<rparr>)"
  from inv have i: "ch_generation ch = of_nat g" "ch_threshold ch = of_nat n" "card (?W ts g) < n" "ch_count ch = of_nat (n - card (?W ts g))"
    and each: "\<And>t. t < n \<Longrightarrow> (wt_left (ts t) = g \<or> Suc (wt_left (ts t)) = g \<and> wt_gen (ts t) \<noteq> None)
        \<and> (wt_gen (ts t) = None \<or> wt_gen (ts t) = Some (of_nat (wt_left (ts t))))"
    by (simp_all add: wait_inv_def)
  have lt: "wt_left (ts t) = g" using each[OF t] now by simp
  have W: "?W ?ts g = insert t (?W ts g)" using t lt by auto
  have new: "card (insert t (?W ts g)) = Suc (card (?W ts g))" using now by simp
  have e: "ch_count ch - 1 \<noteq> 0" "g0 = of_nat g" "ch' = ch\<lparr>ch_count := ch_count ch - 1\<rparr>"
    using move i(1) by (auto simp: wait_enter_def Let_def split: if_splits)
  have "n - card (?W ts g) \<noteq> 1" using e(1) i(4) by auto
  then have room: "Suc (card (?W ts g)) < n" using i(3) by linarith
  then have "n - card (?W ts g) = Suc (n - Suc (card (?W ts g)))" by simp
  then have "ch_count ch - 1 = of_nat (n - Suc (card (?W ts g)))" by (simp add: i(4))
  then show ?thesis
    unfolding wait_inv_def prod.case W new
    using room i(1,2) each lt e(2,3) by auto
qed

lemma wait_inv_leave:
  assumes inv: "wait_inv n (ch, ts) g" and t: "t < n" and now: "wt_gen (ts t) = Some g0" and move: "wait_over g0 ch"
  shows "wait_inv n (ch, ts(t := \<lparr>wt_left = Suc (wt_left (ts t)), wt_gen = None\<rparr>)) g"
proof -
  let ?W = "\<lambda>ts g. {t. t < n \<and> wt_gen (ts t) \<noteq> None \<and> wt_left (ts t) = g}"
  let ?ts = "ts(t := \<lparr>wt_left = Suc (wt_left (ts t)), wt_gen = None\<rparr>)"
  from inv have i: "ch_generation ch = of_nat g" "ch_threshold ch = of_nat n" "card (?W ts g) < n" "ch_count ch = of_nat (n - card (?W ts g))"
    and each: "\<And>t. t < n \<Longrightarrow> (wt_left (ts t) = g \<or> Suc (wt_left (ts t)) = g \<and> wt_gen (ts t) \<noteq> None)
        \<and> (wt_gen (ts t) = None \<or> wt_gen (ts t) = Some (of_nat (wt_left (ts t))))"
    by (simp_all add: wait_inv_def)
  have "wt_left (ts t) \<noteq> g" using each[OF t] now move i(1) by (auto simp: wait_over_def)
  then have lt: "Suc (wt_left (ts t)) = g" using each[OF t] by simp
  have W: "?W ?ts g = ?W ts g" using \<open>wt_left (ts t) \<noteq> g\<close> by auto
  show ?thesis
    unfolding wait_inv_def prod.case W using i each lt by auto
qed

lemma wait_inv_step:
  assumes n: "n < 4294967296" and inv: "wait_inv n s g" and step: "wait_step n s s'"
  shows "\<exists>g'. wait_inv n s' g'"
  using step
proof (cases rule: wait_step.cases)
  case (ws_last t ts ch ch')
  then show ?thesis using wait_inv_last[OF n inv[unfolded ws_last(1)]] by blast
next
  case (ws_enter t ts ch g0 ch')
  then show ?thesis using wait_inv_enter[OF inv[unfolded ws_enter(1)]] by blast
next
  case (ws_leave t ts g0 ch)
  then show ?thesis using wait_inv_leave[OF inv[unfolded ws_leave(1)]] by blast
qed

lemma wait_run_inv:
  assumes "wait_run n ch s" "0 < n" "n < 4294967296"
  shows "\<exists>g. wait_inv n s g"
  using assms(1)
proof (induction rule: wait_run.induct)
  case wr_start
  then have "wait_inv n (ch, \<lambda>_. \<lparr>wt_left = 0, wt_gen = None\<rparr>) 0" using assms(2) by (simp add: wait_inv_def)
  then show ?case ..
next
  case (wr_step s s')
  then show ?case using wait_inv_step[OF assms(3)] by blast
qed

text \<open>C25. The \<open>Wait\<close> of the channel is a barrier of its threads: whatever the order in which they come
  and wake up, no thread leaves its \<open>k\<close>-th wait before every thread has entered its \<open>k\<close>-th wait, the
  generations wrapping around or not; and when all of them wait, one of them may leave.\<close>

theorem channel_wait_is_barrier:
  assumes "wait_run n ch (ch', ts)" "0 < n" "n < 4294967296"
  shows "(\<forall>t < n. \<forall>u < n. wt_left (ts t) \<le> wt_entered (ts u))
    \<and> ((\<forall>t < n. wt_gen (ts t) \<noteq> None) \<longrightarrow> (\<exists>t < n. \<exists>g. wt_gen (ts t) = Some g \<and> wait_over g ch'))"
proof -
  obtain g where inv: "wait_inv n (ch', ts) g" using wait_run_inv[OF assms] by blast
  let ?W = "{t. t < n \<and> wt_gen (ts t) \<noteq> None \<and> wt_left (ts t) = g}"
  from inv have i: "ch_generation ch' = of_nat g" "card ?W < n"
    and each: "\<And>t. t < n \<Longrightarrow> (wt_left (ts t) = g \<or> Suc (wt_left (ts t)) = g \<and> wt_gen (ts t) \<noteq> None)
        \<and> (wt_gen (ts t) = None \<or> wt_gen (ts t) = Some (of_nat (wt_left (ts t))))"
    by (simp_all add: wait_inv_def)
  have "wt_left (ts t) \<le> g" "g \<le> wt_entered (ts t)" if "t < n" for t
    using each[OF that] by (auto simp: wt_entered_def)
  moreover have "\<exists>t < n. \<exists>k. wt_gen (ts t) = Some k \<and> wait_over k ch'" if all: "\<forall>t < n. wt_gen (ts t) \<noteq> None"
  proof -
    have "?W \<noteq> {..<n}" using i(2) by (metis card_lessThan less_irrefl)
    then obtain t where t: "t < n" "wt_left (ts t) \<noteq> g" using all by auto
    then have "Suc (wt_left (ts t)) = g" "wt_gen (ts t) = Some (of_nat (wt_left (ts t)))"
      using each[OF t(1)] all t by blast+
    moreover have "of_nat (wt_left (ts t)) \<noteq> (of_nat (Suc (wt_left (ts t))) :: u32)" by simp
    ultimately have "wait_over (of_nat (wt_left (ts t))) ch'" unfolding wait_over_def i(1) by metis
    then show ?thesis using t(1) \<open>wt_gen (ts t) = Some (of_nat (wt_left (ts t)))\<close> by blast
  qed
  ultimately show ?thesis by (meson order_trans)
qed

definition demo_channel :: channel where
  "demo_channel = \<lparr>ch_num_local = 2, ch_num_global = 2, ch_local_ids = [0, 1], ch_id_map = [(0, 20), (1, 21)],
     ch_channels = [], ch_generation = 0, ch_count = 2, ch_threshold = 2\<rparr>"

definition demo_threads :: "nat \<Rightarrow> wthread" where
  "demo_threads t = (if t = 0 then \<lparr>wt_left = 1, wt_gen = Some 1\<rparr> else if t = 1 then \<lparr>wt_left = 0, wt_gen = Some 0\<rparr>
     else \<lparr>wt_left = 0, wt_gen = None\<rparr>)"

text \<open>Thread 1 waits, thread 0 comes last, goes on and waits again, before thread 1 wakes up.\<close>

theorem channel_wait_is_barrier_witness:
  "wait_run 2 demo_channel (demo_channel\<lparr>ch_generation := 1, ch_count := 1\<rparr>, demo_threads)
    \<and> (\<exists>t < 2. \<exists>g. wt_gen (demo_threads t) = Some g \<and> wait_over g (demo_channel\<lparr>ch_generation := 1, ch_count := 1\<rparr>))"
proof -
  let ?s0 = "\<lambda>_ :: nat. \<lparr>wt_left = 0, wt_gen = None\<rparr>"
  let ?s1 = "?s0(1 := (?s0 1)\<lparr>wt_gen := Some 0\<rparr>)"
  let ?s2 = "?s1(0 := \<lparr>wt_left = Suc (wt_left (?s1 0)), wt_gen = None\<rparr>)"
  let ?s3 = "?s2(0 := (?s2 0)\<lparr>wt_gen := Some 1\<rparr>)"
  have r0: "wait_run 2 demo_channel (demo_channel, ?s0)" by (rule wr_start) (simp_all add: demo_channel_def)
  have r1: "wait_run 2 demo_channel (demo_channel\<lparr>ch_count := 1\<rparr>, ?s1)"
    by (rule wr_step[OF r0], rule ws_enter) (simp_all add: wait_enter_def demo_channel_def)
  have r2: "wait_run 2 demo_channel (demo_channel\<lparr>ch_generation := 1\<rparr>, ?s2)"
    by (rule wr_step[OF r1], rule ws_last) (simp_all add: wait_enter_def demo_channel_def)
  have r3: "wait_run 2 demo_channel (demo_channel\<lparr>ch_generation := 1, ch_count := 1\<rparr>, ?s3)"
    by (rule wr_step[OF r2], rule ws_enter) (simp_all add: wait_enter_def demo_channel_def)
  have "?s3 = demo_threads" by (auto simp: demo_threads_def)
  then have r: "wait_run 2 demo_channel (demo_channel\<lparr>ch_generation := 1, ch_count := 1\<rparr>, demo_threads)" using r3 by simp
  have "\<forall>t < 2. wt_gen (demo_threads t) \<noteq> None" by (auto simp: demo_threads_def less_2_cases_iff)
  then show ?thesis using channel_wait_is_barrier[OF r] r by simp
qed

section \<open>Delivery\<close>

lemma register_queues_ok:
  "register_queues l (ch, mb) = Inr (ch', mb') \<Longrightarrow>
    ch' = ch\<lparr>ch_channels := ch_channels ch @ map (\<lambda>(tid, q). \<lparr>lc_tid = tid, lc_queue = q\<rparr>) l\<rparr>
    \<and> (\<forall>(tid, q) \<in> set l. \<exists>qid. om_get (ch_id_map ch) tid = Some qid \<and> om_get (mb_queue_map mb') qid = Some q)
    \<and> (\<forall>qid. om_get (mb_queue_map mb) qid \<noteq> None \<longrightarrow> om_get (mb_queue_map mb') qid = om_get (mb_queue_map mb) qid)"
proof (induction l arbitrary: ch mb)
  case Nil
  then show ?case by simp
next
  case (Cons x l)
  obtain tid q where x: "x = (tid, q)" by (cases x)
  let ?ch = "ch\<lparr>ch_channels := ch_channels ch @ [\<lparr>lc_tid = tid, lc_queue = q\<rparr>]\<rparr>"
  from Cons.prems obtain qid where q: "om_get (ch_id_map ch) tid = Some qid" "om_get (mb_queue_map mb) qid = None"
    and step: "register_queues l (?ch, mb\<lparr>mb_queue_map := om_insert qid q (mb_queue_map mb)\<rparr>) = Inr (ch', mb')"
    by (auto simp: x res_simps mb_register_def Let_def)
  from Cons.IH[OF step] q show ?case by (auto simp: x)
qed

text \<open>A round: what every thread pushes, as a list of destinations and streams.\<close>

fun push_all :: "flag \<Rightarrow> ('b \<Rightarrow> message) \<Rightarrow> (u32 \<times> 'b) list \<Rightarrow> channel \<Rightarrow> (message list \<times> channel) res" where
  "push_all other to_msg [] ch = Inr ([], ch)"
| "push_all other to_msg ((i, b) # ps) ch =
     bind_res (push_to other to_msg i b ch) (\<lambda>(msg, ch).
     bind_res (push_all other to_msg ps ch) (\<lambda>(msgs, ch). Inr (msg # msgs, ch)))"

text \<open>\<open>kOther\<close> is neither of the flags the mailbox handles itself, and \<open>FromMsg\<close> reads what \<open>ToMsg\<close> wrote.\<close>

definition stream_msgs :: "flag \<Rightarrow> ('b \<Rightarrow> message) \<Rightarrow> (message \<Rightarrow> 'b) \<Rightarrow> bool" where
  "stream_msgs other to_msg from_msg \<longleftrightarrow> other \<noteq> kBarrier \<and> other \<noteq> kExit
     \<and> (\<forall>b m. from_msg ((to_msg b)\<lparr>meta_of := m\<rparr>) = b)"

definition pushed :: "flag \<Rightarrow> ('b \<Rightarrow> message) \<Rightarrow> u32 \<Rightarrow> 'b \<Rightarrow> message" where
  "pushed other to_msg tid b = (to_msg b)\<lparr>meta_of := (meta_of (to_msg b))\<lparr>sender := -1, recver := to_i32 tid,
     model_id := -1, mflag := other\<rparr>\<rparr>"

lemma push_all_ok:
  "\<forall>(i, b) \<in> set ps. i < ch_num_global ch \<and> om_get (ch_id_map ch) i \<noteq> None \<Longrightarrow>
    push_all other to_msg ps ch = Inr (map (\<lambda>(i, b). pushed other to_msg (get_or 0 (om_get (ch_id_map ch) i)) b) ps, ch)"
proof (induction ps)
  case (Cons p ps)
  obtain i b where p: "p = (i, b)" by (cases p)
  have "om_get (ch_id_map ch) i \<noteq> None" "i < ch_num_global ch" using Cons.prems by (simp_all add: p)
  then have "push_to other to_msg i b ch = Inr (pushed other to_msg (get_or 0 (om_get (ch_id_map ch) i)) b, ch)"
    by (auto simp: push_to_def id_at_def pushed_def om_insert_def Let_def)
  then show ?case using Cons by (simp add: p)
qed simp

lemma receiving_total:
  "\<forall>m \<in> set msgs. msg_flag m \<noteq> kExit \<and> msg_flag m \<noteq> kBarrier \<and> om_get (mb_queue_map mb) (to_u32 (msg_recver m)) \<noteq> None \<Longrightarrow>
    \<exists>mb' store'. mb_receiving msgs (mb, store) = Inr ((mb', store'), [], False)"
proof (induction msgs arbitrary: store)
  case (Cons m msgs)
  then obtain q where "om_get (mb_queue_map mb) (to_u32 (msg_recver m)) = Some q" by auto
  then have "mb_dispatch m (mb, store) = Inr (mb, store(q := tsq_push m (store q)))" using Cons.prems by (simp add: mb_dispatch_def)
  then show ?case using Cons by simp
qed simp

lemma pushed_sel [simp]: "msg_flag (pushed other to_msg tid b) = other" "to_u32 (msg_recver (pushed other to_msg tid b)) = tid"
  by (simp_all add: pushed_def)

text \<open>After the constructor the id of a local channel leads to the queue of that channel, and to no other.\<close>

lemma channel_routes:
  assumes new: "channel_new num_local num_global tids id_map qs mb0 = Inr (ch, mb)" "length qs = length tids" "distinct tids" "distinct qs"
    and i: "i \<in> set tids"
  shows "om_get id_map i \<noteq> None" "om_get (mb_queue_map mb) (get_or 0 (om_get id_map i)) \<noteq> None"
    "(tid, q) \<in> set (zip tids qs) \<Longrightarrow> om_get (mb_queue_map mb) (get_or 0 (om_get id_map i)) = Some q \<longleftrightarrow> i = tid"
proof -
  have at: "\<exists>qid. om_get id_map tid = Some qid \<and> om_get (mb_queue_map mb) qid = Some q" if "(tid, q) \<in> set (zip tids qs)" for tid q
    using register_queues_ok[OF new(1)[unfolded channel_new_def]] that by auto
  obtain p where p: "(i, p) \<in> set (zip tids qs)" using i new(2) by (metis in_set_impl_in_set_zip1)
  obtain qid where at_i: "om_get id_map i = Some qid" "om_get (mb_queue_map mb) qid = Some p" using at[OF p] by blast
  then show "om_get id_map i \<noteq> None" "om_get (mb_queue_map mb) (get_or 0 (om_get id_map i)) \<noteq> None" by simp_all
  show "om_get (mb_queue_map mb) (get_or 0 (om_get id_map i)) = Some q \<longleftrightarrow> i = tid" if tq: "(tid, q) \<in> set (zip tids qs)"
  proof -
    have "p = q \<longleftrightarrow> i = tid" using p tq new(2-4) by (auto simp: set_zip nth_eq_iff_index_eq)
    then show ?thesis by (simp add: at_i)
  qed
qed

text \<open>C26. What is pushed to a thread between two of its syncs is what the sync returns: of the streams
  pushed for the threads of this process, in the order in which their messages arrive, each local
  channel takes those pushed to its own id, all of them, and leaves its queue empty for the next round.\<close>

theorem channel_delivers:
  fixes to_msg :: "'b \<Rightarrow> message"
  assumes new: "channel_new num_local num_global tids id_map qs mb0 = Inr (ch, mb)" "length qs = length tids"
    and ids: "distinct tids" "distinct qs" "\<forall>(i, b) \<in> set ps. i \<in> set tids \<and> i < num_global"
    and stream: "stream_msgs other to_msg from_msg"
    and empty: "\<forall>q \<in> set qs. store q = []" "length ps < 2147483648"
  shows "\<exists>msgs mb' store'. push_all other to_msg ps ch = Inr (msgs, ch)
    \<and> mb_receiving msgs (mb, store) = Inr ((mb', store'), [], False)
    \<and> list_all (\<lambda>lc. drain from_msg (store' (lc_queue lc)) = (map snd (filter (\<lambda>(i, b). i = lc_tid lc) ps), [])) (ch_channels ch)
    \<and> map lc_tid (ch_channels ch) = tids"
proof -
  let ?id = "\<lambda>i. get_or 0 (om_get id_map i)"
  let ?msgs = "map (\<lambda>(i, b). pushed other to_msg (?id i) b) ps"
  note reg = register_queues_ok[OF new(1)[unfolded channel_new_def]]
  have ch: "ch_id_map ch = id_map" "ch_num_global ch = num_global"
    "ch_channels ch = map (\<lambda>(tid, q). \<lparr>lc_tid = tid, lc_queue = q\<rparr>) (zip tids qs)" using reg by simp_all
  note route = channel_routes[OF new ids(1,2)]
  have "\<forall>(i, b) \<in> set ps. i < ch_num_global ch \<and> om_get (ch_id_map ch) i \<noteq> None" using ids(3) route(1) ch(1,2) by fastforce
  from push_all_ok[OF this, of other to_msg] have push: "push_all other to_msg ps ch = Inr (?msgs, ch)" by (simp add: ch(1))
  have flags: "other \<noteq> kExit" "other \<noteq> kBarrier" using stream by (simp_all add: stream_msgs_def)
  have "\<forall>m \<in> set ?msgs. msg_flag m \<noteq> kExit \<and> msg_flag m \<noteq> kBarrier \<and> om_get (mb_queue_map mb) (to_u32 (msg_recver m)) \<noteq> None"
    using ids(3) route(2) flags by fastforce
  from receiving_total[OF this] obtain mb' store' where run: "mb_receiving ?msgs (mb, store) = Inr ((mb', store'), [], False)" by blast
  have "drain from_msg (store' q) = (map snd (filter (\<lambda>(i, b). i = tid) ps), [])" if q: "(tid, q) \<in> set (zip tids qs)" for tid q
  proof -
    have "store q = []" using empty(1) q by (auto dest: set_zip_rightD)
    moreover have whole: "takeWhile (\<lambda>m. msg_flag m \<noteq> kExit) ?msgs = ?msgs" using flags by (auto simp: takeWhile_eq_all_conv)
    ultimately have "store' q = filter (\<lambda>m. msg_flag m \<noteq> kBarrier \<and> om_get (mb_queue_map mb) (to_u32 (msg_recver m)) = Some q) ?msgs"
      using mb_receiving_delivers[OF run, of q] unfolding whole by simp
    also have "\<dots> = map (\<lambda>(i, b). pushed other to_msg (?id i) b) (filter (\<lambda>(i, b). i = tid) ps)"
      unfolding filter_map using ids(3) route(3)[OF _ q] flags by (intro arg_cong[where f = "map _"] filter_cong) auto
    finally have "store' q = map (\<lambda>(i, b). pushed other to_msg (?id i) b) (filter (\<lambda>(i, b). i = tid) ps)" .
    moreover have "from_msg (pushed other to_msg t b) = b" for t b using stream by (simp add: stream_msgs_def pushed_def)
    moreover have "length (filter (\<lambda>(i, b). i = tid) ps) < 2147483648" using empty(2) by (rule le_less_trans[OF length_filter_le])
    ultimately show ?thesis by (simp add: drain_all case_prod_unfold)
  qed
  then have "list_all (\<lambda>lc. drain from_msg (store' (lc_queue lc)) = (map snd (filter (\<lambda>(i, b). i = lc_tid lc) ps), [])) (ch_channels ch)"
    by (auto simp: ch(3) list_all_iff)
  moreover have "map lc_tid (ch_channels ch) = tids" using new(2) by (simp add: ch(3) comp_def case_prod_unfold)
  ultimately show ?thesis using push run by blast
qed

definition demo_to_msg :: "u8 list \<Rightarrow> message" where
  "demo_to_msg b = \<lparr>meta_of = meta_of (mail kGet 0), data_of = [b]\<rparr>"

definition demo_from_msg :: "message \<Rightarrow> u8 list" where
  "demo_from_msg m = hd (data_of m)"

definition demo_pushes :: "(u32 \<times> u8 list) list" where
  "demo_pushes = [(1, [5]), (0, [6]), (1, [7])]"

theorem channel_delivers_witness:
  "\<exists>ch mb msgs mb' store'. channel_new 2 2 [0, 1] [(0, 20), (1, 21)] [5, 6] demo_mailbox = Inr (ch, mb)
    \<and> push_all kGet demo_to_msg demo_pushes ch = Inr (msgs, ch)
    \<and> mb_receiving msgs (mb, \<lambda>_. []) = Inr ((mb', store'), [], False)
    \<and> list_all (\<lambda>lc. drain demo_from_msg (store' (lc_queue lc)) = (map snd (filter (\<lambda>(i, b). i = lc_tid lc) demo_pushes), [])) (ch_channels ch)
    \<and> map lc_tid (ch_channels ch) = [0, 1]"
proof -
  obtain ch mb where new: "channel_new 2 2 [0, 1] [(0, 20), (1, 21)] [5, 6] demo_mailbox = Inr (ch, mb)"
    by (simp add: channel_new_def mb_register_def demo_mailbox_def om_insert_def)
  have "\<exists>msgs mb' store'. push_all kGet demo_to_msg demo_pushes ch = Inr (msgs, ch)
    \<and> mb_receiving msgs (mb, \<lambda>_. []) = Inr ((mb', store'), [], False)
    \<and> list_all (\<lambda>lc. drain demo_from_msg (store' (lc_queue lc)) = (map snd (filter (\<lambda>(i, b). i = lc_tid lc) demo_pushes), [])) (ch_channels ch)
    \<and> map lc_tid (ch_channels ch) = [0, 1]"
    by (rule channel_delivers[OF new]) (simp_all add: demo_pushes_def stream_msgs_def demo_to_msg_def demo_from_msg_def)
  with new show ?thesis by (elim exE conjE) (intro exI conjI)
qed

end
