(* ===== verification/Rapid_Reassignment.thy ===== *)
theory Rapid_Reassignment
  imports Complex_Main Channel Storage
begin

text \<open>
  \<open>examples2/rapid_reassignment\<close>: a worker that has finished its batch asks the workers of its group for
  their status and takes over half of what the slowest one has left.  The locks of the sources are
  local variables and exclude nothing; the model takes each method and the handling of a message as
  one step.  The streams of bytes are an argument, as in \<open>Channel\<close>; a float is its value, and the
  vectors of floats, which are only passed on, are the bit patterns.
\<close>

section \<open>Jobs\<close>

record job_meta =
  jm_iter :: u32
  jm_start_pt :: u32
  jm_batch_size :: u32
  jm_current_pt :: u32
  jm_thread_id :: u32

definition new_job_meta :: job_meta where
  "new_job_meta = \<lparr>jm_iter = 0, jm_start_pt = 0, jm_batch_size = 0, jm_current_pt = 0, jm_thread_id = 0\<rparr>"

record stolen_job =
  helper_batch_size_new :: u32
  helper_start_pt_new :: u32
  helpee_batch_size_new :: u32

text \<open>An \<open>uint32_t\<close> as a \<open>float\<close>: the nearest number of 24 significant bits, ties to even.\<close>

fun float_shift :: "nat \<Rightarrow> nat" where
  "float_shift n = (if n < 16777216 then 0 else Suc (float_shift (n div 2)))"

declare float_shift.simps [simp del]

definition float_of :: "u32 \<Rightarrow> nat" where
  "float_of w =
     (let n = unat w; k = 2 ^ float_shift n; q = n div k; r = n mod k
      in (if k < 2 * r \<or> k = 2 * r \<and> odd q then q + 1 else q) * k)"

definition left_of :: "job_meta \<Rightarrow> u32" where
  "left_of job = jm_batch_size job - (jm_current_pt job - jm_start_pt job)"

text \<open>The worker with the most left; the code reads the first entry of the vector, which is never empty there.\<close>

fun slowest_from :: "job_meta \<Rightarrow> job_meta list \<Rightarrow> job_meta" where
  "slowest_from job [] = job"
| "slowest_from job (j # js) = slowest_from (if float_of (left_of job) < float_of (left_of j) then j else job) js"

definition cal_slowest_worker :: "job_meta list \<Rightarrow> job_meta res" where
  "cal_slowest_worker jobs = (case jobs of [] \<Rightarrow> Inl Out_of_bounds | j # js \<Rightarrow> Inr (slowest_from j (j # js)))"

definition is_in_same_iteration :: "job_meta \<Rightarrow> job_meta \<Rightarrow> bool" where
  "is_in_same_iteration job slowest = (if jm_iter job < jm_iter slowest then False else True)"

text \<open>\<open>percent\<close> is 0.5 in the only call: the product is exact, and the conversion to \<open>uint32_t\<close> cuts.\<close>

definition steal_job :: "job_meta \<Rightarrow> rat \<Rightarrow> stolen_job option" where
  "steal_job job threshold =
     (if jm_current_pt job = jm_start_pt job + jm_batch_size job then None
      else if threshold < of_nat (float_of (jm_current_pt job - jm_start_pt job)) then None
      else
        let helper = of_nat (float_of (left_of job) div 2)
        in Some \<lparr>helper_batch_size_new = helper,
                 helper_start_pt_new = jm_start_pt job + jm_batch_size job - helper,
                 helpee_batch_size_new = jm_batch_size job - helper\<rparr>)"

section \<open>Messages\<close>

text \<open>\<open>SArrayBinStream\<close>: writing and reading a word, a \<open>StolenJob\<close> and a vector of floats, the size, and
  the conversions to and from a message.\<close>

record 'b sarray_stream =
  ss_new :: 'b
  ss_put :: "u32 \<Rightarrow> 'b \<Rightarrow> 'b"
  ss_put_job :: "stolen_job \<Rightarrow> 'b \<Rightarrow> 'b"
  ss_put_vec :: "u32 list \<Rightarrow> 'b \<Rightarrow> 'b"
  ss_get :: "'b \<Rightarrow> (u32 \<times> 'b) res"
  ss_get_job :: "'b \<Rightarrow> (stolen_job \<times> 'b) res"
  ss_get_vec :: "'b \<Rightarrow> (u32 list \<times> 'b) res"
  ss_size :: "'b \<Rightarrow> nat"
  ss_to_msg :: "'b \<Rightarrow> message"
  ss_from_msg :: "message \<Rightarrow> 'b"

definition message_builder :: "flag \<Rightarrow> 'b sarray_stream \<Rightarrow> u32 \<Rightarrow> u32 \<Rightarrow> 'b \<Rightarrow> message" where
  "message_builder other S tid_o tid_d bin =
     (let msg = ss_to_msg S bin
      in msg\<lparr>meta_of := (meta_of msg)\<lparr>sender := to_i32 tid_o, recver := to_i32 tid_d, model_id := -1, mflag := other\<rparr>\<rparr>)"

definition find_task :: "flag \<Rightarrow> 'b sarray_stream \<Rightarrow> u32 \<Rightarrow> u32 \<Rightarrow> message" where
  "find_task other S from to = message_builder other S from to (ss_put S 1 (ss_new S))"

definition send_status :: "flag \<Rightarrow> 'b sarray_stream \<Rightarrow> u32 \<Rightarrow> u32 \<Rightarrow> job_meta \<Rightarrow> message" where
  "send_status other S from to job =
     message_builder other S from to
       (ss_put S (jm_current_pt job) (ss_put S (jm_batch_size job) (ss_put S (jm_start_pt job)
         (ss_put S (jm_iter job) (ss_put S 2 (ss_new S))))))"

definition send_help :: "flag \<Rightarrow> 'b sarray_stream \<Rightarrow> u32 \<Rightarrow> u32 \<Rightarrow> stolen_job \<Rightarrow> message" where
  "send_help other S from to stolen = message_builder other S from to (ss_put_job S stolen (ss_put S 3 (ss_new S)))"

definition confirm_help :: "flag \<Rightarrow> 'b sarray_stream \<Rightarrow> u32 \<Rightarrow> u32 \<Rightarrow> stolen_job \<Rightarrow> message" where
  "confirm_help other S from to stolen = message_builder other S from to (ss_put_job S stolen (ss_put S 4 (ss_new S)))"

definition cancel_help :: "flag \<Rightarrow> 'b sarray_stream \<Rightarrow> u32 \<Rightarrow> u32 \<Rightarrow> message" where
  "cancel_help other S from to = message_builder other S from to (ss_put S 5 (ss_new S))"

definition terminate_reassgn :: "flag \<Rightarrow> 'b sarray_stream \<Rightarrow> u32 \<Rightarrow> u32 \<Rightarrow> message" where
  "terminate_reassgn other S from to = message_builder other S from to (ss_put S 6 (ss_new S))"

definition send_data :: "flag \<Rightarrow> 'b sarray_stream \<Rightarrow> u32 \<Rightarrow> u32 \<Rightarrow> u32 list \<Rightarrow> message" where
  "send_data other S from to data = message_builder other S from to (ss_put_vec S data (ss_put S 7 (ss_new S)))"

section \<open>The job of a worker\<close>

record job_manager =
  jo_members :: "u32 list"
  jo_job :: job_meta
  jo_id :: u32
  jo_wait :: bool
  jo_do :: bool

definition jo_new :: "bool \<Rightarrow> u32 \<Rightarrow> u32 list \<Rightarrow> job_manager" where
  "jo_new junk i members = \<lparr>jo_members = members, jo_job = new_job_meta, jo_id = i, jo_wait = junk, jo_do = False\<rparr>"

definition set_wait :: "bool \<Rightarrow> job_manager \<Rightarrow> job_manager" where
  "set_wait w jo = jo\<lparr>jo_wait := w\<rparr>"

definition set_do_reassgn :: "bool \<Rightarrow> job_manager \<Rightarrow> job_manager" where
  "set_do_reassgn d jo = jo\<lparr>jo_do := d, jo_wait := False\<rparr>"

definition update_iteration :: "u32 \<Rightarrow> job_manager \<Rightarrow> job_manager" where
  "update_iteration i jo = jo\<lparr>jo_job := (jo_job jo)\<lparr>jm_iter := i\<rparr>\<rparr>"

definition update_start_pt :: "u32 \<Rightarrow> job_manager \<Rightarrow> job_manager" where
  "update_start_pt s jo = jo\<lparr>jo_job := (jo_job jo)\<lparr>jm_start_pt := s, jm_current_pt := s\<rparr>\<rparr>"

definition update_batch_size :: "u32 \<Rightarrow> job_manager \<Rightarrow> job_manager" where
  "update_batch_size b jo = jo\<lparr>jo_job := (jo_job jo)\<lparr>jm_batch_size := b\<rparr>\<rparr>"

definition is_finished :: "job_manager \<Rightarrow> bool" where
  "is_finished jo \<longleftrightarrow> jm_current_pt (jo_job jo) = jm_start_pt (jo_job jo) + jm_batch_size (jo_job jo)"

text \<open>\<open>Check\<close> up to its loop, with the messages it sends; the loop ends when \<open>jo_wait\<close> is false.\<close>

definition jo_check :: "flag \<Rightarrow> 'b sarray_stream \<Rightarrow> job_manager \<Rightarrow> message list \<times> job_manager" where
  "jo_check other S jo =
     (let jo = jo\<lparr>jo_job := (jo_job jo)\<lparr>jm_current_pt := jm_current_pt (jo_job jo) + 1\<rparr>\<rparr>
      in if is_finished jo \<and> jo_do jo then (map (find_task other S (jo_id jo)) (jo_members jo), set_wait True jo)
         else ([], jo))"

definition jo_terminate :: "flag \<Rightarrow> 'b sarray_stream \<Rightarrow> job_manager \<Rightarrow> message list" where
  "jo_terminate other S jo = (if jo_do jo then map (terminate_reassgn other S (jo_id jo)) (jo_members jo) else [])"

record status_box =
  sb_size :: u32
  sb_metas :: "job_meta list"

definition add_status :: "job_meta \<Rightarrow> status_box \<Rightarrow> status_box" where
  "add_status job box = box\<lparr>sb_metas := sb_metas box @ [job]\<rparr>"

definition sb_full :: "status_box \<Rightarrow> bool" where
  "sb_full box = (if unat (sb_size box) = length (sb_metas box) then True else False)"

definition sb_clear :: "status_box \<Rightarrow> status_box" where
  "sb_clear box = box\<lparr>sb_metas := []\<rparr>"

section \<open>The groups\<close>

text \<open>The thread of the same number on every other node; mode 1 adds a neighbour on node 0, mode 2 one
  more on the last node.  The code logs the size of the first group, so there must be a thread.\<close>

definition other_nodes :: "u32 \<Rightarrow> u32 \<Rightarrow> nat \<Rightarrow> u32 list" where
  "other_nodes nid num_nodes i =
     map (\<lambda>j. of_nat j * 1000 + 50 + of_nat i) (filter (\<lambda>j. nid \<noteq> of_nat j) [0..<unat num_nodes])"

definition helpee_of :: "u32 \<Rightarrow> nat \<Rightarrow> u32" where
  "helpee_of num_local i = (if of_nat i = num_local - 1 then 50 else 50 + of_nat i + 1)"

definition second_helpee_of :: "u32 \<Rightarrow> u32 \<Rightarrow> nat \<Rightarrow> u32" where
  "second_helpee_of num_nodes num_local i =
     (num_nodes - 1) * 1000 + (if i = 0 then 50 + num_local - 1 else 50 + of_nat i - 1)"

definition get_members :: "u32 \<Rightarrow> u32 \<Rightarrow> u32 \<Rightarrow> u32 \<Rightarrow> u32 list list res" where
  "get_members nid num_nodes num_local mode =
     check_that (num_local \<noteq> 0) Out_of_bounds
       (Inr (map (\<lambda>i. other_nodes nid num_nodes i
          @ (if mode = 1 then [helpee_of num_local i] else [])
          @ (if mode = 2 then [helpee_of num_local i, second_helpee_of num_nodes num_local i] else []))
        [0..<unat num_local]))"

section \<open>A process\<close>

record rapid =
  rr_id_map :: "(u32, u32) omap"
  rr_channel :: "channel option"
  rr_sending :: bool
  rr_local_channels :: "local_channel list"
  rr_num_nodes :: u32
  rr_num_local :: u32
  rr_num_global :: u32
  rr_node_id :: u32
  rr_finished :: bool
  rr_group_member :: "u32 list list"
  rr_job_managers :: "job_manager list"
  rr_send_queue :: "message tsq"
  rr_status_box :: "status_box list"
  rr_steal_threshold :: rat
  rr_group_mode :: u32
  rr_val_values :: "u32 list list"

definition rr_new :: "u32 \<Rightarrow> u32 \<Rightarrow> u32 \<Rightarrow> u32 \<Rightarrow> rapid" where
  "rr_new num_nodes num_local num_global nid =
     \<lparr>rr_id_map = [], rr_channel = None, rr_sending = False, rr_local_channels = [], rr_num_nodes = num_nodes,
      rr_num_local = num_local, rr_num_global = num_global, rr_node_id = nid, rr_finished = False,
      rr_group_member = [], rr_job_managers = [], rr_send_queue = [], rr_status_box = [],
      rr_steal_threshold = 0, rr_group_mode = 0, rr_val_values = []\<rparr>"

definition set_steal_threshold :: "rat \<Rightarrow> rapid \<Rightarrow> rapid" where
  "set_steal_threshold th rr = rr\<lparr>rr_steal_threshold := th\<rparr>"

definition set_group_mode :: "u32 \<Rightarrow> rapid \<Rightarrow> rapid" where
  "set_group_mode mode rr = rr\<lparr>rr_group_mode := mode\<rparr>"

definition rr_send :: "message \<Rightarrow> rapid \<Rightarrow> rapid" where
  "rr_send msg rr = rr\<lparr>rr_send_queue := tsq_push msg (rr_send_queue rr)\<rparr>"

definition dist_data :: "flag \<Rightarrow> 'b sarray_stream \<Rightarrow> u32 list \<Rightarrow> rapid \<Rightarrow> rapid" where
  "dist_data other S data rr = rr_send (send_data other S 50 1050 data) rr"

definition get_job_manager :: "u32 \<Rightarrow> rapid \<Rightarrow> job_manager res" where
  "get_job_manager worker rr =
     check_that (rr_num_local rr \<noteq> 0) Div_by_zero (vec_at (rr_job_managers rr) (unat (worker mod rr_num_local rr)))"

text \<open>\<open>(recver - 50) % 1000\<close> of C++; a negative index is outside the vectors.\<close>

definition local_id :: "message \<Rightarrow> nat res" where
  "local_id msg = bind_res (as_i32 (msg_recver msg - 50)) (\<lambda>d.
     if 0 \<le> d then Inr (nat (d mod 1000)) else if (- d) mod 1000 = 0 then Inr 0 else Inl Out_of_bounds)"

definition put_manager :: "nat \<Rightarrow> job_manager \<Rightarrow> rapid \<Rightarrow> rapid" where
  "put_manager i jo rr = rr\<lparr>rr_job_managers := (rr_job_managers rr)[i := jo]\<rparr>"

definition put_box :: "nat \<Rightarrow> status_box \<Rightarrow> rapid \<Rightarrow> rapid" where
  "put_box i box rr = rr\<lparr>rr_status_box := (rr_status_box rr)[i := box]\<rparr>"

definition from_of :: "message \<Rightarrow> u32" where "from_of msg = to_u32 (msg_sender msg)"
definition to_of :: "message \<Rightarrow> u32" where "to_of msg = to_u32 (msg_recver msg)"

text \<open>\<open>kSendData\<close>: the vector is appended before it is read, so what is kept is empty.\<close>

definition handle_data :: "'b sarray_stream \<Rightarrow> 'b \<Rightarrow> rapid \<Rightarrow> rapid res" where
  "handle_data S bin rr = bind_res (ss_get_vec S bin) (\<lambda>_. Inr (rr\<lparr>rr_val_values := rr_val_values rr @ [[]]\<rparr>))"

definition handle_find_task :: "flag \<Rightarrow> 'b sarray_stream \<Rightarrow> message \<Rightarrow> rapid \<Rightarrow> rapid res" where
  "handle_find_task other S msg rr =
     bind_res (local_id msg) (\<lambda>i. bind_res (vec_at (rr_job_managers rr) i) (\<lambda>jo.
       Inr (if \<not> jo_do jo then rr else rr_send (send_status other S (to_of msg) (from_of msg) (jo_job jo)) rr)))"

definition get_status :: "'b sarray_stream \<Rightarrow> u32 \<Rightarrow> 'b \<Rightarrow> job_meta res" where
  "get_status S from bin =
     bind_res (ss_get S bin) (\<lambda>(it, bin). bind_res (ss_get S bin) (\<lambda>(start, bin).
     bind_res (ss_get S bin) (\<lambda>(batch, bin). bind_res (ss_get S bin) (\<lambda>(current, bin).
       Inr \<lparr>jm_iter = it, jm_start_pt = start, jm_batch_size = batch, jm_current_pt = current, jm_thread_id = from\<rparr>))))"

definition ask_slowest :: "flag \<Rightarrow> 'b sarray_stream \<Rightarrow> message \<Rightarrow> nat \<Rightarrow> job_meta list \<Rightarrow> rapid \<Rightarrow> rapid res" where
  "ask_slowest other S msg i jobs rr =
     bind_res (cal_slowest_worker jobs) (\<lambda>slowest. bind_res (vec_at (rr_job_managers rr) i) (\<lambda>jo.
       if is_in_same_iteration (jo_job jo) slowest then
         (case steal_job slowest (rr_steal_threshold rr) of
            Some stolen \<Rightarrow> Inr (rr_send (send_help other S (to_of msg) (jm_thread_id slowest) stolen) rr)
          | None \<Rightarrow> Inr (put_manager i (set_wait False jo) rr))
       else Inr (put_manager i (set_wait False jo) rr)))"

definition handle_status :: "flag \<Rightarrow> 'b sarray_stream \<Rightarrow> message \<Rightarrow> 'b \<Rightarrow> rapid \<Rightarrow> rapid res" where
  "handle_status other S msg bin rr =
     bind_res (local_id msg) (\<lambda>i. bind_res (get_status S (from_of msg) bin) (\<lambda>job.
     bind_res (vec_at (rr_status_box rr) i) (\<lambda>box.
       let box = add_status job box in
       if sb_full box then
         bind_res (ask_slowest other S msg i (sb_metas box) rr) (\<lambda>rr. Inr (put_box i (sb_clear box) rr))
       else Inr (put_box i box rr))))"

definition accepts :: "job_meta \<Rightarrow> stolen_job \<Rightarrow> bool" where
  "accepts job stolen \<longleftrightarrow> jm_current_pt job < jm_start_pt job + helpee_batch_size_new stolen
     \<and> jm_start_pt job + jm_batch_size job = helper_start_pt_new stolen + helper_batch_size_new stolen"

definition handle_help :: "flag \<Rightarrow> 'b sarray_stream \<Rightarrow> message \<Rightarrow> 'b \<Rightarrow> rapid \<Rightarrow> rapid res" where
  "handle_help other S msg bin rr =
     (if ss_size S bin < 4 then Inr rr
      else bind_res (local_id msg) (\<lambda>i. bind_res (vec_at (rr_job_managers rr) i) (\<lambda>jo.
        if \<not> jo_do jo then Inr rr
        else bind_res (ss_get_job S bin) (\<lambda>(stolen, _).
          Inr (if accepts (jo_job jo) stolen
               then rr_send (confirm_help other S (to_of msg) (from_of msg) stolen)
                      (put_manager i (update_batch_size (helpee_batch_size_new stolen) jo) rr)
               else rr_send (cancel_help other S (to_of msg) (from_of msg)) rr)))))"

definition take_over :: "stolen_job \<Rightarrow> job_manager \<Rightarrow> job_manager" where
  "take_over stolen jo =
     set_wait False (update_batch_size (helper_batch_size_new stolen) (update_start_pt (helper_start_pt_new stolen) jo))"

definition handle_confirm :: "'b sarray_stream \<Rightarrow> message \<Rightarrow> 'b \<Rightarrow> rapid \<Rightarrow> rapid res" where
  "handle_confirm S msg bin rr =
     (if ss_size S bin < 4 then Inr rr
      else bind_res (local_id msg) (\<lambda>i. bind_res (vec_at (rr_job_managers rr) i) (\<lambda>jo.
        if \<not> jo_do jo then Inr rr
        else bind_res (ss_get_job S bin) (\<lambda>(stolen, _). Inr (put_manager i (take_over stolen jo) rr)))))"

definition handle_cancel :: "flag \<Rightarrow> 'b sarray_stream \<Rightarrow> message \<Rightarrow> rapid \<Rightarrow> rapid res" where
  "handle_cancel other S msg rr =
     bind_res (local_id msg) (\<lambda>i. bind_res (vec_at (rr_group_member rr) i) (\<lambda>members.
       Inr (fold (\<lambda>m rr. rr_send (find_task other S (to_of msg) m) rr) members rr)))"

definition handle_terminate :: "message \<Rightarrow> rapid \<Rightarrow> rapid res" where
  "handle_terminate msg rr =
     bind_res (local_id msg) (\<lambda>i. bind_res (vec_at (rr_job_managers rr) i) (\<lambda>jo.
       Inr (put_manager i (set_do_reassgn False jo) rr)))"

definition rr_handle :: "flag \<Rightarrow> 'b sarray_stream \<Rightarrow> message \<Rightarrow> rapid \<Rightarrow> rapid res" where
  "rr_handle other S msg rr =
     bind_res (ss_get S (ss_from_msg S msg)) (\<lambda>(kind, bin).
       if kind = 7 then handle_data S bin rr
       else if kind = 1 then handle_find_task other S msg rr
       else if kind = 2 then handle_status other S msg bin rr
       else if kind = 3 then handle_help other S msg bin rr
       else if kind = 4 then handle_confirm S msg bin rr
       else if kind = 5 then handle_cancel other S msg rr
       else if kind = 6 then handle_terminate msg rr
       else Inr rr)"

text \<open>One round of \<open>GetLoop\<close>: what is in the queue is handled, unless the process has finished.\<close>

definition get_loop :: "flag \<Rightarrow> 'b sarray_stream \<Rightarrow> message tsq \<Rightarrow> rapid \<Rightarrow> (rapid \<times> message tsq) res" where
  "get_loop other S q rr =
     (if rr_finished rr then Inr (rr, q)
      else bind_res (fold_res (rr_handle other S) q rr) (\<lambda>rr. Inr (rr, [])))"

text \<open>\<open>SimpleIdMapper::GetChannelThreads\<close>, which the sources do not have, is an argument.\<close>

definition rr_start ::
  "(u32 \<Rightarrow> u32 \<Rightarrow> u32 list \<times> (u32, u32) omap) \<Rightarrow> nat list \<Rightarrow> bool \<Rightarrow> rapid \<Rightarrow> mailbox \<Rightarrow> (rapid \<times> mailbox) res"
where
  "rr_start channel_threads qs junk rr mb =
     (let (tids, id_map) = channel_threads (rr_num_local rr) (rr_num_global rr);
          num_members = rr_num_nodes rr + rr_group_mode rr
      in bind_res (channel_new (rr_num_local rr) (rr_num_global rr) tids id_map qs mb) (\<lambda>(ch, mb).
         bind_res (get_local_channels ch) (\<lambda>lcs.
         bind_res (get_members (rr_node_id rr) (rr_num_nodes rr) (rr_num_local rr) (rr_group_mode rr)) (\<lambda>groups.
           Inr (rr\<lparr>rr_id_map := id_map, rr_channel := Some ch, rr_sending := True, rr_local_channels := lcs,
                   rr_group_member := groups,
                   rr_job_managers := rr_job_managers rr @ map (\<lambda>i. jo_new junk (rr_node_id rr * 1000 + 50 + of_nat i) (groups ! i)) [0..<unat (rr_num_local rr)],
                   rr_status_box := rr_status_box rr @ replicate (unat (rr_num_local rr)) \<lparr>sb_size = num_members - 1, sb_metas = []\<rparr>\<rparr>, mb)))))"

text \<open>\<open>Sender_rr\<close> has the code of \<open>Sender\<close>.\<close>

definition sender_rr_send :: "message tsq \<Rightarrow> message list \<times> message tsq \<times> bool" where
  "sender_rr_send = sender_main"

definition sender_rr_stop :: "meta \<Rightarrow> message tsq \<Rightarrow> message tsq" where
  "sender_rr_stop = sender_stop"

definition rr_stop :: "meta \<Rightarrow> rapid \<Rightarrow> rapid" where
  "rr_stop junk rr = rr\<lparr>rr_send_queue := sender_rr_stop junk (rr_send_queue rr),
     rr_finished := (if rr_local_channels rr = [] then rr_finished rr else True)\<rparr>"

section \<open>What a theft takes\<close>

lemma float_of_le: "float_of w \<le> 2 * unat w"
proof -
  let ?n = "unat w"
  have shift: "2 ^ float_shift n \<le> n \<or> float_shift n = 0" for n
  proof (induction n rule: float_shift.induct)
    case (1 n)
    show ?case
    proof (cases "n < 16777216")
      case True
      then show ?thesis by (simp add: float_shift.simps[of n])
    next
      case False
      then have s: "float_shift n = Suc (float_shift (n div 2))" by (simp add: float_shift.simps[of n])
      have "2 ^ float_shift (n div 2) \<le> n div 2" using 1 False by (auto simp: Suc_le_eq)
      then have "2 * 2 ^ float_shift (n div 2) \<le> n" using mult_le_mono2[of _ "n div 2" 2] by fastforce
      then show ?thesis by (simp add: s)
    qed
  qed
  define k where "k = (2 :: nat) ^ float_shift ?n"
  have parts: "?n div k * k + ?n mod k = ?n" by simp
  show ?thesis
  proof (cases "float_shift ?n = 0")
    case True
    then show ?thesis by (simp add: float_of_def)
  next
    case False
    then have "k \<le> ?n" using shift[of ?n] by (auto simp: k_def)
    moreover have "(?n div k + 1) * k = ?n div k * k + k" by simp
    ultimately have "(?n div k + 1) * k \<le> 2 * ?n" using parts by linarith
    moreover have "?n div k * k \<le> 2 * ?n" using parts by linarith
    ultimately show ?thesis unfolding float_of_def Let_def k_def[symmetric] by simp
  qed
qed

lemma slowest_from_most:
  "slowest_from j js \<in> insert j (set js) \<and> (\<forall>x \<in> insert j (set js). float_of (left_of x) \<le> float_of (left_of (slowest_from j js)))"
proof (induction js arbitrary: j)
  case (Cons y js)
  let ?j = "if float_of (left_of j) < float_of (left_of y) then y else j"
  from Cons[of ?j] show ?case by (auto split: if_splits intro: order_trans)
qed simp

lemma slowest_has_most:
  assumes "cal_slowest_worker jobs = Inr j"
  shows "j \<in> set jobs" "\<forall>x \<in> set jobs. float_of (left_of x) \<le> float_of (left_of j)"
  using assms slowest_from_most[of "hd jobs" jobs] by (auto simp: cal_slowest_worker_def split: list.splits)

text \<open>The points a worker has still to do, and a job that does not reach the end of the range of points.\<close>

definition points :: "job_meta \<Rightarrow> nat set" where
  "points job = {unat (jm_current_pt job) ..< unat (jm_start_pt job) + unat (jm_batch_size job)}"

definition job_ok :: "job_meta \<Rightarrow> bool" where
  "job_ok job \<longleftrightarrow> unat (jm_start_pt job) + unat (jm_batch_size job) < 2 ^ 32 \<and> unat (jm_start_pt job) \<le> unat (jm_current_pt job)
     \<and> unat (jm_current_pt job) \<le> unat (jm_start_pt job) + unat (jm_batch_size job)"

lemma unat_add_small: "unat (a :: u32) + unat b < 2 ^ 32 \<Longrightarrow> unat (a + b) = unat a + unat b"
  by (subst unat_add_lem[symmetric]) simp

lemma unat_diff_small: "unat (b :: u32) \<le> unat a \<Longrightarrow> unat (a - b) = unat a - unat b"
  by (simp add: unat_sub word_le_nat_alt)

lemma steal_splits:
  assumes steal: "steal_job job th = Some stolen" and ok: "job_ok job"
  shows "unat (helper_batch_size_new stolen) \<le> unat (left_of job)"
    "unat (helper_start_pt_new stolen) + unat (helper_batch_size_new stolen) = unat (jm_start_pt job) + unat (jm_batch_size job)"
    "unat (jm_start_pt job) + unat (helpee_batch_size_new stolen) = unat (helper_start_pt_new stolen)"
proof -
  let ?h = "float_of (left_of job) div 2"
  have st: "helper_batch_size_new stolen = of_nat ?h" "helper_start_pt_new stolen = jm_start_pt job + jm_batch_size job - of_nat ?h"
    "helpee_batch_size_new stolen = jm_batch_size job - of_nat ?h"
    using steal by (auto simp: steal_job_def Let_def split: if_splits)
  have le: "?h \<le> unat (left_of job)" using float_of_le[of "left_of job"] by linarith
  have "unat (left_of job) < 2 ^ LENGTH(32)" by (rule unsigned_less)
  then have h: "unat (of_nat ?h :: u32) = ?h" using le by (intro unat_of_nat_small) linarith
  have cur: "unat (jm_current_pt job - jm_start_pt job) = unat (jm_current_pt job) - unat (jm_start_pt job)"
    by (rule unat_diff_small) (use ok in \<open>simp add: job_ok_def\<close>)
  have left: "unat (left_of job) = unat (jm_batch_size job) - (unat (jm_current_pt job) - unat (jm_start_pt job))"
    unfolding left_of_def by (subst unat_diff_small) (use ok cur in \<open>auto simp: job_ok_def\<close>)
  have fin: "unat (jm_start_pt job + jm_batch_size job) = unat (jm_start_pt job) + unat (jm_batch_size job)"
    by (rule unat_add_small) (use ok in \<open>simp add: job_ok_def\<close>)
  have b: "?h \<le> unat (jm_batch_size job)" using le left by linarith
  have e: "unat (jm_batch_size job - of_nat ?h) = unat (jm_batch_size job) - ?h"
    using unat_diff_small[of "of_nat ?h" "jm_batch_size job"] h b by simp
  have f: "unat (jm_start_pt job + jm_batch_size job - of_nat ?h) = unat (jm_start_pt job) + unat (jm_batch_size job) - ?h"
    using unat_diff_small[of "of_nat ?h" "jm_start_pt job + jm_batch_size job"] h b fin by simp
  show "unat (helper_batch_size_new stolen) \<le> unat (left_of job)" unfolding st h by (rule le)
  show "unat (helper_start_pt_new stolen) + unat (helper_batch_size_new stolen) = unat (jm_start_pt job) + unat (jm_batch_size job)"
    unfolding st h f using b by linarith
  show "unat (jm_start_pt job) + unat (helpee_batch_size_new stolen) = unat (helper_start_pt_new stolen)"
    unfolding st e f using b by linarith
qed

section \<open>Help from end to end\<close>

definition job_words :: "stolen_job \<Rightarrow> u32 list" where
  "job_words j = [helper_batch_size_new j, helper_start_pt_new j, helpee_batch_size_new j]"

text \<open>What the code relies on of \<open>SArrayBinStream\<close>: it is a queue of words, which a message carries over.\<close>

definition stream_laws :: "('b \<Rightarrow> u32 list) \<Rightarrow> 'b sarray_stream \<Rightarrow> bool" where
  "stream_laws content S \<longleftrightarrow> content (ss_new S) = []
     \<and> (\<forall>w s. content (ss_put S w s) = content s @ [w])
     \<and> (\<forall>j s. content (ss_put_job S j s) = content s @ job_words j)
     \<and> (\<forall>s w ws. content s = w # ws \<longrightarrow> (\<exists>s'. ss_get S s = Inr (w, s') \<and> content s' = ws))
     \<and> (\<forall>s j. content s = job_words j \<longrightarrow> (\<exists>s'. ss_get_job S s = Inr (j, s')))
     \<and> (\<forall>s. ss_size S s = 4 * length (content s))
     \<and> (\<forall>s m. content (ss_from_msg S ((ss_to_msg S s)\<lparr>meta_of := m\<rparr>)) = content s)"

lemma stream_lawsD:
  assumes "stream_laws content S"
  shows "content (ss_new S) = []" "\<And>w s. content (ss_put S w s) = content s @ [w]"
    "\<And>j s. content (ss_put_job S j s) = content s @ job_words j"
    "\<And>s w ws. content s = w # ws \<Longrightarrow> \<exists>s'. ss_get S s = Inr (w, s') \<and> content s' = ws"
    "\<And>s j. content s = job_words j \<Longrightarrow> \<exists>s'. ss_get_job S s = Inr (j, s')"
    "\<And>s. ss_size S s = 4 * length (content s)"
    "\<And>s m. content (ss_from_msg S ((ss_to_msg S s)\<lparr>meta_of := m\<rparr>)) = content s"
  using assms unfolding stream_laws_def by blast+

text \<open>The id of a thread, as \<open>StartEverything\<close> computes it.\<close>

definition thread_id_of :: "nat \<Rightarrow> nat \<Rightarrow> u32" where
  "thread_id_of n i = of_nat n * 1000 + 50 + of_nat i"

definition thread_ok :: "nat \<Rightarrow> nat \<Rightarrow> bool" where
  "thread_ok n i \<longleftrightarrow> i < 1000 \<and> n * 1000 + 50 + i < 2147483648"

lemma thread_id_int: "thread_ok n i \<Longrightarrow> to_i32 (thread_id_of n i) = int (n * 1000 + 50 + i)"
proof -
  assume "thread_ok n i"
  then have "in_i32 (int (n * 1000 + 50 + i))" by (simp add: thread_ok_def in_i32_def)
  moreover have "thread_id_of n i = to_u32 (int (n * 1000 + 50 + i))" by (simp add: thread_id_of_def to_u32_def)
  ultimately show ?thesis using to_i32_to_u32 by simp
qed

lemma built_sel:
  "msg_recver (message_builder other S from to bin) = to_i32 to" "msg_sender (message_builder other S from to bin) = to_i32 from"
  "to_of (message_builder other S from to bin) = to" "from_of (message_builder other S from to bin) = from"
  by (simp_all add: message_builder_def to_of_def from_of_def Let_def)

lemma built_local_id:
  assumes "thread_ok n i"
  shows "local_id (message_builder other S from (thread_id_of n i) bin) = Inr i"
proof -
  have "in_i32 (int (n * 1000 + 50 + i) - 50)" using assms by (simp add: thread_ok_def in_i32_def)
  moreover have "nat ((int (n * 1000 + 50 + i) - 50) mod 1000) = i" using assms by (simp add: thread_ok_def nat_mod_distrib)
  ultimately show ?thesis using assms by (simp add: local_id_def built_sel thread_id_int)
qed

lemma built_content: "stream_laws content S \<Longrightarrow> content (ss_from_msg S (message_builder other S from to bin)) = content bin"
  by (simp add: message_builder_def Let_def stream_lawsD(7))

lemma handle_message:
  assumes "stream_laws content S" "content bin = k # ws"
  shows "\<exists>bin'. content bin' = ws \<and> rr_handle other S (message_builder other S from to bin) rr
    = (if k = 7 then handle_data S bin' rr
       else if k = 1 then handle_find_task other S (message_builder other S from to bin) rr
       else if k = 2 then handle_status other S (message_builder other S from to bin) bin' rr
       else if k = 3 then handle_help other S (message_builder other S from to bin) bin' rr
       else if k = 4 then handle_confirm S (message_builder other S from to bin) bin' rr
       else if k = 5 then handle_cancel other S (message_builder other S from to bin) rr
       else if k = 6 then handle_terminate (message_builder other S from to bin) rr
       else Inr rr)"
proof -
  obtain bin' where "ss_get S (ss_from_msg S (message_builder other S from to bin)) = Inr (k, bin')" "content bin' = ws"
    using stream_lawsD(4)[OF assms(1)] built_content[OF assms(1)] assms(2) by metis
  then show ?thesis by (auto simp: rr_handle_def)
qed

lemma handle_send_help:
  assumes "stream_laws content S" "thread_ok n i" "i < length (rr_job_managers rr)" "jo_do (rr_job_managers rr ! i)"
  shows "rr_handle other S (send_help other S from (thread_id_of n i) stolen) rr
    = Inr (if accepts (jo_job (rr_job_managers rr ! i)) stolen
           then rr_send (confirm_help other S (thread_id_of n i) from stolen)
                  (put_manager i (update_batch_size (helpee_batch_size_new stolen) (rr_job_managers rr ! i)) rr)
           else rr_send (cancel_help other S (thread_id_of n i) from) rr)"
proof -
  let ?bin = "ss_put_job S stolen (ss_put S 3 (ss_new S))"
  note laws = stream_lawsD[OF assms(1)]
  have "content ?bin = 3 # job_words stolen" using laws(1-3) by simp
  from handle_message[OF assms(1) this, of other "from" "thread_id_of n i" rr] obtain bin'
    where bin: "content bin' = job_words stolen"
      "rr_handle other S (send_help other S from (thread_id_of n i) stolen) rr
        = handle_help other S (message_builder other S from (thread_id_of n i) ?bin) bin' rr"
    by (auto simp: send_help_def)
  obtain s' where "ss_get_job S bin' = Inr (stolen, s')" using laws(5)[OF bin(1)] by blast
  moreover have "\<not> ss_size S bin' < 4" using laws(6)[of bin'] bin(1) by (simp add: job_words_def)
  ultimately show ?thesis
    unfolding bin(2) handle_help_def using assms(2-4) by (simp add: built_local_id vec_at_def built_sel)
qed

lemma handle_confirm_help:
  assumes "stream_laws content S" "thread_ok n i" "i < length (rr_job_managers rr)" "jo_do (rr_job_managers rr ! i)"
  shows "rr_handle other S (confirm_help other S from (thread_id_of n i) stolen) rr
    = Inr (put_manager i (take_over stolen (rr_job_managers rr ! i)) rr)"
proof -
  let ?bin = "ss_put_job S stolen (ss_put S 4 (ss_new S))"
  note laws = stream_lawsD[OF assms(1)]
  have "content ?bin = 4 # job_words stolen" using laws(1-3) by simp
  from handle_message[OF assms(1) this, of other "from" "thread_id_of n i" rr] obtain bin'
    where bin: "content bin' = job_words stolen"
      "rr_handle other S (confirm_help other S from (thread_id_of n i) stolen) rr
        = handle_confirm S (message_builder other S from (thread_id_of n i) ?bin) bin' rr"
    by (auto simp: confirm_help_def)
  obtain s' where "ss_get_job S bin' = Inr (stolen, s')" using laws(5)[OF bin(1)] by blast
  moreover have "\<not> ss_size S bin' < 4" using laws(6)[of bin'] bin(1) by (simp add: job_words_def)
  ultimately show ?thesis
    unfolding bin(2) handle_confirm_def using assms(2-4) by (simp add: built_local_id vec_at_def)
qed

text \<open>The two comparisons of \<open>SendHelp\<close>: for a job that still starts where it did, they hold exactly when
  nobody has shortened it in between and its worker has not come to the part that is asked for.\<close>

lemma accepts_iff:
  assumes steal: "steal_job old th = Some stolen" "job_ok old" and job: "job_ok job" "jm_start_pt job = jm_start_pt old"
  shows "accepts job stolen \<longleftrightarrow> jm_batch_size job = jm_batch_size old \<and> unat (jm_current_pt job) < unat (helper_start_pt_new stolen)"
proof -
  note split = steal_splits[OF steal]
  have small: "unat (jm_start_pt old) + unat (helpee_batch_size_new stolen) < 2 ^ 32"
    "unat (helper_start_pt_new stolen) + unat (helper_batch_size_new stolen) < 2 ^ 32"
    "unat (jm_start_pt old) + unat (jm_batch_size job) < 2 ^ 32"
    using split(2,3) steal(2) job unfolding job_ok_def by simp_all
  have "unat (jm_start_pt old + helpee_batch_size_new stolen) = unat (helper_start_pt_new stolen)"
    using unat_add_small[OF small(1)] split(3) by simp
  moreover have "jm_start_pt old + jm_batch_size job = helper_start_pt_new stolen + helper_batch_size_new stolen
      \<longleftrightarrow> unat (jm_batch_size job) = unat (jm_batch_size old)"
    using unat_add_small[OF small(2)] unat_add_small[OF small(3)] split(2) by (auto simp: word_unat_eq_iff)
  ultimately show ?thesis by (auto simp: accepts_def job(2) word_less_nat_alt word_unat_eq_iff)
qed

lemma theft_moves_points:
  assumes steal: "steal_job old th = Some stolen" "job_ok old"
    and job: "job_ok job" "jm_start_pt job = jm_start_pt old" "accepts job stolen"
  shows "points (job\<lparr>jm_batch_size := helpee_batch_size_new stolen\<rparr>)
        \<union> points (job'\<lparr>jm_start_pt := helper_start_pt_new stolen, jm_current_pt := helper_start_pt_new stolen,
            jm_batch_size := helper_batch_size_new stolen\<rparr>) = points job"
    "points (job\<lparr>jm_batch_size := helpee_batch_size_new stolen\<rparr>)
        \<inter> points (job'\<lparr>jm_start_pt := helper_start_pt_new stolen, jm_current_pt := helper_start_pt_new stolen,
            jm_batch_size := helper_batch_size_new stolen\<rparr>) = {}"
proof -
  note split = steal_splits[OF steal]
  have "jm_batch_size job = jm_batch_size old" "unat (jm_current_pt job) < unat (helper_start_pt_new stolen)"
    using accepts_iff[OF steal job(1,2)] job(3) by simp_all
  then show "points (job\<lparr>jm_batch_size := helpee_batch_size_new stolen\<rparr>)
        \<union> points (job'\<lparr>jm_start_pt := helper_start_pt_new stolen, jm_current_pt := helper_start_pt_new stolen,
            jm_batch_size := helper_batch_size_new stolen\<rparr>) = points job"
    "points (job\<lparr>jm_batch_size := helpee_batch_size_new stolen\<rparr>)
        \<inter> points (job'\<lparr>jm_start_pt := helper_start_pt_new stolen, jm_current_pt := helper_start_pt_new stolen,
            jm_batch_size := helper_batch_size_new stolen\<rparr>) = {}"
    using split(2,3) by (auto simp: points_def job(2))
qed


text \<open>A worker that was told meanwhile to stop drops the confirmation: the points \<open>b\<close> gave away are lost.\<close>

lemma confirm_after_terminate:
  assumes "stream_laws content S" "thread_ok n i" "i < length (rr_job_managers rr)" "\<not> jo_do (rr_job_managers rr ! i)"
  shows "rr_handle other S (confirm_help other S from (thread_id_of n i) stolen) rr = Inr rr"
proof -
  let ?bin = "ss_put_job S stolen (ss_put S 4 (ss_new S))"
  have "content ?bin = 4 # job_words stolen" using stream_lawsD(1-3)[OF assms(1)] by simp
  from handle_message[OF assms(1) this, of other "from" "thread_id_of n i" rr] obtain bin'
    where "rr_handle other S (confirm_help other S from (thread_id_of n i) stolen) rr
        = handle_confirm S (message_builder other S from (thread_id_of n i) ?bin) bin' rr"
    by (auto simp: confirm_help_def)
  then show ?thesis using assms(2-4) by (simp add: handle_confirm_def built_local_id vec_at_def)
qed

definition demo_stream :: "u32 list sarray_stream" where
  "demo_stream = \<lparr>ss_new = [], ss_put = (\<lambda>w s. s @ [w]), ss_put_job = (\<lambda>j s. s @ job_words j),
     ss_put_vec = (\<lambda>v s. s @ of_nat (length v) # v),
     ss_get = (\<lambda>s. case s of [] \<Rightarrow> Inl Out_of_bounds | w # ws \<Rightarrow> Inr (w, ws)),
     ss_get_job = (\<lambda>s. case s of a # b # c # r \<Rightarrow> Inr (\<lparr>helper_batch_size_new = a, helper_start_pt_new = b, helpee_batch_size_new = c\<rparr>, r)
       | _ \<Rightarrow> Inl Out_of_bounds),
     ss_get_vec = (\<lambda>s. case s of [] \<Rightarrow> Inl Out_of_bounds | w # ws \<Rightarrow> Inr (take (unat w) ws, drop (unat w) ws)),
     ss_size = (\<lambda>s. 4 * length s),
     ss_to_msg = (\<lambda>s. \<lparr>meta_of = meta_of (mail kGet 0), data_of = [bytes_of_keys s]\<rparr>),
     ss_from_msg = (\<lambda>m. keys_of (hd (data_of m)))\<rparr>"

lemma demo_stream_laws: "stream_laws (\<lambda>s. s) demo_stream"
  by (simp add: stream_laws_def demo_stream_def job_words_def)

definition demo_rapid :: "job_meta \<Rightarrow> rapid" where
  "demo_rapid job = (rr_new 2 1 2 0)\<lparr>rr_job_managers := [\<lparr>jo_members = [], jo_job = job, jo_id = 0, jo_wait = True, jo_do = True\<rparr>]\<rparr>"

definition demo_job :: "u32 \<Rightarrow> job_meta" where
  "demo_job c = \<lparr>jm_iter = 0, jm_start_pt = 20, jm_batch_size = 10, jm_current_pt = c, jm_thread_id = 0\<rparr>"

definition demo_stolen :: stolen_job where
  "demo_stolen = \<lparr>helper_batch_size_new = 4, helper_start_pt_new = 26, helpee_batch_size_new = 6\<rparr>"


section \<open>The groups and the boxes\<close>

lemma other_nodes_length:
  assumes "nid < num_nodes"
  shows "length (other_nodes nid num_nodes i) = unat num_nodes - 1"
proof -
  have "length (filter (\<lambda>j. nid \<noteq> of_nat j) [0..<unat num_nodes]) = card {j. j < unat num_nodes \<and> nid \<noteq> of_nat j}"
    by (subst distinct_card[symmetric]) (auto intro!: arg_cong[where f = card])
  also have "{j. j < unat num_nodes \<and> nid \<noteq> of_nat j} = {..<unat num_nodes} - {unat nid}"
  proof (intro equalityI subsetI)
    fix j assume "j \<in> {j. j < unat num_nodes \<and> nid \<noteq> of_nat j}"
    then show "j \<in> {..<unat num_nodes} - {unat nid}" by auto
  next
    fix j assume j: "j \<in> {..<unat num_nodes} - {unat nid}"
    have "unat num_nodes < 2 ^ LENGTH(32)" by (rule unsigned_less)
    then have "unat (of_nat j :: u32) = j" using j by (intro unat_of_nat_small) auto
    then show "j \<in> {j. j < unat num_nodes \<and> nid \<noteq> of_nat j}" using j by auto
  qed
  also have "card \<dots> = unat num_nodes - 1" using assms by (simp add: word_less_nat_alt)
  finally show ?thesis by (simp add: other_nodes_def)
qed

text \<open>The box of every worker is full exactly when every worker of its group has answered: after
  \<open>StartEverything\<close>, in each of the three modes, each worker has a job of its own and an empty box whose
  size is the number of the workers it will ask.\<close>

lemma box_fills_with_group:
  assumes "rr_start channel_threads qs junk rr mb = Inr (rr', mb')" "rr_job_managers rr = []" "rr_status_box rr = []"
    and "rr_node_id rr < rr_num_nodes rr" "unat (rr_num_nodes rr) + 2 < 2 ^ 32" "rr_group_mode rr \<in> {0, 1, 2}"
  shows "length (rr_job_managers rr') = unat (rr_num_local rr)
    \<and> list_all2 (\<lambda>jo box. sb_metas box = [] \<and> length (jo_members jo) = unat (sb_size box)) (rr_job_managers rr') (rr_status_box rr')
    \<and> rr_group_member rr' = map jo_members (rr_job_managers rr')"
proof -
  let ?groups = "map (\<lambda>i. other_nodes (rr_node_id rr) (rr_num_nodes rr) i
          @ (if rr_group_mode rr = 1 then [helpee_of (rr_num_local rr) i] else [])
          @ (if rr_group_mode rr = 2 then [helpee_of (rr_num_local rr) i, second_helpee_of (rr_num_nodes rr) (rr_num_local rr) i] else []))
        [0..<unat (rr_num_local rr)]"
  from assms(1-3) have r: "rr_job_managers rr' = map (\<lambda>i. jo_new junk (rr_node_id rr * 1000 + 50 + of_nat i) (?groups ! i)) [0..<unat (rr_num_local rr)]"
    "rr_status_box rr' = replicate (unat (rr_num_local rr)) \<lparr>sb_size = rr_num_nodes rr + rr_group_mode rr - 1, sb_metas = []\<rparr>"
    "rr_group_member rr' = ?groups"
    by (auto simp: rr_start_def res_simps get_members_def Let_def split: prod.splits)
  have "1 \<le> unat (rr_num_nodes rr)" using assms(4) by (simp add: word_less_nat_alt)
  moreover have "unat (rr_num_nodes rr + rr_group_mode rr) = unat (rr_num_nodes rr) + unat (rr_group_mode rr)"
    using assms(5,6) by (intro unat_add_small) auto
  ultimately have size: "unat (rr_num_nodes rr + rr_group_mode rr - 1) = unat (rr_num_nodes rr) - 1 + unat (rr_group_mode rr)"
    using unat_diff_small[of 1 "rr_num_nodes rr + rr_group_mode rr"] by simp
  have "length (?groups ! i) = unat (rr_num_nodes rr) - 1 + unat (rr_group_mode rr)" if "i < unat (rr_num_local rr)" for i
    using that assms(6) other_nodes_length[OF assms(4)] by auto
  then show ?thesis by (auto simp: r list_all2_conv_all_nth jo_new_def size intro: nth_equalityI)
qed

definition demo_channel_threads :: "u32 \<Rightarrow> u32 \<Rightarrow> u32 list \<times> (u32, u32) omap" where
  "demo_channel_threads nl ng = ([2, 3], [(0, 50), (1, 51), (2, 1050), (3, 1051)])"

lemma box_fills_with_group_witness:
  "\<exists>rr' mb'. rr_start demo_channel_threads [5, 6] False (set_group_mode 2 (rr_new 2 2 4 1)) demo_mailbox = Inr (rr', mb')
    \<and> length (rr_job_managers rr') = 2
    \<and> list_all2 (\<lambda>jo box. sb_metas box = [] \<and> length (jo_members jo) = unat (sb_size box)) (rr_job_managers rr') (rr_status_box rr')"
proof -
  have "\<exists>rr' mb'. rr_start demo_channel_threads [5, 6] False (set_group_mode 2 (rr_new 2 2 4 1)) demo_mailbox = Inr (rr', mb')"
    by (simp add: rr_start_def demo_channel_threads_def set_group_mode_def rr_new_def channel_new_def mb_register_def
      demo_mailbox_def om_insert_def get_local_channels_def get_members_def Let_def)
  then obtain rr' mb' where s: "rr_start demo_channel_threads [5, 6] False (set_group_mode 2 (rr_new 2 2 4 1)) demo_mailbox = Inr (rr', mb')" by blast
  from box_fills_with_group[OF s] have "length (rr_job_managers rr') = 2
    \<and> list_all2 (\<lambda>jo box. sb_metas box = [] \<and> length (jo_members jo) = unat (sb_size box)) (rr_job_managers rr') (rr_status_box rr')"
    by (simp add: set_group_mode_def rr_new_def)
  then show ?thesis using s by blast
qed

end
