(* ===== verification/Data_Sampling.thy ===== *)
theory Data_Sampling
  imports Messages
begin

text \<open>
  \<open>lib/libsvm_parser.cpp\<close> and \<open>lib/batch_data_sampler.cpp\<close>: a line of a LIBSVM file as a data object,
  and the batches a worker takes from its data.  Floating point numbers are a type \<open>'f\<close>; \<open>atof\<close>, the
  conversion of the C library to a \<open>float\<close>, and the zero are arguments.
\<close>

section \<open>The LIBSVM format\<close>

type_synonym 'f data_obj = "(int \<times> 'f) list \<times> 'f"

definition is_delim :: "char \<Rightarrow> bool" where
  "is_delim c \<longleftrightarrow> c = CHR '' '' \<or> c = CHR 0x09 \<or> c = CHR '':''"

text \<open>\<open>strtok_r\<close>: the next token and what is behind the delimiter that ends it.\<close>

definition strtok :: "string \<Rightarrow> (string \<times> string) option" where
  "strtok s = (let t = dropWhile is_delim s
     in if t = [] then None else Some (takeWhile (\<lambda>c. \<not> is_delim c) t, tl (dropWhile (\<lambda>c. \<not> is_delim c) t)))"

text \<open>\<open>atoi\<close> reads what \<open>stoi\<close> reads, gives 0 where that finds no number, and is undefined outside \<open>int\<close>.\<close>

definition atoi :: "string \<Rightarrow> int res" where
  "atoi s = (case stoi s of Inr v \<Rightarrow> Inr v | Inl Invalid_argument \<Rightarrow> Inr 0 | Inl _ \<Rightarrow> Inl Signed_overflow)"

lemma strtok_shorter: "strtok s = Some (tok, rest) \<Longrightarrow> length rest < length s"
proof -
  assume "strtok s = Some (tok, rest)"
  then have t: "dropWhile is_delim s \<noteq> []" "rest = tl (dropWhile (\<lambda>c. \<not> is_delim c) (dropWhile is_delim s))"
    by (auto simp: strtok_def Let_def split: if_splits)
  have "length (dropWhile (\<lambda>c. \<not> is_delim c) (dropWhile is_delim s)) \<le> length (dropWhile is_delim s)" by (rule length_dropWhile_le)
  moreover have "length (dropWhile is_delim s) \<le> length s" by (rule length_dropWhile_le)
  moreover have "s \<noteq> []" using t(1) by auto
  ultimately show ?thesis unfolding t(2) by (cases s) (simp_all add: le_less_trans less_Suc_eq_le)
qed

text \<open>The loop over the tokens: \<open>i\<close> is \<open>-1\<close> before the label, 0 before an index, 1 before its value.\<close>

function parse_tokens :: "(string \<Rightarrow> 'f) \<Rightarrow> int \<Rightarrow> int \<Rightarrow> 'f data_obj \<Rightarrow> string \<Rightarrow> 'f data_obj res" where
  "parse_tokens atof i idx obj s =
     (case strtok s of
        None \<Rightarrow> Inr obj
      | Some (tok, s) \<Rightarrow>
          if i = 0 then
            bind_res (atoi tok) (\<lambda>v. bind_res (as_i32 (v - 1)) (\<lambda>idx. parse_tokens atof 1 idx obj s))
          else if i = 1 then parse_tokens atof 0 idx (fst obj @ [(idx, atof tok)], snd obj) s
          else parse_tokens atof 0 idx (fst obj, atof tok) s)"
  by pat_completeness auto
termination by (relation "measure (\<lambda>(_, _, _, _, s). length s)") (auto dest: strtok_shorter)

declare parse_tokens.simps [simp del]

text \<open>The record is copied up to its first null character.\<close>

definition libsvm_parser :: "(string \<Rightarrow> 'f) \<Rightarrow> 'f \<Rightarrow> int \<Rightarrow> string \<Rightarrow> 'f data_obj res" where
  "libsvm_parser atof zero junk record = parse_tokens atof (-1) junk ([], zero) (takeWhile (\<lambda>c. c \<noteq> CHR 0x00) record)"

section \<open>Batches\<close>

text \<open>A pointer into \<open>data_\<close> is the index there, \<open>None\<close> the null pointer.\<close>

record ('f, 'l) sampler =
  bs_data :: "((int \<times> 'f) list \<times> 'l) list"
  bs_cur_pos :: int
  bs_batch_size :: int
  bs_batch_data :: "nat option list"

definition sampler_new :: "((int \<times> 'f) list \<times> 'l) list \<Rightarrow> int \<Rightarrow> ('f, 'l) sampler res" where
  "sampler_new data batch =
     (if batch < 0 then Inl Out_of_range_exception
      else Inr \<lparr>bs_data = data, bs_cur_pos = 0, bs_batch_size = batch, bs_batch_data = replicate (nat batch) None\<rparr>)"

definition sampler_empty :: "('f, 'l) sampler \<Rightarrow> bool" where
  "sampler_empty s \<longleftrightarrow> bs_data s = []"

definition random_start_point :: "nat \<Rightarrow> ('f, 'l) sampler \<Rightarrow> ('f, 'l) sampler res" where
  "random_start_point rand s =
     check_that (bs_data s \<noteq> []) Div_by_zero (Inr (s\<lparr>bs_cur_pos := to_i32 (of_nat (rand mod length (bs_data s)))\<rparr>))"

text \<open>The first loop of \<open>prepare_next_batch\<close> from \<open>i\<close> on, with \<open>n\<close> turns left.\<close>

fun fill_batch :: "nat \<Rightarrow> nat \<Rightarrow> ('f, 'l) sampler \<Rightarrow> ('f, 'l) sampler res" where
  "fill_batch 0 i s = Inr s"
| "fill_batch (Suc n) i s =
     (let pos = bs_cur_pos s
      in if pos < 0 \<or> int (length (bs_data s)) \<le> pos then Inl Out_of_bounds
         else
           let s = s\<lparr>bs_batch_data := (bs_batch_data s)[i := Some (nat pos)],
                     bs_cur_pos := (if pos + 1 = int (length (bs_data s)) then 0 else pos + 1)\<rparr>
           in fill_batch n (Suc i) s)"

definition field_keys :: "(int \<times> 'f) list \<times> 'l \<Rightarrow> u32 list" where
  "field_keys d = map (\<lambda>f. to_u32 (fst f)) (fst d)"

text \<open>The second loop collects the keys in a set, the third one in order.\<close>

fun batch_keys :: "((int \<times> 'f) list \<times> 'l) list \<Rightarrow> nat option list \<Rightarrow> u32 set \<Rightarrow> u32 set res" where
  "batch_keys data [] ks = Inr ks"
| "batch_keys data (p # ps) ks =
     bind_res (of_opt Invalid_argument p) (\<lambda>i. batch_keys data ps (ks \<union> set (field_keys (data ! i))))"

definition prepare_next_batch :: "('f, 'l) sampler \<Rightarrow> (u32 list \<times> ('f, 'l) sampler) res" where
  "prepare_next_batch s =
     (if sampler_empty s then Inr ([], s)
      else bind_res (fill_batch (nat (bs_batch_size s)) 0 s) (\<lambda>s.
           bind_res (batch_keys (bs_data s) (bs_batch_data s) {}) (\<lambda>ks. Inr (sorted_list_of_set ks, s))))"

definition get_data_ptrs :: "('f, 'l) sampler \<Rightarrow> nat option list" where
  "get_data_ptrs s = (if sampler_empty s then [] else bs_batch_data s)"

section \<open>Reading back a line\<close>

definition pair_text :: "('f \<Rightarrow> string) \<Rightarrow> int \<times> 'f \<Rightarrow> string" where
  "pair_text show = (\<lambda>(i, v). CHR '' '' # dec_nat (nat (i + 1)) @ CHR '':'' # show v)"

lemma pair_text_eq: "pair_text show (i, v) = CHR '' '' # dec_nat (nat (i + 1)) @ CHR '':'' # show v"
  by (simp add: pair_text_def)

definition libsvm_text :: "('f \<Rightarrow> string) \<Rightarrow> 'f data_obj \<Rightarrow> string" where
  "libsvm_text show obj = show (snd obj) @ concat (map (pair_text show) (fst obj))"

definition plain :: "string \<Rightarrow> bool" where
  "plain t \<longleftrightarrow> t \<noteq> [] \<and> (\<forall>c \<in> set t. \<not> is_delim c \<and> c \<noteq> CHR 0x00)"

lemma plain_dec_nat: "plain (dec_nat n)"
proof -
  have "\<not> is_delim (digit_char d) \<and> digit_char d \<noteq> CHR 0x00" if "d < 10" for d
  proof -
    have "(of_char (digit_char d) :: nat) = 48 + d" using that by (rule of_char_digit)
    then have "digit_char d \<noteq> c" if "(of_char c :: nat) \<notin> {48..57}" for c using that \<open>d < 10\<close> by auto
    then show ?thesis by (simp add: is_delim_def)
  qed
  then show ?thesis using dec_nat_digits by (fastforce simp: plain_def)
qed

lemma strtok_plain:
  assumes "plain t" "rest = [] \<or> is_delim (hd rest)" "\<forall>c \<in> set ds. is_delim c"
  shows "strtok (ds @ t @ rest) = Some (t, tl rest)"
proof -
  have "dropWhile is_delim (ds @ t @ rest) = t @ rest"
    using assms(1,3) by (cases t) (simp_all add: plain_def dropWhile_append2)
  moreover have "takeWhile (\<lambda>c. \<not> is_delim c) (t @ rest) = t" "dropWhile (\<lambda>c. \<not> is_delim c) (t @ rest) = rest"
    using assms(1,2) by (cases rest; simp add: plain_def takeWhile_append2 dropWhile_append2)+
  ultimately show ?thesis using assms(1) by (auto simp: strtok_def plain_def Let_def)
qed

lemma atoi_dec_nat: "n \<le> 2147483647 \<Longrightarrow> atoi (dec_nat n) = Inr (int n)"
  by (simp add: atoi_def stoi_dec_nat)

lemma parse_pairs:
  assumes printed: "\<forall>v. plain (show v) \<and> atof (show v) = v"
  shows "\<forall>(i, v) \<in> set ps. 0 \<le> i \<and> i < 2147483647 \<Longrightarrow>
    parse_tokens atof 0 idx (qs, l) (tl (concat (map (pair_text show) ps))) = Inr (qs @ ps, l)"
proof (induction ps arbitrary: idx qs)
  case Nil
  then show ?case by (simp add: parse_tokens.simps[of _ _ _ _ "[]"] strtok_def)
next
  case (Cons p ps)
  obtain i v where p: "p = (i, v)" by (cases p)
  let ?more = "concat (map (pair_text show) ps)"
  have i: "0 \<le> i" "i < 2147483647" using Cons.prems by (simp_all add: p)
  have more: "?more = [] \<or> is_delim (hd ?more)" by (cases ps) (auto simp: pair_text_def is_delim_def split: prod.splits)
  have t1: "strtok (dec_nat (nat (i + 1)) @ CHR '':'' # show v @ ?more) = Some (dec_nat (nat (i + 1)), show v @ ?more)"
    using strtok_plain[OF plain_dec_nat, of "CHR '':'' # show v @ ?more" "[]"] by (simp add: is_delim_def)
  have t2: "strtok (show v @ ?more) = Some (show v, tl ?more)"
    using strtok_plain[of "show v" ?more "[]"] printed more by simp
  have "atoi (dec_nat (nat (i + 1))) = Inr (i + 1)" using atoi_dec_nat[of "nat (i + 1)"] i by simp
  moreover have "as_i32 (i + 1 - 1) = Inr i" using i by (simp add: in_i32_def)
  ultimately have "parse_tokens atof 0 idx (qs, l) (tl (concat (map (pair_text show) (p # ps))))
      = parse_tokens atof 0 i (qs @ [(i, v)], l) (tl ?more)"
    using printed by (simp add: p pair_text_eq parse_tokens.simps[of _ 0 idx] parse_tokens.simps[of _ 1 i] t1 t2)
  then show ?case using Cons.IH[of i "qs @ [(i, v)]"] Cons.prems by (simp add: p)
qed

text \<open>A data object printed in the LIBSVM format, with indices from 1, is parsed back: label, indices
  and values, for any text of the numbers that \<open>atof\<close> reads back and that holds no delimiter.\<close>

lemma libsvm_roundtrip:
  assumes "\<forall>v. plain (show v) \<and> atof (show v) = v" "\<forall>(i, v) \<in> set (fst obj). 0 \<le> i \<and> i < 2147483647"
  shows "libsvm_parser atof zero junk (libsvm_text show obj) = Inr obj"
proof -
  let ?more = "concat (map (pair_text show) (fst obj))"
  have "\<forall>c \<in> set (libsvm_text show obj). c \<noteq> CHR 0x00"
    using assms(1) plain_dec_nat by (fastforce simp: libsvm_text_def pair_text_def plain_def split: prod.splits)
  then have whole: "takeWhile (\<lambda>c. c \<noteq> CHR 0x00) (libsvm_text show obj) = libsvm_text show obj"
    by (simp add: takeWhile_eq_all_conv)
  have "?more = [] \<or> is_delim (hd ?more)" by (cases "fst obj") (auto simp: pair_text_def is_delim_def split: prod.splits)
  then have "strtok (libsvm_text show obj) = Some (show (snd obj), tl ?more)"
    using strtok_plain[of "show (snd obj)" ?more "[]"] assms(1) by (simp add: libsvm_text_def)
  then have "libsvm_parser atof zero junk (libsvm_text show obj) = parse_tokens atof 0 junk ([], snd obj) (tl ?more)"
    using assms(1) by (simp add: libsvm_parser_def whole parse_tokens.simps[of _ "-1"])
  then show ?thesis using parse_pairs[OF assms, of junk "[]" "snd obj"] by simp
qed

text \<open>Digits for the numbers of the witness.\<close>

lemma libsvm_roundtrip_witness:
  "libsvm_parser digits_val 0 0 (libsvm_text dec_nat ([(0, 25), (7, 3)], 1)) = Inr ([(0, 25), (7, 3)], 1)"
  by (rule libsvm_roundtrip) (simp_all add: plain_dec_nat)

section \<open>The next batch\<close>

definition sampler_inv :: "('f, 'l) sampler \<Rightarrow> bool" where
  "sampler_inv s \<longleftrightarrow> 0 \<le> bs_batch_size s \<and> length (bs_batch_data s) = nat (bs_batch_size s)
     \<and> (bs_data s \<noteq> [] \<longrightarrow> 0 \<le> bs_cur_pos s \<and> bs_cur_pos s < int (length (bs_data s)))"

lemma fill_batch_ok:
  "bs_data s \<noteq> [] \<Longrightarrow> 0 \<le> bs_cur_pos s \<Longrightarrow> bs_cur_pos s < int (length (bs_data s)) \<Longrightarrow> i + n = length (bs_batch_data s) \<Longrightarrow>
    fill_batch n i s = Inr (s\<lparr>
      bs_batch_data := take i (bs_batch_data s) @ map (\<lambda>k. Some ((nat (bs_cur_pos s) + k) mod length (bs_data s))) [0..<n],
      bs_cur_pos := int ((nat (bs_cur_pos s) + n) mod length (bs_data s))\<rparr>)"
proof (induction n arbitrary: i s)
  case 0
  then show ?case by (simp add: nat_less_iff)
next
  case (Suc n)
  let ?len = "length (bs_data s)" and ?c = "nat (bs_cur_pos s)"
  let ?s = "s\<lparr>bs_batch_data := (bs_batch_data s)[i := Some ?c],
      bs_cur_pos := (if bs_cur_pos s + 1 = int ?len then 0 else bs_cur_pos s + 1)\<rparr>"
  have c: "?c < ?len" using Suc.prems by (simp add: nat_less_iff)
  have cur: "nat (bs_cur_pos ?s) = (?c + 1) mod ?len"
  proof (cases "?c + 1 = ?len")
    case True
    then have "bs_cur_pos s + 1 = int ?len" using Suc.prems(2) by linarith
    then show ?thesis using True by simp
  next
    case False
    then have "bs_cur_pos s + 1 \<noteq> int ?len" "?c + 1 < ?len" using Suc.prems(2) c by linarith+
    then show ?thesis using Suc.prems(2) by (simp add: nat_add_distrib)
  qed
  have i: "i < length (bs_batch_data s)" using Suc.prems(4) by simp
  have "fill_batch (Suc n) i s = fill_batch n (Suc i) ?s" using Suc.prems(2,3) by (simp add: Let_def)
  also have "\<dots> = Inr (?s\<lparr>
      bs_batch_data := take (Suc i) (bs_batch_data ?s) @ map (\<lambda>k. Some ((nat (bs_cur_pos ?s) + k) mod length (bs_data ?s))) [0..<n],
      bs_cur_pos := int ((nat (bs_cur_pos ?s) + n) mod length (bs_data ?s))\<rparr>)"
    by (rule Suc.IH) (use Suc.prems in auto)
  finally have step: "fill_batch (Suc n) i s = Inr (?s\<lparr>
      bs_batch_data := take (Suc i) (bs_batch_data ?s) @ map (\<lambda>k. Some (((?c + 1) mod ?len + k) mod ?len)) [0..<n],
      bs_cur_pos := int (((?c + 1) mod ?len + n) mod ?len)\<rparr>)" unfolding cur by simp
  have "take (Suc i) (bs_batch_data ?s) = take i (bs_batch_data s) @ [Some ?c]" using i by (simp add: take_Suc_conv_app_nth)
  moreover have "map (\<lambda>k. Some ((?c + k) mod ?len)) [0..<Suc n] = Some ?c # map (\<lambda>k. Some (((?c + 1) mod ?len + k) mod ?len)) [0..<n]"
    using c by (simp add: mod_simps map_upt_Suc del: upt_Suc)
  ultimately show ?case unfolding step by (simp add: mod_simps del: upt_Suc)
qed

lemma batch_keys_ok:
  "\<forall>p \<in> set ps. p \<noteq> None \<Longrightarrow> batch_keys data ps ks = Inr (ks \<union> (\<Union>p \<in> set ps. set (field_keys (data ! the p))))"
  by (induction ps arbitrary: ks) auto

text \<open>The batches go round the data without gap or repetition: \<open>prepare_next_batch\<close> takes the objects
  from the current position on, modulo their number, moves the position behind them, keeps the
  invariant of the sampler, and returns the keys of the batch, each once, in order.\<close>

lemma next_batch_correct:
  assumes "sampler_inv s" "bs_data s \<noteq> []"
  shows "\<exists>keys s'. prepare_next_batch s = Inr (keys, s') \<and> sampler_inv s' \<and> bs_data s' = bs_data s
    \<and> get_data_ptrs s' = map (\<lambda>k. Some ((nat (bs_cur_pos s) + k) mod length (bs_data s))) [0..<nat (bs_batch_size s)]
    \<and> nat (bs_cur_pos s') = (nat (bs_cur_pos s) + nat (bs_batch_size s)) mod length (bs_data s)
    \<and> sorted keys \<and> distinct keys
    \<and> set keys = (\<Union>k < nat (bs_batch_size s). set (field_keys (bs_data s ! ((nat (bs_cur_pos s) + k) mod length (bs_data s)))))"
proof -
  let ?n = "nat (bs_batch_size s)" and ?c = "nat (bs_cur_pos s)" and ?len = "length (bs_data s)"
  let ?ps = "map (\<lambda>k. Some ((?c + k) mod ?len)) [0..<?n]"
  let ?s = "s\<lparr>bs_batch_data := ?ps, bs_cur_pos := int ((?c + ?n) mod ?len)\<rparr>"
  let ?K = "\<Union>k < ?n. set (field_keys (bs_data s ! ((?c + k) mod ?len)))"
  have len: "0 < ?len" using assms(2) by simp
  have "fill_batch ?n 0 s = Inr ?s"
    using fill_batch_ok[of s 0 ?n] assms by (simp add: sampler_inv_def)
  moreover have "batch_keys (bs_data s) ?ps {} = Inr ?K"
    using batch_keys_ok[of ?ps "bs_data s" "{}"] by (simp add: atLeast0LessThan)
  ultimately have "prepare_next_batch s = Inr (sorted_list_of_set ?K, ?s)"
    using assms(2) by (simp add: prepare_next_batch_def sampler_empty_def)
  moreover have "sampler_inv ?s" using assms len by (simp add: sampler_inv_def)
  moreover have "get_data_ptrs ?s = ?ps" using assms(2) by (simp add: get_data_ptrs_def sampler_empty_def)
  moreover have "finite ?K" by simp
  ultimately show ?thesis by (intro exI conjI) (assumption | simp)+
qed

definition demo_sampler :: "(nat, bool) sampler" where
  "demo_sampler = \<lparr>bs_data = [([(4, 1), (2, 1)], True), ([(9, 5)], False), ([(2, 3)], True)], bs_cur_pos = 2, bs_batch_size = 2,
     bs_batch_data = [None, None]\<rparr>"

lemma next_batch_correct_witness:
  "\<exists>keys s'. prepare_next_batch demo_sampler = Inr (keys, s') \<and> get_data_ptrs s' = [Some 2, Some 0]
    \<and> nat (bs_cur_pos s') = 1 \<and> sorted keys \<and> distinct keys"
proof -
  have d: "sampler_inv demo_sampler" "bs_data demo_sampler \<noteq> []" by (simp_all add: demo_sampler_def sampler_inv_def)
  have "map (\<lambda>k. Some ((nat (bs_cur_pos demo_sampler) + k) mod length (bs_data demo_sampler))) [0..<nat (bs_batch_size demo_sampler)]
      = [Some 2, Some 0]" "(nat (bs_cur_pos demo_sampler) + nat (bs_batch_size demo_sampler)) mod length (bs_data demo_sampler) = 1"
    by (simp_all add: demo_sampler_def upt_rec)
  with next_batch_correct[OF d] show ?thesis by (elim exE conjE) (intro exI conjI, auto)
qed

end
