(* ===== verification/Gbdt_Data.thy ===== *)
theory Gbdt_Data
  imports Storage Data_Sampling
begin

text \<open>
  \<open>examples2/gbdt/src/util.hpp\<close>, \<open>examples2/gbdt/src/data_loader.cpp\<close>: helpers on vectors and strings, and
  the data of a worker: the classes and, column by column, the features of its records.  Floating
  point numbers are a type \<open>'f\<close> with what is done with them as arguments.
\<close>

section \<open>Helpers\<close>

text \<open>\<open>find_first_of\<close> stops at any of the characters of the delimiter.\<close>

function split_text :: "string \<Rightarrow> bool \<Rightarrow> string \<Rightarrow> string list" where
  "split_text delims keep s =
     (let w = takeWhile (\<lambda>c. c \<notin> set delims) s; after = dropWhile (\<lambda>c. c \<notin> set delims) s
      in if after = [] then (if w = [] then [] else [w])
         else (if keep \<or> w \<noteq> [] then [w] else []) @ split_text delims keep (tl after))"
  by pat_completeness auto
termination
proof (relation "measure (\<lambda>(_, _, s). length s)")
  fix delims and keep :: bool and s w after :: string
  assume "after = dropWhile (\<lambda>c. c \<notin> set delims) s" "after \<noteq> []"
  then have "length after \<le> length s" by (simp only: length_dropWhile_le)
  then have "length (tl after) < length s" using \<open>after \<noteq> []\<close> by (cases after) auto
  then show "((delims, keep, tl after), delims, keep, s) \<in> measure (\<lambda>(_, _, s). length s)" by simp
qed simp

declare split_text.simps [simp del]

text \<open>\<open>for (int i = start; i < stop; i += step)\<close>: the values of \<open>i\<close>.  With a step of 0 the loop does not
  end (\<open>None\<close>), with a negative one \<open>i\<close> overflows.\<close>

function index_loop :: "int \<Rightarrow> int \<Rightarrow> int \<Rightarrow> int list res option" where
  "index_loop i stop step =
     (if stop \<le> i then Some (Inr [])
      else if step = 0 then None
      else if step < 0 \<or> \<not> in_i32 (i + step) then Some (Inl Signed_overflow)
      else map_option (\<lambda>r. bind_res r (\<lambda>is. Inr (i # is))) (index_loop (i + step) stop step))"
  by pat_completeness auto
termination by (relation "measure (\<lambda>(i, stop, step). nat (stop - i))") auto

declare index_loop.simps [simp del]

definition range_vect :: "int \<Rightarrow> int \<Rightarrow> int \<Rightarrow> int list res option" where
  "range_vect start stop step = (if stop = -1 then index_loop 0 start step else index_loop start stop step)"

definition negative_index_convert :: "nat \<Rightarrow> int \<Rightarrow> int" where
  "negative_index_convert n i = (if 0 \<le> i then i else to_i32 (to_u32 (i + int n)))"

definition vect_at_int :: "'a list \<Rightarrow> int \<Rightarrow> 'a res" where
  "vect_at_int xs i = (if i < 0 then Inl Out_of_bounds else vec_at xs (nat i))"

definition slice_vect :: "'a list \<Rightarrow> int \<Rightarrow> int \<Rightarrow> int \<Rightarrow> 'a list res option" where
  "slice_vect xs start stop step =
     map_option (\<lambda>r. bind_res r (map_res (vect_at_int xs)))
       (index_loop (negative_index_convert (length xs) start) (negative_index_convert (length xs) stop) step)"

definition zip_vect :: "'a list \<Rightarrow> 'a list \<Rightarrow> ('a \<times> 'a) list \<Rightarrow> ('a \<times> 'a) list res" where
  "zip_vect as bs zipped =
     bind_res (map_res (\<lambda>i. bind_res (vec_at bs i) (\<lambda>b. Inr (as ! i, b))) [0..<length as]) (\<lambda>ps. Inr (zipped @ ps))"

definition pair_compare :: "('a \<Rightarrow> 'a \<Rightarrow> bool) \<Rightarrow> 'a \<times> 'a \<Rightarrow> 'a \<times> 'a \<Rightarrow> bool" where
  "pair_compare lt p q = lt (fst p) (fst q)"

definition vect_to_matrix :: "'a list \<Rightarrow> nat \<Rightarrow> nat \<Rightarrow> 'a list list res" where
  "vect_to_matrix xs row col = map_res (\<lambda>i. map_res (\<lambda>j. vec_at xs (i * col + j)) [0..<col]) [0..<row]"

text \<open>\<open>max_element\<close> is the first of the greatest; the entry behind the end of an empty map is read.\<close>

fun max_entry :: "('v \<Rightarrow> 'v \<Rightarrow> bool) \<Rightarrow> 'k \<times> 'v \<Rightarrow> ('k \<times> 'v) list \<Rightarrow> 'k \<times> 'v" where
  "max_entry lt p [] = p"
| "max_entry lt p (q # qs) = max_entry lt (if lt (snd p) (snd q) then q else p) qs"

definition get_max_in_map :: "('v \<Rightarrow> 'v \<Rightarrow> bool) \<Rightarrow> ('k, 'v) omap \<Rightarrow> ('k \<times> 'v) res" where
  "get_max_in_map lt m = (case m of [] \<Rightarrow> Inl Out_of_bounds | p # ps \<Rightarrow> Inr (max_entry lt p ps))"

section \<open>The data loader\<close>

record 'f data_loader =
  dl_class :: "'f list"
  dl_feats :: "'f list list"
  dl_num_of_record :: int
  dl_num_of_feat :: int

text \<open>The default constructor leaves both numbers as they are.\<close>

definition dl_new :: "int \<Rightarrow> int \<Rightarrow> 'f data_loader" where
  "dl_new junk1 junk2 = \<lparr>dl_class = [], dl_feats = [], dl_num_of_record = junk1, dl_num_of_feat = junk2\<rparr>"

definition vec_resize :: "nat \<Rightarrow> 'a list list \<Rightarrow> 'a list list" where
  "vec_resize n xs = take n xs @ replicate (n - length xs) []"

definition read_line_to_vect :: "(string \<Rightarrow> 'f) \<Rightarrow> string \<Rightarrow> 'f list res" where
  "read_line_to_vect atof line =
     (case split_text ''  '' False line of
        [] \<Rightarrow> Inl Out_of_bounds
      | c # feats \<Rightarrow>
          bind_res (map_res (\<lambda>el. bind_res (vec_at (split_text '':'' False el) 1) (\<lambda>t. Inr (atof t))) feats)
            (\<lambda>vs. Inr (atof c # vs)))"

text \<open>A record, of which the first value is the class, and \<open>n\<close> more are features.\<close>

definition push_columns :: "'f list \<Rightarrow> 'f list list \<Rightarrow> 'f list list" where
  "push_columns vs cols = map (\<lambda>(c, v). c @ [v]) (zip cols vs) @ drop (length vs) cols"

definition add_record :: "nat \<Rightarrow> 'f list \<Rightarrow> 'f data_loader \<Rightarrow> 'f data_loader res" where
  "add_record n vs dl =
     check_that (vs \<noteq> [] \<and> n < length vs \<and> n \<le> length (dl_feats dl)) Out_of_bounds
       (bind_res (as_i32 (dl_num_of_record dl + 1)) (\<lambda>k.
         Inr (dl\<lparr>dl_class := dl_class dl @ [hd vs], dl_feats := push_columns (take n (tl vs)) (dl_feats dl), dl_num_of_record := k\<rparr>)))"

text \<open>The loop over the lines; \<open>n\<close> is the number of features once the first line has set it.\<close>

fun load_lines :: "(string \<Rightarrow> 'f) \<Rightarrow> nat option \<Rightarrow> string list \<Rightarrow> 'f data_loader \<Rightarrow> (nat option \<times> 'f data_loader) res" where
  "load_lines atof n [] dl = Inr (n, dl)"
| "load_lines atof n (line # lines) dl =
     bind_res (read_line_to_vect atof line) (\<lambda>vs.
       let (m, dl) = (case n of
             None \<Rightarrow> (length vs - 1, dl\<lparr>dl_feats := vec_resize (length vs - 1) (dl_feats dl)\<rparr>)
           | Some m \<Rightarrow> (m, dl))
       in bind_res (add_record m vs dl) (load_lines atof (Some m) lines))"

text \<open>The constructor sets \<open>num_of_feat\<close>; \<open>read_hdfs_to_class_feat_vect\<close> has a local variable of that name.\<close>

definition dl_open :: "(string \<Rightarrow> 'f) \<Rightarrow> string list \<Rightarrow> 'f data_loader res" where
  "dl_open atof lines =
     bind_res (load_lines atof None lines \<lparr>dl_class = [], dl_feats = [], dl_num_of_record = 0, dl_num_of_feat = 0\<rparr>) (\<lambda>(n, dl).
       Inr (dl\<lparr>dl_num_of_feat := int (get_or 0 n)\<rparr>))"

definition read_hdfs :: "(string \<Rightarrow> 'f) \<Rightarrow> string list \<Rightarrow> 'f data_loader \<Rightarrow> 'f data_loader res" where
  "read_hdfs atof lines dl =
     bind_res (load_lines atof None lines (dl\<lparr>dl_num_of_record := 0\<rparr>)) (\<lambda>(_, dl). Inr dl)"

definition feat_vect_by_row :: "'f list list \<Rightarrow> nat \<Rightarrow> 'f list res" where
  "feat_vect_by_row feats row = map_res (\<lambda>col. vec_at col row) feats"

text \<open>\<open>pop\<close> takes the last value of every column that has one.\<close>

definition dl_pop :: "'f data_loader \<Rightarrow> 'f list \<times> 'f data_loader" where
  "dl_pop dl =
     (let vs = (if dl_class dl = [] then [] else [List.last (dl_class dl)])
            @ map List.last (filter (\<lambda>c. c \<noteq> []) (dl_feats dl));
          ok = (dl_class dl \<noteq> [] \<and> (\<forall>c \<in> set (dl_feats dl). c \<noteq> []))
      in (vs, dl\<lparr>dl_class := butlast (dl_class dl), dl_feats := map butlast (dl_feats dl),
            dl_num_of_record := (if ok then dl_num_of_record dl - 1 else dl_num_of_record dl)\<rparr>))"

definition dl_push :: "'f list \<Rightarrow> 'f data_loader \<Rightarrow> 'f data_loader" where
  "dl_push vs dl =
     (if vs = [] then dl
      else if dl_class dl = [] \<and> dl_feats dl = [] then
        dl\<lparr>dl_class := [hd vs], dl_feats := map (\<lambda>v. [v]) (tl vs), dl_num_of_record := dl_num_of_record dl + 1\<rparr>
      else if length vs \<noteq> 1 + length (dl_feats dl) then dl
      else dl\<lparr>dl_class := dl_class dl @ [hd vs], dl_feats := push_columns (tl vs) (dl_feats dl),
             dl_num_of_record := dl_num_of_record dl + 1\<rparr>)"

section \<open>Splitting a data set\<close>

record 'f part =
  pt_grad :: "'f list"
  pt_hess :: "'f list"
  pt_feats :: "'f list list"

definition part_resize :: "nat \<Rightarrow> 'f part \<Rightarrow> 'f part" where
  "part_resize n p = p\<lparr>pt_feats := vec_resize n (pt_feats p)\<rparr>"

definition part_push :: "'f \<Rightarrow> 'f \<Rightarrow> 'f list \<Rightarrow> 'f part \<Rightarrow> 'f part" where
  "part_push g h row p = p\<lparr>pt_grad := pt_grad p @ [g], pt_hess := pt_hess p @ [h], pt_feats := push_columns row (pt_feats p)\<rparr>"

definition split_row ::
  "('f \<Rightarrow> 'f \<Rightarrow> bool) \<Rightarrow> nat \<Rightarrow> 'f \<Rightarrow> 'f part \<Rightarrow> nat \<Rightarrow> 'f part \<times> 'f part \<Rightarrow> ('f part \<times> 'f part) res"
where
  "split_row lt feat_id split_val orig i = (\<lambda>(l, r).
     bind_res (vec_at (pt_feats orig) feat_id) (\<lambda>col. bind_res (vec_at col i) (\<lambda>x.
     bind_res (vec_at (pt_hess orig) i) (\<lambda>h. bind_res (feat_vect_by_row (pt_feats orig) i) (\<lambda>row.
       Inr (if lt x split_val then (part_push (pt_grad orig ! i) h row l, r)
            else (l, part_push (pt_grad orig ! i) h row r)))))))"

definition split_dataset ::
  "('f \<Rightarrow> 'f \<Rightarrow> bool) \<Rightarrow> nat \<Rightarrow> 'f \<Rightarrow> 'f part \<Rightarrow> 'f part \<Rightarrow> 'f part \<Rightarrow> ('f part \<times> 'f part) res"
where
  "split_dataset lt feat_id split_val orig left right =
     fold_res (split_row lt feat_id split_val orig) [0..<length (pt_grad orig)]
       (part_resize (length (pt_feats orig)) left, part_resize (length (pt_feats orig)) right)"

section \<open>Splitting loses no row\<close>

definition part_ok :: "'f part \<Rightarrow> bool" where
  "part_ok p \<longleftrightarrow> length (pt_hess p) = length (pt_grad p) \<and> (\<forall>col \<in> set (pt_feats p). length col = length (pt_grad p))"

text \<open>A row of a data set: gradient, hessian and the values of the features.\<close>

definition row_of :: "'f part \<Rightarrow> nat \<Rightarrow> 'f \<times> 'f \<times> 'f list" where
  "row_of p i = (pt_grad p ! i, pt_hess p ! i, map (\<lambda>col. col ! i) (pt_feats p))"

definition rows_of :: "'f part \<Rightarrow> ('f \<times> 'f \<times> 'f list) list" where
  "rows_of p = map (row_of p) [0..<length (pt_grad p)]"

definition fresh_part :: "nat \<Rightarrow> 'f part" where
  "fresh_part n = \<lparr>pt_grad = [], pt_hess = [], pt_feats = replicate n []\<rparr>"

lemma push_columns_same: "length vs = length cols \<Longrightarrow> push_columns vs cols = map (\<lambda>(c, v). c @ [v]) (zip cols vs)"
  by (simp add: push_columns_def)

lemma rows_part_push:
  assumes "part_ok p" "length row = length (pt_feats p)"
  shows "part_ok (part_push g h row p)" "length (pt_feats (part_push g h row p)) = length (pt_feats p)"
    "rows_of (part_push g h row p) = rows_of p @ [(g, h, row)]"
proof -
  have cols: "push_columns row (pt_feats p) = map (\<lambda>(c, v). c @ [v]) (zip (pt_feats p) row)"
    using assms(2) by (simp add: push_columns_same)
  show "part_ok (part_push g h row p)"
    using assms by (auto simp: part_ok_def part_push_def cols dest: set_zip_leftD)
  show "length (pt_feats (part_push g h row p)) = length (pt_feats p)"
    using assms(2) by (simp add: part_push_def cols)
  have old: "row_of (part_push g h row p) i = row_of p i" if "i < length (pt_grad p)" for i
    using that assms unfolding row_of_def part_push_def part_ok_def cols
    by (auto simp: nth_append intro!: nth_equalityI)
  have new: "row_of (part_push g h row p) (length (pt_grad p)) = (g, h, row)"
    using assms unfolding row_of_def part_push_def part_ok_def cols
    by (auto simp: nth_append intro!: nth_equalityI)
  have "rows_of (part_push g h row p) = map (row_of (part_push g h row p)) ([0..<length (pt_grad p)] @ [length (pt_grad p)])"
    by (simp add: rows_of_def part_push_def)
  also have "\<dots> = rows_of p @ [(g, h, row)]" using old new by (simp add: rows_of_def)
  finally show "rows_of (part_push g h row p) = rows_of p @ [(g, h, row)]" .
qed

lemma feat_vect_by_row_ok: "\<forall>col \<in> set feats. i < length col \<Longrightarrow> feat_vect_by_row feats i = Inr (map (\<lambda>col. col ! i) feats)"
  unfolding feat_vect_by_row_def by (rule map_res_total) (simp add: vec_at_def)

definition goes_left :: "('f \<Rightarrow> 'f \<Rightarrow> bool) \<Rightarrow> nat \<Rightarrow> 'f \<Rightarrow> 'f \<times> 'f \<times> 'f list \<Rightarrow> bool" where
  "goes_left lt feat_id split_val = (\<lambda>(g, h, row). lt (row ! feat_id) split_val)"

definition split_state :: "('f \<times> 'f \<times> 'f list) list \<Rightarrow> ('f \<times> 'f \<times> 'f list \<Rightarrow> bool) \<Rightarrow> nat \<Rightarrow> 'f part \<times> 'f part \<Rightarrow> bool" where
  "split_state rows left_row n = (\<lambda>(l, r). part_ok l \<and> part_ok r \<and> length (pt_feats l) = n \<and> length (pt_feats r) = n
     \<and> rows_of l = filter left_row rows \<and> rows_of r = filter (\<lambda>x. \<not> left_row x) rows)"

lemma split_row_ok:
  assumes "part_ok orig" "feat_id < length (pt_feats orig)" "i < length (pt_grad orig)"
    and "split_state rows (goes_left lt feat_id split_val) (length (pt_feats orig)) lr"
  shows "\<exists>lr'. split_row lt feat_id split_val orig i lr = Inr lr'
    \<and> split_state (rows @ [row_of orig i]) (goes_left lt feat_id split_val) (length (pt_feats orig)) lr'"
proof -
  obtain l r where lr: "lr = (l, r)" by (cases lr)
  let ?row = "map (\<lambda>col. col ! i) (pt_feats orig)" and ?g = "pt_grad orig ! i" and ?h = "pt_hess orig ! i"
  have len: "\<forall>col \<in> set (pt_feats orig). i < length col" "i < length (pt_hess orig)" using assms(1,3) by (auto simp: part_ok_def)
  have "pt_feats orig ! feat_id \<in> set (pt_feats orig)" using assms(2) by simp
  then have x: "vec_at (pt_feats orig) feat_id = Inr (pt_feats orig ! feat_id)"
    "vec_at (pt_feats orig ! feat_id) i = Inr (?row ! feat_id)" "vec_at (pt_hess orig) i = Inr ?h"
    using assms(2) len by (simp_all add: vec_at_def)
  have "split_row lt feat_id split_val orig i lr
      = Inr (if lt (?row ! feat_id) split_val then (part_push ?g ?h ?row l, r) else (l, part_push ?g ?h ?row r))"
    by (simp add: split_row_def lr x feat_vect_by_row_ok[OF len(1)])
  then show ?thesis
    using assms(4) rows_part_push[of l ?row ?g ?h] rows_part_push[of r ?row ?g ?h]
    by (auto simp: split_state_def lr goes_left_def row_of_def)
qed

text \<open>Splitting a data set by a feature loses no row, invents none and keeps their order: the left part
  has the rows below the split value, the right part the others, each with its gradient, hessian and all
  its features.\<close>

lemma split_parts:
  assumes "part_ok orig" "feat_id < length (pt_feats orig)"
  shows "\<exists>l r. split_dataset lt feat_id split_val orig (fresh_part 0) (fresh_part 0) = Inr (l, r)
    \<and> rows_of l = filter (goes_left lt feat_id split_val) (rows_of orig)
    \<and> rows_of r = filter (\<lambda>x. \<not> goes_left lt feat_id split_val x) (rows_of orig)
    \<and> part_ok l \<and> part_ok r \<and> length (pt_feats l) = length (pt_feats orig) \<and> length (pt_feats r) = length (pt_feats orig)"
proof -
  let ?n = "length (pt_feats orig)"
  have "\<exists>lr'. fold_res (split_row lt feat_id split_val orig) [k..<length (pt_grad orig)] lr = Inr lr'
      \<and> split_state (rows_of orig) (goes_left lt feat_id split_val) ?n lr'"
    if "k \<le> length (pt_grad orig)" "split_state (map (row_of orig) [0..<k]) (goes_left lt feat_id split_val) ?n lr" for k lr
    using that
  proof (induction "length (pt_grad orig) - k" arbitrary: k lr)
    case 0
    then show ?case by (simp add: rows_of_def)
  next
    case (Suc m)
    then have k: "k < length (pt_grad orig)" by simp
    obtain lr' where step: "split_row lt feat_id split_val orig k lr = Inr lr'"
      "split_state (map (row_of orig) [0..<k] @ [row_of orig k]) (goes_left lt feat_id split_val) ?n lr'"
      using split_row_ok[OF assms k Suc.prems(2)] by blast
    have "[k..<length (pt_grad orig)] = k # [Suc k..<length (pt_grad orig)]" using k by (rule upt_conv_Cons)
    moreover have "\<exists>lr''. fold_res (split_row lt feat_id split_val orig) [Suc k..<length (pt_grad orig)] lr' = Inr lr''
        \<and> split_state (rows_of orig) (goes_left lt feat_id split_val) ?n lr''"
      using Suc.hyps(1)[of "Suc k" lr'] Suc.hyps(2) k step(2) by simp
    ultimately show ?case using step(1) by simp
  qed
  from this[of 0 "(fresh_part ?n, fresh_part ?n)"]
  obtain lr' where "fold_res (split_row lt feat_id split_val orig) [0..<length (pt_grad orig)] (fresh_part ?n, fresh_part ?n) = Inr lr'"
    "split_state (rows_of orig) (goes_left lt feat_id split_val) ?n lr'"
    by (auto simp: split_state_def fresh_part_def part_ok_def rows_of_def)
  then show ?thesis
    by (auto simp: split_dataset_def split_state_def part_resize_def fresh_part_def vec_resize_def)
qed

definition demo_part :: "int part" where
  "demo_part = \<lparr>pt_grad = [1, 2, 3], pt_hess = [1, 1, 1], pt_feats = [[5, 9, 4], [0, 1, 2]]\<rparr>"

lemma split_parts_demo:
  "\<exists>l r. split_dataset (<) 0 6 demo_part (fresh_part 0) (fresh_part 0) = Inr (l, r)
    \<and> rows_of l = [(1, 1, [5, 0]), (3, 1, [4, 2])] \<and> rows_of r = [(2, 1, [9, 1])]"
proof -
  have "part_ok demo_part" "0 < length (pt_feats demo_part)" by (simp_all add: part_ok_def demo_part_def)
  from split_parts[OF this, of "(<)" 6] show ?thesis
    by (simp add: rows_of_def row_of_def demo_part_def goes_left_def upt_rec[of _ 3] upt_rec[of _ "Suc (Suc (Suc 0))"]) (auto simp: numeral_3_eq_3)
qed

section \<open>The loader keeps its columns even\<close>

definition dl_ok :: "'f data_loader \<Rightarrow> bool" where
  "dl_ok dl \<longleftrightarrow> (\<forall>col \<in> set (dl_feats dl). length col = length (dl_class dl))"

lemma push_columns_even:
  assumes "\<forall>col \<in> set cols. length col = k" "length vs = length cols"
  shows "\<forall>col \<in> set (push_columns vs cols). length col = Suc k" "map butlast (push_columns vs cols) = cols"
    "map List.last (push_columns vs cols) = vs" "\<forall>col \<in> set (push_columns vs cols). col \<noteq> []" "length (push_columns vs cols) = length cols"
proof -
  have p: "push_columns vs cols = map (\<lambda>p. fst p @ [snd p]) (zip cols vs)"
    using push_columns_same[OF assms(2)] by (simp add: case_prod_unfold)
  show "\<forall>col \<in> set (push_columns vs cols). length col = Suc k"
    unfolding p using assms(1) by (force dest: set_zip_leftD)
  show "map butlast (push_columns vs cols) = cols" "map List.last (push_columns vs cols) = vs"
    "\<forall>col \<in> set (push_columns vs cols). col \<noteq> []" "length (push_columns vs cols) = length cols"
    unfolding p using assms(2) by (simp_all add: comp_def)
qed

lemma add_record_ok:
  assumes "dl_ok dl" "length (dl_feats dl) = n" "add_record n vs dl = Inr dl'"
  shows "dl_ok dl' \<and> length (dl_feats dl') = n \<and> length (dl_class dl') = Suc (length (dl_class dl))
    \<and> dl_num_of_record dl' = dl_num_of_record dl + 1"
proof -
  from assms(3) have n: "n < length vs" and dl': "dl' = dl\<lparr>dl_class := dl_class dl @ [hd vs],
      dl_feats := push_columns (take n (tl vs)) (dl_feats dl), dl_num_of_record := dl_num_of_record dl + 1\<rparr>"
    by (auto simp: add_record_def res_simps)
  have "length (take n (tl vs)) = length (dl_feats dl)" using n assms(2) by simp
  note cols = push_columns_even(1,5)[OF assms(1)[unfolded dl_ok_def] this]
  have "length (dl_class dl') = Suc (length (dl_class dl))" "dl_num_of_record dl' = dl_num_of_record dl + 1" by (simp_all add: dl')
  moreover have feats: "dl_feats dl' = push_columns (take n (tl vs)) (dl_feats dl)" by (simp add: dl')
  ultimately show ?thesis unfolding dl_ok_def feats using cols assms(2) by metis
qed

lemma load_lines_ok:
  "dl_ok dl \<Longrightarrow> length (dl_feats dl) = m \<Longrightarrow> load_lines atof (Some m) lines dl = Inr (n, dl') \<Longrightarrow>
    dl_ok dl' \<and> n = Some m \<and> length (dl_feats dl') = m \<and> length (dl_class dl') = length (dl_class dl) + length lines
    \<and> dl_num_of_record dl' = dl_num_of_record dl + int (length lines)"
proof (induction lines arbitrary: dl)
  case (Cons line lines)
  then obtain vs dl1 where "read_line_to_vect atof line = Inr vs" "add_record m vs dl = Inr dl1"
    "load_lines atof (Some m) lines dl1 = Inr (n, dl')"
    by (auto simp: res_simps Let_def)
  then show ?case using Cons.IH[of dl1] add_record_ok[OF Cons.prems(1,2), of vs dl1] by auto
qed simp

text \<open>A loader that reads its lines, from a file or from HDFS, has a class and a value of each feature
  for every line, and counts the lines; and a record pushed to a loader with such columns is what
  \<open>pop\<close> gives back, leaving the loader as it was.\<close>

lemma loader_reads_even_columns:
  assumes "lines \<noteq> []"
  shows "(\<forall>dl. dl_open atof lines = Inr dl \<longrightarrow> dl_ok dl \<and> length (dl_class dl) = length lines
      \<and> dl_num_of_record dl = int (length lines) \<and> dl_num_of_feat dl = int (length (dl_feats dl)))
    \<and> (\<forall>dl vs. read_hdfs atof lines (dl_new a b) = Inr dl \<longrightarrow> length vs = Suc (length (dl_feats dl))
      \<longrightarrow> dl_ok dl \<and> length (dl_class dl) = length lines \<and> dl_num_of_record dl = int (length lines)
        \<and> dl_pop (dl_push vs dl) = (vs, dl))"
proof -
  obtain line rest where l: "lines = line # rest" using assms by (cases lines) auto
  have load: "dl_ok dl' \<and> n = Some (length (dl_feats dl')) \<and> length (dl_class dl') = length lines
      \<and> dl_num_of_record dl' = int (length lines)"
    if run: "load_lines atof None lines dl = Inr (n, dl')" and nil: "dl_class dl = []" "dl_feats dl = []" "dl_num_of_record dl = 0"
    for n dl and dl' :: "'a data_loader"
  proof -
    obtain vs where vs: "read_line_to_vect atof line = Inr vs" using run by (auto simp: l res_simps)
    let ?m = "length vs - 1" let ?dl = "dl\<lparr>dl_feats := vec_resize ?m (dl_feats dl)\<rparr>"
    obtain dl1 where a: "add_record ?m vs ?dl = Inr dl1" "load_lines atof (Some ?m) rest dl1 = Inr (n, dl')"
      using run by (auto simp: l vs res_simps)
    have "dl_ok ?dl" "length (dl_feats ?dl) = ?m" using nil by (simp_all add: dl_ok_def vec_resize_def)
    from add_record_ok[OF this a(1)] have r: "dl_ok dl1" "length (dl_feats dl1) = ?m" "length (dl_class dl1) = 1" "dl_num_of_record dl1 = 1"
      using nil by simp_all
    from load_lines_ok[OF r(1,2) a(2)] show ?thesis using r(3,4) by (simp add: l)
  qed
  have pop: "dl_pop (dl_push vs dl) = (vs, dl)"
    if "dl_ok dl" "dl_class dl \<noteq> []" "length vs = Suc (length (dl_feats dl))" for vs and dl :: "'a data_loader"
  proof -
    have t: "length (tl vs) = length (dl_feats dl)" "vs \<noteq> []" using that(3) by auto
    have even: "\<forall>col \<in> set (dl_feats dl). length col = length (dl_class dl)" using that(1) by (simp add: dl_ok_def)
    note cols = push_columns_even[OF even t(1)]
    have "filter (\<lambda>c. c \<noteq> []) (push_columns (tl vs) (dl_feats dl)) = push_columns (tl vs) (dl_feats dl)"
      using cols(4) by (simp add: filter_id_conv)
    then show ?thesis using t(2) that(2,3) cols(2-4) by (simp add: dl_pop_def dl_push_def Let_def)
  qed
  show ?thesis
  proof (intro conjI allI impI)
    fix dl :: "'a data_loader" assume "dl_open atof lines = Inr dl"
    then obtain n dl1 where "load_lines atof None lines \<lparr>dl_class = [], dl_feats = [], dl_num_of_record = 0, dl_num_of_feat = 0\<rparr> = Inr (n, dl1)"
      and dl: "dl = dl1\<lparr>dl_num_of_feat := int (get_or 0 n)\<rparr>" by (auto simp: dl_open_def res_simps)
    from load[OF this(1)] show "dl_ok dl" "length (dl_class dl) = length lines"
      "dl_num_of_record dl = int (length lines)" "dl_num_of_feat dl = int (length (dl_feats dl))"
      by (simp_all add: dl dl_ok_def get_or_def)
  next
    fix dl :: "'a data_loader" and vs :: "'a list" assume "read_hdfs atof lines (dl_new a b) = Inr dl" and v: "length vs = Suc (length (dl_feats dl))"
    then obtain n where "load_lines atof None lines ((dl_new a b)\<lparr>dl_num_of_record := 0\<rparr>) = Inr (n, dl)"
      by (auto simp: read_hdfs_def res_simps)
    from load[OF this] have r: "dl_ok dl" "length (dl_class dl) = length lines" "dl_num_of_record dl = int (length lines)"
      by (simp_all add: dl_new_def)
    show "dl_ok dl" "length (dl_class dl) = length lines" "dl_num_of_record dl = int (length lines)" by (fact r)+
    have "dl_class dl \<noteq> []" using r(2) assms by auto
    then show "dl_pop (dl_push vs dl) = (vs, dl)" using pop[OF r(1) _ v] by simp
  qed
qed

definition demo_lines :: "string list" where
  "demo_lines = [''7 1:5 2:0'', ''8 1:9 2:1'']"

lemma demo_loaded:
  "read_hdfs digits_val demo_lines (dl_new 0 0)
     = Inr \<lparr>dl_class = [7, 8], dl_feats = [[5, 9], [0, 1]], dl_num_of_record = 2, dl_num_of_feat = 0\<rparr>"
  by code_simp

lemma loader_reads_even_columns_witness:
  "read_hdfs digits_val demo_lines (dl_new 0 0)
     = Inr \<lparr>dl_class = [7, 8], dl_feats = [[5, 9], [0, 1]], dl_num_of_record = 2, dl_num_of_feat = 0\<rparr>
   \<and> dl_pop (dl_push [1, 2, 3 :: nat] \<lparr>dl_class = [7, 8], dl_feats = [[5, 9], [0, 1]], dl_num_of_record = 2, dl_num_of_feat = 0\<rparr>)
     = ([1, 2, 3], \<lparr>dl_class = [7, 8], dl_feats = [[5, 9], [0, 1]], dl_num_of_record = 2, dl_num_of_feat = 0\<rparr>)"
proof -
  have "demo_lines \<noteq> []" by (simp add: demo_lines_def)
  from conjunct2[OF loader_reads_even_columns[OF this, of digits_val 0 0], rule_format, OF demo_loaded, of "[1, 2, 3]"]
  show ?thesis using demo_loaded by simp
qed

end
