(* ===== verification/Gbdt_Tree.thy ===== *)
theory Gbdt_Tree
  imports Complex_Main Gbdt_Data
begin

text \<open>
  \<open>examples2/gbdt/src/gbdt_tree.cpp\<close>, \<open>math_tools.cpp\<close>: a regression tree trained
  on a table of the parameter server.  The arithmetic of floating point numbers is an argument,
  one function for each expression the code rounds; the table is a state \<open>'m\<close> with its operations.
  Clocks that only measure time are left out.
\<close>

section \<open>Numbers and tables\<close>

text \<open>\<open>fl_tenth x\<close> is \<open>0.1 * x\<close>, \<open>fl_nudge x\<close> is \<open>x + 0.0001\<close>, \<open>fl_sum\<close> is \<open>accumulate\<close> from \<open>0.0\<close>, in \<open>double\<close>, and
  \<open>fl_trunc\<close> the conversion to \<open>int\<close>.\<close>

record 'f fl =
  fl_int :: "int \<Rightarrow> 'f"
  fl_add :: "'f \<Rightarrow> 'f \<Rightarrow> 'f"
  fl_sub :: "'f \<Rightarrow> 'f \<Rightarrow> 'f"
  fl_mul :: "'f \<Rightarrow> 'f \<Rightarrow> 'f"
  fl_div :: "'f \<Rightarrow> 'f \<Rightarrow> 'f"
  fl_neg :: "'f \<Rightarrow> 'f"
  fl_abs :: "'f \<Rightarrow> 'f"
  fl_sqrt :: "'f \<Rightarrow> 'f"
  fl_lt :: "'f \<Rightarrow> 'f \<Rightarrow> bool"
  fl_le :: "'f \<Rightarrow> 'f \<Rightarrow> bool"
  fl_inf :: 'f
  fl_trunc :: "'f \<Rightarrow> int"
  fl_tenth :: "'f \<Rightarrow> 'f"
  fl_nudge :: "'f \<Rightarrow> 'f"
  fl_sum :: "'f list \<Rightarrow> 'f"

record ('f, 'm) kv_ops =
  kv_add :: "u32 list \<Rightarrow> 'f list \<Rightarrow> 'm \<Rightarrow> 'm res"
  kv_get :: "u32 list \<Rightarrow> 'm \<Rightarrow> ('f list \<times> 'm) res"
  kv_clock :: "'m \<Rightarrow> 'm res"

type_synonym 'f params = "(string, 'f) omap"

text \<open>\<open>operator[]\<close> of a map gives 0 where there is no entry.\<close>

definition param :: "'f fl \<Rightarrow> 'f params \<Rightarrow> string \<Rightarrow> 'f" where
  "param F ps name = get_or (fl_int F 0) (om_get ps name)"

section \<open>Mathematical tools\<close>

definition calculate_gradient :: "'f fl \<Rightarrow> 'f \<Rightarrow> 'f \<Rightarrow> string \<Rightarrow> int \<Rightarrow> 'f" where
  "calculate_gradient F actual predicted loss order =
     (if order = 1 then (if loss = ''square_error'' then fl_sub F actual predicted else fl_int F 0)
      else if order = 2 then (if loss = ''square_error'' then fl_int F 1 else fl_int F 0)
      else fl_int F 0)"

fun min_max_loop :: "'f fl \<Rightarrow> 'f list \<Rightarrow> 'f \<Rightarrow> 'f \<Rightarrow> 'f \<times> 'f" where
  "min_max_loop F [] mi ma = (mi, ma)"
| "min_max_loop F (x # xs) mi ma =
     (if fl_lt F x mi then min_max_loop F xs x ma
      else if fl_lt F ma x then min_max_loop F xs mi x
      else min_max_loop F xs mi ma)"

definition find_min_max :: "'f fl \<Rightarrow> 'f list \<Rightarrow> 'f params" where
  "find_min_max F xs =
     (let (mi, ma) = min_max_loop F xs (fl_inf F) (fl_neg F (fl_inf F))
      in om_set ''max'' ma (om_set ''min'' mi []))"

fun squared_errors :: "'f fl \<Rightarrow> 'f list \<Rightarrow> 'f list \<Rightarrow> 'f \<Rightarrow> 'f res" where
  "squared_errors F [] ys acc = Inr acc"
| "squared_errors F (x # xs) [] acc = Inl Out_of_bounds"
| "squared_errors F (x # xs) (y # ys) acc =
     (let e = fl_sub F x y in squared_errors F xs ys (fl_add F acc (fl_mul F e e)))"

definition calculate_rmse :: "'f fl \<Rightarrow> 'f list \<Rightarrow> 'f list \<Rightarrow> 'f res" where
  "calculate_rmse F xs ys =
     bind_res (squared_errors F xs ys (fl_int F 0)) (\<lambda>s. Inr (fl_sqrt F (fl_div F s (fl_int F (int (length xs))))))"

definition calculate_rmse_of :: "'f fl \<Rightarrow> 'f \<Rightarrow> 'f \<Rightarrow> 'f" where
  "calculate_rmse_of F sse num = fl_sqrt F (fl_div F sse num)"

definition get_sse_and_num :: "'f fl \<Rightarrow> 'f list \<Rightarrow> 'f list \<Rightarrow> ('f \<times> int) res" where
  "get_sse_and_num F xs ys = bind_res (squared_errors F xs ys (fl_int F 0)) (\<lambda>s. Inr (s, int (length xs)))"

section \<open>Sketches and candidates\<close>

text \<open>Keys are handed out from \<open>ps_key_ptr\<close> on.\<close>

definition take_keys :: "int \<Rightarrow> nat \<Rightarrow> u32 list \<times> int" where
  "take_keys ptr n = (map (\<lambda>i. to_u32 (ptr + int i)) [0..<n], ptr + int n)"

definition sketch_num_of :: "'f fl \<Rightarrow> 'f params \<Rightarrow> int" where
  "sketch_num_of F ps = fl_trunc F (fl_div F (fl_int F 1) (fl_tenth F (param F ps ''rank_fraction'')))"

definition rank_num_of :: "'f fl \<Rightarrow> 'f params \<Rightarrow> int" where
  "rank_num_of F ps = fl_trunc F (fl_div F (fl_int F 1) (param F ps ''rank_fraction''))"

text \<open>The first bin that holds the weight gets one more.\<close>

fun add_to_hist :: "'f fl \<Rightarrow> 'f \<Rightarrow> 'f list \<Rightarrow> 'f list \<Rightarrow> 'f list" where
  "add_to_hist F w (a # b # bins) (h # hist) =
     (if fl_le F a w \<and> fl_lt F w b then fl_add F h (fl_int F 1) # hist
      else h # add_to_hist F w (b # bins) hist)"
| "add_to_hist F w _ hist = hist"

definition push_quantile_sketch ::
  "'f fl \<Rightarrow> 'f params \<Rightarrow> int \<Rightarrow> 'f list \<Rightarrow> 'f params \<Rightarrow> (u32 list \<times> 'f list \<times> int) res"
where
  "push_quantile_sketch F ps ptr feats min_max =
     (let mi = param F min_max ''min''; ma = fl_nudge F (param F min_max ''max'');
          fraction = fl_tenth F (param F ps ''rank_fraction''); num = sketch_num_of F ps
      in if num < 0 then Inl Out_of_range_exception
         else
           let bins = map (\<lambda>i. fl_mul F fraction (fl_int F (int i))) [0..<Suc (nat num)];
               hist = fold (\<lambda>x hist. add_to_hist F (fl_div F (fl_sub F x mi) (fl_sub F ma mi)) bins hist) feats
                 (replicate (nat num) (fl_int F 0));
               (keys, ptr) = take_keys ptr (length hist)
           in Inr (keys, hist, ptr))"

text \<open>The inner loop of \<open>find_candidate_split\<close>: the fraction whose sum is nearest, the last one of several.
  \<open>accumulate\<close> runs up to an iterator that may lie outside the histogram.\<close>

fun best_fraction :: "'f fl \<Rightarrow> 'f list \<Rightarrow> 'f \<Rightarrow> 'f \<Rightarrow> 'f \<Rightarrow> nat list \<Rightarrow> 'f \<times> 'f \<Rightarrow> ('f \<times> 'f) res" where
  "best_fraction F hist fraction prev goal [] best = Inr best"
| "best_fraction F hist fraction prev goal (s # ss) (arg, approx) =
     (let cur = fl_add F prev (fl_mul F (fl_int F (int s)) fraction);
          k = fl_trunc F (fl_div F cur fraction)
      in if k < 0 \<or> int (length hist) < k then Inl Out_of_bounds
         else
           let d = fl_abs F (fl_sub F (fl_sum F (take (nat k) hist)) goal)
           in best_fraction F hist fraction prev goal ss (if fl_le F d approx then (cur, d) else (arg, approx)))"

fun candidates_from ::
  "'f fl \<Rightarrow> 'f list \<Rightarrow> 'f \<Rightarrow> 'f \<Rightarrow> int \<Rightarrow> ('f \<Rightarrow> 'f) \<Rightarrow> nat list \<Rightarrow> 'f \<Rightarrow> 'f list res"
where
  "candidates_from F hist fraction width reach scale [] prev = Inr []"
| "candidates_from F hist fraction width reach scale (c # cs) prev =
     bind_res (best_fraction F hist fraction prev (fl_mul F (fl_int F (int c + 1)) width) [0..<nat reach] (prev, fl_inf F))
       (\<lambda>(arg, _). bind_res (candidates_from F hist fraction width reach scale cs arg) (\<lambda>rest. Inr (scale arg # rest)))"

definition find_candidate_split :: "'f fl \<Rightarrow> 'f params \<Rightarrow> 'f list \<Rightarrow> 'f params \<Rightarrow> 'f list res" where
  "find_candidate_split F ps hist min_max =
     (let mi = param F min_max ''min''; ma = fl_nudge F (param F min_max ''max'');
          rank_num = rank_num_of F ps;
          width = fl_mul F (param F ps ''rank_fraction'') (param F ps ''total_data_num'');
          fraction = fl_tenth F (param F ps ''rank_fraction'')
      in check_that (rank_num \<noteq> 0) Div_by_zero
           (let n = 2 * sketch_num_of F ps; reach = (if 0 \<le> n \<longleftrightarrow> 0 < rank_num then \<bar>n\<bar> div \<bar>rank_num\<bar> else - (\<bar>n\<bar> div \<bar>rank_num\<bar>))
            in candidates_from F hist fraction width reach (\<lambda>arg. fl_add F (fl_mul F arg (fl_sub F ma mi)) mi)
                 [0..<nat (rank_num - 1)] (fl_int F 0)))"

section \<open>Gradients\<close>

text \<open>The sums of the values whose feature is below a candidate, and of the others, in the order of the rows.\<close>

definition sum_where :: "'f fl \<Rightarrow> ('f \<Rightarrow> bool) \<Rightarrow> 'f list \<Rightarrow> 'f list \<Rightarrow> 'f" where
  "sum_where F p feats xs = fold (\<lambda>(f, x) s. if p f then fl_add F s x else s) (zip feats xs) (fl_int F 0)"

definition push_local_grad_hess ::
  "'f fl \<Rightarrow> int \<Rightarrow> 'f list \<Rightarrow> 'f list \<Rightarrow> 'f list \<Rightarrow> 'f list \<Rightarrow> (u32 list \<times> 'f list \<times> int) res"
where
  "push_local_grad_hess F ptr feats candidates grad hess =
     check_that (candidates = [] \<or> length feats \<le> length grad \<and> length feats \<le> length hess) Out_of_bounds
       (let left = (\<lambda>c f. fl_lt F f c);
            vals = map (\<lambda>c. sum_where F (left c) feats grad) candidates
              @ map (\<lambda>c. sum_where F (left c) feats hess) candidates
              @ map (\<lambda>c. sum_where F (\<lambda>f. \<not> left c f) feats grad) candidates
              @ map (\<lambda>c. sum_where F (\<lambda>f. \<not> left c f) feats hess) candidates;
            (keys, ptr) = take_keys ptr (length vals)
        in Inr (keys, vals, ptr))"

definition split_gain :: "'f fl \<Rightarrow> 'f \<Rightarrow> 'f \<Rightarrow> 'f \<Rightarrow> 'f \<Rightarrow> 'f \<Rightarrow> 'f" where
  "split_gain F complexity lg lh rg rh =
     (let score = (\<lambda>g h. fl_div F (fl_mul F g g) (fl_add F h complexity))
      in fl_sub F (fl_add F (score lg lh) (score rg rh)) (score (fl_add F lg rg) (fl_add F lh rh)))"

definition find_best_split :: "'f fl \<Rightarrow> 'f list \<Rightarrow> 'f \<Rightarrow> int \<times> 'f" where
  "find_best_split F gh complexity =
     (let n = length gh;
          gain = (\<lambda>c. split_gain F complexity (gh ! c) (gh ! (n div 4 + c)) (gh ! (n div 2 + c)) (gh ! (n * 3 div 4 + c)))
      in fold (\<lambda>c (i, best). if fl_lt F best (gain c) then (int c, gain c) else (i, best)) [0..<n div 4]
           (-1, fl_neg F (fl_inf F)))"

definition push_local_grad_sum :: "'f fl \<Rightarrow> int \<Rightarrow> 'f list \<Rightarrow> u32 list \<times> 'f list \<times> int" where
  "push_local_grad_sum F ptr grad =
     (let vals = [fl_sum F grad, fl_int F (int (length grad))]; (keys, ptr) = take_keys ptr (length vals)
      in (keys, vals, ptr))"

section \<open>A node and its training\<close>

record 'f node_data =
  nd_depth :: int
  nd_predict_val :: 'f
  nd_is_leaf :: bool
  nd_feat_id :: int
  nd_split_val :: 'f
  nd_max_gain :: 'f
  nd_params :: "'f params"
  nd_sketches :: "(u32 list \<times> 'f list) list"
  nd_grad_hess :: "(u32 list \<times> 'f list) list"
  nd_grad_sum :: "u32 list \<times> 'f list"

datatype 'f gbdt_tree = No_child | Tree_node "'f node_data" "'f gbdt_tree" "'f gbdt_tree"

definition node_new :: "'f fl \<Rightarrow> 'f params \<Rightarrow> 'f node_data" where
  "node_new F ps = \<lparr>nd_depth = 0, nd_predict_val = fl_int F 0, nd_is_leaf = False, nd_feat_id = -1, nd_split_val = fl_int F (-1),
     nd_max_gain = fl_neg F (fl_inf F), nd_params = ps, nd_sketches = [], nd_grad_hess = [], nd_grad_sum = ([], [])\<rparr>"

definition check_to_stop :: "'f fl \<Rightarrow> 'f node_data \<Rightarrow> bool" where
  "check_to_stop F nd = (if fl_le F (param F (nd_params nd) ''max_depth'') (fl_int F (nd_depth nd)) then True else False)"

text \<open>\<open>Add\<close> and \<open>Get\<close> are each followed by \<open>Clock\<close>.\<close>

definition add_clock :: "('f, 'm) kv_ops \<Rightarrow> (u32 list \<times> 'f list) list \<Rightarrow> 'm \<Rightarrow> 'm res" where
  "add_clock T kvs m = bind_res (kv_add T (concat (map fst kvs)) (concat (map snd kvs)) m) (kv_clock T)"

definition get_clock :: "('f, 'm) kv_ops \<Rightarrow> u32 list \<Rightarrow> 'm \<Rightarrow> ('f list \<times> 'm) res" where
  "get_clock T ks m = bind_res (kv_get T ks m) (\<lambda>(vs, m). bind_res (kv_clock T m) (\<lambda>m. Inr (vs, m)))"

text \<open>A loop that pushes something for each feature and hands out keys.\<close>

fun push_each :: "('a \<Rightarrow> int \<Rightarrow> (u32 list \<times> 'f list \<times> int) res) \<Rightarrow> 'a list \<Rightarrow> int \<Rightarrow> ((u32 list \<times> 'f list) list \<times> int) res" where
  "push_each push [] ptr = Inr ([], ptr)"
| "push_each push (x # xs) ptr =
     bind_res (push x ptr) (\<lambda>(ks, vs, ptr). bind_res (push_each push xs ptr) (\<lambda>(kvs, ptr). Inr ((ks, vs) # kvs, ptr)))"

definition subvector :: "'a list \<Rightarrow> int \<Rightarrow> int \<Rightarrow> 'a list res" where
  "subvector xs from to =
     (if from < 0 \<or> to < from \<or> int (length xs) < to then Inl Out_of_bounds else Inr (take (nat (to - from)) (drop (nat from) xs)))"

text \<open>Steps 1 and 2: the sketches, and the candidates from the sketches of all the workers.\<close>

definition sketch_step ::
  "'f fl \<Rightarrow> ('f, 'm) kv_ops \<Rightarrow> 'f part \<Rightarrow> 'f params list \<Rightarrow> 'f node_data \<Rightarrow> int \<times> 'm \<Rightarrow> ('f list list \<times> 'f node_data \<times> int \<times> 'm) res"
where
  "sketch_step F T p min_max nd = (\<lambda>(ptr, m).
     check_that (length (pt_feats p) \<le> length min_max) Out_of_bounds
    (bind_res (push_each (\<lambda>(feats, mm) ptr. push_quantile_sketch F (nd_params nd) ptr feats mm) (zip (pt_feats p) min_max) ptr) (\<lambda>(kvs, ptr).
     bind_res (add_clock T kvs m) (\<lambda>m.
     bind_res (get_clock T (concat (map fst (nd_sketches nd @ kvs))) m) (\<lambda>(vs, m).
     check_that (pt_feats p \<noteq> []) Div_by_zero
       (let per = int (length vs div length (pt_feats p))
        in bind_res (map_res (\<lambda>f. bind_res (subvector vs (int f * per) ((int f + 1) * per)) (\<lambda>hist.
               find_candidate_split F (nd_params nd) hist (min_max ! f))) [0..<length (pt_feats p)]) (\<lambda>cands.
             Inr (cands, nd\<lparr>nd_sketches := nd_sketches nd @ kvs\<rparr>, ptr, m))))))))"

text \<open>Steps 3 and 4: the gradients of each candidate, summed over all the workers, and the best split.\<close>

definition better_split :: "int \<Rightarrow> 'f list \<Rightarrow> 'f fl \<Rightarrow> int \<times> 'f \<Rightarrow> 'f node_data \<Rightarrow> 'f node_data res" where
  "better_split f cands F = (\<lambda>(best, gain) nd.
     if fl_lt F (nd_max_gain nd) gain then
       bind_res (vect_at_int cands best) (\<lambda>v. Inr (nd\<lparr>nd_max_gain := gain, nd_feat_id := f, nd_split_val := v\<rparr>))
     else Inr nd)"

definition split_step ::
  "'f fl \<Rightarrow> ('f, 'm) kv_ops \<Rightarrow> 'f part \<Rightarrow> 'f list list \<Rightarrow> 'f node_data \<Rightarrow> int \<times> 'm \<Rightarrow> ('f node_data \<times> int \<times> 'm) res"
where
  "split_step F T p cands nd = (\<lambda>(ptr, m).
     bind_res (push_each (\<lambda>(feats, cs) ptr. push_local_grad_hess F ptr feats cs (pt_grad p) (pt_hess p)) (zip (pt_feats p) cands) ptr) (\<lambda>(kvs, ptr).
     bind_res (add_clock T kvs m) (\<lambda>m.
     bind_res (get_clock T (concat (map fst (nd_grad_hess nd @ kvs))) m) (\<lambda>(vs, m).
       let per = fl_trunc F (fl_mul F (fl_sub F (fl_div F (fl_int F 1) (param F (nd_params nd) ''rank_fraction'')) (fl_int F 1)) (fl_int F 4))
       in bind_res (fold_res (\<lambda>f nd. bind_res (subvector vs (int f * per) ((int f + 1) * per)) (\<lambda>gh.
              better_split (int f) (cands ! f) F (find_best_split F gh (param F (nd_params nd) ''complexity_of_leaf'')) nd))
            [0..<length (pt_feats p)] nd) (\<lambda>nd.
            Inr (nd\<lparr>nd_grad_hess := nd_grad_hess nd @ kvs\<rparr>, ptr, m))))))"

text \<open>Step 5: a leaf predicts the mean of the gradients.\<close>

definition leaf_step :: "'f fl \<Rightarrow> ('f, 'm) kv_ops \<Rightarrow> 'f part \<Rightarrow> 'f node_data \<Rightarrow> int \<times> 'm \<Rightarrow> ('f node_data \<times> int \<times> 'm) res" where
  "leaf_step F T p nd = (\<lambda>(ptr, m).
     if check_to_stop F nd then
       (let (ks, vs, ptr) = push_local_grad_sum F ptr (pt_grad p)
        in bind_res (add_clock T [(ks, vs)] m) (\<lambda>m.
           bind_res (get_clock T ks m) (\<lambda>(got, m).
           bind_res (vec_at got 0) (\<lambda>s. bind_res (vec_at got 1) (\<lambda>n.
             Inr (nd\<lparr>nd_grad_sum := (ks, vs), nd_predict_val := fl_div F s n\<rparr>, ptr, m))))))
     else Inr (nd, ptr, m))"

text \<open>Step 6: a \<open>Get\<close> to complete the period, then everything pushed is taken back.\<close>

definition reset_step :: "'f fl \<Rightarrow> ('f, 'm) kv_ops \<Rightarrow> 'f node_data \<Rightarrow> 'm \<Rightarrow> 'm res" where
  "reset_step F T nd m =
     bind_res (get_clock T [0] m) (\<lambda>(_, m).
       add_clock T (map (\<lambda>(ks, vs). (ks, map (fl_neg F) vs)) (nd_sketches nd @ nd_grad_hess nd @ [nd_grad_sum nd])) m)"

definition train_node ::
  "'f fl \<Rightarrow> ('f, 'm) kv_ops \<Rightarrow> 'f part \<Rightarrow> 'f params list \<Rightarrow> 'f node_data \<Rightarrow> int \<times> 'm \<Rightarrow> ('f node_data \<times> int \<times> 'm) res"
where
  "train_node F T p min_max nd s =
     bind_res (sketch_step F T p min_max nd s) (\<lambda>(cands, nd, s).
     bind_res (split_step F T p cands nd s) (\<lambda>(nd, s).
     bind_res (leaf_step F T p nd s) (\<lambda>(nd, ptr, m).
     bind_res (reset_step F T nd m) (\<lambda>m. Inr (nd, 0, m)))))"

definition child_bound :: "string \<Rightarrow> 'f \<Rightarrow> nat \<Rightarrow> 'f params list \<Rightarrow> 'f params list res" where
  "child_bound name v f min_max = bind_res (vec_at min_max f) (\<lambda>mm. Inr (min_max[f := om_set name v mm]))"

text \<open>Step 7 and 8; \<open>None\<close> when the fuel is used up.\<close>

fun train ::
  "nat \<Rightarrow> 'f fl \<Rightarrow> ('f, 'm) kv_ops \<Rightarrow> 'f part \<Rightarrow> 'f params list \<Rightarrow> 'f node_data \<Rightarrow> int \<times> 'm \<Rightarrow> ('f gbdt_tree \<times> int \<times> 'm) res option"
where
  "train 0 F T p min_max nd s = None"
| "train (Suc n) F T p min_max nd s =
     (case train_node F T p min_max nd s of
        Inl e \<Rightarrow> Some (Inl e)
      | Inr (nd, s) \<Rightarrow>
          if check_to_stop F nd then Some (Inr (Tree_node (nd\<lparr>nd_is_leaf := True\<rparr>) No_child No_child, s))
          else if nd_feat_id nd < 0 then Some (Inl Out_of_bounds)
          else
            (case split_dataset (fl_lt F) (nat (nd_feat_id nd)) (nd_split_val nd) p (fresh_part 0) (fresh_part 0) of
               Inl e \<Rightarrow> Some (Inl e)
             | Inr (left, right) \<Rightarrow>
                 let child = (node_new F (nd_params nd))\<lparr>nd_depth := nd_depth nd + 1\<rparr>
                 in (case (child_bound ''max'' (nd_split_val nd) (nat (nd_feat_id nd)) min_max,
                           child_bound ''min'' (nd_split_val nd) (nat (nd_feat_id nd)) min_max) of
                       (Inr lmm, Inr rmm) \<Rightarrow>
                         (case train n F T left lmm child s of
                            Some (Inr (l, s)) \<Rightarrow>
                              (case train n F T right rmm child s of
                                 Some (Inr (r, s)) \<Rightarrow> Some (Inr (Tree_node nd l r, s))
                               | Some (Inl e) \<Rightarrow> Some (Inl e)
                               | None \<Rightarrow> None)
                          | Some (Inl e) \<Rightarrow> Some (Inl e)
                          | None \<Rightarrow> None)
                     | _ \<Rightarrow> Some (Inl Out_of_bounds))))"

text \<open>A node that is no leaf has two children; \<open>predict\<close> at a missing one is a null pointer.\<close>

fun tree_predict :: "'f fl \<Rightarrow> 'f list \<Rightarrow> 'f gbdt_tree \<Rightarrow> 'f res" where
  "tree_predict F row No_child = Inl Invalid_argument"
| "tree_predict F row (Tree_node nd l r) =
     (if nd_is_leaf nd then Inr (nd_predict_val nd)
      else bind_res (vect_at_int row (nd_feat_id nd)) (\<lambda>x.
        if fl_lt F x (nd_split_val nd) then tree_predict F row l else tree_predict F row r))"

section \<open>What a node's training keeps\<close>

lemma sketch_step_keeps:
  assumes "sketch_step F T p min_max nd s = Inr (cands, nd', s')"
  shows "nd_depth nd' = nd_depth nd" "nd_params nd' = nd_params nd" "nd_is_leaf nd' = nd_is_leaf nd" "nd_feat_id nd' = nd_feat_id nd"
  using assms unfolding sketch_step_def by (auto simp: res_simps Let_def split: prod.splits)

lemma better_split_keeps:
  assumes "better_split f cands F best nd = Inr nd'"
  shows "nd_depth nd' = nd_depth nd" "nd_params nd' = nd_params nd" "nd_is_leaf nd' = nd_is_leaf nd"
    "nd_feat_id nd' = nd_feat_id nd \<or> nd_feat_id nd' = f" "nd_sketches nd' = nd_sketches nd" "nd_grad_hess nd' = nd_grad_hess nd"
    "nd_grad_sum nd' = nd_grad_sum nd"
  using assms unfolding better_split_def by (auto simp: res_simps split: prod.splits if_splits)

definition same_node :: "nat \<Rightarrow> 'f node_data \<Rightarrow> 'f node_data \<Rightarrow> bool" where
  "same_node n nd nd' \<longleftrightarrow> nd_depth nd' = nd_depth nd \<and> nd_params nd' = nd_params nd \<and> nd_is_leaf nd' = nd_is_leaf nd
     \<and> (nd_feat_id nd < int n \<longrightarrow> nd_feat_id nd' < int n)"

lemma split_step_keeps:
  assumes "split_step F T p cands nd s = Inr (nd', s')"
  shows "same_node (length (pt_feats p)) nd nd'"
proof -
  obtain vs per k kvs gh where loop: "fold_res (\<lambda>f nd. bind_res (subvector vs (int f * per) ((int f + 1) * per)) (\<lambda>gh.
      better_split (int f) (cands ! f) F (find_best_split F gh (k nd)) nd)) [0..<length (pt_feats p)] nd = Inr kvs"
    and nd': "nd' = kvs\<lparr>nd_grad_hess := gh\<rparr>"
    using assms unfolding split_step_def by (auto simp: res_simps Let_def split: prod.splits)
  have "same_node (length (pt_feats p)) nd kvs"
  proof (rule fold_res_invariant[OF loop])
    fix f nd1 nd2
    assume f: "f \<in> set [0..<length (pt_feats p)]" and nd1: "same_node (length (pt_feats p)) nd nd1"
      and step: "bind_res (subvector vs (int f * per) ((int f + 1) * per)) (\<lambda>gh. better_split (int f) (cands ! f) F (find_best_split F gh (k nd1)) nd1) = Inr nd2"
    from step obtain gh where "better_split (int f) (cands ! f) F (find_best_split F gh (k nd1)) nd1 = Inr nd2" by (auto simp: res_simps)
    from better_split_keeps[OF this] show "same_node (length (pt_feats p)) nd nd2"
      using f nd1 by (auto simp: same_node_def)
  qed (simp add: same_node_def)
  then show ?thesis by (subst nd') (simp add: same_node_def)
qed

lemma leaf_step_keeps:
  assumes "leaf_step F T p nd s = Inr (nd', s')"
  shows "same_node n nd nd'" "nd_feat_id nd' = nd_feat_id nd"
  using assms unfolding leaf_step_def same_node_def by (auto simp: res_simps Let_def split: prod.splits if_splits)

lemma train_node_keeps:
  assumes "train_node F T p min_max nd s = Inr (nd', s')"
  shows "same_node (length (pt_feats p)) nd nd'" "fst s' = 0"
proof -
  obtain cands nd1 s1 nd2 s2 nd3 ptr m m' where steps: "sketch_step F T p min_max nd s = Inr (cands, nd1, s1)"
    "split_step F T p cands nd1 s1 = Inr (nd2, s2)" "leaf_step F T p nd2 s2 = Inr (nd3, ptr, m)"
    and out: "nd' = nd3" "s' = (0, m')"
    using assms unfolding train_node_def by (auto simp: res_simps split: prod.splits)
  show "same_node (length (pt_feats p)) nd nd'" "fst s' = 0"
    using sketch_step_keeps[OF steps(1)] split_step_keeps[OF steps(2)] leaf_step_keeps(1)[OF steps(3), of "length (pt_feats p)"]
    by (auto simp: out same_node_def)
qed

text \<open>One call of \<open>train\<close> that gives a tree.\<close>

lemma train_Suc_cases:
  assumes "train (Suc n) F T p min_max nd s = Some (Inr (t, s'))"
  obtains (leaf) nd' where "train_node F T p min_max nd s = Inr (nd', s')" "check_to_stop F nd'"
      "t = Tree_node (nd'\<lparr>nd_is_leaf := True\<rparr>) No_child No_child"
  | (inner) nd' s1 left right lmm rmm l s2 r where "train_node F T p min_max nd s = Inr (nd', s1)" "\<not> check_to_stop F nd'"
      "0 \<le> nd_feat_id nd'"
      "split_dataset (fl_lt F) (nat (nd_feat_id nd')) (nd_split_val nd') p (fresh_part 0) (fresh_part 0) = Inr (left, right)"
      "child_bound ''max'' (nd_split_val nd') (nat (nd_feat_id nd')) min_max = Inr lmm"
      "child_bound ''min'' (nd_split_val nd') (nat (nd_feat_id nd')) min_max = Inr rmm"
      "train n F T left lmm ((node_new F (nd_params nd'))\<lparr>nd_depth := nd_depth nd' + 1\<rparr>) s1 = Some (Inr (l, s2))"
      "train n F T right rmm ((node_new F (nd_params nd'))\<lparr>nd_depth := nd_depth nd' + 1\<rparr>) s2 = Some (Inr (r, s'))"
      "t = Tree_node nd' l r"
  using assms
  by (auto simp: Let_def split: sum.splits prod.splits if_splits option.splits)

section \<open>Training ends\<close>

text \<open>The depth grows to \<open>max_depth\<close>: the fuel \<open>max_depth - depth + 1\<close> is enough, and more changes nothing.\<close>

definition depth_left :: "int \<Rightarrow> 'f node_data \<Rightarrow> nat" where
  "depth_left D nd = nat (D - nd_depth nd)"

lemma train_enough_fuel:
  assumes depth: "\<And>d. 0 \<le> d \<Longrightarrow> fl_le F (fl_int F D) (fl_int F d) \<longleftrightarrow> D \<le> d"
    and "param F (nd_params nd) ''max_depth'' = fl_int F D" "0 \<le> nd_depth nd" "depth_left D nd < n"
  shows "train n F T p min_max nd s \<noteq> None \<and> train n F T p min_max nd s = train (Suc (depth_left D nd)) F T p min_max nd s"
  using assms(2-)
proof (induction n arbitrary: p min_max nd s)
  case (Suc n)
  show ?case
  proof (cases "train_node F T p min_max nd s")
    case (Inr r)
    obtain nd' s1 where r: "r = (nd', s1)" by (cases r)
    have nd': "nd_params nd' = nd_params nd" "nd_depth nd' = nd_depth nd"
      using train_node_keeps(1)[OF Inr[unfolded r]] by (simp_all add: same_node_def)
    have stop: "check_to_stop F nd' \<longleftrightarrow> D \<le> nd_depth nd"
      using depth[OF Suc.prems(2)] Suc.prems(1) by (simp add: check_to_stop_def nd')
    let ?child = "(node_new F (nd_params nd))\<lparr>nd_depth := nd_depth nd + 1\<rparr>"
    show ?thesis
    proof (cases "D \<le> nd_depth nd")
      case True
      then show ?thesis by (simp add: Inr r stop)
    next
      case False
      then have d: "depth_left D nd = Suc (depth_left D ?child)" by (simp add: depth_left_def)
      have c: "nd_params ?child = nd_params nd" "nd_depth ?child = nd_depth nd + 1" by (simp_all add: node_new_def)
      have IH: "train n F T q mm ?child s' \<noteq> None \<and> train n F T q mm ?child s' = train (depth_left D nd) F T q mm ?child s'" for q mm s'
        unfolding d by (rule Suc.IH) (use c Suc.prems d in simp_all)
      have "train (Suc n) F T p min_max nd s = train (Suc (depth_left D nd)) F T p min_max nd s"
        using False IH by (simp add: Inr r stop nd' Let_def cong: if_cong sum.case_cong prod.case_cong option.case_cong)
      moreover have "train (Suc n) F T p min_max nd s \<noteq> None"
        using False by (auto simp: Inr r stop nd' IH[THEN conjunct1] Let_def split: sum.split prod.split option.split)
      ultimately show ?thesis by blast
    qed
  qed simp
qed simp

section \<open>Trees are well formed\<close>

fun tree_ok :: "'f fl \<Rightarrow> nat \<Rightarrow> 'f params \<Rightarrow> int \<Rightarrow> 'f gbdt_tree \<Rightarrow> bool" where
  "tree_ok F n ps d No_child \<longleftrightarrow> False"
| "tree_ok F n ps d (Tree_node nd l r) \<longleftrightarrow> nd_depth nd = d \<and> nd_params nd = ps \<and> nd_is_leaf nd = check_to_stop F nd
     \<and> (if nd_is_leaf nd then l = No_child \<and> r = No_child
        else 0 \<le> nd_feat_id nd \<and> nd_feat_id nd < int n \<and> tree_ok F n ps (d + 1) l \<and> tree_ok F n ps (d + 1) r)"

lemma train_tree_ok:
  assumes "train n F T p min_max nd s = Some (Inr (t, s'))" "part_ok p" "\<not> nd_is_leaf nd" "nd_feat_id nd < int (length (pt_feats p))"
  shows "tree_ok F (length (pt_feats p)) (nd_params nd) (nd_depth nd) t \<and> fst s' = 0"
  using assms
proof (induction n arbitrary: p min_max nd s t s')
  case (Suc n)
  from Suc.prems(1) show ?case
  proof (cases rule: train_Suc_cases)
    case (leaf nd')
    then show ?thesis
      using train_node_keeps[OF leaf(1)] by (simp add: same_node_def check_to_stop_def)
  next
    case (inner nd' s1 left right lmm rmm l s2 r)
    have nd': "same_node (length (pt_feats p)) nd nd'" using train_node_keeps[OF inner(1)] by simp
    let ?child = "(node_new F (nd_params nd'))\<lparr>nd_depth := nd_depth nd' + 1\<rparr>"
    have c: "\<not> nd_is_leaf ?child" "nd_feat_id ?child < int k" "nd_params ?child = nd_params nd" "nd_depth ?child = nd_depth nd + 1" for k
      using nd' by (simp_all add: node_new_def same_node_def)
    have "nat (nd_feat_id nd') < length (pt_feats p)" using inner(3) nd' Suc.prems(4) by (auto simp: same_node_def)
    from split_parts[OF Suc.prems(2) this, of "fl_lt F" "nd_split_val nd'"]
    have parts: "part_ok left" "part_ok right" "length (pt_feats left) = length (pt_feats p)" "length (pt_feats right) = length (pt_feats p)"
      using inner(4) by auto
    show ?thesis
      using Suc.IH[OF inner(7) parts(1) c(1,2)] Suc.IH[OF inner(8) parts(2) c(1,2)] inner(2,3,9) nd' Suc.prems(3,4)
      unfolding c(3,4) parts(3,4) by (simp add: same_node_def)
  qed
qed simp

lemma tree_ok_predicts: "tree_ok F n ps d t \<Longrightarrow> length row = n \<Longrightarrow> \<exists>v. tree_predict F row t = Inr v"
proof (induction t arbitrary: d)
  case (Tree_node nd l r)
  then show ?case by (cases "nd_is_leaf nd") (auto simp: vect_at_int_def vec_at_def)
qed simp

text \<open>C32. A trained tree is well formed: inner nodes have two children one deeper, test a feature that
  there is and lie above \<open>max_depth\<close>, leaves are where \<open>check_to_stop\<close> says so; so it predicts a value for every row with as many features.
  And the keys handed out next start from 0 again.\<close>

theorem trained_tree_well_formed:
  assumes "train n F T p min_max (node_new F ps) s = Some (Inr (t, ptr, m))" "part_ok p"
  shows "tree_ok F (length (pt_feats p)) ps 0 t \<and> ptr = 0
    \<and> (\<forall>row. length row = length (pt_feats p) \<longrightarrow> (\<exists>v. tree_predict F row t = Inr v))"
proof -
  have "tree_ok F (length (pt_feats p)) ps 0 t \<and> ptr = 0"
    using train_tree_ok[OF assms] by (simp add: node_new_def)
  then show ?thesis using tree_ok_predicts by blast
qed

section \<open>Minimum and maximum\<close>

lemma min_max_loop_min:
  fixes mi ma :: "'f::linorder"
  assumes "fl_lt F = (<)"
  shows "fst (min_max_loop F xs mi ma) = fold min xs mi"
proof (induction xs arbitrary: mi ma)
  case (Cons x xs)
  have "min x mi = (if x < mi then x else mi)" by (metis min_absorb1 min_absorb2 not_less order.strict_implies_order)
  then show ?case by (simp add: assms Cons.IH)
qed simp

lemma min_max_loop_max:
  fixes mi ma :: "'f::linorder"
  assumes lt: "fl_lt F = (<)"
  shows "\<forall>x \<in> set xs. x \<le> t \<Longrightarrow> ma \<le> t \<Longrightarrow> mi \<le> t
    \<Longrightarrow> snd (min_max_loop F xs mi ma) \<le> t \<and> (snd (min_max_loop F xs mi ma) = t \<longleftrightarrow> ma = t \<or> t \<in> set xs)"
proof (induction xs arbitrary: mi ma)
  case (Cons x xs)
  then have le: "\<forall>y \<in> set xs. y \<le> t" "x \<le> t" by simp_all
  consider "x < mi" | "\<not> x < mi" "ma < x" | "\<not> x < mi" "\<not> ma < x" by blast
  then show ?case
  proof cases
    case 1
    then have "x \<noteq> t" using Cons.prems(3) by auto
    then show ?thesis using 1 Cons.IH[OF le(1) Cons.prems(2) le(2)] by (auto simp: lt)
  next
    case 2
    have "ma \<noteq> t" using 2(2) le(2) by auto
    then show ?thesis using 2 Cons.IH[OF le(1) le(2) Cons.prems(3)] by (auto simp: lt)
  next
    case 3
    then have "x = t \<Longrightarrow> ma = t" using Cons.prems(2) by auto
    then show ?thesis using 3 Cons.IH[OF le(1) Cons.prems(2,3)] by (auto simp: lt)
  qed
qed simp

lemma fold_min_Min: "fold min xs a = Min (insert a (set xs))" for a :: "'f::linorder"
proof (induction xs arbitrary: a)
  case (Cons x xs)
  have "Min (insert (min x a) (set xs)) = Min (insert a (insert x (set xs)))"
    by (cases "xs = []") (simp_all add: min.commute min.left_commute)
  then show ?case by (simp add: Cons.IH)
qed simp

text \<open>The minimum is right; the maximum is right exactly when it occurs behind the first value, for a value that is a
  new minimum is not tried as a maximum.\<close>

lemma find_min_max_correct:
  fixes F :: "'f::linorder fl"
  assumes "fl_lt F = (<)" "xs \<noteq> []" "\<forall>x \<in> set xs. fl_neg F (fl_inf F) < x \<and> x < fl_inf F"
  shows "param F (find_min_max F xs) ''min'' = Min (set xs)
    \<and> (param F (find_min_max F xs) ''max'' = Max (set xs) \<longleftrightarrow> Max (set xs) \<in> set (tl xs))"
proof -
  obtain x ys where xs: "xs = x # ys" using assms(2) by (cases xs) auto
  let ?t = "Max (set xs)" and ?r = "min_max_loop F xs (fl_inf F) (fl_neg F (fl_inf F))"
  have p: "param F (find_min_max F xs) ''min'' = fst ?r" "param F (find_min_max F xs) ''max'' = snd ?r"
    by (simp_all add: param_def find_min_max_def split: prod.split)
  have "Min (set xs) \<in> set xs" using assms(2) by (intro Min_in) simp_all
  then have "Min (set xs) \<le> fl_inf F" using assms(3) by (blast intro: less_imp_le)
  moreover have "Min (insert (fl_inf F) (set xs)) = min (fl_inf F) (Min (set xs))" using assms(2) by (intro Min_insert) simp_all
  ultimately have "Min (insert (fl_inf F) (set xs)) = Min (set xs)" by (simp only: min_absorb2)
  then have "fst ?r = Min (set xs)" by (simp add: min_max_loop_min[OF assms(1)] fold_min_Min)
  moreover have "snd ?r = ?t \<longleftrightarrow> ?t \<in> set ys"
  proof -
    have le: "\<forall>y \<in> set ys. y \<le> ?t" "x \<le> ?t" "?t \<in> set xs" by (simp_all add: xs) (metis Max_in finite.insertI finite_set insert_iff insert_not_empty)
    have "fl_neg F (fl_inf F) < ?t" using assms(3) le(3) by blast
    then have "snd (min_max_loop F ys x (fl_neg F (fl_inf F))) = ?t \<longleftrightarrow> ?t \<in> set ys"
      using min_max_loop_max[OF assms(1) le(1), of "fl_neg F (fl_inf F)" x] le(2) by auto
    then show ?thesis using assms(1,3) by (simp add: xs)
  qed
  moreover have "tl xs = ys" by (simp add: xs)
  ultimately show ?thesis unfolding p by simp
qed

section \<open>An instance\<close>

text \<open>Rational arithmetic, and a table that is an array of cells, to run the definitions.\<close>

definition rat_fl :: "rat fl" where
  "rat_fl = \<lparr>fl_int = of_int, fl_add = (+), fl_sub = (-), fl_mul = (*), fl_div = (/), fl_neg = uminus, fl_abs = abs, fl_sqrt = id,
     fl_lt = (<), fl_le = (\<le>), fl_inf = 1000, fl_trunc = (\<lambda>x. if 0 \<le> x then \<lfloor>x\<rfloor> else \<lceil>x\<rceil>), fl_tenth = (\<lambda>x. x / 10),
     fl_nudge = (\<lambda>x. x + 1 / 10000), fl_sum = sum_list\<rparr>"

fun bump :: "nat \<Rightarrow> 'f::plus \<Rightarrow> 'f list \<Rightarrow> 'f list" where
  "bump i v [] = []"
| "bump 0 v (c # cs) = (c + v) # cs"
| "bump (Suc i) v (c # cs) = c # bump i v cs"

fun peek :: "nat \<Rightarrow> 'f::zero list \<Rightarrow> 'f" where
  "peek i [] = 0"
| "peek 0 (c # cs) = c"
| "peek (Suc i) (c # cs) = peek i cs"

definition array_table :: "('f::{plus,zero}, 'f list) kv_ops" where
  "array_table = \<lparr>kv_add = (\<lambda>ks vs m. check_that (list_all (\<lambda>k. unat k < length m) ks) Out_of_bounds
       (Inr (fold (\<lambda>(k, v) m. bump (unat k) v m) (zip ks vs) m))),
     kv_get = (\<lambda>ks m. Inr (map (\<lambda>k. peek (unat k) m) ks, m)),
     kv_clock = (\<lambda>m. Inr m)\<rparr>"

definition demo_params :: "rat params" where
  "demo_params = [(''max_depth'', 1), (''num_of_trees'', 1), (''rank_fraction'', 1 / 2), (''total_data_num'', 3)]"

definition demo_data :: "rat part" where
  "demo_data = \<lparr>pt_grad = [1, 7, 8], pt_hess = [1, 1, 1], pt_feats = [[0, 2, 2]]\<rparr>"

definition demo_min_max :: "rat params list" where
  "demo_min_max = [[(''max'', 2), (''min'', 0)]]"

definition demo_node :: "int \<Rightarrow> rat node_data" where
  "demo_node d = (node_new rat_fl demo_params)\<lparr>nd_depth := d\<rparr>"

definition demo_split :: rat where
  "demo_split = 380019 / 200000"

definition demo_zeros :: "rat list" where
  "demo_zeros = replicate 26 0"

text \<open>What \<open>train\<close> looks at after \<open>train_node\<close>.\<close>

definition node_look :: "(rat node_data \<times> int \<times> rat list) res \<Rightarrow> ((bool \<times> int \<times> rat \<times> int \<times> rat params) \<times> rat \<times> int \<times> rat list) res" where
  "node_look r = map_sum id (\<lambda>(nd, s). ((check_to_stop rat_fl nd, nd_feat_id nd, nd_split_val nd, nd_depth nd, nd_params nd), nd_predict_val nd, s)) r"

lemma node_lookD:
  assumes "node_look r = Inr ((stop, f, v, d, ps), x, s)"
  obtains nd where "r = Inr (nd, s)" "check_to_stop rat_fl nd = stop" "nd_feat_id nd = f" "nd_split_val nd = v" "nd_depth nd = d"
    "nd_params nd = ps" "nd_predict_val nd = x"
  using assms unfolding node_look_def by (cases r) auto

lemma demo_root: "node_look (train_node rat_fl array_table demo_data demo_min_max (demo_node 0) (0, demo_zeros))
    = Inr ((False, 0, demo_split, 0, demo_params), 0, 0, demo_zeros)"
  by code_simp

lemma demo_left: "node_look (train_node rat_fl array_table \<lparr>pt_grad = [1], pt_hess = [1], pt_feats = [[0]]\<rparr>
      [[(''max'', demo_split), (''min'', 0)]] (demo_node 1) (0, demo_zeros))
    = Inr ((True, 0, 7220741 / 4000000, 1, demo_params), 1, 0, demo_zeros)"
  by code_simp

lemma demo_right: "node_look (train_node rat_fl array_table \<lparr>pt_grad = [7, 8], pt_hess = [1, 1], pt_feats = [[2, 2]]\<rparr>
      [[(''max'', 2), (''min'', demo_split)]] (demo_node 1) (0, demo_zeros))
    = Inr ((True, 0, 7980399 / 4000000, 1, demo_params), 15 / 2, 0, demo_zeros)"
  by code_simp

lemma demo_parts: "split_dataset (fl_lt rat_fl) 0 demo_split demo_data (fresh_part 0) (fresh_part 0)
    = Inr (\<lparr>pt_grad = [1], pt_hess = [1], pt_feats = [[0]]\<rparr>, \<lparr>pt_grad = [7, 8], pt_hess = [1, 1], pt_feats = [[2, 2]]\<rparr>)"
  "child_bound ''max'' demo_split 0 demo_min_max = Inr [[(''max'', demo_split), (''min'', 0)]]"
  "child_bound ''min'' demo_split 0 demo_min_max = Inr [[(''max'', 2), (''min'', demo_split)]]"
  by code_simp+

lemma demo_training: "\<exists>t. train 2 rat_fl array_table demo_data demo_min_max (node_new rat_fl demo_params) (0, demo_zeros) = Some (Inr (t, 0, demo_zeros))
    \<and> tree_predict rat_fl [0] t = Inr 1 \<and> tree_predict rat_fl [2] t = Inr (15 / 2)"
proof -
  obtain nd where nd: "train_node rat_fl array_table demo_data demo_min_max (demo_node 0) (0, demo_zeros) = Inr (nd, 0, demo_zeros)"
    "\<not> check_to_stop rat_fl nd" "nd_feat_id nd = 0" "nd_split_val nd = demo_split" "nd_depth nd = 0" "nd_params nd = demo_params"
    by (rule node_lookD[OF demo_root]) simp
  obtain l where l: "train_node rat_fl array_table \<lparr>pt_grad = [1], pt_hess = [1], pt_feats = [[0]]\<rparr>
      [[(''max'', demo_split), (''min'', 0)]] (demo_node 1) (0, demo_zeros) = Inr (l, 0, demo_zeros)" "check_to_stop rat_fl l" "nd_predict_val l = 1"
    by (rule node_lookD[OF demo_left]) simp
  obtain r where r: "train_node rat_fl array_table \<lparr>pt_grad = [7, 8], pt_hess = [1, 1], pt_feats = [[2, 2]]\<rparr>
      [[(''max'', 2), (''min'', demo_split)]] (demo_node 1) (0, demo_zeros) = Inr (r, 0, demo_zeros)" "check_to_stop rat_fl r" "nd_predict_val r = 15 / 2"
    by (rule node_lookD[OF demo_right]) simp
  have "node_new rat_fl demo_params = demo_node 0" by (simp add: demo_node_def node_new_def)
  moreover have "(node_new rat_fl demo_params)\<lparr>nd_depth := 1\<rparr> = demo_node 1" by (simp add: demo_node_def)
  moreover have leaf: "\<not> nd_is_leaf nd" using train_node_keeps(1)[OF nd(1)] by (simp add: same_node_def demo_node_def node_new_def)
  moreover have "fl_lt rat_fl 0 demo_split" "\<not> fl_lt rat_fl 2 demo_split" by (simp_all add: rat_fl_def demo_split_def)
  ultimately show ?thesis
    by (simp add: numeral_2_eq_2 nd l r demo_parts vect_at_int_def vec_at_def)
qed

text \<open>Training ends: the fuel \<open>max_depth - depth + 1\<close> gives a result, a tree or a failure, and more fuel gives the same,
  whatever the table answers.\<close>

lemma training_ends:
  assumes "\<And>d. 0 \<le> d \<Longrightarrow> fl_le F (fl_int F D) (fl_int F d) \<longleftrightarrow> D \<le> d"
    and "param F (nd_params nd) ''max_depth'' = fl_int F D" "0 \<le> nd_depth nd"
  shows "\<exists>r. \<forall>n > depth_left D nd. train n F T p min_max nd s = Some r"
  using train_enough_fuel[OF assms] by (metis lessI not_None_eq)

lemma training_ends_witness:
  "\<exists>r. train 2 rat_fl array_table demo_data demo_min_max (demo_node 0) (0, demo_zeros) = Some r
     \<and> train 5 rat_fl array_table demo_data demo_min_max (demo_node 0) (0, demo_zeros) = Some r"
proof -
  have "depth_left 1 (demo_node 0) = 1" by (simp add: depth_left_def demo_node_def)
  moreover have "param rat_fl (nd_params (demo_node 0)) ''max_depth'' = fl_int rat_fl 1"
    by (simp add: param_def demo_node_def node_new_def demo_params_def rat_fl_def)
  ultimately show ?thesis
    using training_ends[of rat_fl 1 "demo_node 0" array_table demo_data demo_min_max "(0, demo_zeros)"]
    by (auto simp: rat_fl_def demo_node_def)
qed

theorem trained_tree_well_formed_witness:
  "\<exists>t. train 2 rat_fl array_table demo_data demo_min_max (node_new rat_fl demo_params) (0, demo_zeros) = Some (Inr (t, 0, demo_zeros))
    \<and> tree_ok rat_fl 1 demo_params 0 t \<and> (\<exists>v. tree_predict rat_fl [1] t = Inr v)"
proof -
  obtain t where t: "train 2 rat_fl array_table demo_data demo_min_max (node_new rat_fl demo_params) (0, demo_zeros) = Some (Inr (t, 0, demo_zeros))"
    using demo_training by blast
  have "part_ok demo_data" by (simp add: part_ok_def demo_data_def)
  from trained_tree_well_formed[OF t this] have "tree_ok rat_fl 1 demo_params 0 t \<and> (\<exists>v. tree_predict rat_fl [1] t = Inr v)"
    by (simp add: demo_data_def)
  then show ?thesis using t by blast
qed

lemma find_min_max_correct_witness:
  "param rat_fl (find_min_max rat_fl [3, 2, 5]) ''min'' = 2 \<and> param rat_fl (find_min_max rat_fl [3, 2, 5]) ''max'' = 5
    \<and> param rat_fl (find_min_max rat_fl [5, 2, 3]) ''max'' \<noteq> 5"
  using find_min_max_correct[of rat_fl "[3, 2, 5]"] find_min_max_correct[of rat_fl "[5, 2, 3]"]
  by (simp add: rat_fl_def)

end
