(* ===== verification/Gbdt_Table.thy ===== *)
theory Gbdt_Table
  imports Complex_Main Gbdt_Tree
begin

text \<open>
  What \<open>train\<close> leaves in the table, under the contract \<open>exact_table\<close>: a table whose
  \<open>Add\<close> adds exactly, in the order of a group, and whose \<open>Get\<close> reads.  The storages of the server
  with 32-bit values meet it, as do the rational cells of \<open>array_table\<close>.
\<close>

section \<open>What a list of pushes adds\<close>

definition pushed :: "u32 list \<Rightarrow> 'f::comm_monoid_add list \<Rightarrow> u32 \<Rightarrow> 'f" where
  "pushed ks vs k = sum_list (map snd (filter (\<lambda>p. fst p = k) (zip ks vs)))"

definition pushed_all :: "(u32 list \<times> 'f::comm_monoid_add list) list \<Rightarrow> u32 \<Rightarrow> 'f" where
  "pushed_all kvs k = sum_list (map (\<lambda>(ks, vs). pushed ks vs k) kvs)"

definition even_pushes :: "(u32 list \<times> 'f list) list \<Rightarrow> bool" where
  "even_pushes kvs \<longleftrightarrow> (\<forall>(ks, vs) \<in> set kvs. length ks = length vs)"

lemma even_pushes_simps [simp]:
  "even_pushes []" "even_pushes ((ks, vs) # kvs) \<longleftrightarrow> length ks = length vs \<and> even_pushes kvs"
  "even_pushes (xs @ ys) \<longleftrightarrow> even_pushes xs \<and> even_pushes ys"
  by (auto simp: even_pushes_def)

lemma pushed_all_simps [simp]:
  "pushed_all [] k = 0" "pushed_all ((ks, vs) # kvs) k = pushed ks vs k + pushed_all kvs k"
  "pushed_all (xs @ ys) k = pushed_all xs k + pushed_all ys k"
  by (simp_all add: pushed_all_def)

lemma pushed_Nil [simp]: "pushed [] [] k = 0"
  by (simp add: pushed_def)

lemma pushed_concat: "even_pushes kvs \<Longrightarrow> pushed (concat (map fst kvs)) (concat (map snd kvs)) k = pushed_all kvs k"
  by (induction kvs) (auto simp: pushed_def)

lemma length_concat_pushes: "even_pushes kvs \<Longrightarrow> length (concat (map fst kvs)) = length (concat (map snd kvs))"
  by (induction kvs) auto

lemma pushed_uminus: "length ks = length vs \<Longrightarrow> pushed ks (map uminus vs) k = - pushed ks vs k" for vs :: "'f::ab_group_add list"
  by (induction ks vs rule: list_induct2) (simp_all add: pushed_def)

lemma pushed_all_uminus:
  "even_pushes kvs \<Longrightarrow> pushed_all (map (\<lambda>(ks, vs). (ks, map uminus vs)) kvs) k = - pushed_all kvs k"
  for kvs :: "(u32 list \<times> 'f::ab_group_add list) list"
  by (induction kvs) (auto simp: pushed_uminus)

lemma even_pushes_map: "even_pushes (map (\<lambda>(ks, vs). (ks, map f vs)) kvs) \<longleftrightarrow> even_pushes kvs"
  by (induction kvs) auto

section \<open>Keys are handed out one after the other\<close>

fun handed :: "int \<Rightarrow> (u32 list \<times> 'f list) list \<Rightarrow> int \<Rightarrow> bool" where
  "handed ptr [] ptr' \<longleftrightarrow> ptr' = ptr"
| "handed ptr ((ks, vs) # kvs) ptr' \<longleftrightarrow> ks = fst (take_keys ptr (length vs)) \<and> handed (ptr + int (length vs)) kvs ptr'"

lemma length_take_keys [simp]: "length (fst (take_keys ptr n)) = n"
  by (simp add: take_keys_def)

lemma handed_even: "handed ptr kvs ptr' \<Longrightarrow> even_pushes kvs \<and> ptr' = ptr + int (length (concat (map snd kvs)))"
  by (induction ptr kvs ptr' rule: handed.induct) auto

lemma pushed_outside: "k \<notin> set ks \<Longrightarrow> pushed ks vs k = 0"
proof -
  assume "k \<notin> set ks"
  then have "filter (\<lambda>p. fst p = k) (zip ks vs) = []" by (fastforce simp: filter_empty_conv dest: set_zip_leftD)
  then show ?thesis by (simp add: pushed_def)
qed

lemma pushed_all_outside: "(\<And>ks vs. (ks, vs) \<in> set kvs \<Longrightarrow> k \<notin> set ks) \<Longrightarrow> pushed_all kvs k = 0"
proof (induction kvs)
  case (Cons p kvs)
  then have "pushed_all kvs k = 0" "pushed (fst p) (snd p) k = 0" by (metis list.set_intros(2), metis list.set_intros(1) prod.collapse pushed_outside)
  then show ?case by (cases p) simp
qed simp

lemma handed_keys: "handed ptr kvs ptr' \<Longrightarrow> (ks, vs) \<in> set kvs \<Longrightarrow> k \<in> set ks \<Longrightarrow> \<exists>i. ptr \<le> i \<and> i < ptr' \<and> k = to_u32 i"
proof (induction ptr kvs ptr' rule: handed.induct)
  case (2 ptr ls ws kvs ptr')
  then have top: "ptr + int (length ws) \<le> ptr'" using handed_even[of "ptr + int (length ws)" kvs ptr'] by auto
  show ?case
  proof (cases "(ks, vs) = (ls, ws)")
    case True
    then obtain j where "j < length ws" "k = to_u32 (ptr + int j)" using 2 by (auto simp: take_keys_def)
    then show ?thesis using top by (intro exI[of _ "ptr + int j"]) auto
  next
    case False
    then obtain i where "ptr + int (length ws) \<le> i" "i < ptr'" "k = to_u32 i" using 2 by auto
    then show ?thesis by (intro exI[of _ i]) auto
  qed
qed simp

lemma push_each_handed:
  assumes "push_each push xs ptr = Inr (kvs, ptr')"
    and "\<And>x ptr ks vs ptr'. x \<in> set xs \<Longrightarrow> push x ptr = Inr (ks, vs, ptr') \<Longrightarrow> (ks, ptr') = take_keys ptr (length vs) \<and> length vs = w"
  shows "handed ptr kvs ptr' \<and> ptr' = ptr + int (length xs * w)"
  using assms
proof (induction xs arbitrary: ptr kvs)
  case (Cons x xs)
  then obtain ks vs ptr1 rest where x: "push x ptr = Inr (ks, vs, ptr1)" "push_each push xs ptr1 = Inr (rest, ptr')" "kvs = (ks, vs) # rest"
    by (auto simp: res_simps)
  have "(ks, ptr1) = take_keys ptr (length vs)" "length vs = w" using Cons.prems(2)[OF _ x(1)] by auto
  moreover have "handed ptr1 rest ptr' \<and> ptr' = ptr1 + int (length xs * w)"
    by (rule Cons.IH[OF x(2)]) (rule Cons.prems(2)[OF list.set_intros(2)])
  ultimately show ?case by (auto simp: take_keys_def x(3))
qed simp

lemma length_add_to_hist [simp]: "length (add_to_hist F w bins hist) = length hist"
  by (induction F w bins hist rule: add_to_hist.induct) auto

lemma push_quantile_sketch_keys:
  assumes "push_quantile_sketch F ps ptr feats mm = Inr (ks, vs, ptr')"
  shows "(ks, ptr') = take_keys ptr (length vs) \<and> length vs = nat (sketch_num_of F ps)"
proof -
  have len: "length (fold (\<lambda>x hist. add_to_hist F (g x) bins hist) xs hist) = length hist" for g bins xs and hist :: "'a list"
    by (induction xs arbitrary: hist) simp_all
  show ?thesis
    using assms by (auto simp: push_quantile_sketch_def Let_def len split: if_splits prod.splits)
qed

lemma push_local_grad_hess_keys:
  assumes "push_local_grad_hess F ptr feats cands grad hess = Inr (ks, vs, ptr')"
  shows "(ks, ptr') = take_keys ptr (length vs) \<and> length vs = 4 * length cands"
  using assms by (auto simp: push_local_grad_hess_def Let_def res_simps split: prod.splits)

lemma candidates_from_length: "candidates_from F hist fraction width reach scale cs prev = Inr cands \<Longrightarrow> length cands = length cs"
  by (induction cs arbitrary: prev cands) (auto simp: res_simps)

lemma find_candidate_split_length: "find_candidate_split F ps hist mm = Inr cands \<Longrightarrow> length cands = nat (rank_num_of F ps - 1)"
  by (auto simp: find_candidate_split_def Let_def res_simps dest: candidates_from_length)

section \<open>The steps of a node and the pushes they remember\<close>

text \<open>What a node has pushed up to here.\<close>

definition node_pushes :: "'f node_data \<Rightarrow> (u32 list \<times> 'f list) list" where
  "node_pushes nd = nd_sketches nd @ nd_grad_hess nd @ [nd_grad_sum nd]"

definition fresh_node :: "'f node_data \<Rightarrow> bool" where
  "fresh_node nd \<longleftrightarrow> nd_sketches nd = [] \<and> nd_grad_hess nd = [] \<and> nd_grad_sum nd = ([], [])"

lemma sketch_step_obtain:
  assumes "sketch_step F T p mm nd (ptr, m) = Inr (cands, nd', ptr', m')"
  obtains kvs m1 vs where "handed ptr kvs ptr'" "ptr' = ptr + int (length (pt_feats p) * nat (sketch_num_of F (nd_params nd)))"
    "add_clock T kvs m = Inr m1" "get_clock T (concat (map fst (nd_sketches nd @ kvs))) m1 = Inr (vs, m')"
    "nd' = nd\<lparr>nd_sketches := nd_sketches nd @ kvs\<rparr>" "length cands = length (pt_feats p)"
    "\<forall>c \<in> set cands. length c = nat (rank_num_of F (nd_params nd) - 1)"
proof -
  let ?push = "\<lambda>(feats, mm) ptr. push_quantile_sketch F (nd_params nd) ptr feats mm"
  obtain kvs m1 vs where le: "length (pt_feats p) \<le> length mm" and push: "push_each ?push (zip (pt_feats p) mm) ptr = Inr (kvs, ptr')"
    and tab: "add_clock T kvs m = Inr m1" "get_clock T (concat (map fst (nd_sketches nd @ kvs))) m1 = Inr (vs, m')"
    and cands: "map_res (\<lambda>f. bind_res (subvector vs (int f * int (length vs div length (pt_feats p))) ((int f + 1) * int (length vs div length (pt_feats p)))) (\<lambda>hist.
        find_candidate_split F (nd_params nd) hist (mm ! f))) [0..<length (pt_feats p)] = Inr cands"
    and nd': "nd' = nd\<lparr>nd_sketches := nd_sketches nd @ kvs\<rparr>"
    using assms by (auto simp: sketch_step_def res_simps Let_def split: prod.splits)
  have keys: "handed ptr kvs ptr' \<and> ptr' = ptr + int (length (zip (pt_feats p) mm) * nat (sketch_num_of F (nd_params nd)))"
    by (rule push_each_handed[OF push]) (auto dest!: push_quantile_sketch_keys)
  have zip: "length (zip (pt_feats p) mm) = length (pt_feats p)" using le by simp
  from cands have all: "list_all2 (\<lambda>f c. \<exists>hist. find_candidate_split F (nd_params nd) hist (mm ! f) = Inr c) [0..<length (pt_feats p)] cands"
    unfolding map_res_Inr_iff by (rule list_all2_mono) (auto simp: res_simps)
  then have n: "length cands = length (pt_feats p)" by (auto dest: list_all2_lengthD)
  have w: "\<forall>c \<in> set cands. length c = nat (rank_num_of F (nd_params nd) - 1)"
    using list_all2_set2[OF all] find_candidate_split_length by blast
  show ?thesis by (rule that[of kvs m1 vs]) (use keys[unfolded zip] tab nd' n w in blast)+
qed

lemma split_step_obtain:
  assumes "split_step F T p cands nd (ptr, m) = Inr (nd', ptr', m')" "length cands = length (pt_feats p)" "\<forall>c \<in> set cands. length c = w"
  obtains kvs m1 vs where "handed ptr kvs ptr'" "ptr' = ptr + int (length (pt_feats p) * (4 * w))"
    "add_clock T kvs m = Inr m1" "get_clock T (concat (map fst (nd_grad_hess nd @ kvs))) m1 = Inr (vs, m')"
    "nd_sketches nd' = nd_sketches nd" "nd_grad_hess nd' = nd_grad_hess nd @ kvs" "nd_grad_sum nd' = nd_grad_sum nd"
proof -
  let ?push = "\<lambda>(feats, cs) ptr. push_local_grad_hess F ptr feats cs (pt_grad p) (pt_hess p)"
  obtain kvs m1 vs per k nd1 where push: "push_each ?push (zip (pt_feats p) cands) ptr = Inr (kvs, ptr')"
    and tab: "add_clock T kvs m = Inr m1" "get_clock T (concat (map fst (nd_grad_hess nd @ kvs))) m1 = Inr (vs, m')"
    and loop: "fold_res (\<lambda>f nd. bind_res (subvector vs (int f * per) ((int f + 1) * per)) (\<lambda>gh.
      better_split (int f) (cands ! f) F (find_best_split F gh (k nd)) nd)) [0..<length (pt_feats p)] nd = Inr nd1"
    and nd': "nd' = nd1\<lparr>nd_grad_hess := nd_grad_hess nd1 @ kvs\<rparr>"
    using assms(1) unfolding split_step_def by (auto simp: res_simps Let_def split: prod.splits)
  have same: "nd_sketches nd1 = nd_sketches nd \<and> nd_grad_hess nd1 = nd_grad_hess nd \<and> nd_grad_sum nd1 = nd_grad_sum nd"
  proof (rule fold_res_invariant[OF loop])
    fix f nd1 nd2
    assume old: "nd_sketches nd1 = nd_sketches nd \<and> nd_grad_hess nd1 = nd_grad_hess nd \<and> nd_grad_sum nd1 = nd_grad_sum nd"
      and step: "bind_res (subvector vs (int f * per) ((int f + 1) * per)) (\<lambda>gh. better_split (int f) (cands ! f) F (find_best_split F gh (k nd1)) nd1) = Inr nd2"
    from step obtain gh where "better_split (int f) (cands ! f) F (find_best_split F gh (k nd1)) nd1 = Inr nd2" by (auto simp: res_simps)
    from better_split_keeps(5-7)[OF this] old
    show "nd_sketches nd2 = nd_sketches nd \<and> nd_grad_hess nd2 = nd_grad_hess nd \<and> nd_grad_sum nd2 = nd_grad_sum nd" by simp
  qed simp
  have keys: "handed ptr kvs ptr' \<and> ptr' = ptr + int (length (zip (pt_feats p) cands) * (4 * w))"
    by (rule push_each_handed[OF push]) (use assms(3) in \<open>auto dest!: push_local_grad_hess_keys set_zip_rightD\<close>)
  show ?thesis by (rule that[of kvs m1 vs]) (use keys tab nd' same assms(2) in auto)
qed

lemma leaf_step_obtain:
  assumes "leaf_step F T p nd (ptr, m) = Inr (nd', ptr', m')" "check_to_stop F nd"
  obtains ks vs m1 s n where "ks = fst (take_keys ptr 2)" "vs = [fl_sum F (pt_grad p), fl_int F (int (length (pt_grad p)))]"
    "add_clock T [(ks, vs)] m = Inr m1" "get_clock T ks m1 = Inr (s, m')" "2 \<le> length s"
    "nd' = nd\<lparr>nd_grad_sum := (ks, vs), nd_predict_val := fl_div F (s ! 0) (s ! 1)\<rparr>"
  using assms by (auto simp: leaf_step_def push_local_grad_sum_def res_simps Let_def vec_at_def numeral_2_eq_2 split: prod.splits if_splits)

section \<open>The contract of the table\<close>

locale exact_table =
  fixes T :: "('f::ab_group_add, 'm) kv_ops" and cells :: "'m \<Rightarrow> u32 \<Rightarrow> 'f" and inv :: "'m \<Rightarrow> bool"
  assumes add_exact: "inv m \<Longrightarrow> length ks = length vs \<Longrightarrow> kv_add T ks vs m = Inr m' \<Longrightarrow>
      inv m' \<and> cells m' = (\<lambda>k. cells m k + pushed ks vs k)"
    and get_exact: "inv m \<Longrightarrow> kv_get T ks m = Inr (vs, m') \<Longrightarrow> inv m' \<and> cells m' = cells m \<and> vs = map (cells m) ks"
    and clock_exact: "inv m \<Longrightarrow> kv_clock T m = Inr m' \<Longrightarrow> inv m' \<and> cells m' = cells m"
begin

lemma add_clock_exact:
  assumes "inv m" "even_pushes kvs" "add_clock T kvs m = Inr m'"
  shows "inv m'" "cells m' = (\<lambda>k. cells m k + pushed_all kvs k)"
proof -
  obtain m1 where m1: "kv_add T (concat (map fst kvs)) (concat (map snd kvs)) m = Inr m1" "kv_clock T m1 = Inr m'"
    using assms(3) by (auto simp: add_clock_def res_simps)
  note a = add_exact[OF assms(1) length_concat_pushes[OF assms(2)] m1(1)]
  then show "inv m'" "cells m' = (\<lambda>k. cells m k + pushed_all kvs k)"
    using clock_exact[OF _ m1(2)] by (simp_all add: pushed_concat[OF assms(2)])
qed

lemma get_clock_exact:
  assumes "inv m" "get_clock T ks m = Inr (vs, m')"
  shows "inv m'" "cells m' = cells m" "vs = map (cells m) ks"
proof -
  obtain m1 where m1: "kv_get T ks m = Inr (vs, m1)" "kv_clock T m1 = Inr m'"
    using assms(2) by (auto simp: get_clock_def res_simps)
  note g = get_exact[OF assms(1) m1(1)]
  then show "inv m'" "cells m' = cells m" "vs = map (cells m) ks" using clock_exact[OF _ m1(2)] by simp_all
qed

text \<open>Everything a node has pushed is in the table, on top of what there was, until \<open>reset_step\<close> takes it back.\<close>

definition holds :: "(u32 \<Rightarrow> 'f) \<Rightarrow> 'f node_data \<Rightarrow> 'm \<Rightarrow> bool" where
  "holds base nd m \<longleftrightarrow> inv m \<and> even_pushes (node_pushes nd) \<and> cells m = (\<lambda>k. base k + pushed_all (node_pushes nd) k)"

lemma sketch_step_holds:
  assumes "sketch_step F T p mm nd (ptr, m) = Inr (cands, nd', ptr', m')" "holds base nd m"
  shows "holds base nd' m'"
proof -
  obtain kvs m1 vs where s: "handed ptr kvs ptr'" "add_clock T kvs m = Inr m1"
    "get_clock T (concat (map fst (nd_sketches nd @ kvs))) m1 = Inr (vs, m')" "nd' = nd\<lparr>nd_sketches := nd_sketches nd @ kvs\<rparr>"
    using sketch_step_obtain[OF assms(1)] by metis
  have inv: "inv m" "even_pushes kvs" using assms(2) handed_even[OF s(1)] by (simp_all add: holds_def)
  note a = add_clock_exact[OF inv s(2)]
  note g = get_clock_exact(1,2)[OF a(1) s(3)]
  have "even_pushes (node_pushes nd')" using assms(2) inv(2) by (auto simp: holds_def node_pushes_def s(4))
  moreover have "pushed_all (node_pushes nd') k = pushed_all (node_pushes nd) k + pushed_all kvs k" for k
    by (simp add: node_pushes_def s(4) ac_simps)
  ultimately show ?thesis using assms(2) g a(2) by (simp add: holds_def ac_simps)
qed

lemma split_step_holds:
  assumes "split_step F T p cands nd (ptr, m) = Inr (nd', ptr', m')" "length cands = length (pt_feats p)"
    "\<forall>c \<in> set cands. length c = w" "holds base nd m"
  shows "holds base nd' m'"
proof -
  obtain kvs m1 vs where s: "handed ptr kvs ptr'" "add_clock T kvs m = Inr m1"
    "get_clock T (concat (map fst (nd_grad_hess nd @ kvs))) m1 = Inr (vs, m')"
    "nd_sketches nd' = nd_sketches nd" "nd_grad_hess nd' = nd_grad_hess nd @ kvs" "nd_grad_sum nd' = nd_grad_sum nd"
    using split_step_obtain[OF assms(1-3)] by metis
  have inv: "inv m" "even_pushes kvs" using assms(4) handed_even[OF s(1)] by (simp_all add: holds_def)
  note a = add_clock_exact[OF inv s(2)]
  note g = get_clock_exact(1,2)[OF a(1) s(3)]
  have "even_pushes (node_pushes nd')" using assms(4) inv(2) by (auto simp: holds_def node_pushes_def s(4-6))
  moreover have "pushed_all (node_pushes nd') k = pushed_all (node_pushes nd) k + pushed_all kvs k" for k
    by (simp add: node_pushes_def s(4-6) ac_simps)
  ultimately show ?thesis using assms(4) g a(2) by (simp add: holds_def ac_simps)
qed

lemma leaf_step_holds:
  assumes "leaf_step F T p nd (ptr, m) = Inr (nd', ptr', m')" "nd_grad_sum nd = ([], [])" "holds base nd m"
  shows "holds base nd' m'"
proof (cases "check_to_stop F nd")
  case True
  obtain ks vs m1 s where s: "ks = fst (take_keys ptr 2)" "vs = [fl_sum F (pt_grad p), fl_int F (int (length (pt_grad p)))]"
    "add_clock T [(ks, vs)] m = Inr m1" "get_clock T ks m1 = Inr (s, m')"
    "nd' = nd\<lparr>nd_grad_sum := (ks, vs), nd_predict_val := fl_div F (s ! 0) (s ! 1)\<rparr>"
    using leaf_step_obtain[OF assms(1) True] by metis
  have inv: "inv m" "even_pushes [(ks, vs)]" using assms(3) by (simp_all add: holds_def s(1,2))
  note a = add_clock_exact[OF inv s(3)]
  note g = get_clock_exact(1,2)[OF a(1) s(4)]
  have "even_pushes (node_pushes nd')" using assms(3) inv(2) by (auto simp: holds_def node_pushes_def s(5))
  moreover have "pushed_all (node_pushes nd') k = pushed_all (node_pushes nd) k + pushed_all [(ks, vs)] k" for k
    by (simp add: node_pushes_def s(5) assms(2) ac_simps)
  ultimately show ?thesis using assms(3) g a(2) by (simp add: holds_def ac_simps)
next
  case False
  then show ?thesis using assms(1,3) by (simp add: leaf_step_def)
qed

lemma reset_step_restores:
  assumes "reset_step F T nd m = Inr m'" "fl_neg F = uminus" "holds base nd m"
  shows "inv m'" "cells m' = base"
proof -
  let ?neg = "map (\<lambda>(ks, vs). (ks, map uminus vs)) (node_pushes nd)"
  obtain vs m1 where s: "get_clock T [0] m = Inr (vs, m1)" "add_clock T ?neg m1 = Inr m'"
    using assms(1,2) by (auto simp: reset_step_def node_pushes_def res_simps)
  have h: "inv m" "even_pushes ?neg" "even_pushes (node_pushes nd)" using assms(3) by (simp_all add: holds_def even_pushes_map)
  note g = get_clock_exact(1,2)[OF h(1) s(1)]
  note a = add_clock_exact[OF g(1) h(2) s(2)]
  show "inv m'" "cells m' = base"
    using a g(2) assms(3) by (simp_all add: holds_def pushed_all_uminus[OF h(3)])
qed

lemma train_node_restores:
  assumes "train_node F T p mm nd (ptr, m) = Inr (nd', ptr', m')" "fl_neg F = uminus" "fresh_node nd" "inv m"
  shows "inv m'" "cells m' = cells m"
proof -
  obtain cands nd1 ptr1 m1 nd2 ptr2 m2 ptr3 m3 where steps: "sketch_step F T p mm nd (ptr, m) = Inr (cands, nd1, ptr1, m1)"
    "split_step F T p cands nd1 (ptr1, m1) = Inr (nd2, ptr2, m2)" "leaf_step F T p nd2 (ptr2, m2) = Inr (nd', ptr3, m3)"
    "reset_step F T nd' m3 = Inr m'"
    using assms(1) unfolding train_node_def by (auto simp: res_simps split: prod.splits)
  have "holds (cells m) nd m" using assms(3,4) by (simp add: holds_def fresh_node_def node_pushes_def)
  from sketch_step_holds[OF steps(1) this] have h1: "holds (cells m) nd1 m1" .
  obtain w where w: "length cands = length (pt_feats p)" "\<forall>c \<in> set cands. length c = w" and g1: "nd_grad_sum nd1 = nd_grad_sum nd"
    by (rule sketch_step_obtain[OF steps(1)]) auto
  from split_step_holds[OF steps(2) w h1] have h2: "holds (cells m) nd2 m2" .
  have "nd_grad_sum nd2 = ([], [])" using split_step_obtain[OF steps(2) w] g1 assms(3) by (metis fresh_node_def)
  from leaf_step_holds[OF steps(3) this h2] have h3: "holds (cells m) nd' m3" .
  show "inv m'" "cells m' = cells m" by (rule reset_step_restores[OF steps(4) assms(2) h3])+
qed

lemma train_restores:
  assumes "train n F T p mm nd (ptr, m) = Some (Inr (t, ptr', m'))" "fl_neg F = uminus" "fresh_node nd" "inv m"
  shows "inv m' \<and> cells m' = cells m"
  using assms
proof (induction n arbitrary: p mm nd ptr m t ptr' m')
  case (Suc n)
  have fresh: "fresh_node ((node_new F ps)\<lparr>nd_depth := d\<rparr>)" for ps d by (simp add: fresh_node_def node_new_def)
  from Suc.prems(1) show ?case
  proof (cases rule: train_Suc_cases)
    case (leaf nd')
    then show ?thesis using train_node_restores[OF leaf(1) Suc.prems(2-4)] by blast
  next
    case (inner nd' s1 left right lmm rmm l s2 r)
    obtain ptr1 m1 ptr2 m2 where s: "s1 = (ptr1, m1)" "s2 = (ptr2, m2)" by (cases s1, cases s2)
    note n = train_node_restores[OF inner(1)[unfolded s] Suc.prems(2-4)]
    have l: "inv m2 \<and> cells m2 = cells m1" by (rule Suc.IH[OF inner(7)[unfolded s] Suc.prems(2) fresh n(1)])
    have "inv m' \<and> cells m' = cells m2" by (rule Suc.IH[OF inner(8)[unfolded s] Suc.prems(2) fresh]) (use l in blast)
    then show ?thesis using l n(2) by simp
  qed
qed simp

end

section \<open>Tables that meet it\<close>

text \<open>One server's storage as the table.\<close>

definition storage_table :: "'v val_type \<Rightarrow> ('v, 'v storage) kv_ops" where
  "storage_table V = \<lparr>kv_add = (\<lambda>ks vs st. sub_add V ks (bytes_of_vals V vs) st),
     kv_get = (\<lambda>ks st. bind_res (sub_get V ks st) (\<lambda>(bs, st). Inr (vals_of V bs, st))),
     kv_clock = (\<lambda>st. Inr (finish_iter st))\<rparr>"

lemma add_all_pushed: "val_add V = (+) \<Longrightarrow> add_all V ks vs f = (\<lambda>k. f k + pushed ks vs k)" for f :: "u32 \<Rightarrow> 'v::comm_monoid_add"
proof (induction ks arbitrary: vs f)
  case (Cons x ks)
  then show ?case
    by (cases vs) (auto simp: add_all_def pushed_def fun_eq_iff ac_simps)
qed (simp add: add_all_def pushed_def)

interpretation u32_table: exact_table "storage_table u32_val" "storage_view u32_val" storage_inv
proof
  fix m m' :: "u32 storage" and ks :: "u32 list" and vs :: "u32 list"
  assume a: "storage_inv m" "length ks = length vs" "kv_add (storage_table u32_val) ks vs m = Inr m'"
  then have run: "sub_add u32_val ks (bytes_of_vals u32_val vs) m = Inr m'" by (simp add: storage_table_def)
  then have serves: "list_all (storage_serves m) ks" using u32_store.add_bad[OF a(1)] by (metis Inr_not_Inl)
  have "storage_inv m' \<and> storage_view u32_val m' = add_all u32_val ks vs (storage_view u32_val m)"
    using u32_store.add_ok[OF a(1) _ serves, of "bytes_of_vals u32_val vs"] run a(2) by auto
  then show "storage_inv m' \<and> storage_view u32_val m' = (\<lambda>k. storage_view u32_val m k + pushed ks vs k)"
    by (simp add: add_all_pushed u32_val_def)
next
  fix m m' :: "u32 storage" and ks :: "u32 list" and vs :: "u32 list"
  assume a: "storage_inv m" "kv_get (storage_table u32_val) ks m = Inr (vs, m')"
  then obtain bs where bs: "sub_get u32_val ks m = Inr (bs, m')" "vs = vals_of u32_val bs"
    by (auto simp: storage_table_def res_simps)
  note g = u32_store.get_inv[OF a(1) bs(1)]
  then have "vs = map (storage_view u32_val m) ks" using bs(2) u32_val.vals_of_bytes_of_vals by simp
  then show "storage_inv m' \<and> storage_view u32_val m' = storage_view u32_val m \<and> vs = map (storage_view u32_val m) ks"
    using g by blast
next
  fix m m' :: "u32 storage"
  assume "storage_inv m" "kv_clock (storage_table u32_val) m = Inr m'"
  then show "storage_inv m' \<and> storage_view u32_val m' = storage_view u32_val m"
    using u32_store.finish_ok[of m] by (auto simp: storage_table_def)
qed

lemma peek_bump: "i < length m \<Longrightarrow> peek j (bump i v m) = (if j = i then peek i m + v else peek j m)" for v :: "'f::monoid_add"
  by (induction i v m arbitrary: j rule: bump.induct) (auto simp: gr0_conv_Suc split: nat.splits, (case_tac j; simp)+)

lemma length_bump [simp]: "length (bump i v m) = length m"
  by (induction i v m rule: bump.induct) simp_all

lemma array_add: "\<forall>p \<in> set kvs. unat (fst p) < length m \<Longrightarrow>
    peek (unat k) (fold (\<lambda>(k, v) m. bump (unat k) v m) kvs m) = peek (unat k) m + sum_list (map snd (filter (\<lambda>p. fst p = k) kvs))"
  for m :: "'f::ab_group_add list"
proof (induction kvs arbitrary: m)
  case (Cons p kvs)
  then show ?case by (cases p) (auto simp: peek_bump ac_simps dest: unsigned_word_eqI)
qed simp

lemma peek_nth: "i < length m \<Longrightarrow> peek i m = m ! i" for m :: "'f::zero list"
  by (induction i m rule: peek.induct) simp_all

interpretation array_cells: exact_table array_table "\<lambda>m k. peek (unat k) (m :: 'f::ab_group_add list)" "\<lambda>_. True"
proof
  fix m m' :: "'f list" and ks :: "u32 list" and vs :: "'f list"
  assume a: "length ks = length vs" "kv_add array_table ks vs m = Inr m'"
  then have "\<forall>p \<in> set (zip ks vs). unat (fst p) < length m" "m' = fold (\<lambda>(k, v) m. bump (unat k) v m) (zip ks vs) m"
    by (auto simp: array_table_def res_simps list_all_iff dest: set_zip_leftD)
  then show "True \<and> (\<lambda>k. peek (unat k) m') = (\<lambda>k. peek (unat k) m + pushed ks vs k)"
    by (simp add: array_add pushed_def)
qed (auto simp: array_table_def)

section \<open>Training leaves the table as it was\<close>

text \<open>C31. When the table adds exactly and negation is exact, training a tree leaves every cell of the table as it
  found it, whatever the tree, the depth and the data: all that the nodes push, they take back.\<close>

theorem training_restores_table:
  assumes "exact_table T cells ok" "fl_neg F = uminus" "ok m"
    and "train n F T p mm (node_new F ps) (ptr, m) = Some (Inr (t, ptr', m'))"
  shows "ok m' \<and> cells m' = cells m"
  by (rule exact_table.train_restores[OF assms(1,4,2) _ assms(3)]) (simp add: fresh_node_def node_new_def)

theorem training_restores_table_witness:
  "\<exists>t m'. train 2 rat_fl array_table demo_data demo_min_max (node_new rat_fl demo_params) (0, demo_zeros) = Some (Inr (t, 0, m'))
    \<and> peek (unat (7 :: u32)) m' = peek (unat (7 :: u32)) demo_zeros"
proof -
  obtain t where t: "train 2 rat_fl array_table demo_data demo_min_max (node_new rat_fl demo_params) (0, demo_zeros) = Some (Inr (t, 0, demo_zeros))"
    using demo_training by blast
  have "fl_neg rat_fl = uminus" by (simp add: rat_fl_def)
  from training_restores_table[OF array_cells.exact_table_axioms this TrueI t]
  show ?thesis using t by (metis (no_types))
qed

section \<open>What a leaf predicts\<close>

text \<open>Arithmetic without rounding.\<close>

definition exact_fl :: "'f::linordered_field fl \<Rightarrow> bool" where
  "exact_fl F \<longleftrightarrow> fl_int F = of_int \<and> fl_add F = (+) \<and> fl_sub F = (-) \<and> fl_mul F = (*) \<and> fl_div F = (/) \<and> fl_neg F = uminus
     \<and> fl_lt F = (<) \<and> fl_sum F = sum_list"

definition keys_of_params :: "'f fl \<Rightarrow> 'f params \<Rightarrow> nat \<Rightarrow> nat" where
  "keys_of_params F ps n = n * nat (sketch_num_of F ps) + n * (4 * nat (rank_num_of F ps - 1))"

lemma to_u32_inj:
  assumes "0 \<le> i" "i < 4294967296" "0 \<le> j" "j < 4294967296" "to_u32 i = to_u32 j"
  shows "i = j"
proof -
  have "uint (to_u32 i) = i" "uint (to_u32 j) = j" using assms(1-4) by (simp_all only: uint_to_u32)
  then show ?thesis by (metis assms(5))
qed

lemma handed_outside:
  assumes "handed ptr kvs ptr'" "0 \<le> ptr" "ptr' \<le> j" "j < 4294967296"
  shows "pushed_all kvs (to_u32 j) = 0"
proof (rule pushed_all_outside)
  fix ks vs assume kvs: "(ks, vs) \<in> set kvs"
  show "to_u32 j \<notin> set ks"
  proof
    assume "to_u32 j \<in> set ks"
    from handed_keys[OF assms(1) kvs this] obtain i where i: "ptr \<le> i" "i < ptr'" "to_u32 j = to_u32 i" by blast
    have "j = i" by (rule to_u32_inj[OF _ assms(4) _ _ i(3)]) (use i assms(2-4) in linarith)+
    then show False using i(2) assms(3) by simp
  qed
qed

text \<open>In a table of zeros the node's own keys are apart, so the leaf reads its own sum and count.\<close>

lemma leaf_value:
  fixes T :: "('f::linordered_field, 'm) kv_ops"
  assumes tab: "exact_table T cells ok" and "exact_fl F" "ok m" "cells m = (\<lambda>_. 0)" "fresh_node nd"
    and "train_node F T p mm nd (0, m) = Inr (nd', ptr', m')" "check_to_stop F nd'"
    and room: "keys_of_params F (nd_params nd) (length (pt_feats p)) + 2 \<le> 4294967296"
  shows "nd_predict_val nd' = sum_list (pt_grad p) / of_nat (length (pt_grad p))"
proof -
  obtain cands nd1 ptr1 m1 nd2 ptr2 m2 ptr3 m3 where steps: "sketch_step F T p mm nd (0, m) = Inr (cands, nd1, ptr1, m1)"
    "split_step F T p cands nd1 (ptr1, m1) = Inr (nd2, ptr2, m2)" "leaf_step F T p nd2 (ptr2, m2) = Inr (nd', ptr3, m3)"
    using assms(6) unfolding train_node_def by (auto simp: res_simps split: prod.splits)
  obtain kvs1 where k1: "handed 0 kvs1 ptr1" "ptr1 = int (length (pt_feats p) * nat (sketch_num_of F (nd_params nd)))"
    "nd1 = nd\<lparr>nd_sketches := nd_sketches nd @ kvs1\<rparr>" and w: "length cands = length (pt_feats p)"
      "\<forall>c \<in> set cands. length c = nat (rank_num_of F (nd_params nd) - 1)"
    by (rule sketch_step_obtain[OF steps(1)]) (metis add_0)
  obtain kvs2 where k2: "handed ptr1 kvs2 ptr2" "ptr2 = ptr1 + int (length (pt_feats p) * (4 * nat (rank_num_of F (nd_params nd) - 1)))"
    "nd_sketches nd2 = nd_sketches nd1" "nd_grad_hess nd2 = nd_grad_hess nd1 @ kvs2" "nd_grad_sum nd2 = nd_grad_sum nd1"
    by (rule split_step_obtain[OF steps(2) w]) blast
  have "ptr2 = int (keys_of_params F (nd_params nd) (length (pt_feats p)))" by (simp add: keys_of_params_def k1(2) k2(2))
  then have top: "0 \<le> ptr1" "ptr1 \<le> ptr2" "ptr2 + 1 < 4294967296" using room k1(2) k2(2) by linarith+
  have pushes: "node_pushes nd2 = kvs1 @ kvs2 @ [([], [])]" using assms(5) by (simp add: node_pushes_def k1(3) k2(3-5) fresh_node_def)
  have "exact_table.holds cells ok (\<lambda>_. 0) nd m"
    using assms(3-5) by (simp add: exact_table.holds_def[OF tab] fresh_node_def node_pushes_def)
  from exact_table.split_step_holds[OF tab steps(2) w exact_table.sketch_step_holds[OF tab steps(1) this]]
  have "exact_table.holds cells ok (\<lambda>_. 0) nd2 m2" .
  then have m2: "ok m2" "cells m2 = (\<lambda>k. pushed_all (node_pushes nd2) k)" by (simp_all add: exact_table.holds_def[OF tab])
  have zero: "cells m2 (to_u32 j) = 0" if j: "ptr2 \<le> j" "j < 4294967296" for j
    using handed_outside[OF k1(1) _ _ j(2)] handed_outside[OF k2(1) top(1) j] top(2) j(1) by (simp add: m2(2) pushes)
  have "check_to_stop F nd2"
    using leaf_step_keeps(1)[OF steps(3), of 0] assms(7) by (simp add: same_node_def check_to_stop_def)
  then obtain ks vs m4 s where leaf: "ks = fst (take_keys ptr2 2)" "vs = [fl_sum F (pt_grad p), fl_int F (int (length (pt_grad p)))]"
    "add_clock T [(ks, vs)] m2 = Inr m4" "get_clock T ks m4 = Inr (s, m3)" "nd_predict_val nd' = fl_div F (s ! 0) (s ! 1)"
    by (rule leaf_step_obtain[OF steps(3)]) simp
  have ks: "ks = [to_u32 ptr2, to_u32 (ptr2 + 1)]" by (simp add: leaf(1) take_keys_def upt_rec[of _ 2])
  have ne: "to_u32 ptr2 \<noteq> to_u32 (ptr2 + 1)" using to_u32_inj[of ptr2 "ptr2 + 1"] top by auto
  note a = exact_table.add_clock_exact[OF tab m2(1) _ leaf(3)]
  have "s = map (cells m4) ks" by (rule exact_table.get_clock_exact(3)[OF tab _ leaf(4)]) (rule a(1), simp add: ks leaf(2))
  then have "s = vs"
    using ne zero[of ptr2] zero[of "ptr2 + 1"] top by (simp add: a(2) ks leaf(2) pushed_def)
  then show ?thesis using assms(2) by (simp add: leaf(2,5) exact_fl_def)
qed

section \<open>A tree reduces the squared error\<close>

definition leaf_val :: "'f fl \<Rightarrow> 'f gbdt_tree \<Rightarrow> 'f list \<Rightarrow> 'f" where
  "leaf_val F t row = (case tree_predict F row t of Inr v \<Rightarrow> v | Inl _ \<Rightarrow> fl_int F 0)"

text \<open>The sum of the squares does not grow when each row's gradient loses what the tree predicts for it, and what is left sums up to 0.\<close>

definition fits :: "('f::linordered_field \<times> 'f \<times> 'f list) list \<Rightarrow> ('f list \<Rightarrow> 'f) \<Rightarrow> bool" where
  "fits rows val \<longleftrightarrow> (\<Sum>(g, h, row)\<leftarrow>rows. (g - val row)\<^sup>2) \<le> (\<Sum>(g, h, row)\<leftarrow>rows. g\<^sup>2)
     \<and> (\<Sum>(g, h, row)\<leftarrow>rows. g - val row) = 0"

lemma sum_list_filters: "sum_list (map f xs) = sum_list (map f (filter P xs)) + sum_list (map f (filter (\<lambda>x. \<not> P x) xs))"
  for f :: "'a \<Rightarrow> 'f::comm_monoid_add"
  by (induction xs) (simp_all add: ac_simps)

lemma fits_filters:
  assumes "fits (filter P rows) u" "fits (filter (\<lambda>r. \<not> P r) rows) v"
    and "\<And>g h row. (g, h, row) \<in> set rows \<Longrightarrow> val row = (if P (g, h, row) then u row else v row)"
  shows "fits rows val"
proof -
  have split: "(\<Sum>(g, h, row)\<leftarrow>rows. f g (val row)) = (\<Sum>(g, h, row)\<leftarrow>filter P rows. f g (u row)) + (\<Sum>(g, h, row)\<leftarrow>filter (\<lambda>r. \<not> P r) rows. f g (v row))"
    for f :: "'a \<Rightarrow> 'a \<Rightarrow> 'a"
  proof -
    have "map (\<lambda>(g, h, row). f g (val row)) (filter P rows) = map (\<lambda>(g, h, row). f g (u row)) (filter P rows)"
      "map (\<lambda>(g, h, row). f g (val row)) (filter (\<lambda>r. \<not> P r) rows) = map (\<lambda>(g, h, row). f g (v row)) (filter (\<lambda>r. \<not> P r) rows)"
      using assms(3) by auto
    then show ?thesis by (subst sum_list_filters[of _ rows P]) metis
  qed
  show ?thesis
    using assms(1,2) split[of "\<lambda>g x. (g - x)\<^sup>2"] split[of "\<lambda>g x. g - x"] split[of "\<lambda>g x. g\<^sup>2"]
    by (simp add: fits_def)
qed

lemma fits_mean:
  assumes "val = (\<lambda>_. sum_list (map fst rows) / of_nat (length rows))"
  shows "fits rows val"
proof (cases "rows = []")
  case False
  define n :: 'a where "n = of_nat (length rows)"
  define m where "m = sum_list (map fst rows) / n"
  have n: "n \<noteq> 0" using False by (simp add: n_def)
  have sq: "(\<Sum>(g, h, row)\<leftarrow>xs. (g - m)\<^sup>2) = (\<Sum>(g, h, row)\<leftarrow>xs. g\<^sup>2) - 2 * m * sum_list (map fst xs) + of_nat (length xs) * m\<^sup>2"
    for xs :: "('a \<times> 'a \<times> 'a list) list"
    by (induction xs) (auto simp: power2_eq_square algebra_simps)
  have lin: "(\<Sum>(g, h, row)\<leftarrow>xs. g - m) = sum_list (map fst xs) - of_nat (length xs) * m" for xs :: "('a \<times> 'a \<times> 'a list) list"
    by (induction xs) (auto simp: algebra_simps)
  have s: "sum_list (map fst rows) = n * m" using n by (simp add: m_def)
  have "(\<Sum>(g, h, row)\<leftarrow>rows. (g - m)\<^sup>2) = (\<Sum>(g, h, row)\<leftarrow>rows. g\<^sup>2) - n * m\<^sup>2"
    unfolding sq s n_def[symmetric] by (simp add: power2_eq_square algebra_simps)
  moreover have "0 \<le> n * m\<^sup>2" by (simp add: n_def)
  moreover have "val = (\<lambda>_. m)" by (simp add: assms m_def n_def)
  moreover have "(\<Sum>(g, h, row)\<leftarrow>rows. g - m) = 0" unfolding lin s n_def[symmetric] by simp
  ultimately show ?thesis by (simp add: fits_def)
qed (simp add: fits_def)

lemma rows_of_grad: "map fst (rows_of p) = pt_grad p"
  by (simp add: rows_of_def row_of_def comp_def map_nth)

lemma length_rows_of [simp]: "length (rows_of p) = length (pt_grad p)"
  by (simp add: rows_of_def)

lemma rows_of_width: "(g, h, row) \<in> set (rows_of p) \<Longrightarrow> length row = length (pt_feats p)"
  by (auto simp: rows_of_def row_of_def)

lemma train_fits:
  fixes T :: "('f::linordered_field, 'm) kv_ops"
  assumes tab: "exact_table T cells ok" and exact: "exact_fl F"
    and "train n F T p mm nd (0, m) = Some (Inr (t, ptr', m'))" "part_ok p" "fresh_node nd" "\<not> nd_is_leaf nd"
    and "nd_feat_id nd < int (length (pt_feats p))" "ok m" "cells m = (\<lambda>_. 0)"
    and "keys_of_params F (nd_params nd) (length (pt_feats p)) + 2 \<le> 4294967296"
  shows "fits (rows_of p) (leaf_val F t)"
  using assms(3-)
proof (induction n arbitrary: p mm nd m t ptr' m')
  case (Suc n)
  have neg: "fl_neg F = uminus" and lt: "fl_lt F = (<)" using exact by (simp_all add: exact_fl_def)
  from Suc.prems(1) show ?case
  proof (cases rule: train_Suc_cases)
    case (leaf nd')
    have "nd_predict_val nd' = sum_list (pt_grad p) / of_nat (length (pt_grad p))"
      by (rule leaf_value[OF tab exact Suc.prems(6,7,3) leaf(1,2) Suc.prems(8)])
    then show ?thesis
      by (intro fits_mean) (simp add: fun_eq_iff leaf_val_def leaf(3) rows_of_grad)
  next
    case (inner nd' s1 left right lmm rmm l s2 r)
    obtain ptr1 m1 ptr2 m2 where s: "s1 = (ptr1, m1)" "s2 = (ptr2, m2)" by (cases s1, cases s2)
    let ?child = "(node_new F (nd_params nd'))\<lparr>nd_depth := nd_depth nd' + 1\<rparr>" and ?f = "nat (nd_feat_id nd')"
    note keeps = train_node_keeps[OF inner(1)]
    have ps: "nd_params nd' = nd_params nd" and f: "nd_feat_id nd' < int (length (pt_feats p))" and nl: "\<not> nd_is_leaf nd'" and p1: "ptr1 = 0"
      using keeps Suc.prems(4,5) by (simp_all add: same_node_def s)
    have fresh: "fresh_node ?child" "\<not> nd_is_leaf ?child" "nd_feat_id ?child < int k" "nd_params ?child = nd_params nd" for k
      by (simp_all add: fresh_node_def node_new_def ps)
    have fl: "?f < length (pt_feats p)" using f inner(3) by linarith
    from split_parts[OF Suc.prems(2) fl, of "fl_lt F" "nd_split_val nd'"] inner(4)
    have parts: "rows_of left = filter (goes_left (fl_lt F) ?f (nd_split_val nd')) (rows_of p)"
      "rows_of right = filter (\<lambda>x. \<not> goes_left (fl_lt F) ?f (nd_split_val nd') x) (rows_of p)"
      "part_ok left" "part_ok right" "length (pt_feats left) = length (pt_feats p)" "length (pt_feats right) = length (pt_feats p)" by auto
    have m1: "ok m1" "cells m1 = (\<lambda>_. 0)"
      using exact_table.train_node_restores[OF tab inner(1)[unfolded s] neg Suc.prems(3,6)] Suc.prems(7) by simp_all
    have m2: "ok m2" "cells m2 = (\<lambda>_. 0)"
      using exact_table.train_restores[OF tab inner(7)[unfolded s] neg fresh(1) m1(1)] m1(2) by simp_all
    have p2: "ptr2 = 0" using train_tree_ok[OF inner(7)[unfolded s] parts(3) fresh(2,3)] by simp
    have L: "fits (rows_of left) (leaf_val F l)"
      by (rule Suc.IH[OF inner(7)[unfolded s p1] parts(3) fresh(1,2,3) m1]) (simp only: fresh(4) parts(5) Suc.prems(8))
    have R: "fits (rows_of right) (leaf_val F r)"
      by (rule Suc.IH[OF inner(8)[unfolded s p2] parts(4) fresh(1,2,3) m2]) (simp only: fresh(4) parts(6) Suc.prems(8))
    show ?thesis
    proof (rule fits_filters[OF L[unfolded parts(1)] R[unfolded parts(2)]])
      fix g h row assume "(g, h, row) \<in> set (rows_of p)"
      then have "length row = length (pt_feats p)" by (rule rows_of_width)
      then show "leaf_val F t row = (if goes_left (fl_lt F) ?f (nd_split_val nd') (g, h, row) then leaf_val F l row else leaf_val F r row)"
        using fl inner(3) by (simp add: leaf_val_def inner(9) nl vect_at_int_def vec_at_def goes_left_def)
    qed
  qed
qed simp

end
