(* ===== verification/Gbdt_Boost.thy ===== *)
theory Gbdt_Boost
  imports Complex_Main Gbdt_Table
begin

text \<open>
  \<open>examples2/gbdt/src/gbdt_controller.cpp\<close>: the forest.  Every tree is trained on the gradients that the
  trees before it leave; the estimators of the rows follow.
\<close>

section \<open>The controller\<close>

record 'f controller =
  gc_ps_key_ptr :: int
  gc_init_estimator :: 'f
  gc_options :: "(string, string) omap"
  gc_params :: "'f params"
  gc_forest :: "'f gbdt_tree list"

text \<open>The constructor does not set \<open>init_estimator\<close>.\<close>

definition controller_new :: "'f \<Rightarrow> 'f controller" where
  "controller_new junk = \<lparr>gc_ps_key_ptr = 0, gc_init_estimator = junk, gc_options = [], gc_params = [], gc_forest = []\<rparr>"

definition controller_init :: "'f fl \<Rightarrow> (string, string) omap \<Rightarrow> 'f params \<Rightarrow> 'f controller \<Rightarrow> 'f controller" where
  "controller_init F options ps c = c\<lparr>gc_init_estimator := fl_int F 0, gc_options := options, gc_params := ps\<rparr>"

definition create_tree :: "'f fl \<Rightarrow> 'f controller \<Rightarrow> 'f node_data" where
  "create_tree F c = node_new F (gc_params c)"

definition build_tree ::
  "nat \<Rightarrow> 'f fl \<Rightarrow> ('f, 'm) kv_ops \<Rightarrow> 'f part \<Rightarrow> 'f params list \<Rightarrow> 'f controller \<times> 'm \<Rightarrow> ('f gbdt_tree \<times> 'f controller \<times> 'm) res option"
where
  "build_tree d F T p min_max = (\<lambda>(c, m).
     map_option (\<lambda>r. bind_res r (\<lambda>(t, ptr, m). Inr (t, c\<lparr>gc_ps_key_ptr := ptr\<rparr>, m)))
       (train d F T p min_max (create_tree F c) (gc_ps_key_ptr c, m)))"

definition get_gradient_vect :: "'f fl \<Rightarrow> 'f list \<Rightarrow> 'f list \<Rightarrow> string \<Rightarrow> int \<Rightarrow> 'f list res" where
  "get_gradient_vect F classes ests loss order =
     map_res (\<lambda>i. bind_res (vec_at ests i) (\<lambda>e. Inr (calculate_gradient F (classes ! i) e loss order))) [0..<length classes]"

definition update_estimator_vect :: "'f fl \<Rightarrow> 'f gbdt_tree \<Rightarrow> 'f list \<Rightarrow> 'f list list \<Rightarrow> 'f list res" where
  "update_estimator_vect F t ests feats =
     map_res (\<lambda>i. bind_res (feat_vect_by_row feats i) (\<lambda>row. bind_res (tree_predict F row t) (\<lambda>v. Inr (fl_add F (ests ! i) v))))
       [0..<length ests]"

definition controller_predict :: "'f fl \<Rightarrow> 'f controller \<Rightarrow> 'f list \<Rightarrow> 'f res" where
  "controller_predict F c row =
     fold_res (\<lambda>t e. bind_res (tree_predict F row t) (\<lambda>v. Inr (fl_add F e v))) (gc_forest c) (gc_init_estimator c)"

definition calculate_predict_result ::
  "'f fl \<Rightarrow> 'f controller \<Rightarrow> 'f list list \<Rightarrow> 'f list \<Rightarrow> 'f params \<Rightarrow> 'f params res"
where
  "calculate_predict_result F c feats classes result =
     bind_res (fold_res (\<lambda>i sse. bind_res (feat_vect_by_row feats i) (\<lambda>row. bind_res (controller_predict F c row) (\<lambda>v.
         let e = fl_sub F (classes ! i) v in Inr (fl_add F sse (fl_mul F e e))))) [0..<length classes] (fl_int F 0)) (\<lambda>sse.
       Inr (om_set ''num'' (fl_int F (int (length classes))) (om_set ''sse'' sse result)))"

text \<open>The loop over the trees, with the errors it logs: \<open>n\<close> bounds the trees, \<open>d\<close> their depth.\<close>

fun forest_loop ::
  "nat \<Rightarrow> nat \<Rightarrow> 'f fl \<Rightarrow> ('f, 'm) kv_ops \<Rightarrow> 'f list \<Rightarrow> 'f list list \<Rightarrow> 'f params list \<Rightarrow> int \<Rightarrow> 'f list \<Rightarrow> 'f controller \<times> 'm
    \<Rightarrow> (('f \<times> int) list \<times> 'f list \<times> 'f controller \<times> 'm) res option"
where
  "forest_loop 0 d F T classes feats min_max i ests s = None"
| "forest_loop (Suc n) d F T classes feats min_max i ests s =
     (if \<not> fl_lt F (fl_int F i) (param F (gc_params (fst s)) ''num_of_trees'') then Some (Inr ([], ests, s))
      else
        let loss = get_or '''' (om_get (gc_options (fst s)) ''loss_function'') in
        case (get_gradient_vect F classes ests loss 1, get_gradient_vect F classes ests loss 2) of
          (Inr grad, Inr hess) \<Rightarrow>
            (case build_tree d F T \<lparr>pt_grad = grad, pt_hess = hess, pt_feats = feats\<rparr> min_max s of
               None \<Rightarrow> None
             | Some (Inl e) \<Rightarrow> Some (Inl e)
             | Some (Inr (t, c, m)) \<Rightarrow>
                 (case update_estimator_vect F t ests feats of
                    Inl e \<Rightarrow> Some (Inl e)
                  | Inr ests \<Rightarrow>
                      (case get_sse_and_num F ests classes of
                         Inl e \<Rightarrow> Some (Inl e)
                       | Inr err \<Rightarrow>
                           map_option (\<lambda>r. bind_res r (\<lambda>(errs, out). Inr (err # errs, out)))
                             (forest_loop n d F T classes feats min_max (i + 1) ests (c\<lparr>gc_forest := gc_forest c @ [t]\<rparr>, m)))))
        | _ \<Rightarrow> Some (Inl Out_of_bounds))"

definition build_forest ::
  "nat \<Rightarrow> nat \<Rightarrow> 'f fl \<Rightarrow> ('f, 'm) kv_ops \<Rightarrow> 'f list \<Rightarrow> 'f list list \<Rightarrow> 'f params list \<Rightarrow> 'f controller \<times> 'm
    \<Rightarrow> (('f \<times> int) list \<times> 'f list \<times> 'f controller \<times> 'm) res option"
where
  "build_forest n d F T classes feats min_max s =
     forest_loop n d F T classes feats min_max 0 (replicate (length classes) (gc_init_estimator (fst s))) s"

section \<open>One round\<close>

lemma forest_loop_round:
  assumes "forest_loop (Suc n) d F T classes feats mm i ests (c, m) = Some (Inr (errs, out))"
  obtains (stop) "errs = []" "out = (ests, c, m)" "\<not> fl_lt F (fl_int F i) (param F (gc_params c) ''num_of_trees'')"
  | (round) loss grad hess t ptr m1 ests' err errs' where "loss = get_or '''' (om_get (gc_options c) ''loss_function'')"
      "fl_lt F (fl_int F i) (param F (gc_params c) ''num_of_trees'')"
      "get_gradient_vect F classes ests loss 1 = Inr grad" "get_gradient_vect F classes ests loss 2 = Inr hess"
      "train d F T \<lparr>pt_grad = grad, pt_hess = hess, pt_feats = feats\<rparr> mm (create_tree F c) (gc_ps_key_ptr c, m) = Some (Inr (t, ptr, m1))"
      "update_estimator_vect F t ests feats = Inr ests'" "get_sse_and_num F ests' classes = Inr err"
      "forest_loop n d F T classes feats mm (i + 1) ests' (c\<lparr>gc_ps_key_ptr := ptr, gc_forest := gc_forest c @ [t]\<rparr>, m1) = Some (Inr (errs', out))"
      "errs = err # errs'"
  using assms
  by (auto simp: Let_def build_tree_def res_simps split: if_splits sum.splits option.splits prod.splits)

section \<open>The estimators are the predictions\<close>

lemma update_estimator_vect_nth:
  assumes "update_estimator_vect F t ests feats = Inr ests'"
  shows "length ests' = length ests" "i < length ests \<Longrightarrow> \<exists>row v. feat_vect_by_row feats i = Inr row \<and> tree_predict F row t = Inr v
    \<and> ests' ! i = fl_add F (ests ! i) v"
  using assms unfolding update_estimator_vect_def map_res_Inr_iff
  by (auto simp: list_all2_conv_all_nth res_simps)

lemma forest_loop_predicts:
  assumes "forest_loop n d F T classes feats mm i ests (c, m) = Some (Inr (errs, ests', c', m'))"
    and "\<And>j. j < length ests \<Longrightarrow> bind_res (feat_vect_by_row feats j) (controller_predict F c) = Inr (ests ! j)"
    and "\<And>j. j < length ests \<Longrightarrow> \<exists>row. feat_vect_by_row feats j = Inr row"
  shows "length ests' = length ests \<and> (\<forall>j < length ests. bind_res (feat_vect_by_row feats j) (controller_predict F c') = Inr (ests' ! j))
    \<and> length (gc_forest c') = length (gc_forest c) + length errs"
  using assms
proof (induction n arbitrary: i ests c m errs)
  case (Suc n)
  from Suc.prems(1) show ?case
  proof (cases rule: forest_loop_round)
    case stop
    then show ?thesis using Suc.prems(2) by simp
  next
    case (round loss grad hess t ptr m1 ests1 err errs')
    let ?c = "c\<lparr>gc_ps_key_ptr := ptr, gc_forest := gc_forest c @ [t]\<rparr>"
    note upd = update_estimator_vect_nth[OF round(6)]
    have "bind_res (feat_vect_by_row feats j) (controller_predict F ?c) = Inr (ests1 ! j)" if j: "j < length ests1" for j
    proof -
      obtain row v where row: "feat_vect_by_row feats j = Inr row" "tree_predict F row t = Inr v" "ests1 ! j = fl_add F (ests ! j) v"
        using upd(2)[of j] j upd(1) by auto
      then have "controller_predict F c row = Inr (ests ! j)" using Suc.prems(2)[of j] j upd(1) by simp
      then show ?thesis using row by (simp add: controller_predict_def fold_res_append)
    qed
    from Suc.IH[OF round(8) this] show ?thesis
      using upd(1) round(9) Suc.prems(3) by auto
  qed
qed simp

text \<open>C29. The estimators that training keeps for its rows are what \<open>predict\<close> computes for them with the
  finished forest, value for value, rounding included; there is one tree for each error logged.\<close>

theorem estimators_are_predictions:
  assumes "build_forest n d F T classes feats min_max (c, m) = Some (Inr (errs, ests, c', m'))"
    and "gc_forest c = []" "\<forall>col \<in> set feats. length classes \<le> length col"
  shows "length ests = length classes \<and> length (gc_forest c') = length errs
    \<and> (\<forall>j < length classes. controller_predict F c' (map (\<lambda>col. col ! j) feats) = Inr (ests ! j))"
proof -
  have row: "feat_vect_by_row feats j = Inr (map (\<lambda>col. col ! j) feats)" if "j < length classes" for j
    by (rule feat_vect_by_row_ok) (use assms(3) that in fastforce)
  have "length ests = length classes \<and> length (gc_forest c') = length errs
    \<and> (\<forall>j < length classes. bind_res (feat_vect_by_row feats j) (controller_predict F c') = Inr (ests ! j))"
    using forest_loop_predicts[OF assms(1)[unfolded build_forest_def]] row assms(2) by (simp add: controller_predict_def)
  then show ?thesis using row by auto
qed

section \<open>Building ends\<close>

lemma forest_loop_ends:
  assumes le: "\<And>k. 0 \<le> k \<Longrightarrow> fl_le F (fl_int F D) (fl_int F k) \<longleftrightarrow> D \<le> k" and lt: "\<And>k. 0 \<le> k \<Longrightarrow> fl_lt F (fl_int F k) (fl_int F N) \<longleftrightarrow> k < N"
    and "param F (gc_params c) ''max_depth'' = fl_int F D" "param F (gc_params c) ''num_of_trees'' = fl_int F N" "0 \<le> i" "nat (N - i) < n" "nat D < d"
  shows "forest_loop n d F T classes feats mm i ests (c, m) \<noteq> None
    \<and> forest_loop n d F T classes feats mm i ests (c, m) = forest_loop (Suc (nat (N - i))) (Suc (nat D)) F T classes feats mm i ests (c, m)"
  using assms(3-)
proof (induction n arbitrary: i ests c m)
  case (Suc n)
  have child: "train d F T p mm (create_tree F c) s \<noteq> None \<and> train d F T p mm (create_tree F c) s = train (Suc (nat D)) F T p mm (create_tree F c) s" for p s
  proof -
    have "depth_left D (create_tree F c) = nat D" "0 \<le> nd_depth (create_tree F c)" "nd_params (create_tree F c) = gc_params c"
      by (simp_all add: depth_left_def create_tree_def node_new_def)
    moreover have "train d F T p mm (create_tree F c) s \<noteq> None
        \<and> train d F T p mm (create_tree F c) s = train (Suc (depth_left D (create_tree F c))) F T p mm (create_tree F c) s"
      by (rule train_enough_fuel[OF le]) (use calculation Suc.prems(1,5) in simp_all)
    ultimately show ?thesis by metis
  qed
  have build: "build_tree d F T p mm (c, m) \<noteq> None" "build_tree d F T p mm (c, m) = build_tree (Suc (nat D)) F T p mm (c, m)" for p
    using child unfolding build_tree_def by (simp_all only: prod.case option.map_disc_iff not_False_eq_True, metis)
  have keeps: "gc_params c1 = gc_params c" if "build_tree (Suc (nat D)) F T p mm (c, m) = Some (Inr (t, c1, m1))" for p t c1 m1
    using that by (auto simp: build_tree_def res_simps split: prod.splits)
  show ?case
  proof (cases "i < N")
    case True
    then have d1: "nat (N - i) = Suc (nat (N - (i + 1)))" by simp
    have IH: "forest_loop n d F T classes feats mm (i + 1) ests (c1, m1) \<noteq> None
        \<and> forest_loop n d F T classes feats mm (i + 1) ests (c1, m1) = forest_loop (nat (N - i)) (Suc (nat D)) F T classes feats mm (i + 1) ests (c1, m1)"
      if "gc_params c1 = gc_params c" for ests c1 m1
      unfolding d1 by (rule Suc.IH) (use Suc.prems True that in simp_all)
    have some: "build_tree (Suc (nat D)) F T p mm (c, m) \<noteq> None" for p using build[of p] by metis
    have IH2: "forest_loop (nat (N - i)) (Suc (nat D)) F T classes feats mm (i + 1) ests (c1, m1) \<noteq> None"
      if "gc_params c1 = gc_params c" for ests c1 m1 using IH[OF that, of ests m1] by metis
    show ?thesis
      using True by (auto simp: Suc.prems lt Let_def build(2) some IH[THEN conjunct2] IH2[unfolded not_None_eq] split: sum.split option.split dest!: keeps)
  qed (simp add: Suc.prems lt)
qed simp

text \<open>C30. Building a forest ends: with \<open>num_of_trees\<close> and \<open>max_depth\<close> integers \<open>N\<close> and \<open>D\<close>, fuel above \<open>N\<close> for the
  trees and above \<open>D\<close> for their depth gives a result, a forest or a failure, and always the same.\<close>

theorem building_ends:
  assumes "\<And>k. 0 \<le> k \<Longrightarrow> fl_le F (fl_int F D) (fl_int F k) \<longleftrightarrow> D \<le> k" "\<And>k. 0 \<le> k \<Longrightarrow> fl_lt F (fl_int F k) (fl_int F N) \<longleftrightarrow> k < N"
    and "param F ps ''max_depth'' = fl_int F D" "param F ps ''num_of_trees'' = fl_int F N"
  shows "\<exists>r. \<forall>n > nat N. \<forall>d > nat D. build_forest n d F T classes feats mm (controller_init F options ps c, m) = Some r"
proof -
  let ?c = "controller_init F options ps c" and ?ests = "replicate (length classes) (gc_init_estimator (controller_init F options ps c))"
  have "gc_params ?c = ps" by (simp add: controller_init_def)
  then have "forest_loop n d F T classes feats mm 0 ?ests (?c, m) \<noteq> None
    \<and> forest_loop n d F T classes feats mm 0 ?ests (?c, m) = forest_loop (Suc (nat (N - 0))) (Suc (nat D)) F T classes feats mm 0 ?ests (?c, m)"
    if "nat N < n" "nat D < d" for n d
    by (intro forest_loop_ends[OF assms(1,2)]) (use assms(3,4) that in simp_all)
  then show ?thesis unfolding build_forest_def fst_conv by (metis not_None_eq)
qed

section \<open>Boosting never worsens the training error\<close>

definition sse_of :: "'f::linordered_field list \<Rightarrow> 'f list \<Rightarrow> 'f" where
  "sse_of classes ests = (\<Sum>i\<leftarrow>[0..<length classes]. (classes ! i - ests ! i)\<^sup>2)"

lemma squared_errors_exact:
  assumes "exact_fl F"
  shows "squared_errors F xs ys acc = Inr s \<Longrightarrow> s = acc + (\<Sum>i\<leftarrow>[0..<length xs]. (ys ! i - xs ! i)\<^sup>2)"
proof (induction xs arbitrary: ys acc)
  case (Cons x xs)
  then obtain y zs where ys: "ys = y # zs" by (cases ys) auto
  have "s = acc + (x - y) * (x - y) + (\<Sum>i\<leftarrow>[0..<length xs]. (zs ! i - xs ! i)\<^sup>2)"
    using Cons.prems assms by (intro Cons.IH) (simp add: ys exact_fl_def Let_def)
  moreover have "[0..<length (x # xs)] = 0 # map Suc [0..<length xs]" by (simp only: length_Cons map_Suc_upt upt_conv_Cons zero_less_Suc)
  ultimately show ?case by (simp add: ys comp_def power2_eq_square algebra_simps del: upt_Suc)
qed simp

lemma get_gradient_vect_nth:
  assumes "get_gradient_vect F classes ests loss order = Inr grad"
  shows "length grad = length classes" "i < length classes \<Longrightarrow> grad ! i = calculate_gradient F (classes ! i) (ests ! i) loss order"
  using assms unfolding get_gradient_vect_def map_res_Inr_iff
  by (auto simp: list_all2_conv_all_nth res_simps vec_at_def split: if_splits)

lemma round_improves:
  fixes T :: "('f::linordered_field, 'm) kv_ops"
  assumes tab: "exact_table T cells ok" and exact: "exact_fl F" "ok m" "cells m = (\<lambda>_. 0)"
    and g: "get_gradient_vect F classes ests ''square_error'' 1 = Inr grad" and h: "get_gradient_vect F classes ests ''square_error'' 2 = Inr hess"
    and t: "train d F T \<lparr>pt_grad = grad, pt_hess = hess, pt_feats = feats\<rparr> mm (node_new F ps) (0, m) = Some (Inr (t, ptr, m'))"
    and u: "update_estimator_vect F t ests feats = Inr ests'" and n: "length ests = length classes" "\<forall>col \<in> set feats. length col = length classes"
    and room: "keys_of_params F ps (length feats) + 2 \<le> 4294967296"
  shows "sse_of classes ests' \<le> sse_of classes ests"
proof -
  let ?p = "\<lparr>pt_grad = grad, pt_hess = hess, pt_feats = feats\<rparr>" and ?row = "\<lambda>i. map (\<lambda>col. col ! i) feats"
  have "part_ok ?p" using get_gradient_vect_nth(1)[OF g] get_gradient_vect_nth(1)[OF h] n(2) by (simp add: part_ok_def)
  then have fit: "fits (rows_of ?p) (leaf_val F t)"
    by (rule train_fits[OF tab exact(1) t]) (use room exact(2,3) in \<open>simp_all add: fresh_node_def node_new_def\<close>)
  have grad: "grad ! i = classes ! i - ests ! i" if "i < length classes" for i
    using get_gradient_vect_nth(2)[OF g that] exact(1) by (simp add: calculate_gradient_def exact_fl_def)
  have upd: "ests' ! i = ests ! i + leaf_val F t (?row i)" if i: "i < length classes" for i
  proof -
    have "feat_vect_by_row feats i = Inr (?row i)" by (rule feat_vect_by_row_ok) (use n(2) i in simp)
    then show ?thesis using update_estimator_vect_nth(2)[OF u, of i] i n(1) exact(1) by (auto simp: leaf_val_def exact_fl_def)
  qed
  have len: "length (pt_grad ?p) = length classes" using get_gradient_vect_nth(1)[OF g] by simp
  have "sse_of classes ests' = (\<Sum>i\<leftarrow>[0..<length classes]. (grad ! i - leaf_val F t (?row i))\<^sup>2)"
    unfolding sse_of_def by (intro arg_cong[where f = sum_list] map_cong refl) (simp add: upd grad algebra_simps)
  also have "\<dots> = (\<Sum>(g, h, row)\<leftarrow>rows_of ?p. (g - leaf_val F t row)\<^sup>2)"
    unfolding rows_of_def len by (simp add: row_of_def comp_def)
  also have "\<dots> \<le> (\<Sum>(g, h, row)\<leftarrow>rows_of ?p. g\<^sup>2)" using fit by (simp add: fits_def)
  also have "\<dots> = (\<Sum>i\<leftarrow>[0..<length classes]. (grad ! i)\<^sup>2)"
    unfolding rows_of_def len by (simp add: row_of_def comp_def)
  also have "\<dots> = sse_of classes ests"
    unfolding sse_of_def by (intro arg_cong[where f = sum_list] map_cong refl) (simp add: grad)
  finally show ?thesis .
qed

lemma forest_loop_improves:
  fixes T :: "('f::linordered_field, 'm) kv_ops"
  assumes tab: "exact_table T cells ok" and exact: "exact_fl F"
    and "forest_loop n d F T classes feats mm i ests (c, m) = Some (Inr (errs, out))"
    and "ok m" "cells m = (\<lambda>_. 0)" "gc_ps_key_ptr c = 0" "om_get (gc_options c) ''loss_function'' = Some ''square_error''"
    and "length ests = length classes" "\<forall>col \<in> set feats. length col = length classes"
    and "keys_of_params F (gc_params c) (length feats) + 2 \<le> 4294967296"
  shows "sorted_wrt (\<ge>) (sse_of classes ests # map fst errs)"
  using assms(3-)
proof (induction n arbitrary: i ests c m errs)
  case (Suc n)
  from Suc.prems(1) show ?case
  proof (cases rule: forest_loop_round)
    case (round loss grad hess t ptr m1 ests1 err errs')
    have loss: "loss = ''square_error''" by (simp add: round(1) Suc.prems(5))
    note tr = round(5)[unfolded create_tree_def Suc.prems(4)]
    have better: "sse_of classes ests1 \<le> sse_of classes ests"
      by (rule round_improves[OF tab exact Suc.prems(2,3) round(3,4)[unfolded loss] tr round(6) Suc.prems(6,7,8)])
    have m1: "ok m1 \<and> cells m1 = cells m"
      by (rule exact_table.train_restores[OF tab tr]) (use exact Suc.prems(2) in \<open>simp_all add: exact_fl_def fresh_node_def node_new_def\<close>)
    have "length grad = length classes" "length hess = length classes" using get_gradient_vect_nth(1) round(3,4) by metis+
    then have "part_ok \<lparr>pt_grad = grad, pt_hess = hess, pt_feats = feats\<rparr>" using Suc.prems(7) by (simp add: part_ok_def)
    then have ptr: "ptr = 0" using train_tree_ok[OF tr] by (simp add: node_new_def)
    have len: "length ests1 = length classes" using update_estimator_vect_nth(1)[OF round(6)] Suc.prems(6) by simp
    have "sorted_wrt (\<ge>) (sse_of classes ests1 # map fst errs')"
      by (rule Suc.IH[OF round(8)]) (use m1 ptr len Suc.prems in simp_all)
    moreover have "fst err = sse_of classes ests1"
      using round(7) squared_errors_exact[OF exact, of ests1 classes 0] exact len
      by (auto simp: get_sse_and_num_def sse_of_def exact_fl_def res_simps)
    moreover have "transp ((\<ge>) :: 'f \<Rightarrow> 'f \<Rightarrow> bool)" by (auto simp: transp_def)
    ultimately show ?thesis using better by (simp add: round(9) sorted_wrt2_simps del: sorted_wrt.simps)
  qed simp
qed simp


section \<open>A run\<close>

definition demo_controller :: "rat controller" where
  "demo_controller = controller_init rat_fl [(''loss_function'', ''square_error'')] demo_params (controller_new 5)"

lemma demo_controller_simps:
  "gc_params demo_controller = demo_params" "gc_options demo_controller = [(''loss_function'', ''square_error'')]"
  "gc_ps_key_ptr demo_controller = 0" "gc_init_estimator demo_controller = 0" "gc_forest demo_controller = []"
  by (simp_all add: demo_controller_def controller_init_def controller_new_def rat_fl_def)

lemma demo_forest:
  "\<exists>c. build_forest 2 2 rat_fl array_table [1, 7, 8] [[0, 2, 2]] demo_min_max (demo_controller, demo_zeros)
     = Some (Inr ([(1 / 2, 3)], [1, 15 / 2, 15 / 2], c, demo_zeros))"
proof -
  obtain t where t: "train 2 rat_fl array_table demo_data demo_min_max (node_new rat_fl demo_params) (0, demo_zeros) = Some (Inr (t, 0, demo_zeros))"
    and v: "tree_predict rat_fl [0] t = Inr 1" "tree_predict rat_fl [2] t = Inr (15 / 2)" using demo_training by blast
  let ?c = "demo_controller\<lparr>gc_ps_key_ptr := 0\<rparr>"
  have more: "fl_lt rat_fl (fl_int rat_fl 0) (param rat_fl demo_params ''num_of_trees'')" "\<not> fl_lt rat_fl (fl_int rat_fl 1) (param rat_fl demo_params ''num_of_trees'')"
    by (simp_all add: rat_fl_def param_def demo_params_def)
  have g: "get_gradient_vect rat_fl [1, 7, 8] [0, 0, 0] ''square_error'' 1 = Inr [1, 7, 8]"
    "get_gradient_vect rat_fl [1, 7, 8] [0, 0, 0] ''square_error'' 2 = Inr [1, 1, 1]" by code_simp+
  have b: "build_tree 2 rat_fl array_table \<lparr>pt_grad = [1, 7, 8], pt_hess = [1, 1, 1], pt_feats = [[0, 2, 2]]\<rparr> demo_min_max (demo_controller, demo_zeros)
      = Some (Inr (t, ?c, demo_zeros))"
    using t by (simp add: build_tree_def create_tree_def demo_controller_simps demo_data_def del: train.simps)
  have u: "update_estimator_vect rat_fl t [0, 0, 0] [[0, 2, 2]] = Inr [1, 15 / 2, 15 / 2]"
    by (simp add: update_estimator_vect_def feat_vect_by_row_def vec_at_def v upt_rec[of _ "Suc (Suc (Suc 0))"] numeral_3_eq_3)
      (simp add: rat_fl_def)
  have e: "get_sse_and_num rat_fl [1, 15 / 2, 15 / 2] [1, 7, 8] = Inr (1 / 2, 3)" by code_simp
  have "forest_loop (Suc (Suc 0)) 2 rat_fl array_table [1, 7, 8] [[0, 2, 2]] demo_min_max 0 [0, 0, 0] (demo_controller, demo_zeros)
      = Some (Inr ([(1 / 2, 3)], [1, 15 / 2, 15 / 2], ?c\<lparr>gc_forest := [t]\<rparr>, demo_zeros))"
    by (simp add: demo_controller_simps more g b u e Let_def)
  then show ?thesis by (auto simp: build_forest_def demo_controller_simps numeral_2_eq_2 numeral_3_eq_3)
qed

theorem estimators_are_predictions_witness:
  "\<exists>c m. build_forest 2 2 rat_fl array_table [1, 7, 8] [[0, 2, 2]] demo_min_max (demo_controller, demo_zeros)
      = Some (Inr ([(1 / 2, 3)], [1, 15 / 2, 15 / 2], c, m)) \<and> controller_predict rat_fl c [2] = Inr (15 / 2) \<and> length (gc_forest c) = 1"
proof -
  obtain c where c: "build_forest 2 2 rat_fl array_table [1, 7, 8] [[0, 2, 2]] demo_min_max (demo_controller, demo_zeros)
      = Some (Inr ([(1 / 2, 3)], [1, 15 / 2, 15 / 2], c, demo_zeros))" using demo_forest by blast
  note p = estimators_are_predictions[OF c demo_controller_simps(5)]
  have "controller_predict rat_fl c [2] = Inr (15 / 2) \<and> length (gc_forest c) = 1" using p[THEN conjunct2, THEN conjunct2, rule_format, of 1] p by simp
  then show ?thesis using c by blast
qed

theorem building_ends_witness:
  "\<exists>r. build_forest 3 2 rat_fl array_table [1, 7, 8] [[0, 2, 2]] demo_min_max (demo_controller, demo_zeros) = Some r
     \<and> build_forest 9 9 rat_fl array_table [1, 7, 8] [[0, 2, 2]] demo_min_max (demo_controller, demo_zeros) = Some r"
proof -
  have "param rat_fl demo_params ''max_depth'' = fl_int rat_fl 1" "param rat_fl demo_params ''num_of_trees'' = fl_int rat_fl 1"
    by (simp_all add: rat_fl_def param_def demo_params_def)
  from building_ends[OF _ _ this, of array_table "[1, 7, 8]" "[[0, 2, 2]]" demo_min_max "[(''loss_function'', ''square_error'')]" "controller_new 5" demo_zeros]
  show ?thesis unfolding demo_controller_def by (auto simp: rat_fl_def)
qed


end
