(* ===== verification/Gbdt_Balance.thy ===== *)
theory Gbdt_Balance
  imports Gbdt_Data "HOL-Library.Multiset"
begin

text \<open>
  \<open>examples2/gbdt/src/channel_util.hpp\<close>: the nodes, one thread of a channel on each, even out their
  records and find the global minimum and maximum of each feature.  Between two \<open>SyncAndGet\<close> every
  node acts alone, so a round is a function of all the nodes; what a node receives are the streams
  pushed to its id, in an order \<open>order\<close> that the network chooses.  A stream is the list of the
  vectors written to it.
\<close>

section \<open>A round of the channel\<close>

definition exchange :: "(nat \<Rightarrow> 'b list \<Rightarrow> 'b list) \<Rightarrow> nat \<Rightarrow> (int \<times> 'b) list \<Rightarrow> 'b list list res" where
  "exchange order n pushes =
     check_that (list_all (\<lambda>(i, _). 0 \<le> i \<and> i < int n) pushes) (Check_failed ''num_global_threads_'')
       (Inr (map (\<lambda>j. order j (map snd (filter (\<lambda>(i, _). i = int j) pushes))) [0..<n]))"

section \<open>The plan of node 0\<close>

definition report_of :: "nat \<Rightarrow> 'f data_loader \<Rightarrow> int list" where
  "report_of i dl = [int i, int (length (dl_class dl))]"

fun read_reports :: "int list list \<Rightarrow> (int, int) omap \<times> int \<times> int \<Rightarrow> ((int, int) omap \<times> int \<times> int) res" where
  "read_reports [] s = Inr s"
| "read_reports (r # rs) (m, tot, cnt) =
     bind_res (vec_at r 0) (\<lambda>i. bind_res (vec_at r 1) (\<lambda>num. bind_res (as_i32 (tot + num)) (\<lambda>tot.
       read_reports rs (om_set i num m, tot, cnt + 1))))"

definition surpluses :: "int \<Rightarrow> (int, int) omap \<Rightarrow> (int \<times> int) list" where
  "surpluses avg m = map (\<lambda>(i, n). (i, n - avg)) (filter (\<lambda>(_, n). 0 < n - avg) m)"

definition shortages :: "int \<Rightarrow> (int, int) omap \<Rightarrow> (int \<times> int) list" where
  "shortages avg m = map (\<lambda>(i, n). (i, - (n - avg))) (filter (\<lambda>(_, n). n - avg < 0) m)"

text \<open>An instruction is a list of pairs: to which node, how many.\<close>

type_synonym plan = "(int, int list) omap"

definition add_instruction :: "int \<Rightarrow> int \<Rightarrow> int \<Rightarrow> plan \<Rightarrow> plan" where
  "add_instruction from to k plan =
     (case om_get plan from of None \<Rightarrow> om_set from [to, k] plan | Some v \<Rightarrow> om_set from (v @ [to, k]) plan)"

fun hand_out :: "int \<Rightarrow> int \<Rightarrow> (int \<times> int) list \<Rightarrow> plan \<Rightarrow> int \<times> (int \<times> int) list \<times> plan" where
  "hand_out from avail [] plan = (avail, [], plan)"
| "hand_out from avail ((to, need) # rest) plan =
     (if need = 0 \<or> from = to then
        (let (avail, rest, plan) = hand_out from avail rest plan in (avail, (to, need) # rest, plan))
      else
        let k = (if need < avail then need else avail);
            (need, avail, plan) = (if 0 < k then (need - k, avail - k, add_instruction from to k plan) else (need, avail, plan))
        in if avail \<le> 0 then (avail, (to, need) # rest, plan)
           else (let (avail, rest, plan) = hand_out from avail rest plan in (avail, (to, need) # rest, plan)))"

fun make_plan :: "(int \<times> int) list \<Rightarrow> (int \<times> int) list \<Rightarrow> plan \<Rightarrow> plan" where
  "make_plan [] needs plan = plan"
| "make_plan ((from, avail) # rest) needs plan =
     (if avail = 0 then make_plan rest needs plan
      else let (_, needs, plan) = hand_out from avail needs plan in make_plan rest needs plan)"

definition balance_plan :: "int list list \<Rightarrow> (int \<times> plan) res" where
  "balance_plan reports =
     bind_res (read_reports reports ([], 0, 0)) (\<lambda>(m, tot, cnt).
       check_that (cnt \<noteq> 0) Div_by_zero
         (let avg = (if 0 \<le> tot then tot div cnt else - ((- tot) div cnt))
          in Inr (tot, make_plan (surpluses avg m) (shortages avg m) [])))"

section \<open>Giving and taking\<close>

text \<open>\<open>amount\<close> times \<open>pop\<close>, each record written to the stream.\<close>

fun pop_many :: "nat \<Rightarrow> 'f data_loader \<Rightarrow> 'f list list \<times> 'f data_loader" where
  "pop_many 0 dl = ([], dl)"
| "pop_many (Suc n) dl = (let (v, dl) = dl_pop dl; (vs, dl) = pop_many n dl in (v # vs, dl))"

fun give_out :: "int list \<Rightarrow> 'f data_loader \<Rightarrow> ((int \<times> 'f list list) list \<times> 'f data_loader) res" where
  "give_out [] dl = Inr ([], dl)"
| "give_out [to] dl = Inl Out_of_bounds"
| "give_out (to # amount # rest) dl =
     (let (vs, dl) = pop_many (nat amount) dl
      in bind_res (give_out rest dl) (\<lambda>(pushes, dl). Inr ((to, vs) # pushes, dl)))"

fun give_all :: "int list list \<Rightarrow> 'f data_loader \<Rightarrow> ((int \<times> 'f list list) list \<times> 'f data_loader) res" where
  "give_all [] dl = Inr ([], dl)"
| "give_all (msg # msgs) dl =
     bind_res (give_out msg dl) (\<lambda>(pushes, dl). bind_res (give_all msgs dl) (\<lambda>(rest, dl). Inr (pushes @ rest, dl)))"

definition take_in :: "'f list list list \<Rightarrow> 'f data_loader \<Rightarrow> 'f data_loader" where
  "take_in streams dl = fold (\<lambda>stream dl. fold dl_push stream dl) streams dl"

definition last_global :: "int list list \<Rightarrow> int \<Rightarrow> int res" where
  "last_global msgs old = fold_res (\<lambda>msg _. vec_at msg 0) msgs old"

text \<open>The four rounds.  Node 0 plans; the order of arrival of the rounds is \<open>order 0\<close> to \<open>order 3\<close>.\<close>

definition balance_data ::
  "(nat \<Rightarrow> nat \<Rightarrow> int list list \<Rightarrow> int list list) \<Rightarrow> (nat \<Rightarrow> 'f list list list \<Rightarrow> 'f list list list)
    \<Rightarrow> (nat \<Rightarrow> int) \<Rightarrow> 'f data_loader list \<Rightarrow> ('f data_loader list \<times> int list) res"
where
  "balance_data order order2 old dls =
     (let n = length dls in
      bind_res (exchange (order 0) n (map (\<lambda>i. (0, report_of i (dls ! i))) [0..<n])) (\<lambda>reports.
      bind_res (bind_res (vec_at reports 0) balance_plan) (\<lambda>(global, plan).
      bind_res (exchange (order 1) n plan) (\<lambda>instrs.
      bind_res (map_res (\<lambda>i. give_all (instrs ! i) (dls ! i)) [0..<n]) (\<lambda>given.
      bind_res (exchange order2 n (concat (map fst given))) (\<lambda>streams.
      bind_res (exchange (order 3) n (map (\<lambda>i. (int i, [global])) [0..<n])) (\<lambda>msgs.
      bind_res (map_res (\<lambda>i. last_global (msgs ! i) (if i = 0 then global else old i)) [0..<n]) (\<lambda>globals.
        Inr (map (\<lambda>i. take_in (streams ! i) (snd (given ! i))) [0..<n], globals)))))))))"

section \<open>What a plan moves\<close>

fun pairs :: "int list \<Rightarrow> (int \<times> int) list" where
  "pairs (to # k # rest) = (to, k) # pairs rest"
| "pairs _ = []"

definition sent_to :: "int \<Rightarrow> int list \<Rightarrow> int" where
  "sent_to j msg = (\<Sum>(to, k)\<leftarrow>pairs msg. if to = j then k else 0)"

definition sent_all :: "int list \<Rightarrow> int" where
  "sent_all msg = sum_list (map snd (pairs msg))"

definition flow_out :: "plan \<Rightarrow> int \<Rightarrow> int" where
  "flow_out plan i = sent_all (get_or [] (om_get plan i))"

definition flow_in :: "plan \<Rightarrow> int \<Rightarrow> int" where
  "flow_in plan j = om_weight (sent_to j) plan"

definition instr_ok :: "int set \<Rightarrow> int list \<Rightarrow> bool" where
  "instr_ok S msg \<longleftrightarrow> even (length msg) \<and> (\<forall>(to, k) \<in> set (pairs msg). to \<in> S \<and> 0 < k)"

definition plan_ok :: "int set \<Rightarrow> int set \<Rightarrow> plan \<Rightarrow> bool" where
  "plan_ok R S plan \<longleftrightarrow> om_wf plan \<and> (\<forall>(from, msg) \<in> set plan. from \<in> R \<and> instr_ok S msg)"

lemma pairs_snoc: "even (length msg) \<Longrightarrow> pairs (msg @ [to, k]) = pairs msg @ [(to, k)]"
  by (induction msg rule: pairs.induct) simp_all

lemma sent_simps [simp]: "sent_to j [] = 0" "sent_all [] = 0"
  by (simp_all add: sent_to_def sent_all_def)

lemma sent_snoc:
  assumes "even (length msg)"
  shows "sent_to j (msg @ [to, k]) = sent_to j msg + (if to = j then k else 0)" "sent_all (msg @ [to, k]) = sent_all msg + k"
  using pairs_snoc[OF assms] by (simp_all add: sent_to_def sent_all_def)

lemma add_instruction_eq: "add_instruction from to k plan = om_set from (get_or [] (om_get plan from) @ [to, k]) plan"
  by (simp add: add_instruction_def split: option.split)

lemma plan_ok_get: "plan_ok R S plan \<Longrightarrow> instr_ok S (get_or [] (om_get plan from))"
proof (cases "om_get plan from")
  case (Some msg)
  assume "plan_ok R S plan"
  then show ?thesis using om_get_Some_mem[OF Some] by (auto simp: plan_ok_def Some)
qed (simp add: instr_ok_def)

lemma add_instruction_ok:
  assumes "plan_ok R S plan" "from \<in> R" "to \<in> S" "0 < k"
  shows "plan_ok R S (add_instruction from to k plan)"
    "flow_out (add_instruction from to k plan) i = flow_out plan i + (if i = from then k else 0)"
    "flow_in (add_instruction from to k plan) j = flow_in plan j + (if j = to then k else 0)"
proof -
  let ?old = "get_or [] (om_get plan from)" and ?new = "get_or [] (om_get plan from) @ [to, k]"
  have old: "instr_ok S ?old" by (rule plan_ok_get[OF assms(1)])
  then have ev: "even (length ?old)" by (simp add: instr_ok_def)
  have new: "instr_ok S ?new" using old assms(3,4) pairs_snoc[OF ev] by (auto simp: instr_ok_def)
  have wf: "om_wf plan" using assms(1) by (simp add: plan_ok_def)
  have get: "f \<in> R \<and> instr_ok S msg" if "om_get plan f = Some msg" for f msg
    using om_get_Some_mem[OF that] assms(1) by (auto simp: plan_ok_def)
  show "plan_ok R S (add_instruction from to k plan)"
    unfolding plan_ok_def add_instruction_eq
  proof (intro conjI ballI)
    show "om_wf (om_set from ?new plan)" using wf by simp
    fix p assume "p \<in> set (om_set from ?new plan)"
    then have "om_get (om_set from ?new plan) (fst p) = Some (snd p)" using om_mem_iff[of "om_set from ?new plan" "fst p" "snd p"] wf by (simp del: om_get_set)
    then show "case p of (from, msg) \<Rightarrow> from \<in> R \<and> instr_ok S msg"
      using assms(2) new get by (auto split: if_splits)
  qed
  show "flow_out (add_instruction from to k plan) i = flow_out plan i + (if i = from then k else 0)"
    by (simp add: flow_out_def add_instruction_eq sent_snoc(2)[OF ev])
  show "flow_in (add_instruction from to k plan) j = flow_in plan j + (if j = to then k else 0)"
    using om_weight_set[OF wf, of "sent_to j" "[]" "from" ?new] by (simp add: flow_in_def add_instruction_eq sent_snoc(1)[OF ev])
qed


text \<open>The amounts still needed only fall, each by what the plan sends there; and the giver runs out or nobody needs more.\<close>

definition needed :: "(int \<times> int) list \<Rightarrow> int \<Rightarrow> int" where
  "needed needs j = get_or 0 (om_get needs j)"

definition total_of :: "(int \<times> int) list \<Rightarrow> int" where
  "total_of xs = sum_list (map snd xs)"

lemma total_of_simps [simp]: "total_of [] = 0" "total_of ((i, n) # xs) = n + total_of xs"
  by (simp_all add: total_of_def)

lemma needed_simps [simp]: "needed [] j = 0" "needed ((i, n) # xs) j = (if j = i then n else needed xs j)"
  by (simp_all add: needed_def)

lemma needed_outside: "j \<notin> fst ` set needs \<Longrightarrow> needed needs j = 0"
  using map_of_eq_None_iff[of needs j] by (simp add: needed_def)

definition nonneg :: "(int \<times> int) list \<Rightarrow> bool" where
  "nonneg xs \<longleftrightarrow> (\<forall>(i, n) \<in> set xs. 0 \<le> n)"

lemma nonneg_simps [simp]: "nonneg []" "nonneg ((i, n) # xs) \<longleftrightarrow> 0 \<le> n \<and> nonneg xs"
  by (auto simp: nonneg_def)

lemma hand_out_ok:
  assumes "hand_out from avail needs plan = (avail', needs', plan')"
    and "distinct (map fst needs)" "nonneg needs" "0 < avail" "from \<notin> fst ` set needs" "from \<in> R" "fst ` set needs \<subseteq> S" "plan_ok R S plan"
  shows "plan_ok R S plan' \<and> map fst needs' = map fst needs \<and> nonneg needs' \<and> 0 \<le> avail' \<and> avail' \<le> avail
    \<and> avail - avail' = total_of needs - total_of needs' \<and> (avail' = 0 \<or> total_of needs' = 0)
    \<and> (\<forall>i. flow_out plan' i = flow_out plan i + (if i = from then avail - avail' else 0))
    \<and> (\<forall>j. flow_in plan' j + needed needs' j = flow_in plan j + needed needs j)"
  using assms
proof (induction needs arbitrary: avail plan avail' needs' plan')
  case (Cons p rest)
  obtain to need where p: "p = (to, need)" by (cases p)
  note pre = Cons.prems[unfolded p]
  have ne: "from \<noteq> to" using pre(5) by auto
  have d: "distinct (map fst rest)" "nonneg rest" "from \<notin> fst ` set rest" "fst ` set rest \<subseteq> S" "to \<notin> fst ` set rest" "0 \<le> need" "to \<in> S"
    using pre(2,3,5,7) by auto
  have z: "needed rest to = 0" "map fst xs = map fst rest \<Longrightarrow> needed xs to = 0" for xs
    using d(5) needed_outside by (metis list.set_map)+
  show ?case
  proof (cases "need = 0")
    case True
    then obtain needs1 where h: "hand_out from avail rest plan = (avail', needs1, plan')" "needs' = (to, need) # needs1"
      using pre(1) by (auto split: prod.splits)
    note IH = Cons.IH[OF h(1) d(1,2) pre(4) d(3) pre(6) d(4) pre(8)]
    then have "flow_in plan' to + needed needs1 to = flow_in plan to + needed rest to" by blast
    then show ?thesis using IH True z(1) z(2)[of needs1] by (auto simp: p h(2))
  next
    case False
    define k where "k = (if need < avail then need else avail)"
    have k: "0 < k" "k \<le> need" "k \<le> avail" using False pre(4) d(6) by (auto simp: k_def)
    note add = add_instruction_ok[OF pre(8,6) d(7) k(1)]
    show ?thesis
    proof (cases "avail \<le> need")
      case True
      then have ka: "k = avail" by (simp add: k_def)
      have "avail' = 0 \<and> needs' = (to, need - k) # rest \<and> plan' = add_instruction from to k plan"
        using pre(1) True False ne pre(4) ka unfolding k_def by auto
      then show ?thesis
        using add k ka pre d z(1) by (auto simp: p)
    next
      case False2: False
      then have kn: "k = need" by (simp add: k_def)
      obtain needs1 where h: "hand_out from (avail - k) rest (add_instruction from to k plan) = (avail', needs1, plan')" "needs' = (to, need - k) # needs1"
        using pre(1) False2 False ne k kn by (auto simp: Let_def split: prod.splits if_splits)
      have "0 < avail - k" using False2 kn by simp
      note IH = Cons.IH[OF h(1) d(1,2) this d(3) pre(6) d(4) add(1)]
      then have "flow_in plan' to + needed needs1 to = flow_in (add_instruction from to k plan) to + needed rest to" by blast
      then show ?thesis using IH k kn add(2,3) z(1) z(2)[of needs1] by (auto simp: p h(2))
    qed
  qed
qed simp

lemma make_plan_ok:
  assumes "distinct (map fst sur)" "\<forall>(i, n) \<in> set sur. 0 < n" "fst ` set sur \<subseteq> R"
    and "distinct (map fst needs)" "nonneg needs" "fst ` set needs \<subseteq> S" "fst ` set sur \<inter> fst ` set needs = {}" "plan_ok R S plan"
  shows "\<exists>needs'. plan_ok R S (make_plan sur needs plan) \<and> map fst needs' = map fst needs \<and> nonneg needs'
    \<and> total_of needs' \<le> total_of needs \<and> (total_of needs' = 0 \<or> total_of needs - total_of needs' = total_of sur)
    \<and> (\<forall>i. flow_out plan i \<le> flow_out (make_plan sur needs plan) i
        \<and> flow_out (make_plan sur needs plan) i \<le> flow_out plan i + needed sur i)
    \<and> (\<forall>j. flow_in (make_plan sur needs plan) j + needed needs' j = flow_in plan j + needed needs j)"
  using assms
proof (induction sur arbitrary: needs plan)
  case Nil
  then show ?case by (intro exI[of _ needs]) simp
next
  case (Cons p rest)
  obtain i n where p: "p = (i, n)" by (cases p)
  note pre = Cons.prems[unfolded p]
  obtain n1 needs1 plan1 where h: "hand_out i n needs plan = (n1, needs1, plan1)" by (metis prod_cases3)
  have pr: "0 < n" "i \<notin> fst ` set needs" "i \<in> R" using pre by auto
  note one = hand_out_ok[OF h pre(4,5) pr pre(6,8)]
  have keys: "map fst needs1 = map fst needs" using one by simp
  then have set: "fst ` set needs1 = fst ` set needs" by (metis list.set_map)
  have mp: "make_plan ((i, n) # rest) needs plan = make_plan rest needs1 plan1" using pr(1) h by simp
  have q: "distinct (map fst rest)" "\<forall>(i, n) \<in> set rest. 0 < n" "fst ` set rest \<subseteq> R" "distinct (map fst needs1)" "nonneg needs1"
    "fst ` set needs1 \<subseteq> S" "fst ` set rest \<inter> fst ` set needs1 = {}" "plan_ok R S plan1" "i \<notin> fst ` set rest"
    using pre one keys unfolding set by auto
  let ?P = "make_plan rest needs1 plan1"
  obtain needs2 where two: "plan_ok R S ?P" "map fst needs2 = map fst needs1" "nonneg needs2"
    "total_of needs2 \<le> total_of needs1" "total_of needs2 = 0 \<or> total_of needs1 - total_of needs2 = total_of rest"
    "\<And>k. flow_out plan1 k \<le> flow_out ?P k \<and> flow_out ?P k \<le> flow_out plan1 k + needed rest k"
    "\<And>j. flow_in ?P j + needed needs2 j = flow_in plan1 j + needed needs1 j"
    using Cons.IH[OF q(1-8)] by blast
  have nn: "0 \<le> total_of needs2" using two(3) by (induction needs2) (auto simp: nonneg_def)
  have "flow_out plan k \<le> flow_out ?P k \<and> flow_out ?P k \<le> flow_out plan k + needed ((i, n) # rest) k" for k
    using two(6)[of k] one needed_outside[OF q(9)] by (auto split: if_splits)
  moreover have "flow_in ?P j + needed needs2 j = flow_in plan j + needed needs j" for j using two(7)[of j] one by simp
  moreover have "total_of needs2 = 0 \<or> total_of needs - total_of needs2 = total_of ((i, n) # rest)"
    using two(4,5) one nn by auto
  ultimately show ?case
    unfolding p mp using two(1-4) one keys by (intro exI[of _ needs2]) auto
qed

section \<open>The reports\<close>

lemma read_reports_ok:
  assumes "om_wf m" "distinct is" "\<forall>i \<in> set is. om_get m (int i) = None" "\<forall>i \<in> set is. 0 \<le> n i" "0 \<le> tot" "tot + sum_list (map n is) < 2147483648"
  shows "\<exists>m'. read_reports (map (\<lambda>i. [int i, n i]) is) (m, tot, cnt) = Inr (m', tot + sum_list (map n is), cnt + int (length is))
    \<and> om_wf m' \<and> (\<forall>k. om_get m' k = (if k \<in> int ` set is then Some (n (nat k)) else om_get m k))
    \<and> om_weight id m' = om_weight id m + sum_list (map n is)"
  using assms
proof (induction "is" arbitrary: m tot cnt)
  case (Cons i js)
  let ?m = "om_set (int i) (n i) m"
  have rest: "0 \<le> sum_list (map n js)" using Cons.prems(4) by (intro sum_list_nonneg) auto
  then have "in_i32 (tot + n i)" using Cons.prems(4,5,6) by (simp add: in_i32_def)
  then have step: "read_reports (map (\<lambda>i. [int i, n i]) (i # js)) (m, tot, cnt) = read_reports (map (\<lambda>i. [int i, n i]) js) (?m, tot + n i, cnt + 1)"
    by (simp add: vec_at_def)
  have w: "om_weight id ?m = om_weight id m + n i" using om_weight_set[OF Cons.prems(1), of id 0 "int i" "n i"] Cons.prems(3) by simp
  have "\<exists>m'. read_reports (map (\<lambda>i. [int i, n i]) js) (?m, tot + n i, cnt + 1) = Inr (m', tot + n i + sum_list (map n js), cnt + 1 + int (length js))
    \<and> om_wf m' \<and> (\<forall>k. om_get m' k = (if k \<in> int ` set js then Some (n (nat k)) else om_get ?m k))
    \<and> om_weight id m' = om_weight id ?m + sum_list (map n js)"
    by (rule Cons.IH) (use Cons.prems in auto)
  then show ?case unfolding step using w Cons.prems(2) by (auto simp: algebra_simps image_iff id_def)
qed simp

lemma perm_of_map: "mset ys = mset (map f xs) \<Longrightarrow> \<exists>zs. mset zs = mset xs \<and> ys = map f zs"
proof (induction ys arbitrary: xs)
  case (Cons y ys)
  have "y \<in> set (map f xs)" using Cons.prems by (metis list.set_intros(1) mset_eq_setD)
  then obtain as x bs where xs: "xs = as @ x # bs" "f x = y" by (auto dest: split_list)
  then have "mset ys = mset (map f (as @ bs))" using Cons.prems by simp
  then obtain zs where "mset zs = mset (as @ bs)" "ys = map f zs" using Cons.IH by blast
  then show ?case using xs by (intro exI[of _ "x # zs"]) simp
qed simp

lemma map_of_filter_values:
  "distinct (map fst m) \<Longrightarrow> map_of (map (\<lambda>(i, n). (i, g n)) (filter (\<lambda>(_, n). P n) m)) i
     = (case map_of m i of Some n \<Rightarrow> if P n then Some (g n) else None | None \<Rightarrow> None)"
  by (induction m) (auto simp: map_of_eq_None_iff image_iff split: option.splits)

lemma fst_filter_values: "fst ` set (map (\<lambda>(i, n). (i, g n)) (filter (\<lambda>(_, n). P n) m)) \<subseteq> fst ` set m"
  by force

lemma distinct_filter_values: "distinct (map fst m) \<Longrightarrow> distinct (map fst (map (\<lambda>(i, n). (i, g n)) (filter (\<lambda>(_, n). P n) m)))"
  by (induction m) force+

text \<open>The surpluses less the shortages are the sum less the average times the number of entries.\<close>

lemma surplus_shortage: "total_of (surpluses avg m) - total_of (shortages avg m) = om_weight id m - avg * int (length m)"
  by (induction m) (auto simp: surpluses_def shortages_def algebra_simps)

text \<open>What node 0 knows when it has read the reports.\<close>

lemma reports_read:
  assumes reports: "mset reports = mset (map (\<lambda>i. [int i, n i]) [0..<k])" and n: "\<forall>i < k. 0 \<le> n i" "sum_list (map n [0..<k]) < 2147483648"
  obtains m where "read_reports reports ([], 0, 0) = Inr (m, sum_list (map n [0..<k]), int k)" "om_wf m" "om_weight id m = sum_list (map n [0..<k])"
    "\<And>j. om_get m j = (if j \<in> int ` {0..<k} then Some (n (nat j)) else None)" "fst ` set m = {0..<int k}" "length m = k"
proof -
  let ?tot = "sum_list (map n [0..<k])"
  obtain "is" where is_: "mset is = mset [0..<k]" "reports = map (\<lambda>i. [int i, n i]) is" using perm_of_map[OF reports] by blast
  have set: "set is = {0..<k}" "distinct is" "length is = k"
    using mset_eq_setD[OF is_(1)] mset_eq_imp_distinct_iff[OF is_(1)] mset_eq_length[OF is_(1)] by simp_all
  have sum: "sum_list (map n is) = ?tot" using is_(1) by (metis mset_map sum_mset_sum_list)
  have "\<exists>m'. read_reports (map (\<lambda>i. [int i, n i]) is) ([], 0, 0) = Inr (m', 0 + sum_list (map n is), 0 + int (length is))
    \<and> om_wf m' \<and> (\<forall>k. om_get m' k = (if k \<in> int ` set is then Some (n (nat k)) else om_get [] k))
    \<and> om_weight id m' = om_weight id ([] :: (int, int) omap) + sum_list (map n is)"
    by (rule read_reports_ok) (use set n sum in auto)
  then obtain m where m: "read_reports reports ([], 0, 0) = Inr (m, ?tot, int k)" "om_wf m" "om_weight id m = ?tot"
    "\<And>j. om_get m j = (if j \<in> int ` {0..<k} then Some (n (nat j)) else None)"
    unfolding is_(2) sum set by auto
  have "fst ` set m = dom (om_get m)" by (simp add: dom_map_of_conv_image_fst)
  also have "\<dots> = int ` {0..<k}" using m(4) by (auto simp: dom_def)
  finally have keys: "fst ` set m = {0..<int k}" by (simp add: image_int_atLeastLessThan)
  have len: "length m = k"
    using keys om_wf_distinct[OF m(2)] by (metis card_atLeastLessThan_int distinct_card length_map list.set_map nat_int diff_zero)
  show thesis by (rule that[OF m keys len])
qed

lemma nothing_needed: "nonneg needs \<Longrightarrow> total_of needs = 0 \<Longrightarrow> needed needs j = 0"
proof (induction needs)
  case (Cons p xs)
  obtain i v where p: "p = (i, v)" by (cases p)
  have "0 \<le> total_of xs" using Cons.prems(1) p by (induction xs) (auto simp: nonneg_def)
  then show ?case using Cons by (auto simp: p nonneg_def)
qed simp

lemma balance_plan_ok:
  assumes reports: "mset reports = mset (map (\<lambda>i. [int i, n i]) [0..<k])" and k: "0 < k"
    and n: "\<forall>i < k. 0 \<le> n i" "sum_list (map n [0..<k]) < 2147483648"
  shows "\<exists>plan. balance_plan reports = Inr (sum_list (map n [0..<k]), plan) \<and> plan_ok {0..<int k} {0..<int k} plan
    \<and> (\<forall>i < k. flow_in plan (int i) = max 0 (sum_list (map n [0..<k]) div int k - n i)
        \<and> 0 \<le> flow_out plan (int i) \<and> flow_out plan (int i) \<le> max 0 (n i - sum_list (map n [0..<k]) div int k))"
proof -
  let ?tot = "sum_list (map n [0..<k])"
  let ?avg = "?tot div int k"
  obtain m where m: "read_reports reports ([], 0, 0) = Inr (m, ?tot, int k)" "om_wf m" "om_weight id m = ?tot"
    "\<And>j. om_get m j = (if j \<in> int ` {0..<k} then Some (n (nat j)) else None)" "fst ` set m = {0..<int k}" "length m = k"
    using reports_read[OF reports n] by blast
  note keys = m(5) and len = m(6) and d = om_wf_distinct[OF m(2)]
  have tot: "0 \<le> ?tot" using n(1) by (intro sum_list_nonneg) auto
  let ?sur = "surpluses ?avg m" and ?sho = "shortages ?avg m"
  have get: "needed ?sur (int i) = max 0 (n i - ?avg)" "needed ?sho (int i) = max 0 (?avg - n i)" if "i < k" for i
    using that m(4)[of "int i"] unfolding needed_def surpluses_def shortages_def
    by (simp_all add: map_of_filter_values[OF d])
  have dis: "fst ` set ?sur \<inter> fst ` set ?sho = {}"
    unfolding surpluses_def shortages_def by (auto dest: eq_key_imp_eq_value[OF d])
  have "\<exists>needs'. plan_ok {0..<int k} {0..<int k} (make_plan ?sur ?sho []) \<and> map fst needs' = map fst ?sho \<and> nonneg needs'
    \<and> total_of needs' \<le> total_of ?sho \<and> (total_of needs' = 0 \<or> total_of ?sho - total_of needs' = total_of ?sur)
    \<and> (\<forall>i. flow_out [] i \<le> flow_out (make_plan ?sur ?sho []) i \<and> flow_out (make_plan ?sur ?sho []) i \<le> flow_out [] i + needed ?sur i)
    \<and> (\<forall>j. flow_in (make_plan ?sur ?sho []) j + needed needs' j = flow_in [] j + needed ?sho j)"
  proof (rule make_plan_ok[OF _ _ _ _ _ _ dis])
    show "fst ` set ?sur \<subseteq> {0..<int k}" "fst ` set ?sho \<subseteq> {0..<int k}"
      unfolding surpluses_def shortages_def keys[symmetric] by (rule fst_filter_values)+
    show "distinct (map fst ?sur)" "distinct (map fst ?sho)" unfolding surpluses_def shortages_def by (rule distinct_filter_values[OF d])+
    show "\<forall>(i, n) \<in> set ?sur. 0 < n" "nonneg ?sho" by (auto simp: surpluses_def shortages_def nonneg_def)
    show "plan_ok {0..<int k} {0..<int k} []" by (simp add: plan_ok_def)
  qed
  then obtain needs' where plan: "plan_ok {0..<int k} {0..<int k} (make_plan ?sur ?sho [])" "nonneg needs'"
    "total_of needs' = 0 \<or> total_of ?sho - total_of needs' = total_of ?sur"
    "\<And>i. 0 \<le> flow_out (make_plan ?sur ?sho []) i \<and> flow_out (make_plan ?sur ?sho []) i \<le> needed ?sur i"
    "\<And>j. flow_in (make_plan ?sur ?sho []) j + needed needs' j = needed ?sho j"
    by (auto simp: flow_out_def flow_in_def)
  have nn: "0 \<le> total_of needs'" using plan(2) by (induction needs') (auto simp: nonneg_def)
  have "?avg * int k \<le> ?tot" by (metis mult.commute mult_div_mod_eq le_add_same_cancel1 k of_nat_0_less_iff pos_mod_sign)
  then have "total_of ?sho \<le> total_of ?sur" using surplus_shortage[of ?avg m] m(3) len by simp
  then have "total_of needs' = 0" using plan(3) nn by linarith
  then have "needed needs' j = 0" for j by (rule nothing_needed[OF plan(2)])
  then have flows: "\<forall>i < k. flow_in (make_plan ?sur ?sho []) (int i) = max 0 (?avg - n i)
      \<and> 0 \<le> flow_out (make_plan ?sur ?sho []) (int i) \<and> flow_out (make_plan ?sur ?sho []) (int i) \<le> max 0 (n i - ?avg)"
    using plan(4,5) get by (metis add.right_neutral)
  have "balance_plan reports = Inr (?tot, make_plan ?sur ?sho [])" using m(1) k tot by (simp add: balance_plan_def Let_def)
  then show ?thesis using plan(1) flows by blast
qed

section \<open>The records of a node\<close>

definition recs :: "'f data_loader \<Rightarrow> 'f list list" where
  "recs dl = map (\<lambda>i. dl_class dl ! i # map (\<lambda>c. c ! i) (dl_feats dl)) [0..<length (dl_class dl)]"

definition dl_fit :: "nat \<Rightarrow> 'f data_loader \<Rightarrow> bool" where
  "dl_fit w dl \<longleftrightarrow> dl_ok dl \<and> (length (dl_feats dl) = w \<or> dl_class dl = [] \<and> dl_feats dl = [])"

lemma length_recs [simp]: "length (recs dl) = length (dl_class dl)"
  by (simp add: recs_def)

lemma recs_width: "dl_fit w dl \<Longrightarrow> r \<in> set (recs dl) \<Longrightarrow> length r = Suc w"
  by (auto simp: recs_def dl_fit_def)

lemma dl_pop_recs:
  assumes "dl_fit w dl" "recs dl \<noteq> []"
  shows "fst (dl_pop dl) = List.last (recs dl)" "recs (snd (dl_pop dl)) = butlast (recs dl)" "dl_fit w (snd (dl_pop dl))"
proof -
  have c: "dl_class dl \<noteq> []" using assms(2) by (auto simp: recs_def)
  define k where "k = length (dl_class dl) - 1"
  have k: "length (dl_class dl) = Suc k" using c by (simp add: k_def)
  have cols: "\<forall>col \<in> set (dl_feats dl). length col = Suc k" "length (dl_feats dl) = w" using assms(1) c k by (auto simp: dl_fit_def dl_ok_def)
  then have ne: "\<forall>col \<in> set (dl_feats dl). col \<noteq> []" by auto
  have last: "List.last col = col ! k" if "length col = Suc k" for col :: "'a list" using that by (cases col rule: rev_cases) (auto simp: nth_append)
  have f: "filter (\<lambda>c. c \<noteq> []) (dl_feats dl) = dl_feats dl" using ne by (simp add: filter_id_conv)
  have lastrec: "List.last (recs dl) = dl_class dl ! k # map (\<lambda>c. c ! k) (dl_feats dl)" by (simp add: recs_def k)
  show "fst (dl_pop dl) = List.last (recs dl)"
    unfolding lastrec using c f last cols(1) k by (simp add: dl_pop_def Let_def)
  have snd: "dl_class (snd (dl_pop dl)) = butlast (dl_class dl)" "dl_feats (snd (dl_pop dl)) = map butlast (dl_feats dl)"
    by (simp_all add: dl_pop_def Let_def)
  show "recs (snd (dl_pop dl)) = butlast (recs dl)"
    unfolding recs_def snd using k cols(1) by (auto simp: nth_butlast)
  show "dl_fit w (snd (dl_pop dl))"
    using cols k by (simp add: dl_fit_def dl_ok_def snd)
qed

lemma dl_push_recs:
  assumes "dl_fit w dl" "length v = Suc w"
  shows "recs (dl_push v dl) = recs dl @ [v]" "dl_fit w (dl_push v dl)"
proof -
  obtain c t where v: "v = c # t" "length t = w" using assms(2) by (cases v) auto
  have "recs (dl_push v dl) = recs dl @ [v] \<and> dl_fit w (dl_push v dl)"
  proof (cases "dl_class dl = [] \<and> dl_feats dl = []")
    case True
    have "map (\<lambda>c. c ! 0) (map (\<lambda>v. [v]) t) = t" by (simp add: comp_def)
    then show ?thesis using True v by (auto simp: dl_push_def recs_def dl_fit_def dl_ok_def)
  next
    case False
    then have len: "length t = length (dl_feats dl)" using assms(1) v(2) by (auto simp: dl_fit_def)
    let ?cols = "push_columns t (dl_feats dl)"
    have dl: "dl_class (dl_push v dl) = dl_class dl @ [c]" "dl_feats (dl_push v dl) = ?cols"
      using False len v by (auto simp: dl_push_def)
    have even: "\<forall>col \<in> set (dl_feats dl). length col = length (dl_class dl)" using assms(1) by (simp add: dl_fit_def dl_ok_def)
    have p: "?cols = map (\<lambda>(col, x). col @ [x]) (zip (dl_feats dl) t)" by (rule push_columns_same[OF len])
    have old: "map (\<lambda>col. col ! i) ?cols = map (\<lambda>col. col ! i) (dl_feats dl)" if "i < length (dl_class dl)" for i
      using even that len unfolding p by (auto simp: nth_append intro!: nth_equalityI)
    have new: "map (\<lambda>col. col ! length (dl_class dl)) ?cols = t"
      using even len unfolding p by (auto simp: nth_append intro!: nth_equalityI)
    have "recs (dl_push v dl) = map (\<lambda>i. (dl_class dl @ [c]) ! i # map (\<lambda>col. col ! i) ?cols) ([0..<length (dl_class dl)] @ [length (dl_class dl)])"
      by (simp add: recs_def dl)
    also have "\<dots> = recs dl @ [v]" using old new by (simp add: recs_def v nth_append)
    finally show ?thesis using push_columns_even(1,5)[OF even len] len v(2) by (simp add: dl_fit_def dl_ok_def dl)
  qed
  then show "recs (dl_push v dl) = recs dl @ [v]" "dl_fit w (dl_push v dl)" by simp_all
qed

lemma pop_many_recs:
  assumes "dl_fit w dl" "n \<le> length (recs dl)"
  shows "mset (fst (pop_many n dl)) + mset (recs (snd (pop_many n dl))) = mset (recs dl)" "length (fst (pop_many n dl)) = n"
    "dl_fit w (snd (pop_many n dl))" "length (recs (snd (pop_many n dl))) = length (recs dl) - n"
proof -
  have "mset (fst (pop_many n dl)) + mset (recs (snd (pop_many n dl))) = mset (recs dl) \<and> length (fst (pop_many n dl)) = n
    \<and> dl_fit w (snd (pop_many n dl)) \<and> length (recs (snd (pop_many n dl))) = length (recs dl) - n"
    using assms
  proof (induction n arbitrary: dl)
    case (Suc n)
    obtain v dl1 where pop: "dl_pop dl = (v, dl1)" by (cases "dl_pop dl")
    obtain vs dl2 where rest: "pop_many n dl1 = (vs, dl2)" by (cases "pop_many n dl1")
    have ne: "recs dl \<noteq> []" using Suc.prems(2) by (cases "recs dl") simp_all
    note p = dl_pop_recs[OF Suc.prems(1) ne, unfolded pop fst_conv snd_conv]
    have "n \<le> length (recs dl1)" using Suc.prems(2) by (simp only: p(2) length_butlast)
    note IH = Suc.IH[OF p(3) this, unfolded rest fst_conv snd_conv]
    have len: "length (recs dl1) = length (recs dl) - 1" by (simp only: p(2) length_butlast)
    have "mset (recs dl) = mset (butlast (recs dl) @ [List.last (recs dl)])" using ne by simp
    then have "mset (recs dl) = {#v#} + mset (recs dl1)" by (simp only: p(1,2) mset_append mset.simps add.commute)
    then show ?case using IH len Suc.prems(2) by (simp add: pop rest)
  qed simp
  then show "mset (fst (pop_many n dl)) + mset (recs (snd (pop_many n dl))) = mset (recs dl)" "length (fst (pop_many n dl)) = n"
    "dl_fit w (snd (pop_many n dl))" "length (recs (snd (pop_many n dl))) = length (recs dl) - n" by simp_all
qed

definition pushed_recs :: "(int \<times> 'f list list) list \<Rightarrow> 'f list list" where
  "pushed_recs pushes = concat (map snd pushes)"

definition pushed_to :: "int \<Rightarrow> (int \<times> 'f list list) list \<Rightarrow> 'f list list" where
  "pushed_to j pushes = concat (map snd (filter (\<lambda>(i, _). i = j) pushes))"

lemma pushed_simps [simp]:
  "pushed_recs [] = []" "pushed_recs ((i, vs) # ps) = vs @ pushed_recs ps" "pushed_recs (ps @ qs) = pushed_recs ps @ pushed_recs qs"
  "pushed_to j [] = []" "pushed_to j ((i, vs) # ps) = (if i = j then vs else []) @ pushed_to j ps"
  "pushed_to j (ps @ qs) = pushed_to j ps @ pushed_to j qs"
  by (simp_all add: pushed_recs_def pushed_to_def)

lemma give_out_ok:
  assumes "dl_fit w dl" "instr_ok S msg" "sent_all msg \<le> int (length (recs dl))"
  shows "\<exists>ps dl'. give_out msg dl = Inr (ps, dl') \<and> dl_fit w dl' \<and> mset (pushed_recs ps) + mset (recs dl') = mset (recs dl)
    \<and> int (length (recs dl')) = int (length (recs dl)) - sent_all msg \<and> fst ` set ps \<subseteq> S
    \<and> (\<forall>j. int (length (pushed_to j ps)) = sent_to j msg)"
  using assms
proof (induction msg arbitrary: dl rule: pairs.induct)
  case (1 to k rest)
  have k: "0 < k" "to \<in> S" "instr_ok S rest" using 1(3) by (auto simp: instr_ok_def)
  have "\<forall>x \<in> set (map snd (pairs rest)). 0 \<le> x" using k(3) by (force simp: instr_ok_def)
  then have "0 \<le> sent_all rest" unfolding sent_all_def by (blast intro: sum_list_nonneg)
  then have le: "nat k \<le> length (recs dl)" "sent_all rest \<le> int (length (recs dl)) - k" using 1(4) by (auto simp: sent_all_def)
  obtain vs dl1 where pop: "pop_many (nat k) dl = (vs, dl1)" by (cases "pop_many (nat k) dl")
  note p = pop_many_recs[OF 1(2) le(1), unfolded pop fst_conv snd_conv]
  have len: "int (length (recs dl1)) = int (length (recs dl)) - k" using p(4) k(1) le(1) by simp
  obtain ps dl' where rest: "give_out rest dl1 = Inr (ps, dl')" "dl_fit w dl'" "mset (pushed_recs ps) + mset (recs dl') = mset (recs dl1)"
    "int (length (recs dl')) = int (length (recs dl1)) - sent_all rest" "fst ` set ps \<subseteq> S" "\<forall>j. int (length (pushed_to j ps)) = sent_to j rest"
    using 1(1)[OF p(3) k(3)] le(2) len by auto
  have "mset (pushed_recs ((to, vs) # ps)) + mset (recs dl') = mset (recs dl)" using p(1) rest(3) by (simp add: ac_simps)
  moreover have "int (length (recs dl')) = int (length (recs dl)) - sent_all (to # k # rest)" using rest(4) len by (simp add: sent_all_def)
  moreover have "\<forall>j. int (length (pushed_to j ((to, vs) # ps))) = sent_to j (to # k # rest)" using rest(6) p(2) k(1) by (simp add: sent_to_def)
  ultimately show ?case using rest(1,2,5) k(2) by (intro exI[of _ "(to, vs) # ps"] exI[of _ dl']) (simp add: pop)
qed (auto simp: instr_ok_def sent_all_def sent_to_def)

lemma fold_push_recs:
  "dl_fit w dl \<Longrightarrow> \<forall>v \<in> set vs. length v = Suc w \<Longrightarrow> recs (fold dl_push vs dl) = recs dl @ vs \<and> dl_fit w (fold dl_push vs dl)"
  by (induction vs arbitrary: dl) (simp_all add: dl_push_recs)

lemma take_in_recs:
  "dl_fit w dl \<Longrightarrow> \<forall>v \<in> set (concat streams). length v = Suc w \<Longrightarrow> recs (take_in streams dl) = recs dl @ concat streams \<and> dl_fit w (take_in streams dl)"
  unfolding take_in_def by (induction streams arbitrary: dl) (simp_all add: fold_push_recs)

text \<open>What is pushed to the nodes, all together, is all that is pushed.\<close>

lemma mset_pushed_to:
  "fst ` set ps \<subseteq> {0..<int n} \<Longrightarrow> (\<Sum>j<n. mset (pushed_to (int j) ps)) = mset (pushed_recs ps)"
proof (induction ps)
  case (Cons p ps)
  obtain i vs where p: "p = (i, vs)" by (cases p)
  then obtain k where k: "i = int k" "k < n" using Cons.prems by (metis atLeastLessThan_iff fst_conv image_eqI insertI1 list.simps(15) nat_0_le nat_less_iff subsetD)
  have "(\<Sum>j<n. mset (pushed_to (int j) (p # ps))) = (\<Sum>j<n. (if j = k then mset vs else {#}) + mset (pushed_to (int j) ps))"
    by (intro sum.cong refl) (simp add: p k)
  also have "\<dots> = mset vs + mset (pushed_recs ps)" using Cons k(2) by (simp add: sum.distrib)
  finally show ?case by (simp add: p)
qed simp

lemma mset_concat_nth: "mset (concat (map f xs)) = (\<Sum>i<length xs. mset (f (xs ! i)))"
  by (induction xs rule: rev_induct) (simp_all add: nth_append)

lemma mset_concat_perm: "mset xss = mset yss \<Longrightarrow> mset (concat xss) = mset (concat yss)"
  by (metis mset_concat mset_map sum_mset_sum_list)

section \<open>Balancing\<close>

definition keeps_all :: "(nat \<Rightarrow> 'b list \<Rightarrow> 'b list) \<Rightarrow> bool" where
  "keeps_all order \<longleftrightarrow> (\<forall>j xs. mset (order j xs) = mset xs)"

lemma exchange_ok: "fst ` set ps \<subseteq> {0..<int n} \<Longrightarrow>
    exchange order n ps = Inr (map (\<lambda>j. order j (map snd (filter (\<lambda>(i, _). i = int j) ps))) [0..<n])"
proof -
  assume "fst ` set ps \<subseteq> {0..<int n}"
  then have "list_all (\<lambda>(i, _). 0 \<le> i \<and> i < int n) ps" unfolding list_all_iff by fastforce
  then show ?thesis by (simp add: exchange_def)
qed

lemma keeps_short: "keeps_all order \<Longrightarrow> order j [] = []" "keeps_all order \<Longrightarrow> order j [x] = [x]"
  by (metis keeps_all_def mset_zero_iff_right, metis keeps_all_def mset_single_iff_right)

lemma instructions_of:
  "distinct (map fst plan) \<Longrightarrow> map snd (filter (\<lambda>(i, _). i = j) plan) = (case om_get plan j of None \<Rightarrow> [] | Some msg \<Rightarrow> [msg])"
proof (induction plan)
  case (Cons p plan)
  obtain i msg where p: "p = (i, msg)" by (cases p)
  have "i = j \<Longrightarrow> om_get plan j = None" using Cons.prems by (auto simp: p map_of_eq_None_iff)
  then show ?case using Cons by (auto simp: p)
qed simp

lemma give_all_ok:
  assumes "plan_ok R S plan" "dl_fit w dl" "flow_out plan (int i) \<le> int (length (recs dl))"
    and "msgs = (case om_get plan (int i) of None \<Rightarrow> [] | Some msg \<Rightarrow> [msg])"
  shows "\<exists>ps dl'. give_all msgs dl = Inr (ps, dl') \<and> dl_fit w dl' \<and> mset (pushed_recs ps) + mset (recs dl') = mset (recs dl)
    \<and> int (length (recs dl')) = int (length (recs dl)) - flow_out plan (int i) \<and> fst ` set ps \<subseteq> S
    \<and> (\<forall>j. int (length (pushed_to j ps)) = sent_to j (get_or [] (om_get plan (int i))))"
proof (cases "om_get plan (int i)")
  case None
  then show ?thesis using assms(2,4) by (simp add: flow_out_def)
next
  case (Some msg)
  then show ?thesis
    using give_out_ok[OF assms(2) plan_ok_get[OF assms(1), of "int i"]] assms(3,4) by (auto simp: flow_out_def)
qed

text \<open>The flow into a node, added up over the givers.\<close>

lemma flow_in_sum:
  assumes "om_wf plan" "fst ` set plan \<subseteq> {0..<int n}"
  shows "flow_in plan j = (\<Sum>i<n. sent_to j (get_or [] (om_get plan (int i))))"
  using assms
proof (induction plan)
  case (Cons p plan)
  obtain f msg where p: "p = (f, msg)" by (cases p)
  then obtain k where k: "f = int k" "k < n" using Cons.prems(2) by (metis atLeastLessThan_iff fst_conv image_eqI insertI1 list.simps(15) nat_0_le nat_less_iff subsetD)
  have wf: "om_wf plan" "om_get plan (int k) = None" using Cons.prems(1) om_get_below[of plan f] by (simp_all add: p om_wf_Cons k)
  have "(\<Sum>i<n. sent_to j (get_or [] (om_get (p # plan) (int i))))
      = (\<Sum>i<n. (if i = k then sent_to j msg else 0) + sent_to j (get_or [] (om_get plan (int i))))"
    by (intro sum.cong refl) (auto simp: p k wf(2))
  also have "\<dots> = sent_to j msg + flow_in plan j" using Cons.IH[OF wf(1)] Cons.prems(2) k(2) by (simp add: sum.distrib)
  finally show ?case by (simp add: p flow_in_def)
qed (simp add: flow_in_def)

lemma reports_arrive:
  assumes "keeps_all order" "0 < n"
  shows "\<exists>reports rest. exchange order n (map (\<lambda>i. (0, f i)) [0..<n]) = Inr (reports # rest) \<and> mset reports = mset (map f [0..<n])"
proof -
  have "filter (\<lambda>(i, _). i = int 0) (map (\<lambda>i. (0, f i)) [0..<n]) = map (\<lambda>i. (0, f i)) [0..<n]" by (simp add: filter_id_conv)
  then have "exchange order n (map (\<lambda>i. (0, f i)) [0..<n]) = Inr (order 0 (map f [0..<n]) #
      map (\<lambda>j. order j (map snd (filter (\<lambda>(i, _). i = int j) (map (\<lambda>i. (0, f i)) [0..<n])))) [1..<n])"
    using assms(2) by (subst exchange_ok) (auto simp: upt_conv_Cons comp_def)
  then show ?thesis using assms(1) by (auto simp: keeps_all_def)
qed

lemma globals_arrive:
  assumes "keeps_all order"
  shows "\<exists>msgs. exchange order n (map (\<lambda>i. (int i, [g])) [0..<n]) = Inr msgs
    \<and> map_res (\<lambda>i. last_global (msgs ! i) (old i)) [0..<n] = Inr (replicate n g)"
proof -
  have one: "map snd (filter (\<lambda>(i, _). i = int j) (map (\<lambda>i. (int i, [g])) [0..<n])) = [[g]]" if "j < n" for j
    using that by (induction n) (auto simp: less_Suc_eq filter_empty_conv)
  let ?msgs = "map (\<lambda>j. order j (map snd (filter (\<lambda>(i, _). i = int j) (map (\<lambda>i. (int i, [g])) [0..<n])))) [0..<n]"
  have "exchange order n (map (\<lambda>i. (int i, [g])) [0..<n]) = Inr ?msgs" by (rule exchange_ok) auto
  moreover have "map_res (\<lambda>i. last_global (?msgs ! i) (old i)) [0..<n] = Inr (map (\<lambda>_. g) [0..<n])"
    by (rule map_res_total) (simp add: one keeps_short[OF assms] last_global_def vec_at_def)
  ultimately show ?thesis by (auto simp: map_replicate_const)
qed

lemma pushed_concat_upt:
  "mset (pushed_recs (concat (map f [0..<n]))) = (\<Sum>i<n. mset (pushed_recs (f i)))"
  "length (pushed_to j (concat (map f [0..<n]))) = (\<Sum>i<n. length (pushed_to j (f i)))"
  "set (pushed_to j ps) \<subseteq> set (pushed_recs ps)"
  by (induction n) (auto simp: pushed_to_def pushed_recs_def)

text \<open>Rounds one and two: the reports reach node 0, and each node gets its instructions.\<close>

lemma planning_rounds:
  assumes "keeps_all order" "keeps_all order1" "0 < n" "sum_list (map k [0..<n]) < 2147483648"
  defines "avg \<equiv> sum_list (map k [0..<n]) div n"
  shows "\<exists>reports rest plan instrs. exchange order n (map (\<lambda>i. (0, [int i, int (k i)])) [0..<n]) = Inr (reports # rest)
    \<and> balance_plan reports = Inr (int (sum_list (map k [0..<n])), plan) \<and> plan_ok {0..<int n} {0..<int n} plan
    \<and> (\<forall>i < n. flow_in plan (int i) = max 0 (int avg - int (k i)) \<and> flow_out plan (int i) \<le> max 0 (int (k i) - int avg) \<and> 0 \<le> flow_out plan (int i))
    \<and> exchange order1 n plan = Inr instrs
    \<and> (\<forall>i < n. instrs ! i = (case om_get plan (int i) of None \<Rightarrow> [] | Some msg \<Rightarrow> [msg]))"
proof -
  have tot: "sum_list (map (\<lambda>i. int (k i)) [0..<n]) = int (sum_list (map k [0..<n]))" by (simp add: sum_list_sum_nth)
  obtain reports rest where reports: "exchange order n (map (\<lambda>i. (0, [int i, int (k i)])) [0..<n]) = Inr (reports # rest)"
    "mset reports = mset (map (\<lambda>i. [int i, int (k i)]) [0..<n])"
    using reports_arrive[OF assms(1,3), of "\<lambda>i. [int i, int (k i)]"] by blast
  have "sum_list (map (\<lambda>i. int (k i)) [0..<n]) < 2147483648" unfolding tot using assms(4) by linarith
  with balance_plan_ok[OF reports(2) assms(3)] obtain plan where
    plan: "balance_plan reports = Inr (int (sum_list (map k [0..<n])), plan)" "plan_ok {0..<int n} {0..<int n} plan"
    "\<forall>i < n. flow_in plan (int i) = max 0 (int avg - int (k i)) \<and> 0 \<le> flow_out plan (int i) \<and> flow_out plan (int i) \<le> max 0 (int (k i) - int avg)"
    unfolding tot avg_def zdiv_int by auto
  have wf: "om_wf plan" "fst ` set plan \<subseteq> {0..<int n}" using plan(2) by (auto simp: plan_ok_def)
  define instrs where "instrs = map (\<lambda>j. order1 j (map snd (filter (\<lambda>(i, _). i = int j) plan))) [0..<n]"
  have "instrs ! i = (case om_get plan (int i) of None \<Rightarrow> [] | Some msg \<Rightarrow> [msg])" if "i < n" for i
    using that keeps_short[OF assms(2), of i] instructions_of[OF om_wf_distinct[OF wf(1)], of "int i"]
    by (auto simp: instrs_def split: option.split)
  moreover have "exchange order1 n plan = Inr instrs" unfolding instrs_def by (rule exchange_ok[OF wf(2)])
  ultimately show ?thesis using reports(1) plan by (intro exI[of _ reports] exI[of _ rest] exI[of _ plan] exI[of _ instrs]) auto
qed

text \<open>What node \<open>i\<close> has given away and what is left of it, when it follows the plan.\<close>

definition gave :: "nat \<Rightarrow> nat \<Rightarrow> plan \<Rightarrow> nat \<Rightarrow> 'f data_loader \<Rightarrow> (int \<times> 'f list list) list \<times> 'f data_loader \<Rightarrow> bool" where
  "gave w n plan i dl g \<longleftrightarrow> dl_fit w (snd g) \<and> mset (pushed_recs (fst g)) + mset (recs (snd g)) = mset (recs dl)
    \<and> int (length (recs (snd g))) = int (length (recs dl)) - flow_out plan (int i) \<and> fst ` set (fst g) \<subseteq> {0..<int n}
    \<and> (\<forall>j. int (length (pushed_to j (fst g))) = sent_to j (get_or [] (om_get plan (int i))))"

lemma giving_round:
  assumes "plan_ok {0..<int n} {0..<int n} plan" "\<forall>i < n. dl_fit w (dls ! i)" "\<forall>i < n. flow_out plan (int i) \<le> int (length (recs (dls ! i)))"
    and "\<forall>i < n. instrs ! i = (case om_get plan (int i) of None \<Rightarrow> [] | Some msg \<Rightarrow> [msg])"
  shows "\<exists>g. map_res (\<lambda>i. give_all (instrs ! i) (dls ! i)) [0..<n] = Inr (map g [0..<n]) \<and> (\<forall>i < n. gave w n plan i (dls ! i) (g i))"
proof -
  have "\<exists>g. give_all (instrs ! i) (dls ! i) = Inr g \<and> gave w n plan i (dls ! i) g" if i: "i < n" for i
    using give_all_ok[OF assms(1) assms(2)[rule_format, OF i] assms(3)[rule_format, OF i] assms(4)[rule_format, OF i]]
    unfolding gave_def by fastforce
  then obtain g where g: "\<And>i. i < n \<Longrightarrow> give_all (instrs ! i) (dls ! i) = Inr (g i) \<and> gave w n plan i (dls ! i) (g i)" by metis
  then have "map_res (\<lambda>i. give_all (instrs ! i) (dls ! i)) [0..<n] = Inr (map g [0..<n])" by (intro map_res_total) simp
  then show ?thesis using g by blast
qed

text \<open>Round three: what arrives at a node, and what all have then.\<close>

lemma taking_round:
  assumes "\<forall>i < n. gave w n plan i (dls ! i) (g i)" "keeps_all order" "\<forall>i < n. dl_fit w (dls ! i)" "om_wf plan" "fst ` set plan \<subseteq> {0..<int n}"
  shows "\<exists>streams. exchange order n (concat (map fst (map g [0..<n]))) = Inr streams
    \<and> (\<forall>i < n. dl_fit w (take_in (streams ! i) (snd (g i)))
        \<and> int (length (recs (take_in (streams ! i) (snd (g i))))) = int (length (recs (dls ! i))) - flow_out plan (int i) + flow_in plan (int i))
    \<and> mset (concat (map (\<lambda>i. recs (take_in (streams ! i) (snd (g i)))) [0..<n])) = (\<Sum>i<n. mset (recs (dls ! i)))"
proof -
  note g = assms(1)[unfolded gave_def, rule_format]
  let ?ps = "concat (map fst (map g [0..<n]))"
  have range: "fst ` set ?ps \<subseteq> {0..<int n}" using g by fastforce
  have ps: "?ps = concat (map (\<lambda>i. fst (g i)) [0..<n])" by (simp add: comp_def)
  define streams where "streams = map (\<lambda>j. order j (map snd (filter (\<lambda>(i, _). i = int j) ?ps))) [0..<n]"
  have str: "mset (concat (streams ! j)) = mset (pushed_to (int j) ?ps)" if "j < n" for j
    using that assms(2) unfolding streams_def pushed_to_def by (auto simp: keeps_all_def intro: mset_concat_perm)
  have "set (pushed_recs (fst (g i))) \<subseteq> set (recs (dls ! i))" if "i < n" for i using g[OF that] by (metis set_mset_mset set_mset_union Un_upper1)
  then have "length v = Suc w" if "v \<in> set (pushed_recs ?ps)" for v
    using that assms(3) recs_width unfolding ps pushed_recs_def by fastforce
  then have wide: "\<forall>v \<in> set (concat (streams ! j)). length v = Suc w" if "j < n" for j
    using pushed_concat_upt(3)[of "int j" ?ps] mset_eq_setD[OF str[OF that]] by blast
  let ?new = "\<lambda>i. take_in (streams ! i) (snd (g i))"
  have new: "recs (?new i) = recs (snd (g i)) @ concat (streams ! i) \<and> dl_fit w (?new i)" if "i < n" for i
    using take_in_recs[OF _ wide[OF that]] g[OF that] that by simp
  have "mset (concat (map (\<lambda>i. recs (?new i)) [0..<n])) = (\<Sum>i<n. mset (recs (snd (g i)))) + (\<Sum>i<n. mset (pushed_to (int i) ?ps))"
    by (subst mset_concat_nth) (simp add: new str sum.distrib)
  also have "\<dots> = (\<Sum>i<n. mset (recs (snd (g i))) + mset (pushed_recs (fst (g i))))"
    unfolding mset_pushed_to[OF range] unfolding ps pushed_concat_upt(1) by (simp add: sum.distrib)
  also have "\<dots> = (\<Sum>i<n. mset (recs (dls ! i)))" using g by (simp add: add.commute)
  finally have all: "mset (concat (map (\<lambda>i. recs (?new i)) [0..<n])) = (\<Sum>i<n. mset (recs (dls ! i)))" .
  have "int (length (recs (?new i))) = int (length (recs (dls ! i))) - flow_out plan (int i) + flow_in plan (int i)" if i: "i < n" for i
  proof -
    have "int (length (pushed_to (int i) ?ps)) = (\<Sum>m<n. sent_to (int i) (get_or [] (om_get plan (int m))))"
      unfolding ps pushed_concat_upt(2) of_nat_sum using g by simp
    also have "\<dots> = flow_in plan (int i)" by (rule flow_in_sum[OF assms(4,5), symmetric])
    finally show ?thesis using mset_eq_length[OF str[OF i]] new[OF i] g[OF i] by simp
  qed
  moreover have "exchange order n ?ps = Inr streams" unfolding streams_def by (rule exchange_ok[OF range])
  ultimately show ?thesis using all new by blast
qed

text \<open>C33. Balancing ends well on all nodes whatever the order in which the network delivers: no record is lost, copied or
  changed, every node keeps even columns and ends with at least the average and at most what it had or
  the average, and all nodes know the number of all the records.\<close>

theorem balancing_keeps_records:
  assumes "dls \<noteq> []" "\<forall>dl \<in> set dls. dl_fit w dl" "length (concat (map recs dls)) < 2147483648"
    and order: "\<forall>r. keeps_all (order r)" "keeps_all order2"
  defines "n \<equiv> length dls" and "avg \<equiv> length (concat (map recs dls)) div length dls"
  shows "\<exists>dls'. balance_data order order2 old dls = Inr (dls', replicate n (int (length (concat (map recs dls)))))
    \<and> length dls' = n \<and> (\<forall>dl \<in> set dls'. dl_fit w dl)
    \<and> mset (concat (map recs dls')) = mset (concat (map recs dls))
    \<and> (\<forall>i < n. avg \<le> length (recs (dls' ! i)) \<and> length (recs (dls' ! i)) \<le> max avg (length (recs (dls ! i))))"
proof -
  let ?k = "\<lambda>i. length (recs (dls ! i))" and ?all = "length (concat (map recs dls))"
  have n: "0 < n" using assms(1) by (simp add: n_def)
  have fit: "\<forall>i < n. dl_fit w (dls ! i)" using assms(2) by (simp add: n_def)
  have tot: "sum_list (map ?k [0..<n]) = ?all" by (simp add: length_concat n_def sum_list_sum_nth atLeast0LessThan comp_def)
  have avg: "?all div n = avg" by (simp add: avg_def n_def)
  have rep: "map (\<lambda>i. (0, report_of i (dls ! i))) [0..<n] = map (\<lambda>i. (0, [int i, int (?k i)])) [0..<n]" by (simp add: report_of_def)
  obtain reports rest plan instrs where
    reports: "exchange (order 0) n (map (\<lambda>i. (0, report_of i (dls ! i))) [0..<n]) = Inr (reports # rest)" and
    plan: "balance_plan reports = Inr (int ?all, plan)" "plan_ok {0..<int n} {0..<int n} plan" and
    flow: "\<forall>i < n. flow_in plan (int i) = max 0 (int avg - int (?k i)) \<and> flow_out plan (int i) \<le> max 0 (int (?k i) - int avg) \<and> 0 \<le> flow_out plan (int i)" and
    instrs: "exchange (order 1) n plan = Inr instrs" "\<forall>i < n. instrs ! i = (case om_get plan (int i) of None \<Rightarrow> [] | Some msg \<Rightarrow> [msg])"
    using planning_rounds[OF order(1)[rule_format, of 0] order(1)[rule_format, of 1] n, of ?k] assms(3) unfolding rep tot avg by blast
  have wf: "om_wf plan" "fst ` set plan \<subseteq> {0..<int n}" using plan(2) by (auto simp: plan_ok_def)
  have out: "\<forall>i < n. flow_out plan (int i) \<le> int (?k i)" using flow by fastforce
  obtain g where given: "map_res (\<lambda>i. give_all (instrs ! i) (dls ! i)) [0..<n] = Inr (map g [0..<n])" "\<forall>i < n. gave w n plan i (dls ! i) (g i)"
    using giving_round[OF plan(2) fit out instrs(2)] by blast
  obtain streams where streams: "exchange order2 n (concat (map fst (map g [0..<n]))) = Inr streams" and
    new: "\<forall>i < n. dl_fit w (take_in (streams ! i) (snd (g i)))
        \<and> int (length (recs (take_in (streams ! i) (snd (g i))))) = int (?k i) - flow_out plan (int i) + flow_in plan (int i)" and
    all: "mset (concat (map (\<lambda>i. recs (take_in (streams ! i) (snd (g i)))) [0..<n])) = (\<Sum>i<n. mset (recs (dls ! i)))"
    using taking_round[OF given(2) order(2) fit wf] by blast
  obtain msgs where msgs: "exchange (order 3) n (map (\<lambda>i. (int i, [int ?all])) [0..<n]) = Inr msgs"
    "map_res (\<lambda>i. last_global (msgs ! i) (if i = 0 then int ?all else old i)) [0..<n] = Inr (replicate n (int ?all))"
    using globals_arrive[of "order 3" n "int ?all" "\<lambda>i. if i = 0 then int ?all else old i"] order(1) by blast
  let ?dls = "map (\<lambda>i. take_in (streams ! i) (snd (g i))) [0..<n]"
  have "balance_data order order2 old dls = Inr (?dls, replicate n (int ?all))"
    using reports plan(1) instrs(1) given(1) streams msgs by (simp add: balance_data_def n_def[symmetric] vec_at_def cong: map_cong)
  moreover have "avg \<le> length (recs (?dls ! i)) \<and> length (recs (?dls ! i)) \<le> max avg (?k i)" if "i < n" for i
    using new[rule_format, OF that] flow[rule_format, OF that] that by (simp add: max_def split: if_splits)
  moreover have "mset (concat (map recs ?dls)) = mset (concat (map recs dls))"
    using all by (simp add: comp_def mset_concat_nth n_def)
  ultimately show ?thesis using new by (intro exI[of _ ?dls]) auto
qed

definition demo_loaders :: "nat data_loader list" where
  "demo_loaders = [\<lparr>dl_class = [7, 8, 9, 10, 11], dl_feats = [[0, 1, 2, 3, 4]], dl_num_of_record = 5, dl_num_of_feat = 1\<rparr>,
     \<lparr>dl_class = [], dl_feats = [], dl_num_of_record = 0, dl_num_of_feat = 0\<rparr>,
     \<lparr>dl_class = [6], dl_feats = [[5]], dl_num_of_record = 1, dl_num_of_feat = 1\<rparr>]"

theorem balancing_keeps_records_witness:
  "\<exists>dls'. balance_data (\<lambda>_ _. rev) (\<lambda>_. rev) (\<lambda>_. 0) demo_loaders = Inr (dls', [6, 6, 6])
    \<and> mset (concat (map recs dls')) = {#[6, 5], [7, 0], [8, 1], [9, 2], [10, 3], [11, 4]#} \<and> length (recs (dls' ! 1)) = 2"
proof -
  have fit: "\<forall>dl \<in> set demo_loaders. dl_fit 1 dl" by (simp add: demo_loaders_def dl_fit_def dl_ok_def)
  have recs: "map recs demo_loaders = [[[7, 0], [8, 1], [9, 2], [10, 3], [11, 4]], [], [[6, 5]]]" by code_simp
  have "demo_loaders \<noteq> []" by (simp add: demo_loaders_def)
  note b = balancing_keeps_records[OF this fit, of "\<lambda>_ _. rev" "\<lambda>_. rev" "\<lambda>_. 0"]
  have len: "length demo_loaders = 3" by (simp add: demo_loaders_def)
  have one: "length (recs (demo_loaders ! 1)) = 0" by (simp add: demo_loaders_def recs_def)
  obtain dls' where d: "balance_data (\<lambda>_ _. rev) (\<lambda>_. rev) (\<lambda>_. 0) demo_loaders = Inr (dls', replicate 3 6)"
    "mset (concat (map recs dls')) = mset (concat (map recs demo_loaders))"
    "\<forall>i < 3. 2 \<le> length (recs (dls' ! i)) \<and> length (recs (dls' ! i)) \<le> max 2 (length (recs (demo_loaders ! i)))"
    using b by (auto simp: recs keeps_all_def len)
  have "length (recs (dls' ! 1)) = 2" using d(3)[rule_format, of 1] one by simp
  then show ?thesis using d(1,2) by (auto simp: recs numeral_3_eq_3)
qed

end
