(* ===== verification/Gbdt_Global.thy ===== *)
theory Gbdt_Global
  imports Complex_Main Gbdt_Balance Gbdt_Tree
begin

text \<open>
  \<open>examples2/gbdt/src/channel_util.hpp\<close>, second part: the nodes find the minimum and maximum of each
  feature over all their records, and node 0 adds up the errors of the predictions.
\<close>

section \<open>Global minimum and maximum\<close>

definition min_max_msg :: "'f fl \<Rightarrow> 'f params \<Rightarrow> 'f list" where
  "min_max_msg F mm = [param F mm ''min'', param F mm ''max'']"

definition min_max_of_msg :: "'f list \<Rightarrow> 'f params res" where
  "min_max_of_msg msg = bind_res (vec_at msg 0) (\<lambda>mi. bind_res (vec_at msg 1) (\<lambda>ma. Inr (om_set ''max'' ma (om_set ''min'' mi []))))"

fun merge_min_max :: "'f fl \<Rightarrow> 'f list list \<Rightarrow> 'f \<times> 'f \<Rightarrow> ('f \<times> 'f) res" where
  "merge_min_max F [] b = Inr b"
| "merge_min_max F (msg # msgs) (mi, ma) =
     bind_res (vec_at msg 0) (\<lambda>lo. bind_res (vec_at msg 1) (\<lambda>hi.
       merge_min_max F msgs (if fl_lt F lo mi then lo else mi, if fl_lt F ma hi then hi else ma)))"

text \<open>The round of feature \<open>j\<close>: what node 0 appends to its list.\<close>

definition min_max_round :: "'f fl \<Rightarrow> (nat \<Rightarrow> 'f list list \<Rightarrow> 'f list list) \<Rightarrow> 'f params list list \<Rightarrow> nat \<Rightarrow> 'f params res" where
  "min_max_round F order mms j =
     bind_res (exchange order (length mms) (map (\<lambda>l. (0, min_max_msg F (l ! j))) mms)) (\<lambda>arrived.
     bind_res (vec_at arrived 0) (\<lambda>msgs.
     bind_res (merge_min_max F msgs (fl_inf F, fl_neg F (fl_inf F))) (\<lambda>(mi, ma).
       Inr (om_set ''max'' ma (om_set ''min'' mi [])))))"

text \<open>\<open>None\<close>: the nodes do not have the same number of features, and some wait for ever in a sync.\<close>

definition global_min_max ::
  "'f fl \<Rightarrow> (nat \<Rightarrow> nat \<Rightarrow> 'f list list \<Rightarrow> 'f list list) \<Rightarrow> (nat \<Rightarrow> 'f list list list \<Rightarrow> 'f list list list) \<Rightarrow> 'f params list list
    \<Rightarrow> 'f params list list res option"
where
  "global_min_max F order order2 mms =
     (if \<not> (\<exists>w \<in> length ` set mms. \<forall>l \<in> set mms. length l = w) then None
      else Some (
        bind_res (map_res (\<lambda>j. min_max_round F (order j) mms j) [0..<length (hd mms)]) (\<lambda>global.
        bind_res (exchange order2 (length mms) (map (\<lambda>k. (int k, map (min_max_msg F) global)) [1..<length mms])) (\<lambda>streams.
          map_res (\<lambda>i. if i = 0 then Inr global
            else bind_res (map_res (map_res min_max_of_msg) (streams ! i)) (\<lambda>ls. Inr (concat ls))) [0..<length mms]))))"

section \<open>Global error of the predictions\<close>

definition result_msg :: "'f params \<Rightarrow> 'f list res" where
  "result_msg res = bind_res (of_opt Out_of_range_exception (om_get res ''sse'')) (\<lambda>s.
     bind_res (of_opt Out_of_range_exception (om_get res ''num'')) (\<lambda>n. Inr [s, n]))"

definition add_results :: "'f fl \<Rightarrow> 'f list list \<Rightarrow> ('f \<times> 'f) res" where
  "add_results F msgs = fold_res (\<lambda>msg (s, n). bind_res (vec_at msg 0) (\<lambda>x. bind_res (vec_at msg 1) (\<lambda>y.
     Inr (fl_add F s x, fl_add F n y)))) msgs (fl_int F 0, fl_int F 0)"

definition global_predict_result :: "'f fl \<Rightarrow> (nat \<Rightarrow> 'f list list \<Rightarrow> 'f list list) \<Rightarrow> 'f params list \<Rightarrow> ('f \<times> 'f \<times> 'f) res" where
  "global_predict_result F order results =
     bind_res (map_res result_msg results) (\<lambda>msgs.
     bind_res (exchange order (length results) (map (\<lambda>msg. (0, msg)) msgs)) (\<lambda>arrived.
     bind_res (vec_at arrived 0) (\<lambda>msgs.
     bind_res (add_results F msgs) (\<lambda>(s, n). Inr (s, n, calculate_rmse_of F s n)))))"

section \<open>All nodes agree on the minimum and the maximum\<close>

lemma merge_min_max_eq:
  fixes F :: "'f::linorder fl"
  assumes "fl_lt F = (<)"
  shows "merge_min_max F (map (\<lambda>(lo, hi). [lo, hi]) bs) (mi, ma) = Inr (fold min (map fst bs) mi, fold max (map snd bs) ma)"
proof (induction bs arbitrary: mi ma)
  case (Cons b bs)
  obtain lo hi where b: "b = (lo, hi)" by (cases b)
  have "(if lo < mi then lo else mi) = min lo mi" "(if ma < hi then hi else ma) = max hi ma"
    by (metis min_absorb1 min_absorb2 not_less order.strict_implies_order, metis max_absorb1 max_absorb2 not_less order.strict_implies_order)
  then show ?case using Cons.IH by (simp add: b vec_at_def assms)
qed simp

lemma fold_max_Max: "fold max xs a = Max (insert a (set xs))" for a :: "'f::linorder"
proof (induction xs arbitrary: a)
  case (Cons x xs)
  have "Max (insert (max x a) (set xs)) = Max (insert a (insert x (set xs)))"
    by (cases "xs = []") (simp_all add: max.commute max.left_commute)
  then show ?case by (simp add: Cons.IH)
qed simp

definition bound_map :: "'f \<Rightarrow> 'f \<Rightarrow> 'f params" where
  "bound_map mi ma = om_set ''max'' ma (om_set ''min'' mi [])"

lemma bound_map_simps: "param F (bound_map mi ma) ''min'' = mi" "param F (bound_map mi ma) ''max'' = ma"
  "min_max_of_msg (min_max_msg F (bound_map mi ma)) = Inr (bound_map mi ma)"
  by (simp_all add: bound_map_def param_def min_max_of_msg_def min_max_msg_def vec_at_def)

lemma min_max_round_eq:
  fixes F :: "'f::linorder fl"
  assumes lt: "fl_lt F = (<)" and "mms \<noteq> []" "keeps_all order"
    and in_range: "\<forall>l \<in> set mms. param F (l ! j) ''min'' \<le> fl_inf F \<and> fl_neg F (fl_inf F) \<le> param F (l ! j) ''max''"
  shows "min_max_round F order mms j = Inr (bound_map (Min ((\<lambda>l. param F (l ! j) ''min'') ` set mms)) (Max ((\<lambda>l. param F (l ! j) ''max'') ` set mms)))"
proof -
  let ?lo = "\<lambda>l. param F (l ! j) ''min''" and ?hi = "\<lambda>l. param F (l ! j) ''max''"
  have "map (\<lambda>l. (0 :: int, min_max_msg F (l ! j))) mms = map (\<lambda>i. (0, min_max_msg F (mms ! i ! j))) [0..<length mms]"
    by (rule nth_equalityI) simp_all
  then obtain msgs rest where arrive: "exchange order (length mms) (map (\<lambda>l. (0, min_max_msg F (l ! j))) mms) = Inr (msgs # rest)"
    "mset msgs = mset (map (\<lambda>i. min_max_msg F (mms ! i ! j)) [0..<length mms])"
    using reports_arrive[OF assms(3), of "length mms" "\<lambda>i. min_max_msg F (mms ! i ! j)"] assms(2) by auto
  have "map (\<lambda>i. min_max_msg F (mms ! i ! j)) [0..<length mms] = map (\<lambda>l. min_max_msg F (l ! j)) mms" by (rule nth_equalityI) simp_all
  then obtain ls where ls: "mset ls = mset mms" "msgs = map (\<lambda>l. min_max_msg F (l ! j)) ls" using perm_of_map[of msgs] arrive(2) by metis
  have set: "set ls = set mms" using mset_eq_setD[OF ls(1)] .
  have m: "msgs = map (\<lambda>(lo, hi). [lo, hi]) (map (\<lambda>l. (?lo l, ?hi l)) ls)" by (simp add: ls(2) min_max_msg_def)
  have fin: "Min (insert (fl_inf F) (?lo ` set mms)) = Min (?lo ` set mms)" "Max (insert (fl_neg F (fl_inf F)) (?hi ` set mms)) = Max (?hi ` set mms)"
    using assms(2) in_range by (auto simp: min_absorb2 max_absorb2 Min_le_iff Max_ge_iff neq_Nil_conv)
  have "merge_min_max F msgs (fl_inf F, fl_neg F (fl_inf F)) = Inr (Min (?lo ` set mms), Max (?hi ` set mms))"
    unfolding m merge_min_max_eq[OF lt] fold_min_Min fold_max_Max by (simp add: comp_def set fin)
  then show ?thesis using arrive(1) by (simp add: min_max_round_def vec_at_def bound_map_def)
qed

lemma streams_arrive:
  assumes "keeps_all order"
  shows "\<exists>streams. exchange order n (map (\<lambda>k. (int k, x)) [1..<n]) = Inr streams \<and> (\<forall>i. 0 < i \<and> i < n \<longrightarrow> streams ! i = [x])"
proof -
  have one: "map snd (filter (\<lambda>(i, _). i = int j) (map (\<lambda>k. (int k, x)) [1..<n])) = [x]" if "0 < j" "j < n" for j
    using that by (induction n) (auto simp: less_Suc_eq filter_empty_conv)
  have "exchange order n (map (\<lambda>k. (int k, x)) [1..<n])
      = Inr (map (\<lambda>j. order j (map snd (filter (\<lambda>(i, _). i = int j) (map (\<lambda>k. (int k, x)) [1..<n])))) [0..<n])"
    by (rule exchange_ok) auto
  then show ?thesis using one keeps_short(2)[OF assms] by (intro exI conjI) auto
qed

text \<open>Whatever the order of delivery, all nodes end with the same list: for each feature the smallest of the
  minima and the largest of the maxima of all nodes.\<close>

lemma global_min_max_agrees:
  fixes F :: "'f::linorder fl"
  assumes "fl_lt F = (<)" "mms \<noteq> []" "\<forall>l \<in> set mms. length l = w" "\<forall>r. keeps_all (order r)" "keeps_all order2"
    and "\<forall>l \<in> set mms. \<forall>mm \<in> set l. param F mm ''min'' \<le> fl_inf F \<and> fl_neg F (fl_inf F) \<le> param F mm ''max''"
  shows "\<exists>global. global_min_max F order order2 mms = Some (Inr (replicate (length mms) global)) \<and> length global = w
    \<and> (\<forall>j < w. param F (global ! j) ''min'' = Min ((\<lambda>l. param F (l ! j) ''min'') ` set mms)
        \<and> param F (global ! j) ''max'' = Max ((\<lambda>l. param F (l ! j) ''max'') ` set mms))"
proof -
  let ?b = "\<lambda>j. bound_map (Min ((\<lambda>l. param F (l ! j) ''min'') ` set mms)) (Max ((\<lambda>l. param F (l ! j) ''max'') ` set mms))"
  let ?global = "map ?b [0..<w]"
  have w: "length (hd mms) = w" using assms(2,3) by simp
  have "min_max_round F (order j) mms j = Inr (?b j)" if "j < w" for j
    by (rule min_max_round_eq[OF assms(1,2)]) (use assms(3,4,6) that in auto)
  then have rounds: "map_res (\<lambda>j. min_max_round F (order j) mms j) [0..<w] = Inr ?global" by (intro map_res_total) simp
  obtain streams where streams: "exchange order2 (length mms) (map (\<lambda>k. (int k, map (min_max_msg F) ?global)) [1..<length mms]) = Inr streams"
    "\<forall>i. 0 < i \<and> i < length mms \<longrightarrow> streams ! i = [map (min_max_msg F) ?global]"
    using streams_arrive[OF assms(5)] by blast
  have read: "map_res min_max_of_msg (map (min_max_msg F) ?global) = Inr ?global"
    by (simp only: map_map comp_def) (auto simp: map_res_Inr_iff list_all2_conv_all_nth bound_map_simps)
  have "map_res (\<lambda>i. if i = 0 then Inr ?global else bind_res (map_res (map_res min_max_of_msg) (streams ! i)) (\<lambda>ls. Inr (concat ls))) [0..<length mms]
      = Inr (map (\<lambda>_. ?global) [0..<length mms])"
    by (rule map_res_total) (simp add: streams(2) read del: map_map)
  moreover have "\<exists>w' \<in> length ` set mms. \<forall>l \<in> set mms. length l = w'" using assms(2,3) by (auto simp: neq_Nil_conv)
  ultimately have "global_min_max F order order2 mms = Some (Inr (replicate (length mms) ?global))"
    using rounds streams(1) by (simp add: global_min_max_def w map_replicate_const del: map_map)
  then show ?thesis by (intro exI[of _ ?global]) (simp add: bound_map_simps)
qed

lemma global_min_max_agrees_witness:
  "\<exists>global. global_min_max rat_fl (\<lambda>_ _. rev) (\<lambda>_. rev) [[bound_map 1 5], [bound_map 0 3]] = Some (Inr [global, global])
    \<and> length global = 1 \<and> param rat_fl (global ! 0) ''min'' = 0 \<and> param rat_fl (global ! 0) ''max'' = 5"
proof -
  let ?mms = "[[bound_map 1 5], [bound_map 0 3]] :: rat params list list"
  have "fl_lt rat_fl = (<)" "?mms \<noteq> []" "\<forall>l \<in> set ?mms. length l = 1" "\<forall>r :: nat. keeps_all ((\<lambda>_ _. rev) r :: nat \<Rightarrow> rat list list \<Rightarrow> rat list list)"
    "keeps_all (\<lambda>_ :: nat. rev :: rat list list list \<Rightarrow> rat list list list)"
    "\<forall>l \<in> set ?mms. \<forall>mm \<in> set l. param rat_fl mm ''min'' \<le> fl_inf rat_fl \<and> fl_neg rat_fl (fl_inf rat_fl) \<le> param rat_fl mm ''max''"
    by (simp_all add: rat_fl_def keeps_all_def bound_map_simps)
  from global_min_max_agrees[OF this] show ?thesis
    by (auto simp: bound_map_simps numeral_2_eq_2)
qed

end
