(* ===== verification/Gbdt_Program.thy ===== *)
theory Gbdt_Program
  imports Complex_Main Gbdt_Boost Gbdt_Global "HOL-Library.Signed_Division"
begin

text \<open>
  \<open>examples2/gbdt/gbdt_example_hdfs.cpp\<close>: the program that grows boosted trees on the engine.  The lines of
  the files are read, the records are divided among the workers of the node, each worker builds its forest and predicts its
  share of the test records, and node 0 computes the error over all of them.
\<close>

section \<open>Reading and dividing the records\<close>

text \<open>A loading thread stops at the first empty record.\<close>

fun load_strings :: "string list \<Rightarrow> string list \<Rightarrow> string list" where
  "load_strings [] dat = dat"
| "load_strings (r # rs) dat = (if r = [] then dat else load_strings rs (dat @ [r]))"

text \<open>\<open>insert(end, first + lo, first + hi)\<close>; \<open>None\<close> is \<open>all.end()\<close>.\<close>

definition take_part :: "int \<Rightarrow> int option \<Rightarrow> 'f list \<Rightarrow> 'f list res" where
  "take_part lo hi xs =
     (let hi = (case hi of None \<Rightarrow> int (length xs) | Some h \<Rightarrow> h)
      in check_that (0 \<le> lo \<and> lo \<le> hi \<and> hi \<le> int (length xs)) Out_of_bounds (Inr (drop (nat lo) (take (nat hi) xs))))"

definition distribute_data ::
  "int \<Rightarrow> int \<Rightarrow> int \<Rightarrow> 'f list \<Rightarrow> 'f list \<Rightarrow> 'f list list \<Rightarrow> 'f list list \<Rightarrow> ('f list \<times> 'f list list) res"
where
  "distribute_data data_num worker_id worker_num all_class cls all_feats feats =
     check_that (worker_num \<noteq> 0) Div_by_zero
    (let per = data_num sdiv worker_num in
     bind_res (as_i32 (worker_id * per)) (\<lambda>lo.
     bind_res (if worker_id = worker_num - 1 then Inr None
               else bind_res (as_i32 ((worker_id + 1) * per)) (\<lambda>hi. Inr (Some hi))) (\<lambda>hi.
     bind_res (take_part lo hi all_class) (\<lambda>part.
     bind_res (map_res (\<lambda>i. bind_res (vec_at all_feats i) (\<lambda>col. bind_res (take_part lo hi col) (\<lambda>p. Inr (feats ! i @ p)))) [0..<length feats]) (\<lambda>feats.
       Inr (cls @ part, feats))))))"

text \<open>The share of a worker, into vectors that are empty at first.\<close>

definition worker_part :: "'f data_loader \<Rightarrow> int \<Rightarrow> int \<Rightarrow> ('f list \<times> 'f list list) res" where
  "worker_part dl local_id worker_num =
     distribute_data (int (length (dl_class dl))) local_id worker_num (dl_class dl) [] (dl_feats dl) (replicate (length (dl_feats dl)) [])"

section \<open>A worker\<close>

record 'f gbdt_flags =
  gf_num_of_trees :: int
  gf_max_depth :: int
  gf_complexity :: 'f
  gf_rank_fraction :: 'f

definition gbdt_params :: "'f fl \<Rightarrow> 'f gbdt_flags \<Rightarrow> int \<Rightarrow> int \<Rightarrow> int \<Rightarrow> 'f params" where
  "gbdt_params F fl global_num my_node wid =
     fold (\<lambda>(k, v). om_set k v)
       [(''num_of_trees'', fl_int F (gf_num_of_trees fl)), (''max_depth'', fl_int F (gf_max_depth fl)),
        (''complexity_of_leaf'', gf_complexity fl), (''rank_fraction'', gf_rank_fraction fl),
        (''total_data_num'', fl_int F global_num), (''node_id'', fl_int F my_node), (''worker_id'', fl_int F wid)] []"

definition gbdt_predict :: "'f fl \<Rightarrow> 'f controller \<Rightarrow> 'f data_loader \<Rightarrow> int \<Rightarrow> int \<Rightarrow> 'f params res" where
  "gbdt_predict F c test local_id worker_num =
     bind_res (worker_part test local_id worker_num) (\<lambda>(classes, feats). calculate_predict_result F c feats classes [])"

text \<open>The lambda of the task: train on the share of the training records, predict the share of the test records.  The
  numbers \<open>n\<close> and \<open>d\<close> are the fuel of \<open>build_forest\<close>.\<close>

definition gbdt_worker ::
  "nat \<Rightarrow> nat \<Rightarrow> 'f fl \<Rightarrow> ('f, 'm) kv_ops \<Rightarrow> 'f gbdt_flags \<Rightarrow> 'f \<Rightarrow> int \<Rightarrow> int \<Rightarrow> int \<Rightarrow> int \<Rightarrow> int \<Rightarrow> 'f data_loader \<Rightarrow> 'f data_loader \<Rightarrow> 'f params list \<Rightarrow> 'm
    \<Rightarrow> ('f params \<times> 'f controller \<times> 'm) res option"
where
  "gbdt_worker n d F T fl junk global_num my_node local_id wid worker_num train_set test mm m =
     (case worker_part train_set local_id worker_num of
        Inl e \<Rightarrow> Some (Inl e)
      | Inr (classes, feats) \<Rightarrow>
          map_option (\<lambda>r. bind_res r (\<lambda>(_, _, c, m).
              bind_res (gbdt_predict F c test local_id worker_num) (\<lambda>res. Inr (res, c, m))))
            (build_forest n d F T classes feats mm
               (controller_init F [(''loss_function'', ''square_error'')] (gbdt_params F fl global_num my_node wid) (controller_new junk), m)))"

section \<open>The error of the node\<close>

text \<open>The workers of a node add their results to one map, and nothing keeps two of them from adding at once.  Each \<open>+=\<close> reads the
  entry and then writes it; a worker is a program counter and the value it has read.  The map has both entries from the start, so
  that \<open>operator[]\<close> changes nothing.\<close>

definition prediction_step :: "'f fl \<Rightarrow> 'f params list \<Rightarrow> nat \<Rightarrow> 'f params \<times> (nat \<times> 'f) list \<Rightarrow> 'f params \<times> (nat \<times> 'f) list" where
  "prediction_step F results j = (\<lambda>(all, ws).
     if length ws \<le> j then (all, ws)
     else let (pc, x) = ws ! j; res = results ! j in
       if pc = 0 then (all, ws[j := (1, param F all ''sse'')])
       else if pc = 1 then (om_set ''sse'' (fl_add F x (param F res ''sse'')) all, ws[j := (2, x)])
       else if pc = 2 then (all, ws[j := (3, param F all ''num'')])
       else if pc = 3 then (om_set ''num'' (fl_add F x (param F res ''num'')) all, ws[j := (4, x)])
       else (all, ws))"

text \<open>\<open>schedule\<close>: the worker that takes the next step.\<close>

definition node_result :: "'f fl \<Rightarrow> nat list \<Rightarrow> 'f params list \<Rightarrow> 'f params" where
  "node_result F schedule results =
     fst (fold (prediction_step F results) schedule
       (om_set ''num'' (fl_int F 0) (om_set ''sse'' (fl_int F 0) []), replicate (length results) (0, fl_int F 0)))"

text \<open>The predictions of the workers of all nodes, with the forest that each has, and what node 0 logs; the workers of
  node \<open>i\<close> take their steps as \<open>schedule i\<close> says.\<close>

definition global_error ::
  "'f fl \<Rightarrow> (nat \<Rightarrow> 'f list list \<Rightarrow> 'f list list) \<Rightarrow> (nat \<Rightarrow> nat list) \<Rightarrow> (nat \<Rightarrow> nat \<Rightarrow> 'f controller) \<Rightarrow> nat \<Rightarrow> 'f data_loader list
    \<Rightarrow> ('f \<times> 'f \<times> 'f) res"
where
  "global_error F order schedule forest worker_num tests =
     bind_res (map_res (\<lambda>i. bind_res (map_res (\<lambda>j. gbdt_predict F (forest i j) (tests ! i) (int j) (int worker_num)) [0..<worker_num])
         (\<lambda>rs. Inr (node_result F (schedule i) rs))) [0..<length tests]) (global_predict_result F order)"

section \<open>Every record has one worker\<close>

definition share :: "nat \<Rightarrow> nat \<Rightarrow> nat \<Rightarrow> 'f list \<Rightarrow> 'f list" where
  "share W j n xs = drop (j * (n div W)) (take (if Suc j = W then n else Suc j * (n div W)) xs)"

lemma share_bounds:
  assumes "j < W"
  shows "j * (n div W) \<le> (if Suc j = W then n else Suc j * (n div W))" "(if Suc j = W then n else Suc j * (n div W)) \<le> n"
proof -
  have le: "k * (n div W) \<le> n" if "k \<le> W" for k
    using mult_le_mono1[OF that, of "n div W"] by (meson order_trans times_div_less_eq_dividend)
  show "j * (n div W) \<le> (if Suc j = W then n else Suc j * (n div W))" using le[of j] assms by simp
  show "(if Suc j = W then n else Suc j * (n div W)) \<le> n" using le[of "Suc j"] assms by simp
qed

lemma take_part_share:
  assumes "j < W" "length xs = n"
  shows "take_part (int j * int (n div W)) (if int j = int W - 1 then None else Some ((int j + 1) * int (n div W))) xs = Inr (share W j n xs)"
proof -
  have last: "int j = int W - 1 \<longleftrightarrow> Suc j = W" using assms(1) by linarith
  have lo: "int j * int (n div W) = int (j * (n div W))" "(int j + 1) * int (n div W) = int (Suc j * (n div W))" by (simp_all add: algebra_simps)
  show ?thesis
    using share_bounds[OF assms(1), of n] assms(2)
    by (cases "Suc j = W") (simp_all add: take_part_def last lo share_def check_that_def del: mult_Suc of_nat_mult)
qed

lemma worker_part_ok:
  assumes "dl_ok dl" "j < W" "length (dl_class dl) < 2147483648"
  shows "worker_part dl (int j) (int W) = Inr (share W j (length (dl_class dl)) (dl_class dl), map (share W j (length (dl_class dl))) (dl_feats dl))"
proof -
  let ?n = "length (dl_class dl)"
  define hi where "hi = (if int j = int W - 1 then None else Some ((int j + 1) * int (?n div W)))"
  have per: "int ?n sdiv int W = int (?n div W)" using assms(2) by (cases "?n = 0") (simp_all add: signed_divide_int_def zdiv_int)
  have le: "k * (?n div W) \<le> ?n" if "k \<le> W" for k
    using mult_le_mono1[OF that, of "?n div W"] by (meson order_trans times_div_less_eq_dividend)
  have small: "in_i32 (int k * int (?n div W))" if "k \<le> W" for k
  proof -
    have "int k * int (?n div W) = int (k * (?n div W))" by simp
    then show ?thesis using le[OF that] assms(3) unfolding in_i32_def by linarith
  qed
  have lo: "as_i32 (int j * int (?n div W)) = Inr (int j * int (?n div W))" using small[of j] assms(2) by simp
  have hi: "(if int j = int W - 1 then Inr None else bind_res (as_i32 ((int j + 1) * int (?n div W))) (\<lambda>hi. Inr (Some hi))) = Inr hi"
    using small[of "Suc j"] assms(2) by (simp add: add.commute hi_def)
  have part: "take_part (int j * int (?n div W)) hi xs = Inr (share W j ?n xs)" if "length xs = ?n" for xs :: "'a list"
    unfolding hi_def by (rule take_part_share[OF assms(2) that])
  have "map_res (\<lambda>i. bind_res (vec_at (dl_feats dl) i) (\<lambda>col. bind_res (take_part (int j * int (?n div W)) hi col)
        (\<lambda>p. Inr (replicate (length (dl_feats dl)) [] ! i @ p)))) [0..<length (dl_feats dl)]
      = Inr (map (\<lambda>i. share W j ?n (dl_feats dl ! i)) [0..<length (dl_feats dl)])"
    by (rule map_res_total) (use assms(1) part in \<open>simp add: vec_at_def dl_ok_def\<close>)
  moreover have "map (\<lambda>i. share W j ?n (dl_feats dl ! i)) [0..<length (dl_feats dl)] = map (share W j ?n) (dl_feats dl)"
    by (rule nth_equalityI) simp_all
  ultimately show ?thesis
    using assms(2) unfolding worker_part_def distribute_data_def per Let_def lo hi bind_res_simps length_replicate
    by (simp add: part)
qed

text \<open>The shares, one after the other, are all the records.\<close>

lemma shares_upto:
  "k < W \<Longrightarrow> length xs = n \<Longrightarrow> concat (map (\<lambda>j. share W j n xs) [0..<k]) = take (k * (n div W)) xs"
proof (induction k)
  case (Suc k)
  have "share W k n xs = drop (k * (n div W)) (take (Suc k * (n div W)) xs)" using Suc.prems by (simp add: share_def)
  then have "take (k * (n div W)) xs @ share W k n xs = take (Suc k * (n div W)) xs"
    by (metis (no_types) append_take_drop_id le_add2 min.absorb1 mult_Suc take_take)
  then show ?case using Suc by simp
qed simp

lemma shares_all:
  assumes "0 < W" "length xs = n"
  shows "concat (map (\<lambda>j. share W j n xs) [0..<W]) = xs"
proof -
  obtain k where k: "W = Suc k" using assms(1) by (cases W) auto
  have "concat (map (\<lambda>j. share W j n xs) [0..<k]) = take (k * (n div W)) xs" using shares_upto[of k W xs n] assms(2) k by simp
  moreover have "share W k n xs = drop (k * (n div W)) xs" using k assms(2) by (simp add: share_def)
  ultimately show ?thesis by (simp add: k)
qed

text \<open>The worker that has record \<open>r\<close> of \<open>n\<close>.\<close>

definition owner :: "nat \<Rightarrow> nat \<Rightarrow> nat \<Rightarrow> nat" where
  "owner W n r = (if n div W = 0 then W - 1 else min (r div (n div W)) (W - 1))"

lemma owner_of_share:
  assumes "j < W" "r \<in> set (share W j n [0..<n])"
  shows "owner W n r = j"
proof -
  let ?q = "n div W" and ?hi = "if Suc j = W then n else Suc j * (n div W)"
  have hi: "?hi \<le> n" by (rule share_bounds(2)[OF assms(1)])
  then have "take ?hi [0..<n] = [0..<?hi]" by (cases "Suc j = W") (simp_all only: if_True if_False take_upt add_0 take_all length_upt diff_zero order_refl)
  then have r: "j * ?q \<le> r" "r < ?hi" using assms(2) unfolding share_def by (simp_all only: drop_upt set_upt add_0 atLeastLessThan_iff)
  show ?thesis
  proof (cases "?q = 0")
    case True
    have "Suc j = W"
    proof (rule ccontr)
      assume "Suc j \<noteq> W"
      then show False using r(2) True by simp
    qed
    then show ?thesis using True by (simp add: owner_def)
  next
    case q: False
    have le: "j \<le> r div ?q" using div_le_mono[OF r(1), of ?q] q by simp
    show ?thesis
    proof (cases "Suc j = W")
      case True
      then have "W - 1 = j" by simp
      then show ?thesis using q le by (simp add: owner_def)
    next
      case False
      then have "r div ?q < Suc j" using r(2) q by (intro less_mult_imp_div_less) simp
      then show ?thesis using le q assms(1) by (simp add: owner_def)
    qed
  qed
qed

section \<open>The error counts every record once\<close>

definition data_row :: "'f data_loader \<Rightarrow> nat \<Rightarrow> 'f list" where
  "data_row dl r = map (\<lambda>col. col ! r) (dl_feats dl)"

definition sq_error :: "('f list \<Rightarrow> 'f::ring_1) \<Rightarrow> 'f data_loader \<Rightarrow> nat \<Rightarrow> 'f" where
  "sq_error p dl r = (dl_class dl ! r - p (data_row dl r))\<^sup>2"

text \<open>The squared error over all the records, each with the prediction of the worker that has it.\<close>

definition all_errors :: "nat \<Rightarrow> (nat \<Rightarrow> 'f list \<Rightarrow> 'f::ring_1) \<Rightarrow> 'f data_loader \<Rightarrow> 'f" where
  "all_errors W p dl = (\<Sum>r\<leftarrow>[0..<length (dl_class dl)]. sq_error (p (owner W (length (dl_class dl)) r)) dl r)"

definition error_map :: "'f \<Rightarrow> 'f \<Rightarrow> 'f params" where
  "error_map s n = om_set ''num'' n (om_set ''sse'' s [])"

lemma error_map_simps: "param F (error_map s n) ''sse'' = s" "param F (error_map s n) ''num'' = n"
  "om_set ''sse'' s' (error_map s n) = error_map s' n" "om_set ''num'' n' (error_map s n) = error_map s n'"
  "result_msg (error_map s n) = Inr [s, n]"
  by (simp_all add: error_map_def param_def result_msg_def of_opt_def)

lemma share_map: "share W j n (map f xs) = map f (share W j n xs)"
  by (simp add: share_def drop_map take_map)

lemma share_set: "set (share W j n xs) \<subseteq> set xs"
  unfolding share_def by (meson order_trans set_drop_subset set_take_subset)

lemma calculate_predict_result_sum:
  fixes F :: "'f::linordered_field fl"
  assumes "exact_fl F" "\<And>i. i < length classes \<Longrightarrow> bind_res (feat_vect_by_row feats i) (controller_predict F c) = Inr (v i)"
  shows "calculate_predict_result F c feats classes [] = Inr (error_map (\<Sum>i\<leftarrow>[0..<length classes]. (classes ! i - v i)\<^sup>2) (of_nat (length classes)))"
proof -
  have "fold_res (\<lambda>i sse. bind_res (feat_vect_by_row feats i) (\<lambda>row. bind_res (controller_predict F c row) (\<lambda>v.
      let e = fl_sub F (classes ! i) v in Inr (fl_add F sse (fl_mul F e e))))) [0..<k] (fl_int F 0) = Inr (\<Sum>i\<leftarrow>[0..<k]. (classes ! i - v i)\<^sup>2)"
    if "k \<le> length classes" for k
    using that
  proof (induction k)
    case (Suc k)
    obtain row where "feat_vect_by_row feats k = Inr row" "controller_predict F c row = Inr (v k)"
      using assms(2)[of k] Suc.prems by (auto simp: res_simps)
    then show ?case using Suc assms(1) by (simp add: fold_res_append exact_fl_def power2_eq_square Let_def)
  qed (use assms(1) in \<open>simp add: exact_fl_def\<close>)
  from this[OF order_refl] show ?thesis
    using assms(1) by (simp add: calculate_predict_result_def error_map_def exact_fl_def)
qed

lemma gbdt_predict_sum:
  fixes F :: "'f::linordered_field fl"
  assumes "exact_fl F" "dl_ok dl" "length (dl_class dl) < 2147483648" "j < W"
    and ok: "\<And>r. r < length (dl_class dl) \<Longrightarrow> controller_predict F c (data_row dl r) = Inr (p (data_row dl r))"
  shows "gbdt_predict F c dl (int j) (int W)
    = Inr (error_map (\<Sum>r\<leftarrow>share W j (length (dl_class dl)) [0..<length (dl_class dl)]. sq_error p dl r)
        (of_nat (length (share W j (length (dl_class dl)) [0..<length (dl_class dl)]))))"
proof -
  let ?n = "length (dl_class dl)"
  let ?rs = "share W j ?n [0..<?n]"
  have col: "share W j ?n xs = map ((!) xs) ?rs" if "length xs = ?n" for xs :: "'f list"
    using share_map[of W j ?n "(!) xs" "[0..<?n]"] that map_nth[of xs] by simp
  have feats: "map (share W j ?n) (dl_feats dl) = map (\<lambda>col. map ((!) col) ?rs) (dl_feats dl)"
    using assms(2) col by (auto simp: dl_ok_def)
  have in_rs: "?rs ! i < ?n" if "i < length ?rs" for i
    using share_set[of W j ?n "[0..<?n]"] nth_mem[OF that] by auto
  have row: "feat_vect_by_row (map (\<lambda>col. map ((!) col) ?rs) (dl_feats dl)) i = Inr (data_row dl (?rs ! i))" if "i < length ?rs" for i
    using feat_vect_by_row_ok[of "map (\<lambda>col. map ((!) col) ?rs) (dl_feats dl)" i] that by (simp add: data_row_def comp_def)
  have sums: "(\<Sum>i\<leftarrow>[0..<length ?rs]. f (?rs ! i)) = (\<Sum>r\<leftarrow>?rs. f r)" for f :: "nat \<Rightarrow> 'f"
    by (rule arg_cong[where f = sum_list], rule nth_equalityI) simp_all
  have "calculate_predict_result F c (map (\<lambda>col. map ((!) col) ?rs) (dl_feats dl)) (map ((!) (dl_class dl)) ?rs) []
      = Inr (error_map (\<Sum>i\<leftarrow>[0..<length ?rs]. (map ((!) (dl_class dl)) ?rs ! i - p (data_row dl (?rs ! i)))\<^sup>2) (of_nat (length ?rs)))"
    using calculate_predict_result_sum[OF assms(1), of "map ((!) (dl_class dl)) ?rs" _ c "\<lambda>i. p (data_row dl (?rs ! i))"] row ok in_rs by simp
  also have "(\<Sum>i\<leftarrow>[0..<length ?rs]. (map ((!) (dl_class dl)) ?rs ! i - p (data_row dl (?rs ! i)))\<^sup>2) = (\<Sum>i\<leftarrow>[0..<length ?rs]. sq_error p dl (?rs ! i))"
    by (rule arg_cong[where f = sum_list], rule map_cong) (auto simp: sq_error_def)
  finally show ?thesis
    using worker_part_ok[OF assms(2,4,3)] by (simp only: gbdt_predict_def bind_res_simps prod.case feats col[OF refl] sums)
qed

text \<open>Additions that do not disturb each other: reading and writing follow each other, in any order of the
  workers, each of which adds twice.\<close>

definition in_pairs :: "nat list \<Rightarrow> nat list" where
  "in_pairs turns = concat (map (\<lambda>j. [j, j]) turns)"

definition twice_each :: "nat \<Rightarrow> nat list \<Rightarrow> bool" where
  "twice_each W turns \<longleftrightarrow> set turns \<subseteq> {..<W} \<and> (\<forall>j \<in> set [0..<W]. count_list turns j = 2)"

text \<open>What has been added after some additions: of a worker that has added once the first, of one that has added twice both.\<close>

definition added_up :: "nat \<Rightarrow> (nat \<Rightarrow> 'f::comm_monoid_add) \<Rightarrow> (nat \<Rightarrow> bool) \<Rightarrow> 'f" where
  "added_up W f P = (\<Sum>j\<leftarrow>[0..<W]. if P j then f j else 0)"

lemma added_up_one:
  assumes "j < W" "\<not> P j" "\<And>k. Q k \<longleftrightarrow> P k \<or> k = j"
  shows "added_up W f Q = added_up W f P + f j"
proof -
  have eq: "(\<Sum>k\<leftarrow>[0..<n]. if Q k then f k else 0) = (\<Sum>k\<leftarrow>[0..<n]. if P k then f k else 0) + (if j < n then f j else 0)" for n
    by (induction n) (use assms(2,3) in \<open>auto simp: ac_simps less_Suc_eq\<close>)
  show ?thesis using eq[of W] assms(1) by (simp add: added_up_def)
qed

lemma pair_adds:
  fixes F :: "'f::linordered_field fl"
  assumes "exact_fl F" "j < length ws" "results ! j = error_map s n"
  shows "fst (ws ! j) = 0 \<Longrightarrow> \<exists>x. fold (prediction_step F results) [j, j] (error_map a b, ws) = (error_map (a + s) b, ws[j := (2, x)])"
    "fst (ws ! j) = 2 \<Longrightarrow> \<exists>x. fold (prediction_step F results) [j, j] (error_map a b, ws) = (error_map a (b + n), ws[j := (4, x)])"
  using assms by (auto simp: prediction_step_def error_map_simps exact_fl_def Let_def split_beta)

lemma pairs_add:
  fixes F :: "'f::linordered_field fl"
  assumes "exact_fl F" "\<forall>j < W. results ! j = error_map (s j) (n j)"
  shows "set turns \<subseteq> {..<W} \<Longrightarrow> length ws = W \<Longrightarrow> \<forall>j < W. fst (ws ! j) = 2 * c j \<Longrightarrow> \<forall>j < W. c j + count_list turns j = 2
    \<Longrightarrow> fst (fold (prediction_step F results) (in_pairs turns) (error_map (added_up W s (\<lambda>j. 1 \<le> c j)) (added_up W n (\<lambda>j. 2 \<le> c j)), ws))
      = error_map (added_up W s (\<lambda>_. True)) (added_up W n (\<lambda>_. True))"
proof (induction turns arbitrary: ws c)
  case Nil
  then have all: "added_up W f (\<lambda>j. k \<le> c j) = added_up W f (\<lambda>_. True)" if "k \<le> 2" for k f
    using that unfolding added_up_def by (intro arg_cong[where f = sum_list] map_cong refl) simp
  show ?case using all[of 1 s] all[of 2 n] by (simp add: in_pairs_def)
next
  case (Cons j turns)
  let ?c = "c(j := Suc (c j))"
  have j: "j < W" using Cons.prems(1) by simp
  have c: "c j = 0 \<or> c j = 1" "fst (ws ! j) = 2 * c j" using Cons.prems(3,4) j by auto
  have res: "results ! j = error_map (s j) (n j)" "j < length ws" using assms(2) j Cons.prems(2) by simp_all
  have step: "\<exists>x. fold (prediction_step F results) [j, j] (error_map (added_up W s (\<lambda>j. 1 \<le> c j)) (added_up W n (\<lambda>j. 2 \<le> c j)), ws)
      = (error_map (added_up W s (\<lambda>j. 1 \<le> ?c j)) (added_up W n (\<lambda>j. 2 \<le> ?c j)), ws[j := (2 * ?c j, x)])"
  proof (cases "c j = 0")
    case True
    then have "added_up W s (\<lambda>j. 1 \<le> ?c j) = added_up W s (\<lambda>j. 1 \<le> c j) + s j" by (intro added_up_one[OF j]) auto
    moreover have "(\<lambda>j. 2 \<le> ?c j) = (\<lambda>j. 2 \<le> c j)" using True by auto
    ultimately show ?thesis using pair_adds(1)[OF assms(1) res(2,1)] c(2) True by simp
  next
    case False
    then have one: "c j = 1" using c(1) by simp
    then have "added_up W n (\<lambda>j. 2 \<le> ?c j) = added_up W n (\<lambda>j. 2 \<le> c j) + n j" by (intro added_up_one[OF j]) auto
    moreover have "(\<lambda>j. 1 \<le> ?c j) = (\<lambda>j. 1 \<le> c j)" using one by auto
    ultimately show ?thesis using pair_adds(2)[OF assms(1) res(2,1)] c(2) one by simp
  qed
  then obtain x where x: "fold (prediction_step F results) [j, j] (error_map (added_up W s (\<lambda>j. 1 \<le> c j)) (added_up W n (\<lambda>j. 2 \<le> c j)), ws)
      = (error_map (added_up W s (\<lambda>j. 1 \<le> ?c j)) (added_up W n (\<lambda>j. 2 \<le> ?c j)), ws[j := (2 * ?c j, x)])" by blast
  have "fst (fold (prediction_step F results) (in_pairs turns)
      (error_map (added_up W s (\<lambda>j. 1 \<le> ?c j)) (added_up W n (\<lambda>j. 2 \<le> ?c j)), ws[j := (2 * ?c j, x)]))
      = error_map (added_up W s (\<lambda>_. True)) (added_up W n (\<lambda>_. True))"
  proof (rule Cons.IH)
    show "\<forall>k < W. fst (ws[j := (2 * ?c j, x)] ! k) = 2 * ?c k" using Cons.prems(2,3) by (simp add: nth_list_update)
    show "\<forall>k < W. ?c k + count_list turns k = 2" using Cons.prems(4) by (auto split: if_splits)
  qed (use Cons.prems(1,2) in simp_all)
  moreover have "in_pairs (j # turns) = [j, j] @ in_pairs turns" by (simp add: in_pairs_def)
  ultimately show ?case by (simp only: fold_append comp_def x)
qed

lemma node_result_sum:
  fixes F :: "'f::linordered_field fl"
  assumes "exact_fl F" "twice_each W turns"
  shows "node_result F (in_pairs turns) (map (\<lambda>j. error_map (s j) (n j)) [0..<W]) = error_map (\<Sum>j\<leftarrow>[0..<W]. s j) (\<Sum>j\<leftarrow>[0..<W]. n j)"
proof -
  have zero: "om_set ''num'' (fl_int F 0) (om_set ''sse'' (fl_int F 0) []) = error_map 0 0" using assms(1) by (simp add: error_map_def exact_fl_def)
  have none: "added_up W f (\<lambda>_. False) = 0" "added_up W f (\<lambda>_. True) = (\<Sum>j\<leftarrow>[0..<W]. f j)" for f :: "nat \<Rightarrow> 'f"
    by (simp_all add: added_up_def)
  show ?thesis
    using pairs_add[OF assms(1), of W "map (\<lambda>j. error_map (s j) (n j)) [0..<W]" s n turns "replicate W (0, fl_int F 0)" "\<lambda>_. 0"] assms(2)
    unfolding node_result_def zero by (simp add: twice_each_def none)
qed

text \<open>Two workers that read before either has written: what the first one adds is lost.\<close>

lemma overlapping_addition_lost:
  "node_result F [0, 1, 0, 1, 0, 0, 1, 1] [error_map s n, error_map s' n'] = error_map (fl_add F (fl_int F 0) s') (fl_add F (fl_add F (fl_int F 0) n) n')"
proof -
  have zero: "om_set ''num'' (fl_int F 0) (om_set ''sse'' (fl_int F 0) []) = error_map (fl_int F 0) (fl_int F 0)" by (simp add: error_map_def)
  show ?thesis unfolding node_result_def zero by (simp add: prediction_step_def error_map_simps Let_def)
qed

lemma add_results_sum:
  fixes F :: "'f::linordered_field fl"
  assumes "exact_fl F"
  shows "add_results F (map (\<lambda>(s, n). [s, n]) ps) = Inr (sum_list (map fst ps), sum_list (map snd ps))"
proof -
  have add: "fl_add F = (+)" and zero: "fl_int F 0 = 0" using assms by (simp_all add: exact_fl_def)
  have "fold_res (\<lambda>msg (s, n). bind_res (vec_at msg 0) (\<lambda>x. bind_res (vec_at msg 1) (\<lambda>y. Inr (s + x, n + y))))
      (map (\<lambda>(s, n). [s, n]) ps) (a, b) = Inr (a + sum_list (map fst ps), b + sum_list (map snd ps))" for a b :: 'f
    by (induction ps arbitrary: a b) (simp_all add: vec_at_def split_beta add.assoc)
  from this[of 0 0] show ?thesis by (simp add: add_results_def add zero)
qed

lemma sums_of_perm:
  fixes ps :: "('a::comm_monoid_add \<times> 'b::comm_monoid_add) list"
  assumes "mset ps = mset qs"
  shows "sum_list (map fst ps) = sum_list (map fst qs)" "sum_list (map snd ps) = sum_list (map snd qs)"
  by (metis assms mset_map sum_mset_sum_list)+

lemma shares_sum:
  fixes f :: "'b \<Rightarrow> 'f::comm_monoid_add"
  assumes "0 < W" "length xs = n"
  shows "(\<Sum>j\<leftarrow>[0..<W]. \<Sum>x\<leftarrow>share W j n xs. f x) = (\<Sum>x\<leftarrow>xs. f x)"
proof -
  have "sum_list (map f (concat xss)) = (\<Sum>xs\<leftarrow>xss. \<Sum>x\<leftarrow>xs. f x)" for xss by (induction xss) simp_all
  from this[of "map (\<lambda>j. share W j n xs) [0..<W]"] show ?thesis by (simp add: shares_all[OF assms] comp_def)
qed

text \<open>What the workers of one node add up.\<close>

lemma node_total:
  fixes F :: "'f::linordered_field fl"
  assumes "exact_fl F" "0 < W" "twice_each W turns" "dl_ok dl" "length (dl_class dl) < 2147483648"
    and "\<forall>j < W. \<forall>r < length (dl_class dl). controller_predict F (c j) (data_row dl r) = Inr (p j (data_row dl r))"
  shows "bind_res (map_res (\<lambda>j. gbdt_predict F (c j) dl (int j) (int W)) [0..<W]) (\<lambda>rs. Inr (node_result F (in_pairs turns) rs))
    = Inr (error_map (all_errors W p dl) (of_nat (length (dl_class dl))))"
proof -
  let ?n = "length (dl_class dl)"
  let ?rs = "\<lambda>j. share W j ?n [0..<?n]"
  have parts: "map_res (\<lambda>j. gbdt_predict F (c j) dl (int j) (int W)) [0..<W]
      = Inr (map (\<lambda>j. error_map (\<Sum>r\<leftarrow>?rs j. sq_error (p j) dl r) (of_nat (length (?rs j)))) [0..<W])"
    by (rule map_res_total) (use gbdt_predict_sum[OF assms(1,4,5)] assms(6) in simp)
  have "(\<Sum>j\<leftarrow>[0..<W]. \<Sum>r\<leftarrow>?rs j. sq_error (p j) dl r) = (\<Sum>j\<leftarrow>[0..<W]. \<Sum>r\<leftarrow>?rs j. sq_error (p (owner W ?n r)) dl r)"
    by (intro arg_cong[where f = sum_list] map_cong refl) (simp add: owner_of_share)
  also have "\<dots> = all_errors W p dl" unfolding all_errors_def by (rule shares_sum[OF assms(2)]) simp
  finally have sse: "(\<Sum>j\<leftarrow>[0..<W]. \<Sum>r\<leftarrow>?rs j. sq_error (p j) dl r) = all_errors W p dl" .
  have one: "(\<Sum>x\<leftarrow>xs. 1 :: 'f) = of_nat (length xs)" for xs :: "nat list" by (induction xs) simp_all
  have num: "(\<Sum>j\<leftarrow>[0..<W]. of_nat (length (?rs j)) :: 'f) = of_nat ?n"
    using shares_sum[OF assms(2), of "[0..<?n]" ?n "\<lambda>_. 1 :: 'f"] unfolding one by simp
  show ?thesis by (simp only: parts bind_res_simps node_result_sum[OF assms(1,3)] sse num)
qed

text \<open>C37. The error that node 0 logs counts every test record of every node exactly once, with the prediction of the worker that
  has it, whatever the number of workers, whatever forests they have and in whatever order the reports of the nodes arrive: it is the sum of the squared errors over all records, and their number.  This is
  without rounding, and as long as no two workers of a node add at the same time: the program does not see to that, and what is added
  between another worker's reading and writing is lost (\<open>overlapping_addition_lost\<close>).\<close>

theorem global_error_counts_all:
  fixes F :: "'f::linordered_field fl"
  assumes "exact_fl F" "0 < W" "tests \<noteq> []" "keeps_all order" "\<forall>i. twice_each W (turns i)"
    and "\<forall>dl \<in> set tests. dl_ok dl \<and> length (dl_class dl) < 2147483648"
    and "\<forall>i < length tests. \<forall>j < W. \<forall>r < length (dl_class (tests ! i)).
      controller_predict F (forest i j) (data_row (tests ! i) r) = Inr (p i j (data_row (tests ! i) r))"
  shows "global_error F order (\<lambda>i. in_pairs (turns i)) forest W tests
    = (let sse = (\<Sum>i\<leftarrow>[0..<length tests]. \<Sum>r\<leftarrow>[0..<length (dl_class (tests ! i))].
             (dl_class (tests ! i) ! r - p i (owner W (length (dl_class (tests ! i))) r) (data_row (tests ! i) r))\<^sup>2);
           num = (\<Sum>dl\<leftarrow>tests. of_nat (length (dl_class dl)))
       in Inr (sse, num, calculate_rmse_of F sse num))"
proof -
  let ?s = "\<lambda>i. all_errors W (p i) (tests ! i)" and ?k = "\<lambda>i. of_nat (length (dl_class (tests ! i))) :: 'f"
  let ?n = "length tests"
  have nodes: "map_res (\<lambda>i. bind_res (map_res (\<lambda>j. gbdt_predict F (forest i j) (tests ! i) (int j) (int W)) [0..<W])
        (\<lambda>rs. Inr (node_result F (in_pairs (turns i)) rs))) [0..<?n]
      = Inr (map (\<lambda>i. error_map (?s i) (?k i)) [0..<?n])"
    by (rule map_res_total, rule node_total[OF assms(1,2) assms(5)[rule_format]]) (use assms(6,7) in auto)
  have msgs: "map_res result_msg (map (\<lambda>i. error_map (?s i) (?k i)) [0..<?n]) = Inr (map (\<lambda>i. [?s i, ?k i]) [0..<?n])"
    by (auto simp: map_res_Inr_iff list_all2_conv_all_nth error_map_simps)
  obtain reports rest where arrive: "exchange order ?n (map (\<lambda>i. (0, [?s i, ?k i])) [0..<?n]) = Inr (reports # rest)"
    "mset reports = mset (map (\<lambda>i. [?s i, ?k i]) [0..<?n])"
    using reports_arrive[OF assms(4), of ?n "\<lambda>i. [?s i, ?k i]"] assms(3) by auto
  have "map (\<lambda>i. [?s i, ?k i]) [0..<?n] = map (\<lambda>(s, n). [s, n]) (map (\<lambda>i. (?s i, ?k i)) [0..<?n])" by simp
  then have "mset reports = mset (map (\<lambda>(s, n). [s, n]) (map (\<lambda>i. (?s i, ?k i)) [0..<?n]))" using arrive(2) by (simp only:)
  from perm_of_map[OF this] obtain ps where ps: "mset ps = mset (map (\<lambda>i. (?s i, ?k i)) [0..<?n])" "reports = map (\<lambda>(s, n). [s, n]) ps"
    by (elim exE conjE)
  have over: "(\<Sum>i\<leftarrow>[0..<?n]. f (tests ! i)) = (\<Sum>dl\<leftarrow>tests. f dl)" for f :: "'f data_loader \<Rightarrow> 'f"
    by (rule arg_cong[where f = sum_list], rule nth_equalityI) simp_all
  have add: "add_results F reports = Inr (\<Sum>i\<leftarrow>[0..<?n]. ?s i, \<Sum>dl\<leftarrow>tests. of_nat (length (dl_class dl)))"
    unfolding ps(2) add_results_sum[OF assms(1)] sums_of_perm[OF ps(1)] map_map comp_def fst_conv snd_conv
    using over[of "\<lambda>dl. of_nat (length (dl_class dl))"] by simp
  have push: "map (Pair 0) (map (\<lambda>i. [?s i, ?k i]) [0..<?n]) = map (\<lambda>i. (0 :: int, [?s i, ?k i])) [0..<?n]" by simp
  have "global_error F order (\<lambda>i. in_pairs (turns i)) forest W tests
      = (let sse = (\<Sum>i\<leftarrow>[0..<?n]. ?s i); num = (\<Sum>dl\<leftarrow>tests. of_nat (length (dl_class dl))) in Inr (sse, num, calculate_rmse_of F sse num))"
    unfolding global_error_def nodes bind_res_simps global_predict_result_def msgs length_map length_upt push diff_zero arrive(1)
    by (simp add: vec_at_def add Let_def)
  then show ?thesis by (simp add: all_errors_def sq_error_def)
qed

definition demo_stump :: "rat gbdt_tree" where
  "demo_stump = (let leaf = (\<lambda>v. Tree_node ((node_new rat_fl [])\<lparr>nd_is_leaf := True, nd_predict_val := v\<rparr>) No_child No_child)
     in Tree_node ((node_new rat_fl [])\<lparr>nd_feat_id := 0, nd_split_val := 1\<rparr>) (leaf 1) (leaf (15 / 2)))"

definition demo_tests :: "rat data_loader list" where
  "demo_tests = [\<lparr>dl_class = [1, 7, 8], dl_feats = [[0, 2, 2]], dl_num_of_record = 3, dl_num_of_feat = 1\<rparr>,
     \<lparr>dl_class = [8], dl_feats = [[9]], dl_num_of_record = 1, dl_num_of_feat = 1\<rparr>]"

lemma demo_stump_predicts:
  "controller_predict rat_fl (demo_controller\<lparr>gc_forest := [demo_stump]\<rparr>) [x] = Inr (if x < 1 then 1 else 15 / 2)"
  by (simp add: controller_predict_def demo_stump_def demo_controller_simps node_new_def vect_at_int_def vec_at_def rat_fl_def Let_def)

theorem global_error_counts_all_witness:
  "global_error rat_fl (\<lambda>_. rev) (\<lambda>_. in_pairs [1, 0, 0, 1]) (\<lambda>_ _. demo_controller\<lparr>gc_forest := [demo_stump]\<rparr>) 2 demo_tests = Inr (3 / 4, 4, 3 / 16)"
proof -
  have row: "data_row dl r = [hd (dl_feats dl) ! r]" if "dl \<in> set demo_tests" for dl r
    using that by (auto simp: demo_tests_def data_row_def)
  have given: "exact_fl rat_fl" "0 < (2 :: nat)" "demo_tests \<noteq> []" "keeps_all (\<lambda>_ :: nat. rev :: rat list list \<Rightarrow> rat list list)"
    "\<forall>i :: nat. twice_each 2 [1, 0, 0, 1]" "\<forall>dl \<in> set demo_tests. dl_ok dl \<and> length (dl_class dl) < 2147483648"
    by (simp_all add: exact_fl_def rat_fl_def keeps_all_def demo_tests_def dl_ok_def twice_each_def numeral_2_eq_2)
  note counted = global_error_counts_all[OF given, of "\<lambda>_ _. demo_controller\<lparr>gc_forest := [demo_stump]\<rparr>" "\<lambda>_ _ row. if hd row < 1 then 1 else 15 / 2"]
  show ?thesis
    by (subst counted) (simp add: row demo_stump_predicts, simp add: demo_tests_def data_row_def Let_def calculate_rmse_of_def rat_fl_def numeral_3_eq_3 numeral_2_eq_2 power2_eq_square)
qed

end
