(* ===== verification/Sgd.thy ===== *)
theory Sgd
  imports Complex_Main Gbdt_Table
begin

text \<open>
  \<open>examples2/sgd/lib/objectives.hpp\<close>, \<open>optimizers.hpp\<close>: stochastic gradient descent on a table of the
  parameter server.  Floating point operations are the ones of \<open>fl\<close> and, for the expressions that
  are computed in \<open>double\<close>, those of \<open>sgd_fl\<close>; \<open>rnd k\<close> is the value of the \<open>k\<close>-th call of \<open>rand\<close>.
\<close>

section \<open>Objectives\<close>

text \<open>\<open>sg_log0 loss p\<close> is \<open>loss + -log(1. - p)\<close>, \<open>sg_log1\<close> with \<open>log(p)\<close>; \<open>sg_hinge loss y p\<close> is \<open>loss + max(0., 1. - y * p)\<close>.\<close>

record 'f sgd_fl =
  sg_sigmoid :: "'f \<Rightarrow> 'f"
  sg_log0 :: "'f \<Rightarrow> 'f \<Rightarrow> 'f"
  sg_log1 :: "'f \<Rightarrow> 'f \<Rightarrow> 'f"
  sg_hinge :: "'f \<Rightarrow> 'f \<Rightarrow> 'f \<Rightarrow> 'f"

type_synonym 'f point = "(int \<times> 'f) list \<times> 'f"

datatype 'f objective = Sigmoid_objective | Lasso_objective 'f | Svm_objective 'f

definition process_keys :: "int \<Rightarrow> u32 list \<Rightarrow> u32 list" where
  "process_keys num_params keys = keys @ [to_u32 (num_params - 1)]"

definition all_keys :: "int \<Rightarrow> u32 list" where
  "all_keys num_params = map (\<lambda>i. to_u32 (int i)) [0..<nat num_params]"

definition vec_back :: "'a list \<Rightarrow> 'a res" where
  "vec_back xs = (if xs = [] then Inl Out_of_bounds else Inr (List.last xs))"

text \<open>\<open>at(i)\<close> throws; \<open>back()\<close> of an empty vector is undefined.\<close>

definition at_update :: "nat \<Rightarrow> ('f \<Rightarrow> 'f) \<Rightarrow> 'f list \<Rightarrow> 'f list res" where
  "at_update i g delta = (if i < length delta then Inr (delta[i := g (delta ! i)]) else Inl Out_of_range_exception)"

definition back_update :: "('f \<Rightarrow> 'f) \<Rightarrow> 'f list \<Rightarrow> 'f list res" where
  "back_update g delta = (if delta = [] then Inl Out_of_bounds else Inr (butlast delta @ [g (List.last delta)]))"

text \<open>\<open>while (keys[i] < field.first) i += 1\<close>, from the rest of the keys at \<open>i\<close>.\<close>

fun seek_key :: "u32 list \<Rightarrow> u32 \<Rightarrow> nat \<Rightarrow> nat res" where
  "seek_key [] f i = Inl Out_of_bounds"
| "seek_key (k # ks) f i = (if k < f then seek_key ks f (i + 1) else Inr i)"

fun walk_fields :: "(nat \<Rightarrow> 'f \<Rightarrow> 's \<Rightarrow> 's res) \<Rightarrow> u32 list \<Rightarrow> (int \<times> 'f) list \<Rightarrow> nat \<Rightarrow> 's \<Rightarrow> 's res" where
  "walk_fields g keys [] i s = Inr s"
| "walk_fields g keys ((f, v) # fs) i s =
     bind_res (seek_key (drop i keys) (to_u32 f) i) (\<lambda>i. bind_res (g i v s) (walk_fields g keys fs i))"

definition linear_pred :: "'f fl \<Rightarrow> u32 list \<Rightarrow> 'f list \<Rightarrow> (int \<times> 'f) list \<Rightarrow> 'f res" where
  "linear_pred F keys params x =
     bind_res (walk_fields (\<lambda>i v s. bind_res (vec_at params i) (\<lambda>p. Inr (fl_add F s (fl_mul F p v)))) keys x 0 (fl_int F 0)) (\<lambda>s.
     bind_res (vec_back params) (\<lambda>b. Inr (fl_add F s b)))"

definition clip_label :: "'f fl \<Rightarrow> 'f \<Rightarrow> 'f" where
  "clip_label F y = (if fl_lt F y (fl_int F 0) then fl_int F 0 else y)"

text \<open>A data point added to the gradient: \<open>err\<close> is \<open>pred_y - y\<close>.\<close>

definition add_error :: "'f fl \<Rightarrow> u32 list \<Rightarrow> (int \<times> 'f) list \<Rightarrow> 'f \<Rightarrow> 'f list \<Rightarrow> 'f list res" where
  "add_error F keys x err delta =
     bind_res (walk_fields (\<lambda>i v. at_update i (\<lambda>d. fl_add F d (fl_mul F v err))) keys x 0 delta)
       (back_update (\<lambda>d. fl_add F d err))"

definition sigmoid_point :: "'f fl \<Rightarrow> 'f sgd_fl \<Rightarrow> u32 list \<Rightarrow> 'f list \<Rightarrow> 'f point \<Rightarrow> 'f list \<Rightarrow> 'f list res" where
  "sigmoid_point F G keys params = (\<lambda>(x, y) delta.
     bind_res (linear_pred F keys params x) (\<lambda>p. add_error F keys x (fl_sub F (sg_sigmoid G p) (clip_label F y)) delta))"

definition lasso_point :: "'f fl \<Rightarrow> u32 list \<Rightarrow> 'f list \<Rightarrow> 'f point \<Rightarrow> 'f list \<Rightarrow> 'f list res" where
  "lasso_point F keys params = (\<lambda>(x, y) delta.
     bind_res (linear_pred F keys params x) (\<lambda>p. add_error F keys x (fl_sub F p y) delta))"

definition svm_point :: "'f fl \<Rightarrow> u32 list \<Rightarrow> 'f list \<Rightarrow> 'f point \<Rightarrow> 'f list \<Rightarrow> 'f list res" where
  "svm_point F keys params = (\<lambda>(x, y) delta.
     bind_res (linear_pred F keys params x) (\<lambda>p.
       if fl_lt F (fl_mul F y p) (fl_int F 1) then
         bind_res (walk_fields (\<lambda>i v. at_update i (\<lambda>d. fl_sub F d (fl_mul F v y))) keys x 0 delta)
           (back_update (\<lambda>d. fl_sub F d y))
       else Inr delta))"

text \<open>The loop over the keys but the last; \<open>keys.size() - 1\<close> wraps when there are none, and \<open>at\<close> throws.\<close>

definition each_key_but_last :: "(nat \<Rightarrow> 'f list \<Rightarrow> 'f list res) \<Rightarrow> u32 list \<Rightarrow> 'f list \<Rightarrow> 'f list res" where
  "each_key_but_last g keys delta =
     (if keys = [] then Inl Out_of_range_exception else fold_res g [0..<length keys - 1] delta)"

definition sigmoid_gradient :: "'f fl \<Rightarrow> 'f sgd_fl \<Rightarrow> 'f point list \<Rightarrow> u32 list \<Rightarrow> 'f list \<Rightarrow> 'f list \<Rightarrow> 'f list res" where
  "sigmoid_gradient F G batch keys params delta =
     (if batch = [] then Inr delta
      else bind_res (fold_res (sigmoid_point F G keys params) batch delta) (\<lambda>delta.
        Inr (map (\<lambda>d. fl_div F d (fl_int F (int (length batch)))) delta)))"

definition lasso_gradient :: "'f fl \<Rightarrow> 'f \<Rightarrow> 'f point list \<Rightarrow> u32 list \<Rightarrow> 'f list \<Rightarrow> 'f list \<Rightarrow> 'f list res" where
  "lasso_gradient F lambda batch keys params delta =
     (if batch = [] then Inr delta
      else let size = fl_int F (int (length batch)) in
        bind_res (fold_res (lasso_point F keys params) batch delta) (\<lambda>delta.
        bind_res (back_update (\<lambda>d. fl_div F d size) delta)
          (each_key_but_last (\<lambda>i delta. bind_res (at_update i (\<lambda>d. fl_div F d size) delta) (\<lambda>delta.
             bind_res (vec_at params i) (\<lambda>p.
               if fl_le F p (fl_int F 0) \<and> fl_le F (fl_int F 0) p then Inr delta
               else at_update i (\<lambda>d. fl_add F d (if fl_lt F (fl_int F 0) p then lambda else fl_neg F lambda)) delta))) keys)))"

definition svm_gradient :: "'f fl \<Rightarrow> 'f \<Rightarrow> 'f point list \<Rightarrow> u32 list \<Rightarrow> 'f list \<Rightarrow> 'f list \<Rightarrow> 'f list res" where
  "svm_gradient F lambda batch keys params delta =
     (if batch = [] then Inr delta
      else let size = fl_int F (int (length batch)) in
        bind_res (fold_res (svm_point F keys params) batch delta)
          (each_key_but_last (\<lambda>i delta. bind_res (at_update i (\<lambda>d. fl_div F d size) delta) (\<lambda>delta.
             bind_res (vec_at params i) (\<lambda>p. at_update i (\<lambda>d. fl_add F d (fl_mul F lambda p)) delta))) keys))"

definition get_gradient :: "'f fl \<Rightarrow> 'f sgd_fl \<Rightarrow> 'f objective \<Rightarrow> 'f point list \<Rightarrow> u32 list \<Rightarrow> 'f list \<Rightarrow> 'f list \<Rightarrow> 'f list res" where
  "get_gradient F G obj =
     (case obj of
        Sigmoid_objective \<Rightarrow> sigmoid_gradient F G
      | Lasso_objective lambda \<Rightarrow> lasso_gradient F lambda
      | Svm_objective lambda \<Rightarrow> svm_gradient F lambda)"

section \<open>Losses\<close>

definition dense_pred :: "'f fl \<Rightarrow> 'f list \<Rightarrow> (int \<times> 'f) list \<Rightarrow> 'f res" where
  "dense_pred F model x =
     bind_res (fold_res (\<lambda>(f, v) s. bind_res (vect_at_int model f) (\<lambda>p. Inr (fl_add F s (fl_mul F p v)))) x (fl_int F 0)) (\<lambda>s.
     bind_res (vec_back model) (\<lambda>b. Inr (fl_add F s b)))"

definition sigmoid_loss :: "'f fl \<Rightarrow> 'f sgd_fl \<Rightarrow> 'f point list \<Rightarrow> 'f list \<Rightarrow> 'f res" where
  "sigmoid_loss F G store model =
     bind_res (fold_res (\<lambda>(x, y) loss. bind_res (dense_pred F model x) (\<lambda>p.
         let p = sg_sigmoid G p; y = clip_label F y
         in Inr (if fl_le F y (fl_int F 0) \<and> fl_le F (fl_int F 0) y then sg_log0 G loss p else sg_log1 G loss p))) store (fl_int F 0)) (\<lambda>loss.
       Inr (if store = [] then fl_int F 0 else fl_div F loss (fl_int F (int (length store)))))"

definition mean_loss :: "'f fl \<Rightarrow> ('f \<Rightarrow> 'f \<Rightarrow> 'f \<Rightarrow> 'f) \<Rightarrow> 'f point list \<Rightarrow> 'f list \<Rightarrow> 'f res" where
  "mean_loss F g store model =
     bind_res (fold_res (\<lambda>(x, y) loss. bind_res (dense_pred F model x) (\<lambda>p. Inr (g loss y p))) store (fl_int F 0)) (\<lambda>loss.
       Inr (if store = [] then loss else fl_div F loss (fl_int F (int (length store)))))"

definition lasso_loss :: "'f fl \<Rightarrow> 'f \<Rightarrow> 'f point list \<Rightarrow> 'f list \<Rightarrow> 'f res" where
  "lasso_loss F lambda store model =
     bind_res (mean_loss F (\<lambda>loss y p. let diff = fl_sub F p y in fl_add F loss (fl_mul F diff diff)) store model) (\<lambda>loss.
       Inr (fl_add F loss (fl_mul F (fold (\<lambda>p s. fl_add F s (fl_abs F p)) model (fl_int F 0)) lambda)))"

definition svm_loss :: "'f fl \<Rightarrow> 'f sgd_fl \<Rightarrow> 'f \<Rightarrow> 'f point list \<Rightarrow> 'f list \<Rightarrow> 'f res" where
  "svm_loss F G lambda store model =
     bind_res (mean_loss F (sg_hinge G) store model) (\<lambda>loss.
       Inr (fl_add F loss (fl_mul F (fold (\<lambda>p s. fl_add F s (fl_mul F p p)) model (fl_int F 0)) lambda)))"

definition get_loss :: "'f fl \<Rightarrow> 'f sgd_fl \<Rightarrow> 'f objective \<Rightarrow> 'f point list \<Rightarrow> 'f list \<Rightarrow> 'f res" where
  "get_loss F G obj =
     (case obj of Sigmoid_objective \<Rightarrow> sigmoid_loss F G | Lasso_objective lambda \<Rightarrow> lasso_loss F lambda | Svm_objective lambda \<Rightarrow> svm_loss F G lambda)"

section \<open>The optimizer\<close>

record 'f optimizer_config =
  oc_num_iters :: int
  oc_num_features :: int
  oc_num_workers_per_node :: int
  oc_alpha :: 'f
  oc_batch_size :: int

definition sgd_update :: "'f fl \<Rightarrow> 'f sgd_fl \<Rightarrow> 'f objective \<Rightarrow> 'f point list \<Rightarrow> 'f list \<Rightarrow> 'f list \<Rightarrow> 'f \<Rightarrow> u32 list \<Rightarrow> 'f list res" where
  "sgd_update F G obj batch params deltas alpha keys =
     bind_res (get_gradient F G obj batch keys params deltas) (\<lambda>deltas. Inr (map (\<lambda>d. fl_mul F d (fl_neg F alpha)) deltas))"

text \<open>The points of a batch; behind the last point the start is drawn anew.\<close>

definition draw :: "(nat \<Rightarrow> nat) \<Rightarrow> 'a list \<Rightarrow> nat \<Rightarrow> (nat \<times> nat) res" where
  "draw rnd store k = check_that (store \<noteq> []) Div_by_zero (Inr (rnd k mod length store, k + 1))"

fun pick_batch :: "(nat \<Rightarrow> nat) \<Rightarrow> 'f point list \<Rightarrow> nat \<Rightarrow> nat \<Rightarrow> nat \<Rightarrow> ('f point list \<times> nat) res" where
  "pick_batch rnd store 0 start k = Inr ([], k)"
| "pick_batch rnd store (Suc n) start k =
     bind_res (if start = length store then draw rnd store k else Inr (start, k)) (\<lambda>(start, k).
     bind_res (vec_at store start) (\<lambda>p.
     bind_res (pick_batch rnd store n (start + 1) k) (\<lambda>(ps, k). Inr (p # ps, k))))"

text \<open>An iteration; \<open>floor_alpha\<close> is \<open>max(1e-5f, alpha)\<close>.  The loss is only logged.\<close>

definition sgd_iteration ::
  "'f fl \<Rightarrow> 'f sgd_fl \<Rightarrow> ('f \<Rightarrow> 'f) \<Rightarrow> ('f, 'm) kv_ops \<Rightarrow> (nat \<Rightarrow> nat) \<Rightarrow> 'f objective \<Rightarrow> int \<Rightarrow> bool \<Rightarrow> 'f optimizer_config \<Rightarrow> 'f point list \<Rightarrow> u32 list
    \<Rightarrow> int \<Rightarrow> 'f list \<times> nat \<times> 'm \<Rightarrow> ('f list \<times> nat \<times> 'm) res"
where
  "sgd_iteration F G floor_alpha T rnd obj report leader conf store keys iter = (\<lambda>(deltas, k, m).
     bind_res (kv_get T keys m) (\<lambda>(params, m).
     check_that (length keys = length params) (Check_failed ''keys.size()'')
    (bind_res (draw rnd store k) (\<lambda>(start, k).
     check_that (oc_num_workers_per_node conf \<noteq> 0) Div_by_zero
    (let n = (if (0 \<le> oc_batch_size conf) = (0 < oc_num_workers_per_node conf) then \<bar>oc_batch_size conf\<bar> div \<bar>oc_num_workers_per_node conf\<bar> else 0)
     in bind_res (pick_batch rnd store (nat n) start k) (\<lambda>(batch, k).
     bind_res (sgd_update F G obj batch params deltas (floor_alpha (oc_alpha conf)) keys) (\<lambda>deltas.
     bind_res (if report \<noteq> 0 \<and> (iter + 1) mod report = 0 \<and> leader then get_loss F G obj store params else Inr (fl_int F 0)) (\<lambda>_.
     bind_res (kv_add T keys deltas m) (\<lambda>m. Inr (deltas, k, m))))))))))"

definition sgd_train ::
  "'f fl \<Rightarrow> 'f sgd_fl \<Rightarrow> ('f \<Rightarrow> 'f) \<Rightarrow> ('f, 'm) kv_ops \<Rightarrow> (nat \<Rightarrow> nat) \<Rightarrow> 'f objective \<Rightarrow> int \<Rightarrow> bool \<Rightarrow> 'f optimizer_config \<Rightarrow> 'f point list
    \<Rightarrow> int \<Rightarrow> 'm \<Rightarrow> ('f list \<times> nat \<times> 'm) res"
where
  "sgd_train F G floor_alpha T rnd obj report leader conf store iter_offset m =
     (let keys = all_keys (oc_num_features conf + 1)
      in fold_res (sgd_iteration F G floor_alpha T rnd obj report leader conf store keys)
           [iter_offset..oc_num_iters conf + iter_offset - 1] (replicate (length keys) (fl_int F 0), 0, m))"

section \<open>The walk over the sorted keys is a lookup\<close>

lemma seek_key_finds:
  "sorted_wrt (<) keys \<Longrightarrow> i \<le> j \<Longrightarrow> j < length keys \<Longrightarrow> seek_key (drop i keys) (keys ! j) i = Inr j"
proof (induction "j - i" arbitrary: i)
  case 0
  then have "drop i keys = keys ! j # drop (Suc j) keys" by (simp add: Cons_nth_drop_Suc)
  then show ?case using 0 by simp
next
  case (Suc d)
  then have "drop i keys = keys ! i # drop (Suc i) keys" "keys ! i < keys ! j"
    by (simp_all add: Cons_nth_drop_Suc sorted_wrt_iff_nth_less)
  then show ?case using Suc.hyps(1)[of "Suc i"] Suc.hyps(2) Suc.prems by simp
qed

lemma walk_fields_lookup:
  assumes "sorted_wrt (<) keys" "sorted (map fst x)" "\<forall>(f, v) \<in> set x. 0 \<le> f \<and> f < 4294967296"
    and "\<forall>(f, v) \<in> set x. \<exists>j. i \<le> j \<and> j < length keys \<and> keys ! j = to_u32 f"
    and "\<And>f v s j. (f, v) \<in> set x \<Longrightarrow> j < length keys \<Longrightarrow> keys ! j = to_u32 f \<Longrightarrow> g j v s = h (f, v) s"
  shows "walk_fields g keys x i s = fold_res h x s"
  using assms(2-)
proof (induction x arbitrary: i s)
  case (Cons p x)
  obtain f v where p: "p = (f, v)" by (cases p)
  obtain j where j: "i \<le> j" "j < length keys" "keys ! j = to_u32 f" using Cons.prems(3) p by auto
  have step: "seek_key (drop i keys) (to_u32 f) i = Inr j" using seek_key_finds[OF assms(1) j(1,2)] j(3) by simp
  have later: "\<exists>l. j \<le> l \<and> l < length keys \<and> keys ! l = to_u32 f'" if m: "(f', v') \<in> set x" for f' v'
  proof -
    have le: "f \<le> f'" using Cons.prems(1) m p by force
    obtain l where l: "l < length keys" "keys ! l = to_u32 f'" using Cons.prems(3) m by fastforce
    have "uint (to_u32 f) = f" "uint (to_u32 f') = f'" using Cons.prems(2) m p uint_to_u32 by fastforce+
    then have "keys ! j \<le> keys ! l" using le j(3) l(2) by (simp add: word_le_def)
    then have "\<not> l < j" using assms(1) j(2) by (metis leD sorted_wrt_nth_less)
    then show ?thesis using l not_le by blast
  qed
  have "walk_fields g keys x j s' = fold_res h x s'" for s'
    by (rule Cons.IH) (use Cons.prems later in \<open>auto simp: p\<close>)
  moreover have "g j v s = h (f, v) s" by (rule Cons.prems(4)[OF _ j(2,3)]) (simp add: p)
  moreover have "walk_fields g keys x j = fold_res h x" using calculation(1) by (rule ext)
  ultimately show ?case by (simp add: p step)
qed simp

text \<open>C34. With the keys of a batch and their parameters pulled, the linear prediction in the gradient, found by
  walking once over the sorted keys, is the one of the loss, which indexes the whole model.\<close>

theorem pulled_prediction_is_dense:
  assumes "sorted_wrt (<) keys" "\<forall>k \<in> set keys. unat k < length model" "params = map (\<lambda>k. model ! unat k) keys"
    and "keys \<noteq> []" "unat (List.last keys) = length model - 1"
    and "sorted (map fst x)" "\<forall>(f, v) \<in> set x. 0 \<le> f \<and> f < 4294967296 \<and> to_u32 f \<in> set keys"
  shows "linear_pred F keys params x = dense_pred F model x \<and> (\<exists>p. dense_pred F model x = Inr p)"
proof -
  let ?g = "\<lambda>i v s. bind_res (vec_at params i) (\<lambda>p. Inr (fl_add F s (fl_mul F p v)))"
  let ?h = "\<lambda>(f, v) s. bind_res (vect_at_int model f) (\<lambda>p. Inr (fl_add F s (fl_mul F p v)))"
  have at: "vect_at_int model f = Inr (model ! nat f)" "unat (to_u32 f) = nat f" if m: "(f, v) \<in> set x" for f v
  proof -
    have r: "0 \<le> f" "f < 4294967296" "to_u32 f \<in> set keys" using assms(7) m by auto
    show u: "unat (to_u32 f) = nat f" using uint_to_u32[OF r(1,2)] by (metis unat_eq_nat_uint)
    have "nat f < length model" using assms(2) r(3) u by force
    then show "vect_at_int model f = Inr (model ! nat f)" using r(1) by (simp add: vect_at_int_def vec_at_def)
  qed
  have walk: "walk_fields ?g keys x 0 s = fold_res ?h x s" for s
  proof (rule walk_fields_lookup[OF assms(1,6)])
    show "\<forall>(f, v) \<in> set x. 0 \<le> f \<and> f < 4294967296" using assms(7) by auto
    show "\<forall>(f, v) \<in> set x. \<exists>j\<ge>0. j < length keys \<and> keys ! j = to_u32 f" using assms(7) by (auto simp: in_set_conv_nth)
    fix f v s j assume "(f, v) \<in> set x" "j < length keys" "keys ! j = to_u32 f"
    then show "?g j v s = ?h (f, v) s" using at[of f v] by (simp add: assms(3) vec_at_def)
  qed
  have bk: "vec_back params = vec_back model"
  proof -
    have "model \<noteq> []" using assms(2,4) by (metis last_in_set length_0_conv less_nat_zero_code)
    then show ?thesis using assms(4,5) by (simp add: vec_back_def assms(3) last_map last_conv_nth)
  qed
  have "\<exists>r. fold_res ?h xs s = Inr r" if "set xs \<subseteq> set x" for xs s
    using that by (induction xs arbitrary: s) (auto simp: at(1))
  then obtain r where r: "fold_res ?h x (fl_int F 0) = Inr r" by blast
  have "vec_back params \<noteq> Inl e" for e using assms(3,4) by (simp add: vec_back_def)
  then have "\<exists>b. vec_back params = Inr b" by (metis sum.exhaust)
  then show ?thesis using r unfolding linear_pred_def dense_pred_def walk bk by auto
qed

theorem pulled_prediction_is_dense_witness:
  "linear_pred rat_fl [1, 3, 4] [7, 2, 5] [(1, 10), (3, 100)] = Inr 275
    \<and> dense_pred rat_fl [9, 7, 9, 2, 5] [(1, 10), (3, 100)] = Inr 275"
proof -
  have "linear_pred rat_fl [1, 3, 4] (map (\<lambda>k :: u32. [9, 7, 9, 2, 5] ! unat k) [1, 3, 4]) [(1, 10), (3, 100)] = dense_pred rat_fl [9, 7, 9, 2, 5] [(1, 10), (3, 100)]
      \<and> (\<exists>p. dense_pred rat_fl [9, 7, 9, 2, 5] [(1, 10), (3, 100)] = Inr p)"
    by (rule pulled_prediction_is_dense) (simp_all add: to_u32_def)
  moreover have "dense_pred rat_fl [9, 7, 9, 2, 5] [(1, 10), (3, 100)] = Inr 275" by code_simp
  ultimately show ?thesis by simp
qed

section \<open>The pushed vector is not cleared\<close>

definition shift :: "'f::plus list \<Rightarrow> 'f list \<Rightarrow> 'f list" where
  "shift b a = map2 (+) a b"

definition map_ok :: "('a \<Rightarrow> 'b) \<Rightarrow> 'a res \<Rightarrow> 'b res" where
  "map_ok g r = bind_res r (\<lambda>x. Inr (g x))"

lemma map_ok_simps [simp]: "map_ok g (Inr x) = Inr (g x)" "map_ok g (Inl e) = Inl e"
  by (simp_all add: map_ok_def)

lemma map_ok_bind: "map_ok g (bind_res r k) = bind_res r (\<lambda>x. map_ok g (k x))"
  by (cases r) simp_all

lemma at_update_shift:
  "length b = length a \<Longrightarrow> at_update i (\<lambda>d. d + c) (shift b a) = map_ok (shift b) (at_update i (\<lambda>d. d + c) a)" for a :: "'f::comm_ring_1 list"
  by (auto simp: at_update_def shift_def intro!: nth_equalityI) (case_tac "ia = i"; simp)

lemma back_update_shift:
  assumes "length b = length a"
  shows "back_update (\<lambda>d. d + c) (shift b a) = map_ok (shift b) (back_update (\<lambda>d. d + c) (a :: 'f::comm_ring_1 list))"
proof (cases "a = []")
  case True
  then show ?thesis using assms by (simp add: back_update_def shift_def)
next
  case False
  then have "b \<noteq> []" using assms by auto
  then obtain a' x b' y where ab: "a = a' @ [x]" "b = b' @ [y]" using False by (metis append_butlast_last_id)
  then show ?thesis using assms by (simp add: back_update_def shift_def ac_simps)
qed

lemma update_lengths: "at_update i g a = Inr a' \<Longrightarrow> length a' = length a" "back_update g a = Inr a' \<Longrightarrow> length a' = length a"
  by (auto simp: at_update_def back_update_def split: if_splits)

lemma walk_shift:
  assumes "length b = length a"
  shows "walk_fields (\<lambda>i v. at_update i (\<lambda>d. d + v * c)) keys x i (shift b a)
    = map_ok (shift b) (walk_fields (\<lambda>i v. at_update i (\<lambda>d. d + v * c)) keys x i (a :: 'f::comm_ring_1 list))"
  using assms
proof (induction x arbitrary: i a)
  case (Cons p x)
  obtain f v where p: "p = (f, v)" by (cases p)
  show ?case
  proof (cases "seek_key (drop i keys) (to_u32 f) i")
    case (Inr j)
    show ?thesis
    proof (cases "at_update j (\<lambda>d. d + v * c) a")
      case r: (Inr a')
      then have "length b = length a'" using update_lengths(1)[OF r] Cons.prems by simp
      then show ?thesis using at_update_shift[OF Cons.prems, of j "v * c"] r Cons.IH[of a' j] by (simp add: p Inr)
    qed (use at_update_shift[OF Cons.prems, of j "v * c"] in \<open>simp add: p Inr\<close>)
  qed (simp add: p)
qed simp

lemma walk_length: "walk_fields (\<lambda>i v. at_update i (g v)) keys x i a = Inr a' \<Longrightarrow> length a' = length a"
  by (induction x arbitrary: i a) (auto simp: res_simps dest!: update_lengths)

lemma sigmoid_point_shift:
  fixes F :: "'f::linordered_field fl"
  assumes "exact_fl F" "length b = length a"
  shows "sigmoid_point F G keys params p (shift b a) = map_ok (shift b) (sigmoid_point F G keys params p a)"
proof -
  obtain x y where p: "p = (x, y)" by (cases p)
  have "add_error F keys x c (shift b a) = map_ok (shift b) (add_error F keys x c a)" for c
  proof (cases "walk_fields (\<lambda>i v. at_update i (\<lambda>d. d + v * c)) keys x 0 a")
    case (Inr a')
    have "length b = length a'" using walk_length[OF Inr] assms(2) by simp
    from back_update_shift[OF this, of c] show ?thesis
      using assms(1) walk_shift[OF assms(2), where c = c and keys = keys and x = x and i = 0] Inr by (simp add: add_error_def exact_fl_def)
  qed (use assms(1) walk_shift[OF assms(2), where c = c and keys = keys and x = x and i = 0] in \<open>simp add: add_error_def exact_fl_def\<close>)
  then show ?thesis by (simp add: p sigmoid_point_def map_ok_bind)
qed

lemma sigmoid_point_length: "sigmoid_point F G keys params p a = Inr a' \<Longrightarrow> length a' = length a"
  by (auto simp: sigmoid_point_def add_error_def res_simps dest!: walk_length update_lengths split: prod.splits)

lemma sigmoid_points_shift:
  fixes F :: "'f::linordered_field fl"
  assumes "exact_fl F" "length b = length a"
  shows "fold_res (sigmoid_point F G keys params) batch (shift b a) = map_ok (shift b) (fold_res (sigmoid_point F G keys params) batch a)"
  using assms(2)
proof (induction batch arbitrary: a)
  case (Cons p batch)
  show ?case
  proof (cases "sigmoid_point F G keys params p a")
    case (Inr a')
    have "length b = length a'" using sigmoid_point_length[OF Inr] Cons.prems by simp
    from Cons.IH[OF this] show ?thesis using sigmoid_point_shift[OF assms(1) Cons.prems, of G keys params p] Inr by simp
  qed (use sigmoid_point_shift[OF assms(1) Cons.prems, of G keys params p] in simp)
qed simp

text \<open>\<open>train\<close> never clears the vector it pushes, and the gradient is added to what is there: every push of
  logistic regression holds, besides the step of its batch, the previous push once more,
  times \<open>- alpha / batch size\<close>.\<close>

lemma sgd_push_repeats_last:
  fixes F :: "'f::linordered_field fl"
  assumes "exact_fl F" "batch \<noteq> []" "length previous = n"
    and "sgd_update F G Sigmoid_objective batch params (replicate n 0) alpha keys = Inr step"
  shows "sgd_update F G Sigmoid_objective batch params previous alpha keys
    = Inr (map2 (\<lambda>s d. s + - alpha / of_nat (length batch) * d) step previous)"
proof -
  let ?sum = "fold_res (sigmoid_point F G keys params) batch"
  have zero: "shift previous (replicate n 0) = previous" using assms(3) by (auto simp: shift_def intro!: nth_equalityI)
  obtain s where s: "?sum (replicate n 0) = Inr s"
    and step: "step = map (\<lambda>d. d / of_nat (length batch) * - alpha) s"
    using assms(1,2,4) by (auto simp: sgd_update_def get_gradient_def sigmoid_gradient_def res_simps exact_fl_def comp_def)
  have "?sum (shift previous (replicate n 0)) = map_ok (shift previous) (?sum (replicate n 0))"
    by (rule sigmoid_points_shift[OF assms(1)]) (simp add: assms(3))
  then have "?sum previous = Inr (shift previous s)" by (simp add: zero s)
  then show ?thesis
    using assms(1,2) by (auto simp: sgd_update_def get_gradient_def sigmoid_gradient_def exact_fl_def step shift_def algebra_simps
        add_divide_distrib intro!: nth_equalityI)
qed

definition rat_sgd :: "rat sgd_fl" where
  "rat_sgd = \<lparr>sg_sigmoid = id, sg_log0 = (+), sg_log1 = (+), sg_hinge = (\<lambda>l y p. l + max 0 (1 - y * p))\<rparr>"

lemma sgd_push_repeats_last_witness:
  "sgd_update rat_fl rat_sgd Sigmoid_objective [([(0, 2)], 1)] [1, 3] [0, 0] (1 / 2) [0, 1] = Inr [-4, -2]
    \<and> sgd_update rat_fl rat_sgd Sigmoid_objective [([(0, 2)], 1)] [1, 3] [-4, -2] (1 / 2) [0, 1] = Inr [-2, -1]"
proof -
  have step: "sgd_update rat_fl rat_sgd Sigmoid_objective [([(0, 2)], 1)] [1, 3] (replicate 2 0) (1 / 2) [0, 1] = Inr [-4, -2]" by code_simp
  have "exact_fl rat_fl" "[([(0, 2)], 1)] \<noteq> ([] :: rat point list)" "length [-4, -2 :: rat] = 2" by (simp_all add: exact_fl_def rat_fl_def)
  from sgd_push_repeats_last[OF this step] show ?thesis using step by (simp add: numeral_2_eq_2)
qed

end
