(* ===== verification/Kmeans.thy ===== *)
theory Kmeans
  imports Complex_Main Sgd
begin

text \<open>
  \<open>examples2/kmeans/kmeans_helper.hpp\<close>: the centers of clusters, their initialisation and the nearest
  center of a point.  The parameters are \<open>K\<close> centers and a row of counts; \<open>rnd k\<close> is the value of the \<open>k\<close>-th call of
  \<open>rand\<close>.  An inner product is summed in \<open>double\<close>, as \<open>fl_sum\<close> is.
\<close>

section \<open>Distances\<close>

text \<open>\<open>km_max\<close> is \<open>numeric_limits<float>::max()\<close>, \<open>km_scale s r\<close> is \<open>s * r / (RAND_MAX - 1.)\<close>; \<open>km_drawn l psi phi r\<close> is
  \<open>l * psi / phi >= r / (RAND_MAX - 1.)\<close>.\<close>

record 'f km_fl =
  km_max :: 'f
  km_scale :: "'f \<Rightarrow> nat \<Rightarrow> 'f"
  km_drawn :: "int \<Rightarrow> 'f \<Rightarrow> 'f \<Rightarrow> nat \<Rightarrow> bool"

definition square_sum :: "'f fl \<Rightarrow> 'f list \<Rightarrow> 'f" where
  "square_sum F diff = fl_sum F (map (\<lambda>d. fl_mul F d d) diff)"

definition put_at :: "int \<Rightarrow> ('f \<Rightarrow> 'f) \<Rightarrow> 'f list \<Rightarrow> 'f list res" where
  "put_at f g row = (if 0 \<le> f \<and> nat f < length row then Inr (row[nat f := g (row ! nat f)]) else Inl Out_of_bounds)"

definition set_coords :: "(int \<times> 'f) list \<Rightarrow> 'f list \<Rightarrow> 'f list res" where
  "set_coords x row = fold_res (\<lambda>(f, v). put_at f (\<lambda>_. v)) x row"

definition sub_coords :: "'f fl \<Rightarrow> (int \<times> 'f) list \<Rightarrow> 'f list \<Rightarrow> 'f list res" where
  "sub_coords F x row = fold_res (\<lambda>(f, v). put_at f (\<lambda>d. fl_sub F d v)) x row"

definition km_dist :: "'f fl \<Rightarrow> 'f point \<Rightarrow> 'f point \<Rightarrow> int \<Rightarrow> 'f res" where
  "km_dist F p q num_features =
     bind_res (set_coords (fst p) (replicate (nat num_features) (fl_int F 0))) (\<lambda>diff.
     bind_res (set_coords (fst q) diff) (\<lambda>diff. Inr (square_sum F diff)))"

definition center_dist :: "'f fl \<Rightarrow> 'f list list \<Rightarrow> 'f point \<Rightarrow> nat \<Rightarrow> 'f res" where
  "center_dist F params p i =
     bind_res (vec_at params i) (\<lambda>row. bind_res (sub_coords F (fst p) row) (\<lambda>diff. Inr (square_sum F diff)))"

definition nearest_step :: "'f fl \<Rightarrow> 'f list list \<Rightarrow> 'f point \<Rightarrow> nat \<Rightarrow> int \<times> 'f \<Rightarrow> (int \<times> 'f) res" where
  "nearest_step F params p i = (\<lambda>(c, best).
     bind_res (center_dist F params p i) (\<lambda>d. Inr (if fl_lt F d best then (int i, d) else (c, best))))"

definition get_nearest_center :: "'f fl \<Rightarrow> 'f km_fl \<Rightarrow> 'f point \<Rightarrow> int \<Rightarrow> 'f list list \<Rightarrow> (int \<times> 'f) res" where
  "get_nearest_center F G p K params = fold_res (nearest_step F params p) [0..<nat K] (-1, km_max G)"

section \<open>Initial centers\<close>

definition set_center :: "nat \<Rightarrow> 'f point \<Rightarrow> 'f list list \<Rightarrow> 'f list list res" where
  "set_center i p params = bind_res (vec_at params i) (\<lambda>row. bind_res (set_coords (fst p) row) (\<lambda>row. Inr (params[i := row])))"

definition count_one :: "'f fl \<Rightarrow> nat \<Rightarrow> nat \<Rightarrow> 'f list list \<Rightarrow> 'f list list res" where
  "count_one F K i params =
     bind_res (vec_at params K) (\<lambda>row. bind_res (put_at (int i) (\<lambda>c. fl_add F c (fl_int F 1)) row) (\<lambda>row. Inr (params[K := row])))"

text \<open>The inner loop of \<open>random_init\<close> draws until it finds an index that is not taken; \<open>None\<close> without fuel.\<close>

fun draw_new :: "nat \<Rightarrow> (nat \<Rightarrow> nat) \<Rightarrow> nat \<Rightarrow> nat list \<Rightarrow> nat \<Rightarrow> (nat \<times> nat) option" where
  "draw_new 0 rnd n taken k = None"
| "draw_new (Suc fuel) rnd n taken k =
     (if rnd k mod n \<notin> set taken then Some (rnd k mod n, k + 1) else draw_new fuel rnd n taken (k + 1))"

fun random_loop :: "nat \<Rightarrow> 'f fl \<Rightarrow> (nat \<Rightarrow> nat) \<Rightarrow> nat \<Rightarrow> 'f point list \<Rightarrow> nat list \<Rightarrow> nat list \<Rightarrow> nat \<Rightarrow> 'f list list \<Rightarrow> (nat list \<times> nat \<times> 'f list list) res option" where
  "random_loop fuel F rnd K dat [] taken k params = Some (Inr (taken, k, params))"
| "random_loop fuel F rnd K dat (i # is) taken k params =
     (if dat = [] then Some (Inl Div_by_zero)
      else case draw_new fuel rnd (length dat) taken k of
        None \<Rightarrow> None
      | Some (j, k) \<Rightarrow>
          (case bind_res (set_center i (dat ! j) params) (count_one F K i) of
             Inl e \<Rightarrow> Some (Inl e)
           | Inr params \<Rightarrow> random_loop fuel F rnd K dat is (taken @ [j]) k params))"

definition random_init :: "nat \<Rightarrow> 'f fl \<Rightarrow> (nat \<Rightarrow> nat) \<Rightarrow> int \<Rightarrow> 'f point list \<Rightarrow> 'f list list \<Rightarrow> (nat list \<times> nat \<times> 'f list list) res option" where
  "random_init fuel F rnd K dat params = random_loop fuel F rnd (nat K) dat [0..<nat K] [] 0 params"

text \<open>\<open>X.erase(X.begin() + index)\<close>\<close>

definition erase_at :: "nat \<Rightarrow> 'a list \<Rightarrow> 'a list res" where
  "erase_at i xs = (if i < length xs then Inr (take i xs @ drop (Suc i) xs) else Inl Out_of_bounds)"

text \<open>The first point at which the running sum is no longer positive, if there is one.\<close>

fun pick_weighted :: "'f fl \<Rightarrow> 'f \<Rightarrow> 'f list \<Rightarrow> nat \<Rightarrow> nat option" where
  "pick_weighted F s [] j = None"
| "pick_weighted F s (d # ds) j =
     (let s = fl_sub F s d in if fl_lt F (fl_int F 0) s then pick_weighted F s ds (j + 1) else Some j)"

definition next_center :: "'f fl \<Rightarrow> 'f km_fl \<Rightarrow> (nat \<Rightarrow> nat) \<Rightarrow> nat \<Rightarrow> nat \<Rightarrow> 'f point list \<times> nat \<times> 'f list list \<Rightarrow> ('f point list \<times> nat \<times> 'f list list) res" where
  "next_center F G rnd K i = (\<lambda>(X, k, params).
     bind_res (map_res (\<lambda>p. bind_res (get_nearest_center F G p (int i) params) (\<lambda>(_, d). Inr d)) X) (\<lambda>dists.
     let s = km_scale G (fold (\<lambda>d s. fl_add F s d) dists (fl_int F 0)) (rnd k)
     in bind_res (case pick_weighted F s dists 0 of
            None \<Rightarrow> Inr (X, params)
          | Some j \<Rightarrow> bind_res (set_center i (X ! j) params) (\<lambda>params. bind_res (erase_at j X) (\<lambda>X. Inr (X, params))))
          (\<lambda>(X, params). bind_res (count_one F K i params) (\<lambda>params. Inr (X, k + 1, params)))))"

text \<open>The first center, drawn evenly, then the others by their distance to those before.\<close>

definition seed_centers :: "'f fl \<Rightarrow> 'f km_fl \<Rightarrow> (nat \<Rightarrow> nat) \<Rightarrow> int \<Rightarrow> 'f point list \<Rightarrow> nat \<Rightarrow> 'f list list \<Rightarrow> ('f point list \<times> nat \<times> 'f list list) res" where
  "seed_centers F G rnd K X k params =
     bind_res (draw rnd X k) (\<lambda>(index, k).
     bind_res (set_center 0 (X ! index) params) (\<lambda>params.
     bind_res (count_one F (nat K) 0 params) (\<lambda>params.
     bind_res (erase_at index X) (\<lambda>X.
       fold_res (next_center F G rnd (nat K)) [1..<nat K] (X, k, params)))))"

definition kmeans_plus_plus_init :: "'f fl \<Rightarrow> 'f km_fl \<Rightarrow> (nat \<Rightarrow> nat) \<Rightarrow> int \<Rightarrow> 'f point list \<Rightarrow> 'f list list \<Rightarrow> 'f list list res" where
  "kmeans_plus_plus_init F G rnd K dat params = bind_res (seed_centers F G rnd K dat 0 params) (\<lambda>(_, _, params). Inr params)"

text \<open>\<open>kmeans_parallel_init\<close>: the distance of a point to the nearest of \<open>C\<close> and its index, with the code's comparison.\<close>

definition min_dist_to :: "'f fl \<Rightarrow> 'f km_fl \<Rightarrow> int \<Rightarrow> 'f point list \<Rightarrow> nat \<Rightarrow> 'f point \<Rightarrow> (nat \<times> 'f) res" where
  "min_dist_to F G n C old p =
     fold_res (\<lambda>j (c, best). bind_res (km_dist F p (C ! j) n) (\<lambda>d. Inr (if fl_lt F d best then (j, d) else (c, best))))
       [0..<length C] (old, km_max G)"

text \<open>The drawings: \<open>i\<close> runs over the distances, also after points were erased.\<close>

fun draw_points :: "'f km_fl \<Rightarrow> (nat \<Rightarrow> nat) \<Rightarrow> 'f \<Rightarrow> 'f list \<Rightarrow> nat \<Rightarrow> nat \<times> 'f point list \<times> 'f point list \<Rightarrow> (nat \<times> 'f point list \<times> 'f point list) res" where
  "draw_points G rnd phi [] i s = Inr s"
| "draw_points G rnd phi (psi # psis) i (k, C, X) =
     (if km_drawn G 2 psi phi (rnd k) then
        bind_res (vec_at X i) (\<lambda>p. bind_res (erase_at i X) (\<lambda>X. draw_points G rnd phi psis (i + 1) (k + 1, C @ [p], X)))
      else draw_points G rnd phi psis (i + 1) (k + 1, C, X))"

definition sample_round :: "'f fl \<Rightarrow> 'f km_fl \<Rightarrow> (nat \<Rightarrow> nat) \<Rightarrow> int \<Rightarrow> nat \<times> 'f point list \<times> 'f point list \<Rightarrow> (nat \<times> 'f point list \<times> 'f point list) res" where
  "sample_round F G rnd n = (\<lambda>(k, C, X).
     bind_res (map_res (\<lambda>p. bind_res (min_dist_to F G n C 0 p) (\<lambda>(_, d). Inr d)) X) (\<lambda>psi.
       draw_points G rnd (fold (\<lambda>d s. fl_add F s d) psi (fl_int F 0)) psi 0 (k, C, X)))"

text \<open>The weights of the sampled points; they are not used afterwards.\<close>

definition weigh :: "'f fl \<Rightarrow> 'f km_fl \<Rightarrow> int \<Rightarrow> 'f point list \<Rightarrow> 'f point list \<Rightarrow> nat \<Rightarrow> (nat \<times> 'f list) res" where
  "weigh F G n C X index =
     fold_res (\<lambda>p (index, w). bind_res (min_dist_to F G n C index p) (\<lambda>(j, _).
       bind_res (put_at (int j) (\<lambda>c. fl_add F c (fl_int F 1)) w) (\<lambda>w. Inr (j, w)))) X (index, replicate (length C) (fl_int F 0))"

definition kmeans_parallel_init :: "'f fl \<Rightarrow> 'f km_fl \<Rightarrow> (nat \<Rightarrow> nat) \<Rightarrow> int \<Rightarrow> int \<Rightarrow> 'f point list \<Rightarrow> 'f list list \<Rightarrow> 'f list list res" where
  "kmeans_parallel_init F G rnd K n dat params =
     bind_res (draw rnd dat 0) (\<lambda>(index, k).
     bind_res (erase_at index dat) (\<lambda>X.
     bind_res (fold_res (\<lambda>_. sample_round F G rnd n) [0..<5] (k, [dat ! index], X)) (\<lambda>(k, C, X).
     bind_res (weigh F G n C X index) (\<lambda>_.
     bind_res (seed_centers F G rnd K C k params) (\<lambda>(_, _, params). Inr params)))))"

definition init_centers ::
  "nat \<Rightarrow> 'f fl \<Rightarrow> 'f km_fl \<Rightarrow> (nat \<Rightarrow> nat) \<Rightarrow> int \<Rightarrow> int \<Rightarrow> 'f point list \<Rightarrow> 'f list list \<Rightarrow> string \<Rightarrow> 'f list list res option"
where
  "init_centers fuel F G rnd K n dat params mode =
     (if mode = ''random'' then map_option (\<lambda>r. bind_res r (\<lambda>(_, _, params). Inr params)) (random_init fuel F rnd K dat params)
      else if mode = ''kmeans++'' then Some (kmeans_plus_plus_init F G rnd K dat params)
      else if mode = ''kmeans_parallel'' then Some (kmeans_parallel_init F G rnd K n dat params)
      else Some (Inr params))"

definition test_error :: "'f fl \<Rightarrow> 'f km_fl \<Rightarrow> 'f list list \<Rightarrow> 'f point list \<Rightarrow> int \<Rightarrow> ('f \<times> int list) res" where
  "test_error F G params dat K =
     fold_res (\<lambda>p (s, count). bind_res (get_nearest_center F G p K params) (\<lambda>(c, d).
       bind_res (put_at c (\<lambda>n. n + 1) count) (\<lambda>count. Inr (fl_add F s d, count)))) dat (fl_int F 0, replicate (nat K) 0)"

section \<open>The nearest center is nearest\<close>

lemma nearest_fold:
  fixes F :: "'f::linorder fl"
  assumes lt: "fl_lt F = (<)" and d: "\<forall>i \<in> set is. center_dist F params p i = Inr (d i)" and "sorted_wrt (<) is" "\<forall>i \<in> set is. j < int i"
  shows "\<exists>c best'. fold_res (nearest_step F params p) is (j, best) = Inr (c, best')
    \<and> (c = j \<and> best' = best \<and> (\<forall>i \<in> set is. best \<le> d i)
       \<or> c \<in> int ` set is \<and> best' = d (nat c) \<and> best' < best \<and> (\<forall>i \<in> set is. best' \<le> d i \<and> (int i < c \<longrightarrow> best' < d i)))"
  using assms(2-)
proof (induction "is" arbitrary: j best)
  case (Cons i js)
  have one: "nearest_step F params p i (j, best) = Inr (if d i < best then (int i, d i) else (j, best))"
    using Cons.prems(1) by (simp add: nearest_step_def lt)
  have js: "\<forall>k \<in> set js. center_dist F params p k = Inr (d k)" "sorted_wrt (<) js" "\<forall>k \<in> set js. i < k" using Cons.prems by auto
  show ?case
  proof (cases "d i < best")
    case True
    have "\<forall>k \<in> set js. int i < int k" using js(3) by simp
    from Cons.IH[OF js(1,2) this, of "d i"] obtain c b where
        "fold_res (nearest_step F params p) js (int i, d i) = Inr (c, b)"
        "c = int i \<and> b = d i \<and> (\<forall>k \<in> set js. d i \<le> d k)
         \<or> c \<in> int ` set js \<and> b = d (nat c) \<and> b < d i \<and> (\<forall>k \<in> set js. b \<le> d k \<and> (int k < c \<longrightarrow> b < d k))" by blast
    then show ?thesis using True one js(3) by (intro exI[of _ c] exI[of _ b]) auto
  next
    case False
    have "\<forall>k \<in> set js. j < int k" using Cons.prems(3) by simp
    from Cons.IH[OF js(1,2) this, of best] obtain c b where
      "fold_res (nearest_step F params p) js (j, best) = Inr (c, b)"
      "c = j \<and> b = best \<and> (\<forall>k \<in> set js. best \<le> d k)
       \<or> c \<in> int ` set js \<and> b = d (nat c) \<and> b < best \<and> (\<forall>k \<in> set js. b \<le> d k \<and> (int k < c \<longrightarrow> b < d k))" by blast
    then show ?thesis using False one by (intro exI[of _ c] exI[of _ b]) auto
  qed
qed simp

text \<open>The center found for a point is one of the \<open>K\<close>, no other is nearer, and it is the first of the nearest.\<close>

lemma nearest_center_correct:
  fixes F :: "'f::linorder fl"
  assumes "fl_lt F = (<)" "\<forall>i < nat K. center_dist F params p i = Inr (d i)" "\<exists>i < nat K. d i < km_max G"
  shows "\<exists>c < nat K. get_nearest_center F G p K params = Inr (int c, d c)
    \<and> (\<forall>i < nat K. d c \<le> d i) \<and> (\<forall>i < c. d c < d i)"
proof -
  have "\<forall>i \<in> set [0..<nat K]. center_dist F params p i = Inr (d i)" "sorted_wrt (<) [0..<nat K]" "\<forall>i \<in> set [0..<nat K]. - 1 < int i"
    using assms(2) by (auto simp: strict_sorted_iff)
  from nearest_fold[OF assms(1) this, of "km_max G"] obtain c best where
    run: "get_nearest_center F G p K params = Inr (c, best)" and
    c: "c = -1 \<and> best = km_max G \<and> (\<forall>i \<in> set [0..<nat K]. km_max G \<le> d i)
      \<or> c \<in> int ` set [0..<nat K] \<and> best = d (nat c) \<and> best < km_max G \<and> (\<forall>i \<in> set [0..<nat K]. best \<le> d i \<and> (int i < c \<longrightarrow> best < d i))"
    unfolding get_nearest_center_def by blast
  obtain i where i: "i \<in> set [0..<nat K]" "d i < km_max G" using assms(3) by auto
  have "\<not> (\<forall>i \<in> set [0..<nat K]. km_max G \<le> d i)"
    using bspec[OF _ i(1), of "\<lambda>i. km_max G \<le> d i"] i(2) leD by blast
  with c obtain k where "c = int k" "k < nat K" "best = d k" "\<forall>i < nat K. d k \<le> d i \<and> (i < k \<longrightarrow> d k < d i)"
    by (elim disjE conjE imageE) auto
  then show ?thesis using run by (intro exI[of _ k]) auto
qed

definition rat_km :: "rat km_fl" where
  "rat_km = \<lparr>km_max = 1000, km_scale = (\<lambda>s r. s * of_nat r / 10), km_drawn = (\<lambda>l psi phi r. of_int l * psi / phi \<ge> of_nat r / 10)\<rparr>"

lemma nearest_center_correct_witness:
  "get_nearest_center rat_fl rat_km ([(0, 3), (1, 1)], 0) 3 [[0, 0], [2, 1], [4, 1], [0, 0, 0]] = Inr (1, 1)"
proof -
  let ?d = "\<lambda>i :: nat. if i = 0 then 10 else 1 :: rat" and ?params = "[[0, 0], [2, 1], [4, 1], [0, 0, 0]] :: rat list list"
  have all: "center_dist rat_fl ?params ([(0, 3), (1, 1)], 0) 0 = Inr 10" "center_dist rat_fl ?params ([(0, 3), (1, 1)], 0) 1 = Inr 1"
    "center_dist rat_fl ?params ([(0, 3), (1, 1)], 0) 2 = Inr 1" by code_simp+
  have "\<forall>i < nat 3. center_dist rat_fl ?params ([(0, 3), (1, 1)], 0) i = Inr (?d i)"
    using all by (auto simp: less_Suc_eq numeral_3_eq_3 numeral_2_eq_2)
  moreover have "fl_lt rat_fl = (<)" "\<exists>i < nat 3. ?d i < km_max rat_km" by (auto simp: rat_fl_def rat_km_def)
  ultimately obtain c where c: "c < nat 3" "get_nearest_center rat_fl rat_km ([(0, 3), (1, 1)], 0) 3 ?params = Inr (int c, ?d c)"
    "\<forall>i < nat 3. ?d c \<le> ?d i" "\<forall>i < c. ?d c < ?d i"
    using nearest_center_correct[of rat_fl 3 ?params "([(0, 3), (1, 1)], 0)" ?d rat_km] by blast
  have "c \<noteq> 0"
  proof
    assume "c = 0"
    then have "(10 :: rat) \<le> 1" using c(3)[rule_format, of 1] by simp
    then show False by simp
  qed
  moreover have "\<not> 1 < c" using c(4)[rule_format, of 1] by auto
  ultimately have "c = 1" by simp
  then show ?thesis using c(2) by simp
qed

section \<open>Random centers\<close>

lemma draw_new_ok: "draw_new fuel rnd n taken k = Some (j, k') \<Longrightarrow> 0 < n \<Longrightarrow> j < n \<and> j \<notin> set taken"
  by (induction fuel arbitrary: k) (auto split: if_splits)

lemma random_loop_ok:
  "random_loop fuel F rnd K dat is taken k params = Some (Inr (taken', k', params')) \<Longrightarrow> distinct taken \<Longrightarrow> \<forall>j \<in> set taken. j < length dat
    \<Longrightarrow> distinct taken' \<and> length taken' = length taken + length is \<and> (\<forall>j \<in> set taken'. j < length dat) \<and> length params' = length params"
proof (induction "is" arbitrary: taken k params)
  case (Cons i js)
  then obtain j k1 params1 where j: "draw_new fuel rnd (length dat) taken k = Some (j, k1)" "dat \<noteq> []"
    "bind_res (set_center i (dat ! j) params) (count_one F K i) = Inr params1"
    "random_loop fuel F rnd K dat js (taken @ [j]) k1 params1 = Some (Inr (taken', k', params'))"
    by (auto split: if_splits option.splits sum.splits)
  have "j < length dat \<and> j \<notin> set taken" using draw_new_ok[OF j(1)] j(2) by simp
  moreover have "length params1 = length params" using j(3) by (auto simp: set_center_def count_one_def res_simps)
  ultimately show ?case using Cons.IH[OF j(4)] Cons.prems(2,3) by auto
qed auto

lemma random_init_distinct:
  "random_init fuel F rnd K dat params = Some (Inr (taken, k, params')) \<Longrightarrow> distinct taken \<and> length taken = nat K \<and> (\<forall>j \<in> set taken. j < length dat)"
  using random_loop_ok[of fuel F rnd "nat K" dat "[0..<nat K]" "[]" 0 params taken k params'] by (simp add: random_init_def)

text \<open>\<open>dist\<close> overwrites the coordinates of the first point by those of the second: a point is not at distance 0 from itself.\<close>

lemma km_dist_itself: "km_dist rat_fl ([(0, 3)], 0) ([(0, 3)], 0) 2 = Inr 9"
  by code_simp

end
