(* ===== verification/Lr_Program.thy ===== *)
theory Lr_Program
  imports Complex_Main Sgd Engine "HOL-Library.Signed_Division"
begin

text \<open>
  \<open>examples/logistic_regression.cpp\<close>: the program that trains logistic regression on the engine.  It cuts the
  dimensions into the ranges of the servers, reads the points, and each worker pulls the parameters
  of a batch, adds its steps and pushes them, on a plain or on a sparse table.  The tables, \<open>rand\<close> and floating point
  arithmetic are arguments.
\<close>

section \<open>The ranges of the table\<close>

text \<open>The products are of type \<open>int\<close> and then converted to \<open>uint64_t\<close>.\<close>

definition even_ranges :: "int \<Rightarrow> int \<Rightarrow> range list res" where
  "even_ranges n s =
     check_that (s \<noteq> 0) Div_by_zero
    (bind_res (map_res (\<lambda>i. bind_res (as_i32 (n sdiv s * i)) (\<lambda>b. bind_res (as_i32 (n sdiv s * (i + 1))) (\<lambda>e.
       Inr \<lparr>rbegin = word_of_int b, rend = word_of_int e\<rparr>))) [0..s - 2]) (\<lambda>rs.
     bind_res (as_i32 (n sdiv s * (s - 1))) (\<lambda>b. Inr (rs @ [\<lparr>rbegin = word_of_int b, rend = word_of_int n\<rparr>]))))"

definition model_type_of :: "string \<Rightarrow> model_type res" where
  "model_type_of flag =
     (if flag = ''ASP'' then Inr ASP else if flag = ''SSP'' then Inr SSP else if flag = ''BSP'' then Inr BSP
      else if flag = ''SparseSSP'' then Inr SparseSSP else Inl (Check_failed ''model type error''))"

definition storage_type_of :: "string \<Rightarrow> storage_type res" where
  "storage_type_of flag =
     (if flag = ''Map'' then Inr Store_map else if flag = ''Vector'' then Inr Store_vector
      else Inl (Check_failed ''storage type error''))"

definition recorder_type_of :: "string \<Rightarrow> recorder_type res" where
  "recorder_type_of flag =
     (if flag = ''None'' then Inr Rec_none else if flag = ''Map'' then Inr Rec_map else if flag = ''Vector'' then Inr Rec_vector
      else Inl (Check_failed ''sparse_ssp_storage type error''))"

record lr_flags =
  lr_model_type :: string
  lr_storage_type :: string
  lr_recorder_type :: string
  lr_num_dims :: int
  lr_batch_size :: int
  lr_num_iters :: int
  lr_staleness :: int
  lr_speculation :: int
  lr_servers_per_node :: int

text \<open>\<open>nodes.size() * FLAGS_num_servers_per_node\<close> is computed in \<open>size_t\<close> and converted to \<open>int\<close>.\<close>

definition lr_create_table :: "bool \<Rightarrow> int \<Rightarrow> 'v val_type \<Rightarrow> lr_flags \<Rightarrow> ('v, 'c) engine \<Rightarrow> ('v, 'c) engine res" where
  "lr_create_table debug junk V fl e =
     bind_res (even_ranges (lr_num_dims fl) (to_i32 (of_nat (length (en_nodes e)) * to_u32 (lr_servers_per_node fl)))) (\<lambda>ranges.
     bind_res (model_type_of (lr_model_type fl)) (\<lambda>mt.
     bind_res (storage_type_of (lr_storage_type fl)) (\<lambda>st.
     bind_res (recorder_type_of (lr_recorder_type fl)) (\<lambda>rt.
       create_table debug junk V 0 ranges mt st (lr_staleness fl) (lr_speculation fl) rt e))))"

section \<open>Reading the points\<close>

text \<open>What a loading thread does with its records; it returns at the first empty one.\<close>

fun load_points :: "(string \<Rightarrow> 'f) \<Rightarrow> 'f \<Rightarrow> int \<Rightarrow> string list \<Rightarrow> 'f point list \<Rightarrow> 'f point list res" where
  "load_points atof zero junk [] dat = Inr dat"
| "load_points atof zero junk (r # rs) dat =
     (if r = [] then Inr dat
      else bind_res (libsvm_parser atof zero junk r) (\<lambda>p. load_points atof zero junk rs (dat @ [p])))"

section \<open>A worker\<close>

text \<open>\<open>lr_step d v e\<close> is \<open>d + FLAGS_alpha * v * e\<close>, computed in \<open>double\<close>; \<open>lr_above_half p\<close> is \<open>p > 0.5\<close>.\<close>

record 'f lr_fl =
  lr_step :: "'f \<Rightarrow> 'f \<Rightarrow> 'f \<Rightarrow> 'f"
  lr_above_half :: "'f \<Rightarrow> bool"

type_synonym batch = "u32 list \<times> nat option list"

fun prepare_batches :: "(nat \<Rightarrow> nat) \<Rightarrow> nat \<Rightarrow> nat \<Rightarrow> ('f, 'f) sampler \<Rightarrow> batch list res" where
  "prepare_batches rnd 0 k s = Inr []"
| "prepare_batches rnd (Suc n) k s =
     bind_res (random_start_point (rnd k) s) (\<lambda>s.
     bind_res (prepare_next_batch s) (\<lambda>(keys, s).
     bind_res (prepare_batches rnd n (k + 1) s) (\<lambda>bs. Inr ((keys, get_data_ptrs s) # bs))))"

text \<open>\<open>operator[]\<close> of a shared array, and \<open>resize\<close>, which keeps what is there.\<close>

definition upd_at :: "nat \<Rightarrow> ('f \<Rightarrow> 'f) \<Rightarrow> 'f list \<Rightarrow> 'f list res" where
  "upd_at i g xs = (if i < length xs then Inr (xs[i := g (xs ! i)]) else Inl Out_of_bounds)"

definition resize_to :: "nat \<Rightarrow> 'f \<Rightarrow> 'f list \<Rightarrow> 'f list" where
  "resize_to n v xs = take n xs @ replicate (n - length xs) v"

definition lr_linear :: "'f fl \<Rightarrow> u32 list \<Rightarrow> 'f list \<Rightarrow> (int \<times> 'f) list \<Rightarrow> 'f res" where
  "lr_linear F keys params x =
     walk_fields (\<lambda>j v s. bind_res (vec_at params j) (\<lambda>p. Inr (fl_add F s (fl_mul F p v)))) keys x 0 (fl_int F 0)"

definition lr_point :: "'f fl \<Rightarrow> 'f sgd_fl \<Rightarrow> 'f lr_fl \<Rightarrow> u32 list \<Rightarrow> 'f list \<Rightarrow> 'f point \<Rightarrow> 'f list \<Rightarrow> 'f list res" where
  "lr_point F G L keys params = (\<lambda>(x, y) deltas.
     bind_res (lr_linear F keys params x) (\<lambda>s.
       let e = fl_sub F (clip_label F y) (sg_sigmoid G s)
       in walk_fields (\<lambda>j v. upd_at j (\<lambda>d. lr_step L d v e)) keys x 0 deltas))"

definition lr_batch :: "'f fl \<Rightarrow> 'f sgd_fl \<Rightarrow> 'f lr_fl \<Rightarrow> 'f point list \<Rightarrow> batch \<Rightarrow> 'f list \<Rightarrow> 'f list \<Rightarrow> 'f list res" where
  "lr_batch F G L store b params =
     fold_res (\<lambda>p deltas. bind_res (of_opt null_pointer p) (\<lambda>i. bind_res (vec_at store i) (\<lambda>d.
       lr_point F G L (fst b) params d deltas))) (snd b)"

text \<open>\<open>CHECK_LT(i, future_keys.size())\<close> and the two batches of that index.\<close>

definition future_batch :: "batch list \<Rightarrow> nat \<Rightarrow> batch res" where
  "future_batch future i = check_that (i < length future) (Check_failed ''future_keys.size()'') (Inr (future ! i))"

definition lr_iteration ::
  "'f fl \<Rightarrow> 'f sgd_fl \<Rightarrow> 'f lr_fl \<Rightarrow> ('f, 'm) kv_ops \<Rightarrow> 'f point list \<Rightarrow> batch list \<Rightarrow> nat \<Rightarrow> 'f list \<times> 'm \<Rightarrow> ('f list \<times> 'm) res"
where
  "lr_iteration F G L T store future i = (\<lambda>(deltas, m).
     bind_res (future_batch future i) (\<lambda>b.
     bind_res (kv_get T (fst b) m) (\<lambda>(params, m).
     check_that (length (fst b) = length params) (Check_failed ''keys.size()'')
    (bind_res (lr_batch F G L store b params (resize_to (length (fst b)) (fl_int F 0) deltas)) (\<lambda>deltas.
     bind_res (kv_add T (fst b) deltas m) (\<lambda>m.
     bind_res (kv_clock T m) (\<lambda>m. Inr (deltas, m))))))))"

text \<open>A sparse table knows the keys of its iterations; its \<open>Add\<close> also ends the iteration.\<close>

record ('f, 'm) sparse_ops =
  so_get :: "'m \<Rightarrow> ('f list \<times> 'm) res"
  so_add :: "u32 list \<Rightarrow> 'f list \<Rightarrow> 'm \<Rightarrow> 'm res"

definition lr_sparse_iteration ::
  "'f fl \<Rightarrow> 'f sgd_fl \<Rightarrow> 'f lr_fl \<Rightarrow> ('f, 'm) sparse_ops \<Rightarrow> 'f point list \<Rightarrow> batch list \<Rightarrow> nat \<Rightarrow> 'f list \<times> 'm \<Rightarrow> ('f list \<times> 'm) res"
where
  "lr_sparse_iteration F G L S store future i = (\<lambda>(deltas, m).
     bind_res (future_batch future i) (\<lambda>b.
     bind_res (so_get S m) (\<lambda>(params, m).
     check_that (length (fst b) = length params) (Check_failed ''keys.size()'')
    (bind_res (lr_batch F G L store b params (resize_to (length (fst b)) (fl_int F 0) deltas)) (\<lambda>deltas.
     bind_res (so_add S (fst b) deltas m) (\<lambda>m. Inr (deltas, m)))))))"

text \<open>The share of the points that are on the right side of one half.\<close>

definition hit :: "'f fl \<Rightarrow> 'f sgd_fl \<Rightarrow> 'f lr_fl \<Rightarrow> 'f list \<Rightarrow> 'f point \<Rightarrow> bool res" where
  "hit F G L w = (\<lambda>(x, y).
     bind_res (fold_res (\<lambda>(f, v) s. bind_res (vect_at_int w f) (\<lambda>p. Inr (fl_add F s (fl_mul F p v)))) x (fl_int F 0)) (\<lambda>s.
       Inr ((if lr_above_half L (sg_sigmoid G s) then 1 else 0) = fl_trunc F (clip_label F y))))"

definition accuracy :: "'f fl \<Rightarrow> 'f sgd_fl \<Rightarrow> 'f lr_fl \<Rightarrow> 'f list \<Rightarrow> 'f point list \<Rightarrow> 'f res" where
  "accuracy F G L w dat =
     bind_res (fold_res (\<lambda>d (count, c). bind_res (hit F G L w d) (\<lambda>ok. Inr (count + 1, if ok then fl_add F c (fl_int F 1) else c))) dat (0 :: int, fl_int F 0))
       (\<lambda>(count, c). Inr (fl_div F c (fl_int F count)))"

text \<open>The lambda of the task; the plain table gives an accuracy, the sparse one is not tested.\<close>

definition lr_worker ::
  "'f fl \<Rightarrow> 'f sgd_fl \<Rightarrow> 'f lr_fl \<Rightarrow> ('f, 'm) kv_ops \<Rightarrow> (batch list \<Rightarrow> ('f, 'n) sparse_ops \<times> 'n) \<Rightarrow> (nat \<Rightarrow> nat) \<Rightarrow> lr_flags \<Rightarrow> 'f point list \<Rightarrow> 'm
    \<Rightarrow> ('f \<times> 'm + 'n) res"
where
  "lr_worker F G L T new_sparse rnd fl store m =
     bind_res (sampler_new store (lr_batch_size fl)) (\<lambda>sampler.
     bind_res (as_i32 (lr_num_iters fl + lr_speculation fl)) (\<lambda>turns.
     bind_res (prepare_batches rnd (nat turns) 0 sampler) (\<lambda>future.
     check_that (int (length future) = turns) (Check_failed ''future_keys.size()'')
    (if lr_model_type fl = ''SSP'' \<or> lr_model_type fl = ''ASP'' \<or> lr_model_type fl = ''BSP'' then
       bind_res (fold_res (lr_iteration F G L T store future) [0..<nat (lr_num_iters fl)] ([], m)) (\<lambda>(_, m).
       bind_res (kv_get T (all_keys (lr_num_dims fl)) m) (\<lambda>(params, m).
       bind_res (accuracy F G L params store) (\<lambda>a. Inr (Inl (a, m)))))
     else if lr_model_type fl = ''SparseSSP'' then
       let (S, n) = new_sparse future
       in bind_res (fold_res (lr_sparse_iteration F G L S store future) [0..<nat (lr_num_iters fl)] ([], n)) (\<lambda>(_, n). Inr (Inr n))
     else Inl (Check_failed ''model type'')))))"

section \<open>The table serves every dimension\<close>

lemma uint_u64_of_int: "0 \<le> x \<Longrightarrow> x < 9223372036854775808 \<Longrightarrow> uint (word_of_int x :: u64) = x"
  by (simp add: uint_word_of_int take_bit_eq_mod)

text \<open>The range of the indices from \<open>b\<close> to \<open>e\<close>.\<close>

definition span :: "int \<Rightarrow> int \<Rightarrow> range" where
  "span b e = \<lparr>rbegin = word_of_int b, rend = word_of_int e\<rparr>"

lemma in_span:
  assumes "0 \<le> b" "b < 9223372036854775808" "0 \<le> e" "e < 9223372036854775808"
  shows "in_range (span b e) k \<longleftrightarrow> b \<le> uint k \<and> uint k < e"
proof -
  have "uint (ucast k :: u64) = uint k" by (simp add: uint_up_ucast is_up)
  then show ?thesis using assms uint_u64_of_int by (simp add: in_range_def span_def word_le_def word_less_def)
qed

definition cut_spans :: "int \<Rightarrow> int \<Rightarrow> range list" where
  "cut_spans n s = map (\<lambda>i. span (n div s * i) (n div s * (i + 1))) [0..s - 2] @ [span (n div s * (s - 1)) n]"

lemma part_bounds:
  fixes n s i :: int
  assumes "0 < s" "0 \<le> n" "0 \<le> i" "i \<le> s"
  shows "0 \<le> n div s * i" "n div s * i \<le> n"
proof -
  have w: "0 \<le> n div s" using assms(1,2) by (simp add: div_int_pos_iff)
  then show "0 \<le> n div s * i" using assms(3) by simp
  have "n div s * i \<le> n div s * s" using w assms(4) by (rule mult_left_mono[rotated])
  also have "\<dots> \<le> n" using assms(1) by (simp add: minus_mod_eq_div_mult[symmetric])
  finally show "n div s * i \<le> n" .
qed

lemma even_ranges_eq:
  assumes "0 < s" "0 \<le> n" "n < 2147483648"
  shows "even_ranges n s = Inr (cut_spans n s)"
proof -
  have q: "n sdiv s = n div s" using assms by (cases "n = 0") (simp_all add: signed_divide_int_def)
  have "in_i32 (n div s * i)" if "0 \<le> i" "i \<le> s" for i
    using part_bounds[OF assms(1,2) that] assms(3) by (simp add: in_i32_def)
  moreover have "map_res (\<lambda>i. bind_res (as_i32 (n div s * i)) (\<lambda>b. bind_res (as_i32 (n div s * (i + 1))) (\<lambda>e.
       Inr \<lparr>rbegin = word_of_int b, rend = word_of_int e\<rparr>))) [0..s - 2]
      = Inr (map (\<lambda>i. span (n div s * i) (n div s * (i + 1))) [0..s - 2])"
    by (rule map_res_total) (use calculation in \<open>simp add: span_def\<close>)
  ultimately show ?thesis using assms(1) unfolding even_ranges_def q by (simp add: check_that_def cut_spans_def span_def)
qed

lemma contiguous_spans:
  assumes "\<forall>i j. a \<le> i \<and> i \<le> j \<and> j \<le> b \<longrightarrow> c i \<le> c j" "0 \<le> c a" "c b \<le> n" "n < 9223372036854775808" "a \<le> b"
  shows "contiguous (word_of_int (c a)) (map (\<lambda>i. span (c i) (c (i + 1))) [a..b - 1] @ [span (c b) n])"
  using assms
proof (induction "nat (b - a)" arbitrary: a)
  case 0
  then have "a = b" by simp
  then show ?case using 0 uint_u64_of_int[of "c b"] uint_u64_of_int[of n] by (simp add: span_def word_le_def)
next
  case (Suc d)
  then have ab: "a < b" "d = nat (b - (a + 1))" by simp_all
  have up: "c a \<le> c (a + 1)" "c (a + 1) \<le> c b" using Suc.prems(1) ab(1) by simp_all
  have le: "(word_of_int (c a) :: u64) \<le> word_of_int (c (a + 1))"
    using up Suc.prems(2,3,4) uint_u64_of_int[of "c a"] uint_u64_of_int[of "c (a + 1)"] by (simp add: word_le_def)
  have "contiguous (word_of_int (c (a + 1))) (map (\<lambda>i. span (c i) (c (i + 1))) [a + 1..b - 1] @ [span (c b) n])"
    by (rule Suc.hyps(1)[OF ab(2)]) (use Suc.prems up(1) ab(1) order_trans[OF Suc.prems(2) up(1)] in auto)
  moreover have "[a..b - 1] = a # [a + 1..b - 1]" using ab(1) by (simp add: upto_rec1)
  ultimately show ?case using le by (simp add: span_def)
qed

lemma cut_spans_contiguous:
  assumes "0 < s" "0 \<le> n" "n < 2147483648"
  shows "contiguous 0 (cut_spans n s)"
proof -
  have w: "0 \<le> n div s" using assms(1,2) by (simp add: div_int_pos_iff)
  have "contiguous (word_of_int (n div s * 0)) (map (\<lambda>i. span (n div s * i) (n div s * (i + 1))) [0..s - 1 - 1] @ [span (n div s * (s - 1)) n])"
    by (rule contiguous_spans) (use assms part_bounds[of s n "s - 1"] w in \<open>auto intro: mult_left_mono\<close>)
  then show ?thesis by (simp add: cut_spans_def)
qed

lemma cut_spans_serve:
  assumes "0 < s" "0 \<le> n" "n < 2147483648" "uint k < n"
  shows "\<exists>r \<in> set (cut_spans n s). in_range r k"
proof (cases "n div s * (s - 1) \<le> uint k")
  case True
  then have "in_range (span (n div s * (s - 1)) n) k"
    using in_span[of "n div s * (s - 1)" n k] part_bounds[of s n "s - 1"] assms by simp
  then show ?thesis by (simp add: cut_spans_def)
next
  case False
  let ?w = "n div s" and ?i = "uint k div (n div s)"
  have "0 \<le> ?w" using assms(1,2) by (simp add: div_int_pos_iff)
  moreover have "?w \<noteq> 0" using False by auto
  ultimately have w: "0 < ?w" by simp
  have "uint k < (s - 1) * ?w" using False by (simp add: mult.commute)
  have "?i < s - 1"
  proof (rule ccontr)
    assume "\<not> ?i < s - 1"
    then have "(s - 1) * ?w \<le> ?i * ?w" using w by (simp add: mult_right_mono)
    also have "\<dots> \<le> uint k" using w by (simp add: minus_mod_eq_div_mult[symmetric])
    finally show False using \<open>uint k < (s - 1) * ?w\<close> by simp
  qed
  then have i: "0 \<le> ?i" "?i < s - 1" using w by (simp_all add: pos_imp_zdiv_nonneg_iff)
  have "?w * ?i \<le> uint k" "uint k < ?w * (?i + 1)"
    using w by (simp_all add: algebra_simps minus_mod_eq_mult_div[symmetric])
  moreover have "0 \<le> ?w * ?i" "?w * ?i \<le> n" "0 \<le> ?w * (?i + 1)" "?w * (?i + 1) \<le> n"
    using part_bounds[OF assms(1,2), of ?i] part_bounds[OF assms(1,2), of "?i + 1"] i by simp_all
  ultimately have "in_range (span (?w * ?i) (?w * (?i + 1))) k" using in_span[of "?w * ?i" "?w * (?i + 1)" k] assms(3) by simp
  moreover have "?i \<in> set [0..s - 2]" using i by simp
  ultimately show ?thesis unfolding cut_spans_def by fastforce
qed

text \<open>The dimensions of the \<open>i\<close>-th server: an equal part each, and the last one takes what is left.\<close>

definition dim_of_server :: "int \<Rightarrow> int \<Rightarrow> nat \<Rightarrow> u32 \<Rightarrow> bool" where
  "dim_of_server n s i k \<longleftrightarrow> n div s * int i \<le> uint k \<and> uint k < (if int i = s - 1 then n else n div s * (int i + 1))"

lemma cut_spans_nth:
  assumes "0 < s" "0 \<le> n" "n < 2147483648" "i < nat s"
  shows "in_range (cut_spans n s ! i) k \<longleftrightarrow> dim_of_server n s i k"
proof -
  have len: "length [0..s - 2] = nat (s - 1)" by simp
  have lo: "0 \<le> n div s * int i" "n div s * int i \<le> n" using part_bounds[of s n "int i"] assms by simp_all
  show ?thesis
  proof (cases "int i = s - 1")
    case True
    then have "cut_spans n s ! i = span (n div s * (s - 1)) n" using assms(1) by (simp add: cut_spans_def nth_append len)
    then show ?thesis using lo assms(3) True in_span[of "n div s * (s - 1)" n k] assms(2) by (simp add: dim_of_server_def)
  next
    case False
    then have i: "int i \<le> s - 2" "i < nat (s - 1)" using assms(4) by auto
    then have "cut_spans n s ! i = span (n div s * int i) (n div s * (int i + 1))"
      by (simp add: cut_spans_def nth_append len nth_upto)
    moreover have "0 \<le> n div s * (int i + 1)" "n div s * (int i + 1) \<le> n" using part_bounds[of s n "int i + 1"] assms(1,2) i by simp_all
    ultimately show ?thesis
      using lo assms(3) False in_span[of "n div s * int i" "n div s * (int i + 1)" k] by (simp add: dim_of_server_def)
  qed
qed

text \<open>C36. For any number of servers and of dimensions below \<open>2 ^ 31\<close>, also when one does not divide the other or
  there are more servers than dimensions, the ranges are one for each server and without gap; the \<open>i\<close>-th server
  has the \<open>i\<close>-th of the equal parts and the last one what is left.  The partition manager made of them slices
  every sorted request for dimensions below the bound: each piece goes to the server of its dimensions, holds all
  the keys of the request that are its, each with its values, and no key is dropped or sent twice.\<close>

theorem every_dimension_served:
  assumes "0 < s" "0 < n" "n < 2147483648" "length ids = nat s"
    "keys \<noteq> []" "sorted keys" "\<forall>k \<in> set keys. uint k < n" "length vals = w * length keys"
  shows "\<exists>ranges pm pieces. even_ranges n s = Inr ranges \<and> pm_new ranges ids = Inr pm \<and> contiguous 0 ranges
    \<and> length ranges = nat s \<and> (\<forall>i < nat s. \<forall>k. in_range (ranges ! i) k = dim_of_server n s i k)
    \<and> slice pm \<lparr>kv_keys = keys, kv_vals = vals\<rparr> = Inr (map (\<lambda>(i, b, e). (ids ! i,
          \<lparr>kv_keys = segment b e keys, kv_vals = segment (b * w) (e * w) vals\<rparr>)) pieces)
    \<and> sorted_wrt (<) (map fst pieces)
    \<and> (\<forall>(i, b, e) \<in> set pieces. i < nat s \<and> b < e \<and> segment b e keys = filter (dim_of_server n s i) keys)
    \<and> concat (map (\<lambda>(i, b, e). segment b e keys) pieces) = keys"
proof -
  let ?rs = "cut_spans n s" and ?send = "\<lparr>kv_keys = keys, kv_vals = vals\<rparr>"
  have n: "0 \<le> n" using assms(2) by simp
  have len: "length ?rs = nat s" using assms(1) by (simp add: cut_spans_def nat_diff_distrib)
  have con: "contiguous 0 ?rs" by (rule cut_spans_contiguous[OF assms(1) n assms(3)])
  have ne: "?rs \<noteq> []" by (simp add: cut_spans_def)
  then have head: "rbegin (hd ?rs) = 0" using con by (cases ?rs) simp_all
  let ?pm = "\<lparr>pm_ranges = ?rs, pm_server_ids = ids\<rparr>"
  have wf: "pm_wf ?pm" using ne len con assms(4) by (simp add: pm_wf_def head)
  have ranges: "\<forall>i < nat s. \<forall>k. in_range (?rs ! i) k = dim_of_server n s i k"
    using cut_spans_nth[OF assms(1) n assms(3)] by simp
  have "\<forall>k \<in> set keys. \<exists>i < length ids. pm_owns ?pm i k"
  proof
    fix k assume "k \<in> set keys"
    then obtain r where "r \<in> set ?rs" "in_range r k" using cut_spans_serve[OF assms(1) n assms(3), of k] assms(7) by auto
    then show "\<exists>i < length ids. pm_owns ?pm i k" using len assms(4) by (auto simp: pm_owns_def in_set_conv_nth)
  qed
  then obtain pieces where sl: "slice ?pm ?send = Inr (map (\<lambda>(i, b, e). (ids ! i,
          \<lparr>kv_keys = segment b e keys, kv_vals = segment (b * w) (e * w) vals\<rparr>)) pieces)" "sorted_wrt (<) (map fst pieces)"
    "\<forall>(i, b, e) \<in> set pieces. i < length ids \<and> b < e \<and> e \<le> length keys \<and> segment b e keys = filter (pm_owns ?pm i) keys"
    "concat (map (\<lambda>(i, b, e). segment b e keys) pieces) = keys"
    using pm.cut_law[OF wf, of ?send w] assms(5,6,8) by auto
  have "\<forall>(i, b, e) \<in> set pieces. i < nat s \<and> b < e \<and> segment b e keys = filter (dim_of_server n s i) keys"
  proof clarify
    fix i b e assume "(i, b, e) \<in> set pieces"
    then have p: "i < nat s" "b < e" "segment b e keys = filter (pm_owns ?pm i) keys" using sl(3) assms(4) by auto
    have "pm_owns ?pm i = dim_of_server n s i" using ranges p(1) by (auto simp: pm_owns_def)
    then show "i < nat s \<and> b < e \<and> segment b e keys = filter (dim_of_server n s i) keys" using p by simp
  qed
  moreover have "even_ranges n s = Inr ?rs" by (rule even_ranges_eq[OF assms(1) n assms(3)])
  moreover have "pm_new ?rs ids = Inr ?pm" using len assms(4) by (simp add: pm_new_def check_that_def)
  ultimately show ?thesis using sl(1,2,4) con len ranges by blast
qed

text \<open>Seven dimensions on three servers: two, two and three.\<close>

theorem every_dimension_served_witness:
  "\<exists>ranges pm pieces. even_ranges 7 3 = Inr ranges \<and> pm_new ranges [1000, 2000, 3000] = Inr pm
    \<and> slice pm \<lparr>kv_keys = [1, 4, 6], kv_vals = [10, 40, 60]\<rparr> = Inr (map (\<lambda>(i, b, e). ([1000, 2000, 3000] ! i,
          \<lparr>kv_keys = segment b e [1, 4, 6], kv_vals = segment (b * 1) (e * 1) [10, 40, 60]\<rparr>)) pieces)
    \<and> concat (map (\<lambda>(i, b, e). segment b e [1, 4, 6]) pieces) = ([1, 4, 6] :: u32 list)"
proof -
  have "sorted [1, 4, 6 :: u32]" "\<forall>k \<in> set [1, 4, 6 :: u32]. uint k < 7" by simp_all
  from every_dimension_served[of 3 7 "[1000, 2000, 3000]", OF _ _ _ _ _ this, of "[10, 40, 60]" 1] show ?thesis by auto
qed

section \<open>A worker never leaves its arrays\<close>

text \<open>The walk over sorted fields is a loop over the positions of their keys.\<close>

definition key_index :: "u32 list \<Rightarrow> u32 \<Rightarrow> nat" where
  "key_index keys k = length (takeWhile (\<lambda>y. y \<noteq> k) keys)"

lemma key_index_ok: "k \<in> set keys \<Longrightarrow> key_index keys k < length keys \<and> keys ! key_index keys k = k"
  unfolding key_index_def by (induction keys) auto

lemma walk_is_fold:
  assumes "sorted_wrt (<) keys" "sorted (map fst x)" "\<forall>(f, v) \<in> set x. 0 \<le> f \<and> f < 4294967296 \<and> to_u32 f \<in> set keys"
  shows "walk_fields g keys x 0 s = fold_res (\<lambda>(f, v). g (key_index keys (to_u32 f)) v) x s"
proof (rule walk_fields_lookup[OF assms(1,2)])
  show "\<forall>(f, v) \<in> set x. \<exists>j\<ge>0. j < length keys \<and> keys ! j = to_u32 f" using assms(3) by (auto simp: in_set_conv_nth)
  fix f v s j assume "(f, v) \<in> set x" "j < length keys" "keys ! j = to_u32 f"
  moreover have "distinct keys" using assms(1) by (simp add: strict_sorted_iff)
  ultimately have "key_index keys (to_u32 f) = j" using key_index_ok[of "to_u32 f" keys] by (metis nth_eq_iff_index_eq nth_mem)
  then show "g j v s = (case (f, v) of (f, v) \<Rightarrow> g (key_index keys (to_u32 f)) v) s" by simp
qed (use assms(3) in auto)

lemma fold_res_live:
  assumes "\<And>x s. x \<in> set xs \<Longrightarrow> P s \<Longrightarrow> \<exists>s'. f x s = Inr s' \<and> P s'" "P s"
  shows "\<exists>s'. fold_res f xs s = Inr s' \<and> P s'"
  using assms
proof (induction xs arbitrary: s)
  case (Cons x xs)
  obtain s1 where s1: "f x s = Inr s1" "P s1" using Cons.prems(1)[of x s] Cons.prems(2) by auto
  obtain s2 where "fold_res f xs s1 = Inr s2" "P s2" using Cons.IH[OF Cons.prems(1) s1(2)] by auto
  then show ?case using s1(1) by simp
qed auto

definition good_point :: "int \<Rightarrow> 'f point \<Rightarrow> bool" where
  "good_point n d \<longleftrightarrow> sorted (map fst (fst d)) \<and> (\<forall>(f, v) \<in> set (fst d). 0 \<le> f \<and> f < n)"

definition good_batch :: "int \<Rightarrow> 'f point list \<Rightarrow> batch \<Rightarrow> bool" where
  "good_batch n store b \<longleftrightarrow> sorted_wrt (<) (fst b) \<and> (\<forall>k \<in> set (fst b). uint k < n)
     \<and> (\<forall>p \<in> set (snd b). \<exists>i < length store. p = Some i \<and> set (field_keys (store ! i)) \<subseteq> set (fst b))"

lemma walk_live:
  assumes "good_point n (x, y)" "n < 4294967296" "sorted_wrt (<) keys" "set (field_keys (x, y)) \<subseteq> set keys"
    and "\<And>j v s. j < length keys \<Longrightarrow> P s \<Longrightarrow> \<exists>s'. g j v s = Inr s' \<and> P s'" "P s"
  shows "\<exists>s'. walk_fields g keys x 0 s = Inr s' \<and> P s'"
proof -
  have x: "\<forall>(f, v) \<in> set x. 0 \<le> f \<and> f < 4294967296 \<and> to_u32 f \<in> set keys" "sorted (map fst x)"
    using assms(1,2,4) by (fastforce simp: good_point_def field_keys_def)+
  show ?thesis
    unfolding walk_is_fold[OF assms(3) x(2,1)]
    by (rule fold_res_live[where P = P]) (use assms(5,6) x(1) key_index_ok in fastforce)+
qed

lemma lr_point_live:
  assumes "good_point n d" "n < 4294967296" "sorted_wrt (<) keys" "set (field_keys d) \<subseteq> set keys"
    and "length params = length keys" "length deltas = length keys"
  shows "\<exists>deltas'. lr_point F G L keys params d deltas = Inr deltas' \<and> length deltas' = length keys"
proof -
  obtain x y where d: "d = (x, y)" by (cases d)
  note w = walk_live[OF assms(1)[unfolded d] assms(2,3) assms(4)[unfolded d]]
  obtain s where s: "lr_linear F keys params x = Inr s"
    using w[of "\<lambda>_. True" "\<lambda>j v s. bind_res (vec_at params j) (\<lambda>p. Inr (fl_add F s (fl_mul F p v)))" "fl_int F 0"] assms(5)
    unfolding lr_linear_def by (auto simp: vec_at_def)
  show ?thesis
    using w[of "\<lambda>s. length s = length keys" "\<lambda>j v. upd_at j (\<lambda>d. lr_step L d v (fl_sub F (clip_label F y) (sg_sigmoid G s)))" deltas] assms(6)
    by (simp add: lr_point_def d s upd_at_def Let_def)
qed

lemma lr_batch_live:
  assumes "good_batch n store b" "\<forall>d \<in> set store. good_point n d" "n < 4294967296"
    and "length params = length (fst b)" "length deltas = length (fst b)"
  shows "\<exists>deltas'. lr_batch F G L store b params deltas = Inr deltas' \<and> length deltas' = length (fst b)"
  unfolding lr_batch_def
proof (rule fold_res_live[where P = "\<lambda>s. length s = length (fst b)"])
  show "length deltas = length (fst b)" by (rule assms(5))
next
  fix p and s :: "'a list" assume p: "p \<in> set (snd b)" "length s = length (fst b)"
  then obtain i where i: "i < length store" "p = Some i" "set (field_keys (store ! i)) \<subseteq> set (fst b)"
    using assms(1) by (auto simp: good_batch_def)
  have "good_point n (store ! i)" "sorted_wrt (<) (fst b)" using assms(1,2) i(1) by (simp_all add: good_batch_def)
  from lr_point_live[OF this(1) assms(3) this(2) i(3) assms(4) p(2)]
  show "\<exists>s'. bind_res (of_opt null_pointer p) (\<lambda>i. bind_res (vec_at store i) (\<lambda>d. lr_point F G L (fst b) params d s)) = Inr s'
      \<and> length s' = length (fst b)"
    using i(1) by (simp add: i(2) vec_at_def)
qed

text \<open>The batches that the sampler prepares are good.\<close>

lemma prepare_batches_ok:
  assumes "sampler_inv s" "bs_data s \<noteq> []" "length (bs_data s) < 2147483648" "\<forall>d \<in> set (bs_data s). good_point n d" "n < 4294967296"
  shows "\<exists>future. prepare_batches rnd m k s = Inr future \<and> length future = m \<and> (\<forall>b \<in> set future. good_batch n (bs_data s) b)"
  using assms(1-4)
proof (induction m arbitrary: k s)
  case (Suc m)
  let ?pos = "rnd k mod length (bs_data s)"
  have pos: "?pos < length (bs_data s)" using Suc.prems(2) by simp
  have "to_i32 (of_nat ?pos) = int ?pos"
    using pos Suc.prems(3) by (simp add: to_i32_def signed_of_nat signed_take_bit_int_eq_self)
  then have r: "random_start_point (rnd k) s = Inr (s\<lparr>bs_cur_pos := int ?pos\<rparr>)" using Suc.prems(2) by (simp add: random_start_point_def)
  have inv: "sampler_inv (s\<lparr>bs_cur_pos := int ?pos\<rparr>)" "bs_data (s\<lparr>bs_cur_pos := int ?pos\<rparr>) \<noteq> []"
    using Suc.prems(1,2) pos by (simp_all add: sampler_inv_def)
  let ?B = "nat (bs_batch_size s)" and ?len = "length (bs_data s)"
  obtain keys s' where b: "prepare_next_batch (s\<lparr>bs_cur_pos := int ?pos\<rparr>) = Inr (keys, s')" "sampler_inv s'" "bs_data s' = bs_data s"
    "get_data_ptrs s' = map (\<lambda>k. Some ((?pos + k) mod ?len)) [0..<?B]" "sorted keys" "distinct keys"
    "set keys = (\<Union>k < ?B. set (field_keys (bs_data s ! ((?pos + k) mod ?len))))"
    using next_batch_correct[OF inv] by auto
  have small: "uint k < n" if km: "k \<in> set (field_keys d)" "d \<in> set (bs_data s)" for k d
  proof -
    obtain f v where f: "(f, v) \<in> set (fst d)" "k = to_u32 f" using km(1) by (force simp: field_keys_def)
    then have "0 \<le> f" "f < n" using Suc.prems(4) km(2) by (fastforce simp: good_point_def)+
    then show ?thesis using uint_to_u32[of f] assms(5) f(2) by simp
  qed
  have at: "bs_data s ! ((?pos + k) mod ?len) \<in> set (bs_data s)" for k using Suc.prems(2) by simp
  have "\<forall>k \<in> set keys. uint k < n" using small at unfolding b(7) by blast
  moreover have "\<exists>i < ?len. p = Some i \<and> set (field_keys (bs_data s ! i)) \<subseteq> set keys" if p: "p \<in> set (get_data_ptrs s')" for p
    using p Suc.prems(2) unfolding b(4,7) by auto
  ultimately have good: "good_batch n (bs_data s) (keys, get_data_ptrs s')" using b(5,6) by (simp add: good_batch_def strict_sorted_iff)
  obtain future where f: "prepare_batches rnd m (k + 1) s' = Inr future" "length future = m" "\<forall>b \<in> set future. good_batch n (bs_data s) b"
    using Suc.IH[OF b(2), of "k + 1"] Suc.prems b(3) by auto
  then show ?case using r b(1) good by simp
qed simp

section \<open>The table a worker needs\<close>

text \<open>A table that answers for the keys in \<open>D\<close>.\<close>

locale live_table =
  fixes T :: "('f, 'm) kv_ops" and D :: "u32 \<Rightarrow> bool" and ok :: "'m \<Rightarrow> bool"
  assumes get_live: "ok m \<Longrightarrow> list_all D ks \<Longrightarrow> \<exists>vs m'. kv_get T ks m = Inr (vs, m') \<and> length vs = length ks \<and> ok m'"
    and add_live: "ok m \<Longrightarrow> list_all D ks \<Longrightarrow> length vs = length ks \<Longrightarrow> \<exists>m'. kv_add T ks vs m = Inr m' \<and> ok m'"
    and clock_live: "ok m \<Longrightarrow> \<exists>m'. kv_clock T m = Inr m' \<and> ok m'"
begin

lemma iteration_live:
  assumes "\<forall>b \<in> set future. good_batch n store b" "\<forall>d \<in> set store. good_point n d" "n < 4294967296" "\<forall>k. uint k < n \<longrightarrow> D k"
    and "i < length future" "ok (snd s)"
  shows "\<exists>s'. lr_iteration F G L T store future i s = Inr s' \<and> ok (snd s')"
proof -
  obtain deltas m where s: "s = (deltas, m)" by (cases s)
  let ?b = "future ! i"
  have b: "good_batch n store ?b" using assms(1,5) by simp
  then have keys: "list_all D (fst ?b)" using assms(4) by (simp add: good_batch_def list_all_iff)
  obtain params m1 where g: "kv_get T (fst ?b) m = Inr (params, m1)" "length params = length (fst ?b)" "ok m1"
    using get_live[OF _ keys, of m] assms(6) unfolding s snd_conv by blast
  have "length (resize_to (length (fst ?b)) (fl_int F 0) deltas) = length (fst ?b)" by (simp add: resize_to_def)
  from lr_batch_live[OF b assms(2,3) g(2) this] obtain deltas' where
    d: "lr_batch F G L store ?b params (resize_to (length (fst ?b)) (fl_int F 0) deltas) = Inr deltas'" "length deltas' = length (fst ?b)" by blast
  obtain m2 where a: "kv_add T (fst ?b) deltas' m1 = Inr m2" "ok m2" using add_live[OF g(3) keys d(2)] by blast
  obtain m3 where c: "kv_clock T m2 = Inr m3" "ok m3" using clock_live[OF a(2)] by blast
  show ?thesis using assms(5) g d a c by (simp add: lr_iteration_def s future_batch_def)
qed

lemma training_live:
  assumes "\<forall>b \<in> set future. good_batch n store b" "\<forall>d \<in> set store. good_point n d" "n < 4294967296" "\<forall>k. uint k < n \<longrightarrow> D k"
    and "iters \<le> length future" "ok m"
  shows "\<exists>deltas m'. fold_res (lr_iteration F G L T store future) [0..<iters] ([], m) = Inr (deltas, m') \<and> ok m'"
proof -
  have "\<exists>s'. fold_res (lr_iteration F G L T store future) [0..<iters] ([], m) = Inr s' \<and> ok (snd s')"
  proof (rule fold_res_live[where P = "\<lambda>s. ok (snd s)"])
    fix i and s :: "'f list \<times> 'm" assume "i \<in> set [0..<iters]" "ok (snd s)"
    then show "\<exists>s'. lr_iteration F G L T store future i s = Inr s' \<and> ok (snd s')"
      using iteration_live[OF assms(1-4)] assms(5) by simp
  qed (simp add: assms(6))
  then show ?thesis by auto
qed

end

text \<open>A server's storage that serves the dimensions is one.\<close>

interpretation live_storage: live_table "storage_table u32_val" D "\<lambda>m. storage_inv m \<and> (\<forall>k. D k \<longrightarrow> storage_serves m k)"
proof
  fix m :: "u32 storage" and ks
  assume m: "storage_inv m \<and> (\<forall>k. D k \<longrightarrow> storage_serves m k)" "list_all D ks"
  then have serves: "list_all (storage_serves m) ks" by (auto simp: list_all_iff)
  show "\<exists>vs m'. kv_get (storage_table u32_val) ks m = Inr (vs, m') \<and> length vs = length ks \<and> storage_inv m' \<and> (\<forall>k. D k \<longrightarrow> storage_serves m' k)"
    using u32_store.get_ok[of m ks] m(1) serves by (auto simp: storage_table_def)
  show "\<exists>m'. kv_add (storage_table u32_val) ks vs m = Inr m' \<and> storage_inv m' \<and> (\<forall>k. D k \<longrightarrow> storage_serves m' k)"
    if "length vs = length ks" for vs
    using u32_store.add_ok[of m "bytes_of_vals u32_val vs" ks] m(1) serves that by (auto simp: storage_table_def)
next
  fix m :: "u32 storage"
  assume "storage_inv m \<and> (\<forall>k. D k \<longrightarrow> storage_serves m k)"
  then show "\<exists>m'. kv_clock (storage_table u32_val) m = Inr m' \<and> storage_inv m' \<and> (\<forall>k. D k \<longrightarrow> storage_serves m' k)"
    using u32_store.finish_ok[of m] by (simp add: storage_table_def)
qed

interpretation live_array: live_table array_table "\<lambda>k. unat k < n" "\<lambda>m. length m = n"
proof
  have "length (bump i v m) = length m" for i v and m :: "'a list" by (induction i v m rule: bump.induct) simp_all
  then have fold: "length (fold (\<lambda>(k, v) m. bump (unat k) v m) kvs m) = length m" for kvs :: "(u32 \<times> 'a) list" and m :: "'a list"
    by (induction kvs arbitrary: m) (simp_all add: case_prod_beta)
  show "\<exists>m'. kv_add array_table ks vs m = Inr m' \<and> length m' = n" if "length m = n" "list_all (\<lambda>k. unat k < n) ks" for ks vs and m :: "'a list"
    using that fold by (simp add: array_table_def)
qed (simp_all add: array_table_def)

lemma accuracy_live:
  assumes "\<forall>d \<in> set store. good_point (int (length w)) d"
  shows "\<exists>a. accuracy F G L w store = Inr a"
proof -
  have "\<exists>ok. hit F G L w d = Inr ok" if "d \<in> set store" for d
  proof -
    obtain x y where d: "d = (x, y)" by (cases d)
    have "\<exists>s'. fold_res (\<lambda>(f, v) s. bind_res (vect_at_int w f) (\<lambda>p. Inr (fl_add F s (fl_mul F p v)))) x (fl_int F 0) = Inr s' \<and> True"
      by (rule fold_res_live) (use assms that d in \<open>fastforce simp: good_point_def vect_at_int_def vec_at_def\<close>)+
    then show ?thesis by (auto simp: hit_def d)
  qed
  then have "\<exists>s'. fold_res (\<lambda>d (count, c). bind_res (hit F G L w d) (\<lambda>ok. Inr (count + 1, if ok then fl_add F c (fl_int F 1) else c))) store (0 :: int, fl_int F 0) = Inr s' \<and> True"
    by (intro fold_res_live) fastforce+
  then show ?thesis by (auto simp: accuracy_def)
qed


definition demo_lr :: lr_flags where
  "demo_lr = \<lparr>lr_model_type = ''SSP'', lr_storage_type = ''Map'', lr_recorder_type = ''None'', lr_num_dims = 3, lr_batch_size = 2,
     lr_num_iters = 2, lr_staleness = 1, lr_speculation = 1, lr_servers_per_node = 1\<rparr>"

definition rat_lr :: "rat lr_fl" where
  "rat_lr = \<lparr>lr_step = (\<lambda>d v e. d + v * e / 2), lr_above_half = (\<lambda>p. 1 / 2 < p)\<rparr>"

definition demo_points :: "rat point list" where
  "demo_points = [([(0, 1), (2, 1)], 1), ([(1, 3)], -1), ([], 1)]"


text \<open>\<open>resize\<close> does not clear \<open>deltas\<close>: with the first step [1] pushed for key 0, the next iteration pushes it
  once more, now for key 1.\<close>

lemma lr_push_keeps_last:
  "lr_iteration rat_fl rat_sgd rat_lr array_table [([(0, 2)], 1), ([(1, 2)], 1)] [([0], [Some 0]), ([1], [Some 1])] 0 ([], [0, 0]) = Inr ([1], [1, 0])"
  "lr_iteration rat_fl rat_sgd rat_lr array_table [([(0, 2)], 1), ([(1, 2)], 1)] [([0], [Some 0]), ([1], [Some 1])] 1 ([], [1, 0]) = Inr ([1], [1, 1])"
  "lr_iteration rat_fl rat_sgd rat_lr array_table [([(0, 2)], 1), ([(1, 2)], 1)] [([0], [Some 0]), ([1], [Some 1])] 1 ([1], [1, 0]) = Inr ([2], [1, 2])"
  by code_simp+

end
