(* ===== verification/Job_Loop.thy ===== *)
theory Job_Loop
  imports Complex_Main Gbdt_Data Rapid_Reassignment
begin

text \<open>
  How a program of \<open>examples2\<close> works through its batch under a \<open>job_manager\<close>: it draws where the batch starts,
  announces it as its job, and takes one point after the other until the job is finished.  Between two points the threads of
  the reassignment may change the job.  \<open>basic_example.cpp\<close> and \<open>kmeans_example.cpp\<close> do it alike; what they do with a point is
  an argument.
\<close>

section \<open>Drawing and announcing the batch\<close>

text \<open>\<open>rand() % (data.size() - 2*FLAGS_batch_size - 1)\<close>, in \<open>size_t\<close>, converted to \<open>int\<close>.\<close>

definition batch_start :: "(nat \<Rightarrow> nat) \<Rightarrow> int \<Rightarrow> 'p list \<Rightarrow> nat \<Rightarrow> int res" where
  "batch_start rnd bsize dat iter =
     bind_res (as_i32 (2 * bsize)) (\<lambda>b.
       let m = of_nat (length dat) - of_int b - 1 :: u64
       in check_that (m \<noteq> 0) Div_by_zero (Inr (to_i32 (ucast (of_nat (rnd iter) mod m)))))"

definition announce :: "int \<Rightarrow> nat \<Rightarrow> int \<Rightarrow> job_manager \<Rightarrow> job_manager" where
  "announce bsize iter start jo = update_batch_size (to_u32 bsize) (update_start_pt (to_u32 start) (update_iteration (of_nat iter) jo))"

section \<open>The loop\<close>

text \<open>After each point \<open>Check\<close> may send messages and wait; \<open>outside k\<close> is what the threads of the reassignment then do to
  the job, \<open>None\<close> if the wait does not end.\<close>

fun job_loop ::
  "nat \<Rightarrow> flag \<Rightarrow> 'b sarray_stream \<Rightarrow> (nat \<Rightarrow> message list \<times> job_manager \<Rightarrow> job_manager option) \<Rightarrow> ('p \<Rightarrow> 's \<Rightarrow> 's res) \<Rightarrow> 'p list
    \<Rightarrow> nat \<Rightarrow> int \<Rightarrow> job_manager \<times> 's \<Rightarrow> (job_manager \<times> 's) res option"
where
  "job_loop 0 other S outside work dat k start s = None"
| "job_loop (Suc n) other S outside work dat k start (jo, s) =
     (if is_finished jo then Some (Inr (jo, s))
      else case bind_res (vect_at_int dat start) (\<lambda>p. work p s) of
        Inl e \<Rightarrow> Some (Inl e)
      | Inr s \<Rightarrow>
          (case outside k (jo_check other S jo) of
             None \<Rightarrow> None
           | Some jo \<Rightarrow> job_loop n other S outside work dat (k + 1) (start + 1) (jo, s)))"

section \<open>The points of a batch\<close>

text \<open>The batch lies inside the data when there are enough points.\<close>

definition room_for :: "int \<Rightarrow> 'p list \<Rightarrow> bool" where
  "room_for bsize dat \<longleftrightarrow> 0 \<le> bsize \<and> 2 * bsize + 1 < int (length dat) \<and> length dat < 2147483648"

definition start_of :: "(nat \<Rightarrow> nat) \<Rightarrow> int \<Rightarrow> 'p list \<Rightarrow> nat \<Rightarrow> nat" where
  "start_of rnd bsize dat iter = rnd iter mod (length dat - 2 * nat bsize - 1)"

lemma batch_start_ok:
  assumes "room_for bsize dat" "rnd iter < 2147483648"
  shows "batch_start rnd bsize dat iter = Inr (int (start_of rnd bsize dat iter))" "start_of rnd bsize dat iter + 2 * nat bsize + 1 < length dat"
proof -
  define b where "b = nat bsize"
  have b: "bsize = int b" "2 * b + 1 < length dat" "length dat < 2147483648"
    using assms(1) unfolding b_def room_for_def by (simp, linarith, simp)
  define w where "w = length dat - 2 * b - 1"
  have w: "0 < w" "w < 2147483648" using b by (simp_all add: w_def)
  have m: "(of_nat (length dat) - of_int (2 * int b) - 1 :: u64) = of_nat w"
  proof -
    have "int (length dat) - 2 * int b - 1 = int w" using b(2) by (simp add: w_def)
    then have "(of_int (int (length dat) - 2 * int b - 1) :: u64) = of_int (int w)" by (rule arg_cong)
    then show ?thesis by simp
  qed
  have r: "rnd iter mod w < 2147483648" using w mod_less_divisor[OF w(1), of "rnd iter"] by linarith
  have "unat (of_nat (rnd iter) mod of_nat w :: u64) = rnd iter mod w"
    using assms(2) w(2) r by (simp add: unat_word_ariths unat_of_nat)
  then have word: "(of_nat (rnd iter) mod of_nat w :: u64) = of_nat (rnd iter mod w)" by (metis of_nat_unat ucast_id)
  have "uint (ucast (of_nat (rnd iter mod w) :: u64) :: u32) = int (rnd iter mod w)"
    using r by (simp add: unsigned_ucast_eq unsigned_of_nat take_bit_nat_eq_self take_bit_int_eq_self)
  then have i32: "to_i32 (ucast (of_nat (rnd iter mod w) :: u64)) = int (rnd iter mod w)"
    using to_i32_eq_uint[of "ucast (of_nat (rnd iter mod w) :: u64)"] r by simp
  have two: "in_i32 (2 * int b)" using b(2,3) by (simp add: in_i32_def)
  have "unat (of_nat w :: u64) = w" using w by (simp add: unat_of_nat)
  then have "(of_nat w :: u64) \<noteq> 0" using w(1) by (metis less_irrefl unat_0)
  moreover have s: "start_of rnd bsize dat iter = rnd iter mod w" by (simp add: start_of_def b_def[symmetric] w_def)
  ultimately show "batch_start rnd bsize dat iter = Inr (int (start_of rnd bsize dat iter))"
    using two by (simp only: batch_start_def b(1) as_i32_def if_True bind_res_simps Let_def m check_that_def word i32 simp_thms)
  show "start_of rnd bsize dat iter + 2 * nat bsize + 1 < length dat"
    using mod_less_divisor[OF w(1), of "rnd iter"] b(2) unfolding s b_def[symmetric] w_def by linarith
qed

lemma announce_job:
  assumes "0 \<le> bsize"
  shows "jo_do (announce bsize iter (int start) jo) = jo_do jo" "jm_start_pt (jo_job (announce bsize iter (int start) jo)) = of_nat start"
    "jm_batch_size (jo_job (announce bsize iter (int start) jo)) = of_nat (nat bsize)"
    "jm_current_pt (jo_job (announce bsize iter (int start) jo)) = of_nat start"
  using assms by (simp_all add: announce_def update_batch_size_def update_start_pt_def update_iteration_def to_u32_def)

section \<open>Whatever happens to the job, the points are consecutive\<close>

text \<open>The job after \<open>i\<close> points.\<close>

fun job_at :: "flag \<Rightarrow> 'b sarray_stream \<Rightarrow> (nat \<Rightarrow> message list \<times> job_manager \<Rightarrow> job_manager option) \<Rightarrow> nat \<Rightarrow> job_manager \<Rightarrow> nat \<Rightarrow> job_manager option" where
  "job_at other S outside k jo 0 = Some jo"
| "job_at other S outside k jo (Suc i) = Option.bind (outside k (jo_check other S jo)) (\<lambda>jo. job_at other S outside (k + 1) jo i)"

text \<open>It is finished after \<open>c\<close> points and not before.\<close>

definition finishes_at :: "flag \<Rightarrow> 'b sarray_stream \<Rightarrow> (nat \<Rightarrow> message list \<times> job_manager \<Rightarrow> job_manager option) \<Rightarrow> nat \<Rightarrow> job_manager \<Rightarrow> nat \<Rightarrow> bool" where
  "finishes_at other S outside k jo c \<longleftrightarrow>
     list_all (\<lambda>i. case job_at other S outside k jo i of Some j \<Rightarrow> is_finished j \<longleftrightarrow> i = c | None \<Rightarrow> False) [0..<Suc c]"

lemma finishes_at_iff:
  "finishes_at other S outside k jo c \<longleftrightarrow> (\<forall>i \<le> c. \<exists>j. job_at other S outside k jo i = Some j \<and> (is_finished j \<longleftrightarrow> i = c))"
  unfolding finishes_at_def list_all_iff by (fastforce simp del: upt_Suc simp: less_Suc_eq_le split: option.splits)

lemma finishes_at_0: "finishes_at other S outside k jo 0 \<longleftrightarrow> is_finished jo"
  by (simp add: finishes_at_iff)

lemma finishes_at_Suc:
  "finishes_at other S outside k jo (Suc c) \<longleftrightarrow>
    \<not> is_finished jo \<and> (\<exists>j. outside k (jo_check other S jo) = Some j \<and> finishes_at other S outside (k + 1) j c)"
proof -
  have all: "(\<forall>i \<le> Suc c. P i) \<longleftrightarrow> P 0 \<and> (\<forall>i \<le> c. P (Suc i))" for P by (metis le0 Suc_le_mono not0_implies_Suc)
  show ?thesis unfolding finishes_at_iff all by (cases "outside k (jo_check other S jo)") auto
qed

lemma job_loop_consecutive:
  "job_loop n other S outside work dat k (int i) (jo, s) = Some (Inr (jo', s'))
    \<longleftrightarrow> (\<exists>c < n. finishes_at other S outside k jo c \<and> job_at other S outside k jo c = Some jo' \<and> (c = 0 \<or> i + c \<le> length dat)
      \<and> fold_res work (take c (drop i dat)) s = Inr s')"
proof (induction n arbitrary: k i jo s)
  case (Suc n)
  have ex: "(\<exists>c < Suc n. P c) \<longleftrightarrow> P 0 \<or> (\<exists>c < n. P (Suc c))" for P using less_Suc_eq_0_disj by auto
  show ?case
  proof (cases "is_finished jo")
    case True
    then show ?thesis unfolding ex by (auto simp: finishes_at_0 finishes_at_Suc)
  next
    case going: False
    show ?thesis
    proof (cases "i < length dat")
      case False
      then show ?thesis using going unfolding ex by (auto simp: finishes_at_0 vect_at_int_def vec_at_def)
    next
      case True
      then have take: "take (Suc c) (drop i dat) = dat ! i # take c (drop (Suc i) dat)" for c by (simp add: Cons_nth_drop_Suc[symmetric])
      have run: "job_loop (Suc n) other S outside work dat k (int i) (jo, s) = Some (Inr (jo', s')) \<longleftrightarrow>
          (\<exists>s1 j. work (dat ! i) s = Inr s1 \<and> outside k (jo_check other S jo) = Some j
            \<and> job_loop n other S outside work dat (k + 1) (int (Suc i)) (j, s1) = Some (Inr (jo', s')))"
        using going True by (auto simp: vect_at_int_def vec_at_def add.commute split: sum.splits option.splits)
      show ?thesis unfolding run Suc.IH ex using going True
        by (auto simp: finishes_at_0 finishes_at_Suc take res_simps)
    qed
  qed
qed simp

text \<open>\<open>c\<close> points with the job open, then \<open>d\<close> more.\<close>

definition open_for :: "flag \<Rightarrow> 'b sarray_stream \<Rightarrow> (nat \<Rightarrow> message list \<times> job_manager \<Rightarrow> job_manager option) \<Rightarrow> nat \<Rightarrow> job_manager \<Rightarrow> nat \<Rightarrow> bool" where
  "open_for other S outside k jo c \<longleftrightarrow> (\<forall>i < c. \<exists>j. job_at other S outside k jo i = Some j \<and> \<not> is_finished j)"

lemma open_for_0: "open_for other S outside k jo 0"
  by (simp add: open_for_def)

lemma open_for_Suc:
  "open_for other S outside k jo (Suc c) \<longleftrightarrow>
    \<not> is_finished jo \<and> (c = 0 \<or> (\<exists>j. outside k (jo_check other S jo) = Some j \<and> open_for other S outside (k + 1) j c))"
proof -
  have all: "(\<forall>i < Suc c. P i) \<longleftrightarrow> P 0 \<and> (\<forall>i < c. P (Suc i))" for P using less_Suc_eq_0_disj by auto
  show ?thesis unfolding open_for_def all by (cases "outside k (jo_check other S jo)") auto
qed

lemma finishes_later:
  "open_for other S outside k jo c \<Longrightarrow> job_at other S outside k jo c = Some j \<Longrightarrow> finishes_at other S outside (k + c) j d
    \<Longrightarrow> finishes_at other S outside k jo (c + d) \<and> job_at other S outside k jo (c + d) = job_at other S outside (k + c) j d"
proof (induction c arbitrary: k jo)
  case (Suc c)
  then obtain j1 where "outside k (jo_check other S jo) = Some j1" by (cases "outside k (jo_check other S jo)") auto
  then show ?case using Suc.prems Suc.IH[of "k + 1" j1] by (cases "c = 0") (auto simp: open_for_Suc open_for_0 finishes_at_Suc)
qed simp

section \<open>A job that goes on\<close>

definition at_point :: "nat \<Rightarrow> nat \<Rightarrow> nat \<Rightarrow> job_manager \<Rightarrow> bool" where
  "at_point start b t jo \<longleftrightarrow> jm_start_pt (jo_job jo) = of_nat start \<and> jm_batch_size (jo_job jo) = of_nat b
     \<and> jm_current_pt (jo_job jo) = of_nat (start + t)"

definition advanced :: "job_manager \<Rightarrow> job_meta" where
  "advanced jo = (jo_job jo)\<lparr>jm_current_pt := jm_current_pt (jo_job jo) + 1\<rparr>"

lemma finished_at_point:
  assumes "at_point start b t jo" "t \<le> b" "start + b < 4294967296"
  shows "is_finished jo \<longleftrightarrow> t = b"
proof -
  have "is_finished jo \<longleftrightarrow> (of_nat (start + t) :: u32) = of_nat (start + b)" using assms(1) by (simp add: is_finished_def at_point_def)
  also have "\<dots> \<longleftrightarrow> start + t = start + b" using assms(2,3) by (simp add: word_of_nat_eq_iff take_bit_nat_eq_self del: of_nat_add)
  finally show ?thesis by simp
qed

text \<open>As long as what is outside leaves the job alone, it stays open to its end; \<open>P\<close> is what it does not change.\<close>

lemma job_advances:
  assumes "\<And>i jo. i < c \<Longrightarrow> P jo \<Longrightarrow> \<exists>j. outside (k + i) (jo_check other S jo) = Some j \<and> P j \<and> jo_job j = advanced jo"
    and "P jo" "at_point start b t jo" "t + c \<le> b" "start + b < 4294967296"
  shows "\<exists>j. job_at other S outside k jo c = Some j \<and> P j \<and> at_point start b (t + c) j \<and> open_for other S outside k jo c"
  using assms
proof (induction c arbitrary: t k jo)
  case (Suc c)
  obtain j1 where j1: "outside k (jo_check other S jo) = Some j1" "P j1" "jo_job j1 = advanced jo" using Suc.prems(1)[of 0 jo] Suc.prems(2) by auto
  have "\<exists>j. job_at other S outside (k + 1) j1 c = Some j \<and> P j \<and> at_point start b (Suc t + c) j \<and> open_for other S outside (k + 1) j1 c"
  proof (rule Suc.IH)
    show "\<exists>j. outside (k + 1 + i) (jo_check other S jo) = Some j \<and> P j \<and> jo_job j = advanced jo" if "i < c" "P jo" for i jo
      using Suc.prems(1)[of "Suc i" jo] that by simp
  qed (use Suc.prems(3-5) j1(2,3) in \<open>simp_all add: at_point_def advanced_def add.commute\<close>)
  then show ?case using j1(1) finished_at_point[OF Suc.prems(3) _ Suc.prems(5)] Suc.prems(4) by (auto simp: open_for_Suc)
qed (simp add: open_for_0)

lemma plain_check:
  assumes "\<not> jo_do jo"
  shows "jo_check other S jo = ([], jo\<lparr>jo_job := advanced jo\<rparr>)"
  using assms by (simp add: jo_check_def advanced_def Let_def)

lemma plain_finishes:
  assumes "\<And>k jo. outside k ([], jo) = Some jo" "start + b < 4294967296" "\<not> jo_do jo" "at_point start b 0 jo"
  shows "finishes_at other S outside k jo b \<and> (\<exists>jo'. job_at other S outside k jo b = Some jo' \<and> \<not> jo_do jo')"
proof -
  have "\<exists>j. job_at other S outside k jo b = Some j \<and> \<not> jo_do j \<and> at_point start b (0 + b) j \<and> open_for other S outside k jo b"
    by (rule job_advances[where P = "\<lambda>jo. \<not> jo_do jo"]) (use assms in \<open>simp_all add: plain_check\<close>)
  then obtain j where j: "job_at other S outside k jo b = Some j" "\<not> jo_do j" "at_point start b b j" "open_for other S outside k jo b" by auto
  have "is_finished j" using finished_at_point[OF j(3) order_refl assms(2)] by simp
  then show ?thesis using finishes_later[OF j(4,1), of 0] j(1,2) by (simp add: finishes_at_0)
qed

section \<open>A batch that nobody touches, and one that helps\<close>

lemma announce_at_point: "0 \<le> bsize \<Longrightarrow> at_point start (nat bsize) 0 (announce bsize iter (int start) jo)"
  by (simp add: at_point_def announce_job)

text \<open>A batch that is announced is the batch that is worked through.\<close>

lemma batch_plain:
  assumes "\<And>k jo. outside k ([], jo) = Some jo" "room_for bsize dat" "start + nat bsize \<le> length dat" "nat bsize < n" "\<not> jo_do jo"
    and "fold_res work (take (nat bsize) (drop start dat)) s = Inr s'"
  shows "\<exists>jo'. job_loop n other S outside work dat k (int start) (announce bsize iter (int start) jo, s) = Some (Inr (jo', s')) \<and> \<not> jo_do jo'"
proof -
  let ?jo = "announce bsize iter (int start) jo"
  have size: "0 \<le> bsize" "start + nat bsize < 4294967296" using assms(2,3) by (simp_all add: room_for_def)
  have "finishes_at other S outside k ?jo (nat bsize) \<and> (\<exists>jo'. job_at other S outside k ?jo (nat bsize) = Some jo' \<and> \<not> jo_do jo')"
    by (rule plain_finishes[OF assms(1) size(2) _ announce_at_point[OF size(1)]]) (use assms(5) size(1) in \<open>simp_all add: announce_job\<close>)
  then show ?thesis using assms(3,4,6) by (auto simp: job_loop_consecutive)
qed

text \<open>A worker that takes over points when its batch is done reads, instead of these, the points of its own data that follow its
  batch: the loop goes on with its own index.\<close>

lemma helper_reads_on:
  assumes out: "\<And>k ms jo. k \<noteq> b - 1 \<Longrightarrow> outside k (ms, jo) = Some (set_wait False jo)" "\<And>ms jo. outside (b - 1) (ms, jo) = Some (take_over stolen jo)"
    and batch: "0 < b" "at_point start b 0 jo" "start + b < 4294967296"
    and theft: "unat (helper_start_pt_new stolen) + unat (helper_batch_size_new stolen) < 4294967296"
    and loop: "job_loop n other S outside work dat 0 (int start) (jo, s) = Some (Inr (jo', s'))"
  shows "fold_res work (take (b + unat (helper_batch_size_new stolen)) (drop start dat)) s = Inr s'
    \<and> start + b + unat (helper_batch_size_new stolen) \<le> length dat"
proof -
  let ?h = "unat (helper_batch_size_new stolen)" and ?s = "unat (helper_start_pt_new stolen)"
  have job: "jo_job (snd (jo_check other S jo)) = advanced jo" for jo
    by (simp add: jo_check_def advanced_def set_wait_def Let_def)
  have move: "\<exists>j. outside k (jo_check other S jo) = Some j \<and> jo_job j = advanced jo" if "k \<noteq> b - 1" for k jo
    using out(1)[OF that, of "fst (jo_check other S jo)" "snd (jo_check other S jo)"] job[of jo] by (simp add: set_wait_def)
  obtain j1 where j1: "job_at other S outside 0 jo (b - 1) = Some j1" "at_point start b (b - 1) j1" "open_for other S outside 0 jo (b - 1)"
    using job_advances[where P = "\<lambda>_. True" and c = "b - 1", OF _ TrueI batch(2) _ batch(3), of outside 0 other S] move batch(1) by auto
  have open1: "\<not> is_finished j1" using finished_at_point[OF j1(2) _ batch(3)] batch(1) by simp
  obtain j2 where j2: "outside (b - 1) (jo_check other S j1) = Some j2" "at_point ?s ?h 0 j2"
    using out(2)[of "fst (jo_check other S j1)" "snd (jo_check other S j1)"]
    by (simp add: at_point_def take_over_def set_wait_def update_batch_size_def update_start_pt_def)
  obtain j3 where j3: "job_at other S outside b j2 ?h = Some j3" "at_point ?s ?h ?h j3" "open_for other S outside b j2 ?h"
    using job_advances[where P = "\<lambda>_. True" and c = ?h, OF _ TrueI j2(2) _ theft, of outside b other S] move batch(1) by auto
  have "is_finished j3" using finished_at_point[OF j3(2) order_refl theft] by simp
  then have "finishes_at other S outside b j2 ?h" using finishes_later[OF j3(3,1), of 0] by (simp add: finishes_at_0)
  then have "finishes_at other S outside (b - 1) j1 (Suc ?h)" using open1 j2(1) batch(1) by (simp add: finishes_at_Suc)
  then have fin: "finishes_at other S outside 0 jo (b + ?h)" using finishes_later[OF j1(3,1), of "Suc ?h"] batch(1) by simp
  obtain c where c: "finishes_at other S outside 0 jo c" "c = 0 \<or> start + c \<le> length dat" "fold_res work (take c (drop start dat)) s = Inr s'"
    using loop by (auto simp: job_loop_consecutive)
  have "c = b + ?h" using fin c(1) unfolding finishes_at_iff by (metis le_refl nat_le_linear option.inject)
  then show ?thesis using c(2,3) batch(1) by simp
qed

end
