(* ===== verification/Kmeans_Program.thy ===== *)
theory Kmeans_Program
  imports Complex_Main Kmeans Lr_Program Job_Loop
begin

text \<open>
  \<open>examples2/kmeans/kmeans_example.cpp\<close>: the program that finds clusters on the engine.  Table 0 holds the \<open>K\<close>
  centers and the row of counts, one row after the other, table 1 the number of points of each center.  A task of one worker
  writes the first centers; then every worker, iteration by iteration, pulls both tables, moves the centers by a batch of points and pushes the
  differences.  The batch is the job of a \<open>job_manager\<close>, which other workers may cut short.
\<close>

section \<open>Flags and tables\<close>

record km_flags =
  kf_num_dims :: u64
  kf_num_iters :: int
  kf_model_type :: string
  kf_storage_type :: string
  kf_staleness :: int
  kf_workers :: u32
  kf_servers :: int
  kf_batch_size :: int
  kf_K :: u64
  kf_init_mode :: string
  kf_reassgn_mode :: int

definition km_check_flags :: "km_flags \<Rightarrow> unit res" where
  "km_check_flags fl =
     check_that (kf_model_type fl = ''ASP'' \<or> kf_model_type fl = ''BSP'' \<or> kf_model_type fl = ''SSP'') (Check_failed ''FLAGS_kModelType'')
    (check_that (kf_storage_type fl = ''Map'' \<or> kf_storage_type fl = ''Vector'') (Check_failed ''FLAGS_kStorageType'')
    (check_that (0 < kf_num_dims fl) (Check_failed ''FLAGS_num_dims'')
    (check_that (0 < kf_num_iters fl) (Check_failed ''FLAGS_num_iters'')
    (check_that (0 \<le> kf_staleness fl \<and> kf_staleness fl \<le> 5) (Check_failed ''FLAGS_kStaleness'')
    (check_that (1 \<le> kf_workers fl \<and> kf_workers fl \<le> 20) (Check_failed ''FLAGS_num_workers_per_node'')
    (check_that (1 \<le> kf_servers fl \<and> kf_servers fl \<le> 20) (Check_failed ''FLAGS_num_servers_per_node'') (Inr ())))))))"

text \<open>All arithmetic is in \<open>uint64_t\<close>.\<close>

definition u64_ranges :: "u64 \<Rightarrow> int \<Rightarrow> range list res" where
  "u64_ranges n s =
     check_that (s \<noteq> 0) Div_by_zero
       (Inr (map (\<lambda>i. \<lparr>rbegin = n div of_int s * of_int i, rend = n div of_int s * of_int (i + 1)\<rparr>) [0..s - 2]
          @ [\<lparr>rbegin = n div of_int s * of_int (s - 1), rend = n\<rparr>]))"

definition km_size :: "km_flags \<Rightarrow> nat" where
  "km_size fl = unat ((kf_K fl + 1) * kf_num_dims fl)"

definition km_create_tables :: "bool \<Rightarrow> int \<Rightarrow> 'v val_type \<Rightarrow> km_flags \<Rightarrow> ('v, 'c) engine \<Rightarrow> ('v, 'c) engine res" where
  "km_create_tables debug junk V fl e =
     (let s = to_i32 (of_nat (length (en_nodes e)) * to_u32 (kf_servers fl))
      in bind_res (u64_ranges ((kf_K fl + 1) * kf_num_dims fl) s) (\<lambda>ranges.
         bind_res (if kf_model_type fl = ''SparseSSP'' then Inl (Check_failed ''model type error'') else model_type_of (kf_model_type fl)) (\<lambda>mt.
         bind_res (storage_type_of (kf_storage_type fl)) (\<lambda>st.
         bind_res (u64_ranges (kf_K fl) s) (\<lambda>ranges2.
         bind_res (create_table debug junk V 0 ranges mt st (kf_staleness fl) 0 Rec_none e) (\<lambda>e.
           create_table debug junk V 1 ranges2 mt st (kf_staleness fl) 0 Rec_none e))))))"

section \<open>Rows in a vector\<close>

definition row_index :: "u64 \<Rightarrow> nat \<Rightarrow> nat \<Rightarrow> nat" where
  "row_index dims i j = unat (of_nat i * dims + of_nat j)"

definition put2 :: "nat \<Rightarrow> nat \<Rightarrow> ('f \<Rightarrow> 'f) \<Rightarrow> 'f list list \<Rightarrow> 'f list list res" where
  "put2 i j g rows = bind_res (vec_at rows i) (\<lambda>row. bind_res (upd_at j g row) (\<lambda>row. Inr (rows[i := row])))"

text \<open>The two loops over rows and columns.\<close>

definition for_cells :: "nat \<Rightarrow> nat \<Rightarrow> (nat \<Rightarrow> nat \<Rightarrow> 's \<Rightarrow> 's res) \<Rightarrow> 's \<Rightarrow> 's res" where
  "for_cells n d f = fold_res (\<lambda>i. fold_res (f i) [0..<d]) [0..<n]"

definition flatten :: "km_flags \<Rightarrow> 'f list list \<Rightarrow> 'f list \<Rightarrow> 'f list res" where
  "flatten fl rows =
     for_cells (unat (kf_K fl + 1)) (unat (kf_num_dims fl)) (\<lambda>i j push.
       bind_res (vec_at rows i) (\<lambda>row. bind_res (vec_at row j) (\<lambda>v. upd_at (row_index (kf_num_dims fl) i j) (\<lambda>_. v) push)))"

definition unflatten :: "km_flags \<Rightarrow> 'f list \<Rightarrow> 'f list list \<Rightarrow> 'f list list res" where
  "unflatten fl pull =
     for_cells (unat (kf_K fl + 1)) (unat (kf_num_dims fl)) (\<lambda>i j rows.
       bind_res (vec_at pull (row_index (kf_num_dims fl) i j)) (\<lambda>v. put2 i j (\<lambda>_. v) rows))"

definition sub_rows :: "'f fl \<Rightarrow> km_flags \<Rightarrow> 'f list list \<Rightarrow> 'f list list \<Rightarrow> 'f list list res" where
  "sub_rows F fl params =
     for_cells (unat (kf_K fl + 1)) (unat (kf_num_dims fl)) (\<lambda>i j rows.
       bind_res (vec_at params i) (\<lambda>row. bind_res (vec_at row j) (\<lambda>v. put2 i j (\<lambda>d. fl_sub F d v) rows)))"

section \<open>The first centers\<close>

definition km_keys :: "nat \<Rightarrow> u32 list" where
  "km_keys n = map of_nat [0..<n]"

definition km_init_task ::
  "nat \<Rightarrow> 'f fl \<Rightarrow> 'f km_fl \<Rightarrow> ('f, 'm) kv_ops \<Rightarrow> (nat \<Rightarrow> nat) \<Rightarrow> km_flags \<Rightarrow> 'f point list \<Rightarrow> u32 \<Rightarrow> 'm \<Rightarrow> 'm res option"
where
  "km_init_task fuel F G T rnd fl dat wid m =
     (if wid \<noteq> 0 then Some (Inr m)
      else map_option (\<lambda>r. bind_res r (\<lambda>params.
            bind_res (flatten fl params (replicate (km_size fl) (fl_int F 0))) (\<lambda>push.
            bind_res (kv_add T (km_keys (km_size fl)) push m) (\<lambda>m.
            bind_res (kv_clock T m) (\<lambda>m.
              check_that (length push = km_size fl) (Check_failed ''push.size()'') (Inr m))))))
          (init_centers fuel F G rnd (to_i32 (ucast (kf_K fl))) (to_i32 (ucast (kf_num_dims fl))) dat
             (replicate (unat (kf_K fl + 1)) (replicate (unat (kf_num_dims fl)) (fl_int F 0))) (kf_init_mode fl)))"

section \<open>A worker\<close>

text \<open>\<open>rate n\<close> is \<open>FLAGS_alpha / n\<close> as a \<open>float\<close>.\<close>

definition move_center :: "'f fl \<Rightarrow> 'f \<Rightarrow> nat \<Rightarrow> 'f list \<Rightarrow> 'f list \<Rightarrow> 'f list res" where
  "move_center F r dims distance =
     fold_res (\<lambda>j row. bind_res (vec_at distance j) (\<lambda>d. upd_at j (\<lambda>x. fl_sub F x (fl_mul F r d)) row)) [0..<dims]"

definition km_point :: "'f fl \<Rightarrow> 'f km_fl \<Rightarrow> ('f \<Rightarrow> 'f) \<Rightarrow> km_flags \<Rightarrow> 'f point \<Rightarrow> 'f list list \<times> 'f list \<Rightarrow> ('f list list \<times> 'f list) res" where
  "km_point F G rate fl p = (\<lambda>(deltas, members).
     bind_res (get_nearest_center F G p (to_i32 (ucast (kf_K fl))) deltas) (\<lambda>(c, _).
     bind_res (put_at c (\<lambda>n. fl_add F n (fl_int F 1)) members) (\<lambda>members.
     bind_res (vec_at members (nat c)) (\<lambda>n.
     bind_res (vec_at deltas (nat c)) (\<lambda>row.
     bind_res (sub_coords F (fst p) row) (\<lambda>distance.
     bind_res (move_center F (rate n) (unat (kf_num_dims fl)) distance row) (\<lambda>row.
       Inr (deltas[nat c := row], members))))))))"

definition km_loop ::
  "nat \<Rightarrow> flag \<Rightarrow> 'b sarray_stream \<Rightarrow> (nat \<Rightarrow> message list \<times> job_manager \<Rightarrow> job_manager option) \<Rightarrow> 'f fl \<Rightarrow> 'f km_fl \<Rightarrow> ('f \<Rightarrow> 'f) \<Rightarrow> km_flags \<Rightarrow> 'f point list
    \<Rightarrow> nat \<Rightarrow> int \<Rightarrow> job_manager \<times> 'f list list \<times> 'f list \<Rightarrow> (job_manager \<times> 'f list list \<times> 'f list) res option"
where
  "km_loop n other S outside F G rate fl = job_loop n other S outside (km_point F G rate fl)"

definition km_start :: "(nat \<Rightarrow> nat) \<Rightarrow> km_flags \<Rightarrow> 'f point list \<Rightarrow> nat \<Rightarrow> int res" where
  "km_start rnd fl = batch_start rnd (kf_batch_size fl)"

record ('f, 'm, 'n) km_state =
  ks_job :: job_manager
  ks_params :: "'f list list"
  ks_push :: "'f list"
  ks_table :: 'm
  ks_table2 :: 'n

definition km_pull :: "('f, 'm) kv_ops \<Rightarrow> ('f, 'n) kv_ops \<Rightarrow> km_flags \<Rightarrow> ('f, 'm, 'n) km_state \<Rightarrow> ('f list \<times> ('f, 'm, 'n) km_state) res" where
  "km_pull T T2 fl s =
     bind_res (kv_get T (km_keys (km_size fl)) (ks_table s)) (\<lambda>(pull, m).
     check_that (km_size fl = length pull) (Check_failed ''pull.size()'')
    (bind_res (kv_get T2 (km_keys (unat (kf_K fl))) (ks_table2 s)) (\<lambda>(members, m2).
     check_that (unat (kf_K fl) = length members) (Check_failed ''cluster_members.size()'')
    (bind_res (unflatten fl pull (ks_params s)) (\<lambda>params.
       Inr (members, s\<lparr>ks_params := params, ks_table := m, ks_table2 := m2\<rparr>))))))"

definition km_push ::
  "'f fl \<Rightarrow> ('f, 'm) kv_ops \<Rightarrow> ('f, 'n) kv_ops \<Rightarrow> km_flags \<Rightarrow> 'f list list \<Rightarrow> 'f list \<Rightarrow> 'f list \<Rightarrow> ('f, 'm, 'n) km_state \<Rightarrow> ('f, 'm, 'n) km_state res"
where
  "km_push F T T2 fl deltas members cnts s =
     bind_res (sub_rows F fl (ks_params s) deltas) (\<lambda>deltas.
     bind_res (map_res (\<lambda>i. bind_res (vec_at cnts i) (\<lambda>c. Inr (fl_sub F (members ! i) c))) [0..<length members]) (\<lambda>members.
     bind_res (flatten fl deltas (ks_push s)) (\<lambda>push.
     bind_res (kv_add T (km_keys (km_size fl)) push (ks_table s)) (\<lambda>m.
     bind_res (kv_clock T m) (\<lambda>m.
     check_that (length push = km_size fl) (Check_failed ''push.size()'')
    (bind_res (kv_add T2 (km_keys (unat (kf_K fl))) members (ks_table2 s)) (\<lambda>m2.
     bind_res (kv_clock T2 m2) (\<lambda>m2.
     check_that (unat (kf_K fl) = length members) (Check_failed ''cluster_members.size()'')
       (Inr (s\<lparr>ks_push := push, ks_table := m, ks_table2 := m2\<rparr>))))))))))"

definition new_job :: "km_flags \<Rightarrow> nat \<Rightarrow> int \<Rightarrow> job_manager \<Rightarrow> job_manager" where
  "new_job fl = announce (kf_batch_size fl)"

definition km_iteration ::
  "nat \<Rightarrow> flag \<Rightarrow> 'b sarray_stream \<Rightarrow> (nat \<Rightarrow> nat \<Rightarrow> message list \<times> job_manager \<Rightarrow> job_manager option) \<Rightarrow> 'f fl \<Rightarrow> 'f km_fl \<Rightarrow> ('f \<Rightarrow> 'f)
    \<Rightarrow> ('f, 'm) kv_ops \<Rightarrow> ('f, 'n) kv_ops \<Rightarrow> (nat \<Rightarrow> nat) \<Rightarrow> km_flags \<Rightarrow> 'f point list \<Rightarrow> nat \<Rightarrow> ('f, 'm, 'n) km_state \<Rightarrow> ('f, 'm, 'n) km_state res option"
where
  "km_iteration n other S outside F G rate T T2 rnd fl dat iter s =
     (case bind_res (km_pull T T2 fl s) (\<lambda>(members, s). bind_res (km_start rnd fl dat iter) (\<lambda>start. Inr (members, start, s))) of
        Inl e \<Rightarrow> Some (Inl e)
      | Inr (cnts, start, s) \<Rightarrow>
          map_option (\<lambda>r. bind_res r (\<lambda>(jo, deltas, members). km_push F T T2 fl deltas members cnts (s\<lparr>ks_job := jo\<rparr>)))
            (km_loop n other S (outside iter) F G rate fl dat 0 start (new_job fl iter start (ks_job s), ks_params s, cnts)))"

fun km_iterations ::
  "nat \<Rightarrow> flag \<Rightarrow> 'b sarray_stream \<Rightarrow> (nat \<Rightarrow> nat \<Rightarrow> message list \<times> job_manager \<Rightarrow> job_manager option) \<Rightarrow> 'f fl \<Rightarrow> 'f km_fl \<Rightarrow> ('f \<Rightarrow> 'f)
    \<Rightarrow> ('f, 'm) kv_ops \<Rightarrow> ('f, 'n) kv_ops \<Rightarrow> (nat \<Rightarrow> nat) \<Rightarrow> km_flags \<Rightarrow> 'f point list \<Rightarrow> nat list \<Rightarrow> ('f, 'm, 'n) km_state \<Rightarrow> ('f, 'm, 'n) km_state res option"
where
  "km_iterations n other S outside F G rate T T2 rnd fl dat [] s = Some (Inr s)"
| "km_iterations n other S outside F G rate T T2 rnd fl dat (iter # iters) s =
     (case km_iteration n other S outside F G rate T T2 rnd fl dat iter s of
        Some (Inr s) \<Rightarrow> km_iterations n other S outside F G rate T T2 rnd fl dat iters s
      | r \<Rightarrow> r)"

definition km_worker ::
  "nat \<Rightarrow> flag \<Rightarrow> 'b sarray_stream \<Rightarrow> (nat \<Rightarrow> nat \<Rightarrow> message list \<times> job_manager \<Rightarrow> job_manager option) \<Rightarrow> 'f fl \<Rightarrow> 'f km_fl \<Rightarrow> ('f \<Rightarrow> 'f)
    \<Rightarrow> ('f, 'm) kv_ops \<Rightarrow> ('f, 'n) kv_ops \<Rightarrow> (nat \<Rightarrow> nat) \<Rightarrow> km_flags \<Rightarrow> 'f point list \<Rightarrow> job_manager \<Rightarrow> 'm \<Rightarrow> 'n \<Rightarrow> ('f, 'm, 'n) km_state res option"
where
  "km_worker n other S outside F G rate T T2 rnd fl dat jo m m2 =
     km_iterations n other S outside F G rate T T2 rnd fl dat [0..<nat (kf_num_iters fl)]
       \<lparr>ks_job = set_do_reassgn (kf_reassgn_mode fl \<noteq> 0) jo, ks_params = replicate (unat (kf_K fl + 1)) (replicate (unat (kf_num_dims fl)) (fl_int F 0)),
        ks_push = replicate (km_size fl) (fl_int F 0), ks_table = m, ks_table2 = m2\<rparr>"

section \<open>The loops over cells\<close>

lemma fold_res_same: "(\<And>x s. x \<in> set xs \<Longrightarrow> f x s = g x s) \<Longrightarrow> fold_res f xs s = fold_res g xs s"
proof (induction xs arbitrary: s)
  case (Cons x xs)
  then have "fold_res f xs = fold_res g xs" by (intro ext) simp
  then show ?case using Cons.prems by simp
qed simp

lemma fold_res_map: "fold_res f (map h xs) = fold_res (\<lambda>x. f (h x)) xs"
proof (induction xs)
  case (Cons x xs)
  then show ?case by (intro ext) simp
qed auto

lemma upd_all: "n \<le> length xs \<Longrightarrow> fold_res (\<lambda>k. upd_at k (g k)) [0..<n] xs = Inr (map (\<lambda>k. g k (xs ! k)) [0..<n] @ drop n xs)"
proof (induction n)
  case (Suc n)
  have "drop n xs = xs ! n # drop (Suc n) xs" using Suc.prems by (simp add: Cons_nth_drop_Suc)
  then show ?case using Suc by (simp add: fold_res_append upd_at_def nth_append list_update_append)
qed simp

definition shape :: "nat \<Rightarrow> nat \<Rightarrow> 'f list list \<Rightarrow> bool" where
  "shape n d rows \<longleftrightarrow> length rows = n \<and> (\<forall>i < n. length (rows ! i) = d)"

lemma fold_put2:
  "i < length rows \<Longrightarrow> fold_res (\<lambda>j. put2 i j (h j)) js rows = bind_res (fold_res (\<lambda>j. upd_at j (h j)) js (rows ! i)) (\<lambda>row. Inr (rows[i := row]))"
proof (induction js arbitrary: rows)
  case (Cons j js)
  then show ?case by (cases "upd_at j (h j) (rows ! i)") (simp_all add: put2_def vec_at_def)
qed simp

lemma put2_cells:
  assumes "shape n d rows"
  shows "for_cells n d (\<lambda>i j. put2 i j (h i j)) rows = Inr (map (\<lambda>i. map (\<lambda>j. h i j (rows ! i ! j)) [0..<d]) [0..<n])"
proof -
  have "fold_res (\<lambda>i. fold_res (\<lambda>j. put2 i j (h i j)) [0..<d]) [0..<k] rows
      = Inr (map (\<lambda>i. map (\<lambda>j. h i j (rows ! i ! j)) [0..<d]) [0..<k] @ drop k rows)" if "k \<le> n" for k
    using that
  proof (induction k)
    case (Suc k)
    have d: "drop k rows = rows ! k # drop (Suc k) rows" "length (rows ! k) = d"
      using Suc.prems assms by (simp_all add: Cons_nth_drop_Suc shape_def)
    then show ?case
      using Suc assms by (simp add: fold_res_append fold_put2 upd_all nth_append list_update_append shape_def)
  qed simp
  from this[of n] show ?thesis using assms by (simp add: for_cells_def shape_def)
qed

lemma for_cells_same: "(\<And>i j s. i < n \<Longrightarrow> j < d \<Longrightarrow> f i j s = g i j s) \<Longrightarrow> for_cells n d f s = for_cells n d g s"
  unfolding for_cells_def by (intro fold_res_same) simp

lemma for_cells_flat: "for_cells n d f s = fold_res (\<lambda>k. f (k div d) (k mod d)) [0..<n * d] s"
proof (induction n)
  case (Suc n)
  have "[0..<Suc n * d] = [0..<n * d] @ map (\<lambda>j. n * d + j) [0..<d]"
    using upt_add_eq_append[of 0 "n * d" d] map_add_upt[of "n * d" d] by (simp add: add.commute)
  moreover have "fold_res (\<lambda>j. f ((n * d + j) div d) ((n * d + j) mod d)) [0..<d] = fold_res (f n) [0..<d]"
    by (intro ext fold_res_same) simp
  moreover have "fold_res g [n] = g n" for g :: "nat \<Rightarrow> 'a \<Rightarrow> 'a res"
  proof
    show "fold_res g [n] s = g n s" for s by (cases "g n s") simp_all
  qed
  ultimately show ?case using Suc by (simp add: for_cells_def fold_res_append fold_res_map del: fold_res.simps)
qed (simp add: for_cells_def)

section \<open>Sizes\<close>

definition fits :: "km_flags \<Rightarrow> bool" where
  "fits fl \<longleftrightarrow> (unat (kf_K fl) + 1) * unat (kf_num_dims fl) < 2147483648 \<and> 0 < unat (kf_num_dims fl)"

lemma fits_sizes:
  assumes "fits fl"
  shows "unat (kf_K fl + 1) = Suc (unat (kf_K fl))" "km_size fl = Suc (unat (kf_K fl)) * unat (kf_num_dims fl)"
    "to_i32 (ucast (kf_K fl)) = int (unat (kf_K fl))" "unat (kf_K fl) < 2147483648"
    "i < Suc (unat (kf_K fl)) \<Longrightarrow> j < unat (kf_num_dims fl) \<Longrightarrow> row_index (kf_num_dims fl) i j = i * unat (kf_num_dims fl) + j"
    "i < Suc (unat (kf_K fl)) \<Longrightarrow> j < unat (kf_num_dims fl) \<Longrightarrow> i * unat (kf_num_dims fl) + j < km_size fl"
    "km_size fl < 2147483648"
proof -
  let ?k = "unat (kf_K fl)" and ?d = "unat (kf_num_dims fl)"
  have "Suc ?k * 1 \<le> Suc ?k * ?d" by (rule mult_le_mono2) (use assms in \<open>simp add: fits_def\<close>)
  then show k: "?k < 2147483648" using assms unfolding fits_def by simp
  show n: "unat (kf_K fl + 1) = Suc ?k" using k by (simp add: unat_word_ariths)
  show size: "km_size fl = Suc ?k * ?d" using assms k by (simp add: km_size_def unat_word_ariths n fits_def)
  show "to_i32 (ucast (kf_K fl)) = int ?k"
  proof -
    have "int ?k < 2147483648" using k by linarith
    then have small: "uint (kf_K fl) < 2147483648" by simp
    then have "take_bit 32 (uint (kf_K fl)) = uint (kf_K fl)" by (intro take_bit_int_eq_self) simp_all
    then have "uint (ucast (kf_K fl) :: u32) = uint (kf_K fl)" by (simp add: unsigned_ucast_eq)
    then show ?thesis using to_i32_eq_uint[of "ucast (kf_K fl)"] small by simp
  qed
  show cell: "i * ?d + j < km_size fl" if "i < Suc ?k" "j < ?d" for i j
  proof -
    have "i * ?d + j < Suc i * ?d" using that(2) by simp
    also have "\<dots> \<le> Suc ?k * ?d" by (rule mult_le_mono1) (use that(1) in simp)
    finally show ?thesis by (simp only: size)
  qed
  show "row_index (kf_num_dims fl) i j = i * ?d + j" if "i < Suc ?k" "j < ?d"
  proof -
    have "i < 18446744073709551616" "j < 18446744073709551616" "i * ?d + j < 18446744073709551616"
      using that k cell[OF that] assms unfolding size by (simp_all add: fits_def)
    then show ?thesis by (simp add: row_index_def unat_word_ariths unat_of_nat mod_add_left_eq)
  qed
  show "km_size fl < 2147483648" using assms by (simp add: size fits_def)
qed

section \<open>One batch\<close>

text \<open>The \<open>j\<close>-th coordinate of a point.\<close>

definition coord :: "'f::comm_monoid_add point \<Rightarrow> nat \<Rightarrow> 'f" where
  "coord p j = sum_list (map snd (filter (\<lambda>(f, _). f = int j) (fst p)))"

lemma put_at_Inr: "put_at f g row = Inr row' \<longleftrightarrow> 0 \<le> f \<and> nat f < length row \<and> row' = row[nat f := g (row ! nat f)]"
  by (auto simp: put_at_def)

lemma sub_coords_coord:
  fixes F :: "'f::linordered_field fl"
  assumes "exact_fl F"
  shows "fold_res (\<lambda>(f, v). put_at f (\<lambda>d. fl_sub F d v)) x row = Inr row' \<Longrightarrow> length row' = length row \<and> (\<forall>j < length row. row' ! j = row ! j - coord (x, y) j)"
proof (induction x arbitrary: row)
  case (Cons q x)
  obtain f v where q: "q = (f, v)" by (cases q)
  have sub: "fl_sub F = (-)" using assms by (simp add: exact_fl_def)
  from Cons.prems obtain row1 where r: "0 \<le> f" "nat f < length row" "row1 = row[nat f := row ! nat f - v]"
    "fold_res (\<lambda>(f, v). put_at f (\<lambda>d. fl_sub F d v)) x row1 = Inr row'"
    by (auto simp: q sub put_at_Inr res_simps)
  have "length row' = length row" "\<forall>j < length row. row' ! j = row1 ! j - coord (x, y) j" using Cons.IH[OF r(4)] by (simp_all add: r(3))
  moreover have "row1 ! j = row ! j - (if f = int j then v else 0)" if "j < length row" for j
    using r(1,2) that by (auto simp: r(3) nth_list_update)
  ultimately show ?case by (auto simp: coord_def q algebra_simps)
qed (simp add: coord_def)

lemma move_center_exact:
  fixes F :: "'f::linordered_field fl"
  assumes "exact_fl F" "length row = d" "length distance = d"
  shows "move_center F r d distance row = Inr (map (\<lambda>j. row ! j - r * distance ! j) [0..<d])"
proof -
  have "move_center F r d distance row = fold_res (\<lambda>j. upd_at j (\<lambda>x. x - r * distance ! j)) [0..<d] row"
    unfolding move_center_def by (rule fold_res_same) (use assms(1,3) in \<open>simp add: vec_at_def exact_fl_def\<close>)
  then show ?thesis using upd_all[of d row "\<lambda>j x. x - r * distance ! j"] assms(2) by simp
qed

lemma km_point_moves:
  fixes F :: "'f::linordered_field fl"
  assumes "exact_fl F" "shape n (unat (kf_num_dims fl)) deltas" "km_point F G rate fl p (deltas, members) = Inr (deltas', members')"
  obtains c best where "get_nearest_center F G p (to_i32 (ucast (kf_K fl))) deltas = Inr (int c, best)" "c < length members" "c < n"
    "members' = members[c := members ! c + 1]" "shape n (unat (kf_num_dims fl)) deltas'"
    "\<forall>i. i \<noteq> c \<longrightarrow> deltas' ! i = deltas ! i"
    "\<forall>j < unat (kf_num_dims fl). deltas' ! c ! j = deltas ! c ! j - rate (members ! c + 1) * (deltas ! c ! j - coord p j)"
proof -
  let ?d = "unat (kf_num_dims fl)"
  have fl: "fl_add F = (+)" "fl_int F 1 = 1" using assms(1) by (simp_all add: exact_fl_def)
  from assms(3) obtain k best distance row where k: "get_nearest_center F G p (to_i32 (ucast (kf_K fl))) deltas = Inr (k, best)"
    "0 \<le> k" "nat k < length members" "members' = members[nat k := members ! nat k + 1]" "nat k < length deltas"
    "sub_coords F (fst p) (deltas ! nat k) = Inr distance"
    "move_center F (rate (members ! nat k + 1)) ?d distance (deltas ! nat k) = Inr row" "deltas' = deltas[nat k := row]"
    by (auto simp: km_point_def fl put_at_Inr vec_at_def res_simps split: prod.splits if_splits)
  have len: "length (deltas ! nat k) = ?d" "length deltas = n" using assms(2) k(5) by (simp_all add: shape_def)
  note s = sub_coords_coord[OF assms(1) k(6)[unfolded sub_coords_def], of "snd p"]
  have row: "row = map (\<lambda>j. deltas ! nat k ! j - rate (members ! nat k + 1) * distance ! j) [0..<?d]"
    using move_center_exact[OF assms(1) len(1), of distance "rate (members ! nat k + 1)"] s len(1) k(7) by simp
  show thesis
    by (rule that[of "nat k" best]) (use k s len row assms(2) in \<open>auto simp: shape_def nth_list_update\<close>)
qed

lemma km_point_shape:
  assumes "km_point F G rate fl p (P, C) = Inr (P', C')" "shape n d P"
  shows "shape n d P' \<and> length C' = length C"
proof -
  have move: "length row' = length row" if "move_center F r e distance row = Inr row'" for r e distance and row row' :: "'a list"
  proof -
    have "fold_res (\<lambda>j row. bind_res (vec_at distance j) (\<lambda>d. upd_at j (\<lambda>x. fl_sub F x (fl_mul F r d)) row)) js row = Inr row' \<Longrightarrow> length row' = length row"
      for js and row :: "'a list"
      by (induction js arbitrary: row) (auto simp: res_simps upd_at_def split: if_splits)
    then show ?thesis using that unfolding move_center_def by blast
  qed
  from assms(1) obtain k distance row where "nat k < length P" "P' = P[nat k := row]" "length C' = length C"
    "\<exists>r. move_center F r (unat (kf_num_dims fl)) distance (P ! nat k) = Inr row"
    by (auto simp: km_point_def put_at_Inr vec_at_def res_simps split: prod.splits if_splits) blast
  then show ?thesis using assms(2) move by (auto simp: shape_def nth_list_update)
qed

text \<open>The nearest center: the first of the \<open>K\<close> centers that no other is nearer than, by the sum of the squares of the
  differences of the coordinates.\<close>

definition sq_dist :: "nat \<Rightarrow> 'f::comm_ring_1 point \<Rightarrow> 'f list \<Rightarrow> 'f" where
  "sq_dist d p row = (\<Sum>j\<leftarrow>[0..<d]. (row ! j - coord p j) * (row ! j - coord p j))"

definition nearest_to :: "nat \<Rightarrow> nat \<Rightarrow> 'f::linordered_idom point \<Rightarrow> 'f list list \<Rightarrow> nat option" where
  "nearest_to K d p P = find (\<lambda>c. \<forall>i \<in> set [0..<K]. sq_dist d p (P ! c) \<le> sq_dist d p (P ! i)) [0..<K]"

lemma nearest_to_eq:
  assumes "c < K" "\<forall>i < K. sq_dist d p (P ! c) \<le> sq_dist d p (P ! i)" "\<forall>i < c. sq_dist d p (P ! c) < sq_dist d p (P ! i)"
  shows "nearest_to K d p P = Some c"
  unfolding nearest_to_def find_Some_iff
proof (intro exI[of _ c] conjI allI impI)
  show "\<forall>i \<in> set [0..<K]. sq_dist d p (P ! ([0..<K] ! c)) \<le> sq_dist d p (P ! i)" using assms(1,2) by simp
  fix j assume "j < c"
  then show "\<not> (\<forall>i \<in> set [0..<K]. sq_dist d p (P ! ([0..<K] ! j)) \<le> sq_dist d p (P ! i))"
    using assms(1,3) by (auto simp: not_le intro!: bexI[of _ c])
qed (use assms(1) in simp_all)

lemma center_dist_sq:
  fixes F :: "'f::linordered_field fl"
  assumes "exact_fl F" "center_dist F P p i = Inr x" "length (P ! i) = d"
  shows "x = sq_dist d p (P ! i)"
proof -
  obtain diff where diff: "sub_coords F (fst p) (P ! i) = Inr diff" "x = square_sum F diff"
    using assms(2) by (auto simp: center_dist_def vec_at_def res_simps split: if_splits)
  note s = sub_coords_coord[OF assms(1) diff(1)[unfolded sub_coords_def], of "snd p"]
  then have "diff = map (\<lambda>j. P ! i ! j - coord p j) [0..<d]" by (intro nth_equalityI) (simp_all add: assms(3))
  then show ?thesis using assms(1) by (simp add: diff(2) square_sum_def sq_dist_def exact_fl_def comp_def)
qed

text \<open>What \<open>get_nearest_center\<close> finds is the nearest center, when it finds one at all.\<close>

lemma nearest_center_found:
  fixes F :: "'f::linordered_field fl"
  assumes "exact_fl F" "get_nearest_center F G p K P = Inr (int c, best)" "shape n d P" "nat K \<le> n"
  shows "nearest_to (nat K) d p P = Some c"
proof -
  have each: "\<exists>x. center_dist F P p i = Inr x" if "fold_res (nearest_step F P p) is s = Inr r" "i \<in> set is" for "is" s r i
    using that by (induction "is" arbitrary: s) (auto simp: nearest_step_def res_simps split: prod.splits)
  have dist: "center_dist F P p i = Inr (sq_dist d p (P ! i))" if "i < nat K" for i
  proof -
    have "i \<in> set [0..<nat K]" using that by simp
    then obtain x where "center_dist F P p i = Inr x" using each[OF assms(2)[unfolded get_nearest_center_def]] by blast
    then show ?thesis using center_dist_sq[OF assms(1)] assms(3,4) that by (simp add: shape_def)
  qed
  have "\<forall>i \<in> set [0..<nat K]. center_dist F P p i = Inr (sq_dist d p (P ! i))" "sorted_wrt (<) [0..<nat K]" "\<forall>i \<in> set [0..<nat K]. - 1 < int i"
    using dist by (auto simp: strict_sorted_iff)
  from nearest_fold[OF _ this, of "km_max G"] assms(1,2)
  have "c < nat K \<and> (\<forall>i < nat K. sq_dist d p (P ! c) \<le> sq_dist d p (P ! i) \<and> (i < c \<longrightarrow> sq_dist d p (P ! c) < sq_dist d p (P ! i)))"
    by (auto simp: get_nearest_center_def exact_fl_def)
  then show ?thesis by (intro nearest_to_eq) auto
qed

text \<open>The points of the batch that are nearest to center \<open>c\<close> when their turn comes.\<close>

fun joined :: "'f::linordered_field fl \<Rightarrow> 'f km_fl \<Rightarrow> ('f \<Rightarrow> 'f) \<Rightarrow> km_flags \<Rightarrow> nat \<Rightarrow> 'f point list \<Rightarrow> 'f list list \<times> 'f list \<Rightarrow> 'f point list" where
  "joined F G rate fl c [] s = []"
| "joined F G rate fl c (p # ps) s =
     (if nearest_to (unat (kf_K fl)) (unat (kf_num_dims fl)) p (fst s) = Some c then [p] else [])
       @ (case km_point F G rate fl p s of Inr s' \<Rightarrow> joined F G rate fl c ps s' | _ \<Rightarrow> [])"

lemma mean_step:
  fixes x v n :: "'f::linordered_field"
  assumes "0 \<le> n"
  shows "(n + 1) * (x - 1 / (n + 1) * (x - v)) = n * x + v"
proof -
  have "n + 1 \<noteq> 0" using assms by (metis add_nonneg_pos less_irrefl zero_less_one)
  then show ?thesis by (simp add: field_simps)
qed

text \<open>C39. With a learning rate of one over the number of points, and without rounding, each center is the mean of what has joined it:
  its number grows by the points of the batch that were nearest to it when their turn came, and number times center grows
  by the sum of these points, in every coordinate.  Nearest is the first of the \<open>K\<close> centers at the smallest sum of squares, whatever
  way it is found; there are fewer than \<open>2^31\<close> cells.\<close>

theorem centers_are_means:
  fixes F :: "'f::linordered_field fl"
  assumes "exact_fl F" "fold_res (km_point F G (\<lambda>n. 1 / n) fl) pts (P, C) = Inr (P', C')"
    and "shape n (unat (kf_num_dims fl)) P" "\<forall>c < length C. 0 \<le> C ! c" "fits fl" "unat (kf_K fl) \<le> n"
  shows "shape n (unat (kf_num_dims fl)) P' \<and> length C' = length C
    \<and> (\<forall>c < length C. C' ! c = C ! c + of_nat (length (joined F G (\<lambda>n. 1 / n) fl c pts (P, C)))
        \<and> (\<forall>j < unat (kf_num_dims fl). C' ! c * P' ! c ! j = C ! c * P ! c ! j + (\<Sum>p\<leftarrow>joined F G (\<lambda>n. 1 / n) fl c pts (P, C). coord p j)))"
  using assms(2-)
proof (induction pts arbitrary: P C)
  case (Cons p pts)
  let ?d = "unat (kf_num_dims fl)"
  from Cons.prems(1) obtain P1 C1 where step: "km_point F G (\<lambda>n. 1 / n) fl p (P, C) = Inr (P1, C1)"
    and rest: "fold_res (km_point F G (\<lambda>n. 1 / n) fl) pts (P1, C1) = Inr (P', C')" by (auto simp: res_simps)
  from km_point_moves[OF assms(1) Cons.prems(2) step] obtain k best where
    k: "get_nearest_center F G p (to_i32 (ucast (kf_K fl))) P = Inr (int k, best)" "k < length C" "C1 = C[k := C ! k + 1]" "shape n ?d P1"
      "\<forall>i. i \<noteq> k \<longrightarrow> P1 ! i = P ! i" "\<forall>j < ?d. P1 ! k ! j = P ! k ! j - 1 / (C ! k + 1) * (P ! k ! j - coord p j)" by metis
  have near: "nearest_to (unat (kf_K fl)) ?d p P = Some k"
    using nearest_center_found[OF assms(1) k(1) Cons.prems(2)] Cons.prems(5) fits_sizes(3)[OF Cons.prems(4)] by simp
  have pos: "\<forall>c < length C1. 0 \<le> C1 ! c" using Cons.prems(3) k(2,3) by (auto simp: nth_list_update)
  have one: "C1 ! c * P1 ! c ! j = C ! c * P ! c ! j + (if c = k then coord p j else 0)" if "c < length C" "j < ?d" for c j
    using mean_step[of "C ! k" "P ! k ! j" "coord p j"] Cons.prems(3) k(2,3,5,6) that by auto
  show ?case
    using Cons.IH[OF rest k(4) pos Cons.prems(4,5)] k(2,3) near step one by (auto simp: nth_list_update)
qed simp

section \<open>A table that adds what is pushed\<close>

text \<open>A table for a single worker: it answers for the keys in \<open>D\<close>, adds with the addition of its type, which may round,
  and reads what it holds.\<close>

definition added :: "('f \<Rightarrow> 'f \<Rightarrow> 'f) \<Rightarrow> u32 list \<Rightarrow> 'f list \<Rightarrow> (u32 \<Rightarrow> 'f) \<Rightarrow> u32 \<Rightarrow> 'f" where
  "added add ks vs f = fold (\<lambda>(k, v) f. f(k := add (f k) v)) (zip ks vs) f"

locale adding_table =
  fixes T :: "('f, 'm) kv_ops" and add :: "'f \<Rightarrow> 'f \<Rightarrow> 'f" and cells :: "'m \<Rightarrow> u32 \<Rightarrow> 'f" and D :: "u32 \<Rightarrow> bool" and ok :: "'m \<Rightarrow> bool"
  assumes get_cells: "ok m \<Longrightarrow> list_all D ks \<Longrightarrow> \<exists>m'. kv_get T ks m = Inr (map (cells m) ks, m') \<and> ok m' \<and> cells m' = cells m"
    and add_cells: "ok m \<Longrightarrow> list_all D ks \<Longrightarrow> length ks = length vs \<Longrightarrow>
      \<exists>m'. kv_add T ks vs m = Inr m' \<and> ok m' \<and> cells m' = added add ks vs (cells m)"
    and clock_cells: "ok m \<Longrightarrow> \<exists>m'. kv_clock T m = Inr m' \<and> ok m' \<and> cells m' = cells m"

sublocale adding_table \<subseteq> live_table T D ok
proof
  show "\<exists>vs m'. kv_get T ks m = Inr (vs, m') \<and> length vs = length ks \<and> ok m'" if "ok m" "list_all D ks" for m ks
    using get_cells[OF that] by auto
  show "\<exists>m'. kv_add T ks vs m = Inr m' \<and> ok m'" if "ok m" "list_all D ks" "length vs = length ks" for m ks vs
    using add_cells[OF that(1,2) that(3)[symmetric]] by blast
  show "\<exists>m'. kv_clock T m = Inr m' \<and> ok m'" if "ok m" for m using clock_cells[OF that] by blast
qed

text \<open>A server's storage is one, with the addition of its values, that of floats included; so is a plain array.\<close>

definition serving :: "(u32 \<Rightarrow> bool) \<Rightarrow> 'v storage \<Rightarrow> bool" where
  "serving D m \<longleftrightarrow> storage_inv m \<and> (\<forall>k. D k \<longrightarrow> storage_serves m k)"

lemma storage_adds:
  fixes V :: "'v val_type"
  assumes V: "val_type V"
  shows "adding_table (storage_table V) (val_add V) (storage_view V) D (serving D)"
proof
  fix m :: "'v storage" and ks :: "u32 list" and vs :: "'v list"
  assume m: "serving D m" "list_all D ks"
  then have serves: "list_all (storage_serves m) ks" by (auto simp: list_all_iff serving_def)
  have vals: "vals_of V (bytes_of_vals V xs) = xs" for xs by (rule val_type.vals_of_bytes_of_vals[OF V])
  show "\<exists>m'. kv_get (storage_table V) ks m = Inr (map (storage_view V m) ks, m') \<and> serving D m' \<and> storage_view V m' = storage_view V m"
    using sub_get_ok[OF V _ serves] m(1) by (auto simp: storage_table_def serving_def vals)
  show "\<exists>m'. kv_add (storage_table V) ks vs m = Inr m' \<and> serving D m' \<and> storage_view V m' = added (val_add V) ks vs (storage_view V m)"
    if "length ks = length vs"
    using sub_add_ok[OF V _ _ serves, of "bytes_of_vals V vs"] m(1) that by (auto simp: storage_table_def serving_def vals add_all_def added_def)
next
  fix m :: "'v storage"
  assume "serving D m"
  then show "\<exists>m'. kv_clock (storage_table V) m = Inr m' \<and> serving D m' \<and> storage_view V m' = storage_view V m"
    using storage_class.finish_ok[OF storage_class_dispatch[OF V], of m] by (auto simp: storage_table_def serving_def)
qed

interpretation float_adds: adding_table "storage_table (float_val fadd)" fadd "storage_view (float_val fadd)" D "serving D"
  using storage_adds[OF float_val.val_type_axioms, of fadd D] by (simp add: float_val_def)

lemma array_added:
  "\<forall>k \<in> set ks. unat k < length m \<Longrightarrow> (\<lambda>k. peek (unat k) (fold (\<lambda>(k, v) m. bump (unat k) v m) (zip ks vs) m)) = added (+) ks vs (\<lambda>k. peek (unat k) m)"
  for m :: "'f::monoid_add list"
proof (induction ks arbitrary: vs m)
  case (Cons k ks)
  show ?case
  proof (cases vs)
    case (Cons v ws)
    have "(\<lambda>j. peek (unat j) (bump (unat k) v m)) = (\<lambda>j. peek (unat j) m)(k := peek (unat k) m + v)"
      using Cons.prems by (auto simp: peek_bump fun_eq_iff word_unat_eq_iff)
    then show ?thesis using Cons.IH[of "bump (unat k) v m" ws] Cons.prems by (simp add: Cons added_def)
  qed (simp add: added_def)
qed (simp add: added_def)

interpretation array_adds: adding_table array_table "(+)" "\<lambda>m k. peek (unat k) (m :: 'f::monoid_add list)" "\<lambda>k. unat k < n" "\<lambda>m. length m = n"
proof
  fix m :: "'f list" and ks :: "u32 list" and vs :: "'f list"
  assume m: "length m = n" "list_all (\<lambda>k. unat k < n) ks"
  show "\<exists>m'. kv_get array_table ks m = Inr (map (\<lambda>k. peek (unat k) m) ks, m') \<and> length m' = n \<and> (\<lambda>k :: u32. peek (unat k) m') = (\<lambda>k. peek (unat k) m)"
    using m by (simp add: array_table_def)
  show "\<exists>m'. kv_add array_table ks vs m = Inr m' \<and> length m' = n \<and> (\<lambda>k. peek (unat k) m') = added (+) ks vs (\<lambda>k. peek (unat k) m)"
    if len: "length ks = length vs"
  proof -
    obtain m' where a: "kv_add array_table ks vs m = Inr m'" "length m' = n"
      using live_array.add_live[OF m len[symmetric]] by (elim exE conjE)
    show ?thesis using a array_added[of ks m vs] m by (auto simp: array_table_def list_all_iff)
  qed
qed (simp add: array_table_def)

lemma added_other: "k \<notin> set ks \<Longrightarrow> added add ks vs f k = f k"
proof (induction ks arbitrary: vs f)
  case (Cons j ks)
  then show ?case by (cases vs) (auto simp: added_def)
qed (simp add: added_def)

lemma added_nth: "distinct ks \<Longrightarrow> length ks = length vs \<Longrightarrow> i < length ks \<Longrightarrow> added add ks vs f (ks ! i) = add (f (ks ! i)) (vs ! i)"
proof (induction ks arbitrary: vs f i)
  case (Cons k ks)
  obtain v ws where vs: "vs = v # ws" using Cons.prems(2) by (cases vs) auto
  have step: "added add (k # ks) (v # ws) f = added add ks ws (f(k := add (f k) v))" by (simp add: added_def)
  show ?case
  proof (cases i)
    case 0
    then show ?thesis using Cons.prems(1) by (simp add: step vs added_other)
  next
    case (Suc j)
    then have "ks ! j \<noteq> k" using Cons.prems(1,3) nth_mem[of j ks] by auto
    then show ?thesis using Cons.IH[of ws j "f(k := add (f k) v)"] Cons.prems by (simp add: step vs Suc fun_upd_def)
  qed
qed simp

lemma km_keys_distinct: "n \<le> 4294967296 \<Longrightarrow> distinct (km_keys n)"
  unfolding km_keys_def distinct_map
  by (auto simp: inj_on_def dest!: arg_cong[where f = unat] simp: unat_of_nat)

section \<open>Pulling and pushing\<close>

lemma flatten_ok:
  assumes "fits fl" "shape (Suc (unat (kf_K fl))) (unat (kf_num_dims fl)) rows" "length push = km_size fl"
  shows "flatten fl rows push = Inr (map (\<lambda>k. rows ! (k div unat (kf_num_dims fl)) ! (k mod unat (kf_num_dims fl))) [0..<km_size fl])"
proof -
  let ?n = "Suc (unat (kf_K fl))" and ?d = "unat (kf_num_dims fl)"
  have d: "0 < ?d" using assms(1) by (simp add: fits_def)
  have "flatten fl rows push = for_cells ?n ?d (\<lambda>i j. upd_at (i * ?d + j) (\<lambda>_. rows ! i ! j)) push"
    unfolding flatten_def fits_sizes(1)[OF assms(1)]
    by (rule for_cells_same) (use assms(2) in \<open>simp add: fits_sizes(5)[OF assms(1)] shape_def vec_at_def\<close>)
  also have "\<dots> = fold_res (\<lambda>k. upd_at k (\<lambda>_. rows ! (k div ?d) ! (k mod ?d))) [0..<km_size fl] push"
    unfolding for_cells_flat fits_sizes(2)[OF assms(1)] by simp
  finally show ?thesis using upd_all[of "km_size fl" push "\<lambda>k _. rows ! (k div ?d) ! (k mod ?d)"] assms(3) by simp
qed

lemma unflatten_ok:
  assumes "fits fl" "shape (Suc (unat (kf_K fl))) (unat (kf_num_dims fl)) rows" "length pull = km_size fl"
  shows "unflatten fl pull rows = Inr (map (\<lambda>i. map (\<lambda>j. pull ! (i * unat (kf_num_dims fl) + j)) [0..<unat (kf_num_dims fl)]) [0..<Suc (unat (kf_K fl))])"
proof -
  let ?n = "Suc (unat (kf_K fl))" and ?d = "unat (kf_num_dims fl)"
  have "unflatten fl pull rows = for_cells ?n ?d (\<lambda>i j. put2 i j (\<lambda>_. pull ! (i * ?d + j))) rows"
    unfolding unflatten_def fits_sizes(1)[OF assms(1)]
    by (rule for_cells_same) (simp add: fits_sizes(5,6)[OF assms(1)] vec_at_def assms(3))
  then show ?thesis using put2_cells[OF assms(2), of "\<lambda>i j _. pull ! (i * ?d + j)"] by simp
qed

lemma sub_rows_ok:
  assumes "fits fl" "shape (Suc (unat (kf_K fl))) (unat (kf_num_dims fl)) rows" "shape (Suc (unat (kf_K fl))) (unat (kf_num_dims fl)) params"
  shows "sub_rows F fl params rows = Inr (map (\<lambda>i. map (\<lambda>j. fl_sub F (rows ! i ! j) (params ! i ! j)) [0..<unat (kf_num_dims fl)]) [0..<Suc (unat (kf_K fl))])"
proof -
  let ?n = "Suc (unat (kf_K fl))" and ?d = "unat (kf_num_dims fl)"
  have "sub_rows F fl params rows = for_cells ?n ?d (\<lambda>i j. put2 i j (\<lambda>x. fl_sub F x (params ! i ! j))) rows"
    unfolding sub_rows_def fits_sizes(1)[OF assms(1)]
    by (rule for_cells_same) (use assms(3) in \<open>simp add: shape_def vec_at_def\<close>)
  then show ?thesis using put2_cells[OF assms(2), of "\<lambda>i j x. fl_sub F x (params ! i ! j)"] by simp
qed

text \<open>The centers and the numbers that the two tables hold.\<close>

definition centers_in :: "km_flags \<Rightarrow> (u32 \<Rightarrow> 'f) \<Rightarrow> 'f list list" where
  "centers_in fl f = map (\<lambda>i. map (\<lambda>j. f (of_nat (i * unat (kf_num_dims fl) + j))) [0..<unat (kf_num_dims fl)]) [0..<Suc (unat (kf_K fl))]"

definition counts_in :: "km_flags \<Rightarrow> (u32 \<Rightarrow> 'f) \<Rightarrow> 'f list" where
  "counts_in fl f = map (\<lambda>i. f (of_nat i)) [0..<unat (kf_K fl)]"

lemma centers_in_shape: "shape (Suc (unat (kf_K fl))) (unat (kf_num_dims fl)) (centers_in fl f)"
  by (simp add: shape_def centers_in_def del: upt_Suc)

context adding_table
begin

lemma push_cells:
  assumes "ok m" "list_all D (km_keys (length vs))" "length vs \<le> 4294967296"
  shows "\<exists>m1 m'. kv_add T (km_keys (length vs)) vs m = Inr m1 \<and> kv_clock T m1 = Inr m' \<and> ok m'
    \<and> (\<forall>k < length vs. cells m' (of_nat k) = add (cells m (of_nat k)) (vs ! k))"
proof -
  obtain m1 where m1: "kv_add T (km_keys (length vs)) vs m = Inr m1" "ok m1" "cells m1 = added add (km_keys (length vs)) vs (cells m)"
    using add_cells[OF assms(1,2), of vs] by (auto simp: km_keys_def)
  obtain m' where m': "kv_clock T m1 = Inr m'" "ok m'" "cells m' = cells m1" using clock_cells[OF m1(2)] by blast
  have "cells m' (of_nat k) = add (cells m (of_nat k)) (vs ! k)" if "k < length vs" for k
    using added_nth[OF km_keys_distinct[OF assms(3)], of vs k add "cells m"] that by (simp add: m'(3) m1(3) km_keys_def)
  then show ?thesis using m1(1) m'(1,2) by blast
qed

end

lemma km_pull_ok:
  assumes "adding_table T add cells D ok" "adding_table T2 add2 cells2 D2 ok2" "fits fl"
    and "list_all D (km_keys (km_size fl))" "list_all D2 (km_keys (unat (kf_K fl)))" "ok (ks_table s)" "ok2 (ks_table2 s)"
    and "shape (Suc (unat (kf_K fl))) (unat (kf_num_dims fl)) (ks_params s)"
  shows "\<exists>m m2. km_pull T T2 fl s = Inr (counts_in fl (cells2 (ks_table2 s)), s\<lparr>ks_params := centers_in fl (cells (ks_table s)), ks_table := m, ks_table2 := m2\<rparr>)
    \<and> ok m \<and> ok2 m2 \<and> cells m = cells (ks_table s) \<and> cells2 m2 = cells2 (ks_table2 s)"
proof -
  let ?d = "unat (kf_num_dims fl)"
  obtain m where m: "kv_get T (km_keys (km_size fl)) (ks_table s) = Inr (map (cells (ks_table s)) (km_keys (km_size fl)), m)" "ok m" "cells m = cells (ks_table s)"
    using adding_table.get_cells[OF assms(1,6,4)] by blast
  obtain m2 where m2: "kv_get T2 (km_keys (unat (kf_K fl))) (ks_table2 s) = Inr (map (cells2 (ks_table2 s)) (km_keys (unat (kf_K fl))), m2)" "ok2 m2"
    "cells2 m2 = cells2 (ks_table2 s)"
    using adding_table.get_cells[OF assms(2,7,5)] by blast
  have "unflatten fl (map (cells (ks_table s)) (km_keys (km_size fl))) (ks_params s) = Inr (centers_in fl (cells (ks_table s)))"
    unfolding unflatten_ok[OF assms(3,8), of "map (cells (ks_table s)) (km_keys (km_size fl))", simplified km_keys_def length_map length_upt diff_zero, OF refl] km_keys_def
    by (auto simp: centers_in_def fits_sizes(6)[OF assms(3)] simp del: upt_Suc)
  then show ?thesis using m m2 by (intro exI[of _ m] exI[of _ m2]) (simp add: km_pull_def counts_in_def km_keys_def comp_def)
qed

text \<open>What a cell holds after the difference of \<open>new\<close> and \<open>old\<close> was added to \<open>old\<close>: \<open>new\<close> without rounding.\<close>

definition brought_to :: "'f fl \<Rightarrow> 'f \<Rightarrow> 'f \<Rightarrow> 'f" where
  "brought_to F old new = fl_add F old (fl_sub F new old)"

definition brought_rows :: "'f fl \<Rightarrow> 'f list list \<Rightarrow> 'f list list \<Rightarrow> 'f list list" where
  "brought_rows F = map2 (map2 (brought_to F))"

lemma brought_to_exact:
  fixes F :: "'f::linordered_field fl"
  shows "exact_fl F \<Longrightarrow> brought_to F old new = new"
  by (simp add: brought_to_def exact_fl_def)

lemma km_push_ok:
  assumes "adding_table T (fl_add F) cells D ok" "adding_table T2 (fl_add F) cells2 D2 ok2" "fits fl"
    and "list_all D (km_keys (km_size fl))" "list_all D2 (km_keys (unat (kf_K fl)))" "ok (ks_table s)" "ok2 (ks_table2 s)"
    and "ks_params s = centers_in fl (cells (ks_table s))" "cnts = counts_in fl (cells2 (ks_table2 s))" "length (ks_push s) = km_size fl"
    and "shape (Suc (unat (kf_K fl))) (unat (kf_num_dims fl)) P" "length C = unat (kf_K fl)"
  shows "\<exists>s'. km_push F T T2 fl P C cnts s = Inr s' \<and> ks_job s' = ks_job s \<and> ks_params s' = ks_params s \<and> length (ks_push s') = km_size fl
    \<and> ok (ks_table s') \<and> ok2 (ks_table2 s') \<and> centers_in fl (cells (ks_table s')) = brought_rows F (ks_params s) P
    \<and> counts_in fl (cells2 (ks_table2 s')) = map2 (brought_to F) cnts C"
proof -
  let ?n = "Suc (unat (kf_K fl))" and ?d = "unat (kf_num_dims fl)" and ?K = "unat (kf_K fl)"
  let ?rows = "map (\<lambda>i. map (\<lambda>j. fl_sub F (P ! i ! j) (ks_params s ! i ! j)) [0..<?d]) [0..<?n]"
  let ?push = "map (\<lambda>k. ?rows ! (k div ?d) ! (k mod ?d)) [0..<km_size fl]" and ?diff = "map (\<lambda>i. fl_sub F (C ! i) (cnts ! i)) [0..<?K]"
  note z = fits_sizes[OF assms(3)]
  have d: "0 < ?d" using assms(3) by (simp add: fits_def)
  have rows: "sub_rows F fl (ks_params s) P = Inr ?rows"
    using sub_rows_ok[OF assms(3,11), of "ks_params s" F] centers_in_shape assms(8) by metis
  have "shape ?n ?d ?rows" by (simp add: shape_def del: upt_Suc)
  then have push: "flatten fl ?rows (ks_push s) = Inr ?push" by (rule flatten_ok[OF assms(3) _ assms(10)])
  have diff: "map_res (\<lambda>i. bind_res (vec_at cnts i) (\<lambda>c. Inr (fl_sub F (C ! i) c))) [0..<length C] = Inr ?diff"
    unfolding assms(12) by (rule map_res_total) (use assms(9) in \<open>simp add: vec_at_def counts_in_def\<close>)
  obtain m1 m' where m: "kv_add T (km_keys (km_size fl)) ?push (ks_table s) = Inr m1" "kv_clock T m1 = Inr m'" "ok m'"
    "\<forall>k < km_size fl. cells m' (of_nat k) = fl_add F (cells (ks_table s) (of_nat k)) (?push ! k)"
    using adding_table.push_cells[OF assms(1,6), of ?push] assms(4) z(7) by auto
  obtain n1 n' where n: "kv_add T2 (km_keys ?K) ?diff (ks_table2 s) = Inr n1" "kv_clock T2 n1 = Inr n'" "ok2 n'"
    "\<forall>k < ?K. cells2 n' (of_nat k) = fl_add F (cells2 (ks_table2 s) (of_nat k)) (?diff ! k)"
    using adding_table.push_cells[OF assms(2,7), of ?diff] assms(5) z(4) by auto
  have P: "length P = ?n" "i < ?n \<Longrightarrow> length (P ! i) = ?d" for i using assms(11) by (simp_all add: shape_def)
  have cell: "cells m' (of_nat (i * ?d + j)) = brought_to F (ks_params s ! i ! j) (P ! i ! j)" if "i < ?n" "j < ?d" for i j
    using m(4)[rule_format, OF z(6)[OF that]] that z(6)[OF that]
    by (simp add: assms(8) centers_in_def brought_to_def del: upt_Suc of_nat_add of_nat_mult)
  have "centers_in fl (cells m') = brought_rows F (ks_params s) P"
    unfolding brought_rows_def
    by (rule nth_equalityI)
      (use P cell in \<open>auto simp: centers_in_def assms(8) intro!: nth_equalityI simp del: upt_Suc of_nat_add of_nat_mult\<close>)
  moreover have "counts_in fl (cells2 n') = map2 (brought_to F) cnts C"
    by (rule nth_equalityI) (use assms(12) n(4) in \<open>auto simp: counts_in_def assms(9) brought_to_def\<close>)
  ultimately show ?thesis
    using rows push diff m(1,2,3) n(1,2,3) assms(12) by (simp add: km_push_def del: upt_Suc)
qed

section \<open>The worker is the plain algorithm\<close>

definition batch_of :: "(nat \<Rightarrow> nat) \<Rightarrow> km_flags \<Rightarrow> 'f point list \<Rightarrow> nat \<Rightarrow> 'f point list" where
  "batch_of rnd fl dat iter =
     take (nat (kf_batch_size fl)) (drop (start_of rnd (kf_batch_size fl) dat iter) dat)"

definition plain_iteration ::
  "'f fl \<Rightarrow> 'f km_fl \<Rightarrow> ('f \<Rightarrow> 'f) \<Rightarrow> (nat \<Rightarrow> nat) \<Rightarrow> km_flags \<Rightarrow> 'f point list \<Rightarrow> nat \<Rightarrow> 'f list list \<times> 'f list \<Rightarrow> ('f list list \<times> 'f list) res"
where
  "plain_iteration F G rate rnd fl dat iter = (\<lambda>(P, C).
     bind_res (fold_res (km_point F G rate fl) (batch_of rnd fl dat iter) (P, C)) (\<lambda>(P', C').
       Inr (brought_rows F P P', map2 (brought_to F) C C')))"

definition plain_kmeans ::
  "'f fl \<Rightarrow> 'f km_fl \<Rightarrow> ('f \<Rightarrow> 'f) \<Rightarrow> (nat \<Rightarrow> nat) \<Rightarrow> km_flags \<Rightarrow> 'f point list \<Rightarrow> nat list \<Rightarrow> 'f list list \<times> 'f list \<Rightarrow> ('f list list \<times> 'f list) res"
where
  "plain_kmeans F G rate rnd fl dat = fold_res (plain_iteration F G rate rnd fl dat)"

lemma fold_points_shape:
  "fold_res (km_point F G rate fl) pts (P, C) = Inr (P', C') \<Longrightarrow> shape n d P \<Longrightarrow> shape n d P' \<and> length C' = length C"
proof (induction pts arbitrary: P C)
  case (Cons p pts)
  from Cons.prems(1) obtain P1 C1 where step: "km_point F G rate fl p (P, C) = Inr (P1, C1)"
    and rest: "fold_res (km_point F G rate fl) pts (P1, C1) = Inr (P', C')" by (auto simp: res_simps)
  then show ?case using km_point_shape[OF step Cons.prems(2)] Cons.IH[OF rest] by simp
qed simp

text \<open>Without rounding an iteration leaves the moved centers themselves.\<close>

lemma plain_iteration_exact:
  fixes F :: "'f::linordered_field fl"
  assumes "exact_fl F" "shape n d P"
  shows "plain_iteration F G rate rnd fl dat iter (P, C) = fold_res (km_point F G rate fl) (batch_of rnd fl dat iter) (P, C)"
proof (cases "fold_res (km_point F G rate fl) (batch_of rnd fl dat iter) (P, C)")
  case (Inr s)
  obtain P' C' where s: "s = (P', C')" by (cases s)
  have same: "map2 (brought_to F) xs ys = ys" if "length xs = length ys" for xs ys
    using that by (induction xs ys rule: list_induct2) (simp_all add: brought_to_exact[OF assms(1)])
  note sh = fold_points_shape[OF Inr[unfolded s] assms(2)]
  then have "brought_rows F P P' = P'" unfolding brought_rows_def
    by (intro nth_equalityI) (use sh assms(2) same in \<open>auto simp: shape_def\<close>)
  then show ?thesis using Inr s same[of C C'] sh by (simp add: plain_iteration_def)
qed (simp add: plain_iteration_def)

definition room_for_batch :: "km_flags \<Rightarrow> 'f point list \<Rightarrow> bool" where
  "room_for_batch fl dat \<longleftrightarrow> room_for (kf_batch_size fl) dat"

text \<open>Between two iterations.\<close>

definition km_ready :: "km_flags \<Rightarrow> ('m \<Rightarrow> bool) \<Rightarrow> ('n \<Rightarrow> bool) \<Rightarrow> ('f, 'm, 'n) km_state \<Rightarrow> bool" where
  "km_ready fl ok ok2 s \<longleftrightarrow> ok (ks_table s) \<and> ok2 (ks_table2 s) \<and> shape (Suc (unat (kf_K fl))) (unat (kf_num_dims fl)) (ks_params s)
     \<and> length (ks_push s) = km_size fl \<and> \<not> jo_do (ks_job s)"

lemma km_iteration_plain:
  assumes tables: "adding_table T (fl_add F) cells D ok" "adding_table T2 (fl_add F) cells2 D2 ok2" "fits fl"
    and keys: "list_all D (km_keys (km_size fl))" "list_all D2 (km_keys (unat (kf_K fl)))"
    and alone: "\<And>i k jo. outside i k ([], jo) = Some jo" and room: "room_for_batch fl dat" "rnd iter < 2147483648" "nat (kf_batch_size fl) < n"
    and ready: "km_ready fl ok ok2 s"
    and plain: "plain_iteration F G rate rnd fl dat iter (centers_in fl (cells (ks_table s)), counts_in fl (cells2 (ks_table2 s))) = Inr (P', C')"
  shows "\<exists>s'. km_iteration n other S outside F G rate T T2 rnd fl dat iter s = Some (Inr s') \<and> km_ready fl ok ok2 s'
    \<and> centers_in fl (cells (ks_table s')) = P' \<and> counts_in fl (cells2 (ks_table2 s')) = C'"
proof -
  let ?P = "centers_in fl (cells (ks_table s))" and ?C = "counts_in fl (cells2 (ks_table2 s))" and ?b = "nat (kf_batch_size fl)"
  obtain P1 C1 where moved: "fold_res (km_point F G rate fl) (batch_of rnd fl dat iter) (?P, ?C) = Inr (P1, C1)"
    and res: "P' = brought_rows F ?P P1" "C' = map2 (brought_to F) ?C C1"
    using plain by (auto simp: plain_iteration_def res_simps)
  define start where "start = start_of rnd (kf_batch_size fl) dat iter"
  have r: "ok (ks_table s)" "ok2 (ks_table2 s)" "shape (Suc (unat (kf_K fl))) (unat (kf_num_dims fl)) (ks_params s)"
    "length (ks_push s) = km_size fl" "\<not> jo_do (ks_job s)" using ready by (simp_all add: km_ready_def)
  obtain m m2 where pull: "km_pull T T2 fl s = Inr (?C, s\<lparr>ks_params := ?P, ks_table := m, ks_table2 := m2\<rparr>)" "ok m" "ok2 m2"
    "cells m = cells (ks_table s)" "cells2 m2 = cells2 (ks_table2 s)"
    using km_pull_ok[OF tables(1-3) keys r(1-3)] by (elim exE conjE)
  note st = batch_start_ok[where rnd = rnd and iter = iter, OF room(1)[unfolded room_for_batch_def] room(2), folded start_def]
  let ?jo = "new_job fl iter (int start) (ks_job s)"
  have "fold_res (km_point F G rate fl) (take ?b (drop start dat)) (?P, ?C) = Inr (P1, C1)" using moved by (simp add: batch_of_def start_def)
  note run = batch_plain[where outside = "outside iter" and start = start, OF alone room(1)[unfolded room_for_batch_def] _ room(3) r(5) this]
  obtain jo' where loop: "km_loop n other S (outside iter) F G rate fl dat 0 (int start) (?jo, ?P, ?C) = Some (Inr (jo', P1, C1))" "\<not> jo_do jo'"
    using run[of other S 0 iter] st(2) by (auto simp: km_loop_def new_job_def)
  have after: "shape (Suc (unat (kf_K fl))) (unat (kf_num_dims fl)) P1" "length C1 = unat (kf_K fl)"
    using fold_points_shape[OF moved centers_in_shape] by (simp_all add: counts_in_def)
  let ?s = "s\<lparr>ks_params := ?P, ks_table := m, ks_table2 := m2, ks_job := jo'\<rparr>"
  obtain s' where push: "km_push F T T2 fl P1 C1 ?C ?s = Inr s'" "ks_job s' = jo'" "ks_params s' = ?P" "length (ks_push s') = km_size fl"
    "ok (ks_table s')" "ok2 (ks_table2 s')" "centers_in fl (cells (ks_table s')) = P'" "counts_in fl (cells2 (ks_table2 s')) = C'"
    using km_push_ok[OF tables keys, of ?s ?C P1 C1] pull(2-5) r(4) after res by auto
  have "km_iteration n other S outside F G rate T T2 rnd fl dat iter s = Some (Inr s')"
    using pull(1) st(1) loop(1) push(1) by (simp add: km_iteration_def km_start_def)
  moreover have "km_ready fl ok ok2 s'" using push(2-6) loop(2) centers_in_shape by (simp add: km_ready_def)
  ultimately show ?thesis using push(7,8) by blast
qed

lemma km_iterations_plain:
  assumes tables: "adding_table T (fl_add F) cells D ok" "adding_table T2 (fl_add F) cells2 D2 ok2" "fits fl"
    and keys: "list_all D (km_keys (km_size fl))" "list_all D2 (km_keys (unat (kf_K fl)))"
    and alone: "\<And>i k jo. outside i k ([], jo) = Some jo" and room: "room_for_batch fl dat" "\<And>i. rnd i < 2147483648" "nat (kf_batch_size fl) < n"
  shows "km_ready fl ok ok2 s \<Longrightarrow> plain_kmeans F G rate rnd fl dat iters (centers_in fl (cells (ks_table s)), counts_in fl (cells2 (ks_table2 s))) = Inr (P', C')
    \<Longrightarrow> \<exists>s'. km_iterations n other S outside F G rate T T2 rnd fl dat iters s = Some (Inr s') \<and> km_ready fl ok ok2 s'
    \<and> centers_in fl (cells (ks_table s')) = P' \<and> counts_in fl (cells2 (ks_table2 s')) = C'"
proof (induction iters arbitrary: s)
  case (Cons iter iters)
  from Cons.prems(2) obtain P1 C1 where one: "plain_iteration F G rate rnd fl dat iter (centers_in fl (cells (ks_table s)), counts_in fl (cells2 (ks_table2 s))) = Inr (P1, C1)"
    and rest: "plain_kmeans F G rate rnd fl dat iters (P1, C1) = Inr (P', C')" by (auto simp: plain_kmeans_def res_simps)
  obtain s1 where s1: "km_iteration n other S outside F G rate T T2 rnd fl dat iter s = Some (Inr s1)" "km_ready fl ok ok2 s1"
    "centers_in fl (cells (ks_table s1)) = P1" "counts_in fl (cells2 (ks_table2 s1)) = C1"
    using km_iteration_plain[where outside = outside and n = n and other = other and S = S and rnd = rnd and iter = iter, OF tables keys alone room(1,2,3) Cons.prems(1) one]
    by blast
  show ?case using Cons.IH[OF s1(2)] rest s1(1,3,4) by simp
qed (simp add: plain_kmeans_def)

text \<open>C38. One worker that nobody reassigns points to or from, alone on the two tables, is the plain algorithm: whatever the sequence of the random
  numbers, pulling, moving, subtracting and pushing, over all iterations, ends and leaves in the tables the
  centers and the numbers that moving the centers of the tables point by point gives.  The arithmetic is any, and may round: the plain algorithm then
  adds to every cell the rounded difference, which without rounding brings it to the moved center.  The tables are any that add
  with the addition of that arithmetic, as the storages of the servers do.  The conditions: fewer than \<open>2^31\<close> cells, more than twice the batch and
  one point, and a number of points and drawings below \<open>2^31\<close>.\<close>

theorem km_worker_refines:
  assumes "adding_table T (fl_add F) cells D ok" "adding_table T2 (fl_add F) cells2 D2 ok2" "fits fl" "ok m" "ok2 m2"
    and "list_all D (km_keys (km_size fl))" "list_all D2 (km_keys (unat (kf_K fl)))"
    and "\<forall>i k jo. outside i k ([], jo) = Some jo" "kf_reassgn_mode fl = 0" "room_for_batch fl dat" "\<forall>i. rnd i < 2147483648" "nat (kf_batch_size fl) < n"
    and "plain_kmeans F G rate rnd fl dat [0..<nat (kf_num_iters fl)] (centers_in fl (cells m), counts_in fl (cells2 m2)) = Inr (P', C')"
  shows "\<exists>s. km_worker n other S outside F G rate T T2 rnd fl dat jo m m2 = Some (Inr s) \<and> ok (ks_table s) \<and> ok2 (ks_table2 s)
    \<and> centers_in fl (cells (ks_table s)) = P' \<and> counts_in fl (cells2 (ks_table2 s)) = C'"
proof -
  let ?s = "\<lparr>ks_job = set_do_reassgn (kf_reassgn_mode fl \<noteq> 0) jo, ks_params = replicate (unat (kf_K fl + 1)) (replicate (unat (kf_num_dims fl)) (fl_int F 0)),
        ks_push = replicate (km_size fl) (fl_int F 0), ks_table = m, ks_table2 = m2\<rparr>"
  have ready: "km_ready fl ok ok2 ?s"
    using assms(4,5,9) by (simp add: km_ready_def shape_def set_do_reassgn_def fits_sizes(1)[OF assms(3)] del: replicate_Suc)
  have "\<exists>s'. km_iterations n other S outside F G rate T T2 rnd fl dat [0..<nat (kf_num_iters fl)] ?s = Some (Inr s') \<and> km_ready fl ok ok2 s'
      \<and> centers_in fl (cells (ks_table s')) = P' \<and> counts_in fl (cells2 (ks_table2 s')) = C'"
    by (rule km_iterations_plain[OF assms(1-3,6,7) _ assms(10) _ assms(12) ready]) (use assms(8,11,13) in simp_all)
  then show ?thesis by (auto simp: km_worker_def km_ready_def)
qed

section \<open>The tables at the start\<close>

text \<open>The task of worker 0 leaves the first centers in a table of zeros, as the workers then pull them.\<close>

lemma init_task_writes:
  assumes "adding_table T (fl_add F) cells D ok" "fits fl" "list_all D (km_keys (km_size fl))" "ok m" "\<forall>k x. fl_add F (cells m k) x = x"
    and "init_centers fuel F G rnd (to_i32 (ucast (kf_K fl))) (to_i32 (ucast (kf_num_dims fl))) dat
      (replicate (unat (kf_K fl + 1)) (replicate (unat (kf_num_dims fl)) (fl_int F 0))) (kf_init_mode fl) = Some (Inr params)"
    and "shape (Suc (unat (kf_K fl))) (unat (kf_num_dims fl)) params"
  shows "\<exists>m'. km_init_task fuel F G T rnd fl dat 0 m = Some (Inr m') \<and> ok m' \<and> centers_in fl (cells m') = params"
proof -
  let ?d = "unat (kf_num_dims fl)"
  let ?push = "map (\<lambda>k. params ! (k div ?d) ! (k mod ?d)) [0..<km_size fl]"
  note z = fits_sizes[OF assms(2)]
  have d: "0 < ?d" using assms(2) by (simp add: fits_def)
  have push: "flatten fl params (replicate (km_size fl) (fl_int F 0)) = Inr ?push" by (rule flatten_ok[OF assms(2,7)]) simp
  obtain m1 m' where m: "kv_add T (km_keys (km_size fl)) ?push m = Inr m1" "kv_clock T m1 = Inr m'" "ok m'"
    "\<forall>k < km_size fl. cells m' (of_nat k) = fl_add F (cells m (of_nat k)) (?push ! k)"
    using adding_table.push_cells[OF assms(1,4), of ?push] assms(3) z(7) by auto
  have cell: "cells m' (of_nat (i * ?d + j)) = params ! i ! j" if "i < Suc (unat (kf_K fl))" "j < ?d" for i j
    using m(4)[rule_format, OF z(6)[OF that]] that z(6)[OF that] by (simp add: assms(5) del: of_nat_add of_nat_mult)
  have "centers_in fl (cells m') = params"
    by (rule nth_equalityI) (use assms(7) cell in \<open>auto simp: centers_in_def shape_def intro!: nth_equalityI simp del: upt_Suc of_nat_add of_nat_mult\<close>)
  then show ?thesis using push m(1-3) by (simp add: km_init_task_def assms(6))
qed

text \<open>Both tables are cut as the one of logistic regression is.\<close>

lemma u64_ranges_spans:
  assumes "0 < s" "s < 2147483648" "0 \<le> n" "n < 2147483648"
  shows "u64_ranges (of_int n) s = Inr (cut_spans n s)"
proof -
  have q: "(of_int n div of_int s :: u64) = of_int (n div s)"
  proof (rule word_uint_eqI)
    have "0 \<le> n div s" "n div s \<le> n" using part_bounds[of s n 1] assms by simp_all
    then show "uint (of_int n div of_int s :: u64) = uint (of_int (n div s) :: u64)"
      using assms by (simp add: uint_div_distrib uint_u64_of_int)
  qed
  show ?thesis using assms(1) by (simp add: u64_ranges_def q cut_spans_def span_def)
qed

section \<open>A run\<close>

definition demo_km :: km_flags where
  "demo_km = \<lparr>kf_num_dims = 1, kf_num_iters = 2, kf_model_type = ''BSP'', kf_storage_type = ''Vector'', kf_staleness = 0, kf_workers = 1, kf_servers = 1,
     kf_batch_size = 1, kf_K = 2, kf_init_mode = ''random'', kf_reassgn_mode = 0\<rparr>"

definition demo_km_points :: "rat point list" where
  "demo_km_points = map (\<lambda>v. ([(0, v)], 0)) [2, 9, 4, 8, 1]"

lemma demo_km_moves:
  "fold_res (km_point rat_fl rat_km (\<lambda>n. 1 / n) demo_km) (take 3 demo_km_points) ([[0], [10], [0]], [0, 0]) = Inr ([[3], [9], [0]], [2, 1])"
  by code_simp

theorem centers_are_means_witness:
  "(2 :: rat) * 3 = 0 * 0 + (\<Sum>p\<leftarrow>joined rat_fl rat_km (\<lambda>n. 1 / n) demo_km 0 (take 3 demo_km_points) ([[0], [10], [0]], [0, 0]). coord p 0)"
proof -
  have given: "exact_fl rat_fl" "shape 3 (unat (kf_num_dims demo_km)) [[0 :: rat], [10], [0]]" "\<forall>c < length [0 :: rat, 0]. 0 \<le> [0 :: rat, 0] ! c"
    "fits demo_km" "unat (kf_K demo_km) \<le> 3"
    by (auto simp: exact_fl_def rat_fl_def shape_def demo_km_def less_Suc_eq numeral_3_eq_3 fits_def)
  note all = centers_are_means[OF given(1) demo_km_moves given(2-5), THEN conjunct2, THEN conjunct2, rule_format, of 0, THEN conjunct2, rule_format, of 0]
  have "unat (kf_num_dims demo_km) = 1" by (simp add: demo_km_def)
  then show ?thesis using all by simp
qed

text \<open>The tables are storages of a server, and the arithmetic that of 32-bit numbers, whose quotients are rounded.\<close>

definition word_fl :: "u32 fl" where
  "word_fl = \<lparr>fl_int = of_int, fl_add = (+), fl_sub = (-), fl_mul = (*), fl_div = (div), fl_neg = uminus, fl_abs = id, fl_sqrt = id,
     fl_lt = (<), fl_le = (\<le>), fl_inf = -1, fl_trunc = uint, fl_tenth = (\<lambda>x. x div 10), fl_nudge = (\<lambda>x. x + 1), fl_sum = sum_list\<rparr>"

definition word_km :: "u32 km_fl" where
  "word_km = \<lparr>km_max = -1, km_scale = (\<lambda>s r. s * of_nat r div 10), km_drawn = (\<lambda>l psi phi r. False)\<rparr>"

definition demo_word_points :: "u32 point list" where
  "demo_word_points = map (\<lambda>v. ([(0, v)], 0)) [2, 9, 4, 8, 1]"

definition demo_store :: "u32 storage" where
  "demo_store = MapStorage [1 \<mapsto> 10]"

theorem km_worker_refines_witness:
  "\<exists>s. km_worker 2 kBarrier demo_stream (\<lambda>_ _ (_, jo). Some jo) word_fl word_km (\<lambda>n. 1 div n) (storage_table (float_val (+))) (storage_table (float_val (+)))
      (\<lambda>i. i mod 2) demo_km demo_word_points (jo_new False 50 []) demo_store (MapStorage Map.empty) = Some (Inr s)
    \<and> centers_in demo_km (storage_view (float_val (+)) (ks_table s)) = [[2], [9], [0]]
    \<and> counts_in demo_km (storage_view (float_val (+)) (ks_table2 s)) = [1, 1]"
proof -
  let ?V = "float_val (+)"
  have add: "fl_add word_fl = (+)" by (simp add: word_fl_def)
  have start: "centers_in demo_km (storage_view ?V demo_store) = [[0], [10], [0]]" "counts_in demo_km (storage_view ?V (MapStorage Map.empty)) = [0, 0]"
    by code_simp+
  have plain: "plain_kmeans word_fl word_km (\<lambda>n. 1 div n) (\<lambda>i. i mod 2) demo_km demo_word_points [0..<nat (kf_num_iters demo_km)]
      (centers_in demo_km (storage_view ?V demo_store), counts_in demo_km (storage_view ?V (MapStorage Map.empty))) = Inr ([[2], [9], [0]], [1, 1])"
    unfolding start by code_simp
  have fl: "fits demo_km" "serving (\<lambda>_. True) demo_store" "serving (\<lambda>_. True) (MapStorage Map.empty :: u32 storage)"
    by (simp_all add: fits_def demo_km_def serving_def demo_store_def)
  have keys: "list_all (\<lambda>_. True) (km_keys (km_size demo_km))" "list_all (\<lambda>_. True) (km_keys (unat (kf_K demo_km)))" by (simp_all add: list_all_iff)
  have alone: "\<forall>(i :: nat) (k :: nat) jo. (\<lambda>_ _ (_, jo). Some jo) i k ([] :: message list, jo :: job_manager) = Some jo" by simp
  have run: "kf_reassgn_mode demo_km = 0" "room_for_batch demo_km demo_word_points" "\<forall>i :: nat. i mod 2 < 2147483648" "nat (kf_batch_size demo_km) < 2"
    by (simp_all add: demo_km_def room_for_batch_def room_for_def demo_word_points_def mod2_eq_if)
  from km_worker_refines[OF float_adds.adding_table_axioms[of "(+)", folded add] float_adds.adding_table_axioms[of "(+)", folded add] fl keys alone run,
      unfolded add, OF plain]
  show ?thesis by blast
qed

end
