(* ===== verification/Gbdt_First.thy ===== *)
theory Gbdt_First
  imports Complex_Main Gbdt_Program Kmeans_Program
begin

text \<open>
  \<open>examples/gbdt\<close>: the first version of the boosted trees.  It keeps everything in one table, one \<open>Clock\<close> after each
  \<open>Add\<close> and none after a \<open>Get\<close>, tests nearest fractions strictly, includes the largest value by adding 1, does not narrow the bounds of the
  children, and a leaf predicts the mean of the gradients of its own worker.  What is as in \<open>examples2/gbdt\<close> is
  taken from there.
\<close>

section \<open>Loading\<close>

text \<open>The constructor splits at tabs, whatever the delimiter it is given.\<close>

fun first_load_lines :: "(string \<Rightarrow> 'f) \<Rightarrow> nat option \<Rightarrow> string list \<Rightarrow> 'f data_loader \<Rightarrow> 'f data_loader res" where
  "first_load_lines atof n [] dl = Inr dl"
| "first_load_lines atof n (line # lines) dl =
     (let tokens = split_text [CHR 0x09] False line
      in bind_res (case n of
             Some m \<Rightarrow> Inr (m, dl)
           | None \<Rightarrow> check_that (tokens \<noteq> []) Out_of_range_exception
               (Inr (length tokens - 1, dl\<lparr>dl_num_of_feat := int (length tokens) - 1, dl_feats := vec_resize (length tokens - 1) (dl_feats dl)\<rparr>))) (\<lambda>(m, dl).
         bind_res (add_record m (map atof tokens) dl) (first_load_lines atof (Some m) lines)))"

definition first_loader :: "(string \<Rightarrow> 'f) \<Rightarrow> string \<Rightarrow> string list \<Rightarrow> 'f data_loader res" where
  "first_loader atof delimiter lines =
     first_load_lines atof None lines \<lparr>dl_class = [], dl_feats = [], dl_num_of_record = 0, dl_num_of_feat = 0\<rparr>"

definition first_row :: "'f list list \<Rightarrow> nat \<Rightarrow> 'f list res" where
  "first_row feats row = feat_vect_by_row feats row"

definition first_split ::
  "('f \<Rightarrow> 'f \<Rightarrow> bool) \<Rightarrow> nat \<Rightarrow> 'f \<Rightarrow> 'f part \<Rightarrow> 'f part \<Rightarrow> 'f part \<Rightarrow> ('f part \<times> 'f part) res"
where
  "first_split lt feat_id split_val orig left right = split_dataset lt feat_id split_val orig left right"

section \<open>A node\<close>

definition first_node :: "'f fl \<Rightarrow> 'f params \<Rightarrow> 'f node_data" where
  "first_node F ps = node_new F ps"

text \<open>\<open>max += 1\<close>\<close>

definition first_fl :: "'f fl \<Rightarrow> 'f fl" where
  "first_fl F = F\<lparr>fl_nudge := (\<lambda>x. fl_add F x (fl_int F 1))\<rparr>"

definition first_quantile_sketch ::
  "'f fl \<Rightarrow> 'f params \<Rightarrow> int \<Rightarrow> 'f list \<Rightarrow> 'f params \<Rightarrow> (u32 list \<times> 'f list \<times> int) res"
where
  "first_quantile_sketch F ps ptr feats min_max = push_quantile_sketch (first_fl F) ps ptr feats min_max"

text \<open>The first fraction of those whose sum is nearest.\<close>

fun first_best_fraction :: "'f fl \<Rightarrow> 'f list \<Rightarrow> 'f \<Rightarrow> 'f \<Rightarrow> 'f \<Rightarrow> nat list \<Rightarrow> 'f \<times> 'f \<Rightarrow> ('f \<times> 'f) res" where
  "first_best_fraction F hist fraction prev goal [] best = Inr best"
| "first_best_fraction F hist fraction prev goal (s # ss) (arg, approx) =
     (let cur = fl_add F prev (fl_mul F (fl_int F (int s)) fraction);
          k = fl_trunc F (fl_div F cur fraction)
      in if k < 0 \<or> int (length hist) < k then Inl Out_of_bounds
         else
           let d = fl_abs F (fl_sub F (fl_sum F (take (nat k) hist)) goal)
           in first_best_fraction F hist fraction prev goal ss (if fl_lt F d approx then (cur, d) else (arg, approx)))"

fun first_candidates ::
  "'f fl \<Rightarrow> 'f list \<Rightarrow> 'f \<Rightarrow> 'f \<Rightarrow> int \<Rightarrow> ('f \<Rightarrow> 'f) \<Rightarrow> nat list \<Rightarrow> 'f \<Rightarrow> 'f list res"
where
  "first_candidates F hist fraction width reach scale [] prev = Inr []"
| "first_candidates F hist fraction width reach scale (c # cs) prev =
     bind_res (first_best_fraction F hist fraction prev (fl_mul F (fl_int F (int c + 1)) width) [0..<nat reach] (prev, fl_inf F))
       (\<lambda>(arg, _). bind_res (first_candidates F hist fraction width reach scale cs arg) (\<lambda>rest. Inr (scale arg # rest)))"

definition first_candidate_split :: "'f fl \<Rightarrow> 'f params \<Rightarrow> 'f list \<Rightarrow> 'f params \<Rightarrow> 'f list res" where
  "first_candidate_split F ps hist min_max =
     (let mi = param F min_max ''min''; ma = fl_add F (param F min_max ''max'') (fl_int F 1);
          rank_num = rank_num_of F ps;
          width = fl_mul F (param F ps ''rank_fraction'') (param F ps ''total_data_num'');
          fraction = fl_tenth F (param F ps ''rank_fraction'')
      in check_that (rank_num \<noteq> 0) Div_by_zero
           (let n = 2 * sketch_num_of F ps; reach = (if 0 \<le> n \<longleftrightarrow> 0 < rank_num then \<bar>n\<bar> div \<bar>rank_num\<bar> else - (\<bar>n\<bar> div \<bar>rank_num\<bar>))
            in first_candidates F hist fraction width reach (\<lambda>arg. fl_add F (fl_mul F arg (fl_sub F ma mi)) mi)
                 [0..<nat (rank_num - 1)] (fl_int F 0)))"

definition first_local_grad_hess ::
  "'f fl \<Rightarrow> int \<Rightarrow> 'f list \<Rightarrow> 'f list \<Rightarrow> 'f list \<Rightarrow> 'f list \<Rightarrow> (u32 list \<times> 'f list \<times> int) res"
where
  "first_local_grad_hess F ptr feats candidates grad hess = push_local_grad_hess F ptr feats candidates grad hess"

definition first_best_split :: "'f fl \<Rightarrow> 'f list \<Rightarrow> 'f \<Rightarrow> int \<times> 'f" where
  "first_best_split F gh complexity = find_best_split F gh complexity"

text \<open>Steps 1 and 2.\<close>

definition first_sketch_step ::
  "'f fl \<Rightarrow> ('f, 'm) kv_ops \<Rightarrow> 'f part \<Rightarrow> 'f params list \<Rightarrow> 'f node_data \<Rightarrow> int \<times> 'm \<Rightarrow> ('f list list \<times> 'f node_data \<times> int \<times> 'm) res"
where
  "first_sketch_step F T p min_max nd = (\<lambda>(ptr, m).
     check_that (length (pt_feats p) \<le> length min_max) Out_of_bounds
    (bind_res (push_each (\<lambda>(feats, mm) ptr. first_quantile_sketch F (nd_params nd) ptr feats mm) (zip (pt_feats p) min_max) ptr) (\<lambda>(kvs, ptr).
     bind_res (add_clock T kvs m) (\<lambda>m.
     bind_res (kv_get T (concat (map fst (nd_sketches nd @ kvs))) m) (\<lambda>(vs, m).
     check_that (pt_feats p \<noteq> []) Div_by_zero
       (let per = int (length vs div length (pt_feats p))
        in bind_res (map_res (\<lambda>f. bind_res (subvector vs (int f * per) ((int f + 1) * per)) (\<lambda>hist.
               first_candidate_split F (nd_params nd) hist (min_max ! f))) [0..<length (pt_feats p)]) (\<lambda>cands.
             Inr (cands, nd\<lparr>nd_sketches := nd_sketches nd @ kvs\<rparr>, ptr, m))))))))"

text \<open>Steps 3 and 4.\<close>

definition first_split_step ::
  "'f fl \<Rightarrow> ('f, 'm) kv_ops \<Rightarrow> 'f part \<Rightarrow> 'f list list \<Rightarrow> 'f node_data \<Rightarrow> int \<times> 'm \<Rightarrow> ('f node_data \<times> int \<times> 'm) res"
where
  "first_split_step F T p cands nd = (\<lambda>(ptr, m).
     bind_res (push_each (\<lambda>(feats, cs) ptr. first_local_grad_hess F ptr feats cs (pt_grad p) (pt_hess p)) (zip (pt_feats p) cands) ptr) (\<lambda>(kvs, ptr).
     bind_res (add_clock T kvs m) (\<lambda>m.
     bind_res (kv_get T (concat (map fst (nd_grad_hess nd @ kvs))) m) (\<lambda>(vs, m).
       let per = fl_trunc F (fl_mul F (fl_sub F (fl_div F (fl_int F 1) (param F (nd_params nd) ''rank_fraction'')) (fl_int F 1)) (fl_int F 4))
       in bind_res (fold_res (\<lambda>f nd. bind_res (subvector vs (int f * per) ((int f + 1) * per)) (\<lambda>gh.
              better_split (int f) (cands ! f) F (first_best_split F gh (param F (nd_params nd) ''complexity_of_leaf'')) nd))
            [0..<length (pt_feats p)] nd) (\<lambda>nd.
            Inr (nd\<lparr>nd_grad_hess := nd_grad_hess nd @ kvs\<rparr>, ptr, m))))))"

text \<open>Step 5; \<open>ps_key_ptr\<close> is 0 afterwards.\<close>

definition first_reset_step :: "'f fl \<Rightarrow> ('f, 'm) kv_ops \<Rightarrow> 'f node_data \<Rightarrow> 'm \<Rightarrow> 'm res" where
  "first_reset_step F T nd m = add_clock T (map (\<lambda>(ks, vs). (ks, map (fl_neg F) vs)) (nd_sketches nd @ nd_grad_hess nd)) m"

definition first_train_node ::
  "'f fl \<Rightarrow> ('f, 'm) kv_ops \<Rightarrow> 'f part \<Rightarrow> 'f params list \<Rightarrow> 'f node_data \<Rightarrow> int \<times> 'm \<Rightarrow> ('f node_data \<times> int \<times> 'm) res"
where
  "first_train_node F T p min_max nd s =
     bind_res (first_sketch_step F T p min_max nd s) (\<lambda>(cands, nd, s).
     bind_res (first_split_step F T p cands nd s) (\<lambda>(nd, ptr, m).
     bind_res (first_reset_step F T nd m) (\<lambda>m. Inr (nd, 0, m))))"

definition first_check_to_stop :: "'f fl \<Rightarrow> 'f node_data \<Rightarrow> bool" where
  "first_check_to_stop F nd = check_to_stop F nd"

definition first_leaf :: "'f fl \<Rightarrow> 'f part \<Rightarrow> 'f node_data \<Rightarrow> 'f node_data" where
  "first_leaf F p nd = nd\<lparr>nd_predict_val := fl_div F (fl_sum F (pt_grad p)) (fl_int F (int (length (pt_grad p)))), nd_is_leaf := True\<rparr>"

text \<open>Steps 6 and 7; \<open>None\<close> when the fuel is used up.\<close>

fun first_train ::
  "nat \<Rightarrow> 'f fl \<Rightarrow> ('f, 'm) kv_ops \<Rightarrow> 'f part \<Rightarrow> 'f params list \<Rightarrow> 'f node_data \<Rightarrow> int \<times> 'm \<Rightarrow> ('f gbdt_tree \<times> int \<times> 'm) res option"
where
  "first_train 0 F T p min_max nd s = None"
| "first_train (Suc n) F T p min_max nd s =
     (case first_train_node F T p min_max nd s of
        Inl e \<Rightarrow> Some (Inl e)
      | Inr (nd, s) \<Rightarrow>
          if first_check_to_stop F nd then Some (Inr (Tree_node (first_leaf F p nd) No_child No_child, s))
          else if nd_feat_id nd < 0 then Some (Inl Out_of_bounds)
          else
            (case first_split (fl_lt F) (nat (nd_feat_id nd)) (nd_split_val nd) p (fresh_part 0) (fresh_part 0) of
               Inl e \<Rightarrow> Some (Inl e)
             | Inr (left, right) \<Rightarrow>
                 let child = (first_node F (nd_params nd))\<lparr>nd_depth := nd_depth nd + 1\<rparr>
                 in (case first_train n F T left min_max child s of
                       Some (Inr (l, s)) \<Rightarrow>
                         (case first_train n F T right min_max child s of
                            Some (Inr (r, s)) \<Rightarrow> Some (Inr (Tree_node nd l r, s))
                          | Some (Inl e) \<Rightarrow> Some (Inl e)
                          | None \<Rightarrow> None)
                     | Some (Inl e) \<Rightarrow> Some (Inl e)
                     | None \<Rightarrow> None)))"

definition first_predict :: "'f fl \<Rightarrow> 'f list \<Rightarrow> 'f gbdt_tree \<Rightarrow> 'f res" where
  "first_predict F row t = tree_predict F row t"

section \<open>The forest\<close>

record 'f first_controller =
  fc_ps_key_ptr :: int
  fc_options :: "(string, string) omap"
  fc_params :: "'f params"
  fc_forest :: "'f gbdt_tree list"

definition first_controller_new :: "'f first_controller" where
  "first_controller_new = \<lparr>fc_ps_key_ptr = 0, fc_options = [], fc_params = [], fc_forest = []\<rparr>"

definition first_init :: "(string, string) omap \<Rightarrow> 'f params \<Rightarrow> 'f first_controller \<Rightarrow> 'f first_controller" where
  "first_init options ps c = c\<lparr>fc_options := options, fc_params := ps\<rparr>"

definition first_build_tree ::
  "nat \<Rightarrow> 'f fl \<Rightarrow> ('f, 'm) kv_ops \<Rightarrow> 'f part \<Rightarrow> 'f params list \<Rightarrow> 'f first_controller \<times> 'm \<Rightarrow> ('f gbdt_tree \<times> 'f first_controller \<times> 'm) res option"
where
  "first_build_tree d F T p min_max = (\<lambda>(c, m).
     map_option (\<lambda>r. bind_res r (\<lambda>(t, ptr, m). Inr (t, c\<lparr>fc_ps_key_ptr := ptr\<rparr>, m)))
       (first_train d F T p min_max (first_node F (fc_params c)) (fc_ps_key_ptr c, m)))"

definition first_gradient_vect :: "'f fl \<Rightarrow> 'f list \<Rightarrow> 'f list \<Rightarrow> string \<Rightarrow> int \<Rightarrow> 'f list res" where
  "first_gradient_vect F classes ests loss order = get_gradient_vect F classes ests loss order"

definition first_update_estimators :: "'f fl \<Rightarrow> 'f gbdt_tree \<Rightarrow> 'f list \<Rightarrow> 'f list list \<Rightarrow> 'f list res" where
  "first_update_estimators F t ests feats =
     map_res (\<lambda>i. bind_res (first_row feats i) (\<lambda>row. bind_res (first_predict F row t) (\<lambda>v. Inr (fl_add F (ests ! i) v)))) [0..<length ests]"

text \<open>The loop over the trees, with the value of \<open>estimator_vect[38]\<close> that it logs after each.\<close>

fun first_forest_loop ::
  "nat \<Rightarrow> nat \<Rightarrow> 'f fl \<Rightarrow> ('f, 'm) kv_ops \<Rightarrow> 'f list \<Rightarrow> 'f list list \<Rightarrow> 'f params list \<Rightarrow> int \<Rightarrow> 'f list \<Rightarrow> 'f first_controller \<times> 'm
    \<Rightarrow> ('f list \<times> 'f list \<times> 'f first_controller \<times> 'm) res option"
where
  "first_forest_loop 0 d F T classes feats min_max i ests s = None"
| "first_forest_loop (Suc n) d F T classes feats min_max i ests s =
     (if \<not> fl_lt F (fl_int F i) (param F (fc_params (fst s)) ''num_of_trees'') then Some (Inr ([], ests, s))
      else
        let loss = get_or '''' (om_get (fc_options (fst s)) ''loss_function'') in
        case (first_gradient_vect F classes ests loss 1, first_gradient_vect F classes ests loss 2) of
          (Inr grad, Inr hess) \<Rightarrow>
            (case first_build_tree d F T \<lparr>pt_grad = grad, pt_hess = hess, pt_feats = feats\<rparr> min_max s of
               None \<Rightarrow> None
             | Some (Inl e) \<Rightarrow> Some (Inl e)
             | Some (Inr (t, c, m)) \<Rightarrow>
                 (case bind_res (first_update_estimators F t ests feats) (\<lambda>ests. bind_res (vec_at ests 38) (\<lambda>v. Inr (v, ests))) of
                    Inl e \<Rightarrow> Some (Inl e)
                  | Inr (v, ests) \<Rightarrow>
                      map_option (\<lambda>r. bind_res r (\<lambda>(vs, out). Inr (v # vs, out)))
                        (first_forest_loop n d F T classes feats min_max (i + 1) ests (c\<lparr>fc_forest := fc_forest c @ [t]\<rparr>, m))))
        | _ \<Rightarrow> Some (Inl Out_of_bounds))"

definition first_build_forest ::
  "nat \<Rightarrow> nat \<Rightarrow> 'f fl \<Rightarrow> ('f, 'm) kv_ops \<Rightarrow> 'f list \<Rightarrow> 'f list list \<Rightarrow> 'f params list \<Rightarrow> 'f first_controller \<times> 'm
    \<Rightarrow> ('f list \<times> 'f list \<times> 'f first_controller \<times> 'm) res option"
where
  "first_build_forest n d F T classes feats min_max s =
     first_forest_loop n d F T classes feats min_max 0 (replicate (length classes) (fl_int F 0)) s"

section \<open>The program\<close>

definition first_create_table :: "bool \<Rightarrow> int \<Rightarrow> 'v val_type \<Rightarrow> ('v, 'c) engine \<Rightarrow> ('v, 'c) engine res" where
  "first_create_table debug junk V e =
     bind_res (u64_ranges 10000 (int (length (en_nodes e)))) (\<lambda>ranges. create_table debug junk V 0 ranges SSP Store_map 0 0 Rec_none e)"

text \<open>\<open>complexity\<close> and \<open>fraction\<close> are 0.05 and 0.1 as a \<open>float\<close>.\<close>

definition first_params :: "'f fl \<Rightarrow> 'f \<Rightarrow> 'f \<Rightarrow> nat \<Rightarrow> 'f params" where
  "first_params F complexity fraction data_num =
     fold (\<lambda>(k, v). om_set k v)
       [(''num_of_trees'', fl_int F 6), (''max_depth'', fl_int F 3), (''complexity_of_leaf'', complexity),
        (''rank_fraction'', fraction), (''total_data_num'', fl_int F (int data_num))] []"

text \<open>The lambda of the task, for three workers; it cuts the share of the worker and then trains on all the records.\<close>

definition first_worker ::
  "nat \<Rightarrow> nat \<Rightarrow> 'f fl \<Rightarrow> ('f, 'm) kv_ops \<Rightarrow> 'f \<Rightarrow> 'f \<Rightarrow> 'f data_loader \<Rightarrow> int \<Rightarrow> 'm \<Rightarrow> ('f list \<times> 'f list \<times> 'f first_controller \<times> 'm) res option"
where
  "first_worker n d F T complexity fraction dl wid m =
     (case bind_res (vec_at (dl_feats dl) 0) (\<lambda>col. bind_res (distribute_data (int (length col)) wid 3 (dl_class dl) [] (dl_feats dl)
             (replicate (length (dl_feats dl)) [])) (\<lambda>_. Inr (length col))) of
        Inl e \<Rightarrow> Some (Inl e)
      | Inr data_num \<Rightarrow>
          first_build_forest n d F T (dl_class dl) (dl_feats dl) (map (find_min_max F) (dl_feats dl))
            (first_init [(''loss_function'', ''square_error'')] (first_params F complexity fraction data_num) first_controller_new, m))"

section \<open>Training leaves the table as it was\<close>

text \<open>A table whose \<open>Add\<close> is followed by \<open>Clock\<close> and whose \<open>Get\<close> is not.\<close>

definition get_only :: "('f, 'm) kv_ops \<Rightarrow> ('f, 'm) kv_ops" where
  "get_only T = T\<lparr>kv_add := (\<lambda>ks vs m. bind_res (kv_add T ks vs m) (kv_clock T)), kv_clock := (\<lambda>m. Inr m)\<rparr>"

lemma get_only_simps: "add_clock (get_only T) kvs m = add_clock T kvs m" "get_clock (get_only T) ks m = kv_get T ks m"
  by (auto simp: get_only_def add_clock_def get_clock_def bind_res_def split: sum.splits)

lemma first_split_step_is: "first_split_step F T = split_step F (get_only T)"
  by (rule ext)+ (simp add: first_split_step_def split_step_def get_only_simps first_local_grad_hess_def first_best_split_def)

lemma first_candidates_length: "first_candidates F hist fraction width reach scale cs prev = Inr cands \<Longrightarrow> length cands = length cs"
  by (induction cs arbitrary: prev cands) (auto simp: res_simps)

lemma first_candidate_split_length: "first_candidate_split F ps hist mm = Inr cands \<Longrightarrow> length cands = nat (rank_num_of F ps - 1)"
  by (auto simp: first_candidate_split_def Let_def res_simps dest: first_candidates_length)

lemma first_sketch_step_obtain:
  assumes "first_sketch_step F T p mm nd (ptr, m) = Inr (cands, nd', ptr', m')"
  obtains kvs m1 vs where "handed ptr kvs ptr'" "add_clock T kvs m = Inr m1" "kv_get T (concat (map fst (nd_sketches nd @ kvs))) m1 = Inr (vs, m')"
    "nd' = nd\<lparr>nd_sketches := nd_sketches nd @ kvs\<rparr>" "length cands = length (pt_feats p)"
    "\<forall>c \<in> set cands. length c = nat (rank_num_of F (nd_params nd) - 1)"
proof -
  let ?push = "\<lambda>(feats, mm) ptr. first_quantile_sketch F (nd_params nd) ptr feats mm"
  obtain kvs m1 vs per where push: "push_each ?push (zip (pt_feats p) mm) ptr = Inr (kvs, ptr')"
    and tab: "add_clock T kvs m = Inr m1" "kv_get T (concat (map fst (nd_sketches nd @ kvs))) m1 = Inr (vs, m')"
    and cands: "map_res (\<lambda>f. bind_res (subvector vs (int f * per) ((int f + 1) * per)) (\<lambda>hist.
        first_candidate_split F (nd_params nd) hist (mm ! f))) [0..<length (pt_feats p)] = Inr cands"
    and nd': "nd' = nd\<lparr>nd_sketches := nd_sketches nd @ kvs\<rparr>"
    using assms by (auto simp: first_sketch_step_def res_simps Let_def split: prod.splits)
  have keys: "handed ptr kvs ptr' \<and> ptr' = ptr + int (length (zip (pt_feats p) mm) * nat (sketch_num_of (first_fl F) (nd_params nd)))"
    by (rule push_each_handed[OF push]) (auto simp: first_quantile_sketch_def dest!: push_quantile_sketch_keys)
  from cands have all: "list_all2 (\<lambda>f c. \<exists>hist. first_candidate_split F (nd_params nd) hist (mm ! f) = Inr c) [0..<length (pt_feats p)] cands"
    unfolding map_res_Inr_iff by (rule list_all2_mono) (auto simp: res_simps)
  then have n: "length cands = length (pt_feats p)" by (auto dest: list_all2_lengthD)
  have w: "\<forall>c \<in> set cands. length c = nat (rank_num_of F (nd_params nd) - 1)"
    using list_all2_set2[OF all] first_candidate_split_length by blast
  show ?thesis by (rule that[of kvs m1 vs]) (use keys tab nd' n w in blast)+
qed

text \<open>One call of \<open>train\<close> that gives a tree.\<close>

lemma first_train_Suc_cases:
  assumes "first_train (Suc n) F T p mm nd s = Some (Inr (t, s'))"
  obtains (leaf) nd' where "first_train_node F T p mm nd s = Inr (nd', s')" "first_check_to_stop F nd'"
      "t = Tree_node (first_leaf F p nd') No_child No_child"
  | (inner) nd' s1 left right l s2 r where "first_train_node F T p mm nd s = Inr (nd', s1)" "\<not> first_check_to_stop F nd'" "0 \<le> nd_feat_id nd'"
      "first_split (fl_lt F) (nat (nd_feat_id nd')) (nd_split_val nd') p (fresh_part 0) (fresh_part 0) = Inr (left, right)"
      "first_train n F T left mm ((first_node F (nd_params nd'))\<lparr>nd_depth := nd_depth nd' + 1\<rparr>) s1 = Some (Inr (l, s2))"
      "first_train n F T right mm ((first_node F (nd_params nd'))\<lparr>nd_depth := nd_depth nd' + 1\<rparr>) s2 = Some (Inr (r, s'))"
      "t = Tree_node nd' l r"
  using assms by (auto simp: Let_def split: sum.splits prod.splits if_splits option.splits)

lemma first_train_node_keeps:
  assumes "first_train_node F T p mm nd s = Inr (nd', s')"
  shows "same_node (length (pt_feats p)) nd nd'" "fst s' = 0"
proof -
  obtain cands nd1 s1 ptr m m' where steps: "first_sketch_step F T p mm nd s = Inr (cands, nd1, s1)"
    "split_step F (get_only T) p cands nd1 s1 = Inr (nd', ptr, m)" and s': "s' = (0, m')"
    using assms unfolding first_train_node_def first_split_step_is by (auto simp: res_simps split: prod.splits)
  obtain kvs where "nd1 = nd\<lparr>nd_sketches := kvs\<rparr>"
    using steps(1) by (cases s, cases s1) (auto elim!: first_sketch_step_obtain)
  then show "same_node (length (pt_feats p)) nd nd'" "fst s' = 0" using split_step_keeps[OF steps(2)] by (simp_all add: same_node_def s')
qed

context exact_table
begin

lemma get_only_exact: "exact_table (get_only T) cells inv"
proof
  fix m m' and ks :: "u32 list" and vs
  assume m: "inv m" "length ks = length vs" "kv_add (get_only T) ks vs m = Inr m'"
  then obtain m1 where m1: "kv_add T ks vs m = Inr m1" "kv_clock T m1 = Inr m'" by (auto simp: get_only_def res_simps)
  show "inv m' \<and> cells m' = (\<lambda>k. cells m k + Gbdt_Table.pushed ks vs k)"
    using add_exact[OF m(1,2) m1(1)] clock_exact[OF _ m1(2)] by simp
next
  fix m m' and ks :: "u32 list" and vs
  assume "inv m" "kv_get (get_only T) ks m = Inr (vs, m')"
  then show "inv m' \<and> cells m' = cells m \<and> vs = map (cells m) ks" using get_exact[of m ks vs m'] by (simp add: get_only_def)
next
  fix m m'
  assume "inv m" "kv_clock (get_only T) m = Inr m'"
  then show "inv m' \<and> cells m' = cells m" by (simp add: get_only_def)
qed

lemma first_sketch_step_holds:
  assumes "first_sketch_step F T p mm nd (ptr, m) = Inr (cands, nd', ptr', m')" "holds base nd m"
  shows "holds base nd' m'"
proof -
  obtain kvs m1 vs where s: "handed ptr kvs ptr'" "add_clock T kvs m = Inr m1"
    "kv_get T (concat (map fst (nd_sketches nd @ kvs))) m1 = Inr (vs, m')" "nd' = nd\<lparr>nd_sketches := nd_sketches nd @ kvs\<rparr>"
    using first_sketch_step_obtain[OF assms(1)] by metis
  have inv: "inv m" "even_pushes kvs" using assms(2) handed_even[OF s(1)] by (simp_all add: holds_def)
  note a = add_clock_exact[OF inv s(2)]
  have g: "inv m'" "cells m' = cells m1" using get_exact[OF a(1) s(3)] by simp_all
  have "even_pushes (node_pushes nd')" using assms(2) inv(2) by (auto simp: holds_def node_pushes_def s(4))
  moreover have "pushed_all (node_pushes nd') k = pushed_all (node_pushes nd) k + pushed_all kvs k" for k
    by (simp add: node_pushes_def s(4) ac_simps)
  ultimately show ?thesis using assms(2) g a(2) by (simp add: holds_def ac_simps)
qed

lemma first_reset_step_restores:
  assumes "first_reset_step F T nd m = Inr m'" "fl_neg F = uminus" "holds base nd m" "nd_grad_sum nd = ([], [])"
  shows "inv m'" "cells m' = base"
proof -
  let ?kvs = "nd_sketches nd @ nd_grad_hess nd"
  have h: "inv m" "even_pushes ?kvs" "cells m = (\<lambda>k. base k + pushed_all ?kvs k)"
    using assms(3,4) by (auto simp: holds_def node_pushes_def)
  have "add_clock T (map (\<lambda>(ks, vs). (ks, map uminus vs)) ?kvs) m = Inr m'" using assms(1,2) by (simp add: first_reset_step_def)
  note a = add_clock_exact[OF h(1) _ this]
  show "inv m'" "cells m' = base" using a h(2,3) by (simp_all only: even_pushes_map pushed_all_uminus) simp
qed

lemma first_train_node_restores:
  assumes "first_train_node F T p mm nd (ptr, m) = Inr (nd', ptr', m')" "fl_neg F = uminus" "fresh_node nd" "inv m"
  shows "inv m'" "cells m' = cells m"
proof -
  obtain cands nd1 ptr1 m1 ptr2 m2 where steps: "first_sketch_step F T p mm nd (ptr, m) = Inr (cands, nd1, ptr1, m1)"
    "split_step F (get_only T) p cands nd1 (ptr1, m1) = Inr (nd', ptr2, m2)" "first_reset_step F T nd' m2 = Inr m'"
    using assms(1) unfolding first_train_node_def first_split_step_is by (auto simp: res_simps split: prod.splits)
  have "holds (cells m) nd m" using assms(3,4) by (simp add: holds_def fresh_node_def node_pushes_def)
  from first_sketch_step_holds[OF steps(1) this] have h1: "holds (cells m) nd1 m1" .
  obtain w where w: "length cands = length (pt_feats p)" "\<forall>c \<in> set cands. length c = w" and g1: "nd_grad_sum nd1 = nd_grad_sum nd"
    by (rule first_sketch_step_obtain[OF steps(1)]) auto
  have h2: "holds (cells m) nd' m2"
    by (rule exact_table.split_step_holds[OF get_only_exact steps(2) w h1])
  have "nd_grad_sum nd' = ([], [])" using split_step_obtain[OF steps(2) w] g1 assms(3) by (metis fresh_node_def)
  from first_reset_step_restores[OF steps(3) assms(2) h2 this] show "inv m'" "cells m' = cells m" by blast+
qed

lemma first_train_restores:
  assumes "first_train n F T p mm nd (ptr, m) = Some (Inr (t, ptr', m'))" "fl_neg F = uminus" "fresh_node nd" "inv m"
  shows "inv m' \<and> cells m' = cells m"
  using assms
proof (induction n arbitrary: p nd ptr m t ptr' m')
  case (Suc n)
  have fresh: "fresh_node ((first_node F ps)\<lparr>nd_depth := d\<rparr>)" for ps d by (simp add: fresh_node_def first_node_def node_new_def)
  from Suc.prems(1) show ?case
  proof (cases rule: first_train_Suc_cases)
    case (leaf nd')
    then show ?thesis using first_train_node_restores[OF leaf(1) Suc.prems(2-4)] by blast
  next
    case (inner nd' s1 left right l s2 r)
    obtain ptr1 m1 ptr2 m2 where s: "s1 = (ptr1, m1)" "s2 = (ptr2, m2)" by (cases s1, cases s2)
    note n = first_train_node_restores[OF inner(1)[unfolded s] Suc.prems(2-4)]
    have l: "inv m2 \<and> cells m2 = cells m1" by (rule Suc.IH[OF inner(5)[unfolded s] Suc.prems(2) fresh n(1)])
    have "inv m' \<and> cells m' = cells m2" by (rule Suc.IH[OF inner(6)[unfolded s] Suc.prems(2) fresh]) (use l in blast)
    then show ?thesis using l n(2) by simp
  qed
qed simp

end

text \<open>On one server's storage of 32-bit values.\<close>

lemma first_training_restores:
  assumes "first_train n F (storage_table u32_val) p mm (first_node F ps) (ptr, st) = Some (Inr (t, ptr', st'))" "fl_neg F = uminus" "storage_inv st"
  shows "storage_inv st' \<and> storage_view u32_val st' = storage_view u32_val st"
  by (rule u32_table.first_train_restores[OF assms(1,2) _ assms(3)]) (simp add: fresh_node_def first_node_def node_new_def)

section \<open>Trees are well formed, training ends\<close>

lemma first_train_tree_ok:
  assumes "first_train n F T p mm nd s = Some (Inr (t, s'))" "part_ok p" "\<not> nd_is_leaf nd" "nd_feat_id nd < int (length (pt_feats p))"
  shows "tree_ok F (length (pt_feats p)) (nd_params nd) (nd_depth nd) t \<and> fst s' = 0"
  using assms
proof (induction n arbitrary: p nd s t s')
  case (Suc n)
  from Suc.prems(1) show ?case
  proof (cases rule: first_train_Suc_cases)
    case (leaf nd')
    then show ?thesis
      using first_train_node_keeps[OF leaf(1)] by (simp add: same_node_def first_check_to_stop_def check_to_stop_def first_leaf_def)
  next
    case (inner nd' s1 left right l s2 r)
    have nd': "same_node (length (pt_feats p)) nd nd'" using first_train_node_keeps[OF inner(1)] by simp
    let ?child = "(first_node F (nd_params nd'))\<lparr>nd_depth := nd_depth nd' + 1\<rparr>"
    have c: "\<not> nd_is_leaf ?child" "nd_feat_id ?child < int k" "nd_params ?child = nd_params nd" "nd_depth ?child = nd_depth nd + 1" for k
      using nd' by (simp_all add: first_node_def node_new_def same_node_def)
    have "nat (nd_feat_id nd') < length (pt_feats p)" using inner(3) nd' Suc.prems(4) by (auto simp: same_node_def)
    from split_parts[OF Suc.prems(2) this, of "fl_lt F" "nd_split_val nd'"]
    have parts: "part_ok left" "part_ok right" "length (pt_feats left) = length (pt_feats p)" "length (pt_feats right) = length (pt_feats p)"
      using inner(4) by (auto simp: first_split_def)
    show ?thesis
      using Suc.IH[OF inner(5) parts(1) c(1,2)] Suc.IH[OF inner(6) parts(2) c(1,2)] inner(2,3,7) nd' Suc.prems(3,4)
      unfolding c(3,4) parts(3,4) by (simp add: same_node_def first_check_to_stop_def)
  qed
qed simp

lemma first_training_ends:
  assumes depth: "\<And>d. 0 \<le> d \<Longrightarrow> fl_le F (fl_int F D) (fl_int F d) \<longleftrightarrow> D \<le> d"
    and "param F (nd_params nd) ''max_depth'' = fl_int F D" "0 \<le> nd_depth nd" "depth_left D nd < n"
  shows "\<exists>r. first_train n F T p mm nd s = Some r"
  using assms(2-)
proof (induction n arbitrary: p nd s)
  case (Suc n)
  show ?case
  proof (cases "first_train_node F T p mm nd s")
    case (Inr r)
    obtain nd' s1 where r: "r = (nd', s1)" by (cases r)
    have nd': "nd_params nd' = nd_params nd" "nd_depth nd' = nd_depth nd"
      using first_train_node_keeps(1)[OF Inr[unfolded r]] by (simp_all add: same_node_def)
    have stop: "first_check_to_stop F nd' \<longleftrightarrow> D \<le> nd_depth nd"
      using depth[OF Suc.prems(2)] Suc.prems(1) by (simp add: first_check_to_stop_def check_to_stop_def nd')
    have IH: "\<exists>r. first_train n F T q mm ((first_node F (nd_params nd))\<lparr>nd_depth := nd_depth nd + 1\<rparr>) s' = Some r" if "\<not> D \<le> nd_depth nd" for q s'
      by (rule Suc.IH) (use Suc.prems that in \<open>simp_all add: first_node_def node_new_def depth_left_def\<close>)
    show ?thesis
    proof (cases "D \<le> nd_depth nd")
      case False
      have no: "first_train n F T q mm ((first_node F (nd_params nd))\<lparr>nd_depth := nd_depth nd + 1\<rparr>) s' \<noteq> None" for q s'
        using IH[OF False] by simp
      show ?thesis by (auto simp: Inr r stop nd' False no Let_def split: sum.split prod.split option.split)
    qed (simp add: Inr r stop)
  qed simp
qed simp

section \<open>A forest of few records\<close>

text \<open>\<open>estimator_vect[38]\<close> is logged after each tree: with fewer than 39 records no forest with a tree is ever built.\<close>

lemma first_forest_needs_39:
  assumes "length classes < 39" "fl_lt F (fl_int F 0) (param F (fc_params c) ''num_of_trees'')"
  shows "first_build_forest n d F T classes feats mm (c, m) \<noteq> Some (Inr out)"
proof (cases n)
  case (Suc k)
  have no: "bind_res (first_update_estimators F t (replicate (length classes) (fl_int F 0)) feats) (\<lambda>ests. bind_res (vec_at ests 38) (\<lambda>v. Inr (v, ests))) \<noteq> Inr r" for t r
    using assms(1) by (auto simp: res_simps first_update_estimators_def vec_at_def map_res_Inr_iff dest: list_all2_lengthD split: if_splits)
  show ?thesis
    using assms(2) no by (auto simp: first_build_forest_def Suc Let_def split: sum.splits option.splits prod.splits)
qed (simp add: first_build_forest_def)

section \<open>The workers do the same\<close>

text \<open>The share of a worker is cut and not used, so every worker puts the same records into the sums of the table.\<close>

lemma first_workers_alike:
  assumes "dl_ok dl" "dl_feats dl \<noteq> []" "length (dl_class dl) < 2147483648" "i < 3" "j < 3"
  shows "first_worker n d F T complexity fraction dl (int i) m = first_worker n d F T complexity fraction dl (int j) m"
proof -
  have col: "vec_at (dl_feats dl) 0 = Inr (dl_feats dl ! 0)" "length (dl_feats dl ! 0) = length (dl_class dl)"
    using assms(1,2) by (simp_all add: vec_at_def dl_ok_def)
  have "\<exists>part. distribute_data (int (length (dl_class dl))) (int k) 3 (dl_class dl) [] (dl_feats dl) (replicate (length (dl_feats dl)) []) = Inr part" if "k < 3" for k
    using worker_part_ok[OF assms(1) that assms(3)] by (simp add: worker_part_def)
  then obtain a b where "distribute_data (int (length (dl_class dl))) (int i) 3 (dl_class dl) [] (dl_feats dl) (replicate (length (dl_feats dl)) []) = Inr a"
    "distribute_data (int (length (dl_class dl))) (int j) 3 (dl_class dl) [] (dl_feats dl) (replicate (length (dl_feats dl)) []) = Inr b"
    using assms(4,5) by blast
  then show ?thesis by (simp add: first_worker_def col)
qed

end
