(* ===== verification/Basic_Program.thy ===== *)
theory Basic_Program
  imports Complex_Main Kmeans_Program
begin

text \<open>
  \<open>examples2/basic_example.cpp\<close> and \<open>examples2/sgd/sgd_example.cpp\<close>: programs that fit a linear model on the engine.  The
  first pulls all parameters in every iteration, adds the steps of the points of its job, which rapid reassignment may
  cut or extend, and pushes their mean; the second hands its flags to the optimizer of \<open>Sgd\<close>.
\<close>

section \<open>Flags and table\<close>

text \<open>\<open>bf_alpha\<close> and \<open>bf_threshold\<close> are \<open>FLAGS_alpha\<close> and \<open>FLAGS_threshold*FLAGS_batch_size\<close> as a \<open>float\<close>.\<close>

record 'f basic_flags =
  bf_num_dims :: u64
  bf_num_iters :: int
  bf_staleness :: int
  bf_workers :: u32
  bf_servers :: int
  bf_batch_size :: int
  bf_alpha :: 'f
  bf_reassgn_mode :: int
  bf_group_mode :: int
  bf_threshold :: rat

text \<open>The flags for the kind of table are not read.\<close>

definition basic_create_table :: "bool \<Rightarrow> int \<Rightarrow> 'v val_type \<Rightarrow> 'f basic_flags \<Rightarrow> ('v, 'c) engine \<Rightarrow> ('v, 'c) engine res" where
  "basic_create_table debug junk V fl e =
     bind_res (u64_ranges (bf_num_dims fl + 1) (to_i32 (of_nat (length (en_nodes e)) * to_u32 (bf_servers fl)))) (\<lambda>ranges.
       create_table debug junk V 0 ranges SSP Store_map (bf_staleness fl) 0 Rec_none e)"

definition basic_reassignment ::
  "(u32 \<Rightarrow> u32 \<Rightarrow> u32 list \<times> (u32, u32) omap) \<Rightarrow> nat list \<Rightarrow> bool \<Rightarrow> 'f basic_flags \<Rightarrow> nat \<Rightarrow> u32 \<Rightarrow> mailbox \<Rightarrow> (rapid \<times> mailbox) res"
where
  "basic_reassignment channel_threads qs junk fl num_nodes nid mb =
     (let rr = rr_new (of_nat num_nodes) (bf_workers fl) (bf_workers fl * of_nat num_nodes) nid
      in bind_res (rr_start channel_threads qs junk (set_group_mode (to_u32 (bf_group_mode fl)) rr) mb) (\<lambda>(rr, mb).
           Inr (set_steal_threshold (bf_threshold fl) rr, mb)))"

section \<open>A worker\<close>

definition basic_predict :: "'f fl \<Rightarrow> int \<Rightarrow> 'f list \<Rightarrow> (int \<times> 'f) list \<Rightarrow> 'f res" where
  "basic_predict F num_params params x =
     bind_res (fold_res (\<lambda>(f, v) s. bind_res (vect_at_int params f) (\<lambda>p. Inr (fl_add F s (fl_mul F p v)))) x (fl_int F 0)) (\<lambda>s.
     bind_res (vect_at_int params (num_params - 1)) (\<lambda>b. Inr (fl_add F s b)))"

definition basic_point :: "'f fl \<Rightarrow> 'f sgd_fl \<Rightarrow> 'f \<Rightarrow> int \<Rightarrow> 'f list \<Rightarrow> 'f point \<Rightarrow> 'f list \<Rightarrow> 'f list res" where
  "basic_point F G alpha num_params params = (\<lambda>(x, y) steps.
     bind_res (basic_predict F num_params params x) (\<lambda>p.
       let e = fl_sub F (clip_label F y) (sg_sigmoid G p)
       in bind_res (fold_res (\<lambda>(f, v). put_at f (\<lambda>d. fl_add F d (fl_mul F (fl_mul F alpha v) e))) x steps)
            (put_at (num_params - 1) (\<lambda>d. fl_add F d (fl_mul F alpha e)))))"

text \<open>An iteration: the job is announced, the parameters are pulled, the steps summed, divided and pushed.\<close>

definition basic_iteration ::
  "nat \<Rightarrow> flag \<Rightarrow> 'b sarray_stream \<Rightarrow> (nat \<Rightarrow> nat \<Rightarrow> message list \<times> job_manager \<Rightarrow> job_manager option) \<Rightarrow> 'f fl \<Rightarrow> 'f sgd_fl
    \<Rightarrow> ('f, 'm) kv_ops \<Rightarrow> (nat \<Rightarrow> nat) \<Rightarrow> 'f basic_flags \<Rightarrow> int \<Rightarrow> 'f point list \<Rightarrow> nat \<Rightarrow> job_manager \<times> 'm \<Rightarrow> (job_manager \<times> 'm) res option"
where
  "basic_iteration n other S outside F G T rnd fl num_params dat iter = (\<lambda>(jo, m).
     let keys = km_keys (nat num_params) in
     case bind_res (batch_start rnd (bf_batch_size fl) dat iter) (\<lambda>start. bind_res (kv_get T keys m) (\<lambda>(params, m). Inr (start, params, m))) of
       Inl e \<Rightarrow> Some (Inl e)
     | Inr (start, params, m) \<Rightarrow>
         map_option (\<lambda>r. bind_res r (\<lambda>(jo, steps).
             bind_res (kv_add T keys (map (\<lambda>d. fl_div F d (fl_int F (bf_batch_size fl))) steps) m) (\<lambda>m.
             bind_res (kv_clock T m) (\<lambda>m.
             check_that (length params = length keys) (Check_failed ''params.size()'') (Inr (jo, m))))))
           (job_loop n other S (outside iter) (basic_point F G (bf_alpha fl) num_params params) dat 0 start
             (announce (bf_batch_size fl) iter start jo, replicate (nat num_params) (fl_int F 0))))"

fun basic_iterations ::
  "nat \<Rightarrow> flag \<Rightarrow> 'b sarray_stream \<Rightarrow> (nat \<Rightarrow> nat \<Rightarrow> message list \<times> job_manager \<Rightarrow> job_manager option) \<Rightarrow> 'f fl \<Rightarrow> 'f sgd_fl
    \<Rightarrow> ('f, 'm) kv_ops \<Rightarrow> (nat \<Rightarrow> nat) \<Rightarrow> 'f basic_flags \<Rightarrow> int \<Rightarrow> 'f point list \<Rightarrow> nat list \<Rightarrow> job_manager \<times> 'm \<Rightarrow> (job_manager \<times> 'm) res option"
where
  "basic_iterations n other S outside F G T rnd fl num_params dat [] s = Some (Inr s)"
| "basic_iterations n other S outside F G T rnd fl num_params dat (iter # iters) s =
     (case basic_iteration n other S outside F G T rnd fl num_params dat iter s of
        Some (Inr s) \<Rightarrow> basic_iterations n other S outside F G T rnd fl num_params dat iters s
      | r \<Rightarrow> r)"

text \<open>The lambda of the task; the number of dimensions is converted to \<open>int\<close>, and a vector of negative size throws.\<close>

definition basic_worker ::
  "nat \<Rightarrow> flag \<Rightarrow> 'b sarray_stream \<Rightarrow> (nat \<Rightarrow> nat \<Rightarrow> message list \<times> job_manager \<Rightarrow> job_manager option) \<Rightarrow> 'f fl \<Rightarrow> 'f sgd_fl
    \<Rightarrow> ('f, 'm) kv_ops \<Rightarrow> (nat \<Rightarrow> nat) \<Rightarrow> 'f basic_flags \<Rightarrow> 'f point list \<Rightarrow> rapid \<Rightarrow> u32 \<Rightarrow> 'm \<Rightarrow> (job_manager \<times> 'm) res option"
where
  "basic_worker n other S outside F G T rnd fl dat rr wid m =
     (case bind_res (as_i32 (to_i32 (ucast (bf_num_dims fl)) + 1)) (\<lambda>num_params.
           check_that (0 \<le> num_params) Out_of_range_exception (bind_res (get_job_manager wid rr) (\<lambda>jo. Inr (num_params, jo)))) of
        Inl e \<Rightarrow> Some (Inl e)
      | Inr (num_params, jo) \<Rightarrow>
          basic_iterations n other S outside F G T rnd fl num_params dat [0..<nat (bf_num_iters fl)] (set_do_reassgn (bf_reassgn_mode fl \<noteq> 0) jo, m))"

section \<open>The program that calls the optimizer\<close>

record 'f sgd_flags =
  sf_num_dims :: u64
  sf_num_iters :: int
  sf_model_type :: string
  sf_storage_type :: string
  sf_staleness :: int
  sf_workers :: u32
  sf_servers :: int
  sf_batch_size :: int
  sf_report_interval :: int
  sf_trainer :: string
  sf_lambda :: 'f

definition sgd_check_flags :: "'f sgd_flags \<Rightarrow> unit res" where
  "sgd_check_flags fl =
     check_that (sf_model_type fl = ''ASP'' \<or> sf_model_type fl = ''BSP'' \<or> sf_model_type fl = ''SSP'') (Check_failed ''FLAGS_kModelType'')
    (check_that (sf_storage_type fl = ''Map'' \<or> sf_storage_type fl = ''Vector'') (Check_failed ''FLAGS_kStorageType'')
    (check_that (0 < sf_num_dims fl) (Check_failed ''FLAGS_num_dims'')
    (check_that (0 < sf_num_iters fl) (Check_failed ''FLAGS_num_iters'')
    (check_that (0 \<le> sf_staleness fl \<and> sf_staleness fl \<le> 5) (Check_failed ''FLAGS_kStaleness'')
    (check_that (1 \<le> sf_workers fl \<and> sf_workers fl \<le> 20) (Check_failed ''FLAGS_num_workers_per_node'')
    (check_that (1 \<le> sf_servers fl \<and> sf_servers fl \<le> 20) (Check_failed ''FLAGS_num_servers_per_node'') (Inr ())))))))"

definition sgd_create_table :: "bool \<Rightarrow> int \<Rightarrow> 'v val_type \<Rightarrow> 'f sgd_flags \<Rightarrow> ('v, 'c) engine \<Rightarrow> ('v, 'c) engine res" where
  "sgd_create_table debug junk V fl e =
     bind_res (u64_ranges (sf_num_dims fl + 1) (to_i32 (of_nat (length (en_nodes e)) * to_u32 (sf_servers fl)))) (\<lambda>ranges.
     bind_res (if sf_model_type fl = ''SparseSSP'' then Inl (Check_failed ''model type error'') else model_type_of (sf_model_type fl)) (\<lambda>mt.
     bind_res (storage_type_of (sf_storage_type fl)) (\<lambda>st.
       create_table debug junk V 0 ranges mt st (sf_staleness fl) 0 Rec_none e)))"

definition sgd_objective :: "'f sgd_flags \<Rightarrow> 'f objective" where
  "sgd_objective fl =
     (if sf_trainer fl = ''lr'' then Sigmoid_objective else if sf_trainer fl = ''lasso'' then Lasso_objective (sf_lambda fl)
      else Svm_objective (sf_lambda fl))"

text \<open>\<open>rate\<close> is \<open>FLAGS_alpha / FLAGS_num_workers_per_node\<close> as a \<open>float\<close>.\<close>

definition sgd_config :: "'f \<Rightarrow> 'f sgd_flags \<Rightarrow> 'f optimizer_config" where
  "sgd_config rate fl = \<lparr>oc_num_iters = sf_num_iters fl, oc_num_features = to_i32 (ucast (sf_num_dims fl)),
     oc_num_workers_per_node = to_i32 (sf_workers fl), oc_alpha = rate, oc_batch_size = sf_batch_size fl\<rparr>"

definition sgd_task ::
  "'f fl \<Rightarrow> 'f sgd_fl \<Rightarrow> ('f \<Rightarrow> 'f) \<Rightarrow> ('f, 'm) kv_ops \<Rightarrow> (nat \<Rightarrow> nat) \<Rightarrow> 'f \<Rightarrow> bool \<Rightarrow> 'f sgd_flags \<Rightarrow> 'f point list \<Rightarrow> 'm \<Rightarrow> ('f list \<times> nat \<times> 'm) res"
where
  "sgd_task F G floor_alpha T rnd rate leader fl dat m =
     sgd_train F G floor_alpha T rnd (sgd_objective fl) (sf_report_interval fl) leader (sgd_config rate fl) dat 0 m"

section \<open>What a point adds\<close>

definition good_features :: "nat \<Rightarrow> 'f point \<Rightarrow> bool" where
  "good_features n p \<longleftrightarrow> (\<forall>(f, v) \<in> set (fst p). 0 \<le> f \<and> nat f < n)"

text \<open>What the code computes, parameter by parameter and with the arithmetic of the code: the score of a point, and the \<open>j\<close>-th
  step after a point, from the step \<open>d\<close> before it; the last parameter is the intercept.\<close>

definition score :: "'f fl \<Rightarrow> 'f list \<Rightarrow> 'f point \<Rightarrow> 'f" where
  "score F w p = fl_add F (fold (\<lambda>(f, v) s. fl_add F s (fl_mul F (w ! nat f) v)) (fst p) (fl_int F 0)) (w ! (length w - 1))"

definition point_step :: "'f fl \<Rightarrow> 'f sgd_fl \<Rightarrow> 'f \<Rightarrow> 'f list \<Rightarrow> nat \<Rightarrow> 'f point \<Rightarrow> 'f \<Rightarrow> 'f" where
  "point_step F G alpha w j p d =
     (let e = fl_sub F (clip_label F (snd p)) (sg_sigmoid G (score F w p));
          d = fold (\<lambda>(f, v) d. if f = int j then fl_add F d (fl_mul F (fl_mul F alpha v) e) else d) (fst p) d
      in if Suc j = length w then fl_add F d (fl_mul F alpha e) else d)"

text \<open>Without rounding it is the gradient step of logistic regression.\<close>

lemma point_step_exact:
  fixes F :: "'f::linordered_field fl"
  assumes "exact_fl F"
  shows "score F w p = (\<Sum>(f, v)\<leftarrow>fst p. w ! nat f * v) + w ! (length w - 1)"
    "point_step F G alpha w j p d
      = d + alpha * (coord p j + (if Suc j = length w then 1 else 0)) * (clip_label F (snd p) - sg_sigmoid G (score F w p))"
proof -
  have "fold (\<lambda>(f, v) s. s + w ! nat f * v) x s = s + (\<Sum>(f, v)\<leftarrow>x. w ! nat f * v)" for x s
    by (induction x arbitrary: s) (auto simp: add.assoc)
  then show "score F w p = (\<Sum>(f, v)\<leftarrow>fst p. w ! nat f * v) + w ! (length w - 1)" using assms by (simp add: score_def exact_fl_def)
  have ops: "fl_add F = (+)" "fl_sub F = (-)" "fl_mul F = (*)" using assms by (simp_all add: exact_fl_def)
  have feats: "fold (\<lambda>(f, v) d. if f = int j then d + alpha * v * e else d) x d = d + alpha * coord (x, y) j * e" for x e d and y :: 'f
    by (induction x arbitrary: d) (auto simp: coord_def algebra_simps)
  show "point_step F G alpha w j p d
      = d + alpha * (coord p j + (if Suc j = length w then 1 else 0)) * (clip_label F (snd p) - sg_sigmoid G (score F w p))"
    unfolding point_step_def Let_def ops feats[of _ "fst p" d "snd p"] by (simp add: algebra_simps)
qed

lemma basic_predict_score:
  assumes "good_features (length w) p" "w \<noteq> []"
  shows "basic_predict F (int (length w)) w (fst p) = Inr (score F w p)"
proof -
  have dot: "fold_res (\<lambda>(f, v) s. bind_res (vect_at_int w f) (\<lambda>p. Inr (fl_add F s (fl_mul F p v)))) x s
      = Inr (fold (\<lambda>(f, v) s. fl_add F s (fl_mul F (w ! nat f) v)) x s)"
    if "\<forall>(f, v) \<in> set x. 0 \<le> f \<and> nat f < length w" for x s
    using that by (induction x arbitrary: s) (auto simp: vect_at_int_def vec_at_def)
  have "vect_at_int w (int (length w) - 1) = Inr (w ! (length w - 1))"
    using assms(2) by (cases w) (simp_all add: vect_at_int_def vec_at_def)
  then show ?thesis using dot[of "fst p"] assms(1) by (simp add: basic_predict_def score_def good_features_def)
qed

lemma add_steps:
  "\<forall>(f, v) \<in> set x. 0 \<le> f \<and> nat f < n \<Longrightarrow> length steps = n
    \<Longrightarrow> fold_res (\<lambda>(f, v). put_at f (\<lambda>d. fl_add F d (g v))) x steps
      = Inr (map (\<lambda>j. fold (\<lambda>(f, v) d. if f = int j then fl_add F d (g v) else d) x (steps ! j)) [0..<n])"
proof (induction x arbitrary: steps)
  case Nil
  then show ?case by (auto intro: nth_equalityI)
next
  case (Cons q x)
  obtain f v where q: "q = (f, v)" "0 \<le> f" "nat f < n" using Cons.prems(1) by (cases q) auto
  let ?steps = "steps[nat f := fl_add F (steps ! nat f) (g v)]"
  have "?steps ! j = (if f = int j then fl_add F (steps ! j) (g v) else steps ! j)" if "j < n" for j
    using q(2,3) that Cons.prems(2) by (auto simp: nth_list_update)
  moreover have "fold_res (\<lambda>(f, v). put_at f (\<lambda>d. fl_add F d (g v))) x ?steps
      = Inr (map (\<lambda>j. fold (\<lambda>(f, v) d. if f = int j then fl_add F d (g v) else d) x (?steps ! j)) [0..<n])"
    by (rule Cons.IH) (use Cons.prems in simp_all)
  moreover have "put_at f (\<lambda>d. fl_add F d (g v)) steps = Inr ?steps" using q Cons.prems(2) by (simp add: put_at_def)
  ultimately show ?case by (simp add: q(1) cong: map_cong)
qed

lemma basic_point_adds:
  assumes "good_features (length w) p" "w \<noteq> []" "length steps = length w"
  shows "basic_point F G alpha (int (length w)) w p steps = Inr (map (\<lambda>j. point_step F G alpha w j p (steps ! j)) [0..<length w])"
proof -
  let ?n = "length w" and ?e = "fl_sub F (clip_label F (snd p)) (sg_sigmoid G (score F w p))"
  let ?s = "map (\<lambda>j. fold (\<lambda>(f, v) d. if f = int j then fl_add F d (fl_mul F (fl_mul F alpha v) ?e) else d) (fst p) (steps ! j)) [0..<?n]"
  have fold: "fold_res (\<lambda>(f, v). put_at f (\<lambda>d. fl_add F d (fl_mul F (fl_mul F alpha v) ?e))) (fst p) steps = Inr ?s"
    by (rule add_steps) (use assms(1,3) in \<open>simp_all add: good_features_def\<close>)
  have n: "nat (int ?n - 1) = ?n - 1" "0 < ?n" using assms(2) by (simp_all add: nat_diff_distrib)
  have "?s[?n - 1 := fl_add F (?s ! (?n - 1)) (fl_mul F alpha ?e)] = map (\<lambda>j. point_step F G alpha w j p (steps ! j)) [0..<?n]"
  proof (rule nth_equalityI)
    fix j assume j: "j < length (?s[?n - 1 := fl_add F (?s ! (?n - 1)) (fl_mul F alpha ?e)])"
    show "?s[?n - 1 := fl_add F (?s ! (?n - 1)) (fl_mul F alpha ?e)] ! j = map (\<lambda>j. point_step F G alpha w j p (steps ! j)) [0..<?n] ! j"
    proof (cases "Suc j = ?n")
      case True
      then have "?n - 1 = j" "j < ?n" by simp_all
      then show ?thesis using True by (simp add: point_step_def Let_def)
    next
      case False
      then have "?n - 1 \<noteq> j" "j < ?n" using j by simp_all
      then show ?thesis using False by (simp add: point_step_def Let_def)
    qed
  qed simp
  moreover have "put_at (int ?n - 1) (\<lambda>d. fl_add F d (fl_mul F alpha ?e)) ?s = Inr (?s[?n - 1 := fl_add F (?s ! (?n - 1)) (fl_mul F alpha ?e)])"
    using n by (simp add: put_at_def)
  ultimately show ?thesis
    using fold basic_predict_score[OF assms(1,2), of F] by (cases p) (simp add: basic_point_def Let_def)
qed

lemma basic_points_add:
  assumes "w \<noteq> []"
  shows "\<forall>p \<in> set pts. good_features (length w) p \<Longrightarrow> length steps = length w
    \<Longrightarrow> fold_res (basic_point F G alpha (int (length w)) w) pts steps = Inr (map (\<lambda>j. fold (point_step F G alpha w j) pts (steps ! j)) [0..<length w])"
proof (induction pts arbitrary: steps)
  case Nil
  then show ?case by (auto intro: nth_equalityI)
next
  case (Cons p pts)
  then show ?case by (simp add: basic_point_adds[OF _ assms] cong: map_cong)
qed

section \<open>What an iteration pushes\<close>

definition params_in :: "nat \<Rightarrow> (u32 \<Rightarrow> 'f) \<Rightarrow> 'f list" where
  "params_in n f = map (\<lambda>j. f (of_nat j)) [0..<n]"

text \<open>The model after an iteration that worked through \<open>c\<close> points; the sum is divided by the batch size of the flags, not by \<open>c\<close>.\<close>

definition batch_step ::
  "'f fl \<Rightarrow> 'f sgd_fl \<Rightarrow> (nat \<Rightarrow> nat) \<Rightarrow> 'f basic_flags \<Rightarrow> 'f point list \<Rightarrow> nat \<times> nat \<Rightarrow> 'f list \<Rightarrow> 'f list"
where
  "batch_step F G rnd fl dat = (\<lambda>(iter, c) w.
     map (\<lambda>j. fl_add F (w ! j) (fl_div F
           (fold (point_step F G (bf_alpha fl) w j) (take c (drop (start_of rnd (bf_batch_size fl) dat iter) dat)) (fl_int F 0))
           (fl_int F (bf_batch_size fl))))
       [0..<length w])"

lemma basic_iteration_steps:
  assumes "adding_table T (fl_add F) cells D ok" "ok m" "list_all D (km_keys N)" "0 < N" "N \<le> 4294967296"
    and "room_for (bf_batch_size fl) dat" "rnd iter < 2147483648" "start = start_of rnd (bf_batch_size fl) dat iter"
    and "finishes_at other S (outside iter) 0 (announce (bf_batch_size fl) iter (int start) jo) c" "c < n" "start + c \<le> length dat"
    and "\<forall>p \<in> set dat. good_features N p" "job_at other S (outside iter) 0 (announce (bf_batch_size fl) iter (int start) jo) c = Some jo'"
  shows "\<exists>m'. basic_iteration n other S outside F G T rnd fl (int N) dat iter (jo, m) = Some (Inr (jo', m')) \<and> ok m'
    \<and> params_in N (cells m') = batch_step F G rnd fl dat (iter, c) (params_in N (cells m))"
proof -
  let ?w = "params_in N (cells m)" and ?pts = "take c (drop start dat)" and ?b = "fl_int F (bf_batch_size fl)"
  let ?steps = "map (\<lambda>j. fold (point_step F G (bf_alpha fl) ?w j) ?pts (fl_int F 0)) [0..<N]"
  have w: "length ?w = N" "?w \<noteq> []" using assms(4) by (simp_all add: params_in_def)
  obtain m1 where m1: "kv_get T (km_keys N) m = Inr (?w, m1)" "ok m1" "cells m1 = cells m"
    using adding_table.get_cells[OF assms(1,2,3)] by (auto simp: params_in_def km_keys_def comp_def)
  have "fold_res (basic_point F G (bf_alpha fl) (int (length ?w)) ?w) ?pts (replicate N (fl_int F 0))
      = Inr (map (\<lambda>j. fold (point_step F G (bf_alpha fl) ?w j) ?pts (replicate N (fl_int F 0) ! j)) [0..<length ?w])"
    by (rule basic_points_add[OF w(2)]) (use assms(12) w(1) in \<open>auto dest!: in_set_takeD in_set_dropD\<close>)
  then have fold: "fold_res (basic_point F G (bf_alpha fl) (int N) ?w) ?pts (replicate N (fl_int F 0)) = Inr ?steps"
    unfolding w(1) by (simp cong: map_cong)
  have loop: "job_loop n other S (outside iter) (basic_point F G (bf_alpha fl) (int N) ?w) dat 0 (int start)
      (announce (bf_batch_size fl) iter (int start) jo, replicate N (fl_int F 0)) = Some (Inr (jo', ?steps))"
    using assms(9-11,13) fold by (auto simp: job_loop_consecutive)
  let ?push = "map (\<lambda>d. fl_div F d ?b) ?steps"
  have keys: "km_keys (length ?push) = km_keys N" by simp
  obtain m2 m3 where push: "kv_add T (km_keys N) ?push m1 = Inr m2" "kv_clock T m2 = Inr m3" "ok m3"
    "\<forall>k < N. cells m3 (of_nat k) = fl_add F (cells m (of_nat k)) (?push ! k)"
    using adding_table.push_cells[OF assms(1) m1(2), of ?push, unfolded keys] assms(3,5) m1(3) by auto
  have "basic_iteration n other S outside F G T rnd fl (int N) dat iter (jo, m) = Some (Inr (jo', m3))"
    using batch_start_ok(1)[where rnd = rnd and iter = iter, OF assms(6,7)] m1(1) loop push(1,2) w(1)
    by (simp add: basic_iteration_def assms(8)[symmetric] km_keys_def comp_def)
  moreover have "params_in N (cells m3) = batch_step F G rnd fl dat (iter, c) ?w"
    by (rule nth_equalityI) (use push(4) in \<open>simp_all add: params_in_def batch_step_def assms(8)\<close>)
  ultimately show ?thesis using push(3) by blast
qed

section \<open>What a worker does to the model\<close>

text \<open>The numbers of points that the worker works through, given what happens to its jobs.\<close>

fun works :: "nat \<Rightarrow> flag \<Rightarrow> 'b sarray_stream \<Rightarrow> (nat \<Rightarrow> nat \<Rightarrow> message list \<times> job_manager \<Rightarrow> job_manager option) \<Rightarrow> (nat \<Rightarrow> nat) \<Rightarrow> 'f basic_flags
    \<Rightarrow> 'f point list \<Rightarrow> nat list \<Rightarrow> job_manager \<Rightarrow> nat list \<Rightarrow> bool" where
  "works n other S outside rnd fl dat [] jo cs \<longleftrightarrow> cs = []"
| "works n other S outside rnd fl dat (iter # iters) jo [] \<longleftrightarrow> False"
| "works n other S outside rnd fl dat (iter # iters) jo (c # cs) \<longleftrightarrow>
     (let start = start_of rnd (bf_batch_size fl) dat iter; job = announce (bf_batch_size fl) iter (int start) jo
      in finishes_at other S (outside iter) 0 job c \<and> c < n \<and> start + c \<le> length dat
         \<and> (case job_at other S (outside iter) 0 job c of Some jo \<Rightarrow> works n other S outside rnd fl dat iters jo cs | None \<Rightarrow> False))"

lemma basic_iterations_steps:
  assumes table: "adding_table T (fl_add F) cells D ok" "list_all D (km_keys N)" "0 < N" "N \<le> 4294967296"
    and room: "room_for (bf_batch_size fl) dat" "\<And>i. rnd i < 2147483648" "\<forall>p \<in> set dat. good_features N p"
  shows "ok m \<Longrightarrow> works n other S outside rnd fl dat iters jo cs \<Longrightarrow>
    \<exists>jo' m'. basic_iterations n other S outside F G T rnd fl (int N) dat iters (jo, m) = Some (Inr (jo', m')) \<and> ok m'
    \<and> params_in N (cells m') = fold (batch_step F G rnd fl dat) (zip iters cs) (params_in N (cells m))"
proof (induction iters arbitrary: jo m cs)
  case (Cons iter iters)
  let ?start = "start_of rnd (bf_batch_size fl) dat iter"
  let ?jo = "announce (bf_batch_size fl) iter (int ?start) jo"
  obtain c cs' j where c: "cs = c # cs'" "finishes_at other S (outside iter) 0 ?jo c" "c < n" "?start + c \<le> length dat"
    "job_at other S (outside iter) 0 ?jo c = Some j" "works n other S outside rnd fl dat iters j cs'"
    using Cons.prems(2) by (cases cs) (auto simp: Let_def split: option.splits)
  obtain m1 where m1: "basic_iteration n other S outside F G T rnd fl (int N) dat iter (jo, m) = Some (Inr (j, m1))" "ok m1"
    "params_in N (cells m1) = batch_step F G rnd fl dat (iter, c) (params_in N (cells m))"
    using basic_iteration_steps[where outside = outside and iter = iter and S = S and other = other and jo = jo and rnd = rnd and fl = fl and c = c and n = n and G = G,
      OF table(1) Cons.prems(1) table(2-4) room(1,2) refl c(2-4) room(3) c(5)] by (elim exE conjE)
  show ?case using Cons.IH[OF m1(2) c(6)] by (simp add: m1(1,3) c(1))
qed simp

text \<open>C40. Whatever rapid reassignment does to the jobs of a worker that is alone on its table, as long as its batches come to an end, the worker ends, and
  the model in the table is what the iterations make of it one after the other: to each parameter the iteration adds the sum of the logistic steps
  of the \<open>c\<close> consecutive points from the start of its batch on, \<open>c\<close> being the number of points until its job was finished, divided by the batch size.  The arithmetic
  is any, and may round; the table is any that adds with the addition of that arithmetic, as the storage of a server does.  The conditions: more than twice the
  batch and one point, fewer than \<open>2^31\<close> parameters and drawings, and features inside the dimensions.\<close>

theorem basic_worker_steps:
  assumes "adding_table T (fl_add F) cells D ok" "ok m" "list_all D (km_keys N)" "N = Suc (unat (bf_num_dims fl))" "N < 2147483648"
    and "room_for (bf_batch_size fl) dat" "\<forall>i. rnd i < 2147483648" "\<forall>p \<in> set dat. good_features N p" "get_job_manager wid rr = Inr jo"
    and "works n other S outside rnd fl dat [0..<nat (bf_num_iters fl)] (set_do_reassgn (bf_reassgn_mode fl \<noteq> 0) jo) cs"
  shows "\<exists>jo' m'. basic_worker n other S outside F G T rnd fl dat rr wid m = Some (Inr (jo', m')) \<and> ok m'
    \<and> params_in N (cells m') = fold (batch_step F G rnd fl dat) (zip [0..<nat (bf_num_iters fl)] cs) (params_in N (cells m))"
proof -
  have d: "unat (bf_num_dims fl) < 2147483647" using assms(4,5) by simp
  then have small: "int (unat (bf_num_dims fl)) < 2147483647" by linarith
  then have u: "uint (bf_num_dims fl) < 2147483647" by simp
  then have "take_bit 32 (uint (bf_num_dims fl)) = uint (bf_num_dims fl)" by (intro take_bit_int_eq_self) simp_all
  then have "uint (ucast (bf_num_dims fl) :: u32) = uint (bf_num_dims fl)" by (simp add: unsigned_ucast_eq)
  then have "to_i32 (ucast (bf_num_dims fl)) = int (unat (bf_num_dims fl))"
    using to_i32_eq_uint[of "ucast (bf_num_dims fl)"] u by simp
  then have "as_i32 (to_i32 (ucast (bf_num_dims fl)) + 1) = Inr (int N)" using u assms(4) by (simp add: in_i32_def as_i32_def)
  then have "basic_worker n other S outside F G T rnd fl dat rr wid m
      = basic_iterations n other S outside F G T rnd fl (int N) dat [0..<nat (bf_num_iters fl)] (set_do_reassgn (bf_reassgn_mode fl \<noteq> 0) jo, m)"
    using assms(9) by (simp add: basic_worker_def)
  moreover have "0 < N" "N \<le> 4294967296" using assms(4,5) by simp_all
  ultimately show ?thesis
    using basic_iterations_steps[OF assms(1,3) _ _ assms(6) _ assms(8,2,10)] assms(7) by simp
qed

text \<open>A worker that is left alone works through whole batches.\<close>

lemma works_alone:
  assumes "\<And>i k jo. outside i k ([], jo) = Some jo" "room_for (bf_batch_size fl) dat" "\<And>i. rnd i < 2147483648" "nat (bf_batch_size fl) < n"
  shows "\<not> jo_do jo \<Longrightarrow> works n other S outside rnd fl dat iters jo (replicate (length iters) (nat (bf_batch_size fl)))"
proof (induction iters arbitrary: jo)
  case (Cons iter iters)
  define start where "start = start_of rnd (bf_batch_size fl) dat iter"
  let ?b = "nat (bf_batch_size fl)" and ?jo = "announce (bf_batch_size fl) iter (int start) jo"
  have b: "0 \<le> bf_batch_size fl" "length dat < 2147483648" using assms(2) by (simp_all add: room_for_def)
  note st = batch_start_ok(2)[where rnd = rnd and iter = iter, OF assms(2,3), folded start_def]
  have "finishes_at other S (outside iter) 0 ?jo ?b \<and> (\<exists>jo'. job_at other S (outside iter) 0 ?jo ?b = Some jo' \<and> \<not> jo_do jo')"
    by (rule plain_finishes[OF assms(1) _ _ announce_at_point[OF b(1)]]) (use st b Cons.prems in \<open>simp_all add: announce_job\<close>)
  then show ?case using Cons.IH st assms(4) by (auto simp: Let_def start_def[symmetric])
qed simp

section \<open>A run\<close>

text \<open>One iteration in which the worker takes over one more point: its batch has one point, and it reads two of its own.\<close>

definition demo_basic :: "u32 basic_flags" where
  "demo_basic = \<lparr>bf_num_dims = 1, bf_num_iters = 1, bf_staleness = 0, bf_workers = 1, bf_servers = 1, bf_batch_size = 1, bf_alpha = 1,
     bf_reassgn_mode = 0, bf_group_mode = 0, bf_threshold = 9 / 10\<rparr>"

definition demo_basic_points :: "u32 point list" where
  "demo_basic_points = map (\<lambda>v. ([(0, v)], 1)) [2, 9, 4, 8, 1]"

definition word_sgd :: "u32 sgd_fl" where
  "word_sgd = \<lparr>sg_sigmoid = id, sg_log0 = (+), sg_log1 = (+), sg_hinge = (\<lambda>l y p. l)\<rparr>"

definition demo_basic_rapid :: rapid where
  "demo_basic_rapid = (rr_new 1 1 1 0)\<lparr>rr_job_managers := [jo_new False 50 []]\<rparr>"

definition demo_outside :: "nat \<Rightarrow> nat \<Rightarrow> message list \<times> job_manager \<Rightarrow> job_manager option" where
  "demo_outside i k = (\<lambda>(_, jo). Some (if k = 0 then take_over \<lparr>helper_batch_size_new = 1, helper_start_pt_new = 3, helpee_batch_size_new = 1\<rparr> jo else jo))"

lemma demo_works: "works 3 kBarrier demo_stream demo_outside (\<lambda>_. 0) demo_basic demo_basic_points [0] (set_do_reassgn False (jo_new False 50 [])) [2]"
  by code_simp

theorem basic_worker_steps_witness:
  "\<exists>jo' m'. basic_worker 3 kBarrier demo_stream demo_outside word_fl word_sgd (storage_table (float_val (+))) (\<lambda>_. 0) demo_basic demo_basic_points demo_basic_rapid 0
      (MapStorage Map.empty) = Some (Inr (jo', m'))
    \<and> params_in 2 (storage_view (float_val (+)) m') = batch_step word_fl word_sgd (\<lambda>_. 0) demo_basic demo_basic_points (0, 2) [0, 0]"
proof -
  have add: "fl_add word_fl = (+)" by (simp add: word_fl_def)
  have serves: "serving (\<lambda>_. True) (MapStorage Map.empty :: u32 storage)" "list_all (\<lambda>_. True) (km_keys 2)" by (simp_all add: serving_def list_all_iff)
  have dims: "2 = Suc (unat (bf_num_dims demo_basic))" "2 < (2147483648 :: nat)" by (simp_all add: demo_basic_def)
  have room: "room_for (bf_batch_size demo_basic) demo_basic_points" "\<forall>i :: nat. (0 :: nat) < 2147483648" "\<forall>p \<in> set demo_basic_points. good_features 2 p"
    by (simp_all add: demo_basic_def room_for_def demo_basic_points_def good_features_def)
  have job: "get_job_manager 0 demo_basic_rapid = Inr (jo_new False 50 [])"
    by (simp add: get_job_manager_def demo_basic_rapid_def rr_new_def check_that_def vec_at_def)
  have flags: "nat (bf_num_iters demo_basic) = 1" "(bf_reassgn_mode demo_basic \<noteq> 0) = False" by (simp_all add: demo_basic_def)
  have start: "params_in 2 (storage_view (float_val (+)) (MapStorage Map.empty)) = [0, 0]" by code_simp
  have "works 3 kBarrier demo_stream demo_outside (\<lambda>_. 0) demo_basic demo_basic_points [0..<nat (bf_num_iters demo_basic)]
      (set_do_reassgn (bf_reassgn_mode demo_basic \<noteq> 0) (jo_new False 50 [])) [2]"
    unfolding flags using demo_works by simp
  from basic_worker_steps[OF float_adds.adding_table_axioms[of "(+)", folded add] serves dims room job this, unfolded add, of word_sgd] show ?thesis
    unfolding start flags by auto
qed

end
