(* ===== verification/Spec2Isabelle.thy ===== *)
theory Spec2Isabelle
  imports Bin_Stream Node_Util Numbered_Mailbox Engine Hdfs_Manager Rapid_Reassignment Data_Sampling Gbdt_Boost Gbdt_Global Gbdt_First Basic_Program
begin

text \<open>
  FlexPS, a parameter server.  The processes of a deployment keep tables from keys (\<open>uint32_t\<close>) to values.  Every process
  runs server threads, which own ranges of the keys, worker threads, which train a model and send \<open>Get\<close>, \<open>Add\<close> and \<open>Clock\<close>
  requests, a helper thread, which receives the answers for the workers, and a mailbox with a sender thread, which carry messages
  between threads and, over ZeroMQ sockets, between processes.  How far a worker may run ahead of the others is decided
  by the consistency model of the table.  Paths below are those under \<open>src/\<close>.

  \<^bold>\<open>How the code is translated.\<close>  A function that can abort (a failed \<open>CHECK\<close>, an exception, an
  access outside a vector, a division by zero, an \<open>int\<close> overflow where it matters) has a result in \<open>'a res\<close>, \<open>Inl\<close> a \<open>failure\<close> or \<open>Inr\<close> a value
  (\<open>Flexps_Prelude\<close>).  \<open>uint32_t\<close> and \<open>uint64_t\<close> are words, \<open>int\<close> an integer with \<open>as_i32\<close>, \<open>to_i32\<close> where it
  overflows or is converted; also the counters of the loops of \<open>Bin_Stream\<close> and the positions of \<open>Line_Input\<close>, which are \<open>int\<close> in the code.  A \<open>std::map\<close> is a sorted association list (\<open>omap\<close>), a class a record whose methods take and
  return it.  A wait that may not end, and a loop that may not, gives \<open>None\<close>.  A thread is what its loop
  does to its queue; where the interleaving matters there is a step relation over the lock sections.  What the sources only call (ZeroMQ,
  HDFS, \<open>rand\<close>, \<open>atof\<close>, floating point arithmetic, the contents of memory nobody has written) is an argument,
  with a law only where a theorem names it.

  \<^bold>\<open>The shared part.\<close>
  \<^item> \<open>Flexps_Prelude\<close>: results, loops that stop at the first failure, ordered maps, machine integers, the collections of simplification rules.
  \<^item> \<open>Byte_Codec\<close> and \<open>Text_Format\<close>: values as bytes in memory and as decimal text; \<open>Bin_Stream\<close>: \<open>base/serialization\<close>, with
    round trips from the locale \<open>serializer\<close>.
  \<^item> \<open>Messages\<close>: \<open>base/message.hpp\<close>, \<open>node.hpp\<close>, \<open>threadsafe_queue.hpp\<close>; \<open>Node_Util\<close>: \<open>base/node_util.cpp\<close>; \<open>Shared_Array\<close>:
    \<open>base/third_party\<close>, with the binary searches.

  \<^bold>\<open>The server\<close> (\<open>server/\<close>).
  \<^item> \<open>Storage\<close>: \<open>map_storage.hpp\<close>, \<open>vector_storage.hpp\<close>; the view \<open>storage_view\<close> says what a key holds, and every operation is described by it.
  \<^item> \<open>Progress_Tracker\<close>, \<open>Pending_Buffer\<close>: the clocks of the workers, with the smallest; the requests that wait for a clock.
  \<^item> \<open>Abstract_Model\<close>: the locale \<open>consistency_model\<close> (a request is answered or parked, never both, never lost), which
    \<open>Asp_Model\<close>, \<open>Bsp_Model\<close>, \<open>Ssp_Model\<close> interpret; each of the last two has a transition relation (\<open>bsp_reach\<close>, \<open>ssp_run\<close>)
    with its invariant, the log of the Adds and the staleness a Get sees.
  \<^item> \<open>Sparse_Recorder\<close>, \<open>Sparse_Ssp_Model\<close>: \<open>server/sparsessp\<close>; both recorders meet the locale \<open>sparse_recorder\<close>.
  \<^item> \<open>Server_Thread\<close>: \<open>server_thread.cpp\<close>; the loop over the registered models, whose replies are, message by message, those of the tables.

  \<^bold>\<open>The worker\<close> (\<open>worker/\<close>).
  \<^item> \<open>Partition\<close>: \<open>simple_range_manager.hpp\<close>, a request cut into pieces; \<open>Table_Box\<close>: what the client tables share.
  \<^item> \<open>App_Blocker\<close>: an application thread waits for the answers that the helper counts; the step relation \<open>ab_step\<close> has the lock sections.
  \<^item> \<open>Client_Tables\<close>: \<open>kv_client_table.hpp\<close>, \<open>simple_kv_table.hpp\<close>; \<open>Sparse_Client\<close>: the table that knows its keys in advance.

  \<^bold>\<open>Communication\<close> (\<open>comm/\<close>, \<open>comm2/\<close>).
  \<^item> \<open>Mailbox\<close>: frames on the wire, queues, sender; \<open>Barrier\<close>: the counters of both barriers as steps (\<open>bar_step\<close>), safe in every order of arrival;
    \<open>Mailbox_Stop\<close>: the barrier of \<open>comm/mailbox.cpp\<close> as a call, and how the mailbox stops, given what its receiver gets meanwhile;
    \<open>Numbered_Mailbox\<close>: the mailbox of \<open>comm2\<close>, which refines those steps; \<open>Channel\<close>: the channels of \<open>comm2\<close>.

  \<^bold>\<open>The driver\<close> (\<open>driver/\<close>).
  \<^item> \<open>Id_Mapper\<close>, \<open>Worker_Alloc\<close>: thread ids and the workers of a task; \<open>Engine\<close>: starting, tables, barriers, tasks, stopping, composed of all of the above.

  \<^bold>\<open>Loading\<close> (\<open>io/\<close>, \<open>lib/\<close>).
  \<^item> \<open>Block_Assigner\<close>: the master hands out the blocks of the files; \<open>Line_Input\<close>: a loading thread turns blocks into lines, with the conditions
    under which none is lost;
    \<open>Hdfs_Manager\<close>: the threads of all nodes; \<open>Data_Sampling\<close>: a line as a data object, and batches.

  \<^bold>\<open>Programs on top\<close> (\<open>examples2/\<close>, and \<open>examples/logistic_regression.cpp\<close>).
  \<^item> \<open>Rapid_Reassignment\<close>: workers that take over points of slower ones.
  \<^item> \<open>Gbdt_Data\<close>, \<open>Gbdt_Tree\<close>, \<open>Gbdt_Table\<close>, \<open>Gbdt_Boost\<close>: boosted trees, on a table given by its operations (\<open>kv_ops\<close>); the locale \<open>exact_table\<close>
    says what a table that adds exactly does, and the storage of the server meets it.  \<open>Gbdt_Balance\<close>, \<open>Gbdt_Global\<close>: what the nodes
    exchange over channels; \<open>Gbdt_Program\<close>: the program, from the records to the error, which the workers of a node add up step by step without a lock.  \<open>Gbdt_First\<close>: the first version of all this
    (\<open>examples/gbdt\<close>), where it differs; it restores the table too, and cannot build a forest of fewer than 39 records.
  \<^item> \<open>Job_Loop\<close>: how a program works through its batch while the threads of the reassignment change the job; whatever they do, the points
    are consecutive (\<open>job_loop_consecutive\<close>), also those of a worker that helps (\<open>helper_reads_on\<close>).  \<open>Basic_Program\<close>: the program around it.
  \<^item> \<open>Sgd\<close>, \<open>Lr_Program\<close>: gradient descent and the logistic regression program; \<open>Kmeans\<close>, \<open>Kmeans_Program\<close>: the centers of clusters and the
    program that moves them.  The worker refines the plain algorithm, in arithmetic that may round, on any table that adds with it (the locale
    \<open>adding_table\<close>, met by the storages of the servers).

  \<^bold>\<open>What the lemmas show.\<close>  For each component: an invariant that the constructor establishes and every operation keeps, the result of every
  operation on every branch, and what its callers rely on (the locales).  Across components: the properties C1 to C40 of the texts, among them the
  staleness of the consistency models and that they do not deadlock, \<open>Get\<close> from the client through cutting, answering
  and collecting, that no \<open>Get\<close> is lost or answered twice by a server of dense tables, that tables do not disturb each other, that every line of the input but an
  empty first one reaches one reader, that the engine pairs workers and threads and stops, and that the programs do not
  leave their vectors, do not lose records, and, with exact arithmetic and one worker, do not worsen their error.  The text of each property names its
  conditions; a lemma beside it often shows what happens without one (\<open>long_vector_overflows\<close>, \<open>overlapping_addition_lost\<close>, \<open>confirm_after_terminate\<close>).

  \<^bold>\<open>Bounds and fuel.\<close>  Recursions that shrink have measures.  The others count: \<open>train\<close> needs \<open>max_depth - depth + 1\<close> and \<open>forest_loop\<close>
  \<open>num_of_trees + 1\<close>, which suffices, and more changes nothing (\<open>train_enough_fuel\<close>, \<open>building_ends\<close>); \<open>li_all n\<close> reads at most \<open>n\<close>
  lines, and \<open>every_line_once\<close> states that some \<open>n\<close> comes to the end; \<open>draw_new\<close> may run for ever in the code too
  (with fewer points than centers it does), and its theorems are about the draws it has made; \<open>job_loop\<close> needs one more than the
  batch size when nobody changes the job (\<open>batch_plain\<close>), and one more than the points it does in general.
  Where a theorem has a bound such as \<open>2 ^ 31\<close> on the number of dimensions or records, it is the width of the \<open>int\<close> that counts them in the code.

  \<^bold>\<open>Not modelled.\<close>  Starting and joining threads, logging, clocks that measure time and command line
  parsing.  The abstract classes have no code; their contracts are locales.  The remaining programs under \<open>examples/\<close> and \<open>examples2/\<close>
  call the modelled components with fixed data, or repeat text of those that are modelled (\<open>examples2/logistic_regression.cpp\<close>, \<open>data_dist.cpp\<close>).
  \<open>examples/rapid_reassignment\<close> is the text of \<open>examples2/rapid_reassignment\<close>; the files under \<open>bk/\<close> are backups that nothing includes.  \<open>comm2/sender.cpp\<close> is
  the text of \<open>comm/sender.cpp\<close>.  Rounding of floating point numbers is never assumed away silently: a type of numbers with its
  operations is an argument, and theorems that need exact arithmetic say so (\<open>exact_fl\<close>).
\<close>

end
